(* ===== verification/K8s_Prelude.thy ===== *)
theory K8s_Prelude
  imports Main "HOL-Library.Multiset"
begin

text \<open>
  What every component of the development shares: how Go's \<open>interface{}\<close>, errors and maps are
  represented, and the facts on lists, sets and maps that the component proofs use.

  \<^item> An \<open>interface{}\<close> value is an \<open>'v option\<close>: \<open>None\<close> is Go's \<open>nil\<close>.
  \<^item> A Go map is a partial function; \<open>len\<close> of it is the number of its keys.
  \<^item> Go leaves the iteration order of \<open>range\<close> over a map open. An operation that ranges over a map
    takes the order as an argument, a list of keys, and its theorems hold for every list that
    \<open>range_order\<close> accepts: each key of the map exactly once.
  \<^item> A panic is \<open>None\<close> of an option where the operation can do nothing else.
\<close>

section \<open>Interfaces, errors and results\<close>

type_synonym 'v iface = "'v option"

datatype 'v error =
    Errorf string
  | Wrapf string "'v error"
  | KeyError "'v iface" "'v error"
  | ErrFIFOClosed
  | ErrZeroLengthDeltasObject

type_synonym ('v, 'a) res = "'v error + 'a"

text \<open>
  A blocking call that returns an item: it waits on its condition variable in the current state, or
  it returns the item with an error that may be nil, or a callback it runs panics.
\<close>

datatype ('v, 'r) pop_out = Waits | Returns 'r "'v error option" | Panics "'v error"

text \<open>How a call ends that returns an error value but may also panic on the way.\<close>

datatype 'v ret = Ret "'v error option" | Panic "'v error"

definition ret_of_panic :: "'v error option \<Rightarrow> 'v ret" where
  "ret_of_panic p = (case p of None \<Rightarrow> Ret None | Some e \<Rightarrow> Panic e)"

lemma ret_of_panic_None [simp]: "ret_of_panic None = Ret None"
  by (simp add: ret_of_panic_def)

type_synonym 'v key_func = "'v iface \<Rightarrow> ('v, string) res"

section \<open>Go maps\<close>

type_synonym 'v gomap = "string \<Rightarrow> 'v option"

definition go_len :: "('k \<Rightarrow> 'v option) \<Rightarrow> nat" where
  "go_len m = card (dom m)"

definition range_order :: "'k list \<Rightarrow> ('k \<Rightarrow> 'v option) \<Rightarrow> bool" where
  "range_order ks m \<longleftrightarrow> distinct ks \<and> set ks = dom m"

named_theorems go_map_simps

lemma range_order_finite: "range_order ks m \<Longrightarrow> finite (dom m)"
  by (metis List.finite_set range_order_def)

lemma range_order_len [go_map_simps]: "range_order ks m \<Longrightarrow> go_len m = length ks"
  by (metis distinct_card go_len_def range_order_def)

lemma range_order_exists: "finite (dom m) \<Longrightarrow> \<exists>ks. range_order ks m"
  using finite_distinct_list [of "dom m"] by (auto simp: range_order_def)

text \<open>A choice of an iteration order for every map of a type.\<close>

definition map_iter :: "(('k \<Rightarrow> 'v option) \<Rightarrow> 'k list) \<Rightarrow> bool" where
  "map_iter order \<longleftrightarrow> (\<forall>m. finite (dom m) \<longrightarrow> range_order (order m) m)"

lemma map_iter_exists: "\<exists>order :: ('k \<Rightarrow> 'v option) \<Rightarrow> 'k list. map_iter order"
  unfolding map_iter_def using range_order_exists by metis

lemma map_iterD: "map_iter order \<Longrightarrow> finite (dom m) \<Longrightarrow> distinct (order m) \<and> set (order m) = dom m"
  by (simp add: map_iter_def range_order_def)

lemma map_iter_empty [simp]: "map_iter order \<Longrightarrow> order (\<lambda>_. None) = []"
  using map_iterD [of order Map.empty] by simp

lemma distinct_singleton_list: "distinct xs \<Longrightarrow> set xs = {a} \<Longrightarrow> xs = [a]"
  by (cases xs; cases "tl xs") auto

lemma map_iter_single [simp]: "map_iter order \<Longrightarrow> order [k \<mapsto> v] = [k]"
  using map_iterD [of order "[k \<mapsto> v]"] by (auto intro: distinct_singleton_list)

lemma go_len_empty [simp]: "go_len Map.empty = 0"
  by (simp add: go_len_def)

lemma go_len_0_iff: "finite (dom m) \<Longrightarrow> go_len m = 0 \<longleftrightarrow> m = Map.empty"
  by (simp add: go_len_def)

text \<open>Reading a Go map of interfaces at a key it does not have gives \<open>nil\<close>.\<close>

definition map_get :: "'v iface gomap \<Rightarrow> string \<Rightarrow> 'v iface" where
  "map_get m k = (case m k of None \<Rightarrow> None | Some v \<Rightarrow> v)"

lemma map_get_upd [simp]: "map_get (m(k \<mapsto> v)) k' = (if k' = k then v else map_get m k')"
  by (simp add: map_get_def)

lemma map_get_None [simp]: "m k = None \<Longrightarrow> map_get m k = None"
  by (simp add: map_get_def)

section \<open>Lists\<close>

definition list_swap :: "'a list \<Rightarrow> nat \<Rightarrow> nat \<Rightarrow> 'a list" where
  "list_swap xs i j = xs[i := xs ! j, j := xs ! i]"

lemma length_list_swap [simp]: "length (list_swap xs i j) = length xs"
  by (simp add: list_swap_def)

lemma nth_list_swap:
  "i < length xs \<Longrightarrow> j < length xs \<Longrightarrow> k < length xs \<Longrightarrow>
     list_swap xs i j ! k = (if k = j then xs ! i else if k = i then xs ! j else xs ! k)"
  by (auto simp: list_swap_def nth_list_update)

lemma mset_list_swap [simp]:
  "i < length xs \<Longrightarrow> j < length xs \<Longrightarrow> mset (list_swap xs i j) = mset xs"
  using mset_swap [of j xs i] by (simp add: list_swap_def)

lemma set_list_swap [simp]:
  "i < length xs \<Longrightarrow> j < length xs \<Longrightarrow> set (list_swap xs i j) = set xs"
  using mset_list_swap [of i xs j] by (metis set_mset_mset)

lemma distinct_list_swap [simp]:
  "i < length xs \<Longrightarrow> j < length xs \<Longrightarrow> distinct (list_swap xs i j) = distinct xs"
  using mset_list_swap [of i xs j] by (metis mset_eq_imp_distinct_iff)

lemma map_list_swap:
  "i < length xs \<Longrightarrow> j < length xs \<Longrightarrow> map f (list_swap xs i j) = list_swap (map f xs) i j"
  by (simp add: list_swap_def map_update)

lemma nth_butlast_less: "k < length xs - 1 \<Longrightarrow> butlast xs ! k = xs ! k"
  by (simp add: nth_butlast)

section \<open>Integers and time\<close>

text \<open>
  Instants and durations are nanoseconds in \<open>int\<close>. \<open>wrap64\<close> and \<open>wrap32\<close> are the wrap-around of int64 and int32;
  \<open>time.Time.Sub\<close> saturates at the range of int64.
\<close>

definition wrap64 :: "int \<Rightarrow> int" where
  "wrap64 n = (n + 2 ^ 63) mod 2 ^ 64 - 2 ^ 63"

definition wrap32 :: "int \<Rightarrow> int" where
  "wrap32 n = (n + 2 ^ 31) mod 2 ^ 32 - 2 ^ 31"

definition time_Sub :: "int \<Rightarrow> int \<Rightarrow> int" where
  "time_Sub t u = max (- (2 ^ 63)) (min (2 ^ 63 - 1) (t - u))"

lemma wrap64_id: "- (2 ^ 63) \<le> n \<Longrightarrow> n < 2 ^ 63 \<Longrightarrow> wrap64 n = n"
  by (simp add: wrap64_def)

lemma wrap32_id: "- (2 ^ 31) \<le> n \<Longrightarrow> n < 2 ^ 31 \<Longrightarrow> wrap32 n = n"
  by (simp add: wrap32_def)

lemma wrap32_bounds: "- (2 ^ 31) \<le> wrap32 n" "wrap32 n < 2 ^ 31"
  by (auto simp: wrap32_def intro: order.strict_trans2 [OF pos_mod_bound])

lemma time_Sub_mono: "t \<le> t' \<Longrightarrow> time_Sub t u \<le> time_Sub t' u"
  by (auto simp: time_Sub_def)

lemma time_Sub_less: "- (2 ^ 63) \<le> b \<Longrightarrow> b < 2 ^ 63 - 1 \<Longrightarrow> time_Sub t u > b \<longleftrightarrow> t - u > b"
  by (auto simp: time_Sub_def)

end
