(* ===== verification/GoHeap.thy ===== *)
theory GoHeap
  imports K8s_Prelude
begin

text \<open>
  Go's \<open>container/heap\<close>, the standard-library package that \<open>tools/cache/heap.go\<close> and
  \<open>util/workqueue/delaying_queue.go\<close> drive through their own \<open>Less\<close>, \<open>Swap\<close>, \<open>Push\<close> and
  \<open>Pop\<close> methods. The package's functions take those methods as arguments, as Go passes them in the
  \<open>heap.Interface\<close> value; \<open>None\<close> is a panic of a method (an index out of range, a nil pointer).

  The interface is the locale \<open>heap_interface\<close>: what \<open>Less\<close> and \<open>Swap\<close> promise on the elements a
  state shows. Its lemmas say that the package's functions never panic, keep the elements and
  establish the heap order, for any strict weak order.
\<close>

section \<open>The functions of the package\<close>

abbreviation parent :: "nat \<Rightarrow> nat" where
  "parent k \<equiv> (k - 1) div 2"

function heap_up ::
  "('s \<Rightarrow> nat \<Rightarrow> nat \<Rightarrow> bool option) \<Rightarrow> ('s \<Rightarrow> nat \<Rightarrow> nat \<Rightarrow> 's option) \<Rightarrow> 's \<Rightarrow> nat \<Rightarrow> 's option"
where
  "heap_up lessf swapf h j =
     (let i = parent j in
      if i = j then Some h
      else case lessf h j i of
             None \<Rightarrow> None
           | Some False \<Rightarrow> Some h
           | Some True \<Rightarrow> (case swapf h i j of None \<Rightarrow> None | Some h' \<Rightarrow> heap_up lessf swapf h' i))"
  by pat_completeness auto
termination
  by (relation "measure (\<lambda>(_, _, _, j). j)") auto

text \<open>The loop of \<open>down\<close>: the final state and the final position of the element.\<close>

function heap_down_loop ::
  "('s \<Rightarrow> nat \<Rightarrow> nat \<Rightarrow> bool option) \<Rightarrow> ('s \<Rightarrow> nat \<Rightarrow> nat \<Rightarrow> 's option) \<Rightarrow> 's \<Rightarrow> nat \<Rightarrow> nat
     \<Rightarrow> ('s \<times> nat) option"
where
  "heap_down_loop lessf swapf h i n =
     (let j1 = 2 * i + 1; j2 = j1 + 1 in
      if j1 \<ge> n then Some (h, i)
      else case (if j2 < n then lessf h j2 j1 else Some False) of
             None \<Rightarrow> None
           | Some right \<Rightarrow>
               (let j = (if right then j2 else j1) in
                case lessf h j i of
                  None \<Rightarrow> None
                | Some False \<Rightarrow> Some (h, i)
                | Some True \<Rightarrow>
                    (case swapf h i j of
                       None \<Rightarrow> None
                     | Some h' \<Rightarrow> heap_down_loop lessf swapf h' j n)))"
  by pat_completeness auto
termination
  by (relation "measure (\<lambda>(_, _, _, i, n). n - i)") (auto split: if_splits)

declare heap_up.simps [simp del] heap_down_loop.simps [simp del]

lemma heap_down_loop_unfold:
  assumes "2 * i + 1 < n"
    and "(if 2 * i + 2 < n then lessf h (2 * i + 2) (2 * i + 1) else Some False) = Some right"
    and "j = (if right then 2 * i + 2 else 2 * i + 1)" and "lessf h j i = Some b"
  shows "heap_down_loop lessf swapf h i n =
     (if b then (case swapf h i j of None \<Rightarrow> None | Some h' \<Rightarrow> heap_down_loop lessf swapf h' j n)
      else Some (h, i))"
proof -
  have e: "2 * i + 1 + 1 = 2 * i + (2::nat)" by simp
  have r: "(if 2 * i + 1 + 1 < n then lessf h (2 * i + 1 + 1) (2 * i + 1) else Some False)
      = Some right"
    and j: "j = (if right then 2 * i + 1 + 1 else 2 * i + 1)"
    using assms(2,3) by (simp_all only: e)
  show ?thesis
    using assms(1,4)
    by (subst heap_down_loop.simps, unfold Let_def r option.case j [symmetric]) (cases b; simp)
qed

definition heap_down ::
  "('s \<Rightarrow> nat \<Rightarrow> nat \<Rightarrow> bool option) \<Rightarrow> ('s \<Rightarrow> nat \<Rightarrow> nat \<Rightarrow> 's option) \<Rightarrow> 's \<Rightarrow> nat \<Rightarrow> nat
     \<Rightarrow> ('s \<times> bool) option"
where
  "heap_down lessf swapf h i0 n =
     (case heap_down_loop lessf swapf h i0 n of None \<Rightarrow> None | Some (h', i) \<Rightarrow> Some (h', i > i0))"

definition heap_Push ::
  "('s \<Rightarrow> nat \<Rightarrow> nat \<Rightarrow> bool option) \<Rightarrow> ('s \<Rightarrow> nat \<Rightarrow> nat \<Rightarrow> 's option) \<Rightarrow> ('s \<Rightarrow> nat)
     \<Rightarrow> ('s \<Rightarrow> 'x \<Rightarrow> 's) \<Rightarrow> 's \<Rightarrow> 'x \<Rightarrow> 's option"
where
  "heap_Push lessf swapf len push h x = (let h' = push h x in heap_up lessf swapf h' (len h' - 1))"

definition heap_Pop ::
  "('s \<Rightarrow> nat \<Rightarrow> nat \<Rightarrow> bool option) \<Rightarrow> ('s \<Rightarrow> nat \<Rightarrow> nat \<Rightarrow> 's option) \<Rightarrow> ('s \<Rightarrow> nat)
     \<Rightarrow> ('s \<Rightarrow> ('s \<times> 'r) option) \<Rightarrow> 's \<Rightarrow> ('s \<times> 'r) option"
where
  "heap_Pop lessf swapf len pop h =
     (let n = len h - 1 in
      case swapf h 0 n of
        None \<Rightarrow> None
      | Some h1 \<Rightarrow>
          (case heap_down lessf swapf h1 0 n of None \<Rightarrow> None | Some (h2, _) \<Rightarrow> pop h2))"

definition heap_Fix ::
  "('s \<Rightarrow> nat \<Rightarrow> nat \<Rightarrow> bool option) \<Rightarrow> ('s \<Rightarrow> nat \<Rightarrow> nat \<Rightarrow> 's option) \<Rightarrow> ('s \<Rightarrow> nat)
     \<Rightarrow> 's \<Rightarrow> nat \<Rightarrow> 's option"
where
  "heap_Fix lessf swapf len h i =
     (case heap_down lessf swapf h i (len h) of
        None \<Rightarrow> None
      | Some (h', moved) \<Rightarrow> if moved then Some h' else heap_up lessf swapf h' i)"

definition heap_Remove ::
  "('s \<Rightarrow> nat \<Rightarrow> nat \<Rightarrow> bool option) \<Rightarrow> ('s \<Rightarrow> nat \<Rightarrow> nat \<Rightarrow> 's option) \<Rightarrow> ('s \<Rightarrow> nat)
     \<Rightarrow> ('s \<Rightarrow> ('s \<times> 'r) option) \<Rightarrow> 's \<Rightarrow> nat \<Rightarrow> ('s \<times> 'r) option"
where
  "heap_Remove lessf swapf len pop h i =
     (let n = len h - 1 in
      if n = i then pop h
      else case swapf h i n of
             None \<Rightarrow> None
           | Some h1 \<Rightarrow>
               (case heap_down lessf swapf h1 i n of
                  None \<Rightarrow> None
                | Some (h2, moved) \<Rightarrow>
                    (case (if moved then Some h2 else heap_up lessf swapf h2 i) of
                       None \<Rightarrow> None
                     | Some h3 \<Rightarrow> pop h3)))"

section \<open>Heap order\<close>

definition strict_weak_order :: "('a \<Rightarrow> 'a \<Rightarrow> bool) \<Rightarrow> bool" where
  "strict_weak_order lt \<longleftrightarrow>
     (\<forall>a b. lt a b \<longrightarrow> \<not> lt b a) \<and> (\<forall>a b c. \<not> lt b a \<longrightarrow> \<not> lt c b \<longrightarrow> \<not> lt c a)"

lemmas swo_asym = strict_weak_order_def [THEN iffD1, THEN conjunct1, rule_format]

lemmas swo_trans = strict_weak_order_def [THEN iffD1, THEN conjunct2, rule_format]

lemma strict_weak_order_less [simp]: "strict_weak_order ((<) :: 'a::linorder \<Rightarrow> 'a \<Rightarrow> bool)"
  by (auto simp: strict_weak_order_def)

lemma strict_weak_order_key:
  "strict_weak_order lt \<Longrightarrow> strict_weak_order (\<lambda>a b. lt (f a) (f b))"
  unfolding strict_weak_order_def by metis

text \<open>The element at \<open>k\<close> is not below its parent; the order over the first \<open>n\<close> elements.\<close>

definition edge_ok :: "('a \<Rightarrow> 'a \<Rightarrow> bool) \<Rightarrow> 'a list \<Rightarrow> nat \<Rightarrow> bool" where
  "edge_ok lt xs k \<longleftrightarrow> \<not> lt (xs ! k) (xs ! parent k)"

definition heap_prefix :: "('a \<Rightarrow> 'a \<Rightarrow> bool) \<Rightarrow> 'a list \<Rightarrow> nat \<Rightarrow> bool" where
  "heap_prefix lt xs n \<longleftrightarrow> (\<forall>k. 0 < k \<and> k < n \<longrightarrow> edge_ok lt xs k)"

abbreviation is_heap :: "('a \<Rightarrow> 'a \<Rightarrow> bool) \<Rightarrow> 'a list \<Rightarrow> bool" where
  "is_heap lt xs \<equiv> heap_prefix lt xs (length xs)"

text \<open>
  A heap with a hole at \<open>i\<close>: every edge that does not touch \<open>i\<close> is in order, and the children
  of \<open>i\<close> are in order with respect to its parent. \<open>up\<close> also needs the edges to the children
  (\<open>below\<close>), and a swap on the way \<open>down\<close> leaves the edge to the parent in order (\<open>above\<close>).
\<close>

definition heap_hole :: "('a \<Rightarrow> 'a \<Rightarrow> bool) \<Rightarrow> 'a list \<Rightarrow> nat \<Rightarrow> nat \<Rightarrow> bool" where
  "heap_hole lt xs n i \<longleftrightarrow>
     (\<forall>k. 0 < k \<and> k < n \<and> k \<noteq> i \<and> parent k \<noteq> i \<longrightarrow> edge_ok lt xs k) \<and>
     (\<forall>k. 0 < k \<and> k < n \<and> parent k = i \<and> 0 < i \<longrightarrow> \<not> lt (xs ! k) (xs ! parent i))"

definition below_ok :: "('a \<Rightarrow> 'a \<Rightarrow> bool) \<Rightarrow> 'a list \<Rightarrow> nat \<Rightarrow> nat \<Rightarrow> bool" where
  "below_ok lt xs n i \<longleftrightarrow> (\<forall>k. 0 < k \<and> k < n \<and> parent k = i \<longrightarrow> edge_ok lt xs k)"

definition above_ok :: "('a \<Rightarrow> 'a \<Rightarrow> bool) \<Rightarrow> 'a list \<Rightarrow> nat \<Rightarrow> bool" where
  "above_ok lt xs i \<longleftrightarrow> (0 < i \<longrightarrow> edge_ok lt xs i)"

lemma heap_prefix_mono: "heap_prefix lt xs n \<Longrightarrow> m \<le> n \<Longrightarrow> heap_prefix lt xs m"
  by (simp add: heap_prefix_def)

lemma heap_prefixI_hole:
  "heap_hole lt xs n i \<Longrightarrow> below_ok lt xs n i \<Longrightarrow> above_ok lt xs i \<Longrightarrow> heap_prefix lt xs n"
  unfolding heap_hole_def below_ok_def above_ok_def heap_prefix_def by blast

lemma heap_root_least:
  assumes "strict_weak_order lt" and "heap_prefix lt xs n" and "k < n"
  shows "\<not> lt (xs ! k) (xs ! 0)"
  using assms(3)
proof (induction k rule: less_induct)
  case (less k)
  show ?case
  proof (cases "k = 0")
    case True
    then show ?thesis using swo_asym [OF assms(1)] by blast
  next
    case False
    then have "\<not> lt (xs ! parent k) (xs ! 0)" using less by simp
    moreover have "\<not> lt (xs ! k) (xs ! parent k)"
      using assms(2) False less.prems by (simp add: heap_prefix_def edge_ok_def)
    ultimately show ?thesis by (rule swo_trans [OF assms(1)])
  qed
qed

lemma heap_prefix_hole:
  assumes "strict_weak_order lt" and "heap_prefix lt xs n"
  shows "heap_hole lt xs n i"
  unfolding heap_hole_def
proof (intro conjI allI impI)
  fix k assume k: "0 < k \<and> k < n \<and> parent k = i \<and> 0 < i"
  then have "\<not> lt (xs ! k) (xs ! i)" "\<not> lt (xs ! i) (xs ! parent i)"
    using assms(2) by (auto simp: heap_prefix_def edge_ok_def)
  then show "\<not> lt (xs ! k) (xs ! parent i)" using swo_trans [OF assms(1)] by blast
qed (use assms(2) in \<open>simp add: heap_prefix_def\<close>)

text \<open>Only the value at \<open>i\<close> may differ: the hole stays.\<close>

lemma heap_hole_update:
  assumes "heap_hole lt xs n i" and same: "\<And>k. k < n \<Longrightarrow> k \<noteq> i \<Longrightarrow> ys ! k = xs ! k"
  shows "heap_hole lt ys n i"
proof -
  have eq: "ys ! k = xs ! k" "ys ! parent k = xs ! parent k"
    if "0 < k" "k < n" "k \<noteq> i" "parent k \<noteq> i" for k
    using same [of k] same [of "parent k"] that by auto
  have gp: "ys ! k = xs ! k" "ys ! parent i = xs ! parent i"
    if "0 < k" "k < n" "parent k = i" "0 < i" for k
    using same [of k] same [of "parent i"] that by auto
  show ?thesis
    using assms(1) eq gp unfolding heap_hole_def edge_ok_def by metis
qed

lemma parent_eq_iff: "0 < k \<Longrightarrow> parent k = i \<longleftrightarrow> k = 2 * i + 1 \<or> k = 2 * i + 2"
  by presburger

lemma parent_le: "parent k \<le> k"
  by presburger

lemma parent_less: "0 < k \<Longrightarrow> parent k < k"
  by presburger

text \<open>One swap on the way up moves the hole to the parent.\<close>

lemma up_step:
  assumes swo: "strict_weak_order lt" and j: "0 < j" "j < n" and n: "n \<le> length xs"
    and hole: "heap_hole lt xs n j" and below: "below_ok lt xs n j"
    and lt: "lt (xs ! j) (xs ! parent j)"
  shows "heap_hole lt (list_swap xs (parent j) j) n (parent j)"
    and "below_ok lt (list_swap xs (parent j) j) n (parent j)"
proof -
  let ?i = "parent j" and ?ys = "list_swap xs (parent j) j"
  have ij: "?i < j" using j(1) by (rule parent_less)
  have nth: "?ys ! k = (if k = j then xs ! ?i else if k = ?i then xs ! j else xs ! k)"
    if "k < n" for k
    using that j n ij by (subst nth_list_swap) auto
  have pn: "parent k < n" if "k < n" for k using that by (rule le_less_trans [OF parent_le])
  have edge: "\<not> lt (xs ! k) (xs ! parent k)" if "0 < k" "k < n" "k \<noteq> j" for k
    using hole below that by (cases "parent k = j") (auto simp: heap_hole_def below_ok_def edge_ok_def)
  have gp: "\<not> lt (xs ! k) (xs ! ?i)" if "0 < k" "k < n" "parent k = j" for k
    using hole that j(1) by (auto simp: heap_hole_def)
  have top: "\<not> lt (xs ! ?i) (xs ! j)" using swo_asym [OF swo lt] .
  have sib: "\<not> lt (xs ! k) (xs ! j)" if "0 < k" "k < n" "parent k = ?i" "k \<noteq> j" for k
  proof -
    have "\<not> lt (xs ! k) (xs ! ?i)" using edge [of k] that by simp
    then show ?thesis by (rule swo_trans [OF swo top])
  qed
  show "below_ok lt ?ys n ?i"
    unfolding below_ok_def edge_ok_def
  proof (intro allI impI)
    fix k assume k: "0 < k \<and> k < n \<and> parent k = ?i"
    then have "k \<noteq> ?i" using parent_less [of k] by auto
    then show "\<not> lt (?ys ! k) (?ys ! parent k)"
      using k nth [of k] nth [of ?i] sib [of k] top ij j by auto
  qed
  show "heap_hole lt ?ys n ?i"
    unfolding heap_hole_def
  proof (intro conjI allI impI)
    fix k assume k: "0 < k \<and> k < n \<and> k \<noteq> ?i \<and> parent k \<noteq> ?i"
    then have "k \<noteq> j" by auto
    then show "edge_ok lt ?ys k"
      using k nth [of k] nth [of "parent k"] pn [of k] gp [of k] edge [of k]
      by (auto simp: edge_ok_def)
  next
    fix k assume k: "0 < k \<and> k < n \<and> parent k = ?i \<and> 0 < ?i"
    have i: "\<not> lt (xs ! ?i) (xs ! parent ?i)" using edge [of ?i] k ij j by simp
    have "parent ?i < ?i" using k parent_less by blast
    then have "?ys ! parent ?i = xs ! parent ?i" using nth [of "parent ?i"] ij j by simp
    moreover have "\<not> lt (?ys ! k) (xs ! parent ?i)"
    proof (cases "k = j")
      case True
      then show ?thesis using nth [of k] k i by simp
    next
      case False
      then have "k \<noteq> ?i" using k parent_less [of k] by auto
      then have "?ys ! k = xs ! k" using False k nth [of k] by simp
      moreover have "\<not> lt (xs ! k) (xs ! ?i)" using edge [of k] False k by simp
      ultimately show ?thesis using swo_trans [OF swo i] by simp
    qed
    ultimately show "\<not> lt (?ys ! k) (?ys ! parent ?i)" by simp
  qed
qed

text \<open>One swap on the way down, with the smaller child, moves the hole to that child.\<close>

lemma down_step:
  assumes swo: "strict_weak_order lt" and j: "0 < j" "j < n" "parent j = i" and n: "n \<le> length xs"
    and hole: "heap_hole lt xs n i" and lt: "lt (xs ! j) (xs ! i)"
    and least: "\<And>k. 0 < k \<Longrightarrow> k < n \<Longrightarrow> parent k = i \<Longrightarrow> \<not> lt (xs ! k) (xs ! j)"
  shows "heap_hole lt (list_swap xs i j) n j" and "above_ok lt (list_swap xs i j) j"
proof -
  let ?ys = "list_swap xs i j"
  have ij: "i < j" using j parent_less by blast
  have nth: "?ys ! k = (if k = j then xs ! i else if k = i then xs ! j else xs ! k)"
    if "k < n" for k
    using that j n ij by (subst nth_list_swap) auto
  have pn: "parent k < n" if "k < n" for k using that by (rule le_less_trans [OF parent_le])
  have top: "\<not> lt (xs ! i) (xs ! j)" using swo_asym [OF swo lt] .
  show "above_ok lt ?ys j"
    using nth [of j] nth [of i] ij j top by (simp add: above_ok_def edge_ok_def)
  show "heap_hole lt ?ys n j"
    unfolding heap_hole_def
  proof (intro conjI allI impI)
    fix k assume k: "0 < k \<and> k < n \<and> k \<noteq> j \<and> parent k \<noteq> j"
    consider "k = i" | "parent k = i" "k \<noteq> i" | "k \<noteq> i" "parent k \<noteq> i" by blast
    then show "edge_ok lt ?ys k"
    proof cases
      case 1
      then have "parent i < i" using k parent_less by blast
      then show ?thesis
        using 1 k ij j hole nth [of i] nth [of "parent i"]
        by (simp add: edge_ok_def heap_hole_def)
    next
      case 2
      then show ?thesis using k ij j nth [of k] nth [of i] least [of k] by (simp add: edge_ok_def)
    next
      case 3
      then show ?thesis
        using k hole nth [of k] nth [of "parent k"] pn [of k]
        by (simp add: edge_ok_def heap_hole_def)
    qed
  next
    fix k assume k: "0 < k \<and> k < n \<and> parent k = j \<and> 0 < j"
    then have "j < k" using parent_less by blast
    then have "edge_ok lt xs k" using hole k ij by (simp add: heap_hole_def)
    then show "\<not> lt (?ys ! k) (?ys ! parent j)"
      using k \<open>j < k\<close> ij j nth [of k] nth [of i] by (simp add: edge_ok_def)
  qed
qed

section \<open>The interface that the package relies on\<close>

locale heap_interface =
  fixes lessf :: "'s \<Rightarrow> nat \<Rightarrow> nat \<Rightarrow> bool option"
    and swapf :: "'s \<Rightarrow> nat \<Rightarrow> nat \<Rightarrow> 's option"
    and view :: "'s \<Rightarrow> 'a list"
    and inv :: "'s \<Rightarrow> bool"
    and lt :: "'a \<Rightarrow> 'a \<Rightarrow> bool"
  assumes less_law: "inv s \<Longrightarrow> i < length (view s) \<Longrightarrow> j < length (view s) \<Longrightarrow>
      lessf s i j = Some (lt (view s ! i) (view s ! j))"
    and swap_law: "inv s \<Longrightarrow> i < length (view s) \<Longrightarrow> j < length (view s) \<Longrightarrow>
      \<exists>s'. swapf s i j = Some s' \<and> inv s' \<and> view s' = list_swap (view s) i j"
begin

text \<open>What a step of the package keeps: the elements, and the positions from \<open>n\<close> on.\<close>

definition keeps :: "nat \<Rightarrow> 's \<Rightarrow> 's \<Rightarrow> bool" where
  "keeps n s s' \<longleftrightarrow> inv s' \<and> mset (view s') = mset (view s) \<and>
     (\<forall>k. n \<le> k \<and> k < length (view s) \<longrightarrow> view s' ! k = view s ! k)"

lemma keeps_length: "keeps n s s' \<Longrightarrow> length (view s') = length (view s)"
  unfolding keeps_def by (metis size_mset)

lemma keeps_refl: "inv s \<Longrightarrow> keeps n s s"
  by (simp add: keeps_def)

lemma keeps_trans: "keeps n s s' \<Longrightarrow> keeps n s' s'' \<Longrightarrow> keeps n s s''"
  using keeps_length unfolding keeps_def by metis

lemma keeps_swap:
  assumes "inv s" and "i < n" and "j < n" and "n \<le> length (view s)"
  shows "\<exists>s'. swapf s i j = Some s' \<and> keeps n s s' \<and> view s' = list_swap (view s) i j"
proof -
  obtain s' where "swapf s i j = Some s'" "inv s'" "view s' = list_swap (view s) i j"
    using swap_law [of s i j] assms by auto
  then show ?thesis using assms by (auto simp: keeps_def nth_list_swap)
qed

lemma up_correct:
  assumes swo: "strict_weak_order lt"
  shows "inv s \<Longrightarrow> j < n \<Longrightarrow> n \<le> length (view s) \<Longrightarrow> heap_hole lt (view s) n j \<Longrightarrow>
    below_ok lt (view s) n j \<Longrightarrow>
    \<exists>s'. heap_up lessf swapf s j = Some s' \<and> keeps n s s' \<and> heap_prefix lt (view s') n"
proof (induction j arbitrary: s rule: less_induct)
  case (less j)
  note prems = less.prems
  have le: "lessf s j (parent j) = Some (lt (view s ! j) (view s ! parent j))"
    using prems parent_le [of j] by (intro less_law) auto
  show ?case
  proof (cases "0 < j \<and> lt (view s ! j) (view s ! parent j)")
    case False
    then have "above_ok lt (view s) j" by (auto simp: above_ok_def edge_ok_def)
    then have "heap_prefix lt (view s) n" using prems heap_prefixI_hole by blast
    moreover have "heap_up lessf swapf s j = Some s"
      using False le by (subst heap_up.simps) (auto simp: Let_def)
    ultimately show ?thesis using prems keeps_refl by blast
  next
    case True
    then have pj: "parent j < j" using parent_less by blast
    obtain s1 where s1: "swapf s (parent j) j = Some s1" "keeps n s s1"
        "view s1 = list_swap (view s) (parent j) j"
      using keeps_swap [of s "parent j" n j] prems pj by auto
    have "heap_hole lt (view s1) n (parent j)" "below_ok lt (view s1) n (parent j)"
      using up_step [OF swo, of j n "view s"] True prems s1(3) by auto
    then obtain s' where s': "heap_up lessf swapf s1 (parent j) = Some s'" "keeps n s1 s'"
        "heap_prefix lt (view s') n"
      using less.IH [OF pj, of s1] s1(2) prems keeps_length [OF s1(2)] pj
      by (auto simp: keeps_def)
    have "heap_up lessf swapf s j = Some s'"
      using True le s1 s' pj by (subst heap_up.simps) (auto simp: Let_def)
    then show ?thesis using s' keeps_trans [OF s1(2)] by blast
  qed
qed

lemma down_correct:
  assumes swo: "strict_weak_order lt"
  shows "inv s \<Longrightarrow> n \<le> length (view s) \<Longrightarrow> heap_hole lt (view s) n i \<Longrightarrow>
    \<exists>s' i'. heap_down_loop lessf swapf s i n = Some (s', i') \<and> keeps n s s' \<and> i \<le> i' \<and>
      (if i' = i then s' = s \<and> below_ok lt (view s) n i else heap_prefix lt (view s') n)"
proof (induction "n - i" arbitrary: s i rule: less_induct)
  case (less i)
  note prems = less.prems
  let ?xs = "view s" and ?j1 = "2 * i + 1" and ?j2 = "2 * i + 2"
  have child: "k = ?j1 \<or> k = ?j2" if "0 < k" "parent k = i" for k
    using that parent_eq_iff by blast
  show ?case
  proof (cases "n \<le> ?j1")
    case True
    then have "below_ok lt ?xs n i" using child by (fastforce simp: below_ok_def)
    moreover have "heap_down_loop lessf swapf s i n = Some (s, i)"
      using True by (subst heap_down_loop.simps) (simp add: Let_def)
    ultimately show ?thesis using prems keeps_refl by simp
  next
    case False
    define right where "right \<longleftrightarrow> ?j2 < n \<and> lt (?xs ! ?j2) (?xs ! ?j1)"
    define j where "j = (if right then ?j2 else ?j1)"
    have right: "(if ?j2 < n then lessf s ?j2 ?j1 else Some False) = Some right"
      using False prems by (auto simp: less_law right_def)
    have jn: "0 < j" "j < n" "parent j = i" "i < j" using False by (auto simp: j_def right_def)
    have lj: "lessf s j i = Some (lt (?xs ! j) (?xs ! i))"
      using jn prems by (intro less_law) auto
    have least: "\<not> lt (?xs ! k) (?xs ! j)" if "0 < k" "k < n" "parent k = i" for k
      using child [of k] that swo_asym [OF swo, of "?xs ! ?j2" "?xs ! ?j1"]
        swo_asym [OF swo, of "?xs ! k" "?xs ! k"] by (auto simp: j_def right_def)
    note unfold = heap_down_loop_unfold [of i n lessf s, OF _ right j_def lj, of swapf]
    show ?thesis
    proof (cases "lt (?xs ! j) (?xs ! i)")
      case stay: False
      have "below_ok lt ?xs n i"
        unfolding below_ok_def edge_ok_def
      proof (intro allI impI)
        fix k assume k: "0 < k \<and> k < n \<and> parent k = i"
        then have "\<not> lt (?xs ! k) (?xs ! j)" using least by blast
        with stay have "\<not> lt (?xs ! k) (?xs ! i)" by (rule swo_trans [OF swo])
        with k show "\<not> lt (?xs ! k) (?xs ! parent k)" by simp
      qed
      moreover have "heap_down_loop lessf swapf s i n = Some (s, i)"
        using unfold False stay by simp
      ultimately show ?thesis using prems keeps_refl by simp
    next
      case True
      obtain s1 where s1: "swapf s i j = Some s1" "keeps n s s1" "view s1 = list_swap ?xs i j"
        using keeps_swap [of s i n j] prems jn by auto
      have smaller: "n - j < n - i" and inv1: "inv s1" and len1: "n \<le> length (view s1)"
        using jn prems(2) s1(2) keeps_length [OF s1(2)] by (auto simp: keeps_def)
      have hole: "heap_hole lt (view s1) n j" "above_ok lt (view s1) j"
        using down_step [OF swo, of j n i ?xs] jn prems True least s1(3) by auto
      obtain s' i' where s': "heap_down_loop lessf swapf s1 j n = Some (s', i')" "keeps n s1 s'"
          "j \<le> i'" "if i' = j then s' = s1 \<and> below_ok lt (view s1) n j
             else heap_prefix lt (view s') n"
        using less.hyps [OF smaller inv1 len1 hole(1)] by blast
      have "heap_prefix lt (view s') n"
        using s'(4) heap_prefixI_hole [OF hole(1) _ hole(2)] by (auto split: if_splits)
      moreover have "heap_down_loop lessf swapf s i n = Some (s', i')"
        using unfold False True s1(1) s'(1) by simp
      ultimately show ?thesis using s'(2,3) jn keeps_trans [OF s1(2)] by auto
    qed
  qed
qed

end

locale heap_container = heap_interface lessf swapf view inv lt
  for lessf :: "'s \<Rightarrow> nat \<Rightarrow> nat \<Rightarrow> bool option"
    and swapf :: "'s \<Rightarrow> nat \<Rightarrow> nat \<Rightarrow> 's option"
    and view :: "'s \<Rightarrow> 'a list"
    and inv :: "'s \<Rightarrow> bool"
    and lt :: "'a \<Rightarrow> 'a \<Rightarrow> bool" +
  fixes len :: "'s \<Rightarrow> nat"
    and push :: "'s \<Rightarrow> 'x \<Rightarrow> 's"
    and pop :: "'s \<Rightarrow> ('s \<times> 'r) option"
    and fresh :: "'s \<Rightarrow> 'x \<Rightarrow> bool"
    and elem :: "'s \<Rightarrow> 'x \<Rightarrow> 'a"
    and out :: "'a \<Rightarrow> 'r"
  assumes len_law: "inv s \<Longrightarrow> len s = length (view s)"
    and push_law: "inv s \<Longrightarrow> fresh s x \<Longrightarrow> inv (push s x) \<and> view (push s x) = view s @ [elem s x]"
    and pop_law: "inv s \<Longrightarrow> view s \<noteq> [] \<Longrightarrow>
      \<exists>s'. pop s = Some (s', out (last (view s))) \<and> inv s' \<and> view s' = butlast (view s)"
begin

lemma Push_correct:
  assumes swo: "strict_weak_order lt" and inv: "inv s" and hp: "is_heap lt (view s)"
    and fr: "fresh s x"
  shows "\<exists>s'. heap_Push lessf swapf len push s x = Some s' \<and> inv s' \<and> is_heap lt (view s') \<and>
     mset (view s') = add_mset (elem s x) (mset (view s))"
proof -
  let ?s1 = "push s x" and ?n = "length (view s)"
  have s1: "inv ?s1" "view ?s1 = view s @ [elem s x]" using push_law [OF inv fr] by auto
  have below: "below_ok lt (view ?s1) (Suc ?n) ?n"
    using parent_less by (fastforce simp: below_ok_def)
  have "edge_ok lt (view ?s1) k" if "0 < k" "k < ?n" for k
    using that hp parent_less [of k] by (simp add: s1 heap_prefix_def edge_ok_def nth_append)
  then have "heap_hole lt (view ?s1) (Suc ?n) ?n"
    unfolding heap_hole_def using parent_less by fastforce
  then obtain s' where "heap_up lessf swapf ?s1 ?n = Some s'" "keeps (Suc ?n) ?s1 s'"
      "heap_prefix lt (view s') (Suc ?n)"
    using up_correct [OF swo s1(1), of ?n "Suc ?n"] below s1(2) by auto
  then show ?thesis
    using s1 len_law [OF s1(1)] keeps_length [of "Suc ?n" ?s1 s']
    by (auto simp: heap_Push_def keeps_def)
qed

lemma Fix_correct:
  assumes swo: "strict_weak_order lt" and inv: "inv s" and i: "i < length (view s)"
    and hole: "heap_hole lt (view s) (length (view s)) i"
  shows "\<exists>s'. heap_Fix lessf swapf len s i = Some s' \<and> inv s' \<and> is_heap lt (view s') \<and>
     mset (view s') = mset (view s)"
proof -
  let ?n = "length (view s)"
  obtain s1 i' where s1: "heap_down_loop lessf swapf s i ?n = Some (s1, i')" "keeps ?n s s1" "i \<le> i'"
      "if i' = i then s1 = s \<and> below_ok lt (view s) ?n i else heap_prefix lt (view s1) ?n"
    using down_correct [OF swo inv _ hole] by blast
  show ?thesis
  proof (cases "i' = i")
    case True
    then obtain s' where "heap_up lessf swapf s i = Some s'" "keeps ?n s s'"
        "heap_prefix lt (view s') ?n"
      using up_correct [OF swo inv i _ hole] s1(4) by auto
    then show ?thesis
      using True s1 len_law [OF inv] keeps_length [of ?n s s']
      by (auto simp: heap_Fix_def heap_down_def keeps_def)
  next
    case False
    then show ?thesis
      using s1 len_law [OF inv] keeps_length [OF s1(2)]
      by (auto simp: heap_Fix_def heap_down_def keeps_def)
  qed
qed

text \<open>
  \<open>Pop\<close> and \<open>Remove\<close> swap an element with the last one, repair the shorter heap and take the
  last one off.
\<close>

lemma swap_last_hole:
  assumes swo: "strict_weak_order lt" and hp: "is_heap lt xs" and i: "i < length xs"
  shows "heap_hole lt (list_swap xs i (length xs - 1)) (length xs - 1) i"
proof (rule heap_hole_update)
  have "heap_prefix lt xs (length xs - 1)" using heap_prefix_mono [OF hp] by simp
  then show "heap_hole lt xs (length xs - 1) i" by (rule heap_prefix_hole [OF swo])
qed (use i in \<open>simp add: nth_list_swap\<close>)

lemma pop_last:
  assumes swo: "strict_weak_order lt" and hp: "is_heap lt (view s)" and i: "i < length (view s)"
    and s1: "view s1 = list_swap (view s) i (length (view s) - 1)"
    and keeps: "keeps (length (view s) - 1) s1 s2"
    and hp2: "heap_prefix lt (view s2) (length (view s) - 1)"
  shows "\<exists>s'. pop s2 = Some (s', out (view s ! i)) \<and> inv s' \<and> is_heap lt (view s') \<and>
     add_mset (view s ! i) (mset (view s')) = mset (view s)"
proof -
  let ?n = "length (view s) - 1"
  have len: "length (view s2) = length (view s)" using keeps_length [OF keeps] s1 by simp
  then have ne: "view s2 \<noteq> []" using i by auto
  have "view s2 ! ?n = view s ! i"
    using keeps s1 i by (simp add: keeps_def nth_list_swap)
  then have last: "last (view s2) = view s ! i" using ne len by (simp add: last_conv_nth)
  obtain s' where s': "pop s2 = Some (s', out (view s ! i))" "inv s'" "view s' = butlast (view s2)"
    using pop_law [OF _ ne] keeps last by (auto simp: keeps_def)
  have "mset (view s2) = mset (view s)" using keeps s1 i by (simp add: keeps_def)
  moreover have "mset (view s2) = add_mset (view s ! i) (mset (butlast (view s2)))"
    using append_butlast_last_id [OF ne] last by (metis add.commute add_mset_add_single mset.simps mset_append)
  moreover have "is_heap lt (view s')"
    using hp2 len unfolding s'(3) heap_prefix_def edge_ok_def
    by (simp add: nth_butlast_less less_imp_diff_less)
      (metis One_nat_def diff_le_self div_le_dividend le_trans le_less_trans nth_butlast_less)
  ultimately show ?thesis using s' by auto
qed

lemma Pop_correct:
  assumes swo: "strict_weak_order lt" and inv: "inv s" and hp: "is_heap lt (view s)"
    and ne: "view s \<noteq> []"
  shows "\<exists>s'. heap_Pop lessf swapf len pop s = Some (s', out (view s ! 0)) \<and> inv s' \<and>
     is_heap lt (view s') \<and> add_mset (view s ! 0) (mset (view s')) = mset (view s)"
proof -
  let ?n = "length (view s) - 1"
  have n: "0 < length (view s)" "?n < length (view s)" using ne by auto
  obtain s1 where s1: "swapf s 0 ?n = Some s1" "inv s1" "view s1 = list_swap (view s) 0 ?n"
    using swap_law [OF inv n] by blast
  have hole: "heap_hole lt (view s1) ?n 0" using swap_last_hole [OF swo hp n(1)] s1 by simp
  obtain s2 i' where s2: "heap_down_loop lessf swapf s1 0 ?n = Some (s2, i')" "keeps ?n s1 s2"
      "if i' = 0 then s2 = s1 \<and> below_ok lt (view s1) ?n 0 else heap_prefix lt (view s2) ?n"
    using down_correct [OF swo s1(2) _ hole] s1(3) by auto
  have "heap_prefix lt (view s2) ?n"
    using s2(3) heap_prefixI_hole [OF hole] by (auto simp: above_ok_def split: if_splits)
  from pop_last [OF swo hp n(1) s1(3) s2(2) this]
  show ?thesis using s1(1) s2(1) len_law [OF inv] by (auto simp: heap_Pop_def heap_down_def)
qed

lemma Remove_correct:
  assumes swo: "strict_weak_order lt" and inv: "inv s" and hp: "is_heap lt (view s)"
    and i: "i < length (view s)"
  shows "\<exists>s'. heap_Remove lessf swapf len pop s i = Some (s', out (view s ! i)) \<and> inv s' \<and>
     is_heap lt (view s') \<and> add_mset (view s ! i) (mset (view s')) = mset (view s)"
proof -
  let ?n = "length (view s) - 1"
  have n: "?n < length (view s)" using i by simp
  show ?thesis
  proof (cases "?n = i")
    case True
    have "list_swap (view s) i ?n = view s" using True by (simp add: list_swap_def)
    moreover have "heap_prefix lt (view s) ?n" using heap_prefix_mono [OF hp] by simp
    ultimately show ?thesis
      using pop_last [OF swo hp i _ keeps_refl [OF inv]] True len_law [OF inv]
      by (simp add: heap_Remove_def)
  next
    case False
    then have ni: "i < ?n" using i by simp
    obtain s1 where s1: "swapf s i ?n = Some s1" "inv s1" "view s1 = list_swap (view s) i ?n"
      using swap_law [OF inv i n] by blast
    have hole: "heap_hole lt (view s1) ?n i" using swap_last_hole [OF swo hp i] s1 by simp
    obtain s2 i' where s2: "heap_down_loop lessf swapf s1 i ?n = Some (s2, i')" "keeps ?n s1 s2" "i \<le> i'"
        "if i' = i then s2 = s1 \<and> below_ok lt (view s1) ?n i else heap_prefix lt (view s2) ?n"
      using down_correct [OF swo s1(2) _ hole] s1(3) by auto
    obtain s3 where s3: "(if i' > i then Some s2 else heap_up lessf swapf s2 i) = Some s3"
        "keeps ?n s1 s3" "heap_prefix lt (view s3) ?n"
    proof (cases "i' = i")
      case True
      then show ?thesis
        using up_correct [OF swo s1(2) ni _ hole] s2(4) s1(3) that by auto
    qed (use s2 that in auto)
    from pop_last [OF swo hp i s1(3) s3(2,3)]
    show ?thesis using False s1(1) s2(1) s3(1) len_law [OF inv]
      by (auto simp: heap_Remove_def heap_down_def)
  qed
qed

end

section \<open>What every swap keeps\<close>

text \<open>A property of the state that \<open>Swap\<close> keeps is kept by the loops of the package.\<close>

lemma heap_down_loop_cases:
  assumes "heap_down_loop lessf swapf s i n = Some (s', k)"
  shows "s' = s \<or> (\<exists>j s1. i < j \<and> j < n \<and> swapf s i j = Some s1 \<and> heap_down_loop lessf swapf s1 j n = Some (s', k))"
proof (cases "2 * i + 1 \<ge> n")
  case True
  then show ?thesis using assms heap_down_loop.simps [of lessf swapf s i n] by (simp add: Let_def)
next
  case False
  define r where "r = (if 2 * i + 1 + 1 < n then lessf s (2 * i + 1 + 1) (2 * i + 1) else Some False)"
  have eq: "heap_down_loop lessf swapf s i n =
      (case r of None \<Rightarrow> None
       | Some right \<Rightarrow>
           (let j = (if right then 2 * i + 1 + 1 else 2 * i + 1) in
            case lessf s j i of None \<Rightarrow> None | Some False \<Rightarrow> Some (s, i)
            | Some True \<Rightarrow> (case swapf s i j of None \<Rightarrow> None
                          | Some h' \<Rightarrow> heap_down_loop lessf swapf h' j n)))"
    by (subst heap_down_loop.simps) (simp only: Let_def False if_False r_def)
  obtain right where right: "r = Some right" using assms eq by (cases r) auto
  define j where "j = (if right then 2 * i + 1 + 1 else 2 * i + 1)"
  have j: "i < j" "j < n" using False right by (auto simp: j_def r_def split: if_splits)
  show ?thesis
    using assms eq right j by (auto simp: j_def [symmetric] Let_def split: option.splits bool.splits)
qed

lemma heap_down_loop_keeps:
  assumes "\<And>s i j s'. swapf s i j = Some s' \<Longrightarrow> P s \<Longrightarrow> P s'"
  shows "heap_down_loop lessf swapf s i n = Some (s', k) \<Longrightarrow> P s \<Longrightarrow> P s'"
proof (induction "n - i" arbitrary: s i rule: less_induct)
  case less
  from heap_down_loop_cases [OF less.prems(1)] show ?case
  proof
    assume "\<exists>j s1. i < j \<and> j < n \<and> swapf s i j = Some s1 \<and> heap_down_loop lessf swapf s1 j n = Some (s', k)"
    then obtain j s1 where *: "i < j" "j < n" "swapf s i j = Some s1" "heap_down_loop lessf swapf s1 j n = Some (s', k)"
      by blast
    then show ?thesis using less.hyps [of j s1] assms [OF *(3) less.prems(2)] by simp
  qed (use less.prems(2) in simp)
qed

end
