(* ===== verification/CacheHeap.thy ===== *)
theory CacheHeap
  imports GoHeap
begin

text \<open>
  \<open>tools/cache/heap.go\<close>: the keyed heap. \<open>heapData\<close> implements \<open>heap.Interface\<close> over a map from
  keys to items and a queue of keys; \<open>Heap\<close> adds the lock, the \<open>closed\<close> flag and the operations.
  The lock makes every operation one atomic step, so an operation is a function on the state.

  The lemmas: the map and the queue hold the same keys and every item knows its position
  (\<open>heapData_ok\<close>), no operation ever panics, and seen as a map from keys to objects the heap
  behaves as its methods say, with \<open>Pop\<close> taking out an object that no other one precedes.
\<close>

section \<open>heapData\<close>

record 'v heapItem =
  hi_obj :: "'v iface"
  hi_index :: nat

record 'v heapData =
  hd_items :: "'v heapItem gomap"
  hd_queue :: "string list"
  hd_keyFunc :: "'v key_func"
  hd_lessFunc :: "'v iface \<Rightarrow> 'v iface \<Rightarrow> bool"

definition heapData_Less :: "'v heapData \<Rightarrow> nat \<Rightarrow> nat \<Rightarrow> bool option" where
  "heapData_Less h i j =
     (let q = hd_queue h in
      if i > length q \<or> j > length q then Some False
      else if i = length q then None
      else case hd_items h (q ! i) of
             None \<Rightarrow> Some False
           | Some itemi \<Rightarrow>
               if j = length q then None
               else case hd_items h (q ! j) of
                      None \<Rightarrow> Some False
                    | Some itemj \<Rightarrow> Some (hd_lessFunc h (hi_obj itemi) (hi_obj itemj)))"

definition heapData_Len :: "'v heapData \<Rightarrow> nat" where
  "heapData_Len h = length (hd_queue h)"

definition set_index :: "'v heapItem gomap \<Rightarrow> string \<Rightarrow> nat \<Rightarrow> 'v heapItem gomap option" where
  "set_index items key i =
     (case items key of None \<Rightarrow> None | Some item \<Rightarrow> Some (items(key \<mapsto> item\<lparr>hi_index := i\<rparr>)))"

definition heapData_Swap :: "'v heapData \<Rightarrow> nat \<Rightarrow> nat \<Rightarrow> 'v heapData option" where
  "heapData_Swap h i j =
     (if i \<ge> length (hd_queue h) \<or> j \<ge> length (hd_queue h) then None
      else let q = list_swap (hd_queue h) i j in
           case set_index (hd_items h) (q ! i) i of
             None \<Rightarrow> None
           | Some items1 \<Rightarrow>
               (case set_index items1 (q ! j) j of
                  None \<Rightarrow> None
                | Some items2 \<Rightarrow> Some (h\<lparr>hd_queue := q, hd_items := items2\<rparr>)))"

definition heapData_Push :: "'v heapData \<Rightarrow> string \<times> 'v iface \<Rightarrow> 'v heapData" where
  "heapData_Push h keyValue =
     (let n = length (hd_queue h) in
      h\<lparr>hd_items := (hd_items h)(fst keyValue \<mapsto> \<lparr>hi_obj = snd keyValue, hi_index = n\<rparr>),
        hd_queue := hd_queue h @ [fst keyValue]\<rparr>)"

definition heapData_Pop :: "'v heapData \<Rightarrow> ('v heapData \<times> 'v iface) option" where
  "heapData_Pop h =
     (if hd_queue h = [] then None
      else let key = last (hd_queue h); h1 = h\<lparr>hd_queue := butlast (hd_queue h)\<rparr> in
           case hd_items h key of
             None \<Rightarrow> Some (h1, None)
           | Some item \<Rightarrow> Some (h1\<lparr>hd_items := (hd_items h)(key := None)\<rparr>, hi_obj item))"

section \<open>Heap\<close>

record 'v Heap =
  heap_data :: "'v heapData"
  heap_closed :: bool

definition closedMsg :: string where
  "closedMsg = ''heap is closed''"

definition NewHeap :: "'v key_func \<Rightarrow> ('v iface \<Rightarrow> 'v iface \<Rightarrow> bool) \<Rightarrow> 'v Heap" where
  "NewHeap keyFn lessFn =
     \<lparr>heap_data = \<lparr>hd_items = Map.empty, hd_queue = [], hd_keyFunc = keyFn, hd_lessFunc = lessFn\<rparr>,
      heap_closed = False\<rparr>"

definition Heap_Close :: "'v Heap \<Rightarrow> 'v Heap" where
  "Heap_Close h = h\<lparr>heap_closed := True\<rparr>"

definition addIfNotPresentLocked :: "'v heapData \<Rightarrow> string \<Rightarrow> 'v iface \<Rightarrow> 'v heapData option" where
  "addIfNotPresentLocked d key obj =
     (if hd_items d key \<noteq> None then Some d
      else heap_Push heapData_Less heapData_Swap heapData_Len heapData_Push d (key, obj))"

text \<open>The part that \<open>Add\<close> and \<open>BulkAdd\<close> share: update an item in place or add it.\<close>

definition addLocked :: "'v heapData \<Rightarrow> string \<Rightarrow> 'v iface \<Rightarrow> 'v heapData option" where
  "addLocked d key obj =
     (case hd_items d key of
        Some item \<Rightarrow>
          heap_Fix heapData_Less heapData_Swap heapData_Len
            (d\<lparr>hd_items := (hd_items d)(key \<mapsto> item\<lparr>hi_obj := obj\<rparr>)\<rparr>) (hi_index item)
      | None \<Rightarrow> addIfNotPresentLocked d key obj)"

definition Heap_Add :: "'v Heap \<Rightarrow> 'v iface \<Rightarrow> ('v Heap \<times> 'v error option) option" where
  "Heap_Add h obj =
     (case hd_keyFunc (heap_data h) obj of
        Inl err \<Rightarrow> Some (h, Some (KeyError obj err))
      | Inr key \<Rightarrow>
          if heap_closed h then Some (h, Some (Errorf closedMsg))
          else case addLocked (heap_data h) key obj of
                 None \<Rightarrow> None
               | Some d \<Rightarrow> Some (h\<lparr>heap_data := d\<rparr>, None))"

fun bulkAddLoop :: "'v heapData \<Rightarrow> 'v iface list \<Rightarrow> ('v heapData \<times> 'v error option) option" where
  "bulkAddLoop d [] = Some (d, None)"
| "bulkAddLoop d (obj # list) =
     (case hd_keyFunc d obj of
        Inl err \<Rightarrow> Some (d, Some (KeyError obj err))
      | Inr key \<Rightarrow>
          (case addLocked d key obj of None \<Rightarrow> None | Some d' \<Rightarrow> bulkAddLoop d' list))"

definition Heap_BulkAdd :: "'v Heap \<Rightarrow> 'v iface list \<Rightarrow> ('v Heap \<times> 'v error option) option" where
  "Heap_BulkAdd h list =
     (if heap_closed h then Some (h, Some (Errorf closedMsg))
      else case bulkAddLoop (heap_data h) list of
             None \<Rightarrow> None
           | Some (d, err) \<Rightarrow> Some (h\<lparr>heap_data := d\<rparr>, err))"

definition Heap_AddIfNotPresent :: "'v Heap \<Rightarrow> 'v iface \<Rightarrow> ('v Heap \<times> 'v error option) option" where
  "Heap_AddIfNotPresent h obj =
     (case hd_keyFunc (heap_data h) obj of
        Inl err \<Rightarrow> Some (h, Some (KeyError obj err))
      | Inr key \<Rightarrow>
          if heap_closed h then Some (h, Some (Errorf closedMsg))
          else case addIfNotPresentLocked (heap_data h) key obj of
                 None \<Rightarrow> None
               | Some d \<Rightarrow> Some (h\<lparr>heap_data := d\<rparr>, None))"

definition Heap_Update :: "'v Heap \<Rightarrow> 'v iface \<Rightarrow> ('v Heap \<times> 'v error option) option" where
  "Heap_Update h obj = Heap_Add h obj"

definition Heap_Delete :: "'v Heap \<Rightarrow> 'v iface \<Rightarrow> ('v Heap \<times> 'v error option) option" where
  "Heap_Delete h obj =
     (case hd_keyFunc (heap_data h) obj of
        Inl err \<Rightarrow> Some (h, Some (KeyError obj err))
      | Inr key \<Rightarrow>
          (case hd_items (heap_data h) key of
             Some item \<Rightarrow>
               (case heap_Remove heapData_Less heapData_Swap heapData_Len heapData_Pop
                       (heap_data h) (hi_index item) of
                  None \<Rightarrow> None
                | Some (d, _) \<Rightarrow> Some (h\<lparr>heap_data := d\<rparr>, None))
           | None \<Rightarrow> Some (h, Some (Errorf ''object not found''))))"

definition Heap_Pop :: "'v Heap \<Rightarrow> ('v Heap \<times> ('v, 'v iface) pop_out) option" where
  "Heap_Pop h =
     (if hd_queue (heap_data h) = [] then
        (if heap_closed h then Some (h, Returns None (Some (Errorf ''heap is closed'')))
         else Some (h, Waits))
      else case heap_Pop heapData_Less heapData_Swap heapData_Len heapData_Pop (heap_data h) of
             None \<Rightarrow> None
           | Some (d, obj) \<Rightarrow>
               (case obj of
                  None \<Rightarrow> Some (h\<lparr>heap_data := d\<rparr>,
                     Returns None (Some (Errorf ''object was removed from heap data'')))
                | Some _ \<Rightarrow> Some (h\<lparr>heap_data := d\<rparr>, Returns obj None)))"

definition Heap_List :: "string list \<Rightarrow> 'v Heap \<Rightarrow> 'v iface list" where
  "Heap_List order h = map hi_obj (List.map_filter (hd_items (heap_data h)) order)"

definition Heap_ListKeys :: "string list \<Rightarrow> 'v Heap \<Rightarrow> string list" where
  "Heap_ListKeys order h = filter (\<lambda>k. hd_items (heap_data h) k \<noteq> None) order"

definition Heap_GetByKey :: "'v Heap \<Rightarrow> string \<Rightarrow> 'v iface \<times> bool" where
  "Heap_GetByKey h key =
     (case hd_items (heap_data h) key of
        None \<Rightarrow> (None, False)
      | Some item \<Rightarrow> (hi_obj item, True))"

definition Heap_Get :: "'v Heap \<Rightarrow> 'v iface \<Rightarrow> 'v error + ('v iface \<times> bool)" where
  "Heap_Get h obj =
     (case hd_keyFunc (heap_data h) obj of
        Inl err \<Rightarrow> Inl (KeyError obj err)
      | Inr key \<Rightarrow> Inr (Heap_GetByKey h key))"

definition Heap_IsClosed :: "'v Heap \<Rightarrow> bool" where
  "Heap_IsClosed h = heap_closed h"

section \<open>The interface laws for heapData\<close>

definition heapData_view :: "'v heapData \<Rightarrow> (string \<times> 'v iface) list" where
  "heapData_view h =
     map (\<lambda>k. (k, case hd_items h k of None \<Rightarrow> None | Some it \<Rightarrow> hi_obj it)) (hd_queue h)"

definition heapData_ok :: "'v key_func \<Rightarrow> ('v iface \<Rightarrow> 'v iface \<Rightarrow> bool) \<Rightarrow> 'v heapData \<Rightarrow> bool" where
  "heapData_ok kf lf h \<longleftrightarrow>
     hd_keyFunc h = kf \<and> hd_lessFunc h = lf \<and> distinct (hd_queue h) \<and> set (hd_queue h) = dom (hd_items h) \<and>
     (\<forall>i < length (hd_queue h). map_option hi_index (hd_items h (hd_queue h ! i)) = Some i)"

definition heap_map :: "'v heapData \<Rightarrow> 'v iface gomap" where
  "heap_map h k = map_option hi_obj (hd_items h k)"

lemma length_view [simp]: "length (heapData_view h) = length (hd_queue h)"
  by (simp add: heapData_view_def)

lemma heapData_okD:
  assumes "heapData_ok kf lf h" and "i < length (hd_queue h)"
  shows "\<exists>it. hd_items h (hd_queue h ! i) = Some it \<and> hi_index it = i"
  using assms by (force simp: heapData_ok_def)

lemma heapData_ok_index:
  assumes "heapData_ok kf lf h" and "hd_items h key = Some it"
  shows "hi_index it < length (hd_queue h) \<and> hd_queue h ! hi_index it = key"
proof -
  have "key \<in> set (hd_queue h)" using assms by (auto simp: heapData_ok_def)
  then obtain i where "i < length (hd_queue h)" "hd_queue h ! i = key" by (metis in_set_conv_nth)
  then show ?thesis using heapData_okD [OF assms(1), of i] assms(2) by auto
qed

lemma heapData_Less_law:
  assumes "heapData_ok kf lf h" and "i < length (heapData_view h)" and "j < length (heapData_view h)"
  shows "heapData_Less h i j = Some (lf (snd (heapData_view h ! i)) (snd (heapData_view h ! j)))"
proof -
  obtain iti itj where "hd_items h (hd_queue h ! i) = Some iti" "hd_items h (hd_queue h ! j) = Some itj"
    using heapData_okD [OF assms(1)] assms(2,3) by fastforce
  then show ?thesis
    using assms by (auto simp: heapData_Less_def heapData_view_def heapData_ok_def Let_def)
qed

lemma heapData_Swap_law:
  assumes ok: "heapData_ok kf lf h" and i: "i < length (heapData_view h)"
    and j: "j < length (heapData_view h)"
  shows "\<exists>h'. heapData_Swap h i j = Some h' \<and> heapData_ok kf lf h' \<and>
     heapData_view h' = list_swap (heapData_view h) i j"
proof -
  let ?q = "hd_queue h"
  have ij: "i < length ?q" "j < length ?q" using i j by auto
  obtain iti itj where it: "hd_items h (?q ! i) = Some iti" "hi_index iti = i"
      "hd_items h (?q ! j) = Some itj" "hi_index itj = j"
    using heapData_okD [OF ok ij(1)] heapData_okD [OF ok ij(2)] by auto
  have dist: "distinct ?q" using ok by (simp add: heapData_ok_def)
  define items' where "items' =
    (hd_items h)(?q ! j \<mapsto> itj\<lparr>hi_index := i\<rparr>, ?q ! i \<mapsto> iti\<lparr>hi_index := j\<rparr>)"
  define h' where "h' = h\<lparr>hd_queue := list_swap ?q i j, hd_items := items'\<rparr>"
  have q: "list_swap ?q i j ! i = ?q ! j" "list_swap ?q i j ! j = ?q ! i"
    using ij by (auto simp: nth_list_swap)
  have "?q ! i = ?q ! j \<longleftrightarrow> i = j" using dist ij by (simp add: nth_eq_iff_index_eq)
  then have second: "set_index ((hd_items h)(?q ! j \<mapsto> itj\<lparr>hi_index := i\<rparr>)) (?q ! i) j = Some items'"
    using it by (cases "i = j") (simp_all add: set_index_def items'_def)
  have first: "set_index (hd_items h) (?q ! j) i = Some ((hd_items h)(?q ! j \<mapsto> itj\<lparr>hi_index := i\<rparr>))"
    using it(3) by (simp add: set_index_def)
  have "heapData_Swap h i j = Some h'"
    using ij by (simp add: heapData_Swap_def Let_def q first second h'_def)
  moreover have "heapData_ok kf lf h'"
  proof -
    have idx: "map_option hi_index (items' (list_swap ?q i j ! k)) = Some k"
      if "k < length ?q" for k
      using that ij dist it heapData_okD [OF ok that]
      by (auto simp: items'_def nth_list_swap nth_eq_iff_index_eq)
    have "dom items' = dom (hd_items h)" using it by (auto simp: items'_def)
    then show ?thesis using ok ij idx by (auto simp: heapData_ok_def h'_def)
  qed
  moreover have "heapData_view h' = list_swap (heapData_view h) i j"
  proof -
    have "heapData_view h' =
        map (\<lambda>k. (k, case hd_items h k of None \<Rightarrow> None | Some it \<Rightarrow> hi_obj it)) (list_swap ?q i j)"
      using it by (auto simp: heapData_view_def h'_def items'_def)
    then show ?thesis using ij by (simp add: heapData_view_def map_list_swap)
  qed
  ultimately show ?thesis by blast
qed

lemma heapData_Push_law:
  assumes "heapData_ok kf lf h" and "fst kv \<notin> dom (hd_items h)"
  shows "heapData_ok kf lf (heapData_Push h kv) \<and>
     heapData_view (heapData_Push h kv) = heapData_view h @ [kv]"
  using assms
  by (auto simp: heapData_ok_def heapData_Push_def heapData_view_def Let_def nth_append domIff
      less_Suc_eq dest: nth_mem)

lemma heapData_Pop_law:
  assumes ok: "heapData_ok kf lf h" and ne: "heapData_view h \<noteq> []"
  shows "\<exists>h'. heapData_Pop h = Some (h', snd (last (heapData_view h))) \<and> heapData_ok kf lf h' \<and>
     heapData_view h' = butlast (heapData_view h)"
proof -
  have q: "hd_queue h \<noteq> []" using ne by (auto simp: heapData_view_def)
  define qs key where "qs = butlast (hd_queue h)" and "key = last (hd_queue h)"
  have split: "hd_queue h = qs @ [key]" using q by (simp add: qs_def key_def)
  have fresh: "key \<notin> set qs" using ok split by (simp add: heapData_ok_def)
  have "length qs < length (hd_queue h)" using split by simp
  then obtain it where it: "hd_items h key = Some it"
    using heapData_okD [OF ok, of "length qs"] split by auto
  define h' where "h' = h\<lparr>hd_queue := qs, hd_items := (hd_items h)(key := None)\<rparr>"
  have "heapData_Pop h = Some (h', hi_obj it)"
    using q it by (simp add: heapData_Pop_def Let_def key_def [symmetric] qs_def [symmetric] h'_def)
  moreover have "snd (last (heapData_view h)) = hi_obj it"
    using split it by (simp add: heapData_view_def)
  moreover have "heapData_ok kf lf h'"
  proof -
    have "map_option hi_index (hd_items h (qs ! i)) = Some i \<and> qs ! i \<noteq> key" if "i < length qs" for i
      using that heapData_okD [OF ok, of i] split fresh nth_mem [OF that]
      by (auto simp: nth_append)
    moreover have "set qs = dom (hd_items h) - {key}"
      using ok split fresh by (auto simp: heapData_ok_def)
    ultimately show ?thesis using ok split by (auto simp: heapData_ok_def h'_def)
  qed
  moreover have "heapData_view h' = butlast (heapData_view h)"
    using split fresh by (auto simp: heapData_view_def h'_def)
  ultimately show ?thesis by metis
qed

interpretation hdat: heap_container heapData_Less heapData_Swap heapData_view "heapData_ok kf lf"
    "\<lambda>a b. lf (snd a) (snd b)" heapData_Len heapData_Push heapData_Pop
    "\<lambda>h kv. fst kv \<notin> dom (hd_items h)" "\<lambda>h kv. kv" snd
  for kf lf
proof unfold_locales
  fix h :: "'a heapData" assume "heapData_ok kf lf h"
  then show "heapData_Len h = length (heapData_view h)" by (simp add: heapData_Len_def)
next
  fix h :: "'a heapData" and i j
  assume "heapData_ok kf lf h" "i < length (heapData_view h)" "j < length (heapData_view h)"
  then show "heapData_Less h i j = Some (lf (snd (heapData_view h ! i)) (snd (heapData_view h ! j)))"
    by (rule heapData_Less_law)
qed (use heapData_Swap_law heapData_Push_law heapData_Pop_law in blast)+

section \<open>The heap as a map\<close>

definition heapData_inv ::
  "'v key_func \<Rightarrow> ('v iface \<Rightarrow> 'v iface \<Rightarrow> bool) \<Rightarrow> 'v heapData \<Rightarrow> bool"
where
  "heapData_inv kf lf h \<longleftrightarrow>
     heapData_ok kf lf h \<and> is_heap (\<lambda>a b. lf (snd a) (snd b)) (heapData_view h)"

abbreviation Heap_inv ::
  "'v key_func \<Rightarrow> ('v iface \<Rightarrow> 'v iface \<Rightarrow> bool) \<Rightarrow> 'v Heap \<Rightarrow> bool"
where
  "Heap_inv kf lf h \<equiv> heapData_inv kf lf (heap_data h)"

lemma view_in_iff:
  assumes "heapData_ok kf lf h"
  shows "kv \<in> set (heapData_view h) \<longleftrightarrow> heap_map h (fst kv) = Some (snd kv)"
proof -
  have "set (hd_queue h) = dom (hd_items h)" using assms by (simp add: heapData_ok_def)
  then show ?thesis by (cases kv) (force simp: heapData_view_def heap_map_def)
qed

lemma heap_map_eqI:
  assumes "heapData_ok kf lf h" and "\<And>k v. (k, v) \<in> set (heapData_view h) \<longleftrightarrow> m k = Some v"
  shows "heap_map h = m"
proof
  fix k
  have "heap_map h k = Some v \<longleftrightarrow> m k = Some v" for v
    using assms view_in_iff [OF assms(1), of "(k, v)"] by simp
  then show "heap_map h k = m k" by (metis not_Some_eq)
qed

lemma heap_map_mset_eq:
  assumes "heapData_ok kf lf h" "heapData_ok kf lf h'"
    and "mset (heapData_view h') = mset (heapData_view h)"
  shows "heap_map h' = heap_map h"
proof (rule heap_map_eqI [OF assms(2)])
  show "(k, v) \<in> set (heapData_view h') \<longleftrightarrow> heap_map h k = Some v" for k v
    using view_in_iff [OF assms(1), of "(k, v)"] mset_eq_setD [OF assms(3)] by simp
qed

lemma heap_map_add:
  assumes ok: "heapData_ok kf lf h" "heapData_ok kf lf h'" and "k \<notin> dom (hd_items h)"
    and "mset (heapData_view h') = add_mset (k, v) (mset (heapData_view h))"
  shows "heap_map h' = (heap_map h)(k \<mapsto> v)"
proof (rule heap_map_eqI [OF ok(2)])
  have "set (heapData_view h') = insert (k, v) (set (heapData_view h))"
    using assms(4) by (metis set_mset_add_mset_insert set_mset_mset)
  then show "(k', v') \<in> set (heapData_view h') \<longleftrightarrow> ((heap_map h)(k \<mapsto> v)) k' = Some v'" for k' v'
    using assms(3) view_in_iff [OF ok(1)] by (auto simp: heap_map_def)
qed

lemma heap_map_remove:
  assumes ok: "heapData_ok kf lf h" "heapData_ok kf lf h'"
    and eq: "add_mset (k, v) (mset (heapData_view h')) = mset (heapData_view h)"
  shows "heap_map h' = (heap_map h)(k := None) \<and> heap_map h k = Some v"
proof -
  have set: "set (heapData_view h) = insert (k, v) (set (heapData_view h'))"
    using eq by (metis set_mset_add_mset_insert set_mset_mset)
  have "distinct (map fst (heapData_view h))"
    using ok(1) by (simp add: heapData_ok_def heapData_view_def comp_def)
  moreover have "mset (map fst (heapData_view h)) = add_mset k (mset (map fst (heapData_view h')))"
    using arg_cong [OF eq, of "image_mset fst"] by simp
  ultimately have "k \<notin> set (map fst (heapData_view h'))"
    by (metis distinct.simps(2) mset.simps(2) mset_eq_imp_distinct_iff)
  then have "heap_map h' k = None"
    using view_in_iff [OF ok(2), of "(k, w)" for w] by (metis fst_conv image_eqI list.set_map not_None_eq snd_conv)
  then have "(k', v') \<in> set (heapData_view h') \<longleftrightarrow> ((heap_map h)(k := None)) k' = Some v'" for k' v'
    using set view_in_iff [OF ok(1), of "(k', v')"] view_in_iff [OF ok(2), of "(k', v')"] by auto
  then have "heap_map h' = (heap_map h)(k := None)"
    by (rule heap_map_eqI [OF ok(2)])
  then show ?thesis using set view_in_iff [OF ok(1), of "(k, v)"] by auto
qed

section \<open>What the operations do\<close>

lemma swo_snd: "strict_weak_order lf \<Longrightarrow> strict_weak_order (\<lambda>a b. lf (snd a) (snd b))"
  by (rule strict_weak_order_key)

lemma addIfNotPresentLocked_correct:
  assumes swo: "strict_weak_order lf" and inv: "heapData_inv kf lf d"
  shows "\<exists>d'. addIfNotPresentLocked d key obj = Some d' \<and> heapData_inv kf lf d' \<and>
     heap_map d' = (if heap_map d key = None then (heap_map d)(key \<mapsto> obj) else heap_map d)"
proof (cases "hd_items d key = None")
  case True
  have ok: "heapData_ok kf lf d" and hp: "is_heap (\<lambda>a b. lf (snd a) (snd b)) (heapData_view d)"
    using inv by (auto simp: heapData_inv_def)
  obtain d' where d': "heap_Push heapData_Less heapData_Swap heapData_Len heapData_Push d (key, obj) = Some d'"
      "heapData_ok kf lf d'" "is_heap (\<lambda>a b. lf (snd a) (snd b)) (heapData_view d')"
      "mset (heapData_view d') = add_mset (key, obj) (mset (heapData_view d))"
    using hdat.Push_correct [OF swo_snd [OF swo] ok hp, of "(key, obj)"] True by auto
  then show ?thesis
    using True heap_map_add [OF ok d'(2) _ d'(4)]
    by (simp add: addIfNotPresentLocked_def heapData_inv_def heap_map_def domIff)
next
  case False
  then show ?thesis using inv by (auto simp: addIfNotPresentLocked_def heap_map_def)
qed

lemma addLocked_correct:
  assumes swo: "strict_weak_order lf" and inv: "heapData_inv kf lf d"
  shows "\<exists>d'. addLocked d key obj = Some d' \<and> heapData_inv kf lf d' \<and>
     heap_map d' = (heap_map d)(key \<mapsto> obj)"
proof (cases "hd_items d key")
  case None
  then show ?thesis
    using addIfNotPresentLocked_correct [OF assms, of key obj]
    by (simp add: addLocked_def heap_map_def)
next
  case (Some item)
  let ?i = "hi_index item" and ?lt = "\<lambda>a b. lf (snd a) (snd b)"
  let ?d1 = "d\<lparr>hd_items := (hd_items d)(key \<mapsto> item\<lparr>hi_obj := obj\<rparr>)\<rparr>"
  have ok: "heapData_ok kf lf d" and hp: "is_heap ?lt (heapData_view d)"
    using inv by (auto simp: heapData_inv_def)
  have i: "?i < length (hd_queue d)" "hd_queue d ! ?i = key"
    using heapData_ok_index [OF ok Some] by auto
  have dist: "distinct (hd_queue d)" using ok by (simp add: heapData_ok_def)
  have ok1: "heapData_ok kf lf ?d1"
    using ok Some by (auto simp: heapData_ok_def)
  have same: "heapData_view ?d1 ! k = heapData_view d ! k" if "k < length (hd_queue d)" "k \<noteq> ?i" for k
    using that i dist by (auto simp: heapData_view_def nth_eq_iff_index_eq)
  have "heap_hole ?lt (heapData_view ?d1) (length (heapData_view ?d1)) ?i"
    using heap_hole_update [OF heap_prefix_hole [OF swo_snd [OF swo] hp, of ?i]] same by simp
  then obtain d' where d': "heap_Fix heapData_Less heapData_Swap heapData_Len ?d1 ?i = Some d'"
      "heapData_ok kf lf d'" "is_heap ?lt (heapData_view d')"
      "mset (heapData_view d') = mset (heapData_view ?d1)"
    using hdat.Fix_correct [OF swo_snd [OF swo] ok1, of ?i] i by auto
  have "heap_map d' = heap_map ?d1" using heap_map_mset_eq [OF ok1 d'(2) d'(4)] .
  also have "\<dots> = (heap_map d)(key \<mapsto> obj)" by (auto simp: heap_map_def)
  finally show ?thesis using d' Some by (simp add: addLocked_def heapData_inv_def)
qed

lemma bulkAddLoop_correct:
  assumes swo: "strict_weak_order lf"
  shows "heapData_inv kf lf d \<Longrightarrow>
     \<exists>d' err. bulkAddLoop d list = Some (d', err) \<and> heapData_inv kf lf d'"
proof (induction list arbitrary: d)
  case Nil
  then show ?case by simp
next
  case (Cons obj list)
  then show ?case
  proof (cases "hd_keyFunc d obj")
    case (Inr key)
    obtain d' where "addLocked d key obj = Some d'" "heapData_inv kf lf d'"
      using addLocked_correct [OF swo Cons.prems] by blast
    then show ?thesis using Inr Cons.IH by simp
  qed simp
qed

lemma heap_Remove_data_correct:
  assumes swo: "strict_weak_order lf" and inv: "heapData_inv kf lf d" and it: "hd_items d key = Some item"
  shows "\<exists>d'. heap_Remove heapData_Less heapData_Swap heapData_Len heapData_Pop d (hi_index item)
       = Some (d', hi_obj item) \<and> heapData_inv kf lf d' \<and> heap_map d' = (heap_map d)(key := None)"
proof -
  let ?i = "hi_index item" and ?lt = "\<lambda>a b. lf (snd a) (snd b)"
  have ok: "heapData_ok kf lf d" and hp: "is_heap ?lt (heapData_view d)"
    using inv by (auto simp: heapData_inv_def)
  have i: "?i < length (heapData_view d)" "heapData_view d ! ?i = (key, hi_obj item)"
    using heapData_ok_index [OF ok it] it by (auto simp: heapData_view_def)
  obtain d' where d': "heap_Remove heapData_Less heapData_Swap heapData_Len heapData_Pop d ?i
        = Some (d', hi_obj item)" "heapData_ok kf lf d'" "is_heap ?lt (heapData_view d')"
      "add_mset (key, hi_obj item) (mset (heapData_view d')) = mset (heapData_view d)"
    using hdat.Remove_correct [OF swo_snd [OF swo] ok hp i(1)] i(2) by auto
  then show ?thesis using heap_map_remove [OF ok d'(2,4)] by (simp add: heapData_inv_def)
qed

lemma heap_Pop_data_correct:
  assumes swo: "strict_weak_order lf" and inv: "heapData_inv kf lf d" and ne: "hd_queue d \<noteq> []"
  shows "\<exists>d' key obj. heap_Pop heapData_Less heapData_Swap heapData_Len heapData_Pop d = Some (d', obj) \<and>
     heapData_inv kf lf d' \<and> heap_map d key = Some obj \<and> heap_map d' = (heap_map d)(key := None) \<and>
     (\<forall>k v. heap_map d k = Some v \<longrightarrow> \<not> lf v obj)"
proof -
  let ?lt = "\<lambda>a b. lf (snd a) (snd b)"
  have ok: "heapData_ok kf lf d" and hp: "is_heap ?lt (heapData_view d)"
    using inv by (auto simp: heapData_inv_def)
  obtain key obj where root: "heapData_view d ! 0 = (key, obj)" by fastforce
  obtain d' where d': "heap_Pop heapData_Less heapData_Swap heapData_Len heapData_Pop d = Some (d', obj)"
      "heapData_ok kf lf d'" "is_heap ?lt (heapData_view d')"
      "add_mset (key, obj) (mset (heapData_view d')) = mset (heapData_view d)"
    using hdat.Pop_correct [OF swo_snd [OF swo] ok hp] ne root by (auto simp: heapData_view_def)
  have "\<not> lf v obj" if "heap_map d k = Some v" for k v
  proof -
    have "(k, v) \<in> set (heapData_view d)" using view_in_iff [OF ok, of "(k, v)"] that by simp
    then obtain n where "n < length (heapData_view d)" "heapData_view d ! n = (k, v)"
      by (metis in_set_conv_nth)
    then show ?thesis using heap_root_least [OF swo_snd [OF swo] hp, of n] root by simp
  qed
  then show ?thesis using d' heap_map_remove [OF ok d'(2,4)] by (auto simp: heapData_inv_def)
qed

lemma queue_empty_iff: "heapData_inv kf lf d \<Longrightarrow> hd_queue d = [] \<longleftrightarrow> heap_map d = Map.empty"
  by (auto simp: heapData_inv_def heapData_ok_def heap_map_def fun_eq_iff)

lemma NewHeap_inv: "Heap_inv kf lf (NewHeap kf lf)"
  by (simp add: NewHeap_def heapData_inv_def heapData_ok_def heapData_view_def heap_prefix_def)

section \<open>Properties\<close>

text \<open>Any call of a mutating method, and a sequence of calls from a new heap.\<close>

datatype 'v heap_call =
    CallAdd "'v iface" | CallBulkAdd "'v iface list" | CallAddIfNotPresent "'v iface"
  | CallUpdate "'v iface" | CallDelete "'v iface" | CallPop | CallClose

fun heap_apply :: "'v Heap \<Rightarrow> 'v heap_call \<Rightarrow> 'v Heap option" where
  "heap_apply h (CallAdd obj) = map_option fst (Heap_Add h obj)"
| "heap_apply h (CallBulkAdd list) = map_option fst (Heap_BulkAdd h list)"
| "heap_apply h (CallAddIfNotPresent obj) = map_option fst (Heap_AddIfNotPresent h obj)"
| "heap_apply h (CallUpdate obj) = map_option fst (Heap_Update h obj)"
| "heap_apply h (CallDelete obj) = map_option fst (Heap_Delete h obj)"
| "heap_apply h CallPop = map_option fst (Heap_Pop h)"
| "heap_apply h CallClose = Some (Heap_Close h)"

fun heap_applies :: "'v Heap \<Rightarrow> 'v heap_call list \<Rightarrow> 'v Heap option" where
  "heap_applies h [] = Some h"
| "heap_applies h (c # cs) = (case heap_apply h c of None \<Rightarrow> None | Some h' \<Rightarrow> heap_applies h' cs)"

lemma Heap_Add_inv:
  assumes "strict_weak_order lf" and "Heap_inv kf lf h"
  shows "\<exists>h' e. Heap_Add h obj = Some (h', e) \<and> Heap_inv kf lf h'"
  using assms addLocked_correct [OF assms, of "projr (hd_keyFunc (heap_data h) obj)" obj]
  by (auto simp: Heap_Add_def split: sum.split)

lemma heap_apply_inv:
  assumes swo: "strict_weak_order lf" and inv: "Heap_inv kf lf h"
  shows "\<exists>h'. heap_apply h c = Some h' \<and> Heap_inv kf lf h'"
proof (cases c)
  case (CallAdd obj)
  then show ?thesis using Heap_Add_inv [OF assms, of obj] by auto
next
  case (CallBulkAdd list)
  then show ?thesis
    using inv bulkAddLoop_correct [OF swo inv, of list] by (auto simp: Heap_BulkAdd_def)
next
  case (CallAddIfNotPresent obj)
  then show ?thesis
    using inv addIfNotPresentLocked_correct [OF assms, of "projr (hd_keyFunc (heap_data h) obj)" obj]
    by (auto simp: Heap_AddIfNotPresent_def split: sum.split)
next
  case (CallUpdate obj)
  then show ?thesis using Heap_Add_inv [OF assms, of obj] by (auto simp: Heap_Update_def)
next
  case (CallDelete obj)
  then show ?thesis
    using inv heap_Remove_data_correct [OF assms]
    by (fastforce simp: Heap_Delete_def split: sum.split option.split)
next
  case CallPop
  then show ?thesis
    using inv heap_Pop_data_correct [OF assms]
    by (fastforce simp: Heap_Pop_def split: option.split)
next
  case CallClose
  then show ?thesis using inv by (simp add: Heap_Close_def)
qed

lemma heap_applies_inv:
  assumes "strict_weak_order lf"
  shows "Heap_inv kf lf h \<Longrightarrow> \<exists>h'. heap_applies h cs = Some h' \<and> Heap_inv kf lf h'"
proof (induction cs arbitrary: h)
  case Nil
  then show ?case by simp
next
  case (Cons c cs)
  then show ?case using heap_apply_inv [OF assms Cons.prems, of c] by auto
qed

text \<open>
  No sequence of calls of the heap's methods panics, whatever the keys and errors of the key
  function, as long as the less function is a strict weak order: positions recorded in the items
  always agree with the queue and the queue is always in heap order.
\<close>

theorem Heap_never_panics:
  assumes "strict_weak_order lf"
  shows "\<exists>h. heap_applies (NewHeap kf lf) cs = Some h \<and> Heap_inv kf lf h"
  using heap_applies_inv [OF assms NewHeap_inv] .

theorem Heap_never_panics_witness:
  "\<exists>h. heap_applies (NewHeap (\<lambda>_. Inr ''k'') (\<lambda>a b. (the a :: int) < the b))
         [CallAdd (Some 3), CallUpdate (Some 1), CallPop, CallDelete None] = Some h \<and>
       Heap_inv (\<lambda>_. Inr ''k'') (\<lambda>a b. (the a :: int) < the b) h"
  by (rule Heap_never_panics) (rule strict_weak_order_key [OF strict_weak_order_less])

text \<open>
  C33 \<open>Pop\<close> on a heap that holds something returns an object that no stored object precedes, under
  the key it was stored with, and removes exactly that entry; nothing else changes.
\<close>

theorem Heap_Pop_least:
  assumes "strict_weak_order lf" and "Heap_inv kf lf h"
    and "heap_map (heap_data h) k0 = Some (Some v0)" and "None \<notin> ran (heap_map (heap_data h))"
  shows "\<exists>h' key obj. Heap_Pop h = Some (h', Returns (Some obj) None) \<and> Heap_inv kf lf h' \<and>
     heap_map (heap_data h) key = Some (Some obj) \<and>
     heap_map (heap_data h') = (heap_map (heap_data h))(key := None) \<and>
     heap_closed h' = heap_closed h \<and>
     (\<forall>k v. heap_map (heap_data h) k = Some v \<longrightarrow> \<not> lf v (Some obj))"
proof -
  have ne: "hd_queue (heap_data h) \<noteq> []"
    using queue_empty_iff [OF assms(2)] assms(3) by auto
  obtain d key obj where d: "heap_Pop heapData_Less heapData_Swap heapData_Len heapData_Pop (heap_data h)
        = Some (d, obj)" "heapData_inv kf lf d" "heap_map (heap_data h) key = Some obj"
      "heap_map d = (heap_map (heap_data h))(key := None)"
      "\<forall>k v. heap_map (heap_data h) k = Some v \<longrightarrow> \<not> lf v obj"
    using heap_Pop_data_correct [OF assms(1,2) ne] by blast
  obtain v where "obj = Some v" using d(3) assms(4) by (metis not_None_eq ranI)
  then show ?thesis using d ne by (auto simp: Heap_Pop_def)
qed

definition demo_heap :: "int Heap" where
  "demo_heap = \<lparr>heap_data = \<lparr>hd_items = [''a'' \<mapsto> \<lparr>hi_obj = Some 1, hi_index = 0\<rparr>,
       ''b'' \<mapsto> \<lparr>hi_obj = Some 2, hi_index = 1\<rparr>], hd_queue = [''a'', ''b''],
     hd_keyFunc = (\<lambda>_. Inr ''k''), hd_lessFunc = (\<lambda>a b. the a < the b)\<rparr>, heap_closed = False\<rparr>"

lemma demo_heap_inv: "Heap_inv (\<lambda>_. Inr ''k'') (\<lambda>a b. the a < the b) demo_heap"
  by (auto simp: demo_heap_def heapData_inv_def heapData_ok_def heapData_view_def heap_prefix_def
      edge_ok_def less_Suc_eq)

theorem Heap_Pop_least_witness:
  "\<exists>h' key obj. Heap_Pop demo_heap = Some (h', Returns (Some obj) None) \<and>
     Heap_inv (\<lambda>_. Inr ''k'') (\<lambda>a b. the a < the b) h' \<and>
     heap_map (heap_data demo_heap) key = Some (Some obj) \<and>
     heap_map (heap_data h') = (heap_map (heap_data demo_heap))(key := None) \<and>
     heap_closed h' = heap_closed demo_heap \<and>
     (\<forall>k v. heap_map (heap_data demo_heap) k = Some v \<longrightarrow> \<not> the v < the (Some obj))"
proof (rule Heap_Pop_least [OF strict_weak_order_key [OF strict_weak_order_less] demo_heap_inv])
  show "heap_map (heap_data demo_heap) ''a'' = Some (Some 1)"
    by (simp add: demo_heap_def heap_map_def)
  show "None \<notin> ran (heap_map (heap_data demo_heap))"
    by (auto simp: demo_heap_def heap_map_def ran_def split: if_splits)
qed

text \<open>
  \<open>Add\<close> and \<open>Update\<close> store the object under its key, replacing an earlier one; \<open>Delete\<close>
  removes the key and reports an error exactly when it is not there. Both keep every other entry
  and the heap order.
\<close>

theorem Heap_Add_Delete_refine_map:
  assumes "strict_weak_order lf" and "Heap_inv kf lf h" and "kf obj = Inr key"
  shows "(\<not> heap_closed h \<longrightarrow> (\<exists>h'. Heap_Add h obj = Some (h', None) \<and> Heap_Update h obj = Some (h', None) \<and>
       Heap_inv kf lf h' \<and> heap_map (heap_data h') = (heap_map (heap_data h))(key \<mapsto> obj))) \<and>
     (\<exists>h' e. Heap_Delete h obj = Some (h', e) \<and> Heap_inv kf lf h' \<and>
       heap_map (heap_data h') = (heap_map (heap_data h))(key := None) \<and>
       (e = None \<longleftrightarrow> heap_map (heap_data h) key \<noteq> None))"
proof (intro conjI impI)
  have kf: "hd_keyFunc (heap_data h) = kf"
    using assms(2) by (simp add: heapData_inv_def heapData_ok_def)
  show "\<exists>h'. Heap_Add h obj = Some (h', None) \<and> Heap_Update h obj = Some (h', None) \<and>
       Heap_inv kf lf h' \<and> heap_map (heap_data h') = (heap_map (heap_data h))(key \<mapsto> obj)"
    if "\<not> heap_closed h"
    using that addLocked_correct [OF assms(1,2), of key obj] kf assms(3)
    by (auto simp: Heap_Add_def Heap_Update_def)
  show "\<exists>h' e. Heap_Delete h obj = Some (h', e) \<and> Heap_inv kf lf h' \<and>
       heap_map (heap_data h') = (heap_map (heap_data h))(key := None) \<and>
       (e = None \<longleftrightarrow> heap_map (heap_data h) key \<noteq> None)"
  proof (cases "hd_items (heap_data h) key")
    case None
    then have "heap_map (heap_data h) = (heap_map (heap_data h))(key := None)"
      by (auto simp: heap_map_def)
    then show ?thesis using None kf assms by (auto simp: Heap_Delete_def heap_map_def)
  next
    case (Some item)
    then show ?thesis
      using heap_Remove_data_correct [OF assms(1,2) Some] kf assms(3)
      by (auto simp: Heap_Delete_def heap_map_def)
  qed
qed

theorem Heap_Add_Delete_refine_map_witness:
  "(\<exists>h'. Heap_Add demo_heap (Some 5) = Some (h', None) \<and> Heap_Update demo_heap (Some 5) = Some (h', None) \<and>
      Heap_inv (\<lambda>_. Inr ''k'') (\<lambda>a b. the a < the b) h' \<and>
      heap_map (heap_data h') = (heap_map (heap_data demo_heap))(''k'' \<mapsto> Some 5)) \<and>
   (\<exists>h' e. Heap_Delete demo_heap (Some 5) = Some (h', e) \<and>
      Heap_inv (\<lambda>_. Inr ''k'') (\<lambda>a b. the a < the b) h' \<and>
      heap_map (heap_data h') = (heap_map (heap_data demo_heap))(''k'' := None) \<and>
      (e = None \<longleftrightarrow> heap_map (heap_data demo_heap) ''k'' \<noteq> None))"
proof -
  have swo: "strict_weak_order (\<lambda>a b. (the a :: int) < the b)"
    by (rule strict_weak_order_key [OF strict_weak_order_less])
  note app = Heap_Add_Delete_refine_map [OF swo demo_heap_inv, where obj = "Some 5" and key = "''k''"]
  show ?thesis using app by (simp add: demo_heap_def)
qed

end
