(* ===== verification/ThreadSafeStore.thy ===== *)
theory ThreadSafeStore
  imports K8s_Prelude "HOL-Library.List_Lexorder" "HOL-Library.Char_ord"
begin

text \<open>
  \<open>tools/cache/thread_safe_store.go\<close>: the indexed map under every store. \<open>storeIndex\<close> holds the
  index functions and, per index, the set of keys for each indexed value; \<open>threadSafeMap\<close> holds
  the objects and keeps the indices up to date. The lock makes each method one atomic step.

  Methods that mutate return the new state and the value of a panic, if the method panics: an index
  function that fails panics in the middle of \<open>updateIndices\<close>, after earlier indices have been
  written. Arguments named \<open>order\<close> are the iteration orders of Go's \<open>range\<close> over a map or set.

  The lemmas: every index is exactly the inverse image of its index function over the stored
  objects, with no empty sets left behind, after any operation that does not panic; and the
  contract of the interface \<open>ThreadSafeStore\<close> as the locale \<open>thread_safe_store\<close>.
\<close>

section \<open>storeIndex\<close>

type_synonym 'v index_func = "'v iface \<Rightarrow> ('v, string list) res"
type_synonym index = "string set gomap"

record 'v storeIndex =
  si_indexers :: "'v index_func gomap"
  si_indices :: "index gomap"

definition index_get :: "index \<Rightarrow> string \<Rightarrow> string set" where
  "index_get index v = (case index v of None \<Rightarrow> {} | Some keys \<Rightarrow> keys)"

definition indices_get :: "'v storeIndex \<Rightarrow> string \<Rightarrow> index" where
  "indices_get i name = (case si_indices i name of None \<Rightarrow> Map.empty | Some index \<Rightarrow> index)"

definition storeIndex_reset :: "'v storeIndex \<Rightarrow> 'v storeIndex" where
  "storeIndex_reset i = i\<lparr>si_indices := Map.empty\<rparr>"

definition no_such_index :: "'v error" where
  "no_such_index = Errorf ''Index with name %s does not exist''"

definition getKeysFromIndex :: "'v storeIndex \<Rightarrow> string \<Rightarrow> 'v iface \<Rightarrow> ('v, string set) res" where
  "getKeysFromIndex i indexName obj =
     (case si_indexers i indexName of
        None \<Rightarrow> Inl no_such_index
      | Some indexFunc \<Rightarrow>
          (case indexFunc obj of
             Inl err \<Rightarrow> Inl err
           | Inr indexedValues \<Rightarrow>
               let index = indices_get i indexName in
               Inr (if length indexedValues = 1 then index_get index (indexedValues ! 0)
                    else fold (\<lambda>v keys. keys \<union> index_get index v) indexedValues {})))"

definition getKeysByIndex :: "'v storeIndex \<Rightarrow> string \<Rightarrow> string \<Rightarrow> ('v, string set) res" where
  "getKeysByIndex i indexName indexedValue =
     (case si_indexers i indexName of
        None \<Rightarrow> Inl no_such_index
      | Some _ \<Rightarrow> Inr (index_get (indices_get i indexName) indexedValue))"

definition getIndexValues :: "string list \<Rightarrow> 'v storeIndex \<Rightarrow> string \<Rightarrow> string list" where
  "getIndexValues order i indexName = filter (\<lambda>v. indices_get i indexName v \<noteq> None) order"

definition addIndexers :: "'v storeIndex \<Rightarrow> 'v index_func gomap \<Rightarrow> 'v storeIndex \<times> 'v error option" where
  "addIndexers i newIndexers =
     (if dom (si_indexers i) \<inter> dom newIndexers \<noteq> {} then (i, Some (Errorf ''indexer conflict: %v''))
      else (i\<lparr>si_indexers := si_indexers i ++ newIndexers\<rparr>, None))"

definition addKeyToIndex :: "string \<Rightarrow> string \<Rightarrow> index \<Rightarrow> index" where
  "addKeyToIndex key indexValue index = index(indexValue \<mapsto> insert key (index_get index indexValue))"

definition deleteKeyFromIndex :: "string \<Rightarrow> string \<Rightarrow> index \<Rightarrow> index" where
  "deleteKeyFromIndex key indexValue index =
     (case index indexValue of
        None \<Rightarrow> index
      | Some keys \<Rightarrow>
          if keys - {key} = {} then index(indexValue := None)
          else index(indexValue \<mapsto> keys - {key}))"

text \<open>The values of an object that may be nil, and the loop body of \<open>updateIndices\<close>.\<close>

definition index_values :: "'v index_func \<Rightarrow> 'v iface \<Rightarrow> ('v, string list) res" where
  "index_values indexFunc obj = (if obj \<noteq> None then indexFunc obj else Inr [])"

definition updateIndex :: "string list \<Rightarrow> string list \<Rightarrow> string \<Rightarrow> index \<Rightarrow> index" where
  "updateIndex oldIndexValues indexValues key index =
     (if length indexValues = 1 \<and> length oldIndexValues = 1 \<and> indexValues ! 0 = oldIndexValues ! 0
      then index
      else fold (addKeyToIndex key) indexValues (fold (deleteKeyFromIndex key) oldIndexValues index))"

definition index_panic :: "'v error \<Rightarrow> 'v error" where
  "index_panic err = Wrapf ''unable to calculate an index entry for key %q on index %q: %v'' err"

fun updateIndices ::
  "string list \<Rightarrow> 'v storeIndex \<Rightarrow> 'v iface \<Rightarrow> 'v iface \<Rightarrow> string \<Rightarrow> 'v storeIndex \<times> 'v error option"
where
  "updateIndices [] i oldObj newObj key = (i, None)"
| "updateIndices (name # order) i oldObj newObj key =
     (case si_indexers i name of
        None \<Rightarrow> updateIndices order i oldObj newObj key
      | Some indexFunc \<Rightarrow>
          (case index_values indexFunc oldObj of
             Inl err \<Rightarrow> (i, Some (index_panic err))
           | Inr oldIndexValues \<Rightarrow>
               (case index_values indexFunc newObj of
                  Inl err \<Rightarrow> (i, Some (index_panic err))
                | Inr indexValues \<Rightarrow>
                    updateIndices order
                      (i\<lparr>si_indices := (si_indices i)
                         (name \<mapsto> updateIndex oldIndexValues indexValues key (indices_get i name))\<rparr>)
                      oldObj newObj key)))"

section \<open>threadSafeMap\<close>

record 'v threadSafeMap =
  tsm_items :: "'v iface gomap"
  tsm_index :: "'v storeIndex"

definition NewThreadSafeStore :: "'v index_func gomap \<Rightarrow> index gomap \<Rightarrow> 'v threadSafeMap" where
  "NewThreadSafeStore indexers indices =
     \<lparr>tsm_items = Map.empty, tsm_index = \<lparr>si_indexers = indexers, si_indices = indices\<rparr>\<rparr>"

definition tsm_Update ::
  "string list \<Rightarrow> 'v threadSafeMap \<Rightarrow> string \<Rightarrow> 'v iface \<Rightarrow> 'v threadSafeMap \<times> 'v error option"
where
  "tsm_Update order c key obj =
     (let oldObject = map_get (tsm_items c) key;
          (index, panic) = updateIndices order (tsm_index c) oldObject obj key
      in (c\<lparr>tsm_items := (tsm_items c)(key \<mapsto> obj), tsm_index := index\<rparr>, panic))"

definition tsm_Add ::
  "string list \<Rightarrow> 'v threadSafeMap \<Rightarrow> string \<Rightarrow> 'v iface \<Rightarrow> 'v threadSafeMap \<times> 'v error option"
where
  "tsm_Add order c key obj = tsm_Update order c key obj"

definition tsm_Delete ::
  "string list \<Rightarrow> 'v threadSafeMap \<Rightarrow> string \<Rightarrow> 'v threadSafeMap \<times> 'v error option"
where
  "tsm_Delete order c key =
     (case tsm_items c key of
        None \<Rightarrow> (c, None)
      | Some obj \<Rightarrow>
          (case updateIndices order (tsm_index c) obj None key of
             (index, Some panic) \<Rightarrow> (c\<lparr>tsm_index := index\<rparr>, Some panic)
           | (index, None) \<Rightarrow>
               (c\<lparr>tsm_items := (tsm_items c)(key := None), tsm_index := index\<rparr>, None)))"

definition tsm_Get :: "'v threadSafeMap \<Rightarrow> string \<Rightarrow> 'v iface \<times> bool" where
  "tsm_Get c key = (map_get (tsm_items c) key, tsm_items c key \<noteq> None)"

definition tsm_List :: "string list \<Rightarrow> 'v threadSafeMap \<Rightarrow> 'v iface list" where
  "tsm_List order c = List.map_filter (tsm_items c) order"

definition tsm_ListKeys :: "string list \<Rightarrow> 'v threadSafeMap \<Rightarrow> string list" where
  "tsm_ListKeys order c = filter (\<lambda>k. tsm_items c k \<noteq> None) order"

text \<open>\<open>Replace\<close> ranges over the new items, and over the indexers once for each of them.\<close>

fun rebuildIndices ::
  "(string \<Rightarrow> string list) \<Rightarrow> string list \<Rightarrow> 'v iface gomap \<Rightarrow> 'v storeIndex
     \<Rightarrow> 'v storeIndex \<times> 'v error option"
where
  "rebuildIndices orders [] items i = (i, None)"
| "rebuildIndices orders (key # keys) items i =
     (case updateIndices (orders key) i None (map_get items key) key of
        (i', Some panic) \<Rightarrow> (i', Some panic)
      | (i', None) \<Rightarrow> rebuildIndices orders keys items i')"

definition tsm_Replace ::
  "(string \<Rightarrow> string list) \<Rightarrow> string list \<Rightarrow> 'v threadSafeMap \<Rightarrow> 'v iface gomap
     \<Rightarrow> 'v threadSafeMap \<times> 'v error option"
where
  "tsm_Replace orders keys c items =
     (let (index, panic) = rebuildIndices orders keys items (storeIndex_reset (tsm_index c))
      in (c\<lparr>tsm_items := items, tsm_index := index\<rparr>, panic))"

definition tsm_Index ::
  "string list \<Rightarrow> 'v threadSafeMap \<Rightarrow> string \<Rightarrow> 'v iface \<Rightarrow> ('v, 'v iface list) res"
where
  "tsm_Index order c indexName obj =
     (case getKeysFromIndex (tsm_index c) indexName obj of
        Inl err \<Rightarrow> Inl err
      | Inr storeKeySet \<Rightarrow> Inr (map (map_get (tsm_items c)) (filter (\<lambda>k. k \<in> storeKeySet) order)))"

definition tsm_ByIndex ::
  "string list \<Rightarrow> 'v threadSafeMap \<Rightarrow> string \<Rightarrow> string \<Rightarrow> ('v, 'v iface list) res"
where
  "tsm_ByIndex order c indexName indexedValue =
     (case getKeysByIndex (tsm_index c) indexName indexedValue of
        Inl err \<Rightarrow> Inl err
      | Inr keys \<Rightarrow> Inr (map (map_get (tsm_items c)) (filter (\<lambda>k. k \<in> keys) order)))"

definition tsm_IndexKeys :: "'v threadSafeMap \<Rightarrow> string \<Rightarrow> string \<Rightarrow> ('v, string list) res" where
  "tsm_IndexKeys c indexName indexedValue =
     (case getKeysByIndex (tsm_index c) indexName indexedValue of
        Inl err \<Rightarrow> Inl err
      | Inr keys \<Rightarrow> Inr (sorted_list_of_set keys))"

definition tsm_ListIndexFuncValues :: "string list \<Rightarrow> 'v threadSafeMap \<Rightarrow> string \<Rightarrow> string list" where
  "tsm_ListIndexFuncValues order c indexName = getIndexValues order (tsm_index c) indexName"

definition tsm_GetIndexers :: "'v threadSafeMap \<Rightarrow> 'v index_func gomap" where
  "tsm_GetIndexers c = si_indexers (tsm_index c)"

definition tsm_AddIndexers ::
  "'v threadSafeMap \<Rightarrow> 'v index_func gomap \<Rightarrow> 'v threadSafeMap \<times> 'v error option"
where
  "tsm_AddIndexers c newIndexers =
     (if go_len (tsm_items c) > 0 then (c, Some (Errorf ''cannot add indexers to running index''))
      else let (index, err) = addIndexers (tsm_index c) newIndexers
           in (c\<lparr>tsm_index := index\<rparr>, err))"

section \<open>One index\<close>

definition indexed :: "'v index_func \<Rightarrow> 'v iface \<Rightarrow> string \<Rightarrow> bool" where
  "indexed f obj v \<longleftrightarrow> (case index_values f obj of Inl _ \<Rightarrow> False | Inr vs \<Rightarrow> v \<in> set vs)"

text \<open>The keys whose object has the indexed value, and what it means for an index to be right.\<close>

definition keys_with :: "'v index_func \<Rightarrow> 'v iface gomap \<Rightarrow> string \<Rightarrow> string set" where
  "keys_with f items v = {k. \<exists>obj. items k = Some obj \<and> indexed f obj v}"

definition index_right :: "'v index_func \<Rightarrow> 'v iface gomap \<Rightarrow> index \<Rightarrow> bool" where
  "index_right f items index \<longleftrightarrow>
     (\<forall>v. index_get index v = keys_with f items v) \<and> (\<forall>v. index v \<noteq> Some {})"

lemma index_get_delete [simp]:
  "index_get (deleteKeyFromIndex key v index) w = (if w = v then index_get index w - {key} else index_get index w)"
  by (auto simp: deleteKeyFromIndex_def index_get_def split: option.split)

lemma index_get_add [simp]:
  "index_get (addKeyToIndex key v index) w = (if w = v then insert key (index_get index w) else index_get index w)"
  by (simp add: addKeyToIndex_def index_get_def)

lemma index_get_fold_delete:
  "index_get (fold (deleteKeyFromIndex key) vs index) w
     = index_get index w - (if w \<in> set vs then {key} else {})"
  by (induction vs arbitrary: index) auto

lemma index_get_fold_add:
  "index_get (fold (addKeyToIndex key) vs index) w
     = index_get index w \<union> (if w \<in> set vs then {key} else {})"
  by (induction vs arbitrary: index) auto

lemma fold_delete_nonempty:
  "(\<forall>v. index v \<noteq> Some {}) \<Longrightarrow> fold (deleteKeyFromIndex key) vs index w \<noteq> Some {}"
proof (induction vs arbitrary: index)
  case (Cons v vs)
  then have "\<forall>w. deleteKeyFromIndex key v index w \<noteq> Some {}"
    by (auto simp: deleteKeyFromIndex_def split: option.split if_splits)
  then show ?case using Cons.IH by simp
qed simp

lemma fold_add_nonempty:
  "(\<forall>v. index v \<noteq> Some {}) \<Longrightarrow> fold (addKeyToIndex key) vs index w \<noteq> Some {}"
proof (induction vs arbitrary: index)
  case (Cons v vs)
  then have "\<forall>w. addKeyToIndex key v index w \<noteq> Some {}" by (auto simp: addKeyToIndex_def)
  then show ?case using Cons.IH by simp
qed simp

text \<open>
  The loop body turns an index that is right for the old items into one that is right for the items
  with the new object, including its shortcut for a single unchanged value.
\<close>

lemma updateIndex_right:
  assumes right: "index_right f items index"
    and old: "index_values f (map_get items key) = Inr ovs" and new: "index_values f obj = Inr vs"
  shows "index_right f (items(key \<mapsto> obj)) (updateIndex ovs vs key index)"
proof -
  have key: "key \<in> keys_with f items v \<longleftrightarrow> v \<in> set ovs" for v
    using old by (cases "items key")
      (auto simp: keys_with_def indexed_def map_get_def index_values_def split: if_splits)
  have new_keys: "keys_with f (items(key \<mapsto> obj)) v
      = keys_with f items v - {key} \<union> (if v \<in> set vs then {key} else {})" for v
    using new by (auto simp: keys_with_def indexed_def)
  have get: "index_get index v = keys_with f items v" for v using right by (simp add: index_right_def)
  show ?thesis
  proof (cases "length vs = 1 \<and> length ovs = 1 \<and> vs ! 0 = ovs ! 0")
    case True
    then have "vs = ovs" by (metis One_nat_def length_0_conv length_Suc_conv nth_Cons_0)
    then show ?thesis
      using right True key new_keys by (auto simp: index_right_def updateIndex_def)
  next
    case False
    have "index_get (updateIndex ovs vs key index) v = keys_with f (items(key \<mapsto> obj)) v" for v
      using False key [of v] unfolding updateIndex_def
      by (auto simp: index_get_fold_add index_get_fold_delete get new_keys)
    moreover have "updateIndex ovs vs key index v \<noteq> Some {}" for v
      using False right by (auto simp: updateIndex_def index_right_def fold_add_nonempty fold_delete_nonempty)
    ultimately show ?thesis by (simp add: index_right_def)
  qed
qed

section \<open>All indices\<close>

definition indices_right :: "'v storeIndex \<Rightarrow> 'v iface gomap \<Rightarrow> bool" where
  "indices_right i items \<longleftrightarrow>
     (\<forall>name f. si_indexers i name = Some f \<longrightarrow> index_right f items (indices_get i name)) \<and>
     dom (si_indices i) \<subseteq> dom (si_indexers i)"

text \<open>Every index function has a value for the object: no panic.\<close>

definition indexable :: "'v index_func gomap \<Rightarrow> 'v iface \<Rightarrow> bool" where
  "indexable indexers obj \<longleftrightarrow> (\<forall>f \<in> ran indexers. \<exists>vs. index_values f obj = Inr vs)"

definition tsm_ok :: "'v threadSafeMap \<Rightarrow> bool" where
  "tsm_ok c \<longleftrightarrow> finite (dom (tsm_items c)) \<and> finite (dom (si_indexers (tsm_index c))) \<and>
     indices_right (tsm_index c) (tsm_items c) \<and>
     (\<forall>obj \<in> ran (tsm_items c). indexable (si_indexers (tsm_index c)) obj)"

lemma indexable_nil [simp]: "indexable indexers None"
  by (simp add: indexable_def index_values_def)

lemma indexableD: "indexable indexers obj \<Longrightarrow> indexers name = Some f \<Longrightarrow> \<exists>vs. index_values f obj = Inr vs"
  by (auto simp: indexable_def ran_def)

lemma updateIndices_indexers [simp]:
  "si_indexers (fst (updateIndices order i oldObj newObj key)) = si_indexers i"
  by (induction order i oldObj newObj key rule: updateIndices.induct)
    (auto split: option.split sum.split)

lemma indices_get_upd [simp]:
  "indices_get (i\<lparr>si_indices := (si_indices i)(name \<mapsto> index)\<rparr>) n = (if n = name then index else indices_get i n)"
  by (simp add: indices_get_def)

lemma updateIndices_frame:
  "n \<notin> set order \<Longrightarrow> indices_get (fst (updateIndices order i oldObj newObj key)) n = indices_get i n"
  by (induction order i oldObj newObj key rule: updateIndices.induct)
    (auto split: option.split sum.split)

lemma updateIndices_dom:
  "dom (si_indices i) \<subseteq> dom (si_indexers i) \<Longrightarrow>
     dom (si_indices (fst (updateIndices order i oldObj newObj key))) \<subseteq> dom (si_indexers i)"
proof (induction order arbitrary: i)
  case (Cons name order)
  have "dom (si_indices (fst (updateIndices order (i\<lparr>si_indices := (si_indices i)(name \<mapsto> index)\<rparr>)
      oldObj newObj key))) \<subseteq> dom (si_indexers i)" if "si_indexers i name = Some f" for f index
  proof -
    let ?i = "i\<lparr>si_indices := (si_indices i)(name \<mapsto> index)\<rparr>"
    have "dom (si_indices ?i) \<subseteq> dom (si_indexers ?i)" using Cons.prems that by auto
    from Cons.IH [OF this] show ?thesis by simp
  qed
  then show ?case using Cons by (simp split: option.split sum.split)
qed simp

lemma updateIndices_no_panic:
  assumes "indexable (si_indexers i) oldObj" and "indexable (si_indexers i) newObj"
  shows "snd (updateIndices order i oldObj newObj key) = None"
  using assms
proof (induction order arbitrary: i)
  case (Cons name order)
  show ?case
  proof (cases "si_indexers i name")
    case (Some f)
    obtain ovs where "index_values f oldObj = Inr ovs" using indexableD [OF Cons.prems(1) Some] by blast
    moreover obtain vs where "index_values f newObj = Inr vs" using indexableD [OF Cons.prems(2) Some] by blast
    ultimately show ?thesis using Cons Some by simp
  qed (use Cons in simp)
qed simp

lemma updateIndices_panics:
  assumes "snd (updateIndices order i oldObj newObj key) = None"
    and "name \<in> set order" and "si_indexers i name = Some f"
  shows "\<exists>vs. index_values f newObj = Inr vs"
  using assms
  by (induction order i oldObj newObj key rule: updateIndices.induct)
    (auto split: option.splits sum.splits)

lemma updateIndices_one_right:
  assumes "name \<in> set order" and "distinct order" and "si_indexers i name = Some f"
    and "index_right f items (indices_get i name)"
    and "snd (updateIndices order i (map_get items key) obj key) = None"
  shows "index_right f (items(key \<mapsto> obj))
     (indices_get (fst (updateIndices order i (map_get items key) obj key)) name)"
  using assms
proof (induction order arbitrary: i)
  case (Cons n order)
  show ?case
  proof (cases "si_indexers i n")
    case None
    then show ?thesis using Cons by (cases "n = name") auto
  next
    case (Some g)
    obtain ovs vs where vals: "index_values g (map_get items key) = Inr ovs" "index_values g obj = Inr vs"
      using Cons.prems(5) Some by (auto split: sum.splits)
    let ?i' = "i\<lparr>si_indices := (si_indices i)(n \<mapsto> updateIndex ovs vs key (indices_get i n))\<rparr>"
    have step: "updateIndices (n # order) i (map_get items key) obj key
        = updateIndices order ?i' (map_get items key) obj key"
      using Some vals by simp
    show ?thesis
    proof (cases "n = name")
      case True
      then have "g = f" using Some Cons.prems(3) by simp
      have "indices_get (fst (updateIndices order ?i' (map_get items key) obj key)) name
          = updateIndex ovs vs key (indices_get i name)"
        using True Cons.prems(2) by (subst updateIndices_frame) auto
      then show ?thesis
        using step vals Cons.prems(4) updateIndex_right \<open>g = f\<close> by metis
    next
      case False
      then have "name \<in> set order" using Cons.prems(1) by simp
      with Cons.IH [of ?i'] show ?thesis using Cons.prems step False by simp
    qed
  qed
qed simp

lemma updateIndices_right:
  assumes order: "range_order order (si_indexers i)" and right: "indices_right i items"
    and ok: "updateIndices order i (map_get items key) obj key = (i', None)"
  shows "indices_right i' (items(key \<mapsto> obj)) \<and> si_indexers i' = si_indexers i"
proof -
  have i': "i' = fst (updateIndices order i (map_get items key) obj key)" using ok by simp
  have idx: "si_indexers i' = si_indexers i" by (simp add: i')
  have "index_right f (items(key \<mapsto> obj)) (indices_get i' name)" if "si_indexers i name = Some f" for name f
    unfolding i' using order right ok that
    by (intro updateIndices_one_right) (auto simp: range_order_def indices_right_def)
  moreover have "dom (si_indices i') \<subseteq> dom (si_indexers i)"
    unfolding i' using right by (intro updateIndices_dom) (simp add: indices_right_def)
  ultimately show ?thesis using idx by (simp add: indices_right_def)
qed

text \<open>A nil object has no indexed values, so storing nil under a key and dropping the key agree.\<close>

lemma indices_right_nil:
  "indices_right i (items(key \<mapsto> None)) \<Longrightarrow> indices_right i (items(key := None))"
proof -
  have "keys_with f (items(key := None)) v = keys_with f (items(key \<mapsto> None)) v"
    for f :: "'a index_func" and v
    by (auto simp: keys_with_def indexed_def index_values_def)
  then show "indices_right i (items(key \<mapsto> None)) \<Longrightarrow> indices_right i (items(key := None))"
    by (simp add: indices_right_def index_right_def)
qed

lemma indices_right_empty:
  "si_indices i = Map.empty \<Longrightarrow> indices_right i Map.empty"
  by (simp add: indices_right_def index_right_def indices_get_def index_get_def keys_with_def)

lemma rebuildIndices_right:
  assumes "distinct (ks @ keys)" and "set (ks @ keys) \<subseteq> dom items"
    and "\<And>k. range_order (orders k) (si_indexers i)" and "indices_right i (items |` set ks)"
    and "rebuildIndices orders keys items i = (i', None)"
  shows "indices_right i' (items |` (set ks \<union> set keys)) \<and> si_indexers i' = si_indexers i"
  using assms
proof (induction keys arbitrary: ks i)
  case (Cons key keys)
  let ?r = "items |` set ks"
  have nil: "map_get ?r key = None" using Cons.prems(1) by (simp add: restrict_map_def map_get_def)
  obtain v where v: "items key = Some v" using Cons.prems(2) by auto
  obtain i1 where i1: "updateIndices (orders key) i None (map_get items key) key = (i1, None)"
      "rebuildIndices orders keys items i1 = (i', None)"
    using Cons.prems(5) by (auto split: prod.splits option.splits)
  have "indices_right i1 (?r(key \<mapsto> map_get items key)) \<and> si_indexers i1 = si_indexers i"
    using updateIndices_right [of "orders key" i ?r key "map_get items key" i1] Cons.prems(3,4) i1(1) nil
    by simp
  moreover have "?r(key \<mapsto> map_get items key) = items |` set (ks @ [key])"
    using v by (auto simp: restrict_map_def map_get_def fun_eq_iff)
  ultimately show ?case
    using Cons.IH [of "ks @ [key]" i1] Cons.prems(1,2,3) i1(2) by (simp add: Un_commute insert_commute)
qed simp

section \<open>The operations\<close>

lemma ran_fun_upd_subset: "ran (m(k \<mapsto> v)) \<subseteq> insert v (ran m)" "ran (m(k := None)) \<subseteq> ran m"
  by (auto simp: ran_def split: if_splits)

lemma tsm_Update_ok:
  assumes ok: "tsm_ok c" and order: "range_order order (si_indexers (tsm_index c))"
    and upd: "tsm_Update order c key obj = (c', None)"
  shows "tsm_ok c' \<and> tsm_items c' = (tsm_items c)(key \<mapsto> obj) \<and>
     si_indexers (tsm_index c') = si_indexers (tsm_index c) \<and>
     indexable (si_indexers (tsm_index c)) obj"
proof -
  obtain i' where i': "updateIndices order (tsm_index c) (map_get (tsm_items c) key) obj key = (i', None)"
      "c' = c\<lparr>tsm_items := (tsm_items c)(key \<mapsto> obj), tsm_index := i'\<rparr>"
    using upd by (auto simp: tsm_Update_def split: prod.splits)
  have right: "indices_right i' ((tsm_items c)(key \<mapsto> obj))" "si_indexers i' = si_indexers (tsm_index c)"
    using updateIndices_right [OF order _ i'(1)] ok by (auto simp: tsm_ok_def)
  have "indexable (si_indexers (tsm_index c)) obj"
    unfolding indexable_def
  proof
    fix f assume "f \<in> ran (si_indexers (tsm_index c))"
    then obtain name where "si_indexers (tsm_index c) name = Some f" by (auto simp: ran_def)
    then show "\<exists>vs. index_values f obj = Inr vs"
      using updateIndices_panics [of order "tsm_index c" "map_get (tsm_items c) key" obj key name f]
        i'(1) order by (auto simp: range_order_def)
  qed
  then show ?thesis
    using ok right i'(2) ran_fun_upd_subset(1) [of "tsm_items c" key obj] by (auto simp: tsm_ok_def)
qed

lemma tsm_Update_no_panic:
  assumes "tsm_ok c" and "indexable (si_indexers (tsm_index c)) obj"
  shows "snd (tsm_Update order c key obj) = None"
proof -
  have "indexable (si_indexers (tsm_index c)) (map_get (tsm_items c) key)"
    using assms(1) by (cases "tsm_items c key") (auto simp: tsm_ok_def map_get_def ranI)
  then show ?thesis
    using updateIndices_no_panic [OF _ assms(2)] by (simp add: tsm_Update_def split: prod.split)
      (metis snd_conv)
qed

lemma tsm_Delete_ok:
  assumes ok: "tsm_ok c" and order: "range_order order (si_indexers (tsm_index c))"
  shows "\<exists>c'. tsm_Delete order c key = (c', None) \<and> tsm_ok c' \<and>
     tsm_items c' = (tsm_items c)(key := None) \<and>
     si_indexers (tsm_index c') = si_indexers (tsm_index c)"
proof (cases "tsm_items c key")
  case None
  then have "(tsm_items c)(key := None) = tsm_items c" by auto
  then show ?thesis using None ok by (simp add: tsm_Delete_def)
next
  case (Some obj)
  have mg: "map_get (tsm_items c) key = obj" using Some by (simp add: map_get_def)
  have "indexable (si_indexers (tsm_index c)) obj" using ok Some by (auto simp: tsm_ok_def ranI)
  then obtain i' where i': "updateIndices order (tsm_index c) obj None key = (i', None)"
    using updateIndices_no_panic [of "tsm_index c" obj None order key] by (metis indexable_nil prod.collapse)
  have right: "indices_right i' ((tsm_items c)(key \<mapsto> None))" "si_indexers i' = si_indexers (tsm_index c)"
    using updateIndices_right [OF order, of "tsm_items c" key None i'] ok i' mg by (auto simp: tsm_ok_def)
  then show ?thesis
    using ok Some i' indices_right_nil [OF right(1)] ran_fun_upd_subset(2) [of "tsm_items c" key]
    by (auto simp: tsm_Delete_def tsm_ok_def)
qed

lemma rebuildIndices_no_panic:
  "(\<And>k. k \<in> set keys \<Longrightarrow> indexable (si_indexers i) (map_get items k)) \<Longrightarrow>
     snd (rebuildIndices orders keys items i) = None"
proof (induction keys arbitrary: i)
  case (Cons key keys)
  obtain i' where i': "updateIndices (orders key) i None (map_get items key) key = (i', None)"
    using updateIndices_no_panic [of i None "map_get items key" "orders key" key] Cons.prems
    by (metis indexable_nil list.set_intros(1) prod.collapse)
  then have "si_indexers i' = si_indexers i" by (metis fst_conv updateIndices_indexers)
  then show ?case using i' Cons by simp
qed simp

lemma rebuildIndices_panics:
  assumes "snd (rebuildIndices orders keys items i) = None" and "k \<in> set keys"
    and "\<And>k. range_order (orders k) (si_indexers i)" and "si_indexers i name = Some f"
  shows "\<exists>vs. index_values f (map_get items k) = Inr vs"
  using assms
proof (induction keys arbitrary: i)
  case (Cons key keys)
  obtain i' where i': "updateIndices (orders key) i None (map_get items key) key = (i', None)"
      "snd (rebuildIndices orders keys items i') = None"
    using Cons.prems(1) by (auto split: prod.splits option.splits)
  have "name \<in> set (orders key)" using Cons.prems(3,4) by (auto simp: range_order_def)
  then have here: "\<exists>vs. index_values f (map_get items key) = Inr vs"
    using updateIndices_panics [of "orders key" i None "map_get items key" key name f] i'(1) Cons.prems(4)
    by simp
  have "si_indexers i' = si_indexers i" using i'(1) by (metis fst_conv updateIndices_indexers)
  then show ?case using here Cons.IH [of i'] i'(2) Cons.prems(2,3,4) by auto
qed simp

lemma tsm_Replace_indexable:
  assumes "\<forall>k. range_order (orders k) (si_indexers (tsm_index c))" and "range_order keys items"
    and "tsm_Replace orders keys c items = (c', None)"
  shows "\<forall>obj \<in> ran items. indexable (si_indexers (tsm_index c)) obj"
proof
  fix obj assume "obj \<in> ran items"
  then obtain k where k: "items k = Some obj" by (auto simp: ran_def)
  have "snd (rebuildIndices orders keys items (storeIndex_reset (tsm_index c))) = None"
    using assms(3) by (auto simp: tsm_Replace_def split: prod.splits)
  then show "indexable (si_indexers (tsm_index c)) obj"
    using rebuildIndices_panics [of orders keys items "storeIndex_reset (tsm_index c)" k] assms(1,2) k
    by (auto simp: indexable_def ran_def range_order_def storeIndex_reset_def map_get_def)
qed

lemma tsm_Replace_ok:
  assumes fin: "finite (dom (si_indexers (tsm_index c)))" and keys: "range_order keys items"
    and orders: "\<And>k. range_order (orders k) (si_indexers (tsm_index c))"
    and all: "\<forall>obj \<in> ran items. indexable (si_indexers (tsm_index c)) obj"
  shows "\<exists>c'. tsm_Replace orders keys c items = (c', None) \<and> tsm_ok c' \<and> tsm_items c' = items \<and>
     si_indexers (tsm_index c') = si_indexers (tsm_index c)"
proof -
  let ?i = "storeIndex_reset (tsm_index c)"
  have idx: "si_indexers ?i = si_indexers (tsm_index c)" by (simp add: storeIndex_reset_def)
  have "indexable (si_indexers ?i) (map_get items k)" if "k \<in> set keys" for k
    using that all idx by (cases "items k") (auto simp: map_get_def ranI)
  then obtain i' where i': "rebuildIndices orders keys items ?i = (i', None)"
    using rebuildIndices_no_panic [of keys ?i items orders] by (metis prod.collapse)
  have "indices_right ?i (items |` set [])"
    using indices_right_empty [of ?i] by (simp add: storeIndex_reset_def)
  then have "indices_right i' (items |` (set [] \<union> set keys)) \<and> si_indexers i' = si_indexers ?i"
    using keys orders idx i' by (intro rebuildIndices_right [of "[]" keys]) (auto simp: range_order_def)
  moreover have "items |` set keys = items"
    using keys by (auto simp: range_order_def restrict_map_def fun_eq_iff domIff)
  ultimately show ?thesis
    using i' idx fin all range_order_finite [OF keys] by (auto simp: tsm_Replace_def tsm_ok_def)
qed

lemma tsm_AddIndexers_ok:
  assumes ok: "tsm_ok c" and fin: "finite (dom newIndexers)"
  shows "tsm_ok (fst (tsm_AddIndexers c newIndexers))"
proof (cases "go_len (tsm_items c) > 0 \<or> dom (si_indexers (tsm_index c)) \<inter> dom newIndexers \<noteq> {}")
  case True
  then show ?thesis using ok by (auto simp: tsm_AddIndexers_def addIndexers_def)
next
  case False
  then have empty: "tsm_items c = Map.empty" using ok by (simp add: tsm_ok_def go_len_0_iff)
  have disj: "dom (si_indexers (tsm_index c)) \<inter> dom newIndexers = {}" using False by blast
  have "indices_get (tsm_index c) name = Map.empty" if "name \<in> dom newIndexers" for name
  proof -
    have "dom (si_indices (tsm_index c)) \<subseteq> dom (si_indexers (tsm_index c))"
      using ok by (simp add: tsm_ok_def indices_right_def)
    then have "name \<notin> dom (si_indices (tsm_index c))" using that disj by blast
    then show ?thesis by (auto simp: indices_get_def domIff split: option.split)
  qed
  then have "index_right f Map.empty (indices_get (tsm_index c) name)"
    if "(si_indexers (tsm_index c) ++ newIndexers) name = Some f" for name f
  proof (cases "name \<in> dom newIndexers")
    case True
    then show ?thesis
      using \<open>\<And>name. name \<in> dom newIndexers \<Longrightarrow> indices_get (tsm_index c) name = Map.empty\<close>
      by (simp add: index_right_def index_get_def keys_with_def)
  next
    case False
    then have "si_indexers (tsm_index c) name = Some f" using that by (simp add: map_add_dom_app_simps)
    then show ?thesis using ok empty by (simp add: tsm_ok_def indices_right_def)
  qed
  then show ?thesis
    using False ok fin empty disj
    by (auto simp: tsm_AddIndexers_def addIndexers_def tsm_ok_def indices_right_def indices_get_def)
qed

lemma NewThreadSafeStore_ok: "finite (dom indexers) \<Longrightarrow> tsm_ok (NewThreadSafeStore indexers Map.empty)"
  by (simp add: NewThreadSafeStore_def tsm_ok_def indices_right_empty)

section \<open>The contract of the interface\<close>

text \<open>
  What the clients of a \<open>ThreadSafeStore\<close> (\<open>cache\<close> in \<open>store.go\<close>, \<open>ExpirationCache\<close>) rely on. The
  store shows a map (\<open>content\<close>); \<open>accepts\<close> says which objects its index functions can handle.
\<close>

locale thread_safe_store =
  fixes upd :: "'s \<Rightarrow> string \<Rightarrow> 'v iface \<Rightarrow> 's \<times> 'v error option"
    and del :: "'s \<Rightarrow> string \<Rightarrow> 's \<times> 'v error option"
    and get :: "'s \<Rightarrow> string \<Rightarrow> 'v iface \<times> bool"
    and repl :: "'s \<Rightarrow> 'v iface gomap \<Rightarrow> 's \<times> 'v error option"
    and content :: "'s \<Rightarrow> 'v iface gomap"
    and ok :: "'s \<Rightarrow> bool"
    and accepts :: "'s \<Rightarrow> 'v iface \<Rightarrow> bool"
  assumes get_law: "ok s \<Longrightarrow> get s k = (map_get (content s) k, content s k \<noteq> None)"
    and upd_law: "ok s \<Longrightarrow> accepts s obj \<Longrightarrow>
      \<exists>s'. upd s k obj = (s', None) \<and> ok s' \<and> content s' = (content s)(k \<mapsto> obj) \<and> accepts s' = accepts s"
    and del_law: "ok s \<Longrightarrow>
      \<exists>s'. del s k = (s', None) \<and> ok s' \<and> content s' = (content s)(k := None) \<and> accepts s' = accepts s"
    and repl_law: "ok s \<Longrightarrow> finite (dom items) \<Longrightarrow> \<forall>obj \<in> ran items. accepts s obj \<Longrightarrow>
      \<exists>s'. repl s items = (s', None) \<and> ok s' \<and> content s' = items \<and> accepts s' = accepts s"
begin

text \<open>What is read back after a write, and that writes under one key leave the others alone.\<close>

lemma get_after_upd:
  assumes "ok s" and "accepts s obj"
  shows "get (fst (upd s k obj)) k' = (if k' = k then (obj, True) else get s k')"
proof -
  obtain s' where "upd s k obj = (s', None)" "ok s'" "content s' = (content s)(k \<mapsto> obj)"
    using upd_law [OF assms] by blast
  then show ?thesis using get_law assms(1) by simp
qed

lemma get_after_del:
  assumes "ok s"
  shows "get (fst (del s k)) k' = (if k' = k then (None, False) else get s k')"
proof -
  obtain s' where "del s k = (s', None)" "ok s'" "content s' = (content s)(k := None)"
    using del_law [OF assms] by blast
  then show ?thesis using get_law assms by (simp add: map_get_def)
qed

lemma del_after_upd:
  assumes "ok s" and "accepts s obj"
  shows "content (fst (del (fst (upd s k obj)) k)) = (content s)(k := None)"
proof -
  obtain s' where s': "upd s k obj = (s', None)" "ok s'" "content s' = (content s)(k \<mapsto> obj)"
    using upd_law [OF assms] by blast
  obtain s'' where "del s' k = (s'', None)" "content s'' = (content s')(k := None)"
    using del_law [OF s'(2)] by blast
  then show ?thesis using s' by simp
qed

end

text \<open>
  \<open>threadSafeMap\<close> keeps the contract: \<open>order\<close> is the iteration order over its indexers and \<open>korder\<close>
  gives one for the map handed to \<open>Replace\<close>.
\<close>

definition tsm_ok_for ::
  "string list \<Rightarrow> ('v iface gomap \<Rightarrow> string list) \<Rightarrow> 'v threadSafeMap \<Rightarrow> bool"
where
  "tsm_ok_for order korder c \<longleftrightarrow> tsm_ok c \<and> range_order order (si_indexers (tsm_index c)) \<and>
     (\<forall>items. finite (dom items) \<longrightarrow> range_order (korder items) items)"

interpretation tsm: thread_safe_store "tsm_Update order" "tsm_Delete order" tsm_Get
    "\<lambda>c items. tsm_Replace (\<lambda>_. order) (korder items) c items" tsm_items "tsm_ok_for order korder"
    "\<lambda>c. indexable (si_indexers (tsm_index c))"
  for order and korder :: "'v iface gomap \<Rightarrow> string list"
proof unfold_locales
  fix c :: "'v threadSafeMap" and k obj
  assume ok: "tsm_ok_for order korder c" and acc: "indexable (si_indexers (tsm_index c)) obj"
  obtain c' where "tsm_Update order c k obj = (c', None)"
    using tsm_Update_no_panic [OF _ acc] ok by (metis prod.collapse tsm_ok_for_def)
  then show "\<exists>c'. tsm_Update order c k obj = (c', None) \<and> tsm_ok_for order korder c' \<and>
      tsm_items c' = (tsm_items c)(k \<mapsto> obj) \<and>
      indexable (si_indexers (tsm_index c')) = indexable (si_indexers (tsm_index c))"
    using tsm_Update_ok [of c order k obj c'] ok by (auto simp: tsm_ok_for_def)
next
  fix c :: "'v threadSafeMap" and k
  assume "tsm_ok_for order korder c"
  then show "\<exists>c'. tsm_Delete order c k = (c', None) \<and> tsm_ok_for order korder c' \<and>
      tsm_items c' = (tsm_items c)(k := None) \<and>
      indexable (si_indexers (tsm_index c')) = indexable (si_indexers (tsm_index c))"
    using tsm_Delete_ok [of c order k] by (auto simp: tsm_ok_for_def)
next
  fix c :: "'v threadSafeMap" and items :: "'v iface gomap"
  assume "tsm_ok_for order korder c" "finite (dom items)"
    "\<forall>obj \<in> ran items. indexable (si_indexers (tsm_index c)) obj"
  then show "\<exists>c'. tsm_Replace (\<lambda>_. order) (korder items) c items = (c', None) \<and>
      tsm_ok_for order korder c' \<and> tsm_items c' = items \<and>
      indexable (si_indexers (tsm_index c')) = indexable (si_indexers (tsm_index c))"
    using tsm_Replace_ok [of c "korder items" items "\<lambda>_. order"]
    by (auto simp: tsm_ok_for_def tsm_ok_def)
qed (simp add: tsm_Get_def)

section \<open>Properties\<close>

text \<open>Any call of a mutating method that does not panic, with any iteration orders.\<close>

inductive tsm_step :: "'v threadSafeMap \<Rightarrow> 'v threadSafeMap \<Rightarrow> bool" where
  step_Update: "range_order order (si_indexers (tsm_index c)) \<Longrightarrow>
     tsm_Update order c key obj = (c', None) \<Longrightarrow> tsm_step c c'"
| step_Add: "range_order order (si_indexers (tsm_index c)) \<Longrightarrow>
     tsm_Add order c key obj = (c', None) \<Longrightarrow> tsm_step c c'"
| step_Delete: "range_order order (si_indexers (tsm_index c)) \<Longrightarrow>
     tsm_Delete order c key = (c', None) \<Longrightarrow> tsm_step c c'"
| step_Replace: "(\<forall>k. range_order (orders k) (si_indexers (tsm_index c))) \<Longrightarrow>
     range_order keys items \<Longrightarrow>
     tsm_Replace orders keys c items = (c', None) \<Longrightarrow> tsm_step c c'"
| step_AddIndexers: "finite (dom newIndexers) \<Longrightarrow> tsm_step c (fst (tsm_AddIndexers c newIndexers))"

inductive tsm_reachable :: "'v threadSafeMap \<Rightarrow> bool" where
  reach_New: "finite (dom indexers) \<Longrightarrow> tsm_reachable (NewThreadSafeStore indexers Map.empty)"
| reach_step: "tsm_reachable c \<Longrightarrow> tsm_step c c' \<Longrightarrow> tsm_reachable c'"

lemma tsm_step_ok: "tsm_step c c' \<Longrightarrow> tsm_ok c \<Longrightarrow> tsm_ok c'"
proof (induction rule: tsm_step.induct)
  case (step_Update order c key obj c')
  then show ?case using tsm_Update_ok by blast
next
  case (step_Add order c key obj c')
  then show ?case using tsm_Update_ok unfolding tsm_Add_def by blast
next
  case (step_Delete order c key c')
  then show ?case using tsm_Delete_ok [of c order key] by auto
next
  case (step_Replace orders c keys items c')
  have "\<forall>obj \<in> ran items. indexable (si_indexers (tsm_index c)) obj"
    using step_Replace tsm_Replace_indexable by blast
  then show ?case using step_Replace tsm_Replace_ok [of c keys items orders] by (auto simp: tsm_ok_def)
next
  case (step_AddIndexers newIndexers c)
  then show ?case using tsm_AddIndexers_ok by blast
qed

lemma tsm_reachable_ok: "tsm_reachable c \<Longrightarrow> tsm_ok c"
  by (induction rule: tsm_reachable.induct) (auto intro: NewThreadSafeStore_ok tsm_step_ok)

lemma tsm_ok_getKeysByIndex:
  "tsm_ok c \<Longrightarrow> si_indexers (tsm_index c) name = Some f \<Longrightarrow>
     getKeysByIndex (tsm_index c) name v = Inr (keys_with f (tsm_items c) v)"
  by (simp add: tsm_ok_def indices_right_def index_right_def getKeysByIndex_def)

lemma keys_with_finite: "finite (dom items) \<Longrightarrow> finite (keys_with f items v)"
  by (rule finite_subset [of _ "dom items"]) (auto simp: keys_with_def)

lemma keys_with_dom: "keys_with f items v \<subseteq> dom items"
  by (auto simp: keys_with_def)

lemma objs_of_keys:
  assumes "range_order order items" and "K \<subseteq> dom items"
  shows "set (map (map_get items) (filter (\<lambda>k. k \<in> K) order)) = {obj. \<exists>k \<in> K. items k = Some obj}"
proof -
  have "{k. k \<in> set order \<and> k \<in> K} = K" using assms by (auto simp: range_order_def)
  moreover have "obj = map_get items k \<longleftrightarrow> items k = Some obj" if "k \<in> K" for k obj
    using that assms(2) by (auto simp: map_get_def)
  ultimately show ?thesis by (auto simp: image_iff)
qed

lemma fold_index_get:
  "fold (\<lambda>v keys. keys \<union> index_get index v) vs acc = acc \<union> (\<Union>v \<in> set vs. index_get index v)"
  by (induction vs arbitrary: acc) auto

lemma tsm_ok_getKeysFromIndex:
  assumes "tsm_ok c" and "si_indexers (tsm_index c) name = Some f" and "f obj = Inr vs"
  shows "getKeysFromIndex (tsm_index c) name obj = Inr (\<Union>v \<in> set vs. keys_with f (tsm_items c) v)"
proof -
  have get: "index_get (indices_get (tsm_index c) name) v = keys_with f (tsm_items c) v" for v
    using assms(1,2) by (simp add: tsm_ok_def indices_right_def index_right_def)
  show ?thesis
  proof (cases "length vs = 1")
    case True
    then obtain v where "vs = [v]" by (metis One_nat_def length_0_conv length_Suc_conv)
    then show ?thesis using assms get by (simp add: getKeysFromIndex_def)
  next
    case False
    then show ?thesis using assms get by (simp add: getKeysFromIndex_def Let_def fold_index_get)
  qed
qed

text \<open>
  C25 In every reachable store, whatever iteration orders Go chose, looking up an index returns
  exactly the keys of the stored objects whose index function yields the value: \<open>IndexKeys\<close> lists
  them sorted and without duplicates, \<open>ByIndex\<close> returns their objects, and \<open>Index\<close> returns the
  objects that share a value with the given one (the shortcut for a single value included).
\<close>

theorem tsm_index_lookup_exact:
  assumes "tsm_reachable c" and "si_indexers (tsm_index c) name = Some f"
  shows "(\<exists>ks. tsm_IndexKeys c name v = Inr ks \<and> sorted ks \<and> distinct ks \<and> set ks = keys_with f (tsm_items c) v) \<and>
    (range_order order (tsm_items c) \<longrightarrow>
      (\<exists>objs. tsm_ByIndex order c name v = Inr objs \<and>
        set objs = {obj. \<exists>k. tsm_items c k = Some obj \<and> indexed f obj v})) \<and>
    (range_order order (tsm_items c) \<longrightarrow> f obj = Inr vs \<longrightarrow>
      (\<exists>objs. tsm_Index order c name obj = Inr objs \<and>
        set objs = {o'. \<exists>k. tsm_items c k = Some o' \<and> (\<exists>v \<in> set vs. indexed f o' v)}))"
proof (intro conjI impI)
  have ok: "tsm_ok c" using assms(1) by (rule tsm_reachable_ok)
  then have "finite (keys_with f (tsm_items c) v)" by (simp add: tsm_ok_def keys_with_finite)
  then show "\<exists>ks. tsm_IndexKeys c name v = Inr ks \<and> sorted ks \<and> distinct ks \<and>
      set ks = keys_with f (tsm_items c) v"
    using tsm_ok_getKeysByIndex [OF ok assms(2)] by (simp add: tsm_IndexKeys_def)
  show "\<exists>objs. tsm_ByIndex order c name v = Inr objs \<and>
        set objs = {obj. \<exists>k. tsm_items c k = Some obj \<and> indexed f obj v}"
    if "range_order order (tsm_items c)"
  proof -
    have "{obj. \<exists>k \<in> keys_with f (tsm_items c) v. tsm_items c k = Some obj}
        = {obj. \<exists>k. tsm_items c k = Some obj \<and> indexed f obj v}" by (auto simp: keys_with_def)
    then show ?thesis
      using tsm_ok_getKeysByIndex [OF ok assms(2)] objs_of_keys [OF that keys_with_dom]
      by (simp add: tsm_ByIndex_def del: set_map set_filter)
  qed
  show "\<exists>objs. tsm_Index order c name obj = Inr objs \<and>
        set objs = {o'. \<exists>k. tsm_items c k = Some o' \<and> (\<exists>v \<in> set vs. indexed f o' v)}"
    if "range_order order (tsm_items c)" "f obj = Inr vs"
  proof -
    let ?K = "\<Union>v \<in> set vs. keys_with f (tsm_items c) v"
    have "{o'. \<exists>k \<in> ?K. tsm_items c k = Some o'}
        = {o'. \<exists>k. tsm_items c k = Some o' \<and> (\<exists>v \<in> set vs. indexed f o' v)}"
      by (auto simp: keys_with_def)
    moreover have "?K \<subseteq> dom (tsm_items c)" using keys_with_dom by blast
    ultimately show ?thesis
      using tsm_ok_getKeysFromIndex [OF ok assms(2) that(2)] objs_of_keys [OF that(1), of ?K]
      by (simp add: tsm_Index_def del: set_map set_filter)
  qed
qed

definition demo_indexer :: "string index_func" where
  "demo_indexer obj = (case obj of None \<Rightarrow> Inr [] | Some v \<Rightarrow> Inr [v])"

definition demo_store :: "string threadSafeMap" where
  "demo_store = fst (tsm_Update [''ix''] (NewThreadSafeStore [''ix'' \<mapsto> demo_indexer] Map.empty) ''k'' (Some ''v''))"

lemma demo_store_reachable: "tsm_reachable demo_store"
proof (rule reach_step)
  show "tsm_reachable (NewThreadSafeStore [''ix'' \<mapsto> demo_indexer] Map.empty)"
    by (rule reach_New) simp
  show "tsm_step (NewThreadSafeStore [''ix'' \<mapsto> demo_indexer] Map.empty) demo_store"
    by (rule step_Update [of "[''ix'']" _ "''k''" "Some ''v''"])
      (simp_all add: demo_store_def NewThreadSafeStore_def range_order_def tsm_Update_def index_values_def
        demo_indexer_def split: prod.split)
qed

lemma demo_store_items: "tsm_items demo_store = [''k'' \<mapsto> Some ''v'']"
    "si_indexers (tsm_index demo_store) ''ix'' = Some demo_indexer"
  by (simp_all add: demo_store_def NewThreadSafeStore_def tsm_Update_def index_values_def demo_indexer_def)

theorem tsm_index_lookup_exact_witness:
  "(\<exists>ks. tsm_IndexKeys demo_store ''ix'' ''v'' = Inr ks \<and> sorted ks \<and> distinct ks \<and>
      set ks = keys_with demo_indexer (tsm_items demo_store) ''v'') \<and>
   (\<exists>objs. tsm_ByIndex [''k''] demo_store ''ix'' ''v'' = Inr objs \<and>
      set objs = {obj. \<exists>k. tsm_items demo_store k = Some obj \<and> indexed demo_indexer obj ''v''}) \<and>
   (\<exists>objs. tsm_Index [''k''] demo_store ''ix'' (Some ''v'') = Inr objs \<and>
      set objs = {o'. \<exists>k. tsm_items demo_store k = Some o' \<and> (\<exists>v \<in> set [''v'']. indexed demo_indexer o' v)})"
proof -
  have order: "range_order [''k''] (tsm_items demo_store)"
    by (simp add: demo_store_items range_order_def)
  have vals: "demo_indexer (Some ''v'') = Inr [''v'']" by (simp add: demo_indexer_def)
  note app = tsm_index_lookup_exact [OF demo_store_reachable demo_store_items(2)]
  show ?thesis using app order vals by blast
qed

text \<open>
  In a well-formed store \<open>Update\<close> panics exactly when an index function fails on the new
  object; when it does not, the object is stored under the key and nothing else changes.
\<close>

theorem tsm_Update_panics_iff:
  assumes "tsm_reachable c" and "range_order order (si_indexers (tsm_index c))"
  shows "(snd (tsm_Update order c key obj) = None \<longleftrightarrow> indexable (si_indexers (tsm_index c)) obj) \<and>
     tsm_items (fst (tsm_Update order c key obj)) = (tsm_items c)(key \<mapsto> obj)"
proof (intro conjI)
  have ok: "tsm_ok c" using assms(1) by (rule tsm_reachable_ok)
  show "snd (tsm_Update order c key obj) = None \<longleftrightarrow> indexable (si_indexers (tsm_index c)) obj"
  proof
    assume "snd (tsm_Update order c key obj) = None"
    then show "indexable (si_indexers (tsm_index c)) obj"
      using tsm_Update_ok [OF ok assms(2), of key obj] by (metis prod.collapse)
  qed (rule tsm_Update_no_panic [OF ok])
  show "tsm_items (fst (tsm_Update order c key obj)) = (tsm_items c)(key \<mapsto> obj)"
    by (simp add: tsm_Update_def split: prod.split)
qed

theorem tsm_Update_panics_iff_witness:
  "snd (tsm_Update [''ix''] demo_store ''j'' None) = None \<longleftrightarrow>
     indexable (si_indexers (tsm_index demo_store)) None"
proof (rule conjunct1 [OF tsm_Update_panics_iff [OF demo_store_reachable]])
  show "range_order [''ix''] (si_indexers (tsm_index demo_store))"
    by (simp add: demo_store_def NewThreadSafeStore_def tsm_Update_def index_values_def
        demo_indexer_def range_order_def)
qed

end
