(* ===== verification/Store.thy ===== *)
theory Store
  imports ThreadSafeStore
begin

text \<open>
  \<open>tools/cache/store.go\<close>, \<open>index.go\<close>, \<open>object-names.go\<close> and \<open>undelta_store.go\<close>: object names and
  their string encoding, the key and index functions, the keyed store \<open>cache\<close> on top of a
  \<open>threadSafeMap\<close>, and the store that pushes its whole content after every change.

  \<open>meta.Accessor\<close> belongs to apimachinery, which is not part of the repository: the functions that
  call it take it as the argument \<open>accessor\<close>, from an object to its namespace and name.

  The lemmas: names without a slash survive the encoding, the store refines a map from keys to
  objects, and the contract of the interface \<open>Store\<close> as the locale \<open>store_iface\<close>.
\<close>

section \<open>Dynamic types\<close>

text \<open>
  The types of \<open>interface{}\<close> values that the package tells apart: API objects, a key in place of an
  object, the tombstone for a deletion that was only noticed later, and a list of deltas
  (\<open>delta_fifo.go\<close>).
\<close>

datatype delta_type = Added | Updated | Deleted | Replaced | Sync

datatype 'o goval =
    Object 'o
  | ExplicitKey string
  | DeletedFinalStateUnknown string "'o goval option"
  | DeltasVal "(delta_type \<times> 'o goval option) list"

type_synonym 'o obj = "'o goval iface"
type_synonym 'o accessor = "'o obj \<Rightarrow> ('o goval, string \<times> string) res"

section \<open>Object names\<close>

record ObjectName =
  Namespace :: string
  Name :: string

definition slash :: char where
  "slash = CHR ''/''"

definition NewObjectName :: "string \<Rightarrow> string \<Rightarrow> ObjectName" where
  "NewObjectName namespace name = \<lparr>Namespace = namespace, Name = name\<rparr>"

definition ObjectName_Parts :: "ObjectName \<Rightarrow> string \<times> string" where
  "ObjectName_Parts objName = (Namespace objName, Name objName)"

definition ObjectName_String :: "ObjectName \<Rightarrow> string" where
  "ObjectName_String objName =
     (if length (Namespace objName) > 0 then Namespace objName @ [slash] @ Name objName
      else Name objName)"

text \<open>\<open>strings.Split\<close> with a separator of one byte.\<close>

fun strings_Split :: "string \<Rightarrow> char \<Rightarrow> string list" where
  "strings_Split [] c = [[]]"
| "strings_Split (x # xs) c =
     (if x = c then [] # strings_Split xs c
      else case strings_Split xs c of [] \<Rightarrow> [[x]] | part # parts \<Rightarrow> (x # part) # parts)"

definition SplitMetaNamespaceKey :: "string \<Rightarrow> ('v, string \<times> string) res" where
  "SplitMetaNamespaceKey key =
     (case strings_Split key slash of
        [name] \<Rightarrow> Inr ('''', name)
      | [namespace, name] \<Rightarrow> Inr (namespace, name)
      | _ \<Rightarrow> Inl (Errorf ''unexpected key format: %q''))"

definition ParseObjectName :: "string \<Rightarrow> ('v, ObjectName) res" where
  "ParseObjectName str =
     (case SplitMetaNamespaceKey str of
        Inl err \<Rightarrow> Inl err
      | Inr (namespace, name) \<Rightarrow> Inr (NewObjectName namespace name))"

section \<open>Key and index functions\<close>

definition MetaObjectToName :: "string \<times> string \<Rightarrow> ObjectName" where
  "MetaObjectToName meta =
     (if length (fst meta) > 0 then NewObjectName (fst meta) (snd meta)
      else NewObjectName '''' (snd meta))"

definition ObjectToName :: "'o accessor \<Rightarrow> 'o obj \<Rightarrow> ('o goval, ObjectName) res" where
  "ObjectToName accessor obj =
     (case accessor obj of
        Inl err \<Rightarrow> Inl (Wrapf ''object has no meta: %v'' err)
      | Inr meta \<Rightarrow> Inr (MetaObjectToName meta))"

definition MetaNamespaceKeyFunc :: "'o accessor \<Rightarrow> 'o goval key_func" where
  "MetaNamespaceKeyFunc accessor obj =
     (case obj of
        Some (ExplicitKey key) \<Rightarrow> Inr key
      | _ \<Rightarrow> (case ObjectToName accessor obj of
               Inl err \<Rightarrow> Inl err
             | Inr objName \<Rightarrow> Inr (ObjectName_String objName)))"

definition DeletionHandlingMetaNamespaceKeyFunc :: "'o accessor \<Rightarrow> 'o goval key_func" where
  "DeletionHandlingMetaNamespaceKeyFunc accessor obj =
     (case obj of
        Some (DeletedFinalStateUnknown key _) \<Rightarrow> Inr key
      | _ \<Rightarrow> MetaNamespaceKeyFunc accessor obj)"

definition IndexFuncToKeyFuncAdapter :: "'v index_func \<Rightarrow> 'v key_func" where
  "IndexFuncToKeyFuncAdapter indexFunc obj =
     (case indexFunc obj of
        Inl err \<Rightarrow> Inl err
      | Inr indexKeys \<Rightarrow>
          if length indexKeys > 1 then Inl (Errorf ''too many keys: %v'')
          else if length indexKeys = 0 then Inl (Errorf ''unexpected empty indexKeys'')
          else Inr (indexKeys ! 0))"

definition NamespaceIndex :: string where
  "NamespaceIndex = ''namespace''"

definition MetaNamespaceIndexFunc :: "'o accessor \<Rightarrow> 'o goval index_func" where
  "MetaNamespaceIndexFunc accessor obj =
     (case accessor obj of
        Inl err \<Rightarrow> Inl (Wrapf ''object has no meta: %v'' err)
      | Inr meta \<Rightarrow> Inr [fst meta])"

section \<open>cache\<close>

record 'v cache =
  cacheStorage :: "'v threadSafeMap"
  cache_keyFunc :: "'v key_func"

definition NewIndexer :: "'v key_func \<Rightarrow> 'v index_func gomap \<Rightarrow> 'v cache" where
  "NewIndexer keyFunc indexers =
     \<lparr>cacheStorage = NewThreadSafeStore indexers Map.empty, cache_keyFunc = keyFunc\<rparr>"

definition NewStore :: "'v key_func \<Rightarrow> 'v cache" where
  "NewStore keyFunc =
     \<lparr>cacheStorage = NewThreadSafeStore Map.empty Map.empty, cache_keyFunc = keyFunc\<rparr>"

definition cache_Add :: "string list \<Rightarrow> 'v cache \<Rightarrow> 'v iface \<Rightarrow> 'v cache \<times> 'v ret" where
  "cache_Add order c obj =
     (case cache_keyFunc c obj of
        Inl err \<Rightarrow> (c, Ret (Some (KeyError obj err)))
      | Inr key \<Rightarrow>
          let (storage, panic) = tsm_Add order (cacheStorage c) key obj
          in (c\<lparr>cacheStorage := storage\<rparr>, ret_of_panic panic))"

definition cache_Update :: "string list \<Rightarrow> 'v cache \<Rightarrow> 'v iface \<Rightarrow> 'v cache \<times> 'v ret" where
  "cache_Update order c obj =
     (case cache_keyFunc c obj of
        Inl err \<Rightarrow> (c, Ret (Some (KeyError obj err)))
      | Inr key \<Rightarrow>
          let (storage, panic) = tsm_Update order (cacheStorage c) key obj
          in (c\<lparr>cacheStorage := storage\<rparr>, ret_of_panic panic))"

definition cache_Delete :: "string list \<Rightarrow> 'v cache \<Rightarrow> 'v iface \<Rightarrow> 'v cache \<times> 'v ret" where
  "cache_Delete order c obj =
     (case cache_keyFunc c obj of
        Inl err \<Rightarrow> (c, Ret (Some (KeyError obj err)))
      | Inr key \<Rightarrow>
          let (storage, panic) = tsm_Delete order (cacheStorage c) key
          in (c\<lparr>cacheStorage := storage\<rparr>, ret_of_panic panic))"

definition cache_List :: "string list \<Rightarrow> 'v cache \<Rightarrow> 'v iface list" where
  "cache_List order c = tsm_List order (cacheStorage c)"

definition cache_ListKeys :: "string list \<Rightarrow> 'v cache \<Rightarrow> string list" where
  "cache_ListKeys order c = tsm_ListKeys order (cacheStorage c)"

definition cache_GetIndexers :: "'v cache \<Rightarrow> 'v index_func gomap" where
  "cache_GetIndexers c = tsm_GetIndexers (cacheStorage c)"

definition cache_Index :: "string list \<Rightarrow> 'v cache \<Rightarrow> string \<Rightarrow> 'v iface \<Rightarrow> ('v, 'v iface list) res" where
  "cache_Index order c indexName obj = tsm_Index order (cacheStorage c) indexName obj"

definition cache_IndexKeys :: "'v cache \<Rightarrow> string \<Rightarrow> string \<Rightarrow> ('v, string list) res" where
  "cache_IndexKeys c indexName indexedValue = tsm_IndexKeys (cacheStorage c) indexName indexedValue"

definition cache_ListIndexFuncValues :: "string list \<Rightarrow> 'v cache \<Rightarrow> string \<Rightarrow> string list" where
  "cache_ListIndexFuncValues order c indexName =
     tsm_ListIndexFuncValues order (cacheStorage c) indexName"

definition cache_ByIndex :: "string list \<Rightarrow> 'v cache \<Rightarrow> string \<Rightarrow> string \<Rightarrow> ('v, 'v iface list) res" where
  "cache_ByIndex order c indexName indexedValue =
     tsm_ByIndex order (cacheStorage c) indexName indexedValue"

definition cache_AddIndexers :: "'v cache \<Rightarrow> 'v index_func gomap \<Rightarrow> 'v cache \<times> 'v error option" where
  "cache_AddIndexers c newIndexers =
     (let (storage, err) = tsm_AddIndexers (cacheStorage c) newIndexers
      in (c\<lparr>cacheStorage := storage\<rparr>, err))"

definition cache_GetByKey :: "'v cache \<Rightarrow> string \<Rightarrow> 'v iface \<times> bool" where
  "cache_GetByKey c key = tsm_Get (cacheStorage c) key"

definition cache_Get :: "'v cache \<Rightarrow> 'v iface \<Rightarrow> ('v, 'v iface \<times> bool) res" where
  "cache_Get c obj =
     (case cache_keyFunc c obj of
        Inl err \<Rightarrow> Inl (KeyError obj err)
      | Inr key \<Rightarrow> Inr (cache_GetByKey c key))"

text \<open>The loop of \<open>Replace\<close> that collects the items by key; a later item replaces an earlier one.\<close>

fun keyed_items :: "'v key_func \<Rightarrow> 'v iface list \<Rightarrow> 'v iface gomap \<Rightarrow> ('v, 'v iface gomap) res" where
  "keyed_items keyFunc [] items = Inr items"
| "keyed_items keyFunc (item # list) items =
     (case keyFunc item of
        Inl err \<Rightarrow> Inl (KeyError item err)
      | Inr key \<Rightarrow> keyed_items keyFunc list (items(key \<mapsto> item)))"

definition cache_Replace ::
  "(string \<Rightarrow> string list) \<Rightarrow> ('v iface gomap \<Rightarrow> string list) \<Rightarrow> 'v cache \<Rightarrow> 'v iface list \<Rightarrow> 'v cache \<times> 'v ret"
where
  "cache_Replace orders korder c list =
     (case keyed_items (cache_keyFunc c) list Map.empty of
        Inl err \<Rightarrow> (c, Ret (Some err))
      | Inr items \<Rightarrow>
          let (storage, panic) = tsm_Replace orders (korder items) (cacheStorage c) items
          in (c\<lparr>cacheStorage := storage\<rparr>, ret_of_panic panic))"

definition cache_Resync :: "'v cache \<Rightarrow> 'v cache \<times> 'v ret" where
  "cache_Resync c = (c, Ret None)"

section \<open>UndeltaStore\<close>

text \<open>\<open>pushed\<close> records the arguments of the calls of \<open>PushFunc\<close>, the latest first.\<close>

record 'v UndeltaStore =
  us_Store :: "'v cache"
  us_pushed :: "'v iface list list"

definition NewUndeltaStore :: "'v key_func \<Rightarrow> 'v UndeltaStore" where
  "NewUndeltaStore keyFunc = \<lparr>us_Store = NewStore keyFunc, us_pushed = []\<rparr>"

text \<open>
  The shape of all four methods: change the store, and if that reports no error push the list of
  everything in it. \<open>lorder\<close> is the iteration order of \<open>List\<close>.
\<close>

definition push_after ::
  "('v cache \<Rightarrow> string list) \<Rightarrow> 'v UndeltaStore \<Rightarrow> 'v cache \<times> 'v ret \<Rightarrow> 'v UndeltaStore \<times> 'v ret"
where
  "push_after lorder u r =
     (case r of
        (s, Ret None) \<Rightarrow>
          (u\<lparr>us_Store := s, us_pushed := cache_List (lorder s) s # us_pushed u\<rparr>, Ret None)
      | (s, e) \<Rightarrow> (u\<lparr>us_Store := s\<rparr>, e))"

definition us_Add where
  "us_Add lorder order u obj = push_after lorder u (cache_Add order (us_Store u) obj)"

definition us_Update where
  "us_Update lorder order u obj = push_after lorder u (cache_Update order (us_Store u) obj)"

definition us_Delete where
  "us_Delete lorder order u obj = push_after lorder u (cache_Delete order (us_Store u) obj)"

definition us_Replace where
  "us_Replace lorder orders korder u list =
     push_after lorder u (cache_Replace orders korder (us_Store u) list)"

section \<open>Splitting\<close>

lemma strings_Split_nonempty [simp]: "strings_Split s c \<noteq> []"
  by (induction s) (auto split: list.split)

lemma strings_Split_no_sep: "c \<notin> set s \<Longrightarrow> strings_Split s c = [s]"
  by (induction s) auto

lemma strings_Split_sep: "c \<notin> set s \<Longrightarrow> strings_Split (s @ c # t) c = s # strings_Split t c"
  by (induction s) auto

lemma length_strings_Split: "length (strings_Split s c) = Suc (count_list s c)"
  by (induction s) (auto split: list.split)

lemma strings_Split_join: "strings_Split s c = part # parts \<Longrightarrow> s = part @ concat (map ((#) c) parts)"
proof (induction s arbitrary: part parts)
  case (Cons x xs)
  obtain p ps where ps: "strings_Split xs c = p # ps" by (cases "strings_Split xs c") auto
  then have "xs = p @ concat (map ((#) c) ps)" by (rule Cons.IH)
  moreover have "part = (if x = c then [] else x # p)" "parts = (if x = c then p # ps else ps)"
    using Cons.prems ps by (auto split: if_splits)
  ultimately show ?case by auto
qed simp

lemma strings_Split_parts: "part \<in> set (strings_Split s c) \<Longrightarrow> c \<notin> set part"
proof (induction s arbitrary: part)
  case (Cons x s)
  obtain p ps where split: "strings_Split s c = p # ps"
    using strings_Split_nonempty [of s c] by (meson neq_Nil_conv)
  have "c \<notin> set q" if "q \<in> set (p # ps)" for q using Cons.IH that split by simp
  then show ?case using Cons.prems split by (auto split: if_splits)
qed simp

lemma length_one_or_two:
  "length xs = 1 \<Longrightarrow> \<exists>a. xs = [a]" "length xs = 2 \<Longrightarrow> \<exists>a b. xs = [a, b]"
  by (auto simp: length_Suc_conv numeral_2_eq_2)

section \<open>The contract of the interface Store\<close>

text \<open>
  What a client of a \<open>Store\<close> relies on: the store shows a map from keys to objects, \<open>key\<close> is its key
  function, and \<open>accepts\<close> the objects it can hold without a panic.
\<close>

locale store_iface =
  fixes s_add s_update s_delete :: "'s \<Rightarrow> 'v iface \<Rightarrow> 's \<times> 'v ret"
    and s_get :: "'s \<Rightarrow> 'v iface \<Rightarrow> ('v, 'v iface \<times> bool) res"
    and content :: "'s \<Rightarrow> 'v iface gomap"
    and ok :: "'s \<Rightarrow> bool"
    and key :: "'v key_func"
    and accepts :: "'s \<Rightarrow> 'v iface \<Rightarrow> bool"
  assumes add_law: "ok s \<Longrightarrow> key obj = Inr k \<Longrightarrow> accepts s obj \<Longrightarrow>
      \<exists>s'. s_add s obj = (s', Ret None) \<and> ok s' \<and> content s' = (content s)(k \<mapsto> obj) \<and> accepts s' = accepts s"
    and update_law: "ok s \<Longrightarrow> key obj = Inr k \<Longrightarrow> accepts s obj \<Longrightarrow>
      \<exists>s'. s_update s obj = (s', Ret None) \<and> ok s' \<and> content s' = (content s)(k \<mapsto> obj) \<and> accepts s' = accepts s"
    and delete_law: "ok s \<Longrightarrow> key obj = Inr k \<Longrightarrow>
      \<exists>s'. s_delete s obj = (s', Ret None) \<and> ok s' \<and> content s' = (content s)(k := None) \<and> accepts s' = accepts s"
    and get_law: "ok s \<Longrightarrow> s_get s obj =
      (case key obj of Inl e \<Rightarrow> Inl (KeyError obj e)
       | Inr k \<Rightarrow> Inr (map_get (content s) k, content s k \<noteq> None))"
    and key_error_law: "ok s \<Longrightarrow> key obj = Inl e \<Longrightarrow>
      s_add s obj = (s, Ret (Some (KeyError obj e))) \<and>
      s_update s obj = (s, Ret (Some (KeyError obj e))) \<and>
      s_delete s obj = (s, Ret (Some (KeyError obj e)))"
begin

lemma get_after_add:
  assumes "ok s" and "key obj = Inr k" and "accepts s obj" and "key obj' = Inr k'"
  shows "s_get (fst (s_add s obj)) obj' = (if k' = k then Inr (obj, True) else s_get s obj')"
proof -
  obtain s' where "s_add s obj = (s', Ret None)" "ok s'" "content s' = (content s)(k \<mapsto> obj)"
    using add_law [OF assms(1-3)] by blast
  then show ?thesis using get_law [of s' obj'] get_law [OF assms(1), of obj'] assms(4) by simp
qed

lemma get_after_delete:
  assumes "ok s" and "key obj = Inr k" and "key obj' = Inr k'"
  shows "s_get (fst (s_delete s obj)) obj' = (if k' = k then Inr (None, False) else s_get s obj')"
proof -
  obtain s' where "s_delete s obj = (s', Ret None)" "ok s'" "content s' = (content s)(k := None)"
    using delete_law [OF assms(1-2)] by blast
  then show ?thesis
    using get_law [of s' obj'] get_law [OF assms(1), of obj'] assms(3) by (simp add: map_get_def)
qed

end

definition cache_content :: "'v cache \<Rightarrow> 'v iface gomap" where
  "cache_content c = tsm_items (cacheStorage c)"

definition cache_ok ::
  "string list \<Rightarrow> ('v iface gomap \<Rightarrow> string list) \<Rightarrow> 'v key_func \<Rightarrow> 'v cache \<Rightarrow> bool"
where
  "cache_ok order korder kf c \<longleftrightarrow> tsm_ok_for order korder (cacheStorage c) \<and> cache_keyFunc c = kf"

definition cache_accepts :: "'v cache \<Rightarrow> 'v iface \<Rightarrow> bool" where
  "cache_accepts c = indexable (si_indexers (tsm_index (cacheStorage c)))"

lemma cache_Update_law:
  assumes "cache_ok order korder kf c" and "kf obj = Inr k" and "cache_accepts c obj"
  shows "\<exists>c'. cache_Update order c obj = (c', Ret None) \<and> cache_ok order korder kf c' \<and>
     cache_content c' = (cache_content c)(k \<mapsto> obj) \<and> cache_accepts c' = cache_accepts c"
  using assms tsm.upd_law [of order korder "cacheStorage c" obj k]
  by (auto simp: cache_ok_def cache_accepts_def cache_content_def cache_Update_def)

lemma cache_Add_eq_Update: "cache_Add order c obj = cache_Update order c obj"
  by (simp add: cache_Add_def cache_Update_def tsm_Add_def split: sum.split)

lemma cache_Delete_law:
  assumes "cache_ok order korder kf c" and "kf obj = Inr k"
  shows "\<exists>c'. cache_Delete order c obj = (c', Ret None) \<and> cache_ok order korder kf c' \<and>
     cache_content c' = (cache_content c)(k := None) \<and> cache_accepts c' = cache_accepts c"
  using assms tsm.del_law [of order korder "cacheStorage c" k]
  by (auto simp: cache_ok_def cache_accepts_def cache_content_def cache_Delete_def)

interpretation cache: store_iface "cache_Add order" "cache_Update order" "cache_Delete order" cache_Get
    cache_content "cache_ok order korder kf" kf cache_accepts
  for order korder kf
proof unfold_locales
  fix c :: "'a cache" and obj e
  assume "cache_ok order korder kf c" "kf obj = Inl e"
  then show "cache_Add order c obj = (c, Ret (Some (KeyError obj e))) \<and>
      cache_Update order c obj = (c, Ret (Some (KeyError obj e))) \<and>
      cache_Delete order c obj = (c, Ret (Some (KeyError obj e)))"
    by (simp add: cache_ok_def cache_Add_def cache_Update_def cache_Delete_def)
next
  fix c :: "'a cache" and obj
  assume "cache_ok order korder kf c"
  then show "cache_Get c obj = (case kf obj of Inl e \<Rightarrow> Inl (KeyError obj e)
       | Inr k \<Rightarrow> Inr (map_get (cache_content c) k, cache_content c k \<noteq> None))"
    by (simp add: cache_ok_def cache_Get_def cache_GetByKey_def tsm_Get_def cache_content_def
        split: sum.split)
qed (use cache_Update_law cache_Delete_law cache_Add_eq_Update in metis)+

lemma keyed_items_dom_finite:
  "finite (dom items) \<Longrightarrow> keyed_items kf list items = Inr m \<Longrightarrow> finite (dom m)"
proof (induction list arbitrary: items)
  case (Cons a list)
  then obtain k where k: "keyed_items kf list (items(k \<mapsto> a)) = Inr m"
    by (auto split: sum.splits)
  have "finite (dom (items(k \<mapsto> a)))" using Cons.prems(1) by simp
  then show ?case using k by (rule Cons.IH)
qed simp

lemma keyed_items_ran:
  "keyed_items kf list items = Inr m \<Longrightarrow> ran m \<subseteq> set list \<union> ran items"
proof (induction list arbitrary: items)
  case (Cons a list)
  then obtain k where "kf a = Inr k" "keyed_items kf list (items(k \<mapsto> a)) = Inr m"
    by (auto split: sum.splits)
  then show ?case using Cons.IH ran_fun_upd_subset(1) [of items k a] by fastforce
qed simp

text \<open>The key function's view of a list: what \<open>Replace\<close> makes of it.\<close>

lemma keyed_items_map_of:
  "(\<And>obj. obj \<in> set list \<Longrightarrow> kf obj = Inr (key obj)) \<Longrightarrow>
     keyed_items kf list items = Inr (items ++ map_of (rev (map (\<lambda>obj. (key obj, obj)) list)))"
proof (induction list arbitrary: items)
  case (Cons a list)
  then show ?case by (simp add: map_add_upd_left map_add_assoc [symmetric])
qed simp

lemma cache_Replace_law:
  assumes "cache_ok order korder kf c" and items: "keyed_items kf list Map.empty = Inr items"
    and "\<forall>obj \<in> set list. cache_accepts c obj"
  shows "\<exists>c'. cache_Replace (\<lambda>_. order) korder c list = (c', Ret None) \<and> cache_ok order korder kf c' \<and>
     cache_content c' = items \<and> cache_accepts c' = cache_accepts c"
proof -
  have "finite (dom items)" using keyed_items_dom_finite [OF _ items] by simp
  moreover have "\<forall>obj \<in> ran items. cache_accepts c obj"
    using keyed_items_ran [OF items] assms(3) by auto
  ultimately show ?thesis
    using assms tsm.repl_law [of order korder "cacheStorage c" items]
    by (auto simp: cache_ok_def cache_accepts_def cache_content_def cache_Replace_def)
qed

section \<open>Properties\<close>

text \<open>
  C34 Encoding a name without slashes in its parts and parsing the result gives the name back;
  encoding what the parser made of a string gives that string back, except that a leading slash (an
  empty namespace written out) is dropped; the parser rejects exactly the strings with more than one
  slash, and the parts it returns have none.
\<close>

theorem ObjectName_roundtrip:
  "(slash \<notin> set (Namespace n) \<longrightarrow> slash \<notin> set (Name n) \<longrightarrow>
      ParseObjectName (ObjectName_String n) = Inr n) \<and>
   (ParseObjectName key = Inr m \<longrightarrow>
      ObjectName_String m = (if key \<noteq> [] \<and> hd key = slash then tl key else key)) \<and>
   ((\<exists>e. SplitMetaNamespaceKey key = Inl e) \<longleftrightarrow> count_list key slash > 1) \<and>
   (SplitMetaNamespaceKey key = Inr (ns, nm) \<longrightarrow> slash \<notin> set (ns @ nm))"
proof (intro conjI impI)
  show "ParseObjectName (ObjectName_String n) = Inr n"
    if "slash \<notin> set (Namespace n)" "slash \<notin> set (Name n)"
    using that by (cases n) (simp add: ParseObjectName_def ObjectName_String_def SplitMetaNamespaceKey_def
        NewObjectName_def strings_Split_no_sep strings_Split_sep)
  show "ObjectName_String m = (if key \<noteq> [] \<and> hd key = slash then tl key else key)"
    if parsed: "ParseObjectName key = Inr m"
  proof -
    consider (one) "m = \<lparr>Namespace = '''', Name = key\<rparr>" "slash \<notin> set key"
      | (two) a b where "m = \<lparr>Namespace = a, Name = b\<rparr>" "key = a @ slash # b" "slash \<notin> set a"
      using parsed strings_Split_join [of key slash] strings_Split_parts [of _ key slash]
      by (auto simp: ParseObjectName_def SplitMetaNamespaceKey_def NewObjectName_def split: sum.splits list.splits)
    then show ?thesis
    proof cases
      case one
      then show ?thesis by (cases key) (auto simp: ObjectName_String_def)
    next
      case two
      then show ?thesis by (cases a) (auto simp: ObjectName_String_def)
    qed
  qed
  have len: "length (strings_Split key slash) = Suc (count_list key slash)"
    by (rule length_strings_Split)
  show "(\<exists>e. SplitMetaNamespaceKey key = Inl e) \<longleftrightarrow> count_list key slash > 1"
    using len by (auto simp: SplitMetaNamespaceKey_def split: list.splits)
  show "slash \<notin> set (ns @ nm)" if "SplitMetaNamespaceKey key = Inr (ns, nm)"
    using that strings_Split_parts [of _ key slash]
    by (auto simp: SplitMetaNamespaceKey_def split: list.splits)
qed

theorem ObjectName_roundtrip_witness:
  "ParseObjectName (ObjectName_String \<lparr>Namespace = ''kube'', Name = ''dns''\<rparr>)
     = Inr \<lparr>Namespace = ''kube'', Name = ''dns''\<rparr> \<and>
   ObjectName_String \<lparr>Namespace = '''', Name = ''dns''\<rparr> = ''dns'' \<and>
   slash \<notin> set ''kube'' \<and> slash \<notin> set ''dns''"
proof -
  have h: "slash \<notin> set ''kube''" "slash \<notin> set ''dns''" by (auto simp: slash_def)
  have "ParseObjectName (ObjectName_String \<lparr>Namespace = ''kube'', Name = ''dns''\<rparr>)
      = Inr \<lparr>Namespace = ''kube'', Name = ''dns''\<rparr>"
    by (rule ObjectName_roundtrip [THEN conjunct1, THEN mp, THEN mp]) (use h in simp_all)
  moreover have parsed: "ParseObjectName (slash # ''dns'') = Inr \<lparr>Namespace = '''', Name = ''dns''\<rparr>"
    by (simp add: ParseObjectName_def SplitMetaNamespaceKey_def NewObjectName_def slash_def)
  moreover have "ObjectName_String \<lparr>Namespace = '''', Name = ''dns''\<rparr> =
      (if slash # ''dns'' \<noteq> [] \<and> hd (slash # ''dns'') = slash then tl (slash # ''dns'') else slash # ''dns'')"
    by (rule ObjectName_roundtrip [THEN conjunct2, THEN conjunct1, THEN mp, OF parsed])
  ultimately show ?thesis using h by simp
qed

text \<open>
  \<open>Replace\<close> on a well-formed store makes its content exactly the given objects under their keys,
  the last one winning among equal keys, with every index rebuilt; a key function error on any item
  leaves the store untouched.
\<close>

theorem cache_Replace_content:
  assumes "cache_ok order korder kf c"
  shows "((\<forall>obj \<in> set list. kf obj = Inr (key obj)) \<longrightarrow> (\<forall>obj \<in> set list. cache_accepts c obj) \<longrightarrow>
      (\<exists>c'. cache_Replace (\<lambda>_. order) korder c list = (c', Ret None) \<and> cache_ok order korder kf c' \<and>
        cache_content c' = map_of (rev (map (\<lambda>obj. (key obj, obj)) list)))) \<and>
     (obj \<in> set list \<longrightarrow> kf obj = Inl err \<longrightarrow>
      (\<exists>e. cache_Replace orders korder c list = (c, Ret (Some e))))"
proof (intro conjI impI)
  show "\<exists>c'. cache_Replace (\<lambda>_. order) korder c list = (c', Ret None) \<and> cache_ok order korder kf c' \<and>
        cache_content c' = map_of (rev (map (\<lambda>obj. (key obj, obj)) list))"
    if "\<forall>obj \<in> set list. kf obj = Inr (key obj)" "\<forall>obj \<in> set list. cache_accepts c obj"
    using cache_Replace_law [OF assms, of list] keyed_items_map_of [of list kf key Map.empty] that by auto
  have fails: "\<exists>e. keyed_items kf list items = Inl e" if "obj \<in> set list" "kf obj = Inl err" for items
    using that by (induction list arbitrary: items) (auto split: sum.split)
  show "\<exists>e. cache_Replace orders korder c list = (c, Ret (Some e))"
    if h: "obj \<in> set list" "kf obj = Inl err"
  proof -
    obtain e where "keyed_items kf list Map.empty = Inl e" using fails [OF h] by blast
    then show ?thesis using assms by (simp add: cache_Replace_def cache_ok_def)
  qed
qed

lemma korder_choice: "\<exists>korder. \<forall>items :: 'v iface gomap. finite (dom items) \<longrightarrow> range_order (korder items) items"
  using range_order_exists by metis

theorem cache_Replace_content_witness:
  "\<exists>korder c'. cache_Replace (\<lambda>_. []) korder (NewStore (\<lambda>obj. Inr (the obj))) [Some ''a'', Some ''b''] = (c', Ret None) \<and>
     cache_content c' = [''b'' \<mapsto> Some ''b'', ''a'' \<mapsto> Some ''a'']"
proof -
  let ?kf = "\<lambda>obj. Inr (the obj)" and ?list = "[Some ''a'', Some ''b'']"
  obtain korder :: "string iface gomap \<Rightarrow> string list"
    where ko: "\<forall>items. finite (dom items) \<longrightarrow> range_order (korder items) items"
    using korder_choice by blast
  have ok: "cache_ok [] korder ?kf (NewStore ?kf)"
    using ko NewThreadSafeStore_ok [of Map.empty]
    by (simp add: cache_ok_def tsm_ok_for_def NewStore_def range_order_def NewThreadSafeStore_def)
  have "\<exists>c'. cache_Replace (\<lambda>_. []) korder (NewStore ?kf) ?list = (c', Ret None) \<and>
      cache_ok [] korder ?kf c' \<and> cache_content c' = map_of (rev (map (\<lambda>obj. (the obj, obj)) ?list))"
    by (rule cache_Replace_content [OF ok, THEN conjunct1, THEN mp, THEN mp])
      (auto simp: NewStore_def NewThreadSafeStore_def cache_accepts_def indexable_def)
  then obtain c' where "cache_Replace (\<lambda>_. []) korder (NewStore ?kf) ?list = (c', Ret None)"
      "cache_content c' = map_of (rev (map (\<lambda>obj. (the obj, obj)) ?list))" by blast
  then have "cache_Replace (\<lambda>_. []) korder (NewStore ?kf) ?list = (c', Ret None) \<and>
      cache_content c' = [''b'' \<mapsto> Some ''b'', ''a'' \<mapsto> Some ''a'']" by (auto simp: fun_eq_iff)
  then show ?thesis by blast
qed

end
