(* ===== verification/DeltaFIFO.thy ===== *)
theory DeltaFIFO
  imports Store
begin

text \<open>
  \<open>tools/cache/delta_fifo.go\<close>: the producer-consumer queue between a reflector and an informer. Per
  key it accumulates the list of changes (\<open>Deltas\<close>) that happened since the key was last popped.
  The lock makes every method one atomic step; \<open>Pop\<close> runs its callback under the lock, so the
  callback is an argument that transforms the client's state \<open>'s\<close>.

  The queue holds a pointer to the client's store (\<open>knownObjects\<close>): the methods that read it take
  what it lists and holds at that moment as an argument, \<open>None\<close> when the pointer is nil. Appending
  to a slice may share its array with the old slice; the old slice is dropped in the same step and
  the readers copy, so slices are plain lists here.

  The lemmas: the queue has no duplicates and holds exactly the keys of the map, no accumulator is
  ever empty, the count of the initial population never exceeds the queue, and the newest delta of
  each key is what the operations say.
\<close>

section \<open>State\<close>

type_synonym 'o delta = "delta_type \<times> 'o obj"
type_synonym 'o deltas = "'o delta list"

record 'o known_objects =
  ko_ListKeys :: "string list"
  ko_GetByKey :: "string \<Rightarrow> ('o goval, 'o obj \<times> bool) res"

record 'o DeltaFIFO =
  df_items :: "'o deltas gomap"
  df_queue :: "string list"
  df_populated :: bool
  df_initialPopulationCount :: nat
  df_keyFunc :: "'o goval key_func"
  df_closed :: bool
  df_emitDeltaTypeReplaced :: bool
  df_transformer :: "('o obj \<Rightarrow> ('o goval, 'o obj) res) option"

definition NewDeltaFIFOWithOptions ::
  "'o goval key_func \<Rightarrow> bool \<Rightarrow> ('o obj \<Rightarrow> ('o goval, 'o obj) res) option \<Rightarrow> 'o DeltaFIFO"
where
  "NewDeltaFIFOWithOptions keyFunction emitDeltaTypeReplaced transformer =
     \<lparr>df_items = Map.empty, df_queue = [], df_populated = False, df_initialPopulationCount = 0,
      df_keyFunc = keyFunction, df_closed = False, df_emitDeltaTypeReplaced = emitDeltaTypeReplaced,
      df_transformer = transformer\<rparr>"

definition NewDeltaFIFO :: "'o goval key_func \<Rightarrow> 'o DeltaFIFO" where
  "NewDeltaFIFO keyFunc = NewDeltaFIFOWithOptions keyFunc False None"

section \<open>Deltas\<close>

definition Oldest :: "'o deltas \<Rightarrow> 'o delta option" where
  "Oldest d = (if length d > 0 then Some (d ! 0) else None)"

definition Newest :: "'o deltas \<Rightarrow> 'o delta option" where
  "Newest d = (let n = length d in if n > 0 then Some (d ! (n - 1)) else None)"

definition isDeletionDup :: "'o delta \<Rightarrow> 'o delta \<Rightarrow> 'o delta option" where
  "isDeletionDup a b =
     (if fst b \<noteq> Deleted \<or> fst a \<noteq> Deleted then None
      else case snd b of
             Some (DeletedFinalStateUnknown _ _) \<Rightarrow> Some a
           | _ \<Rightarrow> Some b)"

definition isDup :: "'o delta \<Rightarrow> 'o delta \<Rightarrow> 'o delta option" where
  "isDup a b = (case isDeletionDup a b of Some out \<Rightarrow> Some out | None \<Rightarrow> None)"

definition dedupDeltas :: "'o deltas \<Rightarrow> 'o deltas" where
  "dedupDeltas deltas =
     (let n = length deltas in
      if n < 2 then deltas
      else case isDup (deltas ! (n - 1)) (deltas ! (n - 2)) of
             Some out \<Rightarrow> take (n - 1) (deltas[n - 2 := out])
           | None \<Rightarrow> deltas)"

section \<open>Methods\<close>

definition df_Close :: "'o DeltaFIFO \<Rightarrow> 'o DeltaFIFO" where
  "df_Close f = f\<lparr>df_closed := True\<rparr>"

definition df_KeyOf :: "'o DeltaFIFO \<Rightarrow> 'o obj \<Rightarrow> ('o goval, string) res" where
  "df_KeyOf f obj =
     (case (case obj of
              Some (DeltasVal d) \<Rightarrow>
                (case Newest d of
                   None \<Rightarrow> Inl (KeyError obj ErrZeroLengthDeltasObject)
                 | Some newest \<Rightarrow> Inr (snd newest))
            | _ \<Rightarrow> Inr obj) of
        Inl err \<Rightarrow> Inl err
      | Inr (Some (DeletedFinalStateUnknown key _)) \<Rightarrow> Inr key
      | Inr obj' \<Rightarrow> df_keyFunc f obj')"

definition df_HasSynced :: "'o DeltaFIFO \<Rightarrow> bool" where
  "df_HasSynced f \<longleftrightarrow> df_populated f \<and> df_initialPopulationCount f = 0"

definition df_items_get :: "'o DeltaFIFO \<Rightarrow> string \<Rightarrow> 'o deltas" where
  "df_items_get f kid = (case df_items f kid of None \<Rightarrow> [] | Some d \<Rightarrow> d)"

definition df_enqueue :: "'o DeltaFIFO \<Rightarrow> string \<Rightarrow> 'o deltas \<Rightarrow> 'o DeltaFIFO" where
  "df_enqueue f kid newDeltas =
     f\<lparr>df_queue := (if df_items f kid = None then df_queue f @ [kid] else df_queue f),
       df_items := (df_items f)(kid \<mapsto> newDeltas)\<rparr>"

definition queueActionLocked ::
  "'o DeltaFIFO \<Rightarrow> delta_type \<Rightarrow> 'o obj \<Rightarrow> 'o DeltaFIFO \<times> 'o goval error option"
where
  "queueActionLocked f actionType obj =
     (case df_KeyOf f obj of
        Inl err \<Rightarrow> (f, Some (KeyError obj err))
      | Inr kid \<Rightarrow>
          (case (case df_transformer f of None \<Rightarrow> Inr obj | Some transformer \<Rightarrow> transformer obj) of
             Inl err \<Rightarrow> (f, Some err)
           | Inr obj' \<Rightarrow>
               let oldDeltas = df_items_get f kid;
                   newDeltas = dedupDeltas (oldDeltas @ [(actionType, obj')])
               in if length newDeltas > 0 then (df_enqueue f kid newDeltas, None)
                  else if df_items f kid = None then (f, None)
                  else (f\<lparr>df_items := (df_items f)(kid \<mapsto> newDeltas)\<rparr>,
                        Some (Errorf ''Impossible dedupDeltas for id=%q''))))"

definition df_Add :: "'o DeltaFIFO \<Rightarrow> 'o obj \<Rightarrow> 'o DeltaFIFO \<times> 'o goval error option" where
  "df_Add f obj = queueActionLocked (f\<lparr>df_populated := True\<rparr>) Added obj"

definition df_Update :: "'o DeltaFIFO \<Rightarrow> 'o obj \<Rightarrow> 'o DeltaFIFO \<times> 'o goval error option" where
  "df_Update f obj = queueActionLocked (f\<lparr>df_populated := True\<rparr>) Updated obj"

definition df_Delete ::
  "'o DeltaFIFO \<Rightarrow> 'o known_objects option \<Rightarrow> 'o obj \<Rightarrow> 'o DeltaFIFO \<times> 'o goval error option"
where
  "df_Delete f knownObjects obj =
     (case df_KeyOf f obj of
        Inl err \<Rightarrow> (f, Some (KeyError obj err))
      | Inr kid \<Rightarrow>
          let f1 = f\<lparr>df_populated := True\<rparr>;
              absent = (case knownObjects of
                          None \<Rightarrow> df_items f kid = None
                        | Some known \<Rightarrow>
                            (case ko_GetByKey known kid of
                               Inl _ \<Rightarrow> False
                             | Inr (_, exists) \<Rightarrow> \<not> exists \<and> df_items f kid = None))
          in if absent then (f1, None) else queueActionLocked f1 Deleted obj)"

definition df_addIfNotPresent :: "'o DeltaFIFO \<Rightarrow> string \<Rightarrow> 'o deltas \<Rightarrow> 'o DeltaFIFO" where
  "df_addIfNotPresent f kid deltas =
     (let f1 = f\<lparr>df_populated := True\<rparr> in
      if df_items f kid \<noteq> None then f1
      else f1\<lparr>df_queue := df_queue f @ [kid], df_items := (df_items f)(kid \<mapsto> deltas)\<rparr>)"

definition df_AddIfNotPresent :: "'o DeltaFIFO \<Rightarrow> 'o obj \<Rightarrow> 'o DeltaFIFO \<times> 'o goval error option" where
  "df_AddIfNotPresent f obj =
     (case obj of
        Some (DeltasVal deltas) \<Rightarrow>
          (case df_KeyOf f obj of
             Inl err \<Rightarrow> (f, Some (KeyError obj err))
           | Inr kid \<Rightarrow> (df_addIfNotPresent f kid deltas, None))
      | _ \<Rightarrow> (f, Some (Errorf ''object must be of type deltas, but got: %#v'')))"

definition df_List :: "string list \<Rightarrow> 'o DeltaFIFO \<Rightarrow> 'o obj option list" where
  "df_List order f = map (\<lambda>d. map_option snd (Newest d)) (List.map_filter (df_items f) order)"

definition df_ListKeys :: "'o DeltaFIFO \<Rightarrow> string list" where
  "df_ListKeys f = df_queue f"

definition df_GetByKey :: "'o DeltaFIFO \<Rightarrow> string \<Rightarrow> 'o deltas \<times> bool" where
  "df_GetByKey f key = (df_items_get f key, df_items f key \<noteq> None)"

definition df_Get :: "'o DeltaFIFO \<Rightarrow> 'o obj \<Rightarrow> ('o goval, 'o deltas \<times> bool) res" where
  "df_Get f obj =
     (case df_KeyOf f obj of
        Inl err \<Rightarrow> Inl (KeyError obj err)
      | Inr key \<Rightarrow> Inr (df_GetByKey f key))"

definition df_IsClosed :: "'o DeltaFIFO \<Rightarrow> bool" where
  "df_IsClosed f = df_closed f"

text \<open>What the callback of \<open>Pop\<close> returns: nil, an error, \<open>ErrRequeue\<close> with its inner error, a panic.\<close>

datatype 'v proc_result = ProcOk | ProcErr "'v error" | Requeue "'v error option" | ProcPanic "'v error"

type_synonym ('o, 's) process_func = "'o deltas \<Rightarrow> bool \<Rightarrow> 's \<Rightarrow> 's \<times> 'o goval proc_result"

definition df_finish ::
  "'o DeltaFIFO \<Rightarrow> string \<Rightarrow> 'o deltas \<Rightarrow> 'o goval proc_result
     \<Rightarrow> 'o DeltaFIFO \<times> ('o goval, 'o deltas option) pop_out"
where
  "df_finish f kid item r =
     (case r of
        ProcOk \<Rightarrow> (f, Returns (Some item) None)
      | ProcErr e \<Rightarrow> (f, Returns (Some item) (Some e))
      | Requeue e \<Rightarrow> (df_addIfNotPresent f kid item, Returns (Some item) e)
      | ProcPanic e \<Rightarrow> (f, Panics e))"

function df_Pop ::
  "('o, 's) process_func \<Rightarrow> 'o DeltaFIFO \<Rightarrow> 's
     \<Rightarrow> 'o DeltaFIFO \<times> 's \<times> ('o goval, 'o deltas option) pop_out"
where
  "df_Pop process f s =
     (case df_queue f of
        [] \<Rightarrow> (f, s, if df_closed f then Returns None (Some ErrFIFOClosed) else Waits)
      | kid # queue \<Rightarrow>
          let isInInitialList = (\<not> df_HasSynced f);
              f1 = f\<lparr>df_queue := queue,
                     df_initialPopulationCount :=
                       (if df_initialPopulationCount f > 0 then df_initialPopulationCount f - 1
                        else df_initialPopulationCount f)\<rparr>
          in case df_items f kid of
               None \<Rightarrow> df_Pop process f1 s
             | Some item \<Rightarrow>
                 let f2 = f1\<lparr>df_items := (df_items f)(kid := None)\<rparr>;
                     (s', r) = process item isInInitialList s;
                     (f3, out) = df_finish f2 kid item r
                 in (f3, s', out))"
  by pat_completeness auto
termination
  by (relation "measure (\<lambda>(_, f, _). length (df_queue f))") auto

declare df_Pop.simps [simp del]

section \<open>Replace and Resync\<close>

fun df_replace_add ::
  "delta_type \<Rightarrow> 'o DeltaFIFO \<Rightarrow> string set \<Rightarrow> 'o obj list
     \<Rightarrow> 'o DeltaFIFO \<times> string set \<times> 'o goval error option"
where
  "df_replace_add action f keys [] = (f, keys, None)"
| "df_replace_add action f keys (item # list) =
     (case df_KeyOf f item of
        Inl err \<Rightarrow> (f, keys, Some (KeyError item err))
      | Inr key \<Rightarrow>
          (case queueActionLocked f action item of
             (f', Some err) \<Rightarrow> (f', insert key keys, Some (Wrapf ''couldn't enqueue object: %v'' err))
           | (f', None) \<Rightarrow> df_replace_add action f' (insert key keys) list))"

definition deleted_object :: "'o deltas \<Rightarrow> 'o obj" where
  "deleted_object oldItem =
     (case Newest oldItem of
        None \<Rightarrow> None
      | Some n \<Rightarrow>
          (case snd n of
             Some (DeletedFinalStateUnknown _ obj) \<Rightarrow> obj
           | obj \<Rightarrow> obj))"

fun df_replace_queued ::
  "string set \<Rightarrow> 'o DeltaFIFO \<Rightarrow> nat \<Rightarrow> string list \<Rightarrow> 'o DeltaFIFO \<times> nat \<times> 'o goval error option"
where
  "df_replace_queued keys f queuedDeletions [] = (f, queuedDeletions, None)"
| "df_replace_queued keys f queuedDeletions (k # order) =
     (case df_items f k of
        None \<Rightarrow> df_replace_queued keys f queuedDeletions order
      | Some oldItem \<Rightarrow>
          if k \<in> keys then df_replace_queued keys f queuedDeletions order
          else case queueActionLocked f Deleted
                      (Some (DeletedFinalStateUnknown k (deleted_object oldItem))) of
                 (f', Some err) \<Rightarrow> (f', queuedDeletions + 1, Some err)
               | (f', None) \<Rightarrow> df_replace_queued keys f' (queuedDeletions + 1) order)"

definition known_object :: "'o known_objects \<Rightarrow> string \<Rightarrow> 'o obj" where
  "known_object known k =
     (case ko_GetByKey known k of
        Inl _ \<Rightarrow> None
      | Inr (obj, exists) \<Rightarrow> if exists then obj else None)"

fun df_replace_known ::
  "'o known_objects \<Rightarrow> string set \<Rightarrow> 'o DeltaFIFO \<Rightarrow> nat \<Rightarrow> string list
     \<Rightarrow> 'o DeltaFIFO \<times> nat \<times> 'o goval error option"
where
  "df_replace_known known keys f queuedDeletions [] = (f, queuedDeletions, None)"
| "df_replace_known known keys f queuedDeletions (k # knownKeys) =
     (if k \<in> keys then df_replace_known known keys f queuedDeletions knownKeys
      else if length (df_items_get f k) > 0 then df_replace_known known keys f queuedDeletions knownKeys
      else case queueActionLocked f Deleted
                  (Some (DeletedFinalStateUnknown k (known_object known k))) of
             (f', Some err) \<Rightarrow> (f', queuedDeletions + 1, Some err)
           | (f', None) \<Rightarrow> df_replace_known known keys f' (queuedDeletions + 1) knownKeys)"

text \<open>\<open>order\<close> is the iteration order of the loop over \<open>f.items\<close>.\<close>

definition df_Replace ::
  "('o deltas gomap \<Rightarrow> string list) \<Rightarrow> 'o DeltaFIFO \<Rightarrow> 'o known_objects option \<Rightarrow> 'o obj list
     \<Rightarrow> 'o DeltaFIFO \<times> 'o goval error option"
where
  "df_Replace order f knownObjects list =
     (let action = (if df_emitDeltaTypeReplaced f then Replaced else Sync) in
      case df_replace_add action f {} list of
        (f1, _, Some err) \<Rightarrow> (f1, Some err)
      | (f1, keys, None) \<Rightarrow>
          (case df_replace_queued keys f1 0 (order (df_items f1)) of
             (f2, _, Some err) \<Rightarrow> (f2, Some err)
           | (f2, queuedDeletions, None) \<Rightarrow>
               (case (case knownObjects of
                        None \<Rightarrow> (f2, queuedDeletions, None)
                      | Some known \<Rightarrow>
                          df_replace_known known keys f2 queuedDeletions (ko_ListKeys known)) of
                  (f3, _, Some err) \<Rightarrow> (f3, Some err)
                | (f3, queuedDeletions', None) \<Rightarrow>
                    (if \<not> df_populated f3
                     then f3\<lparr>df_populated := True,
                             df_initialPopulationCount := card keys + queuedDeletions'\<rparr>
                     else f3, None))))"

definition syncKeyLocked ::
  "'o known_objects \<Rightarrow> 'o DeltaFIFO \<Rightarrow> string \<Rightarrow> 'o DeltaFIFO \<times> 'o goval error option"
where
  "syncKeyLocked known f key =
     (case ko_GetByKey known key of
        Inl _ \<Rightarrow> (f, None)
      | Inr (obj, exists) \<Rightarrow>
          if \<not> exists then (f, None)
          else case df_KeyOf f obj of
                 Inl err \<Rightarrow> (f, Some (KeyError obj err))
               | Inr kid \<Rightarrow>
                   if length (df_items_get f kid) > 0 then (f, None)
                   else case queueActionLocked f Sync obj of
                          (f', Some err) \<Rightarrow> (f', Some (Wrapf ''couldn't queue object: %v'' err))
                        | (f', None) \<Rightarrow> (f', None))"

fun df_resync_loop ::
  "'o known_objects \<Rightarrow> 'o DeltaFIFO \<Rightarrow> string list \<Rightarrow> 'o DeltaFIFO \<times> 'o goval error option"
where
  "df_resync_loop known f [] = (f, None)"
| "df_resync_loop known f (k # keys) =
     (case syncKeyLocked known f k of
        (f', Some err) \<Rightarrow> (f', Some err)
      | (f', None) \<Rightarrow> df_resync_loop known f' keys)"

definition df_Resync ::
  "'o DeltaFIFO \<Rightarrow> 'o known_objects option \<Rightarrow> 'o DeltaFIFO \<times> 'o goval error option"
where
  "df_Resync f knownObjects =
     (case knownObjects of
        None \<Rightarrow> (f, None)
      | Some known \<Rightarrow> df_resync_loop known f (ko_ListKeys known))"

section \<open>Deltas: facts\<close>

definition df_transform :: "'o DeltaFIFO \<Rightarrow> 'o obj \<Rightarrow> ('o goval, 'o obj) res" where
  "df_transform f obj = (case df_transformer f of None \<Rightarrow> Inr obj | Some transformer \<Rightarrow> transformer obj)"

lemma Newest_last: "Newest d = (if d = [] then None else Some (last d))"
  by (simp add: Newest_def last_conv_nth)

lemma dedupDeltas_single [simp]: "dedupDeltas [d] = [d]"
  by (simp add: dedupDeltas_def)

lemma dedupDeltas_snoc2:
  "dedupDeltas (ds @ [b, a]) = (case isDup a b of Some out \<Rightarrow> ds @ [out] | None \<Rightarrow> ds @ [b, a])"
  by (simp add: dedupDeltas_def nth_append list_update_append split: option.split)

lemma dedupDeltas_snoc:
  "dedupDeltas (ds @ [a]) =
     (if ds = [] then [a]
      else case isDup a (last ds) of Some out \<Rightarrow> butlast ds @ [out] | None \<Rightarrow> ds @ [a])"
proof (cases ds rule: rev_cases)
  case (snoc xs b)
  then show ?thesis using dedupDeltas_snoc2 [of xs b a] by (simp split: option.split)
qed simp

lemma dedupDeltas_not_Nil [simp]: "dedupDeltas (ds @ [a]) \<noteq> []"
  by (simp add: dedupDeltas_snoc split: option.split)

lemma isDup_Deleted: "isDup a b = Some out \<Longrightarrow> fst a = Deleted \<and> fst b = Deleted \<and> (out = a \<or> out = b)"
  by (auto simp: isDup_def isDeletionDup_def split: if_splits option.splits goval.splits)

lemma isDup_None: "fst a \<noteq> Deleted \<Longrightarrow> isDup a b = None"
  by (simp add: isDup_def isDeletionDup_def)

lemma dedupDeltas_not_Deleted: "fst a \<noteq> Deleted \<Longrightarrow> dedupDeltas (ds @ [a]) = ds @ [a]"
  by (simp add: dedupDeltas_snoc isDup_None)

lemma last_dedupDeltas_type: "fst (last (dedupDeltas (ds @ [a]))) = fst a"
proof (cases "isDup a (last ds)")
  case (Some out)
  then have "fst out = fst a" using isDup_Deleted [OF Some] by auto
  then show ?thesis using Some by (simp add: dedupDeltas_snoc)
qed (simp add: dedupDeltas_snoc)

section \<open>Invariant\<close>

definition df_ok :: "'o DeltaFIFO \<Rightarrow> bool" where
  "df_ok f \<longleftrightarrow> distinct (df_queue f) \<and> set (df_queue f) = dom (df_items f) \<and>
     (\<forall>kid. df_items f kid \<noteq> Some []) \<and>
     df_initialPopulationCount f \<le> length (df_queue f) \<and>
     (\<not> df_populated f \<longrightarrow> df_initialPopulationCount f = 0)"

text \<open>How every method but \<open>Pop\<close> changes the queue: it only appends.\<close>

definition df_grows :: "'o DeltaFIFO \<Rightarrow> 'o DeltaFIFO \<Rightarrow> bool" where
  "df_grows f f' \<longleftrightarrow> (\<exists>ext. df_queue f' = df_queue f @ ext) \<and>
     df_keyFunc f' = df_keyFunc f \<and> df_transformer f' = df_transformer f \<and>
     df_emitDeltaTypeReplaced f' = df_emitDeltaTypeReplaced f \<and>
     (df_populated f \<longrightarrow> df_populated f' \<and> df_initialPopulationCount f' = df_initialPopulationCount f)"

lemma df_grows_refl [simp]: "df_grows f f"
  by (simp add: df_grows_def)

lemma df_grows_trans: "df_grows f g \<Longrightarrow> df_grows g h \<Longrightarrow> df_grows f h"
  by (auto simp: df_grows_def)

lemma df_KeyOf_cong: "df_keyFunc f = df_keyFunc g \<Longrightarrow> df_KeyOf f = df_KeyOf g"
  unfolding df_KeyOf_def by presburger

lemma df_grows_KeyOf: "df_grows f g \<Longrightarrow> df_KeyOf g = df_KeyOf f"
  using df_KeyOf_cong df_grows_def by metis

lemma df_grows_transform: "df_grows f g \<Longrightarrow> df_transform g = df_transform f"
  by (simp add: df_grows_def df_transform_def fun_eq_iff)

lemma df_ok_new [simp]: "df_ok (NewDeltaFIFOWithOptions kf emit tr)"
  by (simp add: df_ok_def NewDeltaFIFOWithOptions_def)

lemma df_ok_items_get: "df_ok f \<Longrightarrow> df_items_get f k = [] \<longleftrightarrow> df_items f k = None"
  by (auto simp: df_ok_def df_items_get_def split: option.split)

lemma df_ok_finite: "df_ok f \<Longrightarrow> finite (dom (df_items f))"
  by (metis List.finite_set df_ok_def)

lemma df_enqueue_ok:
  assumes "df_ok f" and "ds \<noteq> []"
  shows "df_ok (df_enqueue f kid ds)" and "df_grows f (df_enqueue f kid ds)"
  using assms by (auto simp: df_ok_def df_enqueue_def df_grows_def)

lemma df_enqueue_fields [simp]:
  "df_items (df_enqueue f kid ds) = (df_items f)(kid \<mapsto> ds)"
  "df_populated (df_enqueue f kid ds) = df_populated f"
  "df_keyFunc (df_enqueue f kid ds) = df_keyFunc f"
  "df_closed (df_enqueue f kid ds) = df_closed f"
  "df_transformer (df_enqueue f kid ds) = df_transformer f"
  "df_initialPopulationCount (df_enqueue f kid ds) = df_initialPopulationCount f"
  "df_queue (df_enqueue f kid ds) = df_queue f @ (if df_items f kid = None then [kid] else [])"
  by (simp_all add: df_enqueue_def)

lemma df_enqueue_cfg [simp]:
  "df_KeyOf (df_enqueue f kid ds) = df_KeyOf f"
  "df_transform (df_enqueue f kid ds) = df_transform f"
  by (rule df_KeyOf_cong) (simp_all add: df_transform_def fun_eq_iff)

lemma df_populated_ok: "df_ok f \<Longrightarrow> df_ok (f\<lparr>df_populated := True\<rparr>)"
  by (simp add: df_ok_def)

lemma df_populated_grows: "df_ok f \<Longrightarrow> df_grows f (f\<lparr>df_populated := True\<rparr>)"
  by (simp add: df_ok_def df_grows_def)

text \<open>\<open>queueActionLocked\<close>: an error leaves the queue alone, else exactly one accumulator changes.\<close>

definition df_append :: "'o DeltaFIFO \<Rightarrow> string \<Rightarrow> 'o delta \<Rightarrow> 'o deltas" where
  "df_append f kid d = dedupDeltas (df_items_get f kid @ [d])"

lemma df_append_not_Nil [simp]: "df_append f kid d \<noteq> []"
  by (simp add: df_append_def)

lemma queueActionLocked_eq:
  "queueActionLocked f t obj =
     (case df_KeyOf f obj of
        Inl err \<Rightarrow> (f, Some (KeyError obj err))
      | Inr kid \<Rightarrow> (case df_transform f obj of
                     Inl err \<Rightarrow> (f, Some err)
                   | Inr obj' \<Rightarrow> (df_enqueue f kid (df_append f kid (t, obj')), None)))"
  by (simp add: queueActionLocked_def df_transform_def df_append_def Let_def split: sum.split)

lemma queueActionLocked_cases:
  assumes "queueActionLocked f t obj = (f', e)"
  obtains (error) err where "e = Some err" "f' = f"
  | (queued) kid obj' where "e = None" "df_KeyOf f obj = Inr kid" "df_transform f obj = Inr obj'"
      "f' = df_enqueue f kid (df_append f kid (t, obj'))"
  using assms by (auto simp: queueActionLocked_eq split: sum.splits)

lemma queueActionLocked_ok:
  assumes "df_ok f" and "queueActionLocked f t obj = (f', e)"
  shows "df_ok f' \<and> df_grows f f'"
  using assms(2) by (cases rule: queueActionLocked_cases) (simp_all add: assms(1) df_enqueue_ok)

section \<open>Every method keeps the invariant\<close>

lemma df_Add_ok: "df_ok f \<Longrightarrow> df_Add f obj = (f', e) \<Longrightarrow> df_ok f' \<and> df_grows f f'"
  unfolding df_Add_def
  using queueActionLocked_ok [OF df_populated_ok] df_grows_trans df_populated_grows by metis

lemma df_Update_ok: "df_ok f \<Longrightarrow> df_Update f obj = (f', e) \<Longrightarrow> df_ok f' \<and> df_grows f f'"
  unfolding df_Update_def
  using queueActionLocked_ok [OF df_populated_ok] df_grows_trans df_populated_grows by metis

lemma df_Delete_ok:
  assumes ok: "df_ok f" and del: "df_Delete f known obj = (f', e)"
  shows "df_ok f' \<and> df_grows f f'"
proof -
  have "f' = f \<or> f' = f\<lparr>df_populated := True\<rparr> \<or>
      queueActionLocked (f\<lparr>df_populated := True\<rparr>) Deleted obj = (f', e)"
    using del by (auto simp: df_Delete_def Let_def split: sum.splits if_splits)
  then show ?thesis
    using ok queueActionLocked_ok [OF df_populated_ok] df_grows_trans df_populated_grows df_populated_ok
      df_grows_refl by metis
qed

lemma df_addIfNotPresent_ok:
  "df_ok f \<Longrightarrow> deltas \<noteq> [] \<Longrightarrow> df_ok (df_addIfNotPresent f kid deltas) \<and> df_grows f (df_addIfNotPresent f kid deltas)"
  by (auto simp: df_ok_def df_grows_def df_addIfNotPresent_def Let_def)

lemma df_AddIfNotPresent_ok:
  assumes ok: "df_ok f" and add: "df_AddIfNotPresent f obj = (f', e)"
  shows "df_ok f' \<and> df_grows f f'"
proof -
  have "deltas \<noteq> []" if "df_KeyOf f (Some (DeltasVal deltas)) = Inr kid" for deltas kid
    using that by (auto simp: df_KeyOf_def Newest_last)
  then have "f' = f \<or> (\<exists>kid deltas. deltas \<noteq> [] \<and> f' = df_addIfNotPresent f kid deltas)"
    using add by (auto simp: df_AddIfNotPresent_def split: option.splits goval.splits sum.splits)
  then show ?thesis using ok df_addIfNotPresent_ok by auto
qed

lemma df_Close_ok: "df_ok f \<Longrightarrow> df_ok (df_Close f) \<and> df_grows f (df_Close f)"
  by (simp add: df_ok_def df_grows_def df_Close_def)

lemma syncKeyLocked_ok:
  assumes ok: "df_ok f" and sync: "syncKeyLocked known f key = (f', e)"
  shows "df_ok f' \<and> df_grows f f'"
proof -
  have "f' = f \<or> (\<exists>obj e'. queueActionLocked f Sync obj = (f', e'))"
    using sync by (auto simp: syncKeyLocked_def split: sum.splits if_splits prod.splits option.splits)
  then show ?thesis using ok queueActionLocked_ok [OF ok] by auto
qed

lemma df_resync_loop_ok:
  "df_ok f \<Longrightarrow> df_resync_loop known f keys = (f', e) \<Longrightarrow> df_ok f' \<and> df_grows f f'"
proof (induction keys arbitrary: f)
  case (Cons k keys)
  obtain f1 e1 where s: "syncKeyLocked known f k = (f1, e1)" by fastforce
  show ?case
    using Cons.IH [of f1] Cons.prems s syncKeyLocked_ok [OF Cons.prems(1) s]
    by (auto split: option.splits intro: df_grows_trans)
qed simp

lemma df_Resync_ok: "df_ok f \<Longrightarrow> df_Resync f known = (f', e) \<Longrightarrow> df_ok f' \<and> df_grows f f'"
  using df_resync_loop_ok [of f] by (auto simp: df_Resync_def split: option.splits)

lemma df_replace_add_ok:
  "df_ok f \<Longrightarrow> df_replace_add action f keys list = (f', keys', e) \<Longrightarrow>
     df_ok f' \<and> df_grows f f' \<and> df_populated f' = df_populated f"
proof (induction list arbitrary: f keys)
  case (Cons item list)
  obtain f1 e1 where q: "queueActionLocked f action item = (f1, e1)" by fastforce
  have ok1: "df_ok f1 \<and> df_grows f f1" by (rule queueActionLocked_ok [OF Cons.prems(1) q])
  have pop1: "df_populated f1 = df_populated f" using q by (cases rule: queueActionLocked_cases) auto
  show ?case
    using Cons.IH [of f1] Cons.prems q ok1 pop1
    by (auto split: option.splits sum.splits intro: df_grows_trans)
qed simp

lemma df_items_get_enqueue:
  "df_items_get (df_enqueue f kid ds) k = (if k = kid then ds else df_items_get f k)"
  by (simp add: df_items_get_def)

lemma df_replace_add_items:
  "df_replace_add action f keys list = (f', keys', None) \<Longrightarrow> action \<noteq> Deleted \<Longrightarrow>
     (\<forall>obj \<in> set list. (\<exists>k. df_KeyOf f obj = Inr k) \<and> (\<exists>obj'. df_transform f obj = Inr obj')) \<and>
     keys' = keys \<union> {k. \<exists>obj \<in> set list. df_KeyOf f obj = Inr k} \<and>
     (\<forall>k. df_items_get f' k = df_items_get f k @
        map (\<lambda>obj. (action, projr (df_transform f obj))) (filter (\<lambda>obj. df_KeyOf f obj = Inr k) list))"
proof (induction list arbitrary: f keys)
  case (Cons item list)
  obtain key where key: "df_KeyOf f item = Inr key" using Cons.prems by (auto split: sum.splits)
  obtain f1 e1 where q: "queueActionLocked f action item = (f1, e1)" by fastforce
  then have "e1 = None" using Cons.prems key by (auto split: option.splits)
  then obtain obj' where obj': "df_transform f item = Inr obj'"
    and f1: "f1 = df_enqueue f key (df_append f key (action, obj'))"
    using q key by (auto elim!: queueActionLocked_cases)
  have same: "df_KeyOf f1 = df_KeyOf f" "df_transform f1 = df_transform f"
    using f1 by simp_all
  have app: "df_append f key (action, obj') = df_items_get f key @ [(action, obj')]"
    using Cons.prems(2) by (simp add: df_append_def dedupDeltas_not_Deleted)
  have rest: "df_replace_add action f1 (insert key keys) list = (f', keys', None)"
    using Cons.prems key q \<open>e1 = None\<close> by simp
  show ?case
    using Cons.IH [OF rest Cons.prems(2)] key obj'
    by (auto simp: same f1 app df_items_get_enqueue)
qed simp

lemma df_replace_add_keys:
  assumes "df_ok f" and "df_replace_add action f keys list = (f', keys', None)" and "action \<noteq> Deleted"
    and "keys \<subseteq> dom (df_items f)"
  shows "keys' \<subseteq> dom (df_items f')"
proof
  fix k assume k: "k \<in> keys'"
  note items = df_replace_add_items [OF assms(2,3)]
  have ok': "df_ok f'" using df_replace_add_ok [OF assms(1,2)] by simp
  have "df_items_get f' k \<noteq> []"
  proof (cases "k \<in> keys")
    case True
    then have "df_items_get f k \<noteq> []" using assms(1,4) df_ok_items_get [OF assms(1)] by blast
    then show ?thesis using items by simp
  next
    case False
    then have "\<exists>obj \<in> set list. df_KeyOf f obj = Inr k" using k items by auto
    then show ?thesis using items by (auto simp: filter_empty_conv)
  qed
  then show "k \<in> dom (df_items f')" using df_ok_items_get [OF ok', of k] by blast
qed

text \<open>The tombstone that \<open>Replace\<close> queues for a key whose last known object is \<open>obj\<close>.\<close>

definition tombstone :: "'o DeltaFIFO \<Rightarrow> string \<Rightarrow> 'o obj \<Rightarrow> 'o delta" where
  "tombstone f k obj = (Deleted, projr (df_transform f (Some (DeletedFinalStateUnknown k obj))))"

lemma df_KeyOf_tombstone [simp]: "df_KeyOf f (Some (DeletedFinalStateUnknown k obj)) = Inr k"
  by (simp add: df_KeyOf_def)

lemma queueAction_tombstone:
  assumes "queueActionLocked f Deleted (Some (DeletedFinalStateUnknown k obj)) = (f', None)"
  shows "f' = df_enqueue f k (df_append f k (tombstone f k obj))"
  using assms by (auto simp: tombstone_def elim!: queueActionLocked_cases)

lemma df_replace_queued_ok:
  "df_ok f \<Longrightarrow> df_replace_queued keys f n order = (f', n', e) \<Longrightarrow>
     df_ok f' \<and> df_grows f f' \<and> df_populated f' = df_populated f"
proof (induction order arbitrary: f n)
  case (Cons k order)
  show ?case
  proof (cases "df_items f k = None \<or> k \<in> keys")
    case True
    then show ?thesis using Cons.IH [OF Cons.prems(1)] Cons.prems(2) by (auto split: option.splits)
  next
    case False
    then obtain old where old: "df_items f k = Some old" by auto
    obtain f1 e1 where q: "queueActionLocked f Deleted
        (Some (DeletedFinalStateUnknown k (deleted_object old))) = (f1, e1)" by fastforce
    have ok1: "df_ok f1 \<and> df_grows f f1" by (rule queueActionLocked_ok [OF Cons.prems(1) q])
    have pop1: "df_populated f1 = df_populated f" using q by (cases rule: queueActionLocked_cases) auto
    show ?thesis
      using Cons.IH [of f1] Cons.prems q ok1 pop1 False old
      by (auto split: option.splits intro: df_grows_trans)
  qed
qed simp

lemma df_replace_queued_items:
  "df_replace_queued keys f n order = (f', n', None) \<Longrightarrow> distinct order \<Longrightarrow>
     (\<forall>k. df_items f' k =
        (case df_items f k of None \<Rightarrow> None
         | Some old \<Rightarrow> if k \<in> set order \<and> k \<notin> keys
                     then Some (df_append f k (tombstone f k (deleted_object old))) else Some old)) \<and>
     df_queue f' = df_queue f \<and> n' = n + card {k \<in> set order. k \<notin> keys \<and> df_items f k \<noteq> None}"
proof (induction order arbitrary: f n)
  case Nil
  then show ?case by (auto split: option.split)
next
  case (Cons k order)
  show ?case
  proof (cases "df_items f k = None \<or> k \<in> keys")
    case True
    have set: "{x. (x = k \<or> x \<in> set order) \<and> x \<notin> keys \<and> (\<exists>y. df_items f x = Some y)} =
        {x \<in> set order. x \<notin> keys \<and> (\<exists>y. df_items f x = Some y)}" using True by auto
    have "df_replace_queued keys f n order = (f', n', None)"
      using Cons.prems(1) True by (auto split: option.splits)
    from Cons.IH [OF this] show ?thesis using True Cons.prems(2) set by (auto split: option.split)
  next
    case False
    then obtain old where old: "df_items f k = Some old" by auto
    obtain f1 where q: "queueActionLocked f Deleted
        (Some (DeletedFinalStateUnknown k (deleted_object old))) = (f1, None)"
      and rest: "df_replace_queued keys f1 (n + 1) order = (f', n', None)"
      using Cons.prems(1) old False by (auto split: prod.splits option.splits)
    have f1: "f1 = df_enqueue f k (df_append f k (tombstone f k (deleted_object old)))"
      by (rule queueAction_tombstone [OF q])
    have same: "tombstone f1 = tombstone f"
      by (simp add: f1 tombstone_def df_transform_def fun_eq_iff)
    have app: "df_append f1 x d = df_append f x d" if "x \<noteq> k" for x d
      using that by (simp add: f1 df_append_def df_items_get_enqueue)
    have set: "{x \<in> set order. x \<notin> keys \<and> df_items f1 x \<noteq> None} =
        {x \<in> set (k # order). x \<notin> keys \<and> df_items f x \<noteq> None} - {k}"
      using Cons.prems(2) False by (auto simp: f1)
    have card: "card {x \<in> set (k # order). x \<notin> keys \<and> df_items f x \<noteq> None} =
        Suc (card {x \<in> set order. x \<notin> keys \<and> df_items f1 x \<noteq> None})"
      unfolding set by (rule card.remove) (use False in auto)
    have dist: "distinct order" "k \<notin> set order" using Cons.prems(2) by auto
    note IH = Cons.IH [OF rest dist(1)]
    have n': "n' = n + card {x \<in> set (k # order). x \<notin> keys \<and> df_items f x \<noteq> None}"
      unfolding card using IH by simp
    have items: "df_items f' x = (case df_items f x of None \<Rightarrow> None
         | Some old \<Rightarrow> if x \<in> set (k # order) \<and> x \<notin> keys
                     then Some (df_append f x (tombstone f x (deleted_object old))) else Some old)" for x
    proof (cases "x = k")
      case True
      have "df_items f1 k = Some (df_append f k (tombstone f k (deleted_object old)))" by (simp add: f1)
      then show ?thesis using IH dist(2) False old True by (simp split: option.split)
    next
      case xk: False
      have "df_items f1 x = df_items f x" using xk by (simp add: f1)
      then show ?thesis using IH xk by (auto simp: same app split: option.split)
    qed
    have "df_queue f1 = df_queue f" using old by (simp add: f1)
    then show ?thesis using items n' IH by simp
  qed
qed

lemma df_replace_known_ok:
  "df_ok f \<Longrightarrow> df_replace_known known keys f n ks = (f', n', e) \<Longrightarrow>
     df_ok f' \<and> df_grows f f' \<and> df_populated f' = df_populated f"
proof (induction ks arbitrary: f n)
  case (Cons k ks)
  obtain f1 e1 where q: "queueActionLocked f Deleted
      (Some (DeletedFinalStateUnknown k (known_object known k))) = (f1, e1)" by fastforce
  have ok1: "df_ok f1 \<and> df_grows f f1" by (rule queueActionLocked_ok [OF Cons.prems(1) q])
  have pop1: "df_populated f1 = df_populated f" using q by (cases rule: queueActionLocked_cases) auto
  show ?case
    using Cons.IH [of f1] Cons.IH [of f] Cons.prems q ok1 pop1
    by (auto split: option.splits if_splits intro: df_grows_trans)
qed simp

lemma df_replace_known_items:
  "df_ok f \<Longrightarrow> df_replace_known known keys f n ks = (f', n', None) \<Longrightarrow>
     (\<forall>k. df_items f' k =
        (if k \<in> set ks \<and> k \<notin> keys \<and> df_items f k = None
         then Some [tombstone f k (known_object known k)] else df_items f k)) \<and>
     n' = n + (length (df_queue f') - length (df_queue f))"
proof (induction ks arbitrary: f n)
  case (Cons k ks)
  show ?case
  proof (cases "k \<in> keys \<or> df_items f k \<noteq> None")
    case True
    then have "df_replace_known known keys f n ks = (f', n', None)"
      using Cons.prems df_ok_items_get [OF Cons.prems(1), of k] by (auto split: if_splits)
    from Cons.IH [OF Cons.prems(1) this] show ?thesis using True by auto
  next
    case False
    then have get: "df_items_get f k = []" by (simp add: df_items_get_def)
    then obtain f1 where q: "queueActionLocked f Deleted
        (Some (DeletedFinalStateUnknown k (known_object known k))) = (f1, None)"
      and rest: "df_replace_known known keys f1 (n + 1) ks = (f', n', None)"
      using Cons.prems(2) False by (auto split: prod.splits option.splits)
    have "f1 = df_enqueue f k (df_append f k (tombstone f k (known_object known k)))"
      by (rule queueAction_tombstone [OF q])
    then have f1: "f1 = df_enqueue f k [tombstone f k (known_object known k)]"
      using dedupDeltas_single by (simp add: df_append_def get)
    have ok1: "df_ok f1" using queueActionLocked_ok [OF Cons.prems(1) q] by simp
    have tomb: "tombstone f1 = tombstone f" by (simp add: f1 tombstone_def fun_eq_iff)
    have "length (df_queue f1) \<le> length (df_queue f')"
      using df_replace_known_ok [OF ok1 rest] by (auto simp: df_grows_def)
    then show ?thesis using Cons.IH [OF ok1 rest] False by (auto simp: f1 tomb [unfolded f1])
  qed
qed simp

lemma df_Replace_split:
  assumes "df_Replace order f known list = (f', e)"
  obtains (add) f1 keys err where "e = Some err" "f' = f1"
      "df_replace_add (if df_emitDeltaTypeReplaced f then Replaced else Sync) f {} list = (f1, keys, Some err)"
  | (queued) f1 keys f2 n err where "e = Some err" "f' = f2"
      "df_replace_add (if df_emitDeltaTypeReplaced f then Replaced else Sync) f {} list = (f1, keys, None)"
      "df_replace_queued keys f1 0 (order (df_items f1)) = (f2, n, Some err)"
  | (known) f1 keys f2 n ko f3 n' err where "e = Some err" "f' = f3"
      "df_replace_add (if df_emitDeltaTypeReplaced f then Replaced else Sync) f {} list = (f1, keys, None)"
      "df_replace_queued keys f1 0 (order (df_items f1)) = (f2, n, None)" "known = Some ko"
      "df_replace_known ko keys f2 n (ko_ListKeys ko) = (f3, n', Some err)"
  | (ok) f1 keys f2 n f3 n' where "e = None"
      "f' = (if df_populated f3 then f3
             else f3\<lparr>df_populated := True, df_initialPopulationCount := card keys + n'\<rparr>)"
      "df_replace_add (if df_emitDeltaTypeReplaced f then Replaced else Sync) f {} list = (f1, keys, None)"
      "df_replace_queued keys f1 0 (order (df_items f1)) = (f2, n, None)"
      "(case known of None \<Rightarrow> (f2, n, None)
        | Some ko \<Rightarrow> df_replace_known ko keys f2 n (ko_ListKeys ko)) = (f3, n', None)"
proof -
  obtain f1 keys e1 where a: "df_replace_add (if df_emitDeltaTypeReplaced f then Replaced else Sync) f {} list
      = (f1, keys, e1)" by (rule prod_cases3)
  obtain f2 n e2 where b: "df_replace_queued keys f1 0 (order (df_items f1)) = (f2, n, e2)"
    by (rule prod_cases3)
  obtain f3 n' e3 where c: "(case known of None \<Rightarrow> (f2, n, None)
        | Some ko \<Rightarrow> df_replace_known ko keys f2 n (ko_ListKeys ko)) = (f3, n', e3)"
    by (rule prod_cases3)
  note eq = assms [unfolded df_Replace_def Let_def a]
  consider "e1 \<noteq> None" | "e1 = None" "e2 \<noteq> None" | "e1 = None" "e2 = None" "e3 \<noteq> None"
    | "e1 = None" "e2 = None" "e3 = None" by blast
  then show thesis
  proof cases
    case 1
    then obtain err where "e1 = Some err" by blast
    then show ?thesis using eq a add [of err f1 keys] by simp
  next
    case 2
    then obtain err where "e2 = Some err" by blast
    then show ?thesis using 2 eq a b queued [of err f2 f1 keys n] by simp
  next
    case 3
    then obtain err where err: "e3 = Some err" by blast
    obtain ko where ko: "known = Some ko" using c err by (cases known) auto
    show ?thesis using 3 err ko eq a b c known [of err f3 f1 keys f2 n ko n'] by simp
  next
    case 4
    have "e = None \<and> f' = (if df_populated f3 then f3
             else f3\<lparr>df_populated := True, df_initialPopulationCount := card keys + n'\<rparr>)"
      using eq 4 b c by auto
    then show ?thesis using ok [of f3 keys n' f1 f2 n] 4 a b c by simp
  qed
qed

lemma df_replace_known_opt_ok:
  assumes "df_ok f" and "(case known of None \<Rightarrow> (f, n, None)
        | Some ko \<Rightarrow> df_replace_known ko keys f n (ko_ListKeys ko)) = (f', n', e)"
  shows "df_ok f' \<and> df_grows f f' \<and> df_populated f' = df_populated f"
  using assms df_replace_known_ok [OF assms(1)] by (auto split: option.splits)

text \<open>
  After a successful first \<open>Replace\<close> the count is the length of the queue: it counts the keys of the
  list, the other keys that were queued and the keys that only the known objects had.
\<close>

lemma df_replace_count:
  assumes ok: "df_ok f" and iter: "map_iter order" and "action \<noteq> Deleted"
    and a: "df_replace_add action f {} list = (f1, keys, None)"
    and b: "df_replace_queued keys f1 0 (order (df_items f1)) = (f2, n, None)"
    and c: "(case known of None \<Rightarrow> (f2, n, None)
        | Some ko \<Rightarrow> df_replace_known ko keys f2 n (ko_ListKeys ko)) = (f3, n', None)"
  shows "card keys + n' = length (df_queue f3)"
proof -
  have ok1: "df_ok f1" using df_replace_add_ok [OF ok a] by simp
  have ok2: "df_ok f2" using df_replace_queued_ok [OF ok1 b] by simp
  have keys: "keys \<subseteq> dom (df_items f1)" by (rule df_replace_add_keys [OF ok a assms(3)]) simp
  have fin: "finite (dom (df_items f1))" by (rule df_ok_finite [OF ok1])
  have iter1: "distinct (order (df_items f1))" "set (order (df_items f1)) = dom (df_items f1)"
    using map_iterD [OF iter fin] by auto
  have set: "{k \<in> set (order (df_items f1)). k \<notin> keys \<and> df_items f1 k \<noteq> None} = dom (df_items f1) - keys"
    using iter1 by auto
  have "n = card (dom (df_items f1) - keys)"
    using df_replace_queued_items [OF b iter1(1)] unfolding set by simp
  moreover have "card (dom (df_items f1)) = length (df_queue f1)"
    using ok1 distinct_card [of "df_queue f1"] by (simp add: df_ok_def)
  moreover have "card keys + card (dom (df_items f1) - keys) = card (dom (df_items f1))"
    using card_Diff_subset [OF finite_subset [OF keys fin] keys] card_mono [OF fin keys] by simp
  moreover have "df_queue f2 = df_queue f1" using df_replace_queued_items [OF b iter1(1)] by simp
  ultimately have "card keys + n = length (df_queue f2)" by simp
  moreover have "length (df_queue f2) \<le> length (df_queue f3)"
    using df_replace_known_opt_ok [OF ok2 c] by (auto simp: df_grows_def)
  moreover have "n' = n + (length (df_queue f3) - length (df_queue f2))"
  proof (cases known)
    case (Some ko)
    then show ?thesis using c df_replace_known_items [OF ok2, of ko keys n _ f3 n'] by simp
  qed (use c in simp)
  ultimately show ?thesis by simp
qed

lemma df_Replace_ok:
  assumes ok: "df_ok f" and iter: "map_iter order" and repl: "df_Replace order f known list = (f', e)"
  shows "df_ok f' \<and> df_grows f f'"
  using repl
proof (cases rule: df_Replace_split)
  case (add f1 keys err)
  then show ?thesis using df_replace_add_ok [OF ok add(3)] by simp
next
  case (queued f1 keys f2 n err)
  have ok1: "df_ok f1 \<and> df_grows f f1" using df_replace_add_ok [OF ok queued(3)] by simp
  show ?thesis using df_replace_queued_ok [OF _ queued(4)] ok1 queued(2) by (auto intro: df_grows_trans)
next
  case (known f1 keys f2 n ko f3 n' err)
  have ok1: "df_ok f1 \<and> df_grows f f1" using df_replace_add_ok [OF ok known(3)] by simp
  then have ok2: "df_ok f2 \<and> df_grows f f2"
    using df_replace_queued_ok [OF _ known(4)] by (auto intro: df_grows_trans)
  then show ?thesis using df_replace_known_ok [OF _ known(6)] known(2) by (auto intro: df_grows_trans)
next
  case (ok f1 keys f2 n f3 n')
  have ok1: "df_ok f1 \<and> df_grows f f1 \<and> df_populated f1 = df_populated f"
    using df_replace_add_ok [OF assms(1) ok(3)] by simp
  then have ok2: "df_ok f2 \<and> df_grows f f2 \<and> df_populated f2 = df_populated f"
    using df_replace_queued_ok [OF _ ok(4)] by (auto intro: df_grows_trans)
  then have ok3: "df_ok f3 \<and> df_grows f f3 \<and> df_populated f3 = df_populated f"
    using df_replace_known_opt_ok [OF _ ok(5)] by (auto intro: df_grows_trans)
  have "card keys + n' = length (df_queue f3)"
    by (rule df_replace_count [OF assms(1) iter _ ok(3-5)]) simp
  then show ?thesis using ok3 ok(2) by (auto simp: df_ok_def df_grows_def)
qed

lemma df_Replace_populates:
  assumes "df_ok f" and "\<not> df_populated f" and "map_iter order"
    and "df_Replace order f known list = (f', None)"
  shows "df_populated f' \<and> df_initialPopulationCount f' = length (df_queue f')"
  using assms(4)
proof (cases rule: df_Replace_split)
  case (ok f1 keys f2 n f3 n')
  have ok1: "df_ok f1" "df_populated f1 = df_populated f"
    using df_replace_add_ok [OF assms(1) ok(3)] by auto
  have ok2: "df_ok f2" "df_populated f2 = df_populated f"
    using df_replace_queued_ok [OF ok1(1) ok(4)] ok1 by auto
  have "df_populated f3 = df_populated f" using df_replace_known_opt_ok [OF ok2(1) ok(5)] ok2 by simp
  moreover have "card keys + n' = length (df_queue f3)"
    by (rule df_replace_count [OF assms(1,3) _ ok(3-5)]) simp
  ultimately show ?thesis using ok(2) assms(2) by simp
qed simp_all

text \<open>The accumulator of one key after a successful \<open>Replace\<close>.\<close>

definition df_replaced ::
  "'o DeltaFIFO \<Rightarrow> 'o known_objects option \<Rightarrow> 'o obj list \<Rightarrow> string \<Rightarrow> 'o deltas option"
where
  "df_replaced f known list k =
     (let action = (if df_emitDeltaTypeReplaced f then Replaced else Sync);
          adds = map (\<lambda>obj. (action, projr (df_transform f obj))) (filter (\<lambda>obj. df_KeyOf f obj = Inr k) list)
      in if adds \<noteq> [] then Some (df_items_get f k @ adds)
         else case df_items f k of
                Some old \<Rightarrow> Some (dedupDeltas (old @ [tombstone f k (deleted_object old)]))
              | None \<Rightarrow>
                  (case known of
                     None \<Rightarrow> None
                   | Some ko \<Rightarrow> if k \<in> set (ko_ListKeys ko)
                               then Some [tombstone f k (known_object ko k)] else None))"

lemma df_Replace_items:
  assumes ok: "df_ok f" and iter: "map_iter order" and repl: "df_Replace order f known list = (f', None)"
  shows "df_items f' k = df_replaced f known list k"
  using repl
proof (cases rule: df_Replace_split)
  case (ok f1 keys f2 n f3 n')
  let ?action = "if df_emitDeltaTypeReplaced f then Replaced else Sync"
  let ?hits = "filter (\<lambda>obj. df_KeyOf f obj = Inr k) list"
  have ok1: "df_ok f1" and grow1: "df_grows f f1" using df_replace_add_ok [OF assms(1) ok(3)] by auto
  have ok2: "df_ok f2" and grow2: "df_grows f f2"
    using df_replace_queued_ok [OF ok1 ok(4)] grow1 by (auto intro: df_grows_trans)
  have same: "tombstone f1 = tombstone f" "tombstone f2 = tombstone f"
    using grow1 grow2 by (simp_all add: tombstone_def df_grows_transform fun_eq_iff)
  have get1: "df_items_get f1 k = df_items_get f k @ map (\<lambda>obj. (?action, projr (df_transform f obj))) ?hits"
    and keys: "k \<in> keys \<longleftrightarrow> ?hits \<noteq> []"
    using df_replace_add_items [OF ok(3)] by (auto simp: filter_empty_conv)
  have iter1: "distinct (order (df_items f1))" "set (order (df_items f1)) = dom (df_items f1)"
    using map_iterD [OF iter df_ok_finite [OF ok1]] by auto
  have items1: "df_items f1 k = (if df_items_get f1 k = [] then None else Some (df_items_get f1 k))"
    using df_ok_items_get [OF ok1, of k] by (auto simp: df_items_get_def split: option.split)
  have items2: "df_items f2 k = (case df_items f1 k of None \<Rightarrow> None
      | Some old \<Rightarrow> if k \<notin> keys then Some (df_append f1 k (tombstone f k (deleted_object old))) else Some old)"
    using df_replace_queued_items [OF ok(4) iter1(1)] iter1(2) by (auto simp: same split: option.split)
  have items3: "df_items f3 k = (case known of None \<Rightarrow> df_items f2 k
      | Some ko \<Rightarrow> if k \<in> set (ko_ListKeys ko) \<and> k \<notin> keys \<and> df_items f2 k = None
                   then Some [tombstone f k (known_object ko k)] else df_items f2 k)"
    using ok(5) df_replace_known_items [OF ok2] by (auto simp: same split: option.splits)
  have "df_items f' k = df_items f3 k" using ok(2) by simp
  moreover have "df_items f k = (if df_items_get f k = [] then None else Some (df_items_get f k))"
    using df_ok_items_get [OF assms(1), of k] by (auto simp: df_items_get_def split: option.split)
  ultimately show ?thesis
    using items3 items2 items1 get1 keys
    by (auto simp: df_replaced_def Let_def df_append_def split: option.split)
qed simp_all

section \<open>Pop\<close>

definition df_popped :: "'o DeltaFIFO \<Rightarrow> 'o DeltaFIFO" where
  "df_popped f = f\<lparr>df_queue := tl (df_queue f), df_items := (df_items f)(hd (df_queue f) := None),
     df_initialPopulationCount := df_initialPopulationCount f - 1\<rparr>"

text \<open>On a well-formed queue the loop of \<open>Pop\<close> runs once: the head of the queue has an item.\<close>

lemma df_Pop_nonempty:
  assumes ok: "df_ok f" and q: "df_queue f = kid # queue" and item: "df_items f kid = Some item"
  shows "df_Pop process f s =
     (case process item (\<not> df_HasSynced f) s of
        (s', r) \<Rightarrow> (case df_finish (df_popped f) kid item r of (f', out) \<Rightarrow> (f', s', out)))"
proof -
  have "f\<lparr>df_queue := queue, df_initialPopulationCount :=
      if 0 < df_initialPopulationCount f then df_initialPopulationCount f - 1 else df_initialPopulationCount f,
      df_items := (df_items f)(kid := None)\<rparr> = df_popped f"
    by (simp add: df_popped_def q)
  then show ?thesis by (simp add: df_Pop.simps [of process f s] q item Let_def)
qed

lemma df_ok_head: "df_ok f \<Longrightarrow> df_queue f = kid # queue \<Longrightarrow> \<exists>item. df_items f kid = Some item \<and> item \<noteq> []"
  unfolding df_ok_def by (metis domD list.set_intros(1))

lemma df_popped_ok: "df_ok f \<Longrightarrow> df_queue f \<noteq> [] \<Longrightarrow> df_ok (df_popped f)"
  by (cases "df_queue f") (auto simp: df_ok_def df_popped_def)

lemma df_finish_ok:
  assumes "df_ok f" and "item \<noteq> []" and "df_finish f kid item r = (f', out)"
  shows "df_ok f' \<and> df_grows f f'"
  using assms df_addIfNotPresent_ok [OF assms(1,2)] by (auto simp: df_finish_def split: proc_result.splits)

lemma df_Pop_cases:
  assumes ok: "df_ok f" and pop: "df_Pop process f s = (f', s', out)"
  obtains (empty) "df_queue f = []" "f' = f" "s' = s" "out = (if df_closed f then Returns None (Some ErrFIFOClosed) else Waits)"
  | (popped) kid queue item r where "df_queue f = kid # queue" "df_items f kid = Some item" "item \<noteq> []"
      "process item (\<not> df_HasSynced f) s = (s', r)" "df_finish (df_popped f) kid item r = (f', out)"
      "df_ok f'" "df_grows (df_popped f) f'"
proof (cases "df_queue f")
  case Nil
  then have "(f, s, if df_closed f then Returns None (Some ErrFIFOClosed) else Waits) = (f', s', out)"
    using pop by (auto simp: df_Pop.simps [of process f s])
  then show ?thesis using empty Nil by blast
next
  case (Cons kid queue)
  obtain item where item: "df_items f kid = Some item" "item \<noteq> []" using df_ok_head [OF ok Cons] by blast
  obtain s1 r where p: "process item (\<not> df_HasSynced f) s = (s1, r)" by fastforce
  have fin: "df_finish (df_popped f) kid item r = (f', out)" and s1: "s1 = s'"
    using pop p unfolding df_Pop_nonempty [OF ok Cons item(1)] by (auto split: prod.splits)
  have "df_ok (df_popped f)" using df_popped_ok [OF ok] Cons by simp
  then have "df_ok f' \<and> df_grows (df_popped f) f'" by (rule df_finish_ok [OF _ item(2) fin])
  then show ?thesis using popped [OF Cons item p [unfolded s1] fin] by simp
qed

section \<open>Histories\<close>

text \<open>
  What can happen to a queue: any call of a producer, with any contents of the known objects and any
  iteration order, or a \<open>Pop\<close> with any callback. The label of a \<open>Pop\<close> is the key it takes off the
  queue, paired with every value of \<open>isInInitialList\<close> that the callback was called with: the callback
  writes its argument down and then returns what it likes, so the flag is the one \<open>Pop\<close> passes on
  and one label per pop means one call. \<open>df_Pop_is_step\<close> gives the step of a \<open>Pop\<close> with a callback
  on any other client state.
\<close>

inductive df_step :: "'o DeltaFIFO \<Rightarrow> (string \<times> bool) list \<Rightarrow> 'o DeltaFIFO \<Rightarrow> bool" where
  Add: "df_Add f obj = (f', e) \<Longrightarrow> df_step f [] f'"
| Update: "df_Update f obj = (f', e) \<Longrightarrow> df_step f [] f'"
| Delete: "df_Delete f known obj = (f', e) \<Longrightarrow> df_step f [] f'"
| AddIfNotPresent: "df_AddIfNotPresent f obj = (f', e) \<Longrightarrow> df_step f [] f'"
| Replace: "map_iter order \<Longrightarrow> df_Replace order f known list = (f', e) \<Longrightarrow> df_step f [] f'"
| Resync: "df_Resync f known = (f', e) \<Longrightarrow> df_step f [] f'"
| Close: "df_step f [] (df_Close f)"
| Pop_empty: "df_queue f = [] \<Longrightarrow> df_Pop process f () = (f', s', out) \<Longrightarrow> df_step f [] f'"
| Pop: "df_queue f = kid # queue \<Longrightarrow>
    df_Pop (\<lambda>deltas isInInitialList calls. (calls @ [isInInitialList], process deltas isInInitialList)) f [] =
      (f', calls, out) \<Longrightarrow>
    df_step f (map (Pair kid) calls) f'"

inductive df_steps :: "'o DeltaFIFO \<Rightarrow> (string \<times> bool) list \<Rightarrow> 'o DeltaFIFO \<Rightarrow> bool" where
  start: "df_steps f [] f"
| step: "df_steps f xs g \<Longrightarrow> df_step g ys h \<Longrightarrow> df_steps f (xs @ ys) h"

lemma df_step_ok:
  assumes "df_step f xs f'" and ok: "df_ok f"
  shows "df_ok f' \<and> (xs = [] \<and> df_grows f f' \<or>
     df_queue f \<noteq> [] \<and> xs = [(hd (df_queue f), \<not> df_HasSynced f)] \<and> df_grows (df_popped f) f')"
  using assms(1)
proof cases
  case (Pop_empty process s' out)
  from ok Pop_empty(3) show ?thesis
    by (cases rule: df_Pop_cases) (simp_all add: Pop_empty ok)
next
  case (Pop kid queue process calls out)
  from ok Pop(3) show ?thesis by (cases rule: df_Pop_cases) (auto simp add: Pop)
qed (use ok df_Add_ok df_Update_ok df_Delete_ok df_AddIfNotPresent_ok df_Replace_ok df_Resync_ok df_Close_ok in metis)+

lemma df_Pop_is_step:
  assumes ok: "df_ok f" and pop: "df_Pop process f s = (f', s', out)"
  shows "df_step f (if df_queue f = [] then [] else [(hd (df_queue f), \<not> df_HasSynced f)]) f'"
  using ok pop
proof (cases rule: df_Pop_cases)
  case empty
  then have "df_Pop (\<lambda>_ _ u. (u, ProcOk)) f () = (f, (), out)" by (simp add: df_Pop.simps)
  then show ?thesis using Pop_empty empty by force
next
  case (popped kid queue item r)
  have "df_Pop (\<lambda>_ initial calls. (calls @ [initial], r)) f [] = (f', [\<not> df_HasSynced f], out)"
    by (simp add: df_Pop_nonempty [OF ok popped(1,2)] popped(5))
  then show ?thesis using df_step.Pop [OF popped(1), of "\<lambda>_ _. r"] popped(1) by fastforce
qed

lemma df_steps_ok: "df_steps f xs f' \<Longrightarrow> df_ok f \<Longrightarrow> df_ok f'"
  by (induction rule: df_steps.induct) (auto dest: df_step_ok)

text \<open>
  Once populated, the first \<open>initialPopulationCount\<close> keys of the queue are handed out in order with
  the flag set, and everything after them with the flag clear.
\<close>

lemma df_populated_steps:
  assumes "df_steps f xs f'" and "df_ok f" and "df_populated f"
  defines "n \<equiv> df_initialPopulationCount f"
  shows "df_populated f' \<and> df_initialPopulationCount f' = n - length xs \<and>
     take (n - length xs) (df_queue f') = drop (length xs) (take n (df_queue f)) \<and>
     map fst (take n xs) = take (length xs) (take n (df_queue f)) \<and>
     (\<forall>i < length xs. snd (xs ! i) \<longleftrightarrow> i < n)"
  using assms(1-3) unfolding n_def
proof (induction rule: df_steps.induct)
  case (step f xs g ys h)
  let ?n = "df_initialPopulationCount f"
  have okg: "df_ok g" using df_steps_ok [OF step.hyps(1) step.prems(1)] .
  note IH = step.IH [OF step.prems]
  have len: "?n \<le> length (df_queue f)" "df_initialPopulationCount g \<le> length (df_queue g)"
    using step.prems(1) okg by (auto simp: df_ok_def)
  from df_step_ok [OF step.hyps(2) okg] consider (grow) "ys = []" "df_grows g h"
    | (pop) "df_queue g \<noteq> []" "ys = [(hd (df_queue g), \<not> df_HasSynced g)]" "df_grows (df_popped g) h" by blast
  then show ?case
  proof cases
    case grow
    then obtain ext where "df_queue h = df_queue g @ ext" "df_populated h"
      "df_initialPopulationCount h = df_initialPopulationCount g" using IH by (auto simp: df_grows_def)
    then show ?thesis using IH len grow(1) by simp
  next
    case pop
    then obtain ext where h: "df_queue h = tl (df_queue g) @ ext" "df_populated h"
      "df_initialPopulationCount h = df_initialPopulationCount g - 1"
      using IH by (auto simp: df_grows_def df_popped_def)
    obtain kid q where q: "df_queue g = kid # q" using pop(1) by (cases "df_queue g") auto
    have flag: "(\<not> df_HasSynced g) \<longleftrightarrow> length xs < ?n" using IH by (auto simp: df_HasSynced_def)
    have flags: "\<forall>i < length (xs @ ys). snd ((xs @ ys) ! i) \<longleftrightarrow> i < ?n"
      using IH pop(2) flag by (auto simp: nth_append less_Suc_eq)
    show ?thesis
    proof (cases "length xs < ?n")
      case True
      define m where "m = ?n - length xs - 1"
      have m: "?n - length xs = Suc m" "?n - Suc (length xs) = m" using True by (simp_all add: m_def)
      have hd: "kid # take m q = drop (length xs) (take ?n (df_queue f))" using IH q m(1) by simp
      then have kid: "df_queue f ! length xs = kid"
        using True len by (metis drop_eq_Nil hd_drop_conv_nth list.sel(1) list.simps(3) not_le nth_take)
      have "take m q = drop (Suc (length xs)) (take ?n (df_queue f))"
        using hd by (metis drop_Suc drop_tl list.sel(3))
      moreover have "length (take m q) = m" using len(2) q IH m by simp
      moreover have "take (Suc (length xs)) (df_queue f) = take (length xs) (df_queue f) @ [kid]"
        using kid True len by (metis less_le_trans take_Suc_conv_app_nth)
      ultimately show ?thesis
        using IH h q m True pop(2) flags len by (simp add: min_def)
    next
      case False
      then show ?thesis using IH h pop(2) flags by simp
    qed
  qed
qed (simp add: df_ok_def)

section \<open>Properties\<close>

text \<open>
  C18 A successful \<open>Replace\<close> appends one delta per listed object to the accumulator of its key, and a
  tombstone with the last known object for every other key that is queued or known; no other key
  gets an accumulator. When it is the first call it also sets the count of the initial population
  to the length of the queue.
\<close>

theorem df_Replace_exact:
  assumes "df_ok f" and "map_iter order" and "df_Replace order f known list = (f', None)"
  shows "df_items f' = df_replaced f known list \<and> set (df_queue f') = dom (df_replaced f known list) \<and>
     (\<not> df_populated f \<longrightarrow> df_populated f' \<and> df_initialPopulationCount f' = length (df_queue f'))"
proof -
  have items: "df_items f' = df_replaced f known list"
    using df_Replace_items [OF assms] by (rule ext)
  have ok': "df_ok f'" using df_Replace_ok [OF assms] by simp
  then show ?thesis using items df_Replace_populates [OF assms(1) _ assms(2,3)] by (simp add: df_ok_def)
qed

definition str_key :: "string goval key_func" where
  "str_key obj = (case obj of Some (Object s) \<Rightarrow> Inr s | _ \<Rightarrow> Inl (Errorf ''not a string''))"

definition known_old :: "string known_objects" where
  "known_old = \<lparr>ko_ListKeys = [''old''], ko_GetByKey = (\<lambda>k. Inr (if k = ''old'' then (Some (Object k), True) else (None, False)))\<rparr>"

theorem df_Replace_exact_witness:
  "\<exists>order f'. df_Replace order (NewDeltaFIFO str_key) (Some known_old) [Some (Object ''a'')] = (f', None) \<and>
     df_items f' ''a'' = Some [(Sync, Some (Object ''a''))] \<and>
     df_items f' ''old'' = Some [(Deleted, Some (DeletedFinalStateUnknown ''old'' (Some (Object ''old''))))] \<and>
     df_initialPopulationCount f' = length (df_queue f')"
proof -
  let ?f = "NewDeltaFIFO str_key"
  obtain order :: "string deltas gomap \<Rightarrow> string list" where order: "map_iter order"
    using map_iter_exists by blast
  have ok: "df_ok ?f" by (simp add: NewDeltaFIFO_def)
  obtain f' where f': "df_Replace order ?f (Some known_old) [Some (Object ''a'')] = (f', None)"
    by (simp add: df_Replace_def NewDeltaFIFO_def NewDeltaFIFOWithOptions_def queueActionLocked_eq df_KeyOf_def
        df_transform_def str_key_def df_append_def df_items_get_def df_enqueue_def known_old_def order)
  have "df_items f' = df_replaced ?f (Some known_old) [Some (Object ''a'')] \<and>
      (df_initialPopulationCount f' = length (df_queue f'))"
    using df_Replace_exact [OF ok order f']
    by (simp add: NewDeltaFIFO_def NewDeltaFIFOWithOptions_def)
  then show ?thesis
    using f' by (intro exI [of _ order] exI [of _ f'])
      (simp add: df_replaced_def NewDeltaFIFO_def NewDeltaFIFOWithOptions_def df_KeyOf_def str_key_def
        df_transform_def known_old_def tombstone_def known_object_def df_items_get_def)
qed

text \<open>
  C16 Whatever the producers and the consumer do after a successful first \<open>Replace\<close>: each \<open>Pop\<close> calls
  its callback once; the callback sees
  exactly the keys queued by that \<open>Replace\<close> first, in their order and with \<open>isInInitialList\<close> set, all
  later calls have the flag clear, and \<open>HasSynced\<close> turns true exactly when the last of those keys has
  been popped.
\<close>

theorem df_HasSynced_exact:
  assumes "df_ok f" and "\<not> df_populated f" and "map_iter order"
    and "df_Replace order f known list = (f0, None)" and "df_steps f0 popped f'"
  shows "(df_HasSynced f' \<longleftrightarrow> length popped \<ge> length (df_queue f0)) \<and>
     take (length (df_queue f0)) popped = map (\<lambda>k. (k, True)) (take (length popped) (df_queue f0)) \<and>
     (\<forall>i < length popped. snd (popped ! i) \<longleftrightarrow> i < length (df_queue f0))"
proof -
  have ok0: "df_ok f0" using df_Replace_ok [OF assms(1,3,4)] by simp
  have init: "df_populated f0" "df_initialPopulationCount f0 = length (df_queue f0)"
    using df_Replace_populates [OF assms(1-4)] by auto
  note run = df_populated_steps [OF assms(5) ok0 init(1), unfolded init(2)]
  have synced: "df_HasSynced f' \<longleftrightarrow> length popped \<ge> length (df_queue f0)"
    using run by (auto simp: df_HasSynced_def)
  have flags: "\<forall>i < length popped. snd (popped ! i) \<longleftrightarrow> i < length (df_queue f0)" using run by blast
  have first: "take (length (df_queue f0)) popped = map (\<lambda>k. (k, True)) (take (length popped) (df_queue f0))"
  proof (rule nth_equalityI)
    show "length (take (length (df_queue f0)) popped) =
        length (map (\<lambda>k. (k, True)) (take (length popped) (df_queue f0)))" by (simp add: min.commute)
  next
    fix i assume "i < length (take (length (df_queue f0)) popped)"
    then have i: "i < length (df_queue f0)" "i < length popped" by auto
    then have "fst (popped ! i) = df_queue f0 ! i"
      using arg_cong [OF run [THEN conjunct2, THEN conjunct2, THEN conjunct2, THEN conjunct1], of "\<lambda>l. l ! i"]
      by simp
    then show "take (length (df_queue f0)) popped ! i =
        map (\<lambda>k. (k, True)) (take (length popped) (df_queue f0)) ! i"
      using i flags by (simp add: prod_eq_iff)
  qed
  show ?thesis using synced first flags by blast
qed

theorem df_HasSynced_exact_witness:
  "\<exists>order f0 f'. df_Replace order (NewDeltaFIFO str_key) None [Some (Object ''a'')] = (f0, None) \<and>
     \<not> df_HasSynced f0 \<and> df_steps f0 [(''a'', True)] f' \<and> df_HasSynced f'"
proof -
  let ?f = "NewDeltaFIFO str_key"
  obtain order :: "string deltas gomap \<Rightarrow> string list" where order: "map_iter order"
    using map_iter_exists by blast
  let ?g = "\<lparr>df_items = [''a'' \<mapsto> [(Sync, Some (Object ''a''))]], df_queue = [''a''], df_populated = True,
      df_initialPopulationCount = 1, df_keyFunc = str_key, df_closed = False,
      df_emitDeltaTypeReplaced = False, df_transformer = None\<rparr>"
  have "queueActionLocked ?f Sync (Some (Object ''a'')) =
      (df_enqueue ?f ''a'' [(Sync, Some (Object ''a''))], None)"
    by (simp add: NewDeltaFIFO_def NewDeltaFIFOWithOptions_def queueActionLocked_eq df_KeyOf_def
        df_transform_def str_key_def df_append_def df_items_get_def)
  moreover have "df_enqueue ?f ''a'' [(Sync, Some (Object ''a''))] =
      ?g\<lparr>df_populated := False, df_initialPopulationCount := 0\<rparr>"
    by (simp add: NewDeltaFIFO_def NewDeltaFIFOWithOptions_def df_enqueue_def)
  moreover have "df_KeyOf ?f (Some (Object ''a'')) = Inr ''a''" "\<not> df_emitDeltaTypeReplaced ?f"
    by (simp_all add: NewDeltaFIFO_def NewDeltaFIFOWithOptions_def df_KeyOf_def str_key_def)
  ultimately have f0: "df_Replace order ?f None [Some (Object ''a'')] = (?g, None)"
    using order by (simp add: df_Replace_def)
  have unsynced: "\<not> df_HasSynced ?g" by (simp add: df_HasSynced_def)
  obtain f' out where "df_Pop (\<lambda>_ initial calls. (calls @ [initial], ProcOk)) ?g [] = (f', [True], out)"
    by (simp add: df_Pop.simps df_HasSynced_def df_finish_def)
  then have "df_step ?g (map (Pair ''a'') [True]) f'" by (rule df_step.Pop [rotated]) simp
  then have steps: "df_steps ?g [(''a'', True)] f'"
    using df_steps.step [OF df_steps.start [of ?g]] by fastforce
  have "df_HasSynced f'"
    using df_HasSynced_exact [OF _ _ order f0 steps] by (simp add: NewDeltaFIFO_def NewDeltaFIFOWithOptions_def
        df_ok_def)
  then show ?thesis using f0 unsynced steps by blast
qed

text \<open>
  C32 Every state a queue can reach is well-formed, so the branches the code marks as impossible are:
  the head of the queue always has a non-empty accumulator, which \<open>Pop\<close> removes and hands to the
  callback whole, and \<open>List\<close> never reads the newest delta of an empty accumulator.
\<close>

theorem df_reachable_safe:
  assumes "df_steps (NewDeltaFIFOWithOptions keyFunction emit transformer) popped f"
  shows "df_ok f \<and> (range_order order (df_items f) \<longrightarrow> None \<notin> set (df_List order f)) \<and>
     (df_queue f \<noteq> [] \<longrightarrow>
       (\<exists>item. item \<noteq> [] \<and> df_items f (hd (df_queue f)) = Some item \<and>
          df_Pop (\<lambda>deltas initial calls. (calls @ [(deltas, initial)], ProcOk)) f [] =
            (df_popped f, [(item, \<not> df_HasSynced f)], Returns (Some item) None)))"
proof -
  have ok: "df_ok f" by (rule df_steps_ok [OF assms]) simp
  have "d \<noteq> []" if "df_items f k = Some d" for k d using ok that by (auto simp: df_ok_def)
  then have list: "None \<notin> set (df_List order f)"
    by (auto simp: df_List_def List.map_filter_def Newest_last)
  have pop: "\<exists>item. item \<noteq> [] \<and> df_items f (hd (df_queue f)) = Some item \<and>
          df_Pop (\<lambda>deltas initial calls. (calls @ [(deltas, initial)], ProcOk)) f [] =
            (df_popped f, [(item, \<not> df_HasSynced f)], Returns (Some item) None)"
    if "df_queue f \<noteq> []"
  proof -
    obtain kid q where q: "df_queue f = kid # q" using \<open>df_queue f \<noteq> []\<close> by (cases "df_queue f") auto
    obtain item where item: "df_items f kid = Some item" "item \<noteq> []" using df_ok_head [OF ok q] by blast
    show ?thesis
      using item by (auto simp: q df_Pop_nonempty [OF ok q item(1)] df_finish_def)
  qed
  show ?thesis using ok list pop by blast
qed

theorem df_reachable_safe_witness:
  "\<exists>f. df_steps (NewDeltaFIFO str_key) [] f \<and> df_queue f = [''a''] \<and> df_ok f"
proof -
  let ?f = "NewDeltaFIFO str_key"
  obtain f e where f: "df_Add ?f (Some (Object ''a'')) = (f, e)" by fastforce
  then have "df_step ?f [] f" by (rule df_step.Add)
  then have steps: "df_steps ?f [] f" using df_steps.step [OF df_steps.start [of ?f]] by fastforce
  have "df_queue f = [''a'']"
    using f by (auto simp: df_Add_def NewDeltaFIFO_def NewDeltaFIFOWithOptions_def queueActionLocked_eq df_KeyOf_def
        df_transform_def str_key_def df_append_def df_items_get_def df_enqueue_def)
  moreover have "df_ok f"
    using df_reachable_safe [of str_key False None "[]" f] steps by (simp add: NewDeltaFIFO_def)
  ultimately show ?thesis using steps by blast
qed

end
