(* ===== verification/FIFO.thy ===== *)
theory FIFO
  imports DeltaFIFO
begin

text \<open>
  \<open>tools/cache/fifo.go\<close>: the queue that keeps only the newest object of each key. \<open>Delete\<close> leaves the
  key in the queue, so the queue may hold keys without an object, and a key twice; \<open>Pop\<close> skips them.

  The lemmas: every stored key is queued (so \<open>Resync\<close> does nothing, as its comment says), \<open>Pop\<close> returns
  whenever an object is stored and hands out the newest object of the first live key, and what
  \<open>HasSynced\<close> reports after a second \<open>Replace\<close>.
\<close>

section \<open>State and operations\<close>

record 'v FIFO =
  ff_items :: "'v iface gomap"
  ff_queue :: "string list"
  ff_populated :: bool
  ff_initialPopulationCount :: nat
  ff_keyFunc :: "'v key_func"
  ff_closed :: bool

definition NewFIFO :: "'v key_func \<Rightarrow> 'v FIFO" where
  "NewFIFO keyFunc = \<lparr>ff_items = Map.empty, ff_queue = [], ff_populated = False,
     ff_initialPopulationCount = 0, ff_keyFunc = keyFunc, ff_closed = False\<rparr>"

definition ff_Close :: "'v FIFO \<Rightarrow> 'v FIFO" where
  "ff_Close f = f\<lparr>ff_closed := True\<rparr>"

definition ff_HasSynced :: "'v FIFO \<Rightarrow> bool" where
  "ff_HasSynced f \<longleftrightarrow> ff_populated f \<and> ff_initialPopulationCount f = 0"

definition ff_Add :: "'v FIFO \<Rightarrow> 'v iface \<Rightarrow> 'v FIFO \<times> 'v error option" where
  "ff_Add f obj =
     (case ff_keyFunc f obj of
        Inl err \<Rightarrow> (f, Some (KeyError obj err))
      | Inr kid \<Rightarrow>
          (f\<lparr>ff_populated := True,
             ff_queue := (if ff_items f kid = None then ff_queue f @ [kid] else ff_queue f),
             ff_items := (ff_items f)(kid \<mapsto> obj)\<rparr>, None))"

definition ff_addIfNotPresent :: "'v FIFO \<Rightarrow> string \<Rightarrow> 'v iface \<Rightarrow> 'v FIFO" where
  "ff_addIfNotPresent f kid obj =
     (let f1 = f\<lparr>ff_populated := True\<rparr> in
      if ff_items f kid \<noteq> None then f1
      else f1\<lparr>ff_queue := ff_queue f @ [kid], ff_items := (ff_items f)(kid \<mapsto> obj)\<rparr>)"

definition ff_AddIfNotPresent :: "'v FIFO \<Rightarrow> 'v iface \<Rightarrow> 'v FIFO \<times> 'v error option" where
  "ff_AddIfNotPresent f obj =
     (case ff_keyFunc f obj of
        Inl err \<Rightarrow> (f, Some (KeyError obj err))
      | Inr kid \<Rightarrow> (ff_addIfNotPresent f kid obj, None))"

definition ff_Update :: "'v FIFO \<Rightarrow> 'v iface \<Rightarrow> 'v FIFO \<times> 'v error option" where
  "ff_Update f obj = ff_Add f obj"

definition ff_Delete :: "'v FIFO \<Rightarrow> 'v iface \<Rightarrow> 'v FIFO \<times> 'v error option" where
  "ff_Delete f obj =
     (case ff_keyFunc f obj of
        Inl err \<Rightarrow> (f, Some (KeyError obj err))
      | Inr kid \<Rightarrow> (f\<lparr>ff_populated := True, ff_items := (ff_items f)(kid := None)\<rparr>, None))"

definition ff_List :: "string list \<Rightarrow> 'v FIFO \<Rightarrow> 'v iface list" where
  "ff_List order f = map (map_get (ff_items f)) order"

definition ff_ListKeys :: "string list \<Rightarrow> 'v FIFO \<Rightarrow> string list" where
  "ff_ListKeys order f = order"

definition ff_GetByKey :: "'v FIFO \<Rightarrow> string \<Rightarrow> 'v iface \<times> bool" where
  "ff_GetByKey f key = (map_get (ff_items f) key, ff_items f key \<noteq> None)"

definition ff_Get :: "'v FIFO \<Rightarrow> 'v iface \<Rightarrow> ('v, 'v iface \<times> bool) res" where
  "ff_Get f obj =
     (case ff_keyFunc f obj of
        Inl err \<Rightarrow> Inl (KeyError obj err)
      | Inr key \<Rightarrow> Inr (ff_GetByKey f key))"

definition ff_IsClosed :: "'v FIFO \<Rightarrow> bool" where
  "ff_IsClosed f = ff_closed f"

text \<open>What \<open>Pop\<close> does with the result of the callback.\<close>

definition ff_finish ::
  "'v FIFO \<Rightarrow> string \<Rightarrow> 'v iface \<Rightarrow> 'v proc_result \<Rightarrow> 'v FIFO \<times> ('v, 'v iface) pop_out"
where
  "ff_finish f kid item r =
     (case r of
        ProcOk \<Rightarrow> (f, Returns item None)
      | ProcErr e \<Rightarrow> (f, Returns item (Some e))
      | Requeue e \<Rightarrow> (ff_addIfNotPresent f kid item, Returns item e)
      | ProcPanic e \<Rightarrow> (f, Panics e))"

function ff_Pop ::
  "('v iface \<Rightarrow> bool \<Rightarrow> 's \<Rightarrow> 's \<times> 'v proc_result) \<Rightarrow> 'v FIFO \<Rightarrow> 's
     \<Rightarrow> 'v FIFO \<times> 's \<times> ('v, 'v iface) pop_out"
where
  "ff_Pop process f s =
     (case ff_queue f of
        [] \<Rightarrow> (f, s, if ff_closed f then Returns None (Some ErrFIFOClosed) else Waits)
      | kid # queue \<Rightarrow>
          let isInInitialList = (\<not> ff_HasSynced f);
              f1 = f\<lparr>ff_queue := queue,
                     ff_initialPopulationCount :=
                       (if ff_initialPopulationCount f > 0 then ff_initialPopulationCount f - 1
                        else ff_initialPopulationCount f)\<rparr>
          in case ff_items f kid of
               None \<Rightarrow> ff_Pop process f1 s
             | Some item \<Rightarrow>
                 let f2 = f1\<lparr>ff_items := (ff_items f)(kid := None)\<rparr>;
                     (s', r) = process item isInInitialList s;
                     (f3, out) = ff_finish f2 kid item r
                 in (f3, s', out))"
  by pat_completeness auto
termination
  by (relation "measure (\<lambda>(_, f, _). length (ff_queue f))") auto

declare ff_Pop.simps [simp del]

definition ff_Replace ::
  "('v iface gomap \<Rightarrow> string list) \<Rightarrow> 'v FIFO \<Rightarrow> 'v iface list \<Rightarrow> 'v FIFO \<times> 'v error option"
where
  "ff_Replace order f list =
     (case keyed_items (ff_keyFunc f) list Map.empty of
        Inl err \<Rightarrow> (f, Some err)
      | Inr items \<Rightarrow>
          let f1 = (if \<not> ff_populated f
                    then f\<lparr>ff_populated := True, ff_initialPopulationCount := go_len items\<rparr> else f)
          in (f1\<lparr>ff_items := items, ff_queue := order items\<rparr>, None))"

definition ff_Resync :: "('v iface gomap \<Rightarrow> string list) \<Rightarrow> 'v FIFO \<Rightarrow> 'v FIFO" where
  "ff_Resync order f =
     f\<lparr>ff_queue := ff_queue f @ filter (\<lambda>kid. kid \<notin> set (ff_queue f)) (order (ff_items f))\<rparr>"

section \<open>Invariant\<close>

definition ff_ok :: "'v FIFO \<Rightarrow> bool" where
  "ff_ok f \<longleftrightarrow> dom (ff_items f) \<subseteq> set (ff_queue f)"

lemma ff_ok_iff: "ff_ok f \<longleftrightarrow> (\<forall>k v. ff_items f k = Some v \<longrightarrow> k \<in> set (ff_queue f))"
  by (auto simp: ff_ok_def)

lemma ff_ok_finite: "ff_ok f \<Longrightarrow> finite (dom (ff_items f))"
  unfolding ff_ok_def using finite_subset List.finite_set by metis

lemma ff_Add_ok: "ff_ok f \<Longrightarrow> ff_Add f obj = (f', e) \<Longrightarrow> ff_ok f'"
  by (auto simp: ff_ok_iff ff_Add_def split: sum.splits if_splits)

lemma ff_addIfNotPresent_ok: "ff_ok f \<Longrightarrow> ff_ok (ff_addIfNotPresent f kid obj)"
  by (auto simp: ff_ok_iff ff_addIfNotPresent_def Let_def)

lemma ff_AddIfNotPresent_ok: "ff_ok f \<Longrightarrow> ff_AddIfNotPresent f obj = (f', e) \<Longrightarrow> ff_ok f'"
  by (auto simp: ff_AddIfNotPresent_def ff_addIfNotPresent_ok split: sum.splits)

lemma ff_Delete_ok: "ff_ok f \<Longrightarrow> ff_Delete f obj = (f', e) \<Longrightarrow> ff_ok f'"
  by (auto simp: ff_ok_iff ff_Delete_def split: sum.splits if_splits)

lemma ff_Replace_ok:
  assumes "ff_ok f" and "map_iter order" and r: "ff_Replace order f list = (f', e)"
  shows "ff_ok f'"
proof (cases "keyed_items (ff_keyFunc f) list Map.empty")
  case (Inr items)
  have "finite (dom items)" by (rule keyed_items_dom_finite [OF _ Inr]) simp
  then have "set (order items) = dom items" using map_iterD [OF assms(2)] by blast
  then show ?thesis using r Inr by (auto simp: ff_Replace_def ff_ok_def)
qed (use r assms in \<open>simp add: ff_Replace_def\<close>)

text \<open>\<open>Resync\<close> is the no-op its comment says it is.\<close>

lemma ff_Resync_noop: "ff_ok f \<Longrightarrow> map_iter order \<Longrightarrow> ff_Resync order f = f"
proof -
  assume ok: "ff_ok f" and "map_iter order"
  then have "set (order (ff_items f)) \<subseteq> set (ff_queue f)"
    using map_iterD [OF \<open>map_iter order\<close> ff_ok_finite [OF ok]] by (simp add: ff_ok_def)
  then have "filter (\<lambda>kid. kid \<notin> set (ff_queue f)) (order (ff_items f)) = []"
    by (auto simp: filter_empty_conv)
  then show ?thesis by (simp add: ff_Resync_def)
qed

section \<open>Pop\<close>

text \<open>The keys at the front of the queue that have no object, and the queue from the first live key on.\<close>

definition dead_keys :: "'v FIFO \<Rightarrow> string list" where
  "dead_keys f = takeWhile (\<lambda>k. ff_items f k = None) (ff_queue f)"

definition live_keys :: "'v FIFO \<Rightarrow> string list" where
  "live_keys f = dropWhile (\<lambda>k. ff_items f k = None) (ff_queue f)"

definition ff_after :: "'v FIFO \<Rightarrow> nat \<Rightarrow> string list \<Rightarrow> 'v FIFO" where
  "ff_after f n queue = f\<lparr>ff_queue := queue, ff_initialPopulationCount := ff_initialPopulationCount f - n\<rparr>"

lemma ff_Pop_skips:
  "ff_Pop process f s = ff_Pop process (ff_after f (length (dead_keys f)) (live_keys f)) s"
proof (induction "ff_queue f" arbitrary: f)
  case Nil
  then have "ff_after f (length (dead_keys f)) (live_keys f) = f"
    by (simp add: dead_keys_def live_keys_def ff_after_def)
  then show ?case by simp
next
  case (Cons k queue)
  show ?case
  proof (cases "ff_items f k")
    case None
    define g where "g = ff_after f 1 queue"
    have "ff_Pop process f s = ff_Pop process g s"
      using Cons.hyps(2) [symmetric] None
      by (simp add: ff_Pop.simps [of process f s] g_def ff_after_def Let_def)
    also have "\<dots> = ff_Pop process (ff_after g (length (dead_keys g)) (live_keys g)) s"
      by (rule Cons.hyps(1)) (simp add: g_def ff_after_def)
    also have "ff_after g (length (dead_keys g)) (live_keys g) = ff_after f (length (dead_keys f)) (live_keys f)"
      using Cons.hyps(2) [symmetric] None by (simp add: g_def ff_after_def dead_keys_def live_keys_def)
    finally show ?thesis .
  next
    case (Some item)
    then have "ff_after f (length (dead_keys f)) (live_keys f) = f"
      using Cons.hyps(2) [symmetric] by (simp add: dead_keys_def live_keys_def ff_after_def)
    then show ?thesis by simp
  qed
qed

lemma ff_live_keys_iff: "ff_ok f \<Longrightarrow> live_keys f = [] \<longleftrightarrow> ff_items f = Map.empty"
proof -
  assume ok: "ff_ok f"
  have "live_keys f = [] \<longleftrightarrow> (\<forall>k \<in> set (ff_queue f). ff_items f k = None)"
    by (simp add: live_keys_def)
  also have "\<dots> \<longleftrightarrow> dom (ff_items f) = {}" using ok by (auto simp: ff_ok_def)
  finally show ?thesis by (simp only: dom_eq_empty_conv)
qed

lemma ff_live_head: "live_keys f = k # queue \<Longrightarrow> \<exists>item. ff_items f k = Some item"
proof -
  assume l: "live_keys f = k # queue"
  then have "dropWhile (\<lambda>k. ff_items f k = None) (ff_queue f) \<noteq> []" by (simp add: live_keys_def)
  from hd_dropWhile [OF this] show ?thesis using l by (auto simp: live_keys_def)
qed

definition ff_taken :: "'v FIFO \<Rightarrow> 'v FIFO" where
  "ff_taken f = (ff_after f (Suc (length (dead_keys f))) (tl (live_keys f)))
     \<lparr>ff_items := (ff_items f)(hd (live_keys f) := None)\<rparr>"

lemma ff_Pop_live:
  assumes l: "live_keys f = k # queue" and item: "ff_items f k = Some item"
  shows "ff_Pop process f s =
     (case process item (\<not> ff_HasSynced (ff_after f (length (dead_keys f)) (live_keys f))) s of
        (s', r) \<Rightarrow> (case ff_finish (ff_taken f) k item r of (f', out) \<Rightarrow> (f', s', out)))"
proof -
  let ?g = "ff_after f (length (dead_keys f)) (live_keys f)"
  have q: "ff_queue ?g = k # queue" "ff_items ?g k = Some item" using l item by (simp_all add: ff_after_def)
  have "?g\<lparr>ff_queue := queue, ff_initialPopulationCount :=
      if 0 < ff_initialPopulationCount ?g then ff_initialPopulationCount ?g - 1 else ff_initialPopulationCount ?g,
      ff_items := (ff_items ?g)(k := None)\<rparr> = ff_taken f"
    by (simp add: ff_taken_def ff_after_def l)
  then show ?thesis
    unfolding ff_Pop_skips [of process f s] by (simp add: ff_Pop.simps [of process ?g s] q Let_def)
qed

lemma ff_Pop_dead:
  assumes "live_keys f = []"
  shows "ff_Pop process f s = (ff_after f (length (dead_keys f)) [], s,
     if ff_closed f then Returns None (Some ErrFIFOClosed) else Waits)"
  unfolding ff_Pop_skips [of process f s] assms by (simp add: ff_Pop.simps ff_after_def)

lemma ff_live_queue: "ff_queue f = dead_keys f @ live_keys f"
  by (simp add: dead_keys_def live_keys_def)

lemma ff_dead_items: "k \<in> set (dead_keys f) \<Longrightarrow> ff_items f k = None"
  using set_takeWhileD by (fastforce simp: dead_keys_def)

lemma ff_taken_ok: "ff_ok f \<Longrightarrow> live_keys f \<noteq> [] \<Longrightarrow> ff_ok (ff_taken f)"
proof -
  assume ok: "ff_ok f" and "live_keys f \<noteq> []"
  then obtain k queue where l: "live_keys f = k # queue" by (meson neq_Nil_conv)
  have "dom (ff_items f) \<subseteq> set (dead_keys f) \<union> set (live_keys f)"
    using ok ff_live_queue [of f] unfolding ff_ok_def by (metis set_append)
  then show ?thesis using ff_dead_items [of _ f] l by (auto simp: ff_ok_def ff_taken_def ff_after_def)
qed

lemma ff_Pop_ok:
  assumes ok: "ff_ok f" and pop: "ff_Pop process f s = (f', s', out)"
  shows "ff_ok f'"
proof (cases "live_keys f")
  case Nil
  then have "ff_items f = Map.empty" using ff_live_keys_iff [OF ok] by simp
  then show ?thesis using pop ff_Pop_dead [OF Nil, of process s] by (auto simp: ff_ok_def ff_after_def)
next
  case (Cons k queue)
  obtain item where item: "ff_items f k = Some item" using ff_live_head [OF Cons] by blast
  have ok': "ff_ok (ff_taken f)" using ff_taken_ok [OF ok] Cons by simp
  show ?thesis
    using pop ok' ff_addIfNotPresent_ok [OF ok'] unfolding ff_Pop_live [OF Cons item]
    by (auto simp: ff_finish_def split: prod.splits proc_result.splits)
qed

section \<open>Histories\<close>

inductive ff_step :: "'v FIFO \<Rightarrow> 'v FIFO \<Rightarrow> bool" where
  Add: "ff_Add f obj = (f', e) \<Longrightarrow> ff_step f f'"
| Update: "ff_Update f obj = (f', e) \<Longrightarrow> ff_step f f'"
| AddIfNotPresent: "ff_AddIfNotPresent f obj = (f', e) \<Longrightarrow> ff_step f f'"
| Delete: "ff_Delete f obj = (f', e) \<Longrightarrow> ff_step f f'"
| Replace: "map_iter order \<Longrightarrow> ff_Replace order f list = (f', e) \<Longrightarrow> ff_step f f'"
| Resync: "map_iter order \<Longrightarrow> ff_step f (ff_Resync order f)"
| Close: "ff_step f (ff_Close f)"
| Pop: "ff_Pop process f () = (f', s', out) \<Longrightarrow> ff_step f f'"

inductive ff_reachable :: "'v key_func \<Rightarrow> 'v FIFO \<Rightarrow> bool" for keyFunc where
  init: "ff_reachable keyFunc (NewFIFO keyFunc)"
| step: "ff_reachable keyFunc f \<Longrightarrow> ff_step f f' \<Longrightarrow> ff_reachable keyFunc f'"

lemma ff_step_ok: "ff_step f f' \<Longrightarrow> ff_ok f \<Longrightarrow> ff_ok f'"
proof (induction rule: ff_step.induct)
  case (Resync order f)
  then show ?case using ff_Resync_noop by metis
next
  case (Close f)
  then show ?case by (simp add: ff_ok_def ff_Close_def)
qed (use ff_Add_ok ff_Update_def ff_AddIfNotPresent_ok ff_Delete_ok ff_Replace_ok ff_Pop_ok in metis)+

lemma ff_reachable_ok: "ff_reachable keyFunc f \<Longrightarrow> ff_ok f"
  by (induction rule: ff_reachable.induct) (simp_all add: ff_step_ok, simp add: ff_ok_def NewFIFO_def)

section \<open>Properties\<close>

text \<open>
  In every reachable state \<open>Pop\<close> returns exactly when an object is stored, and then it removes and
  hands to the callback the newest object of the first queued key that still has one; otherwise it
  waits, or reports that the queue is closed, without calling the callback. \<open>Resync\<close> changes nothing.
\<close>

theorem fifo_Pop_exact:
  assumes "ff_reachable keyFunc f" and "map_iter order"
  shows "ff_Resync order f = f \<and>
     (ff_items f = Map.empty \<longrightarrow>
        (\<exists>f'. ff_Pop (\<lambda>obj initial calls. (calls @ [obj], ProcOk)) f [] =
          (f', [], if ff_IsClosed f then Returns None (Some ErrFIFOClosed) else Waits))) \<and>
     (ff_items f \<noteq> Map.empty \<longrightarrow>
        (\<exists>f' k dead rest item. ff_queue f = dead @ k # rest \<and> (\<forall>j \<in> set dead. ff_items f j = None) \<and>
           ff_items f k = Some item \<and> ff_items f' = (ff_items f)(k := None) \<and> ff_queue f' = rest \<and>
           ff_Pop (\<lambda>obj initial calls. (calls @ [obj], ProcOk)) f [] = (f', [item], Returns item None)))"
proof (intro conjI impI)
  have ok: "ff_ok f" by (rule ff_reachable_ok [OF assms(1)])
  show "ff_Resync order f = f" by (rule ff_Resync_noop [OF ok assms(2)])
  show "\<exists>f'. ff_Pop (\<lambda>obj initial calls. (calls @ [obj], ProcOk)) f [] =
          (f', [], if ff_IsClosed f then Returns None (Some ErrFIFOClosed) else Waits)"
    if "ff_items f = Map.empty"
  proof -
    have "live_keys f = []" using ff_live_keys_iff [OF ok] that by blast
    then show ?thesis by (simp add: ff_Pop_dead ff_IsClosed_def)
  qed
  show "\<exists>f' k dead rest item. ff_queue f = dead @ k # rest \<and> (\<forall>j \<in> set dead. ff_items f j = None) \<and>
           ff_items f k = Some item \<and> ff_items f' = (ff_items f)(k := None) \<and> ff_queue f' = rest \<and>
           ff_Pop (\<lambda>obj initial calls. (calls @ [obj], ProcOk)) f [] = (f', [item], Returns item None)"
    if "ff_items f \<noteq> Map.empty"
  proof -
    have "live_keys f \<noteq> []" using ff_live_keys_iff [OF ok] that by blast
    then obtain k rest where l: "live_keys f = k # rest" by (meson neq_Nil_conv)
    obtain item where item: "ff_items f k = Some item" using ff_live_head [OF l] by blast
    have "ff_Pop (\<lambda>obj initial calls. (calls @ [obj], ProcOk)) f [] = (ff_taken f, [item], Returns item None)"
      by (simp add: ff_Pop_live [OF l item] ff_finish_def)
    moreover have "ff_items (ff_taken f) = (ff_items f)(k := None)" "ff_queue (ff_taken f) = rest"
      by (simp_all add: ff_taken_def ff_after_def l)
    moreover have "ff_queue f = dead_keys f @ k # rest" using ff_live_queue [of f] l by simp
    moreover have "\<forall>j \<in> set (dead_keys f). ff_items f j = None" using ff_dead_items by blast
    ultimately show ?thesis using item by blast
  qed
qed

definition demo_fifo :: "string FIFO" where
  "demo_fifo = fst (ff_Add (fst (ff_Add (NewFIFO (\<lambda>obj. Inr (the obj))) (Some ''a''))) (Some ''b''))"

lemma demo_fifo_fields:
  "ff_items demo_fifo = [''a'' \<mapsto> Some ''a'', ''b'' \<mapsto> Some ''b'']" "ff_queue demo_fifo = [''a'', ''b'']"
  by (simp_all add: demo_fifo_def ff_Add_def NewFIFO_def)

lemma demo_fifo_reachable: "ff_reachable (\<lambda>obj. Inr (the obj)) demo_fifo"
  unfolding demo_fifo_def
  by (rule ff_reachable.step [OF ff_reachable.step [OF ff_reachable.init ff_step.Add] ff_step.Add])
    (rule surjective_pairing)+

theorem fifo_Pop_exact_witness:
  "\<exists>f'. ff_Pop (\<lambda>obj initial calls. (calls @ [obj], ProcOk)) demo_fifo [] = (f', [Some ''a''], Returns (Some ''a'') None) \<and>
     ff_queue f' = [''b'']"
proof -
  obtain order :: "string iface gomap \<Rightarrow> string list" where order: "map_iter order" using map_iter_exists by blast
  have "ff_items demo_fifo \<noteq> Map.empty" by (simp add: demo_fifo_fields)
  then obtain f' k dead rest item where
    *: "ff_queue demo_fifo = dead @ k # rest" "\<forall>j \<in> set dead. ff_items demo_fifo j = None"
       "ff_items demo_fifo k = Some item" "ff_queue f' = rest"
       "ff_Pop (\<lambda>obj initial calls. (calls @ [obj], ProcOk)) demo_fifo [] = (f', [item], Returns item None)"
    using fifo_Pop_exact [OF demo_fifo_reachable order] by blast
  have "dead = []" using *(1,2) by (cases dead) (auto simp: demo_fifo_fields)
  then show ?thesis using * by (auto simp: demo_fifo_fields)
qed

text \<open>
  A second \<open>Replace\<close> does not correct the count of the initial population: after a first \<open>Replace\<close>
  with objects of n different keys and a second one with no objects, the queue is empty and there is nothing to
  pop, but \<open>HasSynced\<close> reports false, for any n above zero.
\<close>

theorem fifo_HasSynced_stuck:
  assumes "\<forall>obj \<in> set list. keyFunc obj = Inr (key obj)" and "list \<noteq> []" and "map_iter order"
  shows "\<exists>f f'. ff_Replace order (NewFIFO keyFunc) list = (f, None) \<and> ff_Replace order f [] = (f', None) \<and>
     ff_queue f' = [] \<and> ff_items f' = Map.empty \<and> \<not> ff_HasSynced f' \<and>
     fst (ff_Pop (\<lambda>_ _ s. (s, ProcOk)) f' ()) = f'"
proof -
  let ?items = "map_of (rev (map (\<lambda>obj. (key obj, obj)) list))"
  have items: "keyed_items keyFunc list Map.empty = Inr ?items"
    using keyed_items_map_of [of list keyFunc key Map.empty] assms(1) by simp
  have dom: "dom ?items = key ` set list" by (force simp: dom_map_of_conv_image_fst)
  then have "go_len ?items > 0" using assms(2) by (simp add: go_len_def card_gt_0_iff)
  moreover have "order Map.empty = []" using assms(3) by simp
  ultimately show ?thesis
    by (simp add: ff_Replace_def items NewFIFO_def ff_HasSynced_def ff_Pop.simps)
qed

theorem fifo_HasSynced_stuck_witness:
  "\<exists>order f f'. ff_Replace order (NewFIFO (\<lambda>obj. Inr (the obj))) [Some ''a'', Some ''b''] = (f, None) \<and>
     ff_Replace order f [] = (f', None) \<and> ff_queue f' = [] \<and> \<not> ff_HasSynced f'"
proof -
  obtain order :: "string iface gomap \<Rightarrow> string list" where order: "map_iter order" using map_iter_exists by blast
  have "\<forall>obj \<in> set [Some ''a'', Some ''b'']. (Inr (the obj) :: (string, string) res) = Inr (the obj)" by simp
  from fifo_HasSynced_stuck [OF this _ order] show ?thesis by blast
qed

end
