(* ===== verification/WorkQueue.thy ===== *)
theory WorkQueue
  imports K8s_Prelude
begin

text \<open>
  \<open>util/workqueue/queue.go\<close>: the work queue of controllers. An item that is added while a worker
  holds it is remembered in \<open>dirty\<close> and queued again by \<open>Done\<close>.

  The mutex makes every method an atomic step up to its waits on the condition variable. The
  methods return, besides their results, what they do to the condition variable; the second half
  of the theory runs them in threads: a thread sleeps, is woken by a \<open>Signal\<close> or \<open>Broadcast\<close>, and
  checks its loop condition again once it has the mutex, any other thread having been able to go
  first. The metrics only observe and are left out, as is their goroutine.

  The lemmas: the queue has no duplicates and holds exactly the dirty items nobody works on, items
  leave in the order they entered, no item is worked on by two threads at once, no wakeup of a
  waiting \<open>Get\<close> is lost, and a single \<open>ShutDownWithDrain\<close> is always woken.
\<close>

section \<open>The queue\<close>

record 'a workqueue =
  wq_queue :: "'a list"
  wq_dirty :: "'a set"
  wq_processing :: "'a set"
  wq_shuttingDown :: bool
  wq_drain :: bool

datatype cond_effect = NoSignal | Signal | Broadcast

definition newQueue :: "'a workqueue" where
  "newQueue = \<lparr>wq_queue = [], wq_dirty = {}, wq_processing = {}, wq_shuttingDown = False, wq_drain = False\<rparr>"

definition wq_Add :: "'a workqueue \<Rightarrow> 'a \<Rightarrow> 'a workqueue \<times> cond_effect" where
  "wq_Add q item =
     (if wq_shuttingDown q then (q, NoSignal)
      else if item \<in> wq_dirty q then (q, NoSignal)
      else let q1 = q\<lparr>wq_dirty := insert item (wq_dirty q)\<rparr> in
           if item \<in> wq_processing q then (q1, NoSignal)
           else (q1\<lparr>wq_queue := wq_queue q @ [item]\<rparr>, Signal))"

definition wq_Len :: "'a workqueue \<Rightarrow> nat" where
  "wq_Len q = length (wq_queue q)"

text \<open>\<open>Get\<close> from a check of its loop condition on: wait, return an item, or report the shutdown.\<close>

datatype 'a get_out = GetWaits | GetItem 'a | GetShutdown

definition wq_Get :: "'a workqueue \<Rightarrow> 'a workqueue \<times> 'a get_out" where
  "wq_Get q =
     (if wq_queue q = [] \<and> \<not> wq_shuttingDown q then (q, GetWaits)
      else case wq_queue q of
             [] \<Rightarrow> (q, GetShutdown)
           | item # queue \<Rightarrow>
               (q\<lparr>wq_queue := queue, wq_processing := insert item (wq_processing q),
                  wq_dirty := wq_dirty q - {item}\<rparr>, GetItem item))"

definition wq_Done :: "'a workqueue \<Rightarrow> 'a \<Rightarrow> 'a workqueue \<times> cond_effect" where
  "wq_Done q item =
     (let q1 = q\<lparr>wq_processing := wq_processing q - {item}\<rparr> in
      if item \<in> wq_dirty q then (q1\<lparr>wq_queue := wq_queue q @ [item]\<rparr>, Signal)
      else if wq_processing q1 = {} then (q1, Signal)
      else (q1, NoSignal))"

definition wq_ShutDown :: "'a workqueue \<Rightarrow> 'a workqueue \<times> cond_effect" where
  "wq_ShutDown q = (q\<lparr>wq_drain := False, wq_shuttingDown := True\<rparr>, Broadcast)"

text \<open>\<open>ShutDownWithDrain\<close>: what precedes its loop, and the loop condition.\<close>

definition wq_ShutDownWithDrain :: "'a workqueue \<Rightarrow> 'a workqueue \<times> cond_effect" where
  "wq_ShutDownWithDrain q = (q\<lparr>wq_drain := True, wq_shuttingDown := True\<rparr>, Broadcast)"

definition wq_drain_waits :: "'a workqueue \<Rightarrow> bool" where
  "wq_drain_waits q \<longleftrightarrow> wq_processing q \<noteq> {} \<and> wq_drain q"

definition wq_ShuttingDown :: "'a workqueue \<Rightarrow> bool" where
  "wq_ShuttingDown q = wq_shuttingDown q"

section \<open>Invariant\<close>

definition wq_ok :: "'a workqueue \<Rightarrow> bool" where
  "wq_ok q \<longleftrightarrow> distinct (wq_queue q) \<and> set (wq_queue q) = wq_dirty q - wq_processing q"

lemma wq_ok_new [simp]: "wq_ok newQueue"
  by (simp add: wq_ok_def newQueue_def)

lemma wq_Add_fields [simp]:
  "wq_queue (fst (wq_Add q x)) =
     (if wq_shuttingDown q \<or> x \<in> wq_dirty q \<or> x \<in> wq_processing q then wq_queue q else wq_queue q @ [x])"
  "wq_dirty (fst (wq_Add q x)) = (if wq_shuttingDown q then wq_dirty q else insert x (wq_dirty q))"
  "wq_processing (fst (wq_Add q x)) = wq_processing q"
  "wq_shuttingDown (fst (wq_Add q x)) = wq_shuttingDown q"
  "wq_drain (fst (wq_Add q x)) = wq_drain q"
  by (auto simp: wq_Add_def Let_def)

lemma wq_Done_fields [simp]:
  "wq_queue (fst (wq_Done q x)) = (if x \<in> wq_dirty q then wq_queue q @ [x] else wq_queue q)"
  "wq_dirty (fst (wq_Done q x)) = wq_dirty q"
  "wq_processing (fst (wq_Done q x)) = wq_processing q - {x}"
  "wq_shuttingDown (fst (wq_Done q x)) = wq_shuttingDown q"
  "wq_drain (fst (wq_Done q x)) = wq_drain q"
  by (simp_all add: wq_Done_def Let_def)

lemma wq_Add_ok: "wq_ok q \<Longrightarrow> wq_ok (fst (wq_Add q item))"
  unfolding wq_ok_def by (cases "wq_shuttingDown q") auto

lemma wq_Get_ok: "wq_ok q \<Longrightarrow> wq_ok (fst (wq_Get q))"
  by (cases "wq_queue q") (auto simp: wq_ok_def wq_Get_def)

lemma wq_Done_ok:
  assumes "wq_ok q" and "item \<in> wq_processing q"
  shows "wq_ok (fst (wq_Done q item))"
proof -
  have "item \<notin> set (wq_queue q)" using assms by (simp add: wq_ok_def)
  then show ?thesis using assms by (auto simp: wq_ok_def)
qed

lemma wq_ShutDown_ok: "wq_ok q \<Longrightarrow> wq_ok (fst (wq_ShutDown q))"
  by (simp add: wq_ok_def wq_ShutDown_def)

lemma wq_ShutDownWithDrain_ok: "wq_ok q \<Longrightarrow> wq_ok (fst (wq_ShutDownWithDrain q))"
  by (simp add: wq_ok_def wq_ShutDownWithDrain_def)

lemmas wq_ops_ok = wq_Add_ok wq_Get_ok wq_Done_ok wq_ShutDown_ok wq_ShutDownWithDrain_ok

lemma wq_Get_item:
  assumes "wq_ok q" and "wq_Get q = (q', GetItem x)"
  shows "wq_queue q = x # wq_queue q' \<and> x \<in> wq_dirty q \<and> x \<notin> wq_processing q \<and>
     wq_processing q' = insert x (wq_processing q) \<and> wq_dirty q' = wq_dirty q - {x} \<and>
     wq_shuttingDown q' = wq_shuttingDown q \<and> wq_drain q' = wq_drain q"
proof -
  have q: "wq_queue q \<noteq> []" using assms(2) by (auto simp: wq_Get_def split: if_splits)
  have q': "q' = q\<lparr>wq_queue := tl (wq_queue q), wq_processing := insert x (wq_processing q),
      wq_dirty := wq_dirty q - {x}\<rparr>" and x: "x = hd (wq_queue q)"
    using assms(2) q by (auto simp: wq_Get_def split: list.splits)
  have "x \<in> set (wq_queue q)" using q x by simp
  then have "x \<in> wq_dirty q \<and> x \<notin> wq_processing q" using assms(1) unfolding wq_ok_def by blast
  then show ?thesis using q x by (simp add: q')
qed

lemma wq_Get_waits: "wq_Get q = (q', GetWaits) \<longleftrightarrow> q' = q \<and> wq_queue q = [] \<and> \<not> wq_shuttingDown q"
  by (auto simp: wq_Get_def split: list.split)

lemma wq_Get_shutdown: "wq_Get q = (q', GetShutdown) \<longleftrightarrow> q' = q \<and> wq_queue q = [] \<and> wq_shuttingDown q"
  by (auto simp: wq_Get_def split: list.split)

section \<open>Sequences of calls\<close>

datatype 'a wq_call = WAdd 'a | WGet | WDone 'a | WShutDown | WShutDownWithDrain

text \<open>\<open>None\<close> marks a call of \<open>Done\<close> for an item nobody holds: the contract of the queue forbids it.\<close>

fun wq_apply :: "'a workqueue \<Rightarrow> 'a wq_call \<Rightarrow> ('a workqueue \<times> 'a list) option" where
  "wq_apply q (WAdd x) = Some (fst (wq_Add q x), [])"
| "wq_apply q WGet = (case wq_Get q of (q', GetItem x) \<Rightarrow> Some (q', [x]) | (q', _) \<Rightarrow> Some (q', []))"
| "wq_apply q (WDone x) = (if x \<in> wq_processing q then Some (fst (wq_Done q x), []) else None)"
| "wq_apply q WShutDown = Some (fst (wq_ShutDown q), [])"
| "wq_apply q WShutDownWithDrain = Some (fst (wq_ShutDownWithDrain q), [])"

fun wq_run :: "'a workqueue \<Rightarrow> 'a wq_call list \<Rightarrow> ('a workqueue \<times> 'a list) option" where
  "wq_run q [] = Some (q, [])"
| "wq_run q (c # cs) =
     (case wq_apply q c of
        None \<Rightarrow> None
      | Some (q1, xs) \<Rightarrow> (case wq_run q1 cs of None \<Rightarrow> None | Some (q2, ys) \<Rightarrow> Some (q2, xs @ ys)))"

text \<open>What the queue promises: the items to be worked on, and the items being worked on.\<close>

fun wq_spec :: "'a set \<times> 'a set \<times> bool \<Rightarrow> 'a wq_call \<Rightarrow> 'a list \<Rightarrow> 'a set \<times> 'a set \<times> bool" where
  "wq_spec (pending, held, down) (WAdd x) got = (if down then pending else insert x pending, held, down)"
| "wq_spec (pending, held, down) WGet got = (pending - set got, held \<union> set got, down)"
| "wq_spec (pending, held, down) (WDone x) got = (pending, held - {x}, down)"
| "wq_spec (pending, held, down) WShutDown got = (pending, held, True)"
| "wq_spec (pending, held, down) WShutDownWithDrain got = (pending, held, True)"

definition wq_abs :: "'a workqueue \<Rightarrow> 'a set \<times> 'a set \<times> bool" where
  "wq_abs q = (wq_dirty q, wq_processing q, wq_shuttingDown q)"

lemma wq_apply_ok:
  assumes ok: "wq_ok q" and app: "wq_apply q c = Some (q', got)"
  shows "wq_ok q' \<and> wq_abs q' = wq_spec (wq_abs q) c got \<and>
     (\<exists>new. wq_queue q @ new = got @ wq_queue q') \<and> (got \<noteq> [] \<longrightarrow> c = WGet) \<and>
     set got \<subseteq> wq_dirty q - wq_processing q"
proof (cases c)
  case (WAdd x)
  then have "q' = fst (wq_Add q x)" "got = []" using app by auto
  then show ?thesis using wq_Add_ok [OF ok, of x] WAdd by (auto simp: wq_abs_def)
next
  case WGet
  obtain q1 out where get: "wq_Get q = (q1, out)" by fastforce
  have ok1: "wq_ok q1" using wq_Get_ok [OF ok] get by simp
  show ?thesis
  proof (cases out)
    case (GetItem x)
    then have eq: "q' = q1" "got = [x]" using app WGet get by auto
    have fields: "wq_queue q = x # wq_queue q1" "x \<in> wq_dirty q - wq_processing q"
      "wq_abs q1 = (wq_dirty q - {x}, insert x (wq_processing q), wq_shuttingDown q)"
      using wq_Get_item [OF ok, of q1 x] get GetItem by (auto simp: wq_abs_def)
    have "wq_queue q @ [] = got @ wq_queue q'" using fields(1) eq by simp
    then show ?thesis using fields ok1 eq WGet by (auto simp: wq_abs_def)
  qed (use app WGet get ok1 wq_Get_waits [of q q1] wq_Get_shutdown [of q q1] in \<open>auto simp: wq_abs_def\<close>)
next
  case (WDone x)
  then have "q' = fst (wq_Done q x)" "got = []" "x \<in> wq_processing q" using app by (auto split: if_splits)
  then show ?thesis using wq_Done_ok [OF ok, of x] WDone by (auto simp: wq_abs_def)
next
  case WShutDown
  then show ?thesis using app wq_ShutDown_ok [OF ok] by (auto simp: wq_abs_def wq_ShutDown_def)
next
  case WShutDownWithDrain
  then show ?thesis using app wq_ShutDownWithDrain_ok [OF ok] by (auto simp: wq_abs_def wq_ShutDownWithDrain_def)
qed

lemma wq_run_ok:
  "wq_ok q \<Longrightarrow> wq_run q cs = Some (q', got) \<Longrightarrow>
     wq_ok q' \<and> (\<exists>new. wq_queue q @ new = got @ wq_queue q')"
proof (induction cs arbitrary: q got)
  case (Cons c cs)
  obtain q1 xs where c: "wq_apply q c = Some (q1, xs)" using Cons.prems(2) by (auto split: option.splits)
  obtain ys where r: "wq_run q1 cs = Some (q', ys)" "got = xs @ ys"
    using Cons.prems(2) c by (auto split: option.splits)
  have "wq_ok q1" and "\<exists>new. wq_queue q @ new = xs @ wq_queue q1"
    using wq_apply_ok [OF Cons.prems(1) c] by auto
  moreover obtain new' where "wq_queue q1 @ new' = ys @ wq_queue q'" and "wq_ok q'"
    using Cons.IH [OF \<open>wq_ok q1\<close> r(1)] by blast
  ultimately show ?case using r(2) by (metis append.assoc)
qed simp

section \<open>Threads\<close>

text \<open>
  Where a thread is: outside the queue, asleep in \<open>Get\<close>, woken but without the mutex, holding an
  item, told to end, or the same in the loop of \<open>ShutDownWithDrain\<close>.
\<close>

datatype 'a pc = Idle | SleepGet | WokenGet | Working 'a | Exited | SleepDrain | WokenDrain

fun wake :: "'a pc \<Rightarrow> 'a pc" where
  "wake SleepGet = WokenGet"
| "wake SleepDrain = WokenDrain"
| "wake p = p"

definition asleep :: "'a pc \<Rightarrow> bool" where
  "asleep p \<longleftrightarrow> p = SleepGet \<or> p = SleepDrain"

record ('w, 'a) wsys =
  ws_q :: "'a workqueue"
  ws_pc :: "'w \<Rightarrow> 'a pc"

text \<open>\<open>Signal\<close> wakes one sleeping thread of the runtime's choice, \<open>Broadcast\<close> all.\<close>

inductive notified :: "cond_effect \<Rightarrow> ('w \<Rightarrow> 'a pc) \<Rightarrow> ('w \<Rightarrow> 'a pc) \<Rightarrow> bool" where
  no_signal: "notified NoSignal pc pc"
| signal: "asleep (pc w) \<Longrightarrow> notified Signal pc (pc(w := wake (pc w)))"
| signal_none: "\<forall>w. \<not> asleep (pc w) \<Longrightarrow> notified Signal pc pc"
| broadcast: "notified Broadcast pc (\<lambda>w. wake (pc w))"

inductive_cases notified_NoSignal: "notified NoSignal pc pc'"
inductive_cases notified_Signal: "notified Signal pc pc'"
inductive_cases notified_Broadcast: "notified Broadcast pc pc'"

definition get_pc :: "'a get_out \<Rightarrow> 'a pc" where
  "get_pc out = (case out of GetWaits \<Rightarrow> SleepGet | GetItem x \<Rightarrow> Working x | GetShutdown \<Rightarrow> Exited)"

inductive ws_step :: "('w, 'a) wsys \<Rightarrow> ('w, 'a) wsys \<Rightarrow> bool" where
  Add: "wq_Add q x = (q', n) \<Longrightarrow> notified n pc pc' \<Longrightarrow>
    ws_step \<lparr>ws_q = q, ws_pc = pc\<rparr> \<lparr>ws_q = q', ws_pc = pc'\<rparr>"
| Get: "pc w = Idle \<or> pc w = WokenGet \<Longrightarrow> wq_Get q = (q', out) \<Longrightarrow>
    ws_step \<lparr>ws_q = q, ws_pc = pc\<rparr> \<lparr>ws_q = q', ws_pc = pc(w := get_pc out)\<rparr>"
| Done: "pc w = Working x \<Longrightarrow> wq_Done q x = (q', n) \<Longrightarrow> notified n (pc(w := Idle)) pc' \<Longrightarrow>
    ws_step \<lparr>ws_q = q, ws_pc = pc\<rparr> \<lparr>ws_q = q', ws_pc = pc'\<rparr>"
| ShutDown: "wq_ShutDown q = (q', n) \<Longrightarrow> notified n pc pc' \<Longrightarrow>
    ws_step \<lparr>ws_q = q, ws_pc = pc\<rparr> \<lparr>ws_q = q', ws_pc = pc'\<rparr>"
| Drain: "pc w = Idle \<Longrightarrow> wq_ShutDownWithDrain q = (q', n) \<Longrightarrow> notified n pc pc' \<Longrightarrow>
    ws_step \<lparr>ws_q = q, ws_pc = pc\<rparr>
      \<lparr>ws_q = q', ws_pc = pc'(w := if wq_drain_waits q' then SleepDrain else Idle)\<rparr>"
| Recheck: "pc w = WokenDrain \<Longrightarrow>
    ws_step \<lparr>ws_q = q, ws_pc = pc\<rparr> \<lparr>ws_q = q, ws_pc = pc(w := if wq_drain_waits q then SleepDrain else Idle)\<rparr>"

inductive ws_reachable :: "('w, 'a) wsys \<Rightarrow> bool" where
  init: "ws_reachable \<lparr>ws_q = newQueue, ws_pc = (\<lambda>_. Idle)\<rparr>"
| step: "ws_reachable s \<Longrightarrow> ws_step s s' \<Longrightarrow> ws_reachable s'"

text \<open>The items being processed are exactly those threads hold, each held by one thread.\<close>

definition held_right :: "'a set \<Rightarrow> ('w \<Rightarrow> 'a pc) \<Rightarrow> bool" where
  "held_right held pc \<longleftrightarrow> held = {x. \<exists>w. pc w = Working x} \<and>
     (\<forall>w w' x. pc w = Working x \<and> pc w' = Working x \<longrightarrow> w = w')"

text \<open>While a \<open>Get\<close> sleeps, there is a woken \<open>Get\<close> for every queued item.\<close>

definition no_lost_get :: "('w::finite, 'a) wsys \<Rightarrow> bool" where
  "no_lost_get s \<longleftrightarrow> (\<exists>w. ws_pc s w = SleepGet) \<longrightarrow>
     \<not> wq_shuttingDown (ws_q s) \<and> length (wq_queue (ws_q s)) \<le> card {w. ws_pc s w = WokenGet}"

lemma wake_Working [simp]: "wake p = Working x \<longleftrightarrow> p = Working x"
  by (cases p) auto

lemma wake_not_asleep [simp]: "wake p \<noteq> SleepGet" "wake p \<noteq> SleepDrain"
  by (cases p; simp)+

lemma wake_WokenGet: "wake p = WokenGet \<longleftrightarrow> p = SleepGet \<or> p = WokenGet"
  by (cases p) auto

lemma wake_Idle [simp]: "wake p = Idle \<longleftrightarrow> p = Idle"
  by (cases p) auto

lemma notified_Working: "notified n pc pc' \<Longrightarrow> pc' w = Working x \<longleftrightarrow> pc w = Working x"
  by (induction rule: notified.induct) auto

lemma notified_asleep: "notified n pc pc' \<Longrightarrow> pc' w = SleepGet \<Longrightarrow> pc w = SleepGet"
  "notified n pc pc' \<Longrightarrow> pc' w = SleepDrain \<Longrightarrow> pc w = SleepDrain"
  by (induction rule: notified.induct) (auto split: if_splits)

lemma held_right_notified: "notified n pc pc' \<Longrightarrow> held_right held pc' = held_right held pc"
  unfolding held_right_def by (simp add: notified_Working)

lemma card_woken_notified:
  fixes pc :: "'w::finite \<Rightarrow> 'a pc"
  assumes "notified n pc pc'"
  shows "card {w. pc w = WokenGet} \<le> card {w. pc' w = WokenGet}"
  by (rule card_mono) (use assms in \<open>auto elim!: notified.cases simp: wake_WokenGet asleep_def\<close>)

text \<open>A \<open>Signal\<close> wakes a \<open>Get\<close> when only those sleep.\<close>

lemma card_woken_Signal:
  fixes pc :: "'w::finite \<Rightarrow> 'a pc"
  assumes n: "notified Signal pc pc'" and "\<exists>w. pc w = SleepGet" and "\<forall>w. pc w \<noteq> SleepDrain"
  shows "card {w. pc' w = WokenGet} = Suc (card {w. pc w = WokenGet})"
proof -
  obtain w where w: "asleep (pc w)" "pc' = pc(w := wake (pc w))"
    using n assms(2) by (auto elim!: notified_Signal simp: asleep_def)
  then have "pc w = SleepGet" using assms(3) by (auto simp: asleep_def)
  then have "{v. pc' v = WokenGet} = insert w {v. pc v = WokenGet}" "w \<notin> {v. pc v = WokenGet}"
    using w(2) by auto
  then show ?thesis by simp
qed

definition draining :: "'a pc \<Rightarrow> bool" where
  "draining p \<longleftrightarrow> p = SleepDrain \<or> p = WokenDrain"

definition ws_inv :: "('w::finite, 'a) wsys \<Rightarrow> bool" where
  "ws_inv s \<longleftrightarrow> wq_ok (ws_q s) \<and> held_right (wq_processing (ws_q s)) (ws_pc s) \<and> no_lost_get s \<and>
     ((\<exists>w. draining (ws_pc s w)) \<longrightarrow> wq_shuttingDown (ws_q s))"

lemma notified_draining: "notified n pc pc' \<Longrightarrow> draining (pc' w) = draining (pc w)"
proof (induction rule: notified.induct)
  case (broadcast pc)
  then show ?case by (cases "pc w") (auto simp: draining_def)
qed (auto simp: draining_def asleep_def)

lemma wq_Add_effect:
  assumes "wq_Add q x = (q', n)"
  shows "n = Signal \<and> length (wq_queue q') = Suc (length (wq_queue q)) \<or> n = NoSignal \<and> wq_queue q' = wq_queue q"
  using assms by (auto simp: wq_Add_def Let_def split: if_splits)

lemma wq_Done_effect:
  assumes "wq_Done q x = (q', n)"
  shows "n = Signal \<and> length (wq_queue q') \<le> Suc (length (wq_queue q)) \<or> n = NoSignal \<and> wq_queue q' = wq_queue q"
  using assms by (auto simp: wq_Done_def Let_def split: if_splits)

lemma no_lost_get_notified:
  fixes pc :: "'w::finite \<Rightarrow> 'a pc"
  assumes lost: "no_lost_get \<lparr>ws_q = q, ws_pc = pc\<rparr>" and down: "wq_shuttingDown q' = wq_shuttingDown q"
    and drain: "(\<exists>w. draining (pc w)) \<longrightarrow> wq_shuttingDown q" and n: "notified n pc pc'"
    and eff: "n = Signal \<and> length (wq_queue q') \<le> Suc (length (wq_queue q)) \<or> n = NoSignal \<and> wq_queue q' = wq_queue q"
  shows "no_lost_get \<lparr>ws_q = q', ws_pc = pc'\<rparr>"
  unfolding no_lost_get_def
proof
  assume "\<exists>w. ws_pc \<lparr>ws_q = q', ws_pc = pc'\<rparr> w = SleepGet"
  then have sl: "\<exists>w. pc w = SleepGet" using notified_asleep(1) [OF n] by auto
  then have pre: "\<not> wq_shuttingDown q" "length (wq_queue q) \<le> card {w. pc w = WokenGet}"
    using lost by (auto simp: no_lost_get_def)
  have nd: "\<forall>w. pc w \<noteq> SleepDrain" using drain pre(1) by (auto simp: draining_def)
  have "length (wq_queue q') \<le> card {w. pc' w = WokenGet}"
  proof (cases n)
    case Signal
    then show ?thesis using card_woken_Signal [OF _ sl nd] n eff pre(2) by fastforce
  next
    case NoSignal
    then show ?thesis using card_woken_notified [OF n] eff pre(2) by fastforce
  qed (use eff in simp)
  then show "\<not> wq_shuttingDown (ws_q \<lparr>ws_q = q', ws_pc = pc'\<rparr>) \<and>
     length (wq_queue (ws_q \<lparr>ws_q = q', ws_pc = pc'\<rparr>)) \<le> card {w. ws_pc \<lparr>ws_q = q', ws_pc = pc'\<rparr> w = WokenGet}"
    using pre(1) down by simp
qed

lemma held_right_Working:
  assumes "held_right held pc" and "pc w = Working x"
  shows "held_right (held - {x}) (pc(w := Idle))"
proof -
  have "(pc(w := Idle)) v = Working y \<longleftrightarrow> pc v = Working y \<and> y \<noteq> x" for v y
    using assms unfolding held_right_def by auto
  then show ?thesis using assms(1) unfolding held_right_def by auto
qed

lemma held_right_idle:
  assumes "held_right held pc" and "\<And>x. pc w \<noteq> Working x" and "\<And>x. p \<noteq> Working x"
  shows "held_right held (pc(w := p))"
proof -
  have "(pc(w := p)) v = Working x \<longleftrightarrow> pc v = Working x" for v x using assms(2,3) by simp
  then show ?thesis using assms(1) unfolding held_right_def by simp
qed

lemma held_right_take:
  assumes "held_right held pc" and "x \<notin> held" and "\<And>y. pc w \<noteq> Working y"
  shows "held_right (insert x held) (pc(w := Working x))"
proof -
  have iff: "(pc(w := Working x)) v = Working y \<longleftrightarrow> pc v = Working y \<or> v = w \<and> y = x" for v y
    using assms(3) by auto
  have "\<not> (\<exists>v. pc v = Working x)" using assms(1,2) by (auto simp: held_right_def)
  then show ?thesis using assms(1) unfolding held_right_def iff by auto
qed

lemma ws_step_Get_inv:
  fixes pc :: "'w::finite \<Rightarrow> 'a pc"
  assumes inv: "ws_inv \<lparr>ws_q = q, ws_pc = pc\<rparr>" and w: "pc w = Idle \<or> pc w = WokenGet" and get: "wq_Get q = (q', out)"
  shows "ws_inv \<lparr>ws_q = q', ws_pc = pc(w := get_pc out)\<rparr>"
proof -
  have ok: "wq_ok q" and held: "held_right (wq_processing q) pc" and lost: "no_lost_get \<lparr>ws_q = q, ws_pc = pc\<rparr>"
    and drain: "(\<exists>w. draining (pc w)) \<longrightarrow> wq_shuttingDown q" using inv by (auto simp: ws_inv_def)
  have ok': "wq_ok q'" using wq_Get_ok [OF ok] get by simp
  have nw: "pc w \<noteq> Working y" for y using w by auto
  have nd: "\<not> draining (get_pc out)" by (simp add: get_pc_def draining_def split: get_out.split)
  show ?thesis
  proof (cases out)
    case (GetItem x)
    note item = wq_Get_item [OF ok get [unfolded GetItem]]
    have "{v. (pc(w := Working x)) v = WokenGet} = {v. pc v = WokenGet} - {w}" by auto
    then have card: "card {v. pc v = WokenGet} \<le> Suc (card {v. (pc(w := Working x)) v = WokenGet})"
      by (simp add: card_Diff_singleton_if) arith
    have "no_lost_get \<lparr>ws_q = q', ws_pc = pc(w := Working x)\<rparr>"
      unfolding no_lost_get_def
    proof
      assume "\<exists>v. ws_pc \<lparr>ws_q = q', ws_pc = pc(w := Working x)\<rparr> v = SleepGet"
      then have "\<exists>v. pc v = SleepGet" by (auto split: if_splits)
      then have "\<not> wq_shuttingDown q" "length (wq_queue q) \<le> card {v. pc v = WokenGet}"
        using lost by (auto simp: no_lost_get_def)
      then show "\<not> wq_shuttingDown (ws_q \<lparr>ws_q = q', ws_pc = pc(w := Working x)\<rparr>) \<and>
          length (wq_queue (ws_q \<lparr>ws_q = q', ws_pc = pc(w := Working x)\<rparr>))
            \<le> card {v. ws_pc \<lparr>ws_q = q', ws_pc = pc(w := Working x)\<rparr> v = WokenGet}"
        using item card by simp
    qed
    then show ?thesis
      using ok' held_right_take [OF held _ nw] item drain GetItem by (auto simp: ws_inv_def get_pc_def draining_def)
  next
    case GetWaits
    then have q: "q' = q" "wq_queue q = []" "\<not> wq_shuttingDown q" using get wq_Get_waits [of q q'] by auto
    then show ?thesis using ok held_right_idle [OF held nw] drain GetWaits
      by (auto simp: ws_inv_def get_pc_def no_lost_get_def draining_def)
  next
    case GetShutdown
    then have q: "q' = q" "wq_shuttingDown q" using get wq_Get_shutdown [of q q'] by auto
    then have "\<forall>v. pc v \<noteq> SleepGet" using lost by (auto simp: no_lost_get_def)
    then show ?thesis using ok held_right_idle [OF held nw] q GetShutdown
      by (auto simp: ws_inv_def get_pc_def no_lost_get_def)
  qed
qed

lemma ws_step_inv:
  fixes s :: "('w::finite, 'a) wsys"
  assumes "ws_step s s'" and "ws_inv s"
  shows "ws_inv s'"
  using assms
proof (induction rule: ws_step.induct)
  case (Add q x q' n pc pc')
  then have "wq_ok q'" using wq_Add_ok [of q x] by (simp add: ws_inv_def)
  moreover have "no_lost_get \<lparr>ws_q = q', ws_pc = pc'\<rparr>"
    by (rule no_lost_get_notified [of q pc])
      (use Add wq_Add_effect [OF Add(1)] wq_Add_fields(4) [of q x] in \<open>auto simp: ws_inv_def\<close>)
  moreover have "wq_processing q' = wq_processing q" "wq_shuttingDown q' = wq_shuttingDown q"
    using wq_Add_fields [of q x] Add(1) by auto
  ultimately show ?case
    using Add held_right_notified [OF Add(2)] notified_draining [OF Add(2)] by (simp add: ws_inv_def)
next
  case (Get pc w q q' out)
  then show ?case using ws_step_Get_inv by blast
next
  case (Done pc w x q q' n pc')
  let ?pc = "pc(w := Idle)"
  have inv: "wq_ok q" "held_right (wq_processing q) pc" "no_lost_get \<lparr>ws_q = q, ws_pc = pc\<rparr>"
    "(\<exists>w. draining (pc w)) \<longrightarrow> wq_shuttingDown q" using Done(4) by (auto simp: ws_inv_def)
  have same: "wq_processing q' = wq_processing q - {x}" "wq_shuttingDown q' = wq_shuttingDown q"
    using wq_Done_fields [of q x] Done(2) by auto
  have "x \<in> wq_processing q" using inv(2) Done(1) by (auto simp: held_right_def)
  then have ok': "wq_ok q'" using wq_Done_ok [OF inv(1)] Done(2) by (metis fst_conv)
  have idle: "draining (?pc v) \<longleftrightarrow> v \<noteq> w \<and> draining (pc v)" for v by (simp add: draining_def)
  have "{v. ?pc v = WokenGet} = {v. pc v = WokenGet}" using Done(1) by auto
  then have "no_lost_get \<lparr>ws_q = q, ws_pc = ?pc\<rparr>"
    using inv(3) unfolding no_lost_get_def by (auto split: if_splits)
  then have "no_lost_get \<lparr>ws_q = q', ws_pc = pc'\<rparr>"
    by (rule no_lost_get_notified [OF _ same(2) _ Done(3) wq_Done_effect [OF Done(2)]])
      (use inv(4) in \<open>auto simp: draining_def\<close>)
  moreover have "held_right (wq_processing q') pc'"
    using held_right_Working [OF inv(2) Done(1)] held_right_notified [OF Done(3)] same(1) by simp
  moreover have "(\<exists>w. draining (pc' w)) \<longrightarrow> wq_shuttingDown q'"
    using notified_draining [OF Done(3)] idle inv(4) same(2) by auto
  ultimately show ?case using ok' by (simp add: ws_inv_def)
next
  case (ShutDown q q' n pc pc')
  then have pc': "pc' = (\<lambda>w. wake (pc w))" by (auto simp: wq_ShutDown_def elim: notified_Broadcast)
  then show ?case
    using ShutDown held_right_notified [OF ShutDown(2)] wq_ShutDown_ok [of q]
    by (auto simp: ws_inv_def wq_ShutDown_def no_lost_get_def)
next
  case (Drain pc w q q' n pc')
  then have pc': "pc' = (\<lambda>w. wake (pc w))" by (auto simp: wq_ShutDownWithDrain_def elim: notified_Broadcast)
  have q': "wq_ok q'" "wq_processing q' = wq_processing q" "wq_shuttingDown q'"
    using Drain(2,4) wq_ShutDownWithDrain_ok [of q] by (auto simp: wq_ShutDownWithDrain_def ws_inv_def)
  have "held_right (wq_processing q') pc'"
    using held_right_notified [OF Drain(3)] Drain(4) q'(2) by (simp add: ws_inv_def)
  then have "held_right (wq_processing q') (pc'(w := if wq_drain_waits q' then SleepDrain else Idle))"
    by (rule held_right_idle) (use Drain(1) pc' in auto)
  moreover have "\<forall>v. (pc'(w := if wq_drain_waits q' then SleepDrain else Idle)) v \<noteq> SleepGet" using pc' by simp
  ultimately show ?case using q' by (simp add: ws_inv_def no_lost_get_def)
next
  case (Recheck pc w q)
  then have down: "wq_shuttingDown q" by (auto simp: ws_inv_def draining_def)
  have "held_right (wq_processing q) (pc(w := if wq_drain_waits q then SleepDrain else Idle))"
    by (rule held_right_idle) (use Recheck in \<open>auto simp: ws_inv_def\<close>)
  moreover have "\<forall>v. pc v \<noteq> SleepGet" using Recheck(2) down by (auto simp: ws_inv_def no_lost_get_def)
  ultimately show ?case using Recheck(2) down by (simp add: ws_inv_def no_lost_get_def)
qed

lemma ws_reachable_inv:
  fixes s :: "('w::finite, 'a) wsys"
  shows "ws_reachable s \<Longrightarrow> ws_inv s"
proof (induction rule: ws_reachable.induct)
  case init
  then show ?case
    by (auto simp: ws_inv_def held_right_def no_lost_get_def draining_def) (simp add: newQueue_def)
qed (rule ws_step_inv)

section \<open>Draining\<close>

text \<open>Runs in which only the thread \<open>d\<close> calls \<open>ShutDownWithDrain\<close>.\<close>

inductive ws_drained_by :: "'w \<Rightarrow> ('w, 'a) wsys \<Rightarrow> bool" for d where
  init: "ws_drained_by d \<lparr>ws_q = newQueue, ws_pc = (\<lambda>_. Idle)\<rparr>"
| step: "ws_drained_by d s \<Longrightarrow> ws_step s s' \<Longrightarrow> \<forall>w. w \<noteq> d \<longrightarrow> \<not> draining (ws_pc s' w) \<Longrightarrow> ws_drained_by d s'"

lemma ws_drained_by_reachable: "ws_drained_by d s \<Longrightarrow> ws_reachable s \<and> (\<forall>w. w \<noteq> d \<longrightarrow> \<not> draining (ws_pc s w))"
  by (induction rule: ws_drained_by.induct) (auto simp: draining_def intro: ws_reachable.intros)

lemma Done_wakes_drain:
  assumes sl: "pc d = SleepDrain" and only: "\<forall>w. asleep (pc w) \<longrightarrow> w = d"
    and fin: "wq_processing q' = {}" and "wq_Done q x = (q', n)" and n: "notified n pc pc'"
  shows "pc' d = WokenDrain"
proof -
  have "n = Signal" using assms(3,4) by (auto simp: wq_Done_def Let_def split: if_splits)
  then obtain w where "asleep (pc w)" "pc' = pc(w := wake (pc w))"
    using n sl by (auto elim!: notified_Signal simp: asleep_def)
  moreover from this only have "w = d" by blast
  ultimately show ?thesis using sl by simp
qed

lemma drain_step:
  fixes s :: "('w::finite, 'a) wsys"
  assumes "ws_step s s'" and "ws_inv s" and "\<forall>w. w \<noteq> d \<longrightarrow> \<not> draining (ws_pc s w)"
    and "ws_pc s d = SleepDrain \<longrightarrow> wq_drain_waits (ws_q s)" and "ws_pc s' d = SleepDrain"
  shows "wq_drain_waits (ws_q s')"
  using assms
proof (induction rule: ws_step.induct)
  case (Add q x q' n pc pc')
  then show ?case
    using notified_asleep(2) [OF Add(2), of d] wq_Add_fields(3,5) [of q x] by (simp add: wq_drain_waits_def)
next
  case (Get pc w q q' out)
  then have sl: "pc d = SleepDrain" by (auto simp: get_pc_def split: if_splits get_out.splits)
  have "wq_processing q \<subseteq> wq_processing q' \<and> wq_drain q' = wq_drain q"
    using Get(2) by (auto simp: wq_Get_def split: if_splits list.splits)
  then show ?case using Get sl by (auto simp: wq_drain_waits_def)
next
  case (Done pc w x q q' n pc')
  let ?pc = "pc(w := Idle)"
  have sl: "?pc d = SleepDrain" using notified_asleep(2) [OF Done(3), of d] Done(7) by simp
  then have sl0: "pc d = SleepDrain" by (auto split: if_splits)
  then have down: "wq_shuttingDown q" using Done(4) by (auto simp: ws_inv_def draining_def)
  then have "\<forall>v. pc v \<noteq> SleepGet" using Done(4) by (auto simp: ws_inv_def no_lost_get_def)
  then have "\<forall>v. asleep (?pc v) \<longrightarrow> v = d" using Done(5) by (auto simp: asleep_def draining_def)
  then have "wq_processing q' \<noteq> {}"
    using Done_wakes_drain [OF sl _ _ Done(2,3)] Done(7) by auto
  then show ?case
    using Done(6) sl0 wq_Done_fields(5) [of q x] Done(2) by (simp add: wq_drain_waits_def)
next
  case (ShutDown q q' n pc pc')
  then have "pc' = (\<lambda>w. wake (pc w))" by (auto simp: wq_ShutDown_def elim: notified_Broadcast)
  then show ?case using ShutDown(6) by simp
next
  case (Drain pc w q q' n pc')
  then have "pc' = (\<lambda>w. wake (pc w))" by (auto simp: wq_ShutDownWithDrain_def elim: notified_Broadcast)
  then show ?case using Drain(7) by (auto split: if_splits)
next
  case (Recheck pc w q)
  then show ?case by (auto split: if_splits)
qed

section \<open>The contract of the interface\<close>

text \<open>
  What the queues built on top of a work queue (\<open>delaying_queue.go\<close>, \<open>rate_limiting_queue.go\<close>) rely
  on: an added item is pending until somebody gets it, unless the queue is shutting down.
\<close>

locale queue_iface =
  fixes q_Add :: "'q \<Rightarrow> 'a \<Rightarrow> 'q"
    and q_ShutDown :: "'q \<Rightarrow> 'q"
    and q_ShuttingDown :: "'q \<Rightarrow> bool"
    and pending :: "'q \<Rightarrow> 'a set"
    and q_ok :: "'q \<Rightarrow> bool"
  assumes add_law: "q_ok q \<Longrightarrow> q_ok (q_Add q x) \<and>
      pending (q_Add q x) = (if q_ShuttingDown q then pending q else insert x (pending q)) \<and>
      q_ShuttingDown (q_Add q x) = q_ShuttingDown q"
    and shutdown_law: "q_ok q \<Longrightarrow> q_ok (q_ShutDown q) \<and> pending (q_ShutDown q) = pending q \<and> q_ShuttingDown (q_ShutDown q)"
begin

definition add_all :: "'a list \<Rightarrow> 'q \<Rightarrow> 'q" where
  "add_all xs q = fold (\<lambda>x q. q_Add q x) xs q"

lemma add_all_law:
  "q_ok q \<Longrightarrow> q_ok (add_all xs q) \<and>
     pending (add_all xs q) = (if q_ShuttingDown q then pending q else set xs \<union> pending q) \<and>
     q_ShuttingDown (add_all xs q) = q_ShuttingDown q"
  by (induction xs arbitrary: q) (auto simp: add_all_def add_law)

end

interpretation wq: queue_iface "\<lambda>q x. fst (wq_Add q x)" "\<lambda>q. fst (wq_ShutDown q)" wq_ShuttingDown wq_dirty wq_ok
  by unfold_locales (auto simp: wq_Add_ok wq_ShutDown_ok wq_ShuttingDown_def, auto simp: wq_ShutDown_def)

section \<open>Properties\<close>

text \<open>
  C11 Whatever the threads do, no item is worked on by two threads at once, the items in
  \<open>processing\<close> are exactly those held by threads, and the queue holds every other dirty item once.
\<close>

theorem workqueue_mutual_exclusion:
  fixes s :: "('w::finite, 'a) wsys"
  assumes "ws_reachable s"
  shows "(ws_pc s w = Working x \<longrightarrow> ws_pc s w' = Working x \<longrightarrow> w = w') \<and>
     wq_processing (ws_q s) = {x. \<exists>w. ws_pc s w = Working x} \<and>
     distinct (wq_queue (ws_q s)) \<and> set (wq_queue (ws_q s)) = wq_dirty (ws_q s) - wq_processing (ws_q s)"
  using ws_reachable_inv [OF assms] by (auto simp: ws_inv_def held_right_def wq_ok_def)

text \<open>Two threads, one item added and taken.\<close>

definition demo_wq :: "nat workqueue" where
  "demo_wq = fst (wq_Get (fst (wq_Add newQueue 7)))"

lemma demo_wq_fields:
  "wq_Add newQueue 7 = (\<lparr>wq_queue = [7], wq_dirty = {7}, wq_processing = {}, wq_shuttingDown = False, wq_drain = False\<rparr>, Signal)"
  "demo_wq = \<lparr>wq_queue = [], wq_dirty = {}, wq_processing = {7 :: nat}, wq_shuttingDown = False, wq_drain = False\<rparr>"
  by (simp_all add: demo_wq_def newQueue_def wq_Add_def wq_Get_def Let_def)

lemma demo_wq_reachable: "ws_reachable \<lparr>ws_q = demo_wq, ws_pc = (\<lambda>_ :: 'w. Idle)(w := Working 7)\<rparr>"
proof -
  let ?q1 = "fst (wq_Add newQueue (7 :: nat))" and ?idle = "\<lambda>_ :: 'w. Idle"
  have "ws_step \<lparr>ws_q = newQueue, ws_pc = ?idle\<rparr> \<lparr>ws_q = ?q1, ws_pc = ?idle\<rparr>"
    by (rule ws_step.Add [of _ 7 _ Signal]) (auto simp: demo_wq_fields(1) asleep_def intro: notified.signal_none)
  then have "ws_reachable \<lparr>ws_q = ?q1, ws_pc = ?idle\<rparr>" using ws_reachable.intros by blast
  moreover have "wq_Get ?q1 = (demo_wq, GetItem 7)"
    by (simp add: demo_wq_fields demo_wq_fields(1) wq_Get_def)
  then have "ws_step \<lparr>ws_q = ?q1, ws_pc = ?idle\<rparr> \<lparr>ws_q = demo_wq, ws_pc = ?idle(w := get_pc (GetItem 7))\<rparr>"
    by (rule ws_step.Get [rotated]) simp
  ultimately show ?thesis using ws_reachable.step by (force simp: get_pc_def)
qed

theorem workqueue_mutual_exclusion_witness:
  "\<exists>s :: (bool, nat) wsys. ws_reachable s \<and> ws_pc s True = Working 7 \<and>
     wq_processing (ws_q s) = {x. \<exists>w. ws_pc s w = Working x}"
proof -
  let ?s = "\<lparr>ws_q = demo_wq, ws_pc = (\<lambda>_. Idle)(True := Working 7)\<rparr>"
  have "wq_processing (ws_q ?s) = {x. \<exists>w. ws_pc ?s w = Working x}"
    by (rule workqueue_mutual_exclusion [OF demo_wq_reachable, THEN conjunct2, THEN conjunct1])
  moreover have "ws_pc ?s True = Working 7" by simp
  ultimately show ?thesis by (intro exI [of _ ?s] conjI demo_wq_reachable)
qed

text \<open>
  C12 No wakeup is lost: in every reachable state in which some \<open>Get\<close> sleeps the queue is not
  shutting down, and if it holds an item then a \<open>Get\<close> has been woken and will look at the queue.
\<close>

theorem workqueue_no_lost_wakeup:
  fixes s :: "('w::finite, 'a) wsys"
  assumes "ws_reachable s" and "ws_pc s w = SleepGet"
  shows "\<not> wq_ShuttingDown (ws_q s) \<and> (wq_Len (ws_q s) > 0 \<longrightarrow> (\<exists>v. ws_pc s v = WokenGet))"
proof -
  have inv: "\<not> wq_shuttingDown (ws_q s)" "length (wq_queue (ws_q s)) \<le> card {v. ws_pc s v = WokenGet}"
    using ws_reachable_inv [OF assms(1)] assms(2) by (auto simp: ws_inv_def no_lost_get_def)
  have "\<exists>v. ws_pc s v = WokenGet" if "length (wq_queue (ws_q s)) > 0"
  proof -
    have "card {v. ws_pc s v = WokenGet} > 0" by (rule less_le_trans [OF that inv(2)])
    then show ?thesis using card_gt_0_iff by (metis (mono_tags, lifting) Collect_empty_eq)
  qed
  then show ?thesis using inv(1) by (simp add: wq_ShuttingDown_def wq_Len_def)
qed

theorem workqueue_no_lost_wakeup_witness:
  "\<exists>s :: (bool, nat) wsys. ws_reachable s \<and> ws_pc s True = SleepGet \<and> \<not> wq_ShuttingDown (ws_q s)"
proof -
  let ?s = "\<lparr>ws_q = newQueue, ws_pc = (\<lambda>_. Idle)(True := SleepGet)\<rparr> :: (bool, nat) wsys"
  have "wq_Get newQueue = (newQueue, GetWaits)" by (simp add: wq_Get_def newQueue_def)
  then have "ws_step \<lparr>ws_q = newQueue, ws_pc = \<lambda>_. Idle\<rparr> \<lparr>ws_q = newQueue, ws_pc = (\<lambda>_. Idle)(True := get_pc GetWaits)\<rparr>"
    by (rule ws_step.Get [rotated]) simp
  then have "ws_step \<lparr>ws_q = newQueue, ws_pc = \<lambda>_. Idle\<rparr> ?s" by (simp add: get_pc_def)
  then have reach: "ws_reachable ?s" by (rule ws_reachable.step [OF ws_reachable.init])
  moreover have sleeps: "ws_pc ?s True = SleepGet" by simp
  moreover have "\<not> wq_ShuttingDown (ws_q ?s)"
    by (rule workqueue_no_lost_wakeup [OF reach sleeps, THEN conjunct1])
  ultimately show ?thesis by (intro exI [of _ ?s] conjI)
qed

text \<open>
  A drain by one thread is never forgotten: while it sleeps, some item is still being processed
  and the drain has not been cancelled, so the last \<open>Done\<close> or a \<open>ShutDown\<close> is still to come and wakes it.
\<close>

theorem drain_single_not_lost:
  fixes s :: "('w::finite, 'a) wsys"
  assumes "ws_drained_by d s" and "ws_pc s d = SleepDrain"
  shows "wq_drain_waits (ws_q s) \<and> (\<exists>w x. ws_pc s w = Working x)"
proof -
  have "ws_pc s d = SleepDrain \<longrightarrow> wq_drain_waits (ws_q s)"
    using assms(1)
  proof (induction rule: ws_drained_by.induct)
    case (step s s')
    have "ws_inv s" using ws_drained_by_reachable [OF step(1)] ws_reachable_inv by blast
    then show ?case
      using drain_step [OF step(2) _ _ step(4)] ws_drained_by_reachable [OF step(1)] by blast
  qed simp
  then have waits: "wq_drain_waits (ws_q s)" using assms(2) by simp
  have "held_right (wq_processing (ws_q s)) (ws_pc s)"
    using ws_reachable_inv ws_drained_by_reachable [OF assms(1)] by (auto simp: ws_inv_def)
  then show ?thesis using waits by (auto simp: held_right_def wq_drain_waits_def)
qed

definition demo_draining :: "nat workqueue" where
  "demo_draining = fst (wq_ShutDownWithDrain demo_wq)"

lemma demo_draining_fields:
  "wq_ShutDownWithDrain demo_wq = (demo_draining, Broadcast)" "wq_drain_waits demo_draining"
  "wq_ShutDownWithDrain demo_draining = (demo_draining, Broadcast)"
  by (simp_all add: demo_draining_def wq_ShutDownWithDrain_def demo_wq_fields wq_drain_waits_def)

lemma demo_drain_step:
  assumes "pc d = Idle" and "wq_ShutDownWithDrain q = (demo_draining, Broadcast)"
  shows "ws_step \<lparr>ws_q = q, ws_pc = pc\<rparr> \<lparr>ws_q = demo_draining, ws_pc = (\<lambda>w. wake (pc w))(d := SleepDrain)\<rparr>"
  using ws_step.Drain [of pc d, OF assms notified.broadcast [of pc]] demo_draining_fields(2) by simp

theorem drain_single_not_lost_witness:
  "\<exists>s :: (bool, nat) wsys. ws_drained_by False s \<and> ws_pc s False = SleepDrain \<and> wq_drain_waits (ws_q s)"
proof -
  let ?pc = "(\<lambda>_. Idle)(True := Working (7 :: nat))"
  let ?q1 = "fst (wq_Add newQueue (7 :: nat))"
  have 1: "ws_drained_by False \<lparr>ws_q = ?q1, ws_pc = \<lambda>_ :: bool. Idle\<rparr>"
    by (rule ws_drained_by.step [OF ws_drained_by.init], rule ws_step.Add [of _ 7 _ Signal])
      (auto simp: demo_wq_fields(1) asleep_def draining_def intro: notified.signal_none)
  have "wq_Get ?q1 = (demo_wq, GetItem 7)" by (simp add: demo_wq_fields demo_wq_fields(1) wq_Get_def)
  then have "ws_step \<lparr>ws_q = ?q1, ws_pc = \<lambda>_. Idle\<rparr> \<lparr>ws_q = demo_wq, ws_pc = (\<lambda>_. Idle)(True := get_pc (GetItem 7))\<rparr>"
    by (rule ws_step.Get [rotated]) simp
  then have "ws_step \<lparr>ws_q = ?q1, ws_pc = \<lambda>_. Idle\<rparr> \<lparr>ws_q = demo_wq, ws_pc = ?pc\<rparr>" by (simp add: get_pc_def)
  then have 2: "ws_drained_by False \<lparr>ws_q = demo_wq, ws_pc = ?pc\<rparr>"
    by (rule ws_drained_by.step [OF 1]) (simp add: draining_def)
  have 3: "ws_drained_by False \<lparr>ws_q = demo_draining, ws_pc = (\<lambda>w. wake (?pc w))(False := SleepDrain)\<rparr>"
    by (rule ws_drained_by.step [OF 2 demo_drain_step]) (auto simp: demo_draining_fields draining_def)
  have "wq_drain_waits demo_draining" using drain_single_not_lost [OF 3] by simp
  then show ?thesis using 3 by force
qed

text \<open>
  Items leave in the order they entered: over any sequence of calls that respects the contract,
  the items returned by \<open>Get\<close> followed by what is still queued are the items queued at the start
  followed by those queued since. Every step refines the sets of pending and held items: \<open>Add\<close> makes an item
  pending, \<open>Get\<close> moves a pending item that nobody holds, \<open>Done\<close> only releases it.
\<close>

theorem workqueue_fifo_refines:
  assumes "wq_run newQueue calls = Some (q, got)" and "wq_apply q call = Some (q', got')"
  shows "wq_ok q \<and> wq_abs q' = wq_spec (wq_abs q) call got' \<and> set got' \<subseteq> wq_dirty q - wq_processing q \<and>
     (\<exists>new. wq_queue q @ new = got' @ wq_queue q')"
proof -
  have ok: "wq_ok q" using wq_run_ok [OF wq_ok_new assms(1)] by simp
  then show ?thesis using wq_apply_ok [OF ok assms(2)] by blast
qed

theorem workqueue_fifo_refines_witness:
  "\<exists>q. wq_run newQueue [WAdd (1::nat), WAdd 2, WGet, WAdd 1] = Some (q, [1]) \<and> wq_queue q = [2] \<and> wq_ok q"
proof -
  obtain q where q: "wq_run newQueue [WAdd (1::nat), WAdd 2, WGet, WAdd 1] = Some (q, [1])" "wq_queue q = [2]"
    by (simp add: newQueue_def wq_Add_def wq_Get_def Let_def)
  have "wq_apply q WShutDown = Some (fst (wq_ShutDown q), [])" by simp
  then have "wq_ok q" using workqueue_fifo_refines [OF q(1)] by blast
  then show ?thesis using q by blast
qed

lemma drain_returns_early:
  "\<exists>s s' :: (nat, nat) wsys. ws_reachable s \<and> ws_step s s' \<and> wq_drain (ws_q s') \<and> \<not> wq_drain (ws_q s) \<and>
      (\<forall>w. ws_pc s' w = Idle) \<and> wq_queue (ws_q s') = [7]"
proof -
  let ?idle = "\<lambda>_ :: nat. (Idle :: nat pc)" and ?q1 = "fst (wq_Add newQueue (7 :: nat))"
  have "ws_step \<lparr>ws_q = newQueue, ws_pc = ?idle\<rparr> \<lparr>ws_q = ?q1, ws_pc = ?idle\<rparr>"
    by (rule ws_step.Add [of _ 7 _ Signal]) (auto simp: demo_wq_fields(1) asleep_def intro: notified.signal_none)
  then have reach: "ws_reachable \<lparr>ws_q = ?q1, ws_pc = ?idle\<rparr>" using ws_reachable.intros by blast
  define q2 where "q2 = fst (wq_ShutDownWithDrain ?q1)"
  have q2: "wq_ShutDownWithDrain ?q1 = (q2, Broadcast)" "\<not> wq_drain_waits q2" "wq_drain q2" "wq_queue q2 = [7]"
    by (simp_all add: q2_def wq_ShutDownWithDrain_def demo_wq_fields(1) wq_drain_waits_def)
  have idle: "(\<lambda>w. wake (?idle w)) = ?idle" by simp
  have "ws_step \<lparr>ws_q = ?q1, ws_pc = ?idle\<rparr> \<lparr>ws_q = q2, ws_pc = ?idle(0 := Idle)\<rparr>"
    using ws_step.Drain [of ?idle 0, OF refl q2(1) notified.broadcast [of ?idle]] q2(2) by simp
  moreover have "?idle(0 := Idle) = ?idle" by (rule fun_upd_triv)
  ultimately have "ws_step \<lparr>ws_q = ?q1, ws_pc = ?idle\<rparr> \<lparr>ws_q = q2, ws_pc = ?idle\<rparr>" by simp
  then show ?thesis
    using reach q2
    by (intro exI [of _ "\<lparr>ws_q = ?q1, ws_pc = ?idle\<rparr>"] exI [of _ "\<lparr>ws_q = q2, ws_pc = ?idle\<rparr>"])
      (simp add: demo_wq_fields(1))
qed

lemma drain_second_sleeper:
  "\<exists>s :: (nat, nat) wsys. ws_reachable s \<and> wq_queue (ws_q s) = [] \<and> wq_processing (ws_q s) = {} \<and>
      ws_pc s = (\<lambda>_. Idle)(2 := SleepDrain)"
proof -
  let ?idle = "\<lambda>_ :: nat. (Idle :: nat pc)"
  let ?s1 = "\<lparr>ws_q = demo_wq, ws_pc = ?idle(0 := Working 7)\<rparr>"
  let ?s2 = "\<lparr>ws_q = demo_draining, ws_pc = ?idle(0 := Working 7, 1 := SleepDrain)\<rparr>"
  let ?s3 = "\<lparr>ws_q = demo_draining, ws_pc = ?idle(0 := Working 7, 1 := WokenDrain, 2 := SleepDrain)\<rparr>"
  let ?s4 = "\<lparr>ws_q = demo_draining, ws_pc = ?idle(0 := Working 7, 1 := SleepDrain, 2 := SleepDrain)\<rparr>"
  define q' where "q' = fst (wq_Done demo_draining 7)"
  have q': "wq_Done demo_draining 7 = (q', Signal)" "wq_queue q' = []" "wq_processing q' = {}"
    by (simp_all add: q'_def wq_Done_def demo_draining_def wq_ShutDownWithDrain_def demo_wq_fields)
  let ?s5 = "\<lparr>ws_q = q', ws_pc = ?idle(1 := WokenDrain, 2 := SleepDrain)\<rparr>"
  have 1: "ws_reachable ?s1" by (rule demo_wq_reachable)
  have "(\<lambda>w. wake ((?idle(0 := Working 7)) w))(1 := SleepDrain) = ?idle(0 := Working 7, 1 := SleepDrain)"
    by (auto simp: fun_eq_iff)
  then have "ws_step ?s1 ?s2"
    using demo_drain_step [of "?idle(0 := Working 7)" 1 demo_wq] demo_draining_fields(1) by simp
  then have 2: "ws_reachable ?s2" by (rule ws_reachable.step [OF 1])
  have "(\<lambda>w. wake ((?idle(0 := Working 7, 1 := SleepDrain)) w))(2 := SleepDrain) =
      ?idle(0 := Working 7, 1 := WokenDrain, 2 := SleepDrain)" by (auto simp: fun_eq_iff)
  then have "ws_step ?s2 ?s3"
    using demo_drain_step [of "?idle(0 := Working 7, 1 := SleepDrain)" 2 demo_draining] demo_draining_fields(3) by simp
  then have 3: "ws_reachable ?s3" by (rule ws_reachable.step [OF 2])
  have "ws_step ?s3 ?s4"
    using ws_step.Recheck [of "?idle(0 := Working 7, 1 := WokenDrain, 2 := SleepDrain)" 1 demo_draining]
      demo_draining_fields(2) by (simp add: fun_upd_twist)
  then have 4: "ws_reachable ?s4" by (rule ws_reachable.step [OF 3])
  have "notified Signal (?idle(1 := SleepDrain, 2 := SleepDrain)) (?idle(1 := WokenDrain, 2 := SleepDrain))"
    using notified.signal [of "?idle(1 := SleepDrain, 2 := SleepDrain)" 1] by (simp add: asleep_def fun_upd_twist)
  moreover have "(?idle(0 := Working 7, 1 := SleepDrain, 2 := SleepDrain))(0 := Idle) = ?idle(1 := SleepDrain, 2 := SleepDrain)"
    by (auto simp: fun_eq_iff)
  ultimately have "ws_step ?s4 ?s5"
    using ws_step.Done [of "?idle(0 := Working 7, 1 := SleepDrain, 2 := SleepDrain)" 0 7, OF _ q'(1)] by simp
  then have 5: "ws_reachable ?s5" by (rule ws_reachable.step [OF 4])
  have "\<not> wq_drain_waits q'" using q'(3) by (simp add: wq_drain_waits_def)
  moreover have "(?idle(1 := WokenDrain, 2 := SleepDrain))(1 := Idle) = ?idle(2 := SleepDrain)" by (auto simp: fun_eq_iff)
  ultimately have "ws_step ?s5 \<lparr>ws_q = q', ws_pc = ?idle(2 := SleepDrain)\<rparr>"
    using ws_step.Recheck [of "?idle(1 := WokenDrain, 2 := SleepDrain)" 1 q'] by simp
  then have "ws_reachable \<lparr>ws_q = q', ws_pc = ?idle(2 := SleepDrain)\<rparr>" by (rule ws_reachable.step [OF 5])
  then show ?thesis using q'(2,3)
    by (intro exI [of _ "\<lparr>ws_q = q', ws_pc = ?idle(2 := SleepDrain)\<rparr>"]) simp
qed

text \<open>
  C35 The limits of \<open>ShutDownWithDrain\<close>. Its comment promises to return once the workers have called
  \<open>Done\<close> on all items in the queue; it waits only for the items being processed, so a run exists in
  which it returns at once with an item queued. And the last \<open>Done\<close> signals only one waiting thread: of two
  threads that drain at the same time, one can be left asleep with nothing queued or processed.
\<close>

theorem drain_limits:
  "(\<exists>s s' :: (nat, nat) wsys. ws_reachable s \<and> ws_step s s' \<and> wq_drain (ws_q s') \<and> \<not> wq_drain (ws_q s) \<and>
      (\<forall>w. ws_pc s' w = Idle) \<and> wq_queue (ws_q s') = [7]) \<and>
   (\<exists>s :: (nat, nat) wsys. ws_reachable s \<and> wq_queue (ws_q s) = [] \<and> wq_processing (ws_q s) = {} \<and>
      ws_pc s = (\<lambda>_. Idle)(2 := SleepDrain))"
  using drain_returns_early drain_second_sleeper by (rule conjI)

end
