(* ===== verification/DelayingQueue.thy ===== *)
theory DelayingQueue
  imports GoHeap WorkQueue
begin

text \<open>
  \<open>util/workqueue/delaying_queue.go\<close>: a work queue to which an item can be added after a delay. Clients
  send entries through a channel to the goroutine \<open>waitingLoop\<close>, which keeps them in a heap by the time
  they are ready and adds them to the embedded queue.

  The heap holds pointers to entries that the map \<open>waitingEntryByData\<close> holds too, and \<open>insert\<close> changes
  an entry through the map's pointer before it repairs the heap, so the model has a store of entries
  by address. Times are integers. The clock's readings and the choices of \<open>select\<close> are arguments.

  The lemmas: the loop never panics; it refines a map from items to the earliest time requested
  for them: an item is added to the queue at the first iteration at or after that time, never before, and none is
  forgotten; the timer is set for the earliest one.
\<close>

section \<open>The priority queue\<close>

type_synonym time = int
type_synonym ptr = nat

record 'a waitFor =
  wf_data :: 'a
  wf_readyAt :: time
  wf_index :: int

record 'a waitPQ =
  pq_heap :: "ptr \<Rightarrow> 'a waitFor option"
  pq_list :: "ptr list"

definition pq_Len :: "'a waitPQ \<Rightarrow> nat" where
  "pq_Len pq = length (pq_list pq)"

definition pq_entry :: "'a waitPQ \<Rightarrow> nat \<Rightarrow> 'a waitFor option" where
  "pq_entry pq i = (if i < length (pq_list pq) then pq_heap pq (pq_list pq ! i) else None)"

definition pq_Less :: "'a waitPQ \<Rightarrow> nat \<Rightarrow> nat \<Rightarrow> bool option" where
  "pq_Less pq i j =
     (case (pq_entry pq i, pq_entry pq j) of
        (Some a, Some b) \<Rightarrow> Some (wf_readyAt a < wf_readyAt b)
      | _ \<Rightarrow> None)"

definition pq_set_index :: "'a waitPQ \<Rightarrow> ptr \<Rightarrow> int \<Rightarrow> 'a waitPQ option" where
  "pq_set_index pq p i =
     (case pq_heap pq p of
        None \<Rightarrow> None
      | Some e \<Rightarrow> Some (pq\<lparr>pq_heap := (pq_heap pq)(p \<mapsto> e\<lparr>wf_index := i\<rparr>)\<rparr>))"

definition pq_Swap :: "'a waitPQ \<Rightarrow> nat \<Rightarrow> nat \<Rightarrow> 'a waitPQ option" where
  "pq_Swap pq i j =
     (if i < length (pq_list pq) \<and> j < length (pq_list pq)
      then let pq1 = pq\<lparr>pq_list := list_swap (pq_list pq) i j\<rparr> in
           case pq_set_index pq1 (pq_list pq1 ! i) (int i) of
             None \<Rightarrow> None
           | Some pq2 \<Rightarrow> pq_set_index pq2 (pq_list pq1 ! j) (int j)
      else None)"

text \<open>\<open>Push\<close> gets a pointer to an entry; on a dangling one, which no caller passes, nothing happens.\<close>

definition pq_Push :: "'a waitPQ \<Rightarrow> ptr \<Rightarrow> 'a waitPQ" where
  "pq_Push pq p =
     (case pq_set_index pq p (int (length (pq_list pq))) of
        None \<Rightarrow> pq
      | Some pq1 \<Rightarrow> pq1\<lparr>pq_list := pq_list pq @ [p]\<rparr>)"

definition pq_Pop :: "'a waitPQ \<Rightarrow> ('a waitPQ \<times> ptr) option" where
  "pq_Pop pq =
     (if pq_list pq = [] then None
      else let p = last (pq_list pq) in
           case pq_set_index pq p (-1) of
             None \<Rightarrow> None
           | Some pq1 \<Rightarrow> Some (pq1\<lparr>pq_list := butlast (pq_list pq)\<rparr>, p))"

definition pq_Peek :: "'a waitPQ \<Rightarrow> ptr option" where
  "pq_Peek pq = (if pq_list pq = [] then None else Some (pq_list pq ! 0))"

section \<open>The delaying queue\<close>

text \<open>The methods of the embedded \<open>Interface\<close> that the delaying queue calls.\<close>

record ('q, 'a) queue_methods =
  qm_Add :: "'q \<Rightarrow> 'a \<Rightarrow> 'q"
  qm_ShutDown :: "'q \<Rightarrow> 'q"
  qm_ShuttingDown :: "'q \<Rightarrow> bool"

text \<open>
  The state of a \<open>delayingType\<close> and of the local variables of its \<open>waitingLoop\<close>; \<open>dq_stopped\<close> is the
  closed \<open>stopCh\<close>, \<open>dq_ch\<close> the entries in \<open>waitingForAddCh\<close>, \<open>dq_next\<close> the next fresh address.
\<close>

record ('q, 'a) delaying =
  dq_q :: 'q
  dq_stopped :: bool
  dq_ch :: "ptr list"
  dq_pq :: "'a waitPQ"
  dq_known :: "'a \<Rightarrow> ptr option"
  dq_next :: ptr

definition newDelayingQueue :: "'q \<Rightarrow> ('q, 'a) delaying" where
  "newDelayingQueue q = \<lparr>dq_q = q, dq_stopped = False, dq_ch = [], dq_pq = \<lparr>pq_heap = Map.empty, pq_list = []\<rparr>,
     dq_known = Map.empty, dq_next = 0\<rparr>"

definition dq_ShutDown :: "('q, 'a) queue_methods \<Rightarrow> ('q, 'a) delaying \<Rightarrow> ('q, 'a) delaying" where
  "dq_ShutDown m d =
     (if dq_stopped d then d else d\<lparr>dq_q := qm_ShutDown m (dq_q d), dq_stopped := True\<rparr>)"

definition chan_size :: nat where
  "chan_size = 1000"

definition dq_send :: "('q, 'a) delaying \<Rightarrow> 'a \<Rightarrow> time \<Rightarrow> ('q, 'a) delaying" where
  "dq_send d item readyAt =
     d\<lparr>dq_pq := (dq_pq d)\<lparr>pq_heap := (pq_heap (dq_pq d))(dq_next d \<mapsto> \<lparr>wf_data = item, wf_readyAt = readyAt, wf_index = 0\<rparr>)\<rparr>,
       dq_ch := dq_ch d @ [dq_next d], dq_next := Suc (dq_next d)\<rparr>"

text \<open>
  \<open>AddAfter\<close> at clock reading \<open>now\<close>; \<open>send\<close> is the choice of \<open>select\<close> when both its cases are ready.
  \<open>None\<close> is blocking: the channel is full and nobody has stopped the queue.
\<close>

definition dq_AddAfter ::
  "('q, 'a) queue_methods \<Rightarrow> time \<Rightarrow> bool \<Rightarrow> ('q, 'a) delaying \<Rightarrow> 'a \<Rightarrow> int \<Rightarrow> ('q, 'a) delaying option"
where
  "dq_AddAfter m now send d item duration =
     (if qm_ShuttingDown m (dq_q d) then Some d
      else if duration \<le> 0 then Some (d\<lparr>dq_q := qm_Add m (dq_q d) item\<rparr>)
      else let room = length (dq_ch d) < chan_size in
           if dq_stopped d \<and> \<not> (room \<and> send) then Some d
           else if room then Some (dq_send d item (now + duration))
           else None)"

abbreviation pq_heap_Push where "pq_heap_Push \<equiv> heap_Push pq_Less pq_Swap pq_Len pq_Push"
abbreviation pq_heap_Pop where "pq_heap_Pop \<equiv> heap_Pop pq_Less pq_Swap pq_Len pq_Pop"
abbreviation pq_heap_Fix where "pq_heap_Fix \<equiv> heap_Fix pq_Less pq_Swap pq_Len"

text \<open>\<open>insert\<close>: a new entry is pushed, a known one moved forward if the new time is earlier.\<close>

definition dq_insert :: "('q, 'a) delaying \<Rightarrow> ptr \<Rightarrow> ('q, 'a) delaying option" where
  "dq_insert d p =
     (case pq_heap (dq_pq d) p of
        None \<Rightarrow> None
      | Some entry \<Rightarrow>
          (case dq_known d (wf_data entry) of
             Some ep \<Rightarrow>
               (case pq_heap (dq_pq d) ep of
                  None \<Rightarrow> None
                | Some existing \<Rightarrow>
                    if wf_readyAt existing > wf_readyAt entry
                    then map_option (\<lambda>pq. d\<lparr>dq_pq := pq\<rparr>)
                      (pq_heap_Fix ((dq_pq d)\<lparr>pq_heap := (pq_heap (dq_pq d))(ep \<mapsto> existing\<lparr>wf_readyAt := wf_readyAt entry\<rparr>)\<rparr>)
                         (nat (wf_index existing)))
                    else Some d)
           | None \<Rightarrow>
               map_option (\<lambda>pq. d\<lparr>dq_pq := pq, dq_known := (dq_known d)(wf_data entry \<mapsto> p)\<rparr>)
                 (pq_heap_Push (dq_pq d) p)))"

text \<open>What the loop does with one entry it received, at clock reading \<open>now\<close>.\<close>

definition dq_handle ::
  "('q, 'a) queue_methods \<Rightarrow> time \<Rightarrow> ('q, 'a) delaying \<Rightarrow> ptr \<Rightarrow> ('q, 'a) delaying option"
where
  "dq_handle m now d p =
     (case pq_heap (dq_pq d) p of
        None \<Rightarrow> None
      | Some entry \<Rightarrow>
          if wf_readyAt entry > now then dq_insert d p
          else Some (d\<lparr>dq_q := qm_Add m (dq_q d) (wf_data entry)\<rparr>))"

text \<open>The two receiving loops of the last case of \<open>select\<close>: the clock is read anew for each entry.\<close>

fun dq_receive ::
  "('q, 'a) queue_methods \<Rightarrow> (nat \<Rightarrow> time) \<Rightarrow> ptr list \<Rightarrow> ('q, 'a) delaying \<Rightarrow> ('q, 'a) delaying option"
where
  "dq_receive m clock [] d = Some d"
| "dq_receive m clock (p # ps) d =
     (case dq_handle m (clock 0) d p of
        None \<Rightarrow> None
      | Some d' \<Rightarrow> dq_receive m (\<lambda>i. clock (Suc i)) ps d')"

lemma pq_Swap_length: "pq_Swap pq i j = Some pq' \<Longrightarrow> length (pq_list pq') = length (pq_list pq)"
  by (auto simp: pq_Swap_def pq_set_index_def Let_def split: if_splits option.splits)

lemma pq_heap_Pop_length:
  assumes "pq_heap_Pop pq = Some (pq', p)"
  shows "length (pq_list pq') < length (pq_list pq)"
proof -
  obtain pq1 pq2 k where s: "pq_Swap pq 0 (pq_Len pq - 1) = Some pq1"
    "heap_down_loop pq_Less pq_Swap pq1 0 (pq_Len pq - 1) = Some (pq2, k)" "pq_Pop pq2 = Some (pq', p)"
    using assms by (auto simp: heap_Pop_def heap_down_def Let_def split: option.splits)
  have "length (pq_list pq1) = length (pq_list pq)" by (rule pq_Swap_length [OF s(1)])
  moreover have "length (pq_list pq2) = length (pq_list pq1)"
    by (rule heap_down_loop_keeps [OF _ s(2)]) (metis pq_Swap_length, simp)
  moreover have "length (pq_list pq') < length (pq_list pq2)"
    using s(3) by (auto simp: pq_Pop_def pq_set_index_def Let_def split: if_splits option.splits)
  ultimately show ?thesis by simp
qed

text \<open>The loop that adds the ready entries.\<close>

function dq_add_ready ::
  "('q, 'a) queue_methods \<Rightarrow> time \<Rightarrow> ('q, 'a) delaying \<Rightarrow> ('q, 'a) delaying option"
where
  "dq_add_ready m now d =
     (if pq_Len (dq_pq d) = 0 then Some d
      else case pq_entry (dq_pq d) 0 of
             None \<Rightarrow> None
           | Some entry \<Rightarrow>
               if wf_readyAt entry > now then Some d
               else case pq_heap_Pop (dq_pq d) of
                      None \<Rightarrow> None
                    | Some (pq, p) \<Rightarrow>
                        (case pq_heap pq p of
                           None \<Rightarrow> None
                         | Some popped \<Rightarrow>
                             dq_add_ready m now
                               (d\<lparr>dq_pq := pq, dq_q := qm_Add m (dq_q d) (wf_data popped),
                                  dq_known := (dq_known d)(wf_data popped := None)\<rparr>)))"
  by pat_completeness auto
termination
  by (relation "measure (\<lambda>(_, _, d). length (pq_list (dq_pq d)))") (auto dest: pq_heap_Pop_length)

declare dq_add_ready.simps [simp del]

text \<open>The delay the loop sets its timer to.\<close>

definition dq_timer :: "time \<Rightarrow> ('q, 'a) delaying \<Rightarrow> int option" where
  "dq_timer now d =
     (if pq_Len (dq_pq d) > 0 then map_option (\<lambda>entry. wf_readyAt entry - now) (pq_entry (dq_pq d) 0) else None)"

text \<open>
  One iteration of \<open>waitingLoop\<close>: the clock reading at its start, which case of its \<open>select\<close> fires, and
  for the receiving case the clock readings. The result says whether the loop goes on.
\<close>

datatype select_case = StopCh | Heartbeat | NextReadyAt | WaitingForAdd "nat \<Rightarrow> time"

definition maxWait :: int where
  "maxWait = 10 * 1000000000"

definition dq_iteration ::
  "('q, 'a) queue_methods \<Rightarrow> time \<Rightarrow> select_case \<Rightarrow> ('q, 'a) delaying \<Rightarrow> (('q, 'a) delaying \<times> bool) option"
where
  "dq_iteration m now sel d =
     (if qm_ShuttingDown m (dq_q d) then Some (d, False)
      else case dq_add_ready m now d of
             None \<Rightarrow> None
           | Some d1 \<Rightarrow>
               (case sel of
                  StopCh \<Rightarrow> Some (d1, False)
                | Heartbeat \<Rightarrow> Some (d1, True)
                | NextReadyAt \<Rightarrow> Some (d1, True)
                | WaitingForAdd clock \<Rightarrow>
                    map_option (\<lambda>d2. (d2, True)) (dq_receive m clock (dq_ch d1) (d1\<lparr>dq_ch := []\<rparr>))))"

section \<open>The heap laws\<close>

definition pq_contents :: "'a waitPQ \<Rightarrow> ptr \<Rightarrow> ('a \<times> time) option" where
  "pq_contents pq p = map_option (\<lambda>e. (wf_data e, wf_readyAt e)) (pq_heap pq p)"

definition pq_view :: "'a waitPQ \<Rightarrow> (ptr \<times> ('a \<times> time) option) list" where
  "pq_view pq = map (\<lambda>p. (p, pq_contents pq p)) (pq_list pq)"

text \<open>The entries the addresses hold are \<open>c\<close>, and every listed entry knows its position.\<close>

definition pq_ok :: "(ptr \<Rightarrow> ('a \<times> time) option) \<Rightarrow> 'a waitPQ \<Rightarrow> bool" where
  "pq_ok c pq \<longleftrightarrow> pq_contents pq = c \<and> distinct (pq_list pq) \<and>
     (\<forall>i < length (pq_list pq). map_option wf_index (pq_heap pq (pq_list pq ! i)) = Some (int i))"

definition sooner :: "ptr \<times> ('a \<times> time) option \<Rightarrow> ptr \<times> ('a \<times> time) option \<Rightarrow> bool" where
  "sooner a b \<longleftrightarrow> snd (the (snd a)) < snd (the (snd b))"

lemma strict_weak_order_sooner: "strict_weak_order sooner"
  unfolding sooner_def by (rule strict_weak_order_key [OF strict_weak_order_less])

lemma length_pq_view [simp]: "length (pq_view pq) = length (pq_list pq)"
  by (simp add: pq_view_def)

lemma nth_pq_view: "i < length (pq_list pq) \<Longrightarrow> pq_view pq ! i = (pq_list pq ! i, pq_contents pq (pq_list pq ! i))"
  by (simp add: pq_view_def)

lemma pq_ok_entry:
  assumes "pq_ok c pq" and "i < length (pq_list pq)"
  shows "\<exists>e. pq_heap pq (pq_list pq ! i) = Some e \<and> wf_index e = int i \<and>
     c (pq_list pq ! i) = Some (wf_data e, wf_readyAt e)"
  using assms by (force simp: pq_ok_def pq_contents_def)

lemma pq_set_index_contents:
  "pq_set_index pq p i = Some pq' \<Longrightarrow> pq_contents pq' = pq_contents pq \<and> pq_list pq' = pq_list pq"
  by (auto simp: pq_set_index_def pq_contents_def fun_eq_iff split: option.splits)

lemma pq_Swap_law:
  assumes ok: "pq_ok c pq" and i: "i < length (pq_view pq)" and j: "j < length (pq_view pq)"
  shows "\<exists>pq'. pq_Swap pq i j = Some pq' \<and> pq_ok c pq' \<and> pq_view pq' = list_swap (pq_view pq) i j"
proof -
  let ?l = "pq_list pq"
  have ij: "i < length ?l" "j < length ?l" using i j by auto
  obtain ei ej where e: "pq_heap pq (?l ! i) = Some ei" "pq_heap pq (?l ! j) = Some ej"
    using pq_ok_entry [OF ok] ij by meson
  have dist: "distinct ?l" using ok by (simp add: pq_ok_def)
  have nth: "list_swap ?l i j ! i = ?l ! j" "list_swap ?l i j ! j = ?l ! i"
    using ij by (auto simp: nth_list_swap)
  define h1 where "h1 = (pq_heap pq)(?l ! j \<mapsto> ej\<lparr>wf_index := int i\<rparr>)"
  define ei' where "ei' = (if i = j then ej\<lparr>wf_index := int i\<rparr> else ei)"
  define h2 where "h2 = h1(?l ! i \<mapsto> ei'\<lparr>wf_index := int j\<rparr>)"
  define pq' where "pq' = \<lparr>pq_heap = h2, pq_list = list_swap ?l i j\<rparr>"
  have inj: "?l ! i = ?l ! j \<longleftrightarrow> i = j" using dist ij by (simp add: nth_eq_iff_index_eq)
  have h1i: "h1 (?l ! i) = Some ei'" using e inj by (auto simp: h1_def ei'_def)
  have "pq_set_index (pq\<lparr>pq_list := list_swap ?l i j\<rparr>) (?l ! j) (int i) =
      Some (pq\<lparr>pq_list := list_swap ?l i j, pq_heap := h1\<rparr>)"
    using e(2) by (simp add: pq_set_index_def h1_def)
  moreover have "pq_set_index (pq\<lparr>pq_list := list_swap ?l i j, pq_heap := h1\<rparr>) (?l ! i) (int j) = Some pq'"
    using h1i by (simp add: pq_set_index_def pq'_def h2_def)
  ultimately have swap: "pq_Swap pq i j = Some pq'"
    using ij by (simp add: pq_Swap_def Let_def nth)
  have cont: "pq_contents pq' = pq_contents pq"
    using e inj by (auto simp: pq_contents_def pq'_def h2_def h1_def ei'_def fun_eq_iff)
  have "map_option wf_index (h2 (list_swap ?l i j ! k)) = Some (int k)" if k: "k < length ?l" for k
    using pq_ok_entry [OF ok k] ij k e inj dist
    by (auto simp: h2_def h1_def ei'_def nth_list_swap nth_eq_iff_index_eq)
  then have "pq_ok c pq'" using ok cont ij dist by (simp add: pq_ok_def pq'_def)
  moreover have "pq_view pq' = list_swap (pq_view pq) i j"
    using ij cont by (simp add: pq_view_def map_list_swap pq'_def)
  ultimately show ?thesis using swap by blast
qed

lemma pq_Push_law:
  assumes ok: "pq_ok c pq" and fresh: "p \<notin> set (pq_list pq) \<and> pq_heap pq p \<noteq> None"
  shows "pq_ok c (pq_Push pq p) \<and> pq_view (pq_Push pq p) = pq_view pq @ [(p, pq_contents pq p)]"
proof -
  obtain e where e: "pq_heap pq p = Some e" using fresh by blast
  define pq' where "pq' = pq\<lparr>pq_heap := (pq_heap pq)(p \<mapsto> e\<lparr>wf_index := int (length (pq_list pq))\<rparr>),
      pq_list := pq_list pq @ [p]\<rparr>"
  have push: "pq_Push pq p = pq'" using e by (simp add: pq_Push_def pq_set_index_def pq'_def)
  have cont: "pq_contents pq' = pq_contents pq" using e by (auto simp: pq_contents_def pq'_def fun_eq_iff)
  have "map_option wf_index (pq_heap pq' (pq_list pq' ! k)) = Some (int k)" if "k < length (pq_list pq')" for k
  proof (cases "k < length (pq_list pq)")
    case True
    then have "pq_list pq ! k \<noteq> p" using fresh nth_mem by blast
    then show ?thesis using pq_ok_entry [OF ok True] True by (auto simp: pq'_def nth_append)
  next
    case False
    then show ?thesis using that by (simp add: pq'_def nth_append less_Suc_eq)
  qed
  then have "pq_ok c pq'" using ok cont fresh by (simp add: pq_ok_def) (simp add: pq'_def)
  then show ?thesis using push cont by (simp add: pq_view_def) (simp add: pq'_def)
qed

lemma pq_Pop_law:
  assumes ok: "pq_ok c pq" and ne: "pq_view pq \<noteq> []"
  shows "\<exists>pq'. pq_Pop pq = Some (pq', fst (last (pq_view pq))) \<and> pq_ok c pq' \<and> pq_view pq' = butlast (pq_view pq)"
proof -
  obtain l p where l: "pq_list pq = l @ [p]" using ne by (cases "pq_list pq" rule: rev_cases) (auto simp: pq_view_def)
  obtain e where e: "pq_heap pq p = Some e" using pq_ok_entry [OF ok, of "length l"] l by auto
  define pq' where "pq' = pq\<lparr>pq_heap := (pq_heap pq)(p \<mapsto> e\<lparr>wf_index := -1\<rparr>), pq_list := l\<rparr>"
  have pop: "pq_Pop pq = Some (pq', p)" using e l by (simp add: pq_Pop_def pq_set_index_def pq'_def)
  have cont: "pq_contents pq' = pq_contents pq" using e by (auto simp: pq_contents_def pq'_def fun_eq_iff)
  have "p \<notin> set l" using ok l by (simp add: pq_ok_def)
  then have "map_option wf_index (pq_heap pq' (l ! k)) = Some (int k)" if "k < length l" for k
    using pq_ok_entry [OF ok, of k] l that nth_mem [OF that] by (auto simp: pq'_def nth_append)
  then have "pq_ok c pq'" using ok cont l by (simp add: pq_ok_def) (simp add: pq'_def)
  moreover have "pq_view pq' = butlast (pq_view pq)" using cont l by (simp add: pq_view_def) (simp add: pq'_def)
  moreover have "fst (last (pq_view pq)) = p" using l by (simp add: pq_view_def)
  ultimately show ?thesis using pop by simp
qed

interpretation wpq: heap_container pq_Less pq_Swap pq_view "pq_ok c" sooner pq_Len pq_Push pq_Pop
    "\<lambda>pq p. p \<notin> set (pq_list pq) \<and> pq_heap pq p \<noteq> None" "\<lambda>pq p. (p, pq_contents pq p)" fst
  for c
proof unfold_locales
  fix pq :: "'a waitPQ" and i j
  assume ok: "pq_ok c pq" and "i < length (pq_view pq)" "j < length (pq_view pq)"
  then have ij: "i < length (pq_list pq)" "j < length (pq_list pq)" by auto
  then show "pq_Less pq i j = Some (sooner (pq_view pq ! i) (pq_view pq ! j))"
    using pq_ok_entry [OF ok ij(1)] pq_ok_entry [OF ok ij(2)] ok
    by (auto simp: pq_Less_def pq_entry_def sooner_def nth_pq_view pq_ok_def)
next
  fix pq :: "'a waitPQ" assume "pq_ok c pq"
  then show "pq_Len pq = length (pq_view pq)" by (simp add: pq_Len_def)
qed (use pq_Swap_law pq_Push_law pq_Pop_law in blast)+

section \<open>Invariant and abstraction\<close>

text \<open>\<open>ps\<close> are the entries on their way to the loop: those in the channel, or received and not yet handled.\<close>

definition dq_okp :: "('q, 'a) delaying \<Rightarrow> ptr list \<Rightarrow> bool" where
  "dq_okp d ps \<longleftrightarrow> pq_ok (pq_contents (dq_pq d)) (dq_pq d) \<and> is_heap sooner (pq_view (dq_pq d)) \<and>
     (\<forall>x p. dq_known d x = Some p \<longleftrightarrow> p \<in> set (pq_list (dq_pq d)) \<and> (\<exists>r. pq_contents (dq_pq d) p = Some (x, r))) \<and>
     distinct ps \<and> (\<forall>p \<in> set ps. p \<notin> set (pq_list (dq_pq d)) \<and> pq_contents (dq_pq d) p \<noteq> None) \<and>
     (\<forall>p. pq_contents (dq_pq d) p \<noteq> None \<longrightarrow> p < dq_next d)"

definition dq_ok :: "('q, 'a) delaying \<Rightarrow> bool" where
  "dq_ok d \<longleftrightarrow> dq_okp d (dq_ch d)"

text \<open>The earliest time requested for each waiting item.\<close>

definition waiting :: "('q, 'a) delaying \<Rightarrow> 'a \<Rightarrow> time option" where
  "waiting d x = (case dq_known d x of None \<Rightarrow> None | Some p \<Rightarrow> map_option snd (pq_contents (dq_pq d) p))"

definition waiting_insert :: "('a \<Rightarrow> time option) \<Rightarrow> 'a \<Rightarrow> time \<Rightarrow> ('a \<Rightarrow> time option)" where
  "waiting_insert w x r = w(x \<mapsto> (case w x of None \<Rightarrow> r | Some r' \<Rightarrow> min r' r))"

text \<open>What stays of the rest of the state when the heap changes.\<close>

definition dq_same :: "('q, 'a) delaying \<Rightarrow> ('q, 'a) delaying \<Rightarrow> bool" where
  "dq_same d d' \<longleftrightarrow> dq_stopped d' = dq_stopped d \<and> dq_ch d' = dq_ch d \<and> dq_next d' = dq_next d"

lemma dq_same_refl [simp]: "dq_same d d"
  by (simp add: dq_same_def)

lemma dq_same_trans: "dq_same d d' \<Longrightarrow> dq_same d' d'' \<Longrightarrow> dq_same d d''"
  by (simp add: dq_same_def)

lemma dq_known_unique:
  "dq_okp d ps \<Longrightarrow> p \<in> set (pq_list (dq_pq d)) \<Longrightarrow> pq_contents (dq_pq d) p = Some (x, r) \<Longrightarrow> dq_known d x = Some p"
  by (auto simp: dq_okp_def)

lemma waiting_iff:
  assumes "dq_okp d ps"
  shows "waiting d x = Some r \<longleftrightarrow> (\<exists>p \<in> set (pq_list (dq_pq d)). pq_contents (dq_pq d) p = Some (x, r))"
proof
  assume "waiting d x = Some r"
  then obtain p where p: "dq_known d x = Some p" "map_option snd (pq_contents (dq_pq d) p) = Some r"
    by (auto simp: waiting_def split: option.splits)
  then have "p \<in> set (pq_list (dq_pq d))" "\<exists>r. pq_contents (dq_pq d) p = Some (x, r)"
    using assms by (auto simp: dq_okp_def)
  then show "\<exists>p \<in> set (pq_list (dq_pq d)). pq_contents (dq_pq d) p = Some (x, r)" using p(2) by auto
next
  assume "\<exists>p \<in> set (pq_list (dq_pq d)). pq_contents (dq_pq d) p = Some (x, r)"
  then show "waiting d x = Some r" using dq_known_unique [OF assms] by (auto simp: waiting_def)
qed

lemma pq_view_set: "pq_ok c pq \<Longrightarrow> set (pq_list pq) = fst ` set (pq_view pq)"
  by (force simp: pq_view_def)

lemma pq_list_mset: "mset (pq_list pq) = image_mset fst (mset (pq_view pq))"
  by (simp add: pq_view_def multiset.map_comp comp_def flip: mset_map)

lemma pq_okD: "pq_ok c pq \<Longrightarrow> pq_contents pq = c"
  by (simp add: pq_ok_def)

text \<open>Two orders of the same entries: what a heap operation does to the list.\<close>

lemma pq_same_entries:
  assumes "mset (pq_view pq') = mset (pq_view pq)"
  shows "set (pq_list pq') = set (pq_list pq)"
  using arg_cong [OF assms, of "image_mset fst"] unfolding pq_list_mset [symmetric] by (metis set_mset_mset)

section \<open>insert\<close>

lemma dq_insert_new:
  assumes ok: "dq_okp d (p # ps)" and c: "pq_contents (dq_pq d) p = Some (x, r)" and new: "dq_known d x = None"
  shows "\<exists>d'. dq_insert d p = Some d' \<and> dq_okp d' ps \<and> waiting d' = waiting_insert (waiting d) x r \<and>
     dq_same d d' \<and> dq_q d' = dq_q d \<and> (\<forall>p' \<in> set ps. pq_contents (dq_pq d') p' = pq_contents (dq_pq d) p')"
proof -
  let ?pq = "dq_pq d" and ?c = "pq_contents (dq_pq d)"
  obtain e where e: "pq_heap ?pq p = Some e" "wf_data e = x" using c by (auto simp: pq_contents_def)
  have pre: "pq_ok ?c ?pq" "is_heap sooner (pq_view ?pq)" "p \<notin> set (pq_list ?pq) \<and> pq_heap ?pq p \<noteq> None"
    using ok e by (auto simp: dq_okp_def)
  obtain pq' where pq': "pq_heap_Push ?pq p = Some pq'" "pq_ok ?c pq'" "is_heap sooner (pq_view pq')"
    "mset (pq_view pq') = add_mset (p, ?c p) (mset (pq_view ?pq))"
    using wpq.Push_correct [OF strict_weak_order_sooner pre] by blast
  have "mset (pq_list pq') = add_mset p (mset (pq_list ?pq))" using pq'(4) by (simp add: pq_list_mset)
  then have list: "set (pq_list pq') = insert p (set (pq_list ?pq))"
    by (metis set_mset_add_mset_insert set_mset_mset)
  define d' where "d' = d\<lparr>dq_pq := pq', dq_known := (dq_known d)(x \<mapsto> p)\<rparr>"
  have ins: "dq_insert d p = Some d'" using e new pq'(1) by (simp add: dq_insert_def d'_def)
  have cont: "pq_contents pq' = ?c" by (rule pq_okD [OF pq'(2)])
  have known: "dq_known d y = Some q \<longleftrightarrow> q \<in> set (pq_list ?pq) \<and> (\<exists>r. ?c q = Some (y, r))" for y q
    using ok by (simp add: dq_okp_def)
  have "((dq_known d)(x \<mapsto> p)) y = Some q \<longleftrightarrow> q \<in> set (pq_list pq') \<and> (\<exists>r. ?c q = Some (y, r))" for y q
    using known [of y q] known [of x q] c new list by auto
  then have ok': "dq_okp d' ps" using ok pq' list cont by (auto simp: dq_okp_def d'_def)
  have "waiting d' = waiting_insert (waiting d) x r"
    using new c by (auto simp: waiting_def waiting_insert_def d'_def cont fun_eq_iff split: option.split)
  then show ?thesis using ins ok' cont by (auto simp: d'_def dq_same_def)
qed

lemma dq_insert_known:
  assumes ok: "dq_okp d (p # ps)" and c: "pq_contents (dq_pq d) p = Some (x, r)" and old: "dq_known d x = Some ep"
  shows "\<exists>d'. dq_insert d p = Some d' \<and> dq_okp d' ps \<and> waiting d' = waiting_insert (waiting d) x r \<and>
     dq_same d d' \<and> dq_q d' = dq_q d \<and> (\<forall>p' \<in> set ps. pq_contents (dq_pq d') p' = pq_contents (dq_pq d) p')"
proof -
  let ?pq = "dq_pq d" and ?c = "pq_contents (dq_pq d)"
  obtain e where e: "pq_heap ?pq p = Some e" "wf_data e = x" "wf_readyAt e = r" using c by (auto simp: pq_contents_def)
  have pre: "pq_ok ?c ?pq" "is_heap sooner (pq_view ?pq)" using ok by (auto simp: dq_okp_def)
  obtain r' where ep: "ep \<in> set (pq_list ?pq)" "?c ep = Some (x, r')" using ok old by (auto simp: dq_okp_def)
  then obtain i where i: "i < length (pq_list ?pq)" "pq_list ?pq ! i = ep" by (metis in_set_conv_nth)
  obtain ex where ex: "pq_heap ?pq ep = Some ex" "wf_index ex = int i" "wf_data ex = x" "wf_readyAt ex = r'"
    using pq_ok_entry [OF pre(1) i(1)] i(2) ep(2) by auto
  have w: "waiting d x = Some r'" using old ep(2) by (simp add: waiting_def)
  show ?thesis
  proof (cases "r' > r")
    case False
    then have "dq_insert d p = Some d" using e old ex by (simp add: dq_insert_def)
    moreover have "waiting_insert (waiting d) x r = waiting d"
      using w False by (auto simp: waiting_insert_def fun_eq_iff min_def)
    moreover have "dq_okp d ps" using ok by (auto simp: dq_okp_def)
    ultimately show ?thesis by simp
  next
    case True
    define pq1 where "pq1 = ?pq\<lparr>pq_heap := (pq_heap ?pq)(ep \<mapsto> ex\<lparr>wf_readyAt := r\<rparr>)\<rparr>"
    define c1 where "c1 = ?c(ep \<mapsto> (x, r))"
    have cont1: "pq_contents pq1 = c1" using ex(3) by (auto simp: pq1_def c1_def pq_contents_def fun_eq_iff)
    have list1: "pq_list pq1 = pq_list ?pq" by (simp add: pq1_def)
    have ok1: "pq_ok c1 pq1"
      using pre(1) ex(1,2) cont1 by (auto simp: pq_ok_def) (auto simp: pq1_def)
    have dist: "distinct (pq_list ?pq)" using pre(1) by (simp add: pq_ok_def)
    have view: "pq_view pq1 ! k = pq_view ?pq ! k" if "k < length (pq_view ?pq)" "k \<noteq> i" for k
    proof -
      have "pq_list ?pq ! k \<noteq> ep" using that i dist nth_eq_iff_index_eq by fastforce
      then show ?thesis using that by (simp add: nth_pq_view list1 cont1 c1_def)
    qed
    have "heap_hole sooner (pq_view pq1) (length (pq_view ?pq)) i"
      by (rule heap_hole_update [OF heap_prefix_hole [OF strict_weak_order_sooner pre(2)] view])
    then have hole: "heap_hole sooner (pq_view pq1) (length (pq_view pq1)) i" using list1 by simp
    obtain pq' where pq': "pq_heap_Fix pq1 i = Some pq'" "pq_ok c1 pq'" "is_heap sooner (pq_view pq')"
      "mset (pq_view pq') = mset (pq_view pq1)"
      using wpq.Fix_correct [OF strict_weak_order_sooner ok1 _ hole] i(1) list1 by auto
    have list: "set (pq_list pq') = set (pq_list ?pq)" using pq_same_entries [OF pq'(4)] list1 by simp
    have cont: "pq_contents pq' = c1" by (rule pq_okD [OF pq'(2)])
    define d' where "d' = d\<lparr>dq_pq := pq'\<rparr>"
    have ins: "dq_insert d p = Some d'"
      using e old ex True pq'(1) by (simp add: dq_insert_def d'_def pq1_def [symmetric])
    have known: "dq_known d y = Some q \<longleftrightarrow> q \<in> set (pq_list ?pq) \<and> (\<exists>r. ?c q = Some (y, r))" for y q
      using ok by (simp add: dq_okp_def)
    have "dq_known d y = Some q \<longleftrightarrow> q \<in> set (pq_list pq') \<and> (\<exists>r. c1 q = Some (y, r))" for y q
      using known [of y q] known [of y ep] ep list by (auto simp: c1_def)
    moreover have "c1 q \<noteq> None \<longleftrightarrow> ?c q \<noteq> None" for q using ep(2) by (auto simp: c1_def)
    ultimately have ok': "dq_okp d' ps" using ok pq' list cont by (auto simp: dq_okp_def d'_def)
    have "waiting d' y = waiting_insert (waiting d) x r y" for y
    proof (cases "y = x")
      case True
      then show ?thesis using ep(2) old \<open>r' > r\<close> by (simp add: waiting_def waiting_insert_def d'_def cont c1_def)
    next
      case False
      then have "dq_known d y \<noteq> Some ep" using known [of y ep] ep(2) by auto
      then show ?thesis using False
        by (auto simp: waiting_def waiting_insert_def d'_def cont c1_def split: option.split)
    qed
    moreover have "\<forall>p' \<in> set ps. pq_contents (dq_pq d') p' = ?c p'"
      using ok ep(1) by (auto simp: d'_def cont c1_def dq_okp_def)
    ultimately show ?thesis using ins ok' by (auto simp: d'_def dq_same_def)
  qed
qed

lemma dq_insert_correct:
  assumes "dq_okp d (p # ps)" and "pq_contents (dq_pq d) p = Some (x, r)"
  shows "\<exists>d'. dq_insert d p = Some d' \<and> dq_okp d' ps \<and> waiting d' = waiting_insert (waiting d) x r \<and>
     dq_same d d' \<and> dq_q d' = dq_q d \<and> (\<forall>p' \<in> set ps. pq_contents (dq_pq d') p' = pq_contents (dq_pq d) p')"
  using dq_insert_new [OF assms] dq_insert_known [OF assms] by (cases "dq_known d x") auto

section \<open>The loop over any queue\<close>

text \<open>\<open>waiting_after\<close>: what still waits once everything due at \<open>now\<close> has been added.\<close>

definition due :: "('a \<Rightarrow> time option) \<Rightarrow> time \<Rightarrow> 'a set" where
  "due w now = {x. \<exists>r. w x = Some r \<and> r \<le> now}"

definition waiting_after :: "('a \<Rightarrow> time option) \<Rightarrow> time \<Rightarrow> ('a \<Rightarrow> time option)" where
  "waiting_after w now x = (case w x of None \<Rightarrow> None | Some r \<Rightarrow> if r \<le> now then None else Some r)"

lemma waiting_root:
  assumes ok: "dq_okp d ps" and ne: "pq_list (dq_pq d) \<noteq> []"
  obtains p x r e where "pq_list (dq_pq d) ! 0 = p" "pq_contents (dq_pq d) p = Some (x, r)"
    "pq_entry (dq_pq d) 0 = Some e" "wf_data e = x" "wf_readyAt e = r" "waiting d x = Some r"
    "\<And>y s. waiting d y = Some s \<Longrightarrow> r \<le> s"
proof -
  let ?pq = "dq_pq d"
  have pre: "pq_ok (pq_contents ?pq) ?pq" "is_heap sooner (pq_view ?pq)" using ok by (auto simp: dq_okp_def)
  have len: "0 < length (pq_list ?pq)" using ne by simp
  obtain e where e: "pq_heap ?pq (pq_list ?pq ! 0) = Some e"
    "pq_contents ?pq (pq_list ?pq ! 0) = Some (wf_data e, wf_readyAt e)"
    using pq_ok_entry [OF pre(1) len] by auto
  have w: "waiting d (wf_data e) = Some (wf_readyAt e)"
    using waiting_iff [OF ok] e(2) nth_mem [OF len] by blast
  have least: "wf_readyAt e \<le> s" if y: "waiting d y = Some s" for y s
  proof -
    obtain q where q: "q \<in> set (pq_list ?pq)" "pq_contents ?pq q = Some (y, s)" using waiting_iff [OF ok] y by blast
    then obtain k where k: "k < length (pq_list ?pq)" "pq_list ?pq ! k = q" by (metis in_set_conv_nth)
    have "\<not> sooner (pq_view ?pq ! k) (pq_view ?pq ! 0)"
      using heap_root_least [OF strict_weak_order_sooner pre(2)] k(1) by simp
    then show ?thesis using k q(2) e(2) len by (simp add: sooner_def nth_pq_view)
  qed
  show ?thesis using that [OF refl e(2) _ refl refl w least] e(1) len by (simp add: pq_entry_def)
qed

text \<open>The entries at some addresses, and what receiving them amounts to.\<close>

definition entries :: "('q, 'a) delaying \<Rightarrow> ptr list \<Rightarrow> ('a \<times> time) list" where
  "entries d ps = map (\<lambda>p. the (pq_contents (dq_pq d) p)) ps"

fun receive_spec ::
  "(nat \<Rightarrow> time) \<Rightarrow> ('a \<times> time) list \<Rightarrow> ('a \<Rightarrow> time option) \<times> 'a set \<Rightarrow> ('a \<Rightarrow> time option) \<times> 'a set"
where
  "receive_spec clock [] wp = wp"
| "receive_spec clock ((x, r) # es) (w, pend) =
     receive_spec (\<lambda>i. clock (Suc i)) es
       (if r > clock 0 then (waiting_insert w x r, pend) else (w, insert x pend))"

definition iteration_spec ::
  "time \<Rightarrow> select_case \<Rightarrow> ('a \<times> time) list \<Rightarrow> ('a \<Rightarrow> time option) \<times> 'a set \<Rightarrow> ('a \<Rightarrow> time option) \<times> 'a set"
where
  "iteration_spec now sel es wp =
     (let wp1 = (waiting_after (fst wp) now, snd wp \<union> due (fst wp) now) in
      case sel of WaitingForAdd clock \<Rightarrow> receive_spec clock es wp1 | _ \<Rightarrow> wp1)"

locale delaying_queue =
  queue_iface "qm_Add m" "qm_ShutDown m" "qm_ShuttingDown m" pending q_ok
  for m :: "('q, 'a) queue_methods"
    and pending :: "'q \<Rightarrow> 'a set"
    and q_ok :: "'q \<Rightarrow> bool"
begin

abbreviation down :: "('q, 'a) delaying \<Rightarrow> bool" where
  "down d \<equiv> qm_ShuttingDown m (dq_q d)"

lemma add_ready_correct:
  assumes "dq_okp d ps" and "q_ok (dq_q d)" and "\<not> down d"
  shows "\<exists>d'. dq_add_ready m now d = Some d' \<and> dq_okp d' ps \<and> q_ok (dq_q d') \<and> \<not> down d' \<and> dq_same d d' \<and>
     waiting d' = waiting_after (waiting d) now \<and> pending (dq_q d') = pending (dq_q d) \<union> due (waiting d) now \<and>
     pq_contents (dq_pq d') = pq_contents (dq_pq d)"
  using assms
proof (induction "length (pq_list (dq_pq d))" arbitrary: d rule: less_induct)
  case less
  let ?pq = "dq_pq d"
  show ?case
  proof (cases "pq_list ?pq = []")
    case True
    then have "waiting d x = None" for x using waiting_iff [OF less.prems(1), of x] by (cases "waiting d x") auto
    then have "waiting_after (waiting d) now = waiting d" "due (waiting d) now = {}"
      by (auto simp: waiting_after_def due_def fun_eq_iff)
    then show ?thesis using True less.prems by (simp add: dq_add_ready.simps pq_Len_def)
  next
    case ne: False
    obtain p x r e where root: "pq_list ?pq ! 0 = p" "pq_contents ?pq p = Some (x, r)" "pq_entry ?pq 0 = Some e"
      "wf_data e = x" "wf_readyAt e = r" "waiting d x = Some r" "\<And>y s. waiting d y = Some s \<Longrightarrow> r \<le> s"
      using waiting_root [OF less.prems(1) ne] by metis
    show ?thesis
    proof (cases "r > now")
      case True
      have "waiting_after (waiting d) now y = waiting d y" for y
        using root(7) [of y] True by (cases "waiting d y") (auto simp: waiting_after_def)
      moreover have "due (waiting d) now = {}" using root(7) True by (force simp: due_def)
      moreover have "dq_add_ready m now d = Some d"
        using ne root(3,5) True by (simp add: dq_add_ready.simps [of m now d] pq_Len_def)
      ultimately show ?thesis using less.prems by (auto simp: fun_eq_iff)
    next
      case False
      have pre: "pq_ok (pq_contents ?pq) ?pq" "is_heap sooner (pq_view ?pq)" "pq_view ?pq \<noteq> []"
        using less.prems(1) ne by (auto simp: dq_okp_def pq_view_def)
      obtain pq' where pq': "pq_heap_Pop ?pq = Some (pq', p)" "pq_ok (pq_contents ?pq) pq'" "is_heap sooner (pq_view pq')"
        "add_mset (pq_view ?pq ! 0) (mset (pq_view pq')) = mset (pq_view ?pq)"
        using wpq.Pop_correct [OF strict_weak_order_sooner pre] root(1) ne by (auto simp: nth_pq_view)
      have cont: "pq_contents pq' = pq_contents ?pq" by (rule pq_okD [OF pq'(2)])
      have "pq_contents pq' p = Some (x, r)" using root(2) cont by simp
      then obtain e' where e': "pq_heap pq' p = Some e'" "wf_data e' = x" by (auto simp: pq_contents_def)
      have "add_mset p (mset (pq_list pq')) = mset (pq_list ?pq)"
        using arg_cong [OF pq'(4), of "image_mset fst"] root(1) ne by (simp add: pq_list_mset [symmetric] nth_pq_view)
      then have mem: "set (pq_list ?pq) = insert p (set (pq_list pq'))" "p \<notin> set (pq_list pq')"
        using pre(1) by (metis set_mset_add_mset_insert set_mset_mset,
            metis distinct.simps(2) mset.simps(2) mset_eq_imp_distinct_iff pq_ok_def)
      define d1 where "d1 = d\<lparr>dq_pq := pq', dq_q := qm_Add m (dq_q d) x, dq_known := (dq_known d)(x := None)\<rparr>"
      have unf: "dq_add_ready m now d = dq_add_ready m now d1"
        using ne root(3,5) False pq'(1) e' by (simp add: dq_add_ready.simps [of m now d] pq_Len_def d1_def)
      have known: "dq_known d y = Some q \<longleftrightarrow> q \<in> set (pq_list ?pq) \<and> (\<exists>r. pq_contents ?pq q = Some (y, r))" for y q
        using less.prems(1) by (simp add: dq_okp_def)
      have "((dq_known d)(x := None)) y = Some q \<longleftrightarrow> q \<in> set (pq_list pq') \<and> (\<exists>r. pq_contents ?pq q = Some (y, r))" for y q
        using known [of y q] known [of x q] known [of x p] root(2) mem by auto
      then have ok1: "dq_okp d1 ps"
        using less.prems(1) pq' cont mem by (auto simp: dq_okp_def d1_def)
      have q1: "q_ok (dq_q d1)" "\<not> down d1" "pending (dq_q d1) = insert x (pending (dq_q d))"
        using add_law [OF less.prems(2), of x] less.prems(3) by (auto simp: d1_def)
      have "length (pq_list (dq_pq d1)) < length (pq_list ?pq)"
        using pq_heap_Pop_length [OF pq'(1)] by (simp add: d1_def)
      from less.hyps [OF this ok1 q1(1,2)] obtain d' where d': "dq_add_ready m now d1 = Some d'" "dq_okp d' ps"
        "q_ok (dq_q d')" "\<not> down d'" "dq_same d1 d'" "waiting d' = waiting_after (waiting d1) now"
        "pending (dq_q d') = pending (dq_q d1) \<union> due (waiting d1) now" "pq_contents (dq_pq d') = pq_contents (dq_pq d1)"
        by blast
      have w1: "waiting d1 = (waiting d)(x := None)" by (auto simp: waiting_def d1_def cont fun_eq_iff split: option.split)
      have "waiting_after (waiting d1) now = waiting_after (waiting d) now"
        using root(6) False by (auto simp: w1 waiting_after_def fun_eq_iff)
      moreover have "insert x (due (waiting d1) now) = due (waiting d) now"
        using root(6) False by (auto simp: w1 due_def)
      ultimately show ?thesis
        using d' unf q1(3) cont by (auto simp: d1_def dq_same_def)
    qed
  qed
qed

lemma handle_correct:
  assumes ok: "dq_okp d (p # ps)" and q: "q_ok (dq_q d)" "\<not> down d" and c: "pq_contents (dq_pq d) p = Some (x, r)"
  shows "\<exists>d'. dq_handle m now d p = Some d' \<and> dq_okp d' ps \<and> q_ok (dq_q d') \<and> \<not> down d' \<and> dq_same d d' \<and>
     waiting d' = (if r > now then waiting_insert (waiting d) x r else waiting d) \<and>
     pending (dq_q d') = (if r > now then pending (dq_q d) else insert x (pending (dq_q d))) \<and>
     (\<forall>p' \<in> set ps. pq_contents (dq_pq d') p' = pq_contents (dq_pq d) p')"
proof -
  obtain e where e: "pq_heap (dq_pq d) p = Some e" "wf_data e = x" "wf_readyAt e = r"
    using c by (auto simp: pq_contents_def)
  show ?thesis
  proof (cases "r > now")
    case True
    from dq_insert_correct [OF ok c] obtain d' where d': "dq_insert d p = Some d'" "dq_okp d' ps"
      "waiting d' = waiting_insert (waiting d) x r" "dq_same d d'" "dq_q d' = dq_q d"
      "\<forall>p' \<in> set ps. pq_contents (dq_pq d') p' = pq_contents (dq_pq d) p'" by blast
    then have "dq_handle m now d p = Some d'" using e True by (simp add: dq_handle_def)
    then show ?thesis using d' q True by auto
  next
    case False
    define d' where "d' = d\<lparr>dq_q := qm_Add m (dq_q d) x\<rparr>"
    have h: "dq_handle m now d p = Some d'" using e False by (simp add: dq_handle_def d'_def)
    have ok': "dq_okp d' ps" using ok by (auto simp: dq_okp_def d'_def)
    have q': "q_ok (dq_q d')" "\<not> down d'" "pending (dq_q d') = insert x (pending (dq_q d))"
      using add_law [OF q(1), of x] q(2) by (auto simp: d'_def)
    have "waiting d' = waiting d" by (simp add: waiting_def d'_def fun_eq_iff split: option.split)
    then show ?thesis using h ok' q' False by (simp add: d'_def dq_same_def)
  qed
qed

lemma receive_correct:
  assumes "dq_okp d ps" and "q_ok (dq_q d)" and "\<not> down d"
  shows "\<exists>d'. dq_receive m clock ps d = Some d' \<and> dq_okp d' [] \<and> q_ok (dq_q d') \<and> \<not> down d' \<and> dq_same d d' \<and>
     (waiting d', pending (dq_q d')) = receive_spec clock (entries d ps) (waiting d, pending (dq_q d))"
  using assms
proof (induction ps arbitrary: d clock)
  case Nil
  then show ?case by (simp add: entries_def)
next
  case (Cons p ps)
  obtain x r where c: "pq_contents (dq_pq d) p = Some (x, r)" using Cons.prems(1) by (auto simp: dq_okp_def)
  from handle_correct [OF Cons.prems c, of "clock 0"] obtain d1 where d1: "dq_handle m (clock 0) d p = Some d1"
    "dq_okp d1 ps" "q_ok (dq_q d1)" "\<not> down d1" "dq_same d d1"
    "waiting d1 = (if r > clock 0 then waiting_insert (waiting d) x r else waiting d)"
    "pending (dq_q d1) = (if r > clock 0 then pending (dq_q d) else insert x (pending (dq_q d)))"
    "\<forall>p' \<in> set ps. pq_contents (dq_pq d1) p' = pq_contents (dq_pq d) p'" by blast
  have "entries d1 ps = entries d ps" using d1(8) by (simp add: entries_def)
  moreover have "entries d (p # ps) = (x, r) # entries d ps" using c by (simp add: entries_def)
  ultimately show ?case
    using Cons.IH [OF d1(2-4), of "\<lambda>i. clock (Suc i)"] d1 dq_same_trans [OF d1(5)] by (auto split: if_splits)
qed

lemma iteration_correct:
  assumes ok: "dq_ok d" and q: "q_ok (dq_q d)" "\<not> down d"
  shows "\<exists>d'. dq_iteration m now sel d = Some (d', sel \<noteq> StopCh) \<and> dq_ok d' \<and> q_ok (dq_q d') \<and> \<not> down d' \<and>
     dq_stopped d' = dq_stopped d \<and>
     (waiting d', pending (dq_q d')) = iteration_spec now sel (entries d (dq_ch d)) (waiting d, pending (dq_q d))"
proof -
  from add_ready_correct [OF ok [unfolded dq_ok_def] q, of now] obtain d1 where d1: "dq_add_ready m now d = Some d1"
    "dq_okp d1 (dq_ch d)" "q_ok (dq_q d1)" "\<not> down d1" "dq_same d d1" "waiting d1 = waiting_after (waiting d) now"
    "pending (dq_q d1) = pending (dq_q d) \<union> due (waiting d) now" "pq_contents (dq_pq d1) = pq_contents (dq_pq d)" by blast
  have ch: "dq_ch d1 = dq_ch d" "dq_stopped d1 = dq_stopped d" using d1(5) by (auto simp: dq_same_def)
  have idle: ?thesis if "\<forall>clock. sel \<noteq> WaitingForAdd clock"
    using that d1 ch q by (cases sel) (auto simp: dq_iteration_def iteration_spec_def dq_ok_def)
  show ?thesis
  proof (cases sel)
    case (WaitingForAdd clock)
    let ?d1 = "d1\<lparr>dq_ch := []\<rparr>"
    have 2: "dq_okp ?d1 (dq_ch d)" "q_ok (dq_q ?d1)" "\<not> down ?d1" using d1 by (auto simp: dq_okp_def)
    have same: "waiting ?d1 = waiting d1" "entries ?d1 (dq_ch d) = entries d (dq_ch d)"
      using d1(8) by (simp_all add: waiting_def entries_def fun_eq_iff split: option.split)
    from receive_correct [OF 2, of clock] obtain d' where d': "dq_receive m clock (dq_ch d) ?d1 = Some d'"
      "dq_okp d' []" "q_ok (dq_q d')" "\<not> down d'" "dq_same ?d1 d'"
      "(waiting d', pending (dq_q d')) = receive_spec clock (entries d (dq_ch d)) (waiting d1, pending (dq_q d1))"
      using same by auto
    have "dq_iteration m now sel d = Some (d', True)"
      using q(2) d1(1) d'(1) ch by (simp add: dq_iteration_def WaitingForAdd)
    then show ?thesis
      using d' ch d1(6,7) by (simp add: WaitingForAdd iteration_spec_def dq_ok_def dq_same_def)
  qed (use idle in auto)
qed

lemma AddAfter_correct:
  assumes ok: "dq_ok d" and q: "q_ok (dq_q d)" and a: "dq_AddAfter m now send d item duration = Some d'"
  shows "dq_ok d' \<and> q_ok (dq_q d') \<and> waiting d' = waiting d \<and> down d' = down d \<and>
    (\<not> down d \<and> \<not> dq_stopped d \<longrightarrow>
      (if duration \<le> 0 then pending (dq_q d') = insert item (pending (dq_q d)) \<and> dq_ch d' = dq_ch d
       else pending (dq_q d') = pending (dq_q d) \<and>
            entries d' (dq_ch d') = entries d (dq_ch d) @ [(item, now + duration)]))"
proof -
  have inv: "dq_okp d (dq_ch d)" using ok by (simp add: dq_ok_def)
  have fresh: "pq_contents (dq_pq d) (dq_next d) = None" using inv unfolding dq_okp_def by (metis less_irrefl)
  have alloc: "p \<noteq> dq_next d" if "pq_contents (dq_pq d) p \<noteq> None" for p using fresh that by auto
  define s where "s = dq_send d item (now + duration)"
  have cont: "pq_contents (dq_pq s) = (pq_contents (dq_pq d))(dq_next d \<mapsto> (item, now + duration))"
    by (auto simp: s_def dq_send_def pq_contents_def fun_eq_iff)
  have list: "pq_list (dq_pq s) = pq_list (dq_pq d)" "dq_known s = dq_known d" "dq_ch s = dq_ch d @ [dq_next d]"
    "dq_next s = Suc (dq_next d)" "dq_q s = dq_q d" by (simp_all add: s_def dq_send_def)
  have "pq_contents (dq_pq d) p \<noteq> None" if "p \<in> set (pq_list (dq_pq d))" for p
    using that inv pq_ok_entry [of "pq_contents (dq_pq d)" "dq_pq d"] unfolding dq_okp_def in_set_conv_nth
    by (metis option.distinct(1))
  then have notin: "dq_next d \<notin> set (pq_list (dq_pq d))" "dq_next d \<notin> set (dq_ch d)"
    using inv fresh unfolding dq_okp_def by blast+
  have view: "pq_view (dq_pq s) = pq_view (dq_pq d)"
    using notin(1) by (auto simp: pq_view_def list cont)
  have "pq_ok (pq_contents (dq_pq s)) (dq_pq s)"
    using inv notin(1) nth_mem by (fastforce simp: dq_okp_def pq_ok_def s_def dq_send_def)
  then have oks: "dq_ok s"
    using inv notin by (auto simp: dq_ok_def dq_okp_def list cont view less_Suc_eq)
  have ws: "waiting s = waiting d"
  proof
    fix x
    have "p \<noteq> dq_next d" if "dq_known d x = Some p" for p using that inv notin(1) by (auto simp: dq_okp_def)
    then show "waiting s x = waiting d x" by (auto simp: waiting_def list cont split: option.split)
  qed
  have es: "entries s (dq_ch s) = entries d (dq_ch d) @ [(item, now + duration)]"
    using notin(2) by (auto simp: entries_def list cont)
  define a1 where "a1 = d\<lparr>dq_q := qm_Add m (dq_q d) item\<rparr>"
  have a1: "waiting a1 = waiting d" "dq_ch a1 = dq_ch d"
    by (simp_all add: a1_def waiting_def fun_eq_iff split: option.split)
  have oka: "dq_ok a1" using inv by (auto simp: a1_def dq_ok_def dq_okp_def)
  consider (same) "d' = d" "down d \<or> dq_stopped d" | (now) "d' = a1" "duration \<le> 0" "\<not> down d"
    | (sent) "d' = s" "\<not> duration \<le> 0"
    using a by (auto simp: dq_AddAfter_def s_def a1_def Let_def split: if_splits)
  then show ?thesis
  proof cases
    case now
    then show ?thesis using a1 oka add_law [OF q, of item] by (auto simp: a1_def)
  qed (use ok q oks ws es list in auto)
qed

end

section \<open>The delaying queue over the work queue\<close>

definition wq_methods :: "('a workqueue, 'a) queue_methods" where
  "wq_methods = \<lparr>qm_Add = (\<lambda>q x. fst (wq_Add q x)), qm_ShutDown = (\<lambda>q. fst (wq_ShutDown q)),
     qm_ShuttingDown = wq_ShuttingDown\<rparr>"

interpretation dwq: delaying_queue wq_methods wq_dirty wq_ok
  using wq.queue_iface_axioms by (simp add: delaying_queue_def wq_methods_def)

text \<open>
  What happens to a delaying queue: calls of clients with any clock reading, the workers' calls of the
  embedded queue, the shutdowns, and iterations of the loop.
\<close>

inductive dq_step :: "('a workqueue, 'a) delaying \<Rightarrow> ('a workqueue, 'a) delaying \<Rightarrow> bool" where
  AddAfter: "dq_AddAfter wq_methods now send d item duration = Some d' \<Longrightarrow> dq_step d d'"
| ShutDown: "dq_step d (dq_ShutDown wq_methods d)"
| Worker: "wq_apply (dq_q d) call = Some (q', got) \<Longrightarrow> dq_step d (d\<lparr>dq_q := q'\<rparr>)"
| Iteration: "dq_iteration wq_methods now sel d = Some (d', go) \<Longrightarrow> dq_step d d'"

inductive dq_reachable :: "('a workqueue, 'a) delaying \<Rightarrow> bool" where
  init: "dq_reachable (newDelayingQueue newQueue)"
| step: "dq_reachable d \<Longrightarrow> dq_step d d' \<Longrightarrow> dq_reachable d'"

lemma dq_ok_queue:
  "dq_ok (d\<lparr>dq_q := q\<rparr>) = dq_ok d" "dq_ok (d\<lparr>dq_stopped := b\<rparr>) = dq_ok d"
  "dq_ok (d\<lparr>dq_q := q, dq_stopped := b\<rparr>) = dq_ok d"
  by (simp_all add: dq_ok_def dq_okp_def)

lemma dq_step_ok: "dq_step d d' \<Longrightarrow> dq_ok d \<and> wq_ok (dq_q d) \<Longrightarrow> dq_ok d' \<and> wq_ok (dq_q d')"
proof (induction rule: dq_step.induct)
  case (AddAfter now send d item duration d')
  then show ?case using dwq.AddAfter_correct [OF _ _ AddAfter(1)] by simp
next
  case (ShutDown d)
  then show ?case
    using wq_ShutDown_ok [of "dq_q d"] by (simp add: dq_ShutDown_def dq_ok_queue wq_methods_def)
next
  case (Worker d call q' got)
  then show ?case using wq_apply_ok by (auto simp: dq_ok_queue)
next
  case (Iteration now sel d d' go)
  show ?case
  proof (cases "wq_ShuttingDown (dq_q d)")
    case True
    then show ?thesis using Iteration by (simp add: dq_iteration_def wq_methods_def)
  next
    case False
    then have "\<not> dwq.down d" by (simp add: wq_methods_def)
    from dwq.iteration_correct [OF _ _ this, of now sel] show ?thesis using Iteration by auto
  qed
qed

lemma dq_reachable_ok: "dq_reachable d \<Longrightarrow> dq_ok d \<and> wq_ok (dq_q d)"
proof (induction rule: dq_reachable.induct)
  case init
  then show ?case
    by (simp add: newDelayingQueue_def dq_ok_def dq_okp_def pq_ok_def pq_view_def heap_prefix_def pq_contents_def)
qed (rule dq_step_ok)

section \<open>Properties\<close>

text \<open>
  C36 In every reachable state an iteration of \<open>waitingLoop\<close> does not panic, and it refines a map from
  items to the earliest time requested for them: it adds to the queue exactly the items that are
  due, keeps the others, and takes each entry it receives from the channel either straight to the queue, if its time
  has come, or into the map under the earlier of the two times. So no item is added early and none
  is forgotten.
\<close>

theorem delaying_iteration_refines:
  assumes "dq_reachable d" and "\<not> wq_ShuttingDown (dq_q d)"
  shows "\<exists>d'. dq_iteration wq_methods now sel d = Some (d', sel \<noteq> StopCh) \<and>
     (waiting d', wq_dirty (dq_q d')) = iteration_spec now sel (entries d (dq_ch d)) (waiting d, wq_dirty (dq_q d))"
proof -
  have "\<not> dwq.down d" using assms(2) by (simp add: wq_methods_def)
  then show ?thesis using dwq.iteration_correct dq_reachable_ok [OF assms(1)] by blast
qed

definition demo_delaying :: "(nat workqueue, nat) delaying" where
  "demo_delaying = the (dq_AddAfter wq_methods 100 True (newDelayingQueue newQueue) 7 50)"

lemma demo_delaying_reachable: "dq_reachable demo_delaying" "\<not> wq_ShuttingDown (dq_q demo_delaying)"
proof -
  have a: "dq_AddAfter wq_methods 100 True (newDelayingQueue newQueue) 7 50 = Some demo_delaying"
    by (simp add: demo_delaying_def dq_AddAfter_def newDelayingQueue_def newQueue_def wq_methods_def wq_ShuttingDown_def
        chan_size_def)
  show "dq_reachable demo_delaying" by (rule dq_reachable.step [OF dq_reachable.init dq_step.AddAfter [OF a]])
  show "\<not> wq_ShuttingDown (dq_q demo_delaying)"
    by (simp add: demo_delaying_def dq_AddAfter_def newDelayingQueue_def newQueue_def wq_methods_def wq_ShuttingDown_def
        chan_size_def dq_send_def)
qed

theorem delaying_iteration_refines_witness:
  "\<exists>d'. dq_iteration wq_methods 101 (WaitingForAdd (\<lambda>_. 102)) demo_delaying = Some (d', True) \<and> waiting d' 7 = Some 150"
proof -
  obtain d' where d': "dq_iteration wq_methods 101 (WaitingForAdd (\<lambda>_. 102)) demo_delaying = Some (d', True)"
    "(waiting d', wq_dirty (dq_q d')) = iteration_spec 101 (WaitingForAdd (\<lambda>_. 102))
       (entries demo_delaying (dq_ch demo_delaying)) (waiting demo_delaying, wq_dirty (dq_q demo_delaying))"
    using delaying_iteration_refines [OF demo_delaying_reachable, of 101 "WaitingForAdd (\<lambda>_. 102)"] by auto
  have "entries demo_delaying (dq_ch demo_delaying) = [(7, 150)]" "waiting demo_delaying 7 = None"
    by (simp_all add: demo_delaying_def dq_AddAfter_def newDelayingQueue_def newQueue_def wq_methods_def wq_ShuttingDown_def
        chan_size_def dq_send_def entries_def pq_contents_def waiting_def)
  then show ?thesis using d' by (auto simp: iteration_spec_def Let_def waiting_insert_def waiting_after_def)
qed

text \<open>
  The timer of an iteration is set for the earliest waiting item and never for a time that has
  passed: after the due items are added, its delay is positive, some item becomes ready exactly when it
  expires, and no item is ready before. Without waiting items there is no timer.
\<close>

theorem delaying_timer_earliest:
  assumes "dq_reachable d" and "\<not> wq_ShuttingDown (dq_q d)"
  shows "\<exists>d'. dq_add_ready wq_methods now d = Some d' \<and>
     (case dq_timer now d' of
        None \<Rightarrow> waiting d' = Map.empty
      | Some delay \<Rightarrow> delay > 0 \<and> (\<exists>x. waiting d' x = Some (now + delay)) \<and>
          (\<forall>x r. waiting d' x = Some r \<longrightarrow> now + delay \<le> r))"
proof -
  have ok: "dq_okp d (dq_ch d)" "wq_ok (dq_q d)" "\<not> dwq.down d"
    using dq_reachable_ok [OF assms(1)] assms(2) by (auto simp: wq_methods_def dq_ok_def)
  from dwq.add_ready_correct [OF this, of now] obtain d' where d': "dq_add_ready wq_methods now d = Some d'"
    "dq_okp d' (dq_ch d)" "waiting d' = waiting_after (waiting d) now" by blast
  show ?thesis
  proof (cases "pq_list (dq_pq d') = []")
    case True
    then have "waiting d' x = None" for x using waiting_iff [OF d'(2), of x] by (cases "waiting d' x") auto
    then show ?thesis using d'(1) True by (simp add: dq_timer_def pq_Len_def fun_eq_iff)
  next
    case False
    obtain p x r e where root: "pq_entry (dq_pq d') 0 = Some e" "wf_readyAt e = r" "waiting d' x = Some r"
      "\<And>y s. waiting d' y = Some s \<Longrightarrow> r \<le> s" using waiting_root [OF d'(2) False] by metis
    have "r > now" using root(3) d'(3) by (auto simp: waiting_after_def split: option.splits if_splits)
    moreover have "dq_timer now d' = Some (r - now)" using False root by (simp add: dq_timer_def pq_Len_def)
    ultimately show ?thesis using d'(1) root(3,4) by auto
  qed
qed

theorem delaying_timer_earliest_witness:
  "\<exists>d'. dq_add_ready wq_methods 0 demo_delaying = Some d' \<and> (dq_timer 0 d' = None \<longrightarrow> waiting d' = Map.empty)"
proof -
  obtain d' where "dq_add_ready wq_methods 0 demo_delaying = Some d'"
    "case dq_timer 0 d' of None \<Rightarrow> waiting d' = Map.empty
      | Some delay \<Rightarrow> delay > 0 \<and> (\<exists>x. waiting d' x = Some (0 + delay)) \<and> (\<forall>x r. waiting d' x = Some r \<longrightarrow> 0 + delay \<le> r)"
    using delaying_timer_earliest [OF demo_delaying_reachable, of 0] by blast
  then show ?thesis by (auto split: option.splits)
qed

text \<open>
  \<open>AddAfter\<close> on every branch: while the queue is up, an item without a delay is pending at once, one
  with a delay is sent to the loop with its time, and the call blocks only if the channel is full; once it
  is shutting down, the call changes nothing.
\<close>

theorem AddAfter_exact:
  assumes "dq_reachable d"
  shows "(wq_ShuttingDown (dq_q d) \<longrightarrow> dq_AddAfter wq_methods now send d item duration = Some d) \<and>
     (dq_AddAfter wq_methods now send d item duration = None \<longleftrightarrow>
        \<not> wq_ShuttingDown (dq_q d) \<and> duration > 0 \<and> \<not> dq_stopped d \<and> length (dq_ch d) \<ge> 1000) \<and>
     (dq_AddAfter wq_methods now send d item duration = Some d' \<longrightarrow> \<not> wq_ShuttingDown (dq_q d) \<and> \<not> dq_stopped d \<longrightarrow>
        waiting d' = waiting d \<and>
        (if duration \<le> 0 then wq_dirty (dq_q d') = insert item (wq_dirty (dq_q d)) \<and> dq_ch d' = dq_ch d
         else wq_dirty (dq_q d') = wq_dirty (dq_q d) \<and>
              entries d' (dq_ch d') = entries d (dq_ch d) @ [(item, now + duration)]))"
proof (intro conjI impI)
  show "dq_AddAfter wq_methods now send d item duration = Some d" if "wq_ShuttingDown (dq_q d)"
    using that by (simp add: dq_AddAfter_def wq_methods_def)
  show "dq_AddAfter wq_methods now send d item duration = None \<longleftrightarrow>
        \<not> wq_ShuttingDown (dq_q d) \<and> duration > 0 \<and> \<not> dq_stopped d \<and> length (dq_ch d) \<ge> 1000"
    by (auto simp: dq_AddAfter_def wq_methods_def Let_def chan_size_def)
  assume a: "dq_AddAfter wq_methods now send d item duration = Some d'" and "\<not> wq_ShuttingDown (dq_q d) \<and> \<not> dq_stopped d"
  then have "\<not> dwq.down d \<and> \<not> dq_stopped d" by (simp add: wq_methods_def)
  with dwq.AddAfter_correct [OF _ _ a] dq_reachable_ok [OF assms]
  show "waiting d' = waiting d" and "if duration \<le> 0 then wq_dirty (dq_q d') = insert item (wq_dirty (dq_q d)) \<and> dq_ch d' = dq_ch d
     else wq_dirty (dq_q d') = wq_dirty (dq_q d) \<and> entries d' (dq_ch d') = entries d (dq_ch d) @ [(item, now + duration)]"
    by blast+
qed

theorem AddAfter_exact_witness:
  "dq_AddAfter wq_methods 5 True demo_delaying (9 :: nat) 3 \<noteq> None"
proof -
  have "length (dq_ch demo_delaying) = 1"
    by (simp add: demo_delaying_def dq_AddAfter_def newDelayingQueue_def newQueue_def wq_methods_def wq_ShuttingDown_def
        chan_size_def dq_send_def)
  then show ?thesis using AddAfter_exact [OF demo_delaying_reachable(1), of 5 True 9 3] by simp
qed

end
