(* ===== verification/RateLimiters.thy ===== *)
theory RateLimiters
  imports DelayingQueue
begin

text \<open>
  \<open>util/workqueue/default_rate_limiters.go\<close> and \<open>rate_limiting_queue.go\<close>: how long an item waits
  before it is retried, and the queue that uses it.

  \<open>golang.org/x/time/rate\<close> is not part of the repository: a token bucket is a state \<open>'b\<close> with the
  operation \<open>Reserve().Delay()\<close> as an argument. The backoff is computed with float64: a product with a
  power of two is exact, so a finite float is an integer here, together with the rounding of the base delay; what
  a conversion out of the range of int64 gives is left open by the language and is an argument too.

  The lemmas: the exponential limiter doubles up to its maximum, the counters count the calls since
  the last \<open>Forget\<close>, the combined limiters are the maximum and the minimum they say, and the one case in which the
  cap against overflow does not work.
\<close>

section \<open>Floats\<close>

datatype float_val = Fin int | PInf | NInf | NaN

fun bit_len :: "nat \<Rightarrow> nat" where
  "bit_len n = (if n = 0 then 0 else Suc (bit_len (n div 2)))"

declare bit_len.simps [simp del]

text \<open>\<open>float64\<close> of an integer: 53 bits, to the nearest, ties to even.\<close>

definition f64 :: "int \<Rightarrow> int" where
  "f64 n =
     (if \<bar>n\<bar> \<le> 2 ^ 53 then n
      else let e = bit_len (nat \<bar>n\<bar>) - 53; q = \<bar>n\<bar> div 2 ^ e; r = \<bar>n\<bar> mod 2 ^ e;
               q' = (if 2 * r > 2 ^ e \<or> 2 * r = 2 ^ e \<and> odd q then q + 1 else q)
           in sgn n * (q' * 2 ^ e))"

definition float_of :: "int \<Rightarrow> float_val" where
  "float_of n = (if n \<ge> 2 ^ 1024 then PInf else if n \<le> - (2 ^ 1024) then NInf else Fin n)"

text \<open>\<open>float64(base) * math.Pow(2, float64(exp))\<close>; the power is infinite from 1024 on.\<close>

definition float_backoff :: "int \<Rightarrow> int \<Rightarrow> float_val" where
  "float_backoff base exp =
     (if exp \<ge> 1024 then (if base > 0 then PInf else if base = 0 then NaN else NInf)
      else float_of (f64 base * 2 ^ nat exp))"

text \<open>\<open>math.MaxInt64\<close> as a float64 constant is \<open>2\<^sup>6\<^sup>3\<close>.\<close>

definition above_MaxInt64 :: "float_val \<Rightarrow> bool" where
  "above_MaxInt64 v = (case v of Fin n \<Rightarrow> n > 2 ^ 63 | PInf \<Rightarrow> True | _ \<Rightarrow> False)"

definition to_duration :: "(float_val \<Rightarrow> int) \<Rightarrow> float_val \<Rightarrow> int" where
  "to_duration conv v =
     (case v of Fin n \<Rightarrow> if - (2 ^ 63) \<le> n \<and> n < 2 ^ 63 then n else conv v | _ \<Rightarrow> conv v)"

section \<open>The limiters\<close>

text \<open>The code outside the repository and the conversions the language leaves open.\<close>

record 'b limiter_env =
  re_reserve :: "'b \<Rightarrow> 'b \<times> int"
  re_conv :: "float_val \<Rightarrow> int"

datatype ('a, 'b) limiter =
    BucketRateLimiter 'b
  | ItemExponentialFailureRateLimiter "'a \<Rightarrow> int option" int int
  | ItemFastSlowRateLimiter "'a \<Rightarrow> int option" int int int
  | MaxOfRateLimiter "('a, 'b) limiter list"
  | WithMaxWaitRateLimiter "('a, 'b) limiter" int

definition failures_get :: "('a \<Rightarrow> int option) \<Rightarrow> 'a \<Rightarrow> int" where
  "failures_get failures item = (case failures item of None \<Rightarrow> 0 | Some n \<Rightarrow> n)"

definition NewItemExponentialFailureRateLimiter :: "int \<Rightarrow> int \<Rightarrow> ('a, 'b) limiter" where
  "NewItemExponentialFailureRateLimiter baseDelay maxDelay =
     ItemExponentialFailureRateLimiter Map.empty baseDelay maxDelay"

definition DefaultItemBasedRateLimiter :: "('a, 'b) limiter" where
  "DefaultItemBasedRateLimiter = NewItemExponentialFailureRateLimiter 1000000 (1000 * 1000000000)"

definition NewItemFastSlowRateLimiter :: "int \<Rightarrow> int \<Rightarrow> int \<Rightarrow> ('a, 'b) limiter" where
  "NewItemFastSlowRateLimiter fastDelay slowDelay maxFastAttempts =
     ItemFastSlowRateLimiter Map.empty maxFastAttempts fastDelay slowDelay"

definition NewMaxOfRateLimiter :: "('a, 'b) limiter list \<Rightarrow> ('a, 'b) limiter" where
  "NewMaxOfRateLimiter limiters = MaxOfRateLimiter limiters"

definition NewWithMaxWaitRateLimiter :: "('a, 'b) limiter \<Rightarrow> int \<Rightarrow> ('a, 'b) limiter" where
  "NewWithMaxWaitRateLimiter limiter maxDelay = WithMaxWaitRateLimiter limiter maxDelay"

definition DefaultControllerRateLimiter :: "'b \<Rightarrow> ('a, 'b) limiter" where
  "DefaultControllerRateLimiter bucket =
     NewMaxOfRateLimiter [NewItemExponentialFailureRateLimiter (5 * 1000000) (1000 * 1000000000),
       BucketRateLimiter bucket]"

definition exponential_delay :: "(float_val \<Rightarrow> int) \<Rightarrow> int \<Rightarrow> int \<Rightarrow> int \<Rightarrow> int" where
  "exponential_delay conv baseDelay maxDelay exp =
     (let backoff = float_backoff baseDelay exp in
      if above_MaxInt64 backoff then maxDelay
      else let calculated = to_duration conv backoff in
           if calculated > maxDelay then maxDelay else calculated)"

fun rl_When :: "'b limiter_env \<Rightarrow> ('a, 'b) limiter \<Rightarrow> 'a \<Rightarrow> ('a, 'b) limiter \<times> int"
  and rl_When_list :: "'b limiter_env \<Rightarrow> ('a, 'b) limiter list \<Rightarrow> 'a \<Rightarrow> int \<Rightarrow> ('a, 'b) limiter list \<times> int"
where
  "rl_When env (BucketRateLimiter b) item =
     (let (b', delay) = re_reserve env b in (BucketRateLimiter b', delay))"
| "rl_When env (ItemExponentialFailureRateLimiter failures baseDelay maxDelay) item =
     (let exp = failures_get failures item
      in (ItemExponentialFailureRateLimiter (failures(item \<mapsto> exp + 1)) baseDelay maxDelay,
          exponential_delay (re_conv env) baseDelay maxDelay exp))"
| "rl_When env (ItemFastSlowRateLimiter failures maxFastAttempts fastDelay slowDelay) item =
     (let n = failures_get failures item + 1
      in (ItemFastSlowRateLimiter (failures(item \<mapsto> n)) maxFastAttempts fastDelay slowDelay,
          if n \<le> maxFastAttempts then fastDelay else slowDelay))"
| "rl_When env (MaxOfRateLimiter limiters) item =
     (let (limiters', ret) = rl_When_list env limiters item 0 in (MaxOfRateLimiter limiters', ret))"
| "rl_When env (WithMaxWaitRateLimiter limiter maxDelay) item =
     (let (limiter', delay) = rl_When env limiter item
      in (WithMaxWaitRateLimiter limiter' maxDelay, if delay > maxDelay then maxDelay else delay))"
| "rl_When_list env [] item ret = ([], ret)"
| "rl_When_list env (limiter # limiters) item ret =
     (let (limiter', curr) = rl_When env limiter item;
          (limiters', ret') = rl_When_list env limiters item (if curr > ret then curr else ret)
      in (limiter' # limiters', ret'))"

fun rl_NumRequeues :: "('a, 'b) limiter \<Rightarrow> 'a \<Rightarrow> int"
  and rl_NumRequeues_list :: "('a, 'b) limiter list \<Rightarrow> 'a \<Rightarrow> int \<Rightarrow> int"
where
  "rl_NumRequeues (BucketRateLimiter b) item = 0"
| "rl_NumRequeues (ItemExponentialFailureRateLimiter failures baseDelay maxDelay) item = failures_get failures item"
| "rl_NumRequeues (ItemFastSlowRateLimiter failures maxFastAttempts fastDelay slowDelay) item = failures_get failures item"
| "rl_NumRequeues (MaxOfRateLimiter limiters) item = rl_NumRequeues_list limiters item 0"
| "rl_NumRequeues (WithMaxWaitRateLimiter limiter maxDelay) item = rl_NumRequeues limiter item"
| "rl_NumRequeues_list [] item ret = ret"
| "rl_NumRequeues_list (limiter # limiters) item ret =
     (let curr = rl_NumRequeues limiter item
      in rl_NumRequeues_list limiters item (if curr > ret then curr else ret))"

fun rl_Forget :: "('a, 'b) limiter \<Rightarrow> 'a \<Rightarrow> ('a, 'b) limiter" where
  "rl_Forget (BucketRateLimiter b) item = BucketRateLimiter b"
| "rl_Forget (ItemExponentialFailureRateLimiter failures baseDelay maxDelay) item =
     ItemExponentialFailureRateLimiter (failures(item := None)) baseDelay maxDelay"
| "rl_Forget (ItemFastSlowRateLimiter failures maxFastAttempts fastDelay slowDelay) item =
     ItemFastSlowRateLimiter (failures(item := None)) maxFastAttempts fastDelay slowDelay"
| "rl_Forget (MaxOfRateLimiter limiters) item = MaxOfRateLimiter (map (\<lambda>l. rl_Forget l item) limiters)"
| "rl_Forget (WithMaxWaitRateLimiter limiter maxDelay) item = WithMaxWaitRateLimiter (rl_Forget limiter item) maxDelay"

section \<open>The rate limiting queue\<close>

record ('q, 'a, 'b) rateLimitingType =
  rlq_delaying :: "('q, 'a) delaying"
  rlq_limiter :: "('a, 'b) limiter"

definition NewRateLimitingQueue :: "('a, 'b) limiter \<Rightarrow> ('a workqueue, 'a, 'b) rateLimitingType" where
  "NewRateLimitingQueue rateLimiter = \<lparr>rlq_delaying = newDelayingQueue newQueue, rlq_limiter = rateLimiter\<rparr>"

definition AddRateLimited ::
  "('q, 'a) queue_methods \<Rightarrow> 'b limiter_env \<Rightarrow> time \<Rightarrow> bool \<Rightarrow> ('q, 'a, 'b) rateLimitingType \<Rightarrow> 'a
     \<Rightarrow> ('q, 'a, 'b) rateLimitingType option"
where
  "AddRateLimited m env now send q item =
     (let (limiter', delay) = rl_When env (rlq_limiter q) item
      in map_option (\<lambda>d. \<lparr>rlq_delaying = d, rlq_limiter = limiter'\<rparr>)
           (dq_AddAfter m now send (rlq_delaying q) item delay))"

definition rlq_NumRequeues :: "('q, 'a, 'b) rateLimitingType \<Rightarrow> 'a \<Rightarrow> int" where
  "rlq_NumRequeues q item = rl_NumRequeues (rlq_limiter q) item"

definition rlq_Forget :: "('q, 'a, 'b) rateLimitingType \<Rightarrow> 'a \<Rightarrow> ('q, 'a, 'b) rateLimitingType" where
  "rlq_Forget q item = q\<lparr>rlq_limiter := rl_Forget (rlq_limiter q) item\<rparr>"

section \<open>The contract of the interface\<close>

datatype 'a rl_call = CallWhen 'a | CallForget 'a

text \<open>The calls of \<open>When\<close> for an item since its last \<open>Forget\<close>.\<close>

fun retries :: "'a \<Rightarrow> nat \<Rightarrow> 'a rl_call list \<Rightarrow> nat" where
  "retries x n [] = n"
| "retries x n (CallWhen y # cs) = retries x (if y = x then Suc n else n) cs"
| "retries x n (CallForget y # cs) = retries x (if y = x then 0 else n) cs"

text \<open>
  \<open>RateLimiter\<close>: \<open>Forget\<close> stops tracking exactly one item, and \<open>When\<close> only changes what is tracked of
  its item, by at most one.
\<close>

locale rate_limiter =
  fixes l_when :: "'l \<Rightarrow> 'a \<Rightarrow> 'l \<times> int"
    and l_forget :: "'l \<Rightarrow> 'a \<Rightarrow> 'l"
    and l_requeues :: "'l \<Rightarrow> 'a \<Rightarrow> int"
    and l_ok :: "'l \<Rightarrow> bool"
  assumes when_law: "l_ok l \<Longrightarrow> l_ok (fst (l_when l x)) \<and>
      (y \<noteq> x \<longrightarrow> l_requeues (fst (l_when l x)) y = l_requeues l y) \<and>
      l_requeues l x \<le> l_requeues (fst (l_when l x)) x \<and> l_requeues (fst (l_when l x)) x \<le> l_requeues l x + 1"
    and forget_law: "l_ok l \<Longrightarrow> l_ok (l_forget l x) \<and>
      l_requeues (l_forget l x) y = (if y = x then 0 else l_requeues l y)"
begin

definition l_step :: "'l \<Rightarrow> 'a rl_call \<Rightarrow> 'l" where
  "l_step l c = (case c of CallWhen x \<Rightarrow> fst (l_when l x) | CallForget x \<Rightarrow> l_forget l x)"

lemma run_retries:
  "l_ok l \<Longrightarrow> l_requeues l x \<le> int n \<Longrightarrow>
     l_ok (foldl l_step l cs) \<and> l_requeues (foldl l_step l cs) x \<le> int (retries x n cs)"
proof (induction x n cs arbitrary: l rule: retries.induct)
  case (2 x n y cs)
  have ok: "l_ok (fst (l_when l y))" using when_law [OF 2(2)] by blast
  have "l_requeues (fst (l_when l y)) x \<le> int (if y = x then Suc n else n)"
    using when_law [OF 2(2), of y x] 2(3) by auto
  then show ?case using 2(1) [OF ok] by (simp add: l_step_def)
next
  case (3 x n y cs)
  have ok: "l_ok (l_forget l y)" using forget_law [OF 3(2)] by blast
  have "l_requeues (l_forget l y) x \<le> int (if y = x then 0 else n)"
    using forget_law [OF 3(2), of y x] 3(3) by simp
  then show ?case using 3(1) [OF ok] by (simp add: l_step_def)
qed simp

end

lemma rl_NumRequeues_list_mono:
  "list_all2 (\<lambda>l l'. rl_NumRequeues l x \<le> rl_NumRequeues l' x \<and> rl_NumRequeues l' x \<le> rl_NumRequeues l x + 1) ls ls' \<Longrightarrow>
     a \<le> b \<Longrightarrow> b \<le> a + 1 \<Longrightarrow>
     rl_NumRequeues_list ls x a \<le> rl_NumRequeues_list ls' x b \<and>
     rl_NumRequeues_list ls' x b \<le> rl_NumRequeues_list ls x a + 1"
proof (induction arbitrary: a b rule: list_all2_induct)
  case (Cons l ls l' ls')
  let ?a = "if rl_NumRequeues l x > a then rl_NumRequeues l x else a"
    and ?b = "if rl_NumRequeues l' x > b then rl_NumRequeues l' x else b"
  have "?a \<le> ?b" "?b \<le> ?a + 1" using Cons by auto
  then show ?case using Cons.IH [of ?a ?b] by (simp add: Let_def)
qed simp

lemma rl_NumRequeues_list_cong:
  "list_all2 (\<lambda>l l'. rl_NumRequeues l' x = rl_NumRequeues l x) ls ls' \<Longrightarrow>
     rl_NumRequeues_list ls' x a = rl_NumRequeues_list ls x a"
  by (induction arbitrary: a rule: list_all2_induct) (simp_all add: Let_def)

lemma failures_get_upd:
  "failures_get (f(x \<mapsto> n)) y = (if y = x then n else failures_get f y)"
  "failures_get (f(x := None)) y = (if y = x then 0 else failures_get f y)"
  by (simp_all add: failures_get_def)

lemma rl_When_list_eq:
  "rl_When_list env ls x ret =
     (map (\<lambda>l. fst (rl_When env l x)) ls, fold max (map (\<lambda>l. snd (rl_When env l x)) ls) ret)"
proof (induction ls arbitrary: ret)
  case (Cons l ls)
  have "(if snd (rl_When env l x) > ret then snd (rl_When env l x) else ret) = max (snd (rl_When env l x)) ret"
    by (simp add: max_def)
  then show ?case using Cons by (simp add: Let_def split: prod.split)
qed simp

lemma rl_When_law:
  "(y \<noteq> x \<longrightarrow> rl_NumRequeues (fst (rl_When env l x)) y = rl_NumRequeues l y) \<and>
   rl_NumRequeues l x \<le> rl_NumRequeues (fst (rl_When env l x)) x \<and>
   rl_NumRequeues (fst (rl_When env l x)) x \<le> rl_NumRequeues l x + 1"
proof (induction l)
  case (MaxOfRateLimiter ls)
  have other: "list_all2 (\<lambda>l l'. rl_NumRequeues l' y = rl_NumRequeues l y) ls (map (\<lambda>l. fst (rl_When env l x)) ls)"
    if "y \<noteq> x" using MaxOfRateLimiter that by (auto simp: list_all2_conv_all_nth)
  have own: "list_all2 (\<lambda>l l'. rl_NumRequeues l x \<le> rl_NumRequeues l' x \<and> rl_NumRequeues l' x \<le> rl_NumRequeues l x + 1)
      ls (map (\<lambda>l. fst (rl_When env l x)) ls)"
    using MaxOfRateLimiter by (auto simp: list_all2_conv_all_nth)
  show ?case
    using rl_NumRequeues_list_cong [OF other] rl_NumRequeues_list_mono [OF own, of 0 0]
    by (simp add: rl_When_list_eq)
qed (auto simp: Let_def failures_get_upd split: prod.split)

lemma rl_Forget_law: "rl_NumRequeues (rl_Forget l x) y = (if y = x then 0 else rl_NumRequeues l y)"
proof (induction l arbitrary: y)
  case (MaxOfRateLimiter ls)
  have "rl_NumRequeues (rl_Forget l x) x = 0" if "l \<in> set ls" for l using MaxOfRateLimiter that by simp
  then have zero: "rl_NumRequeues_list (map (\<lambda>l. rl_Forget l x) ls) x 0 = 0"
    by (induction ls) auto
  have "list_all2 (\<lambda>l l'. rl_NumRequeues l' y = rl_NumRequeues l y) ls (map (\<lambda>l. rl_Forget l x) ls)" if "y \<noteq> x"
    using MaxOfRateLimiter that by (auto simp: list_all2_conv_all_nth)
  then show ?case using rl_NumRequeues_list_cong zero by (cases "y = x") auto
qed (simp_all add: failures_get_upd)

interpretation rl: rate_limiter "rl_When env" rl_Forget rl_NumRequeues "\<lambda>_. True"
  for env
proof
  fix l :: "('b, 'a) limiter" and x y :: 'b
  show "True \<and> (y \<noteq> x \<longrightarrow> rl_NumRequeues (fst (rl_When env l x)) y = rl_NumRequeues l y) \<and>
      rl_NumRequeues l x \<le> rl_NumRequeues (fst (rl_When env l x)) x \<and>
      rl_NumRequeues (fst (rl_When env l x)) x \<le> rl_NumRequeues l x + 1"
    by (rule conjI [OF TrueI rl_When_law])
  show "True \<and> rl_NumRequeues (rl_Forget l x) y = (if y = x then 0 else rl_NumRequeues l y)"
    by (rule conjI [OF TrueI rl_Forget_law])
qed

section \<open>Properties\<close>

lemma f64_small: "\<bar>n\<bar> \<le> 2 ^ 53 \<Longrightarrow> f64 n = n"
  by (simp add: f64_def)

lemma pow_Inf: "n < 2 ^ 63 \<Longrightarrow> (2 :: int) ^ 1024 \<le> m \<Longrightarrow> n < m"
proof -
  assume n: "n < (2 :: int) ^ 63" and m: "(2 :: int) ^ 1024 \<le> m"
  have "(2 :: int) ^ 63 \<le> 2 ^ 1024" by (rule power_increasing) simp_all
  then show ?thesis using n m by linarith
qed

text \<open>The whole behaviour of the formula, the exception included.\<close>

lemma exponential_delay_exact:
  assumes base: "1 \<le> base" "base \<le> 2 ^ 53" and mx: "mx < 2 ^ 63"
  shows "exponential_delay conv base mx (int k) =
     (if base * 2 ^ k = 2 ^ 63 then min (conv (Fin (2 ^ 63))) mx else min (base * 2 ^ k) mx)"
proof -
  let ?v = "base * 2 ^ k"
  have pos: "?v \<ge> 1" using base(1) mult_mono [of 1 base 1 "2 ^ k"] by simp
  have big: "?v \<ge> 2 ^ k" using base(1) mult_right_mono [of 1 base "2 ^ k"] by simp
  have fin: "float_backoff base (int k) = (if ?v \<ge> 2 ^ 1024 then PInf else Fin ?v)"
  proof (cases "k \<ge> 1024")
    case True
    have "(2 :: int) ^ 1024 \<le> 2 ^ k" by (rule power_increasing) (use True in simp_all)
    then have "2 ^ 1024 \<le> ?v" using big by (rule order_trans)
    then show ?thesis using True base(1) by (simp add: float_backoff_def)
  next
    case False
    then show ?thesis using base pos by (simp add: float_backoff_def f64_small float_of_def)
  qed
  show ?thesis
  proof (cases "?v \<ge> 2 ^ 1024")
    case True
    then have "?v \<noteq> 2 ^ 63" "mx < ?v" using pow_Inf [OF mx True] power_strict_increasing [of 63 1024 "2 :: int"] by auto
    then show ?thesis using True fin by (simp add: exponential_delay_def above_MaxInt64_def)
  next
    case False
    then have "float_backoff base (int k) = Fin ?v" using fin by simp
    then show ?thesis
      using pos mx by (auto simp: exponential_delay_def above_MaxInt64_def to_duration_def Let_def min_def)
  qed
qed

lemma exponential_failures:
  "((\<lambda>l. fst (rl_When env l x)) ^^ k) (ItemExponentialFailureRateLimiter Map.empty base mx) =
     ItemExponentialFailureRateLimiter (if k = 0 then Map.empty else [x \<mapsto> int k]) base mx"
  by (induction k) (auto simp: Let_def failures_get_def)

text \<open>
  C37 The exponential limiter: after k failures of an item since it was last forgotten, the next delay
  is the base delay times 2 to the k, capped at the maximum, for every k, however large, for which that product is not
  exactly 2 to the 63; forgetting the item starts over from the base delay.
\<close>

theorem exponential_backoff_exact:
  assumes "1 \<le> base" and "base \<le> 2 ^ 53" and "mx < 2 ^ 63" and "base * 2 ^ k \<noteq> 2 ^ 63"
    and "l = ((\<lambda>l. fst (rl_When env l x)) ^^ k) (NewItemExponentialFailureRateLimiter base mx)"
  shows "snd (rl_When env l x) = min (base * 2 ^ k) mx \<and> rl_NumRequeues l x = int k \<and>
     snd (rl_When env (rl_Forget l x) x) = min base mx"
proof -
  have l: "l = ItemExponentialFailureRateLimiter (if k = 0 then Map.empty else [x \<mapsto> int k]) base mx"
    unfolding assms(5) NewItemExponentialFailureRateLimiter_def by (rule exponential_failures)
  have get: "failures_get (if k = 0 then Map.empty else [x \<mapsto> int k]) x = int k" by (simp add: failures_get_def)
  have "base < 2 ^ 63" using assms(2) by simp
  then have "exponential_delay (re_conv env) base mx 0 = min base mx"
    using exponential_delay_exact [OF assms(1-3), of "re_conv env" 0] by simp
  then show ?thesis
    using exponential_delay_exact [OF assms(1-3), of "re_conv env" k] assms(4) get
    by (simp add: l Let_def failures_get_def)
qed

text \<open>An environment for concrete runs: no delay from the bucket, the conversion of amd64.\<close>

definition amd64_env :: "unit limiter_env" where
  "amd64_env = \<lparr>re_reserve = (\<lambda>u. (u, 0)), re_conv = (\<lambda>_. - (2 ^ 63))\<rparr>"

theorem exponential_backoff_exact_witness:
  "snd (rl_When amd64_env (((\<lambda>l. fst (rl_When amd64_env l ''pod'')) ^^ 3)
     (NewItemExponentialFailureRateLimiter 1000000 1000000000000)) ''pod'') = 8000000"
  using exponential_backoff_exact [of 1000000 1000000000000 3 _ amd64_env "''pod''", OF _ _ _ _ refl] by simp

text \<open>
  The exception: the comment says the cap keeps the computed value from overflowing, but it
  compares with the float64 nearest to the largest int64, which is 2 to the 63. With a base delay that is a
  power of two, here one nanosecond, the 64th delay is 2 to the 63 exactly, passes the test and does not fit.
  Where the conversion gives the least int64, as on amd64, the delay is negative whatever the maximum is, and the rate
  limiting queue adds the item at once.
\<close>

theorem exponential_cap_fails:
  "snd (rl_When amd64_env (((\<lambda>l. fst (rl_When amd64_env l x)) ^^ 63)
     (NewItemExponentialFailureRateLimiter 1 1000000000000)) x) = - (2 ^ 63) \<and>
   map_option (\<lambda>q. wq_queue (dq_q (rlq_delaying q)))
     (AddRateLimited wq_methods amd64_env now True
       \<lparr>rlq_delaying = newDelayingQueue newQueue,
        rlq_limiter = ((\<lambda>l. fst (rl_When amd64_env l x)) ^^ 63) (NewItemExponentialFailureRateLimiter 1 1000000000000)\<rparr> x)
     = Some [x]"
proof -
  let ?l = "((\<lambda>l. fst (rl_When amd64_env l x)) ^^ 63) (NewItemExponentialFailureRateLimiter 1 1000000000000)"
  have "exponential_delay (re_conv amd64_env) 1 1000000000000 (int 63) = - (2 ^ 63)"
    using exponential_delay_exact [of 1 1000000000000 "re_conv amd64_env" 63] by (simp add: amd64_env_def)
  then have delay: "snd (rl_When amd64_env ?l x) = - (2 ^ 63)"
    unfolding NewItemExponentialFailureRateLimiter_def exponential_failures by (simp add: Let_def failures_get_def)
  obtain l' where "rl_When amd64_env ?l x = (l', - (2 ^ 63))" using delay by (metis prod.collapse)
  then show ?thesis
    using delay by (simp add: AddRateLimited_def dq_AddAfter_def newDelayingQueue_def newQueue_def wq_methods_def
        wq_ShuttingDown_def wq_Add_def Let_def)
qed

text \<open>
  The combined limiters: \<open>MaxOfRateLimiter\<close> asks every limiter once and returns the largest of their
  delays, at least zero; \<open>WithMaxWaitRateLimiter\<close> never exceeds its maximum and otherwise is its limiter; and
  \<open>ItemFastSlowRateLimiter\<close> is fast for exactly the given number of attempts.
\<close>

theorem combined_limiters_exact:
  "(let ds = map (\<lambda>l. snd (rl_When env l x)) ls in
      rl_When env (NewMaxOfRateLimiter ls) x =
        (MaxOfRateLimiter (map (\<lambda>l. fst (rl_When env l x)) ls), Max (insert 0 (set ds)))) \<and>
   snd (rl_When env (NewWithMaxWaitRateLimiter l mx) x) = min (snd (rl_When env l x)) mx \<and>
   snd (rl_When env (((\<lambda>l. fst (rl_When env l x)) ^^ k) (NewItemFastSlowRateLimiter fast slow n)) x) =
     (if int k < n then fast else slow)"
proof (intro conjI)
  have "fold max ds r = Max (insert r (set ds))" for ds :: "int list" and r
    using Max.set_eq_fold [of r ds] by simp
  then show "let ds = map (\<lambda>l. snd (rl_When env l x)) ls in
      rl_When env (NewMaxOfRateLimiter ls) x =
        (MaxOfRateLimiter (map (\<lambda>l. fst (rl_When env l x)) ls), Max (insert 0 (set ds)))"
    by (simp add: NewMaxOfRateLimiter_def rl_When_list_eq)
  show "snd (rl_When env (NewWithMaxWaitRateLimiter l mx) x) = min (snd (rl_When env l x)) mx"
    by (simp add: NewWithMaxWaitRateLimiter_def min_def split: prod.split)
  have "((\<lambda>l. fst (rl_When env l x)) ^^ k) (NewItemFastSlowRateLimiter fast slow n) =
      ItemFastSlowRateLimiter (if k = 0 then Map.empty else [x \<mapsto> int k]) n fast slow"
    by (induction k) (auto simp: NewItemFastSlowRateLimiter_def Let_def failures_get_def)
  then show "snd (rl_When env (((\<lambda>l. fst (rl_When env l x)) ^^ k) (NewItemFastSlowRateLimiter fast slow n)) x) =
     (if int k < n then fast else slow)"
    by (auto simp: Let_def failures_get_def)
qed

definition rl_step :: "'b limiter_env \<Rightarrow> ('a, 'b) limiter \<Rightarrow> 'a rl_call \<Rightarrow> ('a, 'b) limiter" where
  "rl_step env l c = (case c of CallWhen x \<Rightarrow> fst (rl_When env l x) | CallForget x \<Rightarrow> rl_Forget l x)"

lemma rl_step_eq: "rl.l_step env = rl_step env"
  by (simp add: rl.l_step_def rl_step_def fun_eq_iff)

text \<open>
  \<open>NumRequeues\<close> of any limiter, nested in any way, never exceeds the calls of \<open>When\<close> for the item since its
  last \<open>Forget\<close>, whatever happens to other items; right after \<open>Forget\<close> it is zero.
\<close>

theorem NumRequeues_bounded:
  "rl_NumRequeues (foldl (rl_step env) (rl_Forget l x) cs) x \<le> int (retries x 0 cs) \<and>
   rl_NumRequeues (rl_Forget l x) x = 0"
proof -
  have zero: "rl_NumRequeues (rl_Forget l x) x = 0" by (simp add: rl_Forget_law)
  then show ?thesis
    using rl.run_retries [of "rl_Forget l x" x 0 env cs] unfolding rl_step_eq by simp
qed

end
