(* ===== verification/ExpirationCache.thy ===== *)
theory ExpirationCache
  imports Store
begin

text \<open>
  \<open>tools/cache/expiration_cache.go\<close>: a store whose entries carry the time of their insertion and are
  removed, when they are read, once the expiration policy says so.

  Every operation holds \<open>expirationLock\<close> while it reads and writes the storage, so one operation is one step;
  \<open>List\<close> takes the lock once per entry. The clock is an argument: the time (in nanoseconds) at which an
  operation reads it. \<open>NewExpirationStore\<close>, the only constructor, gives the storage no indexers:
  the loops over the indexers are over the empty list and cannot panic (\<open>no_indexers_no_panic\<close>).

  The lemmas: with a TTL policy and a clock that does not run backwards, the lazy removal cannot be told from
  a store that keeps every entry and compares its age on each read.
\<close>

section \<open>The cache\<close>

record 'v TimestampedEntry =
  te_Obj :: "'v iface"
  te_Timestamp :: int
  te_key :: string

type_synonym 'v expirationPolicy = "int \<Rightarrow> 'v TimestampedEntry \<Rightarrow> bool"

record 'v ExpirationCache =
  ec_cacheStorage :: "'v TimestampedEntry threadSafeMap"
  ec_keyFunc :: "'v key_func"
  ec_expirationPolicy :: "'v expirationPolicy"

definition TTLPolicy_IsExpired :: "int \<Rightarrow> 'v expirationPolicy" where
  "TTLPolicy_IsExpired ttl now obj \<longleftrightarrow> ttl > 0 \<and> time_Sub now (te_Timestamp obj) > ttl"

definition NewExpirationStore :: "'v key_func \<Rightarrow> 'v expirationPolicy \<Rightarrow> 'v ExpirationCache" where
  "NewExpirationStore keyFunc expirationPolicy =
     \<lparr>ec_cacheStorage = NewThreadSafeStore Map.empty Map.empty, ec_keyFunc = keyFunc,
      ec_expirationPolicy = expirationPolicy\<rparr>"

definition NewTTLStore :: "'v key_func \<Rightarrow> int \<Rightarrow> 'v ExpirationCache" where
  "NewTTLStore keyFunc ttl = NewExpirationStore keyFunc (TTLPolicy_IsExpired ttl)"

definition getTimestampedEntry :: "'v ExpirationCache \<Rightarrow> string \<Rightarrow> 'v TimestampedEntry option \<times> bool" where
  "getTimestampedEntry c key =
     (let (item, _) = tsm_Get (ec_cacheStorage c) key in
      case item of Some tsEntry \<Rightarrow> (Some tsEntry, True) | None \<Rightarrow> (None, False))"

definition getOrExpire :: "int \<Rightarrow> 'v ExpirationCache \<Rightarrow> string \<Rightarrow> 'v ExpirationCache \<times> 'v iface \<times> bool" where
  "getOrExpire now c key =
     (case getTimestampedEntry c key of
        (Some timestampedItem, True) \<Rightarrow>
          if ec_expirationPolicy c now timestampedItem
          then (c\<lparr>ec_cacheStorage := fst (tsm_Delete [] (ec_cacheStorage c) key)\<rparr>, None, False)
          else (c, te_Obj timestampedItem, True)
      | _ \<Rightarrow> (c, None, False))"

definition ec_GetByKey :: "int \<Rightarrow> 'v ExpirationCache \<Rightarrow> string \<Rightarrow> 'v ExpirationCache \<times> 'v iface \<times> bool" where
  "ec_GetByKey now c key = getOrExpire now c key"

definition ec_Get ::
  "int \<Rightarrow> 'v ExpirationCache \<Rightarrow> 'v iface \<Rightarrow> 'v ExpirationCache \<times> ('v, 'v iface \<times> bool) res"
where
  "ec_Get now c obj =
     (case ec_keyFunc c obj of
        Inl err \<Rightarrow> (c, Inl (KeyError obj err))
      | Inr key \<Rightarrow> let (c', r) = getOrExpire now c key in (c', Inr r))"

text \<open>
  The loop of \<open>List\<close> over the items that the storage listed; \<open>now i\<close> is the clock at its i-th call of
  \<open>getOrExpire\<close>. \<open>None\<close> is the panic of the type assertion on an item that is not a \<open>TimestampedEntry\<close>.
\<close>

fun ec_List_loop ::
  "(nat \<Rightarrow> int) \<Rightarrow> nat \<Rightarrow> 'v TimestampedEntry iface list \<Rightarrow> 'v ExpirationCache \<Rightarrow> 'v iface list
     \<Rightarrow> ('v ExpirationCache \<times> 'v iface list) option"
where
  "ec_List_loop now i [] c list = Some (c, list)"
| "ec_List_loop now i (None # items) c list = None"
| "ec_List_loop now i (Some entry # items) c list =
     (let (c', obj, exists) = getOrExpire (now i) c (te_key entry)
      in ec_List_loop now (Suc i) items c' (if exists then list @ [obj] else list))"

definition ec_List ::
  "string list \<Rightarrow> (nat \<Rightarrow> int) \<Rightarrow> 'v ExpirationCache \<Rightarrow> ('v ExpirationCache \<times> 'v iface list) option"
where
  "ec_List order now c = ec_List_loop now 0 (tsm_List order (ec_cacheStorage c)) c []"

definition ec_ListKeys :: "string list \<Rightarrow> 'v ExpirationCache \<Rightarrow> string list" where
  "ec_ListKeys order c = tsm_ListKeys order (ec_cacheStorage c)"

definition ec_Add :: "int \<Rightarrow> 'v ExpirationCache \<Rightarrow> 'v iface \<Rightarrow> 'v ExpirationCache \<times> 'v error option" where
  "ec_Add now c obj =
     (case ec_keyFunc c obj of
        Inl err \<Rightarrow> (c, Some (KeyError obj err))
      | Inr key \<Rightarrow>
          (c\<lparr>ec_cacheStorage := fst (tsm_Add [] (ec_cacheStorage c) key
              (Some \<lparr>te_Obj = obj, te_Timestamp = now, te_key = key\<rparr>))\<rparr>, None))"

definition ec_Update :: "int \<Rightarrow> 'v ExpirationCache \<Rightarrow> 'v iface \<Rightarrow> 'v ExpirationCache \<times> 'v error option" where
  "ec_Update now c obj = ec_Add now c obj"

definition ec_Delete :: "'v ExpirationCache \<Rightarrow> 'v iface \<Rightarrow> 'v ExpirationCache \<times> 'v error option" where
  "ec_Delete c obj =
     (case ec_keyFunc c obj of
        Inl err \<Rightarrow> (c, Some (KeyError obj err))
      | Inr key \<Rightarrow> (c\<lparr>ec_cacheStorage := fst (tsm_Delete [] (ec_cacheStorage c) key)\<rparr>, None))"

text \<open>The loop of \<open>Replace\<close>: the timestamped entries by key, all with the time \<open>ts\<close>.\<close>

fun timestamped_items ::
  "'v key_func \<Rightarrow> int \<Rightarrow> 'v iface list \<Rightarrow> 'v TimestampedEntry iface gomap \<Rightarrow> ('v, 'v TimestampedEntry iface gomap) res"
where
  "timestamped_items keyFunc ts [] items = Inr items"
| "timestamped_items keyFunc ts (item # list) items =
     (case keyFunc item of
        Inl err \<Rightarrow> Inl (KeyError item err)
      | Inr key \<Rightarrow> timestamped_items keyFunc ts list
          (items(key \<mapsto> Some \<lparr>te_Obj = item, te_Timestamp = ts, te_key = key\<rparr>)))"

definition ec_Replace ::
  "string list \<Rightarrow> int \<Rightarrow> 'v ExpirationCache \<Rightarrow> 'v iface list \<Rightarrow> 'v ExpirationCache \<times> 'v error option"
where
  "ec_Replace order now c list =
     (case timestamped_items (ec_keyFunc c) now list Map.empty of
        Inl err \<Rightarrow> (c, Some err)
      | Inr items \<Rightarrow>
          (c\<lparr>ec_cacheStorage := fst (tsm_Replace (\<lambda>_. []) order (ec_cacheStorage c) items)\<rparr>, None))"

definition ec_Resync :: "'v ExpirationCache \<Rightarrow> 'v ExpirationCache \<times> 'v error option" where
  "ec_Resync c = (c, None)"

section \<open>Storage without indexers\<close>

lemma updateIndices_no_order [simp]: "updateIndices [] i old new key = (i, None)"
  by simp

lemma rebuildIndices_no_order [simp]: "rebuildIndices (\<lambda>_. []) keys items i = (i, None)"
  by (induction keys) auto

lemma no_indexers_no_panic:
  "snd (tsm_Add [] st key obj) = None" "snd (tsm_Delete [] st key) = None" "snd (tsm_Replace (\<lambda>_. []) ks st items) = None"
  by (auto simp: tsm_Add_def tsm_Update_def tsm_Delete_def tsm_Replace_def Let_def split: option.split)

lemma no_indexers_items [simp]:
  "tsm_items (fst (tsm_Add [] st key obj)) = (tsm_items st)(key \<mapsto> obj)"
  "tsm_items (fst (tsm_Delete [] st key)) = (tsm_items st)(key := None)"
  "tsm_items (fst (tsm_Replace (\<lambda>_. []) ks st items)) = items"
  by (auto simp: tsm_Add_def tsm_Update_def tsm_Delete_def tsm_Replace_def Let_def fun_eq_iff split: option.split)

section \<open>A store that never removes what expired\<close>

text \<open>The specification: for each key the object and the time of its last write; a read compares the age.\<close>

type_synonym 'v ttl_spec = "string \<Rightarrow> ('v iface \<times> int) option"

definition spec_fresh :: "int \<Rightarrow> int \<Rightarrow> int \<Rightarrow> bool" where
  "spec_fresh ttl now ts \<longleftrightarrow> ttl \<le> 0 \<or> now - ts \<le> ttl"

definition spec_read :: "int \<Rightarrow> int \<Rightarrow> 'v ttl_spec \<Rightarrow> string \<Rightarrow> 'v iface \<times> bool" where
  "spec_read ttl now s key =
     (case s key of Some (obj, ts) \<Rightarrow> if spec_fresh ttl now ts then (obj, True) else (None, False)
      | None \<Rightarrow> (None, False))"

fun spec_items :: "'v key_func \<Rightarrow> int \<Rightarrow> 'v iface list \<Rightarrow> 'v ttl_spec \<Rightarrow> 'v ttl_spec option" where
  "spec_items keyFunc ts [] s = Some s"
| "spec_items keyFunc ts (obj # list) s =
     (case keyFunc obj of Inl _ \<Rightarrow> None | Inr key \<Rightarrow> spec_items keyFunc ts list (s(key \<mapsto> (obj, ts))))"

text \<open>The runs of a cache with the clock at the last operation, together with the specification.\<close>

inductive ec_reach :: "'v key_func \<Rightarrow> int \<Rightarrow> int \<Rightarrow> 'v ExpirationCache \<Rightarrow> 'v ttl_spec \<Rightarrow> bool"
  for keyFunc :: "'v key_func" and ttl :: int
where
  start: "ec_reach keyFunc ttl t (NewTTLStore keyFunc ttl) Map.empty"
| add: "ec_reach keyFunc ttl t c s \<Longrightarrow> t \<le> now \<Longrightarrow> ec_Add now c obj = (c', err) \<Longrightarrow>
    s' = (case keyFunc obj of Inl _ \<Rightarrow> s | Inr key \<Rightarrow> s(key \<mapsto> (obj, now))) \<Longrightarrow> ec_reach keyFunc ttl now c' s'"
| update: "ec_reach keyFunc ttl t c s \<Longrightarrow> t \<le> now \<Longrightarrow> ec_Update now c obj = (c', err) \<Longrightarrow>
    s' = (case keyFunc obj of Inl _ \<Rightarrow> s | Inr key \<Rightarrow> s(key \<mapsto> (obj, now))) \<Longrightarrow> ec_reach keyFunc ttl now c' s'"
| delete: "ec_reach keyFunc ttl t c s \<Longrightarrow> ec_Delete c obj = (c', err) \<Longrightarrow>
    s' = (case keyFunc obj of Inl _ \<Rightarrow> s | Inr key \<Rightarrow> s(key := None)) \<Longrightarrow> ec_reach keyFunc ttl t c' s'"
| replace: "ec_reach keyFunc ttl t c s \<Longrightarrow> t \<le> now \<Longrightarrow> ec_Replace order now c list = (c', err) \<Longrightarrow>
    s' = (case spec_items keyFunc now list Map.empty of None \<Rightarrow> s | Some s'' \<Rightarrow> s'') \<Longrightarrow>
    ec_reach keyFunc ttl now c' s'"
| get: "ec_reach keyFunc ttl t c s \<Longrightarrow> t \<le> now \<Longrightarrow> ec_Get now c obj = (c', r) \<Longrightarrow> ec_reach keyFunc ttl now c' s"
| getByKey: "ec_reach keyFunc ttl t c s \<Longrightarrow> t \<le> now \<Longrightarrow> ec_GetByKey now c key = (c', r) \<Longrightarrow>
    ec_reach keyFunc ttl now c' s"
| list: "ec_reach keyFunc ttl t c s \<Longrightarrow> (\<And>i. t \<le> now i \<and> now i \<le> now (Suc i) \<and> now i \<le> t') \<Longrightarrow>
    ec_List order now c = Some (c', l) \<Longrightarrow> ec_reach keyFunc ttl t' c' s"
| passes: "ec_reach keyFunc ttl t c s \<Longrightarrow> t \<le> t' \<Longrightarrow> ec_reach keyFunc ttl t' c s"

definition ec_sim_key :: "int \<Rightarrow> int \<Rightarrow> 'v TimestampedEntry iface option \<Rightarrow> ('v iface \<times> int) option \<Rightarrow> string \<Rightarrow> bool" where
  "ec_sim_key ttl t item entry key \<longleftrightarrow>
     (case item of
        Some (Some e) \<Rightarrow> entry = Some (te_Obj e, te_Timestamp e) \<and> te_key e = key
      | Some None \<Rightarrow> False
      | None \<Rightarrow> (case entry of None \<Rightarrow> True | Some (_, ts) \<Rightarrow> \<not> spec_fresh ttl t ts))"

definition ec_sim :: "'v key_func \<Rightarrow> int \<Rightarrow> int \<Rightarrow> 'v ExpirationCache \<Rightarrow> 'v ttl_spec \<Rightarrow> bool" where
  "ec_sim keyFunc ttl t c s \<longleftrightarrow> ec_keyFunc c = keyFunc \<and> ec_expirationPolicy c = TTLPolicy_IsExpired ttl \<and>
     finite (dom (tsm_items (ec_cacheStorage c))) \<and>
     (\<forall>key. ec_sim_key ttl t (tsm_items (ec_cacheStorage c) key) (s key) key)"

lemma TTLPolicy_fresh: "ttl < 2 ^ 63 - 1 \<Longrightarrow> TTLPolicy_IsExpired ttl now e \<longleftrightarrow> \<not> spec_fresh ttl now (te_Timestamp e)"
  by (auto simp: TTLPolicy_IsExpired_def spec_fresh_def time_Sub_def)

lemma spec_fresh_mono: "spec_fresh ttl t' ts \<Longrightarrow> t \<le> t' \<Longrightarrow> spec_fresh ttl t ts"
  by (auto simp: spec_fresh_def)

lemma ec_sim_key_mono: "ec_sim_key ttl t item entry key \<Longrightarrow> t \<le> t' \<Longrightarrow> ec_sim_key ttl t' item entry key"
  by (auto simp: ec_sim_key_def dest: spec_fresh_mono split: option.splits)

lemma ec_sim_mono: "ec_sim keyFunc ttl t c s \<Longrightarrow> t \<le> t' \<Longrightarrow> ec_sim keyFunc ttl t' c s"
  by (auto simp: ec_sim_def intro: ec_sim_key_mono)

lemma ec_sim_key_written [simp]:
  "ec_sim_key ttl t (Some (Some e)) entry key \<longleftrightarrow> entry = Some (te_Obj e, te_Timestamp e) \<and> te_key e = key"
  "ec_sim_key ttl t None None key" "\<not> ec_sim_key ttl t (Some None) entry key"
  "ec_sim_key ttl t None (Some (obj, ts)) key \<longleftrightarrow> \<not> spec_fresh ttl t ts"
  by (auto simp: ec_sim_key_def)

lemma getOrExpire_sim:
  assumes sim: "ec_sim keyFunc ttl t c s" and t: "t \<le> now" and ttl: "ttl < 2 ^ 63 - 1"
    and get: "getOrExpire now c key = (c', r)"
  shows "r = spec_read ttl now s key" "ec_sim keyFunc ttl now c' s"
    "tsm_items (ec_cacheStorage c') = (if snd r then tsm_items (ec_cacheStorage c) else (tsm_items (ec_cacheStorage c))(key := None))"
proof -
  note sim' = ec_sim_mono [OF sim t]
  have key: "ec_sim_key ttl now (tsm_items (ec_cacheStorage c) key) (s key) key" and pol: "ec_expirationPolicy c = TTLPolicy_IsExpired ttl"
    using sim' by (auto simp: ec_sim_def)
  note defs = getOrExpire_def getTimestampedEntry_def tsm_Get_def map_get_def
  have "r = spec_read ttl now s key \<and> ec_sim keyFunc ttl now c' s \<and>
    tsm_items (ec_cacheStorage c') = (if snd r then tsm_items (ec_cacheStorage c) else (tsm_items (ec_cacheStorage c))(key := None))"
  proof (cases "tsm_items (ec_cacheStorage c) key")
    case None
    then have "c' = c \<and> r = (None, False)" using get by (simp add: defs)
    moreover have "spec_read ttl now s key = (None, False)"
      using key None by (auto simp: ec_sim_key_def spec_read_def split: option.splits)
    ultimately show ?thesis using sim' None by (auto simp: fun_upd_idem)
  next
    case (Some item)
    then obtain e where item: "tsm_items (ec_cacheStorage c) key = Some (Some e)" using key by (cases item) auto
    then have s: "s key = Some (te_Obj e, te_Timestamp e)" using key by simp
    show ?thesis
    proof (cases "spec_fresh ttl now (te_Timestamp e)")
      case True
      then show ?thesis using get sim' by (auto simp: defs item pol TTLPolicy_fresh [OF ttl] spec_read_def s)
    next
      case False
      then have "r = (None, False)" "c' = c\<lparr>ec_cacheStorage := fst (tsm_Delete [] (ec_cacheStorage c) key)\<rparr>"
        using get by (auto simp: defs item pol TTLPolicy_fresh [OF ttl])
      then show ?thesis using sim' False by (auto simp: spec_read_def s ec_sim_def)
    qed
  qed
  then show "r = spec_read ttl now s key" "ec_sim keyFunc ttl now c' s"
    "tsm_items (ec_cacheStorage c') = (if snd r then tsm_items (ec_cacheStorage c) else (tsm_items (ec_cacheStorage c))(key := None))"
    by auto
qed

definition spec_list :: "int \<Rightarrow> (nat \<Rightarrow> int) \<Rightarrow> 'v ttl_spec \<Rightarrow> nat \<Rightarrow> string list \<Rightarrow> 'v iface list" where
  "spec_list ttl now s i keys =
     map fst (filter snd (map (\<lambda>(j, key). spec_read ttl (now j) s key) (enumerate i keys)))"

lemma spec_list_simps [simp]:
  "spec_list ttl now s i [] = []"
  "spec_list ttl now s i (key # keys) =
     (case spec_read ttl (now i) s key of (obj, exists) \<Rightarrow> if exists then [obj] else []) @ spec_list ttl now s (Suc i) keys"
  by (auto simp: spec_list_def split: prod.split)

lemma ec_List_loop_sim:
  assumes "ec_sim keyFunc ttl t c s" and "ttl < 2 ^ 63 - 1" and "t \<le> now i" and "\<And>j. now j \<le> now (Suc j) \<and> now j \<le> t'"
  shows "\<exists>c'. ec_List_loop now i (map Some es) c l = Some (c', l @ spec_list ttl now s i (map te_key es)) \<and>
     ec_sim keyFunc ttl t' c' s"
  using assms(1,3)
proof (induction es arbitrary: i c l t)
  case Nil
  moreover have "t \<le> t'" using Nil.prems(2) assms(4) [of i] by linarith
  ultimately show ?case using ec_sim_mono by fastforce
next
  case (Cons e es)
  obtain c1 obj exists where get: "getOrExpire (now i) c (te_key e) = (c1, obj, exists)" using prod_cases3 by blast
  note step = getOrExpire_sim [OF Cons.prems assms(2) get]
  have "now i \<le> now (Suc i)" using assms(4) by simp
  from Cons.IH [OF step(2) this, of "if exists then l @ [obj] else l"]
  show ?case by (auto simp: get step(1) [symmetric] split: if_splits)
qed

lemma ec_List_items:
  assumes "ec_sim keyFunc ttl t c s"
  shows "\<exists>es. tsm_List order (ec_cacheStorage c) = map Some es \<and> map te_key es = tsm_ListKeys order (ec_cacheStorage c)"
proof (induction order)
  case (Cons k ks)
  have "ec_sim_key ttl t (tsm_items (ec_cacheStorage c) k) (s k) k" using assms by (simp add: ec_sim_def)
  then show ?case
    using Cons by (auto simp: tsm_List_def tsm_ListKeys_def List.map_filter_def ec_sim_key_def intro: exI [of _ "_ # _"] split: option.splits)
qed (simp add: tsm_List_def tsm_ListKeys_def List.map_filter_def)

lemma ec_List_sim:
  assumes "ec_sim keyFunc ttl t c s" and "ttl < 2 ^ 63 - 1" and "t \<le> now 0" and "\<And>j. now j \<le> now (Suc j) \<and> now j \<le> t'"
  shows "\<exists>c'. ec_List order now c = Some (c', spec_list ttl now s 0 (tsm_ListKeys order (ec_cacheStorage c))) \<and>
     ec_sim keyFunc ttl t' c' s"
proof -
  obtain es where es: "tsm_List order (ec_cacheStorage c) = map Some es" "map te_key es = tsm_ListKeys order (ec_cacheStorage c)"
    using ec_List_items [OF assms(1)] by blast
  show ?thesis using ec_List_loop_sim [OF assms, of es "[]"] unfolding ec_List_def es(1) es(2) by simp
qed

lemma timestamped_items_sim:
  assumes "finite (dom items)" and "\<And>key. ec_sim_key ttl t (items key) (s key) key"
  shows "case timestamped_items keyFunc ts list items of
      Inl _ \<Rightarrow> spec_items keyFunc ts list s = None
    | Inr items' \<Rightarrow> finite (dom items') \<and> (\<exists>s'. spec_items keyFunc ts list s = Some s' \<and> (\<forall>key. ec_sim_key ttl t (items' key) (s' key) key))"
  using assms
proof (induction list arbitrary: items s)
  case (Cons obj list)
  show ?case
  proof (cases "keyFunc obj")
    case (Inr key)
    let ?items = "items(key \<mapsto> Some \<lparr>te_Obj = obj, te_Timestamp = ts, te_key = key\<rparr>)" and ?s = "s(key \<mapsto> (obj, ts))"
    have "finite (dom ?items)" "\<And>key. ec_sim_key ttl t (?items key) (?s key) key" using Cons.prems by auto
    from Cons.IH [OF this] show ?thesis unfolding timestamped_items.simps spec_items.simps Inr sum.case .
  qed simp
qed simp

lemma ec_Add_sim:
  assumes "ec_sim keyFunc ttl t c s" and "t \<le> now" and "ec_Add now c obj = (c', err)"
  shows "ec_sim keyFunc ttl now c' (case keyFunc obj of Inl _ \<Rightarrow> s | Inr key \<Rightarrow> s(key \<mapsto> (obj, now)))"
  using ec_sim_mono [OF assms(1,2)] assms(3) by (auto simp: ec_sim_def ec_Add_def split: sum.splits)

lemma ec_Replace_sim:
  assumes "ec_sim keyFunc ttl t c s" and "t \<le> now" and "ec_Replace order now c list = (c', err)"
  shows "ec_sim keyFunc ttl now c' (case spec_items keyFunc now list Map.empty of None \<Rightarrow> s | Some s'' \<Rightarrow> s'')"
  using ec_sim_mono [OF assms(1,2)] assms(3) timestamped_items_sim [of Map.empty ttl now Map.empty keyFunc now list]
  by (auto simp: ec_sim_def ec_Replace_def split: sum.splits)

lemma ec_reach_sim: "ec_reach keyFunc ttl t c s \<Longrightarrow> ttl < 2 ^ 63 - 1 \<Longrightarrow> ec_sim keyFunc ttl t c s"
proof (induction rule: ec_reach.induct)
  case (start t)
  then show ?case by (simp add: ec_sim_def NewTTLStore_def NewExpirationStore_def NewThreadSafeStore_def)
next
  case (delete t c s obj c' err s')
  then show ?case by (auto simp: ec_sim_def ec_Delete_def split: sum.splits)
next
  case (get t c s now obj c' r)
  then show ?case
    by (auto simp: ec_Get_def intro: ec_sim_mono getOrExpire_sim(2) split: sum.splits prod.splits)
next
  case (list t c s now t' order c' l)
  then show ?case using ec_List_sim [of keyFunc ttl t c s now t' order] by auto
qed (auto simp: ec_Update_def ec_GetByKey_def intro: ec_Add_sim ec_Replace_sim ec_sim_mono getOrExpire_sim(2))

lemma spec_list_const:
  "spec_list ttl (\<lambda>_. now) s i keys = map (\<lambda>key. fst (spec_read ttl now s key)) (filter (\<lambda>key. snd (spec_read ttl now s key)) keys)"
  by (induction keys arbitrary: i) (auto split: prod.split)

lemma ec_sim_fresh_keys:
  assumes "ec_sim keyFunc ttl t c s" and "t \<le> now"
  shows "snd (spec_read ttl now s key) \<Longrightarrow> tsm_items (ec_cacheStorage c) key \<noteq> None"
  using ec_sim_mono [OF assms] by (auto simp: ec_sim_def ec_sim_key_def spec_read_def split: option.splits if_splits) fastforce

text \<open>
  C38 The expiration cache: after any sequence of operations with a clock that does not run backwards, reading a
  key, by \<open>GetByKey\<close> or by \<open>Get\<close>, gives exactly the object of the last \<open>Add\<close>, \<open>Update\<close> or \<open>Replace\<close> of the
  key if it has not been deleted or replaced away since and is no older than the TTL, and \<open>List\<close> returns exactly
  those objects, each once: the lazy removal of expired entries shows in no read.
\<close>

theorem expiration_cache_exact:
  assumes "ec_reach keyFunc ttl t c s" and "ttl < 2 ^ 63 - 1" and "t \<le> now"
    and "range_order order (tsm_items (ec_cacheStorage c))"
  shows "snd (ec_GetByKey now c key) = spec_read ttl now s key \<and>
    snd (ec_Get now c obj) = (case keyFunc obj of Inl err \<Rightarrow> Inl (KeyError obj err) | Inr key' \<Rightarrow> Inr (spec_read ttl now s key')) \<and>
    (\<exists>c' keys. ec_List order (\<lambda>_. now) c = Some (c', map (\<lambda>key. fst (spec_read ttl now s key)) keys) \<and>
       distinct keys \<and> set keys = {key. snd (spec_read ttl now s key)})"
proof (intro conjI)
  note sim = ec_reach_sim [OF assms(1,2)]
  have read: "snd (getOrExpire now c key) = spec_read ttl now s key" for key
    using getOrExpire_sim(1) [OF sim assms(3,2)] by (metis prod.collapse)
  then show "snd (ec_GetByKey now c key) = spec_read ttl now s key" by (simp add: ec_GetByKey_def)
  show "snd (ec_Get now c obj) = (case keyFunc obj of Inl err \<Rightarrow> Inl (KeyError obj err) | Inr key' \<Rightarrow> Inr (spec_read ttl now s key'))"
    using sim read by (auto simp: ec_Get_def ec_sim_def split: sum.split prod.split) (metis snd_conv)+
  let ?keys = "filter (\<lambda>key. snd (spec_read ttl now s key)) (tsm_ListKeys order (ec_cacheStorage c))"
  have "distinct ?keys \<and> set ?keys = {key. snd (spec_read ttl now s key)}"
    using assms(4) ec_sim_fresh_keys [OF sim assms(3)] by (fastforce simp: tsm_ListKeys_def range_order_def)
  moreover obtain c' where "ec_List order (\<lambda>_. now) c = Some (c', map (\<lambda>key. fst (spec_read ttl now s key)) ?keys)"
    using ec_List_sim [OF sim assms(2), of "\<lambda>_. now" now order] assms(3) unfolding spec_list_const by auto
  ultimately show "\<exists>c' keys. ec_List order (\<lambda>_. now) c = Some (c', map (\<lambda>key. fst (spec_read ttl now s key)) keys) \<and>
       distinct keys \<and> set keys = {key. snd (spec_read ttl now s key)}" by blast
qed

definition demo_key :: "string key_func" where
  "demo_key obj = (case obj of None \<Rightarrow> Inl (Errorf ''no key'') | Some v \<Rightarrow> Inr v)"

definition demo_cache :: "string ExpirationCache" where
  "demo_cache = fst (ec_Add 100 (NewTTLStore demo_key 10) (Some ''a''))"

lemma demo_cache_reach: "ec_reach demo_key 10 100 demo_cache [''a'' \<mapsto> (Some ''a'', 100)]"
proof -
  have "ec_Add 100 (NewTTLStore demo_key 10) (Some ''a'') = (demo_cache, None)"
    by (simp add: demo_cache_def ec_Add_def NewTTLStore_def NewExpirationStore_def demo_key_def)
  then show ?thesis using ec_reach.add [OF ec_reach.start, of 100 100 demo_key 10 "Some ''a''" demo_cache None] by (simp add: demo_key_def)
qed

lemma demo_cache_items: "tsm_items (ec_cacheStorage demo_cache) = [''a'' \<mapsto> Some \<lparr>te_Obj = Some ''a'', te_Timestamp = 100, te_key = ''a''\<rparr>]"
  by (simp add: demo_cache_def ec_Add_def NewTTLStore_def NewExpirationStore_def demo_key_def NewThreadSafeStore_def)

theorem expiration_cache_exact_witness:
  "snd (ec_GetByKey 110 demo_cache ''a'') = (Some ''a'', True) \<and> snd (ec_GetByKey 111 demo_cache ''a'') = (None, False)"
  using expiration_cache_exact [OF demo_cache_reach, of 110 "[''a'']" "''a''" None]
    expiration_cache_exact [OF demo_cache_reach, of 111 "[''a'']" "''a''" None]
  by (simp add: demo_cache_items range_order_def spec_read_def spec_fresh_def)

end
