(* ===== verification/Informer.thy ===== *)
theory Informer
  imports DeltaFIFO
begin

text \<open>
  \<open>tools/cache/controller.go\<close>: how an informer is put together. \<open>newInformer\<close> connects a \<open>DeltaFIFO\<close>
  with a \<open>Store\<close>, which is at once the target of the deltas and the \<open>knownObjects\<close> of the queue;
  \<open>processDeltas\<close> moves one accumulator into the store and notifies a handler; \<open>processLoop\<close> pops
  until the queue is closed. The reflector that feeds the queue is represented by its calls of the
  queue's methods, in any order.

  The lemmas, proved once for every store that keeps the contract of the interface: whatever the
  producer does, the store together with the pending deltas shows exactly the state the producer
  described, so that a drained queue leaves the store equal to it; and the notifications are a
  consistent history of the store.
\<close>

section \<open>Notifications and processDeltas\<close>

datatype 'o notification = OnAdd "'o obj" bool | OnUpdate "'o obj" "'o obj" | OnDelete "'o obj"

text \<open>The methods of the interface \<open>Store\<close> that the informer and the queue call.\<close>

record ('s, 'o) store_methods =
  so_Add :: "'s \<Rightarrow> 'o obj \<Rightarrow> 's \<times> 'o goval ret"
  so_Update :: "'s \<Rightarrow> 'o obj \<Rightarrow> 's \<times> 'o goval ret"
  so_Delete :: "'s \<Rightarrow> 'o obj \<Rightarrow> 's \<times> 'o goval ret"
  so_Get :: "'s \<Rightarrow> 'o obj \<Rightarrow> ('o goval, 'o obj \<times> bool) res"
  so_ListKeys :: "'s \<Rightarrow> string list"
  so_GetByKey :: "'s \<Rightarrow> string \<Rightarrow> ('o goval, 'o obj \<times> bool) res"

type_synonym ('s, 'o) client = "'s \<times> 'o notification list"

definition notify_or_return ::
  "'s \<times> 'o goval ret \<Rightarrow> 'o notification list \<Rightarrow> 'o notification
     \<Rightarrow> ('s, 'o) client \<times> 'o goval proc_result"
where
  "notify_or_return r log n =
     (case r of
        (s, Ret None) \<Rightarrow> ((s, log @ [n]), ProcOk)
      | (s, Ret (Some err)) \<Rightarrow> ((s, log), ProcErr err)
      | (s, Panic err) \<Rightarrow> ((s, log), ProcPanic err))"

fun processDeltas ::
  "('s, 'o) store_methods \<Rightarrow> 'o deltas \<Rightarrow> bool \<Rightarrow> ('s, 'o) client
     \<Rightarrow> ('s, 'o) client \<times> 'o goval proc_result"
where
  "processDeltas m [] isInInitialList (s, log) = ((s, log), ProcOk)"
| "processDeltas m (d # deltas) isInInitialList (s, log) =
     (let obj = snd d in
      case (if fst d = Deleted then notify_or_return (so_Delete m s obj) log (OnDelete obj)
            else case so_Get m s obj of
                   Inr (old, True) \<Rightarrow> notify_or_return (so_Update m s obj) log (OnUpdate old obj)
                 | _ \<Rightarrow> notify_or_return (so_Add m s obj) log (OnAdd obj isInInitialList)) of
        (client, ProcOk) \<Rightarrow> processDeltas m deltas isInInitialList client
      | (client, r) \<Rightarrow> (client, r))"

section \<open>The informer\<close>

record ('s, 'o) informer =
  inf_queue :: "'o DeltaFIFO"
  inf_client :: "('s, 'o) client"

definition newInformer ::
  "'o accessor \<Rightarrow> 's \<Rightarrow> ('o obj \<Rightarrow> ('o goval, 'o obj) res) option \<Rightarrow> ('s, 'o) informer"
where
  "newInformer accessor clientState transformer =
     \<lparr>inf_queue = NewDeltaFIFOWithOptions (MetaNamespaceKeyFunc accessor) True transformer,
      inf_client = (clientState, [])\<rparr>"

definition knownObjects :: "('s, 'o) store_methods \<Rightarrow> ('s, 'o) informer \<Rightarrow> 'o known_objects" where
  "knownObjects m i =
     \<lparr>ko_ListKeys = so_ListKeys m (fst (inf_client i)),
      ko_GetByKey = so_GetByKey m (fst (inf_client i))\<rparr>"

text \<open>The calls that reach the queue: those of the reflector, and the pops of \<open>processLoop\<close>.\<close>

datatype 'o informer_call =
    CAdd "'o obj" | CUpdate "'o obj" | CDelete "'o obj" | CReplace "'o obj list" | CResync | CPop

definition informer_pop ::
  "('s, 'o) store_methods \<Rightarrow> ('s, 'o) informer \<Rightarrow> ('s, 'o) informer \<times> ('o goval, 'o deltas option) pop_out"
where
  "informer_pop m i =
     (let (f, client, out) = df_Pop (processDeltas m) (inf_queue i) (inf_client i)
      in (\<lparr>inf_queue = f, inf_client = client\<rparr>, out))"

fun informer_apply ::
  "('s, 'o) store_methods \<Rightarrow> ('o deltas gomap \<Rightarrow> string list) \<Rightarrow> ('s, 'o) informer \<Rightarrow> 'o informer_call
     \<Rightarrow> ('s, 'o) informer"
where
  "informer_apply m order i (CAdd obj) = i\<lparr>inf_queue := fst (df_Add (inf_queue i) obj)\<rparr>"
| "informer_apply m order i (CUpdate obj) = i\<lparr>inf_queue := fst (df_Update (inf_queue i) obj)\<rparr>"
| "informer_apply m order i (CDelete obj) =
     i\<lparr>inf_queue := fst (df_Delete (inf_queue i) (Some (knownObjects m i)) obj)\<rparr>"
| "informer_apply m order i (CReplace list) =
     i\<lparr>inf_queue := fst (df_Replace order (inf_queue i) (Some (knownObjects m i)) list)\<rparr>"
| "informer_apply m order i CResync =
     i\<lparr>inf_queue := fst (df_Resync (inf_queue i) (Some (knownObjects m i)))\<rparr>"
| "informer_apply m order i CPop = fst (informer_pop m i)"

definition informer_run ::
  "('s, 'o) store_methods \<Rightarrow> ('o deltas gomap \<Rightarrow> string list) \<Rightarrow> ('s, 'o) informer \<Rightarrow> 'o informer_call list
     \<Rightarrow> ('s, 'o) informer"
where
  "informer_run m order = foldl (informer_apply m order)"

text \<open>
  \<open>processLoop\<close> as it runs once the queue is closed and no producer is left: it pops until \<open>Pop\<close>
  reports the closed queue. With \<open>RetryOnError\<close>, which is false in every informer of the package,
  what was popped goes back after any other error, and whether it could be put back is not looked at;
  a panic ends the loop. The fuel is the number of pops, and \<open>None\<close> is running out.
\<close>

fun processLoop ::
  "bool \<Rightarrow> nat \<Rightarrow> ('s, 'o) store_methods \<Rightarrow> ('s, 'o) informer \<Rightarrow> ('s, 'o) informer option"
where
  "processLoop retryOnError 0 m i = None"
| "processLoop retryOnError (Suc fuel) m i =
     (case informer_pop m i of
        (i', Returns obj (Some err)) \<Rightarrow>
          if err = ErrFIFOClosed then Some i'
          else processLoop retryOnError fuel m
                 (if retryOnError
                  then i'\<lparr>inf_queue := fst (df_AddIfNotPresent (inf_queue i') (map_option DeltasVal obj))\<rparr>
                  else i')
      | (i', Returns _ None) \<Rightarrow> processLoop retryOnError fuel m i'
      | (i', _) \<Rightarrow> None)"

section \<open>What the deltas of a key amount to\<close>

definition is_deltas :: "'o obj \<Rightarrow> bool" where
  "is_deltas obj = (case obj of Some (DeltasVal _) \<Rightarrow> True | _ \<Rightarrow> False)"

definition deltas_view :: "'o obj option \<Rightarrow> 'o deltas \<Rightarrow> 'o obj option" where
  "deltas_view cur ds =
     (if ds = [] then cur else if fst (last ds) = Deleted then None else Some (snd (last ds)))"

text \<open>A deletion only follows an object: one in the store, or one of an earlier delta.\<close>

fun deltas_wf :: "bool \<Rightarrow> 'o deltas \<Rightarrow> bool" where
  "deltas_wf present [] \<longleftrightarrow> True"
| "deltas_wf present (d # ds) \<longleftrightarrow>
     (if fst d = Deleted then present \<and> deltas_wf False ds else deltas_wf True ds)"

fun deltas_log :: "bool \<Rightarrow> 'o obj option \<Rightarrow> 'o deltas \<Rightarrow> 'o notification list" where
  "deltas_log initial cur [] = []"
| "deltas_log initial cur (d # ds) =
     (if fst d = Deleted then OnDelete (snd d) # deltas_log initial None ds
      else (case cur of None \<Rightarrow> OnAdd (snd d) initial | Some old \<Rightarrow> OnUpdate old (snd d))
             # deltas_log initial (Some (snd d)) ds)"

lemma deltas_view_Nil [simp]: "deltas_view cur [] = cur"
  by (simp add: deltas_view_def)

lemma deltas_view_Cons:
  "deltas_view cur (d # ds) = deltas_view (if fst d = Deleted then None else Some (snd d)) ds"
  by (simp add: deltas_view_def)

lemma deltas_view_snoc: "deltas_view cur (ds @ [d]) = (if fst d = Deleted then None else Some (snd d))"
  by (simp add: deltas_view_def)

lemma deltas_wf_snoc:
  "deltas_wf present (ds @ [d]) \<longleftrightarrow> deltas_wf present ds \<and>
     (fst d = Deleted \<longrightarrow> (if ds = [] then present else fst (last ds) \<noteq> Deleted))"
  by (induction ds arbitrary: present) auto

lemma isDup_both: "fst a = Deleted \<Longrightarrow> fst b = Deleted \<Longrightarrow> \<exists>out. isDup a b = Some out"
  by (auto simp: isDup_def isDeletionDup_def split: option.split goval.split)

lemma dedupDeltas_cases:
  obtains (plain) "dedupDeltas (ds @ [a]) = ds @ [a]" "ds = [] \<or> \<not> (fst a = Deleted \<and> fst (last ds) = Deleted)"
  | (merged) out where "ds \<noteq> []" "fst a = Deleted" "fst (last ds) = Deleted" "fst out = Deleted"
      "out = a \<or> out = last ds" "dedupDeltas (ds @ [a]) = butlast ds @ [out]"
proof (cases "ds = []")
  case False
  show ?thesis
  proof (cases "isDup a (last ds)")
    case None
    then show ?thesis using plain isDup_both [of a "last ds"] False by (auto simp: dedupDeltas_snoc)
  next
    case (Some out)
    have "fst a = Deleted \<and> fst (last ds) = Deleted \<and> (out = a \<or> out = last ds)"
      by (rule isDup_Deleted [OF Some])
    then show ?thesis using merged [of out] Some False by (auto simp: dedupDeltas_snoc)
  qed
qed (use plain in simp)

lemma deltas_view_dedup:
  "deltas_view cur (dedupDeltas (ds @ [(t, obj)])) = (if t = Deleted then None else Some obj)"
  by (cases rule: dedupDeltas_cases [of ds "(t, obj)"]) (auto simp: deltas_view_snoc)

lemma deltas_wf_dedup:
  assumes "deltas_wf present ds" and "fst a = Deleted \<Longrightarrow> ds \<noteq> [] \<or> present"
  shows "deltas_wf present (dedupDeltas (ds @ [a]))"
proof (cases rule: dedupDeltas_cases [of ds a])
  case plain
  then show ?thesis using assms by (auto simp: deltas_wf_snoc)
next
  case (merged out)
  obtain xs b where ds: "ds = xs @ [b]" using merged(1) by (cases ds rule: rev_cases) auto
  show ?thesis using assms(1) merged by (simp add: ds deltas_wf_snoc)
qed

lemma set_dedupDeltas: "set (dedupDeltas (ds @ [a])) \<subseteq> insert a (set ds)"
proof (cases rule: dedupDeltas_cases [of ds a])
  case (merged out)
  then show ?thesis using last_in_set [OF merged(1)] in_set_butlastD [of _ ds] by auto
qed simp

text \<open>
  Reading the notifications as a history: an addition needs an absent key, an update the object last
  reported, a deletion a present key. \<open>None\<close> is an inconsistent history.
\<close>

fun replay :: "'o goval key_func \<Rightarrow> 'o notification list \<Rightarrow> 'o obj gomap \<Rightarrow> 'o obj gomap option" where
  "replay key [] m = Some m"
| "replay key (OnAdd obj initial # log) m =
     (case key obj of
        Inl _ \<Rightarrow> None
      | Inr k \<Rightarrow> if m k = None then replay key log (m(k \<mapsto> obj)) else None)"
| "replay key (OnUpdate old obj # log) m =
     (case key obj of
        Inl _ \<Rightarrow> None
      | Inr k \<Rightarrow> if m k = Some old then replay key log (m(k \<mapsto> obj)) else None)"
| "replay key (OnDelete obj # log) m =
     (case key obj of
        Inl _ \<Rightarrow> None
      | Inr k \<Rightarrow> if m k \<noteq> None then replay key log (m(k := None)) else None)"

lemma replay_append:
  "replay key (xs @ ys) m = (case replay key xs m of None \<Rightarrow> None | Some m' \<Rightarrow> replay key ys m')"
  by (induction xs m rule: replay.induct [of _ key]) (auto simp: fun_upd_def split: sum.split)

lemma replay_deltas_log:
  "deltas_wf (m k \<noteq> None) ds \<Longrightarrow> \<forall>d \<in> set ds. key (snd d) = Inr k \<Longrightarrow>
     replay key (deltas_log initial (m k) ds) m = Some (m(k := deltas_view (m k) ds))"
proof (induction ds arbitrary: m)
  case (Cons d ds)
  have key: "key (snd d) = Inr k" using Cons.prems(2) by simp
  have del: "replay key (deltas_log initial None ds) (m(k := None)) = Some (m(k := deltas_view None ds))"
    if "fst d = Deleted" using Cons.IH [of "m(k := None)"] Cons.prems that by (simp add: fun_upd_def cong: if_cong)
  have set: "replay key (deltas_log initial (Some (snd d)) ds) (m(k \<mapsto> snd d)) =
      Some (m(k := deltas_view (Some (snd d)) ds))"
    if "fst d \<noteq> Deleted" using Cons.IH [of "m(k \<mapsto> snd d)"] Cons.prems that by (simp add: fun_upd_def cong: if_cong)
  show ?case
    using Cons.prems key del set by (cases "m k") (simp_all add: deltas_view_Cons fun_upd_def split: if_splits)
qed simp

text \<open>What the producer's calls say about the world, independently of queue and store.\<close>

fun informer_spec ::
  "'o goval key_func \<Rightarrow> ('o obj \<Rightarrow> 'o obj) \<Rightarrow> 'o obj gomap \<Rightarrow> 'o informer_call \<Rightarrow> 'o obj gomap"
where
  "informer_spec key tr world (CAdd obj) =
     (case key obj of Inl _ \<Rightarrow> world | Inr k \<Rightarrow> world(k \<mapsto> tr obj))"
| "informer_spec key tr world (CUpdate obj) =
     (case key obj of Inl _ \<Rightarrow> world | Inr k \<Rightarrow> world(k \<mapsto> tr obj))"
| "informer_spec key tr world (CDelete obj) =
     (case key obj of Inl _ \<Rightarrow> world | Inr k \<Rightarrow> world(k := None))"
| "informer_spec key tr world (CReplace list) = map_of (rev (map (\<lambda>obj. (projr (key obj), tr obj)) list))"
| "informer_spec key tr world CResync = world"
| "informer_spec key tr world CPop = world"

lemma map_of_rev_last:
  "map_of (rev (map (\<lambda>x. (h x, g x)) xs)) k =
     (let hits = filter (\<lambda>x. h x = k) xs in if hits = [] then None else Some (g (last hits)))"
  by (induction xs rule: rev_induct) (auto simp: Let_def)

lemma deltas_wf_append_objects:
  "\<forall>d \<in> set adds. fst d \<noteq> Deleted \<Longrightarrow> deltas_wf present (ds @ adds) = deltas_wf present ds"
proof (induction adds rule: rev_induct)
  case (snoc d adds)
  then have "deltas_wf present ((ds @ adds) @ [d]) = deltas_wf present ds"
    unfolding deltas_wf_snoc by simp
  then show ?case by simp
qed simp

lemma set_df_append: "d \<in> set (df_append f k a) \<Longrightarrow> d = a \<or> d \<in> set (df_items_get f k)"
  using set_dedupDeltas [of "df_items_get f k" a] by (auto simp: df_append_def)

section \<open>The informer over any store\<close>

text \<open>
  The contract of the store, with the two methods the queue reads it by. A client of the contract
  needs nothing else of the store.
\<close>

locale informer_store =
  store_iface "so_Add m" "so_Update m" "so_Delete m" "so_Get m" content ok key accepts
  for m :: "('s, 'o) store_methods"
    and content :: "'s \<Rightarrow> 'o obj gomap"
    and ok :: "'s \<Rightarrow> bool"
    and key :: "'o goval key_func"
    and accepts :: "'s \<Rightarrow> 'o obj \<Rightarrow> bool" +
  assumes list_keys_law: "ok s \<Longrightarrow> set (so_ListKeys m s) = dom (content s)"
    and get_by_key_law: "ok s \<Longrightarrow> so_GetByKey m s k = Inr (map_get (content s) k, content s k \<noteq> None)"
begin

lemma processDeltas_correct:
  assumes "ok s" and "\<forall>d \<in> set ds. key (snd d) = Inr k \<and> (fst d \<noteq> Deleted \<longrightarrow> accepts s (snd d))"
  shows "\<exists>s'. processDeltas m ds initial (s, log) =
       ((s', log @ deltas_log initial (content s k) ds), ProcOk) \<and> ok s' \<and> accepts s' = accepts s \<and>
       content s' = (content s)(k := deltas_view (content s k) ds)"
  using assms
proof (induction ds arbitrary: s log)
  case (Cons d ds)
  have key: "key (snd d) = Inr k" using Cons.prems(2) by simp
  have get: "so_Get m s (snd d) = Inr (map_get (content s) k, content s k \<noteq> None)"
    using get_law [OF Cons.prems(1), of "snd d"] key by simp
  define n where "n = (if fst d = Deleted then OnDelete (snd d)
      else case content s k of None \<Rightarrow> OnAdd (snd d) initial | Some old \<Rightarrow> OnUpdate old (snd d))"
  define v where "v = (if fst d = Deleted then None else Some (snd d))"
  have "\<exists>s1. processDeltas m (d # ds) initial (s, log) = processDeltas m ds initial (s1, log @ [n]) \<and>
      ok s1 \<and> accepts s1 = accepts s \<and> content s1 = (content s)(k := v)"
  proof (cases "fst d = Deleted")
    case True
    then show ?thesis using delete_law [OF Cons.prems(1) key]
      by (auto simp: notify_or_return_def n_def v_def)
  next
    case False
    then have acc: "accepts s (snd d)" using Cons.prems(2) by simp
    show ?thesis
      using False get add_law [OF Cons.prems(1) key acc] update_law [OF Cons.prems(1) key acc]
      by (cases "content s k") (auto simp: notify_or_return_def n_def v_def map_get_def)
  qed
  then obtain s1 where s1: "processDeltas m (d # ds) initial (s, log) = processDeltas m ds initial (s1, log @ [n])"
    "ok s1" "accepts s1 = accepts s" "content s1 = (content s)(k := v)" by blast
  have "\<forall>d \<in> set ds. key (snd d) = Inr k \<and> (fst d \<noteq> Deleted \<longrightarrow> accepts s1 (snd d))"
    using Cons.prems(2) s1(3) by simp
  from Cons.IH [OF s1(2) this, of "log @ [n]"] obtain s' where s':
    "processDeltas m ds initial (s1, log @ [n]) =
       ((s', (log @ [n]) @ deltas_log initial (content s1 k) ds), ProcOk)"
    "ok s'" "accepts s' = accepts s1" "content s' = (content s1)(k := deltas_view (content s1 k) ds)" by blast
  have "deltas_log initial (content s k) (d # ds) = n # deltas_log initial v ds"
    by (simp add: n_def v_def split: option.split)
  moreover have "content s' = (content s)(k := deltas_view v ds)" using s'(4) s1(4) by simp
  moreover have "deltas_view (content s k) (d # ds) = deltas_view v ds" by (simp add: deltas_view_Cons v_def)
  ultimately show ?case using s1 s' by (intro exI [of _ s']) simp
qed simp

text \<open>What the informer shows of a key: the newest pending delta, else what the store has.\<close>

definition view :: "('s, 'o) informer \<Rightarrow> 'o obj gomap" where
  "view i k = deltas_view (content (fst (inf_client i)) k) (df_items_get (inf_queue i) k)"

text \<open>
  The configuration: queue and store compute the same keys, and the transformer, where there is
  one, keeps the key, makes no list of deltas and is idempotent.
\<close>

definition configured :: "'o DeltaFIFO \<Rightarrow> bool" where
  "configured f \<longleftrightarrow> (\<forall>obj. \<not> is_deltas obj \<longrightarrow> df_KeyOf f obj = key obj) \<and>
     (\<forall>obj k. \<not> is_deltas obj \<and> key obj = Inr k \<longrightarrow>
        (\<exists>obj'. df_transform f obj = Inr obj' \<and> key obj' = Inr k \<and> \<not> is_deltas obj' \<and>
                df_transform f obj' = Inr obj'))"

definition fits :: "'o DeltaFIFO \<Rightarrow> 's \<Rightarrow> string \<Rightarrow> 'o obj \<Rightarrow> bool" where
  "fits f s k obj \<longleftrightarrow> key obj = Inr k \<and> \<not> is_deltas obj \<and> df_transform f obj = Inr obj \<and> accepts s obj"

definition key_inv :: "'o DeltaFIFO \<Rightarrow> 's \<Rightarrow> string \<Rightarrow> 'o deltas \<Rightarrow> bool" where
  "key_inv f s k ds \<longleftrightarrow> (\<forall>obj. content s k = Some obj \<longrightarrow> fits f s k obj) \<and>
     (\<forall>d \<in> set ds. key (snd d) = Inr k \<and> (fst d \<noteq> Deleted \<longrightarrow> fits f s k (snd d))) \<and>
     deltas_wf (content s k \<noteq> None) ds"

definition inv :: "('s, 'o) informer \<Rightarrow> bool" where
  "inv i \<longleftrightarrow> df_ok (inf_queue i) \<and> ok (fst (inf_client i)) \<and> configured (inf_queue i) \<and>
     (\<forall>k. key_inv (inf_queue i) (fst (inf_client i)) k (df_items_get (inf_queue i) k))"

lemma configured_grows: "configured f \<Longrightarrow> df_grows f g \<Longrightarrow> configured g"
  using df_grows_KeyOf [of f g] df_grows_transform [of f g] by (simp add: configured_def)

lemma key_inv_cong: "df_transform g = df_transform f \<Longrightarrow> key_inv g s k ds = key_inv f s k ds"
  by (simp add: key_inv_def fits_def)

lemma queueAction_succeeds:
  assumes cfg: "configured f" and "\<not> is_deltas obj" and k: "key obj = Inr k"
  obtains obj' where "df_transform f obj = Inr obj'" "key obj' = Inr k" "\<not> is_deltas obj'"
    "df_transform f obj' = Inr obj'" "df_KeyOf f obj = Inr k"
    "queueActionLocked f t obj = (df_enqueue f k (df_append f k (t, obj')), None)"
proof -
  have key: "df_KeyOf f obj = Inr k" using assms by (simp add: configured_def)
  obtain obj' where "df_transform f obj = Inr obj'" "key obj' = Inr k" "\<not> is_deltas obj'"
    "df_transform f obj' = Inr obj'" using assms unfolding configured_def by metis
  then show ?thesis using key that by (simp add: queueActionLocked_eq)
qed

lemma key_inv_append:
  assumes "key_inv f s k (df_items_get f k)" and "key obj = Inr k" and "t \<noteq> Deleted \<Longrightarrow> fits f s k obj"
    and "t = Deleted \<Longrightarrow> df_items_get f k \<noteq> [] \<or> content s k \<noteq> None"
  shows "key_inv f s k (df_append f k (t, obj))"
  using assms deltas_wf_dedup [of "content s k \<noteq> None" "df_items_get f k" "(t, obj)"] set_df_append [of _ f k "(t, obj)"]
  unfolding key_inv_def df_append_def by fastforce


text \<open>Changing only the queue, key by key.\<close>

lemma inv_queueI:
  assumes "inv i" and "df_ok g" and "df_grows (inf_queue i) g"
    and "\<And>k. key_inv (inf_queue i) (fst (inf_client i)) k (df_items_get g k)"
  shows "inv (i\<lparr>inf_queue := g\<rparr>)"
  using assms configured_grows [OF _ assms(3)] df_grows_transform [OF assms(3)] key_inv_cong [of g "inf_queue i"]
  by (simp add: inv_def)

lemma view_queue:
  "view (i\<lparr>inf_queue := g\<rparr>) k = deltas_view (content (fst (inf_client i)) k) (df_items_get g k)"
  by (simp add: view_def)

lemma inv_items: "inv i \<Longrightarrow> key_inv (inf_queue i) (fst (inf_client i)) k (df_items_get (inf_queue i) k)"
  by (simp add: inv_def)

lemma inv_enqueue:
  assumes inv: "inv i" and "key_inv (inf_queue i) (fst (inf_client i)) k (df_append (inf_queue i) k (t, obj))"
  shows "inv (i\<lparr>inf_queue := df_enqueue (inf_queue i) k (df_append (inf_queue i) k (t, obj))\<rparr>)"
  by (rule inv_queueI [OF inv])
    (use assms in \<open>auto simp: inv_def df_enqueue_ok df_items_get_enqueue\<close>)

lemma view_enqueue:
  "view (i\<lparr>inf_queue := df_enqueue (inf_queue i) k (df_append (inf_queue i) k (t, obj))\<rparr>)
     = (view i)(k := if t = Deleted then None else Some obj)"
  by (rule ext) (simp add: view_queue df_items_get_enqueue df_append_def deltas_view_dedup view_def)

text \<open>The flag \<open>populated\<close> has no influence on what is pending.\<close>

lemma inv_populated: "inv i \<Longrightarrow> inv (i\<lparr>inf_queue := (inf_queue i)\<lparr>df_populated := True\<rparr>\<rparr>)"
  by (rule inv_queueI)
    (auto simp: inv_def df_populated_ok df_populated_grows df_items_get_def)

lemma view_populated: "view (i\<lparr>inf_queue := (inf_queue i)\<lparr>df_populated := True\<rparr>\<rparr>) = view i"
  by (simp add: view_def df_items_get_def fun_eq_iff)

definition transformed :: "('s, 'o) informer \<Rightarrow> 'o obj \<Rightarrow> 'o obj" where
  "transformed i obj = projr (df_transform (inf_queue i) obj)"

text \<open>The objects a producer may pass: no lists of deltas, and nothing the store's indexers reject.\<close>

definition admissible :: "('s, 'o) informer \<Rightarrow> 'o obj \<Rightarrow> bool" where
  "admissible i obj \<longleftrightarrow> \<not> is_deltas obj \<and> accepts (fst (inf_client i)) (transformed i obj)"

lemma enqueue_object:
  assumes inv: "inv i" and adm: "admissible i obj" and k: "key obj = Inr k" and t: "t \<noteq> Deleted"
  shows "\<exists>f'. queueActionLocked (inf_queue i) t obj = (f', None) \<and> inv (i\<lparr>inf_queue := f'\<rparr>) \<and>
     view (i\<lparr>inf_queue := f'\<rparr>) = (view i)(k \<mapsto> transformed i obj)"
proof -
  have cfg: "configured (inf_queue i)" using inv by (simp add: inv_def)
  obtain obj' where obj': "df_transform (inf_queue i) obj = Inr obj'" "key obj' = Inr k" "\<not> is_deltas obj'"
    "df_transform (inf_queue i) obj' = Inr obj'"
    "queueActionLocked (inf_queue i) t obj = (df_enqueue (inf_queue i) k (df_append (inf_queue i) k (t, obj')), None)"
    using queueAction_succeeds [OF cfg _ k] adm unfolding admissible_def by metis
  have tr: "transformed i obj = obj'" by (simp add: transformed_def obj'(1))
  have "fits (inf_queue i) (fst (inf_client i)) k obj'"
    using obj' adm tr by (simp add: fits_def admissible_def)
  then have "key_inv (inf_queue i) (fst (inf_client i)) k (df_append (inf_queue i) k (t, obj'))"
    by (intro key_inv_append [OF inv_items [OF inv] obj'(2)]) (use t in auto)
  then show ?thesis using obj'(5) inv_enqueue [OF inv] view_enqueue [of i k t obj'] tr t by auto
qed

lemma enqueue_deletion:
  assumes inv: "inv i" and "\<not> is_deltas obj" and k: "key obj = Inr k"
    and "df_items_get (inf_queue i) k \<noteq> [] \<or> content (fst (inf_client i)) k \<noteq> None"
  shows "\<exists>f'. queueActionLocked (inf_queue i) Deleted obj = (f', None) \<and> inv (i\<lparr>inf_queue := f'\<rparr>) \<and>
     view (i\<lparr>inf_queue := f'\<rparr>) = (view i)(k := None)"
proof -
  have cfg: "configured (inf_queue i)" using inv by (simp add: inv_def)
  obtain obj' where obj': "key obj' = Inr k"
    "queueActionLocked (inf_queue i) Deleted obj =
       (df_enqueue (inf_queue i) k (df_append (inf_queue i) k (Deleted, obj')), None)"
    using queueAction_succeeds [OF cfg assms(2) k] by metis
  have "key_inv (inf_queue i) (fst (inf_client i)) k (df_append (inf_queue i) k (Deleted, obj'))"
    by (rule key_inv_append [OF inv_items [OF inv] obj'(1)]) (use assms(4) in auto)
  then show ?thesis using obj'(2) inv_enqueue [OF inv] view_enqueue [of i k Deleted obj'] by auto
qed

text \<open>The calls, one by one.\<close>

lemma call_object:
  assumes inv: "inv i" and adm: "admissible i obj" and t: "t \<noteq> Deleted"
    and call: "queueActionLocked ((inf_queue i)\<lparr>df_populated := True\<rparr>) t obj = (f', e)"
  shows "inv (i\<lparr>inf_queue := f'\<rparr>) \<and> view (i\<lparr>inf_queue := f'\<rparr>) =
     (case key obj of Inl _ \<Rightarrow> view i | Inr k \<Rightarrow> (view i)(k \<mapsto> transformed i obj))"
proof -
  let ?i = "i\<lparr>inf_queue := (inf_queue i)\<lparr>df_populated := True\<rparr>\<rparr>"
  have inv1: "inv ?i" by (rule inv_populated [OF inv])
  have tr: "transformed ?i obj = transformed i obj" by (simp add: transformed_def df_transform_def)
  have adm1: "admissible ?i obj" using adm tr by (simp add: admissible_def)
  show ?thesis
  proof (cases "key obj")
    case (Inl err)
    then have "df_KeyOf (inf_queue ?i) obj = Inl err"
      using inv1 adm by (simp add: inv_def configured_def admissible_def)
    then show ?thesis using call inv1 view_populated [of i] Inl by (auto simp: queueActionLocked_eq)
  next
    case (Inr k)
    from enqueue_object [OF inv1 adm1 Inr t] show ?thesis
      using call view_populated [of i] Inr tr by auto
  qed
qed

lemma call_delete:
  assumes inv: "inv i" and "\<not> is_deltas obj"
    and call: "df_Delete (inf_queue i) (Some (knownObjects m i)) obj = (f', e)"
  shows "inv (i\<lparr>inf_queue := f'\<rparr>) \<and> view (i\<lparr>inf_queue := f'\<rparr>) =
     (case key obj of Inl _ \<Rightarrow> view i | Inr k \<Rightarrow> (view i)(k := None))"
proof -
  let ?i = "i\<lparr>inf_queue := (inf_queue i)\<lparr>df_populated := True\<rparr>\<rparr>"
  have inv1: "inv ?i" by (rule inv_populated [OF inv])
  have key: "df_KeyOf (inf_queue i) obj = key obj" using inv assms(2) by (simp add: inv_def configured_def)
  have ok: "ok (fst (inf_client i))" "df_ok (inf_queue i)" using inv by (auto simp: inv_def)
  show ?thesis
  proof (cases "key obj")
    case (Inl err)
    then have "f' = inf_queue i" using call key by (simp add: df_Delete_def)
    then show ?thesis using inv Inl by simp
  next
    case (Inr k)
    let ?absent = "content (fst (inf_client i)) k = None \<and> df_items (inf_queue i) k = None"
    have get: "ko_GetByKey (knownObjects m i) k =
        Inr (map_get (content (fst (inf_client i))) k, content (fst (inf_client i)) k \<noteq> None)"
      using get_by_key_law [OF ok(1)] by (simp add: knownObjects_def)
    show ?thesis
    proof (cases ?absent)
      case True
      then have "f' = (inf_queue i)\<lparr>df_populated := True\<rparr>" using call key Inr get by (simp add: df_Delete_def)
      moreover have "view i k = None" using True by (simp add: view_def df_items_get_def)
      ultimately show ?thesis using inv1 view_populated [of i] Inr by (simp add: fun_upd_idem)
    next
      case False
      then have q: "queueActionLocked (inf_queue ?i) Deleted obj = (f', e)"
        using call key Inr get by (auto simp: df_Delete_def)
      have "df_items_get (inf_queue ?i) k \<noteq> [] \<or> content (fst (inf_client ?i)) k \<noteq> None"
        using False df_ok_items_get [OF ok(2), of k] by (auto simp: df_items_get_def)
      from enqueue_deletion [OF inv1 assms(2) Inr this] show ?thesis
        using q view_populated [of i] Inr by auto
    qed
  qed
qed

lemma call_resync_loop:
  assumes "inv i" and "ks = knownObjects m i" and "set keys \<subseteq> dom (content (fst (inf_client i)))"
  shows "\<exists>f'. df_resync_loop ks (inf_queue i) keys = (f', None) \<and> inv (i\<lparr>inf_queue := f'\<rparr>) \<and>
     view (i\<lparr>inf_queue := f'\<rparr>) = view i"
  using assms
proof (induction keys arbitrary: i)
  case (Cons k keys)
  let ?f = "inf_queue i" and ?s = "fst (inf_client i)"
  have ok: "ok ?s" using Cons.prems(1) by (simp add: inv_def)
  obtain obj where obj: "content ?s k = Some obj" using Cons.prems(3) by auto
  have fits: "fits ?f ?s k obj" using inv_items [OF Cons.prems(1), of k] obj by (simp add: key_inv_def)
  have get: "ko_GetByKey ks k = Inr (obj, True)"
    using get_by_key_law [OF ok, of k] obj Cons.prems(2) by (simp add: knownObjects_def map_get_def)
  have key: "df_KeyOf ?f obj = Inr k"
    using Cons.prems(1) fits by (simp add: inv_def configured_def fits_def)
  have tr: "transformed i obj = obj" using fits by (simp add: transformed_def fits_def)
  have adm: "admissible i obj" using fits tr by (simp add: admissible_def fits_def)
  have "\<exists>f1. syncKeyLocked ks ?f k = (f1, None) \<and> inv (i\<lparr>inf_queue := f1\<rparr>) \<and> view (i\<lparr>inf_queue := f1\<rparr>) = view i"
  proof (cases "df_items_get ?f k = []")
    case False
    then show ?thesis using get key Cons.prems(1) by (simp add: syncKeyLocked_def)
  next
    case True
    then have "view i k = Some obj" using obj by (simp add: view_def)
    then show ?thesis
      using enqueue_object [OF Cons.prems(1) adm _, of k Sync] get key True tr fits
      by (auto simp: syncKeyLocked_def fits_def fun_upd_idem)
  qed
  then obtain f1 where f1: "syncKeyLocked ks ?f k = (f1, None)" "inv (i\<lparr>inf_queue := f1\<rparr>)"
    "view (i\<lparr>inf_queue := f1\<rparr>) = view i" by blast
  have ks1: "ks = knownObjects m (i\<lparr>inf_queue := f1\<rparr>)" using Cons.prems(2) by (simp add: knownObjects_def)
  have "set keys \<subseteq> dom (content (fst (inf_client (i\<lparr>inf_queue := f1\<rparr>))))" using Cons.prems(3) by simp
  from Cons.IH [OF f1(2) ks1 this] show ?case using f1 by auto
qed simp

lemma call_resync:
  assumes "inv i"
  shows "\<exists>f'. df_Resync (inf_queue i) (Some (knownObjects m i)) = (f', None) \<and> inv (i\<lparr>inf_queue := f'\<rparr>) \<and>
     view (i\<lparr>inf_queue := f'\<rparr>) = view i"
  using call_resync_loop [OF assms refl, of "so_ListKeys m (fst (inf_client i))"] list_keys_law assms
  by (simp add: df_Resync_def knownObjects_def inv_def)

lemma replace_add_succeeds:
  assumes "configured f" and "\<forall>obj \<in> set list. \<not> is_deltas obj \<and> (\<exists>k. key obj = Inr k)"
  shows "\<exists>f' keys'. df_replace_add action f keys list = (f', keys', None)"
  using assms
proof (induction list arbitrary: f keys)
  case (Cons obj list)
  obtain k where k: "key obj = Inr k" and nd: "\<not> is_deltas obj" using Cons.prems(2) by auto
  obtain obj' where q: "df_KeyOf f obj = Inr k"
    "queueActionLocked f action obj = (df_enqueue f k (df_append f k (action, obj')), None)"
    using queueAction_succeeds [OF Cons.prems(1) nd k] by metis
  have "configured (df_enqueue f k (df_append f k (action, obj')))"
    using Cons.prems(1) by (simp add: configured_def)
  then show ?case using Cons.IH Cons.prems(2) q by simp
qed simp

lemma tombstone_key:
  assumes "configured f"
  shows "key (Some (DeletedFinalStateUnknown k obj)) = Inr k"
proof -
  have "\<not> is_deltas (Some (DeletedFinalStateUnknown k obj))" by (simp add: is_deltas_def)
  then have "df_KeyOf f (Some (DeletedFinalStateUnknown k obj)) = key (Some (DeletedFinalStateUnknown k obj))"
    using assms unfolding configured_def by blast
  then show ?thesis by simp
qed

lemma tombstone_succeeds:
  assumes cfg: "configured f"
  shows "queueActionLocked f Deleted (Some (DeletedFinalStateUnknown k obj)) =
       (df_enqueue f k (df_append f k (tombstone f k obj)), None)"
    and "key (snd (tombstone f k obj)) = Inr k"
proof -
  have "\<not> is_deltas (Some (DeletedFinalStateUnknown k obj))" by (simp add: is_deltas_def)
  from queueAction_succeeds [OF cfg this tombstone_key [OF cfg]]
  obtain obj' where "df_transform f (Some (DeletedFinalStateUnknown k obj)) = Inr obj'" "key obj' = Inr k"
    "queueActionLocked f Deleted (Some (DeletedFinalStateUnknown k obj)) =
       (df_enqueue f k (df_append f k (Deleted, obj')), None)" by metis
  then show "queueActionLocked f Deleted (Some (DeletedFinalStateUnknown k obj)) =
       (df_enqueue f k (df_append f k (tombstone f k obj)), None)"
    and "key (snd (tombstone f k obj)) = Inr k" by (simp_all add: tombstone_def)
qed

lemma configured_enqueue: "configured f \<Longrightarrow> configured (df_enqueue f k ds)"
  by (simp add: configured_def)

lemma replace_queued_succeeds:
  "configured f \<Longrightarrow> \<exists>f' n'. df_replace_queued keys f n order = (f', n', None)"
proof (induction order arbitrary: f n)
  case (Cons k order)
  then show ?case
    using tombstone_succeeds(1) [OF Cons.prems, of k] configured_enqueue [OF Cons.prems]
    by (auto split: option.split)
qed simp

lemma replace_known_succeeds:
  "configured f \<Longrightarrow> \<exists>f' n'. df_replace_known ko keys f n ks = (f', n', None)"
proof (induction ks arbitrary: f n)
  case (Cons k ks)
  then show ?case
    using tombstone_succeeds(1) [OF Cons.prems, of k] configured_enqueue [OF Cons.prems] by auto
qed simp

lemma Replace_succeeds:
  assumes "df_ok f" and cfg: "configured f"
    and "\<forall>obj \<in> set list. \<not> is_deltas obj \<and> (\<exists>k. key obj = Inr k)"
  shows "\<exists>f'. df_Replace order f known list = (f', None)"
proof -
  obtain f' e where r: "df_Replace order f known list = (f', e)" by fastforce
  from r have "e = None"
  proof (cases rule: df_Replace_split)
    case (add f1 keys err)
    then show ?thesis using replace_add_succeeds [OF cfg assms(3)] by (metis option.distinct(1) prod.inject)
  next
    case (queued f1 keys f2 n err)
    have "configured f1" using df_replace_add_ok [OF assms(1) queued(3)] configured_grows [OF cfg] by blast
    then show ?thesis using replace_queued_succeeds queued(4) by (metis option.distinct(1) prod.inject)
  next
    case (known f1 keys f2 n ko f3 n' err)
    have "df_ok f1 \<and> configured f1"
      using df_replace_add_ok [OF assms(1) known(3)] configured_grows [OF cfg] by blast
    then have "configured f2" using df_replace_queued_ok [OF _ known(4)] configured_grows by blast
    then show ?thesis using replace_known_succeeds known(6) by (metis option.distinct(1) prod.inject)
  qed simp
  then show ?thesis using r by blast
qed

lemma key_inv_replaced:
  fixes k
  assumes inv: "inv i" and adm: "\<forall>obj \<in> set list. admissible i obj \<and> (\<exists>k. key obj = Inr k)"
  defines "ds \<equiv> case df_replaced (inf_queue i) (Some (knownObjects m i)) list k of None \<Rightarrow> [] | Some ds \<Rightarrow> ds"
  shows "key_inv (inf_queue i) (fst (inf_client i)) k ds \<and>
     deltas_view (content (fst (inf_client i)) k) ds =
       informer_spec key (transformed i) (view i) (CReplace list) k"
proof -
  let ?f = "inf_queue i" and ?s = "fst (inf_client i)"
  let ?action = "if df_emitDeltaTypeReplaced ?f then Replaced else Sync"
  define hits where "hits = filter (\<lambda>obj. df_KeyOf ?f obj = Inr k) list"
  define adds where "adds = map (\<lambda>obj. (?action, transformed i obj)) hits"
  have cfg: "configured ?f" and ok: "ok ?s" "df_ok ?f" using inv by (auto simp: inv_def)
  have keyof: "df_KeyOf ?f obj = key obj" if "obj \<in> set list" for obj
    using cfg adm that by (simp add: configured_def admissible_def)
  have hits': "filter (\<lambda>obj. projr (key obj) = k) list = hits"
    unfolding hits_def by (rule filter_cong [OF refl]) (use keyof adm in force)
  have spec: "informer_spec key (transformed i) (view i) (CReplace list) k =
      (if hits = [] then None else Some (transformed i (last hits)))"
    by (simp add: map_of_rev_last Let_def hits')
  note old = inv_items [OF inv, of k]
  have tomb: "key_inv ?f ?s k (df_append ?f k (tombstone ?f k obj))"
    "deltas_view (content ?s k) (df_append ?f k (tombstone ?f k obj)) = None"
    if "df_items_get ?f k \<noteq> [] \<or> content ?s k \<noteq> None" for obj
  proof -
    have "tombstone ?f k obj = (Deleted, snd (tombstone ?f k obj))" by (simp add: tombstone_def)
    then show "key_inv ?f ?s k (df_append ?f k (tombstone ?f k obj))"
      "deltas_view (content ?s k) (df_append ?f k (tombstone ?f k obj)) = None"
      using key_inv_append [OF old tombstone_succeeds(2) [OF cfg], of Deleted obj] that
        deltas_view_dedup [of "content ?s k" "df_items_get ?f k" Deleted "snd (tombstone ?f k obj)"]
      by (auto simp: df_append_def)
  qed
  consider (listed) "hits \<noteq> []" "ds = df_items_get ?f k @ adds"
    | (deleted) obj where "hits = []" "ds = df_append ?f k (tombstone ?f k obj)"
        "df_items_get ?f k \<noteq> [] \<or> content ?s k \<noteq> None"
    | (absent) "hits = []" "ds = []" "content ?s k = None"
  proof (cases "hits = []")
    case False
    then show ?thesis using listed
      by (simp add: ds_def df_replaced_def Let_def hits_def adds_def transformed_def)
  next
    case True
    have known: "ko_ListKeys (knownObjects m i) = so_ListKeys m ?s" by (simp add: knownObjects_def)
    have rep: "df_replaced ?f (Some (knownObjects m i)) list k =
        (case df_items ?f k of
           Some old \<Rightarrow> Some (df_append ?f k (tombstone ?f k (deleted_object old)))
         | None \<Rightarrow> if content ?s k \<noteq> None
                  then Some (df_append ?f k (tombstone ?f k (known_object (knownObjects m i) k))) else None)"
      using True list_keys_law [OF ok(1)]
      by (auto simp: df_replaced_def Let_def hits_def known df_append_def df_items_get_def dom_def
          split: option.split)
    show ?thesis
      using deleted absent True df_ok_items_get [OF ok(2), of k]
      by (cases "df_items ?f k"; cases "content ?s k") (auto simp: ds_def rep)
  qed
  then show ?thesis
  proof cases
    case listed
    have fit: "key (transformed i obj) = Inr k \<and> fits ?f ?s k (transformed i obj)" if "obj \<in> set hits" for obj
    proof -
      have obj: "\<not> is_deltas obj" "key obj = Inr k" "accepts ?s (transformed i obj)"
        using that adm keyof by (auto simp: hits_def admissible_def)
      then obtain obj' where "df_transform ?f obj = Inr obj'" "key obj' = Inr k" "\<not> is_deltas obj'"
        "df_transform ?f obj' = Inr obj'" using cfg unfolding configured_def by metis
      then show ?thesis using obj(3) by (simp add: fits_def transformed_def)
    qed
    have "\<forall>d \<in> set adds. fst d \<noteq> Deleted" by (simp add: adds_def)
    then have "key_inv ?f ?s k ds"
      using old fit by (auto simp: key_inv_def listed(2) deltas_wf_append_objects adds_def)
    moreover have "deltas_view (content ?s k) ds = Some (transformed i (last hits))"
      using listed by (simp add: deltas_view_def adds_def last_map)
    ultimately show ?thesis using spec listed(1) by simp
  next
    case (deleted obj)
    then show ?thesis using tomb [OF deleted(3)] spec by simp
  next
    case absent
    then show ?thesis using old spec by (simp add: key_inv_def)
  qed
qed

lemma call_replace:
  assumes inv: "inv i" and iter: "map_iter order"
    and adm: "\<forall>obj \<in> set list. admissible i obj \<and> (\<exists>k. key obj = Inr k)"
  shows "\<exists>f'. df_Replace order (inf_queue i) (Some (knownObjects m i)) list = (f', None) \<and>
     inv (i\<lparr>inf_queue := f'\<rparr>) \<and>
     view (i\<lparr>inf_queue := f'\<rparr>) = informer_spec key (transformed i) (view i) (CReplace list)"
proof -
  have ok: "df_ok (inf_queue i)" "configured (inf_queue i)" using inv by (auto simp: inv_def)
  have "\<forall>obj \<in> set list. \<not> is_deltas obj \<and> (\<exists>k. key obj = Inr k)" using adm by (simp add: admissible_def)
  then obtain f' where r: "df_Replace order (inf_queue i) (Some (knownObjects m i)) list = (f', None)"
    using Replace_succeeds [OF ok] by blast
  have get: "df_items_get f' k =
      (case df_replaced (inf_queue i) (Some (knownObjects m i)) list k of None \<Rightarrow> [] | Some ds \<Rightarrow> ds)" for k
    using df_Replace_items [OF ok(1) iter r] by (simp add: df_items_get_def)
  note keys = key_inv_replaced [OF inv adm, unfolded get [symmetric]]
  have "inv (i\<lparr>inf_queue := f'\<rparr>)"
    using df_Replace_ok [OF ok(1) iter r] keys by (intro inv_queueI [OF inv]) auto
  moreover have "view (i\<lparr>inf_queue := f'\<rparr>) = informer_spec key (transformed i) (view i) (CReplace list)"
    by (rule ext) (use keys in \<open>simp only: view_queue\<close>)
  ultimately show ?thesis using r by blast
qed

lemma df_items_get_popped:
  "df_items_get (df_popped f) k = (if k = hd (df_queue f) then [] else df_items_get f k)"
  by (simp add: df_items_get_def df_popped_def)

lemma df_popped_cfg:
  "df_KeyOf (df_popped f) = df_KeyOf f" "df_transform (df_popped f) = df_transform f"
  by (rule df_KeyOf_cong) (simp_all add: df_popped_def df_transform_def fun_eq_iff)

text \<open>The notifications so far, read from the store's first content, give the store's content.\<close>

definition log_inv :: "'o obj gomap \<Rightarrow> ('s, 'o) informer \<Rightarrow> bool" where
  "log_inv start i \<longleftrightarrow> replay key (snd (inf_client i)) start = Some (content (fst (inf_client i)))"

lemma call_pop:
  assumes inv: "inv i" and q: "df_queue (inf_queue i) = kid # queue"
  shows "\<exists>i' item. informer_pop m i = (i', Returns (Some item) None) \<and> inv i' \<and> view i' = view i \<and>
     inf_queue i' = df_popped (inf_queue i) \<and>
     accepts (fst (inf_client i')) = accepts (fst (inf_client i)) \<and> (log_inv start i \<longrightarrow> log_inv start i')"
proof -
  obtain f s log where i: "i = \<lparr>inf_queue = f, inf_client = (s, log)\<rparr>" by (metis informer.cases surj_pair)
  have ok: "df_ok f" "ok s" "configured f" using inv by (auto simp: inv_def i)
  have qf: "df_queue f = kid # queue" using q by (simp add: i)
  obtain item where item: "df_items f kid = Some item" "item \<noteq> []" using df_ok_head [OF ok(1) qf] by blast
  have old: "key_inv f s k (df_items_get f k)" for k using inv by (simp add: inv_def i)
  have kinv: "key_inv f s kid item" using old [of kid] item by (simp add: df_items_get_def)
  then have "\<forall>d \<in> set item. key (snd d) = Inr kid \<and> (fst d \<noteq> Deleted \<longrightarrow> accepts s (snd d))"
    by (simp add: key_inv_def fits_def)
  from processDeltas_correct [OF ok(2) this, of "\<not> df_HasSynced f" log] obtain s' where s':
    "processDeltas m item (\<not> df_HasSynced f) (s, log) =
       ((s', log @ deltas_log (\<not> df_HasSynced f) (content s kid) item), ProcOk)"
    "ok s'" "accepts s' = accepts s" "content s' = (content s)(kid := deltas_view (content s kid) item)" by blast
  define i' where "i' = \<lparr>inf_queue = df_popped f,
      inf_client = (s', log @ deltas_log (\<not> df_HasSynced f) (content s kid) item)\<rparr>"
  have pop: "informer_pop m i = (i', Returns (Some item) None)"
    by (simp add: informer_pop_def i i'_def df_Pop_nonempty [OF ok(1) qf item(1)] s'(1) df_finish_def)
  have fits: "fits (df_popped f) s' = fits f s"
    by (simp add: fits_def fun_eq_iff df_popped_cfg s'(3))
  have "key_inv (df_popped f) s' k (df_items_get (df_popped f) k)" for k
  proof (cases "k = kid")
    case True
    have "fits f s kid obj" if "deltas_view (content s kid) item = Some obj" for obj
      using that kinv item(2) last_in_set [OF item(2)] by (auto simp: deltas_view_def key_inv_def split: if_splits)
    then show ?thesis using True by (simp add: key_inv_def fits s'(4) df_items_get_popped qf)
  next
    case False
    then show ?thesis using old [of k] by (simp add: key_inv_def fits s'(4) df_items_get_popped qf)
  qed
  moreover have "configured (df_popped f)" using ok(3) by (simp add: configured_def df_popped_cfg)
  ultimately have "inv i'" using df_popped_ok [OF ok(1)] s'(2) qf by (simp add: inv_def i'_def)
  moreover have "view i' = view i"
    using item by (auto simp: fun_eq_iff view_def i i'_def s'(4) df_popped_def qf df_items_get_def)
  moreover have "log_inv start i'" if "log_inv start i"
  proof -
    have "replay key (deltas_log (\<not> df_HasSynced f) (content s kid) item) (content s) =
        Some ((content s)(kid := deltas_view (content s kid) item))"
      by (rule replay_deltas_log) (use kinv in \<open>auto simp: key_inv_def\<close>)
    then show ?thesis using that by (simp add: log_inv_def i i'_def replay_append s'(4))
  qed
  ultimately show ?thesis using pop s'(3) by (auto simp: i i'_def)
qed

text \<open>Sequences of calls.\<close>

fun valid_call :: "('s, 'o) informer \<Rightarrow> 'o informer_call \<Rightarrow> bool" where
  "valid_call i (CAdd obj) \<longleftrightarrow> admissible i obj"
| "valid_call i (CUpdate obj) \<longleftrightarrow> admissible i obj"
| "valid_call i (CDelete obj) \<longleftrightarrow> \<not> is_deltas obj"
| "valid_call i (CReplace list) \<longleftrightarrow> (\<forall>obj \<in> set list. admissible i obj \<and> (\<exists>k. key obj = Inr k))"
| "valid_call i CResync \<longleftrightarrow> True"
| "valid_call i CPop \<longleftrightarrow> True"

definition same_env :: "('s, 'o) informer \<Rightarrow> ('s, 'o) informer \<Rightarrow> bool" where
  "same_env i j \<longleftrightarrow> df_transform (inf_queue j) = df_transform (inf_queue i) \<and>
     accepts (fst (inf_client j)) = accepts (fst (inf_client i))"

lemma same_env_valid: "same_env i j \<Longrightarrow> valid_call j call = valid_call i call \<and> transformed j = transformed i"
  by (cases call) (auto simp: same_env_def admissible_def transformed_def fun_eq_iff)

lemma same_env_queue: "df_grows (inf_queue i) f' \<Longrightarrow> same_env i (i\<lparr>inf_queue := f'\<rparr>)"
  using df_grows_transform by (auto simp: same_env_def)

lemma call_queue_grows:
  assumes "inv i" and "map_iter order" and "call \<noteq> CPop"
  shows "same_env i (informer_apply m order i call) \<and> (log_inv start i \<longrightarrow> log_inv start (informer_apply m order i call))"
proof -
  have ok: "df_ok (inf_queue i)" using assms(1) by (simp add: inv_def)
  have "\<exists>f'. informer_apply m order i call = i\<lparr>inf_queue := f'\<rparr> \<and> df_grows (inf_queue i) f'"
    using assms(3) df_Add_ok [OF ok] df_Update_ok [OF ok] df_Delete_ok [OF ok] df_Replace_ok [OF ok assms(2)]
      df_Resync_ok [OF ok]
    by (cases call) (simp_all, (metis surjective_pairing)+)
  then show ?thesis using same_env_queue by (auto simp: log_inv_def)
qed

lemma informer_apply_correct:
  assumes inv: "inv i" and iter: "map_iter order" and valid: "valid_call i call"
  shows "inv (informer_apply m order i call) \<and>
     view (informer_apply m order i call) = informer_spec key (transformed i) (view i) call \<and>
     same_env i (informer_apply m order i call) \<and>
     (log_inv start i \<longrightarrow> log_inv start (informer_apply m order i call))"
proof (cases call)
  case (CAdd obj)
  then show ?thesis
    using call_object [OF inv, of obj Added] valid call_queue_grows [OF inv iter, of call]
    by (simp add: df_Add_def) (metis surjective_pairing)
next
  case (CUpdate obj)
  then show ?thesis
    using call_object [OF inv, of obj Updated] valid call_queue_grows [OF inv iter, of call]
    by (simp add: df_Update_def) (metis surjective_pairing)
next
  case (CDelete obj)
  then show ?thesis
    using call_delete [OF inv, of obj] valid call_queue_grows [OF inv iter, of call]
    by simp (metis surjective_pairing)
next
  case (CReplace list)
  then show ?thesis
    using call_replace [OF inv iter, of list] valid call_queue_grows [OF inv iter, of call] by auto
next
  case CResync
  then show ?thesis using call_resync [OF inv] call_queue_grows [OF inv iter, of call] by auto
next
  case CPop
  show ?thesis
  proof (cases "df_queue (inf_queue i)")
    case Nil
    then have "fst (informer_pop m i) = i" by (simp add: informer_pop_def df_Pop.simps)
    then show ?thesis using CPop inv by (simp add: same_env_def)
  next
    case (Cons kid queue)
    from call_pop [OF inv Cons, of start] show ?thesis
      by (auto simp: CPop same_env_def df_popped_cfg)
  qed
qed

lemma informer_run_correct:
  assumes "inv i" and "map_iter order" and "\<forall>call \<in> set calls. valid_call i call" and "log_inv start i"
  shows "inv (informer_run m order i calls) \<and>
     view (informer_run m order i calls) = foldl (informer_spec key (transformed i)) (view i) calls \<and>
     log_inv start (informer_run m order i calls)"
  using assms
proof (induction calls arbitrary: i)
  case (Cons call calls)
  let ?i = "informer_apply m order i call"
  have step: "inv ?i" "view ?i = informer_spec key (transformed i) (view i) call" "same_env i ?i" "log_inv start ?i"
    using informer_apply_correct [OF Cons.prems(1,2), of call start] Cons.prems(3,4) by auto
  have "\<forall>call \<in> set calls. valid_call ?i call" and tr: "transformed ?i = transformed i"
    using Cons.prems(3) same_env_valid [OF step(3)] by auto
  from Cons.IH [OF step(1) Cons.prems(2) this(1) step(4)] show ?case
    by (simp add: informer_run_def tr step(2))
qed (simp add: informer_run_def)

lemma processLoop_drains:
  assumes "inv i" and "df_closed (inf_queue i)" and "length (df_queue (inf_queue i)) < fuel"
  shows "\<exists>i'. processLoop retryOnError fuel m i = Some i' \<and> inv i' \<and> content (fst (inf_client i')) = view i \<and>
     df_queue (inf_queue i') = [] \<and> (log_inv start i \<longrightarrow> log_inv start i')"
  using assms
proof (induction fuel arbitrary: i)
  case (Suc fuel)
  show ?case
  proof (cases "df_queue (inf_queue i)")
    case Nil
    then have "dom (df_items (inf_queue i)) = {}" using Suc.prems(1) by (simp add: inv_def df_ok_def)
    then have "df_items (inf_queue i) = Map.empty" by (simp only: dom_eq_empty_conv)
    then have "view i = content (fst (inf_client i))" by (simp add: view_def df_items_get_def fun_eq_iff)
    moreover have "informer_pop m i = (i, Returns None (Some ErrFIFOClosed))"
      using Nil Suc.prems(2) by (simp add: informer_pop_def df_Pop.simps)
    ultimately show ?thesis using Suc.prems(1) Nil by simp
  next
    case (Cons kid queue)
    from call_pop [OF Suc.prems(1) Cons, of start] obtain i' item where i':
      "informer_pop m i = (i', Returns (Some item) None)" "inv i'" "view i' = view i"
      "inf_queue i' = df_popped (inf_queue i)" "log_inv start i \<longrightarrow> log_inv start i'" by blast
    have "df_closed (inf_queue i')" "length (df_queue (inf_queue i')) < fuel"
      using Suc.prems(2,3) Cons by (simp_all add: i'(4) df_popped_def)
    from Suc.IH [OF i'(2) this] show ?thesis using i' by auto
  qed
qed simp

end

section \<open>The informer over the cache\<close>

definition cache_methods ::
  "string list \<Rightarrow> ('o obj gomap \<Rightarrow> string list) \<Rightarrow> ('o goval cache, 'o) store_methods"
where
  "cache_methods order korder =
     \<lparr>so_Add = cache_Add order, so_Update = cache_Update order, so_Delete = cache_Delete order,
      so_Get = cache_Get, so_ListKeys = (\<lambda>c. cache_ListKeys (korder (cache_content c)) c),
      so_GetByKey = (\<lambda>c k. Inr (cache_GetByKey c k))\<rparr>"

interpretation cinf: informer_store "cache_methods order korder" cache_content "cache_ok order korder kf" kf cache_accepts
  for order korder kf
proof (rule informer_store.intro)
  show "store_iface (so_Add (cache_methods order korder)) (so_Update (cache_methods order korder))
     (so_Delete (cache_methods order korder)) (so_Get (cache_methods order korder))
     cache_content (cache_ok order korder kf) kf cache_accepts"
    using cache.store_iface_axioms [of order korder kf] by (simp add: cache_methods_def)
  show "informer_store_axioms (cache_methods order korder) cache_content (cache_ok order korder kf)"
  proof
    fix c :: "'a goval cache" and k
    assume ok: "cache_ok order korder kf c"
    show "set (so_ListKeys (cache_methods order korder) c) = dom (cache_content c)"
      using ok by (auto simp: cache_methods_def cache_ok_def tsm_ok_for_def tsm_ok_def range_order_def cache_ListKeys_def
          tsm_ListKeys_def cache_content_def)
    show "so_GetByKey (cache_methods order korder) c k = Inr (map_get (cache_content c) k, cache_content c k \<noteq> None)"
      by (simp add: cache_methods_def cache_GetByKey_def tsm_Get_def cache_content_def)
  qed
qed

text \<open>
  What an informer needs of the code it is given. A transformer must succeed on every object with a
  key, keep the key and be idempotent: \<open>Resync\<close> applies it to objects that went through it before.
\<close>

definition transform_with :: "('o obj \<Rightarrow> ('o goval, 'o obj) res) option \<Rightarrow> 'o obj \<Rightarrow> ('o goval, 'o obj) res" where
  "transform_with transformer obj = (case transformer of None \<Rightarrow> Inr obj | Some tr \<Rightarrow> tr obj)"

definition transformer_ok :: "'o goval key_func \<Rightarrow> ('o obj \<Rightarrow> ('o goval, 'o obj) res) option \<Rightarrow> bool" where
  "transformer_ok kf transformer \<longleftrightarrow>
     (\<forall>obj k. \<not> is_deltas obj \<and> kf obj = Inr k \<longrightarrow>
        (\<exists>obj'. transform_with transformer obj = Inr obj' \<and> kf obj' = Inr k \<and> \<not> is_deltas obj' \<and>
                transform_with transformer obj' = Inr obj'))"

text \<open>The calls of a producer: API objects the index functions accept, after the transformer.\<close>

fun call_ok ::
  "'o goval key_func \<Rightarrow> 'o goval index_func gomap \<Rightarrow> ('o obj \<Rightarrow> 'o obj) \<Rightarrow> 'o informer_call \<Rightarrow> bool"
where
  "call_ok kf indexers tr (CAdd obj) \<longleftrightarrow> \<not> is_deltas obj \<and> indexable indexers (tr obj)"
| "call_ok kf indexers tr (CUpdate obj) \<longleftrightarrow> \<not> is_deltas obj \<and> indexable indexers (tr obj)"
| "call_ok kf indexers tr (CDelete obj) \<longleftrightarrow> \<not> is_deltas obj"
| "call_ok kf indexers tr (CReplace list) \<longleftrightarrow>
     list_all (\<lambda>obj. \<not> is_deltas obj \<and> indexable indexers (tr obj) \<and> (\<exists>k. kf obj = Inr k)) list"
| "call_ok kf indexers tr CResync \<longleftrightarrow> True"
| "call_ok kf indexers tr CPop \<longleftrightarrow> True"

definition new_indexer_informer ::
  "'o accessor \<Rightarrow> 'o goval index_func gomap \<Rightarrow> ('o obj \<Rightarrow> ('o goval, 'o obj) res) option
     \<Rightarrow> ('o goval cache, 'o) informer"
where
  "new_indexer_informer accessor indexers transformer =
     newInformer accessor (NewIndexer (DeletionHandlingMetaNamespaceKeyFunc accessor) indexers) transformer"

lemma new_informer_inv:
  assumes "transformer_ok (DeletionHandlingMetaNamespaceKeyFunc accessor) transformer"
    and "range_order iorder indexers" and "map_iter korder"
  defines "i \<equiv> new_indexer_informer accessor indexers transformer"
  shows "cinf.inv iorder korder (DeletionHandlingMetaNamespaceKeyFunc accessor) i"
    and "cinf.view i = Map.empty"
    and "cinf.log_inv (DeletionHandlingMetaNamespaceKeyFunc accessor) Map.empty i"
    and "cinf.transformed i = (\<lambda>obj. projr (transform_with transformer obj))"
    and "cinf.valid_call (DeletionHandlingMetaNamespaceKeyFunc accessor) i call =
      call_ok (DeletionHandlingMetaNamespaceKeyFunc accessor) indexers (\<lambda>obj. projr (transform_with transformer obj)) call"
proof -
  let ?kf = "DeletionHandlingMetaNamespaceKeyFunc accessor"
  have tr: "df_transform (inf_queue i) = transform_with transformer"
    by (simp add: i_def new_indexer_informer_def newInformer_def NewDeltaFIFOWithOptions_def df_transform_def
        transform_with_def fun_eq_iff)
  have keyof: "df_KeyOf (inf_queue i) obj = ?kf obj" if "\<not> is_deltas obj" for obj
    using that by (auto simp: i_def new_indexer_informer_def newInformer_def NewDeltaFIFOWithOptions_def df_KeyOf_def
        is_deltas_def DeletionHandlingMetaNamespaceKeyFunc_def split: option.splits goval.splits)
  have cfg: "cinf.configured ?kf (inf_queue i)"
    using assms(1) keyof by (simp add: cinf.configured_def transformer_ok_def tr)
  have empty: "df_items_get (inf_queue i) k = []" "cache_content (fst (inf_client i)) = Map.empty" for k
    by (simp_all add: i_def new_indexer_informer_def newInformer_def NewDeltaFIFOWithOptions_def df_items_get_def
        cache_content_def NewIndexer_def NewThreadSafeStore_def)
  have ok: "cache_ok iorder korder ?kf (fst (inf_client i))"
    using assms(2,3) NewThreadSafeStore_ok [OF range_order_finite [OF assms(2)]]
    by (simp add: i_def new_indexer_informer_def newInformer_def cache_ok_def tsm_ok_for_def NewIndexer_def map_iter_def
        NewThreadSafeStore_def)
  have "df_ok (inf_queue i)" by (simp add: i_def new_indexer_informer_def newInformer_def)
  then show "cinf.inv iorder korder ?kf i" using cfg ok empty by (simp add: cinf.inv_def cinf.key_inv_def)
  show "cinf.view i = Map.empty" by (simp add: cinf.view_def empty fun_eq_iff)
  show "cinf.log_inv ?kf Map.empty i"
    by (simp add: cinf.log_inv_def empty) (simp add: i_def new_indexer_informer_def newInformer_def)
  show tr': "cinf.transformed i = (\<lambda>obj. projr (transform_with transformer obj))"
    by (simp add: cinf.transformed_def tr fun_eq_iff)
  have acc: "cache_accepts (fst (inf_client i)) = indexable indexers"
    by (simp add: i_def new_indexer_informer_def newInformer_def cache_accepts_def NewIndexer_def NewThreadSafeStore_def)
  show "cinf.valid_call ?kf i call = call_ok ?kf indexers (\<lambda>obj. projr (transform_with transformer obj)) call"
    by (cases call) (auto simp: cinf.admissible_def acc tr' list_all_iff)
qed

lemma informer_run_new:
  assumes "transformer_ok (DeletionHandlingMetaNamespaceKeyFunc accessor) transformer"
    and "range_order iorder indexers" and "map_iter korder" and "map_iter order"
    and "\<forall>call \<in> set calls. call_ok (DeletionHandlingMetaNamespaceKeyFunc accessor) indexers
           (\<lambda>obj. projr (transform_with transformer obj)) call"
  defines "i \<equiv> informer_run (cache_methods iorder korder) order (new_indexer_informer accessor indexers transformer) calls"
  shows "cinf.inv iorder korder (DeletionHandlingMetaNamespaceKeyFunc accessor) i"
    and "cinf.view i = foldl (informer_spec (DeletionHandlingMetaNamespaceKeyFunc accessor)
           (\<lambda>obj. projr (transform_with transformer obj))) Map.empty calls"
    and "cinf.log_inv (DeletionHandlingMetaNamespaceKeyFunc accessor) Map.empty i"
  using cinf.informer_run_correct [OF new_informer_inv(1) [OF assms(1-3)] assms(4) _ new_informer_inv(3) [OF assms(1-3)],
      of calls] new_informer_inv(2,4,5) [OF assms(1-3)] assms(5)
  by (simp_all add: i_def)

section \<open>Properties\<close>

text \<open>
  C1 An informer tracks its producer. After any sequence of calls of the reflector and of pops of
  the processing loop, interleaved in any way, the newest pending delta of each key, or the object
  in the store where nothing is pending, is exactly what the producer's calls said of that key.
\<close>

theorem informer_tracks_producer:
  assumes "transformer_ok (DeletionHandlingMetaNamespaceKeyFunc accessor) transformer"
    and "range_order iorder indexers" and "map_iter korder" and "map_iter order"
    and "\<forall>call \<in> set calls. call_ok (DeletionHandlingMetaNamespaceKeyFunc accessor) indexers
           (\<lambda>obj. projr (transform_with transformer obj)) call"
    and "i = informer_run (cache_methods iorder korder) order (new_indexer_informer accessor indexers transformer) calls"
  shows "deltas_view (cache_content (fst (inf_client i)) k) (df_items_get (inf_queue i) k) =
     foldl (informer_spec (DeletionHandlingMetaNamespaceKeyFunc accessor)
           (\<lambda>obj. projr (transform_with transformer obj))) Map.empty calls k"
  using fun_cong [OF informer_run_new(2) [OF assms(1-5)], of k] unfolding assms(6) cinf.view_def .

text \<open>A concrete producer: it lists two objects, sees one deleted and relists.\<close>

definition pod_accessor :: "string accessor" where
  "pod_accessor obj = (case obj of Some (Object name) \<Rightarrow> Inr ([], name) | _ \<Rightarrow> Inl (Errorf ''no meta''))"

definition pod_calls :: "string informer_call list" where
  "pod_calls = [CReplace [Some (Object ''a''), Some (Object ''b'')], CPop, CDelete (Some (Object ''a'')),
     CResync, CUpdate (Some (Object ''c'')), CPop, CReplace [Some (Object ''c'')]]"

lemma pod_calls_ok:
  "transformer_ok kf None" "range_order [] Map.empty"
  "\<forall>call \<in> set pod_calls. call_ok (DeletionHandlingMetaNamespaceKeyFunc pod_accessor) Map.empty
           (\<lambda>obj. projr (transform_with None obj)) call"
  by (simp_all add: transformer_ok_def transform_with_def range_order_def pod_calls_def is_deltas_def indexable_def
      DeletionHandlingMetaNamespaceKeyFunc_def MetaNamespaceKeyFunc_def ObjectToName_def pod_accessor_def)

lemma pod_world:
  "foldl (informer_spec (DeletionHandlingMetaNamespaceKeyFunc pod_accessor)
     (\<lambda>obj. projr (transform_with None obj))) Map.empty pod_calls = [''c'' \<mapsto> Some (Object ''c'')]"
  by (simp add: pod_calls_def transform_with_def DeletionHandlingMetaNamespaceKeyFunc_def MetaNamespaceKeyFunc_def
      ObjectToName_def pod_accessor_def MetaObjectToName_def NewObjectName_def ObjectName_String_def)

theorem informer_tracks_producer_witness:
  "\<exists>order korder. \<forall>k. let i = informer_run (cache_methods [] korder) order
       (new_indexer_informer pod_accessor Map.empty None) pod_calls
     in deltas_view (cache_content (fst (inf_client i)) k) (df_items_get (inf_queue i) k) =
        [''c'' \<mapsto> Some (Object ''c'')] k"
proof -
  obtain order :: "string deltas gomap \<Rightarrow> string list" where order: "map_iter order" using map_iter_exists by blast
  obtain korder :: "string obj gomap \<Rightarrow> string list" where korder: "map_iter korder" using map_iter_exists by blast
  show ?thesis
    using informer_tracks_producer [OF pod_calls_ok(1,2) korder order pod_calls_ok(3) refl]
    unfolding Let_def pod_world by blast
qed

text \<open>
  C6 The processing loop of an informer whose queue has been closed ends, with fuel for one pop per
  queued key and one more, and leaves the queue empty and the store equal to what the producer's
  calls described. This is so whether or not \<open>RetryOnError\<close> is set.
\<close>

theorem informer_drains:
  assumes "transformer_ok (DeletionHandlingMetaNamespaceKeyFunc accessor) transformer"
    and "range_order iorder indexers" and "map_iter korder" and "map_iter order"
    and "\<forall>call \<in> set calls. call_ok (DeletionHandlingMetaNamespaceKeyFunc accessor) indexers
           (\<lambda>obj. projr (transform_with transformer obj)) call"
    and "i = informer_run (cache_methods iorder korder) order (new_indexer_informer accessor indexers transformer) calls"
  shows "\<exists>i'. processLoop retryOnError (Suc (length (df_queue (inf_queue i)))) (cache_methods iorder korder)
         (i\<lparr>inf_queue := df_Close (inf_queue i)\<rparr>) = Some i' \<and> df_queue (inf_queue i') = [] \<and>
     cache_content (fst (inf_client i')) =
       foldl (informer_spec (DeletionHandlingMetaNamespaceKeyFunc accessor)
           (\<lambda>obj. projr (transform_with transformer obj))) Map.empty calls"
proof -
  let ?kf = "DeletionHandlingMetaNamespaceKeyFunc accessor" and ?c = "i\<lparr>inf_queue := df_Close (inf_queue i)\<rparr>"
  note run = informer_run_new [OF assms(1-5), folded assms(6)]
  have "df_ok (inf_queue i)" using run(1) by (simp add: cinf.inv_def)
  then have "cinf.inv iorder korder ?kf ?c"
    using cinf.inv_items [OF run(1)] df_Close_ok
    by (intro cinf.inv_queueI [OF run(1)]) (auto simp: df_Close_def df_items_get_def)
  moreover have "cinf.view ?c = cinf.view i" by (simp add: cinf.view_def df_Close_def df_items_get_def fun_eq_iff)
  moreover have "df_closed (inf_queue ?c)" "df_queue (inf_queue ?c) = df_queue (inf_queue i)"
    by (simp_all add: df_Close_def)
  ultimately show ?thesis
    using cinf.processLoop_drains [of iorder korder ?kf ?c "Suc (length (df_queue (inf_queue i)))"] run(2) by auto
qed

theorem informer_drains_witness:
  "\<exists>order korder i'. let i = informer_run (cache_methods [] korder) order
       (new_indexer_informer pod_accessor Map.empty None) pod_calls
     in processLoop False (Suc (length (df_queue (inf_queue i)))) (cache_methods [] korder)
         (i\<lparr>inf_queue := df_Close (inf_queue i)\<rparr>) = Some i' \<and>
        cache_content (fst (inf_client i')) = [''c'' \<mapsto> Some (Object ''c'')]"
proof -
  obtain order :: "string deltas gomap \<Rightarrow> string list" where order: "map_iter order" using map_iter_exists by blast
  obtain korder :: "string obj gomap \<Rightarrow> string list" where korder: "map_iter korder" using map_iter_exists by blast
  show ?thesis
    using informer_drains [OF pod_calls_ok(1,2) korder order pod_calls_ok(3) refl]
    unfolding Let_def pod_world by blast
qed

text \<open>
  C7 The notifications a handler receives are a consistent history: read in order from the empty
  store, no key is added while present, every update names the object last reported for its key,
  only present keys are deleted, and the outcome is the content of the store.
\<close>

theorem informer_notifications_consistent:
  assumes "transformer_ok (DeletionHandlingMetaNamespaceKeyFunc accessor) transformer"
    and "range_order iorder indexers" and "map_iter korder" and "map_iter order"
    and "\<forall>call \<in> set calls. call_ok (DeletionHandlingMetaNamespaceKeyFunc accessor) indexers
           (\<lambda>obj. projr (transform_with transformer obj)) call"
    and "i = informer_run (cache_methods iorder korder) order (new_indexer_informer accessor indexers transformer) calls"
  shows "replay (DeletionHandlingMetaNamespaceKeyFunc accessor) (snd (inf_client i)) Map.empty =
     Some (cache_content (fst (inf_client i)))"
  using informer_run_new(3) [OF assms(1-5), folded assms(6)] by (simp add: cinf.log_inv_def)

theorem informer_notifications_consistent_witness:
  "\<exists>order korder. let i = informer_run (cache_methods [] korder) order
       (new_indexer_informer pod_accessor Map.empty None) pod_calls
     in replay (DeletionHandlingMetaNamespaceKeyFunc pod_accessor) (snd (inf_client i)) Map.empty =
        Some (cache_content (fst (inf_client i)))"
proof -
  obtain order :: "string deltas gomap \<Rightarrow> string list" where order: "map_iter order" using map_iter_exists by blast
  obtain korder :: "string obj gomap \<Rightarrow> string list" where korder: "map_iter korder" using map_iter_exists by blast
  show ?thesis
    using informer_notifications_consistent [OF pod_calls_ok(1,2) korder order pod_calls_ok(3) refl]
    unfolding Let_def by blast
qed

end
