(* ===== verification/Synctrack.thy ===== *)
theory Synctrack
  imports K8s_Prelude
begin

text \<open>
  \<open>tools/cache/synctrack\<close>: trackers that report when the initial list has been processed, by several workers
  (\<open>AsyncTracker\<close>) or in order (\<open>SingleFileTracker\<close>), and the lazily evaluated value \<open>Lazy\<close>.

  \<open>UpstreamHasSynced\<close> and \<open>Evaluate\<close> are functions the user gives: the trackers take the answer of the first as
  an argument, and \<open>Evaluate\<close> may return anything. \<open>Lazy\<close> is shared by goroutines without a common lock:
  its state is a heap of cache entries and a pointer, and every atomic operation and every section under the lock of an
  entry is a step of a goroutine, so that all interleavings are covered.

  The lemmas: the trackers answer exactly whether keys are outstanding, and a \<open>Get\<close> never returns a value whose
  evaluation began before a \<open>Notify\<close> that preceded the \<open>Get\<close>.
\<close>

section \<open>AsyncTracker\<close>

record 'a AsyncTracker =
  at_waiting :: "'a set option"

definition AsyncTracker_Start :: "'a AsyncTracker \<Rightarrow> 'a \<Rightarrow> 'a AsyncTracker" where
  "AsyncTracker_Start t key =
     (case at_waiting t of
        None \<Rightarrow> t\<lparr>at_waiting := Some {key}\<rparr>
      | Some waiting \<Rightarrow> t\<lparr>at_waiting := Some (insert key waiting)\<rparr>)"

definition AsyncTracker_Finished :: "'a AsyncTracker \<Rightarrow> 'a \<Rightarrow> 'a AsyncTracker" where
  "AsyncTracker_Finished t key =
     (case at_waiting t of
        None \<Rightarrow> t
      | Some waiting \<Rightarrow> t\<lparr>at_waiting := Some (waiting - {key})\<rparr>)"

text \<open>The length of a nil set is zero.\<close>

definition AsyncTracker_HasSynced :: "bool \<Rightarrow> 'a AsyncTracker \<Rightarrow> bool" where
  "AsyncTracker_HasSynced upstream t =
     (if \<not> upstream then False
      else card (case at_waiting t of None \<Rightarrow> {} | Some waiting \<Rightarrow> waiting) = 0)"

section \<open>SingleFileTracker\<close>

record SingleFileTracker =
  sf_count :: int

definition SingleFileTracker_Start :: "SingleFileTracker \<Rightarrow> SingleFileTracker" where
  "SingleFileTracker_Start t = t\<lparr>sf_count := wrap64 (sf_count t + 1)\<rparr>"

text \<open>\<open>Finished\<close> panics, after it has changed the count, when the count is negative.\<close>

definition SingleFileTracker_Finished :: "SingleFileTracker \<Rightarrow> SingleFileTracker \<times> unit ret" where
  "SingleFileTracker_Finished t =
     (let result = wrap64 (sf_count t - 1)
      in (t\<lparr>sf_count := result\<rparr>,
          if result < 0 then Panic (Errorf ''synctrack: negative counter; this logic error means HasSynced may return incorrect value'')
          else Ret None))"

definition SingleFileTracker_HasSynced :: "bool \<Rightarrow> SingleFileTracker \<Rightarrow> bool" where
  "SingleFileTracker_HasSynced upstream t = (if \<not> upstream then False else sf_count t \<le> 0)"

section \<open>Lazy\<close>

text \<open>
  A value carries the number of calls of \<open>Notify\<close> that had been made when its evaluation began; the code does not have it, and no
  step depends on it. \<open>ce_locked\<close> is the write lock of the entry; a read lock is held within one step only.
\<close>

record 't cacheEntry =
  ce_result :: "('t \<times> nat) option"
  ce_locked :: bool

record 't Lazy =
  lz_cache :: "nat option"
  lz_heap :: "'t cacheEntry list"

definition newCacheEntry :: "'t cacheEntry" where
  "newCacheEntry = \<lparr>ce_result = None, ce_locked = False\<rparr>"

definition Lazy_Notify :: "'t Lazy \<Rightarrow> 't Lazy" where
  "Lazy_Notify z = z\<lparr>lz_heap := lz_heap z @ [newCacheEntry], lz_cache := Some (length (lz_heap z))\<rparr>"

text \<open>\<open>z.cache.CompareAndSwap(nil, z.newCacheEntry())\<close>; an entry that loses the race is garbage at once.\<close>

definition Lazy_set_if_nil :: "'t Lazy \<Rightarrow> 't Lazy" where
  "Lazy_set_if_nil z =
     (if lz_cache z = None
      then z\<lparr>lz_heap := lz_heap z @ [newCacheEntry], lz_cache := Some (length (lz_heap z))\<rparr>
      else z)"

definition entry_update :: "nat \<Rightarrow> 't cacheEntry \<Rightarrow> 't Lazy \<Rightarrow> 't Lazy" where
  "entry_update e c z = z\<lparr>lz_heap := (lz_heap z)[e := c]\<rparr>"

text \<open>
  Where a goroutine is in \<open>Get\<close>: before the first load (with the number of calls of \<open>Notify\<close> made before
  \<open>Get\<close> began), with a nil pointer, before the second load, before the read under the read lock, before the write lock,
  in \<open>Evaluate\<close> under the write lock, and at the end.
\<close>

datatype 't lpc =
    Outside
  | GetBegun nat
  | GetNil nat
  | GetReload nat
  | GetEntry nat nat
  | GetMiss nat nat
  | GetEval nat nat nat
  | GetReturns nat nat nat "'t \<times> nat"
  | GetFails nat

record ('w, 't) lzsys =
  ls_z :: "'t Lazy"
  ls_pc :: "'w \<Rightarrow> 't lpc"
  ls_notes :: nat
  ls_birth :: "nat list"

inductive lz_step :: "('w, 't) lzsys \<Rightarrow> ('w, 't) lzsys \<Rightarrow> bool" where
  notify: "lz_step s (s\<lparr>ls_z := Lazy_Notify (ls_z s), ls_notes := Suc (ls_notes s),
      ls_birth := ls_birth s @ [Suc (ls_notes s)]\<rparr>)"
| begin_get: "ls_pc s w = Outside \<Longrightarrow> lz_step s (s\<lparr>ls_pc := (ls_pc s)(w := GetBegun (ls_notes s))\<rparr>)"
| load: "ls_pc s w = GetBegun n \<Longrightarrow>
    lz_step s (s\<lparr>ls_pc := (ls_pc s)(w := case lz_cache (ls_z s) of None \<Rightarrow> GetNil n | Some e \<Rightarrow> GetEntry n e)\<rparr>)"
| cas: "ls_pc s w = GetNil n \<Longrightarrow>
    lz_step s (s\<lparr>ls_z := Lazy_set_if_nil (ls_z s), ls_pc := (ls_pc s)(w := GetReload n),
      ls_birth := ls_birth s @ (if lz_cache (ls_z s) = None then [ls_notes s] else [])\<rparr>)"
| reload: "ls_pc s w = GetReload n \<Longrightarrow> lz_cache (ls_z s) = Some e \<Longrightarrow>
    lz_step s (s\<lparr>ls_pc := (ls_pc s)(w := GetEntry n e)\<rparr>)"
| read: "ls_pc s w = GetEntry n e \<Longrightarrow> \<not> ce_locked (lz_heap (ls_z s) ! e) \<Longrightarrow>
    lz_step s (s\<lparr>ls_pc := (ls_pc s)(w := case ce_result (lz_heap (ls_z s) ! e) of
      Some v \<Rightarrow> GetReturns n (ls_notes s) e v | None \<Rightarrow> GetMiss n e)\<rparr>)"
| lock_hit: "ls_pc s w = GetMiss n e \<Longrightarrow> \<not> ce_locked (lz_heap (ls_z s) ! e) \<Longrightarrow>
    ce_result (lz_heap (ls_z s) ! e) = Some v \<Longrightarrow>
    lz_step s (s\<lparr>ls_pc := (ls_pc s)(w := GetReturns n (ls_notes s) e v)\<rparr>)"
| lock_eval: "ls_pc s w = GetMiss n e \<Longrightarrow> \<not> ce_locked (lz_heap (ls_z s) ! e) \<Longrightarrow>
    ce_result (lz_heap (ls_z s) ! e) = None \<Longrightarrow>
    lz_step s (s\<lparr>ls_z := entry_update e \<lparr>ce_result = None, ce_locked = True\<rparr> (ls_z s),
      ls_pc := (ls_pc s)(w := GetEval n e (ls_notes s))\<rparr>)"
| eval_ok: "ls_pc s w = GetEval n e t \<Longrightarrow>
    lz_step s (s\<lparr>ls_z := entry_update e \<lparr>ce_result = Some (v, t), ce_locked = False\<rparr> (ls_z s),
      ls_pc := (ls_pc s)(w := GetReturns n (ls_notes s) e (v, t))\<rparr>)"
| eval_error: "ls_pc s w = GetEval n e t \<Longrightarrow>
    lz_step s (s\<lparr>ls_z := entry_update e \<lparr>ce_result = None, ce_locked = False\<rparr> (ls_z s),
      ls_pc := (ls_pc s)(w := GetFails n)\<rparr>)"
| leave: "ls_pc s w = GetReturns n n' e v \<or> ls_pc s w = GetFails n \<Longrightarrow>
    lz_step s (s\<lparr>ls_pc := (ls_pc s)(w := Outside)\<rparr>)"

definition lz_init :: "('w, 't) lzsys" where
  "lz_init = \<lparr>ls_z = \<lparr>lz_cache = None, lz_heap = []\<rparr>, ls_pc = (\<lambda>_. Outside), ls_notes = 0, ls_birth = []\<rparr>"

inductive lz_reachable :: "('w, 't) lzsys \<Rightarrow> bool" where
  init: "lz_reachable lz_init"
| step: "lz_reachable s \<Longrightarrow> lz_step s s' \<Longrightarrow> lz_reachable s'"

section \<open>The trackers\<close>

definition outstanding :: "'a AsyncTracker \<Rightarrow> 'a set" where
  "outstanding t = (case at_waiting t of None \<Rightarrow> {} | Some waiting \<Rightarrow> waiting)"

lemma outstanding_simps [simp]:
  "outstanding (AsyncTracker_Start t key) = insert key (outstanding t)"
  "outstanding (AsyncTracker_Finished t key) = outstanding t - {key}"
  "outstanding \<lparr>at_waiting = None\<rparr> = {}"
  by (auto simp: outstanding_def AsyncTracker_Start_def AsyncTracker_Finished_def split: option.split)

text \<open>A history of calls: \<open>Inl key\<close> is \<open>Start\<close>, \<open>Inr key\<close> is \<open>Finished\<close>.\<close>

definition at_run :: "('a + 'a) list \<Rightarrow> 'a AsyncTracker" where
  "at_run cs = foldl (\<lambda>t c. case c of Inl key \<Rightarrow> AsyncTracker_Start t key | Inr key \<Rightarrow> AsyncTracker_Finished t key)
     \<lparr>at_waiting = None\<rparr> cs"

definition last_started :: "('a + 'a) list \<Rightarrow> 'a \<Rightarrow> bool" where
  "last_started cs key \<longleftrightarrow> (\<exists>before after. cs = before @ Inl key # after \<and> Inr key \<notin> set after)"

lemma last_started_snoc:
  "last_started (cs @ [c]) key \<longleftrightarrow> c = Inl key \<or> last_started cs key \<and> c \<noteq> Inr key"
proof
  assume "last_started (cs @ [c]) key"
  then obtain before after where "cs @ [c] = before @ Inl key # after" "Inr key \<notin> set after" by (auto simp: last_started_def)
  then show "c = Inl key \<or> last_started cs key \<and> c \<noteq> Inr key"
    by (cases after rule: rev_cases) (auto simp: last_started_def)
next
  assume "c = Inl key \<or> last_started cs key \<and> c \<noteq> Inr key"
  then show "last_started (cs @ [c]) key"
  proof
    assume "c = Inl key"
    then have "cs @ [c] = cs @ Inl key # [] \<and> Inr key \<notin> set []" by simp
    then show ?thesis unfolding last_started_def by blast
  next
    assume "last_started cs key \<and> c \<noteq> Inr key"
    then obtain before after where "cs = before @ Inl key # after" "Inr key \<notin> set after" "c \<noteq> Inr key"
      by (auto simp: last_started_def)
    then have "cs @ [c] = before @ Inl key # (after @ [c]) \<and> Inr key \<notin> set (after @ [c])" by auto
    then show ?thesis unfolding last_started_def by blast
  qed
qed

lemma at_run_outstanding: "outstanding (at_run cs) = {key. last_started cs key} \<and> finite (outstanding (at_run cs))"
proof (induction cs rule: rev_induct)
  case Nil
  then show ?case by (simp add: at_run_def last_started_def)
next
  case (snoc c cs)
  have "at_run (cs @ [c]) = (case c of Inl key \<Rightarrow> AsyncTracker_Start (at_run cs) key | Inr key \<Rightarrow> AsyncTracker_Finished (at_run cs) key)"
    by (cases c) (simp_all add: at_run_def)
  then show ?case using snoc by (cases c) (auto simp: last_started_snoc)
qed

lemma sf_run_count:
  assumes "int n < 2 ^ 63"
  shows "(SingleFileTracker_Start ^^ n) \<lparr>sf_count = 0\<rparr> = \<lparr>sf_count = int n\<rparr>"
  using assms by (induction n) (auto simp: SingleFileTracker_Start_def wrap64_id)

lemma sf_Finished_count:
  "int m < 2 ^ 63 \<Longrightarrow> k \<le> m \<Longrightarrow> ((\<lambda>t. fst (SingleFileTracker_Finished t)) ^^ k) \<lparr>sf_count = int m\<rparr> = \<lparr>sf_count = int (m - k)\<rparr>"
proof (induction k)
  case (Suc k)
  moreover have "wrap64 (int (m - k) - 1) = int (m - k) - 1" using Suc.prems by (intro wrap64_id) auto
  ultimately show ?case by (simp add: SingleFileTracker_Finished_def Let_def of_nat_diff)
qed simp

text \<open>
  The trackers: an \<open>AsyncTracker\<close> has synced exactly when upstream has and every key whose processing was
  started has been finished since it was last started, also when \<open>Finished\<close> is called for keys that were never started; a
  \<open>SingleFileTracker\<close> with fewer than 2 to the 63 keys has synced exactly when upstream has and as many keys were finished as
  started, and finishing more panics.
\<close>

theorem trackers_exact:
  assumes "int n < 2 ^ 63" and "k \<le> n"
  shows "(AsyncTracker_HasSynced upstream (at_run cs) \<longleftrightarrow> upstream \<and> (\<forall>key. \<not> last_started cs key)) \<and>
    (let t = ((\<lambda>t. fst (SingleFileTracker_Finished t)) ^^ k) ((SingleFileTracker_Start ^^ n) \<lparr>sf_count = 0\<rparr>) in
      (SingleFileTracker_HasSynced upstream t \<longleftrightarrow> upstream \<and> k = n) \<and>
      ((\<exists>err. snd (SingleFileTracker_Finished t) = Panic err) \<longleftrightarrow> k = n))"
proof
  have "AsyncTracker_HasSynced upstream (at_run cs) \<longleftrightarrow> upstream \<and> card (outstanding (at_run cs)) = 0"
    by (simp add: AsyncTracker_HasSynced_def outstanding_def)
  then show "AsyncTracker_HasSynced upstream (at_run cs) \<longleftrightarrow> upstream \<and> (\<forall>key. \<not> last_started cs key)"
    using at_run_outstanding [of cs] by auto
  have "((\<lambda>t. fst (SingleFileTracker_Finished t)) ^^ k) ((SingleFileTracker_Start ^^ n) \<lparr>sf_count = 0\<rparr>) = \<lparr>sf_count = int (n - k)\<rparr>"
    using sf_run_count [OF assms(1)] sf_Finished_count [OF assms] by simp
  moreover have "wrap64 (int (n - k) - 1) = int (n - k) - 1" using assms by (intro wrap64_id) auto
  ultimately show "let t = ((\<lambda>t. fst (SingleFileTracker_Finished t)) ^^ k) ((SingleFileTracker_Start ^^ n) \<lparr>sf_count = 0\<rparr>) in
      (SingleFileTracker_HasSynced upstream t \<longleftrightarrow> upstream \<and> k = n) \<and>
      ((\<exists>err. snd (SingleFileTracker_Finished t) = Panic err) \<longleftrightarrow> k = n)"
    using assms(2) by (auto simp: Let_def SingleFileTracker_HasSynced_def SingleFileTracker_Finished_def)
qed

theorem trackers_exact_witness:
  "\<not> AsyncTracker_HasSynced True (at_run [Inl (1 :: nat), Inl 2, Inr 1]) \<and>
   SingleFileTracker_HasSynced True (((\<lambda>t. fst (SingleFileTracker_Finished t)) ^^ 2) ((SingleFileTracker_Start ^^ 2) \<lparr>sf_count = 0\<rparr>))"
proof -
  have "[Inl (1 :: nat), Inl 2, Inr 1] = [Inl 1] @ Inl 2 # [Inr 1] \<and> Inr (2 :: nat) \<notin> set [Inr 1]" by simp
  then have "last_started [Inl (1 :: nat), Inl 2, Inr 1] 2" unfolding last_started_def by blast
  then show ?thesis using trackers_exact [of 2 2 True "[Inl (1 :: nat), Inl 2, Inr 1]"] by (auto simp: Let_def)
qed

section \<open>Lazy under concurrency\<close>

text \<open>The entries are numbered in the order of their creation, and the pointer is to the latest.\<close>

definition lz_heap_ok :: "'t Lazy \<Rightarrow> nat \<Rightarrow> nat list \<Rightarrow> bool" where
  "lz_heap_ok z notes birth \<longleftrightarrow> length (lz_heap z) = length birth \<and>
     lz_cache z = (if birth = [] then None else Some (length birth - 1)) \<and>
     sorted_wrt (<) birth \<and> (if birth = [] then notes = 0 else last birth = notes) \<and>
     (\<forall>e < length birth. (\<forall>v t. ce_result (lz_heap z ! e) = Some (v, t) \<longrightarrow> birth ! e \<le> t) \<and>
        (ce_locked (lz_heap z ! e) \<longrightarrow> ce_result (lz_heap z ! e) = None))"

fun lpc_ok :: "'t cacheEntry list \<Rightarrow> nat \<Rightarrow> nat list \<Rightarrow> 't lpc \<Rightarrow> bool" where
  "lpc_ok h notes birth Outside = True"
| "lpc_ok h notes birth (GetBegun n) = (n \<le> notes)"
| "lpc_ok h notes birth (GetNil n) = (n \<le> notes)"
| "lpc_ok h notes birth (GetReload n) = (n \<le> notes \<and> birth \<noteq> [])"
| "lpc_ok h notes birth (GetEntry n e) = (e < length birth \<and> n \<le> birth ! e)"
| "lpc_ok h notes birth (GetMiss n e) = (e < length birth \<and> n \<le> birth ! e)"
| "lpc_ok h notes birth (GetEval n e t) = (e < length birth \<and> n \<le> birth ! e \<and> birth ! e \<le> t \<and> ce_locked (h ! e))"
| "lpc_ok h notes birth (GetReturns n n' e v) =
     (e < length birth \<and> n \<le> birth ! e \<and> birth ! e \<le> n' \<and> ce_result (h ! e) = Some v)"
| "lpc_ok h notes birth (GetFails n) = True"

definition eval_excl :: "('w \<Rightarrow> 't lpc) \<Rightarrow> bool" where
  "eval_excl pc \<longleftrightarrow> (\<forall>w w' n n' e t t'. pc w = GetEval n e t \<and> pc w' = GetEval n' e t' \<longrightarrow> w = w')"

definition lz_ok :: "('w, 't) lzsys \<Rightarrow> bool" where
  "lz_ok s \<longleftrightarrow> lz_heap_ok (ls_z s) (ls_notes s) (ls_birth s) \<and>
     (\<forall>w. lpc_ok (lz_heap (ls_z s)) (ls_notes s) (ls_birth s) (ls_pc s w)) \<and>
     eval_excl (ls_pc s)"

lemma eval_excl_other: "eval_excl pc \<Longrightarrow> (\<And>n e t. p \<noteq> GetEval n e t) \<Longrightarrow> eval_excl (pc(w := p))"
  unfolding eval_excl_def by (metis fun_upd_apply)

lemma eval_excl_new: "eval_excl pc \<Longrightarrow> (\<And>w' n' t'. pc w' \<noteq> GetEval n' e t') \<Longrightarrow> eval_excl (pc(w := GetEval n e t))"
  unfolding eval_excl_def by (metis fun_upd_apply lpc.inject(6))

lemma eval_exclD: "eval_excl pc \<Longrightarrow> pc w = GetEval n e t \<Longrightarrow> w' \<noteq> w \<Longrightarrow> pc w' \<noteq> GetEval n' e t'"
  unfolding eval_excl_def by blast

lemma sorted_last_max: "sorted_wrt (<) (xs :: nat list) \<Longrightarrow> e < length xs \<Longrightarrow> xs ! e \<le> last xs"
  by (cases xs rule: rev_cases) (auto simp: sorted_wrt_append nth_append less_imp_le)

lemma lz_heap_ok_birth: "lz_heap_ok z notes birth \<Longrightarrow> e < length birth \<Longrightarrow> birth ! e \<le> notes"
  using sorted_last_max by (fastforce simp: lz_heap_ok_def split: if_splits)

lemma lpc_ok_grows:
  assumes "lpc_ok h notes birth p" and "length h = length birth" and "notes \<le> notes'"
  shows "lpc_ok (h @ hs) notes' (birth @ bs) p"
  using assms by (cases p) (auto simp: nth_append)

lemma lpc_ok_notes: "lpc_ok h notes birth p \<Longrightarrow> notes \<le> notes' \<Longrightarrow> lpc_ok h notes' birth p"
  by (cases p) auto

text \<open>Writing an entry that has no result keeps what the other goroutines rely on, if none of them holds its lock.\<close>

lemma lpc_ok_entry:
  assumes "lpc_ok h notes birth p" and "ce_result (h ! e) = None" and "\<And>n t. p \<noteq> GetEval n e t" and "length h = length birth"
  shows "lpc_ok (h[e := c]) notes birth p"
proof (cases p)
  case (GetEval n f t)
  then show ?thesis using assms by (cases "f = e") auto
next
  case (GetReturns n n' f v)
  then show ?thesis using assms by (cases "f = e") auto
qed (use assms in auto)

lemma lz_heap_ok_new:
  assumes "lz_heap_ok z notes birth" and "birth = [] \<or> notes < notes'"
  shows "lz_heap_ok (z\<lparr>lz_heap := lz_heap z @ [newCacheEntry], lz_cache := Some (length (lz_heap z))\<rparr>) notes' (birth @ [notes'])"
proof -
  have "b < notes'" if b: "b \<in> set birth" for b
  proof -
    obtain e where "e < length birth" "birth ! e = b" using b by (auto simp: in_set_conv_nth)
    moreover have "birth \<noteq> []" using calculation by auto
    ultimately show ?thesis using lz_heap_ok_birth [OF assms(1), of e] assms(2) by linarith
  qed
  moreover have "(\<forall>v t. ce_result ((lz_heap z @ [newCacheEntry]) ! e) = Some (v, t) \<longrightarrow> (birth @ [notes']) ! e \<le> t) \<and>
      (ce_locked ((lz_heap z @ [newCacheEntry]) ! e) \<longrightarrow> ce_result ((lz_heap z @ [newCacheEntry]) ! e) = None)"
    if "e < Suc (length birth)" for e
    using that assms(1) by (cases "e = length birth") (auto simp: lz_heap_ok_def nth_append newCacheEntry_def)
  ultimately show ?thesis
    using assms(1) by (simp add: lz_heap_ok_def sorted_wrt_append)
qed

lemma lz_heap_ok_entry:
  assumes "lz_heap_ok z notes birth" and "ce_locked c \<longrightarrow> ce_result c = None"
    and "\<And>v t. ce_result c = Some (v, t) \<Longrightarrow> birth ! e \<le> t" and "e < length birth"
  shows "lz_heap_ok (entry_update e c z) notes birth"
  using assms by (auto simp: lz_heap_ok_def entry_update_def nth_list_update)

lemma lz_okI:
  assumes "lz_heap_ok (ls_z s) (ls_notes s) (ls_birth s)"
    and "\<And>w. lpc_ok (lz_heap (ls_z s)) (ls_notes s) (ls_birth s) (ls_pc s w)"
    and "eval_excl (ls_pc s)"
  shows "lz_ok s"
  using assms unfolding lz_ok_def by blast

lemma lz_ok_pc:
  assumes "lz_ok s" and "lpc_ok (lz_heap (ls_z s)) (ls_notes s) (ls_birth s) p" and "\<And>n e t. p \<noteq> GetEval n e t"
  shows "lz_ok (s\<lparr>ls_pc := (ls_pc s)(w := p)\<rparr>)"
proof -
  have "eval_excl ((ls_pc s)(w := p))" using assms(1,3) by (intro eval_excl_other) (auto simp: lz_ok_def)
  moreover have "lpc_ok (lz_heap (ls_z s)) (ls_notes s) (ls_birth s) (((ls_pc s)(w := p)) w')" for w'
    using assms(1,2) by (simp add: lz_ok_def)
  moreover have "lz_heap_ok (ls_z s) (ls_notes s) (ls_birth s)" using assms(1) by (simp add: lz_ok_def)
  ultimately show ?thesis by (intro lz_okI) simp_all
qed

lemma lz_ok_init: "lz_ok lz_init"
  by (auto simp: lz_ok_def lz_init_def lz_heap_ok_def eval_excl_def)

lemma lz_ok_new:
  assumes "lz_ok s" and "ls_birth s = [] \<or> ls_notes s < notes'" and "ls_notes s \<le> notes'"
  shows "lz_ok (s\<lparr>ls_z := (ls_z s)\<lparr>lz_heap := lz_heap (ls_z s) @ [newCacheEntry], lz_cache := Some (length (lz_heap (ls_z s)))\<rparr>,
    ls_notes := notes', ls_birth := ls_birth s @ [notes']\<rparr>)"
proof -
  have heap: "lz_heap_ok (ls_z s) (ls_notes s) (ls_birth s)" and excl: "eval_excl (ls_pc s)"
    and pcs: "\<And>w. lpc_ok (lz_heap (ls_z s)) (ls_notes s) (ls_birth s) (ls_pc s w)"
    using assms(1) by (auto simp: lz_ok_def)
  have len: "length (lz_heap (ls_z s)) = length (ls_birth s)" using heap by (simp add: lz_heap_ok_def)
  show ?thesis
    using lz_heap_ok_new [OF heap assms(2)] lpc_ok_grows [OF pcs len assms(3)] excl by (intro lz_okI) simp_all
qed

lemma lz_ok_eval_begins:
  assumes "lz_ok s" and "ls_pc s w = GetMiss n e" and "\<not> ce_locked (lz_heap (ls_z s) ! e)" and "ce_result (lz_heap (ls_z s) ! e) = None"
  shows "lz_ok (s\<lparr>ls_z := entry_update e \<lparr>ce_result = None, ce_locked = True\<rparr> (ls_z s), ls_pc := (ls_pc s)(w := GetEval n e (ls_notes s))\<rparr>)"
proof -
  have heap: "lz_heap_ok (ls_z s) (ls_notes s) (ls_birth s)" and pcs: "\<And>w. lpc_ok (lz_heap (ls_z s)) (ls_notes s) (ls_birth s) (ls_pc s w)"
    using assms(1) by (auto simp: lz_ok_def)
  have len: "length (lz_heap (ls_z s)) = length (ls_birth s)" using heap by (simp add: lz_heap_ok_def)
  have e: "e < length (ls_birth s)" "n \<le> ls_birth s ! e" using pcs [of w] assms(2) by auto
  have none: "ls_pc s w' \<noteq> GetEval n' e t" for w' n' t using pcs [of w'] assms(3) by auto
  have others: "lpc_ok ((lz_heap (ls_z s))[e := c]) (ls_notes s) (ls_birth s) (ls_pc s w')" for w' c
    using lpc_ok_entry [OF pcs assms(4) none len] by simp
  have "lz_heap_ok (entry_update e \<lparr>ce_result = None, ce_locked = True\<rparr> (ls_z s)) (ls_notes s) (ls_birth s)"
    using e(1) by (intro lz_heap_ok_entry [OF heap]) auto
  moreover have "eval_excl ((ls_pc s)(w := GetEval n e (ls_notes s)))"
    using none assms(1) by (intro eval_excl_new) (auto simp: lz_ok_def)
  moreover have "lpc_ok (lz_heap (entry_update e \<lparr>ce_result = None, ce_locked = True\<rparr> (ls_z s))) (ls_notes s) (ls_birth s)
      (((ls_pc s)(w := GetEval n e (ls_notes s))) w')" for w'
    using others e lz_heap_ok_birth [OF heap] len by (simp add: entry_update_def)
  ultimately show ?thesis by (intro lz_okI) simp_all
qed

lemma lz_ok_eval_ends:
  assumes "lz_ok s" and "ls_pc s w = GetEval n e t" and "ce_result c = None \<or> (\<exists>v. ce_result c = Some (v, t))" and "\<not> ce_locked c"
    and "p = (case ce_result c of None \<Rightarrow> GetFails n | Some v \<Rightarrow> GetReturns n (ls_notes s) e v)"
  shows "lz_ok (s\<lparr>ls_z := entry_update e c (ls_z s), ls_pc := (ls_pc s)(w := p)\<rparr>)"
proof -
  have heap: "lz_heap_ok (ls_z s) (ls_notes s) (ls_birth s)" and pcs: "\<And>w. lpc_ok (lz_heap (ls_z s)) (ls_notes s) (ls_birth s) (ls_pc s w)"
    using assms(1) by (auto simp: lz_ok_def)
  have len: "length (lz_heap (ls_z s)) = length (ls_birth s)" using heap by (simp add: lz_heap_ok_def)
  have e: "e < length (ls_birth s)" "n \<le> ls_birth s ! e" "ls_birth s ! e \<le> t" "ce_locked (lz_heap (ls_z s) ! e)" using pcs [of w] assms(2) by auto
  then have empty: "ce_result (lz_heap (ls_z s) ! e) = None" using heap by (auto simp: lz_heap_ok_def)
  have none: "ls_pc s w' \<noteq> GetEval n' e t'" if "w' \<noteq> w" for w' n' t'
    using eval_exclD [of "ls_pc s", OF _ assms(2) that] assms(1) by (simp add: lz_ok_def)
  have others: "lpc_ok ((lz_heap (ls_z s))[e := c]) (ls_notes s) (ls_birth s) (ls_pc s w')" if "w' \<noteq> w" for w'
    using lpc_ok_entry [OF pcs empty none [OF that] len] by simp
  have "lz_heap_ok (entry_update e c (ls_z s)) (ls_notes s) (ls_birth s)"
    using assms(3,4) e(1,3) by (intro lz_heap_ok_entry [OF heap]) auto
  moreover have "lpc_ok ((lz_heap (ls_z s))[e := c]) (ls_notes s) (ls_birth s) p"
    using e len lz_heap_ok_birth [OF heap e(1)] by (auto simp: assms(5) split: option.split)
  then have "lpc_ok (lz_heap (entry_update e c (ls_z s))) (ls_notes s) (ls_birth s) (((ls_pc s)(w := p)) w')" for w'
    using others by (simp add: entry_update_def)
  moreover have "eval_excl ((ls_pc s)(w := p))"
    using assms(1) by (intro eval_excl_other) (auto simp: lz_ok_def assms(5) split: option.splits)
  ultimately show ?thesis by (intro lz_okI) simp_all
qed

lemma lz_step_ok: "lz_step s s' \<Longrightarrow> lz_ok s \<Longrightarrow> lz_ok s'"
proof (induction rule: lz_step.induct)
  case (notify s)
  then show ?case unfolding Lazy_Notify_def by (intro lz_ok_new) auto
next
  case (begin_get s w)
  then show ?case by (intro lz_ok_pc) auto
next
  case (load s w n)
  then have "lpc_ok (lz_heap (ls_z s)) (ls_notes s) (ls_birth s) (GetBegun n)" by (metis lz_ok_def)
  then show ?case using load by (intro lz_ok_pc) (auto simp: lz_ok_def lz_heap_ok_def last_conv_nth split: option.split if_splits)
next
  case (cas s w n)
  have pc: "lpc_ok (lz_heap (ls_z s)) (ls_notes s) (ls_birth s) (GetNil n)" using cas by (metis lz_ok_def)
  show ?case
  proof (cases "lz_cache (ls_z s)")
    case None
    then have empty: "ls_birth s = []" using cas by (auto simp: lz_ok_def lz_heap_ok_def split: if_splits)
    let ?s = "s\<lparr>ls_z := (ls_z s)\<lparr>lz_heap := lz_heap (ls_z s) @ [newCacheEntry], lz_cache := Some (length (lz_heap (ls_z s)))\<rparr>,
      ls_notes := ls_notes s, ls_birth := ls_birth s @ [ls_notes s]\<rparr>"
    have "lz_ok ?s" using cas(2) empty by (intro lz_ok_new) auto
    then have "lz_ok (?s\<lparr>ls_pc := (ls_pc ?s)(w := GetReload n)\<rparr>)" using pc by (intro lz_ok_pc) auto
    moreover have "(s\<lparr>ls_z := Lazy_set_if_nil (ls_z s), ls_pc := (ls_pc s)(w := GetReload n),
        ls_birth := ls_birth s @ (if lz_cache (ls_z s) = None then [ls_notes s] else [])\<rparr>) = ?s\<lparr>ls_pc := (ls_pc ?s)(w := GetReload n)\<rparr>"
      by (simp add: None Lazy_set_if_nil_def)
    ultimately show ?thesis by simp
  next
    case (Some e)
    then have "ls_birth s \<noteq> []" using cas by (auto simp: lz_ok_def lz_heap_ok_def)
    then have "lz_ok (s\<lparr>ls_pc := (ls_pc s)(w := GetReload n)\<rparr>)" using cas pc by (intro lz_ok_pc) auto
    then show ?thesis by (simp add: Some Lazy_set_if_nil_def)
  qed
next
  case (reload s w n e)
  then have "lpc_ok (lz_heap (ls_z s)) (ls_notes s) (ls_birth s) (GetReload n)" by (metis lz_ok_def)
  then show ?case using reload by (intro lz_ok_pc) (auto simp: lz_ok_def lz_heap_ok_def last_conv_nth)
next
  case (read s w n e)
  then have "lpc_ok (lz_heap (ls_z s)) (ls_notes s) (ls_birth s) (GetEntry n e)" by (metis lz_ok_def)
  then show ?case using read lz_heap_ok_birth by (intro lz_ok_pc) (auto simp: lz_ok_def split: option.split)
next
  case (lock_hit s w n e v)
  then have "lpc_ok (lz_heap (ls_z s)) (ls_notes s) (ls_birth s) (GetMiss n e)" by (metis lz_ok_def)
  then show ?case using lock_hit lz_heap_ok_birth by (intro lz_ok_pc) (auto simp: lz_ok_def)
next
  case (lock_eval s w n e)
  then show ?case by (intro lz_ok_eval_begins) auto
next
  case (eval_ok s w n e t v)
  then show ?case by (intro lz_ok_eval_ends) auto
next
  case (eval_error s w n e t)
  then show ?case by (intro lz_ok_eval_ends) auto
next
  case (leave s w n n' e v)
  then show ?case by (intro lz_ok_pc) auto
qed

lemma lz_reachable_ok: "lz_reachable s \<Longrightarrow> lz_ok s"
  by (induction rule: lz_reachable.induct) (auto intro: lz_ok_init lz_step_ok)

text \<open>
  C39 \<open>Lazy\<close> with any number of goroutines: the value a \<open>Get\<close> returns comes from an evaluation that began after
  every \<open>Notify\<close> made before the \<open>Get\<close> began; two \<open>Get\<close> calls that run while no \<open>Notify\<close> is made, between the same two,
  return the same value; never do two goroutines evaluate for the same entry at once; and the second load never finds a nil
  pointer.
\<close>

theorem Lazy_fresh:
  assumes "lz_reachable s" and "ls_pc s w = GetReturns n n' e (v, t)"
  shows "n \<le> t \<and>
    (ls_pc s w' = GetReturns m m' f (v', t') \<and> n = n' \<and> m = m' \<and> n = m \<longrightarrow> v = v') \<and>
    (ls_pc s w' = GetEval m f t' \<and> ls_pc s w'' = GetEval m' f t'' \<longrightarrow> w' = w'') \<and>
    (ls_pc s w' = GetReload m \<longrightarrow> lz_cache (ls_z s) \<noteq> None)"
proof (intro conjI impI)
  note ok = lz_reachable_ok [OF assms(1)]
  then have heap: "lz_heap_ok (ls_z s) (ls_notes s) (ls_birth s)" and excl: "eval_excl (ls_pc s)"
    and pcs: "\<And>w. lpc_ok (lz_heap (ls_z s)) (ls_notes s) (ls_birth s) (ls_pc s w)"
    by (auto simp: lz_ok_def)
  have e: "e < length (ls_birth s)" "n \<le> ls_birth s ! e" "ls_birth s ! e \<le> n'" "ce_result (lz_heap (ls_z s) ! e) = Some (v, t)"
    using pcs [of w] assms(2) by auto
  then show "n \<le> t" using heap by (fastforce simp: lz_heap_ok_def)
  show "w' = w''" if "ls_pc s w' = GetEval m f t' \<and> ls_pc s w'' = GetEval m' f t''"
    using that excl unfolding eval_excl_def by blast
  show "lz_cache (ls_z s) \<noteq> None" if "ls_pc s w' = GetReload m"
    using that pcs [of w'] heap by (auto simp: lz_heap_ok_def)
  show "v = v'" if other: "ls_pc s w' = GetReturns m m' f (v', t') \<and> n = n' \<and> m = m' \<and> n = m"
  proof -
    have f: "f < length (ls_birth s)" "ls_birth s ! f = m" "ce_result (lz_heap (ls_z s) ! f) = Some (v', t')"
      using pcs [of w'] other by auto
    have "ls_birth s ! e = ls_birth s ! f" using e f other by auto
    moreover have "distinct (ls_birth s)" using heap by (auto simp: lz_heap_ok_def strict_sorted_iff)
    ultimately have "e = f" using e(1) f(1) by (simp add: nth_eq_iff_index_eq)
    then show ?thesis using e(4) f(3) by simp
  qed
qed

definition demo_lazy :: "(unit, string) lzsys" where
  "demo_lazy = \<lparr>ls_z = \<lparr>lz_cache = Some 0, lz_heap = [\<lparr>ce_result = Some (''v'', 1), ce_locked = False\<rparr>]\<rparr>,
     ls_pc = (\<lambda>_. GetReturns 1 1 0 (''v'', 1)), ls_notes = 1, ls_birth = [1]\<rparr>"

lemma demo_lazy_reachable: "lz_reachable demo_lazy"
proof -
  let ?run = "\<lambda>z p. \<lparr>ls_z = z, ls_pc = (\<lambda>_ :: unit. p :: string lpc), ls_notes = 1, ls_birth = [1]\<rparr>"
  let ?z = "\<lambda>r l. \<lparr>lz_cache = Some 0, lz_heap = [\<lparr>ce_result = r, ce_locked = l\<rparr>]\<rparr>"
  have upd: "(\<lambda>_ :: unit. p)(() := q) = (\<lambda>_. q)" for p q :: "string lpc" by auto
  have "lz_step lz_init (?run (?z None False) Outside)"
    using lz_step.notify [of lz_init] by (simp add: lz_init_def Lazy_Notify_def newCacheEntry_def)
  then have "lz_reachable (?run (?z None False) Outside)" using lz_reachable.intros by metis
  moreover have "lz_step (?run (?z None False) Outside) (?run (?z None False) (GetBegun 1))"
    using lz_step.begin_get [of "?run (?z None False) Outside" "()"] by (simp add: upd)
  moreover have "lz_step (?run (?z None False) (GetBegun 1)) (?run (?z None False) (GetEntry 1 0))"
    using lz_step.load [of "?run (?z None False) (GetBegun 1)" "()"] by (simp add: upd)
  moreover have "lz_step (?run (?z None False) (GetEntry 1 0)) (?run (?z None False) (GetMiss 1 0))"
    using lz_step.read [of "?run (?z None False) (GetEntry 1 0)" "()"] by (simp add: upd)
  moreover have "lz_step (?run (?z None False) (GetMiss 1 0)) (?run (?z None True) (GetEval 1 0 1))"
    using lz_step.lock_eval [of "?run (?z None False) (GetMiss 1 0)" "()"] by (simp add: upd entry_update_def)
  moreover have "lz_step (?run (?z None True) (GetEval 1 0 1)) demo_lazy"
    using lz_step.eval_ok [of "?run (?z None True) (GetEval 1 0 1)" "()" 1 0 1 "''v''"] by (simp add: upd entry_update_def demo_lazy_def)
  ultimately show ?thesis by (meson lz_reachable.step)
qed

theorem Lazy_fresh_witness:
  "ls_pc demo_lazy () = GetReturns 1 1 0 (''v'', 1) \<and> (1 :: nat) \<le> 1"
  using Lazy_fresh [OF demo_lazy_reachable, of "()" 1 1 0 "''v''" 1 "()" 3] by (simp add: demo_lazy_def)

end
