(* ===== verification/SharedInformer.thy ===== *)
theory SharedInformer
  imports Informer Synctrack "HOL-Library.Sublist"
begin

text \<open>
  \<open>tools/cache/shared_informer.go\<close>: one informer that serves any number of event handlers. The processing loop hands
  each notification to the \<open>sharedProcessor\<close>, which distributes it to the listeners; each \<open>processorListener\<close> has two
  goroutines, \<open>pop\<close>, which buffers, and \<open>run\<close>, which calls the handler.

  The ring buffer of \<open>k8s.io/utils\<close> is not part of the repository: it is the argument \<open>rb\<close>, and \<open>ring_fifo\<close> says that it is a
  first-in first-out buffer. A send on the unbuffered channel \<open>addCh\<close> ends when \<open>pop\<close> receives it, and \<open>pop\<close> is always
  ready to: \<open>add\<close> and the reception are one step. The listeners of the processor are a map from handles; what is sent to one
  does not affect the others, so the order in which \<open>distribute\<close> visits them does not matter and is not represented.

  The lemmas: whenever a handler joins, what is sent to it describes the content of the store; it is delivered in order and
  completely; and the registration reports that it has synced only when the handler has seen the initial list.
\<close>

section \<open>processorListener\<close>

record ('b, 'n) ring =
  rg_New :: "nat \<Rightarrow> 'b"
  rg_ReadOne :: "'b \<Rightarrow> 'b \<times> 'n option"
  rg_WriteOne :: "'b \<Rightarrow> 'n \<Rightarrow> 'b"

definition ring_fifo :: "('b, 'n) ring \<Rightarrow> ('b \<Rightarrow> 'n list) \<Rightarrow> bool" where
  "ring_fifo rb items \<longleftrightarrow> (\<forall>n. items (rg_New rb n) = []) \<and> (\<forall>b x. items (rg_WriteOne rb b x) = items b @ [x]) \<and>
     (\<forall>b b' r. rg_ReadOne rb b = (b', r) \<longrightarrow>
        (case items b of [] \<Rightarrow> r = None \<and> items b' = [] | x # xs \<Rightarrow> r = Some x \<and> items b' = xs))"

text \<open>
  Besides the fields of the code: the local variable of \<open>pop\<close> (with its channel enabled exactly when it is set), the notification
  that \<open>run\<close> is handling, whether \<open>addCh\<close> is closed, whether \<open>pop\<close> has returned, and as history what was sent to the
  listener and what its handler was called with, and whether that call returned.
\<close>

record ('o, 'b) processorListener =
  pl_syncTracker :: SingleFileTracker
  pl_pendingNotifications :: 'b
  pl_requestedResyncPeriod :: int
  pl_resyncPeriod :: int
  pl_nextResync :: int
  pl_notification :: "'o notification option"
  pl_running :: "'o notification option"
  pl_addClosed :: bool
  pl_popDone :: bool
  pl_added :: "'o notification list"
  pl_handled :: "('o notification \<times> bool) list"

definition pl_determineNextResync :: "int \<Rightarrow> ('o, 'b) processorListener \<Rightarrow> ('o, 'b) processorListener" where
  "pl_determineNextResync now l = l\<lparr>pl_nextResync := now + pl_resyncPeriod l\<rparr>"

definition pl_setResyncPeriod :: "int \<Rightarrow> ('o, 'b) processorListener \<Rightarrow> ('o, 'b) processorListener" where
  "pl_setResyncPeriod period l = l\<lparr>pl_resyncPeriod := period\<rparr>"

definition pl_shouldResync :: "int \<Rightarrow> ('o, 'b) processorListener \<Rightarrow> bool" where
  "pl_shouldResync now l = (if pl_resyncPeriod l = 0 then False else now > pl_nextResync l \<or> now = pl_nextResync l)"

definition newProcessListener ::
  "('b, 'o notification) ring \<Rightarrow> int \<Rightarrow> int \<Rightarrow> int \<Rightarrow> nat \<Rightarrow> ('o, 'b) processorListener"
where
  "newProcessListener rb requestedResyncPeriod resyncPeriod now bufferSize =
     pl_determineNextResync now
       \<lparr>pl_syncTracker = \<lparr>sf_count = 0\<rparr>, pl_pendingNotifications = rg_New rb bufferSize,
        pl_requestedResyncPeriod = requestedResyncPeriod, pl_resyncPeriod = resyncPeriod, pl_nextResync = 0,
        pl_notification = None, pl_running = None, pl_addClosed = False, pl_popDone = False, pl_added = [], pl_handled = []\<rparr>"

definition pl_HasSynced :: "bool \<Rightarrow> ('o, 'b) processorListener \<Rightarrow> bool" where
  "pl_HasSynced upstream l = SingleFileTracker_HasSynced upstream (pl_syncTracker l)"

definition is_initial :: "'o notification \<Rightarrow> bool" where
  "is_initial n = (case n of OnAdd _ isInInitialList \<Rightarrow> isInInitialList | _ \<Rightarrow> False)"

text \<open>The case of \<open>pop\<close> that receives from \<open>addCh\<close>.\<close>

definition pop_receive ::
  "('b, 'o notification) ring \<Rightarrow> ('o, 'b) processorListener \<Rightarrow> 'o notification \<Rightarrow> ('o, 'b) processorListener"
where
  "pop_receive rb l notificationToAdd =
     (case pl_notification l of
        None \<Rightarrow> l\<lparr>pl_notification := Some notificationToAdd\<rparr>
      | Some _ \<Rightarrow> l\<lparr>pl_pendingNotifications := rg_WriteOne rb (pl_pendingNotifications l) notificationToAdd\<rparr>)"

definition pl_add ::
  "('b, 'o notification) ring \<Rightarrow> ('o, 'b) processorListener \<Rightarrow> 'o notification \<Rightarrow> ('o, 'b) processorListener"
where
  "pl_add rb l notification =
     (let l = (if is_initial notification then l\<lparr>pl_syncTracker := SingleFileTracker_Start (pl_syncTracker l)\<rparr> else l)
      in (pop_receive rb l notification)\<lparr>pl_added := pl_added l @ [notification]\<rparr>)"

text \<open>The case of \<open>pop\<close> that sends on \<open>nextCh\<close>, when \<open>run\<close> is ready to receive.\<close>

definition pop_dispatch :: "('b, 'o notification) ring \<Rightarrow> ('o, 'b) processorListener \<Rightarrow> ('o, 'b) processorListener option" where
  "pop_dispatch rb l =
     (case (pl_notification l, pl_running l, pl_popDone l) of
        (Some notification, None, False) \<Rightarrow>
          let (b, next) = rg_ReadOne rb (pl_pendingNotifications l)
          in Some (l\<lparr>pl_running := Some notification, pl_notification := next, pl_pendingNotifications := b\<rparr>)
      | _ \<Rightarrow> None)"

text \<open>\<open>pop\<close> returns once it notices that \<open>addCh\<close> is closed.\<close>

definition pop_return :: "('o, 'b) processorListener \<Rightarrow> ('o, 'b) processorListener option" where
  "pop_return l = (if pl_addClosed l \<and> \<not> pl_popDone l then Some (l\<lparr>pl_popDone := True\<rparr>) else None)"

text \<open>One round of \<open>run\<close>: the handler returns, or panics, and then the item is skipped.\<close>

definition run_handle :: "('o, 'b) processorListener \<Rightarrow> (('o, 'b) processorListener \<times> unit ret) option" where
  "run_handle l =
     (case pl_running l of
        None \<Rightarrow> None
      | Some n \<Rightarrow>
          let l = l\<lparr>pl_running := None, pl_handled := pl_handled l @ [(n, True)]\<rparr>
          in if is_initial n
             then let (t, r) = SingleFileTracker_Finished (pl_syncTracker l) in Some (l\<lparr>pl_syncTracker := t\<rparr>, r)
             else Some (l, Ret None))"

definition run_panic :: "('o, 'b) processorListener \<Rightarrow> ('o, 'b) processorListener option" where
  "run_panic l = (case pl_running l of None \<Rightarrow> None | Some n \<Rightarrow> Some (l\<lparr>pl_running := None, pl_handled := pl_handled l @ [(n, False)]\<rparr>))"

section \<open>sharedProcessor\<close>

type_synonym handle = nat

text \<open>The nil map is the empty map.\<close>

record ('o, 'b) sharedProcessor =
  sp_listenersStarted :: bool
  sp_listeners :: "handle \<Rightarrow> (('o, 'b) processorListener \<times> bool) option"

definition sp_getListener :: "('o, 'b) sharedProcessor \<Rightarrow> handle \<Rightarrow> ('o, 'b) processorListener option" where
  "sp_getListener p h = map_option fst (sp_listeners p h)"

definition sp_addListener :: "('o, 'b) sharedProcessor \<Rightarrow> handle \<Rightarrow> ('o, 'b) processorListener \<Rightarrow> ('o, 'b) sharedProcessor" where
  "sp_addListener p h listener = p\<lparr>sp_listeners := (sp_listeners p)(h \<mapsto> (listener, True))\<rparr>"

text \<open>A removed listener lives on outside the map until its goroutines end; it is returned.\<close>

definition sp_removeListener ::
  "('o, 'b) sharedProcessor \<Rightarrow> handle \<Rightarrow> ('o, 'b) sharedProcessor \<times> ('o, 'b) processorListener option"
where
  "sp_removeListener p h =
     (case sp_listeners p h of
        None \<Rightarrow> (p, None)
      | Some (l, _) \<Rightarrow>
          (p\<lparr>sp_listeners := (sp_listeners p)(h := None)\<rparr>,
           Some (if sp_listenersStarted p then l\<lparr>pl_addClosed := True\<rparr> else l)))"

definition sp_distribute ::
  "('b, 'o notification) ring \<Rightarrow> 'o notification \<Rightarrow> bool \<Rightarrow> ('o, 'b) sharedProcessor \<Rightarrow> ('o, 'b) sharedProcessor"
where
  "sp_distribute rb obj sync p =
     p\<lparr>sp_listeners := (\<lambda>h. map_option (\<lambda>(listener, isSyncing).
         (if \<not> sync then pl_add rb listener obj else if isSyncing then pl_add rb listener obj else listener, isSyncing))
       (sp_listeners p h))\<rparr>"

definition sp_run_start :: "('o, 'b) sharedProcessor \<Rightarrow> ('o, 'b) sharedProcessor" where
  "sp_run_start p = p\<lparr>sp_listenersStarted := True\<rparr>"

definition sp_run_stop :: "('o, 'b) sharedProcessor \<Rightarrow> ('o, 'b) sharedProcessor" where
  "sp_run_stop p = p\<lparr>sp_listeners := Map.empty, sp_listenersStarted := False\<rparr>"

definition sp_shouldResync :: "int \<Rightarrow> ('o, 'b) sharedProcessor \<Rightarrow> ('o, 'b) sharedProcessor \<times> bool" where
  "sp_shouldResync now p =
     (p\<lparr>sp_listeners := (\<lambda>h. map_option (\<lambda>(listener, _).
         let shouldResync = pl_shouldResync now listener
         in (if shouldResync then pl_determineNextResync now listener else listener, shouldResync)) (sp_listeners p h))\<rparr>,
      \<exists>h listener isSyncing. sp_listeners p h = Some (listener, isSyncing) \<and> pl_shouldResync now listener)"

definition determineResyncPeriod :: "int \<Rightarrow> int \<Rightarrow> int" where
  "determineResyncPeriod desired check =
     (if desired = 0 then desired else if check = 0 then 0 else if desired < check then check else desired)"

definition sp_resyncCheckPeriodChanged :: "int \<Rightarrow> ('o, 'b) sharedProcessor \<Rightarrow> ('o, 'b) sharedProcessor" where
  "sp_resyncCheckPeriodChanged resyncCheckPeriod p =
     p\<lparr>sp_listeners := (\<lambda>h. map_option (\<lambda>(listener, isSyncing).
         (pl_setResyncPeriod (determineResyncPeriod (pl_requestedResyncPeriod listener) resyncCheckPeriod) listener, isSyncing))
       (sp_listeners p h))\<rparr>"

section \<open>sharedIndexInformer\<close>

text \<open>
  What the informer is given: the accessor of the API machinery, the iteration orders of the maps it ranges over, the ring buffer
  and \<open>meta.Accessor(obj).GetResourceVersion()\<close> (\<open>None\<close>: the object has no metadata).
\<close>

record ('o, 'b) shared_env =
  env_accessor :: "'o accessor"
  env_iorder :: "string list"
  env_korder :: "'o obj gomap \<Rightarrow> string list"
  env_order :: "'o deltas gomap \<Rightarrow> string list"
  env_ring :: "('b, 'o notification) ring"
  env_rv :: "'o obj \<Rightarrow> string option"

text \<open>
  The controller is represented by its queue; nil before the informer runs. \<open>si_log\<close> is history: every notification of
  \<open>processDeltas\<close>.
\<close>

record ('o, 'b) sharedIndexInformer =
  si_indexer :: "'o goval cache"
  si_controller :: "'o DeltaFIFO option"
  si_processor :: "('o, 'b) sharedProcessor"
  si_resyncCheckPeriod :: int
  si_defaultEventHandlerResyncPeriod :: int
  si_started :: bool
  si_stopped :: bool
  si_transform :: "('o obj \<Rightarrow> ('o goval, 'o obj) res) option"
  si_log :: "'o notification list"

definition NewSharedIndexInformerWithOptions ::
  "('o, 'b) shared_env \<Rightarrow> 'o goval index_func gomap \<Rightarrow> int \<Rightarrow> ('o, 'b) sharedIndexInformer"
where
  "NewSharedIndexInformerWithOptions env indexers ResyncPeriod =
     \<lparr>si_indexer = NewIndexer (DeletionHandlingMetaNamespaceKeyFunc (env_accessor env)) indexers,
      si_controller = None,
      si_processor = \<lparr>sp_listenersStarted = False, sp_listeners = Map.empty\<rparr>,
      si_resyncCheckPeriod = ResyncPeriod, si_defaultEventHandlerResyncPeriod = ResyncPeriod,
      si_started = False, si_stopped = False, si_transform = None, si_log = []\<rparr>"

definition si_SetTransform ::
  "('o, 'b) sharedIndexInformer \<Rightarrow> ('o obj \<Rightarrow> ('o goval, 'o obj) res) option
     \<Rightarrow> ('o, 'b) sharedIndexInformer \<times> 'o goval error option"
where
  "si_SetTransform s handler =
     (if si_started s then (s, Some (Errorf ''informer has already started''))
      else (s\<lparr>si_transform := handler\<rparr>, None))"

definition si_AddIndexers ::
  "('o, 'b) sharedIndexInformer \<Rightarrow> 'o goval index_func gomap \<Rightarrow> ('o, 'b) sharedIndexInformer \<times> 'o goval error option"
where
  "si_AddIndexers s indexers =
     (if si_started s then (s, Some (Errorf ''informer has already started''))
      else let (c, err) = cache_AddIndexers (si_indexer s) indexers in (s\<lparr>si_indexer := c\<rparr>, err))"

definition si_HasStarted :: "('o, 'b) sharedIndexInformer \<Rightarrow> bool" where
  "si_HasStarted s = si_started s"

definition si_HasSynced :: "('o, 'b) sharedIndexInformer \<Rightarrow> bool" where
  "si_HasSynced s = (case si_controller s of None \<Rightarrow> False | Some q \<Rightarrow> df_HasSynced q)"

definition si_IsStopped :: "('o, 'b) sharedIndexInformer \<Rightarrow> bool" where
  "si_IsStopped s = si_stopped s"

text \<open>
  \<open>Run\<close> up to the start of its goroutines. What runs after that, the processor, the controller and at the end the setting of
  \<open>stopped\<close>, are steps of their own below.
\<close>

definition si_Run :: "('o, 'b) shared_env \<Rightarrow> ('o, 'b) sharedIndexInformer \<Rightarrow> ('o, 'b) sharedIndexInformer" where
  "si_Run env s =
     (if si_HasStarted s then s
      else s\<lparr>si_controller := Some (NewDeltaFIFOWithOptions (MetaNamespaceKeyFunc (env_accessor env)) True (si_transform s)),
             si_started := True\<rparr>)"

definition minimumResyncPeriod :: int where
  "minimumResyncPeriod = 1000000000"

definition initialBufferSize :: nat where
  "initialBufferSize = 1024"

text \<open>The resync periods of a handler about to be added: its own, as adjusted, and that of the informer.\<close>

definition adjust_periods :: "bool \<Rightarrow> int \<Rightarrow> int \<Rightarrow> int \<times> int" where
  "adjust_periods started resyncCheckPeriod resyncPeriod =
     (if resyncPeriod > 0
      then let resyncPeriod = (if resyncPeriod < minimumResyncPeriod then minimumResyncPeriod else resyncPeriod)
           in if resyncPeriod < resyncCheckPeriod
              then (if started then (resyncCheckPeriod, resyncCheckPeriod) else (resyncPeriod, resyncPeriod))
              else (resyncPeriod, resyncCheckPeriod)
      else (resyncPeriod, resyncCheckPeriod))"

definition si_AddEventHandlerWithResyncPeriod ::
  "('o, 'b) shared_env \<Rightarrow> ('o, 'b) sharedIndexInformer \<Rightarrow> handle \<Rightarrow> int \<Rightarrow> int
     \<Rightarrow> ('o, 'b) sharedIndexInformer \<times> (unit error + handle)"
where
  "si_AddEventHandlerWithResyncPeriod env s h resyncPeriod now =
     (if si_stopped s
      then (s, Inl (Errorf ''handler %v was not added to shared informer because it has stopped already''))
      else
        let (period, check) = adjust_periods (si_started s) (si_resyncCheckPeriod s) resyncPeriod;
            p = (if check = si_resyncCheckPeriod s then si_processor s
                 else sp_resyncCheckPeriodChanged check (si_processor s));
            listener = newProcessListener (env_ring env) period (determineResyncPeriod period check) now initialBufferSize;
            s = s\<lparr>si_resyncCheckPeriod := check, si_processor := p\<rparr>
        in if \<not> si_started s then (s\<lparr>si_processor := sp_addListener p h listener\<rparr>, Inr h)
           else
             let items = cache_List (env_korder env (cache_content (si_indexer s))) (si_indexer s);
                 listener = foldl (\<lambda>l item. pl_add (env_ring env) l (OnAdd item True)) listener items
             in (s\<lparr>si_processor := sp_addListener p h listener\<rparr>, Inr h))"

definition si_AddEventHandler ::
  "('o, 'b) shared_env \<Rightarrow> ('o, 'b) sharedIndexInformer \<Rightarrow> handle \<Rightarrow> int \<Rightarrow> ('o, 'b) sharedIndexInformer \<times> (unit error + handle)"
where
  "si_AddEventHandler env s h now =
     si_AddEventHandlerWithResyncPeriod env s h (si_defaultEventHandlerResyncPeriod s) now"

definition si_RemoveEventHandler ::
  "('o, 'b) sharedIndexInformer \<Rightarrow> handle \<Rightarrow> ('o, 'b) sharedIndexInformer \<times> ('o, 'b) processorListener option"
where
  "si_RemoveEventHandler s h =
     (let (p, l) = sp_removeListener (si_processor s) h in (s\<lparr>si_processor := p\<rparr>, l))"

text \<open>\<open>OnAdd\<close>, \<open>OnUpdate\<close> and \<open>OnDelete\<close> of the informer: it is the handler that \<open>processDeltas\<close> notifies.\<close>

definition is_sync :: "('o obj \<Rightarrow> string option) \<Rightarrow> 'o obj \<Rightarrow> 'o obj \<Rightarrow> bool" where
  "is_sync rv old new =
     (case rv new of
        None \<Rightarrow> False
      | Some v \<Rightarrow> (case rv old of None \<Rightarrow> False | Some oldv \<Rightarrow> v = oldv))"

fun si_notify :: "('o, 'b) shared_env \<Rightarrow> ('o, 'b) sharedProcessor \<Rightarrow> 'o notification \<Rightarrow> ('o, 'b) sharedProcessor" where
  "si_notify env p (OnAdd obj isInInitialList) = sp_distribute (env_ring env) (OnAdd obj isInInitialList) False p"
| "si_notify env p (OnUpdate old new) = sp_distribute (env_ring env) (OnUpdate old new) (is_sync (env_rv env) old new) p"
| "si_notify env p (OnDelete old) = sp_distribute (env_ring env) (OnDelete old) False p"

text \<open>
  \<open>HandleDeltas\<close>, under \<open>blockDeltas\<close>. Store and processor do not affect each other, so the calls of the handler are made in
  order after \<open>processDeltas\<close> has produced them.
\<close>

definition HandleDeltas ::
  "('o, 'b) shared_env \<Rightarrow> 'o deltas \<Rightarrow> bool \<Rightarrow> ('o goval cache, 'o) client \<times> ('o, 'b) sharedProcessor
     \<Rightarrow> (('o goval cache, 'o) client \<times> ('o, 'b) sharedProcessor) \<times> 'o goval proc_result"
where
  "HandleDeltas env deltas isInInitialList sp =
     (let (client, p) = sp;
          (client', r) = processDeltas (cache_methods (env_iorder env) (env_korder env)) deltas isInInitialList client
      in ((client', foldl (si_notify env) p (drop (length (snd client)) (snd client'))), r))"

text \<open>One pop of the controller's \<open>processLoop\<close>.\<close>

definition si_Pop :: "('o, 'b) shared_env \<Rightarrow> ('o, 'b) sharedIndexInformer \<Rightarrow> ('o, 'b) sharedIndexInformer" where
  "si_Pop env s =
     (case si_controller s of
        None \<Rightarrow> s
      | Some q \<Rightarrow>
          let (q', ((c, log), p), out) = df_Pop (HandleDeltas env) q ((si_indexer s, si_log s), si_processor s)
          in s\<lparr>si_controller := Some q', si_indexer := c, si_log := log, si_processor := p\<rparr>)"

text \<open>The queue and its client, as the informer of the theory before.\<close>

definition si_informer :: "'o DeltaFIFO \<Rightarrow> ('o, 'b) sharedIndexInformer \<Rightarrow> ('o goval cache, 'o) informer" where
  "si_informer q s = \<lparr>inf_queue = q, inf_client = (si_indexer s, si_log s)\<rparr>"

text \<open>A call of the reflector, and its resync timer: it asks the processor before it calls \<open>Resync\<close>.\<close>

definition si_produce ::
  "('o, 'b) shared_env \<Rightarrow> ('o, 'b) sharedIndexInformer \<Rightarrow> 'o informer_call \<Rightarrow> ('o, 'b) sharedIndexInformer"
where
  "si_produce env s call =
     (case si_controller s of
        None \<Rightarrow> s
      | Some q \<Rightarrow> s\<lparr>si_controller := Some (inf_queue (informer_apply
            (cache_methods (env_iorder env) (env_korder env)) (env_order env) (si_informer q s) call))\<rparr>)"

definition si_resync :: "('o, 'b) shared_env \<Rightarrow> int \<Rightarrow> ('o, 'b) sharedIndexInformer \<Rightarrow> ('o, 'b) sharedIndexInformer" where
  "si_resync env now s =
     (let (p, needed) = sp_shouldResync now (si_processor s); s = s\<lparr>si_processor := p\<rparr>
      in if needed then si_produce env s CResync else s)"

section \<open>The informer at work\<close>

definition si_kf :: "('o, 'b) shared_env \<Rightarrow> 'o goval key_func" where
  "si_kf env = DeletionHandlingMetaNamespaceKeyFunc (env_accessor env)"

text \<open>What the code outside the repository and the runtime give.\<close>

definition env_ok :: "('o, 'b) shared_env \<Rightarrow> 'o goval index_func gomap \<Rightarrow> ('b \<Rightarrow> 'o notification list) \<Rightarrow> bool" where
  "env_ok env indexers items \<longleftrightarrow> range_order (env_iorder env) indexers \<and> map_iter (env_korder env) \<and>
     map_iter (env_order env) \<and> ring_fifo (env_ring env) items"

text \<open>A round of one of the goroutines of a registered listener.\<close>

inductive pl_step :: "('b, 'o notification) ring \<Rightarrow> ('o, 'b) processorListener \<Rightarrow> ('o, 'b) processorListener \<Rightarrow> bool" for rb where
  dispatch: "pop_dispatch rb l = Some l' \<Longrightarrow> pl_step rb l l'"
| handled: "run_handle l = Some (l', r) \<Longrightarrow> pl_step rb l l'"
| panicked: "run_panic l = Some l' \<Longrightarrow> pl_step rb l l'"

text \<open>
  The system: users add and remove handlers at any time, the reflector calls the queue (with objects the index functions accept), the
  controller pops, and the listeners' goroutines run.
\<close>

inductive sh_step ::
  "('o, 'b) shared_env \<Rightarrow> 'o goval index_func gomap \<Rightarrow> ('o, 'b) sharedIndexInformer \<Rightarrow> ('o, 'b) sharedIndexInformer \<Rightarrow> bool"
  for env indexers
where
  transform: "transformer_ok (si_kf env) handler \<Longrightarrow> sh_step env indexers s (fst (si_SetTransform s handler))"
| add_handler: "sp_listeners (si_processor s) h = None \<Longrightarrow>
    sh_step env indexers s (fst (si_AddEventHandlerWithResyncPeriod env s h period now))"
| remove_handler: "sh_step env indexers s (fst (si_RemoveEventHandler s h))"
| run: "sh_step env indexers s (si_Run env s)"
| processor_runs: "si_started s \<Longrightarrow> \<not> si_stopped s \<Longrightarrow>
    sh_step env indexers s (s\<lparr>si_processor := sp_run_start (si_processor s)\<rparr>)"
| controller_ends: "si_started s \<Longrightarrow> sh_step env indexers s (s\<lparr>si_stopped := True\<rparr>)"
| processor_ends: "si_stopped s \<Longrightarrow> sh_step env indexers s (s\<lparr>si_processor := sp_run_stop (si_processor s)\<rparr>)"
| produce: "call_ok (si_kf env) indexers (\<lambda>obj. projr (transform_with (si_transform s) obj)) call \<Longrightarrow> call \<noteq> CPop \<Longrightarrow>
    call \<noteq> CResync \<Longrightarrow> sh_step env indexers s (si_produce env s call)"
| resync: "sh_step env indexers s (si_resync env now s)"
| pop: "sh_step env indexers s (si_Pop env s)"
| listener: "sp_listenersStarted (si_processor s) \<Longrightarrow> sp_listeners (si_processor s) h = Some (l, b) \<Longrightarrow>
    pl_step (env_ring env) l l' \<Longrightarrow>
    sh_step env indexers s (s\<lparr>si_processor := (si_processor s)\<lparr>sp_listeners := (sp_listeners (si_processor s))(h \<mapsto> (l', b))\<rparr>\<rparr>)"

inductive sh_reachable :: "('o, 'b) shared_env \<Rightarrow> 'o goval index_func gomap \<Rightarrow> ('o, 'b) sharedIndexInformer \<Rightarrow> bool"
  for env indexers
where
  new: "sh_reachable env indexers (NewSharedIndexInformerWithOptions env indexers period)"
| step: "sh_reachable env indexers s \<Longrightarrow> sh_step env indexers s s' \<Longrightarrow> sh_reachable env indexers s'"

section \<open>What a listener has been sent\<close>

text \<open>
  Reading the notifications of a handler: like \<open>replay\<close>, but the object an update replaces need only have the
  resource version of the one the handler knows, as updates that do not change it go to some handlers only.
\<close>

definition same_version :: "('o obj \<Rightarrow> string option) \<Rightarrow> 'o obj \<Rightarrow> 'o obj \<Rightarrow> bool" where
  "same_version rv a b \<longleftrightarrow> a = b \<or> rv a \<noteq> None \<and> rv a = rv b"

fun replay_upto ::
  "'o goval key_func \<Rightarrow> ('o obj \<Rightarrow> string option) \<Rightarrow> 'o notification list \<Rightarrow> 'o obj gomap \<Rightarrow> 'o obj gomap option"
where
  "replay_upto key rv [] m = Some m"
| "replay_upto key rv (OnAdd obj initial # log) m =
     (case key obj of
        Inl _ \<Rightarrow> None
      | Inr k \<Rightarrow> if m k = None then replay_upto key rv log (m(k \<mapsto> obj)) else None)"
| "replay_upto key rv (OnUpdate old obj # log) m =
     (case key obj of
        Inl _ \<Rightarrow> None
      | Inr k \<Rightarrow> (case m k of
            None \<Rightarrow> None
          | Some cur \<Rightarrow> if same_version rv cur old then replay_upto key rv log (m(k \<mapsto> obj)) else None))"
| "replay_upto key rv (OnDelete obj # log) m =
     (case key obj of
        Inl _ \<Rightarrow> None
      | Inr k \<Rightarrow> if m k \<noteq> None then replay_upto key rv log (m(k := None)) else None)"

definition same_content :: "('o obj \<Rightarrow> string option) \<Rightarrow> 'o obj gomap \<Rightarrow> 'o obj gomap \<Rightarrow> bool" where
  "same_content rv m m' \<longleftrightarrow> (\<forall>k. rel_option (same_version rv) (m k) (m' k))"

lemma same_version_refl [simp]: "same_version rv a a"
  by (simp add: same_version_def)

lemma same_version_trans: "same_version rv a b \<Longrightarrow> same_version rv b c \<Longrightarrow> same_version rv a c"
  by (auto simp: same_version_def)

lemma is_sync_same_version: "is_sync rv old new \<Longrightarrow> same_version rv old new"
  by (auto simp: is_sync_def same_version_def split: option.splits)

lemma same_content_refl [simp]: "same_content rv m m"
  by (simp add: same_content_def option.rel_refl)

lemma same_content_upd:
  "same_content rv m m' \<Longrightarrow> rel_option (same_version rv) x y \<Longrightarrow> same_content rv (m(k := x)) (m'(k := y))"
  by (simp add: same_content_def)

lemma same_contentD:
  assumes "same_content rv m m'"
  shows "m k = None \<longleftrightarrow> m' k = None" and "m' k = Some b \<Longrightarrow> \<exists>a. m k = Some a \<and> same_version rv a b"
  using assms [unfolded same_content_def, rule_format, of k] by (cases "m k"; cases "m' k"; simp)+

lemma replay_upto_append:
  "replay_upto key rv (xs @ ys) m = (case replay_upto key rv xs m of None \<Rightarrow> None | Some m' \<Rightarrow> replay_upto key rv ys m')"
  by (induction xs m rule: replay_upto.induct [of _ key rv]) (auto simp: fun_upd_def split: sum.split option.split)

text \<open>What of a notification reaches a listener.\<close>

definition goes_to :: "('o obj \<Rightarrow> string option) \<Rightarrow> bool \<Rightarrow> 'o notification \<Rightarrow> bool" where
  "goes_to rv isSyncing n = (case n of OnUpdate old new \<Rightarrow> is_sync rv old new \<longrightarrow> isSyncing | _ \<Rightarrow> True)"

lemma replay_one:
  assumes "replay key (n # log) m = Some m'" and "same_content rv v m"
  shows "\<exists>m1 v1. replay key [n] m = Some m1 \<and> replay key log m1 = Some m' \<and> same_content rv v1 m1 \<and>
     replay_upto key rv (if goes_to rv b n then [n] else []) v = Some v1"
proof (cases n)
  case (OnAdd obj initial)
  then show ?thesis
    using assms same_contentD(1) [OF assms(2)] same_content_upd [OF assms(2)]
    by (auto simp: goes_to_def split: sum.splits if_splits)
next
  case (OnDelete obj)
  then show ?thesis
    using assms same_contentD(1) [OF assms(2)] same_content_upd [OF assms(2)]
    by (auto simp: goes_to_def split: sum.splits if_splits)
next
  case (OnUpdate old new)
  then obtain k where k: "key new = Inr k" "m k = Some old" "replay key log (m(k \<mapsto> new)) = Some m'"
    using assms(1) by (auto split: sum.splits if_splits)
  obtain cur where cur: "v k = Some cur" "same_version rv cur old" using same_contentD(2) [OF assms(2) k(2)] by blast
  show ?thesis
  proof (cases "goes_to rv b n")
    case True
    then show ?thesis using OnUpdate k cur same_content_upd [OF assms(2), of "Some new" "Some new" k] by auto
  next
    case False
    then have "same_version rv cur new"
      using OnUpdate is_sync_same_version same_version_trans [OF cur(2)] by (auto simp: goes_to_def)
    then have "same_content rv v (m(k \<mapsto> new))"
      using same_content_upd [OF assms(2), of "Some cur" "Some new" k] cur(1) by (simp add: fun_upd_idem)
    then show ?thesis using OnUpdate k False by auto
  qed
qed

lemma replay_upto_sent:
  assumes "replay key log m = Some m'" and "same_content rv v m"
  shows "\<exists>v'. replay_upto key rv (filter (goes_to rv b) log) v = Some v' \<and> same_content rv v' m'"
  using assms
proof (induction log arbitrary: m v)
  case (Cons n log)
  from replay_one [OF Cons.prems, of b] obtain m1 v1 where one: "replay key log m1 = Some m'" "same_content rv v1 m1"
    "replay_upto key rv (if goes_to rv b n then [n] else []) v = Some v1" by blast
  have "filter (goes_to rv b) (n # log) = (if goes_to rv b n then [n] else []) @ filter (goes_to rv b) log" by simp
  then show ?case using Cons.IH [OF one(1,2)] one(3) by (simp only: replay_upto_append option.case)
qed simp

section \<open>Invariants\<close>

definition pl_pending :: "('b \<Rightarrow> 'o notification list) \<Rightarrow> ('o, 'b) processorListener \<Rightarrow> 'o notification list" where
  "pl_pending items l = (case pl_running l of None \<Rightarrow> [] | Some n \<Rightarrow> [n]) @
     (case pl_notification l of None \<Rightarrow> [] | Some n \<Rightarrow> [n]) @ items (pl_pendingNotifications l)"

definition finished :: "('o notification \<times> bool) list \<Rightarrow> 'o notification list" where
  "finished handled = map fst (filter (\<lambda>(n, returned). returned \<and> is_initial n) handled)"

definition pl_ok :: "('b \<Rightarrow> 'o notification list) \<Rightarrow> ('o, 'b) processorListener \<Rightarrow> bool" where
  "pl_ok items l \<longleftrightarrow> pl_added l = map fst (pl_handled l) @ pl_pending items l \<and> \<not> pl_popDone l \<and>
     (pl_notification l = None \<longrightarrow> items (pl_pendingNotifications l) = []) \<and>
     sf_count (pl_syncTracker l) =
       wrap64 (int (length (filter is_initial (pl_added l))) - int (length (finished (pl_handled l))))"

lemma ring_fifoD:
  assumes "ring_fifo rb items"
  shows "items (rg_New rb n) = []" and "items (rg_WriteOne rb b x) = items b @ [x]"
    and "rg_ReadOne rb b = (b', r) \<Longrightarrow> items b = (case r of None \<Rightarrow> [] | Some x \<Rightarrow> x # items b')"
    and "rg_ReadOne rb b = (b', None) \<Longrightarrow> items b' = []"
proof -
  show "items (rg_New rb n) = []" "items (rg_WriteOne rb b x) = items b @ [x]"
    using assms by (auto simp: ring_fifo_def)
  have read: "rg_ReadOne rb b = (b', r) \<Longrightarrow>
      case items b of [] \<Rightarrow> r = None \<and> items b' = [] | x # xs \<Rightarrow> r = Some x \<and> items b' = xs" for r
    using assms by (simp add: ring_fifo_def)
  show "rg_ReadOne rb b = (b', r) \<Longrightarrow> items b = (case r of None \<Rightarrow> [] | Some x \<Rightarrow> x # items b')"
    using read [of r] by (cases "items b") auto
  show "rg_ReadOne rb b = (b', None) \<Longrightarrow> items b' = []"
    using read [of None] by (cases "items b") auto
qed

lemma wrap64_step: "wrap64 (wrap64 n + k) = wrap64 (n + k)"
  by (simp add: wrap64_def algebra_simps mod_simps)

lemma wrap64_step_minus: "wrap64 (wrap64 n - k) = wrap64 (n - k)"
  using wrap64_step [of n "- k"] by simp

lemma finished_snoc:
  "finished (hs @ [(n, returned)]) = finished hs @ (if returned \<and> is_initial n then [n] else [])"
  by (simp add: finished_def)

lemma pl_add_ok:
  assumes ring: "ring_fifo rb items" and ok: "pl_ok items l"
  shows "pl_ok items (pl_add rb l n)" and "pl_added (pl_add rb l n) = pl_added l @ [n]"
proof -
  show added: "pl_added (pl_add rb l n) = pl_added l @ [n]"
    by (simp add: pl_add_def Let_def)
  have count: "sf_count (pl_syncTracker (pl_add rb l n)) =
      (if is_initial n then wrap64 (sf_count (pl_syncTracker l) + 1) else sf_count (pl_syncTracker l))"
    "pl_handled (pl_add rb l n) = pl_handled l" "pl_popDone (pl_add rb l n) = pl_popDone l"
    by (simp_all add: pl_add_def Let_def pop_receive_def SingleFileTracker_Start_def split: option.split)
  have pending: "pl_pending items (pl_add rb l n) = pl_pending items l @ [n]" "pl_notification (pl_add rb l n) \<noteq> None"
    using ok by (auto simp: pl_add_def Let_def pop_receive_def pl_pending_def pl_ok_def ring_fifoD(2) [OF ring]
        split: option.split)
  show "pl_ok items (pl_add rb l n)"
    using ok added count pending by (auto simp: pl_ok_def wrap64_step diff_add_eq add.assoc)
qed

lemma pl_adds_ok:
  "ring_fifo rb items \<Longrightarrow> pl_ok items l \<Longrightarrow>
     pl_ok items (foldl (pl_add rb) l ns) \<and> pl_added (foldl (pl_add rb) l ns) = pl_added l @ ns"
  by (induction ns arbitrary: l) (simp_all add: pl_add_ok)

lemma pop_dispatch_ok:
  assumes "ring_fifo rb items" and "pl_ok items l" and "pop_dispatch rb l = Some l'"
  shows "pl_ok items l' \<and> pl_added l' = pl_added l \<and> pl_pending items l' = pl_pending items l \<and>
    pl_handled l' = pl_handled l \<and> pl_running l' \<noteq> None"
proof -
  obtain n where n: "pl_notification l = Some n" "pl_running l = None" "\<not> pl_popDone l"
    using assms(3) by (auto simp: pop_dispatch_def split: option.splits bool.splits)
  obtain b next' where read: "rg_ReadOne rb (pl_pendingNotifications l) = (b, next')" by fastforce
  have l': "l' = l\<lparr>pl_running := Some n, pl_notification := next', pl_pendingNotifications := b\<rparr>"
    using assms(3) n read by (simp add: pop_dispatch_def)
  have "items (pl_pendingNotifications l) = (case next' of None \<Rightarrow> [] | Some x \<Rightarrow> [x]) @ items b"
    "next' = None \<Longrightarrow> items b = []"
    using ring_fifoD(3,4) [OF assms(1)] read by (cases next'; simp)+
  then show ?thesis using assms(2) n by (auto simp: l' pl_ok_def pl_pending_def)
qed

lemma run_handle_ok:
  assumes ok: "pl_ok items l" and handle: "run_handle l = Some (l', r)"
  shows "pl_ok items l' \<and> pl_added l' = pl_added l \<and> pl_pending items l = hd (pl_pending items l) # pl_pending items l' \<and>
    pl_handled l' = pl_handled l @ [(hd (pl_pending items l), True)]"
proof -
  obtain n where n: "pl_running l = Some n" using handle by (auto simp: run_handle_def split: option.splits)
  show ?thesis
    using ok handle n
    by (auto simp: run_handle_def Let_def SingleFileTracker_Finished_def pl_ok_def pl_pending_def finished_snoc wrap64_step_minus
        algebra_simps split: if_splits)
qed

lemma run_panic_ok:
  assumes ok: "pl_ok items l" and panic: "run_panic l = Some l'"
  shows "pl_ok items l' \<and> pl_added l' = pl_added l"
proof -
  obtain n where n: "pl_running l = Some n" using panic by (auto simp: run_panic_def split: option.splits)
  then show ?thesis using ok panic by (auto simp: run_panic_def pl_ok_def pl_pending_def finished_snoc)
qed

lemma pl_step_ok:
  assumes "ring_fifo rb items" and "pl_ok items l" and "pl_step rb l l'"
  shows "pl_ok items l' \<and> pl_added l' = pl_added l"
  using assms(3)
proof cases
  case dispatch
  then show ?thesis using pop_dispatch_ok [OF assms(1,2)] by blast
next
  case (handled r)
  then show ?thesis using run_handle_ok [OF assms(2)] by blast
next
  case panicked
  then show ?thesis using run_panic_ok [OF assms(2)] by blast
qed

lemma newProcessListener_ok:
  "ring_fifo rb items \<Longrightarrow> pl_ok items (newProcessListener rb rp p now n) \<and> pl_added (newProcessListener rb rp p now n) = []"
  by (simp add: newProcessListener_def pl_determineNextResync_def pl_ok_def pl_pending_def ring_fifoD(1) finished_def wrap64_def)

text \<open>The timing fields do not matter.\<close>

lemma pl_ok_timing [simp]:
  "pl_ok items (pl_determineNextResync now l) = pl_ok items l" "pl_added (pl_determineNextResync now l) = pl_added l"
  "pl_ok items (pl_setResyncPeriod p l) = pl_ok items l" "pl_added (pl_setResyncPeriod p l) = pl_added l"
  by (simp_all add: pl_determineNextResync_def pl_setResyncPeriod_def pl_ok_def pl_pending_def)

text \<open>Handing a whole log to the listeners.\<close>

lemma si_notify_listeners:
  "sp_listeners (si_notify env p n) h = map_option (\<lambda>(l, b).
     (if goes_to (env_rv env) b n then pl_add (env_ring env) l n else l, b)) (sp_listeners p h)"
  by (cases n) (auto simp: sp_distribute_def goes_to_def option.map_comp fun_eq_iff split: prod.split intro!: option.map_cong0)

lemma si_notify_log_listeners:
  "sp_listeners (foldl (si_notify env) p log) h = map_option (\<lambda>(l, b).
     (foldl (pl_add (env_ring env)) l (filter (goes_to (env_rv env) b) log), b)) (sp_listeners p h)"
proof (induction log arbitrary: p)
  case (Cons n log)
  then show ?case by (cases "sp_listeners p h") (auto simp: si_notify_listeners)
qed (simp add: option.map_id split_beta)

text \<open>The pops: the store and the log move as in the informer of one handler, and the new part of the log is distributed.\<close>

lemma processDeltas_log:
  "processDeltas m ds initial (s, log) = ((s', log'), r) \<Longrightarrow> \<exists>ys. log' = log @ ys"
proof (induction ds arbitrary: s log)
  case (Cons d ds)
  show ?case
    using Cons.prems Cons.IH
    by (fastforce simp: Let_def notify_or_return_def split: if_splits prod.splits sum.splits bool.splits ret.splits
        option.splits proc_result.splits)
qed simp

lemma df_Pop_HandleDeltas:
  fixes env :: "('o, 'b) shared_env"
  defines "m \<equiv> cache_methods (env_iorder env) (env_korder env)"
  assumes "df_Pop (processDeltas m) q (c, log) = (q', (c', log'), out)"
  shows "\<exists>ys. log' = log @ ys \<and>
     df_Pop (HandleDeltas env) q ((c, log), p) = (q', ((c', log @ ys), foldl (si_notify env) p ys), out)"
  using assms(2)
proof (induction "length (df_queue q)" arbitrary: q)
  case 0
  then show ?case by (auto simp: df_Pop.simps)
next
  case (Suc n)
  then obtain kid queue where queue: "df_queue q = kid # queue" by (cases "df_queue q") auto
  show ?case
  proof (cases "df_items q kid")
    case None
    then show ?thesis
      using Suc.hyps(1) [OF _ Suc.prems [unfolded df_Pop.simps [of _ q] queue list.case Let_def None option.case]]
        Suc.hyps(2) by (simp add: df_Pop.simps [of _ q] queue)
  next
    case (Some item)
    obtain s1 log1 r where pr: "processDeltas m item (\<not> df_HasSynced q) (c, log) = ((s1, log1), r)"
      by (metis surj_pair)
    obtain ys where ys: "log1 = log @ ys" using processDeltas_log [OF pr] by blast
    show ?thesis
      using Suc.prems pr [unfolded m_def]
      by (auto simp: df_Pop.simps [of _ q] queue Some HandleDeltas_def Let_def m_def ys split: prod.splits)
  qed
qed

text \<open>The synthetic additions for a handler that joins late describe the store.\<close>

lemma replay_late_join:
  assumes "distinct ks" and "\<forall>k \<in> set ks. v k = None" and "\<And>k obj. m k = Some obj \<Longrightarrow> key obj = Inr k"
  shows "replay_upto key rv (map (\<lambda>obj. OnAdd obj True) (List.map_filter m ks)) v = Some (v ++ (m |` set ks))"
  using assms(1,2)
proof (induction ks arbitrary: v)
  case (Cons k ks)
  show ?case
  proof (cases "m k")
    case None
    then have "m |` set (k # ks) = m |` set ks" by (auto simp: restrict_map_def fun_eq_iff)
    then show ?thesis using Cons None by (simp add: map_filter_simps)
  next
    case (Some obj)
    have "replay_upto key rv (map (\<lambda>obj. OnAdd obj True) (List.map_filter m ks)) (v(k \<mapsto> obj)) =
        Some (v(k \<mapsto> obj) ++ (m |` set ks))"
      by (rule Cons.IH) (use Cons.prems in auto)
    moreover have "v(k \<mapsto> obj) ++ (m |` set ks) = v ++ (m |` set (k # ks))"
      using Some Cons.prems by (auto simp: map_add_def restrict_map_def fun_eq_iff split: option.split)
    ultimately show ?thesis using Cons.prems Some assms(3) [OF Some] by (simp add: map_filter_simps)
  qed
qed (simp add: map_filter_simps)

text \<open>The invariant of the system.\<close>

definition told :: "('o, 'b) shared_env \<Rightarrow> 'o obj gomap \<Rightarrow> ('o, 'b) processorListener \<Rightarrow> bool" where
  "told env content l \<longleftrightarrow> (\<exists>v. replay_upto (si_kf env) (env_rv env) (pl_added l) Map.empty = Some v \<and>
     same_content (env_rv env) v content)"

definition listeners_ok :: "('o, 'b) shared_env \<Rightarrow> ('b \<Rightarrow> 'o notification list) \<Rightarrow> 'o obj gomap \<Rightarrow> ('o, 'b) sharedProcessor \<Rightarrow> bool" where
  "listeners_ok env items content p \<longleftrightarrow>
     (\<forall>h l b. sp_listeners p h = Some (l, b) \<longrightarrow> pl_ok items l \<and> told env content l)"

definition control_ok :: "('o, 'b) shared_env \<Rightarrow> 'o goval index_func gomap \<Rightarrow> ('o, 'b) sharedIndexInformer \<Rightarrow> bool" where
  "control_ok env indexers s \<longleftrightarrow> transformer_ok (si_kf env) (si_transform s) \<and>
     (case si_controller s of
        None \<Rightarrow> \<not> si_started s \<and> si_indexer s = NewIndexer (si_kf env) indexers \<and> si_log s = []
      | Some q \<Rightarrow> si_started s \<and> cinf.inv (env_iorder env) (env_korder env) (si_kf env) (si_informer q s) \<and>
          cinf.log_inv (si_kf env) Map.empty (si_informer q s) \<and> cache_accepts (si_indexer s) = indexable indexers \<and>
          df_transform q = transform_with (si_transform s))"

definition si_ok ::
  "('o, 'b) shared_env \<Rightarrow> 'o goval index_func gomap \<Rightarrow> ('b \<Rightarrow> 'o notification list) \<Rightarrow> ('o, 'b) sharedIndexInformer \<Rightarrow> bool"
where
  "si_ok env indexers items s \<longleftrightarrow> control_ok env indexers s \<and>
     listeners_ok env items (cache_content (si_indexer s)) (si_processor s)"

lemma listeners_ok_mapped:
  assumes "listeners_ok env items content p" and "\<And>h. sp_listeners p' h = map_option (\<lambda>(l, b). (f l b, g l b)) (sp_listeners p h)"
    and "\<And>l b. pl_ok items l \<Longrightarrow> told env content l \<Longrightarrow> pl_ok items (f l b) \<and> told env content' (f l b)"
  shows "listeners_ok env items content' p'"
  using assms(1,3) by (auto simp: listeners_ok_def assms(2))

lemma told_cong: "pl_added l' = pl_added l \<Longrightarrow> told env content l' = told env content l"
  by (simp add: told_def)

lemma told_more:
  assumes "told env content l" and "replay (si_kf env) ys content = Some content'"
    and "pl_added l' = pl_added l @ filter (goes_to (env_rv env) b) ys"
  shows "told env content' l'"
proof -
  obtain v where v: "replay_upto (si_kf env) (env_rv env) (pl_added l) Map.empty = Some v" "same_content (env_rv env) v content"
    using assms(1) by (auto simp: told_def)
  from replay_upto_sent [OF assms(2) v(2), of b] show ?thesis
    by (auto simp: told_def assms(3) replay_upto_append v(1))
qed

lemma new_informer_control:
  assumes "env_ok env indexers items" and "transformer_ok (si_kf env) tr" and "si_transform s = tr"
    and "si_indexer s = NewIndexer (si_kf env) indexers" and "si_log s = []" and "si_started s"
    and "si_controller s = Some (NewDeltaFIFOWithOptions (MetaNamespaceKeyFunc (env_accessor env)) True tr)"
  shows "control_ok env indexers s"
proof -
  let ?q = "NewDeltaFIFOWithOptions (MetaNamespaceKeyFunc (env_accessor env)) True tr"
  have eq: "si_informer ?q s = new_indexer_informer (env_accessor env) indexers tr"
    using assms(4,5) by (simp add: si_informer_def new_indexer_informer_def newInformer_def si_kf_def)
  have iter: "range_order (env_iorder env) indexers" "map_iter (env_korder env)" using assms(1) by (auto simp: env_ok_def)
  note new = new_informer_inv [OF assms(2) [unfolded si_kf_def] iter]
  have "cache_accepts (si_indexer s) = indexable indexers"
    by (simp add: assms(4) cache_accepts_def NewIndexer_def NewThreadSafeStore_def)
  moreover have "df_transform ?q = transform_with tr"
    by (simp add: NewDeltaFIFOWithOptions_def df_transform_def transform_with_def fun_eq_iff)
  ultimately show ?thesis using new(1,3) assms(2,3,6,7) eq by (simp add: control_ok_def si_kf_def)
qed

lemma control_valid_call:
  assumes "control_ok env indexers s" and "si_controller s = Some q"
  shows "cinf.valid_call (si_kf env) (si_informer q s) call =
     call_ok (si_kf env) indexers (\<lambda>obj. projr (transform_with (si_transform s) obj)) call"
  using assms
  by (cases call) (auto simp: control_ok_def cinf.admissible_def cinf.transformed_def si_informer_def list_all_iff)

lemma informer_apply_client: "call \<noteq> CPop \<Longrightarrow> inf_client (informer_apply m order i call) = inf_client i"
  by (cases call) simp_all

lemma si_produce_ok:
  assumes env: "env_ok env indexers items" and ok: "control_ok env indexers s" and pop: "call \<noteq> CPop"
    and call: "call_ok (si_kf env) indexers (\<lambda>obj. projr (transform_with (si_transform s) obj)) call"
  shows "control_ok env indexers (si_produce env s call) \<and> si_indexer (si_produce env s call) = si_indexer s \<and>
     si_processor (si_produce env s call) = si_processor s"
proof (cases "si_controller s")
  case None
  then show ?thesis using ok by (simp add: si_produce_def)
next
  case (Some q)
  let ?m = "cache_methods (env_iorder env) (env_korder env)" and ?i = "si_informer q s"
  define i' where "i' = informer_apply ?m (env_order env) ?i call"
  have inv: "cinf.inv (env_iorder env) (env_korder env) (si_kf env) ?i" "cinf.log_inv (si_kf env) Map.empty ?i"
    using ok Some by (auto simp: control_ok_def)
  have iter: "map_iter (env_order env)" using env by (simp add: env_ok_def)
  have step: "cinf.inv (env_iorder env) (env_korder env) (si_kf env) i'" "cinf.log_inv (si_kf env) Map.empty i'"
    "cinf.same_env ?i i'"
    using cinf.informer_apply_correct [OF inv(1) iter, of call Map.empty] control_valid_call [OF ok Some] call inv(2)
    by (simp_all add: i'_def)
  have "inf_client i' = (si_indexer s, si_log s)"
    by (simp add: i'_def informer_apply_client [OF pop]) (simp add: si_informer_def)
  then have i': "si_informer (inf_queue i') (si_produce env s call) = i'"
    by (simp add: si_informer_def si_produce_def Some)
  have "control_ok env indexers (si_produce env s call)"
    using ok step Some i' by (simp add: control_ok_def si_produce_def cinf.same_env_def i'_def [symmetric]) (simp add: si_informer_def)
  then show ?thesis using Some by (simp add: si_produce_def)
qed

lemma si_Pop_ok:
  assumes env: "env_ok env indexers items" and ok: "si_ok env indexers items s"
  shows "si_ok env indexers items (si_Pop env s)"
proof (cases "si_controller s")
  case None
  then show ?thesis using ok by (simp add: si_Pop_def)
next
  case (Some q)
  let ?m = "cache_methods (env_iorder env) (env_korder env)" and ?i = "si_informer q s"
  have ctl: "control_ok env indexers s" and lok: "listeners_ok env items (cache_content (si_indexer s)) (si_processor s)"
    using ok by (auto simp: si_ok_def)
  have inv: "cinf.inv (env_iorder env) (env_korder env) (si_kf env) ?i" "cinf.log_inv (si_kf env) Map.empty ?i"
    using ctl Some by (auto simp: control_ok_def)
  obtain q' c' log' out where pop: "df_Pop (processDeltas ?m) q (si_indexer s, si_log s) = (q', (c', log'), out)"
    by (metis surj_pair)
  obtain ys where ys: "log' = si_log s @ ys"
    "df_Pop (HandleDeltas env) q ((si_indexer s, si_log s), si_processor s) =
       (q', ((c', si_log s @ ys), foldl (si_notify env) (si_processor s) ys), out)"
    using df_Pop_HandleDeltas [OF pop] by blast
  define i' where "i' = \<lparr>inf_queue = q', inf_client = (c', log')\<rparr>"
  have iter: "map_iter (env_order env)" and ring: "ring_fifo (env_ring env) items" using env by (auto simp: env_ok_def)
  have "informer_apply ?m (env_order env) ?i CPop = i'"
    by (simp add: informer_pop_def si_informer_def pop i'_def)
  then have step: "cinf.inv (env_iorder env) (env_korder env) (si_kf env) i'" "cinf.log_inv (si_kf env) Map.empty i'"
    "cinf.same_env ?i i'"
    using cinf.informer_apply_correct [OF inv(1) iter, of CPop Map.empty] inv(2) by simp_all
  have s': "si_Pop env s = s\<lparr>si_controller := Some q', si_indexer := c', si_log := log',
      si_processor := foldl (si_notify env) (si_processor s) ys\<rparr>"
    by (simp add: si_Pop_def Some ys)
  have i': "si_informer q' (si_Pop env s) = i'" by (simp add: s' si_informer_def i'_def)
  have "control_ok env indexers (si_Pop env s)"
    using ctl step Some i' unfolding control_ok_def
    by (simp add: s' cinf.same_env_def) (simp add: i'_def si_informer_def)
  moreover have "replay (si_kf env) ys (cache_content (si_indexer s)) = Some (cache_content c')"
    using step(2) inv(2) by (simp add: cinf.log_inv_def i'_def si_informer_def ys(1) replay_append)
  then have "listeners_ok env items (cache_content c') (foldl (si_notify env) (si_processor s) ys)"
    using pl_adds_ok [OF ring] told_more
    by (intro listeners_ok_mapped [OF lok si_notify_log_listeners]) blast
  ultimately show ?thesis by (simp add: si_ok_def s')
qed

lemma late_join_told:
  assumes env: "env_ok env indexers items" and ctl: "control_ok env indexers s"
    and l: "pl_added l = (if si_started s then map (\<lambda>item. OnAdd item True)
      (cache_List (env_korder env (cache_content (si_indexer s))) (si_indexer s)) else [])"
  shows "told env (cache_content (si_indexer s)) l"
proof (cases "si_controller s")
  case None
  then show ?thesis
    using ctl l by (auto simp: told_def control_ok_def cache_content_def NewIndexer_def NewThreadSafeStore_def)
next
  case (Some q)
  let ?content = "cache_content (si_indexer s)" and ?ks = "env_korder env (cache_content (si_indexer s))"
  have inv: "cinf.inv (env_iorder env) (env_korder env) (si_kf env) (si_informer q s)" and "si_started s"
    using ctl Some by (auto simp: control_ok_def)
  have key: "si_kf env obj = Inr k" if "?content k = Some obj" for k obj
    using cinf.inv_items [OF inv, of k] that by (simp add: cinf.key_inv_def cinf.fits_def si_informer_def)
  have "finite (dom ?content)"
    using inv by (simp add: cinf.inv_def si_informer_def cache_ok_def tsm_ok_for_def tsm_ok_def cache_content_def)
  then have order: "range_order ?ks ?content" using env by (simp add: env_ok_def map_iter_def)
  have all: "?content |` set ?ks = ?content" using order by (auto simp: range_order_def restrict_map_def fun_eq_iff domIff)
  have "replay_upto (si_kf env) (env_rv env) (pl_added l) Map.empty = Some ?content"
    using all replay_late_join [of ?ks Map.empty ?content "si_kf env" "env_rv env"] key order l \<open>si_started s\<close>
    by (simp add: range_order_def cache_List_def tsm_List_def cache_content_def [symmetric])
  then show ?thesis by (auto simp: told_def)
qed

lemma si_AddEventHandler_ok:
  assumes env: "env_ok env indexers items" and ok: "si_ok env indexers items s"
  shows "si_ok env indexers items (fst (si_AddEventHandlerWithResyncPeriod env s h rp now))"
proof (cases "si_stopped s")
  case True
  then show ?thesis using ok by (simp add: si_AddEventHandlerWithResyncPeriod_def)
next
  case False
  obtain period check where periods: "adjust_periods (si_started s) (si_resyncCheckPeriod s) rp = (period, check)" by fastforce
  define p where "p = (if check = si_resyncCheckPeriod s then si_processor s
      else sp_resyncCheckPeriodChanged check (si_processor s))"
  define l where "l = newProcessListener (env_ring env) period (determineResyncPeriod period check) now initialBufferSize"
  define ns where "ns = (if si_started s then map (\<lambda>item. OnAdd item True)
      (cache_List (env_korder env (cache_content (si_indexer s))) (si_indexer s)) else [])"
  let ?content = "cache_content (si_indexer s)"
  have s': "fst (si_AddEventHandlerWithResyncPeriod env s h rp now) = s\<lparr>si_resyncCheckPeriod := check,
      si_processor := sp_addListener p h (foldl (pl_add (env_ring env)) l ns)\<rparr>"
    using False by (simp add: si_AddEventHandlerWithResyncPeriod_def periods Let_def p_def [symmetric] l_def [symmetric]
        ns_def foldl_map)
  have ring: "ring_fifo (env_ring env) items" and korder: "map_iter (env_korder env)" using env by (auto simp: env_ok_def)
  have ctl: "control_ok env indexers s" and lok: "listeners_ok env items ?content (si_processor s)"
    using ok by (auto simp: si_ok_def)
  have new: "pl_ok items (foldl (pl_add (env_ring env)) l ns)" "pl_added (foldl (pl_add (env_ring env)) l ns) = ns"
    using pl_adds_ok [OF ring, of l ns] newProcessListener_ok [OF ring] by (auto simp: l_def)
  have "told env ?content (foldl (pl_add (env_ring env)) l ns)"
    by (rule late_join_told [OF env ctl, folded ns_def, OF new(2)])
  moreover have "listeners_ok env items ?content p"
    using lok by (auto simp: p_def intro!: listeners_ok_mapped [OF lok, where f = "\<lambda>l _. _ l"]
        simp: sp_resyncCheckPeriodChanged_def told_def)
  ultimately have "listeners_ok env items ?content (sp_addListener p h (foldl (pl_add (env_ring env)) l ns))"
    using new(1) by (auto simp: listeners_ok_def sp_addListener_def)
  then show ?thesis using ctl by (simp add: si_ok_def s' control_ok_def si_informer_def cong: option.case_cong)
qed

lemma si_Run_ok:
  assumes env: "env_ok env indexers items" and ok: "si_ok env indexers items s"
  shows "si_ok env indexers items (si_Run env s)"
proof (cases "si_started s")
  case True
  then show ?thesis using ok by (simp add: si_Run_def si_HasStarted_def)
next
  case False
  then have old: "si_indexer s = NewIndexer (si_kf env) indexers" "si_log s = []" "transformer_ok (si_kf env) (si_transform s)"
    using ok by (auto simp: si_ok_def control_ok_def split: option.splits)
  then have "control_ok env indexers (si_Run env s)"
    using False by (intro new_informer_control [OF env old(3)]) (simp_all add: si_Run_def si_HasStarted_def)
  then show ?thesis using ok False by (simp add: si_ok_def si_Run_def si_HasStarted_def)
qed

lemma shouldResync_listeners:
  "sp_listeners (fst (sp_shouldResync now p)) h = map_option (\<lambda>(l, b).
     (if pl_shouldResync now l then pl_determineNextResync now l else l, pl_shouldResync now l)) (sp_listeners p h)"
  by (simp add: sp_shouldResync_def Let_def)

lemma control_ok_processor [simp]:
  "control_ok env indexers (s\<lparr>si_processor := p\<rparr>) = control_ok env indexers s"
  "control_ok env indexers (s\<lparr>si_stopped := b\<rparr>) = control_ok env indexers s"
  by (simp_all add: control_ok_def si_informer_def cong: option.case_cong)

lemma si_resync_ok:
  assumes env: "env_ok env indexers items" and ok: "si_ok env indexers items s"
  shows "si_ok env indexers items (si_resync env now s)"
proof -
  obtain p needed where r: "sp_shouldResync now (si_processor s) = (p, needed)" by fastforce
  let ?s = "s\<lparr>si_processor := p\<rparr>" and ?content = "cache_content (si_indexer s)"
  have ctl: "control_ok env indexers ?s" using ok by (simp add: si_ok_def)
  have "listeners_ok env items ?content (si_processor s)" using ok by (simp add: si_ok_def)
  then have lok: "listeners_ok env items ?content p"
    using shouldResync_listeners [of now "si_processor s", unfolded r fst_conv]
    by (rule listeners_ok_mapped) (auto simp: told_def)
  then show ?thesis
    using si_produce_ok [OF env ctl, of CResync] ctl by (simp add: si_resync_def r si_ok_def Let_def)
qed

lemma sh_step_ok:
  assumes env: "env_ok env indexers items" and ok: "si_ok env indexers items s" and step: "sh_step env indexers s s'"
  shows "si_ok env indexers items s'"
  using step
proof cases
  case (transform handler)
  then show ?thesis
    using ok by (auto simp: si_SetTransform_def si_ok_def control_ok_def split: option.splits)
next
  case add_handler
  then show ?thesis using si_AddEventHandler_ok [OF env ok] by simp
next
  case (remove_handler h)
  then show ?thesis
    using ok by (auto simp: si_RemoveEventHandler_def sp_removeListener_def si_ok_def listeners_ok_def split: option.splits prod.splits)
next
  case run
  then show ?thesis using si_Run_ok [OF env ok] by simp
next
  case processor_runs
  then show ?thesis using ok by (simp add: si_ok_def sp_run_start_def listeners_ok_def)
next
  case controller_ends
  then show ?thesis using ok by (simp add: si_ok_def)
next
  case processor_ends
  then show ?thesis using ok by (simp add: si_ok_def sp_run_stop_def listeners_ok_def)
next
  case (produce call)
  then show ?thesis using si_produce_ok [OF env _ _ produce(2)] ok by (simp add: si_ok_def)
next
  case resync
  then show ?thesis using si_resync_ok [OF env ok] by simp
next
  case pop
  then show ?thesis using si_Pop_ok [OF env ok] by simp
next
  case (listener h l b l')
  have "pl_ok items l' \<and> told env (cache_content (si_indexer s)) l'"
    using pl_step_ok [OF _ _ listener(4)] ok env listener(3) told_cong
    by (fastforce simp: si_ok_def listeners_ok_def env_ok_def)
  then show ?thesis using listener(1) ok by (simp add: si_ok_def listeners_ok_def)
qed

lemma sh_reachable_ok:
  assumes "env_ok env indexers items" and "sh_reachable env indexers s"
  shows "si_ok env indexers items s"
  using assms(2)
proof induction
  case (new period)
  have "transformer_ok kf None" for kf :: "'a goval key_func" by (simp add: transformer_ok_def transform_with_def)
  then show ?case
    by (simp add: NewSharedIndexInformerWithOptions_def si_ok_def control_ok_def listeners_ok_def si_kf_def)
next
  case (step s s')
  then show ?case using sh_step_ok [OF assms(1)] by blast
qed

lemma listener_reachable:
  assumes "env_ok env indexers items" and "sh_reachable env indexers s" and "sp_getListener (si_processor s) h = Some l"
  shows "pl_ok items l" and "told env (cache_content (si_indexer s)) l"
  using sh_reachable_ok [OF assms(1,2)] assms(3) by (auto simp: si_ok_def listeners_ok_def sp_getListener_def)

section \<open>Counting and progress\<close>

lemma finished_subseq: "subseq (finished hs) (filter is_initial (map fst hs))"
  by (induction hs) (auto simp: finished_def)

lemma finished_count:
  assumes "pl_ok items l" and "int (length (pl_added l)) < 2 ^ 63"
  shows "length (finished (pl_handled l)) \<le> length (filter is_initial (pl_added l))"
    and "sf_count (pl_syncTracker l) =
      int (length (filter is_initial (pl_added l))) - int (length (finished (pl_handled l)))"
    and "length (finished (pl_handled l)) = length (filter is_initial (pl_added l)) \<longleftrightarrow>
      finished (pl_handled l) = filter is_initial (pl_added l)"
proof -
  have "pl_added l = map fst (pl_handled l) @ pl_pending items l" using assms(1) by (simp add: pl_ok_def)
  then have sub: "subseq (finished (pl_handled l)) (filter is_initial (pl_added l))"
    using subseq_order.order_trans [OF finished_subseq [of "pl_handled l"] prefix_imp_subseq] by simp
  then show le: "length (finished (pl_handled l)) \<le> length (filter is_initial (pl_added l))"
    by (rule list_emb_length)
  have "int (length (filter is_initial (pl_added l))) < 2 ^ 63"
    using assms(2) length_filter_le [of is_initial "pl_added l"] by linarith
  then show "sf_count (pl_syncTracker l) =
      int (length (filter is_initial (pl_added l))) - int (length (finished (pl_handled l)))"
    using assms(1) le by (simp add: pl_ok_def wrap64_id)
  show "length (finished (pl_handled l)) = length (filter is_initial (pl_added l)) \<longleftrightarrow>
      finished (pl_handled l) = filter is_initial (pl_added l)"
    using subseq_same_length [OF sub] by auto
qed

lemma run_handle_counts:
  assumes ok: "pl_ok items l" and small: "int (length (pl_added l)) < 2 ^ 63" and handle: "run_handle l = Some (l', r)"
  shows "r = Ret None"
proof -
  note step = run_handle_ok [OF ok handle]
  have "int (length (pl_added l')) < 2 ^ 63" using step small by simp
  then have "sf_count (pl_syncTracker l') \<ge> 0" using finished_count [of items l'] step by simp
  then show ?thesis
    using handle by (auto simp: run_handle_def SingleFileTracker_Finished_def Let_def split: option.splits if_splits)
qed

definition pl_measure :: "('b \<Rightarrow> 'o notification list) \<Rightarrow> ('o, 'b) processorListener \<Rightarrow> nat" where
  "pl_measure items l = 2 * length (pl_pending items l) - (if pl_running l = None then 0 else 1)"

lemma pl_step_measure:
  assumes "ring_fifo rb items" and "pl_ok items l" and "pl_step rb l l'"
  shows "pl_measure items l' < pl_measure items l"
  using assms(3)
proof cases
  case dispatch
  then show ?thesis
    using pop_dispatch_ok [OF assms(1,2)] by (auto simp: pl_measure_def pl_pending_def pop_dispatch_def split: option.splits bool.splits prod.splits)
next
  case (handled r)
  then show ?thesis
    by (auto simp: pl_measure_def pl_pending_def run_handle_def Let_def split: option.splits if_splits prod.splits)
next
  case panicked
  then show ?thesis by (auto simp: pl_measure_def pl_pending_def run_panic_def split: option.splits)
qed

lemma pl_step_enabled:
  assumes "pl_ok items l" and "pl_pending items l \<noteq> []"
  shows "\<exists>l'. pl_step rb l l'"
proof (cases "pl_running l")
  case None
  obtain n where "pl_notification l = Some n" using assms None by (auto simp: pl_ok_def pl_pending_def)
  then have "\<exists>l'. pop_dispatch rb l = Some l'" using None assms(1) by (simp add: pop_dispatch_def pl_ok_def split: prod.split)
  then show ?thesis using pl_step.dispatch by blast
next
  case (Some n)
  then have "run_panic l = Some (l\<lparr>pl_running := None, pl_handled := pl_handled l @ [(n, False)]\<rparr>)" by (simp add: run_panic_def)
  then show ?thesis using pl_step.panicked by blast
qed

lemma pl_step_disabled:
  assumes "ring_fifo rb items" and "pl_ok items l" and "pl_pending items l = []"
  shows "\<not> pl_step rb l l'"
  using pl_step_measure [OF assms(1,2)] assms(3) by (auto simp: pl_measure_def)

lemma pl_steps_ok:
  assumes "ring_fifo rb items" and "(pl_step rb ^^ n) l l'" and "pl_ok items l"
  shows "pl_ok items l' \<and> pl_added l' = pl_added l \<and> n + pl_measure items l' \<le> pl_measure items l"
  using assms(2)
proof (induction n arbitrary: l')
  case (Suc n)
  then obtain l1 where l1: "(pl_step rb ^^ n) l l1" "pl_step rb l1 l'" by auto
  then show ?case using Suc.IH pl_step_ok [OF assms(1) _ l1(2)] pl_step_measure [OF assms(1) _ l1(2)] by fastforce
qed (use assms(3) in simp)

section \<open>Properties\<close>

text \<open>
  C4 Every registered handler is told the content of the store. In every reachable state, whenever the handler was added
  and whatever the goroutines of its listener have done so far, the notifications its handler was called with, followed by the
  pending ones, are everything that was sent to it, in order; read from nothing they are a consistent history; and
  they end in the content of the store, up to objects with the same resource version.
\<close>

theorem handlers_told:
  assumes "env_ok env indexers items" and "sh_reachable env indexers s" and "sp_getListener (si_processor s) h = Some l"
  shows "pl_added l = map fst (pl_handled l) @ pl_pending items l \<and>
     (\<exists>v. replay_upto (DeletionHandlingMetaNamespaceKeyFunc (env_accessor env)) (env_rv env) (pl_added l) Map.empty = Some v \<and>
       same_content (env_rv env) v (cache_content (si_indexer s)))"
  using listener_reachable [OF assms] by (simp add: pl_ok_def told_def si_kf_def)

text \<open>
  A run: a handler joins, the informer starts and pops an object of the initial list, a second handler joins late, and both
  listeners work.
\<close>

definition list_ring :: "('n list, 'n) ring" where
  "list_ring = \<lparr>rg_New = (\<lambda>_. []), rg_ReadOne = (\<lambda>b. case b of [] \<Rightarrow> ([], None) | x # xs \<Rightarrow> (xs, Some x)),
     rg_WriteOne = (\<lambda>b x. b @ [x])\<rparr>"

definition demo_env :: "(string obj gomap \<Rightarrow> string list) \<Rightarrow> (string deltas gomap \<Rightarrow> string list) \<Rightarrow> (string, string notification list) shared_env" where
  "demo_env korder order = \<lparr>env_accessor = pod_accessor, env_iorder = [], env_korder = korder, env_order = order,
     env_ring = list_ring, env_rv = (\<lambda>_. Some [])\<rparr>"

lemma list_ring_fifo: "ring_fifo list_ring (\<lambda>b. b)"
  by (auto simp: ring_fifo_def list_ring_def split: list.splits)

lemma demo_env_fields:
  "env_accessor (demo_env korder order) = pod_accessor" "env_rv (demo_env korder order) = (\<lambda>_. Some [])"
  by (simp_all add: demo_env_def)

lemma demo_env_ok: "map_iter korder \<Longrightarrow> map_iter order \<Longrightarrow> env_ok (demo_env korder order) Map.empty (\<lambda>b. b)"
  by (simp add: env_ok_def demo_env_def list_ring_fifo range_order_def)

definition demo_popped :: "(string, string notification list) shared_env \<Rightarrow> (string, string notification list) sharedIndexInformer" where
  "demo_popped env = si_Pop env (si_produce env (si_Run env
       (fst (si_AddEventHandlerWithResyncPeriod env (NewSharedIndexInformerWithOptions env Map.empty 0) 0 0 0)))
       (CReplace [Some (Object ''a'')]))"

lemma demo_popped_fields:
  fixes korder order
  defines "s \<equiv> demo_popped (demo_env korder order)"
  assumes "map_iter korder" and "map_iter order"
  shows "sp_listeners (si_processor s) 1 = None" and "\<not> si_stopped s" and "si_started s" and "si_resyncCheckPeriod s = 0"
    and "cache_content (si_indexer s) = [''a'' \<mapsto> Some (Object ''a'')]" and "si_HasSynced s"
  using assms(2,3)
  by (simp_all add: s_def demo_popped_def demo_env_def NewSharedIndexInformerWithOptions_def si_AddEventHandlerWithResyncPeriod_def
   adjust_periods_def sp_addListener_def si_Run_def si_HasStarted_def si_produce_def si_informer_def si_Pop_def
   NewDeltaFIFOWithOptions_def df_Replace_def knownObjects_def queueActionLocked_eq df_KeyOf_def MetaNamespaceKeyFunc_def
   ObjectToName_def pod_accessor_def MetaObjectToName_def NewObjectName_def ObjectName_String_def df_transform_def df_append_def
   df_enqueue_def df_items_get_def cache_methods_def cache_ListKeys_def tsm_ListKeys_def cache_content_def NewIndexer_def
   NewThreadSafeStore_def df_Pop.simps HandleDeltas_def df_HasSynced_def cache_Get_def cache_GetByKey_def tsm_Get_def
   notify_or_return_def cache_Add_def DeletionHandlingMetaNamespaceKeyFunc_def tsm_Add_def tsm_Update_def df_finish_def
   sp_distribute_def si_HasSynced_def Let_def)

definition demo_shared :: "(string, string notification list) shared_env \<Rightarrow> (string, string notification list) sharedIndexInformer" where
  "demo_shared env =
     (let s = fst (si_AddEventHandlerWithResyncPeriod env (demo_popped env) 1 0 0)
      in s\<lparr>si_processor := sp_run_start (si_processor s)\<rparr>)"

definition demo_listener :: "(string, string notification list) processorListener" where
  "demo_listener = pl_add list_ring (newProcessListener list_ring 0 0 0 initialBufferSize) (OnAdd (Some (Object ''a'')) True)"

definition demo_listener_done :: "(string, string notification list) processorListener" where
  "demo_listener_done = demo_listener\<lparr>pl_notification := None, pl_handled := [(OnAdd (Some (Object ''a'')) True, True)],
     pl_syncTracker := \<lparr>sf_count = 0\<rparr>\<rparr>"

lemma demo_popped_reachable:
  assumes "map_iter korder" and "map_iter order"
  shows "sh_reachable (demo_env korder order) Map.empty (demo_popped (demo_env korder order))"
proof -
  let ?env = "demo_env korder order"
  let ?s1 = "fst (si_AddEventHandlerWithResyncPeriod ?env (NewSharedIndexInformerWithOptions ?env Map.empty 0) 0 0 0)"
  have s1: "sh_reachable ?env Map.empty (si_Run ?env ?s1)"
    by (rule sh_reachable.step [OF _ sh_step.run]) (rule sh_reachable.step [OF sh_reachable.new sh_step.add_handler],
      simp add: NewSharedIndexInformerWithOptions_def)
  have tr: "si_transform (si_Run ?env ?s1) = None"
    by (simp add: si_Run_def si_HasStarted_def si_AddEventHandlerWithResyncPeriod_def NewSharedIndexInformerWithOptions_def
        Let_def split: prod.split)
  show ?thesis
    unfolding demo_popped_def
    by (rule sh_reachable.step [OF sh_reachable.step [OF s1 sh_step.produce] sh_step.pop])
      (simp_all add: tr transform_with_def is_deltas_def indexable_def si_kf_def demo_env_def
        DeletionHandlingMetaNamespaceKeyFunc_def MetaNamespaceKeyFunc_def ObjectToName_def pod_accessor_def)
qed

lemma demo_shared_fields:
  assumes "map_iter korder" and "map_iter order"
  defines "s \<equiv> demo_shared (demo_env korder order)"
  shows "sh_reachable (demo_env korder order) Map.empty s" and "sp_listeners (si_processor s) 1 = Some (demo_listener, True)"
    and "cache_content (si_indexer s) = [''a'' \<mapsto> Some (Object ''a'')]" and "si_HasSynced s"
    and "sp_listenersStarted (si_processor s)"
proof -
  let ?env = "demo_env korder order"
  note popped = demo_popped_fields [OF assms(1,2)]
  let ?s = "fst (si_AddEventHandlerWithResyncPeriod ?env (demo_popped ?env) 1 0 0)"
  have s: "?s = (demo_popped ?env)\<lparr>si_processor := sp_addListener (si_processor (demo_popped ?env)) 1 demo_listener\<rparr>"
    using popped assms(1)
    by (simp add: si_AddEventHandlerWithResyncPeriod_def adjust_periods_def determineResyncPeriod_def cache_List_def tsm_List_def
        cache_content_def map_filter_simps demo_listener_def) (simp add: demo_env_def)
  have "sh_reachable ?env Map.empty ?s"
    by (rule sh_reachable.step [OF demo_popped_reachable [OF assms(1,2)] sh_step.add_handler]) (rule popped(1))
  then show "sh_reachable ?env Map.empty s"
    unfolding s_def demo_shared_def Let_def s
    by (rule sh_reachable.step [OF _ sh_step.processor_runs]) (use popped in simp_all)
  show "sp_listeners (si_processor s) 1 = Some (demo_listener, True)" "sp_listenersStarted (si_processor s)"
    "cache_content (si_indexer s) = [''a'' \<mapsto> Some (Object ''a'')]" "si_HasSynced s"
    using popped(5,6) unfolding s_def demo_shared_def Let_def s
    by (simp_all add: sp_run_start_def sp_addListener_def si_HasSynced_def)
qed

lemma demo_listener_runs: "(pl_step list_ring ^^ 2) demo_listener demo_listener_done"
proof -
  define l1 where "l1 = demo_listener\<lparr>pl_running := Some (OnAdd (Some (Object ''a'')) True), pl_notification := None\<rparr>"
  note defs = demo_listener_def demo_listener_done_def l1_def newProcessListener_def pl_determineNextResync_def pl_add_def
    pop_receive_def is_initial_def list_ring_def
  have "pop_dispatch list_ring demo_listener = Some l1" by (simp add: defs pop_dispatch_def Let_def)
  moreover have "\<exists>r. run_handle l1 = Some (demo_listener_done, r)"
    by (simp add: defs run_handle_def SingleFileTracker_Finished_def SingleFileTracker_Start_def Let_def wrap64_def)
  ultimately have "pl_step list_ring demo_listener l1" "pl_step list_ring l1 demo_listener_done"
    using pl_step.dispatch pl_step.handled by blast+
  then show ?thesis by (auto simp: numeral_2_eq_2)
qed

definition demo_synced :: "(string, string notification list) shared_env \<Rightarrow> (string, string notification list) sharedIndexInformer" where
  "demo_synced env = (let s = demo_shared env in
     s\<lparr>si_processor := (si_processor s)\<lparr>sp_listeners := (sp_listeners (si_processor s))(1 \<mapsto> (demo_listener_done, True))\<rparr>\<rparr>)"

lemma demo_synced_reachable:
  assumes "map_iter korder" and "map_iter order"
  shows "sh_reachable (demo_env korder order) Map.empty (demo_synced (demo_env korder order))"
proof -
  let ?env = "demo_env korder order" and ?s = "demo_shared (demo_env korder order)"
  let ?upd = "\<lambda>l. ?s\<lparr>si_processor := (si_processor ?s)\<lparr>sp_listeners := (sp_listeners (si_processor ?s))(1 \<mapsto> (l, True))\<rparr>\<rparr>"
  note shared = demo_shared_fields [OF assms]
  obtain l1 where l1: "pl_step list_ring demo_listener l1" "pl_step list_ring l1 demo_listener_done"
    using demo_listener_runs by (auto simp: numeral_2_eq_2)
  have ring: "env_ring ?env = list_ring" by (simp add: demo_env_def)
  have "sh_reachable ?env Map.empty (?upd l1)"
    by (rule sh_reachable.step [OF shared(1) sh_step.listener [OF shared(5,2)]]) (simp add: ring l1(1))
  moreover have "sh_step ?env Map.empty (?upd l1) (?upd demo_listener_done)"
    using sh_step.listener [of "?upd l1" 1 l1 True ?env demo_listener_done Map.empty] shared(5) l1(2) by (simp add: ring)
  ultimately have "sh_reachable ?env Map.empty (?upd demo_listener_done)" by (rule sh_reachable.step)
  then show ?thesis by (simp add: demo_synced_def Let_def)
qed

lemma demo_synced_listener:
  "sp_getListener (si_processor (demo_synced env)) 1 = Some demo_listener_done"
  "cache_content (si_indexer (demo_synced env)) = cache_content (si_indexer (demo_shared env))"
  "si_HasSynced (demo_synced env) = si_HasSynced (demo_shared env)"
  by (simp_all add: demo_synced_def Let_def sp_getListener_def si_HasSynced_def)

lemma demo_iters:
  obtains korder :: "string obj gomap \<Rightarrow> string list" and order :: "string deltas gomap \<Rightarrow> string list"
  where "map_iter korder" "map_iter order"
  using map_iter_exists [where 'v = "string obj"] map_iter_exists [where 'v = "string deltas"] by blast

theorem handlers_told_witness:
  "\<exists>korder order. let s = demo_synced (demo_env korder order) in
     sp_getListener (si_processor s) 1 = Some demo_listener_done \<and>
     (\<exists>v. replay_upto (DeletionHandlingMetaNamespaceKeyFunc pod_accessor) (\<lambda>_. Some []) (pl_added demo_listener_done) Map.empty = Some v \<and>
       same_content (\<lambda>_. Some []) v (cache_content (si_indexer s)))"
proof -
  obtain korder :: "string obj gomap \<Rightarrow> string list" and order :: "string deltas gomap \<Rightarrow> string list"
    where it: "map_iter korder" "map_iter order" by (rule demo_iters)
  show ?thesis
    using handlers_told [OF demo_env_ok [OF it] demo_synced_reachable [OF it] demo_synced_listener(1)] demo_synced_listener(1)
    unfolding Let_def demo_env_fields by blast
qed

text \<open>
  C17 A registration reports that it has synced exactly when the informer has and its handler has returned from every addition
  of the initial list that was sent to it (fewer than 2 to the 63 notifications). An addition during which the
  handler panics is skipped and never counted, so that such a registration never syncs. The tracker's count never becomes
  negative: the call of \<open>Finished\<close> does not panic.
\<close>

theorem listener_HasSynced_exact:
  assumes "env_ok env indexers items" and "sh_reachable env indexers s" and "sp_getListener (si_processor s) h = Some l"
    and "int (length (pl_added l)) < 2 ^ 63"
  shows "(pl_HasSynced (si_HasSynced s) l \<longleftrightarrow> si_HasSynced s \<and> finished (pl_handled l) = filter is_initial (pl_added l)) \<and>
     ((\<exists>n. (n, False) \<in> set (pl_handled l) \<and> is_initial n) \<longrightarrow> \<not> pl_HasSynced (si_HasSynced s) l) \<and>
     (\<forall>l' r. run_handle l = Some (l', r) \<longrightarrow> r = Ret None)"
proof -
  have ok: "pl_ok items l" by (rule listener_reachable(1) [OF assms(1-3)])
  note count = finished_count [OF ok assms(4)]
  have exact: "pl_HasSynced (si_HasSynced s) l \<longleftrightarrow> si_HasSynced s \<and> finished (pl_handled l) = filter is_initial (pl_added l)"
    using count by (auto simp: pl_HasSynced_def SingleFileTracker_HasSynced_def)
  have "length (finished hs) < length (filter is_initial (map fst hs))" if "(n, False) \<in> set hs" "is_initial n" for n and hs :: "('a notification \<times> bool) list"
    using that
  proof (induction hs)
    case (Cons x hs)
    then show ?case
      using list_emb_length [OF finished_subseq [of hs]] by (cases x) (auto simp: finished_def)
  qed simp
  moreover have "pl_added l = map fst (pl_handled l) @ pl_pending items l" using ok by (simp add: pl_ok_def)
  ultimately have "finished (pl_handled l) \<noteq> filter is_initial (pl_added l)" if "(n, False) \<in> set (pl_handled l)" "is_initial n" for n
    using that by (metis filter_append leD length_append le_add1)
  then show ?thesis using exact run_handle_counts [OF ok assms(4)] by blast
qed

theorem listener_HasSynced_exact_witness:
  "\<exists>korder order. let s = demo_synced (demo_env korder order) in
     sp_getListener (si_processor s) 1 = Some demo_listener_done \<and> pl_HasSynced (si_HasSynced s) demo_listener_done"
proof -
  obtain korder :: "string obj gomap \<Rightarrow> string list" and order :: "string deltas gomap \<Rightarrow> string list"
    where it: "map_iter korder" "map_iter order" by (rule demo_iters)
  have added: "pl_added demo_listener_done = [OnAdd (Some (Object ''a'')) True]"
    "pl_handled demo_listener_done = [(OnAdd (Some (Object ''a'')) True, True)]"
    by (simp_all add: demo_listener_done_def demo_listener_def pl_add_def Let_def newProcessListener_def pl_determineNextResync_def)
  then have "finished (pl_handled demo_listener_done) = filter is_initial (pl_added demo_listener_done)"
    by (simp add: finished_def is_initial_def)
  then have "pl_HasSynced (si_HasSynced (demo_synced (demo_env korder order))) demo_listener_done"
    using listener_HasSynced_exact [OF demo_env_ok [OF it] demo_synced_reachable [OF it] demo_synced_listener(1)] added
      demo_synced_listener [of "demo_env korder order"] demo_shared_fields(4) [OF it] by simp
  then show ?thesis unfolding Let_def using demo_synced_listener(1) by blast
qed

text \<open>
  C31 The goroutines of a listener deliver. However they are scheduled and whether or not the handler panics, they make at most two
  rounds for each pending notification, and when they can go no further the handler has been called with everything that was sent.
\<close>

theorem listener_delivers:
  assumes "env_ok env indexers items" and "sh_reachable env indexers s" and "sp_getListener (si_processor s) h = Some l"
    and "(pl_step (env_ring env) ^^ n) l l'"
  shows "n \<le> 2 * length (pl_pending items l) \<and> pl_added l' = pl_added l \<and>
     ((\<nexists>l''. pl_step (env_ring env) l' l'') \<longleftrightarrow> map fst (pl_handled l') = pl_added l)"
proof -
  have ok: "pl_ok items l" and ring: "ring_fifo (env_ring env) items"
    using listener_reachable(1) [OF assms(1-3)] assms(1) by (auto simp: env_ok_def)
  note run = pl_steps_ok [OF ring assms(4) ok]
  have "(\<nexists>l''. pl_step (env_ring env) l' l'') \<longleftrightarrow> pl_pending items l' = []"
    using pl_step_enabled [of items l'] pl_step_disabled [OF ring, of l'] run by blast
  moreover have "pl_pending items l' = [] \<longleftrightarrow> map fst (pl_handled l') = pl_added l"
    using run by (auto simp: pl_ok_def)
  moreover have "pl_measure items l \<le> 2 * length (pl_pending items l)" by (simp add: pl_measure_def)
  ultimately show ?thesis using run by auto
qed

theorem listener_delivers_witness:
  "(\<nexists>l''. pl_step list_ring demo_listener_done l'') \<and> map fst (pl_handled demo_listener_done) = pl_added demo_listener"
proof -
  obtain korder :: "string obj gomap \<Rightarrow> string list" and order :: "string deltas gomap \<Rightarrow> string list"
    where it: "map_iter korder" "map_iter order" by (rule demo_iters)
  have "sp_getListener (si_processor (demo_shared (demo_env korder order))) 1 = Some demo_listener"
    using demo_shared_fields(2) [OF it] by (simp add: sp_getListener_def)
  moreover have "(pl_step (env_ring (demo_env korder order)) ^^ 2) demo_listener demo_listener_done"
    using demo_listener_runs by (simp add: demo_env_def)
  moreover have "map fst (pl_handled demo_listener_done) = pl_added demo_listener"
    by (simp add: demo_listener_done_def demo_listener_def pl_add_def Let_def newProcessListener_def pl_determineNextResync_def)
  ultimately show ?thesis
    using listener_delivers [OF demo_env_ok [OF it] demo_shared_fields(1) [OF it]] by (force simp: demo_env_def)
qed

section \<open>Resync periods\<close>

definition period_ok :: "int \<Rightarrow> ('o, 'b) processorListener \<Rightarrow> bool" where
  "period_ok check l \<longleftrightarrow> pl_resyncPeriod l = determineResyncPeriod (pl_requestedResyncPeriod l) check \<and>
     (pl_requestedResyncPeriod l > 0 \<longrightarrow> pl_requestedResyncPeriod l \<ge> minimumResyncPeriod \<and> pl_requestedResyncPeriod l \<ge> check)"

definition periods_ok :: "('o, 'b) sharedIndexInformer \<Rightarrow> bool" where
  "periods_ok s \<longleftrightarrow> (si_resyncCheckPeriod s = si_defaultEventHandlerResyncPeriod s \<or>
       minimumResyncPeriod \<le> si_resyncCheckPeriod s \<and> si_resyncCheckPeriod s \<le> si_defaultEventHandlerResyncPeriod s) \<and>
     (\<forall>h l b. sp_listeners (si_processor s) h = Some (l, b) \<longrightarrow> period_ok (si_resyncCheckPeriod s) l)"

lemma pl_add_periods [simp]:
  "pl_resyncPeriod (pl_add rb l n) = pl_resyncPeriod l" "pl_requestedResyncPeriod (pl_add rb l n) = pl_requestedResyncPeriod l"
  by (simp_all add: pl_add_def Let_def pop_receive_def split: option.split)

lemma pl_adds_periods [simp]:
  "pl_resyncPeriod (foldl (pl_add rb) l ns) = pl_resyncPeriod l"
  "pl_requestedResyncPeriod (foldl (pl_add rb) l ns) = pl_requestedResyncPeriod l"
  by (induction ns arbitrary: l) simp_all

lemma pl_step_periods:
  "pl_step rb l l' \<Longrightarrow> pl_resyncPeriod l' = pl_resyncPeriod l \<and> pl_requestedResyncPeriod l' = pl_requestedResyncPeriod l"
  by (induction rule: pl_step.induct)
    (auto simp: pop_dispatch_def run_handle_def run_panic_def Let_def split: option.splits bool.splits prod.splits if_splits)

lemma period_ok_cong:
  "pl_resyncPeriod l' = pl_resyncPeriod l \<Longrightarrow> pl_requestedResyncPeriod l' = pl_requestedResyncPeriod l \<Longrightarrow>
     period_ok check l' = period_ok check l"
  by (simp add: period_ok_def)

lemma periods_ok_mapped:
  assumes "periods_ok s" and "si_resyncCheckPeriod s' = si_resyncCheckPeriod s"
    and "si_defaultEventHandlerResyncPeriod s' = si_defaultEventHandlerResyncPeriod s"
    and "\<And>h. sp_listeners (si_processor s') h = map_option (\<lambda>(l, b). (f l b, g l b)) (sp_listeners (si_processor s) h)"
    and "\<And>l b. pl_resyncPeriod (f l b) = pl_resyncPeriod l \<and> pl_requestedResyncPeriod (f l b) = pl_requestedResyncPeriod l"
  shows "periods_ok s'"
proof -
  have "period_ok (si_resyncCheckPeriod s) (f l b)" if "sp_listeners (si_processor s) h = Some (l, b)" for h l b
    using that assms(1) assms(5) [of l b] period_ok_cong [of "f l b" l] by (auto simp: periods_ok_def)
  then show ?thesis using assms(1) by (auto simp: periods_ok_def assms(2-4))
qed

lemma df_Pop_HandleDeltas_listeners:
  assumes "df_Pop (HandleDeltas env) q ((c, log), p) = (q', ((c', log'), p'), out)"
  shows "\<exists>ys. p' = foldl (si_notify env) p ys"
proof -
  let ?m = "cache_methods (env_iorder env) (env_korder env)"
  obtain q1 c1 log1 out1 where pop: "df_Pop (processDeltas ?m) q (c, log) = (q1, (c1, log1), out1)" by (metis surj_pair)
  from df_Pop_HandleDeltas [OF pop, of p] assms show ?thesis by auto
qed

lemma adjust_periods_cases:
  assumes "adjust_periods started check rp = (period, check')"
  shows "(check' = check \<or> \<not> started \<and> minimumResyncPeriod \<le> check' \<and> check' < check) \<and>
     (period > 0 \<longrightarrow> minimumResyncPeriod \<le> period \<and> check' \<le> period)"
  using assms by (auto simp: adjust_periods_def Let_def minimumResyncPeriod_def split: if_splits)

lemma AddEventHandler_periods_ok:
  assumes ok: "periods_ok s"
  shows "periods_ok (fst (si_AddEventHandlerWithResyncPeriod env s h rp now))"
proof (cases "si_stopped s")
  case True
  then show ?thesis using ok by (simp add: si_AddEventHandlerWithResyncPeriod_def)
next
  case False
  obtain period check where periods: "adjust_periods (si_started s) (si_resyncCheckPeriod s) rp = (period, check)" by fastforce
  note adj = adjust_periods_cases [OF periods]
  define p where "p = (if check = si_resyncCheckPeriod s then si_processor s
      else sp_resyncCheckPeriodChanged check (si_processor s))"
  define l where "l = newProcessListener (env_ring env) period (determineResyncPeriod period check) now initialBufferSize"
  have l: "period_ok check l" "period_ok check (foldl (\<lambda>l item. pl_add rb l (OnAdd item True)) l items)" for rb items
  proof -
    show new: "period_ok check l"
      using adj by (simp add: l_def newProcessListener_def pl_determineNextResync_def period_ok_def)
    have "foldl (\<lambda>l item. pl_add rb l (OnAdd item True)) l items = foldl (pl_add rb) l (map (\<lambda>item. OnAdd item True) items)"
      by (simp add: foldl_map)
    then show "period_ok check (foldl (\<lambda>l item. pl_add rb l (OnAdd item True)) l items)"
      using new by (simp add: period_ok_cong [OF pl_adds_periods])
  qed
  have p: "period_ok check l" if listed: "sp_listeners p h' = Some (l, b)" for h' l b
  proof -
    obtain a where a: "sp_listeners (si_processor s) h' = Some (a, b)" "l = (if check = si_resyncCheckPeriod s then a
        else pl_setResyncPeriod (determineResyncPeriod (pl_requestedResyncPeriod a) check) a)"
      using listed by (auto simp: p_def sp_resyncCheckPeriodChanged_def split: if_splits)
    have "period_ok (si_resyncCheckPeriod s) a" using ok a(1) by (auto simp: periods_ok_def)
    then show ?thesis using a(2) adj by (auto simp: period_ok_def pl_setResyncPeriod_def)
  qed
  have check: "check = si_defaultEventHandlerResyncPeriod s \<or>
      minimumResyncPeriod \<le> check \<and> check \<le> si_defaultEventHandlerResyncPeriod s"
    using ok adj by (auto simp: periods_ok_def)
  show ?thesis
    using False l p check
    by (auto simp: si_AddEventHandlerWithResyncPeriod_def periods Let_def p_def [symmetric] l_def [symmetric] sp_addListener_def
        periods_ok_def)
qed

lemma sh_step_periods_ok:
  assumes step: "sh_step env indexers s s'" and ok: "periods_ok s"
  shows "periods_ok s'"
  using step
proof cases
  case add_handler
  then show ?thesis using AddEventHandler_periods_ok [OF ok] by simp
next
  case (remove_handler h)
  then show ?thesis
    using ok by (auto simp: si_RemoveEventHandler_def sp_removeListener_def periods_ok_def split: option.splits prod.splits)
next
  case pop
  show ?thesis
  proof (cases "si_controller s")
    case (Some q)
    obtain q' c log p out where r: "df_Pop (HandleDeltas env) q ((si_indexer s, si_log s), si_processor s) = (q', ((c, log), p), out)"
      by (metis surj_pair)
    obtain ys where "p = foldl (si_notify env) (si_processor s) ys" using df_Pop_HandleDeltas_listeners [OF r] by blast
    then show ?thesis
      by (intro periods_ok_mapped [OF ok, where f = "\<lambda>l b. foldl (pl_add (env_ring env)) l (filter (goes_to (env_rv env) b) ys)"
            and g = "\<lambda>_ b. b"]) (simp_all add: pop si_Pop_def Some r si_notify_log_listeners)
  qed (use pop ok in \<open>simp add: si_Pop_def\<close>)
next
  case (resync now)
  have "sp_listeners (si_processor s') h = sp_listeners (fst (sp_shouldResync now (si_processor s))) h \<and>
      si_resyncCheckPeriod s' = si_resyncCheckPeriod s \<and>
      si_defaultEventHandlerResyncPeriod s' = si_defaultEventHandlerResyncPeriod s" for h
    by (simp add: resync si_resync_def si_produce_def Let_def split: prod.split option.split)
  then show ?thesis
    by (intro periods_ok_mapped [OF ok, where f = "\<lambda>l b. if pl_shouldResync now l then pl_determineNextResync now l else l"
          and g = "\<lambda>l _. pl_shouldResync now l"]) (simp_all add: shouldResync_listeners pl_determineNextResync_def)
next
  case (listener h l b l')
  then show ?thesis using ok pl_step_periods [OF listener(4)] by (auto simp: periods_ok_def period_ok_def)
qed (use ok in \<open>auto simp: si_SetTransform_def si_Run_def si_HasStarted_def sp_run_start_def sp_run_stop_def si_produce_def
    periods_ok_def split: option.split\<close>)

text \<open>
  Resync periods. In every reachable state the informer's checking period is the one it was created with or a smaller one of at least
  the minimum; a handler that asked for no resync gets none; one that asked for resyncs gets none if the informer does none,
  and otherwise its requested period, which has been raised to the minimum and to the checking period. A listener
  is due exactly when its period is not zero and its next time has come.
\<close>

theorem resync_periods:
  assumes "sh_reachable env indexers s" and "sp_getListener (si_processor s) h = Some l" and "pl_requestedResyncPeriod l \<ge> 0"
  shows "(si_resyncCheckPeriod s = si_defaultEventHandlerResyncPeriod s \<or>
       minimumResyncPeriod \<le> si_resyncCheckPeriod s \<and> si_resyncCheckPeriod s \<le> si_defaultEventHandlerResyncPeriod s) \<and>
     pl_resyncPeriod l = (if si_resyncCheckPeriod s = 0 then 0 else pl_requestedResyncPeriod l) \<and>
     (pl_requestedResyncPeriod l = 0 \<or> max minimumResyncPeriod (si_resyncCheckPeriod s) \<le> pl_requestedResyncPeriod l) \<and>
     (pl_shouldResync now l \<longleftrightarrow> pl_resyncPeriod l \<noteq> 0 \<and> pl_nextResync l \<le> now)"
proof -
  have "periods_ok s"
    using assms(1)
  proof induction
    case new
    then show ?case by (simp add: periods_ok_def NewSharedIndexInformerWithOptions_def)
  next
    case (step s s')
    then show ?case using sh_step_periods_ok by blast
  qed
  moreover obtain b where "sp_listeners (si_processor s) h = Some (l, b)" using assms(2) by (auto simp: sp_getListener_def)
  ultimately have "period_ok (si_resyncCheckPeriod s) l" "periods_ok s" by (auto simp: periods_ok_def)
  then show ?thesis
    using assms(3) by (auto simp: periods_ok_def period_ok_def determineResyncPeriod_def pl_shouldResync_def)
qed

theorem resync_periods_witness:
  "\<exists>s :: (string, string notification list) sharedIndexInformer. \<exists>env l. sh_reachable env Map.empty s \<and>
     sp_getListener (si_processor s) 0 = Some l \<and> si_resyncCheckPeriod s = minimumResyncPeriod \<and>
     pl_resyncPeriod l = minimumResyncPeriod"
proof -
  define env where "env = demo_env undefined undefined"
  let ?s0 = "NewSharedIndexInformerWithOptions env Map.empty 5000000000"
  let ?s = "fst (si_AddEventHandlerWithResyncPeriod env ?s0 0 1 0)"
  have reach: "sh_reachable env Map.empty ?s"
    by (rule sh_reachable.step [OF sh_reachable.new sh_step.add_handler]) (simp add: NewSharedIndexInformerWithOptions_def)
  have s: "si_resyncCheckPeriod ?s = minimumResyncPeriod" "\<exists>l. sp_getListener (si_processor ?s) 0 = Some l \<and>
      pl_requestedResyncPeriod l = minimumResyncPeriod"
    by (simp_all add: NewSharedIndexInformerWithOptions_def si_AddEventHandlerWithResyncPeriod_def adjust_periods_def
        minimumResyncPeriod_def sp_addListener_def sp_getListener_def newProcessListener_def pl_determineNextResync_def Let_def)
  then obtain l where l: "sp_getListener (si_processor ?s) 0 = Some l" "pl_requestedResyncPeriod l = minimumResyncPeriod" by blast
  have pos: "0 \<le> pl_requestedResyncPeriod l" by (simp add: l(2) minimumResyncPeriod_def)
  have "pl_resyncPeriod l = minimumResyncPeriod"
    using resync_periods [OF reach l(1) pos] s(1) l(2) by (simp add: minimumResyncPeriod_def)
  then show ?thesis using reach s(1) l(1) by blast
qed

end
