(* ===== verification/ResourceLock.thy ===== *)
theory ResourceLock
  imports K8s_Prelude
begin

text \<open>
  \<open>tools/leaderelection/resourcelock\<close>: the record that the candidates of a leader election share, the lock that
  keeps it in a Lease object (\<open>leaselock.go\<close>) and the lock that keeps it in two places (\<open>multilock.go\<close>).

  Several processes run this code against one API server, and between any two calls of one process another may act. So an
  operation is a program (\<open>prog\<close>): a tree of the calls it makes, each with what it does for every
  answer. The same program is run alone against a server (\<open>run\<close>) and step by step among others
  (\<open>LeaderElection\<close>).

  The API server is not part of the repository. Its answers are arbitrary here; what the election relies on is
  stated where it is used. The same holds for \<open>json.Marshal\<close> of a record, the argument \<open>marshal\<close>: the
  encoding of its times belongs to apimachinery. The metadata of an object, with its resource version, is a type variable.
\<close>

section \<open>Records and leases\<close>

datatype lock_err = NotFound | AlreadyExists | OtherErr string

record LeaderElectionRecord =
  ler_HolderIdentity :: string
  ler_LeaseDurationSeconds :: int
  ler_AcquireTime :: int
  ler_RenewTime :: int
  ler_LeaderTransitions :: int

record LeaseSpec =
  spec_HolderIdentity :: "string option"
  spec_LeaseDurationSeconds :: "int option"
  spec_AcquireTime :: "int option"
  spec_RenewTime :: "int option"
  spec_LeaseTransitions :: "int option"

record 'm Lease =
  lease_meta :: 'm
  lease_Spec :: LeaseSpec

type_synonym bytes = string
type_synonym marshal = "LeaderElectionRecord \<Rightarrow> lock_err + bytes"

text \<open>The zero value of the record, with the zero time.\<close>

definition zero_record :: LeaderElectionRecord where
  "zero_record = \<lparr>ler_HolderIdentity = '''', ler_LeaseDurationSeconds = 0, ler_AcquireTime = 0, ler_RenewTime = 0,
     ler_LeaderTransitions = 0\<rparr>"

definition LeaseSpecToLeaderElectionRecord :: "LeaseSpec \<Rightarrow> LeaderElectionRecord" where
  "LeaseSpecToLeaderElectionRecord spec =
     (let r = zero_record;
          r = (case spec_HolderIdentity spec of None \<Rightarrow> r | Some x \<Rightarrow> r\<lparr>ler_HolderIdentity := x\<rparr>);
          r = (case spec_LeaseDurationSeconds spec of None \<Rightarrow> r | Some x \<Rightarrow> r\<lparr>ler_LeaseDurationSeconds := x\<rparr>);
          r = (case spec_LeaseTransitions spec of None \<Rightarrow> r | Some x \<Rightarrow> r\<lparr>ler_LeaderTransitions := x\<rparr>);
          r = (case spec_AcquireTime spec of None \<Rightarrow> r | Some x \<Rightarrow> r\<lparr>ler_AcquireTime := x\<rparr>);
          r = (case spec_RenewTime spec of None \<Rightarrow> r | Some x \<Rightarrow> r\<lparr>ler_RenewTime := x\<rparr>)
      in r)"

text \<open>The two numbers become int32.\<close>

definition LeaderElectionRecordToLeaseSpec :: "LeaderElectionRecord \<Rightarrow> LeaseSpec" where
  "LeaderElectionRecordToLeaseSpec ler =
     (let leaseDurationSeconds = wrap32 (ler_LeaseDurationSeconds ler);
          leaseTransitions = wrap32 (ler_LeaderTransitions ler)
      in \<lparr>spec_HolderIdentity = Some (ler_HolderIdentity ler), spec_LeaseDurationSeconds = Some leaseDurationSeconds,
          spec_AcquireTime = Some (ler_AcquireTime ler), spec_RenewTime = Some (ler_RenewTime ler),
          spec_LeaseTransitions = Some leaseTransitions\<rparr>)"

section \<open>Programs\<close>

text \<open>
  The calls a lock or an elector makes: read the clock, and get, create or update the Lease with a given
  namespace and name. A failed \<open>Create\<close> also returns an object (the generated client returns the result it was decoding
  into).
\<close>

datatype ('m, 'r) prog =
    Return 'r
  | Now "int \<Rightarrow> ('m, 'r) prog"
  | LeaseGet string "lock_err + 'm Lease \<Rightarrow> ('m, 'r) prog"
  | LeaseCreate string LeaseSpec "'m Lease \<times> lock_err option \<Rightarrow> ('m, 'r) prog"
  | LeaseUpdate string "'m Lease" "lock_err + 'm Lease \<Rightarrow> ('m, 'r) prog"

primrec bind_prog :: "('m, 'r) prog \<Rightarrow> ('r \<Rightarrow> ('m, 'q) prog) \<Rightarrow> ('m, 'q) prog" where
  "bind_prog (Return r) f = f r"
| "bind_prog (Now k) f = Now (\<lambda>t. bind_prog (k t) f)"
| "bind_prog (LeaseGet n k) f = LeaseGet n (\<lambda>r. bind_prog (k r) f)"
| "bind_prog (LeaseCreate n s k) f = LeaseCreate n s (\<lambda>r. bind_prog (k r) f)"
| "bind_prog (LeaseUpdate n l k) f = LeaseUpdate n l (\<lambda>r. bind_prog (k r) f)"

text \<open>A server as functions on the state of the world, and a program run alone against it.\<close>

record ('w, 'm) handler =
  hd_now :: "'w \<Rightarrow> 'w \<times> int"
  hd_get :: "'w \<Rightarrow> string \<Rightarrow> 'w \<times> (lock_err + 'm Lease)"
  hd_create :: "'w \<Rightarrow> string \<Rightarrow> LeaseSpec \<Rightarrow> 'w \<times> ('m Lease \<times> lock_err option)"
  hd_update :: "'w \<Rightarrow> string \<Rightarrow> 'm Lease \<Rightarrow> 'w \<times> (lock_err + 'm Lease)"

primrec run_prog :: "('w, 'm) handler \<Rightarrow> ('m, 'r) prog \<Rightarrow> 'w \<Rightarrow> 'w \<times> 'r" where
  "run_prog h (Return r) w = (w, r)"
| "run_prog h (Now k) w = (let (w', t) = hd_now h w in run_prog h (k t) w')"
| "run_prog h (LeaseGet n k) w = (let (w', r) = hd_get h w n in run_prog h (k r) w')"
| "run_prog h (LeaseCreate n s k) w = (let (w', r) = hd_create h w n s in run_prog h (k r) w')"
| "run_prog h (LeaseUpdate n l k) w = (let (w', r) = hd_update h w n l in run_prog h (k r) w')"

lemma run_bind: "run_prog h (bind_prog p f) w = (let (w', r) = run_prog h p w in run_prog h (f r) w')"
  by (induction p arbitrary: w) (auto simp: Let_def split: prod.split)

section \<open>The interface of a lock\<close>

text \<open>
  The methods that the elector calls; \<open>'l\<close> is the state of the lock in the process. \<open>Describe\<close> and
  \<open>RecordEvent\<close> only produce messages and are left out.
\<close>

record ('m, 'l) lock =
  lk_Get :: "'l \<Rightarrow> ('m, 'l \<times> (lock_err + LeaderElectionRecord \<times> bytes)) prog"
  lk_Create :: "'l \<Rightarrow> LeaderElectionRecord \<Rightarrow> ('m, 'l \<times> lock_err option) prog"
  lk_Update :: "'l \<Rightarrow> LeaderElectionRecord \<Rightarrow> ('m, 'l \<times> lock_err option) prog"
  lk_Identity :: "'l \<Rightarrow> string"

section \<open>LeaseLock\<close>

record 'm LeaseLock =
  ll_name :: string
  ll_Identity :: string
  ll_lease :: "'m Lease option"

definition LeaseLock_Get ::
  "marshal \<Rightarrow> 'm LeaseLock \<Rightarrow> ('m, 'm LeaseLock \<times> (lock_err + LeaderElectionRecord \<times> bytes)) prog"
where
  "LeaseLock_Get marshal ll =
     LeaseGet (ll_name ll) (\<lambda>r.
       case r of
         Inl err \<Rightarrow> Return (ll, Inl err)
       | Inr lease \<Rightarrow>
           let ll = ll\<lparr>ll_lease := Some lease\<rparr>; rec = LeaseSpecToLeaderElectionRecord (lease_Spec lease)
           in case marshal rec of
                Inl err \<Rightarrow> Return (ll, Inl err)
              | Inr recordByte \<Rightarrow> Return (ll, Inr (rec, recordByte)))"

definition LeaseLock_Create :: "'m LeaseLock \<Rightarrow> LeaderElectionRecord \<Rightarrow> ('m, 'm LeaseLock \<times> lock_err option) prog" where
  "LeaseLock_Create ll ler =
     LeaseCreate (ll_name ll) (LeaderElectionRecordToLeaseSpec ler)
       (\<lambda>(lease, err). Return (ll\<lparr>ll_lease := Some lease\<rparr>, err))"

text \<open>The new spec is written into the cached object before the call, and stays there if the call fails.\<close>

definition LeaseLock_Update :: "'m LeaseLock \<Rightarrow> LeaderElectionRecord \<Rightarrow> ('m, 'm LeaseLock \<times> lock_err option) prog" where
  "LeaseLock_Update ll ler =
     (case ll_lease ll of
        None \<Rightarrow> Return (ll, Some (OtherErr ''lease not initialized, call get or create first''))
      | Some lease \<Rightarrow>
          let lease = lease\<lparr>lease_Spec := LeaderElectionRecordToLeaseSpec ler\<rparr>; ll = ll\<lparr>ll_lease := Some lease\<rparr>
          in LeaseUpdate (ll_name ll) lease (\<lambda>r.
               case r of
                 Inl err \<Rightarrow> Return (ll, Some err)
               | Inr lease' \<Rightarrow> Return (ll\<lparr>ll_lease := Some lease'\<rparr>, None)))"

definition lease_lock :: "marshal \<Rightarrow> ('m, 'm LeaseLock) lock" where
  "lease_lock marshal = \<lparr>lk_Get = LeaseLock_Get marshal, lk_Create = LeaseLock_Create, lk_Update = LeaseLock_Update,
     lk_Identity = ll_Identity\<rparr>"

section \<open>MultiLock\<close>

definition UnknownLeader :: string where
  "UnknownLeader = ''leaderelection.k8s.io/unknown''"

definition ConcatRawRecord :: "bytes \<Rightarrow> bytes \<Rightarrow> bytes" where
  "ConcatRawRecord primaryRaw secondaryRaw = primaryRaw @ '','' @ secondaryRaw"

definition MultiLock_Get ::
  "marshal \<Rightarrow> ('m, 'p) lock \<Rightarrow> ('m, 's) lock \<Rightarrow> 'p \<times> 's
     \<Rightarrow> ('m, ('p \<times> 's) \<times> (lock_err + LeaderElectionRecord \<times> bytes)) prog"
where
  "MultiLock_Get marshal Primary Secondary ml =
     bind_prog (lk_Get Primary (fst ml)) (\<lambda>(p, r).
       case r of
         Inl err \<Rightarrow> Return ((p, snd ml), Inl err)
       | Inr (primary, primaryRaw) \<Rightarrow>
           bind_prog (lk_Get Secondary (snd ml)) (\<lambda>(s, r).
             case r of
               Inl err \<Rightarrow>
                 if err = NotFound \<and> ler_HolderIdentity primary \<noteq> lk_Identity Primary p
                 then Return ((p, s), Inr (primary, primaryRaw))
                 else Return ((p, s), Inl err)
             | Inr (secondary, secondaryRaw) \<Rightarrow>
                 if ler_HolderIdentity primary \<noteq> ler_HolderIdentity secondary
                 then let primary = primary\<lparr>ler_HolderIdentity := UnknownLeader\<rparr>
                      in case marshal primary of
                           Inl err \<Rightarrow> Return ((p, s), Inl err)
                         | Inr primaryRaw \<Rightarrow> Return ((p, s), Inr (primary, ConcatRawRecord primaryRaw secondaryRaw))
                 else Return ((p, s), Inr (primary, ConcatRawRecord primaryRaw secondaryRaw))))"

definition MultiLock_Create ::
  "('m, 'p) lock \<Rightarrow> ('m, 's) lock \<Rightarrow> 'p \<times> 's \<Rightarrow> LeaderElectionRecord \<Rightarrow> ('m, ('p \<times> 's) \<times> lock_err option) prog"
where
  "MultiLock_Create Primary Secondary ml ler =
     bind_prog (lk_Create Primary (fst ml) ler) (\<lambda>(p, err).
       if err \<noteq> None \<and> err \<noteq> Some AlreadyExists then Return ((p, snd ml), err)
       else bind_prog (lk_Create Secondary (snd ml) ler) (\<lambda>(s, err). Return ((p, s), err)))"

definition MultiLock_Update ::
  "('m, 'p) lock \<Rightarrow> ('m, 's) lock \<Rightarrow> 'p \<times> 's \<Rightarrow> LeaderElectionRecord \<Rightarrow> ('m, ('p \<times> 's) \<times> lock_err option) prog"
where
  "MultiLock_Update Primary Secondary ml ler =
     bind_prog (lk_Update Primary (fst ml) ler) (\<lambda>(p, err).
       if err \<noteq> None then Return ((p, snd ml), err)
       else bind_prog (lk_Get Secondary (snd ml)) (\<lambda>(s, r).
              if r = Inl NotFound
              then bind_prog (lk_Create Secondary s ler) (\<lambda>(s, err). Return ((p, s), err))
              else bind_prog (lk_Update Secondary s ler) (\<lambda>(s, err). Return ((p, s), err))))"

definition multi_lock :: "marshal \<Rightarrow> ('m, 'p) lock \<Rightarrow> ('m, 's) lock \<Rightarrow> ('m, 'p \<times> 's) lock" where
  "multi_lock marshal Primary Secondary =
     \<lparr>lk_Get = MultiLock_Get marshal Primary Secondary, lk_Create = MultiLock_Create Primary Secondary,
      lk_Update = MultiLock_Update Primary Secondary, lk_Identity = (\<lambda>ml. lk_Identity Primary (fst ml))\<rparr>"

section \<open>Making a lock\<close>

definition endpointsResourceLock where "endpointsResourceLock = ''endpoints''"
definition configMapsResourceLock where "configMapsResourceLock = ''configmaps''"
definition LeasesResourceLock where "LeasesResourceLock = ''leases''"
definition endpointsLeasesResourceLock where "endpointsLeasesResourceLock = ''endpointsleases''"
definition configMapsLeasesResourceLock where "configMapsLeasesResourceLock = ''configmapsleases''"

text \<open>The clients that \<open>New\<close> puts into the lock are the server the lock's programs run against.\<close>

definition resourcelock_New :: "string \<Rightarrow> string \<Rightarrow> string \<Rightarrow> string \<Rightarrow> lock_err + 'm LeaseLock" where
  "resourcelock_New lockType ns name identity =
     (let leaseLock = \<lparr>ll_name = ns @ ''/'' @ name, ll_Identity = identity, ll_lease = None\<rparr> in
      if lockType = endpointsResourceLock
      then Inl (OtherErr ''endpoints lock is removed, migrate to %s (using version v0.27.x)'')
      else if lockType = configMapsResourceLock
      then Inl (OtherErr ''configmaps lock is removed, migrate to %s (using version v0.27.x)'')
      else if lockType = LeasesResourceLock then Inr leaseLock
      else if lockType = endpointsLeasesResourceLock
      then Inl (OtherErr ''endpointsleases lock is removed, migrate to %s'')
      else if lockType = configMapsLeasesResourceLock
      then Inl (OtherErr ''configmapsleases lock is removed, migrated to %s'')
      else Inl (OtherErr ''Invalid lock-type %s''))"

section \<open>The spec and the record\<close>

lemma record_of_spec [simp]:
  "LeaseSpecToLeaderElectionRecord (LeaderElectionRecordToLeaseSpec r) =
     r\<lparr>ler_LeaseDurationSeconds := wrap32 (ler_LeaseDurationSeconds r), ler_LeaderTransitions := wrap32 (ler_LeaderTransitions r)\<rparr>"
  by (simp add: LeaseSpecToLeaderElectionRecord_def LeaderElectionRecordToLeaseSpec_def zero_record_def Let_def)

lemma record_of_spec_fields:
  "ler_HolderIdentity (LeaseSpecToLeaderElectionRecord s) = (case spec_HolderIdentity s of None \<Rightarrow> '''' | Some x \<Rightarrow> x)"
  "ler_LeaseDurationSeconds (LeaseSpecToLeaderElectionRecord s) = (case spec_LeaseDurationSeconds s of None \<Rightarrow> 0 | Some x \<Rightarrow> x)"
  "ler_LeaderTransitions (LeaseSpecToLeaderElectionRecord s) = (case spec_LeaseTransitions s of None \<Rightarrow> 0 | Some x \<Rightarrow> x)"
  "ler_AcquireTime (LeaseSpecToLeaderElectionRecord s) = (case spec_AcquireTime s of None \<Rightarrow> 0 | Some x \<Rightarrow> x)"
  "ler_RenewTime (LeaseSpecToLeaderElectionRecord s) = (case spec_RenewTime s of None \<Rightarrow> 0 | Some x \<Rightarrow> x)"
  by (simp_all add: LeaseSpecToLeaderElectionRecord_def zero_record_def Let_def split: option.split)

lemma spec_of_record_fields [simp]:
  "spec_HolderIdentity (LeaderElectionRecordToLeaseSpec r) = Some (ler_HolderIdentity r)"
  "spec_LeaseDurationSeconds (LeaderElectionRecordToLeaseSpec r) = Some (wrap32 (ler_LeaseDurationSeconds r))"
  by (simp_all add: LeaderElectionRecordToLeaseSpec_def Let_def)

end
