(* ===== verification/LeaderElection.thy ===== *)
theory LeaderElection
  imports ResourceLock "HOL-Library.Multiset"
begin

text \<open>
  \<open>tools/leaderelection/leaderelection.go\<close> and \<open>healthzadaptor.go\<close>: a candidate that tries to acquire a lease, renews it
  while it leads and releases it, as programs over a lock (\<open>ResourceLock\<close>), which are run against a server or, in \<open>ElectionSafety\<close>,
  interleaved with those of other candidates, every call of the server being a step.

  A candidate reads its own clock, which differs from the true time by a constant. The API server is the
  argument \<open>sv\<close>; \<open>optimistic_server\<close> states what is documented of it and used here: an update is rejected unless it carries
  the resource version that is stored (Leases do not allow unconditional updates), versions are not reused, and an error may be
  reported although the write was made. \<open>wait.JitterUntil\<close> and \<open>wait.PollImmediateUntil\<close> of apimachinery decide when the next attempt
  is made: in the system, attempts are made at any time.

  The lemmas: what one attempt writes, and the callbacks of \<open>Run\<close>, some of which run in goroutines of their own. The
  safety of the system of all candidates is the theory \<open>ElectionSafety\<close>.
\<close>

section \<open>The elector\<close>

record 'l LeaderElectionConfig =
  lec_Lock :: "'l option"
  lec_LeaseDuration :: int
  lec_RenewDeadline :: int
  lec_RetryPeriod :: int
  lec_OnStartedLeading :: bool
  lec_OnStoppedLeading :: bool
  lec_OnNewLeader :: bool
  lec_ReleaseOnCancel :: bool
  lec_Name :: string

text \<open>The callbacks of the configuration are given by whether they are nil; \<open>le_lock\<close> is the lock of the configuration.\<close>

record 'l LeaderElector =
  le_config :: "'l LeaderElectionConfig"
  le_lock :: 'l
  le_observedRecord :: LeaderElectionRecord
  le_observedRawRecord :: bytes
  le_observedTime :: int
  le_reportedLeader :: string

definition second :: int where
  "second = 1000000000"

text \<open>
  \<open>jitter\<close> is \<open>time.Duration(JitterFactor * float64(d))\<close>.
\<close>

definition NewLeaderElector :: "(int \<Rightarrow> int) \<Rightarrow> ('m, 'l) lock \<Rightarrow> 'l LeaderElectionConfig \<Rightarrow> string + 'l LeaderElector" where
  "NewLeaderElector jitter lk lec =
     (if lec_LeaseDuration lec \<le> lec_RenewDeadline lec then Inl ''leaseDuration must be greater than renewDeadline''
      else if lec_RenewDeadline lec \<le> jitter (lec_RetryPeriod lec) then Inl ''renewDeadline must be greater than retryPeriod*JitterFactor''
      else if lec_LeaseDuration lec < 1 then Inl ''leaseDuration must be greater than zero''
      else if lec_RenewDeadline lec < 1 then Inl ''renewDeadline must be greater than zero''
      else if lec_RetryPeriod lec < 1 then Inl ''retryPeriod must be greater than zero''
      else if \<not> lec_OnStartedLeading lec then Inl ''OnStartedLeading callback must not be nil''
      else if \<not> lec_OnStoppedLeading lec then Inl ''OnStoppedLeading callback must not be nil''
      else case lec_Lock lec of
             None \<Rightarrow> Inl ''Lock must not be nil.''
           | Some l \<Rightarrow>
               if lk_Identity lk l = '''' then Inl ''Lock identity is empty''
               else Inr \<lparr>le_config = lec, le_lock = l, le_observedRecord = zero_record, le_observedRawRecord = [],
                         le_observedTime = 0, le_reportedLeader = ''''\<rparr>)"

definition getObservedRecord :: "'l LeaderElector \<Rightarrow> LeaderElectionRecord" where
  "getObservedRecord le = le_observedRecord le"

definition setObservedRecord :: "'l LeaderElector \<Rightarrow> LeaderElectionRecord \<Rightarrow> ('m, 'l LeaderElector) prog" where
  "setObservedRecord le observedRecord =
     Now (\<lambda>t. Return (le\<lparr>le_observedRecord := observedRecord, le_observedTime := t\<rparr>))"

definition le_GetLeader :: "'l LeaderElector \<Rightarrow> string" where
  "le_GetLeader le = ler_HolderIdentity (getObservedRecord le)"

definition le_IsLeader :: "('m, 'l) lock \<Rightarrow> 'l LeaderElector \<Rightarrow> bool" where
  "le_IsLeader lk le \<longleftrightarrow> ler_HolderIdentity (getObservedRecord le) = lk_Identity lk (le_lock le)"

text \<open>
  The steps of \<open>tryAcquireOrRenew\<close>: the record it wants to write; what it does with a record it read; the test
  whether somebody else holds the lease; the correction before the update.
\<close>

definition wanted_record :: "('m, 'l) lock \<Rightarrow> 'l LeaderElector \<Rightarrow> int \<Rightarrow> LeaderElectionRecord" where
  "wanted_record lk le now =
     \<lparr>ler_HolderIdentity = lk_Identity lk (le_lock le),
      ler_LeaseDurationSeconds = lec_LeaseDuration (le_config le) div second,
      ler_AcquireTime = now, ler_RenewTime = now, ler_LeaderTransitions = 0\<rparr>"

definition observe :: "'l LeaderElector \<Rightarrow> LeaderElectionRecord \<Rightarrow> bytes \<Rightarrow> ('m, 'l LeaderElector) prog" where
  "observe le old raw =
     (if le_observedRawRecord le \<noteq> raw
      then bind_prog (setObservedRecord le old) (\<lambda>le. Return (le\<lparr>le_observedRawRecord := raw\<rparr>))
      else Return le)"

definition held_by_other :: "('m, 'l) lock \<Rightarrow> 'l LeaderElector \<Rightarrow> LeaderElectionRecord \<Rightarrow> int \<Rightarrow> bool" where
  "held_by_other lk le old now \<longleftrightarrow>
     length (ler_HolderIdentity old) > 0 \<and>
     le_observedTime le + wrap64 (second * ler_LeaseDurationSeconds old) > now \<and> \<not> le_IsLeader lk le"

definition corrected_record ::
  "('m, 'l) lock \<Rightarrow> 'l LeaderElector \<Rightarrow> LeaderElectionRecord \<Rightarrow> LeaderElectionRecord \<Rightarrow> LeaderElectionRecord"
where
  "corrected_record lk le old rec =
     (if le_IsLeader lk le
      then rec\<lparr>ler_AcquireTime := ler_AcquireTime old, ler_LeaderTransitions := ler_LeaderTransitions old\<rparr>
      else rec\<lparr>ler_LeaderTransitions := wrap64 (ler_LeaderTransitions old + 1)\<rparr>)"

text \<open>The end of each of the three calls that write: on an error nothing is observed, otherwise the record is.\<close>

definition note_written :: "'l LeaderElector \<Rightarrow> LeaderElectionRecord \<Rightarrow> 'l \<times> lock_err option \<Rightarrow> ('m, 'l LeaderElector \<times> bool) prog" where
  "note_written le rec r =
     (let (l, err) = r; le = le\<lparr>le_lock := l\<rparr> in
      if err \<noteq> None then Return (le, False)
      else bind_prog (setObservedRecord le rec) (\<lambda>le. Return (le, True)))"

text \<open>What follows the answer of \<open>Get\<close>.\<close>

definition after_get ::
  "('m, 'l) lock \<Rightarrow> 'l LeaderElector \<Rightarrow> LeaderElectionRecord \<Rightarrow> int \<Rightarrow> lock_err + LeaderElectionRecord \<times> bytes
     \<Rightarrow> ('m, 'l LeaderElector \<times> bool) prog"
where
  "after_get lk le rec now r =
     (case r of
        Inl err \<Rightarrow>
          if err \<noteq> NotFound then Return (le, False)
          else bind_prog (lk_Create lk (le_lock le) rec) (note_written le rec)
      | Inr (old, raw) \<Rightarrow>
          bind_prog (observe le old raw) (\<lambda>le.
            if held_by_other lk le old now then Return (le, False)
            else let rec = corrected_record lk le old rec
                 in bind_prog (lk_Update lk (le_lock le) rec) (note_written le rec)))"

definition tryAcquireOrRenew :: "('m, 'l) lock \<Rightarrow> 'l LeaderElector \<Rightarrow> ('m, 'l LeaderElector \<times> bool) prog" where
  "tryAcquireOrRenew lk le =
     Now (\<lambda>now.
       let rec = wanted_record lk le now
       in bind_prog (lk_Get lk (le_lock le)) (\<lambda>(l, r). after_get lk (le\<lparr>le_lock := l\<rparr>) rec now r))"

definition le_release :: "('m, 'l) lock \<Rightarrow> 'l LeaderElector \<Rightarrow> ('m, 'l LeaderElector \<times> bool) prog" where
  "le_release lk le =
     (if \<not> le_IsLeader lk le then Return (le, True)
      else Now (\<lambda>now.
        let rec = \<lparr>ler_HolderIdentity = '''', ler_LeaseDurationSeconds = 1, ler_AcquireTime = now, ler_RenewTime = now,
                   ler_LeaderTransitions = ler_LeaderTransitions (le_observedRecord le)\<rparr>
        in bind_prog (lk_Update lk (le_lock le) rec) (note_written le rec)))"

text \<open>The leader that a goroutine is started to call \<open>OnNewLeader\<close> with, if one is.\<close>

definition maybeReportTransition :: "'l LeaderElector \<Rightarrow> 'l LeaderElector \<times> string option" where
  "maybeReportTransition le =
     (if ler_HolderIdentity (le_observedRecord le) = le_reportedLeader le then (le, None)
      else let le = le\<lparr>le_reportedLeader := ler_HolderIdentity (le_observedRecord le)\<rparr>
           in (le, if lec_OnNewLeader (le_config le) then Some (le_reportedLeader le) else None))"

definition le_Check :: "('m, 'l) lock \<Rightarrow> int \<Rightarrow> 'l LeaderElector \<Rightarrow> int \<Rightarrow> string option" where
  "le_Check lk now le maxTolerableExpiredLease =
     (if \<not> le_IsLeader lk le then None
      else if time_Sub now (le_observedTime le) > wrap64 (lec_LeaseDuration (le_config le) + maxTolerableExpiredLease)
      then Some ''failed election to renew leadership on lease %s''
      else None)"

section \<open>The loops\<close>

text \<open>
  \<open>wait.JitterUntil\<close> and \<open>wait.Until\<close> run their function until the stop channel is closed, which they look at before each run;
  \<open>wait.PollImmediateUntil\<close> runs its condition, at once and then periodically, until it is true or the channel is closed. When a
  channel is closed is not up to this code: the loops take the answers, one per look, as a list, and the result is
  \<open>None\<close> when the list ends before the loop does. Cancelling the loop's own context makes its next look the last. Events and metrics are left
  out. What the elector does about the callbacks is returned as a trace: \<open>OnNewLeader\<close> and \<open>OnStartedLeading\<close> are called by goroutines of
  their own, and the trace says where the \<open>go\<close> statement was (\<open>GoCall\<close>); \<open>OnStoppedLeading\<close> is a deferred call of \<open>Run\<close> itself (\<open>DirectCall\<close>).
\<close>

datatype le_call = OnNewLeader string | OnStartedLeading | OnStoppedLeading

datatype le_event = GoCall le_call | DirectCall le_call

definition reported :: "string option \<Rightarrow> le_event list" where
  "reported r = (case r of None \<Rightarrow> [] | Some leader \<Rightarrow> [GoCall (OnNewLeader leader)])"

fun le_acquire ::
  "('m, 'l) lock \<Rightarrow> bool list \<Rightarrow> 'l LeaderElector \<Rightarrow> le_event list \<Rightarrow> ('m, 'l LeaderElector \<times> bool option \<times> le_event list) prog"
where
  "le_acquire lk [] le trace = Return (le, None, trace)"
| "le_acquire lk (stopped # looks) le trace =
     (if stopped then Return (le, Some False, trace)
      else bind_prog (tryAcquireOrRenew lk le) (\<lambda>(le, succeeded).
        let (le, r) = maybeReportTransition le; trace = trace @ reported r
        in if succeeded then Return (le, Some True, trace) else le_acquire lk looks le trace))"

fun le_poll :: "('m, 'l) lock \<Rightarrow> bool list \<Rightarrow> 'l LeaderElector \<Rightarrow> ('m, 'l LeaderElector \<times> bool option) prog" where
  "le_poll lk looks le =
     bind_prog (tryAcquireOrRenew lk le) (\<lambda>(le, succeeded).
       if succeeded then Return (le, Some True)
       else case looks of
              [] \<Rightarrow> Return (le, None)
            | stopped # looks \<Rightarrow> if stopped then Return (le, Some False) else le_poll lk looks le)"

declare le_poll.simps [simp del]

text \<open>The loop of \<open>renew\<close>: each round is a look at the context and the looks of the poll with the renew deadline.\<close>

fun le_renew_loop ::
  "('m, 'l) lock \<Rightarrow> (bool \<times> bool list) list \<Rightarrow> 'l LeaderElector \<Rightarrow> le_event list
     \<Rightarrow> ('m, 'l LeaderElector \<times> unit option \<times> le_event list) prog"
where
  "le_renew_loop lk [] le trace = Return (le, None, trace)"
| "le_renew_loop lk ((stopped, looks) # rounds) le trace =
     (if stopped then Return (le, Some (), trace)
      else bind_prog (le_poll lk looks le) (\<lambda>(le, renewed).
        case renewed of
          None \<Rightarrow> Return (le, None, trace)
        | Some ok \<Rightarrow>
            let (le, r) = maybeReportTransition le; trace = trace @ reported r
            in if ok then le_renew_loop lk rounds le trace else Return (le, Some (), trace)))"

definition le_renew ::
  "('m, 'l) lock \<Rightarrow> (bool \<times> bool list) list \<Rightarrow> 'l LeaderElector \<Rightarrow> le_event list
     \<Rightarrow> ('m, 'l LeaderElector \<times> unit option \<times> le_event list) prog"
where
  "le_renew lk rounds le trace =
     bind_prog (le_renew_loop lk rounds le trace) (\<lambda>(le, ended, trace).
       if ended \<noteq> None \<and> lec_ReleaseOnCancel (le_config le)
       then bind_prog (le_release lk le) (\<lambda>(le, _). Return (le, ended, trace))
       else Return (le, ended, trace))"

definition le_Run ::
  "('m, 'l) lock \<Rightarrow> bool list \<Rightarrow> (bool \<times> bool list) list \<Rightarrow> 'l LeaderElector
     \<Rightarrow> ('m, 'l LeaderElector \<times> unit option \<times> le_event list) prog"
where
  "le_Run lk looks rounds le =
     bind_prog (le_acquire lk looks le []) (\<lambda>(le, acquired, trace).
       case acquired of
         None \<Rightarrow> Return (le, None, trace)
       | Some False \<Rightarrow> Return (le, Some (), trace @ [DirectCall OnStoppedLeading])
       | Some True \<Rightarrow>
           bind_prog (le_renew lk rounds le (trace @ [GoCall OnStartedLeading])) (\<lambda>(le, ended, trace).
             Return (le, ended, if ended = None then trace else trace @ [DirectCall OnStoppedLeading])))"

section \<open>Health\<close>

record 'l HealthzAdaptor =
  ha_le :: "'l LeaderElector option"
  ha_timeout :: int

definition NewLeaderHealthzAdaptor :: "int \<Rightarrow> 'l HealthzAdaptor" where
  "NewLeaderHealthzAdaptor timeout = \<lparr>ha_le = None, ha_timeout = timeout\<rparr>"

definition ha_SetLeaderElection :: "'l HealthzAdaptor \<Rightarrow> 'l LeaderElector \<Rightarrow> 'l HealthzAdaptor" where
  "ha_SetLeaderElection l le = l\<lparr>ha_le := Some le\<rparr>"

definition ha_Check :: "('m, 'l) lock \<Rightarrow> int \<Rightarrow> 'l HealthzAdaptor \<Rightarrow> string option" where
  "ha_Check lk now l = (case ha_le l of None \<Rightarrow> None | Some le \<Rightarrow> le_Check lk now le (ha_timeout l))"

section \<open>What every run of a program returns\<close>

primrec returns :: "('m, 'r) prog \<Rightarrow> ('r \<Rightarrow> bool) \<Rightarrow> bool" where
  "returns (Return r) P = P r"
| "returns (Now k) P = (\<forall>t. returns (k t) P)"
| "returns (LeaseGet n k) P = (\<forall>r. returns (k r) P)"
| "returns (LeaseCreate n s k) P = (\<forall>r. returns (k r) P)"
| "returns (LeaseUpdate n l k) P = (\<forall>r. returns (k r) P)"

lemma returns_bind: "returns (bind_prog p f) P = returns p (\<lambda>r. returns (f r) P)"
  by (induction p) simp_all

lemma returns_run: "returns p P \<Longrightarrow> run_prog h p w = (w', r) \<Longrightarrow> P r"
  by (induction p arbitrary: w) (auto simp: Let_def split: prod.splits)

lemma returns_mono: "returns p P \<Longrightarrow> (\<And>r. P r \<Longrightarrow> Q r) \<Longrightarrow> returns p Q"
  by (induction p) auto

lemma returns_True [simp]: "returns p (\<lambda>_. True)"
  by (induction p) simp_all

section \<open>The callbacks\<close>

text \<open>
  The goroutines: each makes its call at any moment after its \<open>go\<close> statement. \<open>go_calls trace waiting calls\<close>: after the events \<open>trace\<close> the
  calls \<open>calls\<close> have been made, in this order, and the goroutines of \<open>waiting\<close> have not got to theirs.
\<close>

inductive go_calls :: "le_event list \<Rightarrow> le_call multiset \<Rightarrow> le_call list \<Rightarrow> bool" where
  go_none: "go_calls [] {#} []"
| go_start: "go_calls trace waiting calls \<Longrightarrow> go_calls (trace @ [GoCall c]) (add_mset c waiting) calls"
| go_direct: "go_calls trace waiting calls \<Longrightarrow> go_calls (trace @ [DirectCall c]) waiting (calls @ [c])"
| go_run: "go_calls trace (add_mset c waiting) calls \<Longrightarrow> go_calls trace waiting (calls @ [c])"

fun event_call :: "le_event \<Rightarrow> le_call" where
  "event_call (GoCall c) = c"
| "event_call (DirectCall c) = c"

text \<open>Every callback of the trace is called once, or waits.\<close>

lemma go_calls_mset: "go_calls trace waiting calls \<Longrightarrow> mset calls + waiting = image_mset event_call (mset trace)"
  by (induction rule: go_calls.induct) auto

lemma go_calls_waiting: "go_calls trace waiting calls \<Longrightarrow> c \<in># waiting \<Longrightarrow> GoCall c \<in> set trace"
  by (induction rule: go_calls.induct) auto

definition news :: "le_event list \<Rightarrow> string list" where
  "news calls = List.map_filter (\<lambda>c. case c of GoCall (OnNewLeader x) \<Rightarrow> Some x | _ \<Rightarrow> None) calls"

lemma news_simps [simp]:
  "news [] = []" "news (c # calls) = (case c of GoCall (OnNewLeader x) \<Rightarrow> x # news calls | _ \<Rightarrow> news calls)" "news (as @ bs) = news as @ news bs"
  by (auto simp: news_def List.map_filter_def split: le_call.split le_event.split)

text \<open>The leaders that were reported differ from one to the next, and the last one is remembered.\<close>

definition news_ok :: "'l LeaderElector \<Rightarrow> le_event list \<Rightarrow> bool" where
  "news_ok le calls \<longleftrightarrow> lec_OnNewLeader (le_config le) \<longrightarrow>
     successively (\<noteq>) ('''' # news calls) \<and> last ('''' # news calls) = le_reportedLeader le"

definition kept :: "'l LeaderElector \<Rightarrow> 'l LeaderElector \<Rightarrow> bool" where
  "kept le le' \<longleftrightarrow> le_config le' = le_config le \<and> le_reportedLeader le' = le_reportedLeader le"

lemma kept_news_ok: "kept le le' \<Longrightarrow> news_ok le' calls = news_ok le calls"
  by (simp add: kept_def news_ok_def)

lemma kept_refl [simp]: "kept le le"
  by (simp add: kept_def)

lemma kept_trans: "kept le le' \<Longrightarrow> kept le' le'' \<Longrightarrow> kept le le''"
  by (simp add: kept_def)

lemma note_written_kept: "kept le0 le \<Longrightarrow> returns (note_written le rec r) (\<lambda>(le', b). kept le0 le')"
  by (cases r) (simp add: note_written_def setObservedRecord_def kept_def Let_def)

lemma returns_any: "(\<And>r. P r) \<Longrightarrow> returns p P"
  by (rule returns_mono [OF returns_True]) simp

lemma write_kept: "kept le0 le \<Longrightarrow> returns (bind_prog p (note_written le rec)) (\<lambda>(le', b). kept le0 le')"
  unfolding returns_bind by (rule returns_any) (rule note_written_kept)

lemma tryAcquireOrRenew_kept: "returns (tryAcquireOrRenew lk le) (\<lambda>(le', b). kept le le')"
proof -
  have "returns (after_get lk (le\<lparr>le_lock := l\<rparr>) rec now r) (\<lambda>(le', b). kept le le')" for l rec now r
    by (auto simp: after_get_def observe_def setObservedRecord_def returns_bind Let_def kept_def split: sum.split
        intro!: write_kept [unfolded returns_bind kept_def])
  then show ?thesis
    unfolding tryAcquireOrRenew_def Let_def returns.simps returns_bind by (intro allI) (rule returns_any, simp add: case_prod_beta)
qed

lemma le_release_kept: "returns (le_release lk le) (\<lambda>(le', b). kept le le')"
  by (auto simp: le_release_def Let_def intro: write_kept)

lemma returns_bind_kept:
  assumes "returns p (\<lambda>(le', b). kept le le')" and "\<And>le' b. kept le le' \<Longrightarrow> returns (f (le', b)) P"
  shows "returns (bind_prog p f) P"
  unfolding returns_bind using assms by (auto intro: returns_mono [OF assms(1)])

lemma report_news_ok:
  assumes "news_ok le calls" and "maybeReportTransition le = (le', r)"
  shows "news_ok le' (calls @ reported r)" "GoCall OnStartedLeading \<notin> set (reported r)" "set (reported r) \<subseteq> range (GoCall \<circ> OnNewLeader)" "le_config le' = le_config le"
proof -
  show "news_ok le' (calls @ reported r)"
    using assms by (auto simp: maybeReportTransition_def news_ok_def reported_def Let_def successively_append_iff
        successively_Cons split: if_splits)
qed (use assms in \<open>auto simp: maybeReportTransition_def reported_def Let_def split: if_splits\<close>)

text \<open>What the calls are while the loops run, with or without the start of leading among them.\<close>

definition started_only :: "le_event list \<Rightarrow> bool" where
  "started_only calls \<longleftrightarrow> (\<forall>c \<in> set calls. \<exists>x. c = GoCall x \<and> x \<noteq> OnStoppedLeading)"

definition calls_ok :: "'l LeaderElectionConfig \<Rightarrow> bool \<Rightarrow> 'l LeaderElector \<Rightarrow> le_event list \<Rightarrow> bool" where
  "calls_ok lec led le calls \<longleftrightarrow> le_config le = lec \<and> news_ok le calls \<and> started_only calls \<and>
     count_list calls (GoCall OnStartedLeading) = (if led then 1 else 0)"

lemma calls_ok_kept: "calls_ok lec led le calls \<Longrightarrow> kept le le' \<Longrightarrow> calls_ok lec led le' calls"
  using kept_news_ok [of le le' calls] by (auto simp: calls_ok_def kept_def)

lemma calls_ok_report:
  assumes "calls_ok lec led le calls" and "maybeReportTransition le = (le', r)"
  shows "calls_ok lec led le' (calls @ reported r)"
proof -
  have "news_ok le calls" using assms(1) by (simp add: calls_ok_def)
  note r = report_news_ok [OF this assms(2)]
  have "started_only (reported r)" using r(3) by (auto simp: started_only_def)
  then show ?thesis using r(1,2,4) assms(1) by (auto simp: calls_ok_def started_only_def)
qed

lemma le_acquire_calls:
  "calls_ok lec False le calls \<Longrightarrow> returns (le_acquire lk looks le calls) (\<lambda>(le', a, calls'). calls_ok lec False le' calls')"
proof (induction looks arbitrary: le calls)
  case (Cons stopped looks)
  have "returns (let (le, r) = maybeReportTransition le1; calls = calls @ reported r
      in if ok then Return (le, Some True, calls) else le_acquire lk looks le calls) (\<lambda>(le', a, calls'). calls_ok lec False le' calls')"
    if "kept le le1" for le1 ok
    using calls_ok_report [OF calls_ok_kept [OF Cons.prems that]] Cons.IH by (auto simp: Let_def split: prod.split)
  note body = this
  show ?case
    unfolding le_acquire.simps using Cons.prems
    by (cases stopped) (simp, simp only: if_False, rule returns_bind_kept [OF tryAcquireOrRenew_kept], simp only: prod.case body)
qed simp

lemma le_poll_kept: "returns (le_poll lk looks le) (\<lambda>(le', r). kept le le')"
proof (induction looks arbitrary: le)
  case Nil
  show ?case unfolding le_poll.simps [of _ "[]"] returns_bind by (rule returns_mono [OF tryAcquireOrRenew_kept [of lk le]]) auto
next
  case (Cons stopped looks)
  have "returns (le_poll lk looks le1) (\<lambda>(le', r). kept le le')" if "kept le le1" for le1
    using that by (intro returns_mono [OF Cons.IH]) (auto intro: kept_trans)
  then show ?case
    unfolding le_poll.simps [of _ "stopped # looks"] returns_bind by (intro returns_mono [OF tryAcquireOrRenew_kept [of lk le]]) auto
qed

lemma le_renew_loop_calls:
  "calls_ok lec led le calls \<Longrightarrow> returns (le_renew_loop lk rounds le calls) (\<lambda>(le', a, calls'). calls_ok lec led le' calls')"
proof (induction rounds arbitrary: le calls)
  case (Cons round rounds)
  obtain stopped looks where round: "round = (stopped, looks)" by (cases round)
  let ?body = "\<lambda>le1 renewed. case renewed of None \<Rightarrow> Return (le1, None, calls)
      | Some ok \<Rightarrow> let (le, r) = maybeReportTransition le1; calls = calls @ reported r
          in if ok then le_renew_loop lk rounds le calls else Return (le, Some (), calls)"
  have "returns (?body le1 renewed) (\<lambda>(le', a, calls'). calls_ok lec led le' calls')" if "kept le le1" for le1 renewed
    using calls_ok_report [OF calls_ok_kept [OF Cons.prems that]] Cons.IH calls_ok_kept [OF Cons.prems that]
    by (auto simp: Let_def split: prod.split option.split)
  note body = this
  show ?case
    unfolding round le_renew_loop.simps using Cons.prems
    by (cases stopped) (simp, simp only: if_False, rule returns_bind_kept [OF le_poll_kept], simp only: prod.case body)
qed simp

lemma le_renew_calls:
  assumes "calls_ok lec led le calls"
  shows "returns (le_renew lk rounds le calls) (\<lambda>(le', a, calls'). calls_ok lec led le' calls')"
proof -
  have "returns (bind_prog (le_release lk le1) (\<lambda>(le, _). Return (le, ended :: unit option, calls1))) (\<lambda>(le', a, calls'). calls_ok lec led le' calls')"
    if "calls_ok lec led le1 calls1" for le1 ended calls1
    using that by (auto intro!: returns_bind_kept [OF le_release_kept] intro: calls_ok_kept)
  then show ?thesis
    unfolding le_renew_def returns_bind [of "le_renew_loop lk rounds le calls"]
    by (intro returns_mono [OF le_renew_loop_calls [OF assms]]) auto
qed

definition run_calls_ok :: "'l LeaderElectionConfig \<Rightarrow> unit option \<Rightarrow> le_event list \<Rightarrow> bool" where
  "run_calls_ok lec ended trace \<longleftrightarrow>
     (\<exists>started. trace = map GoCall started @ (if ended = None then [] else [DirectCall OnStoppedLeading]) \<and>
        OnStoppedLeading \<notin> set started \<and> count_list started OnStartedLeading \<le> 1 \<and>
        (lec_OnNewLeader lec \<longrightarrow> successively (\<noteq>) ('''' # news (map GoCall started))))"

lemma started_only_map: "started_only calls \<Longrightarrow> calls = map GoCall (map event_call calls) \<and> OnStoppedLeading \<notin> set (map event_call calls)"
  by (induction calls) (auto simp: started_only_def)

lemma count_GoCall: "count_list (map GoCall started) (GoCall c) = count_list started c"
  by (induction started) auto

lemma calls_ok_run:
  assumes "calls_ok lec led le calls"
  shows "run_calls_ok lec None calls \<and> run_calls_ok lec (Some ()) (calls @ [DirectCall OnStoppedLeading])"
proof -
  have "started_only calls" using assms by (simp add: calls_ok_def)
  then obtain started where "calls = map GoCall started" "OnStoppedLeading \<notin> set started" using started_only_map by metis
  then show ?thesis using assms by (auto simp: calls_ok_def run_calls_ok_def news_ok_def count_GoCall split: if_splits)
qed

lemma le_Run_calls:
  assumes "calls_ok lec False le []"
  shows "returns (le_Run lk looks rounds le) (\<lambda>(le', ended, calls). run_calls_ok lec ended calls)"
proof -
  have led: "returns (bind_prog (le_renew lk rounds le1 (calls @ [GoCall OnStartedLeading])) (\<lambda>(le, ended, calls).
      Return (le, ended, if ended = None then calls else calls @ [DirectCall OnStoppedLeading]))) (\<lambda>(le', ended, calls). run_calls_ok lec ended calls)"
    if "calls_ok lec False le1 calls" for le1 calls
  proof -
    have "calls_ok lec True le1 (calls @ [GoCall OnStartedLeading])" using that by (simp add: calls_ok_def news_ok_def started_only_def)
    then show ?thesis
      unfolding returns_bind by (intro returns_mono [OF le_renew_calls]) (auto dest: calls_ok_run)
  qed
  show ?thesis
    unfolding le_Run_def returns_bind [of "le_acquire lk looks le []"]
  proof (rule returns_mono [OF le_acquire_calls [OF assms]], clarify)
    fix le1 a calls assume "calls_ok lec False le1 calls"
    then show "returns (case a of None \<Rightarrow> Return (le1, None, calls) | Some False \<Rightarrow> Return (le1, Some (), calls @ [DirectCall OnStoppedLeading])
        | Some True \<Rightarrow> bind_prog (le_renew lk rounds le1 (calls @ [GoCall OnStartedLeading])) (\<lambda>(le, ended, calls).
            Return (le, ended, if ended = None then calls else calls @ [DirectCall OnStoppedLeading])))
      (\<lambda>(le', ended, calls). run_calls_ok lec ended calls)"
      using led calls_ok_run [of lec False le1 calls] by (cases a rule: option.exhaust) (auto split: bool.split)
  qed
qed

text \<open>
  C40 The callbacks of \<open>Run\<close>, for every behaviour of the server and whenever the context is cancelled: \<open>Run\<close> starts goroutines for
  \<open>OnNewLeader\<close> and \<open>OnStartedLeading\<close> only; it calls \<open>OnStoppedLeading\<close> itself, exactly once, when it returns and after its last \<open>go\<close> statement,
  and not before; there is at most one goroutine for \<open>OnStartedLeading\<close>; the goroutines for \<open>OnNewLeader\<close>, in the order in
  which they are started, have a different leader from one to the next, and the first is not the empty one. In whatever order the goroutines get to run,
  each of these callbacks is called once or still waiting, and nothing else is called: \<open>OnStoppedLeading\<close> exactly once if \<open>Run\<close> has returned, \<open>OnStartedLeading\<close>
  at most once. The order of the calls is not that of the \<open>go\<close> statements: see \<open>started_after_stopped\<close>.
\<close>

theorem Run_callbacks:
  assumes "NewLeaderElector jitter lk lec = Inr le" and "run_prog h (le_Run lk looks rounds le) w = (w', le', ended, trace)"
    and "go_calls trace waiting calls"
  shows "(\<exists>started. trace = map GoCall started @ (if ended = None then [] else [DirectCall OnStoppedLeading]) \<and>
      OnStoppedLeading \<notin> set started \<and> count_list started OnStartedLeading \<le> 1 \<and>
      (lec_OnNewLeader lec \<longrightarrow> successively (\<noteq>) ('''' # news (map GoCall started))) \<and>
      mset calls + waiting = mset started + (if ended = None then {#} else {#OnStoppedLeading#})) \<and>
    OnStoppedLeading \<notin># waiting \<and> count_list calls OnStoppedLeading = (if ended = None then 0 else 1) \<and>
    count_list calls OnStartedLeading \<le> 1"
proof -
  have "calls_ok lec False le []"
    using assms(1) by (auto simp: NewLeaderElector_def calls_ok_def news_ok_def started_only_def split: if_splits option.splits)
  from returns_run [OF le_Run_calls [OF this] assms(2)] obtain started where
    trace: "trace = map GoCall started @ (if ended = None then [] else [DirectCall OnStoppedLeading])"
      "OnStoppedLeading \<notin> set started" "count_list started OnStartedLeading \<le> 1"
      "lec_OnNewLeader lec \<longrightarrow> successively (\<noteq>) ('''' # news (map GoCall started))"
    by (auto simp: run_calls_ok_def)
  have all: "mset calls + waiting = mset started + (if ended = None then {#} else {#OnStoppedLeading#})"
    using go_calls_mset [OF assms(3)] by (simp add: trace(1) image_mset.compositionality comp_def)
  have direct: "OnStoppedLeading \<notin># waiting"
    using go_calls_waiting [OF assms(3), of OnStoppedLeading] trace(2) by (auto simp: trace(1) split: if_splits)
  have counts: "count_list calls c + count waiting c = count_list started c + (if ended \<noteq> None \<and> c = OnStoppedLeading then 1 else 0)" for c
    using arg_cong [OF all, of "\<lambda>m. count m c"] by (auto simp: count_mset split: if_splits)
  have "count_list calls OnStoppedLeading = (if ended = None then 0 else 1)"
    using counts [of OnStoppedLeading] direct trace(2) by (auto simp: count_list_0_iff not_in_iff split: if_splits)
  moreover have "count_list calls OnStartedLeading \<le> 1" using counts [of OnStartedLeading] trace(3) by simp
  ultimately show ?thesis using trace all direct by blast
qed

text \<open>
  The goroutine for \<open>OnStartedLeading\<close> may run late: a candidate can be told that it has stopped leading before it is told that it has started.
\<close>

lemma started_after_stopped:
  "go_calls [GoCall OnStartedLeading, DirectCall OnStoppedLeading] {#} [OnStoppedLeading, OnStartedLeading]"
  using go_run [OF go_direct [OF go_start [OF go_none]]] by simp

end
