(* ===== verification/ElectionSafety.thy ===== *)
theory ElectionSafety
  imports LeaderElection "HOL-Library.Sublist"
begin

text \<open>
  The system of all candidates of a leader election and its safety.

  The state has the server, the true time, the program each candidate is running and, as auxiliary
  information, the list of all writes of the lease. Every step is one call of one candidate, or time
  passes, or a candidate executes \<open>Run\<close>, starts another attempt, releases, reports or restarts.

  The proof is by a predicate \<open>safe\<close> on programs: whatever the others do between two calls, the write that the
  program makes next is allowed. The contract of a lock is the locale \<open>resource_lock\<close>; the elector is shown to
  be safe for every lock that has it, and \<open>LeaseLock\<close> is shown to have it.
\<close>

section \<open>The server\<close>

record ('s, 'm) lease_server =
  sv_store :: "'s \<Rightarrow> 'm Lease option"
  sv_versions :: "'s \<Rightarrow> 'm set"
  sv_get :: "'s \<Rightarrow> lock_err + 'm Lease \<Rightarrow> bool"
  sv_create :: "'s \<Rightarrow> LeaseSpec \<Rightarrow> 's \<Rightarrow> 'm Lease \<times> lock_err option \<Rightarrow> bool"
  sv_update :: "'s \<Rightarrow> 'm Lease \<Rightarrow> 's \<Rightarrow> lock_err + 'm Lease \<Rightarrow> bool"

text \<open>What of a spec the server keeps as it was sent; it may round the times.\<close>

definition written :: "LeaseSpec \<Rightarrow> 'm Lease \<Rightarrow> bool" where
  "written spec l \<longleftrightarrow> spec_HolderIdentity (lease_Spec l) = spec_HolderIdentity spec \<and>
     spec_LeaseDurationSeconds (lease_Spec l) = spec_LeaseDurationSeconds spec \<and>
     spec_LeaseTransitions (lease_Spec l) = spec_LeaseTransitions spec"

definition stores_new :: "('s, 'm) lease_server \<Rightarrow> 's \<Rightarrow> LeaseSpec \<Rightarrow> 's \<Rightarrow> 'm Lease \<Rightarrow> bool" where
  "stores_new sv s spec s' l \<longleftrightarrow> sv_store sv s' = Some l \<and> written spec l \<and> lease_meta l \<notin> sv_versions sv s \<and>
     sv_versions sv s' = insert (lease_meta l) (sv_versions sv s)"

definition stores_nothing :: "('s, 'm) lease_server \<Rightarrow> 's \<Rightarrow> 's \<Rightarrow> bool" where
  "stores_nothing sv s s' \<longleftrightarrow> sv_store sv s' = sv_store sv s \<and> sv_versions sv s' = sv_versions sv s"

text \<open>
  Reads return what is stored. A create succeeds only when nothing is stored, an update only with the stored
  version; every write gets a version that was not used before. A call that reports an error may have written, and a failed
  create returns the zero object, whose version no object has.
\<close>

definition optimistic_server :: "'m \<Rightarrow> ('s, 'm) lease_server \<Rightarrow> bool" where
  "optimistic_server zero sv \<longleftrightarrow>
     (\<forall>s. zero \<notin> sv_versions sv s) \<and>
     (\<forall>s l. sv_store sv s = Some l \<longrightarrow> lease_meta l \<in> sv_versions sv s) \<and>
     (\<forall>s l. sv_get sv s (Inr l) \<longrightarrow> sv_store sv s = Some l) \<and>
     (\<forall>s spec s' l err. sv_create sv s spec s' (l, err) \<longrightarrow>
        (err \<noteq> None \<longrightarrow> lease_meta l = zero) \<and>
        (stores_nothing sv s s' \<and> err \<noteq> None \<or>
         sv_store sv s = None \<and> (\<exists>l'. stores_new sv s spec s' l' \<and> (err = None \<longrightarrow> l = l')))) \<and>
     (\<forall>s l s' r. sv_update sv s l s' r \<longrightarrow>
        stores_nothing sv s s' \<and> (\<exists>e. r = Inl e) \<or>
        (\<exists>cur l'. sv_store sv s = Some cur \<and> lease_meta cur = lease_meta l \<and> stores_new sv s (lease_Spec l) s' l' \<and>
           (r = Inr l' \<or> (\<exists>e. r = Inl e))))"

section \<open>The system\<close>

text \<open>A write of the lease: who made it, what was stored, and the true time.\<close>

record 'm commit =
  cm_writer :: string
  cm_lease :: "'m Lease"
  cm_time :: int

definition cm_record :: "'m commit \<Rightarrow> LeaderElectionRecord" where
  "cm_record c = LeaseSpecToLeaderElectionRecord (lease_Spec (cm_lease c))"

abbreviation cm_holder :: "'m commit \<Rightarrow> string" where
  "cm_holder c \<equiv> ler_HolderIdentity (cm_record c)"

abbreviation cm_transitions :: "'m commit \<Rightarrow> int" where
  "cm_transitions c \<equiv> ler_LeaderTransitions (cm_record c)"

text \<open>The duration of the lease in nanoseconds, as the code computes it.\<close>

definition cm_duration :: "'m commit \<Rightarrow> int" where
  "cm_duration c = wrap64 (second * ler_LeaseDurationSeconds (cm_record c))"

text \<open>What does not change in a run: the encoding, the zero version, the name of the lease, the clocks' offsets.\<close>

record 'm election =
  el_marshal :: marshal
  el_zero :: 'm
  el_name :: string
  el_offset :: "string \<Rightarrow> int"

type_synonym 'm candidate = "'m LeaseLock LeaderElector"

record ('s, 'm) esys =
  es_server :: 's
  es_time :: int
  es_procs :: "string \<Rightarrow> ('m, 'm candidate \<times> bool) prog"
  es_hist :: "'m commit list"

definition logged :: "('s, 'm) lease_server \<Rightarrow> string \<Rightarrow> int \<Rightarrow> 's \<Rightarrow> 's \<Rightarrow> 'm commit list \<Rightarrow> 'm commit list" where
  "logged sv i t s s' hist =
     (case sv_store sv s' of
        Some l \<Rightarrow> if sv_store sv s = Some l then hist else hist @ [\<lparr>cm_writer = i, cm_lease = l, cm_time = t\<rparr>]
      | None \<Rightarrow> hist)"

inductive es_step ::
  "'m election \<Rightarrow> ('s, 'm) lease_server \<Rightarrow> (string \<Rightarrow> 'm candidate) \<Rightarrow> string set \<Rightarrow> ('s, 'm) esys \<Rightarrow> ('s, 'm) esys \<Rightarrow> bool"
  for el :: "'m election" and sv :: "('s, 'm) lease_server" and start :: "string \<Rightarrow> 'm candidate" and cands :: "string set"
where
  passes: "es_time s \<le> t \<Longrightarrow> es_step el sv start cands s (s\<lparr>es_time := t\<rparr>)"
| clock: "i \<in> cands \<Longrightarrow> es_procs s i = Now k \<Longrightarrow>
    es_step el sv start cands s (s\<lparr>es_procs := (es_procs s)(i := k (es_time s + el_offset el i))\<rparr>)"
| get: "i \<in> cands \<Longrightarrow> es_procs s i = LeaseGet (el_name el) k \<Longrightarrow> sv_get sv (es_server s) r \<Longrightarrow>
    es_step el sv start cands s (s\<lparr>es_procs := (es_procs s)(i := k r)\<rparr>)"
| create: "i \<in> cands \<Longrightarrow> es_procs s i = LeaseCreate (el_name el) spec k \<Longrightarrow> sv_create sv (es_server s) spec srv r \<Longrightarrow>
    es_step el sv start cands s (s\<lparr>es_server := srv, es_procs := (es_procs s)(i := k r),
      es_hist := logged sv i (es_time s) (es_server s) srv (es_hist s)\<rparr>)"
| update: "i \<in> cands \<Longrightarrow> es_procs s i = LeaseUpdate (el_name el) l k \<Longrightarrow> sv_update sv (es_server s) l srv r \<Longrightarrow>
    es_step el sv start cands s (s\<lparr>es_server := srv, es_procs := (es_procs s)(i := k r),
      es_hist := logged sv i (es_time s) (es_server s) srv (es_hist s)\<rparr>)"
| attempt: "i \<in> cands \<Longrightarrow> es_procs s i = Return (le, b) \<Longrightarrow>
    es_step el sv start cands s (s\<lparr>es_procs := (es_procs s)(i := tryAcquireOrRenew (lease_lock (el_marshal el)) le)\<rparr>)"
| release: "i \<in> cands \<Longrightarrow> es_procs s i = Return (le, b) \<Longrightarrow>
    es_step el sv start cands s (s\<lparr>es_procs := (es_procs s)(i := le_release (lease_lock (el_marshal el)) le)\<rparr>)"
| report: "i \<in> cands \<Longrightarrow> es_procs s i = Return (le, b) \<Longrightarrow>
    es_step el sv start cands s (s\<lparr>es_procs := (es_procs s)(i := Return (fst (maybeReportTransition le), b))\<rparr>)"
| restart: "i \<in> cands \<Longrightarrow> es_step el sv start cands s (s\<lparr>es_procs := (es_procs s)(i := Return (start i, False))\<rparr>)"
| run: "i \<in> cands \<Longrightarrow> es_procs s i = Return (le, b) \<Longrightarrow>
    es_step el sv start cands s (s\<lparr>es_procs := (es_procs s)(i :=
      bind_prog (le_Run (lease_lock (el_marshal el)) looks rounds le) (\<lambda>(le, _, _). Return (le, False)))\<rparr>)"

text \<open>
  The candidates: each is what \<open>NewLeaderElector\<close> makes of a configuration with a fresh \<open>LeaseLock\<close> on the same Lease,
  with the candidate's name as its identity.
\<close>

definition candidates_ok ::
  "'m election \<Rightarrow> (int \<Rightarrow> int) \<Rightarrow> (string \<Rightarrow> 'm LeaseLock LeaderElectionConfig) \<Rightarrow> (string \<Rightarrow> 'm candidate) \<Rightarrow> string set \<Rightarrow> bool"
where
  "candidates_ok el jitter cfg start cands \<longleftrightarrow>
     (\<forall>i \<in> cands. lec_Lock (cfg i) = Some \<lparr>ll_name = el_name el, ll_Identity = i, ll_lease = None\<rparr> \<and>
        NewLeaderElector jitter (lease_lock (el_marshal el)) (cfg i) = Inr (start i))"

inductive es_reachable ::
  "'m election \<Rightarrow> ('s, 'm) lease_server \<Rightarrow> (string \<Rightarrow> 'm candidate) \<Rightarrow> string set \<Rightarrow> ('s, 'm) esys \<Rightarrow> bool"
  for el :: "'m election" and sv :: "('s, 'm) lease_server" and start :: "string \<Rightarrow> 'm candidate" and cands :: "string set"
where
  init: "sv_store sv srv = None \<Longrightarrow>
    es_reachable el sv start cands \<lparr>es_server = srv, es_time = t, es_procs = (\<lambda>i. Return (start i, False)), es_hist = []\<rparr>"
| step: "es_reachable el sv start cands s \<Longrightarrow> es_step el sv start cands s s' \<Longrightarrow> es_reachable el sv start cands s'"

definition raw_record :: "'m election \<Rightarrow> 'm commit \<Rightarrow> bytes" where
  "raw_record el c = (case el_marshal el (cm_record c) of Inl _ \<Rightarrow> [] | Inr b \<Rightarrow> b)"

text \<open>
  The lease is respected: the next write after one that names a holder is by the holder, or the
  duration of the lease has passed since a write of this record. An observer compares encoded records, and two writes can have the same
  encoding, since it has the times in seconds: the one it saw may be an earlier one.
\<close>

definition allowed :: "'m election \<Rightarrow> 'm commit list \<Rightarrow> string \<Rightarrow> int \<Rightarrow> bool" where
  "allowed el hist i t \<longleftrightarrow> cm_holder (last hist) = '''' \<or> cm_holder (last hist) = i \<or>
     (\<exists>c \<in> set hist. raw_record el c = raw_record el (last hist) \<and> cm_time c + cm_duration (last hist) \<le> t)"

definition lease_respected :: "'m election \<Rightarrow> 'm commit list \<Rightarrow> bool" where
  "lease_respected el hist \<longleftrightarrow>
     (\<forall>before b after. hist = before @ b # after \<longrightarrow> before \<noteq> [] \<longrightarrow> allowed el before (cm_writer b) (cm_time b))"

section \<open>The count of transitions\<close>

text \<open>
  Every write leaves the count of transitions as it was, with the same holder or none, or it is one more. So as long as
  the count stays the same, the lease stays with its holder or is given up.
\<close>

definition counts :: "'m commit \<Rightarrow> string \<Rightarrow> int \<Rightarrow> bool" where
  "counts a holder transitions \<longleftrightarrow>
     transitions = cm_transitions a \<and> (holder = cm_holder a \<or> holder = '''') \<or> transitions = cm_transitions a + 1"

definition chain :: "'m commit list \<Rightarrow> bool" where
  "chain hist \<longleftrightarrow> (hist \<noteq> [] \<longrightarrow> cm_transitions (hd hist) = 0) \<and>
     successively (\<lambda>a b. counts a (cm_holder b) (cm_transitions b)) hist"

lemma chain_Nil [simp]: "chain []"
  by (simp add: chain_def)

lemma chain_snoc:
  "chain (hist @ [c]) \<longleftrightarrow>
     chain hist \<and> (if hist = [] then cm_transitions c = 0 else counts (last hist) (cm_holder c) (cm_transitions c))"
  by (auto simp: chain_def successively_append_iff)

lemma chain_prefix: "chain (xs @ ys) \<Longrightarrow> chain xs"
  by (cases "xs = []") (auto simp: chain_def successively_append_iff)

lemma chain_all:
  "chain hist \<Longrightarrow> \<forall>c \<in> set hist. 0 \<le> cm_transitions c \<and> cm_transitions c < int (length hist) \<and> cm_transitions c \<le> cm_transitions (last hist)"
proof (induction hist rule: rev_induct)
  case (snoc b hist)
  have "chain hist" using snoc.prems chain_snoc by blast
  note IH = snoc.IH [OF this]
  show ?case
  proof (cases "hist = []")
    case True
    then show ?thesis using snoc.prems chain_snoc [of hist b] by simp
  next
    case False
    then have "counts (last hist) (cm_holder b) (cm_transitions b)" using snoc.prems chain_snoc [of hist b] by simp
    then have "cm_transitions b = cm_transitions (last hist) \<or> cm_transitions b = cm_transitions (last hist) + 1" by (auto simp: counts_def)
    moreover have "0 \<le> cm_transitions (last hist)" "cm_transitions (last hist) < int (length hist)" using IH False by auto
    ultimately show ?thesis using IH by auto
  qed
qed simp

lemma chain_bounds:
  assumes "chain hist" and "c \<in> set hist"
  shows "0 \<le> cm_transitions c" "cm_transitions c < int (length hist)" "cm_transitions c \<le> cm_transitions (last hist)"
  using chain_all [OF assms(1)] assms(2) by auto

text \<open>A write that names a holder and has the count of an earlier one has its holder.\<close>

lemma chain_holder:
  assumes "chain (before @ c # after)" and "b \<in> set (c # after)" and "cm_transitions b = cm_transitions c" and "cm_holder b \<noteq> ''''"
  shows "cm_holder c = cm_holder b"
  using assms
proof (induction after arbitrary: b rule: rev_induct)
  case (snoc d after)
  let ?hist = "before @ c # after"
  have ch: "chain ?hist" "counts (last ?hist) (cm_holder d) (cm_transitions d)"
    using snoc.prems(1) chain_snoc [of ?hist d] by (auto split: if_splits)
  show ?case
  proof (cases "b \<in> set (c # after)")
    case True
    then show ?thesis using snoc.IH [OF ch(1)] snoc.prems by blast
  next
    case False
    then have b: "b = d" using snoc.prems(2) by simp
    have "cm_transitions c \<le> cm_transitions (last ?hist)" using chain_bounds(3) [OF ch(1)] by simp
    then have "cm_transitions (last ?hist) = cm_transitions c" "cm_holder d = cm_holder (last ?hist)"
      using ch(2) snoc.prems(3,4) b by (auto simp: counts_def)
    moreover have "last ?hist \<in> set (c # after)" by simp
    ultimately show ?thesis using snoc.IH [OF ch(1), of "last ?hist"] snoc.prems(4) b by metis
  qed
qed simp

section \<open>Safe programs\<close>

record 'm ghost =
  g_time :: int
  g_hist :: "'m commit list"

text \<open>
  What is known of the writes: each has its own version, encodings that are equal agree on the holder and on the count of transitions, and there are not so many
  writes that the count, which is stored as an int32, wraps.
\<close>

definition base_ok :: "'m election \<Rightarrow> 'm ghost \<Rightarrow> bool" where
  "base_ok el G \<longleftrightarrow> distinct (map (\<lambda>c. lease_meta (cm_lease c)) (g_hist G)) \<and> length (g_hist G) < 2 ^ 31 \<and>
     (\<forall>c \<in> set (g_hist G). cm_time c \<le> g_time G \<and> lease_meta (cm_lease c) \<noteq> el_zero el \<and> raw_record el c \<noteq> []) \<and>
     (\<forall>c \<in> set (g_hist G). \<forall>c' \<in> set (g_hist G). raw_record el c = raw_record el c' \<longrightarrow>
        cm_holder c = cm_holder c' \<and> cm_transitions c = cm_transitions c')"

definition g_ok :: "'m election \<Rightarrow> 'm ghost \<Rightarrow> bool" where
  "g_ok el G \<longleftrightarrow> base_ok el G \<and> chain (g_hist G)"

lemma g_ok_commit:
  assumes "g_ok el G" and "c \<in> set (g_hist G)"
  shows "cm_time c \<le> g_time G" "lease_meta (cm_lease c) \<noteq> el_zero el" "raw_record el c \<noteq> []"
  using assms unfolding g_ok_def base_ok_def by blast+

lemma g_ok_raw:
  assumes "g_ok el G" and "c \<in> set (g_hist G)" and "c' \<in> set (g_hist G)" and "raw_record el c = raw_record el c'"
  shows "cm_holder c = cm_holder c'" "cm_transitions c = cm_transitions c'"
  using assms unfolding g_ok_def base_ok_def by blast+

definition later :: "'m election \<Rightarrow> 'm ghost \<Rightarrow> 'm ghost \<Rightarrow> bool" where
  "later el G G' \<longleftrightarrow> g_ok el G' \<and> g_time G \<le> g_time G' \<and> prefix (g_hist G) (g_hist G')"

definition commits :: "'m ghost \<Rightarrow> string \<Rightarrow> 'm Lease \<Rightarrow> 'm ghost" where
  "commits G i l = G\<lparr>g_hist := g_hist G @ [\<lparr>cm_writer = i, cm_lease = l, cm_time = g_time G\<rparr>]\<rparr>"

abbreviation lease_record :: "'m Lease \<Rightarrow> LeaderElectionRecord" where
  "lease_record l \<equiv> LeaseSpecToLeaderElectionRecord (lease_Spec l)"

text \<open>What a program that writes has to show: it may write, and it counts.\<close>

definition may_update :: "'m election \<Rightarrow> 'm ghost \<Rightarrow> string \<Rightarrow> 'm Lease \<Rightarrow> bool" where
  "may_update el G i l \<longleftrightarrow> allowed el (g_hist G) i (g_time G) \<and>
     counts (last (g_hist G)) (ler_HolderIdentity (lease_record l)) (ler_LeaderTransitions (lease_record l))"

primrec safe :: "'m election \<Rightarrow> string \<Rightarrow> ('m, 'r) prog \<Rightarrow> ('r \<Rightarrow> 'm ghost \<Rightarrow> bool) \<Rightarrow> 'm ghost \<Rightarrow> bool" where
  "safe el i (Return r) Q G = Q r G"
| "safe el i (Now k) Q G = (\<forall>G'. later el G G' \<longrightarrow> safe el i (k (g_time G' + el_offset el i)) Q G')"
| "safe el i (LeaseGet n k) Q G = (\<forall>G'. later el G G' \<longrightarrow>
     (\<forall>e. safe el i (k (Inl e)) Q G') \<and>
     (g_hist G' \<noteq> [] \<longrightarrow> safe el i (k (Inr (cm_lease (last (g_hist G'))))) Q G'))"
| "safe el i (LeaseCreate n spec k) Q G = (\<forall>G'. later el G G' \<longrightarrow>
     (\<forall>l e. lease_meta l = el_zero el \<longrightarrow> safe el i (k (l, Some e)) Q G') \<and>
     (\<forall>l. g_hist G' = [] \<and> written spec l \<and> base_ok el (commits G' i l) \<longrightarrow>
        ler_LeaderTransitions (lease_record l) = 0 \<and> safe el i (k (l, None)) Q (commits G' i l) \<and>
        (\<forall>l' e. lease_meta l' = el_zero el \<longrightarrow> safe el i (k (l', Some e)) Q (commits G' i l))))"
| "safe el i (LeaseUpdate n l k) Q G = (\<forall>G'. later el G G' \<longrightarrow>
     (\<forall>e. safe el i (k (Inl e)) Q G') \<and>
     (\<forall>l'. g_hist G' \<noteq> [] \<and> lease_meta (cm_lease (last (g_hist G'))) = lease_meta l \<and> written (lease_Spec l) l' \<and>
           base_ok el (commits G' i l') \<longrightarrow>
        may_update el G' i l' \<and>
        safe el i (k (Inr l')) Q (commits G' i l') \<and> (\<forall>e. safe el i (k (Inl e)) Q (commits G' i l'))))"

lemma safe_bind: "safe el i (bind_prog p f) Q G = safe el i p (\<lambda>r. safe el i (f r) Q) G"
  by (induction p arbitrary: G) simp_all

lemma safe_mono: "safe el i p Q G \<Longrightarrow> (\<And>r G. Q r G \<Longrightarrow> Q' r G) \<Longrightarrow> safe el i p Q' G"
  by (induction p arbitrary: G) fastforce+

lemma later_refl: "g_ok el G \<Longrightarrow> later el G G"
  by (simp add: later_def)

lemma later_trans: "later el G G' \<Longrightarrow> later el G' G'' \<Longrightarrow> later el G G''"
  by (auto simp: later_def)

lemma later_ok: "later el G G' \<Longrightarrow> g_ok el G'"
  by (simp add: later_def)

text \<open>What holds of the result for good may be assumed of it later.\<close>

definition stable :: "'m election \<Rightarrow> ('r \<Rightarrow> 'm ghost \<Rightarrow> bool) \<Rightarrow> bool" where
  "stable el Q \<longleftrightarrow> (\<forall>r G G'. Q r G \<longrightarrow> later el G G' \<longrightarrow> Q r G')"

lemma safe_later: "safe el i p Q G \<Longrightarrow> later el G G' \<Longrightarrow> stable el Q \<Longrightarrow> safe el i p Q G'"
  by (cases p) (auto simp: stable_def intro: later_trans)

section \<open>The contract of a lock\<close>

text \<open>
  \<open>ver\<close> is the version of the object that the lock remembers. \<open>Get\<close> returns the record of the latest write and
  remembers its version, or changes nothing; \<open>Create\<close> writes only when there is nothing yet; \<open>Update\<close> writes only over the
  version that is remembered.
\<close>

locale resource_lock =
  fixes el :: "'m election" and i :: string and lk :: "('m, 'l) lock" and ver :: "'l \<Rightarrow> 'm option" and ok :: "'l \<Rightarrow> bool"
  assumes identity: "ok l \<Longrightarrow> lk_Identity lk l = i" and named: "ok l \<Longrightarrow> i \<noteq> ''''"
    and get_law: "ok l \<Longrightarrow>
      (\<And>G' e. later el G G' \<Longrightarrow> R (l, Inl e) G') \<Longrightarrow>
      (\<And>G' l'. later el G G' \<Longrightarrow> g_hist G' \<noteq> [] \<Longrightarrow> ok l' \<Longrightarrow> ver l' = Some (lease_meta (cm_lease (last (g_hist G')))) \<Longrightarrow>
         R (l', Inr (cm_record (last (g_hist G')), raw_record el (last (g_hist G')))) G') \<Longrightarrow>
      safe el i (lk_Get lk l) R G"
    and create_law: "ok l \<Longrightarrow>
      (\<And>G' l' e. later el G G' \<Longrightarrow> ok l' \<Longrightarrow> ver l' = Some (el_zero el) \<Longrightarrow> Q (l', Some e) G') \<Longrightarrow>
      (\<And>G' lease l'. later el G G' \<Longrightarrow> g_hist G' = [] \<Longrightarrow> written (LeaderElectionRecordToLeaseSpec r) lease \<Longrightarrow>
         later el G' (commits G' i lease) \<Longrightarrow> ok l' \<Longrightarrow> ver l' = Some (lease_meta lease) \<Longrightarrow> Q (l', None) (commits G' i lease)) \<Longrightarrow>
      ler_LeaderTransitions r = 0 \<Longrightarrow> safe el i (lk_Create lk l r) Q G"
    and update_law: "ok l \<Longrightarrow> g_ok el G \<Longrightarrow>
      (\<And>G' l' e. later el G G' \<Longrightarrow> ok l' \<Longrightarrow> ver l' = ver l \<Longrightarrow> Q (l', Some e) G') \<Longrightarrow>
      (\<And>G' lease l'. later el G G' \<Longrightarrow> g_hist G' \<noteq> [] \<Longrightarrow> ver l = Some (lease_meta (cm_lease (last (g_hist G')))) \<Longrightarrow>
         written (LeaderElectionRecordToLeaseSpec r) lease \<Longrightarrow> base_ok el (commits G' i lease) \<Longrightarrow> ok l' \<Longrightarrow> ver l' = Some (lease_meta lease) \<Longrightarrow>
         may_update el G' i lease \<and> Q (l', None) (commits G' i lease)) \<Longrightarrow>
      safe el i (lk_Update lk l r) Q G"

lemma distinct_map_inD: "distinct (map f xs) \<Longrightarrow> x \<in> set xs \<Longrightarrow> y \<in> set xs \<Longrightarrow> f x = f y \<Longrightarrow> x = y"
  by (auto simp: distinct_map inj_on_def)

lemma later_mem: "later el G G' \<Longrightarrow> c \<in> set (g_hist G) \<Longrightarrow> c \<in> set (g_hist G')"
  by (auto simp: later_def dest: set_mono_prefix)

text \<open>A write that was not the latest does not become the latest again.\<close>

lemma later_last:
  assumes "later el G G'" and "c \<in> set (g_hist G)" and "c = last (g_hist G')"
  shows "c = last (g_hist G)"
proof -
  obtain ext where ext: "g_hist G' = g_hist G @ ext" using assms(1) by (auto simp: later_def prefix_def)
  have "distinct (g_hist G')" using assms(1) by (auto simp: later_def g_ok_def base_ok_def distinct_map)
  then show ?thesis using ext assms(2,3) by (cases "ext = []") auto
qed

lemma commits_hist [simp]:
  "g_hist (commits G i l) = g_hist G @ [\<lparr>cm_writer = i, cm_lease = l, cm_time = g_time G\<rparr>]" "g_time (commits G i l) = g_time G"
  by (simp_all add: commits_def)

lemma written_record:
  "written (LeaderElectionRecordToLeaseSpec r) l \<Longrightarrow>
     ler_HolderIdentity (lease_record l) = ler_HolderIdentity r \<and> ler_LeaderTransitions (lease_record l) = wrap32 (ler_LeaderTransitions r)"
  by (simp add: written_def record_of_spec_fields LeaderElectionRecordToLeaseSpec_def Let_def)

text \<open>A write that counts, with a count that does not wrap, extends the history.\<close>

lemma commits_later:
  assumes "g_ok el G" and "base_ok el (commits G i l)"
    and "g_hist G = [] \<Longrightarrow> ler_LeaderTransitions (lease_record l) = 0"
    and "g_hist G \<noteq> [] \<Longrightarrow> counts (last (g_hist G)) (ler_HolderIdentity (lease_record l)) (ler_LeaderTransitions (lease_record l))"
  shows "later el G (commits G i l)"
  using assms by (auto simp: later_def g_ok_def chain_snoc cm_record_def)

lemma written_counts:
  assumes "g_ok el G" and "g_hist G \<noteq> []" and "base_ok el (commits G i l)" and "written (LeaderElectionRecordToLeaseSpec r) l"
    and "counts (last (g_hist G)) (ler_HolderIdentity r) (ler_LeaderTransitions r)"
  shows "ler_LeaderTransitions (lease_record l) = ler_LeaderTransitions r"
    "counts (last (g_hist G)) (ler_HolderIdentity (lease_record l)) (ler_LeaderTransitions (lease_record l))"
proof -
  let ?c = "last (g_hist G)"
  have "0 \<le> cm_transitions ?c" "cm_transitions ?c < int (length (g_hist G))"
    using chain_bounds [OF _ last_in_set [OF assms(2)]] assms(1) by (auto simp: g_ok_def)
  moreover have "int (length (g_hist G)) + 1 < 2 ^ 31" using assms(3) by (simp add: base_ok_def)
  ultimately have "- (2 ^ 31) \<le> ler_LeaderTransitions r" "ler_LeaderTransitions r < 2 ^ 31"
    using assms(5) by (auto simp: counts_def)
  then show tr: "ler_LeaderTransitions (lease_record l) = ler_LeaderTransitions r"
    using written_record [OF assms(4)] wrap32_id by simp
  then show "counts ?c (ler_HolderIdentity (lease_record l)) (ler_LeaderTransitions (lease_record l))"
    using written_record [OF assms(4)] assms(5) by simp
qed

section \<open>The elector over a lock\<close>

text \<open>
  What the observed record and time say: a write with the observed encoding that is not later than the observed time, and a count between its count and the latest one. If
  the elector thinks that it leads, then it made that write, or the count has grown since.
\<close>

definition obs_ok :: "'m election \<Rightarrow> string \<Rightarrow> 'l LeaderElector \<Rightarrow> 'm ghost \<Rightarrow> bool" where
  "obs_ok el i le G \<longleftrightarrow> le_observedRawRecord le = [] \<or>
     (\<exists>c \<in> set (g_hist G). raw_record el c = le_observedRawRecord le \<and> cm_time c + el_offset el i \<le> le_observedTime le \<and>
        cm_transitions c \<le> ler_LeaderTransitions (le_observedRecord le) \<and>
        ler_LeaderTransitions (le_observedRecord le) \<le> cm_transitions (last (g_hist G)) \<and>
        (ler_HolderIdentity (le_observedRecord le) = i \<longrightarrow>
           cm_holder c = i \<or> cm_transitions c < ler_LeaderTransitions (le_observedRecord le)))"

text \<open>If the lock could still write over the version it remembers and the elector thinks that it leads, then it does, and it knows the count.\<close>

definition ver_ok :: "'m election \<Rightarrow> string \<Rightarrow> 'm option \<Rightarrow> LeaderElectionRecord \<Rightarrow> 'm ghost \<Rightarrow> bool" where
  "ver_ok el i v r G \<longleftrightarrow> (\<forall>m. v = Some m \<longrightarrow> m = el_zero el \<or>
     (\<exists>c \<in> set (g_hist G). lease_meta (cm_lease c) = m \<and>
        (c = last (g_hist G) \<and> ler_HolderIdentity r = i \<longrightarrow> cm_holder c = i \<and> cm_transitions c = ler_LeaderTransitions r)))"

lemma later_transitions: "later el G G' \<Longrightarrow> c \<in> set (g_hist G) \<Longrightarrow> cm_transitions c \<le> cm_transitions (last (g_hist G'))"
  using chain_bounds(3) later_mem later_ok unfolding g_ok_def by metis

lemma obs_ok_later:
  assumes "obs_ok el i le G" and "later el G G'"
  shows "obs_ok el i le G'"
proof (cases "g_hist G = []")
  case False
  have "cm_transitions (last (g_hist G)) \<le> cm_transitions (last (g_hist G'))"
    by (rule later_transitions [OF assms(2) last_in_set [OF False]])
  then show ?thesis using assms(1) later_mem [OF assms(2)] unfolding obs_ok_def by (meson order_trans)
qed (use assms(1) in \<open>auto simp: obs_ok_def\<close>)

lemma ver_ok_later: "ver_ok el i v r G \<Longrightarrow> later el G G' \<Longrightarrow> ver_ok el i v r G'"
  unfolding ver_ok_def using later_mem later_last by metis

context resource_lock
begin

definition le_inv :: "'l LeaderElector \<times> bool \<Rightarrow> 'm ghost \<Rightarrow> bool" where
  "le_inv r G \<longleftrightarrow> ok (le_lock (fst r)) \<and> obs_ok el i (fst r) G \<and> ver_ok el i (ver (le_lock (fst r))) (le_observedRecord (fst r)) G"

lemma le_inv_stable: "stable el le_inv"
  by (auto simp: stable_def le_inv_def intro: obs_ok_later ver_ok_later)

lemma obs_ok_fields: "le_observedRawRecord le' = le_observedRawRecord le \<Longrightarrow> le_observedTime le' = le_observedTime le \<Longrightarrow>
    le_observedRecord le' = le_observedRecord le \<Longrightarrow> obs_ok el i le' G = obs_ok el i le G"
  by (simp add: obs_ok_def)

text \<open>The end of every successful write: the written record becomes the observed one.\<close>

lemma after_write:
  assumes commit: "later el G (commits G' i lease)" and "later el (commits G' i lease) G''" and "prefix (g_hist G) (g_hist G')"
    and "obs_ok el i le G" and "written (LeaderElectionRecordToLeaseSpec r) lease" and "ok l'" and "ver l' = Some (lease_meta lease)"
    and tr: "ler_LeaderTransitions (lease_record lease) = ler_LeaderTransitions r"
  shows "le_inv (le\<lparr>le_lock := l', le_observedRecord := r, le_observedTime := g_time G'' + el_offset el i\<rparr>, b) G''"
proof -
  let ?c = "\<lparr>cm_writer = i, cm_lease = lease, cm_time = g_time G'\<rparr>"
  have c: "?c \<in> set (g_hist G'')" using later_mem [OF assms(2), of ?c] by simp
  have new: "cm_holder ?c = ler_HolderIdentity r" "cm_transitions ?c = ler_LeaderTransitions r"
    using written_record [OF assms(5)] tr by (simp_all add: cm_record_def)
  then have "ver_ok el i (Some (lease_meta lease)) r G''" unfolding ver_ok_def using c by (auto intro!: bexI [of _ ?c])
  moreover have "cm_transitions ?c \<le> cm_transitions (last (g_hist G''))"
    by (rule later_transitions [OF assms(2)]) simp
  moreover have "c \<in> set (g_hist G'') \<and> cm_time c \<le> g_time G'' \<and> cm_transitions c \<le> cm_transitions ?c \<and>
      (ler_HolderIdentity r = i \<longrightarrow> cm_holder c = i \<or> cm_transitions c < cm_transitions ?c)" if "c \<in> set (g_hist G)" for c
  proof -
    have in': "c \<in> set (g_hist G')" using that assms(3) by (auto dest: set_mono_prefix)
    then obtain before after where split: "g_hist G' = before @ c # after" by (auto simp: in_set_conv_decomp)
    have chain: "chain (g_hist G' @ [?c])" using later_ok [OF commit] by (simp add: g_ok_def)
    have le: "cm_transitions c \<le> cm_transitions ?c" using chain_bounds(3) [OF chain, of c] in' by simp
    have "cm_holder c = i" if "ler_HolderIdentity r = i" "cm_transitions c = cm_transitions ?c"
      using chain_holder [of before c "after @ [?c]" ?c] chain split that new named [OF assms(6)] by simp
    moreover have "c \<in> set (g_hist G'')" using later_mem [OF assms(2), of c] in' by simp
    moreover from this have "cm_time c \<le> g_time G''" using later_ok [OF assms(2)] by (simp add: g_ok_def base_ok_def)
    ultimately show ?thesis using le by force
  qed
  then have "obs_ok el i (le\<lparr>le_lock := l', le_observedRecord := r, le_observedTime := g_time G'' + el_offset el i\<rparr>) G''"
    using assms(4) calculation(2) new unfolding obs_ok_def by simp fastforce
  ultimately show ?thesis using assms(6,7) by (simp add: le_inv_def)
qed

lemma update_safe:
  assumes le: "le_inv (le, b) G" and ok: "g_ok el G"
    and allowed: "\<And>G' c. later el G G' \<Longrightarrow> c \<in> set (g_hist G') \<Longrightarrow> c = last (g_hist G') \<Longrightarrow>
      ver (le_lock le) = Some (lease_meta (cm_lease c)) \<Longrightarrow>
      allowed el (g_hist G') i (g_time G') \<and> counts c (ler_HolderIdentity r) (ler_LeaderTransitions r)"
  shows "safe el i (bind_prog (lk_Update lk (le_lock le) r) (note_written le r)) le_inv G"
  unfolding safe_bind
proof (rule update_law)
  show "ok (le_lock le)" using le by (simp add: le_inv_def)
  show "g_ok el G" by (rule ok)
  show "safe el i (note_written le r (l', Some e)) le_inv G'"
    if "later el G G'" "ok l'" "ver l' = ver (le_lock le)" for G' l' e
    using le that obs_ok_later [OF _ that(1)] ver_ok_later [OF _ that(1)] by (auto simp: note_written_def le_inv_def obs_ok_def)
next
  fix G' lease l'
  assume G': "later el G G'" "g_hist G' \<noteq> []" "ver (le_lock le) = Some (lease_meta (cm_lease (last (g_hist G'))))"
    and w: "written (LeaderElectionRecordToLeaseSpec r) lease" and base: "base_ok el (commits G' i lease)"
    and l': "ok l'" "ver l' = Some (lease_meta lease)"
  have al: "allowed el (g_hist G') i (g_time G')" and cnt: "counts (last (g_hist G')) (ler_HolderIdentity r) (ler_LeaderTransitions r)"
    using allowed [OF G'(1) last_in_set [OF G'(2)] refl G'(3)] by auto
  note wc = written_counts [OF later_ok [OF G'(1)] G'(2) base w cnt]
  have commit: "later el G' (commits G' i lease)"
    by (rule commits_later [OF later_ok [OF G'(1)] base]) (use G'(2) wc(2) in auto)
  have "may_update el G' i lease" using al wc(2) by (simp add: may_update_def)
  moreover have "le_inv (le\<lparr>le_lock := l', le_observedRecord := r, le_observedTime := g_time G'' + el_offset el i\<rparr>, True) G''"
    if "later el (commits G' i lease) G''" for G''
  proof -
    have "prefix (g_hist G) (g_hist G')" and "obs_ok el i le G" using G'(1) le by (auto simp: later_def le_inv_def)
    then show ?thesis by (rule after_write [OF later_trans [OF G'(1) commit] that _ _ w l' wc(1)])
  qed
  ultimately show "may_update el G' i lease \<and>
      safe el i (note_written le r (l', None)) le_inv (commits G' i lease)"
    by (simp add: note_written_def setObservedRecord_def)
qed

text \<open>The version that is remembered names one write.\<close>

lemma version_unique:
  assumes "later el G G'" and "c \<in> set (g_hist G)" and "c' \<in> set (g_hist G')" and "lease_meta (cm_lease c) = lease_meta (cm_lease c')"
  shows "c = c'"
  using distinct_map_inD [OF _ later_mem [OF assms(1,2)] assms(3), of "\<lambda>c. lease_meta (cm_lease c)"] later_ok [OF assms(1)] assms(4)
  by (simp add: g_ok_def base_ok_def)

lemma update_own_safe:
  assumes le: "le_inv (le, b) G" and ok: "g_ok el G" and leads: "ler_HolderIdentity (le_observedRecord le) = i"
    and r: "ler_HolderIdentity r = ''''" "ler_LeaderTransitions r = ler_LeaderTransitions (le_observedRecord le)"
  shows "safe el i (bind_prog (lk_Update lk (le_lock le) r) (note_written le r)) le_inv G"
proof (rule update_safe [OF le ok])
  fix G' c assume G': "later el G G'" and c: "c \<in> set (g_hist G')" "c = last (g_hist G')" and v: "ver (le_lock le) = Some (lease_meta (cm_lease c))"
  have "lease_meta (cm_lease c) \<noteq> el_zero el" using later_ok [OF G'] c(1) by (simp add: g_ok_def base_ok_def)
  then obtain c' where c': "c' \<in> set (g_hist G)" "lease_meta (cm_lease c') = lease_meta (cm_lease c)"
      "c' = last (g_hist G) \<longrightarrow> cm_holder c' = i \<and> cm_transitions c' = ler_LeaderTransitions (le_observedRecord le)"
    using le v leads by (auto simp: le_inv_def ver_ok_def)
  have "c' = c" by (rule version_unique [OF G' c'(1) c(1) c'(2)])
  then have "cm_holder c = i" "cm_transitions c = ler_LeaderTransitions (le_observedRecord le)"
    using later_last [OF G' c'(1)] c(2) c'(3) by auto
  then show "allowed el (g_hist G') i (g_time G') \<and> counts c (ler_HolderIdentity r) (ler_LeaderTransitions r)"
    using c(2) r by (simp add: allowed_def counts_def)
qed

lemma create_safe:
  assumes le: "le_inv (le, b) G" and r: "ler_LeaderTransitions r = 0"
  shows "safe el i (bind_prog (lk_Create lk (le_lock le) r) (note_written le r)) le_inv G"
  unfolding safe_bind
proof (rule create_law)
  show "ok (le_lock le)" using le by (simp add: le_inv_def)
  show "safe el i (note_written le r (l', Some e)) le_inv G'"
    if "later el G G'" "ok l'" "ver l' = Some (el_zero el)" for G' l' e
    using le that obs_ok_later [OF _ that(1)] by (auto simp: note_written_def le_inv_def obs_ok_def ver_ok_def)
next
  fix G' lease l'
  assume G': "later el G G'" "g_hist G' = []" and w: "written (LeaderElectionRecordToLeaseSpec r) lease"
    and commit: "later el G' (commits G' i lease)" and l': "ok l'" "ver l' = Some (lease_meta lease)"
  have tr: "ler_LeaderTransitions (lease_record lease) = ler_LeaderTransitions r"
    using written_record [OF w] r by (simp add: wrap32_def)
  have "le_inv (le\<lparr>le_lock := l', le_observedRecord := r, le_observedTime := g_time G'' + el_offset el i\<rparr>, True) G''"
    if "later el (commits G' i lease) G''" for G''
  proof -
    have "prefix (g_hist G) (g_hist G')" and "obs_ok el i le G" using G'(1) le by (auto simp: later_def le_inv_def)
    then show ?thesis by (rule after_write [OF later_trans [OF G'(1) commit] that _ _ w l' tr])
  qed
  then show "safe el i (note_written le r (l', None)) le_inv (commits G' i lease)"
    by (simp add: note_written_def setObservedRecord_def)
qed (rule r)

text \<open>
  After \<open>observe\<close>: the write \<open>c\<close> that was just read, or one with the same encoding, was made no later than the observed time, and if
  the elector thinks that it leads, \<open>c\<close> says so.
\<close>

definition seen :: "'l LeaderElector \<Rightarrow> 'm commit \<Rightarrow> 'm ghost \<Rightarrow> bool" where
  "seen le c G \<longleftrightarrow> le_inv (le, False) G \<and> g_ok el G \<and> c \<in> set (g_hist G) \<and> ver (le_lock le) = Some (lease_meta (cm_lease c)) \<and>
     (ler_HolderIdentity (le_observedRecord le) = i \<longrightarrow> cm_holder c = i) \<and>
     (\<exists>c' \<in> set (g_hist G). raw_record el c' = raw_record el c \<and> cm_time c' + el_offset el i \<le> le_observedTime le)"

lemma seen_changed:
  assumes "later el G G'" and "c \<in> set (g_hist G)" and "ok (le_lock le)" and "ver (le_lock le) = Some (lease_meta (cm_lease c))"
  shows "seen (le\<lparr>le_observedRecord := cm_record c, le_observedTime := g_time G' + el_offset el i, le_observedRawRecord := raw_record el c\<rparr>) c G'"
proof -
  have c: "c \<in> set (g_hist G')" by (rule later_mem [OF assms(1,2)])
  moreover have "cm_time c \<le> g_time G'" using c later_ok [OF assms(1)] by (auto simp: g_ok_def base_ok_def)
  moreover have "cm_transitions c \<le> cm_transitions (last (g_hist G'))" by (rule later_transitions [OF assms(1,2)])
  ultimately show ?thesis
    using assms(3,4) later_ok [OF assms(1)] unfolding seen_def le_inv_def obs_ok_def ver_ok_def by (auto intro!: bexI [of _ c])
qed

lemma seen_same:
  assumes "obs_ok el i le G" and "g_ok el G" and "g_hist G \<noteq> []" and "c = last (g_hist G)"
    and "le_observedRawRecord le = raw_record el c" and "ok (le_lock le)" and "ver (le_lock le) = Some (lease_meta (cm_lease c))"
  shows "seen le c G"
proof -
  have c: "c \<in> set (g_hist G)" using assms(3,4) by simp
  let ?tr = "ler_LeaderTransitions (le_observedRecord le)" and ?leads = "ler_HolderIdentity (le_observedRecord le) = i"
  have "raw_record el c \<noteq> []" by (rule g_ok_commit(3) [OF assms(2) c])
  then obtain c' where c': "c' \<in> set (g_hist G)" "raw_record el c' = raw_record el c" "cm_time c' + el_offset el i \<le> le_observedTime le"
    "cm_transitions c' \<le> ?tr" "?tr \<le> cm_transitions c" "?leads \<longrightarrow> cm_holder c' = i \<or> cm_transitions c' < ?tr"
    using assms(1,4,5) by (auto simp: obs_ok_def)
  have same: "cm_holder c' = cm_holder c" "cm_transitions c' = cm_transitions c"
    using g_ok_raw [OF assms(2) c'(1) c c'(2)] by auto
  then have tr: "?tr = cm_transitions c" using c'(4,5) by simp
  then have leads: "?leads \<longrightarrow> cm_holder c = i" using c'(6) same by auto
  have "ver_ok el i (ver (le_lock le)) (le_observedRecord le) G"
    unfolding ver_ok_def assms(7) using c leads tr by (auto intro!: bexI [of _ c])
  then show ?thesis using assms(1,2,6,7) c c'(1-3) leads by (auto simp: seen_def le_inv_def)
qed

lemma observe_safe:
  assumes "obs_ok el i le G" and "g_ok el G" and "g_hist G \<noteq> []" and "c = last (g_hist G)"
    and "ok (le_lock le)" and "ver (le_lock le) = Some (lease_meta (cm_lease c))"
    and "\<And>le' G'. later el G G' \<Longrightarrow> le_config le' = le_config le \<Longrightarrow> seen le' c G' \<Longrightarrow> safe el i (f le') Q G'"
  shows "safe el i (bind_prog (observe le (cm_record c) (raw_record el c)) f) Q G"
proof (cases "le_observedRawRecord le = raw_record el c")
  case True
  then show ?thesis
    using seen_same [OF assms(1-4) True assms(5,6)] assms(7) [OF later_refl [OF assms(2)]] by (simp add: observe_def)
next
  case False
  have "c \<in> set (g_hist G)" using assms(3,4) by simp
  then show ?thesis
    using False seen_changed [OF _ _ assms(5,6)] assms(7) by (simp add: observe_def setObservedRecord_def)
qed

lemma not_held_allowed:
  assumes "seen le c G" and "\<not> held_by_other lk le (cm_record c) now" and "later el G G'" and "now \<le> g_time G + el_offset el i"
    and "c = last (g_hist G')"
  shows "allowed el (g_hist G') i (g_time G')"
proof -
  have id: "lk_Identity lk (le_lock le) = i" using assms(1) identity by (simp add: seen_def le_inv_def)
  have time: "g_time G \<le> g_time G'" using assms(3) by (simp add: later_def)
  obtain c' where c': "c' \<in> set (g_hist G')" "raw_record el c' = raw_record el c" "cm_time c' + el_offset el i \<le> le_observedTime le"
    using assms(1) later_mem [OF assms(3)] by (auto simp: seen_def)
  consider "cm_holder c = ''''" | "le_observedTime le + cm_duration c \<le> now" | "ler_HolderIdentity (le_observedRecord le) = i"
    using assms(2) id by (auto simp: held_by_other_def le_IsLeader_def getObservedRecord_def cm_duration_def)
  then show ?thesis
  proof cases
    case 2
    then have "cm_time c' + cm_duration c \<le> g_time G'" using c'(3) time assms(4) by linarith
    then show ?thesis unfolding allowed_def using c'(1,2) assms(5) by auto
  qed (use assms(1,5) in \<open>auto simp: allowed_def seen_def\<close>)
qed

text \<open>The record that is written after a read counts.\<close>

lemma corrected_counts:
  assumes "seen le c G" and "ler_HolderIdentity rec = i" and "ler_LeaderTransitions rec = 0"
  shows "counts c (ler_HolderIdentity (corrected_record lk le (cm_record c) rec)) (ler_LeaderTransitions (corrected_record lk le (cm_record c) rec))"
proof -
  have id: "lk_Identity lk (le_lock le) = i" using assms(1) identity by (simp add: seen_def le_inv_def)
  have "chain (g_hist G)" "c \<in> set (g_hist G)" "length (g_hist G) < 2 ^ 31" using assms(1) by (auto simp: seen_def g_ok_def base_ok_def)
  note b = chain_bounds(1,2) [OF this(1,2)]
  have "int (length (g_hist G)) < 2147483648" using \<open>length (g_hist G) < 2 ^ 31\<close> by simp
  then have "wrap64 (cm_transitions c + 1) = cm_transitions c + 1" using b by (intro wrap64_id) simp_all
  then show ?thesis
    using assms id by (auto simp: corrected_record_def counts_def le_IsLeader_def getObservedRecord_def seen_def)
qed

lemma after_get_error_safe:
  assumes "le_inv (le, b) G" and "ler_LeaderTransitions rec = 0"
  shows "safe el i (after_get lk le rec now (Inl e)) le_inv G"
  using assms create_safe [OF assms] by (simp add: after_get_def le_inv_def)

lemma after_get_safe:
  assumes obs: "obs_ok el i le G" and G: "g_ok el G" "g_hist G \<noteq> []" and c: "c = last (g_hist G)"
    and lock: "ok (le_lock le)" "ver (le_lock le) = Some (lease_meta (cm_lease c))" and now: "now \<le> g_time G + el_offset el i"
    and rec: "ler_HolderIdentity rec = i" "ler_LeaderTransitions rec = 0"
  shows "safe el i (after_get lk le rec now (Inr (cm_record c, raw_record el c))) le_inv G"
  unfolding after_get_def sum.case prod.case Let_def
proof (rule observe_safe [OF obs G c lock])
  fix le' G' assume G': "later el G G'" and seen: "seen le' c G'"
  have now': "now \<le> g_time G' + el_offset el i" using now G' by (simp add: later_def)
  have facts: "le_inv (le', False) G'" "g_ok el G'" "ver (le_lock le') = Some (lease_meta (cm_lease c))" "c \<in> set (g_hist G')"
    using seen by (simp_all add: seen_def)
  let ?rec = "corrected_record lk le' (cm_record c) rec"
  have "safe el i (bind_prog (lk_Update lk (le_lock le') ?rec) (note_written le' ?rec)) le_inv G'"
    if free: "\<not> held_by_other lk le' (cm_record c) now"
  proof (rule update_safe [OF facts(1,2)])
    fix G2 c' assume G2: "later el G' G2" and c': "c' \<in> set (g_hist G2)" "c' = last (g_hist G2)"
      and v: "ver (le_lock le') = Some (lease_meta (cm_lease c'))"
    have "c = c'" using version_unique [OF G2 facts(4) c'(1)] facts(3) v by simp
    then show "allowed el (g_hist G2) i (g_time G2) \<and> counts c' (ler_HolderIdentity ?rec) (ler_LeaderTransitions ?rec)"
      using not_held_allowed [OF seen free G2 now'] corrected_counts [OF seen rec] c'(2) by simp
  qed
  then show "safe el i (if held_by_other lk le' (cm_record c) now then Return (le', False)
      else bind_prog (lk_Update lk (le_lock le') ?rec) (note_written le' ?rec)) le_inv G'"
    using facts(1) by simp
qed

lemma attempt_safe:
  assumes le: "le_inv (le, b) G"
  shows "safe el i (tryAcquireOrRenew lk le) le_inv G"
  unfolding tryAcquireOrRenew_def safe.simps Let_def safe_bind
proof (intro allI impI, rule get_law)
  fix G1 assume G1: "later el G G1"
  show "ok (le_lock le)" using le by (simp add: le_inv_def)
  let ?now = "g_time G1 + el_offset el i"
  show "safe el i (case (le_lock le, Inl e) of (l, r) \<Rightarrow> after_get lk (le\<lparr>le_lock := l\<rparr>) (wanted_record lk le ?now) ?now r) le_inv G2"
    if G2: "later el G1 G2" for G2 e
  proof -
    have "le_inv (le, b) G2" using le le_inv_stable later_trans [OF G1 G2] by (auto simp: stable_def)
    then show ?thesis using after_get_error_safe [of le b G2 "wanted_record lk le ?now"] by (simp add: wanted_record_def)
  qed
  fix G2 l' assume G2: "later el G1 G2" "g_hist G2 \<noteq> []" "ok l'" "ver l' = Some (lease_meta (cm_lease (last (g_hist G2))))"
  let ?c = "last (g_hist G2)"
  have wanted: "ler_HolderIdentity (wanted_record lk le ?now) = i" "ler_LeaderTransitions (wanted_record lk le ?now) = 0"
    using le identity by (simp_all add: wanted_record_def le_inv_def)
  have "obs_ok el i le G" using le by (simp add: le_inv_def)
  then have "obs_ok el i le G2" by (rule obs_ok_later [OF _ later_trans [OF G1 G2(1)]])
  then have "obs_ok el i (le\<lparr>le_lock := l'\<rparr>) G2" by (simp add: obs_ok_def)
  moreover have "?now \<le> g_time G2 + el_offset el i" using G2(1) by (simp add: later_def)
  ultimately show "safe el i (case (l', Inr (cm_record ?c, raw_record el ?c)) of (l, r) \<Rightarrow>
      after_get lk (le\<lparr>le_lock := l\<rparr>) (wanted_record lk le ?now) ?now r) le_inv G2"
    using after_get_safe [OF _ later_ok [OF G2(1)] G2(2) refl, of "le\<lparr>le_lock := l'\<rparr>" ?now "wanted_record lk le ?now"] G2(3,4) wanted by simp
qed

lemma release_safe:
  assumes le: "le_inv (le, b) G"
  shows "safe el i (le_release lk le) le_inv G"
proof (cases "le_IsLeader lk le")
  case True
  have leads: "ler_HolderIdentity (le_observedRecord le) = i"
    using True le identity by (simp add: le_IsLeader_def getObservedRecord_def le_inv_def)
  have "safe el i (bind_prog (lk_Update lk (le_lock le) rec) (note_written le rec)) le_inv G1"
    if G1: "later el G G1" and rec: "ler_HolderIdentity rec = ''''" "ler_LeaderTransitions rec = ler_LeaderTransitions (le_observedRecord le)" for G1 rec
  proof -
    have inv: "le_inv (le, b) G1" using le le_inv_stable G1 by (auto simp: stable_def)
    show ?thesis
      by (rule update_own_safe [OF inv later_ok [OF G1] leads rec])
  qed
  then show ?thesis using True by (simp add: le_release_def Let_def)
next
  case False
  then show ?thesis using le by (simp add: le_release_def le_inv_def)
qed

lemma le_inv_report: "le_inv (le, b) G \<Longrightarrow> maybeReportTransition le = (le', r) \<Longrightarrow> le_inv (le', b') G"
  by (auto simp: maybeReportTransition_def Let_def le_inv_def obs_ok_def split: if_splits)

lemma le_inv_flag: "le_inv (le, b) G \<Longrightarrow> le_inv (le, b') G"
  by (simp add: le_inv_def)

abbreviation run_inv :: "'l LeaderElector \<times> 'x \<times> 'y \<Rightarrow> 'm ghost \<Rightarrow> bool" where
  "run_inv r G \<equiv> le_inv (fst r, False) G"

lemma acquire_safe: "le_inv (le, b) G \<Longrightarrow> safe el i (le_acquire lk looks le calls) run_inv G"
proof (induction looks arbitrary: le b calls G)
  case (Cons stopped looks)
  have "safe el i (let (le, r) = maybeReportTransition le1; calls = calls @ reported r
      in if ok then Return (le, Some True, calls) else le_acquire lk looks le calls) run_inv G'" if "le_inv (le1, ok) G'" for le1 ok G'
    using le_inv_report [OF that] Cons.IH by (auto simp: Let_def split: prod.split)
  then show ?case
    using Cons.prems safe_mono [OF attempt_safe [OF Cons.prems]] by (auto simp: safe_bind case_prod_beta le_inv_flag)
qed (simp add: le_inv_def)

lemma poll_safe: "le_inv (le, b) G \<Longrightarrow> safe el i (le_poll lk looks le) (\<lambda>r. le_inv (fst r, False)) G"
proof (induction looks arbitrary: le b G)
  case Nil
  show ?case unfolding le_poll.simps [of _ "[]"] safe_bind
    by (rule safe_mono [OF attempt_safe [OF Nil]]) (auto intro: le_inv_flag)
next
  case (Cons stopped looks)
  show ?case unfolding le_poll.simps [of _ "stopped # looks"] safe_bind
    by (rule safe_mono [OF attempt_safe [OF Cons.prems]]) (auto intro: le_inv_flag Cons.IH)
qed

lemma renew_loop_safe: "le_inv (le, b) G \<Longrightarrow> safe el i (le_renew_loop lk rounds le calls) run_inv G"
proof (induction rounds arbitrary: le b calls G)
  case (Cons round rounds)
  obtain stopped looks where round: "round = (stopped, looks)" by (cases round)
  have body: "safe el i (case renewed of None \<Rightarrow> Return (le1, None, calls)
      | Some ok \<Rightarrow> let (le, r) = maybeReportTransition le1; calls = calls @ reported r
          in if ok then le_renew_loop lk rounds le calls else Return (le, Some (), calls)) run_inv G'" if "le_inv (le1, False) G'" for le1 renewed G'
    using le_inv_report [OF that] that Cons.IH by (auto simp: Let_def split: prod.split option.split)
  show ?case
  proof (cases stopped)
    case False
    have "safe el i (le_poll lk looks le) (\<lambda>r. safe el i (case r of (le1, renewed) \<Rightarrow> (case renewed of None \<Rightarrow> Return (le1, None, calls)
      | Some ok \<Rightarrow> let (le, r) = maybeReportTransition le1; calls = calls @ reported r
          in if ok then le_renew_loop lk rounds le calls else Return (le, Some (), calls))) run_inv) G"
      by (rule safe_mono [OF poll_safe [OF Cons.prems]]) (use body in \<open>simp only: split_paired_all fst_conv prod.case\<close>)
    then show ?thesis using False unfolding round le_renew_loop.simps by (simp only: if_False safe_bind)
  qed (use Cons.prems in \<open>simp add: round le_inv_def\<close>)
qed (simp add: le_inv_def)

lemma renew_safe:
  assumes "le_inv (le, b) G"
  shows "safe el i (le_renew lk rounds le calls) run_inv G"
proof -
  have "safe el i (bind_prog (le_release lk le1) (\<lambda>(le, _). Return (le, ended, calls1))) run_inv G'" if "le_inv (le1, False) G'" for le1 ended calls1 G'
    unfolding safe_bind by (rule safe_mono [OF release_safe [OF that]]) (auto intro: le_inv_flag)
  then show ?thesis
    unfolding le_renew_def safe_bind [of _ _ "le_renew_loop lk rounds le calls"]
    by (intro safe_mono [OF renew_loop_safe [OF assms]]) auto
qed

lemma Run_safe:
  assumes "le_inv (le, b) G"
  shows "safe el i (bind_prog (le_Run lk looks rounds le) (\<lambda>(le, _, _). Return (le, False))) le_inv G"
proof -
  have led: "safe el i (le_renew lk rounds le1 calls) (\<lambda>r. safe el i (case r of (le, ended, calls) \<Rightarrow>
      Return (le, ended, if ended = None then calls else calls @ [DirectCall OnStoppedLeading])) run_inv) G'" if "le_inv (le1, False) G'" for le1 calls G'
    by (rule safe_mono [OF renew_safe [OF that]]) auto
  have "safe el i (le_Run lk looks rounds le) run_inv G"
    unfolding le_Run_def safe_bind [of _ _ "le_acquire lk looks le []"]
    by (rule safe_mono [OF acquire_safe [OF assms]]) (auto simp: safe_bind led split: option.split bool.split)
  then show ?thesis unfolding safe_bind by (rule safe_mono) auto
qed

end

section \<open>LeaseLock has the contract\<close>

lemma raw_record_marshal: "raw_record el c \<noteq> [] \<Longrightarrow> el_marshal el (cm_record c) = Inr (raw_record el c)"
  by (simp add: raw_record_def split: sum.splits)

interpretation ll: resource_lock el i "lease_lock (el_marshal el)" "\<lambda>l. map_option lease_meta (ll_lease l)" "\<lambda>l. ll_Identity l = i \<and> i \<noteq> ''''"
proof unfold_locales
  fix l :: "'a LeaseLock"
  show "ll_Identity l = i \<and> i \<noteq> '''' \<Longrightarrow> lk_Identity (lease_lock (el_marshal el)) l = i" by (simp add: lease_lock_def)
  show "ll_Identity l = i \<and> i \<noteq> '''' \<Longrightarrow> i \<noteq> ''''" by simp
next
  fix l :: "'a LeaseLock" and G :: "'a ghost" and R :: "'a LeaseLock \<times> (lock_err + LeaderElectionRecord \<times> bytes) \<Rightarrow> 'a ghost \<Rightarrow> bool"
  assume id: "ll_Identity l = i \<and> i \<noteq> ''''"
    and err: "\<And>G' e. later el G G' \<Longrightarrow> R (l, Inl e) G'"
    and got: "\<And>G' l'. later el G G' \<Longrightarrow> g_hist G' \<noteq> [] \<Longrightarrow> ll_Identity l' = i \<and> i \<noteq> '''' \<Longrightarrow>
      map_option lease_meta (ll_lease l') = Some (lease_meta (cm_lease (last (g_hist G')))) \<Longrightarrow>
      R (l', Inr (cm_record (last (g_hist G')), raw_record el (last (g_hist G')))) G'"
  have "el_marshal el (cm_record (last (g_hist G'))) = Inr (raw_record el (last (g_hist G')))"
    if "later el G G'" "g_hist G' \<noteq> []" for G'
    using that later_ok [OF that(1)] by (intro raw_record_marshal) (auto simp: g_ok_def base_ok_def)
  then show "safe el i (lk_Get (lease_lock (el_marshal el)) l) R G"
    using err got id by (auto simp: lease_lock_def LeaseLock_Get_def Let_def cm_record_def)
next
  fix l :: "'a LeaseLock" and G :: "'a ghost" and Q :: "'a LeaseLock \<times> lock_err option \<Rightarrow> 'a ghost \<Rightarrow> bool" and r
  assume id: "ll_Identity l = i \<and> i \<noteq> ''''"
    and err: "\<And>G' l' e. later el G G' \<Longrightarrow> ll_Identity l' = i \<and> i \<noteq> '''' \<Longrightarrow> map_option lease_meta (ll_lease l') = Some (el_zero el) \<Longrightarrow> Q (l', Some e) G'"
    and made: "\<And>G' lease l'. later el G G' \<Longrightarrow> g_hist G' = [] \<Longrightarrow> written (LeaderElectionRecordToLeaseSpec r) lease \<Longrightarrow>
      later el G' (commits G' i lease) \<Longrightarrow> ll_Identity l' = i \<and> i \<noteq> '''' \<Longrightarrow> map_option lease_meta (ll_lease l') = Some (lease_meta lease) \<Longrightarrow>
      Q (l', None) (commits G' i lease)"
    and tr: "ler_LeaderTransitions r = 0"
  have zero: "ler_LeaderTransitions (lease_record lease) = 0" if "written (LeaderElectionRecordToLeaseSpec r) lease" for lease :: "'a Lease"
    using written_record [OF that] tr by (simp add: wrap32_def)
  have commit: "later el G' (commits G' i lease)"
    if "later el G G'" "g_hist G' = []" "written (LeaderElectionRecordToLeaseSpec r) lease" "base_ok el (commits G' i lease)" for G' lease
    by (rule commits_later [OF later_ok [OF that(1)] that(4)]) (use that(2) zero [OF that(3)] in auto)
  show "safe el i (lk_Create (lease_lock (el_marshal el)) l r) Q G"
  proof -
    have e: "Q (l\<lparr>ll_lease := Some l'\<rparr>, Some e) G'" if "later el G G'" "lease_meta l' = el_zero el" for G' l' e
      using err [OF that(1), of "l\<lparr>ll_lease := Some l'\<rparr>"] id that(2) by simp
    have m: "Q (l\<lparr>ll_lease := Some lease\<rparr>, None) (commits G' i lease)"
      if "later el G G'" "g_hist G' = []" "written (LeaderElectionRecordToLeaseSpec r) lease" "base_ok el (commits G' i lease)" for G' lease
      using made [OF that(1-3) commit [OF that], of "l\<lparr>ll_lease := Some lease\<rparr>"] id by simp
    have "later el G (commits G' i lease)"
      if "later el G G'" "g_hist G' = []" "written (LeaderElectionRecordToLeaseSpec r) lease" "base_ok el (commits G' i lease)" for G' lease
      by (rule later_trans [OF that(1) commit [OF that]])
    then show ?thesis using m zero by (auto simp: lease_lock_def LeaseLock_Create_def intro: e)
  qed
next
  fix l :: "'a LeaseLock" and G :: "'a ghost" and Q :: "'a LeaseLock \<times> lock_err option \<Rightarrow> 'a ghost \<Rightarrow> bool" and r
  assume id: "ll_Identity l = i \<and> i \<noteq> ''''" and "g_ok el G"
    and err: "\<And>G' l' e. later el G G' \<Longrightarrow> ll_Identity l' = i \<and> i \<noteq> '''' \<Longrightarrow> map_option lease_meta (ll_lease l') = map_option lease_meta (ll_lease l) \<Longrightarrow> Q (l', Some e) G'"
    and made: "\<And>G' lease l'. later el G G' \<Longrightarrow> g_hist G' \<noteq> [] \<Longrightarrow>
      map_option lease_meta (ll_lease l) = Some (lease_meta (cm_lease (last (g_hist G')))) \<Longrightarrow>
      written (LeaderElectionRecordToLeaseSpec r) lease \<Longrightarrow> base_ok el (commits G' i lease) \<Longrightarrow> ll_Identity l' = i \<and> i \<noteq> '''' \<Longrightarrow>
      map_option lease_meta (ll_lease l') = Some (lease_meta lease) \<Longrightarrow>
      may_update el G' i lease \<and> Q (l', None) (commits G' i lease)"
  show "safe el i (lk_Update (lease_lock (el_marshal el)) l r) Q G"
  proof (cases "ll_lease l")
    case None
    then show ?thesis using err [OF later_refl [OF \<open>g_ok el G\<close>]] id by (simp add: lease_lock_def LeaseLock_Update_def)
  next
    case (Some lease)
    let ?lease = "lease\<lparr>lease_Spec := LeaderElectionRecordToLeaseSpec r\<rparr>"
    have e: "Q (l\<lparr>ll_lease := Some ?lease\<rparr>, Some e) G'" if "later el G G'" for G' e
      using err [OF that, of "l\<lparr>ll_lease := Some ?lease\<rparr>"] Some id by simp
    have m: "may_update el G' i l' \<and> Q (l\<lparr>ll_lease := Some l'\<rparr>, None) (commits G' i l')"
      if "later el G G'" "g_hist G' \<noteq> []" "lease_meta (cm_lease (last (g_hist G'))) = lease_meta lease"
        "written (LeaderElectionRecordToLeaseSpec r) l'" "base_ok el (commits G' i l')" for G' l'
      using made [OF that(1,2) _ that(4,5), of "l\<lparr>ll_lease := Some l'\<rparr>"] Some id that(3) by simp
    have commit: "later el G (commits G' i l')"
      if "later el G G'" "g_hist G' \<noteq> []" "base_ok el (commits G' i l')" "may_update el G' i l'" for G' l'
      by (rule later_trans [OF that(1) commits_later [OF later_ok [OF that(1)] that(3)]]) (use that(2,4) in \<open>auto simp: may_update_def\<close>)
    show ?thesis
      using m commit by (auto simp: lease_lock_def LeaseLock_Update_def Some Let_def intro: e)
  qed
qed

section \<open>The invariant of the system\<close>

definition ghost_of :: "('s, 'm) esys \<Rightarrow> 'm ghost" where
  "ghost_of s = \<lparr>g_time = es_time s, g_hist = es_hist s\<rparr>"

text \<open>The writes are what the server stored, in order, each with its own version.\<close>

definition hist_ok :: "('s, 'm) lease_server \<Rightarrow> 's \<Rightarrow> int \<Rightarrow> 'm commit list \<Rightarrow> bool" where
  "hist_ok sv srv t hist \<longleftrightarrow>
     sv_store sv srv = (if hist = [] then None else Some (cm_lease (last hist))) \<and>
     distinct (map (\<lambda>c. lease_meta (cm_lease c)) hist) \<and>
     (\<forall>c \<in> set hist. lease_meta (cm_lease c) \<in> sv_versions sv srv \<and> cm_time c \<le> t)"

text \<open>
  \<open>json.Marshal\<close> of a record: it does not fail, and the holder and the count of transitions can be read back. Nothing is said of the times, which the
  encoding has in whole seconds.
\<close>

definition marshal_ok :: "marshal \<Rightarrow> bool" where
  "marshal_ok marshal \<longleftrightarrow> (\<forall>r. \<exists>b. marshal r = Inr b \<and> b \<noteq> []) \<and>
     (\<forall>r r'. marshal r = marshal r' \<longrightarrow>
        ler_HolderIdentity r = ler_HolderIdentity r' \<and> ler_LeaderTransitions r = ler_LeaderTransitions r')"

definition sys_ok :: "'m election \<Rightarrow> ('s, 'm) lease_server \<Rightarrow> string set \<Rightarrow> ('s, 'm) esys \<Rightarrow> bool" where
  "sys_ok el sv cands s \<longleftrightarrow> hist_ok sv (es_server s) (es_time s) (es_hist s) \<and>
     (length (es_hist s) < 2 ^ 31 \<longrightarrow>
        chain (es_hist s) \<and> lease_respected el (es_hist s) \<and> (\<forall>i \<in> cands. safe el i (es_procs s i) (ll.le_inv el i) (ghost_of s)))"

lemma ghost_of_fields [simp]: "g_time (ghost_of s) = es_time s" "g_hist (ghost_of s) = es_hist s"
  by (simp_all add: ghost_of_def)

lemma hist_ok_base_ok:
  assumes "hist_ok sv (es_server s) (es_time s) (es_hist s)" and "length (es_hist s) < 2 ^ 31"
    and "optimistic_server (el_zero el) sv" and "marshal_ok (el_marshal el)"
  shows "base_ok el (ghost_of s)"
proof -
  have raw: "raw_record el c \<noteq> []" for c
    using assms(4) unfolding marshal_ok_def raw_record_def by (metis sum.simps(6))
  have "cm_holder c = cm_holder c' \<and> cm_transitions c = cm_transitions c'" if "raw_record el c = raw_record el c'" for c c'
    using assms(4) raw_record_marshal [OF raw] that unfolding marshal_ok_def by metis
  moreover have "cm_time c \<le> es_time s \<and> lease_meta (cm_lease c) \<noteq> el_zero el" if "c \<in> set (es_hist s)" for c
    using assms(1,3) that unfolding hist_ok_def optimistic_server_def by metis
  moreover have "distinct (map (\<lambda>c. lease_meta (cm_lease c)) (es_hist s))" using assms(1) by (simp add: hist_ok_def)
  ultimately show ?thesis unfolding base_ok_def ghost_of_fields using raw assms(2) by blast
qed

lemma hist_ok_mono: "hist_ok sv srv t hist \<Longrightarrow> t \<le> t' \<Longrightarrow> hist_ok sv srv t' hist"
  by (force simp: hist_ok_def)

lemma hist_ok_nothing:
  assumes "hist_ok sv srv t hist" and "stores_nothing sv srv srv'"
  shows "hist_ok sv srv' t hist" "logged sv i t srv srv' hist = hist"
  using assms by (auto simp: hist_ok_def stores_nothing_def logged_def split: option.split)

lemma hist_ok_new:
  assumes "hist_ok sv srv t hist" and "stores_new sv srv spec srv' l" and "optimistic_server zero sv"
  shows "logged sv i t srv srv' hist = hist @ [\<lparr>cm_writer = i, cm_lease = l, cm_time = t\<rparr>]"
    "hist_ok sv srv' t (hist @ [\<lparr>cm_writer = i, cm_lease = l, cm_time = t\<rparr>])"
proof -
  have "sv_store sv srv \<noteq> Some l"
    using assms(2,3) by (auto simp: stores_new_def optimistic_server_def)
  then show "logged sv i t srv srv' hist = hist @ [\<lparr>cm_writer = i, cm_lease = l, cm_time = t\<rparr>]"
    using assms(2) by (simp add: logged_def stores_new_def)
  show "hist_ok sv srv' t (hist @ [\<lparr>cm_writer = i, cm_lease = l, cm_time = t\<rparr>])"
    using assms(1,2) by (auto simp: hist_ok_def stores_new_def)
qed



text \<open>One candidate moves: the others stay safe, and it has to be.\<close>

lemma sys_ok_move:
  assumes ok: "sys_ok el sv cands s" and sv: "optimistic_server (el_zero el) sv" and marshal: "marshal_ok (el_marshal el)"
    and s': "s' = s\<lparr>es_server := srv, es_time := t, es_procs := (es_procs s)(i := p), es_hist := hist\<rparr>"
    and hist: "es_time s \<le> t" "hist_ok sv srv t hist" "prefix (es_hist s) hist"
    and mine: "g_ok el (ghost_of s) \<Longrightarrow> base_ok el (ghost_of s') \<Longrightarrow> lease_respected el (es_hist s) \<Longrightarrow>
      (i \<in> cands \<Longrightarrow> safe el i (es_procs s i) (ll.le_inv el i) (ghost_of s)) \<Longrightarrow>
      chain hist \<and> lease_respected el hist \<and> (i \<in> cands \<longrightarrow> safe el i p (ll.le_inv el i) (ghost_of s'))"
  shows "sys_ok el sv cands s'"
proof -
  have hist': "hist_ok sv (es_server s') (es_time s') (es_hist s')" using hist(2) s' by simp
  have "chain (es_hist s') \<and> lease_respected el (es_hist s') \<and> (\<forall>j \<in> cands. safe el j (es_procs s' j) (ll.le_inv el j) (ghost_of s'))"
    if d': "length (es_hist s') < 2 ^ 31"
  proof -
    have d: "length (es_hist s) < 2 ^ 31" using d' hist(3) s' by (auto simp: prefix_def)
    then have g: "g_ok el (ghost_of s)"
      using hist_ok_base_ok [OF _ d sv marshal] ok by (simp add: sys_ok_def g_ok_def)
    have base: "base_ok el (ghost_of s')" by (rule hist_ok_base_ok [OF hist' d' sv marshal])
    have safe: "safe el j (es_procs s j) (ll.le_inv el j) (ghost_of s)" if "j \<in> cands" for j
      using ok d that by (simp add: sys_ok_def)
    have m: "chain hist \<and> lease_respected el hist \<and> (i \<in> cands \<longrightarrow> safe el i p (ll.le_inv el i) (ghost_of s'))"
      using mine [OF g base _ safe] ok d by (simp add: sys_ok_def)
    then have "g_ok el (ghost_of s')" using base s' by (simp add: g_ok_def)
    then have later: "later el (ghost_of s) (ghost_of s')" using hist s' by (simp add: later_def)
    have "safe el j (es_procs s j) (ll.le_inv el j) (ghost_of s')" if "j \<in> cands" for j
      by (rule safe_later [OF safe [OF that] later ll.le_inv_stable])
    then show ?thesis using m s' by auto
  qed
  then show ?thesis using hist' by (simp add: sys_ok_def)
qed

lemma sys_ok_pure:
  assumes "sys_ok el sv cands s" and "optimistic_server (el_zero el) sv" and "marshal_ok (el_marshal el)"
    and "i \<in> cands \<Longrightarrow> g_ok el (ghost_of s) \<Longrightarrow> safe el i (es_procs s i) (ll.le_inv el i) (ghost_of s) \<Longrightarrow>
      safe el i p (ll.le_inv el i) (ghost_of s)"
  shows "sys_ok el sv cands (s\<lparr>es_procs := (es_procs s)(i := p)\<rparr>)"
proof (rule sys_ok_move [OF assms(1-3), where i = i and p = p and t = "es_time s" and srv = "es_server s" and hist = "es_hist s"])
  show "hist_ok sv (es_server s) (es_time s) (es_hist s)" using assms(1) by (simp add: sys_ok_def)
qed (use assms(4) in \<open>auto simp: ghost_of_def g_ok_def\<close>)

lemma lease_respected_snoc:
  assumes "lease_respected el hist" and "hist \<noteq> [] \<Longrightarrow> allowed el hist (cm_writer c) (cm_time c)"
  shows "lease_respected el (hist @ [c])"
  unfolding lease_respected_def
proof (intro allI impI)
  fix before b after assume split: "hist @ [c] = before @ b # after" and "before \<noteq> []"
  show "allowed el before (cm_writer b) (cm_time b)"
  proof (cases after rule: rev_cases)
    case Nil
    then show ?thesis using split assms(2) \<open>before \<noteq> []\<close> by auto
  next
    case (snoc after' d)
    then have "hist = before @ b # after'" using split by (metis append.assoc append_Cons append1_eq_conv)
    then show ?thesis using assms(1) \<open>before \<noteq> []\<close> unfolding lease_respected_def by blast
  qed
qed

lemma ghost_of_write:
  "ghost_of (s\<lparr>es_server := srv, es_time := es_time s, es_procs := pr,
     es_hist := es_hist s @ [\<lparr>cm_writer = i, cm_lease = l, cm_time = es_time s\<rparr>]\<rparr>) = commits (ghost_of s) i l"
  by (simp add: ghost_of_def commits_def)

text \<open>A call of the server that wrote nothing, and one that did.\<close>

lemma sys_ok_wrote_nothing:
  assumes ok: "sys_ok el sv cands s" and sv: "optimistic_server (el_zero el) sv" and marshal: "marshal_ok (el_marshal el)"
    and "stores_nothing sv (es_server s) srv"
    and "i \<in> cands \<Longrightarrow> g_ok el (ghost_of s) \<Longrightarrow> safe el i (es_procs s i) (ll.le_inv el i) (ghost_of s) \<Longrightarrow>
      safe el i p (ll.le_inv el i) (ghost_of s)"
  shows "sys_ok el sv cands (s\<lparr>es_server := srv, es_procs := (es_procs s)(i := p),
    es_hist := logged sv i (es_time s) (es_server s) srv (es_hist s)\<rparr>)"
proof (rule sys_ok_move [OF ok sv marshal, where i = i and p = p and t = "es_time s" and srv = srv and hist = "es_hist s"])
  have "hist_ok sv (es_server s) (es_time s) (es_hist s)" using ok by (simp add: sys_ok_def)
  note same = hist_ok_nothing [OF this assms(4)]
  show "hist_ok sv srv (es_time s) (es_hist s)" by (rule same)
  show "s\<lparr>es_server := srv, es_procs := (es_procs s)(i := p), es_hist := logged sv i (es_time s) (es_server s) srv (es_hist s)\<rparr> =
    s\<lparr>es_server := srv, es_time := es_time s, es_procs := (es_procs s)(i := p), es_hist := es_hist s\<rparr>"
    unfolding same by simp
  then show "chain (es_hist s) \<and> lease_respected el (es_hist s) \<and> (i \<in> cands \<longrightarrow> safe el i p (ll.le_inv el i)
      (ghost_of (s\<lparr>es_server := srv, es_procs := (es_procs s)(i := p), es_hist := logged sv i (es_time s) (es_server s) srv (es_hist s)\<rparr>)))"
    if "g_ok el (ghost_of s)" "lease_respected el (es_hist s)" "i \<in> cands \<Longrightarrow> safe el i (es_procs s i) (ll.le_inv el i) (ghost_of s)"
    using that assms(5) by (simp add: ghost_of_def g_ok_def)
qed auto

lemma sys_ok_wrote:
  assumes ok: "sys_ok el sv cands s" and sv: "optimistic_server (el_zero el) sv" and marshal: "marshal_ok (el_marshal el)"
    and new: "stores_new sv (es_server s) spec srv l" and i: "i \<in> cands"
    and mine: "g_ok el (ghost_of s) \<Longrightarrow> safe el i (es_procs s i) (ll.le_inv el i) (ghost_of s) \<Longrightarrow>
      base_ok el (commits (ghost_of s) i l) \<Longrightarrow>
      (if es_hist s = [] then ler_LeaderTransitions (lease_record l) = 0 else may_update el (ghost_of s) i l) \<and>
      safe el i p (ll.le_inv el i) (commits (ghost_of s) i l)"
  shows "sys_ok el sv cands (s\<lparr>es_server := srv, es_procs := (es_procs s)(i := p),
    es_hist := logged sv i (es_time s) (es_server s) srv (es_hist s)\<rparr>)"
proof -
  let ?hist = "es_hist s @ [\<lparr>cm_writer = i, cm_lease = l, cm_time = es_time s\<rparr>]"
  have "hist_ok sv (es_server s) (es_time s) (es_hist s)" using ok by (simp add: sys_ok_def)
  note grown = hist_ok_new [OF this new sv, of i]
  let ?s = "s\<lparr>es_server := srv, es_time := es_time s, es_procs := (es_procs s)(i := p), es_hist := ?hist\<rparr>"
  have "sys_ok el sv cands ?s"
  proof (rule sys_ok_move [OF ok sv marshal refl _ grown(2)])
    assume g: "g_ok el (ghost_of s)" and base: "base_ok el (ghost_of ?s)" and resp: "lease_respected el (es_hist s)"
      and "i \<in> cands \<Longrightarrow> safe el i (es_procs s i) (ll.le_inv el i) (ghost_of s)"
    then have m: "if es_hist s = [] then ler_LeaderTransitions (lease_record l) = 0 else may_update el (ghost_of s) i l"
        "safe el i p (ll.le_inv el i) (ghost_of ?s)"
      using mine i unfolding ghost_of_write by blast+
    then have "chain ?hist" using g by (auto simp: chain_snoc g_ok_def may_update_def cm_record_def)
    moreover have "lease_respected el ?hist" using m(1) resp by (auto simp: may_update_def intro!: lease_respected_snoc)
    ultimately show "chain ?hist \<and> lease_respected el ?hist \<and> (i \<in> cands \<longrightarrow> safe el i p (ll.le_inv el i) (ghost_of ?s))"
      using m(2) by simp
  qed auto
  moreover have "s\<lparr>es_server := srv, es_procs := (es_procs s)(i := p), es_hist := logged sv i (es_time s) (es_server s) srv (es_hist s)\<rparr> = ?s"
    unfolding grown by simp
  ultimately show ?thesis by simp
qed

lemma NewLeaderElector_Inr:
  assumes "NewLeaderElector jitter lk lec = Inr le"
  shows "lec_Lock lec = Some (le_lock le)" "le_config le = lec" "le_observedRawRecord le = []" "lk_Identity lk (le_lock le) \<noteq> ''''"
    "lec_RenewDeadline lec < lec_LeaseDuration lec" "jitter (lec_RetryPeriod lec) < lec_RenewDeadline lec"
    "1 \<le> lec_RetryPeriod lec"
  using assms by (auto simp: NewLeaderElector_def split: if_splits option.splits)

lemma lk_Identity_lease_lock: "lk_Identity (lease_lock marshal) l = ll_Identity l"
  by (simp add: lease_lock_def)

lemma start_safe:
  assumes "candidates_ok el jitter cfg start cands" and "i \<in> cands"
  shows "ll.le_inv el i (start i, b) G"
proof -
  have new: "NewLeaderElector jitter (lease_lock (el_marshal el)) (cfg i) = Inr (start i)"
    and "lec_Lock (cfg i) = Some \<lparr>ll_name = el_name el, ll_Identity = i, ll_lease = None\<rparr>"
    using assms by (auto simp: candidates_ok_def)
  then show ?thesis
    using NewLeaderElector_Inr [OF new] unfolding ll.le_inv_def by (auto simp: obs_ok_def ver_ok_def lk_Identity_lease_lock)
qed

lemma maybeReport_safe: "ll.le_inv el i (fst (maybeReportTransition le), b) G = ll.le_inv el i (le, b') G"
  by (simp add: maybeReportTransition_def Let_def ll.le_inv_def obs_ok_def)

lemma create_cases:
  assumes "optimistic_server zero sv" and "sv_create sv s spec s' (l, err)"
  obtains e where "stores_nothing sv s s'" "err = Some e" "lease_meta l = zero"
  | l' where "sv_store sv s = None" "stores_new sv s spec s' l'" "err = None" "l = l'"
  | l' e where "sv_store sv s = None" "stores_new sv s spec s' l'" "err = Some e" "lease_meta l = zero"
  using assms unfolding optimistic_server_def by (metis not_Some_eq)

lemma update_cases:
  assumes "optimistic_server zero sv" and "sv_update sv s l s' r"
  obtains e where "stores_nothing sv s s'" "r = Inl e"
  | cur l' where "sv_store sv s = Some cur" "lease_meta cur = lease_meta l" "stores_new sv s (lease_Spec l) s' l'" "r = Inr l' \<or> (\<exists>e. r = Inl e)"
  using assms unfolding optimistic_server_def by metis

lemma sys_ok_create:
  assumes ok: "sys_ok el sv cands s" and sv: "optimistic_server (el_zero el) sv" and marshal: "marshal_ok (el_marshal el)"
    and i: "i \<in> cands" and proc: "es_procs s i = LeaseCreate n spec k" and call: "sv_create sv (es_server s) spec srv r"
  shows "sys_ok el sv cands (s\<lparr>es_server := srv, es_procs := (es_procs s)(i := k r),
    es_hist := logged sv i (es_time s) (es_server s) srv (es_hist s)\<rparr>)"
proof -
  obtain l err where r: "r = (l, err)" by (cases r)
  have empty: "es_hist s = []" if "sv_store sv (es_server s) = None"
    using ok that by (auto simp: sys_ok_def hist_ok_def split: if_splits)
  show ?thesis using sv call [unfolded r]
  proof (cases rule: create_cases)
    case (1 e)
    then show ?thesis
      by (intro sys_ok_wrote_nothing [OF ok sv marshal]) (auto simp: proc r later_refl)
  next
    case (2 l')
    then have "written spec l'" by (simp add: stores_new_def)
    then have "(if es_hist s = [] then ler_LeaderTransitions (lease_record l') = 0 else may_update el (ghost_of s) i l') \<and>
        safe el i (k r) (ll.le_inv el i) (commits (ghost_of s) i l')"
      if "g_ok el (ghost_of s)" "safe el i (es_procs s i) (ll.le_inv el i) (ghost_of s)" "base_ok el (commits (ghost_of s) i l')"
      using that empty [OF 2(1)] later_refl [OF that(1)] unfolding proc safe.simps r 2(3,4) by simp
    then show ?thesis by (rule sys_ok_wrote [OF ok sv marshal 2(2) i])
  next
    case (3 l' e)
    then have "written spec l'" by (simp add: stores_new_def)
    then have "(if es_hist s = [] then ler_LeaderTransitions (lease_record l') = 0 else may_update el (ghost_of s) i l') \<and>
        safe el i (k r) (ll.le_inv el i) (commits (ghost_of s) i l')"
      if "g_ok el (ghost_of s)" "safe el i (es_procs s i) (ll.le_inv el i) (ghost_of s)" "base_ok el (commits (ghost_of s) i l')"
      using that empty [OF 3(1)] later_refl [OF that(1)] 3(4) unfolding proc safe.simps r 3(3) by simp
    then show ?thesis by (rule sys_ok_wrote [OF ok sv marshal 3(2) i])
  qed
qed

lemma sys_ok_update:
  assumes ok: "sys_ok el sv cands s" and sv: "optimistic_server (el_zero el) sv" and marshal: "marshal_ok (el_marshal el)"
    and i: "i \<in> cands" and proc: "es_procs s i = LeaseUpdate n l k" and call: "sv_update sv (es_server s) l srv r"
  shows "sys_ok el sv cands (s\<lparr>es_server := srv, es_procs := (es_procs s)(i := k r),
    es_hist := logged sv i (es_time s) (es_server s) srv (es_hist s)\<rparr>)"
  using sv call
proof (cases rule: update_cases)
  case (1 e)
  then show ?thesis by (intro sys_ok_wrote_nothing [OF ok sv marshal]) (auto simp: proc later_refl)
next
  case (2 cur l')
  have "es_hist s \<noteq> [] \<and> cm_lease (last (es_hist s)) = cur"
    using ok 2(1) by (auto simp: sys_ok_def hist_ok_def split: if_splits)
  moreover have "written (lease_Spec l) l'" using 2(3) by (simp add: stores_new_def)
  ultimately have "(if es_hist s = [] then ler_LeaderTransitions (lease_record l') = 0 else may_update el (ghost_of s) i l') \<and>
      safe el i (k r) (ll.le_inv el i) (commits (ghost_of s) i l')"
    if "g_ok el (ghost_of s)" "safe el i (es_procs s i) (ll.le_inv el i) (ghost_of s)" "base_ok el (commits (ghost_of s) i l')"
    using that 2(2,4) later_refl [OF that(1)] unfolding proc safe.simps by fastforce
  then show ?thesis by (rule sys_ok_wrote [OF ok sv marshal 2(3) i])
qed

lemma es_step_ok:
  assumes "es_step el sv start cands s s'" and ok: "sys_ok el sv cands s" and sv: "optimistic_server (el_zero el) sv"
    and marshal: "marshal_ok (el_marshal el)" and cands: "candidates_ok el jitter cfg start cands"
  shows "sys_ok el sv cands s'"
  using assms(1)
proof (cases rule: es_step.cases)
  case (passes t)
  have "sys_ok el sv cands (s\<lparr>es_server := es_server s, es_time := t, es_procs := (es_procs s)(undefined := es_procs s undefined), es_hist := es_hist s\<rparr>)"
  proof (rule sys_ok_move [OF ok sv marshal refl passes(2)])
    show "hist_ok sv (es_server s) t (es_hist s)" using ok passes(2) by (auto simp: sys_ok_def intro: hist_ok_mono)
    let ?s = "s\<lparr>es_server := es_server s, es_time := t, es_procs := (es_procs s)(undefined := es_procs s undefined), es_hist := es_hist s\<rparr>"
    assume g: "g_ok el (ghost_of s)" and base: "base_ok el (ghost_of ?s)" and resp: "lease_respected el (es_hist s)"
      and safe: "undefined \<in> cands \<Longrightarrow> safe el undefined (es_procs s undefined) (ll.le_inv el undefined) (ghost_of s)"
    have ch: "chain (es_hist s)" using g by (simp add: g_ok_def)
    have "later el (ghost_of s) (ghost_of ?s)" using base ch passes(2) by (simp add: later_def g_ok_def)
    then show "chain (es_hist s) \<and> lease_respected el (es_hist s) \<and>
        (undefined \<in> cands \<longrightarrow> safe el undefined (es_procs s undefined) (ll.le_inv el undefined) (ghost_of ?s))"
      using safe_later [OF safe _ ll.le_inv_stable] resp ch by blast
  qed simp
  then show ?thesis using passes(1) by simp
next
  case (clock i k)
  then show ?thesis using later_refl [of el "ghost_of s"] by (fastforce intro!: sys_ok_pure [OF ok sv marshal])
next
  case (get i k r)
  have "es_hist s \<noteq> [] \<and> l = cm_lease (last (es_hist s))" if "r = Inr l" for l
    using that get(4) ok sv by (auto simp: sys_ok_def hist_ok_def optimistic_server_def split: if_splits)
  then show ?thesis using get later_refl [of el "ghost_of s"]
    by (cases r) (fastforce intro!: sys_ok_pure [OF ok sv marshal])+
next
  case (create i spec k srv r)
  then show ?thesis using sys_ok_create [OF ok sv marshal create(2,3,4)] by simp
next
  case (update i l k srv r)
  then show ?thesis using sys_ok_update [OF ok sv marshal update(2,3,4)] by simp
next
  case (attempt i le b)
  then show ?thesis by (auto intro!: sys_ok_pure [OF ok sv marshal] ll.attempt_safe)
next
  case (release i le b)
  then show ?thesis by (auto intro!: sys_ok_pure [OF ok sv marshal] ll.release_safe)
next
  case (report i le b)
  then show ?thesis by (auto intro!: sys_ok_pure [OF ok sv marshal] maybeReport_safe [THEN iffD2])
next
  case (restart i)
  then show ?thesis using start_safe [OF cands] by (auto intro!: sys_ok_pure [OF ok sv marshal])
next
  case (run i le b looks rounds)
  then show ?thesis by (auto intro!: sys_ok_pure [OF ok sv marshal] ll.Run_safe)
qed

lemma es_reachable_ok:
  assumes "es_reachable el sv start cands s" and "optimistic_server (el_zero el) sv" and "marshal_ok (el_marshal el)"
    and "candidates_ok el jitter cfg start cands"
  shows "sys_ok el sv cands s"
  using assms(1)
proof (induction rule: es_reachable.induct)
  case (init srv t)
  then show ?case using start_safe [OF assms(4)] by (auto simp: sys_ok_def hist_ok_def lease_respected_def)
next
  case (step s s')
  then show ?case using es_step_ok [OF _ _ assms(2-4)] by blast
qed

text \<open>
  C8 The lease is respected. However many candidates run, however their calls, delays, failures and restarts
  interleave, and whatever constant offsets their clocks have: with a server that rejects stale updates, and while the Lease has been written fewer than \<open>2^31\<close> times (so that the
  count of transitions, an int32, does not wrap), a write that follows one naming a holder is made by that holder, or at least the lease's duration
  after a write of that very record: the one it follows or an earlier one that has the same encoding. So a lease is taken over only when its record has been there,
  unchanged as far as its encoding shows, for its duration; and when no earlier write has the same encoding, it was not written less than its duration ago.
  Every write also counts right: the count of transitions stays the same only when the holder does or the lease is given up, and grows by one otherwise.
  Renewals in the same second have the same encoding: see \<open>election_limits\<close>.
\<close>

theorem election_lease_respected:
  assumes "es_reachable el sv start cands s" and "optimistic_server (el_zero el) sv" and "marshal_ok (el_marshal el)"
    and "candidates_ok el jitter cfg start cands" and "length (es_hist s) < 2 ^ 31"
    and "es_hist s = before @ [a, b] @ after"
  shows "(cm_holder a \<noteq> '''' \<and> cm_writer b \<noteq> cm_holder a \<longrightarrow>
      (\<exists>c \<in> set (before @ [a]). raw_record el c = raw_record el a \<and> cm_time c + cm_duration a \<le> cm_time b) \<and>
      (raw_record el a \<notin> raw_record el ` set before \<longrightarrow> cm_time a + cm_duration a \<le> cm_time b)) \<and>
    (cm_transitions b = cm_transitions a \<and> (cm_holder b = cm_holder a \<or> cm_holder b = '''') \<or> cm_transitions b = cm_transitions a + 1)"
proof -
  have ok: "lease_respected el (es_hist s)" "chain (es_hist s)" using es_reachable_ok [OF assms(1-4)] assms(5) by (simp_all add: sys_ok_def)
  have "es_hist s = (before @ [a]) @ b # after" using assms(6) by simp
  then have "allowed el (before @ [a]) (cm_writer b) (cm_time b)"
    using ok(1) unfolding lease_respected_def by blast
  moreover have "counts a (cm_holder b) (cm_transitions b)"
    using ok(2) unfolding assms(6) chain_def by (simp add: successively_append_iff)
  ultimately show ?thesis unfolding allowed_def counts_def by (auto simp: image_iff)
qed

end
