(* ===== verification/ElectionRuns.thy ===== *)
theory ElectionRuns
  imports ElectionSafety
begin

text \<open>
  Concrete elections: a server that keeps one Lease and numbers its versions, schedules of the candidates' steps
  that are executed, and what they show: the safety theorem at work, and the limits of the election.
\<close>

section \<open>A server\<close>

text \<open>The state is the list of the specs that were stored, the latest first; the version is their number.\<close>

type_synonym demo_server = "LeaseSpec list"

definition demo_store :: "demo_server \<Rightarrow> nat Lease option" where
  "demo_store s = (case s of [] \<Rightarrow> None | spec # _ \<Rightarrow> Some \<lparr>lease_meta = length s, lease_Spec = spec\<rparr>)"

definition demo_get :: "demo_server \<Rightarrow> lock_err + nat Lease" where
  "demo_get s = (case demo_store s of None \<Rightarrow> Inl NotFound | Some l \<Rightarrow> Inr l)"

definition demo_create :: "demo_server \<Rightarrow> LeaseSpec \<Rightarrow> demo_server \<times> nat Lease \<times> lock_err option" where
  "demo_create s spec =
     (if s = [] then ([spec], \<lparr>lease_meta = 1, lease_Spec = spec\<rparr>, None)
      else (s, \<lparr>lease_meta = 0, lease_Spec = spec\<rparr>, Some AlreadyExists))"

definition demo_update :: "demo_server \<Rightarrow> nat Lease \<Rightarrow> demo_server \<times> (lock_err + nat Lease)" where
  "demo_update s l =
     (if s \<noteq> [] \<and> lease_meta l = length s then (lease_Spec l # s, Inr \<lparr>lease_meta = Suc (length s), lease_Spec = lease_Spec l\<rparr>)
      else (s, Inl (OtherErr ''the object has been modified'')))"

definition demo_sv :: "(demo_server, nat) lease_server" where
  "demo_sv =
     \<lparr>sv_store = demo_store, sv_versions = (\<lambda>s. {1..length s}), sv_get = (\<lambda>s r. r = demo_get s),
      sv_create = (\<lambda>s spec s' r. (s', r) = demo_create s spec), sv_update = (\<lambda>s l s' r. (s', r) = demo_update s l)\<rparr>"

lemma demo_sv_optimistic: "optimistic_server 0 demo_sv"
  unfolding optimistic_server_def
proof (intro conjI allI impI)
  fix s spec s' l err assume "sv_create demo_sv s spec s' (l, err)"
  then have call: "(s', l, err) = demo_create s spec" by (simp add: demo_sv_def)
  then show "err \<noteq> None \<Longrightarrow> lease_meta l = 0" by (auto simp: demo_create_def split: if_splits)
  show "stores_nothing demo_sv s s' \<and> err \<noteq> None \<or>
    sv_store demo_sv s = None \<and> (\<exists>l'. stores_new demo_sv s spec s' l' \<and> (err = None \<longrightarrow> l = l'))"
    using call by (auto simp: demo_create_def demo_sv_def stores_nothing_def stores_new_def demo_store_def written_def split: if_splits)
next
  fix s l s' r assume "sv_update demo_sv s l s' r"
  then have call: "(s', r) = demo_update s l" by (simp add: demo_sv_def)
  then show "stores_nothing demo_sv s s' \<and> (\<exists>e. r = Inl e) \<or>
    (\<exists>cur l'. sv_store demo_sv s = Some cur \<and> lease_meta cur = lease_meta l \<and> stores_new demo_sv s (lease_Spec l) s' l' \<and>
       (r = Inr l' \<or> (\<exists>e. r = Inl e)))"
    by (cases s) (auto simp: demo_update_def demo_sv_def stores_nothing_def stores_new_def demo_store_def written_def split: if_splits)
qed (auto simp: demo_sv_def demo_store_def demo_get_def split: list.splits option.splits)

section \<open>Schedules\<close>

text \<open>The time passes to a given value, a candidate makes its next call, starts an attempt, or releases.\<close>

datatype action = Until int | Go string | Attempt string | Release string

type_synonym demo_sys = "(demo_server, nat) esys"

definition go :: "nat election \<Rightarrow> demo_sys \<Rightarrow> string \<Rightarrow> demo_sys option" where
  "go el s i =
     (case es_procs s i of
        Return _ \<Rightarrow> None
      | Now k \<Rightarrow> Some (s\<lparr>es_procs := (es_procs s)(i := k (es_time s + el_offset el i))\<rparr>)
      | LeaseGet n k \<Rightarrow>
          if n = el_name el then Some (s\<lparr>es_procs := (es_procs s)(i := k (demo_get (es_server s)))\<rparr>) else None
      | LeaseCreate n spec k \<Rightarrow>
          if n = el_name el
          then let (srv, r) = demo_create (es_server s) spec
               in Some (s\<lparr>es_server := srv, es_procs := (es_procs s)(i := k r),
                    es_hist := logged demo_sv i (es_time s) (es_server s) srv (es_hist s)\<rparr>)
          else None
      | LeaseUpdate n l k \<Rightarrow>
          if n = el_name el
          then let (srv, r) = demo_update (es_server s) l
               in Some (s\<lparr>es_server := srv, es_procs := (es_procs s)(i := k r),
                    es_hist := logged demo_sv i (es_time s) (es_server s) srv (es_hist s)\<rparr>)
          else None)"

definition act :: "nat election \<Rightarrow> string list \<Rightarrow> demo_sys \<Rightarrow> action \<Rightarrow> demo_sys option" where
  "act el cands s a =
     (case a of
        Until t \<Rightarrow> if es_time s \<le> t then Some (s\<lparr>es_time := t\<rparr>) else None
      | Go i \<Rightarrow> if i \<in> set cands then go el s i else None
      | Attempt i \<Rightarrow>
          (case es_procs s i of
             Return (le, _) \<Rightarrow>
               if i \<in> set cands
               then Some (s\<lparr>es_procs := (es_procs s)(i := tryAcquireOrRenew (lease_lock (el_marshal el)) le)\<rparr>) else None
           | _ \<Rightarrow> None)
      | Release i \<Rightarrow>
          (case es_procs s i of
             Return (le, _) \<Rightarrow>
               if i \<in> set cands
               then Some (s\<lparr>es_procs := (es_procs s)(i := le_release (lease_lock (el_marshal el)) le)\<rparr>) else None
           | _ \<Rightarrow> None))"

fun acts :: "nat election \<Rightarrow> string list \<Rightarrow> demo_sys \<Rightarrow> action list \<Rightarrow> demo_sys option" where
  "acts el cands s [] = Some s"
| "acts el cands s (a # as) = (case act el cands s a of None \<Rightarrow> None | Some s' \<Rightarrow> acts el cands s' as)"

lemma go_step: "go el s i = Some s' \<Longrightarrow> i \<in> cands \<Longrightarrow> es_step el demo_sv start cands s s'"
  unfolding go_def
  by (auto split: prog.splits if_splits prod.splits intro: es_step.clock es_step.get es_step.create es_step.update simp: demo_sv_def)

lemma act_step: "act el cands s a = Some s' \<Longrightarrow> es_step el demo_sv start (set cands) s s'"
  unfolding act_def
  by (auto split: action.splits if_splits prog.splits prod.splits intro: go_step es_step.passes es_step.attempt es_step.release)

lemma acts_reachable:
  "acts el cands s as = Some s' \<Longrightarrow> es_reachable el demo_sv start (set cands) s \<Longrightarrow> es_reachable el demo_sv start (set cands) s'"
proof (induction as arbitrary: s)
  case (Cons a as)
  then obtain s1 where s1: "act el cands s a = Some s1" "acts el cands s1 as = Some s'" by (auto split: option.splits)
  show ?case by (rule Cons.IH [OF s1(2) es_reachable.step [OF Cons.prems(2) act_step [OF s1(1)]]])
qed simp

section \<open>Two candidates\<close>

text \<open>
  An encoding that, like the JSON of \<open>metav1.Time\<close>, keeps the seconds of the renew time, with the count of transitions and the holder.
\<close>

definition seconds_encoding :: "LeaderElectionRecord \<Rightarrow> bytes" where
  "seconds_encoding r = replicate (nat (ler_RenewTime r div second)) CHR ''.'' @ ''@'' @
     replicate (nat \<bar>ler_LeaderTransitions r\<bar>) (if ler_LeaderTransitions r < 0 then CHR ''-'' else CHR ''+'') @ ''@'' @ ler_HolderIdentity r"

definition seconds_marshal :: marshal where
  "seconds_marshal r = Inr (seconds_encoding r)"

definition demo_election :: "nat election" where
  "demo_election = \<lparr>el_marshal = seconds_marshal, el_zero = 0, el_name = ''ns/lock'', el_offset = (\<lambda>i. if i = ''a'' then 0 else 7)\<rparr>"

definition demo_config :: "int \<Rightarrow> string \<Rightarrow> nat LeaseLock LeaderElectionConfig" where
  "demo_config duration i =
     \<lparr>lec_Lock = Some \<lparr>ll_name = ''ns/lock'', ll_Identity = i, ll_lease = None\<rparr>, lec_LeaseDuration = duration,
      lec_RenewDeadline = duration * 2 div 3, lec_RetryPeriod = duration * 2 div 15, lec_OnStartedLeading = True,
      lec_OnStoppedLeading = True, lec_OnNewLeader = False, lec_ReleaseOnCancel = True, lec_Name = ''lock''\<rparr>"

definition demo_jitter :: "int \<Rightarrow> int" where
  "demo_jitter d = d * 12 div 10"

definition demo_start :: "int \<Rightarrow> string \<Rightarrow> nat candidate" where
  "demo_start duration i =
     \<lparr>le_config = demo_config duration i, le_lock = \<lparr>ll_name = ''ns/lock'', ll_Identity = i, ll_lease = None\<rparr>,
      le_observedRecord = zero_record, le_observedRawRecord = [], le_observedTime = 0, le_reportedLeader = ''''\<rparr>"

definition demo_init :: "int \<Rightarrow> int \<Rightarrow> demo_sys" where
  "demo_init duration t = \<lparr>es_server = [], es_time = t, es_procs = (\<lambda>i. Return (demo_start duration i, False)), es_hist = []\<rparr>"

lemma demo_candidates:
  assumes "duration = 15 * second \<or> duration = second div 2"
  shows "candidates_ok demo_election demo_jitter (demo_config duration) (demo_start duration) (set [''a'', ''b''])"
  using assms by (auto simp: candidates_ok_def demo_election_def demo_config_def demo_start_def NewLeaderElector_def
      demo_jitter_def lease_lock_def second_def)

lemma separated: "x \<notin> set as \<Longrightarrow> x \<notin> set bs \<Longrightarrow> as @ x # as' = bs @ x # bs' \<Longrightarrow> as = bs \<and> as' = bs'"
proof (induction as arbitrary: bs)
  case Nil
  then show ?case by (cases bs) auto
next
  case (Cons a as)
  then show ?case by (cases bs) auto
qed

lemma signed_inj:
  fixes m n :: int
  assumes "replicate (nat \<bar>m\<bar>) (if m < 0 then CHR ''-'' else CHR ''+'') = replicate (nat \<bar>n\<bar>) (if n < 0 then CHR ''-'' else CHR ''+'')"
  shows "m = n"
proof -
  have abs: "\<bar>m\<bar> = \<bar>n\<bar>" using arg_cong [OF assms, of length] by simp
  show ?thesis
  proof (cases "m = 0")
    case False
    then have "(if m < 0 then CHR ''-'' else CHR ''+'') = (if n < 0 then CHR ''-'' else CHR ''+'')"
      using arg_cong [OF assms, of hd] abs by (simp add: hd_replicate)
    then show ?thesis using abs by (auto split: if_splits)
  qed (use abs in simp)
qed

lemma demo_marshal_ok: "marshal_ok (el_marshal demo_election)"
  unfolding marshal_ok_def demo_election_def election.select_convs seconds_marshal_def
proof (intro conjI allI impI)
  show "\<exists>b. Inr (seconds_encoding r) = Inr b \<and> b \<noteq> []" for r by (simp add: seconds_encoding_def)
  fix r r' assume "(Inr (seconds_encoding r) :: lock_err + bytes) = Inr (seconds_encoding r')"
  then have "seconds_encoding r = seconds_encoding r'" by simp
  then have "replicate (nat \<bar>ler_LeaderTransitions r\<bar>) (if ler_LeaderTransitions r < 0 then CHR ''-'' else CHR ''+'') @ CHR ''@'' # ler_HolderIdentity r =
      replicate (nat \<bar>ler_LeaderTransitions r'\<bar>) (if ler_LeaderTransitions r' < 0 then CHR ''-'' else CHR ''+'') @ CHR ''@'' # ler_HolderIdentity r'"
    unfolding seconds_encoding_def by (auto dest!: separated [rotated 2])
  then have "replicate (nat \<bar>ler_LeaderTransitions r\<bar>) (if ler_LeaderTransitions r < 0 then CHR ''-'' else CHR ''+'') =
      replicate (nat \<bar>ler_LeaderTransitions r'\<bar>) (if ler_LeaderTransitions r' < 0 then CHR ''-'' else CHR ''+'') \<and>
      ler_HolderIdentity r = ler_HolderIdentity r'"
    by (rule separated [rotated 2]) auto
  then show "ler_HolderIdentity r = ler_HolderIdentity r'" "ler_LeaderTransitions r = ler_LeaderTransitions r'"
    using signed_inj by blast+
qed

lemma demo_init_reachable: "es_reachable demo_election demo_sv (demo_start duration) (set [''a'', ''b'']) (demo_init duration t)"
  unfolding demo_init_def by (rule es_reachable.init) (simp add: demo_sv_def demo_store_def)

text \<open>One candidate creates the lease, another sees it at once and takes it over when it has expired.\<close>

definition takeover :: "action list" where
  "takeover = [Attempt ''a'', Go ''a'', Go ''a'', Go ''a'', Go ''a'',
     Attempt ''b'', Go ''b'', Go ''b'', Go ''b'',
     Until (17 * second), Attempt ''b'', Go ''b'', Go ''b'', Go ''b'', Go ''b'']"

definition demo_hist :: "int \<Rightarrow> int \<Rightarrow> action list \<Rightarrow> nat commit list" where
  "demo_hist duration t as =
     (case acts demo_election [''a'', ''b''] (demo_init duration t) as of None \<Rightarrow> [] | Some s \<Rightarrow> es_hist s)"

lemma demo_hist_reachable:
  assumes "demo_hist duration t as \<noteq> []"
  shows "\<exists>s. es_reachable demo_election demo_sv (demo_start duration) (set [''a'', ''b'']) s \<and> es_hist s = demo_hist duration t as"
  using assms acts_reachable [OF _ demo_init_reachable] by (fastforce simp: demo_hist_def split: option.splits)

lemma takeover_hist:
  "map (\<lambda>c. (cm_writer c, cm_holder c, cm_time c, cm_duration c, raw_record demo_election c)) (demo_hist (15 * second) second takeover) =
     [(''a'', ''a'', second, 15 * second, ''.@@a''), (''b'', ''b'', 17 * second, 15 * second, ''.................@+@b'')]"
  by code_simp

theorem election_lease_respected_witness:
  "\<exists>s a b. es_reachable demo_election demo_sv (demo_start (15 * second)) (set [''a'', ''b'']) s \<and> es_hist s = [a, b] \<and>
     cm_writer b \<noteq> cm_holder a \<and> cm_time a + cm_duration a \<le> cm_time b \<and> cm_transitions b = cm_transitions a + 1"
proof -
  let ?h = "demo_hist (15 * second) second takeover"
  obtain a b where h: "?h = [a, b]" using arg_cong [OF takeover_hist, of length] by (auto simp: length_Suc_conv)
  have facts: "cm_holder a = ''a''" "cm_writer b = ''b''" "cm_holder b = ''b''"
    using takeover_hist unfolding h by simp_all
  have "?h \<noteq> []" by (simp add: h)
  then obtain s where s: "es_reachable demo_election demo_sv (demo_start (15 * second)) (set [''a'', ''b'']) s" "es_hist s = ?h"
    using demo_hist_reachable by blast
  have sv: "optimistic_server (el_zero demo_election) demo_sv" using demo_sv_optimistic by (simp add: demo_election_def)
  have "cm_time a + cm_duration a \<le> cm_time b \<and> cm_transitions b = cm_transitions a + 1"
    using election_lease_respected [OF s(1) sv demo_marshal_ok demo_candidates, where before = "[]" and a = a and b = b and after = "[]"]
      s(2) h facts by auto
  then show ?thesis using s h facts by auto
qed

section \<open>The limits\<close>

text \<open>The second candidate takes over in the same instant; a renewal within the same second is not seen.\<close>

definition at_once :: "action list" where
  "at_once = [Attempt ''a'', Go ''a'', Go ''a'', Go ''a'', Go ''a'',
     Attempt ''b'', Go ''b'', Go ''b'', Go ''b'', Go ''b'', Go ''b'']"

definition unseen_renewal :: "action list" where
  "unseen_renewal = [Attempt ''a'', Go ''a'', Go ''a'', Go ''a'', Go ''a'',
     Attempt ''b'', Go ''b'', Go ''b'', Go ''b'',
     Until (1900000000), Attempt ''a'', Go ''a'', Go ''a'', Go ''a'', Go ''a'', Go ''a'',
     Until (16 * second), Attempt ''b'', Go ''b'', Go ''b'', Go ''b'', Go ''b'']"

lemma at_once_hist:
  "map (\<lambda>c. (cm_writer c, cm_holder c, cm_time c)) (demo_hist (second div 2) second at_once) =
     [(''a'', ''a'', second), (''b'', ''b'', second)]"
  by code_simp

lemma unseen_renewal_hist:
  "map (\<lambda>c. (cm_writer c, cm_holder c, cm_time c)) (demo_hist (15 * second) second unseen_renewal) =
     [(''a'', ''a'', second), (''a'', ''a'', 1900000000), (''b'', ''b'', 16 * second)]"
  by code_simp

text \<open>
  The limits of the lease. \<open>NewLeaderElector\<close> accepts a lease duration of half a second, but what is written
  are whole seconds, here zero: another candidate takes the lease over in the very instant in which it was acquired. And an observer
  compares encoded records: with an encoding in whole seconds, a renewal in the same second is not seen, and the
  lease is taken over less than its fifteen seconds after it was renewed.
\<close>

theorem election_limits:
  "(\<exists>s a b. candidates_ok demo_election demo_jitter (demo_config (second div 2)) (demo_start (second div 2)) (set [''a'', ''b'']) \<and>
      es_reachable demo_election demo_sv (demo_start (second div 2)) (set [''a'', ''b'']) s \<and> es_hist s = [a, b] \<and>
      cm_holder a = ''a'' \<and> cm_holder b = ''b'' \<and> cm_time b = cm_time a) \<and>
   (\<exists>s a a' b. es_reachable demo_election demo_sv (demo_start (15 * second)) (set [''a'', ''b'']) s \<and> es_hist s = [a, a', b] \<and>
      cm_holder a' = ''a'' \<and> cm_holder b = ''b'' \<and> cm_time b < cm_time a' + 15 * second)"
proof
  obtain a b where h: "demo_hist (second div 2) second at_once = [a, b]"
    using arg_cong [OF at_once_hist, of length] by (auto simp: length_Suc_conv)
  then obtain s where "es_reachable demo_election demo_sv (demo_start (second div 2)) (set [''a'', ''b'']) s" "es_hist s = [a, b]"
    using demo_hist_reachable [of "second div 2" second at_once] by auto
  then show "\<exists>s a b. candidates_ok demo_election demo_jitter (demo_config (second div 2)) (demo_start (second div 2)) (set [''a'', ''b'']) \<and>
      es_reachable demo_election demo_sv (demo_start (second div 2)) (set [''a'', ''b'']) s \<and> es_hist s = [a, b] \<and>
      cm_holder a = ''a'' \<and> cm_holder b = ''b'' \<and> cm_time b = cm_time a"
    using demo_candidates at_once_hist unfolding h by fastforce
next
  obtain a a' b where h: "demo_hist (15 * second) second unseen_renewal = [a, a', b]"
    using arg_cong [OF unseen_renewal_hist, of length] by (auto simp: length_Suc_conv)
  then obtain s where "es_reachable demo_election demo_sv (demo_start (15 * second)) (set [''a'', ''b'']) s" "es_hist s = [a, a', b]"
    using demo_hist_reachable [of "15 * second" second unseen_renewal] by auto
  moreover have "cm_holder a' = ''a''" "cm_holder b = ''b''" "cm_time b < cm_time a' + 15 * second"
    using unseen_renewal_hist unfolding h by (auto simp: second_def)
  ultimately show "\<exists>s a a' b. es_reachable demo_election demo_sv (demo_start (15 * second)) (set [''a'', ''b'']) s \<and> es_hist s = [a, a', b] \<and>
      cm_holder a' = ''a'' \<and> cm_holder b = ''b'' \<and> cm_time b < cm_time a' + 15 * second" by blast
qed

section \<open>One attempt, undisturbed\<close>

text \<open>The server answers at once, and the clock stands at \<open>t\<close> during the attempt.\<close>

definition quiet :: "int \<Rightarrow> (demo_server, nat) handler" where
  "quiet t = \<lparr>hd_now = (\<lambda>w. (w, t)), hd_get = (\<lambda>w n. (w, demo_get w)), hd_create = (\<lambda>w n spec. demo_create w spec),
     hd_update = (\<lambda>w n l. demo_update w l)\<rparr>"

lemma quiet_simps [simp]:
  "hd_now (quiet t) w = (w, t)" "hd_get (quiet t) w n = (w, demo_get w)" "hd_create (quiet t) w n spec = demo_create w spec"
  "hd_update (quiet t) w n l = demo_update w l"
  by (simp_all add: quiet_def)

text \<open>
  What an attempt does when nothing disturbs it. With no lease stored it creates one for itself. Otherwise it notes the
  stored record, with the time if the record has changed. If the record names another holder whose lease, counted from the
  noted time, has not run out, it fails and writes nothing. If not, it writes its own record and succeeds: the renew time is
  now; if it was the leader already the acquire time and the number of transitions are kept, otherwise the acquire time is now and
  there is one more transition.
\<close>

theorem attempt_exact:
  assumes "\<And>r. marshal r = Inr (enc r)" and "run_prog (quiet t) (tryAcquireOrRenew (lease_lock marshal) le) w = (w', le', b)"
    and "me = ll_Identity (le_lock le)" and "seconds = lec_LeaseDuration (le_config le) div second"
  shows "case w of
      [] \<Rightarrow> b \<and> w' = [LeaderElectionRecordToLeaseSpec \<lparr>ler_HolderIdentity = me, ler_LeaseDurationSeconds = seconds,
              ler_AcquireTime = t, ler_RenewTime = t, ler_LeaderTransitions = 0\<rparr>]
    | spec # _ \<Rightarrow>
        let old = LeaseSpecToLeaderElectionRecord spec; changed = (le_observedRawRecord le \<noteq> enc old);
            noted = (if changed then old else le_observedRecord le); since = (if changed then t else le_observedTime le);
            leading = (ler_HolderIdentity noted = me)
        in if ler_HolderIdentity old \<noteq> '''' \<and> since + wrap64 (second * ler_LeaseDurationSeconds old) > t \<and> \<not> leading
           then \<not> b \<and> w' = w \<and> le_observedRecord le' = noted \<and> le_observedTime le' = since
           else b \<and> ler_HolderIdentity (le_observedRecord le') = me \<and>
             w' = LeaderElectionRecordToLeaseSpec \<lparr>ler_HolderIdentity = me, ler_LeaseDurationSeconds = seconds,
               ler_AcquireTime = (if leading then ler_AcquireTime old else t), ler_RenewTime = t,
               ler_LeaderTransitions = (if leading then ler_LeaderTransitions old else wrap64 (ler_LeaderTransitions old + 1))\<rparr> # w"
proof (cases w)
  case Nil
  then show ?thesis
    using assms(2) unfolding assms(3,4)
    by (auto simp: tryAcquireOrRenew_def after_get_def run_bind lease_lock_def LeaseLock_Get_def LeaseLock_Create_def demo_get_def
        demo_store_def demo_create_def note_written_def setObservedRecord_def wanted_record_def Let_def)
next
  case (Cons spec ws)
  note defs = tryAcquireOrRenew_def after_get_def run_bind lease_lock_def LeaseLock_Get_def LeaseLock_Update_def demo_get_def
    demo_store_def demo_update_def note_written_def setObservedRecord_def wanted_record_def Let_def observe_def held_by_other_def
    corrected_record_def le_IsLeader_def getObservedRecord_def assms(1)
  show ?thesis
    using assms(2) unfolding assms(3,4) Cons
    by (auto simp: defs split: if_splits)
qed

theorem attempt_exact_witness:
  "run_prog (quiet 0) (tryAcquireOrRenew (lease_lock seconds_marshal) (demo_start (15 * second) ''a'')) [] =
     ([LeaderElectionRecordToLeaseSpec \<lparr>ler_HolderIdentity = ''a'', ler_LeaseDurationSeconds = 15, ler_AcquireTime = 0,
        ler_RenewTime = 0, ler_LeaderTransitions = 0\<rparr>],
      snd (run_prog (quiet 0) (tryAcquireOrRenew (lease_lock seconds_marshal) (demo_start (15 * second) ''a'')) []))"
proof -
  obtain w' le' b where run: "run_prog (quiet 0) (tryAcquireOrRenew (lease_lock seconds_marshal) (demo_start (15 * second) ''a'')) [] = (w', le', b)"
    using prod_cases3 by blast
  have enc: "\<And>r. seconds_marshal r = Inr (seconds_encoding r)"
    by (simp add: seconds_marshal_def)
  show ?thesis
    using attempt_exact [OF enc run refl refl] unfolding run by (simp add: demo_start_def demo_config_def second_def)
qed

section \<open>A whole run\<close>

definition reporting_config :: "nat LeaseLock LeaderElectionConfig" where
  "reporting_config = (demo_config (15 * second) ''a'')\<lparr>lec_OnNewLeader := True\<rparr>"

definition reporting_run :: "demo_server \<times> nat candidate \<times> unit option \<times> le_event list" where
  "reporting_run = run_prog (quiet 0)
     (le_Run (lease_lock seconds_marshal) [False] [(False, []), (True, [])] ((demo_start (15 * second) ''a'')\<lparr>le_config := reporting_config\<rparr>)) []"

lemma reporting_run_calls:
  "snd (snd reporting_run) = (Some (), [GoCall (OnNewLeader ''a''), GoCall OnStartedLeading, DirectCall OnStoppedLeading])"
  by code_simp

text \<open>The goroutine that reports the leader is late.\<close>

lemma late_report:
  "go_calls [GoCall (OnNewLeader ''a''), GoCall OnStartedLeading, DirectCall OnStoppedLeading] {#OnNewLeader ''a''#} [OnStartedLeading, OnStoppedLeading]"
proof -
  have "go_calls [GoCall (OnNewLeader ''a''), GoCall OnStartedLeading] (add_mset OnStartedLeading {#OnNewLeader ''a''#}) []"
    using go_start [OF go_start [OF go_none], of "OnNewLeader ''a''" OnStartedLeading] by simp
  from go_direct [OF go_run [OF this], of OnStoppedLeading] show ?thesis by simp
qed

theorem Run_callbacks_witness:
  "\<exists>calls. go_calls (snd (snd (snd reporting_run))) {#OnNewLeader ''a''#} calls \<and> length calls = 2 \<and> fst (snd (snd reporting_run)) = Some () \<and>
     count_list calls OnStoppedLeading = 1"
proof -
  let ?le = "(demo_start (15 * second) ''a'')\<lparr>le_config := reporting_config\<rparr>"
  have new: "NewLeaderElector demo_jitter (lease_lock seconds_marshal) reporting_config = Inr ?le"
    by (simp add: NewLeaderElector_def reporting_config_def demo_config_def demo_start_def demo_jitter_def lease_lock_def second_def)
  obtain w le ended trace where run: "reporting_run = (w, le, ended, trace)" using prod_cases4 by blast
  have ended: "ended = Some ()" and trace: "trace = [GoCall (OnNewLeader ''a''), GoCall OnStartedLeading, DirectCall OnStoppedLeading]"
    using reporting_run_calls unfolding run by simp_all
  have late: "go_calls trace {#OnNewLeader ''a''#} [OnStartedLeading, OnStoppedLeading]" unfolding trace by (rule late_report)
  have "count_list [OnStartedLeading, OnStoppedLeading] OnStoppedLeading = 1"
    using Run_callbacks [OF new run [unfolded reporting_run_def] late] ended by (simp split: if_splits)
  then show ?thesis using late ended unfolding run by (intro exI [of _ "[OnStartedLeading, OnStoppedLeading]"]) simp
qed

end
