(* ===== verification/Pager.thy ===== *)
theory Pager
  imports K8s_Prelude
begin

text \<open>
  \<open>tools/pager/pager.go\<close>: lists a collection in chunks. The loop follows the continue tokens of the server until there is none,
  and falls back to one full list when a token has expired.

  The function that fetches a page, the predicate \<open>errors.IsResourceExpired\<close> and the context are arguments; they act on a
  world \<open>'w\<close> that stands for everything outside. Nothing bounds the number of pages a server sends: the loops have
  fuel, and the answer \<open>None\<close> is running out. What the pager relies on is \<open>list_contract\<close>, the documented meaning of
  limits and tokens: a token stands for the rest of one snapshot. A page may have fewer items than asked for, even none, and
  a token all the same, so that the items left do not bound the number of pages; that the tokens of a list come to an end is a
  hypothesis of its own, \<open>tokens_end\<close>.

  The lemmas: what the pager returns is a whole snapshot, and it returns when the tokens come to an end.
\<close>

section \<open>Lists and options\<close>

record ListOptions =
  lo_Limit :: int
  lo_Continue :: string
  lo_ResourceVersion :: string
  lo_ResourceVersionMatch :: string
  lo_SendInitialEvents :: bool

text \<open>
  A \<open>runtime.Object\<close> as \<open>meta.ListAccessor\<close> and \<open>meta.EachListItem\<close> see it: it may not be a list, and its items may not be
  accessible.
\<close>

datatype 'x list_obj = NotAList | AList (lst_Continue: string) (lst_ResourceVersion: string) (lst_Items: "'x list option")

datatype 'e pager_err = Api 'e | CtxErr | NotAListErr | ItemsErr | FnErr

type_synonym ('w, 'e, 'x) page_fn = "'w \<Rightarrow> ListOptions \<Rightarrow> 'w \<times> ('e + 'x list_obj)"

record ('w, 'e, 'x) ListPager =
  pg_PageSize :: int
  pg_PageFn :: "('w, 'e, 'x) page_fn"
  pg_FullListIfExpired :: bool
  pg_PageBufferSize :: int

definition pager_New :: "('w, 'e, 'x) page_fn \<Rightarrow> ('w, 'e, 'x) ListPager" where
  "pager_New fn = \<lparr>pg_PageSize = 500, pg_PageFn = fn, pg_FullListIfExpired = True, pg_PageBufferSize = 10\<rparr>"

section \<open>List\<close>

type_synonym ('w, 'e, 'x) list_result = "'w \<times> ('e pager_err + 'x list_obj) \<times> bool"

definition full_list :: "('w, 'e, 'x) ListPager \<Rightarrow> ListOptions \<Rightarrow> bool \<Rightarrow> 'w \<Rightarrow> ('w, 'e, 'x) list_result" where
  "full_list p options paginatedResult w =
     (case pg_PageFn p w options of
        (w, Inl err) \<Rightarrow> (w, Inl (Api err), paginatedResult)
      | (w, Inr obj) \<Rightarrow> (w, Inr obj, paginatedResult))"

text \<open>\<open>acc\<close> is the list so far, with the resource version of the first page; \<open>rv\<close> and \<open>rvMatch\<close> are the requested ones.\<close>

fun list_loop ::
  "('e \<Rightarrow> bool) \<Rightarrow> ('w \<Rightarrow> bool) \<Rightarrow> ('w, 'e, 'x) ListPager \<Rightarrow> string \<Rightarrow> string \<Rightarrow> nat \<Rightarrow> ListOptions \<Rightarrow> (string \<times> 'x list) option
     \<Rightarrow> bool \<Rightarrow> 'w \<Rightarrow> ('w, 'e, 'x) list_result option"
where
  "list_loop IsResourceExpired ctxDone p rv rvMatch 0 options acc paginatedResult w = None"
| "list_loop IsResourceExpired ctxDone p rv rvMatch (Suc fuel) options acc paginatedResult w =
     (if ctxDone w then Some (w, Inl CtxErr, paginatedResult)
      else case pg_PageFn p w options of
        (w, Inl err) \<Rightarrow>
          Some (if \<not> IsResourceExpired err \<or> \<not> pg_FullListIfExpired p \<or> lo_Continue options = ''''
                then (w, Inl (Api err), paginatedResult)
                else full_list p (options\<lparr>lo_Limit := 0, lo_Continue := '''', lo_ResourceVersion := rv,
                       lo_ResourceVersionMatch := rvMatch\<rparr>) paginatedResult w)
      | (w, Inr NotAList) \<Rightarrow> Some (w, Inl NotAListErr, paginatedResult)
      | (w, Inr (AList continue resourceVersion items)) \<Rightarrow>
          if continue = '''' \<and> acc = None then Some (w, Inr (AList continue resourceVersion items), paginatedResult)
          else
            let (rv0, sofar) = (case acc of None \<Rightarrow> (resourceVersion, []) | Some a \<Rightarrow> a)
            in case items of
                 None \<Rightarrow> Some (w, Inl ItemsErr, paginatedResult)
               | Some xs \<Rightarrow>
                   if continue = '''' then Some (w, Inr (AList '''' rv0 (Some (sofar @ xs))), paginatedResult)
                   else list_loop IsResourceExpired ctxDone p rv rvMatch fuel
                          (options\<lparr>lo_Continue := continue, lo_ResourceVersion := '''', lo_ResourceVersionMatch := ''''\<rparr>)
                          (Some (rv0, sofar @ xs)) True w)"

definition with_limit :: "('w, 'e, 'x) ListPager \<Rightarrow> ListOptions \<Rightarrow> ListOptions" where
  "with_limit p options = (if lo_Limit options = 0 then options\<lparr>lo_Limit := pg_PageSize p\<rparr> else options)"

text \<open>\<open>List\<close> and \<open>ListWithAlloc\<close> differ in what memory they retain only.\<close>

definition pager_list ::
  "('e \<Rightarrow> bool) \<Rightarrow> ('w \<Rightarrow> bool) \<Rightarrow> ('w, 'e, 'x) ListPager \<Rightarrow> nat \<Rightarrow> ListOptions \<Rightarrow> 'w \<Rightarrow> ('w, 'e, 'x) list_result option"
where
  "pager_list IsResourceExpired ctxDone p fuel options w =
     list_loop IsResourceExpired ctxDone p (lo_ResourceVersion options) (lo_ResourceVersionMatch options) fuel
       (with_limit p options) None False w"

section \<open>EachListItem\<close>

text \<open>
  The background goroutine and the buffer of \<open>eachListChunkBuffered\<close> do not change what \<open>fn\<close> is called with, one chunk
  after the other, nor the result; \<open>fn\<close> acts on a state of its own and may fail.
\<close>

fun each_chunk_loop ::
  "('w \<Rightarrow> bool) \<Rightarrow> ('w, 'e, 'x) ListPager \<Rightarrow> ('x list_obj \<Rightarrow> 'a \<Rightarrow> 'a \<times> bool) \<Rightarrow> nat \<Rightarrow> ListOptions \<Rightarrow> 'a \<Rightarrow> 'w
     \<Rightarrow> ('w \<times> 'a \<times> 'e pager_err option) option"
where
  "each_chunk_loop ctxDone p fn 0 options a w = None"
| "each_chunk_loop ctxDone p fn (Suc fuel) options a w =
     (if ctxDone w then Some (w, a, Some CtxErr)
      else case pg_PageFn p w options of
        (w, Inl err) \<Rightarrow> Some (w, a, Some (Api err))
      | (w, Inr NotAList) \<Rightarrow> Some (w, a, Some NotAListErr)
      | (w, Inr (AList continue rv items)) \<Rightarrow>
          case fn (AList continue rv items) a of
            (a, False) \<Rightarrow> Some (w, a, Some FnErr)
          | (a, True) \<Rightarrow>
              if continue = '''' then Some (w, a, None)
              else each_chunk_loop ctxDone p fn fuel (options\<lparr>lo_Continue := continue\<rparr>) a w)"

definition eachListChunk ::
  "('w \<Rightarrow> bool) \<Rightarrow> ('w, 'e, 'x) ListPager \<Rightarrow> ('x list_obj \<Rightarrow> 'a \<Rightarrow> 'a \<times> bool) \<Rightarrow> nat \<Rightarrow> ListOptions \<Rightarrow> 'a \<Rightarrow> 'w
     \<Rightarrow> ('w \<times> 'a \<times> 'e pager_err option) option"
where
  "eachListChunk ctxDone p fn fuel options a w = each_chunk_loop ctxDone p fn fuel (with_limit p options) a w"

section \<open>What the server promises\<close>

text \<open>
  \<open>rest c\<close> is what the token \<open>c\<close> stands for: a resource version and the items of the collection at that version which were not yet
  sent. \<open>snap rv items\<close>: the collection at \<open>rv\<close> is \<open>items\<close>. A request without token starts a snapshot, and one
  without limit gets all of it.
\<close>

definition page_right ::
  "(string \<Rightarrow> string \<times> 'x list) \<Rightarrow> (string \<Rightarrow> 'x list \<Rightarrow> bool) \<Rightarrow> ListOptions \<Rightarrow> string \<Rightarrow> string \<Rightarrow> 'x list \<Rightarrow> bool"
where
  "page_right rest snap options c rv items \<longleftrightarrow>
     (c \<noteq> '''' \<longrightarrow> fst (rest c) = rv \<and> lo_Limit options \<noteq> 0) \<and>
     (let all = items @ (if c = '''' then [] else snd (rest c))
      in if lo_Continue options = '''' then snap rv all else rest (lo_Continue options) = (rv, all))"

definition list_contract ::
  "(string \<Rightarrow> string \<times> 'x list) \<Rightarrow> (string \<Rightarrow> 'x list \<Rightarrow> bool) \<Rightarrow> ('w \<Rightarrow> bool) \<Rightarrow> ('w, 'e, 'x) page_fn \<Rightarrow> bool"
where
  "list_contract rest snap good pageFn \<longleftrightarrow>
     (\<forall>w options w' r. good w \<longrightarrow> pageFn w options = (w', r) \<longrightarrow> good w' \<and>
        (\<forall>c rv items. r = Inr (AList c rv (Some items)) \<longrightarrow> page_right rest snap options c rv items))"

definition result_right :: "(string \<Rightarrow> 'x list \<Rightarrow> bool) \<Rightarrow> ('w, 'e, 'x) list_result \<Rightarrow> bool" where
  "result_right snap res = (case res of (_, Inr (AList c rv (Some items)), _) \<Rightarrow> c = '''' \<and> snap rv items | _ \<Rightarrow> True)"

lemma result_right_simps [simp]:
  "result_right snap (w, Inl e, b)" "result_right snap (w, Inr NotAList, b)" "result_right snap (w, Inr (AList c rv None), b)"
  "result_right snap (w, Inr (AList c rv (Some items)), b) \<longleftrightarrow> c = '''' \<and> snap rv items"
  by (simp_all add: result_right_def)

lemma list_contractD:
  assumes "list_contract rest snap good pageFn" and "good w" and "pageFn w options = (w', r)"
  shows "good w'" and "r = Inr (AList c rv (Some items)) \<Longrightarrow> page_right rest snap options c rv items"
  using assms unfolding list_contract_def by blast+

lemma full_list_right:
  assumes con: "list_contract rest snap good (pg_PageFn p)" and "good w"
    and "lo_Limit options = 0" and "lo_Continue options = ''''"
  shows "result_right snap (full_list p options b w) \<and> good (fst (full_list p options b w))"
proof -
  obtain w' r where r: "pg_PageFn p w options = (w', r)" by fastforce
  note law = list_contractD [OF con assms(2) r]
  show ?thesis
  proof (cases r)
    case (Inr obj)
    then show ?thesis
      using law assms(3,4) r
      by (cases obj; cases "lst_Items obj") (auto simp: full_list_def page_right_def Let_def)
  qed (use law(1) r in \<open>simp add: full_list_def\<close>)
qed

text \<open>Between two pages: the snapshot is what was collected and what the token stands for.\<close>

definition loop_inv ::
  "(string \<Rightarrow> string \<times> 'x list) \<Rightarrow> (string \<Rightarrow> 'x list \<Rightarrow> bool) \<Rightarrow> ListOptions \<Rightarrow> (string \<times> 'x list) option \<Rightarrow> bool"
where
  "loop_inv rest snap options acc \<longleftrightarrow>
     (case acc of
        None \<Rightarrow> lo_Continue options = ''''
      | Some (rv, sofar) \<Rightarrow> lo_Continue options \<noteq> '''' \<and> fst (rest (lo_Continue options)) = rv \<and>
          snap rv (sofar @ snd (rest (lo_Continue options))))"

lemma loop_inv_page:
  assumes inv: "loop_inv rest snap options acc" and page: "page_right rest snap options c rv xs"
    and a: "(rv0, sofar) = (case acc of None \<Rightarrow> (rv, []) | Some a \<Rightarrow> a)"
  shows "if c = '''' then snap rv0 (sofar @ xs)
    else loop_inv rest snap (options\<lparr>lo_Continue := c, lo_ResourceVersion := r, lo_ResourceVersionMatch := m\<rparr>) (Some (rv0, sofar @ xs))"
proof (cases acc)
  case None
  then show ?thesis using inv page a by (auto simp: loop_inv_def page_right_def Let_def split: if_splits)
next
  case (Some b)
  then have "acc = Some (rv0, sofar)" using a by simp
  then show ?thesis using inv page by (auto simp: loop_inv_def page_right_def Let_def split: if_splits)
qed

text \<open>The tokens come to an end: after the page of a token \<open>c\<close> there are at most \<open>pages c\<close> more.\<close>

definition tokens_end :: "(string \<Rightarrow> nat) \<Rightarrow> ('w \<Rightarrow> bool) \<Rightarrow> ('w, 'e, 'x) page_fn \<Rightarrow> bool" where
  "tokens_end pages good pageFn \<longleftrightarrow>
     (\<forall>w options w' c rv items. good w \<longrightarrow> pageFn w options = (w', Inr (AList c rv items)) \<longrightarrow>
        c \<noteq> '''' \<longrightarrow> lo_Continue options \<noteq> '''' \<longrightarrow> pages c < pages (lo_Continue options))"

text \<open>Every request is answered with a list whose items can be read.\<close>

definition always_lists :: "('w \<Rightarrow> bool) \<Rightarrow> ('w, 'e, 'x) page_fn \<Rightarrow> bool" where
  "always_lists good pageFn \<longleftrightarrow>
     (\<forall>w options. good w \<longrightarrow> (\<exists>w' c rv items. pageFn w options = (w', Inr (AList c rv (Some items)))))"

lemma list_loop_no_error:
  assumes con: "list_contract rest snap good (pg_PageFn p)" and lists': "always_lists good (pg_PageFn p)" and "\<And>w. \<not> ctxDone w"
  shows "good w \<Longrightarrow> list_loop expired ctxDone p rv0 m0 fuel options acc b w = Some res \<Longrightarrow>
    \<exists>w' rv items b'. res = (w', Inr (AList '''' rv (Some items)), b')"
proof (induction fuel arbitrary: options acc b w)
  case (Suc fuel)
  obtain w' c rv xs where page: "pg_PageFn p w options = (w', Inr (AList c rv (Some xs)))"
    using lists' Suc.prems(1) unfolding always_lists_def by blast
  show ?case
    using Suc.prems(2) Suc.IH [OF list_contractD(1) [OF con Suc.prems(1) page]] page assms(3)
    by (auto split: if_splits prod.splits option.splits)
qed simp

lemma list_loop_safe:
  assumes con: "list_contract rest snap good (pg_PageFn p)"
  shows "good w \<Longrightarrow> loop_inv rest snap options acc \<Longrightarrow>
    list_loop expired ctxDone p rv0 m0 fuel options acc b w = Some res \<Longrightarrow> result_right snap res \<and> good (fst res)"
proof (induction fuel arbitrary: options acc b w)
  case (Suc fuel)
  obtain w' r where r: "pg_PageFn p w options = (w', r)" by fastforce
  note law = list_contractD [OF con Suc.prems(1) r]
  show ?case
  proof (cases "ctxDone w")
    case True
    then show ?thesis using Suc.prems by auto
  next
    case False
    show ?thesis
    proof (cases r)
      case (Inl err)
      then show ?thesis
        using Suc.prems(3) False r law(1) full_list_right [OF con law(1)] by (auto split: if_splits)
    next
      case (Inr obj)
      show ?thesis
      proof (cases obj)
        case NotAList
        then show ?thesis using Suc.prems(3) False r Inr law(1) by auto
      next
        case (AList c rv items)
        obtain rv1 sofar where a: "(rv1, sofar) = (case acc of None \<Rightarrow> (rv, []) | Some a \<Rightarrow> a)" by (metis surj_pair)
        show ?thesis
        proof (cases items)
          case None
          then show ?thesis
            using Suc.prems(3) False r Inr AList law(1) a by (auto split: if_splits prod.splits)
        next
          case (Some xs)
          note page = law(2) [of c rv xs, unfolded Inr AList Some, OF refl]
          note next_inv = loop_inv_page [OF Suc.prems(2) page a]
          show ?thesis
          proof (cases "c = ''''")
            case True
            then show ?thesis
              using Suc.prems(3) False r Inr AList Some next_inv a law(1)
              by (cases acc) auto
          next
            case ne: False
            let ?o = "options\<lparr>lo_Continue := c, lo_ResourceVersion := '''', lo_ResourceVersionMatch := ''''\<rparr>"
            have "list_loop expired ctxDone p rv0 m0 (Suc fuel) options acc b w =
                list_loop expired ctxDone p rv0 m0 fuel ?o (Some (rv1, sofar @ xs)) True w'"
              using False r Inr AList Some ne a by (cases acc) auto
            then show ?thesis using Suc.prems(3) Suc.IH [OF law(1), of ?o] next_inv [of "''''" "''''"] ne by simp
          qed
        qed
      qed
    qed
  qed
qed simp

lemma list_loop_returns:
  assumes con: "list_contract rest snap good (pg_PageFn p)" and ends: "tokens_end pages good (pg_PageFn p)"
  shows "good w \<Longrightarrow> lo_Continue options \<noteq> '''' \<Longrightarrow> pages (lo_Continue options) < fuel \<Longrightarrow>
    list_loop expired ctxDone p rv0 m0 fuel options acc b w \<noteq> None"
proof (induction fuel arbitrary: options acc b w)
  case (Suc fuel)
  obtain w' r where r: "pg_PageFn p w options = (w', r)" by fastforce
  note law = list_contractD [OF con Suc.prems(1) r]
  have "list_loop expired ctxDone p rv0 m0 fuel (options\<lparr>lo_Continue := c, lo_ResourceVersion := '''', lo_ResourceVersionMatch := ''''\<rparr>) acc' True w' \<noteq> None"
    if "r = Inr (AList c rv (Some xs))" "c \<noteq> ''''" for c rv xs acc'
  proof (rule Suc.IH)
    have "pages c < pages (lo_Continue options)"
      using ends Suc.prems(1,2) r that unfolding tokens_end_def by blast
    then show "pages (lo_Continue (options\<lparr>lo_Continue := c, lo_ResourceVersion := '''', lo_ResourceVersionMatch := ''''\<rparr>)) < fuel"
      using Suc.prems(3) by simp
  qed (use law(1) that(2) in simp_all)
  then show ?case using r by (simp del: not_None_eq split: sum.split list_obj.split option.split prod.split)
qed simp

section \<open>Properties\<close>

text \<open>
  C27 The pager returns whole snapshots. If the server keeps the documented meaning of limits and continue tokens (pages may be
  empty), a list that ends without error is the complete collection at its resource version, in order and with no token left, whether it came in
  one page, in many, or through the fall-back after an expired token. The loop ends when the chain of tokens does, after as many pages as
  the chain has; and it ends without error if the context does not end and every request is answered with a readable list.
\<close>

theorem pager_list_complete:
  assumes "list_contract rest snap good (pg_PageFn p)" and "good w" and "lo_Continue options = ''''"
    and "pg_PageFn p w (with_limit p options) = (w', r)"
    and "fuel > (case r of Inr (AList c rv items) \<Rightarrow> Suc (pages c) | _ \<Rightarrow> 0)" and "tokens_end pages good (pg_PageFn p)"
  shows "\<exists>res. pager_list IsResourceExpired ctxDone p fuel options w = Some res \<and> result_right snap res \<and>
    (always_lists good (pg_PageFn p) \<and> (\<forall>w. \<not> ctxDone w) \<longrightarrow>
      (\<exists>w' rv items b. res = (w', Inr (AList '''' rv (Some items)), b) \<and> snap rv items))"
proof -
  have opts: "lo_Continue (with_limit p options) = ''''" using assms(3) by (simp add: with_limit_def)
  obtain n where n: "fuel = Suc n" using assms(5) by (cases fuel) auto
  have "list_loop IsResourceExpired ctxDone p rv0 m0 n
      (with_limit p options\<lparr>lo_Continue := c, lo_ResourceVersion := '''', lo_ResourceVersionMatch := ''''\<rparr>) acc True w' \<noteq> None"
    if "r = Inr (AList c rv items)" "c \<noteq> ''''" for c rv items acc rv0 m0
    by (rule list_loop_returns [OF assms(1,6)]) (use list_contractD(1) [OF assms(1,2,4)] that assms(5) n in simp_all)
  then have "pager_list IsResourceExpired ctxDone p fuel options w \<noteq> None"
    using assms(4) by (simp add: pager_list_def n del: not_None_eq split: sum.split list_obj.split option.split)
  then obtain res where res: "pager_list IsResourceExpired ctxDone p fuel options w = Some res" by blast
  have "loop_inv rest snap (with_limit p options) None" using opts by (simp add: loop_inv_def)
  then have right: "result_right snap res" using list_loop_safe [OF assms(1,2)] res by (auto simp: pager_list_def)
  have "\<exists>w' rv items b. res = (w', Inr (AList '''' rv (Some items)), b) \<and> snap rv items"
    if "always_lists good (pg_PageFn p)" "\<forall>w. \<not> ctxDone w"
  proof -
    have "\<exists>w' rv items b. res = (w', Inr (AList '''' rv (Some items)), b)"
      by (rule list_loop_no_error [OF assms(1) that(1) _ assms(2) res [unfolded pager_list_def]]) (use that(2) in simp)
    then show ?thesis using right by auto
  qed
  then show ?thesis using res right by blast
qed

text \<open>A server with three objects that sends two at a time, with an empty page in between.\<close>

definition demo_page_fn :: "(unit, unit, nat) page_fn" where
  "demo_page_fn w options = (w,
     if lo_Continue options = ''c'' \<and> lo_Limit options \<noteq> 0 then Inr (AList ''d'' ''7'' (Some []))
     else if lo_Continue options = ''c'' \<or> lo_Continue options = ''d'' then Inr (AList '''' ''7'' (Some [3]))
     else if lo_Continue options \<noteq> '''' then Inl ()
     else if lo_Limit options = 2 then Inr (AList ''c'' ''7'' (Some [1, 2])) else Inr (AList '''' ''7'' (Some [1, 2, 3])))"

definition demo_options :: ListOptions where
  "demo_options = \<lparr>lo_Limit = 2, lo_Continue = '''', lo_ResourceVersion = ''0'', lo_ResourceVersionMatch = '''', lo_SendInitialEvents = False\<rparr>"

definition demo_rest :: "string \<Rightarrow> string \<times> nat list" where
  "demo_rest c = (if c = ''c'' \<or> c = ''d'' then (''7'', [3]) else ('''', [0]))"

definition demo_pages :: "string \<Rightarrow> nat" where
  "demo_pages c = (if c = ''c'' then 1 else 0)"

theorem pager_list_complete_witness:
  "\<exists>res. pager_list (\<lambda>_. True) (\<lambda>_. False) (pager_New demo_page_fn) 3 demo_options () = Some res \<and>
     result_right (\<lambda>rv items. rv = ''7'' \<and> items = [1, 2, 3]) res \<and> fst (snd res) = Inr (AList '''' ''7'' (Some [1, 2, 3]))"
proof -
  let ?snap = "\<lambda>rv items. rv = ''7'' \<and> items = [1, 2, 3 :: nat]" and ?p = "pager_New demo_page_fn"
  have con: "list_contract demo_rest ?snap (\<lambda>_. True) (pg_PageFn ?p)"
    by (auto simp: list_contract_def page_right_def pager_New_def demo_page_fn_def demo_rest_def split: if_splits)
  have ends: "tokens_end demo_pages (\<lambda>_. True) (pg_PageFn ?p)"
    by (auto simp: tokens_end_def pager_New_def demo_page_fn_def demo_pages_def split: if_splits)
  have page: "pg_PageFn ?p () (with_limit ?p demo_options) = ((), Inr (AList ''c'' ''7'' (Some [1, 2])))"
    by (simp add: pager_New_def with_limit_def demo_page_fn_def demo_options_def)
  have run: "pager_list (\<lambda>_. True) (\<lambda>_. False) ?p 3 demo_options () = Some ((), Inr (AList '''' ''7'' (Some [1, 2, 3])), True)"
    by (simp add: eval_nat_numeral pager_list_def pager_New_def with_limit_def demo_page_fn_def demo_options_def)
  have opt: "lo_Continue demo_options = ''''" by (simp add: demo_options_def)
  from pager_list_complete [OF con TrueI opt page _ ends, of 3 "\<lambda>_. True" "\<lambda>_. False"] show ?thesis
    by (simp add: run demo_pages_def)
qed

end
