(* ===== verification/Reflector.thy ===== *)
theory Reflector
  imports Informer Pager "HOL-Library.Sublist"
begin

text \<open>
  \<open>tools/cache/reflector.go\<close> and \<open>tools/cache/retry_with_deadline.go\<close>: a reflector lists a collection of objects, hands the
  list to its store with \<open>Replace\<close>, and then watches the collection and hands every event to the store. It starts
  over when a watch cannot be resumed.

  Everything outside acts on a world \<open>'w\<close>: the \<open>ListerWatcher\<close>, the clock, the backoff timer and \<open>stopCh\<close>. A watch is the list of what the
  \<open>select\<close> of \<open>watchHandler\<close> receives in turn; at its end the handler is still waiting. \<open>apierrors\<close> and
  \<open>meta.Accessor\<close> belong to apimachinery and are arguments, too. The outcome \<open>Running\<close> is a loop that has not
  returned yet: it waits, or its fuel is used up. So the theorems hold in every state between two receives, not
  only when the loops end.

  Logging, tracing, the timeout of watch requests, and the goroutine of \<open>list\<close> (it only turns a panic of the lister
  into one of the reflector) are left out. \<open>startResync\<close> is another goroutine: what it and the consumers of the
  store do is part of the store (\<open>informer_sink\<close>).
\<close>

section \<open>Errors\<close>

record 'e apierrors =
  ae_IsResourceExpired :: "'e \<Rightarrow> bool"
  ae_IsGone :: "'e \<Rightarrow> bool"
  ae_IsTooManyRequests :: "'e \<Rightarrow> bool"
  ae_IsInternalError :: "'e \<Rightarrow> bool"
  ae_IsInvalid :: "'e \<Rightarrow> bool"
  ae_IsConnectionRefused :: "'e \<Rightarrow> bool"
  ae_IsTimeout :: "'e \<Rightarrow> bool"
  ae_HasTooLargeCause :: "'e \<Rightarrow> bool"
  ae_Status :: "'e \<Rightarrow> (string list option \<times> string) option"

datatype 'e refl_err =
    ApiErr 'e
  | FailedToList "'e pager_err"
  | BadList
  | UnableToSync
  | ErrorStopRequested
  | ResyncErr
  | VeryShortWatch

definition isExpiredError :: "'e apierrors \<Rightarrow> 'e \<Rightarrow> bool" where
  "isExpiredError ae err \<longleftrightarrow> ae_IsResourceExpired ae err \<or> ae_IsGone ae err"

definition strings_Contains :: "string \<Rightarrow> string \<Rightarrow> bool" where
  "strings_Contains s substr \<longleftrightarrow> sublist substr s"

definition isTooLargeResourceVersionError :: "'e apierrors \<Rightarrow> 'e \<Rightarrow> bool" where
  "isTooLargeResourceVersionError ae err =
     (if ae_HasTooLargeCause ae err then True
      else if \<not> ae_IsTimeout ae err then False
      else case ae_Status ae err of
             None \<Rightarrow> False
           | Some (None, _) \<Rightarrow> False
           | Some (Some causes, message) \<Rightarrow>
               if \<exists>cause \<in> set causes. cause = ''Too large resource version'' then True
               else strings_Contains message ''Too large resource version'')"

definition isWatchErrorRetriable :: "'e apierrors \<Rightarrow> 'e \<Rightarrow> bool" where
  "isWatchErrorRetriable ae err \<longleftrightarrow> ae_IsConnectionRefused ae err \<or> ae_IsTooManyRequests ae err"

text \<open>The predicates of \<open>apierrors\<close> are false of errors that did not come from the server.\<close>

definition on_api :: "('e \<Rightarrow> bool) \<Rightarrow> 'e refl_err \<Rightarrow> bool" where
  "on_api P err = (case err of ApiErr e \<Rightarrow> P e | _ \<Rightarrow> False)"

definition on_page :: "('e \<Rightarrow> bool) \<Rightarrow> 'e pager_err \<Rightarrow> bool" where
  "on_page P err = (case err of Api e \<Rightarrow> P e | _ \<Rightarrow> False)"

section \<open>RetryWithDeadline\<close>

text \<open>The zero time is \<open>None\<close>.\<close>

record retryWithDeadlineImpl =
  rd_firstErrorTime :: "int option"
  rd_lastErrorTime :: "int option"
  rd_maxRetryDuration :: int
  rd_minResetPeriod :: int

definition NewRetryWithDeadline :: "int \<Rightarrow> int \<Rightarrow> retryWithDeadlineImpl" where
  "NewRetryWithDeadline maxRetryDuration minResetPeriod =
     \<lparr>rd_firstErrorTime = None, rd_lastErrorTime = None, rd_maxRetryDuration = maxRetryDuration, rd_minResetPeriod = minResetPeriod\<rparr>"

definition rd_reset :: "retryWithDeadlineImpl \<Rightarrow> retryWithDeadlineImpl" where
  "rd_reset r = r\<lparr>rd_firstErrorTime := None, rd_lastErrorTime := None\<rparr>"

text \<open>A time minus the zero time is the largest duration, as \<open>Sub\<close> saturates.\<close>

definition since_opt :: "int \<Rightarrow> int option \<Rightarrow> int" where
  "since_opt now t = (case t of None \<Rightarrow> 2 ^ 63 - 1 | Some t \<Rightarrow> time_Sub now t)"

definition rd_After :: "bool \<Rightarrow> int \<Rightarrow> retryWithDeadlineImpl \<Rightarrow> retryWithDeadlineImpl" where
  "rd_After retryable now r =
     (if retryable
      then let r = (if since_opt now (rd_lastErrorTime r) \<ge> rd_minResetPeriod r then rd_reset r else r);
               r = (if rd_firstErrorTime r = None then r\<lparr>rd_firstErrorTime := Some now\<rparr> else r)
           in r\<lparr>rd_lastErrorTime := Some now\<rparr>
      else r)"

definition rd_ShouldRetry :: "int \<Rightarrow> retryWithDeadlineImpl \<Rightarrow> retryWithDeadlineImpl \<times> bool" where
  "rd_ShouldRetry now r =
     (if rd_maxRetryDuration r \<le> 0 then (r, False)
      else if since_opt now (rd_firstErrorTime r) \<le> rd_maxRetryDuration r then (r, True)
      else (rd_reset r, False))"

section \<open>The reflector and its store\<close>

text \<open>
  The methods of the store that the reflector calls. An error of \<open>Add\<close>, \<open>Update\<close> or \<open>Delete\<close> is only logged. A store that is no
  \<open>ResourceVersionUpdater\<close> has the identity as the last.
\<close>

record ('s, 'o) sink =
  sk_Add :: "'s \<Rightarrow> 'o obj \<Rightarrow> 's"
  sk_Update :: "'s \<Rightarrow> 'o obj \<Rightarrow> 's"
  sk_Delete :: "'s \<Rightarrow> 'o obj \<Rightarrow> 's"
  sk_Replace :: "'s \<Rightarrow> 'o obj list \<Rightarrow> 's \<times> bool"
  sk_UpdateResourceVersion :: "'s \<Rightarrow> string \<Rightarrow> 's"

datatype event_type = EvAdded | EvModified | EvDeleted | EvBookmark | EvError | EvOther

datatype 'o watch_input = StopCh | ErrC | Event event_type "'o obj" | Closed

text \<open>
  \<open>re_meta\<close> gives the resource version and the annotations of an object, \<open>re_expected\<close> the comparisons with the expected type and
  kind (true when there is none), \<open>re_Backoff\<close> whether \<open>stopCh\<close> was closed before the backoff was over.
\<close>

record ('w, 'o, 'e) refl_env =
  re_apierrors :: "'e apierrors"
  re_List :: "('w, 'e, 'o obj) page_fn"
  re_Watch :: "'w \<Rightarrow> ListOptions \<Rightarrow> 'w \<times> ('e + 'o watch_input list)"
  re_FromObject :: "'o obj \<Rightarrow> 'e"
  re_meta :: "'o obj \<Rightarrow> (string \<times> string list) option"
  re_expected :: "'o obj \<Rightarrow> bool"
  re_Now :: "'w \<Rightarrow> 'w \<times> int"
  re_Stopped :: "'w \<Rightarrow> 'w \<times> bool"
  re_Backoff :: "'w \<Rightarrow> 'w \<times> bool"

record reflector =
  rf_paginatedResult :: bool
  rf_lastSyncResourceVersion :: string
  rf_isLastSyncResourceVersionUnavailable :: bool
  rf_WatchListPageSize :: int
  rf_MaxInternalErrorRetryDuration :: int
  rf_UseWatchList :: bool

definition NewReflectorWithOptions :: "bool \<Rightarrow> reflector" where
  "NewReflectorWithOptions UseWatchList =
     \<lparr>rf_paginatedResult = False, rf_lastSyncResourceVersion = '''', rf_isLastSyncResourceVersionUnavailable = False,
      rf_WatchListPageSize = 0, rf_MaxInternalErrorRetryDuration = 0, rf_UseWatchList = UseWatchList\<rparr>"

definition setLastSyncResourceVersion :: "string \<Rightarrow> reflector \<Rightarrow> reflector" where
  "setLastSyncResourceVersion v r = r\<lparr>rf_lastSyncResourceVersion := v\<rparr>"

definition setIsLastSyncResourceVersionUnavailable :: "bool \<Rightarrow> reflector \<Rightarrow> reflector" where
  "setIsLastSyncResourceVersionUnavailable isUnavailable r = r\<lparr>rf_isLastSyncResourceVersionUnavailable := isUnavailable\<rparr>"

definition relistResourceVersion :: "reflector \<Rightarrow> string" where
  "relistResourceVersion r =
     (if rf_isLastSyncResourceVersionUnavailable r then ''''
      else if rf_lastSyncResourceVersion r = '''' then ''0''
      else rf_lastSyncResourceVersion r)"

definition rewatchResourceVersion :: "reflector \<Rightarrow> string" where
  "rewatchResourceVersion r =
     (if rf_isLastSyncResourceVersionUnavailable r then '''' else rf_lastSyncResourceVersion r)"

section \<open>watchHandler\<close>

datatype 'a outcome = Running | Done 'a

text \<open>One event: the store and \<open>setLastSyncResourceVersion\<close>, and whether the event is the bookmark that ends the initial events.\<close>

definition apply_event :: "('s, 'o) sink \<Rightarrow> event_type \<Rightarrow> 'o obj \<Rightarrow> string \<Rightarrow> 's \<Rightarrow> 's" where
  "apply_event sk t obj resourceVersion s =
     sk_UpdateResourceVersion sk
       (case t of EvAdded \<Rightarrow> sk_Add sk s obj | EvModified \<Rightarrow> sk_Update sk s obj | EvDeleted \<Rightarrow> sk_Delete sk s obj | _ \<Rightarrow> s)
       resourceVersion"

definition initial_events_end :: "event_type \<Rightarrow> string list \<Rightarrow> bool" where
  "initial_events_end t annotations \<longleftrightarrow> t = EvBookmark \<and> ''k8s.io/initial-events-end'' \<in> set annotations"

text \<open>
  \<open>exit\<close> says whether \<open>exitOnInitialEventsEndBookmark\<close> is not nil. The result also has what is left in the channel of the watch, and
  whether the bookmark was received.
\<close>

fun watchHandler ::
  "('w, 'o, 'e) refl_env \<Rightarrow> ('s, 'o) sink \<Rightarrow> (string \<Rightarrow> 'l \<Rightarrow> 'l) \<Rightarrow> bool \<Rightarrow> int \<Rightarrow> nat \<Rightarrow> 'o watch_input list \<Rightarrow> 'w \<Rightarrow> 's \<Rightarrow> 'l
     \<Rightarrow> 'w \<times> 's \<times> 'l \<times> ('o watch_input list \<times> bool \<times> 'e refl_err option) outcome"
where
  "watchHandler env sk setRV exit start eventCount [] w s l = (w, s, l, Running)"
| "watchHandler env sk setRV exit start eventCount (StopCh # inputs) w s l =
     (w, s, l, Done (inputs, False, Some ErrorStopRequested))"
| "watchHandler env sk setRV exit start eventCount (ErrC # inputs) w s l = (w, s, l, Done (inputs, False, Some ResyncErr))"
| "watchHandler env sk setRV exit start eventCount (Closed # inputs) w s l =
     (let (w, now) = re_Now env w
      in (w, s, l, Done (inputs, False,
            if time_Sub now start < 1000000000 \<and> eventCount = 0 then Some VeryShortWatch else None)))"
| "watchHandler env sk setRV exit start eventCount (Event t obj # inputs) w s l =
     (if t = EvError then (w, s, l, Done (inputs, False, Some (ApiErr (re_FromObject env obj))))
      else if \<not> re_expected env obj then watchHandler env sk setRV exit start eventCount inputs w s l
      else case re_meta env obj of
             None \<Rightarrow> watchHandler env sk setRV exit start eventCount inputs w s l
           | Some (resourceVersion, annotations) \<Rightarrow>
               let s = apply_event sk t obj resourceVersion s; l = setRV resourceVersion l
               in if exit \<and> initial_events_end t annotations then (w, s, l, Done (inputs, True, None))
                  else watchHandler env sk setRV exit start (Suc eventCount) inputs w s l)"

section \<open>list and watch\<close>

definition list_options :: "string \<Rightarrow> ListOptions" where
  "list_options rv = \<lparr>lo_Limit = 0, lo_Continue = '''', lo_ResourceVersion = rv, lo_ResourceVersionMatch = '''',
     lo_SendInitialEvents = False\<rparr>"

definition list_pager :: "('w, 'o, 'e) refl_env \<Rightarrow> reflector \<Rightarrow> string \<Rightarrow> ('w, 'e, 'o obj) ListPager" where
  "list_pager env r rv =
     (let p = pager_New (re_List env)
      in if rf_WatchListPageSize r \<noteq> 0 then p\<lparr>pg_PageSize := rf_WatchListPageSize r\<rparr>
         else if rf_paginatedResult r then p
         else if rv \<noteq> '''' \<and> rv \<noteq> ''0'' then p\<lparr>pg_PageSize := 0\<rparr>
         else p)"

text \<open>The list, and the second one when the resource version is not available; the fuel bounds the pages of each.\<close>

definition rf_fetch ::
  "('w, 'o, 'e) refl_env \<Rightarrow> nat \<Rightarrow> reflector \<Rightarrow> 'w \<Rightarrow> (reflector \<times> ('w, 'e, 'o obj) list_result) option"
where
  "rf_fetch env fuel r w =
     (let ae = re_apierrors env; p = list_pager env r (relistResourceVersion r);
          pages = pager_list (ae_IsResourceExpired ae) (\<lambda>_. False) p fuel
      in case pages (list_options (relistResourceVersion r)) w of
           None \<Rightarrow> None
         | Some (w, Inl err, paginated) \<Rightarrow>
             if on_page (isExpiredError ae) err \<or> on_page (isTooLargeResourceVersionError ae) err
             then let r = setIsLastSyncResourceVersionUnavailable True r
                  in map_option (Pair r) (pages (list_options (relistResourceVersion r)) w)
             else Some (r, w, Inl err, paginated)
         | Some res \<Rightarrow> Some (r, res))"

definition rf_syncWith :: "('s, 'o) sink \<Rightarrow> 'o obj list \<Rightarrow> 's \<Rightarrow> 's \<times> bool" where
  "rf_syncWith sk items s = sk_Replace sk s items"

definition rf_list ::
  "('w, 'o, 'e) refl_env \<Rightarrow> ('s, 'o) sink \<Rightarrow> nat \<Rightarrow> reflector \<Rightarrow> 'w \<Rightarrow> 's \<Rightarrow> reflector \<times> 'w \<times> 's \<times> 'e refl_err option outcome"
where
  "rf_list env sk fuel r w s =
     (case rf_fetch env fuel r w of
        None \<Rightarrow> (r, w, s, Running)
      | Some (r1, w, res, paginatedResult) \<Rightarrow>
          let (w, stopped) = re_Stopped env w
          in if stopped then (r1, w, s, Done None)
             else case res of
               Inl err \<Rightarrow> (r1, w, s, Done (Some (FailedToList err)))
             | Inr obj \<Rightarrow>
                 let r2 = (if relistResourceVersion r = ''0'' \<and> paginatedResult then r1\<lparr>rf_paginatedResult := True\<rparr> else r1);
                     r3 = setIsLastSyncResourceVersionUnavailable False r2
                 in case obj of
                      AList _ resourceVersion (Some items) \<Rightarrow>
                        let (s, ok) = rf_syncWith sk items s
                        in if ok then (setLastSyncResourceVersion resourceVersion r3, w, s, Done None)
                           else (r3, w, s, Done (Some UnableToSync))
                    | _ \<Rightarrow> (r3, w, s, Done (Some BadList)))"

definition watch_options :: "string \<Rightarrow> ListOptions" where
  "watch_options rv = \<lparr>lo_Limit = 0, lo_Continue = '''', lo_ResourceVersion = rv, lo_ResourceVersionMatch = '''',
     lo_SendInitialEvents = False\<rparr>"

text \<open>
  What \<open>watch\<close> does once its handler has returned: \<open>Again\<close> goes round the loop, \<open>Leave\<close> leaves it. The error is never returned to the caller.
\<close>

datatype after_watch = Again | Leave

definition after_watchHandler ::
  "('w, 'o, 'e) refl_env \<Rightarrow> 'e refl_err option \<Rightarrow> retryWithDeadlineImpl \<Rightarrow> 'w \<Rightarrow> 'w \<times> retryWithDeadlineImpl \<times> after_watch"
where
  "after_watchHandler env err retry w =
     (let ae = re_apierrors env; (w, now) = re_Now env w;
          retry = rd_After (case err of None \<Rightarrow> False | Some e \<Rightarrow> on_api (ae_IsInternalError ae) e) now retry
      in case err of
           None \<Rightarrow> (w, retry, Again)
         | Some e \<Rightarrow>
             if e = ErrorStopRequested then (w, retry, Leave)
             else if on_api (isExpiredError ae) e then (w, retry, Leave)
             else if on_api (ae_IsTooManyRequests ae) e
               then let (w, stopped) = re_Backoff env w in (w, retry, if stopped then Leave else Again)
             else if on_api (ae_IsInternalError ae) e
               then let (w, now) = re_Now env w; (retry, again) = rd_ShouldRetry now retry in (w, retry, if again then Again else Leave)
             else (w, retry, Leave))"

fun rf_watch ::
  "('w, 'o, 'e) refl_env \<Rightarrow> ('s, 'o) sink \<Rightarrow> nat \<Rightarrow> retryWithDeadlineImpl \<Rightarrow> 'o watch_input list option \<Rightarrow> reflector \<Rightarrow> 'w \<Rightarrow> 's
     \<Rightarrow> reflector \<times> 'w \<times> 's \<times> 'e refl_err option outcome"
where
  "rf_watch env sk 0 retry stream r w s = (r, w, s, Running)"
| "rf_watch env sk (Suc fuel) retry stream r w s =
     (let (w, stopped) = re_Stopped env w
      in if stopped then (r, w, s, Done None)
         else
           let (w, start) = re_Now env w;
               (w, opened) = (case stream of
                   Some inputs \<Rightarrow> (w, Inr inputs)
                 | None \<Rightarrow> re_Watch env w (watch_options (rf_lastSyncResourceVersion r)))
           in case opened of
                Inl err \<Rightarrow>
                  if isWatchErrorRetriable (re_apierrors env) err
                  then let (w, stopped) = re_Backoff env w
                       in if stopped then (r, w, s, Done None) else rf_watch env sk fuel retry None r w s
                  else (r, w, s, Done (Some (ApiErr err)))
              | Inr inputs \<Rightarrow>
                  (case watchHandler env sk setLastSyncResourceVersion False start 0 inputs w s r of
                     (w, s, r, Running) \<Rightarrow> (r, w, s, Running)
                   | (w, s, r, Done (_, _, err)) \<Rightarrow>
                       let (w, retry, next) = after_watchHandler env err retry w
                       in if next = Again then rf_watch env sk fuel retry None r w s else (r, w, s, Done None)))"

declare rf_watch.simps [simp del]

section \<open>watchList\<close>

definition watchlist_options :: "string \<Rightarrow> ListOptions" where
  "watchlist_options rv = \<lparr>lo_Limit = 0, lo_Continue = '''', lo_ResourceVersion = rv,
     lo_ResourceVersionMatch = ''NotOlderThan'', lo_SendInitialEvents = True\<rparr>"

text \<open>The temporary store: a \<open>NewStore\<close>, without indexers.\<close>

definition cache_sink :: "('o obj gomap \<Rightarrow> string list) \<Rightarrow> ('o goval cache, 'o) sink" where
  "cache_sink korder =
     \<lparr>sk_Add = (\<lambda>c obj. fst (cache_Add [] c obj)), sk_Update = (\<lambda>c obj. fst (cache_Update [] c obj)),
      sk_Delete = (\<lambda>c obj. fst (cache_Delete [] c obj)),
      sk_Replace = (\<lambda>c list. case cache_Replace (\<lambda>_. []) korder c list of (c, Ret None) \<Rightarrow> (c, True) | (c, _) \<Rightarrow> (c, False)),
      sk_UpdateResourceVersion = (\<lambda>c _. c)\<rparr>"

text \<open>\<open>isErrorRetriableWithSideEffectsFn\<close>.\<close>

definition watchlist_retry :: "('w, 'o, 'e) refl_env \<Rightarrow> 'e refl_err \<Rightarrow> reflector \<Rightarrow> 'w \<Rightarrow> reflector \<times> 'w \<times> bool" where
  "watchlist_retry env err r w =
     (let ae = re_apierrors env
      in if on_api (isWatchErrorRetriable ae) err then let (w, _) = re_Backoff env w in (r, w, True)
         else if on_api (isExpiredError ae) err \<or> on_api (isTooLargeResourceVersionError ae) err
           then (setIsLastSyncResourceVersionUnavailable True r, w, True)
         else (r, w, False))"

text \<open>The end of \<open>watchList\<close>, after the bookmark.\<close>

definition watchlist_finish ::
  "('s, 'o) sink \<Rightarrow> 'o obj list \<Rightarrow> string \<Rightarrow> 'o watch_input list \<Rightarrow> reflector \<Rightarrow> 'w \<Rightarrow> 's
     \<Rightarrow> reflector \<times> 'w \<times> 's \<times> ('o watch_input list option \<times> 'e refl_err option) outcome"
where
  "watchlist_finish sk items resourceVersion stream r w s =
     (let r = setIsLastSyncResourceVersionUnavailable False r; (s, ok) = sk_Replace sk s items
      in if ok then (setLastSyncResourceVersion resourceVersion r, w, s, Done (Some stream, None))
         else (r, w, s, Done (None, Some UnableToSync)))"

fun rf_watchList ::
  "('w, 'o, 'e) refl_env \<Rightarrow> ('s, 'o) sink \<Rightarrow> 'o accessor \<Rightarrow> ('o obj gomap \<Rightarrow> string list) \<Rightarrow> nat \<Rightarrow> reflector \<Rightarrow> 'w \<Rightarrow> 's
     \<Rightarrow> reflector \<times> 'w \<times> 's \<times> ('o watch_input list option \<times> 'e refl_err option) outcome"
where
  "rf_watchList env sk accessor korder 0 r w s = (r, w, s, Running)"
| "rf_watchList env sk accessor korder (Suc fuel) r w s =
     (let (w, stopped) = re_Stopped env w
      in if stopped then (r, w, s, Done (None, None))
         else
           let (w, start) = re_Now env w
           in case re_Watch env w (watchlist_options (rewatchResourceVersion r)) of
                (w, Inl err) \<Rightarrow>
                  (case watchlist_retry env (ApiErr err) r w of
                     (r, w, True) \<Rightarrow> rf_watchList env sk accessor korder fuel r w s
                   | (r, w, False) \<Rightarrow> (r, w, s, Done (None, Some (ApiErr err))))
              | (w, Inr inputs) \<Rightarrow>
                  (case watchHandler env (cache_sink korder) (\<lambda>rv _. rv) True start 0 inputs w
                          (NewStore (DeletionHandlingMetaNamespaceKeyFunc accessor)) '''' of
                     (w, c, rv, Running) \<Rightarrow> (r, w, s, Running)
                   | (w, c, rv, Done (_, _, Some err)) \<Rightarrow>
                       if err = ErrorStopRequested then (r, w, s, Done (None, None))
                       else (case watchlist_retry env err r w of
                               (r, w, True) \<Rightarrow> rf_watchList env sk accessor korder fuel r w s
                             | (r, w, False) \<Rightarrow> (r, w, s, Done (None, Some err)))
                   | (w, c, rv, Done (stream, bookmark, None)) \<Rightarrow>
                       if bookmark
                       then watchlist_finish sk (cache_List (korder (cache_content c)) c) rv stream r w s
                       else rf_watchList env sk accessor korder fuel r w s))"

declare rf_watchList.simps [simp del]

section \<open>ListAndWatch and Run\<close>

definition rf_start_watch ::
  "('w, 'o, 'e) refl_env \<Rightarrow> ('s, 'o) sink \<Rightarrow> nat \<Rightarrow> 'o watch_input list option \<Rightarrow> reflector \<Rightarrow> 'w \<Rightarrow> 's
     \<Rightarrow> reflector \<times> 'w \<times> 's \<times> 'e refl_err option outcome"
where
  "rf_start_watch env sk fuel stream r w s =
     rf_watch env sk fuel (NewRetryWithDeadline (rf_MaxInternalErrorRetryDuration r) 60000000000) stream r w s"

definition rf_list_and_watch ::
  "('w, 'o, 'e) refl_env \<Rightarrow> ('s, 'o) sink \<Rightarrow> nat \<Rightarrow> reflector \<Rightarrow> 'w \<Rightarrow> 's \<Rightarrow> reflector \<times> 'w \<times> 's \<times> 'e refl_err option outcome"
where
  "rf_list_and_watch env sk fuel r w s =
     (case rf_list env sk fuel r w s of
        (r, w, s, Done None) \<Rightarrow> rf_start_watch env sk fuel None r w s
      | res \<Rightarrow> res)"

definition ListAndWatch ::
  "('w, 'o, 'e) refl_env \<Rightarrow> ('s, 'o) sink \<Rightarrow> 'o accessor \<Rightarrow> ('o obj gomap \<Rightarrow> string list) \<Rightarrow> nat \<Rightarrow> reflector \<Rightarrow> 'w \<Rightarrow> 's
     \<Rightarrow> reflector \<times> 'w \<times> 's \<times> 'e refl_err option outcome"
where
  "ListAndWatch env sk accessor korder fuel r w s =
     (if rf_UseWatchList r
      then (case rf_watchList env sk accessor korder fuel r w s of
              (r, w, s, Running) \<Rightarrow> (r, w, s, Running)
            | (r, w, s, Done (None, None)) \<Rightarrow> (r, w, s, Done None)
            | (r, w, s, Done (_, Some err)) \<Rightarrow>
                if \<not> on_api (ae_IsInvalid (re_apierrors env)) err then (r, w, s, Done (Some err))
                else rf_list_and_watch env sk fuel r w s
            | (r, w, s, Done (Some stream, None)) \<Rightarrow> rf_start_watch env sk fuel (Some stream) r w s)
      else rf_list_and_watch env sk fuel r w s)"

text \<open>\<open>Run\<close>, with \<open>wait.BackoffUntil\<close>; the \<open>WatchErrorHandler\<close> only logs by default.\<close>

fun rf_Run ::
  "('w, 'o, 'e) refl_env \<Rightarrow> ('s, 'o) sink \<Rightarrow> 'o accessor \<Rightarrow> ('o obj gomap \<Rightarrow> string list) \<Rightarrow> nat \<Rightarrow> nat \<Rightarrow> reflector \<Rightarrow> 'w \<Rightarrow> 's
     \<Rightarrow> reflector \<times> 'w \<times> 's \<times> unit outcome"
where
  "rf_Run env sk accessor korder fuel 0 r w s = (r, w, s, Running)"
| "rf_Run env sk accessor korder fuel (Suc n) r w s =
     (let (w, stopped) = re_Stopped env w
      in if stopped then (r, w, s, Done ())
         else case ListAndWatch env sk accessor korder fuel r w s of
                (r, w, s, Running) \<Rightarrow> (r, w, s, Running)
              | (r, w, s, Done _) \<Rightarrow>
                  let (w, stopped) = re_Backoff env w
                  in if stopped then (r, w, s, Done ()) else rf_Run env sk accessor korder fuel n r w s)"

declare rf_Run.simps [simp del]

section \<open>What the server promises\<close>

text \<open>\<open>state rv\<close> is the collection at a resource version.\<close>

definition event_state :: "'o goval key_func \<Rightarrow> event_type \<Rightarrow> 'o obj \<Rightarrow> 'o obj gomap \<Rightarrow> 'o obj gomap" where
  "event_state key t obj cur =
     (if t = EvAdded \<or> t = EvModified then cur(projr (key obj) \<mapsto> obj)
      else if t = EvDeleted then cur(projr (key obj) := None) else cur)"

text \<open>An object the reflector can use: of the expected type, with metadata, a key, and accepted by the store.\<close>

definition event_usable ::
  "('w, 'o, 'e) refl_env \<Rightarrow> 'o goval key_func \<Rightarrow> ('o obj \<Rightarrow> bool) \<Rightarrow> event_type \<Rightarrow> 'o obj \<Rightarrow> bool"
where
  "event_usable env key good t obj \<longleftrightarrow> re_expected env obj \<and> re_meta env obj \<noteq> None \<and>
     (t = EvAdded \<or> t = EvModified \<or> t = EvDeleted \<longrightarrow> good obj \<and> (\<exists>k. key obj = Inr k))"

text \<open>
  A watch from a resource version sends every later change, in order, with the version it leads to; a bookmark says that there was none up
  to its version. After an error, the end of the channel or a stop there is nothing to say.
\<close>

fun stream_right ::
  "('w, 'o, 'e) refl_env \<Rightarrow> 'o goval key_func \<Rightarrow> ('o obj \<Rightarrow> bool) \<Rightarrow> (string \<Rightarrow> 'o obj gomap) \<Rightarrow> 'o obj gomap \<Rightarrow> 'o watch_input list \<Rightarrow> bool"
where
  "stream_right env key good state cur (Event t obj # inputs) \<longleftrightarrow>
     t = EvError \<or>
     event_usable env key good t obj \<and>
     (let rv = fst (the (re_meta env obj)); cur' = event_state key t obj cur
      in rv \<noteq> '''' \<and> state rv = cur' \<and> stream_right env key good state cur' inputs)"
| "stream_right env key good state cur inputs \<longleftrightarrow> True"

text \<open>
  A watch with initial events sends the objects of the collection first, and then the bookmark with the version they belong to. From there on it is an
  ordinary watch.
\<close>

fun initial_right ::
  "('w, 'o, 'e) refl_env \<Rightarrow> 'o goval key_func \<Rightarrow> ('o obj \<Rightarrow> bool) \<Rightarrow> (string \<Rightarrow> 'o obj gomap) \<Rightarrow> 'o obj gomap \<Rightarrow> 'o watch_input list \<Rightarrow> bool"
where
  "initial_right env key good state cur (Event t obj # inputs) \<longleftrightarrow>
     t = EvError \<or>
     event_usable env key good t obj \<and>
     (let (rv, annotations) = the (re_meta env obj); cur' = event_state key t obj cur
      in if initial_events_end t annotations
         then rv \<noteq> '''' \<and> state rv = cur' \<and> stream_right env key good state cur' inputs
         else initial_right env key good state cur' inputs)"
| "initial_right env key good state cur inputs \<longleftrightarrow> True"

definition snapshot :: "'o goval key_func \<Rightarrow> ('o obj \<Rightarrow> bool) \<Rightarrow> (string \<Rightarrow> 'o obj gomap) \<Rightarrow> string \<Rightarrow> 'o obj list \<Rightarrow> bool" where
  "snapshot key good state rv items \<longleftrightarrow> rv \<noteq> '''' \<and> (\<forall>obj \<in> set items. good obj \<and> (\<exists>k. key obj = Inr k)) \<and>
     state rv = map_of (rev (map (\<lambda>obj. (projr (key obj), obj)) items))"

text \<open>
  The server lists and watches as documented, and a closed \<open>stopCh\<close> stays closed. \<open>wgood\<close> are the worlds in which that holds.
\<close>

definition server_right ::
  "('w, 'o, 'e) refl_env \<Rightarrow> 'o goval key_func \<Rightarrow> ('o obj \<Rightarrow> bool) \<Rightarrow> (string \<Rightarrow> 'o obj gomap) \<Rightarrow> (string \<Rightarrow> string \<times> 'o obj list)
     \<Rightarrow> ('w \<Rightarrow> bool) \<Rightarrow> bool"
where
  "server_right env key good state rest wgood \<longleftrightarrow>
     list_contract rest (snapshot key good state) wgood (re_List env) \<and>
     (\<forall>w options w' r. wgood w \<longrightarrow> re_Watch env w options = (w', r) \<longrightarrow> wgood w' \<and>
        (\<forall>inputs. r = Inr inputs \<longrightarrow>
           (if lo_SendInitialEvents options then initial_right env key good state Map.empty inputs
            else stream_right env key good state (state (lo_ResourceVersion options)) inputs))) \<and>
     (\<forall>w w' t. wgood w \<longrightarrow> re_Now env w = (w', t) \<longrightarrow> wgood w') \<and>
     (\<forall>w w' b. wgood w \<longrightarrow> re_Backoff env w = (w', b) \<longrightarrow> wgood w') \<and>
     (\<forall>w w' b. wgood w \<longrightarrow> re_Stopped env w = (w', b) \<longrightarrow> wgood w' \<and> (b \<longrightarrow> snd (re_Stopped env w')))"

lemma server_rightD:
  assumes "server_right env key good state rest wgood" and "wgood w"
  shows "re_Watch env w options = (w', r) \<Longrightarrow> wgood w'"
    and "re_Watch env w options = (w', Inr inputs) \<Longrightarrow> lo_SendInitialEvents options \<Longrightarrow>
      initial_right env key good state Map.empty inputs"
    and "re_Watch env w options = (w', Inr inputs) \<Longrightarrow> \<not> lo_SendInitialEvents options \<Longrightarrow>
      stream_right env key good state (state (lo_ResourceVersion options)) inputs"
    and "re_Now env w = (w', t) \<Longrightarrow> wgood w'" and "re_Backoff env w = (w', b) \<Longrightarrow> wgood w'"
    and "re_Stopped env w = (w', b) \<Longrightarrow> wgood w'"
    and "re_Stopped env w = (w', True) \<Longrightarrow> snd (re_Stopped env w')"
proof -
  have watch: "\<And>options w' r. re_Watch env w options = (w', r) \<Longrightarrow> wgood w' \<and> (\<forall>inputs. r = Inr inputs \<longrightarrow>
      (if lo_SendInitialEvents options then initial_right env key good state Map.empty inputs
       else stream_right env key good state (state (lo_ResourceVersion options)) inputs))"
    using assms unfolding server_right_def by blast
  show "re_Watch env w options = (w', r) \<Longrightarrow> wgood w'" using watch by blast
  show "re_Watch env w options = (w', Inr inputs) \<Longrightarrow> lo_SendInitialEvents options \<Longrightarrow>
      initial_right env key good state Map.empty inputs"
    and "re_Watch env w options = (w', Inr inputs) \<Longrightarrow> \<not> lo_SendInitialEvents options \<Longrightarrow>
      stream_right env key good state (state (lo_ResourceVersion options)) inputs"
    using watch [of options w' "Inr inputs"] by simp_all
  show "re_Now env w = (w', t) \<Longrightarrow> wgood w'" "re_Backoff env w = (w', b) \<Longrightarrow> wgood w'"
    "re_Stopped env w = (w', b) \<Longrightarrow> wgood w'" "re_Stopped env w = (w', True) \<Longrightarrow> snd (re_Stopped env w')"
    using assms unfolding server_right_def by blast+
qed

lemma server_now: "server_right env key good state rest wgood \<Longrightarrow> \<forall>w w' t. wgood w \<longrightarrow> re_Now env w = (w', t) \<longrightarrow> wgood w'"
  unfolding server_right_def by blast

section \<open>The reflector over any store\<close>

text \<open>
  What the reflector relies on in its store: \<open>content\<close> is what the calls so far describe, where \<open>tr\<close> is what the store makes of an
  object. Errors may be returned for other objects only.
\<close>

locale reflector_store =
  fixes sk :: "('s, 'o) sink"
    and content :: "'s \<Rightarrow> 'o obj gomap"
    and ok :: "'s \<Rightarrow> bool"
    and key :: "'o goval key_func"
    and tr :: "'o obj \<Rightarrow> 'o obj"
    and good :: "'o obj \<Rightarrow> bool"
  assumes add_law: "ok s \<Longrightarrow> good obj \<Longrightarrow> key obj = Inr k \<Longrightarrow>
      ok (sk_Add sk s obj) \<and> content (sk_Add sk s obj) = (content s)(k \<mapsto> tr obj)"
    and update_law: "ok s \<Longrightarrow> good obj \<Longrightarrow> key obj = Inr k \<Longrightarrow>
      ok (sk_Update sk s obj) \<and> content (sk_Update sk s obj) = (content s)(k \<mapsto> tr obj)"
    and delete_law: "ok s \<Longrightarrow> good obj \<Longrightarrow> key obj = Inr k \<Longrightarrow>
      ok (sk_Delete sk s obj) \<and> content (sk_Delete sk s obj) = (content s)(k := None)"
    and replace_law: "ok s \<Longrightarrow> \<forall>obj \<in> set list. good obj \<and> (\<exists>k. key obj = Inr k) \<Longrightarrow>
      \<exists>s'. sk_Replace sk s list = (s', True) \<and> ok s' \<and>
        content s' = map_of (rev (map (\<lambda>obj. (projr (key obj), tr obj)) list))"
    and version_law: "ok s \<Longrightarrow> ok (sk_UpdateResourceVersion sk s rv) \<and> content (sk_UpdateResourceVersion sk s rv) = content s"
begin

definition shows_state :: "'o obj gomap \<Rightarrow> 's \<Rightarrow> bool" where
  "shows_state m s \<longleftrightarrow> ok s \<and> content s = map_option tr \<circ> m"

lemma map_option_upd: "map_option f \<circ> m(k := x) = (map_option f \<circ> m)(k := map_option f x)"
  by (auto simp: fun_eq_iff)

lemma apply_event_tracks:
  assumes "shows_state cur s" and "event_usable env key good t obj"
  shows "shows_state (event_state key t obj cur) (apply_event sk t obj rv s)"
  using assms add_law [of s obj] update_law [of s obj] delete_law [of s obj] version_law
  by (cases t) (auto simp: shows_state_def event_usable_def apply_event_def event_state_def map_option_upd)

lemma replace_snapshot:
  assumes "ok s" and "snapshot key good state rv items"
  shows "\<exists>s'. sk_Replace sk s items = (s', True) \<and> shows_state (state rv) s'"
proof -
  obtain s' where s': "sk_Replace sk s items = (s', True)" "ok s'"
    "content s' = map_of (rev (map (\<lambda>obj. (projr (key obj), tr obj)) items))"
    using replace_law [OF assms(1), of items] assms(2) by (auto simp: snapshot_def)
  have "map_of (rev (map (\<lambda>obj. (projr (key obj), tr obj)) items)) =
      map_option tr \<circ> map_of (rev (map (\<lambda>obj. (projr (key obj), obj)) items))"
  proof -
    have "rev (map (\<lambda>obj. (projr (key obj), tr obj)) items) =
        map (\<lambda>(k, v). (k, tr v)) (rev (map (\<lambda>obj. (projr (key obj), obj)) items))" by (simp add: rev_map)
    then show ?thesis by (simp only: map_of_map)
  qed
  then show ?thesis using s' assms(2) by (auto simp: shows_state_def snapshot_def)
qed

text \<open>An ordinary watch keeps the store at the last version received.\<close>

lemma watchHandler_tracks:
  assumes "shows_state (state (rf_lastSyncResourceVersion r)) s" and "rf_lastSyncResourceVersion r \<noteq> ''''"
    and "stream_right env key good state (state (rf_lastSyncResourceVersion r)) inputs"
    and "watchHandler env sk setLastSyncResourceVersion False start n inputs w s r = (w', s', r', out)"
    and "wgood w" and "\<forall>w w' t. wgood w \<longrightarrow> re_Now env w = (w', t) \<longrightarrow> wgood w'"
  shows "shows_state (state (rf_lastSyncResourceVersion r')) s' \<and> rf_lastSyncResourceVersion r' \<noteq> '''' \<and> wgood w'"
  using assms(1-5)
proof (induction inputs arbitrary: n s r)
  case (Cons input inputs)
  show ?case
  proof (cases input)
    case (Event t obj)
    show ?thesis
    proof (cases "t = EvError")
      case False
      then have usable: "event_usable env key good t obj" using Cons.prems(3) Event by simp
      then obtain rv ann where meta: "re_meta env obj = Some (rv, ann)" "re_expected env obj"
        by (auto simp: event_usable_def)
      have st: "rv \<noteq> ''''" "state rv = event_state key t obj (state (rf_lastSyncResourceVersion r))"
        "stream_right env key good state (state rv) inputs"
        using Cons.prems(3) Event False meta(1) by (simp_all add: Let_def)
      have handler: "watchHandler env sk setLastSyncResourceVersion False start (Suc n) inputs w (apply_event sk t obj rv s)
          (setLastSyncResourceVersion rv r) = (w', s', r', out)"
        using Cons.prems(4) Event False meta by (simp add: Let_def)
      show ?thesis
        by (rule Cons.IH [OF _ _ _ handler Cons.prems(5)])
          (use apply_event_tracks [OF Cons.prems(1) usable] st in \<open>simp_all add: setLastSyncResourceVersion_def\<close>)
    qed (use Cons.prems Event in auto)
  qed (use Cons.prems assms(6) in \<open>auto split: prod.splits\<close>)
qed auto

text \<open>A watch with initial events brings the store to the version of the bookmark, and leaves an ordinary watch.\<close>

lemma watchHandler_initial:
  assumes "shows_state cur s" and "initial_right env key good state cur inputs"
    and "watchHandler env sk (\<lambda>rv _. rv) True start n inputs w s l = (w', s', rv', out)"
    and "wgood w" and "\<forall>w w' t. wgood w \<longrightarrow> re_Now env w = (w', t) \<longrightarrow> wgood w'"
  shows "wgood w' \<and> (\<forall>rest. out = Done (rest, True, None) \<longrightarrow>
     rv' \<noteq> '''' \<and> shows_state (state rv') s' \<and> stream_right env key good state (state rv') rest)"
  using assms(1-4)
proof (induction inputs arbitrary: n s l cur)
  case (Cons input inputs)
  show ?case
  proof (cases input)
    case (Event t obj)
    show ?thesis
    proof (cases "t = EvError")
      case False
      then have usable: "event_usable env key good t obj" using Cons.prems(2) Event by simp
      then obtain rv ann where meta: "re_meta env obj = Some (rv, ann)" "re_expected env obj"
        by (auto simp: event_usable_def)
      let ?cur = "event_state key t obj cur" and ?s = "apply_event sk t obj rv s"
      have shown: "shows_state ?cur ?s" by (rule apply_event_tracks [OF Cons.prems(1) usable])
      show ?thesis
      proof (cases "initial_events_end t ann")
        case True
        then show ?thesis using Cons.prems(2-4) Event False meta shown by (auto simp: Let_def)
      next
        case more: False
        then have "initial_right env key good state ?cur inputs" using Cons.prems(2) Event False meta by (simp add: Let_def)
        moreover have "watchHandler env sk (\<lambda>rv _. rv) True start (Suc n) inputs w ?s rv = (w', s', rv', out)"
          using Cons.prems(3) Event False meta more by (simp add: Let_def)
        ultimately show ?thesis by (rule Cons.IH [OF shown _ _ Cons.prems(4)])
      qed
    qed (use Cons.prems Event in auto)
  qed (use Cons.prems assms(5) in \<open>auto split: prod.splits\<close>)
qed auto

end

section \<open>The temporary store\<close>

definition temp_ok ::
  "('o obj gomap \<Rightarrow> string list) \<Rightarrow> 'o goval key_func \<Rightarrow> ('o obj \<Rightarrow> bool) \<Rightarrow> 'o goval cache \<Rightarrow> bool"
where
  "temp_ok korder kf good c \<longleftrightarrow> cache_ok [] korder kf c \<and> cache_accepts c = (\<lambda>_. True) \<and>
     (\<forall>k obj. cache_content c k = Some obj \<longrightarrow> kf obj = Inr k \<and> good obj)"

lemma temp_Update:
  assumes "temp_ok korder kf good c" and "good obj" and "kf obj = Inr k"
  shows "temp_ok korder kf good (fst (cache_Update [] c obj)) \<and>
     cache_content (fst (cache_Update [] c obj)) = (cache_content c)(k \<mapsto> obj)"
  using assms cache_Update_law [of "[]" korder kf c obj k] by (fastforce simp: temp_ok_def)

lemma temp_Delete:
  assumes "temp_ok korder kf good c" and "kf obj = Inr k"
  shows "temp_ok korder kf good (fst (cache_Delete [] c obj)) \<and>
     cache_content (fst (cache_Delete [] c obj)) = (cache_content c)(k := None)"
  using assms cache_Delete_law [of "[]" korder kf c obj k] by (fastforce simp: temp_ok_def)

lemma temp_Replace:
  assumes ok: "temp_ok korder kf good c" and list: "\<forall>obj \<in> set list. good obj \<and> (\<exists>k. kf obj = Inr k)"
  shows "\<exists>c'. sk_Replace (cache_sink korder) c list = (c', True) \<and> temp_ok korder kf good c' \<and>
     cache_content c' = map_of (rev (map (\<lambda>obj. (projr (kf obj), obj)) list))"
proof -
  have keyed: "keyed_items kf list Map.empty = Inr (map_of (rev (map (\<lambda>obj. (projr (kf obj), obj)) list)))"
    using keyed_items_map_of [of list kf "\<lambda>obj. projr (kf obj)" Map.empty] list by force
  have c: "cache_ok [] korder kf c" "\<forall>obj \<in> set list. cache_accepts c obj" using ok by (auto simp: temp_ok_def)
  obtain c' where c': "cache_Replace (\<lambda>_. []) korder c list = (c', Ret None)" "cache_ok [] korder kf c'"
    "cache_content c' = map_of (rev (map (\<lambda>obj. (projr (kf obj), obj)) list))" "cache_accepts c' = cache_accepts c"
    using cache_Replace_law [OF c(1) keyed c(2)] by blast
  have "kf obj = Inr k \<and> good obj" if "cache_content c' k = Some obj" for k obj
  proof -
    have "(k, obj) \<in> set (rev (map (\<lambda>obj. (projr (kf obj), obj)) list))" by (rule map_of_SomeD) (use that c'(3) in simp)
    then have obj: "obj \<in> set list" "k = projr (kf obj)" by auto
    obtain k' where "good obj" "kf obj = Inr k'" using bspec [OF list obj(1)] by blast
    then show ?thesis using obj(2) by simp
  qed
  then have "temp_ok korder kf good c'" using c'(2,4) ok by (simp add: temp_ok_def)
  moreover have "sk_Replace (cache_sink korder) c list = (c', True)" using c'(1) by (simp add: cache_sink_def)
  ultimately show ?thesis using c'(3) by blast
qed

interpretation cs: reflector_store "cache_sink korder" cache_content "temp_ok korder kf good" kf "\<lambda>obj. obj" good
  for korder kf good
  by unfold_locales (simp_all add: temp_Replace, simp_all add: cache_sink_def cache_Add_eq_Update temp_Update temp_Delete)

lemma temp_new: "map_iter korder \<Longrightarrow> temp_ok korder kf good (NewStore kf) \<and> cache_content (NewStore kf) = Map.empty"
  using NewThreadSafeStore_ok [of Map.empty]
  by (auto simp: temp_ok_def cache_ok_def tsm_ok_for_def NewStore_def NewThreadSafeStore_def map_iter_def range_order_def
      cache_accepts_def indexable_def cache_content_def)

lemma temp_list_snapshot:
  assumes ok: "temp_ok korder kf good c" and "state rv = cache_content c" and "rv \<noteq> ''''" and "map_iter korder"
  shows "snapshot kf good state rv (cache_List (korder (cache_content c)) c)"
proof -
  let ?m = "cache_content c" and ?ks = "korder (cache_content c)"
  have "finite (dom ?m)" using ok by (simp add: temp_ok_def cache_ok_def tsm_ok_for_def tsm_ok_def cache_content_def)
  then have ks: "set ?ks = dom ?m" using map_iterD [OF assms(4)] by blast
  have items: "cache_List ?ks c = map (\<lambda>k. the (?m k)) ?ks"
  proof -
    have "List.map_filter ?m xs = map (\<lambda>k. the (?m k)) xs" if "set xs \<subseteq> dom ?m" for xs
      using that by (induction xs) (auto simp: map_filter_simps)
    then show ?thesis using ks by (simp add: cache_List_def tsm_List_def cache_content_def [symmetric])
  qed
  have elem: "kf (the (?m k)) = Inr k \<and> good (the (?m k))" if "k \<in> set ?ks" for k
    using that ks ok by (auto simp: temp_ok_def)
  have "map (\<lambda>obj. (projr (kf obj), obj)) (cache_List ?ks c) = map (\<lambda>k. (k, the (?m k))) ?ks"
    by (simp add: items elem)
  then have "map_of (rev (map (\<lambda>obj. (projr (kf obj), obj)) (cache_List ?ks c))) = ?m"
    using map_of_map_keys [of "rev ?ks" ?m] ks by (simp add: rev_map)
  then show ?thesis using assms(2,3) elem by (auto simp: snapshot_def items)
qed

section \<open>The loops of the reflector\<close>

context reflector_store
begin

text \<open>
  The invariant: once there has been a list, the store shows the collection at the last resource version.
\<close>

definition synced_at :: "(string \<Rightarrow> 'o obj gomap) \<Rightarrow> reflector \<Rightarrow> 's \<Rightarrow> bool" where
  "synced_at state r s \<longleftrightarrow> ok s \<and>
     (rf_lastSyncResourceVersion r \<noteq> '''' \<longrightarrow> shows_state (state (rf_lastSyncResourceVersion r)) s)"

lemma synced_at_flags [simp]:
  "synced_at state (setIsLastSyncResourceVersionUnavailable b r) s = synced_at state r s"
  "synced_at state (r\<lparr>rf_paginatedResult := b\<rparr>) s = synced_at state r s"
  by (simp_all add: synced_at_def setIsLastSyncResourceVersionUnavailable_def)

lemma synced_at_set: "shows_state (state rv) s \<Longrightarrow> synced_at state (setLastSyncResourceVersion rv r) s"
  by (simp add: synced_at_def setLastSyncResourceVersion_def shows_state_def)

lemma lastSync_flags [simp]:
  "rf_lastSyncResourceVersion (setIsLastSyncResourceVersionUnavailable b r) = rf_lastSyncResourceVersion r"
  "rf_lastSyncResourceVersion (setLastSyncResourceVersion rv r) = rv"
  by (simp_all add: setIsLastSyncResourceVersionUnavailable_def setLastSyncResourceVersion_def)

lemma pages_right:
  assumes "server_right env key good state rest wgood" and "wgood w" and "pg_PageFn p = re_List env"
    and "pager_list expired done' p fuel (list_options rv) w = Some (w', res, b)"
  shows "wgood w' \<and> result_right (snapshot key good state) (w', res, b)"
proof -
  have con: "list_contract rest (snapshot key good state) wgood (pg_PageFn p)"
    using assms(1,3) by (simp add: server_right_def)
  have "loop_inv rest (snapshot key good state) (with_limit p (list_options rv)) None"
    by (simp add: loop_inv_def with_limit_def list_options_def)
  from list_loop_safe [OF con assms(2) this assms(4) [unfolded pager_list_def]] show ?thesis by simp
qed

lemma rf_fetch_right:
  assumes srv: "server_right env key good state rest wgood" and "wgood w" and "rf_fetch env fuel r w = Some (r', w', res, b)"
  shows "wgood w' \<and> result_right (snapshot key good state) (w', res, b) \<and>
    (r' = r \<or> r' = setIsLastSyncResourceVersionUnavailable True r)"
proof -
  let ?p = "list_pager env r (relistResourceVersion r)"
  let ?pages = "pager_list (ae_IsResourceExpired (re_apierrors env)) (\<lambda>_. False) ?p fuel"
  have fn: "pg_PageFn ?p = re_List env" by (simp add: list_pager_def pager_New_def Let_def)
  note right = pages_right [OF srv _ fn]
  obtain w1 res1 b1 where first: "?pages (list_options (relistResourceVersion r)) w = Some (w1, res1, b1)"
    using assms(3) by (auto simp: rf_fetch_def Let_def split: option.splits)
  note one = right [OF assms(2) first]
  show ?thesis
  proof (cases res1)
    case (Inl err)
    then show ?thesis
      using assms(3) first one right [of w1] by (auto simp: rf_fetch_def Let_def split: if_splits)
  next
    case (Inr obj)
    then show ?thesis using assms(3) first one by (simp add: rf_fetch_def)
  qed
qed

lemma rf_list_tracks:
  assumes srv: "server_right env key good state rest wgood" and "wgood w" and sync: "synced_at state r s"
    and run: "rf_list env sk fuel r w s = (r', w', s', out)"
  shows "wgood w' \<and> synced_at state r' s' \<and>
    (out = Done None \<longrightarrow> rf_lastSyncResourceVersion r' \<noteq> '''' \<or> snd (re_Stopped env w'))"
proof (cases "rf_fetch env fuel r w")
  case None
  then show ?thesis using run assms(2,3) by (auto simp: rf_list_def)
next
  case (Some a)
  obtain r1 w1 res b where a: "a = (r1, w1, res, b)" by (metis surj_pair)
  obtain w2 stopped where stop: "re_Stopped env w1 = (w2, stopped)" by fastforce
  note fetch = rf_fetch_right [OF srv assms(2) Some [unfolded a]]
  have w1: "wgood w1" using fetch by simp
  have w2: "wgood w2" "stopped \<Longrightarrow> snd (re_Stopped env w2)" using server_rightD(6,7) [OF srv w1] stop by auto
  have r1: "synced_at state r1 s" using fetch sync by auto
  show ?thesis
  proof (cases "stopped \<or> (\<exists>e. res = Inl e)")
    case True
    then show ?thesis using run Some a stop w2 r1 by (cases stopped) (auto simp: rf_list_def)
  next
    case False
    then obtain obj where obj: "res = Inr obj" "\<not> stopped" by (cases res) auto
    show ?thesis
    proof (cases "\<exists>c rv items. obj = AList c rv (Some items)")
      case True
      then obtain c rv items where l: "obj = AList c rv (Some items)" by blast
      have snap: "snapshot key good state rv items" using fetch obj l by simp
      obtain s1 where s1: "sk_Replace sk s items = (s1, True)" "shows_state (state rv) s1"
        using replace_snapshot [OF _ snap] sync by (auto simp: synced_at_def)
      then show ?thesis
        using run Some a stop obj l w2(1) synced_at_set [of state rv s1] s1(2) snap
        by (auto simp: rf_list_def rf_syncWith_def Let_def snapshot_def)
    next
      case False
      then show ?thesis
        using run Some a stop obj w2(1) r1 by (cases obj) (auto simp: rf_list_def Let_def split: option.splits if_splits)
    qed
  qed
qed

end

context reflector_store
begin

lemma after_watchHandler_good:
  assumes srv: "server_right env key good state rest wgood" and "wgood w"
    and run: "after_watchHandler env err retry w = (w', retry', next')"
  shows "wgood w'"
proof -
  obtain w1 now where w1: "re_Now env w = (w1, now)" by fastforce
  have good1: "wgood w1" using server_rightD(4) [OF srv assms(2) w1] .
  then show ?thesis
    using run w1 server_rightD(4,5) [OF srv good1]
    by (auto simp: after_watchHandler_def Let_def split: option.splits if_splits prod.splits)
qed

text \<open>A watch goes on from the last resource version, be it with a new request or with the stream of \<open>watchList\<close>.\<close>

lemma rf_watch_tracks:
  assumes srv: "server_right env key good state rest wgood"
  shows "wgood w \<Longrightarrow> synced_at state r s \<Longrightarrow> rf_lastSyncResourceVersion r \<noteq> '''' \<or> snd (re_Stopped env w) \<Longrightarrow>
    (\<And>inputs. stream = Some inputs \<Longrightarrow> stream_right env key good state (state (rf_lastSyncResourceVersion r)) inputs) \<Longrightarrow>
    rf_watch env sk fuel retry stream r w s = (r', w', s', out) \<Longrightarrow> wgood w' \<and> synced_at state r' s'"
proof (induction fuel arbitrary: retry stream r w s)
  case 0
  then show ?case by (simp add: rf_watch.simps)
next
  case (Suc fuel)
  obtain w1 stopped where w1: "re_Stopped env w = (w1, stopped)" by fastforce
  have g1: "wgood w1" using server_rightD(6) [OF srv Suc.prems(1) w1] .
  show ?case
  proof (cases stopped)
    case True
    then show ?thesis using Suc.prems(2,5) w1 g1 by (simp add: rf_watch.simps)
  next
    case False
    then have rv: "rf_lastSyncResourceVersion r \<noteq> ''''" using Suc.prems(3) w1 by simp
    obtain w2 start where w2: "re_Now env w1 = (w2, start)" by fastforce
    have g2: "wgood w2" using server_rightD(4) [OF srv g1 w2] .
    obtain w3 opened where w3: "(case stream of Some inputs \<Rightarrow> (w2, Inr inputs)
        | None \<Rightarrow> re_Watch env w2 (watch_options (rf_lastSyncResourceVersion r))) = (w3, opened)" by fastforce
    have g3: "wgood w3" using w3 g2 server_rightD(1) [OF srv g2] by (cases stream) auto
    note body = Suc.prems(5) [unfolded rf_watch.simps(2) Let_def w1 prod.case w2 w3]
    show ?thesis
    proof (cases opened)
      case (Inl err)
      obtain w4 b where w4: "re_Backoff env w3 = (w4, b)" by fastforce
      have g4: "wgood w4" using server_rightD(5) [OF srv g3 w4] .
      show ?thesis
        using body False Inl w4 g3 g4 Suc.prems(2) Suc.IH [OF g4 Suc.prems(2), of None] rv by (auto split: if_splits)
    next
      case (Inr inputs)
      have right: "stream_right env key good state (state (rf_lastSyncResourceVersion r)) inputs"
        using w3 Inr Suc.prems(4) server_rightD(3) [OF srv g2, of "watch_options (rf_lastSyncResourceVersion r)" w3 inputs]
        by (cases stream) (auto simp: watch_options_def)
      obtain w4 s4 r4 res where h: "watchHandler env sk setLastSyncResourceVersion False start 0 inputs w3 s r = (w4, s4, r4, res)"
        by (metis surj_pair)
      have "shows_state (state (rf_lastSyncResourceVersion r)) s" using Suc.prems(2) rv by (simp add: synced_at_def)
      then have t: "shows_state (state (rf_lastSyncResourceVersion r4)) s4" "rf_lastSyncResourceVersion r4 \<noteq> ''''" "wgood w4"
        using watchHandler_tracks [where state = state and wgood = wgood, OF _ rv right h g3 server_now [OF srv]] by blast+
      then have sync4: "synced_at state r4 s4" by (simp add: synced_at_def shows_state_def)
      show ?thesis
      proof (cases res)
        case Running
        then show ?thesis using body False Inr h t sync4 by simp
      next
        case (Done x)
        obtain rest' bm err where x: "x = (rest', bm, err)" by (metis surj_pair)
        obtain w5 retry' next' where aw: "after_watchHandler env err retry w4 = (w5, retry', next')" by (metis surj_pair)
        have "wgood w5" by (rule after_watchHandler_good [OF srv t(3) aw])
        then show ?thesis
          using body False Inr h Done x aw sync4 t(2) Suc.IH [of w5 r4 s4 None retry'] by (auto split: if_splits)
      qed
    qed
  qed
qed

lemma watchlist_retry_keeps:
  assumes srv: "server_right env key good state rest wgood" and "wgood w" and "synced_at state r s"
    and run: "watchlist_retry env err r w = (r', w', again)"
  shows "wgood w' \<and> synced_at state r' s"
  using run assms(2,3) server_rightD(5) [OF srv assms(2)]
  by (auto simp: watchlist_retry_def Let_def split: if_splits prod.splits)

lemma watchlist_finish_tracks:
  assumes "snapshot key good state rv items" and "synced_at state r s" and "stream_right env key good state (state rv) stream"
    and run: "watchlist_finish sk items rv stream r w s = (r', w', s', out)"
  shows "w' = w \<and> synced_at state r' s' \<and> (\<forall>inputs. out = Done (Some inputs, None) \<longrightarrow>
    rf_lastSyncResourceVersion r' \<noteq> '''' \<and> stream_right env key good state (state (rf_lastSyncResourceVersion r')) inputs)"
proof -
  obtain s1 where s1: "sk_Replace sk s items = (s1, True)" "shows_state (state rv) s1"
    using replace_snapshot [OF _ assms(1)] assms(2) by (auto simp: synced_at_def)
  then show ?thesis
    using run assms(1,3) synced_at_set [of state rv s1] by (auto simp: watchlist_finish_def Let_def snapshot_def)
qed

definition watchlist_post ::
  "('w, 'o, 'e) refl_env \<Rightarrow> (string \<Rightarrow> 'o obj gomap) \<Rightarrow> ('w \<Rightarrow> bool)
     \<Rightarrow> reflector \<times> 'w \<times> 's \<times> ('o watch_input list option \<times> 'e refl_err option) outcome \<Rightarrow> bool"
where
  "watchlist_post env state wgood res = (case res of (r, w, s, out) \<Rightarrow> wgood w \<and> synced_at state r s \<and>
     (\<forall>inputs. out = Done (Some inputs, None) \<longrightarrow> rf_lastSyncResourceVersion r \<noteq> '''' \<and>
        stream_right env key good state (state (rf_lastSyncResourceVersion r)) inputs))"

lemma rf_watchList_tracks:
  assumes srv: "server_right env key good state rest wgood" and key: "key = DeletionHandlingMetaNamespaceKeyFunc accessor"
    and iter: "map_iter korder"
  shows "wgood w \<Longrightarrow> synced_at state r s \<Longrightarrow> watchlist_post env state wgood (rf_watchList env sk accessor korder fuel r w s)"
proof (induction fuel arbitrary: r w)
  case 0
  then show ?case by (simp add: rf_watchList.simps watchlist_post_def)
next
  case (Suc fuel)
  obtain w1 stopped where w1: "re_Stopped env w = (w1, stopped)" by fastforce
  have g1: "wgood w1" using server_rightD(6) [OF srv Suc.prems(1) w1] .
  obtain w2 start where w2: "re_Now env w1 = (w2, start)" by fastforce
  have g2: "wgood w2" using server_rightD(4) [OF srv g1 w2] .
  let ?o = "watchlist_options (rewatchResourceVersion r)"
  obtain w3 opened where w3: "re_Watch env w2 ?o = (w3, opened)" by fastforce
  have g3: "wgood w3" using server_rightD(1) [OF srv g2 w3] .
  note body = rf_watchList.simps(2) [of env sk accessor korder fuel r w s, unfolded Let_def w1 prod.case w2 w3 key [symmetric]]
  have retry: "watchlist_post env state wgood (case watchlist_retry env err r w4 of
      (r, w, True) \<Rightarrow> rf_watchList env sk accessor korder fuel r w s | (r, w, False) \<Rightarrow> (r, w, s, Done (None, Some err')))"
    if "wgood w4" for err err' w4
  proof -
    obtain r5 w5 again where r5: "watchlist_retry env err r w4 = (r5, w5, again)" by (metis surj_pair)
    have "wgood w5 \<and> synced_at state r5 s" by (rule watchlist_retry_keeps [OF srv that Suc.prems(2) r5])
    then show ?thesis using Suc.IH [of w5 r5] r5 by (cases again) (auto simp: watchlist_post_def)
  qed
  show ?case
  proof (cases stopped)
    case True
    then show ?thesis using body g1 Suc.prems(2) by (simp add: watchlist_post_def)
  next
    case False
    show ?thesis
    proof (cases opened)
      case (Inl err)
      then show ?thesis using body False retry [OF g3] by simp
    next
      case (Inr inputs)
      have init: "initial_right env key good state Map.empty inputs"
        using server_rightD(2) [OF srv g2, of ?o w3 inputs] w3 Inr by (simp add: watchlist_options_def)
      obtain w4 c rv res where h: "watchHandler env (cache_sink korder) (\<lambda>rv _. rv) True start 0 inputs w3
          (NewStore key) '''' = (w4, c, rv, res)" by (metis surj_pair)
      have "cs.shows_state korder key good Map.empty (NewStore key)"
        using temp_new [OF iter, of key good] by (simp add: cs.shows_state_def fun_eq_iff)
      note temp = cs.watchHandler_initial [where state = state and wgood = wgood, OF this init h g3 server_now [OF srv]]
      show ?thesis
      proof (cases res)
        case Running
        then show ?thesis using body False Inr h temp Suc.prems(2) by (simp add: watchlist_post_def)
      next
        case (Done x)
        obtain stream bm err where x: "x = (stream, bm, err)" by (metis surj_pair)
        have g4: "wgood w4" using temp by simp
        show ?thesis
        proof (cases err)
          case (Some e)
          then show ?thesis
            using body False Inr h Done x retry [OF g4] g4 Suc.prems(2) by (simp add: watchlist_post_def)
        next
          case None
          show ?thesis
          proof (cases bm)
            case True
            then have t: "rv \<noteq> ''''" "cs.shows_state korder key good (state rv) c" "stream_right env key good state (state rv) stream"
              using temp Done x None by auto
            then have "temp_ok korder key good c" "state rv = cache_content c" by (simp_all add: cs.shows_state_def fun_eq_iff option.map_ident)
            then have snap: "snapshot key good state rv (cache_List (korder (cache_content c)) c)"
              using temp_list_snapshot t(1) iter by blast
            obtain r5 w5 s5 out where res5: "rf_watchList env sk accessor korder (Suc fuel) r w s = (r5, w5, s5, out)"
              by (metis surj_pair)
            have fin: "watchlist_finish sk (cache_List (korder (cache_content c)) c) rv stream r w4 s = (r5, w5, s5, out)"
              using body False Inr h Done x None True res5 by simp
            show ?thesis using g4 watchlist_finish_tracks [OF snap Suc.prems(2) t(3) fin] by (simp add: watchlist_post_def res5)
          next
            case bm: False
            then show ?thesis using body False Inr h Done x None Suc.IH [OF g4 Suc.prems(2)] by simp
          qed
        qed
      qed
    qed
  qed
qed

end

context reflector_store
begin

lemma rf_start_watch_tracks:
  assumes srv: "server_right env key good state rest wgood" and "wgood w" and "synced_at state r s"
    and "rf_lastSyncResourceVersion r \<noteq> '''' \<or> snd (re_Stopped env w)"
    and "\<And>inputs. stream = Some inputs \<Longrightarrow> stream_right env key good state (state (rf_lastSyncResourceVersion r)) inputs"
    and "rf_start_watch env sk fuel stream r w s = (r', w', s', out)"
  shows "wgood w' \<and> synced_at state r' s'"
  by (rule rf_watch_tracks [OF assms(1-5) assms(6) [unfolded rf_start_watch_def]])

lemma rf_list_and_watch_tracks:
  assumes srv: "server_right env key good state rest wgood" and "wgood w" and "synced_at state r s"
    and run: "rf_list_and_watch env sk fuel r w s = (r', w', s', out)"
  shows "wgood w' \<and> synced_at state r' s'"
proof -
  obtain r1 w1 s1 o1 where l: "rf_list env sk fuel r w s = (r1, w1, s1, o1)" by (metis surj_pair)
  note listed = rf_list_tracks [OF assms(1-3) l]
  show ?thesis
  proof (cases "o1 = Done None")
    case True
    then show ?thesis
      using run l listed rf_start_watch_tracks [OF srv, of w1 r1 s1 None] by (auto simp: rf_list_and_watch_def)
  next
    case False
    then show ?thesis using run l listed by (auto simp: rf_list_and_watch_def split: outcome.splits option.splits)
  qed
qed

lemma ListAndWatch_tracks:
  assumes srv: "server_right env key good state rest wgood" and key: "key = DeletionHandlingMetaNamespaceKeyFunc accessor"
    and iter: "map_iter korder" and "wgood w" and "synced_at state r s"
    and run: "ListAndWatch env sk accessor korder fuel r w s = (r', w', s', out)"
  shows "wgood w' \<and> synced_at state r' s'"
proof (cases "rf_UseWatchList r")
  case False
  then show ?thesis using run rf_list_and_watch_tracks [OF srv assms(4,5)] by (simp add: ListAndWatch_def)
next
  case True
  obtain r1 w1 s1 o1 where wl: "rf_watchList env sk accessor korder fuel r w s = (r1, w1, s1, o1)" by (metis surj_pair)
  have post: "wgood w1" "synced_at state r1 s1"
    "\<And>inputs. o1 = Done (Some inputs, None) \<Longrightarrow> rf_lastSyncResourceVersion r1 \<noteq> '''' \<and>
        stream_right env key good state (state (rf_lastSyncResourceVersion r1)) inputs"
    using rf_watchList_tracks [OF srv key iter assms(4,5), of fuel] by (auto simp: wl watchlist_post_def)
  show ?thesis
  proof (cases o1)
    case Running
    then show ?thesis using run True wl post by (simp add: ListAndWatch_def)
  next
    case (Done x)
    obtain stream err where x: "x = (stream, err)" by fastforce
    show ?thesis
    proof (cases err)
      case None
      show ?thesis
      proof (cases stream)
        case (Some inputs)
        have "rf_start_watch env sk fuel stream r1 w1 s1 = (r', w', s', out)"
          using run True wl Done x None Some by (simp add: ListAndWatch_def)
        then show ?thesis
          by (rule rf_start_watch_tracks [OF srv post(1,2), rotated -1]) (use post(3) Done x None Some in auto)
      qed (use run True wl Done x None post in \<open>simp add: ListAndWatch_def\<close>)
    next
      case (Some e)
      then show ?thesis
        using run True wl Done x post rf_list_and_watch_tracks [OF srv post(1,2)]
        by (cases stream) (auto simp: ListAndWatch_def split: if_splits)
    qed
  qed
qed

lemma rf_Run_tracks:
  assumes srv: "server_right env key good state rest wgood" and key: "key = DeletionHandlingMetaNamespaceKeyFunc accessor"
    and iter: "map_iter korder"
  shows "wgood w \<Longrightarrow> synced_at state r s \<Longrightarrow> rf_Run env sk accessor korder fuel n r w s = (r', w', s', out) \<Longrightarrow> synced_at state r' s'"
proof (induction n arbitrary: r w s)
  case 0
  then show ?case by (simp add: rf_Run.simps)
next
  case (Suc n)
  obtain w1 stopped where w1: "re_Stopped env w = (w1, stopped)" by fastforce
  have g1: "wgood w1" using server_rightD(6) [OF srv Suc.prems(1) w1] .
  obtain r2 w2 s2 o2 where lw: "ListAndWatch env sk accessor korder fuel r w1 s = (r2, w2, s2, o2)" by (metis surj_pair)
  have t: "wgood w2" "synced_at state r2 s2" using ListAndWatch_tracks [OF srv key iter g1 Suc.prems(2) lw] by simp_all
  obtain w3 b where w3: "re_Backoff env w2 = (w3, b)" by fastforce
  have "wgood w3" using server_rightD(5) [OF srv t(1) w3] .
  from Suc.IH [OF this t(2)] show ?case
    using Suc.prems(2,3) w1 lw w3 t(2) by (auto simp: rf_Run.simps(2) Let_def split: if_splits outcome.splits)
qed

end

section \<open>The reflector of an informer\<close>

text \<open>
  The queue of an informer as the reflector's store. Between two calls of the reflector other goroutines act on the informer: the controller pops
  and \<open>startResync\<close> calls \<open>Resync\<close>. The second component says what they do before each call, and may be any script.
\<close>

definition others_first ::
  "('s, 'o) store_methods \<Rightarrow> ('o deltas gomap \<Rightarrow> string list) \<Rightarrow> ('s, 'o) informer \<times> 'o informer_call list list
     \<Rightarrow> ('s, 'o) informer \<times> 'o informer_call list list"
where
  "others_first m order s =
     (case s of (i, []) \<Rightarrow> (i, []) | (i, calls # others) \<Rightarrow> (informer_run m order i calls, others))"

definition informer_sink ::
  "('s, 'o) store_methods \<Rightarrow> ('o deltas gomap \<Rightarrow> string list) \<Rightarrow> (('s, 'o) informer \<times> 'o informer_call list list, 'o) sink"
where
  "informer_sink m order =
     \<lparr>sk_Add = (\<lambda>s obj. let (i, others) = others_first m order s in (informer_apply m order i (CAdd obj), others)),
      sk_Update = (\<lambda>s obj. let (i, others) = others_first m order s in (informer_apply m order i (CUpdate obj), others)),
      sk_Delete = (\<lambda>s obj. let (i, others) = others_first m order s in (informer_apply m order i (CDelete obj), others)),
      sk_Replace = (\<lambda>s list. let (i, others) = others_first m order s in
        ((informer_apply m order i (CReplace list), others),
         snd (df_Replace order (inf_queue i) (Some (knownObjects m i)) list) = None)),
      sk_UpdateResourceVersion = (\<lambda>s _. s)\<rparr>"

definition informer_ok ::
  "string list \<Rightarrow> ('o obj gomap \<Rightarrow> string list) \<Rightarrow> ('o deltas gomap \<Rightarrow> string list) \<Rightarrow> 'o goval key_func
     \<Rightarrow> 'o goval index_func gomap \<Rightarrow> ('o obj \<Rightarrow> ('o goval, 'o obj) res) option \<Rightarrow> ('o goval cache, 'o) informer \<Rightarrow> bool"
where
  "informer_ok iorder korder order kf indexers transformer i \<longleftrightarrow> map_iter order \<and> cinf.inv iorder korder kf i \<and>
     df_transform (inf_queue i) = transform_with transformer \<and> cache_accepts (fst (inf_client i)) = indexable indexers"

definition script_ok :: "'o informer_call list list \<Rightarrow> bool" where
  "script_ok others \<longleftrightarrow> set (concat others) \<subseteq> {CPop, CResync}"

definition usable ::
  "'o goval index_func gomap \<Rightarrow> ('o obj \<Rightarrow> ('o goval, 'o obj) res) option \<Rightarrow> 'o obj \<Rightarrow> bool"
where
  "usable indexers transformer obj \<longleftrightarrow> \<not> is_deltas obj \<and> indexable indexers (projr (transform_with transformer obj))"

lemma informer_ok_apply:
  assumes "informer_ok iorder korder order kf indexers transformer i"
    and "call_ok kf indexers (\<lambda>obj. projr (transform_with transformer obj)) call"
  shows "informer_ok iorder korder order kf indexers transformer (informer_apply (cache_methods iorder korder) order i call) \<and>
     cinf.view (informer_apply (cache_methods iorder korder) order i call) =
       informer_spec kf (\<lambda>obj. projr (transform_with transformer obj)) (cinf.view i) call"
proof -
  have inv: "cinf.inv iorder korder kf i" "map_iter order" using assms(1) by (auto simp: informer_ok_def)
  have tr: "cinf.transformed i = (\<lambda>obj. projr (transform_with transformer obj))"
    using assms(1) by (simp add: informer_ok_def cinf.transformed_def fun_eq_iff)
  have valid: "cinf.valid_call kf i call"
    using assms by (cases call) (auto simp: informer_ok_def cinf.admissible_def tr list_all_iff)
  from cinf.informer_apply_correct [OF inv valid, of Map.empty] show ?thesis
    using assms(1) tr by (auto simp: informer_ok_def cinf.same_env_def)
qed

lemma informer_ok_others:
  "informer_ok iorder korder order kf indexers transformer i \<Longrightarrow> set calls \<subseteq> {CPop, CResync} \<Longrightarrow>
     informer_ok iorder korder order kf indexers transformer (informer_run (cache_methods iorder korder) order i calls) \<and>
     cinf.view (informer_run (cache_methods iorder korder) order i calls) = cinf.view i"
proof (induction calls arbitrary: i)
  case (Cons call calls)
  then have "call_ok kf indexers (\<lambda>obj. projr (transform_with transformer obj)) call" by auto
  note step = informer_ok_apply [OF Cons.prems(1) this]
  moreover have "informer_spec kf (\<lambda>obj. projr (transform_with transformer obj)) (cinf.view i) call = cinf.view i"
    using Cons.prems(2) by auto
  ultimately show ?case using Cons.IH Cons.prems(2) by (simp add: informer_run_def)
qed (simp add: informer_run_def)

lemma others_first_ok:
  assumes "informer_ok iorder korder order kf indexers transformer (fst s)" and "script_ok (snd s)"
    and "others_first (cache_methods iorder korder) order s = (i, others)"
  shows "informer_ok iorder korder order kf indexers transformer i \<and> script_ok others \<and> cinf.view i = cinf.view (fst s)"
  using assms informer_ok_others [OF assms(1)]
  by (auto simp: others_first_def script_ok_def split: prod.splits list.splits)

lemma informer_sink_call:
  assumes "informer_ok iorder korder order kf indexers transformer (fst s)" and "script_ok (snd s)"
    and "call_ok kf indexers (\<lambda>obj. projr (transform_with transformer obj)) call"
    and "(case others_first (cache_methods iorder korder) order s of (i, others) \<Rightarrow>
        (informer_apply (cache_methods iorder korder) order i call, others)) = s'"
  shows "informer_ok iorder korder order kf indexers transformer (fst s') \<and> script_ok (snd s') \<and>
    cinf.view (fst s') = informer_spec kf (\<lambda>obj. projr (transform_with transformer obj)) (cinf.view (fst s)) call"
proof -
  obtain i others where o: "others_first (cache_methods iorder korder) order s = (i, others)" by fastforce
  note first = others_first_ok [OF assms(1,2) o]
  show ?thesis using first informer_ok_apply [of iorder korder order kf indexers transformer i call] assms(3,4) o by auto
qed

interpretation im: reflector_store "informer_sink (cache_methods iorder korder) order" "\<lambda>s. cinf.view (fst s)"
    "\<lambda>s. informer_ok iorder korder order kf indexers transformer (fst s) \<and> script_ok (snd s)" kf
    "\<lambda>obj. projr (transform_with transformer obj)" "usable indexers transformer"
  for iorder korder order kf indexers transformer
proof unfold_locales
  let ?ok = "\<lambda>s. informer_ok iorder korder order kf indexers transformer (fst s) \<and> script_ok (snd s)"
  let ?m = "cache_methods iorder korder" and ?tr = "\<lambda>obj. projr (transform_with transformer obj)"
  let ?sk = "informer_sink (cache_methods iorder korder) order"
  fix s :: "('a goval cache, 'a) informer \<times> 'a informer_call list list" and obj k rv
  assume ok: "?ok s"
  show "?ok (sk_UpdateResourceVersion ?sk s rv) \<and> cinf.view (fst (sk_UpdateResourceVersion ?sk s rv)) = cinf.view (fst s)"
    using ok by (simp add: informer_sink_def)
  have call: "?ok s' \<and> cinf.view (fst s') = informer_spec kf ?tr (cinf.view (fst s)) call"
    if "call_ok kf indexers ?tr call" "(case others_first ?m order s of (i, others) \<Rightarrow> (informer_apply ?m order i call, others)) = s'"
    for call s' using informer_sink_call [OF _ _ that] ok by blast
  show "\<exists>s'. sk_Replace ?sk s list = (s', True) \<and> ?ok s' \<and>
      cinf.view (fst s') = map_of (rev (map (\<lambda>obj. (projr (kf obj), ?tr obj)) list))"
    if list: "\<forall>obj \<in> set list. usable indexers transformer obj \<and> (\<exists>k. kf obj = Inr k)" for list
  proof -
    obtain i others where o: "others_first ?m order s = (i, others)" by fastforce
    have "informer_ok iorder korder order kf indexers transformer i" using others_first_ok [OF _ _ o] ok by blast
    then have "snd (df_Replace order (inf_queue i) (Some (knownObjects ?m i)) list) = None"
      using cinf.Replace_succeeds [of "inf_queue i" kf list order "Some (knownObjects ?m i)"] list
      by (auto simp: informer_ok_def cinf.inv_def usable_def)
    moreover have "call_ok kf indexers ?tr (CReplace list)" using list by (auto simp: usable_def list_all_iff)
    ultimately show ?thesis using call [of "CReplace list"] o by (simp add: informer_sink_def)
  qed
  assume good: "usable indexers transformer obj" and key: "kf obj = Inr k"
  show "?ok (sk_Add ?sk s obj) \<and> cinf.view (fst (sk_Add ?sk s obj)) = (cinf.view (fst s))(k \<mapsto> ?tr obj)"
    using call [of "CAdd obj", OF _ refl] good key by (simp add: informer_sink_def usable_def)
  show "?ok (sk_Update ?sk s obj) \<and> cinf.view (fst (sk_Update ?sk s obj)) = (cinf.view (fst s))(k \<mapsto> ?tr obj)"
    using call [of "CUpdate obj", OF _ refl] good key by (simp add: informer_sink_def usable_def)
  show "?ok (sk_Delete ?sk s obj) \<and> cinf.view (fst (sk_Delete ?sk s obj)) = (cinf.view (fst s))(k := None)"
    using call [of "CDelete obj", OF _ refl] good key by (simp add: informer_sink_def usable_def)
qed

lemma new_informer_ok:
  assumes "transformer_ok (DeletionHandlingMetaNamespaceKeyFunc accessor) transformer"
    and "range_order iorder indexers" and "map_iter korder" and "map_iter order"
  shows "informer_ok iorder korder order (DeletionHandlingMetaNamespaceKeyFunc accessor) indexers transformer
    (new_indexer_informer accessor indexers transformer)"
  using new_informer_inv(1) [OF assms(1-3)] assms(4)
  by (simp add: informer_ok_def)
    (simp add: new_indexer_informer_def newInformer_def NewDeltaFIFOWithOptions_def df_transform_def transform_with_def fun_eq_iff
      cache_accepts_def NewIndexer_def NewThreadSafeStore_def)

section \<open>Properties\<close>

text \<open>
  C2 A reflector mirrors the server. If the server lists and watches as documented, then however the run of the reflector goes on, with lists in
  pages, with streamed lists, through errors of all kinds, relists and resumed watches, and with pops and resyncs of other
  goroutines between its calls: whenever it has a last resource version, the informer's pending deltas over
  its store show exactly the collection at that version.
\<close>

theorem reflector_mirrors_server:
  assumes "transformer_ok (DeletionHandlingMetaNamespaceKeyFunc accessor) transformer"
    and "range_order iorder indexers" and "map_iter korder" and "map_iter order" and "script_ok others"
    and "server_right env (DeletionHandlingMetaNamespaceKeyFunc accessor) (usable indexers transformer) state rest wgood"
    and "wgood w" and "rf_lastSyncResourceVersion r = ''''"
    and "rf_Run env (informer_sink (cache_methods iorder korder) order) accessor korder fuel n r w
        (new_indexer_informer accessor indexers transformer, others) = (r', w', (i', others'), out)"
    and "rf_lastSyncResourceVersion r' \<noteq> ''''"
  shows "deltas_view (cache_content (fst (inf_client i')) k) (df_items_get (inf_queue i') k) =
     map_option (\<lambda>obj. projr (transform_with transformer obj)) (state (rf_lastSyncResourceVersion r') k)"
proof -
  let ?kf = "DeletionHandlingMetaNamespaceKeyFunc accessor"
  have "im.synced_at iorder korder order ?kf indexers transformer state r (new_indexer_informer accessor indexers transformer, others)"
    using new_informer_ok [OF assms(1-4)] assms(5,8) by (simp add: im.synced_at_def)
  from im.rf_Run_tracks [OF assms(6) refl assms(3,7) this assms(9)] show ?thesis
    using assms(10) by (simp add: im.synced_at_def im.shows_state_def cinf.view_def fun_eq_iff)
qed

text \<open>A server with one object, to which a watch reports a second one.\<close>

definition demo_state :: "string \<Rightarrow> string obj gomap" where
  "demo_state rv = (if rv = ''2'' then [''a'' \<mapsto> Some (Object ''a''), ''b'' \<mapsto> Some (Object ''b'')] else [''a'' \<mapsto> Some (Object ''a'')])"

definition demo_renv :: "(unit, string, unit) refl_env" where
  "demo_renv =
     \<lparr>re_apierrors = \<lparr>ae_IsResourceExpired = (\<lambda>_. False), ae_IsGone = (\<lambda>_. False), ae_IsTooManyRequests = (\<lambda>_. False),
        ae_IsInternalError = (\<lambda>_. False), ae_IsInvalid = (\<lambda>_. False), ae_IsConnectionRefused = (\<lambda>_. False),
        ae_IsTimeout = (\<lambda>_. False), ae_HasTooLargeCause = (\<lambda>_. False), ae_Status = (\<lambda>_. None)\<rparr>,
      re_List = (\<lambda>w options. (w, Inr (AList '''' ''1'' (Some [Some (Object ''a'')])))),
      re_Watch = (\<lambda>w options. (w, Inr (if lo_SendInitialEvents options \<or> lo_ResourceVersion options \<noteq> ''1'' then []
         else [Event EvAdded (Some (Object ''b''))]))),
      re_FromObject = (\<lambda>_. ()),
      re_meta = (\<lambda>obj. case obj of Some (Object name) \<Rightarrow> Some (if name = ''b'' then ''2'' else ''1'', []) | _ \<Rightarrow> None),
      re_expected = (\<lambda>_. True), re_Now = (\<lambda>w. (w, 0)), re_Stopped = (\<lambda>w. (w, False)), re_Backoff = (\<lambda>w. (w, False))\<rparr>"

lemma pod_keys: "DeletionHandlingMetaNamespaceKeyFunc pod_accessor (Some (Object name)) = Inr name"
  by (simp add: DeletionHandlingMetaNamespaceKeyFunc_def MetaNamespaceKeyFunc_def ObjectToName_def pod_accessor_def
      MetaObjectToName_def NewObjectName_def ObjectName_String_def)

lemma demo_usable: "usable Map.empty None (Some (Object name))"
  by (simp add: usable_def is_deltas_def indexable_def)

lemma demo_server_right:
  "server_right demo_renv (DeletionHandlingMetaNamespaceKeyFunc pod_accessor) (usable Map.empty None) demo_state
     (\<lambda>_. (''1'', [Some (Object ''a'')])) (\<lambda>_. True)"
  unfolding server_right_def
  by (auto simp: demo_renv_def list_contract_def page_right_def snapshot_def demo_usable pod_keys demo_state_def
      event_usable_def event_state_def)

lemma demo_run:
  assumes replace: "sk_Replace sk s [Some (Object ''a'')] = (s1, True)"
  shows "\<exists>s'. rf_Run demo_renv sk pod_accessor korder 1 1 (NewReflectorWithOptions False) () s =
    (setLastSyncResourceVersion ''2'' (NewReflectorWithOptions False), (), s', Running)"
proof -
  let ?r = "NewReflectorWithOptions False"
  have "rf_fetch demo_renv 1 ?r () = Some (?r, (), Inr (AList '''' ''1'' (Some [Some (Object ''a'')])), False)"
    by (simp add: rf_fetch_def list_pager_def pager_New_def pager_list_def demo_renv_def Let_def)
  then have "rf_list demo_renv sk 1 ?r () s = (setLastSyncResourceVersion ''1'' ?r, (), s1, Done None)"
    using replace
    by (simp add: rf_list_def rf_syncWith_def demo_renv_def setIsLastSyncResourceVersionUnavailable_def NewReflectorWithOptions_def)
  moreover have "\<exists>s'. rf_start_watch demo_renv sk 1 None (setLastSyncResourceVersion ''1'' ?r) () s1 =
      (setLastSyncResourceVersion ''2'' ?r, (), s', Running)"
    by (simp add: rf_start_watch_def rf_watch.simps demo_renv_def watch_options_def setLastSyncResourceVersion_def
        NewReflectorWithOptions_def initial_events_end_def)
  moreover have "re_Stopped demo_renv () = ((), False)" "\<not> rf_UseWatchList ?r"
    by (simp_all add: demo_renv_def NewReflectorWithOptions_def)
  ultimately show ?thesis by (auto simp: rf_Run.simps ListAndWatch_def rf_list_and_watch_def)
qed

theorem reflector_mirrors_server_witness:
  "\<exists>korder order i' s'. rf_Run demo_renv (informer_sink (cache_methods [] korder) order) pod_accessor korder 1 1
       (NewReflectorWithOptions False) () (new_indexer_informer pod_accessor Map.empty None, [[CPop], [CPop, CResync]]) =
     (setLastSyncResourceVersion ''2'' (NewReflectorWithOptions False), (), (i', s'), Running) \<and>
     deltas_view (cache_content (fst (inf_client i')) ''b'') (df_items_get (inf_queue i') ''b'') = Some (Some (Object ''b''))"
proof -
  obtain order :: "string deltas gomap \<Rightarrow> string list" where order: "map_iter order" using map_iter_exists by blast
  obtain korder :: "string obj gomap \<Rightarrow> string list" where korder: "map_iter korder" using map_iter_exists by blast
  let ?kf = "DeletionHandlingMetaNamespaceKeyFunc pod_accessor" and ?others = "[[CPop], [CPop, CResync]] :: string informer_call list list"
  let ?sk = "informer_sink (cache_methods [] korder) order" and ?i = "new_indexer_informer pod_accessor Map.empty None"
  have script: "script_ok ?others" by (simp add: script_ok_def)
  have "informer_ok [] korder order ?kf Map.empty None ?i"
    by (rule new_informer_ok [OF pod_calls_ok(1,2) korder order])
  then obtain s1 where "sk_Replace ?sk (?i, ?others) [Some (Object ''a'')] = (s1, True)"
    using im.replace_law [of "[]" korder order ?kf Map.empty None "(?i, ?others)" "[Some (Object ''a'')]"] script
    by (auto simp: pod_keys demo_usable)
  from demo_run [OF this] obtain s' where run: "rf_Run demo_renv ?sk pod_accessor korder 1 1 (NewReflectorWithOptions False) ()
      (?i, ?others) = (setLastSyncResourceVersion ''2'' (NewReflectorWithOptions False), (), s', Running)" by blast
  obtain i' others' where s': "s' = (i', others')" by fastforce
  have "rf_lastSyncResourceVersion (NewReflectorWithOptions False) = ''''" by (simp add: NewReflectorWithOptions_def)
  note app = reflector_mirrors_server [OF pod_calls_ok(1,2) korder order script demo_server_right _ this run [unfolded s'], of "''b''"]
  have "deltas_view (cache_content (fst (inf_client i')) ''b'') (df_items_get (inf_queue i') ''b'') = Some (Some (Object ''b''))"
    using app by (simp add: setLastSyncResourceVersion_def demo_state_def transform_with_def)
  then show ?thesis using run s' by blast
qed

end
