(* ===== verification/RetryWatcher.thy ===== *)
theory RetryWatcher
  imports Reflector
begin

text \<open>
  \<open>tools/watch/retrywatcher.go\<close> and \<open>tools/watch/until.go\<close>: a watcher that restarts its watch from the last resource version it has
  seen, and the function that reads events until a sequence of conditions is met.

  As in \<open>Reflector\<close>, the server, the clock and \<open>stopChan\<close> act on a world \<open>'w\<close>, and a watch is the list of what the \<open>select\<close> of
  \<open>doReceive\<close> receives in turn. Logging is left out. The outcome \<open>Running\<close> is a goroutine that still waits, or whose fuel is used up,
  so the theorems hold at every moment of a run and not only at its end.
\<close>

section \<open>RetryWatcher\<close>

text \<open>
  What becomes of a \<open>send\<close>: the consumer takes the event, \<open>stopChan\<close> is closed first, or the goroutine is still blocked. It comes with the event
  that is received from the watch.
\<close>

datatype send_result = Taken | StoppedSend | Blocked

datatype 'a rw_input = RwStop | RwClosed | RwEvent event_type 'a send_result

text \<open>The errors of \<open>apierrors.NewInternalError\<close> that the watcher makes itself, and the events it sends.\<close>

datatype 'a rw_internal = NotResourceVersionGetter | NoResourceVersion 'a | UnrecognizedType

datatype 'a rw_event = Forwarded event_type 'a | InternalError "'a rw_internal"

datatype 'e watch_err = EOF | ErrUnexpectedEOF | OtherWatchErr 'e

text \<open>
  \<open>rw_version\<close> is \<open>GetResourceVersion\<close>, \<open>None\<close> for an object without the method; \<open>rw_status\<close> is \<open>apierrors.FromObject\<close>: \<open>None\<close> when the result is
  no \<open>StatusError\<close>, otherwise its code and the \<open>RetryAfterSeconds\<close> of its details. A watch is opened with the resource version and
  \<open>AllowWatchBookmarks\<close>; it can be nil. \<open>rw_ctxDone\<close> looks whether the context is done, \<open>rw_timer\<close> waits for the delay of \<open>retryAfter\<close> and
  \<open>rw_period\<close> for the rest of the \<open>minRestartDelay\<close>; both say whether the context was done first.
\<close>

record ('w, 'a, 'e) rw_env =
  rw_Watch :: "'w \<Rightarrow> string \<Rightarrow> bool \<Rightarrow> 'w \<times> ('e watch_err + 'a rw_input list option)"
  rw_version :: "'a \<Rightarrow> string option"
  rw_status :: "'a \<Rightarrow> (int \<times> int option) option"
  rw_ctxDone :: "'w \<Rightarrow> 'w \<times> bool"
  rw_timer :: "'w \<Rightarrow> int \<Rightarrow> 'w \<times> bool"
  rw_period :: "'w \<Rightarrow> int \<Rightarrow> 'w \<times> bool"

text \<open>\<open>rw_sent\<close> are the events that the consumer has taken from \<open>resultChan\<close>.\<close>

record 'a retry_watcher =
  rw_lastResourceVersion :: string
  rw_minRestartDelay :: int
  rw_sent :: "'a rw_event list"

definition newRetryWatcher :: "string \<Rightarrow> int \<Rightarrow> string + 'a retry_watcher" where
  "newRetryWatcher initialResourceVersion minRestartDelay =
     (if initialResourceVersion = '''' \<or> initialResourceVersion = ''0'' then Inl initialResourceVersion
      else Inr \<lparr>rw_lastResourceVersion = initialResourceVersion, rw_minRestartDelay = minRestartDelay, rw_sent = []\<rparr>)"

definition NewRetryWatcher :: "string \<Rightarrow> string + 'a retry_watcher" where
  "NewRetryWatcher initialResourceVersion = newRetryWatcher initialResourceVersion 1000000000"

text \<open>\<open>send\<close> returns whether the event was taken; \<open>None\<close> when it has not returned.\<close>

definition rw_send :: "send_result \<Rightarrow> 'a rw_event \<Rightarrow> 'a retry_watcher \<Rightarrow> 'a retry_watcher \<times> bool option" where
  "rw_send res event rw =
     (case res of Taken \<Rightarrow> (rw\<lparr>rw_sent := rw_sent rw @ [event]\<rparr>, Some True) | StoppedSend \<Rightarrow> (rw, Some False) | Blocked \<Rightarrow> (rw, None))"

text \<open>A last event, whose \<open>send\<close> decides nothing.\<close>

definition rw_abort :: "send_result \<Rightarrow> 'a rw_event \<Rightarrow> 'a retry_watcher \<Rightarrow> 'a retry_watcher \<times> (bool \<times> int) outcome" where
  "rw_abort res event rw =
     (case rw_send res event rw of (rw, None) \<Rightarrow> (rw, Running) | (rw, Some _) \<Rightarrow> (rw, Done (True, 0)))"

text \<open>The \<open>watch.Error\<close> case.\<close>

definition rw_handle_error ::
  "('w, 'a, 'e) rw_env \<Rightarrow> 'a \<Rightarrow> send_result \<Rightarrow> 'a retry_watcher \<Rightarrow> 'a retry_watcher \<times> (bool \<times> int) outcome"
where
  "rw_handle_error env obj res rw =
     (case rw_status env obj of
        None \<Rightarrow> (rw, Done (False, 0))
      | Some (code, retryAfterSeconds) \<Rightarrow>
          let statusDelay = (case retryAfterSeconds of None \<Rightarrow> 0 | Some s \<Rightarrow> wrap64 (s * 1000000000))
          in if code = 410 then rw_abort res (Forwarded EvError obj) rw
             else (rw, Done (False, statusDelay)))"

fun rw_handle ::
  "('w, 'a, 'e) rw_env \<Rightarrow> 'a rw_input list \<Rightarrow> 'a retry_watcher \<Rightarrow> 'a retry_watcher \<times> (bool \<times> int) outcome"
where
  "rw_handle env [] rw = (rw, Running)"
| "rw_handle env (RwStop # inputs) rw = (rw, Done (True, 0))"
| "rw_handle env (RwClosed # inputs) rw = (rw, Done (False, 0))"
| "rw_handle env (RwEvent t obj res # inputs) rw =
     (if t = EvError then rw_handle_error env obj res rw
      else if t = EvOther then rw_abort res (InternalError UnrecognizedType) rw
      else case rw_version env obj of
             None \<Rightarrow> rw_abort res (InternalError NotResourceVersionGetter) rw
           | Some resourceVersion \<Rightarrow>
               if resourceVersion = '''' then rw_abort res (InternalError (NoResourceVersion obj)) rw
               else if t \<noteq> EvBookmark
                 then (case rw_send res (Forwarded t obj) rw of
                         (rw, Some True) \<Rightarrow> rw_handle env inputs (rw\<lparr>rw_lastResourceVersion := resourceVersion\<rparr>)
                       | (rw, Some False) \<Rightarrow> (rw, Done (True, 0))
                       | (rw, None) \<Rightarrow> (rw, Running))
               else rw_handle env inputs (rw\<lparr>rw_lastResourceVersion := resourceVersion\<rparr>))"

definition doReceive ::
  "('w, 'a, 'e) rw_env \<Rightarrow> 'a retry_watcher \<Rightarrow> 'w \<Rightarrow> 'a retry_watcher \<times> 'w \<times> (bool \<times> int) outcome"
where
  "doReceive env rw w =
     (case rw_Watch env w (rw_lastResourceVersion rw) True of
        (w, Inl err) \<Rightarrow> (rw, w, Done (False, 0))
      | (w, Inr None) \<Rightarrow> (rw, w, Done (False, 0))
      | (w, Inr (Some inputs)) \<Rightarrow> (let (rw, res) = rw_handle env inputs rw in (rw, w, res)))"

text \<open>
  \<open>receive\<close>, with the loop of \<open>wait.NonSlidingUntilWithContext\<close>; \<open>Done\<close> is its return, after which both channels are closed.
\<close>

fun rw_receive :: "('w, 'a, 'e) rw_env \<Rightarrow> nat \<Rightarrow> 'a retry_watcher \<Rightarrow> 'w \<Rightarrow> 'a retry_watcher \<times> 'w \<times> unit outcome" where
  "rw_receive env 0 rw w = (rw, w, Running)"
| "rw_receive env (Suc fuel) rw w =
     (let (w, stopped) = rw_ctxDone env w
      in if stopped then (rw, w, Done ())
         else case doReceive env rw w of
                (rw, w, Running) \<Rightarrow> (rw, w, Running)
              | (rw, w, Done (is_done, retryAfter)) \<Rightarrow>
                  if is_done then (rw, w, Done ())
                  else let (w, stopped) = rw_timer env w retryAfter
                       in if stopped then (rw, w, Done ())
                          else let (w, stopped) = rw_period env w (rw_minRestartDelay rw)
                               in if stopped then (rw, w, Done ()) else rw_receive env fuel rw w)"

declare rw_receive.simps [simp del]

section \<open>What the server promises\<close>

text \<open>
  \<open>after rv\<close> are the changes of the collection after a resource version, oldest first. A watch from \<open>rv\<close> sends them in order, each with an object
  whose version is the one it leads to; a bookmark says that there was no change up to its version. There is nothing to say after an error.
\<close>

type_synonym 'a changes = "(event_type \<times> 'a) list"

definition is_change :: "event_type \<Rightarrow> bool" where
  "is_change t \<longleftrightarrow> t = EvAdded \<or> t = EvModified \<or> t = EvDeleted"

definition has_version :: "('w, 'a, 'e) rw_env \<Rightarrow> (string \<Rightarrow> 'a changes) \<Rightarrow> 'a \<Rightarrow> 'a changes \<Rightarrow> bool" where
  "has_version env after obj cur =
     (case rw_version env obj of None \<Rightarrow> False | Some rv \<Rightarrow> rv \<noteq> '''' \<and> after rv = cur)"

fun rw_stream_right :: "('w, 'a, 'e) rw_env \<Rightarrow> (string \<Rightarrow> 'a changes) \<Rightarrow> 'a changes \<Rightarrow> 'a rw_input list \<Rightarrow> bool" where
  "rw_stream_right env after cur (RwEvent t obj res # inputs) =
     (if t = EvBookmark then has_version env after obj cur \<and> rw_stream_right env after cur inputs
      else if is_change t
        then cur \<noteq> [] \<and> hd cur = (t, obj) \<and> has_version env after obj (tl cur) \<and> rw_stream_right env after (tl cur) inputs
      else t = EvError)"
| "rw_stream_right env after cur inputs = True"

definition rw_server_right :: "('w, 'a, 'e) rw_env \<Rightarrow> (string \<Rightarrow> 'a changes) \<Rightarrow> ('w \<Rightarrow> bool) \<Rightarrow> bool" where
  "rw_server_right env after wgood \<longleftrightarrow>
     (\<forall>w rv w' r. wgood w \<longrightarrow> rw_Watch env w rv True = (w', r) \<longrightarrow> wgood w' \<and>
        (\<forall>inputs. r = Inr (Some inputs) \<longrightarrow> rw_stream_right env after (after rv) inputs)) \<and>
     (\<forall>w. wgood w \<longrightarrow> wgood (fst (rw_ctxDone env w))) \<and>
     (\<forall>w d. wgood w \<longrightarrow> wgood (fst (rw_timer env w d))) \<and>
     (\<forall>w d. wgood w \<longrightarrow> wgood (fst (rw_period env w d)))"

lemma rw_server_rightD:
  assumes "rw_server_right env after wgood" and "wgood w"
  shows "rw_Watch env w rv True = (w', r) \<Longrightarrow> wgood w'"
    and "rw_Watch env w rv True = (w', Inr (Some inputs)) \<Longrightarrow> rw_stream_right env after (after rv) inputs"
    and "rw_ctxDone env w = (w', b) \<Longrightarrow> wgood w'" and "rw_timer env w d = (w', b) \<Longrightarrow> wgood w'"
    and "rw_period env w d = (w', b) \<Longrightarrow> wgood w'"
  using assms unfolding rw_server_right_def by (blast, blast, metis fst_conv, metis fst_conv, metis fst_conv)

text \<open>The watch and its sends are never stopped.\<close>

definition rw_unstopped :: "('w, 'a, 'e) rw_env \<Rightarrow> ('w \<Rightarrow> bool) \<Rightarrow> bool" where
  "rw_unstopped env wgood \<longleftrightarrow>
     (\<forall>w rv w' inputs. wgood w \<longrightarrow> rw_Watch env w rv True = (w', Inr (Some inputs)) \<longrightarrow>
        (\<forall>i \<in> set inputs. case i of RwStop \<Rightarrow> False | RwClosed \<Rightarrow> True | RwEvent _ _ res \<Rightarrow> res \<noteq> StoppedSend)) \<and>
     (\<forall>w. wgood w \<longrightarrow> \<not> snd (rw_ctxDone env w)) \<and>
     (\<forall>w d. wgood w \<longrightarrow> \<not> snd (rw_timer env w d)) \<and>
     (\<forall>w d. wgood w \<longrightarrow> \<not> snd (rw_period env w d))"

section \<open>Restarts lose nothing\<close>

text \<open>
  What the consumer got is the history up to the last resource version; \<open>still\<close> is false when a final \<open>Gone\<close> may have followed.
\<close>

definition is_gone :: "('w, 'a, 'e) rw_env \<Rightarrow> 'a \<Rightarrow> bool" where
  "is_gone env obj = (case rw_status env obj of Some (code, _) \<Rightarrow> code = 410 | None \<Rightarrow> False)"

definition forwarded :: "'a changes \<Rightarrow> 'a rw_event list" where
  "forwarded seen = map (\<lambda>(t, obj). Forwarded t obj) seen"

lemma forwarded_simps [simp]:
  "forwarded [] = []" "forwarded (xs @ ys) = forwarded xs @ forwarded ys" "forwarded ((t, obj) # xs) = Forwarded t obj # forwarded xs"
  by (simp_all add: forwarded_def)

definition rw_tracks :: "('w, 'a, 'e) rw_env \<Rightarrow> (string \<Rightarrow> 'a changes) \<Rightarrow> 'a changes \<Rightarrow> 'a retry_watcher \<Rightarrow> bool \<Rightarrow> bool" where
  "rw_tracks env after history rw still \<longleftrightarrow>
     (\<exists>seen ends. history = seen @ after (rw_lastResourceVersion rw) \<and> rw_sent rw = forwarded seen @ ends \<and>
        (ends = [] \<or> \<not> still \<and> (\<exists>obj. ends = [Forwarded EvError obj] \<and> is_gone env obj)))"

lemma length_forwarded [simp]: "length (forwarded seen) = length seen"
  by (simp add: forwarded_def)

lemma forwarded_Nil [simp]: "forwarded seen = [] \<longleftrightarrow> seen = []"
  by (simp add: forwarded_def)

lemma rw_tracks_open:
  "rw_tracks env after history rw True \<longleftrightarrow>
     (\<exists>seen. history = seen @ after (rw_lastResourceVersion rw) \<and> rw_sent rw = forwarded seen)"
  by (auto simp: rw_tracks_def)

lemma rw_tracks_weaken: "rw_tracks env after history rw True \<Longrightarrow> rw_tracks env after history rw still"
  by (auto simp: rw_tracks_def)

lemma rw_tracks_gone:
  "rw_tracks env after history rw True \<Longrightarrow> is_gone env obj \<Longrightarrow>
     rw_tracks env after history (rw\<lparr>rw_sent := rw_sent rw @ [Forwarded EvError obj]\<rparr>) False"
  by (auto simp: rw_tracks_def)

lemma rw_tracks_change:
  assumes "rw_tracks env after history rw True" and "after (rw_lastResourceVersion rw) = (t, obj) # after rv"
  shows "rw_tracks env after history (rw\<lparr>rw_sent := rw_sent rw @ [Forwarded t obj], rw_lastResourceVersion := rv\<rparr>) True"
proof -
  obtain seen where "history = seen @ after (rw_lastResourceVersion rw)" and "rw_sent rw = forwarded seen"
    using assms(1) by (auto simp: rw_tracks_open)
  then show ?thesis unfolding rw_tracks_open using assms(2) by (intro exI [of _ "seen @ [(t, obj)]"]) simp
qed

fun still_open :: "(bool \<times> int) outcome \<Rightarrow> bool" where
  "still_open Running = True"
| "still_open (Done (is_done, retryAfter)) = (\<not> is_done)"

lemma rw_handle_error_tracks:
  assumes "rw_tracks env after history rw True" and "rw_handle_error env obj res rw = (rw', r)"
  shows "rw_tracks env after history rw' (still_open r)"
  using assms rw_tracks_gone [OF assms(1), of obj]
  by (auto simp: rw_handle_error_def rw_abort_def rw_send_def is_gone_def Let_def rw_tracks_weaken
      split: option.splits prod.splits if_splits send_result.splits)

lemma stream_right_change:
  assumes "rw_stream_right env after cur (RwEvent t obj res # inputs)" and "t \<noteq> EvError" and "t \<noteq> EvBookmark"
  obtains rv where "cur = (t, obj) # after rv" and "rw_version env obj = Some rv" and "rv \<noteq> ''''"
    and "rw_stream_right env after (after rv) inputs"
  using assms by (cases cur) (auto simp: has_version_def split: option.splits if_splits)

lemma stream_right_bookmark:
  assumes "rw_stream_right env after cur (RwEvent EvBookmark obj res # inputs)"
  obtains rv where "after rv = cur" and "rw_version env obj = Some rv" and "rv \<noteq> ''''" and "rw_stream_right env after cur inputs"
  using assms by (auto simp: has_version_def split: option.splits)

lemma rw_handle_tracks:
  assumes "rw_tracks env after history rw True" and "rw_stream_right env after (after (rw_lastResourceVersion rw)) inputs"
    and "rw_handle env inputs rw = (rw', r)"
  shows "rw_tracks env after history rw' (still_open r)"
  using assms
proof (induction env inputs rw arbitrary: rw' r rule: rw_handle.induct)
  case (4 env t obj res inputs rw)
  consider (err) "t = EvError" | (mark) "t = EvBookmark" | (change) "t \<noteq> EvError" "t \<noteq> EvBookmark" by blast
  then show ?case
  proof cases
    case err
    then have "rw_handle_error env obj res rw = (rw', r)" using "4.prems"(3) by simp
    then show ?thesis by (rule rw_handle_error_tracks [OF "4.prems"(1)])
  next
    case mark
    obtain rv where rv: "after rv = after (rw_lastResourceVersion rw)" "rw_version env obj = Some rv" "rv \<noteq> ''''"
      "rw_stream_right env after (after (rw_lastResourceVersion rw)) inputs"
      using stream_right_bookmark "4.prems"(2) mark by metis
    have "rw_tracks env after history (rw\<lparr>rw_lastResourceVersion := rv\<rparr>) True"
      using "4.prems"(1) rv by (simp add: rw_tracks_open)
    then show ?thesis using "4.IH"(2) [OF _ _ rv(2,3)] mark "4.prems"(3) rv by simp
  next
    case change
    obtain rv where rv: "after (rw_lastResourceVersion rw) = (t, obj) # after rv" "rw_version env obj = Some rv" "rv \<noteq> ''''"
      "rw_stream_right env after (after rv) inputs"
      using stream_right_change "4.prems"(2) change by metis
    have t: "t \<noteq> EvOther" using "4.prems"(2) change by (auto simp: is_change_def split: if_splits)
    show ?thesis
    proof (cases res)
      case Taken
      then have "rw_send res (Forwarded t obj) rw = (rw\<lparr>rw_sent := rw_sent rw @ [Forwarded t obj]\<rparr>, Some True)" by (simp add: rw_send_def)
      then show ?thesis
        using "4.IH"(1) [OF change(1) t rv(2,3) change(2)] "4.prems"(3) rw_tracks_change [OF "4.prems"(1) rv(1)] rv t change by simp
    qed (use "4.prems" change t rv in \<open>auto simp: rw_send_def rw_tracks_weaken\<close>)
  qed
qed (auto simp: rw_tracks_weaken)

lemma doReceive_tracks:
  assumes right: "rw_server_right env after wgood" and w: "wgood w" and tr: "rw_tracks env after history rw True"
    and run: "doReceive env rw w = (rw', w', r)"
  shows "rw_tracks env after history rw' (still_open r) \<and> wgood w'"
proof -
  obtain w1 opened where watch: "rw_Watch env w (rw_lastResourceVersion rw) True = (w1, opened)" by force
  have w1: "wgood w1" using rw_server_rightD(1) [OF right w] watch by blast
  show ?thesis
  proof (cases "\<exists>inputs. opened = Inr (Some inputs)")
    case True
    then obtain inputs where inputs: "opened = Inr (Some inputs)" by blast
    then have "rw_handle env inputs rw = (rw', r)" and "w' = w1" using run watch by (auto simp: doReceive_def split: prod.splits)
    then show ?thesis using rw_handle_tracks [OF tr] rw_server_rightD(2) [OF right w] watch inputs w1 by blast
  next
    case False
    then have "rw' = rw \<and> w' = w1 \<and> r = Done (False, 0)"
      using run watch by (auto simp: doReceive_def split: sum.splits option.splits)
    then show ?thesis using tr w1 by simp
  qed
qed

lemma doReceive_good:
  assumes "rw_server_right env after wgood" and "wgood w" and "doReceive env rw w = (rw', w', r)"
  shows "wgood w'"
  using assms rw_server_rightD(1) [OF assms(1,2)]
  by (auto simp: doReceive_def split: prod.splits sum.splits option.splits)

text \<open>One turn of the loop: either \<open>receive\<close> ends or waits there, or it goes on with a good world.\<close>

lemma rw_receive_step [case_names stop wait finish stopped again]:
  assumes right: "rw_server_right env after wgood" and w: "wgood w"
  obtains (stop) w1 where "rw_receive env (Suc fuel) rw w = (rw, w1, Done ())" "wgood w1" "snd (rw_ctxDone env w)"
  | (wait) rw1 w0 w1 where "wgood w0" "doReceive env rw w0 = (rw1, w1, Running)" "rw_receive env (Suc fuel) rw w = (rw1, w1, Running)"
  | (finish) rw1 w0 w1 d where "wgood w0" "doReceive env rw w0 = (rw1, w1, Done (True, d))"
      "rw_receive env (Suc fuel) rw w = (rw1, w1, Done ())"
  | (stopped) rw1 w0 w1 w2 d where "wgood w0" "doReceive env rw w0 = (rw1, w1, Done (False, d))" "wgood w1" "wgood w2"
      "rw_receive env (Suc fuel) rw w = (rw1, w2, Done ())"
      "snd (rw_timer env w1 d) \<or> (\<exists>w d. wgood w \<and> snd (rw_period env w d))"
  | (again) rw1 w0 w1 w2 d where "w0 = fst (rw_ctxDone env w)" "wgood w0" "doReceive env rw w0 = (rw1, w1, Done (False, d))"
      "w2 = fst (rw_period env (fst (rw_timer env w1 d)) (rw_minRestartDelay rw1))"
      "wgood w2" "rw_receive env (Suc fuel) rw w = rw_receive env fuel rw1 w2"
proof -
  obtain w0 b where ctx: "rw_ctxDone env w = (w0, b)" by force
  have w0: "wgood w0" using rw_server_rightD(3) [OF right w ctx] .
  obtain rw1 w1 r where do: "doReceive env rw w0 = (rw1, w1, r)" by (metis prod_cases3)
  have w1: "wgood w1" using doReceive_good [OF right w0 do] .
  note unf = rw_receive.simps(2) [of env fuel rw w] ctx do
  consider "b" | "\<not> b" "r = Running" | d where "\<not> b" "r = Done (True, d)" | d where "\<not> b" "r = Done (False, d)"
    by (metis (full_types) outcome.exhaust surj_pair)
  then show thesis
  proof cases
    case (4 d)
    obtain w2 b2 where timer: "rw_timer env w1 d = (w2, b2)" by force
    have w2: "wgood w2" using rw_server_rightD(4) [OF right w1 timer] .
    obtain w3 b3 where period: "rw_period env w2 (rw_minRestartDelay rw1) = (w3, b3)" by force
    have w3: "wgood w3" using rw_server_rightD(5) [OF right w2 period] .
    consider "b2" | "\<not> b2" "b3" | "\<not> b2" "\<not> b3" by blast
    then show thesis
    proof cases
      case 1
      then show thesis using stopped [of w0 rw1 w1 d w2] 4 unf timer w0 w1 w2 by simp
    next
      case 2
      then have "rw_receive env (Suc fuel) rw w = (rw1, w3, Done ())" using 4 unf timer period by simp
      moreover have "snd (rw_period env w2 (rw_minRestartDelay rw1))" using period 2 by simp
      ultimately show thesis using stopped w0 do 4(2) w1 w2 w3 by blast
    next
      case 3
      then show thesis using again [of w0 rw1 w1 d w3] 4 unf timer period w0 w1 w3 by simp
    qed
  qed (use unf w0 in \<open>auto intro: stop wait finish\<close>)
qed

lemma rw_receive_tracks:
  assumes right: "rw_server_right env after wgood" and w: "wgood w" and tr: "rw_tracks env after history rw True"
    and run: "rw_receive env fuel rw w = (rw', w', r)"
  shows "rw_tracks env after history rw' (r = Running)"
  using w tr run
proof (induction fuel arbitrary: rw w)
  case 0
  then show ?case by (simp add: rw_receive.simps)
next
  case (Suc fuel)
  show ?case
  proof (cases rule: rw_receive_step [OF right Suc.prems(1), of fuel rw, case_names stop wait finish stopped again])
    case (stop w1)
    then show ?thesis using Suc.prems by (simp add: rw_tracks_weaken)
  next
    case (wait rw1 w0 w1)
    then show ?thesis using doReceive_tracks [OF right _ Suc.prems(2)] Suc.prems(3) by fastforce
  next
    case (finish rw1 w0 w1 d)
    then show ?thesis using doReceive_tracks [OF right _ Suc.prems(2)] Suc.prems(3) by fastforce
  next
    case (stopped rw1 w0 w1 w2 d)
    then show ?thesis using doReceive_tracks [OF right _ Suc.prems(2)] Suc.prems(3) by (fastforce simp: rw_tracks_weaken)
  next
    case (again rw1 w0 w1 w2 d)
    then show ?thesis using doReceive_tracks [OF right _ Suc.prems(2)] Suc by fastforce
  qed
qed

section \<open>When the watcher ends\<close>

text \<open>Without a stop, \<open>receive\<close> returns only after it has sent an error; under the contract that is a \<open>Gone\<close>.\<close>

lemma rw_handle_done:
  assumes "rw_handle env inputs rw = (rw', Done (True, d))" and "rw_stream_right env after cur inputs"
    and "\<forall>i \<in> set inputs. case i of RwStop \<Rightarrow> False | RwClosed \<Rightarrow> True | RwEvent _ _ res \<Rightarrow> res \<noteq> StoppedSend"
  shows "\<exists>obj. rw_sent rw' \<noteq> [] \<and> last (rw_sent rw') = Forwarded EvError obj \<and> is_gone env obj"
  using assms
proof (induction env inputs rw arbitrary: cur rule: rw_handle.induct)
  case (4 env t obj res inputs rw)
  consider (err) "t = EvError" | (mark) "t = EvBookmark" | (change) "t \<noteq> EvError" "t \<noteq> EvBookmark" by blast
  then show ?case
  proof cases
    case err
    then have "rw_sent rw' = rw_sent rw @ [Forwarded EvError obj] \<and> is_gone env obj" using "4.prems"
      by (auto simp: rw_handle_error_def rw_abort_def rw_send_def is_gone_def Let_def split: option.splits if_splits send_result.splits)
    then show ?thesis by simp
  next
    case mark
    obtain rv where "rw_version env obj = Some rv" "rv \<noteq> ''''" "rw_stream_right env after cur inputs"
      using stream_right_bookmark "4.prems"(2) mark by metis
    then show ?thesis using "4.IH"(2) mark "4.prems"(1,3) by simp
  next
    case change
    obtain rv where rv: "rw_version env obj = Some rv" "rv \<noteq> ''''" "rw_stream_right env after (after rv) inputs"
      using stream_right_change "4.prems"(2) change by metis
    have t: "t \<noteq> EvOther" using "4.prems"(2) change by (auto simp: is_change_def split: if_splits)
    then show ?thesis
      using "4.IH"(1) [OF change(1) t rv(1,2) change(2)] rv change "4.prems"(1,3)
      by (cases res) (auto simp: rw_send_def)
  qed
qed auto

lemma doReceive_done:
  assumes right: "rw_server_right env after wgood" and unstopped: "rw_unstopped env wgood" and w: "wgood w"
    and run: "doReceive env rw w = (rw', w', Done (True, d))"
  shows "\<exists>obj. rw_sent rw' \<noteq> [] \<and> last (rw_sent rw') = Forwarded EvError obj \<and> is_gone env obj"
proof -
  obtain w1 inputs where watch: "rw_Watch env w (rw_lastResourceVersion rw) True = (w1, Inr (Some inputs))"
    and h: "rw_handle env inputs rw = (rw', Done (True, d))"
    using run by (auto simp: doReceive_def split: prod.splits sum.splits option.splits)
  show ?thesis
    using rw_handle_done [OF h rw_server_rightD(2) [OF right w watch]] unstopped w watch unfolding rw_unstopped_def by blast
qed

lemma rw_receive_done:
  assumes right: "rw_server_right env after wgood" and unstopped: "rw_unstopped env wgood" and w: "wgood w"
    and run: "rw_receive env fuel rw w = (rw', w', Done ())"
  shows "\<exists>obj. rw_sent rw' \<noteq> [] \<and> last (rw_sent rw') = Forwarded EvError obj \<and> is_gone env obj"
  using w run
proof (induction fuel arbitrary: rw w)
  case 0
  then show ?case by (simp add: rw_receive.simps)
next
  case (Suc fuel)
  show ?case
  proof (cases rule: rw_receive_step [OF right Suc.prems(1), of fuel rw, case_names stop wait finish stopped again])
    case (stop w1)
    then show ?thesis using unstopped Suc.prems(1) unfolding rw_unstopped_def by blast
  next
    case (wait rw1 w0 w1)
    then show ?thesis using Suc.prems(2) by simp
  next
    case (finish rw1 w0 w1 d)
    then show ?thesis using doReceive_done [OF right unstopped] Suc.prems(2) by fastforce
  next
    case (stopped rw1 w0 w1 w2 d)
    then show ?thesis using unstopped unfolding rw_unstopped_def by blast
  next
    case (again rw1 w0 w1 w2 d)
    then show ?thesis using Suc by metis
  qed
qed

section \<open>Every change arrives\<close>

text \<open>
  A watch that keeps going: every send is taken, and it waits without an end only when it has sent all changes.
\<close>

fun rw_stream_live :: "('w, 'a, 'e) rw_env \<Rightarrow> 'a changes \<Rightarrow> 'a rw_input list \<Rightarrow> bool" where
  "rw_stream_live env cur [] = (cur = [])"
| "rw_stream_live env cur (RwEvent t obj res # inputs) =
     (res = Taken \<and> (t \<noteq> EvError \<longrightarrow> rw_stream_live env (if is_change t then tl cur else cur) inputs))"
| "rw_stream_live env cur (RwClosed # inputs) = True"
| "rw_stream_live env cur (RwStop # inputs) = False"

fun brings_change :: "'a rw_input list \<Rightarrow> bool" where
  "brings_change (RwEvent t obj res # inputs) = (is_change t \<or> t \<noteq> EvError \<and> brings_change inputs)"
| "brings_change inputs = False"

text \<open>
  \<open>fails\<close> bounds how often a watch can still fail or end without a change.
\<close>

definition rw_fair :: "('w, 'a, 'e) rw_env \<Rightarrow> (string \<Rightarrow> 'a changes) \<Rightarrow> ('w \<Rightarrow> nat) \<Rightarrow> ('w \<Rightarrow> bool) \<Rightarrow> bool" where
  "rw_fair env after fails wgood \<longleftrightarrow>
     (\<forall>w rv w' r. wgood w \<longrightarrow> rw_Watch env w rv True = (w', r) \<longrightarrow> after rv \<noteq> [] \<longrightarrow>
        fails w' < fails w \<or> fails w' = fails w \<and> (\<exists>inputs. r = Inr (Some inputs) \<and> brings_change inputs)) \<and>
     (\<forall>w rv w' inputs. wgood w \<longrightarrow> rw_Watch env w rv True = (w', Inr (Some inputs)) \<longrightarrow> rw_stream_live env (after rv) inputs) \<and>
     (\<forall>w. wgood w \<longrightarrow> fails (fst (rw_ctxDone env w)) \<le> fails w) \<and>
     (\<forall>w d. wgood w \<longrightarrow> fails (fst (rw_timer env w d)) \<le> fails w) \<and>
     (\<forall>w d. wgood w \<longrightarrow> fails (fst (rw_period env w d)) \<le> fails w)"

lemma rw_handle_live:
  assumes "rw_stream_right env after (after (rw_lastResourceVersion rw)) inputs"
    and "rw_stream_live env (after (rw_lastResourceVersion rw)) inputs" and "rw_handle env inputs rw = (rw', r)"
  shows "(r = Running \<longrightarrow> after (rw_lastResourceVersion rw') = []) \<and>
    length (after (rw_lastResourceVersion rw')) + (if brings_change inputs then 1 else 0) \<le> length (after (rw_lastResourceVersion rw))"
  using assms
proof (induction env inputs rw arbitrary: rw' r rule: rw_handle.induct)
  case (4 env t obj res inputs rw)
  consider (err) "t = EvError" | (mark) "t = EvBookmark" | (change) "t \<noteq> EvError" "t \<noteq> EvBookmark" by blast
  then show ?case
  proof cases
    case err
    then show ?thesis using "4.prems"
      by (auto simp: rw_handle_error_def rw_abort_def rw_send_def is_change_def Let_def split: option.splits if_splits)
  next
    case mark
    obtain rv where rv: "after rv = after (rw_lastResourceVersion rw)" "rw_version env obj = Some rv" "rv \<noteq> ''''"
      "rw_stream_right env after (after (rw_lastResourceVersion rw)) inputs"
      using stream_right_bookmark "4.prems"(1) mark by metis
    show ?thesis using "4.IH"(2) [OF _ _ rv(2,3), of rw' r] rv mark "4.prems"(2,3) by (simp add: is_change_def)
  next
    case change
    obtain rv where rv: "after (rw_lastResourceVersion rw) = (t, obj) # after rv" "rw_version env obj = Some rv" "rv \<noteq> ''''"
      "rw_stream_right env after (after rv) inputs"
      using stream_right_change "4.prems"(1) change by metis
    have t: "t \<noteq> EvOther" "is_change t" using "4.prems"(1) change by (auto simp: is_change_def split: if_splits)
    have sent: "rw_send res (Forwarded t obj) rw = (rw\<lparr>rw_sent := rw_sent rw @ [Forwarded t obj]\<rparr>, Some True)"
      using "4.prems"(2) by (simp add: rw_send_def)
    show ?thesis
      using "4.IH"(1) [OF change(1) t(1) rv(2,3) change(2) sent [symmetric] refl refl] sent rv change t "4.prems"(2,3)
      by (auto split: if_splits)
  qed
qed auto

definition rw_left :: "(string \<Rightarrow> 'a changes) \<Rightarrow> ('w \<Rightarrow> nat) \<Rightarrow> 'a retry_watcher \<Rightarrow> 'w \<Rightarrow> nat" where
  "rw_left after fails rw w =
     (if after (rw_lastResourceVersion rw) = [] then 0 else length (after (rw_lastResourceVersion rw)) + fails w)"

lemma doReceive_live:
  assumes right: "rw_server_right env after wgood" and fair: "rw_fair env after fails wgood" and w: "wgood w"
    and run: "doReceive env rw w = (rw', w', r)"
  shows "r = Running \<Longrightarrow> after (rw_lastResourceVersion rw') = []"
    and "rw_left after fails rw' w' \<le> rw_left after fails rw w - 1"
proof -
  let ?rv = "rw_lastResourceVersion rw"
  obtain w1 opened where watch: "rw_Watch env w ?rv True = (w1, opened)" by force
  have fails: "after ?rv \<noteq> [] \<Longrightarrow> fails w1 < fails w \<or> fails w1 = fails w \<and> (\<exists>inputs. opened = Inr (Some inputs) \<and> brings_change inputs)"
    using fair w watch unfolding rw_fair_def by blast
  have *: "(r = Running \<longrightarrow> after (rw_lastResourceVersion rw') = []) \<and> w' = w1 \<and>
    length (after (rw_lastResourceVersion rw')) + (if \<exists>inputs. opened = Inr (Some inputs) \<and> brings_change inputs then 1 else 0)
      \<le> length (after ?rv)"
  proof (cases "\<exists>inputs. opened = Inr (Some inputs)")
    case True
    then obtain inputs where inputs: "opened = Inr (Some inputs)" by blast
    have h: "rw_handle env inputs rw = (rw', r)" and w': "w' = w1" using run watch inputs by (auto simp: doReceive_def split: prod.splits)
    have live: "rw_stream_live env (after ?rv) inputs" using fair w watch inputs unfolding rw_fair_def by blast
    have "rw_stream_right env after (after ?rv) inputs" using rw_server_rightD(2) [OF right w] watch inputs by blast
    then show ?thesis using rw_handle_live [of env after rw inputs rw' r] live h inputs w' by simp
  next
    case False
    then have "rw' = rw \<and> w' = w1 \<and> r = Done (False, 0)"
      using run watch by (auto simp: doReceive_def split: sum.splits option.splits)
    then show ?thesis using False by auto
  qed
  then show "r = Running \<Longrightarrow> after (rw_lastResourceVersion rw') = []" by blast
  define b where "b = (\<exists>inputs. opened = Inr (Some inputs) \<and> brings_change inputs)"
  have "length (after (rw_lastResourceVersion rw')) + (if b then 1 else 0) \<le> length (after ?rv)" and "w' = w1"
    and "after ?rv \<noteq> [] \<Longrightarrow> fails w1 < fails w \<or> fails w1 = fails w \<and> b"
    using * fails unfolding b_def by blast+
  then show "rw_left after fails rw' w' \<le> rw_left after fails rw w - 1"
    unfolding rw_left_def by (cases "after ?rv = []"; cases b) auto
qed

lemma rw_left_mono: "fails w' \<le> fails w \<Longrightarrow> rw_left after fails rw w' \<le> rw_left after fails rw w"
  by (simp add: rw_left_def)

lemma rw_fair_mono:
  assumes "rw_fair env after fails wgood" and "wgood w"
  shows "rw_left after fails rw (fst (rw_ctxDone env w)) \<le> rw_left after fails rw w"
    and "rw_left after fails rw (fst (rw_timer env w d)) \<le> rw_left after fails rw w"
    and "rw_left after fails rw (fst (rw_period env w d)) \<le> rw_left after fails rw w"
  using assms unfolding rw_fair_def by (blast intro: rw_left_mono)+

lemma rw_receive_live:
  assumes right: "rw_server_right env after wgood" and unstopped: "rw_unstopped env wgood"
    and fair: "rw_fair env after fails wgood" and w: "wgood w"
    and run: "rw_receive env fuel rw w = (rw', w', r)" and fuel: "rw_left after fails rw w \<le> fuel"
  shows "after (rw_lastResourceVersion rw') = [] \<and> r = Running \<or> r = Done ()"
  using w run fuel
proof (induction fuel arbitrary: rw w)
  case 0
  then show ?case by (simp add: rw_receive.simps rw_left_def split: if_splits)
next
  case (Suc fuel)
  show ?case
  proof (cases rule: rw_receive_step [OF right Suc.prems(1), of fuel rw, case_names stop wait finish stopped again])
    case (stop w1)
    then show ?thesis using unstopped Suc.prems(1) unfolding rw_unstopped_def by blast
  next
    case (wait rw1 w0 w1)
    then show ?thesis using doReceive_live(1) [OF right fair wait(1,2)] Suc.prems(2) by simp
  next
    case (finish rw1 w0 w1 d)
    then show ?thesis using Suc.prems(2) by simp
  next
    case (stopped rw1 w0 w1 w2 d)
    then show ?thesis using unstopped unfolding rw_unstopped_def by blast
  next
    case (again rw1 w0 w1 w2 d)
    let ?wt = "fst (rw_timer env w1 d)"
    have w1: "wgood w1" using doReceive_good [OF right again(2,3)] .
    then have wt: "wgood ?wt" using rw_server_rightD(4) [OF right w1] by (metis prod.collapse)
    have "rw_left after fails rw1 w2 \<le> rw_left after fails rw1 ?wt" using rw_fair_mono(3) [OF fair wt] again(4) by blast
    also have "\<dots> \<le> rw_left after fails rw1 w1" by (rule rw_fair_mono(2) [OF fair w1])
    also have "\<dots> \<le> rw_left after fails rw w0 - 1" by (rule doReceive_live(2) [OF right fair again(2,3)])
    also have "\<dots> \<le> rw_left after fails rw w - 1" using rw_fair_mono(1) [OF fair Suc.prems(1)] again(1) by (simp add: diff_le_mono)
    finally show ?thesis using Suc.IH [OF again(5)] Suc.prems(2,3) again(6) by simp
  qed
qed

lemma rw_tracks_new: "newRetryWatcher rv d = Inr rw \<Longrightarrow> rw_tracks env after (after rv) rw True"
  by (auto simp: newRetryWatcher_def rw_tracks_open split: if_splits)

lemma rw_received_all:
  assumes right: "rw_server_right env after wgood" and unstopped: "rw_unstopped env wgood" and fair: "rw_fair env after fails wgood" and w: "wgood w"
    and new: "newRetryWatcher rv delay = Inr rw" and fuel: "length (after rv) + fails w \<le> fuel"
    and run: "rw_receive env fuel rw w = (rw', w', r)"
  shows "rw_sent rw' = forwarded (after rv) \<and> r = Running \<or>
    r = Done () \<and> (\<exists>seen missed gone. after rv = seen @ missed \<and> rw_sent rw' = forwarded seen @ [Forwarded EvError gone] \<and> is_gone env gone)"
proof -
  have tracks: "rw_tracks env after (after rv) rw' (r = Running)"
    by (rule rw_receive_tracks [OF right w rw_tracks_new [OF new] run])
  have "rw_left after fails rw w \<le> fuel"
    using new fuel by (auto simp: rw_left_def newRetryWatcher_def split: if_splits)
  then consider "after (rw_lastResourceVersion rw') = []" "r = Running" | "r = Done ()"
    using rw_receive_live [OF right unstopped fair w run] by blast
  then show ?thesis
  proof cases
    case 1
    then show ?thesis using tracks by (auto simp: rw_tracks_open)
  next
    case 2
    then obtain seen ends where seen: "after rv = seen @ after (rw_lastResourceVersion rw')" "rw_sent rw' = forwarded seen @ ends"
      and ends: "ends = [] \<or> (\<exists>obj. ends = [Forwarded EvError obj] \<and> is_gone env obj)"
      using tracks unfolding rw_tracks_def by blast
    obtain gone where gone: "rw_sent rw' \<noteq> []" "last (rw_sent rw') = Forwarded EvError gone" "is_gone env gone"
      using rw_receive_done [OF right unstopped w] run 2 by blast
    then obtain sent where sent: "rw_sent rw' = sent @ [Forwarded EvError gone]" by (metis append_butlast_last_id)
    have "\<exists>seen missed. after rv = seen @ missed \<and> sent = forwarded seen"
    proof (cases "ends = []")
      case True
      then obtain front where "seen = front @ [(EvError, gone)]" "sent = forwarded front"
        using seen(2) sent by (cases seen rule: rev_cases) (auto simp: forwarded_def)
      then show ?thesis using seen(1) by auto
    next
      case False
      then show ?thesis using seen ends sent by auto
    qed
    then show ?thesis using 2 sent gone(3) by blast
  qed
qed

text \<open>
  C5 \<open>RetryWatcher\<close> across restarts: when the server watches as documented, then at every moment of a run the consumer has received exactly the
  changes between the initial resource version and the last one the watcher has stored, each once and in order, whatever watches
  failed, closed or broke off in between; only a final \<open>Gone\<close> can follow them, and then the watcher has ended. The watcher ends
  by itself only with such a \<open>Gone\<close>.
\<close>
theorem retry_watcher_exact:
  assumes "rw_server_right env after wgood" and "wgood w" and "newRetryWatcher rv delay = Inr rw"
    and "rw_receive env fuel rw w = (rw', w', r)"
  shows "(\<exists>seen ends. after rv = seen @ after (rw_lastResourceVersion rw') \<and> rw_sent rw' = forwarded seen @ ends \<and>
       (ends = [] \<or> r = Done () \<and> (\<exists>obj. ends = [Forwarded EvError obj] \<and> is_gone env obj))) \<and>
     (rw_unstopped env wgood \<and> r = Done () \<longrightarrow> (\<exists>obj. rw_sent rw' \<noteq> [] \<and> last (rw_sent rw') = Forwarded EvError obj \<and> is_gone env obj))"
proof (intro conjI impI)
  have "rw_tracks env after (after rv) rw' (r = Running)"
    by (rule rw_receive_tracks [OF assms(1,2) rw_tracks_new [OF assms(3)] assms(4)])
  moreover have "r \<noteq> Running \<longleftrightarrow> r = Done ()" by (cases r) auto
  ultimately show "\<exists>seen ends. after rv = seen @ after (rw_lastResourceVersion rw') \<and> rw_sent rw' = forwarded seen @ ends \<and>
      (ends = [] \<or> r = Done () \<and> (\<exists>obj. ends = [Forwarded EvError obj] \<and> is_gone env obj))"
    unfolding rw_tracks_def by blast
next
  assume "rw_unstopped env wgood \<and> r = Done ()"
  then show "\<exists>obj. rw_sent rw' \<noteq> [] \<and> last (rw_sent rw') = Forwarded EvError obj \<and> is_gone env obj"
    using rw_receive_done [OF assms(1) _ assms(2)] assms(4) by blast
qed

text \<open>
  C24 Nothing is withheld: when watches fail or end without a change only finitely often (\<open>fails\<close>), every opened watch goes on until it has sent
  all changes or ends, and neither the watcher nor a send is stopped, then within as many turns as there are failures and changes the consumer
  has received all changes after the initial resource version and the watcher waits for more; or the server has answered \<open>410 Gone\<close>, and then the
  consumer has received the changes up to there and the \<open>Gone\<close>, and the watcher has ended.
\<close>
theorem retry_watcher_complete:
  assumes "rw_server_right env after wgood" and "rw_unstopped env wgood" and "rw_fair env after fails wgood" and "wgood w"
    and "newRetryWatcher rv delay = Inr rw" and "length (after rv) + fails w \<le> fuel"
    and "rw_receive env fuel rw w = (rw', w', r)"
  shows "rw_sent rw' = forwarded (after rv) \<and> r = Running \<or>
    r = Done () \<and> (\<exists>seen missed gone. after rv = seen @ missed \<and> rw_sent rw' = forwarded seen @ [Forwarded EvError gone] \<and> is_gone env gone)"
  by (rule rw_received_all [OF assms])

section \<open>UntilWithoutRetry\<close>

text \<open>
  What the \<open>select\<close> of \<open>UntilWithoutRetry\<close> receives. A condition may have state of its own; it returns an error or whether it is met.
\<close>

datatype 'v ch_input = Recv 'v | ChClosed | CtxDone

datatype 'c until_err = CondErr 'c | ErrWatchClosed | ErrWaitTimeout | UnsupportedVersion string

type_synonym ('s, 'v, 'c) condition = "'s \<Rightarrow> 'v \<Rightarrow> 's \<times> ('c + bool)"

text \<open>The inner loop: waits for one condition; the result also has what is left in the channel.\<close>

fun until_wait ::
  "('s, 'v, 'c) condition \<Rightarrow> 'v ch_input list \<Rightarrow> 's \<Rightarrow> 'v option \<Rightarrow> 's \<times> 'v ch_input list \<times> 'v option \<times> 'c until_err option outcome"
where
  "until_wait condition [] s lastEvent = (s, [], lastEvent, Running)"
| "until_wait condition (ChClosed # inputs) s lastEvent = (s, inputs, lastEvent, Done (Some ErrWatchClosed))"
| "until_wait condition (CtxDone # inputs) s lastEvent = (s, inputs, lastEvent, Done (Some ErrWaitTimeout))"
| "until_wait condition (Recv event # inputs) s lastEvent =
     (case condition s event of
        (s, Inl err) \<Rightarrow> (s, inputs, Some event, Done (Some (CondErr err)))
      | (s, Inr True) \<Rightarrow> (s, inputs, Some event, Done None)
      | (s, Inr False) \<Rightarrow> until_wait condition inputs s (Some event))"

fun UntilWithoutRetry ::
  "('s, 'v, 'c) condition list \<Rightarrow> 'v ch_input list \<Rightarrow> 's \<Rightarrow> 'v option \<Rightarrow> 's \<times> 'v option \<times> 'c until_err option outcome"
where
  "UntilWithoutRetry [] inputs s lastEvent = (s, lastEvent, Done None)"
| "UntilWithoutRetry (condition # conditions) inputs s lastEvent =
     (case (case lastEvent of None \<Rightarrow> (s, Inr False) | Some event \<Rightarrow> condition s event) of
        (s, Inl err) \<Rightarrow> (s, lastEvent, Done (Some (CondErr err)))
      | (s, Inr True) \<Rightarrow> UntilWithoutRetry conditions inputs s lastEvent
      | (s, Inr False) \<Rightarrow>
          (case until_wait condition inputs s lastEvent of
             (s, inputs, lastEvent, Done None) \<Rightarrow> UntilWithoutRetry conditions inputs s lastEvent
           | (s, inputs, lastEvent, r) \<Rightarrow> (s, lastEvent, r)))"

text \<open>
  \<open>Until\<close>: the events that the watcher sends are what the consumer receives, and the channel is closed when \<open>receive\<close> has returned. \<open>ctx\<close> is the
  number of receives after which the context is done, if it ever is.
\<close>

definition until_inputs :: "nat option \<Rightarrow> 'v list \<Rightarrow> unit outcome \<Rightarrow> 'v ch_input list" where
  "until_inputs ctx events r =
     (let inputs = map Recv events @ (if r = Done () then [ChClosed] else [])
      in case ctx of None \<Rightarrow> inputs | Some n \<Rightarrow> take n inputs @ [CtxDone])"

definition Until ::
  "('w, 'a, 'e) rw_env \<Rightarrow> nat \<Rightarrow> nat option \<Rightarrow> string \<Rightarrow> ('s, 'a rw_event, 'c) condition list \<Rightarrow> 'w \<Rightarrow> 's
     \<Rightarrow> 's \<times> 'a rw_event option \<times> 'c until_err option outcome"
where
  "Until env fuel ctx initialResourceVersion conditions w s =
     (case NewRetryWatcher initialResourceVersion of
        Inl err \<Rightarrow> (s, None, Done (Some (UnsupportedVersion err)))
      | Inr rw \<Rightarrow>
          (let (rw, w, r) = rw_receive env fuel rw w
           in UntilWithoutRetry conditions (until_inputs ctx (rw_sent rw) r) s None))"

text \<open>The conditions are met one after the other: each at the event of the one before or at a later one.\<close>

fun met_in_order :: "('v \<Rightarrow> bool) list \<Rightarrow> 'v list \<Rightarrow> bool" where
  "met_in_order [] events = True"
| "met_in_order (c # cs) events = (\<exists>i \<in> set [0..<length events]. c (events ! i) \<and> met_in_order cs (drop i events))"

definition pure_condition :: "('v \<Rightarrow> bool) \<Rightarrow> ('s, 'v, 'c) condition" where
  "pure_condition c = (\<lambda>s event. (s, Inr (c event)))"

text \<open>The reference: the shortest beginning of the events in which the conditions are met one after the other.\<close>

definition first_met :: "('v \<Rightarrow> bool) list \<Rightarrow> 'v list \<Rightarrow> nat option" where
  "first_met cs events = find (\<lambda>n. met_in_order cs (take n events)) [0..<Suc (length events)]"

definition nth_received :: "'v list \<Rightarrow> nat \<Rightarrow> 'v option" where
  "nth_received events n = (if n = 0 then None else Some (events ! (n - 1)))"

text \<open>An event settles the conditions at the front that it meets.\<close>

lemma met_in_order_Cons:
  "met_in_order (c # cs) (ev # events) \<longleftrightarrow> c ev \<and> met_in_order cs (ev # events) \<or> met_in_order (c # cs) events"
proof -
  have "(\<exists>i \<in> set [0..<length (ev # events)]. P i) \<longleftrightarrow> P 0 \<or> (\<exists>i \<in> set [0..<length events]. P (Suc i))" for P
    by (auto simp: less_Suc_eq_0_disj Bex_def simp del: upt_Suc)
  then show ?thesis by (simp only: met_in_order.simps(2)) simp
qed

lemma met_in_order_Nil [simp]: "met_in_order cs [] \<longleftrightarrow> cs = []"
  by (cases cs) auto

lemma met_in_order_mono: "met_in_order cs events \<Longrightarrow> met_in_order cs (ev # events)"
  by (cases cs) (auto simp: met_in_order_Cons simp del: met_in_order.simps(2))

lemma met_in_order_tail: "met_in_order (c # cs) events \<Longrightarrow> met_in_order cs events"
  by (induction events) (auto simp: met_in_order_Cons met_in_order_mono simp del: met_in_order.simps(2))

lemma met_in_order_step: "met_in_order cs (ev # events) \<longleftrightarrow> met_in_order (dropWhile (\<lambda>c. c ev) cs) events"
  by (induction cs) (auto simp: met_in_order_Cons met_in_order_mono dest: met_in_order_tail simp del: met_in_order.simps(2))

fun settle :: "'v option \<Rightarrow> ('v \<Rightarrow> bool) list \<Rightarrow> ('v \<Rightarrow> bool) list" where
  "settle None cs = cs"
| "settle (Some ev) cs = dropWhile (\<lambda>c. c ev) cs"

fun until_events :: "('v \<Rightarrow> bool) list \<Rightarrow> 'v list \<Rightarrow> 'v option \<Rightarrow> 'v ch_input list \<Rightarrow> 'v option \<times> 'c until_err option outcome" where
  "until_events [] events lastEvent rest = (lastEvent, Done None)"
| "until_events (c # cs) [] lastEvent rest =
     (lastEvent, case rest of [] \<Rightarrow> Running | ChClosed # _ \<Rightarrow> Done (Some ErrWatchClosed) | _ \<Rightarrow> Done (Some ErrWaitTimeout))"
| "until_events (c # cs) (ev # events) lastEvent rest = until_events (dropWhile (\<lambda>c. c ev) (c # cs)) events (Some ev) rest"

definition no_recv :: "'v ch_input list \<Rightarrow> bool" where
  "no_recv rest \<longleftrightarrow> (case rest of Recv _ # _ \<Rightarrow> False | _ \<Rightarrow> True)"

lemma until_wait_pure:
  assumes "\<forall>events lastEvent. UntilWithoutRetry (map (pure_condition :: _ \<Rightarrow> ('s, 'v, 'c) condition) cs) (map Recv events @ rest) s lastEvent =
      (s, until_events (settle lastEvent cs) events lastEvent rest)" and "no_recv rest"
  shows "(case until_wait (pure_condition c :: ('s, 'v, 'c) condition) (map Recv events @ rest) s lastEvent of
      (s, inputs, lastEvent, Done None) \<Rightarrow> UntilWithoutRetry (map pure_condition cs) inputs s lastEvent
    | (s, inputs, lastEvent, r) \<Rightarrow> (s, lastEvent, r)) = (s, until_events (c # cs) events lastEvent rest)"
proof (induction events arbitrary: lastEvent)
  case Nil
  show ?case using assms(2) by (cases rest) (auto simp: no_recv_def split: ch_input.splits)
next
  case (Cons ev events)
  then show ?case using assms(1) by (simp add: pure_condition_def)
qed

lemma until_pure:
  "no_recv rest \<Longrightarrow> UntilWithoutRetry (map pure_condition cs) (map Recv events @ rest) s lastEvent =
     (s, until_events (settle lastEvent cs) events lastEvent rest)"
proof (induction cs arbitrary: events lastEvent)
  case Nil
  then show ?case by (cases lastEvent) auto
next
  case (Cons c cs)
  show ?case
  proof (cases lastEvent)
    case None
    then show ?thesis using Cons by (simp add: until_wait_pure)
  next
    case (Some ev)
    then show ?thesis using Cons by (simp add: until_wait_pure pure_condition_def [of c, THEN fun_cong, THEN fun_cong] del: until_wait.simps)
  qed
qed

lemma find_map: "find P (map f xs) = map_option f (find (P \<circ> f) xs)"
  by (induction xs) auto

lemma first_met_simps:
  "first_met [] events = Some 0"
  "first_met (c # cs) [] = None"
  "first_met (c # cs) (ev # events) = map_option Suc (first_met (dropWhile (\<lambda>c. c ev) (c # cs)) events)"
proof -
  have upt: "[0..<Suc n] = 0 # map Suc [0..<n]" for n by (simp add: upt_conv_Cons map_Suc_upt del: upt_Suc)
  show "first_met [] events = Some 0" by (simp add: first_met_def upt del: upt_Suc)
  show "first_met (c # cs) [] = None" by (simp add: first_met_def)
  have "(\<lambda>n. met_in_order (c # cs) (take n (ev # events))) \<circ> Suc = (\<lambda>n. met_in_order (dropWhile (\<lambda>c. c ev) (c # cs)) (take n events))"
    by (rule ext) (simp add: met_in_order_step del: met_in_order.simps)
  then show "first_met (c # cs) (ev # events) = map_option Suc (first_met (dropWhile (\<lambda>c. c ev) (c # cs)) events)"
    unfolding first_met_def length_Cons upt [of "Suc (length events)"] find.simps(2) find_map by (simp del: upt_Suc met_in_order.simps dropWhile.simps)
qed

definition until_end :: "'v ch_input list \<Rightarrow> 'c until_err option outcome" where
  "until_end rest = (case rest of [] \<Rightarrow> Running | ChClosed # _ \<Rightarrow> Done (Some ErrWatchClosed) | _ \<Rightarrow> Done (Some ErrWaitTimeout))"

lemma until_events_first:
  "until_events cs events lastEvent rest =
     (case first_met cs events of
        Some n \<Rightarrow> (if n = 0 then lastEvent else Some (events ! (n - 1)), Done None)
      | None \<Rightarrow> (if events = [] then lastEvent else Some (last events), until_end rest))"
  by (induction cs events lastEvent rest rule: until_events.induct)
    (simp_all add: first_met_simps until_end_def nth_Cons' split: option.split del: dropWhile.simps)

text \<open>
  C29 \<open>UntilWithoutRetry\<close> with conditions that cannot fail does what it says: it returns the first event at which all conditions have been met one
  after the other, each at the event of the one before or later, and no event when there are no conditions; if they are never met it
  returns the last event, with the error for a closed channel or a context that is done, or it still waits.
\<close>
theorem until_exact:
  "UntilWithoutRetry (map pure_condition cs) (map Recv events @ rest) s None =
     (case first_met cs events of
        Some n \<Rightarrow> (s, nth_received events n, Done None)
      | None \<Rightarrow> (s, nth_received events (length events), until_end rest))"
  if "no_recv rest"
  using that by (simp add: until_pure until_events_first nth_received_def last_conv_nth split: option.split)

theorem until_exact_witness:
  "UntilWithoutRetry (map pure_condition [\<lambda>n. 2 < n, \<lambda>n. n < (5::nat)]) (map Recv [1, 7, 2, 9] @ [ChClosed]) () None =
     ((), Some 2, Done (None :: unit until_err option))"
proof -
  have "no_recv [ChClosed :: nat ch_input]" by (simp add: no_recv_def)
  moreover have "first_met [\<lambda>n. 2 < n, \<lambda>n. n < (5::nat)] [1, 7, 2, 9] = Some 3" by (simp add: first_met_simps)
  ultimately show ?thesis using until_exact [of "[ChClosed]" "[\<lambda>n. 2 < n, \<lambda>n. n < (5::nat)]" "[1, 7, 2, 9]" "()"]
    by (simp add: nth_received_def del: UntilWithoutRetry.simps)
qed

section \<open>Until\<close>

lemma first_met_append: "first_met cs xs = Some n \<Longrightarrow> first_met cs (xs @ ys) = Some n"
proof (induction xs arbitrary: cs n)
  case Nil
  then show ?case by (cases cs) (simp_all add: first_met_simps)
next
  case (Cons x xs)
  then show ?case by (cases cs) (auto simp add: first_met_simps simp del: dropWhile.simps)
qed

lemma first_met_ignores: "\<forall>c \<in> set cs. \<not> c x \<Longrightarrow> first_met cs (xs @ [x]) = first_met cs xs"
proof (induction xs arbitrary: cs)
  case Nil
  then show ?case by (cases cs) (auto simp: first_met_simps)
next
  case (Cons y xs)
  have "\<forall>c \<in> set (dropWhile (\<lambda>c. c y) cs). \<not> c x" using Cons.prems set_dropWhileD by fastforce
  then show ?case using Cons.IH by (cases cs) (auto simp add: first_met_simps simp del: dropWhile.simps)
qed

lemma first_met_le: "first_met cs xs = Some n \<Longrightarrow> n \<le> length xs"
  by (auto simp: first_met_def find_Some_iff simp del: upt_Suc)

text \<open>What the consumer receives before the channel or the context ends.\<close>

lemma until_inputs_split:
  obtains n rest where "until_inputs ctx events r = map Recv (take n events) @ rest" and "no_recv rest"
    and "ctx = None \<Longrightarrow> take n events = events \<and> rest = (if r = Done () then [ChClosed] else [])"
proof (cases ctx)
  case None
  then show thesis by (intro that [of "length events" "if r = Done () then [ChClosed] else []"]) (auto simp: until_inputs_def no_recv_def)
next
  case (Some n)
  let ?rest = "take (n - length events) (if r = Done () then [ChClosed] else []) @ [CtxDone]"
  have "no_recv ?rest" by (cases "n - length events") (auto simp: no_recv_def)
  then show thesis using Some by (intro that [of n ?rest]) (auto simp: until_inputs_def take_map Let_def)
qed

text \<open>
  \<open>Until\<close> shows its conditions the true history: when the server watches as documented and the conditions cannot fail and are not met by an error event,
  then \<open>Until\<close> returns without an error only with the first event of the history after the initial resource version at which the
  conditions have been met one after the other, however often the watch was restarted, and whenever the context is done.
\<close>
theorem Until_in_order:
  fixes env :: "('w, 'a, 'e) rw_env"
  assumes "rw_server_right env after wgood" and "wgood w" and "\<forall>c \<in> set cs. \<forall>obj. \<not> c (Forwarded EvError obj)"
    and "Until env fuel ctx rv (map pure_condition cs) w s = (s', lastEvent, Done (None :: 'c until_err option))"
  shows "\<exists>n. first_met cs (forwarded (after rv)) = Some n \<and> lastEvent = nth_received (forwarded (after rv)) n"
proof -
  obtain rw :: "'a retry_watcher" where rw: "newRetryWatcher rv 1000000000 = Inr rw"
    using assms(4) by (auto simp: Until_def NewRetryWatcher_def split: sum.splits)
  obtain rw' w' r where run: "rw_receive env fuel rw w = (rw', w', r)" by (metis prod_cases3)
  have "rw_tracks env after (after rv) rw' (r = Running)"
    by (rule rw_receive_tracks [OF assms(1,2) rw_tracks_new [OF rw] run])
  then obtain seen ends where seen: "after rv = seen @ after (rw_lastResourceVersion rw')" and sent: "rw_sent rw' = forwarded seen @ ends"
    and ends: "ends = [] \<or> (\<exists>obj. ends = [Forwarded EvError obj])"
    unfolding rw_tracks_def by blast
  obtain n rest where inputs: "until_inputs ctx (rw_sent rw') r = map Recv (take n (rw_sent rw')) @ rest" and rest: "no_recv rest"
    by (rule until_inputs_split)
  have "UntilWithoutRetry (map pure_condition cs) (map Recv (take n (rw_sent rw')) @ rest) s None = (s', lastEvent, Done (None :: 'c until_err option))"
    using assms(4) by (simp add: Until_def NewRetryWatcher_def rw run inputs)
  then obtain k where k: "first_met cs (take n (rw_sent rw')) = Some k" and l: "lastEvent = nth_received (take n (rw_sent rw')) k"
    by (auto simp: until_pure [OF rest] until_events_first nth_received_def until_end_def split: option.splits list.splits ch_input.splits if_splits)
  have "first_met cs (rw_sent rw') = Some k"
    using first_met_append [OF k, of "drop n (rw_sent rw')"] by simp
  then have k': "first_met cs (forwarded seen) = Some k"
    using ends assms(3) first_met_ignores sent by (metis append_Nil2)
  then have "nth_received (forwarded (after rv)) k = nth_received (forwarded seen) k"
    using first_met_le [OF k'] seen by (auto simp: nth_received_def nth_append)
  moreover have "nth_received (take n (rw_sent rw')) k = nth_received (forwarded seen) k"
    using first_met_le [OF k] first_met_le [OF k'] sent by (auto simp: nth_received_def nth_append)
  ultimately show ?thesis using first_met_append [OF k'] seen l by (metis forwarded_simps(2))
qed

lemma until_exact_nil:
  "UntilWithoutRetry (map pure_condition cs) (map Recv events) s None =
     (case first_met cs events of Some n \<Rightarrow> (s, nth_received events n, Done None) | None \<Rightarrow> (s, nth_received events (length events), Running))"
  by (subst append_Nil2 [symmetric], subst until_pure)
    (simp_all add: no_recv_def until_events_first nth_received_def until_end_def last_conv_nth split: option.splits)

text \<open>
  \<open>Until\<close> returns: with a server that watches as documented, keeps going and never answers \<open>Gone\<close>, it returns the first event of the history at which the
  conditions have been met one after the other, if there is one, whatever watches failed on the way, and waits otherwise.
\<close>
theorem Until_returns:
  fixes env :: "('w, 'a, 'e) rw_env"
  assumes "rw_server_right env after wgood" and "rw_unstopped env wgood" and "rw_fair env after fails wgood" and "wgood w"
    and "rv \<noteq> ''''" and "rv \<noteq> ''0''" and "length (after rv) + fails w \<le> fuel" and "\<And>obj. \<not> is_gone env obj"
  shows "Until env fuel None rv (map pure_condition cs) w s =
    (case first_met cs (forwarded (after rv)) of
       Some n \<Rightarrow> (s, nth_received (forwarded (after rv)) n, Done None)
     | None \<Rightarrow> (s, nth_received (forwarded (after rv)) (length (after rv)), Running))"
proof -
  obtain rw :: "'a retry_watcher" where rw: "newRetryWatcher rv 1000000000 = Inr rw" using assms(5,6) by (simp add: newRetryWatcher_def)
  obtain rw' w' r where run: "rw_receive env fuel rw w = (rw', w', r)" by (metis prod_cases3)
  have *: "rw_sent rw' = forwarded (after rv)" "r = Running"
    using rw_received_all [OF assms(1-4) rw assms(7) run] assms(8) by blast+
  then show ?thesis
    using * by (simp add: Until_def NewRetryWatcher_def rw run until_inputs_def until_exact_nil nth_received_def split: option.split)
qed

section \<open>A concrete server\<close>

text \<open>
  Two changes, at versions 2 and 4. The first watch fails; the next sends the first change and a bookmark and closes; the last sends the second change.
  An object is its version.
\<close>

definition demo_after :: "string \<Rightarrow> string changes" where
  "demo_after rv =
     (if rv = ''1'' then [(EvAdded, ''2''), (EvModified, ''4'')]
      else if rv = ''2'' \<or> rv = ''3'' then [(EvModified, ''4'')] else [])"

definition demo_rw :: "(nat, string, unit) rw_env" where
  "demo_rw = \<lparr>
     rw_Watch = (\<lambda>w rv bookmarks. (Suc w,
       if w = 0 then Inl EOF
       else if rv = ''1'' then Inr (Some [RwEvent EvAdded ''2'' Taken, RwEvent EvBookmark ''3'' Taken, RwClosed])
       else if rv = ''2'' \<or> rv = ''3'' then Inr (Some [RwEvent EvModified ''4'' Taken])
       else Inr (Some []))),
     rw_version = Some, rw_status = (\<lambda>_. None), rw_ctxDone = (\<lambda>w. (w, False)), rw_timer = (\<lambda>w _. (w, False)), rw_period = (\<lambda>w _. (w, False))\<rparr>"

lemma demo_rw_ok:
  "rw_server_right demo_rw demo_after (\<lambda>_. True)" "rw_unstopped demo_rw (\<lambda>_. True)"
  "rw_fair demo_rw demo_after (\<lambda>w. if w = 0 then 1 else 0) (\<lambda>_. True)"
proof -
  show "rw_server_right demo_rw demo_after (\<lambda>_. True)"
    unfolding rw_server_right_def by (auto simp: demo_rw_def demo_after_def has_version_def is_change_def split: if_splits)
  show "rw_unstopped demo_rw (\<lambda>_. True)"
    unfolding rw_unstopped_def by (auto simp: demo_rw_def split: if_splits)
  show "rw_fair demo_rw demo_after (\<lambda>w. if w = 0 then 1 else 0) (\<lambda>_. True)"
    unfolding rw_fair_def by (auto simp: demo_rw_def demo_after_def is_change_def split: if_splits)
qed

lemma demo_rw_new:
  "newRetryWatcher ''1'' 0 = Inr \<lparr>rw_lastResourceVersion = ''1'', rw_minRestartDelay = 0, rw_sent = []\<rparr>"
  by (simp add: newRetryWatcher_def)

lemma demo_rw_run:
  "rw_receive demo_rw 3 \<lparr>rw_lastResourceVersion = ''1'', rw_minRestartDelay = 0, rw_sent = []\<rparr> 0 =
     (\<lparr>rw_lastResourceVersion = ''4'', rw_minRestartDelay = 0, rw_sent = [Forwarded EvAdded ''2'', Forwarded EvModified ''4'']\<rparr>, 3, Running)"
  by (simp add: eval_nat_numeral rw_receive.simps doReceive_def demo_rw_def rw_send_def)

theorem retry_watcher_exact_witness:
  "\<exists>seen ends. demo_after ''1'' = seen @ demo_after ''4'' \<and>
     [Forwarded EvAdded ''2'', Forwarded EvModified ''4''] = forwarded seen @ ends \<and>
     (ends = [] \<or> Running = Done () \<and> (\<exists>obj. ends = [Forwarded EvError obj] \<and> is_gone demo_rw obj))"
  using retry_watcher_exact [OF demo_rw_ok(1) _ demo_rw_new demo_rw_run] by simp

theorem retry_watcher_complete_witness:
  "\<exists>rw rw' w'. newRetryWatcher ''1'' 0 = Inr rw \<and> rw_receive demo_rw 3 rw 0 = (rw', w', Running) \<and>
     rw_sent rw' = forwarded (demo_after ''1'') \<and> length (rw_sent rw') = 2"
proof -
  have "rw_sent \<lparr>rw_lastResourceVersion = ''4'', rw_minRestartDelay = 0, rw_sent = [Forwarded EvAdded ''2'', Forwarded EvModified ''4'']\<rparr> =
      forwarded (demo_after ''1'')"
    using retry_watcher_complete [OF demo_rw_ok _ demo_rw_new _ demo_rw_run] by (simp add: demo_after_def)
  then show ?thesis using demo_rw_new demo_rw_run by (intro exI conjI) (assumption | simp add: demo_after_def)+
qed

definition demo_conditions :: "(string rw_event \<Rightarrow> bool) list" where
  "demo_conditions = [\<lambda>ev. \<exists>obj \<in> {''2''}. ev = Forwarded EvAdded obj, \<lambda>ev. case ev of Forwarded t _ \<Rightarrow> t = EvModified | _ \<Rightarrow> False]"

lemma demo_first: "first_met demo_conditions (forwarded (demo_after ''1'')) = Some 2"
  by (simp add: demo_conditions_def demo_after_def first_met_simps)

theorem Until_returns_witness:
  "Until demo_rw 3 None ''1'' (map pure_condition demo_conditions) 0 () =
     ((), Some (Forwarded EvModified ''4''), Done (None :: unit until_err option))"
proof -
  have "length (demo_after ''1'') + (if 0 = (0::nat) then 1 else 0) \<le> 3" by (simp add: demo_after_def)
  from Until_returns [OF demo_rw_ok TrueI _ _ this, of demo_conditions "()"] show ?thesis
    by (simp add: demo_first nth_received_def is_gone_def demo_rw_def) (simp add: demo_after_def)
qed

theorem Until_in_order_witness:
  "\<exists>n. first_met demo_conditions (forwarded (demo_after ''1'')) = Some n \<and>
     Some (Forwarded EvModified ''4'') = nth_received (forwarded (demo_after ''1'')) n"
proof -
  have run: "Until demo_rw 3 None ''1'' (map pure_condition demo_conditions) 0 () =
     ((), Some (Forwarded EvModified ''4''), Done (None :: unit until_err option))"
    by (simp add: Until_def NewRetryWatcher_def newRetryWatcher_def eval_nat_numeral rw_receive.simps doReceive_def demo_rw_def rw_send_def
        until_inputs_def demo_conditions_def pure_condition_def)
  have "\<forall>c \<in> set demo_conditions. \<forall>obj. \<not> c (Forwarded EvError obj)" by (simp add: demo_conditions_def)
  from Until_in_order [OF demo_rw_ok(1) TrueI this run] show ?thesis .
qed

end
