(* ===== verification/EventHandlers.thy ===== *)
theory EventHandlers
  imports Reflector
begin

text \<open>
  The handlers that stand between an informer and its user: the adaptors and the filter of \<open>tools/cache/controller.go\<close>, and
  \<open>tools/watch/informerwatcher.go\<close>, which turns the notifications of an informer into the events of a watch through a buffer that never blocks
  the informer.

  A handler acts on a state \<open>'h\<close> of its own. The lemmas: a filter passes on a consistent history of the objects that pass it; the buffer is a queue that
  loses nothing before it is stopped; and the events of the informer's watch add up to the informer's store.
\<close>

section \<open>Handlers\<close>

record ('h, 'o) handler =
  h_OnAdd :: "'o obj \<Rightarrow> bool \<Rightarrow> 'h \<Rightarrow> 'h"
  h_OnUpdate :: "'o obj \<Rightarrow> 'o obj \<Rightarrow> 'h \<Rightarrow> 'h"
  h_OnDelete :: "'o obj \<Rightarrow> 'h \<Rightarrow> 'h"

text \<open>A nil function is \<open>None\<close>.\<close>

record ('h, 'o) ResourceEventHandlerFuncs =
  rf_AddFunc :: "('o obj \<Rightarrow> 'h \<Rightarrow> 'h) option"
  rf_UpdateFunc :: "('o obj \<Rightarrow> 'o obj \<Rightarrow> 'h \<Rightarrow> 'h) option"
  rf_DeleteFunc :: "('o obj \<Rightarrow> 'h \<Rightarrow> 'h) option"

definition funcs_OnAdd :: "('h, 'o) ResourceEventHandlerFuncs \<Rightarrow> 'o obj \<Rightarrow> bool \<Rightarrow> 'h \<Rightarrow> 'h" where
  "funcs_OnAdd r obj isInInitialList h = (case rf_AddFunc r of None \<Rightarrow> h | Some f \<Rightarrow> f obj h)"

definition funcs_OnUpdate :: "('h, 'o) ResourceEventHandlerFuncs \<Rightarrow> 'o obj \<Rightarrow> 'o obj \<Rightarrow> 'h \<Rightarrow> 'h" where
  "funcs_OnUpdate r oldObj newObj h = (case rf_UpdateFunc r of None \<Rightarrow> h | Some f \<Rightarrow> f oldObj newObj h)"

definition funcs_OnDelete :: "('h, 'o) ResourceEventHandlerFuncs \<Rightarrow> 'o obj \<Rightarrow> 'h \<Rightarrow> 'h" where
  "funcs_OnDelete r obj h = (case rf_DeleteFunc r of None \<Rightarrow> h | Some f \<Rightarrow> f obj h)"

definition funcs_handler :: "('h, 'o) ResourceEventHandlerFuncs \<Rightarrow> ('h, 'o) handler" where
  "funcs_handler r = \<lparr>h_OnAdd = funcs_OnAdd r, h_OnUpdate = funcs_OnUpdate r, h_OnDelete = funcs_OnDelete r\<rparr>"

record ('h, 'o) ResourceEventHandlerDetailedFuncs =
  rd_AddFunc :: "('o obj \<Rightarrow> bool \<Rightarrow> 'h \<Rightarrow> 'h) option"
  rd_UpdateFunc :: "('o obj \<Rightarrow> 'o obj \<Rightarrow> 'h \<Rightarrow> 'h) option"
  rd_DeleteFunc :: "('o obj \<Rightarrow> 'h \<Rightarrow> 'h) option"

definition detailed_OnAdd :: "('h, 'o) ResourceEventHandlerDetailedFuncs \<Rightarrow> 'o obj \<Rightarrow> bool \<Rightarrow> 'h \<Rightarrow> 'h" where
  "detailed_OnAdd r obj isInInitialList h = (case rd_AddFunc r of None \<Rightarrow> h | Some f \<Rightarrow> f obj isInInitialList h)"

definition detailed_OnUpdate :: "('h, 'o) ResourceEventHandlerDetailedFuncs \<Rightarrow> 'o obj \<Rightarrow> 'o obj \<Rightarrow> 'h \<Rightarrow> 'h" where
  "detailed_OnUpdate r oldObj newObj h = (case rd_UpdateFunc r of None \<Rightarrow> h | Some f \<Rightarrow> f oldObj newObj h)"

definition detailed_OnDelete :: "('h, 'o) ResourceEventHandlerDetailedFuncs \<Rightarrow> 'o obj \<Rightarrow> 'h \<Rightarrow> 'h" where
  "detailed_OnDelete r obj h = (case rd_DeleteFunc r of None \<Rightarrow> h | Some f \<Rightarrow> f obj h)"

definition detailed_handler :: "('h, 'o) ResourceEventHandlerDetailedFuncs \<Rightarrow> ('h, 'o) handler" where
  "detailed_handler r = \<lparr>h_OnAdd = detailed_OnAdd r, h_OnUpdate = detailed_OnUpdate r, h_OnDelete = detailed_OnDelete r\<rparr>"

record ('h, 'o) FilteringResourceEventHandler =
  fr_FilterFunc :: "'o obj \<Rightarrow> bool"
  fr_Handler :: "('h, 'o) handler"

definition filtering_OnAdd :: "('h, 'o) FilteringResourceEventHandler \<Rightarrow> 'o obj \<Rightarrow> bool \<Rightarrow> 'h \<Rightarrow> 'h" where
  "filtering_OnAdd r obj isInInitialList h =
     (if \<not> fr_FilterFunc r obj then h else h_OnAdd (fr_Handler r) obj isInInitialList h)"

definition filtering_OnUpdate :: "('h, 'o) FilteringResourceEventHandler \<Rightarrow> 'o obj \<Rightarrow> 'o obj \<Rightarrow> 'h \<Rightarrow> 'h" where
  "filtering_OnUpdate r oldObj newObj h =
     (let newer = fr_FilterFunc r newObj; older = fr_FilterFunc r oldObj
      in if newer \<and> older then h_OnUpdate (fr_Handler r) oldObj newObj h
         else if newer \<and> \<not> older then h_OnAdd (fr_Handler r) newObj False h
         else if \<not> newer \<and> older then h_OnDelete (fr_Handler r) oldObj h
         else h)"

definition filtering_OnDelete :: "('h, 'o) FilteringResourceEventHandler \<Rightarrow> 'o obj \<Rightarrow> 'h \<Rightarrow> 'h" where
  "filtering_OnDelete r obj h = (if \<not> fr_FilterFunc r obj then h else h_OnDelete (fr_Handler r) obj h)"

definition filtering_handler :: "('h, 'o) FilteringResourceEventHandler \<Rightarrow> ('h, 'o) handler" where
  "filtering_handler r = \<lparr>h_OnAdd = filtering_OnAdd r, h_OnUpdate = filtering_OnUpdate r, h_OnDelete = filtering_OnDelete r\<rparr>"

text \<open>A handler that is told a list of notifications, and the handler that only keeps them.\<close>

fun tell :: "('h, 'o) handler \<Rightarrow> 'o notification \<Rightarrow> 'h \<Rightarrow> 'h" where
  "tell hr (OnAdd obj initial) h = h_OnAdd hr obj initial h"
| "tell hr (OnUpdate old obj) h = h_OnUpdate hr old obj h"
| "tell hr (OnDelete obj) h = h_OnDelete hr obj h"

definition recorder :: "('o notification list, 'o) handler" where
  "recorder = \<lparr>h_OnAdd = (\<lambda>obj initial log. log @ [OnAdd obj initial]), h_OnUpdate = (\<lambda>old obj log. log @ [OnUpdate old obj]),
     h_OnDelete = (\<lambda>obj log. log @ [OnDelete obj])\<rparr>"

section \<open>The filter\<close>

text \<open>What the nested handler is told for one notification.\<close>

fun filtered :: "('o obj \<Rightarrow> bool) \<Rightarrow> 'o notification \<Rightarrow> 'o notification list" where
  "filtered p (OnAdd obj initial) = (if p obj then [OnAdd obj initial] else [])"
| "filtered p (OnUpdate old obj) =
     (if p obj then if p old then [OnUpdate old obj] else [OnAdd obj False] else if p old then [OnDelete old] else [])"
| "filtered p (OnDelete obj) = (if p obj then [OnDelete obj] else [])"

definition filtered_log :: "('o obj \<Rightarrow> bool) \<Rightarrow> 'o notification list \<Rightarrow> 'o notification list" where
  "filtered_log p log = concat (map (filtered p) log)"

text \<open>Any handler behind the filter sees the filtered log.\<close>

lemma tell_filtering:
  "tell (filtering_handler r) n h = fold (tell (fr_Handler r)) (filtered (fr_FilterFunc r) n) h"
  by (cases n) (auto simp: filtering_handler_def filtering_OnAdd_def filtering_OnUpdate_def filtering_OnDelete_def Let_def)

lemma tell_all_filtering:
  "fold (tell (filtering_handler r)) log h = fold (tell (fr_Handler r)) (filtered_log (fr_FilterFunc r) log) h"
  by (induction log arbitrary: h) (simp_all add: filtered_log_def tell_filtering)

lemma tell_all_recorder: "fold (tell recorder) log h = h @ log"
proof (induction log arbitrary: h)
  case (Cons n log)
  then show ?case by (cases n) (simp_all add: recorder_def)
qed simp

definition filter_map :: "('o obj \<Rightarrow> bool) \<Rightarrow> 'o obj gomap \<Rightarrow> 'o obj gomap" where
  "filter_map p m = (\<lambda>k. case m k of None \<Rightarrow> None | Some obj \<Rightarrow> if p obj then Some obj else None)"

lemma filter_map_upd [simp]:
  "filter_map p (m(k \<mapsto> obj)) = (filter_map p m)(k := if p obj then Some obj else None)"
  "filter_map p (m(k := None)) = (filter_map p m)(k := None)"
  by (auto simp: filter_map_def)

text \<open>
  The filter looks at the object that comes with a deletion, not at the one last reported: it must decide alike on both. (For a \<open>DeletedFinalStateUnknown\<close>
  that means to look inside.)
\<close>

fun deletions_agree :: "('o obj \<Rightarrow> bool) \<Rightarrow> 'o goval key_func \<Rightarrow> 'o notification list \<Rightarrow> 'o obj gomap \<Rightarrow> bool" where
  "deletions_agree p key [] m = True"
| "deletions_agree p key (OnAdd obj initial # log) m = deletions_agree p key log (m(projr (key obj) \<mapsto> obj))"
| "deletions_agree p key (OnUpdate old obj # log) m = deletions_agree p key log (m(projr (key obj) \<mapsto> obj))"
| "deletions_agree p key (OnDelete obj # log) m =
     ((case m (projr (key obj)) of None \<Rightarrow> True | Some old \<Rightarrow> p obj = p old) \<and> deletions_agree p key log (m(projr (key obj) := None)))"

lemma replay_filtered_step:
  assumes "replay key [n] m = Some m'" and "deletions_agree p key [n] m" and "\<forall>old obj. n = OnUpdate old obj \<longrightarrow> key old = key obj"
  shows "replay key (filtered p n) (filter_map p m) = Some (filter_map p m')"
proof (cases n)
  case (OnAdd obj initial)
  then obtain k where k: "key obj = Inr k" "m k = None" "m' = m(k \<mapsto> obj)"
    using assms(1) by (auto split: sum.splits if_splits)
  then have "filter_map p m k = None" by (simp add: filter_map_def)
  then show ?thesis using OnAdd k by (cases "p obj") (simp_all add: fun_upd_idem)
next
  case (OnUpdate old obj)
  then obtain k where k: "key obj = Inr k" "key old = Inr k" "m k = Some old" "m' = m(k \<mapsto> obj)"
    using assms(1,3) by (auto split: sum.splits if_splits)
  then have "filter_map p m k = (if p old then Some old else None)" by (simp add: filter_map_def)
  then show ?thesis using OnUpdate k by (cases "p old"; cases "p obj") (simp_all add: fun_upd_idem)
next
  case (OnDelete obj)
  then obtain k old where k: "key obj = Inr k" "m k = Some old" "m' = m(k := None)" "p obj = p old"
    using assms(1,2) by (auto split: sum.splits if_splits)
  then have "filter_map p m k = (if p obj then Some old else None)" by (simp add: filter_map_def)
  then show ?thesis using OnDelete k by (cases "p obj") (simp_all add: fun_upd_idem)
qed

lemma deletions_agree_Cons:
  assumes "deletions_agree p key (n # log) m" and "replay key [n] m = Some m'"
  shows "deletions_agree p key [n] m \<and> deletions_agree p key log m'"
  using assms by (cases n) (auto split: sum.splits if_splits)

lemma replay_ConsE:
  assumes "replay key (n # log) m = Some m'"
  obtains m1 where "replay key [n] m = Some m1" and "replay key log m1 = Some m'"
  using assms replay_append [of key "[n]" log m] by (auto split: option.splits)

lemma replay_filtered:
  assumes "replay key log m = Some m'" and "deletions_agree p key log m"
    and "\<forall>old obj. OnUpdate old obj \<in> set log \<longrightarrow> key old = key obj"
  shows "replay key (filtered_log p log) (filter_map p m) = Some (filter_map p m')"
  using assms
proof (induction log arbitrary: m)
  case (Cons n log)
  from Cons.prems(1) obtain m1 where m1: "replay key [n] m = Some m1" "replay key log m1 = Some m'"
    by (rule replay_ConsE)
  then have "replay key (filtered p n) (filter_map p m) = Some (filter_map p m1)"
    using Cons.prems deletions_agree_Cons [OF Cons.prems(2) m1(1)] by (intro replay_filtered_step) auto
  moreover have "replay key (filtered_log p log) (filter_map p m1) = Some (filter_map p m')"
    using Cons.IH [OF m1(2)] deletions_agree_Cons [OF Cons.prems(2) m1(1)] Cons.prems(3) by simp
  ultimately show ?case by (simp add: filtered_log_def replay_append)
qed (simp add: filtered_log_def)

text \<open>In a history every object is under its own key, so that an update does not change the key.\<close>

definition well_keyed :: "'o goval key_func \<Rightarrow> 'o obj gomap \<Rightarrow> bool" where
  "well_keyed key m \<longleftrightarrow> (\<forall>k obj. m k = Some obj \<longrightarrow> key obj = Inr k)"

lemma replay_well_keyed:
  assumes "replay key log m = Some m'" and "well_keyed key m"
  shows "well_keyed key m' \<and> (\<forall>old obj. OnUpdate old obj \<in> set log \<longrightarrow> key old = key obj)"
  using assms
proof (induction log arbitrary: m)
  case (Cons n log)
  from Cons.prems(1) obtain m1 where m1: "replay key [n] m = Some m1" "replay key log m1 = Some m'"
    by (rule replay_ConsE)
  have "well_keyed key m1 \<and> (\<forall>old obj. n = OnUpdate old obj \<longrightarrow> key old = key obj)"
    using m1(1) Cons.prems(2) by (cases n) (auto simp: well_keyed_def split: sum.splits if_splits)
  then show ?case using Cons.IH [OF m1(2)] by auto
qed simp

definition filtering_recorder :: "('o obj \<Rightarrow> bool) \<Rightarrow> ('o notification list, 'o) handler" where
  "filtering_recorder p = filtering_handler \<lparr>fr_FilterFunc = p, fr_Handler = recorder\<rparr>"

lemma filtering_recorder: "fold (tell (filtering_recorder p)) log h = h @ filtered_log p log"
  by (simp add: filtering_recorder_def tell_all_filtering tell_all_recorder)

text \<open>
  C15 A handler behind a \<open>FilteringResourceEventHandler\<close> of an informer sees a consistent history of the objects that pass the filter: nothing is added while
  present, an update names the object last reported, only present objects are deleted, and the outcome is the part of the store that passes
  the filter. The filter has to decide about a deletion as about the object last reported.
\<close>
theorem filtered_notifications_consistent:
  assumes "transformer_ok (DeletionHandlingMetaNamespaceKeyFunc accessor) transformer"
    and "range_order iorder indexers" and "map_iter korder" and "map_iter order"
    and "\<forall>call \<in> set calls. call_ok (DeletionHandlingMetaNamespaceKeyFunc accessor) indexers
           (\<lambda>obj. projr (transform_with transformer obj)) call"
    and "i = informer_run (cache_methods iorder korder) order (new_indexer_informer accessor indexers transformer) calls"
    and "deletions_agree p (DeletionHandlingMetaNamespaceKeyFunc accessor) (snd (inf_client i)) Map.empty"
  shows "replay (DeletionHandlingMetaNamespaceKeyFunc accessor) (fold (tell (filtering_recorder p)) (snd (inf_client i)) []) Map.empty =
     Some (filter_map p (cache_content (fst (inf_client i))))"
proof -
  let ?key = "DeletionHandlingMetaNamespaceKeyFunc accessor"
  have log: "replay ?key (snd (inf_client i)) Map.empty = Some (cache_content (fst (inf_client i)))"
    using informer_run_new(3) [OF assms(1-5), folded assms(6)] by (simp add: cinf.log_inv_def)
  have "\<forall>old obj. OnUpdate old obj \<in> set (snd (inf_client i)) \<longrightarrow> ?key old = ?key obj"
    using replay_well_keyed [OF log] by (simp add: well_keyed_def)
  then have "replay ?key (filtered_log p (snd (inf_client i))) (filter_map p Map.empty) = Some (filter_map p (cache_content (fst (inf_client i))))"
    by (rule replay_filtered [OF log assms(7)])
  moreover have "filter_map p Map.empty = Map.empty" by (simp add: filter_map_def)
  ultimately show ?thesis by (simp add: filtering_recorder)
qed

text \<open>
  The condition is needed: when the final state of an object does not pass the filter, although the last reported one did, the nested handler is never
  told that the object is gone.
\<close>

lemma filter_misses_deletion:
  assumes "p obj" and "\<not> p final"
  shows "fold (tell (filtering_recorder p)) [OnAdd obj True, OnDelete final] [] = [OnAdd obj True]"
  by (simp only: filtering_recorder) (simp add: filtered_log_def assms)

section \<open>eventProcessor\<close>

text \<open>
  The goroutine of \<open>run\<close> is in \<open>takeBatch\<close>, in \<open>writeBatch\<close> with the rest of its batch, about to look whether it is stopped, or it has returned. In \<open>takeBatch\<close>
  it is about to take the lock and look at the buffer (\<open>Taking\<close>), or has found that it must wait and still holds the lock (\<open>Deciding\<close>), or is on the list of the condition
  variable with the lock released (\<open>Waiting\<close>); \<open>stop\<close> does not take the lock and can come between the last two. \<open>ep_out\<close>
  are the events that a reader has taken from the \<open>out\<close> channel; \<open>ep_stopping\<close> holds between the two statements of \<open>stop\<close>.
\<close>

datatype 'v ep_loc = Taking | Deciding | Waiting | Writing "'v list" | Checking | Exited

record 'v eventProcessor =
  ep_out :: "'v list"
  ep_buff :: "'v list"
  ep_done :: bool
  ep_stopping :: bool
  ep_loc :: "'v ep_loc"

definition newEventProcessor :: "'v eventProcessor" where
  "newEventProcessor = \<lparr>ep_out = [], ep_buff = [], ep_done = False, ep_stopping = False, ep_loc = Taking\<rparr>"

definition ep_stopped :: "'v eventProcessor \<Rightarrow> bool" where
  "ep_stopped e = ep_done e"

text \<open>\<open>cond.Signal\<close> wakes the goroutine if it is on the list of the condition variable, and does nothing otherwise.\<close>

definition ep_Signal :: "'v eventProcessor \<Rightarrow> 'v eventProcessor" where
  "ep_Signal e = e\<lparr>ep_loc := if ep_loc e = Waiting then Taking else ep_loc e\<rparr>"

definition ep_push :: "'v \<Rightarrow> 'v eventProcessor \<Rightarrow> 'v eventProcessor" where
  "ep_push event e = ep_Signal (e\<lparr>ep_buff := ep_buff e @ [event]\<rparr>)"

text \<open>The two statements of \<open>stop\<close>.\<close>

definition ep_stop_close :: "'v eventProcessor \<Rightarrow> 'v eventProcessor" where
  "ep_stop_close e = e\<lparr>ep_done := True, ep_stopping := True\<rparr>"

definition ep_stop_signal :: "'v eventProcessor \<Rightarrow> 'v eventProcessor" where
  "ep_stop_signal e = (ep_Signal e)\<lparr>ep_stopping := False\<rparr>"

text \<open>\<open>None\<close>: the loop finds that it has to wait.\<close>

definition takeBatch :: "'v eventProcessor \<Rightarrow> ('v eventProcessor \<times> 'v list) option" where
  "takeBatch e = (if ep_buff e = [] \<and> \<not> ep_stopped e then None else Some (e\<lparr>ep_buff := []\<rparr>, ep_buff e))"

text \<open>A step of \<open>run\<close>; in \<open>writeBatch\<close> a closed \<open>done\<close> can win over a reader.\<close>

inductive ep_run :: "'v eventProcessor \<Rightarrow> 'v eventProcessor \<Rightarrow> bool" where
  take_batch: "ep_loc e = Taking \<Longrightarrow> takeBatch e = Some (e', batch) \<Longrightarrow> ep_run e (e'\<lparr>ep_loc := Writing batch\<rparr>)"
| decide_wait: "ep_loc e = Taking \<Longrightarrow> takeBatch e = None \<Longrightarrow> ep_run e (e\<lparr>ep_loc := Deciding\<rparr>)"
| cond_wait: "ep_loc e = Deciding \<Longrightarrow> ep_run e (e\<lparr>ep_loc := Waiting\<rparr>)"
| write_event: "ep_loc e = Writing (event # events) \<Longrightarrow> ep_run e (e\<lparr>ep_out := ep_out e @ [event], ep_loc := Writing events\<rparr>)"
| write_done: "ep_loc e = Writing (event # events) \<Longrightarrow> ep_done e \<Longrightarrow> ep_run e (e\<lparr>ep_loc := Checking\<rparr>)"
| written: "ep_loc e = Writing [] \<Longrightarrow> ep_run e (e\<lparr>ep_loc := Checking\<rparr>)"
| check_stopped: "ep_loc e = Checking \<Longrightarrow> ep_run e (e\<lparr>ep_loc := if ep_stopped e then Exited else Taking\<rparr>)"

inductive_cases ep_runE: "ep_run e e'"

text \<open>
  What can happen to a processor, with the events pushed so far: \<open>push\<close> needs the lock, which the goroutine holds in \<open>Deciding\<close>; \<open>stop\<close> closes its channel once.
\<close>

inductive ep_reach :: "'v eventProcessor \<Rightarrow> 'v list \<Rightarrow> bool" where
  new: "ep_reach newEventProcessor []"
| push: "ep_reach e pushed \<Longrightarrow> ep_loc e \<noteq> Deciding \<Longrightarrow> ep_reach (ep_push event e) (pushed @ [event])"
| stop_close: "ep_reach e pushed \<Longrightarrow> \<not> ep_done e \<Longrightarrow> ep_reach (ep_stop_close e) pushed"
| stop_signal: "ep_reach e pushed \<Longrightarrow> ep_stopping e \<Longrightarrow> ep_reach (ep_stop_signal e) pushed"
| run: "ep_reach e pushed \<Longrightarrow> ep_run e e' \<Longrightarrow> ep_reach e' pushed"

definition ep_pending :: "'v eventProcessor \<Rightarrow> 'v list" where
  "ep_pending e = (case ep_loc e of Writing batch \<Rightarrow> batch @ ep_buff e | _ \<Rightarrow> ep_buff e)"

definition ep_inv :: "'v eventProcessor \<Rightarrow> 'v list \<Rightarrow> bool" where
  "ep_inv e pushed \<longleftrightarrow>
     prefix (ep_out e) pushed \<and> (ep_loc e = Exited \<longrightarrow> ep_done e) \<and> (ep_loc e \<in> {Deciding, Waiting} \<longrightarrow> ep_buff e = []) \<and>
     (ep_out e @ ep_pending e = pushed \<or> ep_done e \<and> ep_loc e \<in> {Checking, Exited})"

lemma ep_reach_inv: "ep_reach e pushed \<Longrightarrow> ep_inv e pushed"
proof (induction rule: ep_reach.induct)
  case new
  show ?case by (simp add: ep_inv_def newEventProcessor_def ep_pending_def)
next
  case (push e pushed event)
  then show ?case by (auto simp: ep_inv_def ep_push_def ep_Signal_def ep_pending_def split: ep_loc.splits)
next
  case (stop_close e pushed)
  then show ?case by (auto simp: ep_inv_def ep_stop_close_def ep_pending_def split: ep_loc.splits)
next
  case (stop_signal e pushed)
  then show ?case by (auto simp: ep_inv_def ep_stop_signal_def ep_Signal_def ep_pending_def split: ep_loc.splits)
next
  case (run e pushed e')
  from run(2,3) show ?case
    by (cases rule: ep_run.cases) (auto simp: ep_inv_def takeBatch_def ep_pending_def ep_stopped_def split: if_splits)
qed

definition ep_rank :: "'v eventProcessor \<Rightarrow> nat" where
  "ep_rank e = 8 * length (ep_buff e) +
     (case ep_loc e of Taking \<Rightarrow> if ep_done e then 5 else 2 | Deciding \<Rightarrow> 1 | Waiting \<Rightarrow> 0
      | Writing batch \<Rightarrow> length batch + 4 | Checking \<Rightarrow> 3 | Exited \<Rightarrow> 0)"

lemma ep_run_rank: "ep_run e e' \<Longrightarrow> ep_rank e' < ep_rank e"
  by (cases rule: ep_run.cases; cases "ep_buff e") (auto simp: ep_rank_def takeBatch_def ep_stopped_def split: if_splits)

lemma ep_run_stuck:
  assumes "\<forall>e'. \<not> ep_run e e'"
  shows "ep_loc e = Exited \<or> ep_loc e = Waiting"
proof (cases "ep_loc e")
  case Taking
  then show ?thesis
    using assms take_batch [OF Taking] decide_wait [OF Taking] by (cases "takeBatch e") fastforce+
next
  case Deciding
  then show ?thesis using assms cond_wait by blast
next
  case (Writing batch)
  then show ?thesis using assms write_event [of e] written [of e] by (cases batch) auto
next
  case Checking
  then show ?thesis using assms check_stopped by blast
qed simp_all

text \<open>
  The buffer of the informer's watch is a queue: whatever is pushed, and whenever a reader reads, the events that were read are a prefix of those
  that were pushed, and before \<open>stop\<close> none is missing between those read and those pending. Its goroutine takes finitely many steps
  without a further push or stop; where it takes none, it has returned, which it only does after \<open>stop\<close>, or it waits and everything has been read.
\<close>
theorem event_processor_queue:
  fixes e :: "'v eventProcessor"
  assumes "ep_reach e pushed"
  shows "prefix (ep_out e) pushed \<and> (\<not> ep_done e \<longrightarrow> ep_out e @ ep_pending e = pushed) \<and>
    wfP (\<lambda>e' e :: 'v eventProcessor. ep_run e e') \<and>
    ((\<forall>e'. \<not> ep_run e e') \<longrightarrow> ep_done e \<and> ep_loc e = Exited \<or> ep_loc e = Waiting \<and> ep_out e = pushed)"
proof -
  have inv: "ep_inv e pushed" by (rule ep_reach_inv [OF assms])
  have "wfP (\<lambda>e' e :: 'v eventProcessor. ep_run e e')"
    by (rule wfp_if_convertible_to_nat [of _ ep_rank]) (rule ep_run_rank)
  moreover have "ep_done e \<and> ep_loc e = Exited \<or> ep_loc e = Waiting \<and> ep_out e = pushed" if "\<forall>e'. \<not> ep_run e e'"
    using ep_run_stuck [OF that] inv by (auto simp: ep_inv_def ep_pending_def)
  moreover have "prefix (ep_out e) pushed" and "\<not> ep_done e \<longrightarrow> ep_out e @ ep_pending e = pushed"
    using inv by (auto simp: ep_inv_def)
  ultimately show ?thesis by blast
qed

text \<open>
  \<open>stop\<close> closes the channel and signals without the lock: when it does so after the goroutine has looked at the channel and before it is on the list of the condition
  variable, the signal is lost. The goroutine then waits, although the processor is stopped and \<open>stop\<close> has returned, and nothing but a further push would wake it.
\<close>

lemma stop_wakeup_lost:
  "\<exists>e :: nat eventProcessor. ep_reach e [] \<and> ep_done e \<and> \<not> ep_stopping e \<and> ep_loc e = Waiting \<and> (\<forall>e'. \<not> ep_run e e')"
proof -
  let ?s = "\<lambda>done stopping loc. \<lparr>ep_out = [] :: nat list, ep_buff = [], ep_done = done, ep_stopping = stopping, ep_loc = loc\<rparr>"
  have "ep_reach (?s False False Deciding) []"
    using ep_reach.run [OF ep_reach.new decide_wait] by (simp add: newEventProcessor_def takeBatch_def ep_stopped_def)
  from ep_reach.stop_close [OF this] have "ep_reach (?s True True Deciding) []" by (simp add: ep_stop_close_def)
  from ep_reach.stop_signal [OF this] have "ep_reach (?s True False Deciding) []" by (simp add: ep_stop_signal_def ep_Signal_def)
  from ep_reach.run [OF this cond_wait] have "ep_reach (?s True False Waiting) []" by simp
  moreover have "\<not> ep_run (?s True False Waiting) e'" for e' by (auto elim: ep_runE)
  ultimately show ?thesis by (intro exI [of _ "?s True False Waiting"]) simp
qed

definition demo_ep :: "nat eventProcessor" where
  "demo_ep = \<lparr>ep_out = [1], ep_buff = [3], ep_done = False, ep_stopping = False, ep_loc = Writing [2]\<rparr>"

lemma demo_ep_reach: "ep_reach demo_ep [1, 2, 3]"
proof -
  have "ep_reach (ep_push 2 (ep_push 1 newEventProcessor)) [1, 2 :: nat]"
    using ep_reach.push [OF ep_reach.push [OF ep_reach.new, of "1 :: nat"], of 2] by (simp add: newEventProcessor_def ep_push_def ep_Signal_def)
  then have "ep_reach \<lparr>ep_out = [], ep_buff = [], ep_done = False, ep_stopping = False, ep_loc = Writing [1, 2]\<rparr> [1, 2 :: nat]"
    by (rule ep_reach.run)
      (rule ep_run.take_batch [where e' = "\<lparr>ep_out = [], ep_buff = [], ep_done = False, ep_stopping = False, ep_loc = Taking\<rparr>" and batch = "[1, 2]",
        THEN subst [where P = "ep_run _", rotated]], simp_all add: newEventProcessor_def ep_push_def ep_Signal_def takeBatch_def)
  then have "ep_reach \<lparr>ep_out = [1], ep_buff = [], ep_done = False, ep_stopping = False, ep_loc = Writing [2]\<rparr> [1, 2 :: nat]"
    by (rule ep_reach.run)
      (use ep_run.write_event [of "\<lparr>ep_out = [], ep_buff = [], ep_done = False, ep_stopping = False, ep_loc = Writing [1, 2]\<rparr>" "1 :: nat" "[2]"] in simp)
  from ep_reach.push [OF this, of 3] show ?thesis by (simp add: ep_push_def ep_Signal_def demo_ep_def)
qed

theorem event_processor_queue_witness: "ep_out demo_ep @ ep_pending demo_ep = [1, 2, 3]"
proof -
  have "\<not> ep_done demo_ep" by (simp add: demo_ep_def)
  then show ?thesis using event_processor_queue [OF demo_ep_reach] by blast
qed

section \<open>NewIndexerInformerWatcher\<close>

text \<open>
  The handlers of the informer push an event each. \<open>None\<close> is the panic of the type assertion \<open>obj.(runtime.Object)\<close>; the objects of the API are \<open>runtime.Object\<close>s, the
  other values of \<open>goval\<close> are not.
\<close>

definition as_runtime_object :: "'o obj \<Rightarrow> 'o option" where
  "as_runtime_object obj = (case obj of Some (Object x) \<Rightarrow> Some x | _ \<Rightarrow> None)"

definition stale_obj :: "'o obj \<Rightarrow> 'o obj" where
  "stale_obj obj = (case obj of Some (DeletedFinalStateUnknown k staleObj) \<Rightarrow> staleObj | _ \<Rightarrow> obj)"

definition push_event :: "event_type \<Rightarrow> 'o obj \<Rightarrow> (event_type \<times> 'o) eventProcessor option \<Rightarrow> (event_type \<times> 'o) eventProcessor option" where
  "push_event t obj e = (case e of None \<Rightarrow> None | Some e \<Rightarrow> map_option (\<lambda>x. ep_push (t, x) e) (as_runtime_object obj))"

definition informer_watcher_funcs :: "((event_type \<times> 'o) eventProcessor option, 'o) ResourceEventHandlerFuncs" where
  "informer_watcher_funcs = \<lparr>
     rf_AddFunc = Some (\<lambda>obj. push_event EvAdded obj),
     rf_UpdateFunc = Some (\<lambda>old new. push_event EvModified new),
     rf_DeleteFunc = Some (\<lambda>obj. push_event EvDeleted (stale_obj obj))\<rparr>"

text \<open>The events of a list of notifications.\<close>

fun notification_event :: "'o notification \<Rightarrow> event_type \<times> 'o obj" where
  "notification_event (OnAdd obj initial) = (EvAdded, obj)"
| "notification_event (OnUpdate old obj) = (EvModified, obj)"
| "notification_event (OnDelete obj) = (EvDeleted, stale_obj obj)"

definition log_events :: "'o notification list \<Rightarrow> (event_type \<times> 'o) list" where
  "log_events log = map (\<lambda>n. case notification_event n of (t, obj) \<Rightarrow> (t, the (as_runtime_object obj))) log"

lemma tell_informer_watcher:
  "tell (funcs_handler informer_watcher_funcs) n h = push_event (fst (notification_event n)) (snd (notification_event n)) h"
  by (cases n) (simp_all add: funcs_handler_def informer_watcher_funcs_def funcs_OnAdd_def funcs_OnUpdate_def funcs_OnDelete_def)

text \<open>
  API objects everywhere, and in a tombstone the object of its key: nil there makes the type assertion panic.
\<close>

definition log_of_objects :: "'o goval key_func \<Rightarrow> 'o notification list \<Rightarrow> bool" where
  "log_of_objects key log \<longleftrightarrow>
     (\<forall>n \<in> set log. as_runtime_object (snd (notification_event n)) \<noteq> None \<and>
        (case n of OnDelete obj \<Rightarrow> key (stale_obj obj) = key obj | _ \<Rightarrow> True))"

text \<open>The collection that a reader of the events puts together.\<close>

definition read_events :: "'o goval key_func \<Rightarrow> (event_type \<times> 'o) list \<Rightarrow> 'o obj gomap \<Rightarrow> 'o obj gomap" where
  "read_events key evs m = fold (\<lambda>(t, x). event_state key t (Some (Object x))) evs m"

lemma as_runtime_objectD: "as_runtime_object obj = Some x \<Longrightarrow> obj = Some (Object x)"
  by (auto simp: as_runtime_object_def split: option.splits goval.splits)

lemma read_log_events:
  assumes "replay key log m = Some m'" and "log_of_objects key log"
  shows "read_events key (log_events log) m = m'"
  using assms
proof (induction log arbitrary: m)
  case (Cons n log)
  from Cons.prems(1) obtain m1 where m1: "replay key [n] m = Some m1" "replay key log m1 = Some m'"
    by (rule replay_ConsE)
  obtain x where x: "snd (notification_event n) = Some (Object x)"
    using Cons.prems(2) as_runtime_objectD unfolding log_of_objects_def by (metis list.set_intros(1) option.exhaust)
  then have "event_state key (fst (notification_event n)) (Some (Object x)) m = m1"
    using m1(1) Cons.prems(2) by (cases n) (auto simp: event_state_def log_of_objects_def split: sum.splits if_splits)
  then show ?case
    using Cons.IH [OF m1(2)] Cons.prems(2) x
    by (simp add: read_events_def log_events_def log_of_objects_def case_prod_beta as_runtime_object_def)
qed (simp add: read_events_def log_events_def)

text \<open>
  How the informer and the processor run side by side: every notification is one call of the handler, which takes the lock, and the processor runs and is read
  between the calls.
\<close>

inductive iw_reach :: "'o notification list \<Rightarrow> (event_type \<times> 'o) eventProcessor \<Rightarrow> bool" where
  iw_new: "iw_reach [] newEventProcessor"
| iw_tell: "iw_reach log e \<Longrightarrow> ep_loc e \<noteq> Deciding \<Longrightarrow> tell (funcs_handler informer_watcher_funcs) n (Some e) = Some e' \<Longrightarrow>
    iw_reach (log @ [n]) e'"
| iw_run: "iw_reach log e \<Longrightarrow> ep_run e e' \<Longrightarrow> iw_reach log e'"
| iw_stop_close: "iw_reach log e \<Longrightarrow> \<not> ep_done e \<Longrightarrow> iw_reach log (ep_stop_close e)"
| iw_stop_signal: "iw_reach log e \<Longrightarrow> ep_stopping e \<Longrightarrow> iw_reach log (ep_stop_signal e)"

lemma iw_reach_ep: "iw_reach log e \<Longrightarrow> ep_reach e (log_events log)"
proof (induction rule: iw_reach.induct)
  case iw_new
  show ?case by (simp add: log_events_def ep_reach.new)
next
  case (iw_tell log e n e')
  then obtain x where "as_runtime_object (snd (notification_event n)) = Some x" and "e' = ep_push (fst (notification_event n), x) e"
    by (auto simp: tell_informer_watcher push_event_def)
  then show ?case using ep_reach.push [OF iw_tell.IH iw_tell.hyps(2)] by (simp add: log_events_def case_prod_beta)
qed (auto intro: ep_reach.intros)

lemma log_events_objects:
  assumes "log_of_objects key log"
  shows "map (\<lambda>(t, x). (t, Some (Object x))) (log_events log) = map notification_event log"
proof -
  have "(fst (notification_event n), Some (Object (the (as_runtime_object (snd (notification_event n)))))) = notification_event n"
    if "n \<in> set log" for n
    using assms that as_runtime_objectD unfolding log_of_objects_def by (metis option.collapse prod.collapse)
  then show ?thesis by (simp add: log_events_def case_prod_beta comp_def)
qed

text \<open>
  C28 The watch of \<open>NewIndexerInformerWatcher\<close>: its reader receives exactly one event per notification of the informer, in their order: \<open>Added\<close> with the object
  of an \<open>OnAdd\<close>, \<open>Modified\<close> with the new object of an \<open>OnUpdate\<close>, \<open>Deleted\<close> with the object of an \<open>OnDelete\<close>, taken out of its tombstone. At every moment
  the events read are a prefix of that list and, before \<open>stop\<close>, the rest is what is buffered; the whole list leads from the empty collection to the content of the
  indexer; and once the processor has nothing left to do and is not stopped, all of it has been read.
\<close>
theorem informer_watch_adds_up:
  assumes "transformer_ok (DeletionHandlingMetaNamespaceKeyFunc accessor) transformer"
    and "range_order iorder indexers" and "map_iter korder" and "map_iter order"
    and "\<forall>call \<in> set calls. call_ok (DeletionHandlingMetaNamespaceKeyFunc accessor) indexers
           (\<lambda>obj. projr (transform_with transformer obj)) call"
    and "i = informer_run (cache_methods iorder korder) order (new_indexer_informer accessor indexers transformer) calls"
    and "log_of_objects (DeletionHandlingMetaNamespaceKeyFunc accessor) (snd (inf_client i))"
    and "iw_reach (snd (inf_client i)) e"
  shows "\<exists>rest. map (\<lambda>(t, x). (t, Some (Object x))) (ep_out e @ rest) = map notification_event (snd (inf_client i)) \<and>
     (\<not> ep_done e \<longrightarrow> rest = ep_pending e) \<and>
     read_events (DeletionHandlingMetaNamespaceKeyFunc accessor) (ep_out e @ rest) Map.empty = cache_content (fst (inf_client i)) \<and>
     (\<not> ep_done e \<and> (\<forall>e'. \<not> ep_run e e') \<longrightarrow> rest = [])"
proof -
  let ?key = "DeletionHandlingMetaNamespaceKeyFunc accessor" and ?log = "snd (inf_client i)"
  have "replay ?key ?log Map.empty = Some (cache_content (fst (inf_client i)))"
    using informer_run_new(3) [OF assms(1-5), folded assms(6)] by (simp add: cinf.log_inv_def)
  then have sum: "read_events ?key (log_events ?log) Map.empty = cache_content (fst (inf_client i))"
    by (rule read_log_events [OF _ assms(7)])
  have inv: "ep_inv e (log_events ?log)" by (rule ep_reach_inv [OF iw_reach_ep [OF assms(8)]])
  then obtain rest where rest: "log_events ?log = ep_out e @ rest" by (auto simp: ep_inv_def prefix_def)
  have pending: "rest = ep_pending e" if "\<not> ep_done e" using inv that rest by (auto simp: ep_inv_def)
  have "rest = []" if "\<not> ep_done e" "\<forall>e'. \<not> ep_run e e'"
    using ep_run_stuck [OF that(2)] inv that(1) rest by (auto simp: ep_inv_def ep_pending_def)
  then show ?thesis using sum rest pending log_events_objects [OF assms(7)] by metis
qed

section \<open>A concrete informer\<close>

definition two_adds :: "string informer_call list" where
  "two_adds = [CAdd (Some (Object ''a'')), CPop, CAdd (Some (Object ''b'')), CPop]"

lemmas informer_eval =
  informer_run_def new_indexer_informer_def newInformer_def NewDeltaFIFOWithOptions_def df_Add_def queueActionLocked_def
  df_KeyOf_def MetaNamespaceKeyFunc_def ObjectToName_def pod_accessor_def MetaObjectToName_def NewObjectName_def ObjectName_String_def
  df_transform_def df_enqueue_def df_items_get_def dedupDeltas_def informer_pop_def df_Pop.simps df_HasSynced_def df_finish_def
  cache_methods_def notify_or_return_def NewIndexer_def NewThreadSafeStore_def cache_Get_def cache_GetByKey_def tsm_Get_def
  cache_Add_def tsm_Add_def tsm_Update_def DeletionHandlingMetaNamespaceKeyFunc_def map_get_def

lemma two_adds_log:
  "snd (inf_client (informer_run (cache_methods [] korder) order (new_indexer_informer pod_accessor Map.empty None) two_adds)) =
     [OnAdd (Some (Object ''a'')) False, OnAdd (Some (Object ''b'')) False]"
  by (simp add: two_adds_def informer_eval Let_def)

lemma two_adds_ok:
  "\<forall>call \<in> set two_adds. call_ok (DeletionHandlingMetaNamespaceKeyFunc pod_accessor) Map.empty
     (\<lambda>obj. projr (transform_with None obj)) call"
  by (simp add: two_adds_def transform_with_def is_deltas_def indexable_def pod_keys)

theorem filtered_notifications_consistent_witness:
  "\<exists>order korder. let i = informer_run (cache_methods [] korder) order (new_indexer_informer pod_accessor Map.empty None) two_adds;
       p = (\<lambda>obj. obj = Some (Object ''b''))
     in replay (DeletionHandlingMetaNamespaceKeyFunc pod_accessor) (fold (tell (filtering_recorder p)) (snd (inf_client i)) []) Map.empty =
          Some (filter_map p (cache_content (fst (inf_client i))))"
proof -
  obtain order :: "string deltas gomap \<Rightarrow> string list" where order: "map_iter order" using map_iter_exists by blast
  obtain korder :: "string obj gomap \<Rightarrow> string list" where korder: "map_iter korder" using map_iter_exists by blast
  show ?thesis
    using filtered_notifications_consistent [OF pod_calls_ok(1,2) korder order two_adds_ok refl, of "\<lambda>obj. obj = Some (Object ''b'')"]
    unfolding Let_def two_adds_log by (metis deletions_agree.simps(1,2))
qed

lemma two_adds_reach:
  "iw_reach [OnAdd (Some (Object ''a'')) False, OnAdd (Some (Object ''b'')) False]
     \<lparr>ep_out = [(EvAdded, ''a'')], ep_buff = [(EvAdded, ''b'')], ep_done = False, ep_stopping = False, ep_loc = Writing []\<rparr>"
proof -
  have told: "tell (funcs_handler informer_watcher_funcs) (OnAdd (Some (Object x)) False) (Some e) = Some (ep_push (EvAdded, x) e)" for x :: string and e
    by (simp add: tell_informer_watcher push_event_def as_runtime_object_def del: tell.simps)
  have "iw_reach [OnAdd (Some (Object ''a'')) False] (ep_push (EvAdded, ''a'') newEventProcessor)"
    using iw_reach.iw_tell [OF iw_reach.iw_new _ told] by (simp add: newEventProcessor_def)
  then have "iw_reach [OnAdd (Some (Object ''a'')) False]
      \<lparr>ep_out = [], ep_buff = [], ep_done = False, ep_stopping = False, ep_loc = Writing [(EvAdded, ''a'')]\<rparr>"
    by (rule iw_reach.iw_run)
      (use ep_run.take_batch [of "ep_push (EvAdded, ''a'') newEventProcessor"] in \<open>simp add: ep_push_def ep_Signal_def newEventProcessor_def takeBatch_def\<close>)
  then have "iw_reach [OnAdd (Some (Object ''a'')) False] \<lparr>ep_out = [(EvAdded, ''a'')], ep_buff = [], ep_done = False, ep_stopping = False, ep_loc = Writing []\<rparr>"
    by (rule iw_reach.iw_run)
      (use ep_run.write_event [of "\<lparr>ep_out = [], ep_buff = [], ep_done = False, ep_stopping = False, ep_loc = Writing [(EvAdded, ''a'')]\<rparr>"] in simp)
  from iw_reach.iw_tell [OF this _ told] show ?thesis by (simp add: ep_push_def ep_Signal_def)
qed

theorem informer_watch_adds_up_witness:
  "\<exists>order korder. read_events (DeletionHandlingMetaNamespaceKeyFunc pod_accessor) [(EvAdded, ''a''), (EvAdded, ''b'')] Map.empty =
     cache_content (fst (inf_client (informer_run (cache_methods [] korder) order (new_indexer_informer pod_accessor Map.empty None) two_adds)))"
proof -
  obtain order :: "string deltas gomap \<Rightarrow> string list" where order: "map_iter order" using map_iter_exists by blast
  obtain korder :: "string obj gomap \<Rightarrow> string list" where korder: "map_iter korder" using map_iter_exists by blast
  have objects: "log_of_objects (DeletionHandlingMetaNamespaceKeyFunc pod_accessor)
      (snd (inf_client (informer_run (cache_methods [] korder) order (new_indexer_informer pod_accessor Map.empty None) two_adds)))"
    by (simp add: two_adds_log log_of_objects_def as_runtime_object_def)
  show ?thesis
    using informer_watch_adds_up [OF pod_calls_ok(1,2) korder order two_adds_ok refl objects, unfolded two_adds_log, OF two_adds_reach]
    by (auto simp: ep_pending_def)
qed

end
