(* ===== verification/EventRecording.thy ===== *)
theory EventRecording
  imports Reflector
begin

text \<open>
  \<open>tools/record/events_cache.go\<close>, \<open>tools/record/event.go\<close>, \<open>tools/record/util/util.go\<close> and \<open>tools/reference/ref.go\<close>: how events about
  objects are made, aggregated, counted, filtered, and written to the server.

  The least recently used cache (groupcache), the token bucket (golang.org/x/time/rate), the patch of two events and the sink are not part of the
  repository: they are arguments. \<open>lru_right\<close> says what is documented of the cache. The metadata of an API object and its kind come from apimachinery and are
  arguments of \<open>GetReference\<close>. A time is \<open>Some\<close> nanoseconds, the zero time is \<open>None\<close>.
\<close>

section \<open>Events\<close>

record EventSource =
  es_Component :: string
  es_Host :: string

record ObjectReference =
  or_Kind :: string
  or_Namespace :: string
  or_Name :: string
  or_UID :: string
  or_APIVersion :: string
  or_ResourceVersion :: string
  or_FieldPath :: string

text \<open>\<open>ev_rest\<close> stands for the fields that the code only copies; \<open>None\<close> when they are all zero. \<open>Count\<close> is an int32.\<close>

record 'x Event_v1 =
  ev_Name :: string
  ev_Namespace :: string
  ev_Annotations :: "(string \<times> string) list"
  ev_ResourceVersion :: string
  ev_InvolvedObject :: ObjectReference
  ev_Reason :: string
  ev_Message :: string
  ev_Source :: EventSource
  ev_FirstTimestamp :: "int option"
  ev_LastTimestamp :: "int option"
  ev_Count :: int
  ev_Type :: string
  ev_ReportingController :: string
  ev_ReportingInstance :: string
  ev_rest :: "'x option"

definition getEventKey :: "'x Event_v1 \<Rightarrow> string" where
  "getEventKey event = concat [
     es_Component (ev_Source event), es_Host (ev_Source event), or_Kind (ev_InvolvedObject event), or_Namespace (ev_InvolvedObject event),
     or_Name (ev_InvolvedObject event), or_FieldPath (ev_InvolvedObject event), or_UID (ev_InvolvedObject event),
     or_APIVersion (ev_InvolvedObject event), ev_Type event, ev_Reason event, ev_Message event]"

definition getSpamKey :: "'x Event_v1 \<Rightarrow> string" where
  "getSpamKey event = concat [
     es_Component (ev_Source event), es_Host (ev_Source event), or_Kind (ev_InvolvedObject event), or_Namespace (ev_InvolvedObject event),
     or_Name (ev_InvolvedObject event), or_UID (ev_InvolvedObject event), or_APIVersion (ev_InvolvedObject event)]"

definition EventAggregatorByReasonFunc :: "'x Event_v1 \<Rightarrow> string \<times> string" where
  "EventAggregatorByReasonFunc event = (concat [
     es_Component (ev_Source event), es_Host (ev_Source event), or_Kind (ev_InvolvedObject event), or_Namespace (ev_InvolvedObject event),
     or_Name (ev_InvolvedObject event), or_UID (ev_InvolvedObject event), or_APIVersion (ev_InvolvedObject event), ev_Type event,
     ev_Reason event, ev_ReportingController event, ev_ReportingInstance event], ev_Message event)"

definition EventAggregatorByReasonMessageFunc :: "'x Event_v1 \<Rightarrow> string" where
  "EventAggregatorByReasonMessageFunc event = ''(combined from similar events): '' @ ev_Message event"

text \<open>The verb \<open>%x\<close> of an int64.\<close>

fun hex_digits :: "nat \<Rightarrow> string" where
  "hex_digits n = (if n < 16 then [''0123456789abcdef'' ! n] else hex_digits (n div 16) @ [''0123456789abcdef'' ! (n mod 16)])"

declare hex_digits.simps [simp del]

definition go_hex :: "int \<Rightarrow> string" where
  "go_hex n = (if n < 0 then ''-'' else '''') @ hex_digits (nat \<bar>n\<bar>)"

definition event_name :: "string \<Rightarrow> int \<Rightarrow> string" where
  "event_name name unixNano = name @ ''.'' @ go_hex unixNano"

section \<open>The cache\<close>

text \<open>\<open>Get\<close> makes its entry the most recently used one, \<open>Add\<close> may evict another entry.\<close>

record ('c, 'v) lru =
  lru_Get :: "'c \<Rightarrow> string \<Rightarrow> 'c \<times> 'v option"
  lru_Add :: "'c \<Rightarrow> string \<Rightarrow> 'v \<Rightarrow> 'c"

definition lru_right :: "('c, 'v) lru \<Rightarrow> ('c \<Rightarrow> string \<Rightarrow> 'v option) \<Rightarrow> bool" where
  "lru_right l lookup \<longleftrightarrow>
     (\<forall>c k. snd (lru_Get l c k) = lookup c k \<and> lookup (fst (lru_Get l c k)) = lookup c) \<and>
     (\<forall>c k v. lookup (lru_Add l c k v) k = Some v) \<and>
     (\<forall>c k v k'. k' \<noteq> k \<longrightarrow> lookup (lru_Add l c k v) k' = lookup c k' \<or> lookup (lru_Add l c k v) k' = None)"

text \<open>The cache is large enough for all keys that are used: nothing is evicted.\<close>

definition lru_keeps :: "('c, 'v) lru \<Rightarrow> ('c \<Rightarrow> string \<Rightarrow> 'v option) \<Rightarrow> bool" where
  "lru_keeps l lookup \<longleftrightarrow> lru_right l lookup \<and> (\<forall>c k v k'. k' \<noteq> k \<longrightarrow> lookup (lru_Add l c k v) k' = lookup c k')"

section \<open>EventSourceObjectSpamFilter\<close>

text \<open>
  \<open>newLimiter\<close> is \<open>NewTokenBucketPassiveRateLimiterWithClock(f.qps, f.burst, f.clock)\<close>, \<open>tryAccept\<close> takes the time of the clock. A record points to its limiter, so
  that the limiter's new state is in the cache as well; a limiter that was never made is \<open>None\<close>.
\<close>

record ('c, 'b, 'x) spam_filter =
  sf_cache :: 'c
  sf_lru :: "('c, 'b option) lru"
  sf_newLimiter :: 'b
  sf_tryAccept :: "int \<Rightarrow> 'b \<Rightarrow> 'b \<times> bool"
  sf_spamKeyFunc :: "'x Event_v1 \<Rightarrow> string"

definition spam_Filter :: "int \<Rightarrow> 'x Event_v1 \<Rightarrow> ('c, 'b, 'x) spam_filter \<Rightarrow> ('c, 'b, 'x) spam_filter \<times> bool" where
  "spam_Filter now event f =
     (let eventKey = sf_spamKeyFunc f event;
          (c, value) = lru_Get (sf_lru f) (sf_cache f) eventKey;
          rateLimiter = (case value of None \<Rightarrow> None | Some record \<Rightarrow> record);
          limiter = (case rateLimiter of None \<Rightarrow> sf_newLimiter f | Some b \<Rightarrow> b);
          (limiter, accepted) = sf_tryAccept f now limiter
      in (f\<lparr>sf_cache := lru_Add (sf_lru f) c eventKey (Some limiter)\<rparr>, \<not> accepted))"

section \<open>EventAggregator\<close>

record aggregateRecord =
  ar_localKeys :: "string set"
  ar_lastTimestamp :: "int option"

record ('c, 'x) event_aggregator =
  ea_cache :: 'c
  ea_lru :: "('c, aggregateRecord) lru"
  ea_keyFunc :: "'x Event_v1 \<Rightarrow> string \<times> string"
  ea_messageFunc :: "'x Event_v1 \<Rightarrow> string"
  ea_maxEvents :: int
  ea_maxIntervalInSeconds :: int

text \<open>The conversions of an int to a uint.\<close>

definition to_uint :: "int \<Rightarrow> int" where
  "to_uint n = n mod 2 ^ 64"

definition NewEventAggregator ::
  "'c \<Rightarrow> ('c, aggregateRecord) lru \<Rightarrow> ('x Event_v1 \<Rightarrow> string \<times> string) \<Rightarrow> ('x Event_v1 \<Rightarrow> string) \<Rightarrow> int \<Rightarrow> int
     \<Rightarrow> ('c, 'x) event_aggregator"
where
  "NewEventAggregator cache l keyFunc messageFunc maxEvents maxIntervalInSeconds =
     \<lparr>ea_cache = cache, ea_lru = l, ea_keyFunc = keyFunc, ea_messageFunc = messageFunc,
      ea_maxEvents = to_uint maxEvents, ea_maxIntervalInSeconds = to_uint maxIntervalInSeconds\<rparr>"

definition aggregate_event :: "('x Event_v1 \<Rightarrow> string) \<Rightarrow> int \<Rightarrow> 'x Event_v1 \<Rightarrow> 'x Event_v1" where
  "aggregate_event messageFunc now newEvent =
     \<lparr>ev_Name = event_name (or_Name (ev_InvolvedObject newEvent)) now, ev_Namespace = ev_Namespace newEvent, ev_Annotations = [],
      ev_ResourceVersion = '''', ev_InvolvedObject = ev_InvolvedObject newEvent, ev_Reason = ev_Reason newEvent,
      ev_Message = messageFunc newEvent, ev_Source = ev_Source newEvent, ev_FirstTimestamp = Some now, ev_LastTimestamp = Some now,
      ev_Count = 1, ev_Type = ev_Type newEvent, ev_ReportingController = '''', ev_ReportingInstance = '''', ev_rest = None\<rparr>"

text \<open>
  A record that is not in the cache has no set: \<open>None\<close>, and \<open>Insert\<close> panics on it. \<open>pop\<close> is the choice of \<open>PopAny\<close>; the set of the record in the cache is the same
  map, so that the cached record changes with it.
\<close>

definition EventAggregate ::
  "(string set \<Rightarrow> string) \<Rightarrow> int \<Rightarrow> 'x Event_v1 \<Rightarrow> ('c, 'x) event_aggregator
     \<Rightarrow> (('c, 'x) event_aggregator \<times> 'x Event_v1 \<times> string) option"
where
  "EventAggregate pop now newEvent e =
     (let eventKey = getEventKey newEvent;
          (aggregateKey, localKey) = ea_keyFunc e newEvent;
          (c, value) = lru_Get (ea_lru e) (ea_cache e) aggregateKey;
          (localKeys, lastTimestamp) = (case value of None \<Rightarrow> (None, None) | Some record \<Rightarrow> (Some (ar_localKeys record), ar_lastTimestamp record));
          maxInterval = wrap64 (wrap64 (ea_maxIntervalInSeconds e) * 1000000000);
          interval = since_opt now lastTimestamp;
          localKeys = (if interval > maxInterval then Some {} else localKeys)
      in case localKeys of
           None \<Rightarrow> None
         | Some keys \<Rightarrow>
             (let keys = insert localKey keys
              in if int (card keys) < ea_maxEvents e
                 then Some (e\<lparr>ea_cache := lru_Add (ea_lru e) c aggregateKey \<lparr>ar_localKeys = keys, ar_lastTimestamp = Some now\<rparr>\<rparr>, newEvent, eventKey)
                 else Some (e\<lparr>ea_cache := lru_Add (ea_lru e) c aggregateKey \<lparr>ar_localKeys = keys - {pop keys}, ar_lastTimestamp = Some now\<rparr>\<rparr>,
                            aggregate_event (ea_messageFunc e) now newEvent, aggregateKey)))"

section \<open>eventLogger\<close>

text \<open>\<open>count\<close> is a uint.\<close>

record eventLog =
  el_count :: int
  el_firstTimestamp :: "int option"
  el_name :: string
  el_resourceVersion :: string

record 'c eventLogger =
  lg_cache :: 'c
  lg_lru :: "('c, eventLog) lru"

definition event_log :: "'x Event_v1 \<Rightarrow> eventLog" where
  "event_log event = \<lparr>el_count = to_uint (ev_Count event), el_firstTimestamp = ev_FirstTimestamp event, el_name = ev_Name event,
     el_resourceVersion = ev_ResourceVersion event\<rparr>"

definition lastEventObservationFromCache :: "string \<Rightarrow> 'c eventLogger \<Rightarrow> 'c eventLogger \<times> eventLog" where
  "lastEventObservationFromCache key e =
     (let (c, value) = lru_Get (lg_lru e) (lg_cache e) key
      in (e\<lparr>lg_cache := c\<rparr>,
          case value of Some observation \<Rightarrow> observation
          | None \<Rightarrow> \<lparr>el_count = 0, el_firstTimestamp = None, el_name = '''', el_resourceVersion = ''''\<rparr>))"

text \<open>\<open>mkPatch\<close> marshals the two events and makes the two-way merge patch.\<close>

definition eventObserve ::
  "('x Event_v1 \<Rightarrow> 'x Event_v1 \<Rightarrow> 'p option \<times> 'err option) \<Rightarrow> 'x Event_v1 \<Rightarrow> string \<Rightarrow> 'c eventLogger
     \<Rightarrow> 'c eventLogger \<times> 'x Event_v1 \<times> 'p option \<times> 'err option"
where
  "eventObserve mkPatch newEvent key e =
     (let (e, lastObservation) = lastEventObservationFromCache key e;
          (event, patch, err) =
            (if el_count lastObservation > 0
             then (let event = newEvent\<lparr>ev_Name := el_name lastObservation, ev_ResourceVersion := el_resourceVersion lastObservation,
                         ev_FirstTimestamp := el_firstTimestamp lastObservation, ev_Count := wrap32 (wrap32 (el_count lastObservation) + 1)\<rparr>;
                       eventCopy2 = event\<lparr>ev_Count := 0, ev_LastTimestamp := Some 0, ev_Message := ''''\<rparr>;
                       (patch, err) = mkPatch eventCopy2 event
                   in (event, patch, err))
             else (newEvent, None, None))
      in (e\<lparr>lg_cache := lru_Add (lg_lru e) (lg_cache e) key (event_log event)\<rparr>, event, patch, err))"

definition updateState :: "'x Event_v1 \<Rightarrow> 'c eventLogger \<Rightarrow> 'c eventLogger" where
  "updateState event e = e\<lparr>lg_cache := lru_Add (lg_lru e) (lg_cache e) (getEventKey event) (event_log event)\<rparr>"

section \<open>EventCorrelator\<close>

record ('c, 'b, 'd, 'f, 'x) event_correlator =
  ec_filter :: "('c, 'b, 'x) spam_filter"
  ec_aggregator :: "('d, 'x) event_aggregator"
  ec_logger :: "'f eventLogger"

text \<open>\<open>QPS\<close> is a float32, of which the code only tests whether it is zero.\<close>

record ('q, 'x) CorrelatorOptions =
  co_LRUCacheSize :: int
  co_BurstSize :: int
  co_QPS :: "'q option"
  co_KeyFunc :: "('x Event_v1 \<Rightarrow> string \<times> string) option"
  co_MessageFunc :: "('x Event_v1 \<Rightarrow> string) option"
  co_MaxEvents :: int
  co_MaxIntervalInSeconds :: int
  co_SpamKeyFunc :: "('x Event_v1 \<Rightarrow> string) option"

definition populateDefaults :: "'q \<Rightarrow> ('q, 'x) CorrelatorOptions \<Rightarrow> ('q, 'x) CorrelatorOptions" where
  "populateDefaults defaultSpamQPS options =
     options\<lparr>co_LRUCacheSize := (if co_LRUCacheSize options = 0 then 4096 else co_LRUCacheSize options),
       co_BurstSize := (if co_BurstSize options = 0 then 25 else co_BurstSize options),
       co_QPS := (if co_QPS options = None then Some defaultSpamQPS else co_QPS options),
       co_KeyFunc := (if co_KeyFunc options = None then Some EventAggregatorByReasonFunc else co_KeyFunc options),
       co_MessageFunc := (if co_MessageFunc options = None then Some EventAggregatorByReasonMessageFunc else co_MessageFunc options),
       co_MaxEvents := (if co_MaxEvents options = 0 then 10 else co_MaxEvents options),
       co_MaxIntervalInSeconds := (if co_MaxIntervalInSeconds options = 0 then 600 else co_MaxIntervalInSeconds options),
       co_SpamKeyFunc := (if co_SpamKeyFunc options = None then Some getSpamKey else co_SpamKeyFunc options)\<rparr>"

text \<open>
  What the packages outside provide: \<open>lru.New\<close> for the three caches, the token bucket, and the patch.
\<close>

record ('c, 'b, 'd, 'f, 'q, 'p, 'err, 'x) record_env =
  rn_spamCache :: "int \<Rightarrow> 'c \<times> ('c, 'b option) lru"
  rn_aggregateCache :: "int \<Rightarrow> 'd \<times> ('d, aggregateRecord) lru"
  rn_logCache :: "int \<Rightarrow> 'f \<times> ('f, eventLog) lru"
  rn_newLimiter :: "'q \<Rightarrow> int \<Rightarrow> 'b"
  rn_tryAccept :: "int \<Rightarrow> 'b \<Rightarrow> 'b \<times> bool"
  rn_mkPatch :: "'x Event_v1 \<Rightarrow> 'x Event_v1 \<Rightarrow> 'p option \<times> 'err option"
  rn_pop :: "string set \<Rightarrow> string"

definition NewEventSourceObjectSpamFilter ::
  "('c, 'b, 'd, 'f, 'q, 'p, 'err, 'x) record_env \<Rightarrow> int \<Rightarrow> int \<Rightarrow> 'q \<Rightarrow> ('x Event_v1 \<Rightarrow> string) \<Rightarrow> ('c, 'b, 'x) spam_filter"
where
  "NewEventSourceObjectSpamFilter env lruCacheSize burst qps spamKeyFunc =
     (let (c, l) = rn_spamCache env lruCacheSize
      in \<lparr>sf_cache = c, sf_lru = l, sf_newLimiter = rn_newLimiter env qps burst, sf_tryAccept = rn_tryAccept env, sf_spamKeyFunc = spamKeyFunc\<rparr>)"

definition newEventLogger :: "('c, 'b, 'd, 'f, 'q, 'p, 'err, 'x) record_env \<Rightarrow> int \<Rightarrow> 'f eventLogger" where
  "newEventLogger env lruCacheEntries = (let (c, l) = rn_logCache env lruCacheEntries in \<lparr>lg_cache = c, lg_lru = l\<rparr>)"

definition NewEventCorrelatorWithOptions ::
  "('c, 'b, 'd, 'f, 'q, 'p, 'err, 'x) record_env \<Rightarrow> 'q \<Rightarrow> ('q, 'x) CorrelatorOptions \<Rightarrow> ('c, 'b, 'd, 'f, 'x) event_correlator"
where
  "NewEventCorrelatorWithOptions env defaultSpamQPS options =
     (let o1 = populateDefaults defaultSpamQPS options;
          (d, l) = rn_aggregateCache env (co_LRUCacheSize o1)
      in \<lparr>ec_filter = NewEventSourceObjectSpamFilter env (co_LRUCacheSize o1) (co_BurstSize o1) (the (co_QPS o1)) (the (co_SpamKeyFunc o1)),
          ec_aggregator = NewEventAggregator d l (the (co_KeyFunc o1)) (the (co_MessageFunc o1)) (co_MaxEvents o1) (co_MaxIntervalInSeconds o1),
          ec_logger = newEventLogger env (co_LRUCacheSize o1)\<rparr>)"

definition NewEventCorrelator ::
  "('c, 'b, 'd, 'f, 'q, 'p, 'err, 'x) record_env \<Rightarrow> 'q \<Rightarrow> ('c, 'b, 'd, 'f, 'x) event_correlator"
where
  "NewEventCorrelator env defaultSpamQPS =
     (let (d, l) = rn_aggregateCache env 4096
      in \<lparr>ec_filter = NewEventSourceObjectSpamFilter env 4096 25 defaultSpamQPS getSpamKey,
          ec_aggregator = NewEventAggregator d l EventAggregatorByReasonFunc EventAggregatorByReasonMessageFunc 10 600,
          ec_logger = newEventLogger env 4096\<rparr>)"

datatype ('x, 'p, 'err) correlate_result =
    NilEvent
  | Skip
  | Correlated "'x Event_v1" "'p option" "'err option"

text \<open>The clock is read by the aggregator and then by the filter; \<open>None\<close> is a panic.\<close>

definition EventCorrelate ::
  "('c, 'b, 'd, 'f, 'q, 'p, 'err, 'x) record_env \<Rightarrow> int \<Rightarrow> int \<Rightarrow> 'x Event_v1 option \<Rightarrow> ('c, 'b, 'd, 'f, 'x) event_correlator
     \<Rightarrow> (('c, 'b, 'd, 'f, 'x) event_correlator \<times> ('x, 'p, 'err) correlate_result) option"
where
  "EventCorrelate env now1 now2 newEvent c =
     (case newEvent of
        None \<Rightarrow> Some (c, NilEvent)
      | Some newEvent \<Rightarrow>
          (case EventAggregate (rn_pop env) now1 newEvent (ec_aggregator c) of
             None \<Rightarrow> None
           | Some (aggregator, aggregateEvent, ckey) \<Rightarrow>
               let (logger, observedEvent, patch, err) = eventObserve (rn_mkPatch env) aggregateEvent ckey (ec_logger c);
                   (filter, skip) = spam_Filter now2 observedEvent (ec_filter c)
               in Some (\<lparr>ec_filter = filter, ec_aggregator = aggregator, ec_logger = logger\<rparr>,
                        if skip then Skip else Correlated observedEvent patch err)))"

definition UpdateState :: "'x Event_v1 \<Rightarrow> ('c, 'b, 'd, 'f, 'x) event_correlator \<Rightarrow> ('c, 'b, 'd, 'f, 'x) event_correlator" where
  "UpdateState event c = c\<lparr>ec_logger := updateState event (ec_logger c)\<rparr>"

section \<open>Recording to a sink\<close>

text \<open>The errors of the sink that the code tells apart, and the sink with the rest of the world.\<close>

datatype sink_err = RequestConstructionError | StatusError int | UnexpectedObjectError | TransportError

record ('w, 'p, 'x) event_sink =
  es_Create :: "'w \<Rightarrow> 'x Event_v1 \<Rightarrow> 'w \<times> (sink_err + 'x Event_v1)"
  es_Patch :: "'w \<Rightarrow> 'x Event_v1 \<Rightarrow> 'p option \<Rightarrow> 'w \<times> (sink_err + 'x Event_v1)"

definition IsKeyNotFoundError :: "sink_err \<Rightarrow> bool" where
  "IsKeyNotFoundError err = (case err of StatusError code \<Rightarrow> code = 404 | _ \<Rightarrow> False)"

text \<open>
  \<open>recordEvent\<close> clears the resource version of the event that it is given, which the caller passes again.
\<close>

definition recordEvent ::
  "('w, 'p, 'x) event_sink \<Rightarrow> 'x Event_v1 \<Rightarrow> 'p option \<Rightarrow> bool \<Rightarrow> ('c, 'b, 'd, 'f, 'x) event_correlator \<Rightarrow> 'w
     \<Rightarrow> 'x Event_v1 \<times> ('c, 'b, 'd, 'f, 'x) event_correlator \<times> 'w \<times> bool"
where
  "recordEvent sink event patch updateExistingEvent correlator w =
     (let (w, patched) = (if updateExistingEvent then map_prod (\<lambda>x. x) Some (es_Patch sink w event patch) else (w, None));
          create = (case patched of None \<Rightarrow> True | Some (Inl err) \<Rightarrow> IsKeyNotFoundError err | Some (Inr _) \<Rightarrow> False);
          event = (if create then event\<lparr>ev_ResourceVersion := ''''\<rparr> else event);
          (w, r) = (if create then es_Create sink w event else (w, the patched))
      in case r of
           Inr newEvent \<Rightarrow> (event, UpdateState newEvent correlator, w, True)
         | Inl err \<Rightarrow>
             (event, correlator, w,
              case err of RequestConstructionError \<Rightarrow> True | StatusError _ \<Rightarrow> True | UnexpectedObjectError \<Rightarrow> False | TransportError \<Rightarrow> False))"

text \<open>
  The loop of \<open>recordToSink\<close>; \<open>sleep\<close> waits for the delay, a random part of it when its argument is true, and says whether the broadcaster was shut down
  first. The recursion counts the tries that are left.
\<close>

datatype record_outcome = Recorded | RetryLimitExceeded | ShutDown

fun record_tries ::
  "('w, 'p, 'x) event_sink \<Rightarrow> ('w \<Rightarrow> bool \<Rightarrow> 'w \<times> bool) \<Rightarrow> nat \<Rightarrow> bool \<Rightarrow> 'p option \<Rightarrow> 'x Event_v1 \<Rightarrow> ('c, 'b, 'd, 'f, 'x) event_correlator \<Rightarrow> 'w
     \<Rightarrow> ('c, 'b, 'd, 'f, 'x) event_correlator \<times> 'w \<times> record_outcome"
where
  "record_tries sink sleep 0 first patch event c w = (c, w, RetryLimitExceeded)"
| "record_tries sink sleep (Suc n) first patch event c w =
     (let (event, c, w, recorded) = recordEvent sink event patch (ev_Count event > 1) c w
      in if recorded then (c, w, Recorded)
         else if n = 0 then (c, w, RetryLimitExceeded)
         else let (w, cancelled) = sleep w first
              in if cancelled then (c, w, ShutDown) else record_tries sink sleep n False patch event c w)"

definition maxTriesPerEvent :: nat where
  "maxTriesPerEvent = 12"

definition recordToSink ::
  "('c, 'b, 'd, 'f, 'q, 'p, 'err, 'x) record_env \<Rightarrow> ('w, 'p, 'x) event_sink \<Rightarrow> ('w \<Rightarrow> bool \<Rightarrow> 'w \<times> bool) \<Rightarrow> int \<Rightarrow> int
     \<Rightarrow> 'x Event_v1 \<Rightarrow> ('c, 'b, 'd, 'f, 'x) event_correlator \<Rightarrow> 'w
     \<Rightarrow> (('c, 'b, 'd, 'f, 'x) event_correlator \<times> 'w \<times> record_outcome option) option"
where
  "recordToSink env sink sleep now1 now2 event c w =
     (case EventCorrelate env now1 now2 (Some event) c of
        None \<Rightarrow> None
      | Some (c, Correlated event patch err) \<Rightarrow>
          (let (c, w, r) = record_tries sink sleep maxTriesPerEvent True patch event c w in Some (c, w, Some r))
      | Some (c, _) \<Rightarrow> Some (c, w, None))"

section \<open>Making events\<close>

text \<open>
  The metadata of an object (name, namespace, UID and resource version; for a list only the last), its kind, and the scheme, all of apimachinery.
\<close>

record ('a, 'g, 'err) ref_env =
  rx_as_reference :: "'a \<Rightarrow> ObjectReference option"
  rx_Accessor :: "'a \<Rightarrow> 'err + string \<times> string \<times> string \<times> string"
  rx_CommonAccessor :: "'a \<Rightarrow> 'err + string"
  rx_GroupVersionKind :: "'a \<Rightarrow> 'g"
  rx_ObjectKinds :: "'a \<Rightarrow> 'err + 'g list"
  rx_Empty :: "'g \<Rightarrow> bool"
  rx_Kind :: "'g \<Rightarrow> string"
  rx_GroupVersion :: "'g \<Rightarrow> string"

datatype 'err ref_err = ErrNilObject | RefErr 'err | UnexpectedGVKs

definition GetReference :: "('a, 'g, 'err) ref_env \<Rightarrow> 'a option \<Rightarrow> 'err ref_err + ObjectReference" where
  "GetReference env obj =
     (case obj of
        None \<Rightarrow> Inl ErrNilObject
      | Some obj \<Rightarrow>
          (case rx_as_reference env obj of
             Some r \<Rightarrow> Inr r
           | None \<Rightarrow>
               (case (case rx_Accessor env obj of
                        Inr m \<Rightarrow> Inr (Some m, snd (snd (snd m)))
                      | Inl _ \<Rightarrow> (case rx_CommonAccessor env obj of Inl err \<Rightarrow> Inl (RefErr err) | Inr rv \<Rightarrow> Inr (None, rv))) of
                  Inl err \<Rightarrow> Inl err
                | Inr (objectMeta, resourceVersion) \<Rightarrow>
                    (case (if rx_Empty env (rx_GroupVersionKind env obj)
                           then (case rx_ObjectKinds env obj of
                                   Inl err \<Rightarrow> Inl (RefErr err)
                                 | Inr gvks \<Rightarrow> if gvks = [] \<or> rx_Empty env (hd gvks) then Inl UnexpectedGVKs else Inr (hd gvks))
                           else Inr (rx_GroupVersionKind env obj)) of
                       Inl err \<Rightarrow> Inl err
                     | Inr gvk \<Rightarrow>
                         (case objectMeta of
                            None \<Rightarrow> Inr \<lparr>or_Kind = rx_Kind env gvk, or_Namespace = '''', or_Name = '''', or_UID = '''',
                                or_APIVersion = rx_GroupVersion env gvk, or_ResourceVersion = resourceVersion, or_FieldPath = ''''\<rparr>
                          | Some (name, namespace, uid, rv) \<Rightarrow> Inr \<lparr>or_Kind = rx_Kind env gvk, or_Namespace = namespace, or_Name = name, or_UID = uid,
                                or_APIVersion = rx_GroupVersion env gvk, or_ResourceVersion = rv, or_FieldPath = ''''\<rparr>)))))"

definition GetPartialReference :: "('a, 'g, 'err) ref_env \<Rightarrow> 'a option \<Rightarrow> string \<Rightarrow> 'err ref_err + ObjectReference" where
  "GetPartialReference env obj fieldPath =
     (case GetReference env obj of Inl err \<Rightarrow> Inl err | Inr r \<Rightarrow> Inr (r\<lparr>or_FieldPath := fieldPath\<rparr>))"

definition ValidateEventType :: "string \<Rightarrow> bool" where
  "ValidateEventType eventtype \<longleftrightarrow> eventtype = ''Normal'' \<or> eventtype = ''Warning''"

definition makeEvent :: "int \<Rightarrow> ObjectReference \<Rightarrow> (string \<times> string) list \<Rightarrow> string \<Rightarrow> string \<Rightarrow> string \<Rightarrow> 'x Event_v1" where
  "makeEvent now r annotations eventtype reason message =
     \<lparr>ev_Name = event_name (or_Name r) now, ev_Namespace = (if or_Namespace r = '''' then ''default'' else or_Namespace r),
      ev_Annotations = annotations, ev_ResourceVersion = '''', ev_InvolvedObject = r, ev_Reason = reason, ev_Message = message,
      ev_Source = \<lparr>es_Component = '''', es_Host = ''''\<rparr>, ev_FirstTimestamp = Some now, ev_LastTimestamp = Some now, ev_Count = 1,
      ev_Type = eventtype, ev_ReportingController = '''', ev_ReportingInstance = '''', ev_rest = None\<rparr>"

text \<open>The event that \<open>generateEvent\<close> hands to the broadcaster, if any.\<close>

definition generateEvent ::
  "('a, 'g, 'err) ref_env \<Rightarrow> EventSource \<Rightarrow> int \<Rightarrow> 'a option \<Rightarrow> (string \<times> string) list \<Rightarrow> string \<Rightarrow> string \<Rightarrow> string \<Rightarrow> 'x Event_v1 option"
where
  "generateEvent env source now object annotations eventtype reason message =
     (case GetReference env object of
        Inl err \<Rightarrow> None
      | Inr r \<Rightarrow>
          if \<not> ValidateEventType eventtype then None
          else Some ((makeEvent now r annotations eventtype reason message)\<lparr>ev_Source := source,
                       ev_ReportingInstance := es_Host source, ev_ReportingController := es_Component source\<rparr>))"

section \<open>The first event never panics\<close>

text \<open>
  A missing record counts as older than every interval, because the interval is an even number of nanoseconds: \<open>Sub\<close> from the zero time saturates at an odd one.
\<close>

lemma wrap64_even: "even n \<Longrightarrow> even (wrap64 n)"
  by (simp add: wrap64_def dvd_mod_iff)

lemma wrap64_less: "wrap64 n < 2 ^ 63"
  using pos_mod_bound [of "2 ^ 64 :: int" "n + 2 ^ 63"] by (simp add: wrap64_def)

lemma interval_below_saturation: "wrap64 (n * 1000000000) < 2 ^ 63 - 1"
proof -
  have "even (wrap64 (n * 1000000000))" by (rule wrap64_even) simp
  moreover have "odd (2 ^ 63 - 1 :: int)" by simp
  ultimately have "wrap64 (n * 1000000000) \<noteq> 2 ^ 63 - 1" by metis
  then show ?thesis using wrap64_less [of "n * 1000000000"] by simp
qed

text \<open>\<open>EventAggregate\<close> never inserts into the nil set of a record that is not in the cache, whatever its options are, also when they overflow.\<close>

theorem aggregate_never_panics: "EventAggregate pop now event e \<noteq> None"
  using interval_below_saturation [of "wrap64 (ea_maxIntervalInSeconds e)"]
  by (auto simp: EventAggregate_def Let_def since_opt_def split: option.splits prod.splits)

section \<open>Counting\<close>

lemma lru_keepsD:
  assumes "lru_keeps l lookup"
  shows "snd (lru_Get l c k) = lookup c k" and "lookup (fst (lru_Get l c k)) = lookup c"
    and "lookup (lru_Add l c k v) = (lookup c)(k \<mapsto> v)"
  using assms by (auto simp: lru_keeps_def lru_right_def fun_eq_iff)

fun observe_all ::
  "('x Event_v1 \<Rightarrow> 'x Event_v1 \<Rightarrow> 'p option \<times> 'err option) \<Rightarrow> ('x Event_v1 \<times> string) list \<Rightarrow> 'c eventLogger \<Rightarrow> 'x Event_v1 list"
where
  "observe_all mkPatch [] e = []"
| "observe_all mkPatch ((event, key) # xs) e =
     (case eventObserve mkPatch event key e of (e, observed, _) \<Rightarrow> observed # observe_all mkPatch xs e)"

definition of_key :: "string \<Rightarrow> ('x Event_v1 \<times> string) list \<Rightarrow> 'x Event_v1 list" where
  "of_key k xs = map fst (filter (\<lambda>(_, k'). k' = k) xs)"

lemma of_key_simps [simp]:
  "of_key k [] = []" "of_key k (xs @ ys) = of_key k xs @ of_key k ys" "of_key k ((event, k') # xs) = (if k' = k then event # of_key k xs else of_key k xs)"
  by (simp_all add: of_key_def)

text \<open>What the logger has of the events so far: per key the number, and what is taken from the first.\<close>

definition log_of :: "'x Event_v1 list \<Rightarrow> eventLog option" where
  "log_of events = (if events = [] then None else Some ((event_log (hd events))\<lparr>el_count := int (length events)\<rparr>))"

definition logger_has :: "('c \<Rightarrow> string \<Rightarrow> eventLog option) \<Rightarrow> ('x Event_v1 \<times> string) list \<Rightarrow> 'c eventLogger \<Rightarrow> bool" where
  "logger_has lookup past e \<longleftrightarrow> lru_keeps (lg_lru e) lookup \<and> (\<forall>k. lookup (lg_cache e) k = log_of (of_key k past))"

definition counted :: "'x Event_v1 list \<Rightarrow> 'x Event_v1 \<Rightarrow> 'x Event_v1" where
  "counted past event =
     (if past = [] then event
      else event\<lparr>ev_Name := ev_Name (hd past), ev_ResourceVersion := ev_ResourceVersion (hd past), ev_FirstTimestamp := ev_FirstTimestamp (hd past),
             ev_Count := int (length past) + 1\<rparr>)"

lemma length_of_key: "length (of_key k xs) \<le> length xs"
  by (simp add: of_key_def)

lemma length_of_key_count: "length (of_key k xs) = count_list (map snd xs) k"
  by (induction xs) (auto simp: of_key_def)

lemma to_uint_small: "0 \<le> n \<Longrightarrow> n < 2 ^ 31 \<Longrightarrow> to_uint n = n"
  by (simp add: to_uint_def)

text \<open>Two views of a step: what the cache is asked, and what it gets.\<close>

lemma lastEventObservation:
  assumes "logger_has lookup past e"
  obtains e' where "lastEventObservationFromCache key e =
      (e', case log_of (of_key key past) of Some l \<Rightarrow> l | None \<Rightarrow> \<lparr>el_count = 0, el_firstTimestamp = None, el_name = '''', el_resourceVersion = ''''\<rparr>)"
    and "logger_has lookup past e'" and "lg_lru e' = lg_lru e"
proof -
  let ?c = "fst (lru_Get (lg_lru e) (lg_cache e) key)"
  have "logger_has lookup past (e\<lparr>lg_cache := ?c\<rparr>)"
    using assms lru_keepsD(2) [of "lg_lru e" lookup "lg_cache e" key] by (simp add: logger_has_def)
  moreover have "lastEventObservationFromCache key e = (e\<lparr>lg_cache := ?c\<rparr>,
      case log_of (of_key key past) of Some l \<Rightarrow> l | None \<Rightarrow> \<lparr>el_count = 0, el_firstTimestamp = None, el_name = '''', el_resourceVersion = ''''\<rparr>)"
    using assms lru_keepsD(1) [of "lg_lru e" lookup "lg_cache e" key]
    by (simp add: logger_has_def lastEventObservationFromCache_def case_prod_beta)
  ultimately show thesis using that by simp
qed

lemma logger_has_add:
  assumes "logger_has lookup past e" and "log_of (of_key key past @ [event]) = Some l"
  shows "logger_has lookup (past @ [(event, key)]) (e\<lparr>lg_cache := lru_Add (lg_lru e) (lg_cache e) key l\<rparr>)"
  using assms by (simp add: logger_has_def lru_keepsD)

lemma eventObserve_counts:
  assumes has: "logger_has lookup past e" and ones: "\<forall>(ev, k) \<in> set (past @ [(event, key)]). ev_Count ev = 1" and len: "length past + 1 < 2 ^ 31"
  shows "\<exists>e' p. eventObserve mkPatch event key e = (e', counted (of_key key past) event, p) \<and> logger_has lookup (past @ [(event, key)]) e'"
proof -
  obtain e1 where last: "lastEventObservationFromCache key e =
      (e1, case log_of (of_key key past) of Some l \<Rightarrow> l | None \<Rightarrow> \<lparr>el_count = 0, el_firstTimestamp = None, el_name = '''', el_resourceVersion = ''''\<rparr>)"
    and has1: "logger_has lookup past e1" by (rule lastEventObservation [OF has])
  let ?n = "length (of_key key past)"
  have n: "int ?n + 1 < 2 ^ 31" using length_of_key [of key past] len by simp
  have add: "log_of (of_key key past @ [event]) = Some (event_log (counted (of_key key past) event))"
    using ones n by (auto simp: log_of_def counted_def event_log_def to_uint_small)
  have "\<exists>p. eventObserve mkPatch event key e =
      (e1\<lparr>lg_cache := lru_Add (lg_lru e1) (lg_cache e1) key (event_log (counted (of_key key past) event))\<rparr>, counted (of_key key past) event, p)"
  proof (cases "of_key key past = []")
    case True
    then show ?thesis by (simp add: eventObserve_def last log_of_def counted_def)
  next
    case False
    then have "int ?n > 0" by simp
    then show ?thesis using False n
      by (simp add: eventObserve_def last log_of_def counted_def event_log_def wrap32_id case_prod_beta Let_def add.commute)
  qed
  then show ?thesis using logger_has_add [OF has1 add] by blast
qed

lemma observe_all_counts:
  assumes "logger_has lookup past e" and "\<forall>(ev, k) \<in> set (past @ xs). ev_Count ev = 1" and "length (past @ xs) < 2 ^ 31"
  shows "observe_all mkPatch xs e = map (\<lambda>i. counted (of_key (snd (xs ! i)) (past @ take i xs)) (fst (xs ! i))) [0..<length xs]"
  using assms
proof (induction xs arbitrary: past e)
  case (Cons x xs)
  obtain event key where x: "x = (event, key)" by force
  obtain e' p where step: "eventObserve mkPatch event key e = (e', counted (of_key key past) event, p)" and has: "logger_has lookup (past @ [(event, key)]) e'"
    using eventObserve_counts [OF Cons.prems(1), of event key mkPatch] Cons.prems(2,3) x by auto
  have "observe_all mkPatch xs e' = map (\<lambda>i. counted (of_key (snd (xs ! i)) ((past @ [x]) @ take i xs)) (fst (xs ! i))) [0..<length xs]"
    using Cons.IH [OF has] Cons.prems(2,3) x by simp
  then show ?case
    using x step by (simp add: upt_conv_Cons case_prod_beta del: upt_Suc flip: map_Suc_upt)
qed simp

text \<open>
  De-duplication: as long as the cache keeps its entries, the n-th event with a key is observed with the count n and with the name, resource version
  and first timestamp of the first event of that key, whatever other events come between.
\<close>
theorem event_counts_exact:
  assumes "lru_keeps (lg_lru e) lookup" and "\<forall>k. lookup (lg_cache e) k = None"
    and "\<forall>(ev, k) \<in> set xs. ev_Count ev = 1" and "length xs < 2 ^ 31" and "i < length xs"
  shows "observe_all mkPatch xs e ! i = counted (of_key (snd (xs ! i)) (take i xs)) (fst (xs ! i)) \<and>
     ev_Count (observe_all mkPatch xs e ! i) = int (count_list (map snd (take (Suc i) xs)) (snd (xs ! i)))"
proof -
  have "logger_has lookup [] e" using assms(1,2) by (simp add: logger_has_def log_of_def)
  from observe_all_counts [OF this, of xs mkPatch] have obs: "observe_all mkPatch xs e ! i = counted (of_key (snd (xs ! i)) (take i xs)) (fst (xs ! i))"
    using assms(3-5) by simp
  have "ev_Count (fst (xs ! i)) = 1" using assms(3,5) nth_mem by fastforce
  then have "ev_Count (counted (of_key (snd (xs ! i)) (take i xs)) (fst (xs ! i))) = int (length (of_key (snd (xs ! i)) (take i xs))) + 1"
    by (simp add: counted_def)
  moreover have "count_list (map snd (take (Suc i) xs)) (snd (xs ! i)) = length (of_key (snd (xs ! i)) (take i xs)) + 1"
    using assms(5) by (simp add: take_Suc_conv_app_nth length_of_key_count)
  ultimately show ?thesis using obs by simp
qed

section \<open>Aggregation\<close>

fun aggregate_all :: "(string set \<Rightarrow> string) \<Rightarrow> (int \<times> 'x Event_v1) list \<Rightarrow> ('c, 'x) event_aggregator \<Rightarrow> ('x Event_v1 \<times> string) list" where
  "aggregate_all pop [] e = []"
| "aggregate_all pop ((now, event) # xs) e =
     (case EventAggregate pop now event e of None \<Rightarrow> [] | Some (e, out) \<Rightarrow> out # aggregate_all pop xs e)"

text \<open>The different local keys of the events with an aggregate key.\<close>

definition local_keys :: "('x Event_v1 \<Rightarrow> string \<times> string) \<Rightarrow> string \<Rightarrow> (int \<times> 'x Event_v1) list \<Rightarrow> string set" where
  "local_keys keyFunc a xs = {m. \<exists>(now, event) \<in> set xs. keyFunc event = (a, m)}"

lemma local_keys_simps [simp]:
  "local_keys keyFunc a [] = {}"
  "local_keys keyFunc a (xs @ [(now, event)]) =
     (if fst (keyFunc event) = a then insert (snd (keyFunc event)) (local_keys keyFunc a xs) else local_keys keyFunc a xs)"
  by (simp add: local_keys_def) (cases "keyFunc event"; auto simp: local_keys_def)

lemma finite_local_keys [simp]: "finite (local_keys keyFunc a xs)"
proof -
  have "local_keys keyFunc a xs \<subseteq> (\<lambda>(now, event). snd (keyFunc event)) ` set xs" by (force simp: local_keys_def image_iff)
  then show ?thesis by (rule finite_subset) simp
qed

text \<open>
  The set in the record: at most one key less than the maximum, all of them local keys of the group, as many as there are below that bound.
\<close>

definition tracks_keys :: "int \<Rightarrow> string set \<Rightarrow> string set \<Rightarrow> bool" where
  "tracks_keys maxEvents msgs s \<longleftrightarrow> s \<subseteq> msgs \<and> int (card s) = min (int (card msgs)) (maxEvents - 1)"

definition next_keys :: "(string set \<Rightarrow> string) \<Rightarrow> int \<Rightarrow> string set \<Rightarrow> string \<Rightarrow> string set" where
  "next_keys pop maxEvents s m = (if int (card (insert m s)) < maxEvents then insert m s else insert m s - {pop (insert m s)})"

lemma tracks_keys_step:
  assumes fin: "finite msgs" and tr: "tracks_keys maxEvents msgs s" and pos: "1 \<le> maxEvents" and pop: "pop (insert m s) \<in> insert m s"
  shows "tracks_keys maxEvents (insert m msgs) (next_keys pop maxEvents s m)"
    and "int (card (insert m msgs)) < maxEvents \<Longrightarrow> int (card (insert m s)) < maxEvents"
    and "m \<notin> msgs \<Longrightarrow> maxEvents \<le> int (card (insert m msgs)) \<Longrightarrow> maxEvents \<le> int (card (insert m s))"
proof -
  have s: "s \<subseteq> msgs" and card: "int (card s) = min (int (card msgs)) (maxEvents - 1)" using tr by (simp_all add: tracks_keys_def)
  have fs: "finite s" using fin s by (rule rev_finite_subset)
  have drop: "int (card (insert m s - {pop (insert m s)})) = int (card (insert m s)) - 1"
    using fs pop by (simp add: card_Diff_singleton card_gt_0_iff of_nat_diff Suc_le_eq)
  have strict: "card s < card msgs" if "m \<in> msgs" "m \<notin> s" using fin s that by (metis psubsetI psubset_card_mono)
  show "tracks_keys maxEvents (insert m msgs) (next_keys pop maxEvents s m)"
    unfolding tracks_keys_def next_keys_def
    using s fs fin card pos drop strict by (auto simp: card_insert_if)
  show "int (card (insert m msgs)) < maxEvents \<Longrightarrow> int (card (insert m s)) < maxEvents"
    using card_mono [of "insert m msgs" "insert m s"] fin s by (meson finite.insertI insert_mono of_nat_le_iff order_le_less_trans)
  show "m \<notin> msgs \<Longrightarrow> maxEvents \<le> int (card (insert m msgs)) \<Longrightarrow> maxEvents \<le> int (card (insert m s))"
    using s fs fin card by (auto simp: card_insert_if)
qed

text \<open>All events fall into one interval.\<close>

definition aggregator_has ::
  "('d \<Rightarrow> string \<Rightarrow> aggregateRecord option) \<Rightarrow> int \<Rightarrow> (int \<times> 'x Event_v1) list \<Rightarrow> ('d, 'x) event_aggregator \<Rightarrow> bool"
where
  "aggregator_has lookup t0 past e \<longleftrightarrow> lru_keeps (ea_lru e) lookup \<and> 1 \<le> ea_maxEvents e \<and>
     (\<forall>a. if local_keys (ea_keyFunc e) a past = {} then lookup (ea_cache e) a = None
          else \<exists>s t. lookup (ea_cache e) a = Some \<lparr>ar_localKeys = s, ar_lastTimestamp = Some t\<rparr> \<and> t0 \<le> t \<and>
            tracks_keys (ea_maxEvents e) (local_keys (ea_keyFunc e) a past) s)"

definition max_interval :: "('d, 'x) event_aggregator \<Rightarrow> int" where
  "max_interval e = wrap64 (wrap64 (ea_maxIntervalInSeconds e) * 1000000000)"

lemma EventAggregate_record:
  assumes has: "aggregator_has lookup t0 past e" and now: "now - t0 \<le> max_interval e" and pos: "0 \<le> max_interval e"
    and key: "ea_keyFunc e event = (a, m)"
  obtains s c where "tracks_keys (ea_maxEvents e) (local_keys (ea_keyFunc e) a past) s" and "lookup c = lookup (ea_cache e)"
    and "EventAggregate pop now event e =
      Some (e\<lparr>ea_cache := lru_Add (ea_lru e) c a \<lparr>ar_localKeys = next_keys pop (ea_maxEvents e) s m, ar_lastTimestamp = Some now\<rparr>\<rparr>,
        if int (card (insert m s)) < ea_maxEvents e then (event, getEventKey event) else (aggregate_event (ea_messageFunc e) now event, a))"
proof -
  let ?msgs = "local_keys (ea_keyFunc e) a past"
  have keeps: "lru_keeps (ea_lru e) lookup" and max: "1 \<le> ea_maxEvents e" using has by (simp_all add: aggregator_has_def)
  obtain c where get: "lru_Get (ea_lru e) (ea_cache e) a = (c, lookup (ea_cache e) a)" and c: "lookup c = lookup (ea_cache e)"
    using lru_keepsD(1,2) [OF keeps] by (metis prod.collapse)
  show thesis
  proof (cases "?msgs = {}")
    case True
    then have "lookup (ea_cache e) a = None" using has by (simp add: aggregator_has_def)
    moreover have "max_interval e < 2 ^ 63 - 1" using interval_below_saturation by (simp add: max_interval_def)
    moreover have "tracks_keys (ea_maxEvents e) ?msgs {}" using True max by (simp add: tracks_keys_def)
    ultimately show thesis
      by (intro that [of "{}" c] c) (simp_all add: EventAggregate_def key get since_opt_def next_keys_def Let_def flip: max_interval_def)
  next
    case False
    then obtain s t where rec: "lookup (ea_cache e) a = Some \<lparr>ar_localKeys = s, ar_lastTimestamp = Some t\<rparr>" and t: "t0 \<le> t"
      and tr: "tracks_keys (ea_maxEvents e) ?msgs s" using has unfolding aggregator_has_def by meson
    have "\<not> time_Sub now t > max_interval e" using now t pos by (auto simp: time_Sub_def)
    then show thesis using rec
      by (intro that [OF tr c]) (simp add: EventAggregate_def key get since_opt_def next_keys_def Let_def flip: max_interval_def)
  qed
qed

definition aggregates_right ::
  "('d, 'x) event_aggregator \<Rightarrow> (int \<times> 'x Event_v1) list \<Rightarrow> int \<times> 'x Event_v1 \<Rightarrow> 'x Event_v1 \<times> string \<Rightarrow> bool"
where
  "aggregates_right e past x out \<longleftrightarrow>
     (let (a, m) = ea_keyFunc e (snd x); before = local_keys (ea_keyFunc e) a past
      in (int (card (insert m before)) < ea_maxEvents e \<longrightarrow> out = (snd x, getEventKey (snd x))) \<and>
         (m \<notin> before \<and> ea_maxEvents e \<le> int (card (insert m before)) \<longrightarrow> out = (aggregate_event (ea_messageFunc e) (fst x) (snd x), a)))"

lemma EventAggregate_step:
  assumes has: "aggregator_has lookup t0 past e" and now: "t0 \<le> now" "now - t0 \<le> max_interval e" and pos: "0 \<le> max_interval e"
    and pop: "\<forall>s. s \<noteq> {} \<longrightarrow> pop s \<in> s"
  obtains e' out where "EventAggregate pop now event e = Some (e', out)" and "aggregator_has lookup t0 (past @ [(now, event)]) e'"
    and "aggregates_right e past (now, event) out"
    and "ea_keyFunc e' = ea_keyFunc e" "ea_messageFunc e' = ea_messageFunc e" "ea_maxEvents e' = ea_maxEvents e" "max_interval e' = max_interval e"
proof -
  obtain a m where key: "ea_keyFunc e event = (a, m)" by force
  let ?msgs = "local_keys (ea_keyFunc e) a past"
  obtain s c where tr: "tracks_keys (ea_maxEvents e) ?msgs s" and c: "lookup c = lookup (ea_cache e)"
    and run: "EventAggregate pop now event e =
      Some (e\<lparr>ea_cache := lru_Add (ea_lru e) c a \<lparr>ar_localKeys = next_keys pop (ea_maxEvents e) s m, ar_lastTimestamp = Some now\<rparr>\<rparr>,
        if int (card (insert m s)) < ea_maxEvents e then (event, getEventKey event) else (aggregate_event (ea_messageFunc e) now event, a))"
    by (rule EventAggregate_record [OF has now(2) pos key])
  have keeps: "lru_keeps (ea_lru e) lookup" and max: "1 \<le> ea_maxEvents e" using has by (simp_all add: aggregator_has_def)
  have "pop (insert m s) \<in> insert m s" by (rule pop [rule_format]) simp
  note step = tracks_keys_step [where pop = pop and m = m, OF finite_local_keys tr max this]
  let ?e = "e\<lparr>ea_cache := lru_Add (ea_lru e) c a \<lparr>ar_localKeys = next_keys pop (ea_maxEvents e) s m, ar_lastTimestamp = Some now\<rparr>\<rparr>"
  have "aggregator_has lookup t0 (past @ [(now, event)]) ?e"
    unfolding aggregator_has_def using has keeps max now(1) step(1) key
    by (simp add: lru_keepsD(3) [OF keeps] c) (simp add: aggregator_has_def)
  moreover have "aggregates_right e past (now, event)
      (if int (card (insert m s)) < ea_maxEvents e then (event, getEventKey event) else (aggregate_event (ea_messageFunc e) now event, a))"
    unfolding aggregates_right_def Let_def snd_conv key case_prod_conv using step(2,3) by (metis fst_conv not_less)
  ultimately show thesis by (intro that [OF run]) (simp_all add: max_interval_def)
qed

lemma aggregate_all_right:
  assumes "aggregator_has lookup t0 past e" and "\<forall>(now, event) \<in> set xs. t0 \<le> now \<and> now - t0 \<le> max_interval e" and "0 \<le> max_interval e"
    and pop: "\<forall>s. s \<noteq> {} \<longrightarrow> pop s \<in> s"
  shows "length (aggregate_all pop xs e) = length xs \<and>
    (\<forall>i < length xs. aggregates_right e (past @ take i xs) (xs ! i) (aggregate_all pop xs e ! i))"
  using assms(1-3)
proof (induction xs arbitrary: past e)
  case (Cons x xs)
  obtain now event where x: "x = (now, event)" by force
  have n: "t0 \<le> now" "now - t0 \<le> max_interval e" using Cons.prems(2) x by auto
  obtain e' out where step: "EventAggregate pop now event e = Some (e', out)" "aggregator_has lookup t0 (past @ [(now, event)]) e'"
      "aggregates_right e past (now, event) out"
      "ea_keyFunc e' = ea_keyFunc e" "ea_messageFunc e' = ea_messageFunc e" "ea_maxEvents e' = ea_maxEvents e" "max_interval e' = max_interval e"
    by (rule EventAggregate_step [OF Cons.prems(1) n Cons.prems(3) pop])
  have same: "aggregates_right e' past' y out' \<longleftrightarrow> aggregates_right e past' y out'" for past' y out'
    by (simp add: aggregates_right_def step(4-6))
  have ih: "length (aggregate_all pop xs e') = length xs \<and>
      (\<forall>i < length xs. aggregates_right e ((past @ [(now, event)]) @ take i xs) (xs ! i) (aggregate_all pop xs e' ! i))"
    using Cons.IH [OF step(2)] Cons.prems(2,3) by (simp add: step(7) same)
  show ?case
  proof (intro conjI allI impI)
    show "length (aggregate_all pop (x # xs) e) = length (x # xs)" using ih x step(1) by simp
    fix i assume "i < length (x # xs)"
    then show "aggregates_right e (past @ take i (x # xs)) ((x # xs) ! i) (aggregate_all pop (x # xs) e ! i)"
      using ih step(1,3) x by (cases i) simp_all
  qed
qed simp

text \<open>
  C13 Aggregation: for events that fall into one interval, with a cache that keeps its entries, an event is passed on unchanged as long as its group has
  less than \<open>maxEvents\<close> different messages, and an event that brings the group to \<open>maxEvents\<close> or more with a message the group has not had is
  replaced by the aggregate event under the key of its group.
\<close>
theorem aggregation_exact:
  assumes "lru_keeps (ea_lru e) lookup" and "\<forall>k. lookup (ea_cache e) k = None" and "1 \<le> ea_maxEvents e"
    and "\<forall>(now, event) \<in> set xs. t0 \<le> now \<and> now - t0 \<le> max_interval e" and "0 \<le> max_interval e"
    and "\<forall>s. s \<noteq> {} \<longrightarrow> pop s \<in> s" and "i < length xs"
    and "xs ! i = (now, event)" and "ea_keyFunc e event = (a, m)" and "before = local_keys (ea_keyFunc e) a (take i xs)"
  shows "(int (card (insert m before)) < ea_maxEvents e \<longrightarrow> aggregate_all pop xs e ! i = (event, getEventKey event)) \<and>
     (m \<notin> before \<and> ea_maxEvents e \<le> int (card (insert m before)) \<longrightarrow>
        aggregate_all pop xs e ! i = (aggregate_event (ea_messageFunc e) now event, a))"
proof -
  have "aggregator_has lookup t0 [] e" using assms(1-3) by (simp add: aggregator_has_def)
  from aggregate_all_right [OF this assms(4-6)] assms(7)
  have "aggregates_right e (take i xs) (xs ! i) (aggregate_all pop xs e ! i)" by simp
  then show ?thesis unfolding aggregates_right_def assms(8) Let_def snd_conv fst_conv assms(9) case_prod_conv assms(10) .
qed

section \<open>The spam filter\<close>

fun filter_all :: "(int \<times> 'x Event_v1) list \<Rightarrow> ('c, 'b, 'x) spam_filter \<Rightarrow> bool list" where
  "filter_all [] f = []"
| "filter_all ((now, event) # xs) f = (case spam_Filter now event f of (f, skip) \<Rightarrow> skip # filter_all xs f)"

text \<open>One token bucket, asked at the times of a list.\<close>

fun run_limiter :: "(int \<Rightarrow> 'b \<Rightarrow> 'b \<times> bool) \<Rightarrow> 'b \<Rightarrow> int list \<Rightarrow> 'b" where
  "run_limiter tryAccept b [] = b"
| "run_limiter tryAccept b (now # ts) = run_limiter tryAccept (fst (tryAccept now b)) ts"

lemma run_limiter_snoc [simp]: "run_limiter tryAccept b (ts @ [t]) = fst (tryAccept t (run_limiter tryAccept b ts))"
  by (induction ts arbitrary: b) simp_all

definition times_of :: "('x Event_v1 \<Rightarrow> string) \<Rightarrow> string \<Rightarrow> (int \<times> 'x Event_v1) list \<Rightarrow> int list" where
  "times_of keyFunc k xs = map fst (filter (\<lambda>(_, event). keyFunc event = k) xs)"

lemma times_of_simps [simp]:
  "times_of keyFunc k [] = []" "times_of keyFunc k (xs @ ys) = times_of keyFunc k xs @ times_of keyFunc k ys"
  "times_of keyFunc k ((now, event) # xs) = (if keyFunc event = k then now # times_of keyFunc k xs else times_of keyFunc k xs)"
  by (simp_all add: times_of_def)

definition filter_has :: "('c \<Rightarrow> string \<Rightarrow> 'b option option) \<Rightarrow> (int \<times> 'x Event_v1) list \<Rightarrow> ('c, 'b, 'x) spam_filter \<Rightarrow> bool" where
  "filter_has lookup past f \<longleftrightarrow> lru_keeps (sf_lru f) lookup \<and>
     (\<forall>k. lookup (sf_cache f) k = (if times_of (sf_spamKeyFunc f) k past = [] then None
        else Some (Some (run_limiter (sf_tryAccept f) (sf_newLimiter f) (times_of (sf_spamKeyFunc f) k past)))))"

definition skips :: "('c, 'b, 'x) spam_filter \<Rightarrow> (int \<times> 'x Event_v1) list \<Rightarrow> int \<times> 'x Event_v1 \<Rightarrow> bool" where
  "skips f past x =
     (\<not> snd (sf_tryAccept f (fst x) (run_limiter (sf_tryAccept f) (sf_newLimiter f) (times_of (sf_spamKeyFunc f) (sf_spamKeyFunc f (snd x)) past))))"

lemma spam_Filter_step:
  assumes "filter_has lookup past f"
  obtains f' where "spam_Filter now event f = (f', skips f past (now, event))" and "filter_has lookup (past @ [(now, event)]) f'"
    and "sf_spamKeyFunc f' = sf_spamKeyFunc f" "sf_tryAccept f' = sf_tryAccept f" "sf_newLimiter f' = sf_newLimiter f"
proof -
  let ?k = "sf_spamKeyFunc f event"
  have keeps: "lru_keeps (sf_lru f) lookup" using assms by (simp add: filter_has_def)
  obtain c where get: "lru_Get (sf_lru f) (sf_cache f) ?k = (c, lookup (sf_cache f) ?k)" and c: "lookup c = lookup (sf_cache f)"
    using lru_keepsD(1,2) [OF keeps] by (metis prod.collapse)
  let ?b = "run_limiter (sf_tryAccept f) (sf_newLimiter f) (times_of (sf_spamKeyFunc f) ?k past)"
  let ?f = "f\<lparr>sf_cache := lru_Add (sf_lru f) c ?k (Some (fst (sf_tryAccept f now ?b)))\<rparr>"
  have run: "spam_Filter now event f = (?f, skips f past (now, event))"
    using assms get by (simp add: spam_Filter_def filter_has_def skips_def case_prod_beta Let_def split: if_splits)
  have "filter_has lookup (past @ [(now, event)]) ?f"
    using assms keeps by (simp add: filter_has_def lru_keepsD(3) [OF keeps] c)
  then show thesis by (intro that [OF run]) simp_all
qed

lemma filter_all_right:
  assumes "filter_has lookup past f"
  shows "filter_all xs f = map (\<lambda>i. skips f (past @ take i xs) (xs ! i)) [0..<length xs]"
  using assms
proof (induction xs arbitrary: past f)
  case (Cons x xs)
  obtain now event where x: "x = (now, event)" by force
  obtain f' where step: "spam_Filter now event f = (f', skips f past (now, event))" "filter_has lookup (past @ [(now, event)]) f'"
    "sf_spamKeyFunc f' = sf_spamKeyFunc f" "sf_tryAccept f' = sf_tryAccept f" "sf_newLimiter f' = sf_newLimiter f"
    by (rule spam_Filter_step [OF Cons.prems])
  have "filter_all xs f' = map (\<lambda>i. skips f (past @ take (Suc i) (x # xs)) (xs ! i)) [0..<length xs]"
    using Cons.IH [OF step(2)] step(3-5) x by (simp add: skips_def)
  then show ?case using x step(1) by (simp add: upt_conv_Cons comp_def del: upt_Suc flip: map_Suc_upt)
qed simp

text \<open>
  The spam filter keeps one token bucket per key: as long as the cache keeps its entries, whether an event is skipped is decided by a bucket that
  has seen exactly the earlier events of its own key. Events of other objects never use up its tokens.
\<close>
theorem spam_filter_per_key:
  assumes "lru_keeps (sf_lru f) lookup" and "\<forall>k. lookup (sf_cache f) k = None" and "i < length xs" and "xs ! i = (now, event)"
  shows "filter_all xs f ! i \<longleftrightarrow>
     \<not> snd (sf_tryAccept f now (run_limiter (sf_tryAccept f) (sf_newLimiter f) (times_of (sf_spamKeyFunc f) (sf_spamKeyFunc f event) (take i xs))))"
proof -
  have "filter_has lookup [] f" using assms(1,2) by (simp add: filter_has_def)
  from filter_all_right [OF this, of xs] show ?thesis using assms(3,4) by (simp add: skips_def)
qed

section \<open>Writing to the sink\<close>

text \<open>A sink that also keeps the calls it receives.\<close>

datatype 'x sink_call = CreateCall "'x Event_v1" | PatchCall "'x Event_v1"

definition logging_sink :: "('w, 'p, 'x) event_sink \<Rightarrow> ('w \<times> 'x sink_call list, 'p, 'x) event_sink" where
  "logging_sink sink = \<lparr>
     es_Create = (\<lambda>(w, calls) event. case es_Create sink w event of (w, r) \<Rightarrow> ((w, calls @ [CreateCall event]), r)),
     es_Patch = (\<lambda>(w, calls) event patch. case es_Patch sink w event patch of (w, r) \<Rightarrow> ((w, calls @ [PatchCall event]), r))\<rparr>"

definition logging_sleep :: "('w \<Rightarrow> bool \<Rightarrow> 'w \<times> bool) \<Rightarrow> 'w \<times> 'y \<Rightarrow> bool \<Rightarrow> ('w \<times> 'y) \<times> bool" where
  "logging_sleep sleep = (\<lambda>(w, calls) first. case sleep w first of (w, cancelled) \<Rightarrow> ((w, calls), cancelled))"

text \<open>The calls of one attempt, for an event whose count says whether it exists already.\<close>

fun attempt :: "'x Event_v1 \<Rightarrow> 'x sink_call list \<Rightarrow> bool" where
  "attempt event [PatchCall e1] = (ev_Count event > 1 \<and> e1\<lparr>ev_ResourceVersion := ''''\<rparr> = event\<lparr>ev_ResourceVersion := ''''\<rparr>)"
| "attempt event [CreateCall e1] = (\<not> ev_Count event > 1 \<and> e1 = event\<lparr>ev_ResourceVersion := ''''\<rparr>)"
| "attempt event [PatchCall e1, CreateCall e2] =
     (ev_Count event > 1 \<and> e1\<lparr>ev_ResourceVersion := ''''\<rparr> = event\<lparr>ev_ResourceVersion := ''''\<rparr> \<and> e2 = event\<lparr>ev_ResourceVersion := ''''\<rparr>)"
| "attempt event calls = False"

lemma recordEvent_attempt:
  assumes "recordEvent (logging_sink sink) event patch (ev_Count event > 1) c (w, calls) = (event', c', (w', calls'), recorded)"
  shows "\<exists>new. calls' = calls @ new \<and> attempt event new \<and> event'\<lparr>ev_ResourceVersion := ''''\<rparr> = event\<lparr>ev_ResourceVersion := ''''\<rparr>"
  using assms
  by (auto simp: recordEvent_def logging_sink_def map_prod_def Let_def case_prod_beta split: if_splits sum.splits option.splits)

lemma attempt_cong: "event'\<lparr>ev_ResourceVersion := ''''\<rparr> = event\<lparr>ev_ResourceVersion := ''''\<rparr> \<Longrightarrow> attempt event' = attempt event"
proof
  fix calls assume eq: "event'\<lparr>ev_ResourceVersion := ''''\<rparr> = event\<lparr>ev_ResourceVersion := ''''\<rparr>"
  then have "ev_Count event' = ev_Count event" by (metis Event_v1.select_convs(11) Event_v1.surjective Event_v1.update_convs(4))
  then show "attempt event' calls = attempt event calls" using eq by (cases "(event, calls)" rule: attempt.cases) simp_all
qed

lemma record_tries_bounded:
  assumes "record_tries (logging_sink sink) (logging_sleep sleep) n first patch event c (w, calls) = (c', (w', calls'), r)"
  shows "\<exists>attempts. calls' = calls @ concat attempts \<and> length attempts \<le> n \<and> (\<forall>new \<in> set attempts. attempt event new) \<and>
    (r = RetryLimitExceeded \<longrightarrow> length attempts = n)"
  using assms
proof (induction n arbitrary: first event c w calls)
  case 0
  then show ?case by (intro exI [of _ "[]"]) simp
next
  case (Suc n)
  obtain event1 c1 w1 calls1 recorded where rec: "recordEvent (logging_sink sink) event patch (ev_Count event > 1) c (w, calls) = (event1, c1, (w1, calls1), recorded)"
    by (metis prod_cases4 surj_pair)
  obtain new where new: "calls1 = calls @ new" "attempt event new" and same: "event1\<lparr>ev_ResourceVersion := ''''\<rparr> = event\<lparr>ev_ResourceVersion := ''''\<rparr>"
    using recordEvent_attempt [OF rec] by blast
  obtain w2 cancelled where sleep: "sleep w1 first = (w2, cancelled)" by force
  then have slept: "logging_sleep sleep (w1, calls1) first = ((w2, calls1), cancelled)" by (simp add: logging_sleep_def)
  show ?case
  proof (cases "recorded \<or> n = 0 \<or> cancelled")
    case True
    then have "calls' = calls @ new \<and> (r = RetryLimitExceeded \<longrightarrow> n = 0)"
      using Suc.prems rec slept new(1) by (auto split: if_splits)
    then show ?thesis using new(2) by (intro exI [of _ "[new]"]) simp
  next
    case False
    then have "record_tries (logging_sink sink) (logging_sleep sleep) n False patch event1 c1 (w2, calls1) = (c', (w', calls'), r)"
      using Suc.prems rec slept by simp
    from Suc.IH [OF this] obtain attempts where at: "calls' = calls1 @ concat attempts" "length attempts \<le> n" "\<forall>new \<in> set attempts. attempt event1 new"
      "r = RetryLimitExceeded \<longrightarrow> length attempts = n" by blast
    then show ?thesis using new attempt_cong [OF same] by (intro exI [of _ "new # attempts"]) simp
  qed
qed

text \<open>
  Writing an event to the sink ends: \<open>recordToSink\<close> makes at most \<open>maxTriesPerEvent\<close> attempts, exactly that many before it gives up. Each attempt is a patch if
  the event has been seen before, followed by a creation only if there is nothing to patch, and a creation otherwise; a created event never carries
  a resource version.
\<close>
theorem record_to_sink_bounded:
  assumes "recordToSink env (logging_sink sink) (logging_sleep sleep) now1 now2 event c (w, []) = Some (c', (w', calls), r)"
  shows "\<exists>attempts observed. calls = concat attempts \<and> length attempts \<le> maxTriesPerEvent \<and> (\<forall>new \<in> set attempts. attempt observed new) \<and>
     (r = Some RetryLimitExceeded \<longrightarrow> length attempts = maxTriesPerEvent) \<and> (r = None \<longrightarrow> calls = [])"
proof -
  obtain c1 res where corr: "EventCorrelate env now1 now2 (Some event) c = Some (c1, res)"
    using assms by (auto simp: recordToSink_def split: option.splits prod.splits)
  show ?thesis
  proof (cases res)
    case (Correlated observed patch err)
    obtain r1 where run: "record_tries (logging_sink sink) (logging_sleep sleep) maxTriesPerEvent True patch observed c1 (w, []) = (c', (w', calls), r1)"
      and r: "r = Some r1"
      using assms corr Correlated by (auto simp: recordToSink_def split: prod.splits)
    from record_tries_bounded [OF run] show ?thesis using r by auto
  qed (use assms corr in \<open>auto simp: recordToSink_def intro!: exI [of _ "[]"]\<close>)
qed

section \<open>Keys\<close>

text \<open>
  The parts of a key are joined without a separator, so that different events can share a key: here the events of two pods in different namespaces. The second
  is then taken for a repetition of the first, and its count and name are those of the other pod's event.
\<close>

definition demo_event :: "string \<Rightarrow> string \<Rightarrow> string \<Rightarrow> unit Event_v1" where
  "demo_event namespace name message = makeEvent 0 \<lparr>or_Kind = ''Pod'', or_Namespace = namespace, or_Name = name, or_UID = '''',
     or_APIVersion = ''v1'', or_ResourceVersion = '''', or_FieldPath = ''''\<rparr> [] ''Normal'' ''Started'' message"

lemma event_keys_collide:
  "ev_InvolvedObject (demo_event ''team-a'' ''1'' ''x'') \<noteq> ev_InvolvedObject (demo_event ''team-'' ''a1'' ''x'')"
  "getEventKey (demo_event ''team-a'' ''1'' ''x'') = getEventKey (demo_event ''team-'' ''a1'' ''x'')"
  "getSpamKey (demo_event ''team-a'' ''1'' ''x'') = getSpamKey (demo_event ''team-'' ''a1'' ''x'')"
  "EventAggregatorByReasonFunc (demo_event ''team-a'' ''1'' ''x'') = EventAggregatorByReasonFunc (demo_event ''team-'' ''a1'' ''x'')"
  by (simp_all add: demo_event_def makeEvent_def getEventKey_def getSpamKey_def EventAggregatorByReasonFunc_def)

section \<open>Concrete events\<close>

definition map_lru :: "(string \<Rightarrow> 'v option, 'v) lru" where
  "map_lru = \<lparr>lru_Get = (\<lambda>c k. (c, c k)), lru_Add = (\<lambda>c k v. c(k \<mapsto> v))\<rparr>"

lemma map_lru_keeps: "lru_keeps map_lru (\<lambda>c. c)"
  by (auto simp: lru_keeps_def lru_right_def map_lru_def)

theorem event_counts_exact_witness:
  "ev_Count (observe_all (\<lambda>_ _. (None :: unit option, None :: unit option)) [(demo_event ''ns'' ''a'' ''x'', ''1''), (demo_event ''ns'' ''b'' ''x'', ''2''), (demo_event ''ns'' ''a'' ''x'', ''1'')]
     \<lparr>lg_cache = Map.empty, lg_lru = map_lru\<rparr> ! 2) = 2"
proof -
  let ?xs = "[(demo_event ''ns'' ''a'' ''x'', ''1''), (demo_event ''ns'' ''b'' ''x'', ''2''), (demo_event ''ns'' ''a'' ''x'', ''1'')]"
  have "\<forall>(ev, k) \<in> set ?xs. ev_Count ev = 1" by (simp add: demo_event_def makeEvent_def)
  then have "ev_Count (observe_all (\<lambda>_ _. (None :: unit option, None :: unit option)) ?xs \<lparr>lg_cache = Map.empty, lg_lru = map_lru\<rparr> ! 2) =
      int (count_list (map snd (take (Suc 2) ?xs)) (snd (?xs ! 2)))"
    by (intro event_counts_exact [where lookup = "\<lambda>c. c", THEN conjunct2]) (simp_all add: map_lru_keeps)
  then show ?thesis by (simp del: observe_all.simps)
qed

definition demo_aggregator :: "(string \<Rightarrow> aggregateRecord option, unit) event_aggregator" where
  "demo_aggregator = NewEventAggregator Map.empty map_lru EventAggregatorByReasonFunc EventAggregatorByReasonMessageFunc 2 600"

theorem aggregation_exact_witness:
  "\<exists>pop. aggregate_all pop [(1, demo_event ''ns'' ''a'' ''x''), (2, demo_event ''ns'' ''a'' ''y'')] demo_aggregator ! 1 =
     (aggregate_event EventAggregatorByReasonMessageFunc 2 (demo_event ''ns'' ''a'' ''y''), fst (EventAggregatorByReasonFunc (demo_event ''ns'' ''a'' ''y'')))"
proof -
  obtain pop :: "string set \<Rightarrow> string" where pop: "\<forall>s. s \<noteq> {} \<longrightarrow> pop s \<in> s" by (metis ex_in_conv)
  let ?xs = "[(1 :: int, demo_event ''ns'' ''a'' ''x''), (2, demo_event ''ns'' ''a'' ''y'')]"
  let ?kf = "EventAggregatorByReasonFunc :: unit Event_v1 \<Rightarrow> string \<times> string"
  have keys: "fst (?kf (demo_event ''ns'' ''a'' ''x'')) = fst (?kf (demo_event ''ns'' ''a'' ''y''))"
    "snd (?kf (demo_event ''ns'' ''a'' m)) = m" for m
    by (simp_all add: EventAggregatorByReasonFunc_def demo_event_def makeEvent_def)
  have agg: "lru_keeps (ea_lru demo_aggregator) (\<lambda>c. c)" "\<forall>k. ea_cache demo_aggregator k = None" "ea_maxEvents demo_aggregator = 2"
    "ea_keyFunc demo_aggregator = ?kf" "ea_messageFunc demo_aggregator = EventAggregatorByReasonMessageFunc"
    "max_interval demo_aggregator = 600000000000"
    by (simp_all add: demo_aggregator_def NewEventAggregator_def map_lru_keeps to_uint_def max_interval_def wrap64_def)
  have before: "local_keys ?kf (fst (?kf (demo_event ''ns'' ''a'' ''y''))) (take 1 ?xs) = {''x''}"
    using local_keys_simps(2) [of ?kf "fst (?kf (demo_event ''ns'' ''a'' ''y''))" "[]" 1 "demo_event ''ns'' ''a'' ''x''"] keys by simp
  have key: "?kf (demo_event ''ns'' ''a'' ''y'') = (fst (?kf (demo_event ''ns'' ''a'' ''y'')), ''y'')" using keys(2) by (metis prod.collapse)
  show ?thesis
    using aggregation_exact [of demo_aggregator "\<lambda>c. c" ?xs 0 pop 1 2 "demo_event ''ns'' ''a'' ''y''" "fst (?kf (demo_event ''ns'' ''a'' ''y''))" "''y''" "{''x''}"]
      agg pop before key by (intro exI [of _ pop]) (simp del: aggregate_all.simps)
qed

definition demo_filter :: "(string \<Rightarrow> nat option option, nat, unit) spam_filter" where
  "demo_filter = \<lparr>sf_cache = Map.empty, sf_lru = map_lru, sf_newLimiter = 1, sf_tryAccept = (\<lambda>now b. (b - 1, b > 0)), sf_spamKeyFunc = getSpamKey\<rparr>"

theorem spam_filter_per_key_witness:
  "filter_all [(1, demo_event ''ns'' ''a'' ''x''), (2, demo_event ''ns'' ''b'' ''x''), (3, demo_event ''ns'' ''a'' ''x'')] demo_filter ! 2"
  using spam_filter_per_key [of demo_filter "\<lambda>c. c" 2 "[(1, demo_event ''ns'' ''a'' ''x''), (2, demo_event ''ns'' ''b'' ''x''), (3, demo_event ''ns'' ''a'' ''x'')]"
      3 "demo_event ''ns'' ''a'' ''x''"]
  by (simp add: demo_filter_def map_lru_keeps getSpamKey_def demo_event_def makeEvent_def del: filter_all.simps)

definition demo_env :: "(string \<Rightarrow> nat option option, nat, string \<Rightarrow> aggregateRecord option, string \<Rightarrow> eventLog option, unit, unit, unit, unit) record_env" where
  "demo_env = \<lparr>rn_spamCache = (\<lambda>_. (Map.empty, map_lru)), rn_aggregateCache = (\<lambda>_. (Map.empty, map_lru)), rn_logCache = (\<lambda>_. (Map.empty, map_lru)),
     rn_newLimiter = (\<lambda>_ burst. nat burst), rn_tryAccept = (\<lambda>now b. (b - 1, b > 0)), rn_mkPatch = (\<lambda>_ _. (None, None)), rn_pop = (\<lambda>_. '''')\<rparr>"

text \<open>The sink cannot be reached once, and takes the event at the second attempt.\<close>

definition demo_sink :: "(nat, unit, unit) event_sink" where
  "demo_sink = \<lparr>es_Create = (\<lambda>w event. (Suc w, if w = 0 then Inl TransportError else Inr event)), es_Patch = (\<lambda>w event patch. (Suc w, Inl TransportError))\<rparr>"

lemma demo_record:
  "\<exists>c'. recordToSink demo_env (logging_sink demo_sink) (logging_sleep (\<lambda>w first. (w, False))) 0 0 (demo_event ''ns'' ''a'' ''x'')
     (NewEventCorrelator demo_env ()) (0, []) =
     Some (c', (2, [CreateCall (demo_event ''ns'' ''a'' ''x''), CreateCall (demo_event ''ns'' ''a'' ''x'')]), Some Recorded)"
proof -
  let ?ev = "demo_event ''ns'' ''a'' ''x''"
  have ev: "ev_Count ?ev = 1" "?ev\<lparr>ev_ResourceVersion := ''''\<rparr> = ?ev" by (simp_all add: demo_event_def makeEvent_def)
  have sat: "wrap64 600000000000 < 2 ^ 63 - 1" using interval_below_saturation [of 600] by simp
  have "\<exists>c'. EventCorrelate demo_env 0 0 (Some ?ev) (NewEventCorrelator demo_env ()) = Some (c', Correlated ?ev None None)"
    using sat by (simp add: EventCorrelate_def NewEventCorrelator_def NewEventAggregator_def NewEventSourceObjectSpamFilter_def newEventLogger_def demo_env_def
        EventAggregate_def EventAggregatorByReasonFunc_def map_lru_def since_opt_def to_uint_def wrap64_id spam_Filter_def eventObserve_def
        lastEventObservationFromCache_def Let_def)
  then obtain c1 where c1: "EventCorrelate demo_env 0 0 (Some ?ev) (NewEventCorrelator demo_env ()) = Some (c1, Correlated ?ev None None)" by blast
  have tries: "\<exists>c'. record_tries (logging_sink demo_sink) (logging_sleep (\<lambda>w first. (w, False))) (Suc (Suc n)) True None ?ev c1 (0, []) =
      (c', (2, [CreateCall ?ev, CreateCall ?ev]), Recorded)" for n
    by (simp add: recordEvent_def logging_sink_def logging_sleep_def demo_sink_def ev Let_def)
  have "maxTriesPerEvent = Suc (Suc 10)" by (simp add: maxTriesPerEvent_def)
  then show ?thesis using c1 tries [of 10] by (auto simp: recordToSink_def simp del: record_tries.simps)
qed

theorem record_to_sink_bounded_witness:
  "\<exists>attempts observed. [CreateCall (demo_event ''ns'' ''a'' ''x''), CreateCall (demo_event ''ns'' ''a'' ''x'')] = concat attempts \<and>
     length attempts \<le> maxTriesPerEvent \<and> list_all (attempt observed) attempts"
  using demo_record record_to_sink_bounded unfolding list_all_iff by fast

end
