(* ===== verification/Listers.thy ===== *)
theory Listers
  imports Store
begin

text \<open>
  \<open>tools/cache/listers.go\<close>: reading the objects of an indexer that match a label selector, of all namespaces or of one, through the
  namespace index or by a scan, and the generic listers on top.

  Selectors and the accessor of metadata belong to apimachinery: \<open>meta\<close> gives the namespace, the name and the labels of an object; a selector is its \<open>Empty\<close>
  and its \<open>Matches\<close>. \<open>metaObject\<close> makes the \<open>metav1.ObjectMeta\<close> of a namespace that is given to the index.
\<close>

section \<open>ListAll\<close>

type_synonym ('o, 'l) meta_accessor = "'o obj \<Rightarrow> ('o goval, string \<times> string \<times> 'l) res"

record 'l selector =
  sel_Empty :: bool
  sel_Matches :: "'l \<Rightarrow> bool"

text \<open>The loop over the objects; \<open>appendFn\<close> appends, and what was appended stays when an error ends the loop.\<close>

fun list_matching :: "('o, 'l) meta_accessor \<Rightarrow> 'l selector \<Rightarrow> 'o obj list \<Rightarrow> 'o obj list \<times> 'o goval error option" where
  "list_matching meta selector [] = ([], None)"
| "list_matching meta selector (m # ms) =
     (if sel_Empty selector then (let (ret, err) = list_matching meta selector ms in (m # ret, err))
      else case meta m of
             Inl err \<Rightarrow> ([], Some err)
           | Inr (_, _, labels) \<Rightarrow>
               (let (ret, err) = list_matching meta selector ms in (if sel_Matches selector labels then m # ret else ret, err)))"

definition ListAll ::
  "('o, 'l) meta_accessor \<Rightarrow> string list \<Rightarrow> 'o goval cache \<Rightarrow> 'l selector \<Rightarrow> 'o obj list \<times> 'o goval error option"
where
  "ListAll meta order store selector = list_matching meta selector (cache_List order store)"

text \<open>The slow search without an index.\<close>

fun scan_namespace ::
  "('o, 'l) meta_accessor \<Rightarrow> string \<Rightarrow> 'l selector \<Rightarrow> 'o obj list \<Rightarrow> 'o obj list \<times> 'o goval error option"
where
  "scan_namespace meta namespace selector [] = ([], None)"
| "scan_namespace meta namespace selector (m # ms) =
     (case meta m of
        Inl err \<Rightarrow> ([], Some err)
      | Inr (ns, _, labels) \<Rightarrow>
          (let (ret, err) = scan_namespace meta namespace selector ms
           in (if ns = namespace \<and> sel_Matches selector labels then m # ret else ret, err)))"

definition ListAllByNamespace ::
  "('o, 'l) meta_accessor \<Rightarrow> (string \<Rightarrow> 'o obj) \<Rightarrow> string list \<Rightarrow> 'o goval cache \<Rightarrow> string \<Rightarrow> 'l selector
     \<Rightarrow> 'o obj list \<times> 'o goval error option"
where
  "ListAllByNamespace meta metaObject order indexer namespace selector =
     (if namespace = '''' then ListAll meta order indexer selector
      else case cache_Index order indexer NamespaceIndex (metaObject namespace) of
             Inl err \<Rightarrow> scan_namespace meta namespace selector (cache_List order indexer)
           | Inr items \<Rightarrow> list_matching meta selector items)"

section \<open>Generic listers\<close>

text \<open>\<open>None\<close> is the panic of \<open>m.(runtime.Object)\<close>.\<close>

definition runtime_objects :: "'o obj list \<times> 'o goval error option \<Rightarrow> ('o list \<times> 'o goval error option) option" where
  "runtime_objects r =
     (if list_all (\<lambda>m. case m of Some (Object _) \<Rightarrow> True | _ \<Rightarrow> False) (fst r)
      then Some (map (\<lambda>m. case m of Some (Object x) \<Rightarrow> x) (fst r), snd r) else None)"

definition lister_List ::
  "('o, 'l) meta_accessor \<Rightarrow> string list \<Rightarrow> 'o goval cache \<Rightarrow> 'l selector \<Rightarrow> ('o list \<times> 'o goval error option) option"
where
  "lister_List meta order indexer selector = runtime_objects (ListAll meta order indexer selector)"

definition namespace_lister_List ::
  "('o, 'l) meta_accessor \<Rightarrow> (string \<Rightarrow> 'o obj) \<Rightarrow> string list \<Rightarrow> 'o goval cache \<Rightarrow> string \<Rightarrow> 'l selector
     \<Rightarrow> ('o list \<times> 'o goval error option) option"
where
  "namespace_lister_List meta metaObject order indexer namespace selector =
     runtime_objects (ListAllByNamespace meta metaObject order indexer namespace selector)"

datatype 'o lister_get = NotFound string | Found 'o | GetPanics

definition lister_get_key :: "'o goval cache \<Rightarrow> string \<Rightarrow> string \<Rightarrow> 'o lister_get" where
  "lister_get_key indexer key name =
     (case cache_GetByKey indexer key of
        (_, False) \<Rightarrow> NotFound name
      | (obj, True) \<Rightarrow> (case obj of Some (Object x) \<Rightarrow> Found x | _ \<Rightarrow> GetPanics))"

definition lister_Get :: "'o goval cache \<Rightarrow> string \<Rightarrow> 'o lister_get" where
  "lister_Get indexer name = lister_get_key indexer name name"

definition namespace_lister_Get :: "'o goval cache \<Rightarrow> string \<Rightarrow> string \<Rightarrow> 'o lister_get" where
  "namespace_lister_Get indexer namespace name = lister_get_key indexer (namespace @ ''/'' @ name) name"

section \<open>The index and the scan agree\<close>

definition plain_accessor :: "('o, 'l) meta_accessor \<Rightarrow> 'o accessor" where
  "plain_accessor meta obj = (case meta obj of Inl err \<Rightarrow> Inl err | Inr (namespace, name, _) \<Rightarrow> Inr (namespace, name))"

definition selected :: "('o, 'l) meta_accessor \<Rightarrow> 'l selector \<Rightarrow> 'o obj \<Rightarrow> bool" where
  "selected meta selector m = (case meta m of Inl _ \<Rightarrow> False | Inr (_, _, labels) \<Rightarrow> sel_Matches selector labels)"

definition in_namespace :: "('o, 'l) meta_accessor \<Rightarrow> string \<Rightarrow> 'o obj \<Rightarrow> bool" where
  "in_namespace meta namespace m = (case meta m of Inl _ \<Rightarrow> False | Inr (ns, _) \<Rightarrow> ns = namespace)"

text \<open>An empty selector matches everything.\<close>

definition selector_ok :: "'l selector \<Rightarrow> bool" where
  "selector_ok selector \<longleftrightarrow> (sel_Empty selector \<longrightarrow> (\<forall>labels. sel_Matches selector labels))"

lemma list_matching_filter:
  assumes "selector_ok selector" and "\<forall>m \<in> set ms. \<exists>x. meta m = Inr x"
  shows "list_matching meta selector ms = (filter (selected meta selector) ms, None)"
  using assms(2)
proof (induction ms)
  case (Cons m ms)
  then obtain ns name labels where "meta m = Inr (ns, name, labels)" by (metis list.set_intros(1) prod_cases3)
  then show ?case using Cons assms(1) by (auto simp: selected_def selector_ok_def)
qed simp

lemma scan_namespace_filter:
  assumes "\<forall>m \<in> set ms. \<exists>x. meta m = Inr x"
  shows "scan_namespace meta namespace selector ms = (filter (\<lambda>m. in_namespace meta namespace m \<and> selected meta selector m) ms, None)"
  using assms
proof (induction ms)
  case (Cons m ms)
  then obtain ns name labels where "meta m = Inr (ns, name, labels)" by (metis list.set_intros(1) prod_cases3)
  then show ?case using Cons by (auto simp: selected_def in_namespace_def)
qed simp

lemma map_filter_items:
  assumes "set order \<subseteq> dom items"
  shows "List.map_filter items order = map (map_get items) order"
  using assms by (induction order) (auto simp: List.map_filter_def map_get_def)

lemma range_order_mset: "range_order xs m \<Longrightarrow> range_order ys m \<Longrightarrow> mset xs = mset ys"
  by (metis range_order_def set_eq_iff_mset_eq_distinct)

text \<open>The objects that the index returns are the objects of the namespace.\<close>

lemma namespace_index_items:
  assumes ok: "tsm_ok (cacheStorage c)" and ix: "cache_GetIndexers c NamespaceIndex = Some (MetaNamespaceIndexFunc (plain_accessor meta))"
    and order: "range_order order (cache_content c)" and metas: "\<forall>m \<in> ran (cache_content c). \<exists>x. meta m = Inr x"
    and probe: "meta (metaObject namespace) = Inr (namespace, x)" and objs: "\<forall>m \<in> ran (cache_content c). m \<noteq> None"
  shows "cache_Index order c NamespaceIndex (metaObject namespace) = Inr (filter (in_namespace meta namespace) (cache_List order c))"
proof -
  let ?f = "MetaNamespaceIndexFunc (plain_accessor meta)" and ?items = "tsm_items (cacheStorage c)"
  have "?f (metaObject namespace) = Inr [namespace]"
    using probe by (cases x) (simp add: MetaNamespaceIndexFunc_def plain_accessor_def)
  then have keys: "getKeysFromIndex (tsm_index (cacheStorage c)) NamespaceIndex (metaObject namespace) = Inr (keys_with ?f ?items namespace)"
    using tsm_ok_getKeysFromIndex [of "cacheStorage c" NamespaceIndex ?f "metaObject namespace" "[namespace]"] ok ix
    by (simp add: cache_GetIndexers_def tsm_GetIndexers_def)
  have dom: "set order = dom ?items" using order by (simp add: range_order_def cache_content_def)
  have "k \<in> keys_with ?f ?items namespace \<longleftrightarrow> in_namespace meta namespace (map_get ?items k)" if k: "k \<in> set order" for k
  proof -
    obtain m where m: "?items k = Some m" using k dom by auto
    then have "m \<in> ran (cache_content c)" by (auto simp: cache_content_def ran_def)
    then obtain y where "meta m = Inr y" and "m \<noteq> None" using metas objs by blast
    then show ?thesis using m
      by (cases y) (auto simp: keys_with_def indexed_def index_values_def MetaNamespaceIndexFunc_def plain_accessor_def in_namespace_def map_get_def)
  qed
  then have "map (map_get ?items) (filter (\<lambda>k. k \<in> keys_with ?f ?items namespace) order) = filter (in_namespace meta namespace) (map (map_get ?items) order)"
    by (simp add: filter_map comp_def cong: filter_cong)
  then show ?thesis
    using keys dom by (simp add: cache_Index_def tsm_Index_def cache_List_def tsm_List_def map_filter_items)
qed

text \<open>The objects of a store that a lister can read: API objects with metadata, under the key of their names.\<close>

definition listable :: "('o, 'l) meta_accessor \<Rightarrow> 'o obj gomap \<Rightarrow> bool" where
  "listable meta content \<longleftrightarrow>
     (\<forall>k m. content k = Some m \<longrightarrow>
        (\<exists>x namespace name labels. m = Some (Object x) \<and> meta m = Inr (namespace, name, labels) \<and> slash \<notin> set namespace \<and> slash \<notin> set name \<and>
           k = ObjectName_String (NewObjectName namespace name)))"

lemma cache_List_range:
  assumes "range_order order (cache_content c)" and "range_order order2 (cache_content c)"
  shows "mset (cache_List order c) = mset (cache_List order2 c)" and "set (cache_List order c) = ran (cache_content c)"
proof -
  have "mset (map (map_get (cache_content c)) order) = mset (map (map_get (cache_content c)) order2)"
    using range_order_mset [OF assms] by simp
  then show "mset (cache_List order c) = mset (cache_List order2 c)"
    using assms by (simp add: cache_List_def tsm_List_def map_filter_items range_order_def cache_content_def)
  have "map_get m ` dom m = ran m" for m :: "'a iface gomap"
    by (force simp: map_get_def ran_def image_iff)
  then show "set (cache_List order c) = ran (cache_content c)"
    using assms(1) by (simp add: cache_List_def tsm_List_def map_filter_items range_order_def cache_content_def)
qed

text \<open>
  Listing a namespace through the index is equivalent to the slow search: on a reachable indexer with the namespace index, \<open>ListAllByNamespace\<close> returns,
  without an error and whatever orders the maps are read in, the same objects with the same multiplicity as scanning the whole store for the namespace
  and the selector.
\<close>
theorem lister_index_equals_scan:
  assumes "tsm_reachable (cacheStorage c)" and "cache_GetIndexers c NamespaceIndex = Some (MetaNamespaceIndexFunc (plain_accessor meta))"
    and "range_order order (cache_content c)" and "range_order order2 (cache_content c)" and "listable meta (cache_content c)"
    and "meta (metaObject namespace) = Inr (namespace, x)" and "selector_ok selector" and "namespace \<noteq> ''''"
  shows "mset (fst (ListAllByNamespace meta metaObject order c namespace selector)) = mset (fst (scan_namespace meta namespace selector (cache_List order2 c))) \<and>
    snd (ListAllByNamespace meta metaObject order c namespace selector) = None \<and> snd (scan_namespace meta namespace selector (cache_List order2 c)) = None"
proof -
  have metas: "\<forall>m \<in> ran (cache_content c). \<exists>y. meta m = Inr y" "\<forall>m \<in> ran (cache_content c). m \<noteq> None"
    using assms(5) by (auto simp: listable_def ran_def) blast+
  let ?all = "cache_List order c"
  have ix: "cache_Index order c NamespaceIndex (metaObject namespace) = Inr (filter (in_namespace meta namespace) ?all)"
    by (rule namespace_index_items [where meta = meta and metaObject = metaObject and namespace = namespace,
          OF tsm_reachable_ok [OF assms(1)] assms(2,3) metas(1) assms(6) metas(2)])
  have "list_matching meta selector (filter (in_namespace meta namespace) ?all) = (filter (selected meta selector) (filter (in_namespace meta namespace) ?all), None)"
    using metas(1) cache_List_range(2) [OF assms(3,3)] by (intro list_matching_filter [OF assms(7)]) auto
  then have 1: "ListAllByNamespace meta metaObject order c namespace selector =
      (filter (\<lambda>m. in_namespace meta namespace m \<and> selected meta selector m) ?all, None)"
    using ix assms(8) by (simp add: ListAllByNamespace_def)
  have 2: "scan_namespace meta namespace selector (cache_List order2 c) =
      (filter (\<lambda>m. in_namespace meta namespace m \<and> selected meta selector m) (cache_List order2 c), None)"
    using metas(1) cache_List_range(2) [OF assms(4,4)] by (intro scan_namespace_filter) auto
  show ?thesis using cache_List_range(1) [OF assms(3,4)] by (simp add: 1 2)
qed

lemma ObjectName_String_inj:
  assumes "slash \<notin> set ns" "slash \<notin> set name" "slash \<notin> set ns'" "slash \<notin> set name'"
    and "ObjectName_String (NewObjectName ns name) = ObjectName_String (NewObjectName ns' name')"
  shows "ns = ns' \<and> name = name'"
proof -
  have "strings_Split (ObjectName_String (NewObjectName a b)) slash = (if a = [] then [b] else [a, b])" if "slash \<notin> set a" "slash \<notin> set b" for a b
    using that by (simp add: ObjectName_String_def NewObjectName_def strings_Split_sep strings_Split_no_sep)
  from this [OF assms(1,2)] this [OF assms(3,4)] assms(5)
  have "(if ns = [] then [name] else [ns, name]) = (if ns' = [] then [name'] else [ns', name'])" by metis
  then show ?thesis by (simp split: if_splits)
qed

text \<open>A namespace lister gets exactly the object with its namespace and the given name.\<close>

theorem namespace_lister_get_exact:
  assumes "listable meta (cache_content c)" and "namespace \<noteq> ''''" and "slash \<notin> set namespace" and "slash \<notin> set name"
  shows "namespace_lister_Get c namespace name = Found x \<longleftrightarrow>
    (\<exists>labels. Some (Object x) \<in> ran (cache_content c) \<and> meta (Some (Object x)) = Inr (namespace, name, labels))"
proof -
  let ?k = "ObjectName_String (NewObjectName namespace name)"
  have k: "namespace @ ''/'' @ name = ?k" using assms(2) by (simp add: ObjectName_String_def NewObjectName_def slash_def)
  have get: "namespace_lister_Get c namespace name = Found x \<longleftrightarrow> cache_content c ?k = Some (Some (Object x))"
    unfolding namespace_lister_Get_def k
    by (auto simp: lister_get_key_def cache_GetByKey_def tsm_Get_def cache_content_def map_get_def split: option.splits goval.splits)
  show ?thesis
  proof
    assume "namespace_lister_Get c namespace name = Found x"
    then have c: "cache_content c ?k = Some (Some (Object x))" using get by simp
    then obtain ns nm labels where m: "meta (Some (Object x)) = Inr (ns, nm, labels)" "slash \<notin> set ns" "slash \<notin> set nm" "?k = ObjectName_String (NewObjectName ns nm)"
      using assms(1) unfolding listable_def by blast
    then have "namespace = ns \<and> name = nm" using ObjectName_String_inj assms(3,4) by blast
    then show "\<exists>labels. Some (Object x) \<in> ran (cache_content c) \<and> meta (Some (Object x)) = Inr (namespace, name, labels)"
      using m(1) c by (auto simp: ran_def)
  next
    assume "\<exists>labels. Some (Object x) \<in> ran (cache_content c) \<and> meta (Some (Object x)) = Inr (namespace, name, labels)"
    then obtain k labels where "cache_content c k = Some (Some (Object x))" "meta (Some (Object x)) = Inr (namespace, name, labels)" by (auto simp: ran_def)
    moreover from this have "k = ?k" using assms(1) unfolding listable_def by fastforce
    ultimately show "namespace_lister_Get c namespace name = Found x" using get by simp
  qed
qed

section \<open>A concrete indexer\<close>

text \<open>Two pods in different namespaces; an object is its namespace and its name, its label is the name.\<close>

definition demo_meta :: "(string \<times> string, string) meta_accessor" where
  "demo_meta obj = (case obj of Some (Object (namespace, name)) \<Rightarrow> Inr (namespace, name, name) | _ \<Rightarrow> Inl (Errorf ''object does not implement the Object interfaces''))"

definition demo_lister_empty :: "(string \<times> string) goval cache" where
  "demo_lister_empty = NewIndexer (MetaNamespaceKeyFunc (plain_accessor demo_meta)) [NamespaceIndex \<mapsto> MetaNamespaceIndexFunc (plain_accessor demo_meta)]"

definition demo_lister_indexer :: "(string \<times> string) goval cache" where
  "demo_lister_indexer =
     fst (cache_Add [NamespaceIndex] (fst (cache_Add [NamespaceIndex] demo_lister_empty (Some (Object (''a'', ''x''))))) (Some (Object (''b'', ''y''))))"

lemmas demo_lister_defs =
  demo_lister_empty_def demo_lister_indexer_def cache_Add_def NewIndexer_def NewThreadSafeStore_def MetaNamespaceKeyFunc_def ObjectToName_def plain_accessor_def
  demo_meta_def MetaObjectToName_def NewObjectName_def ObjectName_String_def slash_def tsm_Add_def tsm_Update_def index_values_def MetaNamespaceIndexFunc_def

lemma cache_Add_reachable:
  assumes "tsm_reachable (cacheStorage c)" and "range_order order (cache_GetIndexers c)" and "snd (cache_Add order c obj) = Ret None"
  shows "tsm_reachable (cacheStorage (fst (cache_Add order c obj))) \<and> cache_GetIndexers (fst (cache_Add order c obj)) = cache_GetIndexers c"
proof -
  obtain key where key: "cache_keyFunc c obj = Inr key" using assms(3) by (auto simp: cache_Add_def split: sum.splits)
  obtain storage panic where add: "tsm_Add order (cacheStorage c) key obj = (storage, panic)" by force
  have "panic = None" using assms(3) key add by (auto simp: cache_Add_def ret_of_panic_def split: option.splits)
  then have "tsm_step (cacheStorage c) storage"
    using add assms(2) by (intro step_Add [of order]) (simp_all add: cache_GetIndexers_def tsm_GetIndexers_def)
  moreover have "si_indexers (tsm_index storage) = si_indexers (tsm_index (cacheStorage c))"
    using add by (auto simp: tsm_Add_def tsm_Update_def case_prod_beta Let_def)
  ultimately show ?thesis using assms(1) key add
    by (auto simp: cache_Add_def cache_GetIndexers_def tsm_GetIndexers_def intro: reach_step)
qed

lemma demo_lister_ok:
  "tsm_reachable (cacheStorage demo_lister_indexer)"
  "cache_GetIndexers demo_lister_indexer = [NamespaceIndex \<mapsto> MetaNamespaceIndexFunc (plain_accessor demo_meta)]"
  "cache_content demo_lister_indexer = [''a/x'' \<mapsto> Some (Object (''a'', ''x'')), ''b/y'' \<mapsto> Some (Object (''b'', ''y''))]"
proof -
  let ?ix = "[NamespaceIndex \<mapsto> MetaNamespaceIndexFunc (plain_accessor demo_meta)]"
  let ?c1 = "fst (cache_Add [NamespaceIndex] demo_lister_empty (Some (Object (''a'', ''x''))))"
  have 0: "tsm_reachable (cacheStorage demo_lister_empty)" "cache_GetIndexers demo_lister_empty = ?ix"
    using reach_New [of ?ix] by (simp_all add: demo_lister_empty_def NewIndexer_def cache_GetIndexers_def tsm_GetIndexers_def NewThreadSafeStore_def)
  have ro: "range_order [NamespaceIndex] ?ix" by (simp add: range_order_def)
  have "snd (cache_Add [NamespaceIndex] demo_lister_empty (Some (Object (''a'', ''x'')))) = Ret None"
    by (simp add: demo_lister_defs map_get_def)
  from cache_Add_reachable [OF 0(1) _ this] have 1: "tsm_reachable (cacheStorage ?c1)" "cache_GetIndexers ?c1 = ?ix" using 0 ro by simp_all
  have "snd (cache_Add [NamespaceIndex] ?c1 (Some (Object (''b'', ''y'')))) = Ret None"
    by (simp add: demo_lister_defs map_get_def)
  from cache_Add_reachable [OF 1(1) _ this] show "tsm_reachable (cacheStorage demo_lister_indexer)" "cache_GetIndexers demo_lister_indexer = ?ix"
    using 1 ro by (simp_all add: demo_lister_indexer_def)
  show "cache_content demo_lister_indexer = [''a/x'' \<mapsto> Some (Object (''a'', ''x'')), ''b/y'' \<mapsto> Some (Object (''b'', ''y''))]"
    by (simp add: demo_lister_defs map_get_def cache_content_def)
qed

lemma demo_listable: "listable demo_meta (cache_content demo_lister_indexer)"
  by (auto simp: listable_def demo_lister_ok(3) demo_meta_def ObjectName_String_def NewObjectName_def slash_def split: if_splits)

theorem lister_index_equals_scan_witness:
  "mset (fst (ListAllByNamespace demo_meta (\<lambda>ns. Some (Object (ns, ''''))) [''a/x'', ''b/y''] demo_lister_indexer ''a'' \<lparr>sel_Empty = True, sel_Matches = (\<lambda>_. True)\<rparr>)) =
   mset (fst (scan_namespace demo_meta ''a'' \<lparr>sel_Empty = True, sel_Matches = (\<lambda>_. True)\<rparr> (cache_List [''b/y'', ''a/x''] demo_lister_indexer)))"
proof -
  let ?sel = "\<lparr>sel_Empty = True, sel_Matches = (\<lambda>_ :: string. True)\<rparr>"
  have orders: "range_order [''a/x'', ''b/y''] (cache_content demo_lister_indexer)" "range_order [''b/y'', ''a/x''] (cache_content demo_lister_indexer)"
    by (auto simp: demo_lister_ok(3) range_order_def)
  have ix: "cache_GetIndexers demo_lister_indexer NamespaceIndex = Some (MetaNamespaceIndexFunc (plain_accessor demo_meta))"
    by (simp add: demo_lister_ok(2))
  have probe: "demo_meta ((\<lambda>ns. Some (Object (ns, ''''))) ''a'') = Inr (''a'', '''', '''')" by (simp add: demo_meta_def)
  have sel: "selector_ok ?sel" by (simp add: selector_ok_def)
  have ne: "''a'' \<noteq> ''''" by simp
  show ?thesis
    by (rule lister_index_equals_scan [where meta = demo_meta and metaObject = "\<lambda>ns. Some (Object (ns, ''''))",
          OF demo_lister_ok(1) ix orders demo_listable probe sel ne, THEN conjunct1])
qed

theorem namespace_lister_get_exact_witness:
  "namespace_lister_Get demo_lister_indexer ''b'' ''y'' = Found (''b'', ''y'')"
proof -
  have "Some (Object (''b'', ''y'')) \<in> ran (cache_content demo_lister_indexer)"
    by (rule ranI [of _ "''b/y''"]) (simp add: demo_lister_ok(3))
  moreover have "demo_meta (Some (Object (''b'', ''y''))) = Inr (''b'', ''y'', ''y'')" by (simp add: demo_meta_def)
  moreover have "''b'' \<noteq> ''''" "slash \<notin> set ''b''" "slash \<notin> set ''y''" by (simp_all add: slash_def)
  ultimately show ?thesis using namespace_lister_get_exact [OF demo_listable] by metis
qed

end
