(* ===== verification/GoStrings.thy ===== *)
theory GoStrings
  imports Store
begin

text \<open>
  What several components use of Go's string libraries: \<open>path.Clean\<close> and \<open>path.Join\<close>, tests of prefixes and substrings, and the
  parsing of numbers of \<open>strconv\<close>.

  The lemmas are about paths of plain segments, which \<open>Join\<close> puts together and takes apart without loss.
\<close>

section \<open>The library's paths\<close>

text \<open>\<open>path.Clean\<close> and \<open>path.Join\<close> on the segments between slashes; \<open>before\<close> has the segments so far, the last one first.\<close>

fun join_slash :: "string list \<Rightarrow> string" where
  "join_slash [] = ''''"
| "join_slash [s] = s"
| "join_slash (s # t # ss) = s @ slash # join_slash (t # ss)"

fun clean_segments :: "bool \<Rightarrow> string list \<Rightarrow> string list \<Rightarrow> string list" where
  "clean_segments rooted [] before = rev before"
| "clean_segments rooted (s # ss) before =
     (if s = '''' \<or> s = ''.'' then clean_segments rooted ss before
      else if s = ''..'' then
        (case before of
           [] \<Rightarrow> clean_segments rooted ss (if rooted then [] else [''..''])
         | t # ts \<Rightarrow> clean_segments rooted ss (if t = ''..'' then ''..'' # before else ts))
      else clean_segments rooted ss (s # before))"

definition path_Clean :: "string \<Rightarrow> string" where
  "path_Clean p =
     (let rooted = (case p of [] \<Rightarrow> False | c # _ \<Rightarrow> c = slash);
          out = (if rooted then [slash] else []) @ join_slash (clean_segments rooted (strings_Split p slash) [])
      in if out = '''' then ''.'' else out)"

definition path_Join :: "string list \<Rightarrow> string" where
  "path_Join elem =
     (if \<forall>e \<in> set elem. e = '''' then '''' else path_Clean (join_slash (dropWhile (\<lambda>e. e = '''') elem)))"

text \<open>\<open>strings.ToLower\<close> on ASCII, \<open>strings.HasPrefix\<close>, \<open>HasSuffix\<close>, \<open>TrimPrefix\<close> and \<open>Contains\<close>.\<close>

definition to_lower :: "char \<Rightarrow> char" where
  "to_lower c = (if CHR ''A'' \<le> c \<and> c \<le> CHR ''Z'' then char_of (of_char c + 32 :: nat) else c)"

definition strings_ToLower :: "string \<Rightarrow> string" where
  "strings_ToLower = map to_lower"

definition has_prefix :: "string \<Rightarrow> string \<Rightarrow> bool" where
  "has_prefix s p \<longleftrightarrow> take (length p) s = p"

definition has_suffix :: "string \<Rightarrow> string \<Rightarrow> bool" where
  "has_suffix s p \<longleftrightarrow> has_prefix (rev s) (rev p)"

definition trim_prefix :: "string \<Rightarrow> string \<Rightarrow> string" where
  "trim_prefix s p = (if has_prefix s p then drop (length p) s else s)"

fun contains :: "string \<Rightarrow> string \<Rightarrow> bool" where
  "contains [] sub \<longleftrightarrow> sub = []"
| "contains (c # cs) sub \<longleftrightarrow> has_prefix (c # cs) sub \<or> contains cs sub"

section \<open>Numbers\<close>

text \<open>\<open>strconv.ParseUint\<close> with base 10 and 64 bits.\<close>

fun parse_digits :: "string \<Rightarrow> nat \<Rightarrow> nat option" where
  "parse_digits [] n = Some n"
| "parse_digits (c # cs) n =
     (if CHR ''0'' \<le> c \<and> c \<le> CHR ''9'' then parse_digits cs (10 * n + (of_char c - of_char CHR ''0'')) else None)"

definition ParseUint :: "string \<Rightarrow> nat option" where
  "ParseUint s =
     (if s = '''' then None
      else case parse_digits s 0 of None \<Rightarrow> None | Some n \<Rightarrow> if n < 2 ^ 64 then Some n else None)"

text \<open>\<open>strconv.Atoi\<close> on 64 bits: an optional sign and digits.\<close>

definition Atoi :: "string \<Rightarrow> int option" where
  "Atoi s =
     (let digits = (case s of c # cs \<Rightarrow> if c = CHR ''-'' \<or> c = CHR ''+'' then cs else s | [] \<Rightarrow> []);
          sign = (case s of c # _ \<Rightarrow> if c = CHR ''-'' then - 1 else 1 | [] \<Rightarrow> 1)
      in if digits = [] then None
         else case parse_digits digits 0 of
                None \<Rightarrow> None
              | Some n \<Rightarrow> if - (2 ^ 63) \<le> sign * int n \<and> sign * int n < 2 ^ 63 then Some (sign * int n) else None)"

section \<open>Paths and segments\<close>

text \<open>A plain segment stands for itself; \<open>path_of\<close> is the path of a list of them.\<close>

definition plain :: "string \<Rightarrow> bool" where
  "plain s \<longleftrightarrow> s \<noteq> '''' \<and> s \<noteq> ''.'' \<and> s \<noteq> ''..'' \<and> slash \<notin> set s"

definition path_of :: "string list \<Rightarrow> string" where
  "path_of ss = slash # join_slash ss"

abbreviation parts :: "string \<Rightarrow> string list" where
  "parts s \<equiv> filter (\<lambda>x. x \<noteq> '''') (strings_Split s slash)"

lemma Split_nonempty [simp]: "strings_Split s c \<noteq> []"
  by (induction s) (auto split: list.splits)

lemma Split_append [simp]: "strings_Split (xs @ c # ys) c = strings_Split xs c @ strings_Split ys c"
  by (induction xs) (auto simp: append_eq_Cons_conv split: list.splits)

lemma Split_none: "c \<notin> set s \<Longrightarrow> strings_Split s c = [s]"
  by (induction s) auto

lemma Split_no_sep: "t \<in> set (strings_Split s c) \<Longrightarrow> c \<notin> set t"
  by (induction s arbitrary: t) (auto split: list.splits if_splits)

lemma join_slash_Cons: "ss \<noteq> [] \<Longrightarrow> join_slash (s # ss) = s @ slash # join_slash ss"
  by (cases ss) auto

lemma parts_join [simp]: "parts (join_slash es) = concat (map parts es)"
  by (induction es rule: join_slash.induct) auto

lemma parts_plain: "plain s \<Longrightarrow> parts s = [s]"
  by (simp add: plain_def Split_none)

lemma concat_parts_plain: "\<forall>s \<in> set ss. plain s \<Longrightarrow> concat (map parts ss) = ss"
  by (induction ss) (simp_all add: parts_plain)

lemma parts_path_of [simp]: "parts (path_of ss) = concat (map parts ss)"
  by (simp add: path_of_def)

lemma clean_skips: "clean_segments rooted (filter (\<lambda>x. x \<noteq> '''') ss) before = clean_segments rooted ss before"
  by (induction ss arbitrary: before) (auto split: list.split)

lemma clean_plain: "\<forall>s \<in> set ss. plain s \<Longrightarrow> clean_segments rooted ss before = rev before @ ss"
  by (induction ss arbitrary: before) (auto simp: plain_def)

lemma clean_rooted_plain:
  "\<forall>s \<in> set ss. slash \<notin> set s \<Longrightarrow> \<forall>s \<in> set before. plain s \<Longrightarrow> s \<in> set (clean_segments True ss before) \<Longrightarrow> plain s"
proof (induction ss arbitrary: before)
  case (Cons t ss)
  show ?case
  proof (cases "t = '''' \<or> t = ''.'' \<or> t = ''..''")
    case True
    then consider "t = '''' \<or> t = ''.''" | "t = ''..''" by blast
    then show ?thesis
    proof cases
      case 1
      then show ?thesis using Cons.IH [of before] Cons.prems by simp
    next
      case 2
      have "before = [] \<or> (\<exists>u us. before = u # us \<and> u \<noteq> ''..'' \<and> plain u \<and> (\<forall>s \<in> set us. plain s))"
        using Cons.prems(2) by (cases before) (simp_all add: plain_def)
      then have "(\<forall>s \<in> set (tl before). plain s) \<and> clean_segments True (t # ss) before = clean_segments True ss (tl before)"
        using 2 by auto
      then show ?thesis using Cons.IH [of "tl before"] Cons.prems(1,3) by simp
    qed
  next
    case False
    then show ?thesis using Cons.IH [of "t # before"] Cons.prems by (auto simp: plain_def)
  qed
qed simp

lemma join_slash_empty: "\<forall>s \<in> set ss. s \<noteq> '''' \<Longrightarrow> join_slash ss = '''' \<longleftrightarrow> ss = []"
  by (induction ss rule: join_slash.induct) auto

lemma path_Clean_rooted: "path_Clean (slash # s) = path_of (clean_segments True (parts s) [])"
  by (simp add: path_Clean_def path_of_def clean_skips)

lemma path_Clean_relative:
  assumes "\<forall>x \<in> set (parts s). plain x" "s \<noteq> ''''" "case s of [] \<Rightarrow> True | c # _ \<Rightarrow> c \<noteq> slash"
  shows "path_Clean s = join_slash (parts s)"
proof -
  have "clean_segments False (strings_Split s slash) [] = parts s"
    using clean_plain [OF assms(1), of False "[]"] by (simp add: clean_skips)
  moreover have "parts s \<noteq> []" using assms(2,3) by (cases s) (auto split: list.splits)
  then have "join_slash (parts s) \<noteq> ''''" using join_slash_empty [of "parts s"] by simp
  ultimately show ?thesis using assms(3) by (cases s) (auto simp: path_Clean_def)
qed

lemma join_slash_path: "join_slash (path_of ss # es) = slash # join_slash (join_slash ss # es)"
  by (cases es) (simp_all add: path_of_def)

text \<open>Joining strings of plain segments to a clean path.\<close>

lemma path_Join_path:
  assumes "\<forall>s \<in> set ss. plain s" and "\<forall>e \<in> set es. \<forall>x \<in> set (parts e). plain x"
  shows "path_Join (path_of ss # es) = path_of (ss @ concat (map parts es))"
proof -
  have "path_Join (path_of ss # es) = path_Clean (slash # join_slash (join_slash ss # es))"
    by (simp add: path_Join_def path_of_def join_slash_path [unfolded path_of_def])
  also have "\<dots> = path_of (clean_segments True (ss @ concat (map parts es)) [])"
    using concat_parts_plain [OF assms(1)] by (simp add: path_Clean_rooted)
  also have "\<dots> = path_of (ss @ concat (map parts es))"
    by (subst clean_plain) (use assms in auto)
  finally show ?thesis .
qed

lemma path_Join_plain:
  assumes "\<forall>s \<in> set ss. plain s" and "\<forall>e \<in> set es. plain e"
  shows "path_Join (path_of ss # es) = path_of (ss @ es)"
  using path_Join_path [OF assms(1), of es] assms(2) parts_plain concat_parts_plain [OF assms(2)] by fastforce

lemma path_Join_root: "\<exists>ss. path_Join (''/'' # es) = path_of ss \<and> (\<forall>s \<in> set ss. plain s)"
proof -
  have "path_Join (''/'' # es) = path_Clean (slash # join_slash ('''' # es))"
    by (cases es) (simp_all add: path_Join_def slash_def)
  also have "\<dots> = path_of (clean_segments True (parts (join_slash ('''' # es))) [])" by (rule path_Clean_rooted)
  finally have "path_Join (''/'' # es) = path_of (clean_segments True (parts (join_slash ('''' # es))) [])" .
  moreover have "\<forall>s \<in> set (clean_segments True (parts (join_slash ('''' # es))) []). plain s"
    using clean_rooted_plain [of "parts (join_slash ('''' # es))" "[]"] Split_no_sep by fastforce
  ultimately show ?thesis by blast
qed

lemma path_Join_segments:
  assumes "\<forall>s \<in> set es. s = '''' \<or> plain s"
  shows "path_Join es = join_slash (filter (\<lambda>s. s \<noteq> '''') es)"
proof (cases "\<forall>e \<in> set es. e = ''''")
  case True
  then have "filter (\<lambda>s. s \<noteq> '''') es = []" by simp
  then show ?thesis using True by (simp add: path_Join_def)
next
  case False
  let ?es = "dropWhile (\<lambda>e. e = '''') es"
  have parts: "concat (map parts xs) = filter (\<lambda>s. s \<noteq> '''') xs" if "\<forall>s \<in> set xs. s = '''' \<or> plain s" for xs
    using that by (induction xs) (auto simp: parts_plain)
  have es: "\<forall>s \<in> set ?es. s = '''' \<or> plain s" using assms set_dropWhileD by fastforce
  obtain e rest where e: "?es = e # rest" "e \<noteq> ''''"
    using False by (metis (mono_tags, lifting) dropWhile_eq_Nil_conv hd_dropWhile list.collapse)
  then have "plain e" using es by auto
  then have head: "case join_slash ?es of [] \<Rightarrow> True | c # _ \<Rightarrow> c \<noteq> slash" "join_slash ?es \<noteq> ''''"
    using e by (cases e; cases rest; auto simp: plain_def)+
  have same: "filter (\<lambda>s. s \<noteq> '''') ?es = filter (\<lambda>s. s \<noteq> '''') es" by (induction es) auto
  have "path_Join es = path_Clean (join_slash ?es)" unfolding path_Join_def by (rule if_not_P [OF False])
  also have "\<dots> = join_slash (parts (join_slash ?es))"
    by (rule path_Clean_relative [OF _ head(2,1)]) (use parts [OF es] assms same in auto)
  finally show ?thesis using parts [OF es] same by simp
qed

end
