(* ===== verification/MutationCache.thy ===== *)
theory MutationCache
  imports GoStrings
begin

text \<open>
  \<open>tools/cache/mutation_cache.go\<close>: a cache of the results of the client's own writes on top of a store that lags behind. Reading returns the
  newer of the two.

  The \<open>LRUExpireCache\<close> of apimachinery is an argument: entries can disappear from it at any time, because they expire or are evicted; \<open>expire_right\<close> says
  that nothing else happens. \<open>meta.Accessor\<close> is an argument as well.
\<close>

section \<open>Versions\<close>

text \<open>\<open>rv\<close> is \<open>meta.Accessor\<close> and \<open>GetResourceVersion\<close>; \<open>None\<close> is an error.\<close>

definition ObjectResourceVersion :: "('o \<Rightarrow> string option) \<Rightarrow> 'o \<Rightarrow> nat option" where
  "ObjectResourceVersion rv obj =
     (case rv obj of None \<Rightarrow> None | Some version \<Rightarrow> if length version = 0 then Some 0 else ParseUint version)"

text \<open>\<open>None\<close> is a panic.\<close>

definition CompareResourceVersion :: "('o \<Rightarrow> string option) \<Rightarrow> 'o \<Rightarrow> 'o \<Rightarrow> int option" where
  "CompareResourceVersion rv lhs rhs =
     (case ObjectResourceVersion rv lhs of
        None \<Rightarrow> None
      | Some lhsVersion \<Rightarrow>
          (case ObjectResourceVersion rv rhs of
             None \<Rightarrow> None
           | Some rhsVersion \<Rightarrow> Some (if lhsVersion = rhsVersion then 0 else if lhsVersion < rhsVersion then - 1 else 1)))"

section \<open>mutationCache\<close>

record ('c, 'v) expire_cache =
  xc_Get :: "'c \<Rightarrow> string \<Rightarrow> 'c \<times> 'v option"
  xc_Add :: "'c \<Rightarrow> string \<Rightarrow> 'v \<Rightarrow> int \<Rightarrow> 'c"
  xc_Remove :: "'c \<Rightarrow> string \<Rightarrow> 'c"
  xc_Keys :: "'c \<Rightarrow> string list"

text \<open>The store and the indexer are those of \<open>Store\<close>; they change on their own and are arguments of the operations.\<close>

record ('c, 'o) mutationCache =
  mc_cache :: 'c
  mc_ops :: "('c, 'o obj) expire_cache"
  mc_includeAdds :: bool
  mc_ttl :: int

definition NewIntegerResourceVersionMutationCache :: "'c \<Rightarrow> ('c, 'o obj) expire_cache \<Rightarrow> int \<Rightarrow> bool \<Rightarrow> ('c, 'o) mutationCache" where
  "NewIntegerResourceVersionMutationCache new ops ttl includeAdds =
     \<lparr>mc_cache = new, mc_ops = ops, mc_includeAdds = includeAdds, mc_ttl = ttl\<rparr>"

definition as_object :: "'o obj \<Rightarrow> 'o option" where
  "as_object obj = (case obj of Some (Object x) \<Rightarrow> Some x | _ \<Rightarrow> None)"

definition mc_get :: "string \<Rightarrow> ('c, 'o) mutationCache \<Rightarrow> ('c, 'o) mutationCache \<times> 'o obj option" where
  "mc_get key c = (let (x, r) = xc_Get (mc_ops c) (mc_cache c) key in (c\<lparr>mc_cache := x\<rparr>, r))"

definition mc_remove :: "string \<Rightarrow> ('c, 'o) mutationCache \<Rightarrow> ('c, 'o) mutationCache" where
  "mc_remove key c = c\<lparr>mc_cache := xc_Remove (mc_ops c) (mc_cache c) key\<rparr>"

definition newerObject ::
  "('o \<Rightarrow> string option) \<Rightarrow> string \<Rightarrow> 'o \<Rightarrow> ('c, 'o) mutationCache \<Rightarrow> (('c, 'o) mutationCache \<times> 'o) option"
where
  "newerObject rv key backing c =
     (case mc_get key c of
        (c, None) \<Rightarrow> Some (c, backing)
      | (c, Some mutatedObj) \<Rightarrow>
          (case as_object mutatedObj of
             None \<Rightarrow> Some (c, backing)
           | Some mutated \<Rightarrow>
               (case CompareResourceVersion rv backing mutated of
                  None \<Rightarrow> None
                | Some r \<Rightarrow> if r \<ge> 0 then Some (mc_remove key c, backing) else Some (c, mutated))))"

text \<open>\<open>GetByKey\<close>: the object, if it exists; the outer \<open>None\<close> is a panic.\<close>

definition mc_GetByKey ::
  "('o \<Rightarrow> string option) \<Rightarrow> 'o goval cache \<Rightarrow> string \<Rightarrow> ('c, 'o) mutationCache \<Rightarrow> (('c, 'o) mutationCache \<times> 'o obj option) option"
where
  "mc_GetByKey rv backingCache key c =
     (let (obj, exists) = cache_GetByKey backingCache key;
          (c, found) = (if exists then (c, Some obj) else if \<not> mc_includeAdds c then (c, None) else mc_get key c)
      in case found of
           None \<Rightarrow> Some (c, None)
         | Some obj \<Rightarrow>
             (case as_object obj of
                None \<Rightarrow> Some (c, Some obj)
              | Some objRuntime \<Rightarrow> map_option (\<lambda>(c, x). (c, Some (Some (Object x)))) (newerObject rv key objRuntime c)))"

definition mc_Mutation ::
  "('o \<Rightarrow> string option) \<Rightarrow> 'o accessor \<Rightarrow> 'o obj \<Rightarrow> ('c, 'o) mutationCache \<Rightarrow> ('c, 'o) mutationCache option"
where
  "mc_Mutation rv accessor obj c =
     (case DeletionHandlingMetaNamespaceKeyFunc accessor obj of
        Inl err \<Rightarrow> Some c
      | Inr key \<Rightarrow>
          let add = (\<lambda>c. c\<lparr>mc_cache := xc_Add (mc_ops c) (mc_cache c) key obj (mc_ttl c)\<rparr>)
          in case as_object obj of
               None \<Rightarrow> Some (add c)
             | Some objRuntime \<Rightarrow>
                 (case mc_get key c of
                    (c, None) \<Rightarrow> Some (add c)
                  | (c, Some mutatedObj) \<Rightarrow>
                      (case as_object mutatedObj of
                         None \<Rightarrow> Some (add c)
                       | Some mutated \<Rightarrow>
                           (case CompareResourceVersion rv objRuntime mutated of
                              None \<Rightarrow> None
                            | Some r \<Rightarrow> if r < 0 then Some c else Some (add c)))))"

text \<open>The two loops of \<open>ByIndex\<close>.\<close>

fun index_items ::
  "('o \<Rightarrow> string option) \<Rightarrow> 'o goval cache \<Rightarrow> string list \<Rightarrow> ('c, 'o) mutationCache \<Rightarrow> (('c, 'o) mutationCache \<times> 'o obj list) option"
where
  "index_items rv indexer [] c = Some (c, [])"
| "index_items rv indexer (key # keys) c =
     (case cache_GetByKey indexer key of
        (_, False) \<Rightarrow> index_items rv indexer keys c
      | (obj, True) \<Rightarrow>
          (case (case as_object obj of
                   None \<Rightarrow> Some (c, obj)
                 | Some x \<Rightarrow> map_option (\<lambda>(c, y). (c, Some (Object y))) (newerObject rv key x c)) of
             None \<Rightarrow> None
           | Some (c, item) \<Rightarrow> map_option (\<lambda>(c, items). (c, item # items)) (index_items rv indexer keys c)))"

fun added_items ::
  "'o goval index_func \<Rightarrow> string \<Rightarrow> string set \<Rightarrow> string list \<Rightarrow> ('c, 'o) mutationCache \<Rightarrow> ('c, 'o) mutationCache \<times> 'o obj list"
where
  "added_items fn indexKey keySet [] c = (c, [])"
| "added_items fn indexKey keySet (key # keys) c =
     (case mc_get key c of
        (c, None) \<Rightarrow> added_items fn indexKey keySet keys c
      | (c, Some updated) \<Rightarrow>
          (if key \<in> keySet then added_items fn indexKey keySet keys c
           else case fn updated of
                  Inl err \<Rightarrow> added_items fn indexKey keySet keys c
                | Inr elements \<Rightarrow>
                    (let (c, items) = added_items fn indexKey keySet keys c
                     in (c, if indexKey \<in> set elements then updated # items else items))))"

text \<open>The inner \<open>Inl\<close> is an error, \<open>None\<close> a panic; a call of a nil index function panics, too.\<close>

definition mc_ByIndex ::
  "('o \<Rightarrow> string option) \<Rightarrow> 'o goval cache option \<Rightarrow> string \<Rightarrow> string \<Rightarrow> ('c, 'o) mutationCache
     \<Rightarrow> (('c, 'o) mutationCache \<times> ('o goval, 'o obj list) res) option"
where
  "mc_ByIndex rv indexer name indexKey c =
     (case indexer of
        None \<Rightarrow> Some (c, Inl (Errorf ''no indexer has been provided to the mutation cache''))
      | Some indexer \<Rightarrow>
          (case cache_IndexKeys indexer name indexKey of
             Inl err \<Rightarrow> Some (c, Inl err)
           | Inr keys \<Rightarrow>
               (case index_items rv indexer keys c of
                  None \<Rightarrow> None
                | Some (c, items) \<Rightarrow>
                    if mc_includeAdds c
                    then (case cache_GetIndexers indexer name of
                            None \<Rightarrow> None
                          | Some fn \<Rightarrow>
                              (let (c, added) = added_items fn indexKey (set keys) (xc_Keys (mc_ops c) (mc_cache c)) c
                               in Some (c, Inr (items @ added))))
                    else Some (c, Inr items))))"

section \<open>What the cache of mutations promises\<close>

definition expire_right :: "('c, 'v) expire_cache \<Rightarrow> ('c \<Rightarrow> string \<Rightarrow> 'v option) \<Rightarrow> bool" where
  "expire_right ops lookup \<longleftrightarrow>
     (\<forall>c k. (snd (xc_Get ops c k) = lookup c k \<or> snd (xc_Get ops c k) = None) \<and> lookup (fst (xc_Get ops c k)) \<subseteq>\<^sub>m lookup c) \<and>
     (\<forall>c k v ttl. lookup (xc_Add ops c k v ttl) \<subseteq>\<^sub>m (lookup c)(k \<mapsto> v)) \<and>
     (\<forall>c k. lookup (xc_Remove ops c k) \<subseteq>\<^sub>m (lookup c)(k := None))"

text \<open>The entries are objects that were given to \<open>Mutation\<close>, under their keys.\<close>

definition entries_from :: "('c \<Rightarrow> string \<Rightarrow> 'o obj option) \<Rightarrow> (string \<times> 'o obj) set \<Rightarrow> ('c, 'o) mutationCache \<Rightarrow> bool" where
  "entries_from lookup history c \<longleftrightarrow> expire_right (mc_ops c) lookup \<and> (\<forall>k obj. lookup (mc_cache c) k = Some obj \<longrightarrow> (k, obj) \<in> history)"

lemma entries_mono: "entries_from lookup history c \<Longrightarrow> history \<subseteq> history' \<Longrightarrow> entries_from lookup history' c"
  by (auto simp: entries_from_def)

lemma entries_le:
  assumes "entries_from lookup history c" and "lookup x \<subseteq>\<^sub>m lookup (mc_cache c)"
  shows "entries_from lookup history (c\<lparr>mc_cache := x\<rparr>)"
  using assms unfolding entries_from_def map_le_def by (simp add: dom_def)

lemma mc_get_entries:
  assumes "entries_from lookup history c" and "mc_get key c = (c', r)"
  shows "entries_from lookup history c'" and "r = Some obj \<Longrightarrow> (key, obj) \<in> history" and "r = Some obj \<Longrightarrow> lookup (mc_cache c) key = Some obj"
    and "mc_ops c' = mc_ops c"
proof -
  obtain x where x: "xc_Get (mc_ops c) (mc_cache c) key = (x, r)" "c' = c\<lparr>mc_cache := x\<rparr>"
    using assms(2) by (auto simp: mc_get_def split: prod.splits)
  have right: "expire_right (mc_ops c) lookup" using assms(1) by (simp add: entries_from_def)
  then have "lookup x \<subseteq>\<^sub>m lookup (mc_cache c)" and r: "r = lookup (mc_cache c) key \<or> r = None"
    using x(1) unfolding expire_right_def by (metis fst_conv, metis snd_conv)
  then show "entries_from lookup history c'" using entries_le [OF assms(1)] x(2) by blast
  show "r = Some obj \<Longrightarrow> (key, obj) \<in> history" and "r = Some obj \<Longrightarrow> lookup (mc_cache c) key = Some obj"
    using r assms(1) by (auto simp: entries_from_def)
  show "mc_ops c' = mc_ops c" by (simp add: x(2))
qed

lemma mc_remove_entries: "entries_from lookup history c \<Longrightarrow> entries_from lookup history (mc_remove key c)"
proof -
  assume e: "entries_from lookup history c"
  then have "lookup (xc_Remove (mc_ops c) (mc_cache c) key) \<subseteq>\<^sub>m (lookup (mc_cache c))(key := None)"
    unfolding entries_from_def expire_right_def by blast
  then have "lookup (xc_Remove (mc_ops c) (mc_cache c) key) \<subseteq>\<^sub>m lookup (mc_cache c)"
    by (rule map_le_trans) (rule upd_None_map_le)
  then show ?thesis unfolding mc_remove_def by (rule entries_le [OF e])
qed

lemma CompareResourceVersion_sign:
  "CompareResourceVersion rv a b = Some r \<Longrightarrow>
     \<exists>v w. ObjectResourceVersion rv a = Some v \<and> ObjectResourceVersion rv b = Some w \<and> (r < 0 \<longleftrightarrow> v < w)"
  by (auto simp: CompareResourceVersion_def split: option.splits if_splits)

text \<open>An object is newer than another when both versions can be read and its version is greater.\<close>

definition newer :: "('o \<Rightarrow> string option) \<Rightarrow> 'o \<Rightarrow> 'o \<Rightarrow> bool" where
  "newer rv x y \<longleftrightarrow> (\<exists>v w. ObjectResourceVersion rv x = Some v \<and> ObjectResourceVersion rv y = Some w \<and> w < v)"

lemma newerObject_right:
  assumes e: "entries_from lookup history c" and run: "newerObject rv key backing c = Some (c', x)"
  shows "entries_from lookup history c' \<and> (x = backing \<or> (key, Some (Object x)) \<in> history \<and> newer rv x backing) \<and>
    (\<forall>m. snd (mc_get key c) = Some (Some (Object m)) \<and> newer rv m backing \<longrightarrow> x = m)"
proof -
  obtain c1 r where get: "mc_get key c = (c1, r)" by force
  note g = mc_get_entries [OF e get]
  have obj: "as_object y = None" if "\<forall>z. y \<noteq> Some (Object z)" for y :: "'b obj"
    using that by (auto simp: as_object_def split: option.splits goval.splits)
  show ?thesis
  proof (cases "\<exists>m. r = Some (Some (Object m))")
    case False
    then have "x = backing \<and> c' = c1" using run get obj by (cases r) (auto simp: newerObject_def)
    then show ?thesis using g(1) get False by auto
  next
    case True
    then obtain m where m: "r = Some (Some (Object m))" by blast
    then obtain s where s: "CompareResourceVersion rv backing m = Some s" and res: "(c', x) = (if s \<ge> 0 then (mc_remove key c1, backing) else (c1, m))"
      using run get by (auto simp: newerObject_def as_object_def split: option.splits if_splits)
    have "s < 0 \<longleftrightarrow> newer rv m backing" using CompareResourceVersion_sign [OF s] by (auto simp: newer_def)
    then show ?thesis using res g(1) g(2) [OF m] get m mc_remove_entries [OF g(1)] by (auto split: if_splits)
  qed
qed

section \<open>Runs\<close>

text \<open>Any sequence of calls that do not panic; the stores may be different in every call.\<close>

inductive mc_reach ::
  "('o \<Rightarrow> string option) \<Rightarrow> 'o accessor \<Rightarrow> ('c, 'o) mutationCache \<Rightarrow> (string \<times> 'o obj) set \<Rightarrow> ('c, 'o) mutationCache \<Rightarrow> bool"
  for rv accessor c0
where
  mc_start: "mc_reach rv accessor c0 {} c0"
| mc_mutate: "mc_reach rv accessor c0 history c \<Longrightarrow> DeletionHandlingMetaNamespaceKeyFunc accessor obj = Inr key \<Longrightarrow>
    mc_Mutation rv accessor obj c = Some c' \<Longrightarrow> mc_reach rv accessor c0 (insert (key, obj) history) c'"
| mc_read: "mc_reach rv accessor c0 history c \<Longrightarrow> mc_GetByKey rv store key c = Some (c', r) \<Longrightarrow> mc_reach rv accessor c0 history c'"
| mc_read_index: "mc_reach rv accessor c0 history c \<Longrightarrow> mc_ByIndex rv indexer name indexKey c = Some (c', r) \<Longrightarrow> mc_reach rv accessor c0 history c'"

lemma mc_Mutation_entries:
  assumes e: "entries_from lookup history c" and key: "DeletionHandlingMetaNamespaceKeyFunc accessor obj = Inr key"
    and run: "mc_Mutation rv accessor obj c = Some c'"
  shows "entries_from lookup (insert (key, obj) history) c'"
proof -
  obtain c1 r where get: "mc_get key c = (c1, r)" by force
  have e1: "entries_from lookup history c1" by (rule mc_get_entries(1) [OF e get])
  have add: "entries_from lookup (insert (key, obj) history) (d\<lparr>mc_cache := xc_Add (mc_ops d) (mc_cache d) key obj (mc_ttl d)\<rparr>)"
    if "entries_from lookup history d" for d
  proof -
    have "lookup (xc_Add (mc_ops d) (mc_cache d) key obj (mc_ttl d)) \<subseteq>\<^sub>m (lookup (mc_cache d))(key \<mapsto> obj)"
      using that unfolding entries_from_def expire_right_def by blast
    then show ?thesis using that unfolding entries_from_def map_le_def by (auto simp: dom_def) (metis fun_upd_def option.inject)+
  qed
  have "c' = c1 \<or> (\<exists>d \<in> {c, c1}. c' = d\<lparr>mc_cache := xc_Add (mc_ops d) (mc_cache d) key obj (mc_ttl d)\<rparr>)"
    using run get key by (auto simp: mc_Mutation_def Let_def split: option.splits if_splits)
  then show ?thesis using add [OF e] add [OF e1] entries_mono [OF e1] by blast
qed

lemma index_items_entries:
  "entries_from lookup history c \<Longrightarrow> index_items rv indexer keys c = Some (c', items) \<Longrightarrow> entries_from lookup history c'"
proof (induction keys arbitrary: c items)
  case (Cons key keys)
  obtain obj exists where get: "cache_GetByKey indexer key = (obj, exists)" by force
  show ?case
  proof (cases exists)
    case False
    then show ?thesis using Cons get by simp
  next
    case True
    then obtain c1 item rest where step: "(case as_object obj of None \<Rightarrow> Some (c, obj)
          | Some x \<Rightarrow> map_option (\<lambda>(c, y). (c, Some (Object y))) (newerObject rv key x c)) = Some (c1, item)"
      and rest: "index_items rv indexer keys c1 = Some (c', rest)"
      using Cons.prems(2) get by (auto split: option.splits)
    have "entries_from lookup history c1"
      using step Cons.prems(1) newerObject_right [OF Cons.prems(1)] by (fastforce split: option.splits)
    then show ?thesis using Cons.IH rest by blast
  qed
qed simp

lemma added_items_entries:
  "entries_from lookup history c \<Longrightarrow> entries_from lookup history (fst (added_items fn indexKey keySet keys c))"
proof (induction keys arbitrary: c)
  case (Cons key keys)
  obtain c1 r where get: "mc_get key c = (c1, r)" by force
  have "entries_from lookup history c1" by (rule mc_get_entries(1) [OF Cons.prems get])
  then show ?case using Cons.IH [of c1] get by (auto simp: case_prod_beta Let_def split: option.splits sum.splits)
qed simp

lemma mc_ByIndex_entries:
  assumes "entries_from lookup history c" and "mc_ByIndex rv indexer name indexKey c = Some (c', r)"
  shows "entries_from lookup history c'"
proof (cases "c' = c")
  case False
  then obtain ix keys c1 items where items: "index_items rv ix keys c = Some (c1, items)"
    and c': "c' = c1 \<or> (\<exists>fn ks. c' = fst (added_items fn indexKey (set keys) ks c1))"
    using assms(2) unfolding mc_ByIndex_def
    by (auto simp: case_prod_beta split: option.splits sum.splits if_splits) (metis fst_conv)
  have "entries_from lookup history c1" by (rule index_items_entries [OF assms(1) items])
  then show ?thesis using c' added_items_entries by blast
qed (use assms(1) in simp)

lemma mc_GetByKey_entries:
  assumes e: "entries_from lookup history c" and run: "mc_GetByKey rv store key c = Some (c', r)"
  shows "entries_from lookup history c'"
proof -
  obtain obj exists where get: "cache_GetByKey store key = (obj, exists)" by force
  obtain c1 found where c1: "(if exists then (c, Some obj) else if \<not> mc_includeAdds c then (c, None) else mc_get key c) = (c1, found)" by force
  have e1: "entries_from lookup history c1" using c1 e mc_get_entries(1) [OF e] by (auto split: if_splits)
  have "c' = c1 \<or> (\<exists>x y. newerObject rv key x c1 = Some (c', y))"
    using run by (auto simp: mc_GetByKey_def get c1 split: option.splits)
  then show ?thesis using e1 newerObject_right [OF e1] by blast
qed

lemma mc_reach_entries:
  assumes "mc_reach rv accessor c0 history c" and "expire_right (mc_ops c0) lookup" and "\<forall>k. lookup (mc_cache c0) k = None"
  shows "entries_from lookup history c"
  using assms(1)
proof (induction rule: mc_reach.induct)
  case mc_start
  then show ?case using assms(2,3) by (simp add: entries_from_def)
next
  case (mc_mutate history c obj key c')
  then show ?case using mc_Mutation_entries by blast
next
  case (mc_read history c store key c' r)
  then show ?case using mc_GetByKey_entries by blast
next
  case (mc_read_index history c indexer name indexKey c' r)
  show ?case by (rule mc_ByIndex_entries [OF mc_read_index.IH mc_read_index.hyps(2)])
qed

text \<open>
  What a read may return for a key under which a store has an object: that object, or a newer one that was given to \<open>Mutation\<close> under
  that key.
\<close>

definition read_of :: "('o \<Rightarrow> string option) \<Rightarrow> (string \<times> 'o obj) set \<Rightarrow> string \<Rightarrow> 'o obj \<Rightarrow> 'o obj \<Rightarrow> bool" where
  "read_of rv history key obj item \<longleftrightarrow>
     item = obj \<or> (\<exists>x y. obj = Some (Object x) \<and> item = Some (Object y) \<and> (key, item) \<in> history \<and> newer rv y x)"

text \<open>A call during which nothing expires and nothing is evicted.\<close>

definition nothing_expires :: "('c, 'v) expire_cache \<Rightarrow> ('c \<Rightarrow> string \<Rightarrow> 'v option) \<Rightarrow> bool" where
  "nothing_expires ops lookup \<longleftrightarrow>
     (\<forall>c k. xc_Get ops c k = (c, lookup c k)) \<and> (\<forall>c k. lookup (xc_Remove ops c k) = (lookup c)(k := None)) \<and>
     (\<forall>c. set (xc_Keys ops c) = dom (lookup c))"

lemma as_object_Some [simp]: "as_object obj = Some x \<longleftrightarrow> obj = Some (Object x)"
  by (auto simp: as_object_def split: option.splits goval.splits)

lemma as_object_Object [simp]: "as_object (Some (Object x)) = Some x"
  by simp

lemma cache_GetByKey_content:
  "cache_GetByKey store key = (case cache_content store key of None \<Rightarrow> (None, False) | Some obj \<Rightarrow> (obj, True))"
  by (simp add: cache_GetByKey_def tsm_Get_def cache_content_def map_get_def split: option.split)

lemma newerObject_same:
  assumes e: "entries_from lookup history c" and get: "mc_get key c = (c1, Some (Some (Object x)))"
    and run: "newerObject rv key x c1 = Some (c', y)"
  shows "y = x"
proof (rule ccontr)
  assume "y \<noteq> x"
  then obtain c2 where get2: "mc_get key c1 = (c2, Some (Some (Object y)))"
    using run by (auto simp: newerObject_def split: option.splits prod.splits if_splits)
  have e1: "entries_from lookup history c1" by (rule mc_get_entries(1) [OF e get])
  obtain v where "xc_Get (mc_ops c) (mc_cache c) key = (mc_cache c1, v)"
    using get by (auto simp: mc_get_def split: prod.splits)
  then have "lookup (mc_cache c1) \<subseteq>\<^sub>m lookup (mc_cache c)"
    using e unfolding entries_from_def expire_right_def by (metis fst_conv)
  then have "Some (Object y) = Some (Object x)"
    using mc_get_entries(3) [OF e get refl] mc_get_entries(3) [OF e1 get2 refl] by (auto simp: map_le_def dom_def)
  then show False using \<open>y \<noteq> x\<close> by simp
qed

lemma mc_GetByKey_right:
  assumes e: "entries_from lookup history c" and run: "mc_GetByKey rv store key c = Some (c', r)"
  shows "case cache_content store key of
      None \<Rightarrow> r = (if mc_includeAdds c then snd (mc_get key c) else None) \<and> (\<forall>item. r = Some item \<longrightarrow> (key, item) \<in> history)
    | Some obj \<Rightarrow> \<exists>item. r = Some item \<and> read_of rv history key obj item \<and>
        (\<forall>x m. obj = Some (Object x) \<and> snd (mc_get key c) = Some (Some (Object m)) \<and> newer rv m x \<longrightarrow> item = Some (Object m))"
proof (cases "cache_content store key")
  case None
  obtain c1 found where get: "mc_get key c = (c1, found)" by force
  have hist: "(key, item) \<in> history" if "found = Some item" for item by (rule mc_get_entries(2) [OF e get that])
  have "r = found" if "mc_includeAdds c"
  proof (cases found)
    case (Some obj)
    show ?thesis
    proof (cases "as_object obj")
      case (Some x)
      then show ?thesis using newerObject_same [OF e] get \<open>found = Some obj\<close> run that
        by (auto simp: mc_GetByKey_def cache_GetByKey_content None)
    qed (use run that get \<open>found = Some obj\<close> in \<open>auto simp: mc_GetByKey_def cache_GetByKey_content None\<close>)
  qed (use run that get in \<open>auto simp: mc_GetByKey_def cache_GetByKey_content None\<close>)
  then show ?thesis using run hist get by (auto simp: mc_GetByKey_def cache_GetByKey_content None)
next
  case (Some obj)
  show ?thesis
  proof (cases "as_object obj")
    case None
    then have "r = Some obj" using run by (auto simp: mc_GetByKey_def cache_GetByKey_content Some)
    then show ?thesis using Some None by (auto simp: read_of_def)
  next
    case obj: (Some x)
    then obtain y where "newerObject rv key x c = Some (c', y)" "r = Some (Some (Object y))"
      using run Some by (auto simp: mc_GetByKey_def cache_GetByKey_content)
    then show ?thesis using newerObject_right [OF e] Some obj by (auto simp: read_of_def)
  qed
qed

lemma newerObject_ops: "newerObject rv key x c = Some (c', y) \<Longrightarrow> mc_ops c' = mc_ops c \<and> mc_includeAdds c' = mc_includeAdds c"
  by (auto simp: newerObject_def mc_get_def mc_remove_def split: prod.splits option.splits if_splits)

text \<open>What the first loop of \<open>ByIndex\<close> collects, and what it leaves of the other entries when nothing expires.\<close>

lemma index_items_right:
  assumes "entries_from lookup history c" and "index_items rv indexer keys c = Some (c', items)"
  shows "list_all2 (\<lambda>key item. \<exists>obj. cache_content indexer key = Some obj \<and> read_of rv history key obj item)
      (filter (\<lambda>key. cache_content indexer key \<noteq> None) keys) items \<and>
    mc_ops c' = mc_ops c \<and> mc_includeAdds c' = mc_includeAdds c \<and>
    (nothing_expires (mc_ops c) lookup \<longrightarrow> (\<forall>k. k \<notin> set keys \<longrightarrow> lookup (mc_cache c') k = lookup (mc_cache c) k))"
  using assms
proof (induction keys arbitrary: c items)
  case (Cons key keys)
  show ?case
  proof (cases "cache_content indexer key")
    case None
    then show ?thesis using Cons by (auto simp: cache_GetByKey_content)
  next
    case (Some obj)
    then obtain c1 item rest where step: "(case as_object obj of None \<Rightarrow> Some (c, obj)
          | Some x \<Rightarrow> map_option (\<lambda>(c, y). (c, Some (Object y))) (newerObject rv key x c)) = Some (c1, item)"
      and rest: "index_items rv indexer keys c1 = Some (c', rest)" and items: "items = item # rest"
      using Cons.prems(2) by (auto simp: cache_GetByKey_content split: option.splits)
    have "entries_from lookup history c1 \<and> read_of rv history key obj item \<and> mc_ops c1 = mc_ops c \<and> mc_includeAdds c1 = mc_includeAdds c \<and>
      (nothing_expires (mc_ops c) lookup \<longrightarrow> (\<forall>k. k \<noteq> key \<longrightarrow> lookup (mc_cache c1) k = lookup (mc_cache c) k))"
    proof (cases "as_object obj")
      case obj: (Some x)
      then obtain y where y: "newerObject rv key x c = Some (c1, y)" "item = Some (Object y)" using step by auto
      have "lookup (mc_cache c1) k = lookup (mc_cache c) k" if "nothing_expires (mc_ops c) lookup" "k \<noteq> key" for k
        using y(1) that by (auto simp: newerObject_def mc_get_def mc_remove_def nothing_expires_def split: option.splits if_splits)
      then show ?thesis using newerObject_right [OF Cons.prems(1) y(1)] newerObject_ops [OF y(1)] y(2) obj by (auto simp: read_of_def)
    qed (use step Cons.prems(1) in \<open>auto simp: read_of_def\<close>)
    then show ?thesis using Cons.IH [OF _ rest] Some items by auto
  qed
qed simp

text \<open>What the second loop adds.\<close>

lemma added_items_right:
  assumes "entries_from lookup history c" and "added_items fn indexKey keySet keys c = (c', items)" and "item \<in> set items"
  shows "\<exists>key elements. key \<notin> keySet \<and> (key, item) \<in> history \<and> fn item = Inr elements \<and> indexKey \<in> set elements"
  using assms
proof (induction keys arbitrary: c c' items)
  case (Cons key keys)
  obtain c1 r where get: "mc_get key c = (c1, r)" by force
  have e1: "entries_from lookup history c1" and r: "\<And>x. r = Some x \<Longrightarrow> (key, x) \<in> history"
    using mc_get_entries(1,2) [OF Cons.prems(1) get] by blast+
  obtain c2 rest where rest: "added_items fn indexKey keySet keys c1 = (c2, rest)" by force
  have "item \<in> set rest \<or> key \<notin> keySet \<and> (key, item) \<in> history \<and> (\<exists>elements. fn item = Inr elements \<and> indexKey \<in> set elements)"
    using Cons.prems(2,3) r by (auto simp: get rest split: option.splits sum.splits if_splits)
  then show ?case using Cons.IH [OF e1 rest] by blast
qed simp

lemma added_items_all:
  assumes "nothing_expires (mc_ops c) lookup"
  shows "key \<in> set keys \<Longrightarrow> key \<notin> keySet \<Longrightarrow> lookup (mc_cache c) key = Some item \<Longrightarrow> fn item = Inr elements \<Longrightarrow>
    indexKey \<in> set elements \<Longrightarrow> item \<in> set (snd (added_items fn indexKey keySet keys c))"
proof (induction keys)
  case (Cons k keys)
  have "mc_get k c = (c, lookup (mc_cache c) k)" for k using assms by (simp add: nothing_expires_def mc_get_def)
  then show ?case using Cons by (auto simp: case_prod_beta Let_def split: option.splits sum.splits)
qed simp

lemma mc_ByIndex_right:
  assumes e: "entries_from lookup history c" and run: "mc_ByIndex rv (Some indexer) name indexKey c = Some (c', Inr items)"
  shows "\<exists>keys front back. cache_IndexKeys indexer name indexKey = Inr keys \<and> items = front @ back \<and>
    list_all2 (\<lambda>key item. \<exists>obj. cache_content indexer key = Some obj \<and> read_of rv history key obj item)
      (filter (\<lambda>key. cache_content indexer key \<noteq> None) keys) front \<and>
    (\<not> mc_includeAdds c \<longrightarrow> back = []) \<and>
    (\<forall>item \<in> set back. \<exists>key fn elements. key \<notin> set keys \<and> (key, item) \<in> history \<and>
      cache_GetIndexers indexer name = Some fn \<and> fn item = Inr elements \<and> indexKey \<in> set elements) \<and>
    (mc_includeAdds c \<and> nothing_expires (mc_ops c) lookup \<longrightarrow>
      (\<forall>key item fn elements. key \<notin> set keys \<and> lookup (mc_cache c) key = Some item \<and>
        cache_GetIndexers indexer name = Some fn \<and> fn item = Inr elements \<and> indexKey \<in> set elements \<longrightarrow> item \<in> set back))"
proof -
  obtain keys c1 front where keys: "cache_IndexKeys indexer name indexKey = Inr keys"
    and front: "index_items rv indexer keys c = Some (c1, front)"
    using run unfolding mc_ByIndex_def by (auto split: option.splits sum.splits)
  note f = index_items_right [OF e front]
  show ?thesis
  proof (cases "mc_includeAdds c")
    case False
    then show ?thesis using run keys front f by (intro exI [of _ keys] exI [of _ front] exI [of _ "[]"]) (auto simp: mc_ByIndex_def)
  next
    case True
    then obtain fn added c2 where fn: "cache_GetIndexers indexer name = Some fn" and items: "items = front @ added"
      and added: "added_items fn indexKey (set keys) (xc_Keys (mc_ops c1) (mc_cache c1)) c1 = (c2, added)"
      using run keys front f by (auto simp: mc_ByIndex_def split: option.splits prod.splits)
    have all: "item \<in> set added" if n: "nothing_expires (mc_ops c) lookup" and k: "key \<notin> set keys" "lookup (mc_cache c) key = Some item"
        and "fn item = Inr elements" "indexKey \<in> set elements" for key item elements
    proof -
      have "lookup (mc_cache c1) key = Some item" "nothing_expires (mc_ops c1) lookup" using f n k by auto
      moreover from this have "key \<in> set (xc_Keys (mc_ops c1) (mc_cache c1))" by (auto simp: nothing_expires_def)
      ultimately show ?thesis using added_items_all [of c1 lookup key] that added by (metis snd_conv)
    qed
    show ?thesis
      using keys items f fn all added_items_right [OF index_items_entries [OF e front] added] True
      by (intro exI [of _ keys] exI [of _ front] exI [of _ added]) auto
  qed
qed

text \<open>
  C14 Reading through the mutation cache, whatever expires or is evicted and in whatever order reads and writes come.
  \<open>GetByKey\<close> of a key that the store has returns the store's object, or an object that was given to \<open>Mutation\<close> under that key and is newer
  than the store's; if the cache still has a newer one, that one is returned. \<open>GetByKey\<close> of a key that the store does not have finds nothing, or with
  \<open>includeAdds\<close> exactly what the mutation cache has under the key. \<open>ByIndex\<close> returns for each key of the index that the store has its object or a newer one that was
  given to \<open>Mutation\<close> under the key, and after these, with \<open>includeAdds\<close> only, objects given to \<open>Mutation\<close> under keys that the index does
  not list and with the index value asked for, all of them if nothing expires during the call. Nothing is said about the age of those last ones: see \<open>included_index_stale\<close>.
\<close>
theorem mutation_cache_newest:
  assumes "mc_reach rv accessor c0 history c" and "expire_right (mc_ops c0) lookup" and "\<forall>k. lookup (mc_cache c0) k = None"
  shows "(mc_GetByKey rv store key c = Some (c', r) \<longrightarrow>
     (case cache_content store key of
        None \<Rightarrow> r = (if mc_includeAdds c then snd (mc_get key c) else None) \<and> (\<forall>item. r = Some item \<longrightarrow> (key, item) \<in> history)
      | Some obj \<Rightarrow> \<exists>item. r = Some item \<and> read_of rv history key obj item \<and>
          (\<forall>x m. obj = Some (Object x) \<and> snd (mc_get key c) = Some (Some (Object m)) \<and> newer rv m x \<longrightarrow> item = Some (Object m)))) \<and>
   (mc_ByIndex rv (Some indexer) name indexKey c = Some (c'', Inr items) \<longrightarrow>
     (\<exists>keys front back. cache_IndexKeys indexer name indexKey = Inr keys \<and> items = front @ back \<and>
        list_all2 (\<lambda>key item. \<exists>obj. cache_content indexer key = Some obj \<and> read_of rv history key obj item)
          (filter (\<lambda>key. cache_content indexer key \<noteq> None) keys) front \<and>
        (\<not> mc_includeAdds c \<longrightarrow> back = []) \<and>
        (\<forall>item \<in> set back. \<exists>key fn elements. key \<notin> set keys \<and> (key, item) \<in> history \<and>
          cache_GetIndexers indexer name = Some fn \<and> fn item = Inr elements \<and> indexKey \<in> set elements) \<and>
        (mc_includeAdds c \<and> nothing_expires (mc_ops c) lookup \<longrightarrow>
          (\<forall>key item fn elements. key \<notin> set keys \<and> lookup (mc_cache c) key = Some item \<and>
            cache_GetIndexers indexer name = Some fn \<and> fn item = Inr elements \<and> indexKey \<in> set elements \<longrightarrow> item \<in> set back))))"
  using mc_GetByKey_right [OF mc_reach_entries [OF assms]] mc_ByIndex_right [OF mc_reach_entries [OF assms]] by (intro conjI impI)

text \<open>
  A created object that the store does not have yet is returned only once: \<open>GetByKey\<close> takes it from the mutation cache and hands it to \<open>newerObject\<close>, which finds
  the same object there, takes the entry for outdated and removes it.
\<close>

lemma included_add_forgotten:
  assumes right: "expire_right (mc_ops c) lookup" and adds: "mc_includeAdds c" and absent: "cache_content store key = None"
    and get: "xc_Get (mc_ops c) (mc_cache c) key = (mc_cache c, Some (Some (Object x)))"
    and entry: "lookup (mc_cache c) key = Some (Some (Object x))" and ver: "ObjectResourceVersion rv x = Some v"
  shows "\<exists>d d'. mc_GetByKey rv store key c = Some (d, Some (Some (Object x))) \<and> mc_GetByKey rv store key d = Some (d', None)"
proof -
  let ?d = "mc_remove key c"
  have "mc_get key c = (c, Some (Some (Object x)))" using get entry by (simp add: mc_get_def)
  then have "mc_GetByKey rv store key c = Some (?d, Some (Some (Object x)))"
    using adds absent ver by (simp add: mc_GetByKey_def cache_GetByKey_def tsm_Get_def cache_content_def as_object_def newerObject_def CompareResourceVersion_def)
  moreover have "lookup (mc_cache ?d) key = None"
  proof -
    have "lookup (mc_cache ?d) \<subseteq>\<^sub>m (lookup (mc_cache c))(key := None)" using right by (simp add: mc_remove_def expire_right_def)
    then show ?thesis by (auto simp: map_le_def dom_def)
  qed
  then have "snd (mc_get key ?d) = None"
    using right unfolding expire_right_def by (simp add: mc_get_def mc_remove_def case_prod_beta) metis
  then have "\<exists>d'. mc_GetByKey rv store key ?d = Some (d', None)"
    using adds absent by (simp add: mc_GetByKey_def cache_GetByKey_def tsm_Get_def cache_content_def case_prod_beta mc_remove_def)
  ultimately show ?thesis by blast
qed

text \<open>
  An expiring cache in which nothing expires, as an association list, and an indexer that has a pod at version 5, or at version 9.
\<close>

definition fresh_cache :: "((string \<times> 'v) list, 'v) expire_cache" where
  "fresh_cache = \<lparr>xc_Get = (\<lambda>c k. (c, map_of c k)), xc_Add = (\<lambda>c k v ttl. (k, v) # filter (\<lambda>e. fst e \<noteq> k) c),
     xc_Remove = (\<lambda>c k. filter (\<lambda>e. fst e \<noteq> k) c), xc_Keys = map fst\<rparr>"

lemma map_of_filter_fst: "map_of (filter (\<lambda>e. fst e \<noteq> k) c) = (map_of c)(k := None)"
  by (induction c) (auto simp: fun_eq_iff)

lemma fresh_cache_right: "expire_right fresh_cache map_of" "nothing_expires fresh_cache map_of"
  by (auto simp: expire_right_def nothing_expires_def fresh_cache_def map_of_filter_fst dom_map_of_conv_image_fst map_le_def)

definition versioned_accessor :: "(string \<times> string) accessor" where
  "versioned_accessor obj = (case obj of Some (Object (name, _)) \<Rightarrow> Inr ('''', name) | _ \<Rightarrow> Inl (Errorf ''no metadata''))"

definition by_age :: "(string \<times> string) goval index_func" where
  "by_age obj = Inr (case obj of Some (Object (_, version)) \<Rightarrow> [if version = ''9'' then ''new'' else ''old''] | _ \<Rightarrow> [])"

definition store_with :: "string \<Rightarrow> (string \<times> string) goval cache" where
  "store_with version =
     fst (cache_Add [''age''] (NewIndexer (MetaNamespaceKeyFunc versioned_accessor) [''age'' \<mapsto> by_age]) (Some (Object (''p'', version))))"

definition pods_at :: "string \<Rightarrow> string \<Rightarrow> ((string \<times> (string \<times> string) obj) list, string \<times> string) mutationCache" where
  "pods_at p q = (NewIntegerResourceVersionMutationCache [] fresh_cache 10 True)\<lparr>mc_cache :=
     [(''q'', Some (Object (''q'', q))), (''p'', Some (Object (''p'', p)))]\<rparr>"

abbreviation version_of :: "string \<times> string \<Rightarrow> string option" where
  "version_of x \<equiv> Some (snd x)"

lemma pods_at_reach:
  "mc_reach version_of versioned_accessor (NewIntegerResourceVersionMutationCache [] fresh_cache 10 True)
     {(''q'', Some (Object (''q'', q))), (''p'', Some (Object (''p'', p)))} (pods_at p q)"
proof -
  let ?new = "NewIntegerResourceVersionMutationCache [] fresh_cache 10 True :: ((string \<times> (string \<times> string) obj) list, string \<times> string) mutationCache"
  have key: "DeletionHandlingMetaNamespaceKeyFunc versioned_accessor (Some (Object (n, v))) = Inr n" for n v
    by (simp add: DeletionHandlingMetaNamespaceKeyFunc_def MetaNamespaceKeyFunc_def ObjectToName_def versioned_accessor_def MetaObjectToName_def NewObjectName_def ObjectName_String_def)
  have add: "mc_Mutation version_of versioned_accessor (Some (Object (n, v))) (?new\<lparr>mc_cache := x\<rparr>) =
      Some (?new\<lparr>mc_cache := (n, Some (Object (n, v))) # x\<rparr>)" if "n \<notin> fst ` set x" for n v x
  proof -
    have "map_of x n = None" "filter (\<lambda>e. fst e \<noteq> n) x = x" using that by (auto simp: map_of_eq_None_iff filter_id_conv)
    then show ?thesis
      by (simp add: mc_Mutation_def key Let_def mc_get_def NewIntegerResourceVersionMutationCache_def fresh_cache_def as_object_def)
  qed
  have "mc_reach version_of versioned_accessor ?new {(''p'', Some (Object (''p'', p)))} (?new\<lparr>mc_cache := [(''p'', Some (Object (''p'', p)))]\<rparr>)"
    by (rule mc_mutate [OF mc_start key]) (use add [of "''p''" "[]" p] in \<open>simp add: NewIntegerResourceVersionMutationCache_def\<close>)
  from mc_mutate [OF this key add, of "''q''" q] show ?thesis by (simp add: pods_at_def)
qed

lemma store_with_content:
  "cache_content (store_with ''5'') ''p'' = Some (Some (Object (''p'', ''5'')))" "cache_content (store_with ''5'') ''q'' = None"
  "cache_content (store_with ''9'') ''p'' = Some (Some (Object (''p'', ''9'')))"
  by code_simp+

lemma store_with_index:
  "cache_IndexKeys (store_with ''9'') ''age'' ''old'' = Inr []" "cache_GetIndexers (store_with ''9'') ''age'' = Some by_age"
  subgoal by code_simp
  subgoal by (simp add: cache_GetIndexers_def tsm_GetIndexers_def store_with_def cache_Add_def NewIndexer_def tsm_Add_def tsm_Update_def
        NewThreadSafeStore_def case_prod_beta split: sum.split)
  done

lemma pod_versions:
  "ObjectResourceVersion version_of (n, ''5'') = Some 5" "ObjectResourceVersion version_of (n, ''7'') = Some 7"
  "ObjectResourceVersion version_of (n, ''9'') = Some 9"
  by (simp_all add: ObjectResourceVersion_def ParseUint_def less_eq_char_def)

text \<open>
  With \<open>includeAdds\<close>, \<open>ByIndex\<close> can return an object that is older than the one in the store: once the store's object has left the index, its key is not among those the index lists,
  and the second loop takes what the mutation cache has under it without a look at the store.
\<close>

lemma included_index_stale:
  "mc_ByIndex version_of (Some (store_with ''9'')) ''age'' ''old'' (pods_at ''7'' ''9'') =
     Some (pods_at ''7'' ''9'', Inr [Some (Object (''p'', ''7''))]) \<and>
   cache_content (store_with ''9'') ''p'' = Some (Some (Object (''p'', ''9''))) \<and>
   newer version_of (''p'', ''9'') (''p'', ''7'')"
  by (simp add: mc_ByIndex_def store_with_content store_with_index pods_at_def NewIntegerResourceVersionMutationCache_def fresh_cache_def mc_get_def
      by_age_def newer_def pod_versions)

theorem mutation_cache_newest_witness:
  "\<exists>c' c''. mc_GetByKey version_of (store_with ''5'') ''p'' (pods_at ''7'' ''7'') = Some (c', Some (Some (Object (''p'', ''7'')))) \<and>
     mc_GetByKey version_of (store_with ''5'') ''q'' (pods_at ''7'' ''7'') = Some (c'', Some (Some (Object (''q'', ''7''))))"
proof -
  let ?c = "pods_at ''7'' ''7''"
  have ops: "expire_right (mc_ops (NewIntegerResourceVersionMutationCache [] fresh_cache 10 True)) map_of"
    "\<forall>k. map_of (mc_cache (NewIntegerResourceVersionMutationCache [] fresh_cache 10 True)) k = None"
    by (simp_all add: NewIntegerResourceVersionMutationCache_def fresh_cache_right)
  note newest = mutation_cache_newest [OF pods_at_reach ops, THEN conjunct1, THEN mp]
  have get: "mc_get ''p'' ?c = (?c, Some (Some (Object (''p'', ''7''))))" "mc_get ''q'' ?c = (?c, Some (Some (Object (''q'', ''7''))))"
    by (simp_all add: mc_get_def pods_at_def NewIntegerResourceVersionMutationCache_def fresh_cache_def)
  have adds: "mc_includeAdds ?c" by (simp add: pods_at_def NewIntegerResourceVersionMutationCache_def)
  obtain c' r where p: "mc_GetByKey version_of (store_with ''5'') ''p'' ?c = Some (c', r)"
    by (simp add: mc_GetByKey_def cache_GetByKey_content store_with_content newerObject_def get as_object_def CompareResourceVersion_def pod_versions)
  obtain c'' r' where q: "mc_GetByKey version_of (store_with ''5'') ''q'' ?c = Some (c'', r')"
    by (simp add: mc_GetByKey_def cache_GetByKey_content store_with_content newerObject_def get as_object_def CompareResourceVersion_def pod_versions adds)
  have "r = Some (Some (Object (''p'', ''7'')))"
    using newest [OF p] get(1) pod_versions unfolding store_with_content option.case by (auto simp: newer_def)
  moreover have "r' = snd (mc_get ''q'' ?c)"
    using newest [OF q] adds unfolding store_with_content option.case by presburger
  then have "r' = Some (Some (Object (''q'', ''7'')))" by (simp only: get(2) snd_conv)
  ultimately show ?thesis using p q by blast
qed

end
