(* ===== verification/RestRequest.thy ===== *)
theory RestRequest
  imports GoStrings
begin

text \<open>
  \<open>rest/request.go\<close>: how a request is put together, the URL it is sent to and the template of that URL that the metrics are labelled with.

  Of a \<open>url.URL\<close> the model has the host, the path and the query, the latter before \<open>Encode\<close>; the other fields are copied from the base URL. What is not
  in the repository or reads files is an argument: \<open>url.Parse\<close>, the codec of parameters, the encoder of bodies, \<open>os.ReadFile\<close> and \<open>Duration.String\<close>.
  Errors of these are of the type \<open>'e\<close>.

  The lemmas: a string that is accepted as a namespace, resource, name or subresource becomes exactly one segment of the path, so that no
  such string leads out of the prefix; the template of a URL does not depend on names and namespaces.
\<close>

section \<open>Names as path segments\<close>

definition NameMayNotBe :: "string list" where
  "NameMayNotBe = [''.'', ''..'']"

definition NameMayNotContain :: "string list" where
  "NameMayNotContain = [''/'', ''%'']"

definition in_quotes :: "string \<Rightarrow> string" where
  "in_quotes s = CHR 0x27 # s @ [CHR 0x27]"

definition IsValidPathSegmentPrefix :: "string \<Rightarrow> string list" where
  "IsValidPathSegmentPrefix name =
     map (\<lambda>illegalContent. ''may not contain '' @ in_quotes illegalContent) (filter (contains name) NameMayNotContain)"

definition IsValidPathSegmentName :: "string \<Rightarrow> string list" where
  "IsValidPathSegmentName name =
     (case filter (\<lambda>illegalName. name = illegalName) NameMayNotBe of
        illegalName # _ \<Rightarrow> [''may not be '' @ in_quotes illegalName]
      | [] \<Rightarrow> IsValidPathSegmentPrefix name)"

definition ValidatePathSegmentName :: "string \<Rightarrow> bool \<Rightarrow> string list" where
  "ValidatePathSegmentName name prefix =
     (if prefix then IsValidPathSegmentPrefix name else IsValidPathSegmentName name)"

section \<open>Requests\<close>

text \<open>\<open>RErrorf\<close> is an error made by the request itself, with its format and arguments, \<open>RServer\<close> the one that \<open>errors.NewGenericServerResponse\<close> makes of its arguments, \<open>RPrevious\<close> a
  \<open>wrapPreviousError\<close>; \<open>RExt\<close> is an error from elsewhere.\<close>

datatype 'e rest_err =
    RErrorf string "string list"
  | RExt 'e
  | RWrapf string "'e rest_err"
  | RServer int string string string string string int
  | RPrevious "'e rest_err" "'e rest_err"

type_synonym url_values = "string \<Rightarrow> string list option"

record url =
  u_Host :: string
  u_Path :: string
  u_Query :: url_values

record content_config =
  cc_AcceptContentTypes :: string
  cc_ContentType :: string
  cc_Group :: string

text \<open>\<open>RESTClient\<close>: \<open>rc_timeout\<close> is the timeout of its \<open>http.Client\<close>, if it has one.\<close>

record ('bo, 'rl) RESTClient =
  rc_base :: "url option"
  rc_versionedAPIPath :: string
  rc_content :: content_config
  rc_createBackoffMgr :: "'bo option"
  rc_rateLimiter :: "'rl option"
  rc_timeout :: "int option"

record ('bo, 'rl, 'b, 'e) Request =
  rq_c :: "('bo, 'rl) RESTClient"
  rq_rateLimiter :: "'rl option"
  rq_backoff :: 'bo
  rq_timeout :: int
  rq_maxRetries :: int
  rq_verb :: string
  rq_pathPrefix :: string
  rq_subpath :: string
  rq_params :: url_values
  rq_headers :: url_values
  rq_namespace :: string
  rq_namespaceSet :: bool
  rq_resource :: string
  rq_resourceName :: string
  rq_subresource :: string
  rq_err :: "'e rest_err option"
  rq_body :: "'b option"
  rq_bodyBytes :: "string option"

text \<open>\<open>http.Header\<close> canonicalises its keys: \<open>textproto.CanonicalMIMEHeaderKey\<close>.\<close>

definition token_char :: "char \<Rightarrow> bool" where
  "token_char c \<longleftrightarrow> (\<exists>(lo, hi) \<in> set [(CHR ''0'', CHR ''9''), (CHR ''A'', CHR ''Z''), (CHR ''a'', CHR ''z'')]. lo \<le> c \<and> c \<le> hi) \<or>
     c \<in> set (CHR 0x27 # ''!#$%&*+-.^_`|~'')"

definition to_upper :: "char \<Rightarrow> char" where
  "to_upper c = (if CHR ''a'' \<le> c \<and> c \<le> CHR ''z'' then char_of (of_char c - 32 :: nat) else c)"

fun canonical_bytes :: "bool \<Rightarrow> string \<Rightarrow> string" where
  "canonical_bytes upper [] = []"
| "canonical_bytes upper (c # cs) = (if upper then to_upper c else to_lower c) # canonical_bytes (c = CHR ''-'') cs"

definition canonical_key :: "string \<Rightarrow> string" where
  "canonical_key key = (if \<forall>c \<in> set key. token_char c then canonical_bytes True key else key)"

definition rq_SetHeader :: "string \<Rightarrow> string list \<Rightarrow> ('bo, 'rl, 'b, 'e) Request \<Rightarrow> ('bo, 'rl, 'b, 'e) Request" where
  "rq_SetHeader key values r =
     r\<lparr>rq_headers := (rq_headers r)(canonical_key key := (if values = [] then None else Some values))\<rparr>"

text \<open>\<open>noBackoff\<close> is the stub that is used when the client has no manager.\<close>

definition NewRequest :: "'bo \<Rightarrow> ('bo, 'rl) RESTClient \<Rightarrow> ('bo, 'rl, 'b, 'e) Request" where
  "NewRequest noBackoff c =
     (let backoff = (case rc_createBackoffMgr c of Some b \<Rightarrow> b | None \<Rightarrow> noBackoff);
          pathPrefix = (case rc_base c of
                          Some base \<Rightarrow> path_Join [''/'', u_Path base, rc_versionedAPIPath c]
                        | None \<Rightarrow> path_Join [''/'', rc_versionedAPIPath c]);
          timeout = (case rc_timeout c of Some t \<Rightarrow> t | None \<Rightarrow> 0);
          r = \<lparr>rq_c = c, rq_rateLimiter = rc_rateLimiter c, rq_backoff = backoff, rq_timeout = timeout, rq_maxRetries = 10,
               rq_verb = '''', rq_pathPrefix = pathPrefix, rq_subpath = '''', rq_params = Map.empty, rq_headers = Map.empty,
               rq_namespace = '''', rq_namespaceSet = False, rq_resource = '''', rq_resourceName = '''', rq_subresource = '''',
               rq_err = None, rq_body = None, rq_bodyBytes = None\<rparr>
      in if length (cc_AcceptContentTypes (rc_content c)) > 0 then rq_SetHeader ''Accept'' [cc_AcceptContentTypes (rc_content c)] r
         else if length (cc_ContentType (rc_content c)) > 0 then rq_SetHeader ''Accept'' [cc_ContentType (rc_content c) @ '', */*''] r
         else r)"

definition rq_fail :: "'e rest_err \<Rightarrow> ('bo, 'rl, 'b, 'e) Request \<Rightarrow> ('bo, 'rl, 'b, 'e) Request" where
  "rq_fail err r = r\<lparr>rq_err := Some err\<rparr>"

text \<open>Most setters do nothing once there is an error.\<close>

definition unless_err ::
  "(('bo, 'rl, 'b, 'e) Request \<Rightarrow> ('bo, 'rl, 'b, 'e) Request) \<Rightarrow> ('bo, 'rl, 'b, 'e) Request \<Rightarrow> ('bo, 'rl, 'b, 'e) Request"
where
  "unless_err f r = (if rq_err r \<noteq> None then r else f r)"

definition rq_Verb :: "string \<Rightarrow> ('bo, 'rl, 'b, 'e) Request \<Rightarrow> ('bo, 'rl, 'b, 'e) Request" where
  "rq_Verb verb r = r\<lparr>rq_verb := verb\<rparr>"

definition rq_Prefix :: "string list \<Rightarrow> ('bo, 'rl, 'b, 'e) Request \<Rightarrow> ('bo, 'rl, 'b, 'e) Request" where
  "rq_Prefix segments = unless_err (\<lambda>r. r\<lparr>rq_pathPrefix := path_Join [rq_pathPrefix r, path_Join segments]\<rparr>)"

definition rq_Suffix :: "string list \<Rightarrow> ('bo, 'rl, 'b, 'e) Request \<Rightarrow> ('bo, 'rl, 'b, 'e) Request" where
  "rq_Suffix segments = unless_err (\<lambda>r. r\<lparr>rq_subpath := path_Join [rq_subpath r, path_Join segments]\<rparr>)"

definition rq_Resource :: "string \<Rightarrow> ('bo, 'rl, 'b, 'e) Request \<Rightarrow> ('bo, 'rl, 'b, 'e) Request" where
  "rq_Resource resource = unless_err (\<lambda>r.
     if length (rq_resource r) \<noteq> 0 then rq_fail (RErrorf ''resource already set to %q, cannot change to %q'' [rq_resource r, resource]) r
     else let msgs = IsValidPathSegmentName resource
          in if length msgs \<noteq> 0 then rq_fail (RErrorf ''invalid resource %q: %v'' (resource # msgs)) r
             else r\<lparr>rq_resource := resource\<rparr>)"

definition rq_BackOff :: "'bo \<Rightarrow> 'bo option \<Rightarrow> ('bo, 'rl, 'b, 'e) Request \<Rightarrow> ('bo, 'rl, 'b, 'e) Request" where
  "rq_BackOff noBackoff manager r = r\<lparr>rq_backoff := (case manager of None \<Rightarrow> noBackoff | Some m \<Rightarrow> m)\<rparr>"

definition rq_Throttle :: "'rl option \<Rightarrow> ('bo, 'rl, 'b, 'e) Request \<Rightarrow> ('bo, 'rl, 'b, 'e) Request" where
  "rq_Throttle limiter r = r\<lparr>rq_rateLimiter := limiter\<rparr>"

definition rq_SubResource :: "string list \<Rightarrow> ('bo, 'rl, 'b, 'e) Request \<Rightarrow> ('bo, 'rl, 'b, 'e) Request" where
  "rq_SubResource subresources = unless_err (\<lambda>r.
     let subresource = path_Join subresources
     in if length (rq_subresource r) \<noteq> 0
        then rq_fail (RErrorf ''subresource already set to %q, cannot change to %q'' [rq_subresource r, subresource]) r
        else case filter (\<lambda>s. length (IsValidPathSegmentName s) \<noteq> 0) subresources of
               s # _ \<Rightarrow> rq_fail (RErrorf ''invalid subresource %q: %v'' (s # IsValidPathSegmentName s)) r
             | [] \<Rightarrow> r\<lparr>rq_subresource := subresource\<rparr>)"

definition rq_Name :: "string \<Rightarrow> ('bo, 'rl, 'b, 'e) Request \<Rightarrow> ('bo, 'rl, 'b, 'e) Request" where
  "rq_Name resourceName = unless_err (\<lambda>r.
     if length resourceName = 0 then rq_fail (RErrorf ''resource name may not be empty'' []) r
     else if length (rq_resourceName r) \<noteq> 0
     then rq_fail (RErrorf ''resource name already set to %q, cannot change to %q'' [rq_resourceName r, resourceName]) r
     else let msgs = IsValidPathSegmentName resourceName
          in if length msgs \<noteq> 0 then rq_fail (RErrorf ''invalid resource name %q: %v'' (resourceName # msgs)) r
             else r\<lparr>rq_resourceName := resourceName\<rparr>)"

definition rq_Namespace :: "string \<Rightarrow> ('bo, 'rl, 'b, 'e) Request \<Rightarrow> ('bo, 'rl, 'b, 'e) Request" where
  "rq_Namespace namespace = unless_err (\<lambda>r.
     if rq_namespaceSet r then rq_fail (RErrorf ''namespace already set to %q, cannot change to %q'' [rq_namespace r, namespace]) r
     else let msgs = IsValidPathSegmentName namespace
          in if length msgs \<noteq> 0 then rq_fail (RErrorf ''invalid namespace %q: %v'' (namespace # msgs)) r
             else r\<lparr>rq_namespaceSet := True, rq_namespace := namespace\<rparr>)"

definition rq_NamespaceIfScoped :: "string \<Rightarrow> bool \<Rightarrow> ('bo, 'rl, 'b, 'e) Request \<Rightarrow> ('bo, 'rl, 'b, 'e) Request" where
  "rq_NamespaceIfScoped namespace scoped r = (if scoped then rq_Namespace namespace r else r)"

text \<open>\<open>None\<close> is a panic: the client has no base.\<close>

definition rq_AbsPath :: "string list \<Rightarrow> ('bo, 'rl, 'b, 'e) Request \<Rightarrow> ('bo, 'rl, 'b, 'e) Request option" where
  "rq_AbsPath segments r =
     (if rq_err r \<noteq> None then Some r
      else case rc_base (rq_c r) of
             None \<Rightarrow> None
           | Some base \<Rightarrow>
               let p = path_Join [u_Path base, path_Join segments]
               in Some (r\<lparr>rq_pathPrefix :=
                    (case segments of
                       [s] \<Rightarrow> if (length (u_Path base) > 1 \<or> length s > 1) \<and> has_suffix s ''/'' then p @ ''/'' else p
                     | _ \<Rightarrow> p)\<rparr>))"

definition rq_RequestURI :: "(string \<Rightarrow> 'e + url) \<Rightarrow> string \<Rightarrow> ('bo, 'rl, 'b, 'e) Request \<Rightarrow> ('bo, 'rl, 'b, 'e) Request" where
  "rq_RequestURI url_Parse uri = unless_err (\<lambda>r.
     case url_Parse uri of
       Inl err \<Rightarrow> rq_fail (RExt err) r
     | Inr locator \<Rightarrow> r\<lparr>rq_pathPrefix := u_Path locator, rq_params := rq_params r ++ u_Query locator\<rparr>)"

text \<open>\<open>append\<close> to what a key has.\<close>

definition values_append :: "url_values \<Rightarrow> string \<Rightarrow> string list \<Rightarrow> string list" where
  "values_append m k vs = (case m k of None \<Rightarrow> vs | Some ws \<Rightarrow> ws @ vs)"

definition rq_setParam :: "string \<Rightarrow> string \<Rightarrow> ('bo, 'rl, 'b, 'e) Request \<Rightarrow> ('bo, 'rl, 'b, 'e) Request" where
  "rq_setParam paramName val r = r\<lparr>rq_params := (rq_params r)(paramName \<mapsto> values_append (rq_params r) paramName [val])\<rparr>"

definition rq_Param :: "string \<Rightarrow> string \<Rightarrow> ('bo, 'rl, 'b, 'e) Request \<Rightarrow> ('bo, 'rl, 'b, 'e) Request" where
  "rq_Param paramName s = unless_err (rq_setParam paramName s)"

text \<open>\<open>encoded\<close> is the result of \<open>codec.EncodeParameters\<close>.\<close>

definition rq_SpecificallyVersionedParams :: "('e + url_values) \<Rightarrow> ('bo, 'rl, 'b, 'e) Request \<Rightarrow> ('bo, 'rl, 'b, 'e) Request" where
  "rq_SpecificallyVersionedParams encoded = unless_err (\<lambda>r.
     case encoded of
       Inl err \<Rightarrow> rq_fail (RExt err) r
     | Inr params \<Rightarrow> r\<lparr>rq_params := (\<lambda>k. case params k of None \<Rightarrow> rq_params r k | Some v \<Rightarrow> Some (values_append (rq_params r) k v))\<rparr>)"

definition rq_Timeout :: "int \<Rightarrow> ('bo, 'rl, 'b, 'e) Request \<Rightarrow> ('bo, 'rl, 'b, 'e) Request" where
  "rq_Timeout d = unless_err (\<lambda>r. r\<lparr>rq_timeout := d\<rparr>)"

definition rq_MaxRetries :: "int \<Rightarrow> ('bo, 'rl, 'b, 'e) Request \<Rightarrow> ('bo, 'rl, 'b, 'e) Request" where
  "rq_MaxRetries maxRetries r = r\<lparr>rq_maxRetries := (if maxRetries < 0 then 0 else maxRetries)\<rparr>"

text \<open>
  \<open>Body\<close>: the file that a string names and the encoded object are given with what reading or encoding them returns; \<open>BObject None\<close> is a nil pointer
  to an object.
\<close>

datatype ('b, 'e) body_arg =
    BString "'e + string"
  | BBytes string
  | BReader 'b
  | BObject "('e + string) option"
  | BOther

definition rq_Body :: "('b, 'e) body_arg \<Rightarrow> ('bo, 'rl, 'b, 'e) Request \<Rightarrow> ('bo, 'rl, 'b, 'e) Request" where
  "rq_Body obj = unless_err (\<lambda>r.
     case obj of
       BString (Inl err) \<Rightarrow> rq_fail (RExt err) r
     | BString (Inr data) \<Rightarrow> r\<lparr>rq_body := None, rq_bodyBytes := Some data\<rparr>
     | BBytes t \<Rightarrow> r\<lparr>rq_body := None, rq_bodyBytes := Some t\<rparr>
     | BReader t \<Rightarrow> r\<lparr>rq_body := Some t, rq_bodyBytes := None\<rparr>
     | BObject None \<Rightarrow> r
     | BObject (Some (Inl err)) \<Rightarrow> rq_fail (RExt err) r
     | BObject (Some (Inr data)) \<Rightarrow>
         rq_SetHeader ''Content-Type'' [cc_ContentType (rc_content (rq_c r))] (r\<lparr>rq_body := None, rq_bodyBytes := Some data\<rparr>)
     | BOther \<Rightarrow> rq_fail (RErrorf ''unknown type used for body: %+v'' []) r)"

definition rq_path :: "('bo, 'rl, 'b, 'e) Request \<Rightarrow> string" where
  "rq_path r =
     (let p = rq_pathPrefix r;
          p = (if rq_namespaceSet r \<and> length (rq_namespace r) > 0 then path_Join [p, ''namespaces'', rq_namespace r] else p);
          p = (if length (rq_resource r) \<noteq> 0 then path_Join [p, strings_ToLower (rq_resource r)] else p)
      in if length (rq_resourceName r) \<noteq> 0 \<or> length (rq_subpath r) \<noteq> 0 \<or> length (rq_subresource r) \<noteq> 0
         then path_Join [p, rq_resourceName r, rq_subresource r, rq_subpath r] else p)"

definition rq_URL :: "(int \<Rightarrow> string) \<Rightarrow> ('bo, 'rl, 'b, 'e) Request \<Rightarrow> url" where
  "rq_URL duration_String r =
     (let query = (\<lambda>key. if rq_params r key = Some [] then None else rq_params r key);
          query = (if rq_timeout r \<noteq> 0 then query(''timeout'' \<mapsto> [duration_String (rq_timeout r)]) else query)
      in \<lparr>u_Host = (case rc_base (rq_c r) of Some base \<Rightarrow> u_Host base | None \<Rightarrow> ''''), u_Path = rq_path r, u_Query = query\<rparr>)"

text \<open>Indexing of a slice; \<open>None\<close> is the panic out of range.\<close>

definition seg_at :: "string list \<Rightarrow> nat \<Rightarrow> string option" where
  "seg_at segments i = (if i < length segments then Some (segments ! i) else None)"

text \<open>The \<open>switch\<close> of \<open>finalURLTemplate\<close>, with \<open>index\<close> the place of the resource or of \<open>namespaces\<close>.\<close>

definition template_segments :: "string list \<Rightarrow> nat \<Rightarrow> string list option" where
  "template_segments segments index =
     (if int (length segments) - int index = 2 then
        (case seg_at segments (index + 1) of None \<Rightarrow> None | Some _ \<Rightarrow> Some (segments[index + 1 := ''{name}'']))
      else if int (length segments) - int index = 3 then
        (case seg_at segments (index + 2) of
           None \<Rightarrow> None
         | Some s \<Rightarrow> if s = ''finalize'' \<or> s = ''status'' then Some (segments[index + 1 := ''{name}''])
                     else Some (segments[index + 1 := ''{namespace}'']))
      else if int (length segments) - int index \<ge> 4 then
        (let segments = segments[index + 1 := ''{namespace}'']
         in case seg_at segments (index + 3) of
              None \<Rightarrow> None
            | Some s \<Rightarrow> if s \<noteq> ''finalize'' \<and> s \<noteq> ''status'' then Some (segments[index + 3 := ''{name}'']) else Some segments)
      else Some segments)"

definition rq_finalURLTemplate :: "(int \<Rightarrow> string) \<Rightarrow> ('bo, 'rl, 'b, 'e) Request \<Rightarrow> url option" where
  "rq_finalURLTemplate duration_String r =
     (let r = r\<lparr>rq_params := (\<lambda>k. case rq_params r k of None \<Rightarrow> None | Some _ \<Rightarrow> Some [''{value}''])\<rparr>;
          u = rq_URL duration_String r;
          (segments, groupIndex, trimmedBasePath) =
            (case rc_base (rq_c r) of
               Some base \<Rightarrow>
                 if contains (u_Path u) (u_Path base)
                 then let p = trim_prefix (u_Path u) (u_Path base); p = (if has_prefix p ''/'' then p else ''/'' @ p)
                      in (strings_Split p slash, 1, u_Path base)
                 else (strings_Split (u_Path u) slash, 0, '''')
             | None \<Rightarrow> (strings_Split (u_Path u) slash, 0, ''''))
      in if length segments \<le> 2 then Some u
         else case seg_at segments groupIndex of
                None \<Rightarrow> None
              | Some g \<Rightarrow>
                  if g \<noteq> ''api'' \<and> g \<noteq> ''apis'' then Some (u\<lparr>u_Path := ''/{prefix}'', u_Query := Map.empty\<rparr>)
                  else map_option (\<lambda>segments. u\<lparr>u_Path := path_Join [trimmedBasePath, path_Join segments]\<rparr>)
                         (template_segments segments (groupIndex + (if g = ''api'' then 2 else 3))))"

definition rq_requestPreflightCheck :: "('bo, 'rl, 'b, 'e) Request \<Rightarrow> 'e rest_err option" where
  "rq_requestPreflightCheck r =
     (if \<not> rq_namespaceSet r then None
      else if length (rq_namespace r) > 0 then None
      else if rq_verb r = ''POST'' then Some (RErrorf ''an empty namespace may not be set during creation'' [])
      else if rq_verb r \<in> {''GET'', ''PUT'', ''DELETE''} \<and> length (rq_resourceName r) > 0
      then Some (RErrorf ''an empty namespace may not be set when a resource name is provided'' [])
      else None)"

section \<open>The path of a request\<close>

lemma contains_char: "contains s [c] \<longleftrightarrow> c \<in> set s"
  by (induction s) (auto simp: has_prefix_def)

lemma valid_name_iff: "IsValidPathSegmentName s = [] \<longleftrightarrow> s = '''' \<or> plain s \<and> CHR ''%'' \<notin> set s"
  by (auto simp: IsValidPathSegmentName_def IsValidPathSegmentPrefix_def NameMayNotBe_def NameMayNotContain_def contains_char plain_def slash_def)

lemma to_lower_other: "to_lower c = d \<Longrightarrow> of_char d < (65 :: nat) \<Longrightarrow> c = d"
  by (auto simp: to_lower_def less_eq_char_def split: if_splits)

lemma plain_lower: "plain s \<Longrightarrow> plain (strings_ToLower s)"
proof -
  have "to_lower c = CHR ''.'' \<Longrightarrow> c = CHR ''.''" "to_lower c = slash \<Longrightarrow> c = slash" for c
    by (rule to_lower_other; simp add: slash_def)+
  moreover from this(2) have "slash \<notin> set s \<Longrightarrow> slash \<notin> to_lower ` set s" by (metis imageE)
  ultimately show "plain s \<Longrightarrow> plain (strings_ToLower s)"
    unfolding plain_def strings_ToLower_def by (auto simp: map_eq_Cons_conv)
qed

text \<open>The calls that put a request together, in the order they are made; \<open>Prefix\<close>, \<open>Suffix\<close>, \<open>AbsPath\<close> and \<open>RequestURI\<close> take paths and are not among them.\<close>

datatype ('b, 'e) rq_call =
    CVerb string
  | CNamespace string
  | CResource string
  | CName string
  | CSubResource "string list"
  | CParam string string
  | CVersionedParams "'e + url_values"
  | CSetHeader string "string list"
  | CTimeout int
  | CMaxRetries int
  | CBody "('b, 'e) body_arg"

fun rq_apply :: "('b, 'e) rq_call \<Rightarrow> ('bo, 'rl, 'b, 'e) Request \<Rightarrow> ('bo, 'rl, 'b, 'e) Request" where
  "rq_apply (CVerb v) = rq_Verb v"
| "rq_apply (CNamespace n) = rq_Namespace n"
| "rq_apply (CResource n) = rq_Resource n"
| "rq_apply (CName n) = rq_Name n"
| "rq_apply (CSubResource ns) = rq_SubResource ns"
| "rq_apply (CParam k v) = rq_Param k v"
| "rq_apply (CVersionedParams p) = rq_SpecificallyVersionedParams p"
| "rq_apply (CSetHeader k vs) = rq_SetHeader k vs"
| "rq_apply (CTimeout d) = rq_Timeout d"
| "rq_apply (CMaxRetries n) = rq_MaxRetries n"
| "rq_apply (CBody b) = rq_Body b"

definition nonempty :: "string list \<Rightarrow> string list" where
  "nonempty ss = filter (\<lambda>s. s \<noteq> '''') ss"

fun named_namespaces :: "('b, 'e) rq_call \<Rightarrow> string list" where
  "named_namespaces (CNamespace n) = nonempty [n]"
| "named_namespaces _ = []"

fun named_resources :: "('b, 'e) rq_call \<Rightarrow> string list" where
  "named_resources (CResource n) = nonempty [n]"
| "named_resources _ = []"

fun named_objects :: "('b, 'e) rq_call \<Rightarrow> string list" where
  "named_objects (CName n) = [n]"
| "named_objects _ = []"

fun named_subresources :: "('b, 'e) rq_call \<Rightarrow> string list" where
  "named_subresources (CSubResource ns) = nonempty ns"
| "named_subresources _ = []"

text \<open>What the calls have put into the fields of a request without an error.\<close>

definition rq_holds :: "string \<Rightarrow> ('b, 'e) rq_call list \<Rightarrow> ('bo, 'rl, 'b, 'e) Request \<Rightarrow> bool" where
  "rq_holds prefix calls r \<longleftrightarrow> rq_pathPrefix r = prefix \<and> rq_subpath r = '''' \<and>
     concat (map named_namespaces calls) = nonempty [rq_namespace r] \<and> (rq_namespace r \<noteq> '''' \<longrightarrow> rq_namespaceSet r) \<and>
     concat (map named_resources calls) = nonempty [rq_resource r] \<and>
     concat (map named_objects calls) = nonempty [rq_resourceName r] \<and>
     join_slash (concat (map named_subresources calls)) = rq_subresource r \<and>
     (\<forall>s \<in> {rq_namespace r, rq_resource r, rq_resourceName r} \<union> set (concat (map named_subresources calls)). IsValidPathSegmentName s = [])"

lemma rq_apply_err: "rq_err (rq_apply c r) = None \<Longrightarrow> rq_err r = None"
  by (cases c) (auto simp: rq_Verb_def rq_Namespace_def rq_Resource_def rq_Name_def rq_SubResource_def rq_Param_def
      rq_SpecificallyVersionedParams_def rq_SetHeader_def rq_Timeout_def rq_MaxRetries_def rq_Body_def unless_err_def split: if_splits)

definition rq_place :: "('bo, 'rl, 'b, 'e) Request \<Rightarrow> string list \<times> bool" where
  "rq_place r = ([rq_pathPrefix r, rq_subpath r, rq_namespace r, rq_resource r, rq_resourceName r, rq_subresource r], rq_namespaceSet r)"

lemma rq_Body_place: "rq_place (rq_Body b r) = rq_place r"
proof (cases "rq_err r")
  case None
  then show ?thesis
  proof (cases b)
    case (BString x)
    then show ?thesis using None by (cases x) (simp_all add: rq_place_def rq_Body_def unless_err_def rq_fail_def)
  next
    case (BObject x)
    then show ?thesis
    proof (cases x)
      case (Some y)
      then show ?thesis using None BObject by (cases y) (simp_all add: rq_place_def rq_Body_def unless_err_def rq_fail_def rq_SetHeader_def)
    qed (use None in \<open>simp add: rq_Body_def unless_err_def\<close>)
  qed (use None in \<open>simp_all add: rq_place_def rq_Body_def unless_err_def rq_fail_def\<close>)
qed (simp add: rq_Body_def unless_err_def)

lemma named_subresources_nonempty [simp]: "[] \<notin> set (named_subresources c)"
  by (cases c) (simp_all add: nonempty_def)

lemma rq_SubResource_holds:
  assumes holds: "rq_holds p calls r" and ok: "rq_err r = None" "rq_err (rq_SubResource ns r) = None"
  shows "rq_holds p (calls @ [CSubResource ns]) (rq_SubResource ns r)"
proof -
  have free: "rq_subresource r = ''''" using ok by (cases "rq_subresource r = ''''") (simp_all add: rq_SubResource_def unless_err_def rq_fail_def)
  obtain bad where bad: "filter (\<lambda>s. length (IsValidPathSegmentName s) \<noteq> 0) ns = bad" by blast
  have none: "bad = []" using ok free bad by (cases bad) (simp_all add: rq_SubResource_def unless_err_def rq_fail_def)
  then have valid: "\<forall>s \<in> set ns. IsValidPathSegmentName s = []" using bad by (simp add: filter_empty_conv)
  have r': "rq_SubResource ns r = r\<lparr>rq_subresource := path_Join ns\<rparr>"
    using ok free bad none by (simp add: rq_SubResource_def unless_err_def)
  have join: "path_Join ns = join_slash (nonempty ns)"
    unfolding nonempty_def by (rule path_Join_segments) (use valid valid_name_iff in blast)
  have "concat (map named_subresources calls) = []"
  proof -
    have "\<forall>s \<in> set (concat (map named_subresources calls)). s \<noteq> ''''" by auto
    then show ?thesis using holds free join_slash_empty unfolding rq_holds_def by metis
  qed
  then have subs: "concat (map named_subresources (calls @ [CSubResource ns])) = nonempty ns"
    by (simp del: concat_eq_Nil_conv)
  show ?thesis unfolding r' rq_holds_def subs using holds valid join by (auto simp: rq_holds_def nonempty_def)
qed

lemma rq_apply_holds:
  assumes holds: "rq_holds p calls r" and ok: "rq_err (rq_apply c r) = None"
  shows "rq_holds p (calls @ [c]) (rq_apply c r)"
proof -
  have r: "rq_err r = None" by (rule rq_apply_err [OF ok])
  show ?thesis
  proof (cases c)
    case (CSubResource ns)
    then show ?thesis using rq_SubResource_holds [OF holds r] ok by simp
  next
    case (CBody b)
    then show ?thesis using holds rq_Body_place [of b r] by (simp add: rq_holds_def rq_place_def)
  next
    case (CNamespace n)
    then show ?thesis using holds ok r by (auto simp: rq_holds_def rq_Namespace_def unless_err_def rq_fail_def Let_def nonempty_def split: if_splits)
  next
    case (CResource n)
    then show ?thesis using holds ok r by (auto simp: rq_holds_def rq_Resource_def unless_err_def rq_fail_def Let_def nonempty_def split: if_splits)
  next
    case (CName n)
    then show ?thesis using holds ok r by (auto simp: rq_holds_def rq_Name_def unless_err_def rq_fail_def Let_def nonempty_def split: if_splits)
  qed (use holds ok r in \<open>auto simp: rq_holds_def rq_Verb_def rq_Param_def rq_setParam_def rq_SpecificallyVersionedParams_def rq_SetHeader_def
        rq_Timeout_def rq_MaxRetries_def unless_err_def rq_fail_def split: sum.splits\<close>)
qed

lemma rq_calls_hold:
  "rq_holds p cs r \<Longrightarrow> rq_err (fold rq_apply calls r) = None \<Longrightarrow> rq_holds p (cs @ calls) (fold rq_apply calls r)"
proof (induction calls arbitrary: cs r)
  case (Cons c calls)
  have "rq_err (rq_apply c r) = None"
  proof -
    have "rq_err (fold rq_apply calls x) = None \<Longrightarrow> rq_err x = None" for x :: "('c, 'd, 'a, 'b) Request"
      by (induction calls arbitrary: x) (auto dest: rq_apply_err)
    then show ?thesis using Cons.prems(2) by simp
  qed
  then show ?case using Cons.IH [of "cs @ [c]" "rq_apply c r"] rq_apply_holds [OF Cons.prems(1)] Cons.prems(2) by simp
qed simp

text \<open>The segments that a request without an error adds to its prefix.\<close>

definition rq_segments :: "('b, 'e) rq_call list \<Rightarrow> string list" where
  "rq_segments calls = concat (map (\<lambda>n. [''namespaces'', n]) (concat (map named_namespaces calls))) @
     map strings_ToLower (concat (map named_resources calls)) @ concat (map named_objects calls) @ concat (map named_subresources calls)"

lemma NewRequest_holds:
  fixes c :: "('bo, 'rl) RESTClient"
  shows "\<exists>prefix. rq_pathPrefix (NewRequest nb c :: ('bo, 'rl, 'b, 'e) Request) = path_of prefix \<and> (\<forall>s \<in> set prefix. plain s) \<and>
    rq_holds (path_of prefix) [] (NewRequest nb c :: ('bo, 'rl, 'b, 'e) Request)"
proof -
  obtain prefix where p: "(case rc_base c of Some base \<Rightarrow> path_Join [''/'', u_Path base, rc_versionedAPIPath c]
      | None \<Rightarrow> path_Join [''/'', rc_versionedAPIPath c]) = path_of prefix" "\<forall>s \<in> set prefix. plain s"
    using path_Join_root by (cases "rc_base c") (simp_all, metis+)
  then have "rq_pathPrefix (NewRequest nb c :: ('bo, 'rl, 'b, 'e) Request) = path_of prefix"
    by (simp add: NewRequest_def Let_def rq_SetHeader_def)
  moreover have "IsValidPathSegmentName '''' = []" by (simp add: valid_name_iff)
  ultimately have "rq_holds (path_of prefix) [] (NewRequest nb c :: ('bo, 'rl, 'b, 'e) Request)"
    by (simp add: rq_holds_def nonempty_def NewRequest_def Let_def rq_SetHeader_def)
  then show ?thesis using p(2) \<open>rq_pathPrefix (NewRequest nb c) = path_of prefix\<close> by blast
qed

lemma holds_path:
  assumes prefix: "\<forall>s \<in> set prefix. plain s" and holds: "rq_holds (path_of prefix) calls r"
  shows "rq_path r = path_of (prefix @ rq_segments calls) \<and> (\<forall>s \<in> set (rq_segments calls). plain s)"
proof -
  let ?subs = "concat (map named_subresources calls)"
  have valid: "s = '''' \<or> plain s" if "s \<in> {rq_namespace r, rq_resource r, rq_resourceName r} \<union> set ?subs" for s
    using holds that valid_name_iff unfolding rq_holds_def by metis
  have subs: "\<forall>s \<in> set ?subs. plain s" using valid by fastforce
  have subp: "parts (rq_subresource r) = ?subs"
    using holds concat_parts_plain [OF subs] parts_join [of ?subs] unfolding rq_holds_def by metis
  have name: "parts (rq_resourceName r) = nonempty [rq_resourceName r]" and res: "rq_resource r \<noteq> '''' \<Longrightarrow> plain (strings_ToLower (rq_resource r))"
    using valid [of "rq_resourceName r"] valid [of "rq_resource r"] by (auto simp: parts_plain nonempty_def plain_lower)
  let ?ns = "concat (map (\<lambda>n. [''namespaces'', n]) (nonempty [rq_namespace r]))"
  let ?p1 = "prefix @ ?ns" and ?p2 = "prefix @ ?ns @ map strings_ToLower (nonempty [rq_resource r])"
  have ns: "plain ''namespaces''" by (simp add: plain_def slash_def)
  have plain1: "\<forall>s \<in> set ?p1. plain s" using prefix ns valid [of "rq_namespace r"] by (auto simp: nonempty_def)
  have p1: "(if rq_namespaceSet r \<and> length (rq_namespace r) > 0 then path_Join [path_of prefix, ''namespaces'', rq_namespace r] else path_of prefix) = path_of ?p1"
    using path_Join_plain [OF prefix, of "[''namespaces'', rq_namespace r]"] ns valid [of "rq_namespace r"] holds
    by (auto simp: nonempty_def rq_holds_def)
  have plain2: "\<forall>s \<in> set ?p2. plain s" using plain1 res by (auto simp: nonempty_def)
  have p2: "(if length (rq_resource r) \<noteq> 0 then path_Join [path_of ?p1, strings_ToLower (rq_resource r)] else path_of ?p1) = path_of ?p2"
    using path_Join_plain [OF plain1, of "[strings_ToLower (rq_resource r)]"] res by (auto simp: nonempty_def)
  have "\<forall>x \<in> set (parts (rq_subresource r)). plain x" unfolding subp by (rule subs)
  moreover have "\<forall>x \<in> set (parts (rq_resourceName r)). plain x"
    unfolding name using valid [of "rq_resourceName r"] by (auto simp: nonempty_def)
  ultimately have "\<forall>e \<in> set [rq_resourceName r, rq_subresource r, '''']. \<forall>x \<in> set (parts e). plain x" by simp
  from path_Join_path [OF plain2 this]
  have p3: "path_Join [path_of ?p2, rq_resourceName r, rq_subresource r, ''''] = path_of (?p2 @ nonempty [rq_resourceName r] @ ?subs)"
    by (simp only: list.map concat.simps subp name) simp
  have empty: "rq_resourceName r = '''' \<Longrightarrow> rq_subresource r = '''' \<Longrightarrow> path_of (?p2 @ nonempty [rq_resourceName r] @ ?subs) = path_of ?p2"
    by (simp add: subp [symmetric] nonempty_def)
  have "rq_path r = path_of (?p2 @ nonempty [rq_resourceName r] @ ?subs)"
    using holds p1 p2 p3 empty unfolding rq_path_def rq_holds_def by (auto simp: Let_def)
  moreover have seg: "rq_segments calls = ?ns @ map strings_ToLower (nonempty [rq_resource r]) @ nonempty [rq_resourceName r] @ ?subs"
    using holds unfolding rq_segments_def rq_holds_def by (metis)
  moreover have "\<forall>s \<in> set (rq_segments calls). plain s"
    unfolding seg using plain2 subs valid [of "rq_resourceName r"] by (auto simp: nonempty_def)
  ultimately show ?thesis by simp
qed

text \<open>
  C10 The path of a request is what its calls say and nothing else: if the calls that name a namespace, a resource, an object and subresources, in any order
  and among other calls, leave no error, the path consists of the segments of the client's prefix, of \<open>namespaces\<close> and the namespace, the
  resource in lower case, the name and the subresources, each string being one segment that is neither empty nor a dot segment and has no slash. No
  string that is accepted leads out of the prefix.
\<close>
theorem request_path_exact:
  fixes c :: "('bo, 'rl) RESTClient" and calls :: "('b, 'e) rq_call list"
  assumes "rq_err (fold rq_apply calls (NewRequest nb c)) = None"
  shows "\<exists>prefix. rq_pathPrefix (NewRequest nb c :: ('bo, 'rl, 'b, 'e) Request) = path_of prefix \<and>
    rq_path (fold rq_apply calls (NewRequest nb c)) = path_of (prefix @ rq_segments calls) \<and>
    (\<forall>s \<in> set (prefix @ rq_segments calls). plain s)"
proof -
  obtain prefix where p: "rq_pathPrefix (NewRequest nb c :: ('bo, 'rl, 'b, 'e) Request) = path_of prefix" "\<forall>s \<in> set prefix. plain s"
      "rq_holds (path_of prefix) [] (NewRequest nb c :: ('bo, 'rl, 'b, 'e) Request)"
    using NewRequest_holds [of nb c] by blast
  from rq_calls_hold [OF p(3) assms]
  have "rq_holds (path_of prefix) calls (fold rq_apply calls (NewRequest nb c))" by simp
  from holds_path [OF p(2) this] show ?thesis using p(1,2) by auto
qed

definition demo_rest_client :: "(unit, unit) RESTClient" where
  "demo_rest_client = \<lparr>rc_base = Some \<lparr>u_Host = ''h'', u_Path = ''/k8s/'', u_Query = Map.empty\<rparr>, rc_versionedAPIPath = ''/api/v1'',
     rc_content = \<lparr>cc_AcceptContentTypes = '''', cc_ContentType = ''application/json'', cc_Group = ''''\<rparr>, rc_createBackoffMgr = None,
     rc_rateLimiter = None, rc_timeout = None\<rparr>"

definition demo_calls :: "(unit, unit) rq_call list" where
  "demo_calls = [CVerb ''GET'', CResource ''Pods'', CNamespace ''ns'', CName ''a..'', CTimeout 5, CSubResource [''log'']]"

theorem request_path_exact_witness:
  "\<exists>prefix. rq_path (fold rq_apply demo_calls (NewRequest () demo_rest_client)) =
     path_of (prefix @ [''namespaces'', ''ns'', ''pods'', ''a..'', ''log''])"
proof -
  have "rq_err (fold rq_apply demo_calls (NewRequest () demo_rest_client)) = None" by code_simp
  note path = request_path_exact [OF this]
  have "rq_segments demo_calls = [''namespaces'', ''ns'', ''pods'', ''a..'', ''log'']" by code_simp
  then show ?thesis using path by auto
qed

text \<open>The template of a URL is computed without an index out of range.\<close>

lemma template_never_panics: "rq_finalURLTemplate duration_String r \<noteq> None"
proof -
  have "template_segments ss i \<noteq> None" for ss i
    by (auto simp: template_segments_def seg_at_def Let_def)
  moreover have "\<exists>u x. seg_at ss g = Some x" if "g \<le> 1" "\<not> length ss \<le> 2" for ss g
    using that by (simp add: seg_at_def)
  ultimately show ?thesis
    by (auto simp: rq_finalURLTemplate_def Let_def seg_at_def split: option.splits if_splits)
qed

text \<open>A request with an error keeps it whatever is called.\<close>

lemma error_sticks: "rq_err r = Some e \<Longrightarrow> rq_err (fold rq_apply calls r) = Some e \<and> rq_place (fold rq_apply calls r) = rq_place r"
proof (induction calls arbitrary: r)
  case (Cons c calls)
  have "rq_err (rq_apply c r) = Some e \<and> rq_place (rq_apply c r) = rq_place r"
    using Cons.prems by (cases c) (simp_all add: rq_place_def rq_Verb_def rq_Namespace_def rq_Resource_def rq_Name_def rq_SubResource_def rq_Param_def
      rq_SpecificallyVersionedParams_def rq_SetHeader_def rq_Timeout_def rq_MaxRetries_def rq_Body_def unless_err_def)
  then show ?case using Cons.IH [of "rq_apply c r"] by simp
qed simp

end
