(* ===== verification/RestResult.thy ===== *)
theory RestResult
  imports RestRequest
begin

text \<open>
  \<open>rest/request.go\<close> from \<open>transformResponse\<close> on: what a client makes of a response, and the methods of \<open>Result\<close>; \<open>rest/warnings.go\<close>.

  Decoders, the negotiator, the parsing of media types and of warning headers are the argument \<open>codec_env\<close>. The body of a response is given by what reading it to
  the end returns. \<open>errors.FromObject\<close> of a \<open>Status\<close> is the error \<open>RExt (ce_FromObject \<dots>)\<close>.

  The lemmas: which responses are errors, and which error a caller sees: the \<open>Status\<close> that the server sent, if it can be decoded, and otherwise
  one made of the code, the request and at most 2048 bytes of the text.
\<close>

section \<open>Responses\<close>

datatype 'e body_read = ReadOk string | ReadStreamError 'e | ReadError 'e

record 'e http_response =
  hr_StatusCode :: int
  hr_Header :: url_values
  hr_Body :: "'e body_read option"

text \<open>\<open>Header.Get\<close>, for a key that is canonical already.\<close>

definition header_Get :: "url_values \<Rightarrow> string \<Rightarrow> string" where
  "header_Get h key = (case h key of Some (v # _) \<Rightarrow> v | _ \<Rightarrow> '''')"

definition retryAfterSeconds :: "'e http_response \<Rightarrow> int option" where
  "retryAfterSeconds resp =
     (let h = header_Get (hr_Header resp) ''Retry-After'' in if length h > 0 then Atoi h else None)"

record warning =
  w_Code :: int
  w_Agent :: string
  w_Text :: string

text \<open>
  A decoded object: \<open>DStatus s x\<close> is a \<open>metav1.Status\<close> whose field \<open>Status\<close> is \<open>s\<close>. \<open>ce_Decode\<close> has the decoder, the bytes, whether the kind defaults to
  version v1, and the object to decode into.
\<close>

datatype 'o decoded = DStatus string 'o | DObject 'o

record ('p, 'd, 'o, 'e) codec_env =
  ce_ParseMediaType :: "string \<Rightarrow> 'e + string \<times> 'p"
  ce_Decoder :: "string \<Rightarrow> 'p \<Rightarrow> 'e + 'd"
  ce_Decode :: "'d \<Rightarrow> string \<Rightarrow> bool \<Rightarrow> 'o option \<Rightarrow> 'e + 'o decoded"
  ce_FromObject :: "'o \<Rightarrow> 'e"
  ce_NewInternalError :: "'e \<Rightarrow> 'e"
  ce_IsUnexpectedServerError :: "'e rest_err \<Rightarrow> bool"
  ce_ParseWarningHeaders :: "string list \<Rightarrow> warning list"

section \<open>Warnings\<close>

text \<open>\<open>warningWriter\<close>, with the lines written so far.\<close>

record warningWriter =
  ww_out :: "string list"
  ww_Deduplicate :: bool
  ww_Color :: bool
  ww_writtenCount :: nat
  ww_written :: "string set"

definition NewWarningWriter :: "string list \<Rightarrow> bool \<Rightarrow> bool \<Rightarrow> warningWriter" where
  "NewWarningWriter out deduplicate color =
     \<lparr>ww_out = out, ww_Deduplicate = deduplicate, ww_Color = color, ww_writtenCount = 0, ww_written = {}\<rparr>"

definition yellowColor :: string where
  "yellowColor = CHR 0x1B # ''[33;1m''"

definition resetColor :: string where
  "resetColor = CHR 0x1B # ''[0m''"

definition ww_HandleWarningHeader :: "warning \<Rightarrow> warningWriter \<Rightarrow> warningWriter" where
  "ww_HandleWarningHeader x w =
     (let message = w_Text x
      in if w_Code x \<noteq> 299 \<or> length message = 0 then w
         else if ww_Deduplicate w \<and> message \<in> ww_written w then w
         else let w = (if ww_Deduplicate w then w\<lparr>ww_written := insert message (ww_written w)\<rparr> else w);
                  w = w\<lparr>ww_writtenCount := ww_writtenCount w + 1\<rparr>;
                  line = (if ww_Color w then yellowColor @ ''Warning:'' @ resetColor @ '' '' @ message else ''Warning: '' @ message)
              in w\<lparr>ww_out := ww_out w @ [line]\<rparr>)"

text \<open>The handler is called with the warnings that are returned, in order.\<close>

definition handleWarnings :: "('p, 'd, 'o, 'e) codec_env \<Rightarrow> url_values \<Rightarrow> warning list" where
  "handleWarnings env headers = ce_ParseWarningHeaders env (case headers ''Warning'' of Some ws \<Rightarrow> ws | None \<Rightarrow> [])"

section \<open>Results\<close>

record ('d, 'e) Result =
  rs_body :: string
  rs_warnings :: "warning list"
  rs_contentType :: string
  rs_err :: "'e rest_err option"
  rs_statusCode :: int
  rs_decoder :: "'d option"

definition empty_result :: "('d, 'e) Result" where
  "empty_result = \<lparr>rs_body = '''', rs_warnings = [], rs_contentType = '''', rs_err = None, rs_statusCode = 0, rs_decoder = None\<rparr>"

definition maxUnstructuredResponseTextBytes :: nat where
  "maxUnstructuredResponseTextBytes = 2048"

text \<open>\<open>strings.TrimSpace\<close> on ASCII.\<close>

definition is_space :: "char \<Rightarrow> bool" where
  "is_space c \<longleftrightarrow> c \<in> {CHR 0x09, CHR 0x0A, CHR 0x0B, CHR 0x0C, CHR 0x0D, CHR '' ''}"

definition TrimSpace :: "string \<Rightarrow> string" where
  "TrimSpace s = rev (dropWhile is_space (rev (dropWhile is_space s)))"

definition isTextResponse :: "('p, 'd, 'o, 'e) codec_env \<Rightarrow> 'e http_response \<Rightarrow> bool" where
  "isTextResponse env resp =
     (let contentType = header_Get (hr_Header resp) ''Content-Type''
      in if length contentType = 0 then True
         else case ce_ParseMediaType env contentType of Inl _ \<Rightarrow> False | Inr (media, _) \<Rightarrow> has_prefix media ''text/'')"

definition newUnstructuredResponseError ::
  "('bo, 'rl, 'b, 'e) Request \<Rightarrow> string \<Rightarrow> bool \<Rightarrow> int \<Rightarrow> string \<Rightarrow> int \<Rightarrow> 'e rest_err"
where
  "newUnstructuredResponseError r body is_text statusCode method retryAfter =
     (let body = (if length body > maxUnstructuredResponseTextBytes then take maxUnstructuredResponseTextBytes body else body);
          message = (if is_text then TrimSpace body else ''unknown'');
          group = (if length (rq_resource r) > 0 then cc_Group (rc_content (rq_c r)) else '''');
          resource = (if length (rq_resource r) > 0 then rq_resource r else '''')
      in RServer statusCode method group resource (rq_resourceName r) message retryAfter)"

text \<open>\<open>body = None\<close> is a nil slice; then up to 2048 bytes are read.\<close>

definition transformUnstructuredResponseError ::
  "('p, 'd, 'o, 'e) codec_env \<Rightarrow> ('bo, 'rl, 'b, 'e) Request \<Rightarrow> 'e http_response \<Rightarrow> string \<Rightarrow> string option \<Rightarrow> 'e rest_err"
where
  "transformUnstructuredResponseError env r resp method body =
     (let body = (case (body, hr_Body resp) of
                    (None, Some (ReadOk data)) \<Rightarrow> take maxUnstructuredResponseTextBytes data
                  | (None, _) \<Rightarrow> ''''
                  | (Some data, _) \<Rightarrow> data);
          retryAfter = (case retryAfterSeconds resp of Some s \<Rightarrow> s | None \<Rightarrow> 0)
      in newUnstructuredResponseError r body (isTextResponse env resp) (hr_StatusCode resp) method retryAfter)"

definition transformResponse ::
  "('p, 'd, 'o, 'e) codec_env \<Rightarrow> ('bo, 'rl, 'b, 'e) Request \<Rightarrow> 'e http_response \<Rightarrow> string \<Rightarrow> ('d, 'e) Result"
where
  "transformResponse env r resp method =
     (case hr_Body resp of
        Some (ReadStreamError err) \<Rightarrow>
          empty_result\<lparr>rs_err := Some (RWrapf ''stream error when reading response body, may be caused by closed connection. Please retry. Original error: %w'' (RExt err))\<rparr>
      | Some (ReadError err) \<Rightarrow>
          empty_result\<lparr>rs_err := Some (RWrapf ''unexpected error when reading response body. Please retry. Original error: %w'' (RExt err))\<rparr>
      | read \<Rightarrow>
          let data = (case read of Some (ReadOk data) \<Rightarrow> Some data | _ \<Rightarrow> None);
              body = (case data of Some d \<Rightarrow> d | None \<Rightarrow> '''');
              contentType = header_Get (hr_Header resp) ''Content-Type'';
              contentType = (if length contentType = 0 then cc_ContentType (rc_content (rq_c r)) else contentType);
              bad = (hr_StatusCode resp \<noteq> 101 \<and> (hr_StatusCode resp < 200 \<or> hr_StatusCode resp > 206));
              warnings = handleWarnings env (hr_Header resp);
              res = \<lparr>rs_body = body, rs_warnings = warnings, rs_contentType = contentType, rs_err = None,
                     rs_statusCode = hr_StatusCode resp, rs_decoder = None\<rparr>;
              structured = (\<lambda>decoder.
                if bad
                then res\<lparr>rs_decoder := decoder,
                         rs_err := Some (newUnstructuredResponseError r body (isTextResponse env resp) (hr_StatusCode resp) method
                                           (case retryAfterSeconds resp of Some s \<Rightarrow> s | None \<Rightarrow> 0))\<rparr>
                else res\<lparr>rs_decoder := decoder\<rparr>)
          in if length contentType > 0
             then (case ce_ParseMediaType env contentType of
                     Inl err \<Rightarrow> empty_result\<lparr>rs_err := Some (RExt (ce_NewInternalError env err))\<rparr>
                   | Inr (mediaType, params) \<Rightarrow>
                       (case ce_Decoder env mediaType params of
                          Inl err \<Rightarrow>
                            if bad then empty_result\<lparr>rs_err := Some (transformUnstructuredResponseError env r resp method data)\<rparr> else res
                        | Inr decoder \<Rightarrow> structured (Some decoder)))
             else structured None)"

definition Result_Error :: "('p, 'd, 'o, 'e) codec_env \<Rightarrow> ('d, 'e) Result \<Rightarrow> 'e rest_err option" where
  "Result_Error env r =
     (case (rs_err r, rs_decoder r) of
        (Some err, Some decoder) \<Rightarrow>
          if \<not> ce_IsUnexpectedServerError env err \<or> length (rs_body r) = 0 then Some err
          else (case ce_Decode env decoder (rs_body r) True None of
                  Inr (DStatus status t) \<Rightarrow> if status = ''Failure'' then Some (RExt (ce_FromObject env t)) else Some err
                | _ \<Rightarrow> Some err)
      | (err, _) \<Rightarrow> err)"

definition Result_Raw :: "('d, 'e) Result \<Rightarrow> string \<times> 'e rest_err option" where
  "Result_Raw r = (rs_body r, rs_err r)"

definition Result_Get :: "('p, 'd, 'o, 'e) codec_env \<Rightarrow> ('d, 'e) Result \<Rightarrow> 'e rest_err option + 'o decoded" where
  "Result_Get env r =
     (if rs_err r \<noteq> None then Inl (Result_Error env r)
      else case rs_decoder r of
             None \<Rightarrow> Inl (Some (RErrorf ''serializer for %s doesn't exist'' [rs_contentType r]))
           | Some decoder \<Rightarrow>
               (case ce_Decode env decoder (rs_body r) False None of
                  Inl err \<Rightarrow> Inl (Some (RExt err))
                | Inr (DStatus status t) \<Rightarrow> if status \<noteq> ''Success'' then Inl (Some (RExt (ce_FromObject env t))) else Inr (DStatus status t)
                | Inr out \<Rightarrow> Inr out))"

text \<open>\<open>Into\<close>: \<open>same\<close> tells whether the decoder returned the object it was given, \<open>into\<close>.\<close>

definition Result_Into :: "('p, 'd, 'o, 'e) codec_env \<Rightarrow> ('o decoded \<Rightarrow> 'o \<Rightarrow> bool) \<Rightarrow> ('d, 'e) Result \<Rightarrow> 'o \<Rightarrow> 'e rest_err option" where
  "Result_Into env same r obj =
     (if rs_err r \<noteq> None then Result_Error env r
      else case rs_decoder r of
             None \<Rightarrow> Some (RErrorf ''serializer for %s doesn't exist'' [rs_contentType r])
           | Some decoder \<Rightarrow>
               if length (rs_body r) = 0 then Some (RErrorf ''0-length response with status code: %d and content type: %s'' [rs_contentType r])
               else (case ce_Decode env decoder (rs_body r) False (Some obj) of
                       Inl err \<Rightarrow> Some (RExt err)
                     | Inr out \<Rightarrow>
                         if same out obj then None
                         else (case out of
                                 DStatus status t \<Rightarrow> if status \<noteq> ''Success'' then Some (RExt (ce_FromObject env t)) else None
                               | DObject _ \<Rightarrow> None)))"

definition Result_StatusCode :: "('d, 'e) Result \<Rightarrow> int" where
  "Result_StatusCode r = rs_statusCode r"

definition Result_ContentType :: "('d, 'e) Result \<Rightarrow> string" where
  "Result_ContentType r = rs_contentType r"

definition Result_WasCreated :: "('d, 'e) Result \<Rightarrow> bool" where
  "Result_WasCreated r \<longleftrightarrow> rs_statusCode r = 201"

definition Result_Warnings :: "('d, 'e) Result \<Rightarrow> warning list" where
  "Result_Warnings r = rs_warnings r"

section \<open>Which responses are errors\<close>

definition code_ok :: "int \<Rightarrow> bool" where
  "code_ok code \<longleftrightarrow> code = 101 \<or> 200 \<le> code \<and> code \<le> 206"

lemma length_TrimSpace: "length (TrimSpace s) \<le> length s"
  unfolding TrimSpace_def by (metis length_dropWhile_le length_rev order_trans)

text \<open>Whatever the body and the content type are, a response whose code is not good is an error, and a caller gets no object from it.\<close>

lemma bad_code_is_error:
  assumes "\<not> code_ok (hr_StatusCode resp)"
  shows "rs_err (transformResponse env r resp method) \<noteq> None"
  using assms
  by (auto simp: transformResponse_def Let_def code_ok_def split: option.split body_read.split sum.split)

lemma Result_Get_error: "rs_err res \<noteq> None \<Longrightarrow> \<exists>err. Result_Get env res = Inl (Some err)"
  by (auto simp: Result_Get_def Result_Error_def split: option.split sum.split decoded.split)

lemma response_errors:
  assumes "hr_Body resp = Some (ReadOk body)" and bad: "\<not> code_ok (hr_StatusCode resp)"
    and "header_Get (hr_Header resp) ''Content-Type'' = contentType" "contentType \<noteq> ''''"
    and "ce_ParseMediaType env contentType = Inr (mediaType, params)" "ce_Decoder env mediaType params = Inr decoder"
    and "\<forall>a b c d e f g. ce_IsUnexpectedServerError env (RServer a b c d e f g)"
  shows "Result_Get env (transformResponse env r resp method) = Inl (Some (
      case (if body = '''' then Inr None else map_sum (\<lambda>x. x) Some (ce_Decode env decoder body True None)) of
        Inr (Some (DStatus status t)) \<Rightarrow>
          if status = ''Failure'' then RExt (ce_FromObject env t)
          else transformUnstructuredResponseError env r resp method (Some body)
      | _ \<Rightarrow> transformUnstructuredResponseError env r resp method (Some body)))"
proof -
  let ?err = "transformUnstructuredResponseError env r resp method (Some body)"
  have err: "ce_IsUnexpectedServerError env ?err"
    using assms(7) by (simp add: transformUnstructuredResponseError_def newUnstructuredResponseError_def Let_def)
  obtain res where res: "transformResponse env r resp method = res" by blast
  have "hr_StatusCode resp \<noteq> 101 \<and> (hr_StatusCode resp < 200 \<or> hr_StatusCode resp > 206)" using bad by (auto simp: code_ok_def)
  then have "rs_err res = Some ?err" "rs_decoder res = Some decoder" "rs_body res = body"
    by (simp_all add: res [symmetric] transformResponse_def assms(1,3-6) Let_def code_ok_def transformUnstructuredResponseError_def)
  then show ?thesis using err unfolding res
    by (auto simp: Result_Get_def Result_Error_def split: sum.split decoded.split)
qed

text \<open>The message of an error that is made of the text of the response has at most 2048 bytes.\<close>

lemma unstructured_message_bounded:
  "\<exists>m. transformUnstructuredResponseError env r resp method body =
      RServer (hr_StatusCode resp) method (if rq_resource r = '''' then '''' else cc_Group (rc_content (rq_c r))) (rq_resource r) (rq_resourceName r) m
        (case retryAfterSeconds resp of Some s \<Rightarrow> s | None \<Rightarrow> 0) \<and> length m \<le> 2048"
proof -
  have "length (TrimSpace (take 2048 b)) \<le> 2048" for b using length_TrimSpace [of "take 2048 b"] by (simp add: le_trans)
  moreover have "length b \<le> 2048 \<Longrightarrow> length (TrimSpace b) \<le> 2048" for b using length_TrimSpace [of b] by simp
  ultimately show ?thesis
    by (auto simp: transformUnstructuredResponseError_def newUnstructuredResponseError_def maxUnstructuredResponseTextBytes_def Let_def)
qed

section \<open>Warnings are written once\<close>

text \<open>
  With \<open>Deduplicate\<close> the lines written are those of the first occurrences of the messages with code 299, and the count is their number.
\<close>

definition relevant :: "warning list \<Rightarrow> string list" where
  "relevant ws = map w_Text (filter (\<lambda>w. w_Code w = 299 \<and> w_Text w \<noteq> '''') ws)"

lemma warnings_written:
  assumes "ww_Deduplicate w"
  shows "ww_written (fold ww_HandleWarningHeader ws w) = ww_written w \<union> set (relevant ws) \<and>
    ww_writtenCount (fold ww_HandleWarningHeader ws w) = ww_writtenCount w + card (set (relevant ws) - ww_written w) \<and>
    length (ww_out (fold ww_HandleWarningHeader ws w)) = length (ww_out w) + card (set (relevant ws) - ww_written w)"
  using assms
proof (induction ws arbitrary: w)
  case (Cons x ws)
  let ?w = "ww_HandleWarningHeader x w"
  have d: "ww_Deduplicate ?w" using Cons.prems by (auto simp: ww_HandleWarningHeader_def Let_def)
  consider "relevant (x # ws) = relevant ws" "?w = w"
    | "relevant (x # ws) = w_Text x # relevant ws" "w_Text x \<in> ww_written w" "?w = w"
    | "relevant (x # ws) = w_Text x # relevant ws" "w_Text x \<notin> ww_written w" "ww_written ?w = insert (w_Text x) (ww_written w)"
      "ww_writtenCount ?w = ww_writtenCount w + 1" "length (ww_out ?w) = length (ww_out w) + 1"
    using Cons.prems by (cases "w_Code x = 299 \<and> w_Text x \<noteq> ''''"; cases "w_Text x \<in> ww_written w")
      (simp_all add: relevant_def ww_HandleWarningHeader_def Let_def)
  then show ?case
  proof cases
    case 3
    have "set (relevant (x # ws)) - ww_written w = insert (w_Text x) (set (relevant ws) - insert (w_Text x) (ww_written w))" using 3 by auto
    then have "card (set (relevant (x # ws)) - ww_written w) = Suc (card (set (relevant ws) - insert (w_Text x) (ww_written w)))" by simp
    then show ?thesis using Cons.IH [OF d] 3 by auto
  qed (use Cons.IH [OF d] in \<open>auto simp: insert_absorb intro: arg_cong [where f = card]\<close>)
qed (simp add: relevant_def)

end
