(* ===== verification/Backoff.thy ===== *)
theory Backoff
  imports K8s_Prelude
begin

text \<open>
  \<open>util/flowcontrol/backoff.go\<close>: exponential backoff per item, with optional jitter.

  Instants and durations are nanoseconds; products of durations wrap at 64 bits and a difference of
  instants saturates, as in Go. The generator and the floating point product of the jitter,
  \<open>time.Duration(rand.Float64() * maxJitterFactor * float64(delay))\<close>, are the argument \<open>draw\<close>, from the state of the
  generator, the factor and the delay to the next state and the jitter. The clock is an argument.

  The lemmas: without jitter the delay doubles up to the maximum and restarts after twice the maximum; with
  jitter it stays between the plain delay and a bound; collecting garbage is not visible to later events.
\<close>

section \<open>Operations\<close>

record backoffEntry =
  be_backoff :: int
  be_lastUpdate :: int

record ('f, 'r) Backoff =
  bo_defaultDuration :: int
  bo_maxDuration :: int
  bo_perItemBackoff :: "string \<Rightarrow> backoffEntry option"
  bo_rand :: "'r option"
  bo_maxJitterFactor :: 'f

type_synonym ('f, 'r) draw = "'r \<Rightarrow> 'f \<Rightarrow> int \<Rightarrow> 'r \<times> int"

text \<open>\<open>source\<close> makes a generator from the clock, \<open>positive\<close> is the comparison of the factor with zero.\<close>

definition newBackoff :: "(int \<Rightarrow> 'r) \<Rightarrow> ('f \<Rightarrow> bool) \<Rightarrow> int \<Rightarrow> int \<Rightarrow> int \<Rightarrow> 'f \<Rightarrow> ('f, 'r) Backoff" where
  "newBackoff source positive now initial maximum maxJitterFactor =
     \<lparr>bo_defaultDuration = initial, bo_maxDuration = maximum, bo_perItemBackoff = Map.empty,
      bo_rand = (if positive maxJitterFactor then Some (source now) else None),
      bo_maxJitterFactor = maxJitterFactor\<rparr>"

definition bo_Get :: "('f, 'r) Backoff \<Rightarrow> string \<Rightarrow> int" where
  "bo_Get p key = (case bo_perItemBackoff p key of Some entry \<Rightarrow> be_backoff entry | None \<Rightarrow> 0)"

definition hasExpired :: "int \<Rightarrow> int \<Rightarrow> int \<Rightarrow> bool" where
  "hasExpired eventTime lastUpdate maxDuration \<longleftrightarrow> time_Sub eventTime lastUpdate > wrap64 (maxDuration * 2)"

definition bo_jitter :: "('f, 'r) draw \<Rightarrow> ('f, 'r) Backoff \<Rightarrow> int \<Rightarrow> ('f, 'r) Backoff \<times> int" where
  "bo_jitter draw p delay =
     (case bo_rand p of
        None \<Rightarrow> (p, 0)
      | Some r \<Rightarrow> let (r', j) = draw r (bo_maxJitterFactor p) delay in (p\<lparr>bo_rand := Some r'\<rparr>, j))"

text \<open>\<open>initEntryUnsafe\<close> puts a fresh entry with the zero time into the map.\<close>

definition initEntryUnsafe :: "('f, 'r) Backoff \<Rightarrow> string \<Rightarrow> ('f, 'r) Backoff \<times> backoffEntry" where
  "initEntryUnsafe p key =
     (let entry = \<lparr>be_backoff = bo_defaultDuration p, be_lastUpdate = 0\<rparr>
      in (p\<lparr>bo_perItemBackoff := (bo_perItemBackoff p)(key \<mapsto> entry)\<rparr>, entry))"

text \<open>\<open>Next\<close> works on the entry behind the pointer; at the end the map holds what it was changed to.\<close>

definition bo_Next :: "('f, 'r) draw \<Rightarrow> int \<Rightarrow> ('f, 'r) Backoff \<Rightarrow> string \<Rightarrow> int \<Rightarrow> ('f, 'r) Backoff" where
  "bo_Next draw now p key eventTime =
     (let (p', backoff) =
        (case bo_perItemBackoff p key of
           Some entry \<Rightarrow>
             if hasExpired eventTime (be_lastUpdate entry) (bo_maxDuration p)
             then let (p1, entry1) = initEntryUnsafe p key; (p2, j) = bo_jitter draw p1 (be_backoff entry1)
                  in (p2, wrap64 (be_backoff entry1 + j))
             else let delay = wrap64 (be_backoff entry * 2); (p2, j) = bo_jitter draw p (be_backoff entry);
                      delay = wrap64 (delay + j)
                  in (p2, min delay (bo_maxDuration p))
         | None \<Rightarrow>
             let (p1, entry1) = initEntryUnsafe p key; (p2, j) = bo_jitter draw p1 (be_backoff entry1)
             in (p2, wrap64 (be_backoff entry1 + j)))
      in p'\<lparr>bo_perItemBackoff := (bo_perItemBackoff p')(key \<mapsto> \<lparr>be_backoff = backoff, be_lastUpdate = now\<rparr>)\<rparr>)"

definition bo_Reset :: "('f, 'r) Backoff \<Rightarrow> string \<Rightarrow> ('f, 'r) Backoff" where
  "bo_Reset p key = p\<lparr>bo_perItemBackoff := (bo_perItemBackoff p)(key := None)\<rparr>"

definition bo_IsInBackOffSince :: "int \<Rightarrow> ('f, 'r) Backoff \<Rightarrow> string \<Rightarrow> int \<Rightarrow> bool" where
  "bo_IsInBackOffSince now p key eventTime =
     (case bo_perItemBackoff p key of
        None \<Rightarrow> False
      | Some entry \<Rightarrow>
          if hasExpired eventTime (be_lastUpdate entry) (bo_maxDuration p) then False
          else time_Sub now eventTime < be_backoff entry)"

definition bo_IsInBackOffSinceUpdate :: "('f, 'r) Backoff \<Rightarrow> string \<Rightarrow> int \<Rightarrow> bool" where
  "bo_IsInBackOffSinceUpdate p key eventTime =
     (case bo_perItemBackoff p key of
        None \<Rightarrow> False
      | Some entry \<Rightarrow>
          if hasExpired eventTime (be_lastUpdate entry) (bo_maxDuration p) then False
          else time_Sub eventTime (be_lastUpdate entry) < be_backoff entry)"

text \<open>The loop of \<open>GC\<close> over the entries, in the order the map gives.\<close>

fun bo_GC_loop :: "int \<Rightarrow> string list \<Rightarrow> ('f, 'r) Backoff \<Rightarrow> ('f, 'r) Backoff" where
  "bo_GC_loop now [] p = p"
| "bo_GC_loop now (key # keys) p =
     (case bo_perItemBackoff p key of
        None \<Rightarrow> bo_GC_loop now keys p
      | Some entry \<Rightarrow>
          if time_Sub now (be_lastUpdate entry) > wrap64 (bo_maxDuration p * 2)
          then bo_GC_loop now keys (p\<lparr>bo_perItemBackoff := (bo_perItemBackoff p)(key := None)\<rparr>)
          else bo_GC_loop now keys p)"

definition bo_GC :: "string list \<Rightarrow> int \<Rightarrow> ('f, 'r) Backoff \<Rightarrow> ('f, 'r) Backoff" where
  "bo_GC order now p = bo_GC_loop now order p"

definition bo_DeleteEntry :: "('f, 'r) Backoff \<Rightarrow> string \<Rightarrow> ('f, 'r) Backoff" where
  "bo_DeleteEntry p key = p\<lparr>bo_perItemBackoff := (bo_perItemBackoff p)(key := None)\<rparr>"

section \<open>How the delay grows\<close>

definition next_backoff :: "('f, 'r) Backoff \<Rightarrow> string \<Rightarrow> int \<Rightarrow> int \<Rightarrow> int" where
  "next_backoff p key eventTime j =
     (case bo_perItemBackoff p key of
        Some entry \<Rightarrow>
          if hasExpired eventTime (be_lastUpdate entry) (bo_maxDuration p) then wrap64 (bo_defaultDuration p + j)
          else min (wrap64 (wrap64 (be_backoff entry * 2) + j)) (bo_maxDuration p)
      | None \<Rightarrow> wrap64 (bo_defaultDuration p + j))"

definition jitter_base :: "('f, 'r) Backoff \<Rightarrow> string \<Rightarrow> int \<Rightarrow> int" where
  "jitter_base p key eventTime =
     (case bo_perItemBackoff p key of
        Some entry \<Rightarrow>
          if hasExpired eventTime (be_lastUpdate entry) (bo_maxDuration p) then bo_defaultDuration p else be_backoff entry
      | None \<Rightarrow> bo_defaultDuration p)"

lemma bo_jitter_snd: "snd (bo_jitter draw p delay) =
    (case bo_rand p of None \<Rightarrow> 0 | Some r \<Rightarrow> snd (draw r (bo_maxJitterFactor p) delay))"
  by (simp add: bo_jitter_def split: option.split prod.split)

lemma bo_jitter_fields [simp]:
  "bo_perItemBackoff (fst (bo_jitter draw p delay)) = bo_perItemBackoff p"
  "bo_defaultDuration (fst (bo_jitter draw p delay)) = bo_defaultDuration p"
  "bo_maxDuration (fst (bo_jitter draw p delay)) = bo_maxDuration p"
  "bo_rand p = None \<Longrightarrow> bo_rand (fst (bo_jitter draw p delay)) = None"
  by (auto simp: bo_jitter_def split: option.split prod.split)

lemma bo_Next_fields:
  "bo_defaultDuration (bo_Next draw now p key e) = bo_defaultDuration p"
  "bo_maxDuration (bo_Next draw now p key e) = bo_maxDuration p"
  "bo_rand p = None \<Longrightarrow> bo_rand (bo_Next draw now p key e) = None"
  by (auto simp: bo_Next_def initEntryUnsafe_def bo_jitter_def Let_def split: option.split prod.split)

lemma bo_Next_entry:
  "bo_perItemBackoff (bo_Next draw now p key e) = (bo_perItemBackoff p)
     (key \<mapsto> \<lparr>be_backoff = next_backoff p key e (snd (bo_jitter draw p (jitter_base p key e))), be_lastUpdate = now\<rparr>)"
  by (auto simp: bo_Next_def initEntryUnsafe_def bo_jitter_def Let_def next_backoff_def jitter_base_def fun_eq_iff
      split: option.split prod.split)

text \<open>A series of calls of \<open>Next\<close> for one item: the event time and the clock of each.\<close>

definition bo_nexts :: "('f, 'r) draw \<Rightarrow> string \<Rightarrow> ('f, 'r) Backoff \<Rightarrow> (int \<times> int) list \<Rightarrow> ('f, 'r) Backoff" where
  "bo_nexts draw key p calls = foldl (\<lambda>p (e, now). bo_Next draw now p key e) p calls"

text \<open>Every event comes no later than twice the maximum after the update before it.\<close>

definition steady :: "int \<Rightarrow> (int \<times> int) list \<Rightarrow> bool" where
  "steady m calls \<longleftrightarrow> successively (\<lambda>(e, now) (e', now'). e' - now \<le> 2 * m) calls"

text \<open>The jitter of a delay is between zero and \<open>J\<close> times the delay.\<close>

definition jitter_within :: "('f, 'r) draw \<Rightarrow> 'f \<Rightarrow> int \<Rightarrow> bool" where
  "jitter_within draw f J \<longleftrightarrow> (\<forall>r delay. 0 \<le> delay \<longrightarrow> 0 \<le> snd (draw r f delay) \<and> snd (draw r f delay) \<le> J * delay)"

lemma hasExpired_iff: "0 \<le> m \<Longrightarrow> m < 2 ^ 62 - 1 \<Longrightarrow> hasExpired e u m \<longleftrightarrow> e - u > 2 * m"
  unfolding hasExpired_def using wrap64_id [of "m * 2"] time_Sub_less [of "m * 2" e u] by (simp add: mult.commute)

lemma bo_Next_maxJitterFactor [simp]: "bo_maxJitterFactor (bo_Next draw now p key e) = bo_maxJitterFactor p"
  by (auto simp: bo_Next_def initEntryUnsafe_def bo_jitter_def Let_def split: option.split prod.split)

lemma bo_nexts_fields:
  "bo_defaultDuration (bo_nexts draw key p calls) = bo_defaultDuration p"
  "bo_maxDuration (bo_nexts draw key p calls) = bo_maxDuration p"
  "bo_rand p = None \<Longrightarrow> bo_rand (bo_nexts draw key p calls) = None"
  "bo_maxJitterFactor (bo_nexts draw key p calls) = bo_maxJitterFactor p"
  by (induction calls arbitrary: p) (auto simp: bo_nexts_def bo_Next_fields)

lemma bo_nexts_snoc: "bo_nexts draw key p (calls @ [(e, now)]) = bo_Next draw now (bo_nexts draw key p calls) key e"
  by (simp add: bo_nexts_def)

lemma steady_snoc: "steady m (calls @ [(e, now)]) \<longleftrightarrow> steady m calls \<and> (calls = [] \<or> e - snd (last calls) \<le> 2 * m)"
  by (auto simp: steady_def successively_append_iff split: prod.split)

lemma bo_nexts_lastUpdate:
  "calls \<noteq> [] \<Longrightarrow> \<exists>b. bo_perItemBackoff (bo_nexts draw key p calls) key = Some \<lparr>be_backoff = b, be_lastUpdate = snd (last calls)\<rparr>"
  by (induction calls rule: rev_induct) (auto simp: bo_nexts_snoc bo_Next_entry)

lemma jitter_bounds:
  assumes "jitter_within draw (bo_maxJitterFactor p) J" and "0 \<le> delay" and "0 \<le> J"
  shows "0 \<le> snd (bo_jitter draw p delay)" "snd (bo_jitter draw p delay) \<le> J * delay"
  using assms by (auto simp: bo_jitter_snd jitter_within_def split: option.split)

text \<open>The bounds after k + 1 calls.\<close>

definition grown :: "int \<Rightarrow> int \<Rightarrow> int \<Rightarrow> nat \<Rightarrow> int \<Rightarrow> bool" where
  "grown d m J k b \<longleftrightarrow> min (d * 2 ^ k) m \<le> b \<and> b \<le> d * (1 + J) * (2 + J) ^ k \<and> (k = 0 \<or> b \<le> m)"

lemma grown_first:
  assumes "0 < d" and "d \<le> m" and "(1 + J) * (2 + J) * m < 2 ^ 63" and "0 \<le> J" and "0 \<le> j" and "j \<le> J * d"
  shows "grown d m J 0 (wrap64 (d + j))"
proof -
  have "d + j \<le> (1 + J) * m"
    using assms mult_left_mono [of d m "1 + J"] by (simp add: distrib_right)
  also have "\<dots> \<le> (1 + J) * (2 + J) * m" using assms by (intro mult_right_mono) (auto simp: algebra_simps)
  finally have "d + j < 2 ^ 63" using assms(3) by linarith
  then show ?thesis using assms by (simp add: grown_def wrap64_id distrib_left mult.commute)
qed

lemma grown_next:
  assumes "0 < d" and "d \<le> m" and "(1 + J) * (2 + J) * m < 2 ^ 63" and "0 \<le> J" and "0 \<le> j" and "j \<le> J * b"
    and b: "grown d m J k b"
  shows "grown d m J (Suc k) (min (wrap64 (wrap64 (b * 2) + j)) m)"
proof -
  have "d \<le> d * 2 ^ k" using assms(1) by simp
  then have "d \<le> min (d * 2 ^ k) m" using assms(2) by simp
  then have pos: "0 < b" using b assms(1) unfolding grown_def by linarith
  have "d * (1 + J) \<le> (1 + J) * m" using assms mult_left_mono [of d m "1 + J"] by (simp add: mult.commute)
  moreover have "m \<le> (1 + J) * m" using assms(1,2,4) by (simp add: distrib_right)
  ultimately have "b \<le> (1 + J) * m" using b by (auto simp: grown_def)
  then have "(2 + J) * b \<le> (2 + J) * ((1 + J) * m)" using assms(4) by (intro mult_left_mono) auto
  then have "(2 + J) * b < 2 ^ 63" using assms(3) by (simp add: mult.assoc mult.left_commute)
  then have "b * 2 + j < 2 ^ 63" using assms(6) by (simp add: distrib_right)
  moreover have "b * 2 < 2 ^ 63" using calculation assms(5) by linarith
  ultimately have "wrap64 (wrap64 (b * 2) + j) = b * 2 + j" using pos assms(5) by (simp add: wrap64_id)
  moreover have "min (d * 2 ^ Suc k) m \<le> b * 2" using b pos by (auto simp: grown_def)
  moreover have "b * 2 + j \<le> d * (1 + J) * (2 + J) ^ Suc k"
  proof -
    have "b * 2 + j \<le> (2 + J) * b" using assms(6) by (simp add: distrib_right)
    also have "\<dots> \<le> (2 + J) * (d * (1 + J) * (2 + J) ^ k)" using b assms(4) by (intro mult_left_mono) (auto simp: grown_def)
    finally show ?thesis by (simp add: mult.left_commute)
  qed
  ultimately show ?thesis using assms(5) by (auto simp: grown_def)
qed

lemma bo_nexts_grown:
  assumes "0 < bo_defaultDuration p" and "bo_defaultDuration p \<le> bo_maxDuration p" and "0 \<le> J"
    and "(1 + J) * (2 + J) * bo_maxDuration p < 2 ^ 63 - 2" and "jitter_within draw (bo_maxJitterFactor p) J"
    and "bo_perItemBackoff p key = None" and "steady (bo_maxDuration p) calls" and "calls \<noteq> []"
  shows "grown (bo_defaultDuration p) (bo_maxDuration p) J (length calls - 1) (bo_Get (bo_nexts draw key p calls) key)"
  using assms(7,8)
proof (induction calls rule: rev_induct)
  case (snoc call calls)
  obtain e now where call: "call = (e, now)" by (cases call)
  let ?d = "bo_defaultDuration p" and ?m = "bo_maxDuration p" and ?q = "bo_nexts draw key p calls"
  let ?j = "snd (bo_jitter draw ?q (jitter_base ?q key e))"
  have get: "bo_Get (bo_nexts draw key p (calls @ [call])) key = next_backoff ?q key e ?j"
    by (simp add: call bo_nexts_snoc bo_Get_def bo_Next_entry)
  have within: "jitter_within draw (bo_maxJitterFactor ?q) J" using assms(5) by (simp add: bo_nexts_fields)
  have fits: "(1 + J) * (2 + J) * ?m < 2 ^ 63" using assms(4) by linarith
  show ?case
  proof (cases "calls = []")
    case True
    then have base: "jitter_base ?q key e = ?d" and "bo_perItemBackoff ?q key = None"
      using assms(6) by (simp_all add: bo_nexts_def jitter_base_def)
    moreover have "grown ?d ?m J 0 (wrap64 (?d + ?j))"
      using grown_first [OF assms(1,2) fits assms(3)] jitter_bounds [OF within _ assms(3), of "jitter_base ?q key e"] assms(1)
      unfolding base by simp
    ultimately show ?thesis unfolding get using True by (simp add: next_backoff_def bo_nexts_fields)
  next
    case False
    then obtain b where entry: "bo_perItemBackoff ?q key = Some \<lparr>be_backoff = b, be_lastUpdate = snd (last calls)\<rparr>"
      using bo_nexts_lastUpdate by blast
    have b: "grown ?d ?m J (length calls - 1) b"
      using snoc False by (simp add: call steady_snoc bo_Get_def entry)
    have "?m * 2 \<le> (1 + J) * (2 + J) * ?m"
      using assms(1-3) mult_right_mono [of 2 "(1 + J) * (2 + J)" ?m] by (simp add: algebra_simps)
    from order.strict_trans1 [OF this assms(4)] have "?m < 2 ^ 62 - 1" by simp
    then have "\<not> hasExpired e (snd (last calls)) ?m"
      using snoc.prems False assms(1,2) hasExpired_iff [of ?m] by (simp add: call steady_snoc)
    then have base: "jitter_base ?q key e = b" "next_backoff ?q key e ?j = min (wrap64 (wrap64 (b * 2) + ?j)) ?m"
      by (simp_all add: jitter_base_def next_backoff_def entry bo_nexts_fields)
    have "?d \<le> min (?d * 2 ^ (length calls - 1)) ?m" using assms(1,2) by simp
    then have "0 \<le> b" using b assms(1) unfolding grown_def by linarith
    then have "grown ?d ?m J (Suc (length calls - 1)) (min (wrap64 (wrap64 (b * 2) + ?j)) ?m)"
      using grown_next [OF assms(1,2) fits assms(3) _ _ b, of ?j] jitter_bounds [OF within _ assms(3), of b]
      unfolding base(1) by simp
    then show ?thesis unfolding get base(2) using False by simp
  qed
qed simp

lemma bo_restart:
  assumes "0 \<le> bo_maxDuration p" and "bo_maxDuration p < 2 ^ 62 - 1" and "bo_rand p = None"
    and "- (2 ^ 63) \<le> bo_defaultDuration p" and "bo_defaultDuration p < 2 ^ 63"
    and "bo_perItemBackoff p key = Some \<lparr>be_backoff = b, be_lastUpdate = u\<rparr>" and "e - u > 2 * bo_maxDuration p"
  shows "bo_Get (bo_Next draw now p key e) key = bo_defaultDuration p"
  using assms by (simp add: bo_Get_def bo_Next_entry next_backoff_def hasExpired_iff bo_jitter_snd wrap64_id)

text \<open>Without a generator the jitter is zero.\<close>

lemma bo_nexts_exact:
  assumes "0 < bo_defaultDuration p" and "bo_defaultDuration p \<le> bo_maxDuration p" and "bo_maxDuration p < 2 ^ 62 - 1"
    and "bo_rand p = None" and "bo_perItemBackoff p key = None" and "steady (bo_maxDuration p) calls" and "calls \<noteq> []"
  shows "bo_Get (bo_nexts draw key p calls) key = min (bo_defaultDuration p * 2 ^ (length calls - 1)) (bo_maxDuration p)"
proof -
  have "bo_nexts draw key q calls = bo_nexts (\<lambda>r _ _. (r, 0)) key q calls" if "bo_rand q = None" for q
    using that by (induction calls arbitrary: q)
      (auto simp: bo_nexts_def bo_Next_def bo_jitter_def initEntryUnsafe_def Let_def split: option.split)
  moreover have "jitter_within (\<lambda>r _ _. (r, 0)) (bo_maxJitterFactor p) 0" by (simp add: jitter_within_def)
  ultimately have "grown (bo_defaultDuration p) (bo_maxDuration p) 0 (length calls - 1) (bo_Get (bo_nexts draw key p calls) key)"
    using bo_nexts_grown [OF assms(1,2), of 0 "\<lambda>r _ _. (r, 0)" key calls] assms(3-7) by simp
  moreover have "length calls - 1 = 0 \<longrightarrow> bo_defaultDuration p * 2 ^ (length calls - 1) \<le> bo_maxDuration p" using assms(2) by simp
  ultimately show ?thesis by (auto simp: grown_def)
qed

text \<open>
  Backoff: for an item with no entry, after any series of k + 1 calls of \<open>Next\<close> in which no event comes later
  than twice the maximum after the update before it, the delay is at least the initial delay times 2 to
  the k capped at the maximum, and from the second call on at most the maximum; the first one may exceed the maximum by its jitter. Without a
  generator it is exactly the doubled and capped delay, and an event that comes later restarts it from the initial delay.
\<close>

theorem backoff_growth:
  assumes "0 < bo_defaultDuration p" and "bo_defaultDuration p \<le> bo_maxDuration p" and "0 \<le> J"
    and "(1 + J) * (2 + J) * bo_maxDuration p < 2 ^ 63 - 2" and "jitter_within draw (bo_maxJitterFactor p) J"
    and "bo_perItemBackoff p key = None" and "steady (bo_maxDuration p) calls" and "length calls = Suc k"
  shows "(let b = bo_Get (bo_nexts draw key p calls) key; plain = min (bo_defaultDuration p * 2 ^ k) (bo_maxDuration p) in
      plain \<le> b \<and> b \<le> bo_defaultDuration p * (1 + J) * (2 + J) ^ k \<and> (k = 0 \<or> b \<le> bo_maxDuration p) \<and>
      (bo_rand p = None \<longrightarrow> b = plain \<and>
        (\<forall>e now. e - snd (last calls) > 2 * bo_maxDuration p \<longrightarrow>
           bo_Get (bo_nexts draw key p (calls @ [(e, now)])) key = bo_defaultDuration p)))"
proof -
  let ?d = "bo_defaultDuration p" and ?m = "bo_maxDuration p"
  have ne: "calls \<noteq> []" and len: "length calls - 1 = k" using assms(8) by auto
  have general: "grown ?d ?m J k (bo_Get (bo_nexts draw key p calls) key)"
    using bo_nexts_grown [OF assms(1-7) ne] unfolding len .
  have "2 \<le> (1 + J) * (2 + J)" using assms(3) by (simp add: algebra_simps)
  then have "2 * ?m \<le> (1 + J) * (2 + J) * ?m" using assms(1,2) by (intro mult_right_mono) auto
  from order.strict_trans1 [OF this assms(4)] have small: "?m < 2 ^ 62 - 1" by simp
  have exact: "bo_Get (bo_nexts draw key p calls) key = min (?d * 2 ^ k) ?m" if "bo_rand p = None"
    using bo_nexts_exact [OF assms(1,2) small that assms(6,7) ne] unfolding len .
  have restart: "bo_Get (bo_nexts draw key p (calls @ [(e, now)])) key = ?d"
    if "bo_rand p = None" and "e - snd (last calls) > 2 * ?m" for e now
  proof -
    obtain b where entry: "bo_perItemBackoff (bo_nexts draw key p calls) key = Some \<lparr>be_backoff = b, be_lastUpdate = snd (last calls)\<rparr>"
      using bo_nexts_lastUpdate [OF ne] by blast
    show ?thesis
      using bo_restart [OF _ _ _ _ _ entry, of e draw now] that assms(1,2) small by (simp add: bo_nexts_snoc bo_nexts_fields)
  qed
  show ?thesis using general exact restart by (auto simp: Let_def grown_def)
qed

definition demo_backoff :: "(unit, unit) Backoff" where
  "demo_backoff = newBackoff (\<lambda>_. ()) (\<lambda>_. False) 0 10 100 ()"

theorem backoff_growth_witness:
  "bo_Get (bo_nexts (\<lambda>r _ _. (r, 0)) ''node'' demo_backoff [(0, 1), (5, 6), (20, 21)]) ''node'' = 40"
  using backoff_growth [of demo_backoff 0 "\<lambda>r _ _. (r, 0)" "''node''" "[(0, 1), (5, 6), (20, 21)]" 2]
  by (simp add: demo_backoff_def newBackoff_def jitter_within_def steady_def Let_def)

section \<open>Garbage collection\<close>

lemma bo_GC_loop_entries:
  "distinct keys \<Longrightarrow> bo_GC_loop now keys p = p\<lparr>bo_perItemBackoff := (\<lambda>key.
     case bo_perItemBackoff p key of
       Some entry \<Rightarrow> if key \<in> set keys \<and> time_Sub now (be_lastUpdate entry) > wrap64 (bo_maxDuration p * 2) then None else Some entry
     | None \<Rightarrow> None)\<rparr>"
proof (induction keys arbitrary: p)
  case Nil
  then show ?case by (auto simp: fun_eq_iff split: option.split intro!: Backoff.equality)
next
  case (Cons k keys)
  then show ?case by (auto simp: fun_eq_iff split: option.split intro!: Backoff.equality)
qed

text \<open>
  Garbage collection is not visible: for every event at or after the time at which \<open>GC\<close> ran, whether the item
  is in backoff, by either question, and what \<open>Next\<close> records for it are as if \<open>GC\<close> had not run; and an entry
  that \<open>GC\<close> keeps is unchanged.
\<close>

theorem GC_invisible:
  assumes "range_order order (bo_perItemBackoff p)" and "now \<le> eventTime"
  shows "bo_IsInBackOffSince now' (bo_GC order now p) key eventTime = bo_IsInBackOffSince now' p key eventTime \<and>
    bo_IsInBackOffSinceUpdate (bo_GC order now p) key eventTime = bo_IsInBackOffSinceUpdate p key eventTime \<and>
    bo_perItemBackoff (bo_Next draw now' (bo_GC order now p) key eventTime) key =
      bo_perItemBackoff (bo_Next draw now' p key eventTime) key \<and>
    bo_perItemBackoff (bo_GC order now p) \<subseteq>\<^sub>m bo_perItemBackoff p"
proof -
  let ?q = "bo_GC order now p" and ?old = "\<lambda>e. time_Sub now (be_lastUpdate e) > wrap64 (bo_maxDuration p * 2)"
  have q: "?q = p\<lparr>bo_perItemBackoff := (\<lambda>key. case bo_perItemBackoff p key of
      Some e \<Rightarrow> if ?old e then None else Some e | None \<Rightarrow> None)\<rparr>"
    using assms(1) unfolding bo_GC_def range_order_def
    by (subst bo_GC_loop_entries) (auto simp: fun_eq_iff split: option.split intro!: Backoff.equality)
  have old: "hasExpired eventTime (be_lastUpdate e) (bo_maxDuration p)" if "?old e" for e
    using that time_Sub_mono [OF assms(2), of "be_lastUpdate e"] unfolding hasExpired_def by linarith
  show ?thesis
    by (auto simp: q bo_IsInBackOffSince_def bo_IsInBackOffSinceUpdate_def bo_Next_entry next_backoff_def jitter_base_def
        bo_jitter_snd old map_le_def split: option.splits if_splits)
qed

theorem GC_invisible_witness:
  "bo_perItemBackoff (bo_GC [''node''] 500 (bo_Next (\<lambda>r _ _. (r, 0)) 1 demo_backoff ''node'' 0)) ''node'' = None \<and>
   \<not> bo_IsInBackOffSince 500 (bo_GC [''node''] 500 (bo_Next (\<lambda>r _ _. (r, 0)) 1 demo_backoff ''node'' 0)) ''node'' 500"
proof -
  let ?p = "bo_Next (\<lambda>r _ _. (r, 0)) 1 demo_backoff ''node'' 0"
  have entry: "bo_perItemBackoff ?p = [''node'' \<mapsto> \<lparr>be_backoff = 10, be_lastUpdate = 1\<rparr>]" and "bo_maxDuration ?p = 100"
    by (simp_all add: bo_Next_entry bo_Next_fields demo_backoff_def newBackoff_def next_backoff_def bo_jitter_snd wrap64_def)
  then show ?thesis
    using GC_invisible [of "[''node'']" ?p 500 500 500 "''node''"]
    by (simp add: range_order_def bo_GC_def bo_IsInBackOffSince_def hasExpired_def time_Sub_def wrap64_def)
qed

end
