(* ===== verification/RestRetry.thy ===== *)
theory RestRetry
  imports RestResult Backoff
begin

text \<open>
  \<open>rest/with_retry.go\<close>, \<open>rest/urlbackoff.go\<close>, \<open>rest/client.go\<close> and the loops of \<open>rest/request.go\<close> that send a request: \<open>request\<close> with \<open>Do\<close> and \<open>DoRaw\<close>,
  \<open>Watch\<close> and \<open>Stream\<close>.

  What the world does during the i-th attempt is the record \<open>attempt_in\<close>: whether the context is done, what the rate limiter's \<open>Wait\<close>, \<open>http.NewRequest\<close> and
  \<open>client.Do\<close> return, and the clock. \<open>Do\<close> returns an error or a response, as \<open>net/http\<close> documents. The predicates on errors and their texts are in \<open>retry_env\<close>. A log
  records sleeps, requests sent, the counters of the metrics and the response that is handed on. Parsing a printed URL gives its host
  back, so the host is the key of the backoff.

  The lemmas: how many requests are sent, which is bounded by the number of retries; when a request is sent again; how long the client waits
  before that; what is returned.
\<close>

section \<open>Backoff managers\<close>

datatype ('f, 'rg) BackoffManager = NoBackoff | URLBackoff "('f, 'rg) Backoff"

definition maxResponseCode :: int where
  "maxResponseCode = 499"

definition serverIsOverloadedSet :: "int set" where
  "serverIsOverloadedSet = {429}"

text \<open>\<open>event\<close> and \<open>now\<close> are the two readings of the clock in \<open>UpdateBackoff\<close> and \<open>Next\<close>.\<close>

definition bm_UpdateBackoff ::
  "('f, 'rg) draw \<Rightarrow> int \<Rightarrow> int \<Rightarrow> string \<Rightarrow> int \<Rightarrow> ('f, 'rg) BackoffManager \<Rightarrow> ('f, 'rg) BackoffManager"
where
  "bm_UpdateBackoff draw event now host responseCode m =
     (case m of
        NoBackoff \<Rightarrow> NoBackoff
      | URLBackoff b \<Rightarrow>
          if responseCode > maxResponseCode \<or> responseCode \<in> serverIsOverloadedSet then URLBackoff (bo_Next draw now b host event)
          else URLBackoff (bo_Reset b host))"

definition bm_CalculateBackoff :: "string \<Rightarrow> ('f, 'rg) BackoffManager \<Rightarrow> int" where
  "bm_CalculateBackoff host m = (case m of NoBackoff \<Rightarrow> 0 | URLBackoff b \<Rightarrow> bo_Get b host)"

text \<open>\<open>plain\<close> is the factor without jitter.\<close>

definition bm_Disable :: "(int \<Rightarrow> 'rg) \<Rightarrow> ('f \<Rightarrow> bool) \<Rightarrow> 'f \<Rightarrow> int \<Rightarrow> ('f, 'rg) BackoffManager" where
  "bm_Disable source positive no_jitter now = URLBackoff (newBackoff source positive now 0 0 no_jitter)"

text \<open>\<open>readExpBackoffConfig\<close> with the values of the two environment variables.\<close>

definition readExpBackoffConfig :: "(int \<Rightarrow> 'rg) \<Rightarrow> ('f \<Rightarrow> bool) \<Rightarrow> 'f \<Rightarrow> int \<Rightarrow> string \<Rightarrow> string \<Rightarrow> ('f, 'rg) BackoffManager" where
  "readExpBackoffConfig source positive no_jitter now backoffBase backoffDuration =
     (case (Atoi backoffBase, Atoi backoffDuration) of
        (Some base, Some duration) \<Rightarrow>
          URLBackoff (newBackoff source positive now (wrap64 (base * 10 ^ 9)) (wrap64 (duration * 10 ^ 9)) no_jitter)
      | _ \<Rightarrow> NoBackoff)"

text \<open>\<open>NewRESTClient\<close>; \<open>mgr\<close> is what \<open>readExpBackoffConfig\<close> returns. Every request calls it for a manager of its own.\<close>

definition NewRESTClient :: "('f, 'rg) BackoffManager \<Rightarrow> url \<Rightarrow> string \<Rightarrow> content_config \<Rightarrow> 'rl option \<Rightarrow> int option \<Rightarrow> (('f, 'rg) BackoffManager, 'rl) RESTClient" where
  "NewRESTClient mgr baseURL versionedAPIPath config rateLimiter timeout =
     (let config = (if length (cc_ContentType config) = 0 then config\<lparr>cc_ContentType := ''application/json''\<rparr> else config);
          base = (if has_suffix (u_Path baseURL) ''/'' then baseURL else baseURL\<lparr>u_Path := u_Path baseURL @ ''/''\<rparr>)
      in \<lparr>rc_base = Some (base\<lparr>u_Query := Map.empty\<rparr>), rc_versionedAPIPath = versionedAPIPath, rc_content = config,
          rc_createBackoffMgr = Some mgr, rc_rateLimiter = rateLimiter, rc_timeout = timeout\<rparr>)"

definition rc_Verb :: "string \<Rightarrow> (('f, 'rg) BackoffManager, 'rl) RESTClient \<Rightarrow> (('f, 'rg) BackoffManager, 'rl, 'b, 'e) Request" where
  "rc_Verb verb c = rq_Verb verb (NewRequest NoBackoff c)"

definition rc_Patch :: "string \<Rightarrow> (('f, 'rg) BackoffManager, 'rl) RESTClient \<Rightarrow> (('f, 'rg) BackoffManager, 'rl, 'b, 'e) Request" where
  "rc_Patch pt c = rq_SetHeader ''Content-Type'' [pt] (rc_Verb ''PATCH'' c)"

section \<open>withRetry\<close>

datatype 'e retry_reason = NoReason | ReasonThrottling int int string | ReasonError int int 'e | ReasonStatus int int int

record 'e RetryAfter =
  ra_Wait :: int
  ra_Attempt :: int
  ra_Reason :: "'e retry_reason"

record 'e withRetry =
  wr_maxRetries :: int
  wr_attempts :: int
  wr_retryAfter :: "'e RetryAfter option"
  wr_previousErr :: "'e rest_err option"
  wr_currentErr :: "'e rest_err option"

record ('f, 'rg, 'e) retry_env =
  ve_IsConnectionReset :: "'e \<Rightarrow> bool"
  ve_IsProbableEOF :: "'e \<Rightarrow> bool"
  ve_IsTimeout :: "'e \<Rightarrow> bool"
  ve_Error :: "'e rest_err \<Rightarrow> string"
  ve_urlUnwrap :: "'e \<Rightarrow> 'e option"
  ve_draw :: "('f, 'rg) draw"

definition defaultRequestRetryFn :: "int \<Rightarrow> 'e withRetry" where
  "defaultRequestRetryFn maxRetries =
     \<lparr>wr_maxRetries = maxRetries, wr_attempts = 0, wr_retryAfter = None, wr_previousErr = None, wr_currentErr = None\<rparr>"

definition trackPreviousError :: "'e rest_err option \<Rightarrow> 'e withRetry \<Rightarrow> 'e withRetry" where
  "trackPreviousError err r =
     (let r = (if wr_currentErr r \<noteq> None then r\<lparr>wr_previousErr := wr_currentErr r\<rparr> else r) in r\<lparr>wr_currentErr := err\<rparr>)"

definition checkWait :: "'e http_response \<Rightarrow> int option" where
  "checkWait resp = (if hr_StatusCode resp = 429 \<or> hr_StatusCode resp \<ge> 500 then retryAfterSeconds resp else None)"

definition retryAfterResponse :: "'e http_response" where
  "retryAfterResponse = \<lparr>hr_StatusCode = 500, hr_Header = [''Retry-After'' \<mapsto> [''1'']], hr_Body = None\<rparr>"

definition getRetryReason :: "int \<Rightarrow> int \<Rightarrow> 'e http_response \<Rightarrow> 'e option \<Rightarrow> 'e retry_reason" where
  "getRetryReason retries seconds resp err =
     (if hr_StatusCode resp = 429 then ReasonThrottling retries seconds (header_Get (hr_Header resp) ''X-Kubernetes-Pf-Flowschema-Uid'')
      else case err of Some e \<Rightarrow> ReasonError retries seconds e | None \<Rightarrow> ReasonStatus retries seconds (hr_StatusCode resp))"

text \<open>\<open>IsNextRetry\<close>; \<open>opaque_body\<close> says that the request has a reader as its body, \<open>f\<close> is the function that the client provides.\<close>

definition IsNextRetry :: "bool \<Rightarrow> ('e + 'e http_response) \<Rightarrow> ('e \<Rightarrow> bool) \<Rightarrow> 'e withRetry \<Rightarrow> 'e withRetry \<times> bool" where
  "IsNextRetry opaque_body outcome f r =
     (let err = (case outcome of Inl e \<Rightarrow> Some e | Inr _ \<Rightarrow> None);
          track = trackPreviousError (map_option RExt err)
      in if opaque_body then (track r, False)
         else
           let r = r\<lparr>wr_attempts := wr_attempts r + 1\<rparr>;
               r = r\<lparr>wr_retryAfter := Some \<lparr>ra_Wait = 0, ra_Attempt = wr_attempts r, ra_Reason = NoReason\<rparr>\<rparr>
           in if wr_attempts r > wr_maxRetries r then (track r, False)
              else
                case (case outcome of Inl e \<Rightarrow> if f e then Some retryAfterResponse else None | Inr resp \<Rightarrow> Some resp) of
                  None \<Rightarrow> (track r, False)
                | Some resp \<Rightarrow>
                    (case checkWait resp of
                       None \<Rightarrow> (track r, False)
                     | Some seconds \<Rightarrow>
                         (track (r\<lparr>wr_retryAfter := Some \<lparr>ra_Wait = wrap64 (seconds * 10 ^ 9), ra_Attempt = wr_attempts r,
                                     ra_Reason = getRetryReason (wr_attempts r) seconds resp err\<rparr>\<rparr>), True)))"

definition WrapPreviousError :: "('f, 'rg, 'e) retry_env \<Rightarrow> 'e withRetry \<Rightarrow> 'e rest_err option \<Rightarrow> 'e rest_err option" where
  "WrapPreviousError env r currentErr =
     (case (currentErr, wr_previousErr r) of
        (Some cur, Some prev) \<Rightarrow>
          if ve_Error env cur = ve_Error env prev then currentErr
          else Some (RPrevious cur (case prev of RExt e \<Rightarrow> (case ve_urlUnwrap env e of Some inner \<Rightarrow> RExt inner | None \<Rightarrow> prev) | _ \<Rightarrow> prev))
      | _ \<Rightarrow> currentErr)"

section \<open>Attempts\<close>

text \<open>
  \<open>at_ctxErr\<close> is \<open>ctx.Err()\<close> before the attempt and \<open>at_ctxErrWait\<close> after waiting for the rate limiter, \<open>at_wait\<close> the error of that wait, \<open>at_newErr\<close> the error of
  \<open>http.NewRequestWithContext\<close>.
\<close>

record 'e attempt_in =
  at_ctxErr :: "'e option"
  at_wait :: "'e option"
  at_ctxErrWait :: "'e option"
  at_newErr :: "'e option"
  at_do :: "'e + 'e http_response"
  at_event :: int
  at_now :: int

datatype 'e rest_ev =
    Slept int
  | Sent
  | Counted "int option"
  | CountedRetry "int option"
  | Handled "'e http_response"

record ('f, 'rg, 'e) rest_state =
  st_retry :: "'e withRetry"
  st_backoff :: "('f, 'rg) BackoffManager"
  st_log :: "'e rest_ev list"

type_synonym ('f, 'rg, 'rl, 'b, 'e) rest_request = "(('f, 'rg) BackoffManager, 'rl, 'b, 'e) Request"

definition url_host :: "('f, 'rg, 'rl, 'b, 'e) rest_request \<Rightarrow> string" where
  "url_host r = (case rc_base (rq_c r) of Some base \<Rightarrow> u_Host base | None \<Rightarrow> '''')"

text \<open>\<open>tryThrottleWithInfo\<close>, with what \<open>Wait\<close> returns if there is a limiter.\<close>

definition tryThrottle :: "('f, 'rg, 'rl, 'b, 'e) rest_request \<Rightarrow> 'e option \<Rightarrow> 'e rest_err option" where
  "tryThrottle r wait_err =
     (case rq_rateLimiter r of
        None \<Rightarrow> None
      | Some _ \<Rightarrow> map_option (\<lambda>e. RWrapf ''client rate limiter Wait returned an error: %w'' (RExt e)) wait_err)"

definition rt_Before ::
  "('f, 'rg, 'rl, 'b, 'e) rest_request \<Rightarrow> 'e attempt_in \<Rightarrow> ('f, 'rg, 'e) rest_state \<Rightarrow> ('f, 'rg, 'e) rest_state \<times> 'e rest_err option"
where
  "rt_Before r a st =
     (case at_ctxErr a of
        Some e \<Rightarrow> (st\<lparr>st_retry := trackPreviousError (Some (RExt e)) (st_retry st)\<rparr>, Some (RExt e))
      | None \<Rightarrow>
          let delay = bm_CalculateBackoff (url_host r) (st_backoff st)
          in case wr_retryAfter (st_retry st) of
               None \<Rightarrow> (st\<lparr>st_log := st_log st @ [Slept delay]\<rparr>, None)
             | Some ra \<Rightarrow>
                 let delay = (if ra_Wait ra > delay then ra_Wait ra else delay);
                     st = st\<lparr>st_log := st_log st @ [Slept delay]\<rparr>
                 in case tryThrottle r (at_wait a) of
                      Some err \<Rightarrow> (st\<lparr>st_retry := trackPreviousError (map_option RExt (at_ctxErrWait a)) (st_retry st)\<rparr>, Some err)
                    | None \<Rightarrow> (st, None))"

text \<open>\<open>sanitize\<close>: the code that the counters are labelled with.\<close>

definition sanitize :: "('e + 'e http_response) \<Rightarrow> int option" where
  "sanitize outcome = (case outcome of Inl _ \<Rightarrow> None | Inr resp \<Rightarrow> Some (hr_StatusCode resp))"

definition rt_After ::
  "('f, 'rg, 'e) retry_env \<Rightarrow> ('f, 'rg, 'rl, 'b, 'e) rest_request \<Rightarrow> 'e attempt_in \<Rightarrow> ('f, 'rg, 'e) rest_state \<Rightarrow> ('f, 'rg, 'e) rest_state"
where
  "rt_After env r a st =
     (let isRetry = (wr_retryAfter (st_retry st) \<noteq> None);
          code = sanitize (at_do a);
          st = st\<lparr>st_retry := (st_retry st)\<lparr>wr_retryAfter := None\<rparr>,
                  st_log := st_log st @ [Counted code] @ (if isRetry then [CountedRetry code] else [])\<rparr>
      in if rc_base (rq_c r) \<noteq> None
         then st\<lparr>st_backoff := bm_UpdateBackoff (ve_draw env) (at_event a) (at_now a) (url_host r)
                                (case at_do a of Inl _ \<Rightarrow> 0 | Inr resp \<Rightarrow> hr_StatusCode resp) (st_backoff st)\<rparr>
         else st)"

definition newHTTPRequest :: "('f, 'rg, 'rl, 'b, 'e) rest_request \<Rightarrow> 'e attempt_in \<Rightarrow> 'e rest_err option" where
  "newHTTPRequest r a =
     (if rq_body r \<noteq> None \<and> rq_bodyBytes r \<noteq> None then Some (RErrorf ''cannot set both body and bodyBytes'' [])
      else map_option RExt (at_newErr a))"

text \<open>The part of an iteration that the three loops share: an error of \<open>Before\<close> or of \<open>newHTTPRequest\<close>, or what \<open>client.Do\<close> returned.\<close>

datatype 'e tried = BeforeError "'e rest_err" | RequestError "'e rest_err" | Tried

definition rt_try ::
  "('f, 'rg, 'e) retry_env \<Rightarrow> ('f, 'rg, 'rl, 'b, 'e) rest_request \<Rightarrow> 'e attempt_in \<Rightarrow> ('f, 'rg, 'e) rest_state \<Rightarrow> ('f, 'rg, 'e) rest_state \<times> 'e tried"
where
  "rt_try env r a st =
     (case rt_Before r a st of
        (st, Some err) \<Rightarrow> (st, BeforeError err)
      | (st, None) \<Rightarrow>
          (case newHTTPRequest r a of
             Some err \<Rightarrow> (st, RequestError err)
           | None \<Rightarrow> (rt_After env r a (st\<lparr>st_log := st_log st @ [Sent]\<rparr>), Tried)))"

definition rt_next ::
  "('f, 'rg, 'rl, 'b, 'e) rest_request \<Rightarrow> 'e attempt_in \<Rightarrow> ('e \<Rightarrow> bool) \<Rightarrow> ('f, 'rg, 'e) rest_state \<Rightarrow> ('f, 'rg, 'e) rest_state \<times> bool"
where
  "rt_next r a f st = (let (retry, next) = IsNextRetry (rq_body r \<noteq> None) (at_do a) f (st_retry st) in (st\<lparr>st_retry := retry\<rparr>, next))"

lemma rt_Before_retry [simp]:
  "wr_attempts (st_retry (fst (rt_Before r a st))) = wr_attempts (st_retry st)"
  "wr_maxRetries (st_retry (fst (rt_Before r a st))) = wr_maxRetries (st_retry st)"
  by (auto simp: rt_Before_def trackPreviousError_def Let_def split: option.split)

lemma rt_After_retry [simp]:
  "wr_attempts (st_retry (rt_After env r a st)) = wr_attempts (st_retry st)"
  "wr_maxRetries (st_retry (rt_After env r a st)) = wr_maxRetries (st_retry st)"
  by (simp_all add: rt_After_def Let_def)

lemma rt_try_retry:
  assumes "rt_try env r a st = (st', t)"
  shows "wr_attempts (st_retry st') = wr_attempts (st_retry st) \<and> wr_maxRetries (st_retry st') = wr_maxRetries (st_retry st)"
proof -
  obtain s err where s: "rt_Before r a st = (s, err)" by force
  then have "wr_attempts (st_retry s) = wr_attempts (st_retry st)" "wr_maxRetries (st_retry s) = wr_maxRetries (st_retry st)"
    using rt_Before_retry [of r a st] by simp_all
  then show ?thesis using assms s by (auto simp: rt_try_def split: option.splits)
qed

lemma IsNextRetry_advances:
  "snd (IsNextRetry ob oc f wr) \<Longrightarrow> wr_attempts (fst (IsNextRetry ob oc f wr)) = wr_attempts wr + 1 \<and>
     wr_maxRetries (fst (IsNextRetry ob oc f wr)) = wr_maxRetries wr \<and> wr_attempts wr + 1 \<le> wr_maxRetries wr"
  by (auto simp: IsNextRetry_def trackPreviousError_def Let_def split: if_splits option.splits sum.splits)

lemma rt_next_advances:
  assumes "rt_next r a f st = (st', True)"
  shows "wr_attempts (st_retry st') = wr_attempts (st_retry st) + 1" "wr_maxRetries (st_retry st') = wr_maxRetries (st_retry st)"
    "wr_attempts (st_retry st) + 1 \<le> wr_maxRetries (st_retry st)"
  using assms IsNextRetry_advances [of "rq_body r \<noteq> None" "at_do a" f "st_retry st"] by (auto simp: rt_next_def case_prod_beta)

definition retry_left :: "('f, 'rg, 'e) rest_state \<Rightarrow> nat" where
  "retry_left st = nat (wr_maxRetries (st_retry st) + 1 - wr_attempts (st_retry st))"

lemma retry_left_decreases:
  assumes "rt_try env r a st = (st1, t)" and "rt_next r a f st1 = (st2, True)"
  shows "retry_left st2 < retry_left st"
  using rt_try_retry [OF assms(1)] rt_next_advances [OF assms(2)] by (simp add: retry_left_def)

section \<open>The three loops\<close>

text \<open>The method of the request that \<open>newHTTPRequest\<close> makes: for \<open>net/http\<close> the empty method is \<open>GET\<close>.\<close>

definition http_method :: "('f, 'rg, 'rl, 'b, 'e) rest_request \<Rightarrow> string" where
  "http_method r = (if rq_verb r = '''' then ''GET'' else rq_verb r)"

definition get_retryable :: "('f, 'rg, 'e) retry_env \<Rightarrow> ('f, 'rg, 'rl, 'b, 'e) rest_request \<Rightarrow> 'e \<Rightarrow> bool" where
  "get_retryable env r err \<longleftrightarrow> http_method r = ''GET'' \<and> (ve_IsConnectionReset env err \<or> ve_IsProbableEOF env err)"

text \<open>The loop of \<open>request\<close> from the i-th attempt on; \<open>w\<close> gives what happens in each attempt.\<close>

function request_loop ::
  "('f, 'rg, 'e) retry_env \<Rightarrow> ('f, 'rg, 'rl, 'b, 'e) rest_request \<Rightarrow> (nat \<Rightarrow> 'e attempt_in) \<Rightarrow> nat \<Rightarrow> ('f, 'rg, 'e) rest_state
     \<Rightarrow> ('f, 'rg, 'e) rest_state \<times> 'e rest_err option"
where
  "request_loop env r w i st =
     (case rt_try env r (w i) st of
        (st, BeforeError err) \<Rightarrow> (st, WrapPreviousError env (st_retry st) (Some err))
      | (st, RequestError err) \<Rightarrow> (st, Some err)
      | (st, Tried) \<Rightarrow>
          (case rt_next r (w i) (get_retryable env r) st of
             (st, True) \<Rightarrow> request_loop env r w (Suc i) st
           | (st, False) \<Rightarrow>
               (case at_do (w i) of
                  Inl err \<Rightarrow> (st, WrapPreviousError env (st_retry st) (Some (RExt err)))
                | Inr resp \<Rightarrow> (st\<lparr>st_log := st_log st @ [Handled resp]\<rparr>, None))))"
  by pat_completeness auto
termination
  by (relation "measure (\<lambda>(env, r, w, i, st). retry_left st)") (auto, metis retry_left_decreases)

declare request_loop.simps [simp del]

definition rest_start :: "('f, 'rg, 'rl, 'b, 'e) rest_request \<Rightarrow> ('f, 'rg, 'e) rest_state" where
  "rest_start r = \<lparr>st_retry = defaultRequestRetryFn (rq_maxRetries r), st_backoff = rq_backoff r, st_log = []\<rparr>"

text \<open>\<open>wait_err\<close> is what the rate limiter returns before the first attempt.\<close>

definition rq_request ::
  "('f, 'rg, 'e) retry_env \<Rightarrow> ('f, 'rg, 'rl, 'b, 'e) rest_request \<Rightarrow> 'e option \<Rightarrow> (nat \<Rightarrow> 'e attempt_in) \<Rightarrow> ('f, 'rg, 'e) rest_state \<times> 'e rest_err option"
where
  "rq_request env r wait_err w =
     (let st = rest_start r
      in if rq_err r \<noteq> None then (st, rq_err r)
         else case rq_requestPreflightCheck r of
                Some err \<Rightarrow> (st, Some err)
              | None \<Rightarrow>
                  (case tryThrottle r wait_err of
                     Some err \<Rightarrow> (st, Some err)
                   | None \<Rightarrow> request_loop env r w 0 st))"

text \<open>The responses that the function given to \<open>request\<close> was called with.\<close>

fun handled :: "'e rest_ev list \<Rightarrow> 'e http_response list" where
  "handled [] = []"
| "handled (Handled resp # es) = resp # handled es"
| "handled (_ # es) = handled es"

definition rq_Do ::
  "('p, 'd, 'o, 'e) codec_env \<Rightarrow> ('f, 'rg, 'e) retry_env \<Rightarrow> ('f, 'rg, 'rl, 'b, 'e) rest_request \<Rightarrow> 'e option \<Rightarrow> (nat \<Rightarrow> 'e attempt_in)
     \<Rightarrow> ('f, 'rg, 'e) rest_state \<times> ('d, 'e) Result"
where
  "rq_Do codec env r wait_err w =
     (case rq_request env r wait_err w of
        (st, Some err) \<Rightarrow> (st, empty_result\<lparr>rs_err := Some err\<rparr>)
      | (st, None) \<Rightarrow> (st, fold (\<lambda>resp _. transformResponse codec r resp (http_method r)) (handled (st_log st)) empty_result))"

text \<open>\<open>DoRaw\<close>: what has been read of a body before an error is not in the model and counts as nothing.\<close>

definition rq_DoRaw ::
  "('p, 'd, 'o, 'e) codec_env \<Rightarrow> ('f, 'rg, 'e) retry_env \<Rightarrow> ('f, 'rg, 'rl, 'b, 'e) rest_request \<Rightarrow> 'e option \<Rightarrow> (nat \<Rightarrow> 'e attempt_in)
     \<Rightarrow> ('f, 'rg, 'e) rest_state \<times> string \<times> 'e rest_err option"
where
  "rq_DoRaw codec env r wait_err w =
     (let raw = (\<lambda>resp.
            let (body, err) = (case hr_Body resp of
                                 Some (ReadOk data) \<Rightarrow> (data, None)
                               | Some (ReadError e) \<Rightarrow> ('''', Some (RExt e))
                               | Some (ReadStreamError e) \<Rightarrow> ('''', Some (RExt e))
                               | None \<Rightarrow> ('''', None))
            in if hr_StatusCode resp < 200 \<or> hr_StatusCode resp > 206
               then (body, Some (transformUnstructuredResponseError codec r resp (http_method r) (Some body)))
               else (body, err))
      in case rq_request env r wait_err w of
           (st, Some err) \<Rightarrow> (st, '''', Some err)
         | (st, None) \<Rightarrow> (st, fold (\<lambda>resp _. raw resp) (handled (st_log st)) ('''', None)))"

datatype ('sd, 'e) watch_out = WatchStream 'sd | EmptyWatch | WatchError "'e rest_err"

definition watch_retryable :: "('f, 'rg, 'e) retry_env \<Rightarrow> 'e \<Rightarrow> bool" where
  "watch_retryable env err \<longleftrightarrow> ve_IsProbableEOF env err \<or> ve_IsTimeout env err"

text \<open>\<open>newStreamWatcher\<close>: \<open>stream_decoder\<close> negotiates a decoder for the content type.\<close>

definition newStreamWatcher :: "(string \<Rightarrow> 'e + 'sd) \<Rightarrow> 'e http_response \<Rightarrow> ('sd, 'e) watch_out" where
  "newStreamWatcher stream_decoder resp =
     (case stream_decoder (header_Get (hr_Header resp) ''Content-Type'') of
        Inl err \<Rightarrow> WatchError (RExt err)
      | Inr d \<Rightarrow> WatchStream d)"

definition watch_error :: "('f, 'rg, 'e) retry_env \<Rightarrow> ('f, 'rg, 'e) rest_state \<Rightarrow> 'e rest_err \<Rightarrow> ('sd, 'e) watch_out" where
  "watch_error env st err = (case WrapPreviousError env (st_retry st) (Some err) of Some e \<Rightarrow> WatchError e | None \<Rightarrow> EmptyWatch)"

function watch_loop ::
  "('p, 'd, 'o, 'e) codec_env \<Rightarrow> (string \<Rightarrow> 'e + 'sd) \<Rightarrow> ('f, 'rg, 'e) retry_env \<Rightarrow> ('f, 'rg, 'rl, 'b, 'e) rest_request \<Rightarrow> (nat \<Rightarrow> 'e attempt_in)
     \<Rightarrow> nat \<Rightarrow> ('f, 'rg, 'e) rest_state \<Rightarrow> ('f, 'rg, 'e) rest_state \<times> ('sd, 'e) watch_out"
where
  "watch_loop codec sd env r w i st =
     (case rt_try env r (w i) st of
        (st, BeforeError err) \<Rightarrow> (st, watch_error env st err)
      | (st, RequestError err) \<Rightarrow> (st, WatchError err)
      | (st, Tried) \<Rightarrow>
          (case at_do (w i) of
             Inr resp \<Rightarrow>
               if hr_StatusCode resp = 200 then (st, newStreamWatcher sd resp)
               else (case rt_next r (w i) (watch_retryable env) st of
                       (st, True) \<Rightarrow> watch_loop codec sd env r w (Suc i) st
                     | (st, False) \<Rightarrow>
                         (st, watch_error env st
                            (case rs_err (transformResponse codec r resp (http_method r)) of
                               Some err \<Rightarrow> err
                             | None \<Rightarrow> RErrorf ''for request %s, got status: %v'' [])))
           | Inl err \<Rightarrow>
               (case rt_next r (w i) (watch_retryable env) st of
                  (st, True) \<Rightarrow> watch_loop codec sd env r w (Suc i) st
                | (st, False) \<Rightarrow> (st, if watch_retryable env err then EmptyWatch else watch_error env st (RExt err)))))"
  by pat_completeness auto
termination
  by (relation "measure (\<lambda>(codec, sd, env, r, w, i, st). retry_left st)") (auto, (metis retry_left_decreases)+)

declare watch_loop.simps [simp del]

definition rq_Watch ::
  "('p, 'd, 'o, 'e) codec_env \<Rightarrow> (string \<Rightarrow> 'e + 'sd) \<Rightarrow> ('f, 'rg, 'e) retry_env \<Rightarrow> ('f, 'rg, 'rl, 'b, 'e) rest_request \<Rightarrow> (nat \<Rightarrow> 'e attempt_in)
     \<Rightarrow> ('f, 'rg, 'e) rest_state \<times> ('sd, 'e) watch_out"
where
  "rq_Watch codec sd env r w =
     (case rq_err r of Some err \<Rightarrow> (rest_start r, WatchError err) | None \<Rightarrow> watch_loop codec sd env r w 0 (rest_start r))"

text \<open>\<open>Stream\<close> returns the body of the response.\<close>

function stream_loop ::
  "('p, 'd, 'o, 'e) codec_env \<Rightarrow> ('f, 'rg, 'e) retry_env \<Rightarrow> ('f, 'rg, 'rl, 'b, 'e) rest_request \<Rightarrow> (nat \<Rightarrow> 'e attempt_in)
     \<Rightarrow> nat \<Rightarrow> ('f, 'rg, 'e) rest_state \<Rightarrow> ('f, 'rg, 'e) rest_state \<times> ('e rest_err + 'e http_response)"
where
  "stream_loop codec env r w i st =
     (case rt_try env r (w i) st of
        (st, BeforeError err) \<Rightarrow> (st, Inl err)
      | (st, RequestError err) \<Rightarrow> (st, Inl err)
      | (st, Tried) \<Rightarrow>
          (case at_do (w i) of
             Inl err \<Rightarrow> (st, Inl (RExt err))
           | Inr resp \<Rightarrow>
               if 200 \<le> hr_StatusCode resp \<and> hr_StatusCode resp < 300 then (st, Inr resp)
               else (case rt_next r (w i) (\<lambda>_. False) st of
                       (st, True) \<Rightarrow> stream_loop codec env r w (Suc i) st
                     | (st, False) \<Rightarrow>
                         (st, Inl (case Result_Error codec (transformResponse codec r resp (http_method r)) of
                                     Some err \<Rightarrow> err
                                   | None \<Rightarrow> RErrorf ''%d while accessing %v: %s'' [])))))"
  by pat_completeness auto
termination
  by (relation "measure (\<lambda>(codec, env, r, w, i, st). retry_left st)") (auto, (metis retry_left_decreases)+)

declare stream_loop.simps [simp del]

definition rq_Stream ::
  "('p, 'd, 'o, 'e) codec_env \<Rightarrow> ('f, 'rg, 'e) retry_env \<Rightarrow> ('f, 'rg, 'rl, 'b, 'e) rest_request \<Rightarrow> 'e option \<Rightarrow> (nat \<Rightarrow> 'e attempt_in)
     \<Rightarrow> ('f, 'rg, 'e) rest_state \<times> ('e rest_err + 'e http_response)"
where
  "rq_Stream codec env r wait_err w =
     (case rq_err r of
        Some err \<Rightarrow> (rest_start r, Inl err)
      | None \<Rightarrow>
          (case tryThrottle r wait_err of
             Some err \<Rightarrow> (rest_start r, Inl err)
           | None \<Rightarrow> stream_loop codec env r w 0 (rest_start r)))"

section \<open>When a request is sent again\<close>

text \<open>The seconds to wait before the next attempt, if there may be one: an error counts as a response with the header \<open>Retry-After: 1\<close>.\<close>

definition retry_wait :: "('e \<Rightarrow> bool) \<Rightarrow> ('e + 'e http_response) \<Rightarrow> int option" where
  "retry_wait f outcome = (case outcome of Inl e \<Rightarrow> if f e then Some 1 else None | Inr resp \<Rightarrow> checkWait resp)"

lemma checkWait_artificial [simp]: "checkWait retryAfterResponse = Some 1"
  by (simp add: checkWait_def retryAfterResponse_def retryAfterSeconds_def header_Get_def Atoi_def less_eq_char_def)

lemma IsNextRetry_iff:
  "snd (IsNextRetry ob outcome f wr) \<longleftrightarrow> \<not> ob \<and> wr_attempts wr + 1 \<le> wr_maxRetries wr \<and> retry_wait f outcome \<noteq> None"
  by (cases outcome) (auto simp: IsNextRetry_def Let_def retry_wait_def split: option.splits)

lemma IsNextRetry_wait:
  assumes "snd (IsNextRetry ob outcome f wr)" and "retry_wait f outcome = Some s"
  shows "map_option ra_Wait (wr_retryAfter (fst (IsNextRetry ob outcome f wr))) = Some (wrap64 (s * 10 ^ 9))"
  using assms by (cases outcome) (auto simp: IsNextRetry_def Let_def retry_wait_def trackPreviousError_def split: option.splits if_splits)

text \<open>The i-th attempt is not made: the context is done, the rate limiter refuses, or no HTTP request can be made.\<close>

definition not_made :: "('f, 'rg, 'rl, 'b, 'e) rest_request \<Rightarrow> (nat \<Rightarrow> 'e attempt_in) \<Rightarrow> nat \<Rightarrow> bool" where
  "not_made r w i \<longleftrightarrow> at_ctxErr (w i) \<noteq> None \<or> 0 < i \<and> tryThrottle r (at_wait (w i)) \<noteq> None \<or> newHTTPRequest r (w i) \<noteq> None"

text \<open>The i-th attempt is the last one.\<close>

definition last_attempt :: "('e \<Rightarrow> bool) \<Rightarrow> ('f, 'rg, 'rl, 'b, 'e) rest_request \<Rightarrow> (nat \<Rightarrow> 'e attempt_in) \<Rightarrow> nat \<Rightarrow> bool" where
  "last_attempt f r w i \<longleftrightarrow> not_made r w i \<or> rq_body r \<noteq> None \<or> rq_maxRetries r \<le> int i \<or> retry_wait f (at_do (w i)) = None"

text \<open>The state of the loop at the beginning of the i-th attempt.\<close>

definition at_attempt :: "('e \<Rightarrow> bool) \<Rightarrow> ('f, 'rg, 'rl, 'b, 'e) rest_request \<Rightarrow> (nat \<Rightarrow> 'e attempt_in) \<Rightarrow> nat \<Rightarrow> ('f, 'rg, 'e) rest_state \<Rightarrow> bool" where
  "at_attempt f r w i st \<longleftrightarrow> wr_attempts (st_retry st) = int i \<and> wr_maxRetries (st_retry st) = rq_maxRetries r \<and>
     map_option ra_Wait (wr_retryAfter (st_retry st)) = (if i = 0 then None else map_option (\<lambda>s. wrap64 (s * 10 ^ 9)) (retry_wait f (at_do (w (i - 1))))) \<and>
     (0 < i \<longrightarrow> retry_wait f (at_do (w (i - 1))) \<noteq> None)"

lemma at_attempt_start: "at_attempt f r w 0 (rest_start r)"
  by (simp add: at_attempt_def rest_start_def defaultRequestRetryFn_def)

fun sent :: "'e rest_ev list \<Rightarrow> nat" where
  "sent [] = 0"
| "sent (Sent # es) = Suc (sent es)"
| "sent (_ # es) = sent es"

fun sleeps :: "'e rest_ev list \<Rightarrow> int list" where
  "sleeps [] = []"
| "sleeps (Slept d # es) = d # sleeps es"
| "sleeps (_ # es) = sleeps es"

lemma sent_append [simp]: "sent (xs @ ys) = sent xs + sent ys"
  by (induction xs rule: sent.induct) simp_all

lemma sleeps_append [simp]: "sleeps (xs @ ys) = sleeps xs @ sleeps ys"
  by (induction xs rule: sleeps.induct) simp_all

lemma handled_append [simp]: "handled (xs @ ys) = handled xs @ handled ys"
  by (induction xs rule: handled.induct) simp_all

text \<open>What one attempt does: nothing is sent and the loop ends, or the delay is at least the one the server asked for and one request is sent.\<close>

lemma rt_try_not_made:
  assumes "at_attempt f r w i st" and "not_made r w i" and "rt_try env r (w i) st = (st', t)"
  shows "(\<exists>err. t = BeforeError err \<or> t = RequestError err) \<and> sent (st_log st') = sent (st_log st) \<and> handled (st_log st') = handled (st_log st) \<and>
    (\<exists>ds. sleeps (st_log st') = sleeps (st_log st) @ ds)"
proof -
  obtain s err where s: "rt_Before r (w i) st = (s, err)" by force
  have log: "sent (st_log s) = sent (st_log st)" "handled (st_log s) = handled (st_log st)" "\<exists>ds. sleeps (st_log s) = sleeps (st_log st) @ ds"
    using s by (auto simp: rt_Before_def Let_def split: option.splits)
  have "err \<noteq> None \<or> newHTTPRequest r (w i) \<noteq> None"
    using assms(1,2) s by (auto simp: not_made_def at_attempt_def rt_Before_def Let_def split: option.splits)
  then show ?thesis using assms(3) s log by (auto simp: rt_try_def split: option.splits)
qed

lemma rt_try_made:
  assumes "at_attempt f r w i st" and "\<not> not_made r w i" and "rt_try env r (w i) st = (st', t)"
  shows "t = Tried \<and> sent (st_log st') = Suc (sent (st_log st)) \<and> handled (st_log st') = handled (st_log st) \<and>
    (\<exists>d. sleeps (st_log st') = sleeps (st_log st) @ [d] \<and> bm_CalculateBackoff (url_host r) (st_backoff st) \<le> d \<and>
      (\<forall>s. 0 < i \<and> retry_wait f (at_do (w (i - 1))) = Some s \<longrightarrow> wrap64 (s * 10 ^ 9) \<le> d))"
proof -
  obtain s err where s: "rt_Before r (w i) st = (s, err)" by force
  have none: "at_ctxErr (w i) = None" "newHTTPRequest r (w i) = None" and throttle: "0 < i \<Longrightarrow> tryThrottle r (at_wait (w i)) = None"
    using assms(2) by (auto simp: not_made_def)
  define d where "d = (case wr_retryAfter (st_retry st) of None \<Rightarrow> bm_CalculateBackoff (url_host r) (st_backoff st)
      | Some ra \<Rightarrow> max (ra_Wait ra) (bm_CalculateBackoff (url_host r) (st_backoff st)))"
  have ra: "i = 0 \<longleftrightarrow> wr_retryAfter (st_retry st) = None" using assms(1) by (auto simp: at_attempt_def split: if_splits)
  have "err = None \<and> st_log s = st_log st @ [Slept d]"
    using s none(1) throttle ra by (cases "wr_retryAfter (st_retry st)") (auto simp: rt_Before_def Let_def d_def max_def split: if_splits)
  moreover have "bm_CalculateBackoff (url_host r) (st_backoff st) \<le> d" by (simp add: d_def split: option.split)
  moreover have "\<forall>s. 0 < i \<and> retry_wait f (at_do (w (i - 1))) = Some s \<longrightarrow> wrap64 (s * 10 ^ 9) \<le> d"
    using assms(1) by (auto simp: at_attempt_def d_def split: option.splits)
  ultimately show ?thesis using assms(3) s none(2)
    by (auto simp: rt_try_def rt_After_def Let_def split: if_splits)
qed

lemma rt_next_at:
  assumes at: "at_attempt f r w i st" and tr: "rt_try env r (w i) st = (st1, t)" and nxt: "rt_next r (w i) f st1 = (st2, b)" and made: "\<not> not_made r w i"
  shows "b \<longleftrightarrow> \<not> last_attempt f r w i" and "b \<Longrightarrow> at_attempt f r w (Suc i) st2" and "st_log st2 = st_log st1" and "st_backoff st2 = st_backoff st1"
proof -
  have f: "wr_attempts (st_retry st1) = int i" "wr_maxRetries (st_retry st1) = rq_maxRetries r"
    using rt_try_retry [OF tr] at by (simp_all add: at_attempt_def)
  let ?n = "IsNextRetry (rq_body r \<noteq> None) (at_do (w i)) f (st_retry st1)"
  have n: "b = snd ?n" "st2 = st1\<lparr>st_retry := fst ?n\<rparr>" using nxt by (auto simp: rt_next_def case_prod_beta)
  show b: "b \<longleftrightarrow> \<not> last_attempt f r w i"
    using made f unfolding n(1) IsNextRetry_iff last_attempt_def by auto
  show "st_log st2 = st_log st1" "st_backoff st2 = st_backoff st1" by (simp_all add: n(2))
  show "at_attempt f r w (Suc i) st2" if b': "b"
  proof -
    obtain s where s: "retry_wait f (at_do (w i)) = Some s" using b' b by (auto simp: last_attempt_def)
    have "snd ?n" using b' n(1) by simp
    from IsNextRetry_wait [OF this s] IsNextRetry_advances [OF this] show ?thesis
      using s f by (simp add: at_attempt_def n(2))
  qed
qed

lemma WrapPreviousError_core: "\<exists>err'. WrapPreviousError env wr (Some err) = Some err' \<and> (err' = err \<or> (\<exists>prev. err' = RPrevious err prev))"
  by (cases "wr_previousErr wr") (auto simp: WrapPreviousError_def)

text \<open>What the loop has done at its end, \<open>n\<close> being the number of its last attempt.\<close>

definition loop_result ::
  "('f, 'rg, 'rl, 'b, 'e) rest_request \<Rightarrow> (nat \<Rightarrow> 'e attempt_in) \<Rightarrow> nat \<Rightarrow> 'e http_response list \<Rightarrow> 'e rest_err option \<Rightarrow> bool"
where
  "loop_result r w n resps err \<longleftrightarrow>
     (if not_made r w n then resps = [] \<and> err \<noteq> None
      else case at_do (w n) of
             Inr resp \<Rightarrow> resps = [resp] \<and> err = None
           | Inl e \<Rightarrow> resps = [] \<and> (\<exists>err'. err = Some err' \<and> (err' = RExt e \<or> (\<exists>prev. err' = RPrevious (RExt e) prev))))"

text \<open>The delays before the attempts from the i-th on are at least those the server asked for.\<close>

definition delays_kept :: "('e \<Rightarrow> bool) \<Rightarrow> (nat \<Rightarrow> 'e attempt_in) \<Rightarrow> nat \<Rightarrow> int list \<Rightarrow> bool" where
  "delays_kept f w i ds \<longleftrightarrow>
     (\<forall>k < length ds. \<forall>s. 0 < i + k \<and> retry_wait f (at_do (w (i + k - 1))) = Some s \<longrightarrow> wrap64 (s * 10 ^ 9) \<le> ds ! k)"

lemma delays_kept_Cons:
  assumes "\<forall>s. 0 < i \<and> retry_wait f (at_do (w (i - 1))) = Some s \<longrightarrow> wrap64 (s * 10 ^ 9) \<le> d" and "delays_kept f w (Suc i) ds"
  shows "delays_kept f w i (d # ds)"
  unfolding delays_kept_def
proof (intro allI impI)
  fix k s assume k: "k < length (d # ds)" and s: "0 < i + k \<and> retry_wait f (at_do (w (i + k - 1))) = Some s"
  show "wrap64 (s * 10 ^ 9) \<le> (d # ds) ! k"
  proof (cases k)
    case 0
    then show ?thesis using assms(1) s by simp
  next
    case (Suc j)
    then show ?thesis using assms(2) k s by (auto simp: delays_kept_def)
  qed
qed

text \<open>
  The run of a loop from the i-th attempt on, that ends with the attempt \<open>n\<close>: what is sent, what is handed on, and the delays before the attempts that
  were made; the delay before an attempt that is given up at the last moment may come on top.
\<close>

definition loop_run ::
  "('e \<Rightarrow> bool) \<Rightarrow> ('f, 'rg, 'rl, 'b, 'e) rest_request \<Rightarrow> (nat \<Rightarrow> 'e attempt_in) \<Rightarrow> nat \<Rightarrow> nat \<Rightarrow> 'e rest_ev list \<Rightarrow> 'e rest_ev list \<Rightarrow> 'e rest_err option \<Rightarrow> bool"
where
  "loop_run f r w i n l l' err \<longleftrightarrow> i \<le> n \<and> last_attempt f r w n \<and> (\<forall>k. i \<le> k \<and> k < n \<longrightarrow> \<not> last_attempt f r w k) \<and>
     sent l' = sent l + (n - i) + (if not_made r w n then 0 else 1) \<and>
     (\<exists>resps. handled l' = handled l @ resps \<and> loop_result r w n resps err) \<and>
     (\<exists>ds extra. sleeps l' = sleeps l @ ds @ extra \<and> length ds = n - i + (if not_made r w n then 0 else 1) \<and> delays_kept f w i ds)"

lemma loop_run_not_made:
  assumes "not_made r w i" "sent l' = sent l" "handled l' = handled l" "sleeps l' = sleeps l @ extra" "err \<noteq> None"
  shows "loop_run f r w i i l l' err"
proof -
  have "loop_result r w i [] err" using assms(1,5) by (simp add: loop_result_def)
  moreover have "delays_kept f w i []" by (simp add: delays_kept_def)
  ultimately show ?thesis using assms unfolding loop_run_def last_attempt_def by auto
qed

lemma loop_run_last:
  assumes "\<not> not_made r w i" "last_attempt f r w i" "sent l' = Suc (sent l)" "handled l' = handled l @ resps" "sleeps l' = sleeps l @ [d]"
    "loop_result r w i resps err" "delays_kept f w i [d]"
  shows "loop_run f r w i i l l' err"
proof -
  have "\<exists>ds extra. sleeps l' = sleeps l @ ds @ extra \<and> length ds = 1 \<and> delays_kept f w i ds" using assms(5,7) by (intro exI [of _ "[d]"] exI [of _ "[]"]) simp
  then show ?thesis using assms unfolding loop_run_def by auto
qed

lemma loop_run_next:
  assumes run: "loop_run f r w (Suc i) n l1 l' err" and step: "\<not> last_attempt f r w i" "sent l1 = Suc (sent l)" "handled l1 = handled l" "sleeps l1 = sleeps l @ [d]"
    and d: "\<forall>s. 0 < i \<and> retry_wait f (at_do (w (i - 1))) = Some s \<longrightarrow> wrap64 (s * 10 ^ 9) \<le> d"
  shows "loop_run f r w i n l l' err"
proof -
  obtain ds extra where ds: "sleeps l' = sleeps l1 @ ds @ extra" "length ds = n - Suc i + (if not_made r w n then 0 else 1)" "delays_kept f w (Suc i) ds"
    using run unfolding loop_run_def by blast
  have "delays_kept f w i (d # ds)" using delays_kept_Cons d ds(3) by blast
  moreover have "length (d # ds) = n - i + (if not_made r w n then 0 else 1)" "Suc i \<le> n" using ds(2) run by (auto simp: loop_run_def)
  moreover have "sleeps l' = sleeps l @ (d # ds) @ extra" using ds(1) step(4) by simp
  moreover have "\<forall>k. i \<le> k \<and> k < n \<longrightarrow> \<not> last_attempt f r w k" using run step(1) unfolding loop_run_def by (metis le_antisym not_less_eq_eq)
  moreover have "sent l' = sent l + (n - i) + (if not_made r w n then 0 else 1)" using run step(2) unfolding loop_run_def by linarith
  ultimately show ?thesis using run step(3) unfolding loop_run_def by (metis Suc_leD)
qed

lemma request_loop_run:
  assumes "at_attempt (get_retryable env r) r w i st" and "request_loop env r w i st = (st', err)"
  shows "\<exists>n. loop_run (get_retryable env r) r w i n (st_log st) (st_log st') err"
  using assms
proof (induction env r w i st arbitrary: st' err rule: request_loop.induct)
  case (1 env r w i st)
  let ?f = "get_retryable env r"
  obtain st1 t where tr: "rt_try env r (w i) st = (st1, t)" by force
  show ?case
  proof (cases "not_made r w i")
    case True
    note nm = rt_try_not_made [OF "1.prems"(1) True tr]
    then have "st' = st1 \<and> err \<noteq> None"
      using "1.prems"(2) tr WrapPreviousError_core [of env "st_retry st1"] by (subst (asm) request_loop.simps) fastforce
    then show ?thesis using nm loop_run_not_made [OF True] by blast
  next
    case False
    note made = rt_try_made [OF "1.prems"(1) False tr]
    obtain st2 b where nxt: "rt_next r (w i) ?f st1 = (st2, b)" by force
    note nx = rt_next_at [OF "1.prems"(1) tr nxt False]
    obtain d where d: "sleeps (st_log st1) = sleeps (st_log st) @ [d]"
        "\<forall>s. 0 < i \<and> retry_wait ?f (at_do (w (i - 1))) = Some s \<longrightarrow> wrap64 (s * 10 ^ 9) \<le> d" using made by blast
    show ?thesis
    proof (cases b)
      case True
      have again: "request_loop env r w (Suc i) st2 = (st', err)"
        using "1.prems"(2) tr made nxt True by (subst (asm) request_loop.simps) simp
      from "1.IH" [OF tr [symmetric] _ nxt [symmetric] _ nx(2) again] made True
      obtain n where "loop_run ?f r w (Suc i) n (st_log st2) (st_log st') err" by blast
      from loop_run_next [OF this _ _ _ _ d(2)] show ?thesis using nx(1,3) True made d(1) by auto
    next
      case b: False
      have "\<exists>resps l. loop_result r w i resps err \<and> st_log st' = st_log st2 @ l \<and> sent l = 0 \<and> handled l = resps \<and> sleeps l = []"
        using "1.prems"(2) tr made nxt b False WrapPreviousError_core [of env "st_retry st2"]
        by (subst (asm) request_loop.simps) (auto simp: loop_result_def split: sum.splits)
      then obtain resps where "loop_result r w i resps err" "sent (st_log st') = sent (st_log st2)" "handled (st_log st') = handled (st_log st2) @ resps"
        "sleeps (st_log st') = sleeps (st_log st2)" by auto
      moreover have "delays_kept ?f w i [d]" using d(2) by (simp add: delays_kept_def)
      ultimately show ?thesis using loop_run_last [OF False] nx(1,3) made d(1) b by metis
    qed
  qed
qed

section \<open>Requests\<close>

lemma rq_request_run:
  assumes "rq_request env r wait_err w = (st, err)"
  obtains n where "rq_err r = None" "rq_requestPreflightCheck r = None" "tryThrottle r wait_err = None"
      "loop_run (get_retryable env r) r w 0 n [] (st_log st) err"
  | "st_log st = []" "err \<noteq> None" "rq_err r \<noteq> None \<or> rq_requestPreflightCheck r \<noteq> None \<or> tryThrottle r wait_err \<noteq> None"
proof (cases "rq_err r = None \<and> rq_requestPreflightCheck r = None \<and> tryThrottle r wait_err = None")
  case True
  then have "request_loop env r w 0 (rest_start r) = (st, err)" using assms by (simp add: rq_request_def Let_def)
  from request_loop_run [OF at_attempt_start this] obtain n where "loop_run (get_retryable env r) r w 0 n (st_log (rest_start r)) (st_log st) err" by blast
  then show ?thesis using that(1) True by (simp add: rest_start_def)
next
  case False
  then have "st = rest_start r \<and> err \<noteq> None"
    using assms by (cases "rq_err r"; cases "rq_requestPreflightCheck r"; cases "tryThrottle r wait_err") (simp_all add: rq_request_def, blast+)
  then show ?thesis using that(2) False by (simp add: rest_start_def)
qed

lemma loop_run_bound:
  assumes "loop_run f r w 0 n l l' err"
  shows "int n \<le> max 0 (rq_maxRetries r)"
proof (cases n)
  case (Suc k)
  then have "\<not> last_attempt f r w k" using assms by (simp add: loop_run_def)
  then show ?thesis using Suc by (simp add: last_attempt_def)
qed simp

text \<open>
  C9 Sending a request: the loop ends for every behaviour of the server, the context and the rate limiter. Its last attempt is the first one that is not made, or that
  no other may follow: because the body is a reader, the retries are used up, or the answer does not allow a retry. One request is sent for each attempt
  that is made, at most one more than the retries; the function of the caller gets the response to the last attempt, once, and then there is
  no error; otherwise the error is that of the last attempt, possibly with one of a previous attempt. Before each attempt the client
  sleeps at least as long as the previous answer asked for.
\<close>
theorem request_retries_exact:
  assumes "rq_err r = None" and "rq_requestPreflightCheck r = None" and "tryThrottle r wait_err = None"
    and "rq_request env r wait_err w = (st, err)"
  shows "\<exists>n. int n \<le> max 0 (rq_maxRetries r) \<and> last_attempt (get_retryable env r) r w n \<and> (\<forall>k < n. \<not> last_attempt (get_retryable env r) r w k) \<and>
    sent (st_log st) = n + (if not_made r w n then 0 else 1) \<and> loop_result r w n (handled (st_log st)) err \<and>
    (\<exists>ds extra. sleeps (st_log st) = ds @ extra \<and> length ds = sent (st_log st) \<and> delays_kept (get_retryable env r) w 0 ds)"
proof -
  obtain n where run: "loop_run (get_retryable env r) r w 0 n [] (st_log st) err"
    by (rule rq_request_run [OF assms(4)]) (use assms(1-3) in auto)
  then show ?thesis using loop_run_bound [OF run] unfolding loop_run_def by (intro exI [of _ n]) auto
qed

text \<open>
  C3 When a request is sent again: if attempt \<open>k\<close> is followed by another one, the request has no reader as its body, and the server answered attempt \<open>k\<close> with 429 or a
  code of at least 500 and a number of seconds to wait, or the request goes out as a \<open>GET\<close> (its verb is \<open>GET\<close> or empty) and the connection was reset or closed. A request that
  writes is never sent again after an attempt of which the client does not know the outcome.
\<close>
theorem writes_not_resent:
  assumes "rq_request env r wait_err w = (st, err)" and "k + 1 < sent (st_log st)"
  shows "rq_body r = None \<and>
    ((\<exists>resp s. at_do (w k) = Inr resp \<and> (hr_StatusCode resp = 429 \<or> hr_StatusCode resp \<ge> 500) \<and> retryAfterSeconds resp = Some s) \<or>
     (\<exists>e. at_do (w k) = Inl e \<and> http_method r = ''GET'' \<and> (ve_IsConnectionReset env e \<or> ve_IsProbableEOF env e)))"
proof -
  obtain n where run: "loop_run (get_retryable env r) r w 0 n [] (st_log st) err"
    by (rule rq_request_run [OF assms(1)]) (use assms(2) in auto)
  then have "k < n" using assms(2) by (auto simp: loop_run_def split: if_splits)
  then have "\<not> last_attempt (get_retryable env r) r w k" using run by (simp add: loop_run_def)
  then show ?thesis
    by (cases "at_do (w k)") (auto simp: last_attempt_def retry_wait_def checkWait_def get_retryable_def split: if_splits)
qed

text \<open>
  \<open>Do\<close>: a result without an error is made from the one response that was handed on, which is the answer to the last request that was sent and has the code 101 or
  one from 200 to 206; every other outcome is an error.
\<close>
theorem Do_success_exact:
  assumes "rq_Do codec env r wait_err w = (st, res)" and "rs_err res = None"
  shows "\<exists>resp. handled (st_log st) = [resp] \<and> 0 < sent (st_log st) \<and> at_do (w (sent (st_log st) - 1)) = Inr resp \<and>
    code_ok (hr_StatusCode resp) \<and> res = transformResponse codec r resp (http_method r)"
proof -
  obtain st1 err where rq: "rq_request env r wait_err w = (st1, err)" by force
  have err: "err = None" "st1 = st" using assms rq by (auto simp: rq_Do_def split: option.splits)
  obtain n where run: "loop_run (get_retryable env r) r w 0 n [] (st_log st) err"
    by (rule rq_request_run [OF rq]) (use err in auto)
  then have res: "loop_result r w n (handled (st_log st)) None" and sent: "sent (st_log st) = n + (if not_made r w n then 0 else 1)"
    using err by (simp_all add: loop_run_def)
  then obtain resp where resp: "\<not> not_made r w n" "at_do (w n) = Inr resp" "handled (st_log st) = [resp]"
    by (auto simp: loop_result_def split: if_splits sum.splits)
  then have tr: "res = transformResponse codec r resp (http_method r)" using assms(1) rq err by (auto simp: rq_Do_def)
  then have "code_ok (hr_StatusCode resp)" using bad_code_is_error assms(2) by blast
  then show ?thesis using resp sent tr by simp
qed

text \<open>
  The manager of a client is asked for anew by every request, so that the backoff which is configured in the environment never delays a first attempt, whatever the
  server answered to earlier requests.
\<close>

lemma first_attempt_not_delayed:
  "bm_CalculateBackoff host (rq_backoff (rc_Verb verb (NewRESTClient (readExpBackoffConfig source positive no_jitter now base duration) url path config limiter timeout))) = 0"
  by (auto simp: bm_CalculateBackoff_def rc_Verb_def rq_Verb_def NewRequest_def NewRESTClient_def rq_SetHeader_def Let_def readExpBackoffConfig_def
      newBackoff_def bo_Get_def split: option.split BackoffManager.split)

text \<open>A server that is busy once and asks for two seconds, and a request to create an object.\<close>

definition busy_then_ok :: "nat \<Rightarrow> unit attempt_in" where
  "busy_then_ok i = \<lparr>at_ctxErr = None, at_wait = None, at_ctxErrWait = None, at_newErr = None,
     at_do = Inr (if i = 0 then \<lparr>hr_StatusCode = 429, hr_Header = [''Retry-After'' \<mapsto> [''2'']], hr_Body = None\<rparr>
                  else \<lparr>hr_StatusCode = 201, hr_Header = Map.empty, hr_Body = None\<rparr>), at_event = 0, at_now = 0\<rparr>"

definition demo_retry_env :: "(unit, unit, unit) retry_env" where
  "demo_retry_env = \<lparr>ve_IsConnectionReset = (\<lambda>_. True), ve_IsProbableEOF = (\<lambda>_. False), ve_IsTimeout = (\<lambda>_. False), ve_Error = (\<lambda>_. ''''),
     ve_urlUnwrap = (\<lambda>_. None), ve_draw = (\<lambda>r _ _. (r, 0))\<rparr>"

definition demo_create :: "(unit, unit, unit, unit, unit) rest_request" where
  "demo_create = rq_Resource ''pods'' (rc_Verb ''POST'' \<lparr>rc_base = None, rc_versionedAPIPath = ''/api/v1'',
     rc_content = \<lparr>cc_AcceptContentTypes = '''', cc_ContentType = '''', cc_Group = ''''\<rparr>, rc_createBackoffMgr = None, rc_rateLimiter = None, rc_timeout = None\<rparr>)"

definition demo_codec :: "(unit, unit, unit, unit) codec_env" where
  "demo_codec = \<lparr>ce_ParseMediaType = (\<lambda>_. Inl ()), ce_Decoder = (\<lambda>_ _. Inl ()), ce_Decode = (\<lambda>_ _ _ _. Inl ()), ce_FromObject = (\<lambda>_. ()),
     ce_NewInternalError = (\<lambda>_. ()), ce_IsUnexpectedServerError = (\<lambda>_. True), ce_ParseWarningHeaders = (\<lambda>_. [])\<rparr>"

lemma demo_create_ready:
  "rq_err demo_create = None" "rq_requestPreflightCheck demo_create = None" "tryThrottle demo_create None = None"
  by code_simp+

lemma demo_create_attempts:
  "\<not> not_made demo_create busy_then_ok i" "\<not> last_attempt f demo_create busy_then_ok 0" "last_attempt f demo_create busy_then_ok 1"
proof -
  have fields: "rq_body demo_create = None" "rq_rateLimiter demo_create = None" "rq_maxRetries demo_create = 10" by code_simp+
  have made: "\<not> not_made demo_create busy_then_ok j" for j
    by (simp add: not_made_def busy_then_ok_def tryThrottle_def newHTTPRequest_def fields)
  then show "\<not> not_made demo_create busy_then_ok i" .
  show "\<not> last_attempt f demo_create busy_then_ok 0" "last_attempt f demo_create busy_then_ok 1"
    using made by (simp_all add: last_attempt_def fields, simp_all add: busy_then_ok_def retry_wait_def checkWait_def retryAfterSeconds_def header_Get_def Atoi_def less_eq_char_def)
qed

lemma demo_create_run:
  assumes "rq_request demo_retry_env demo_create None busy_then_ok = (st, err)"
  shows "sent (st_log st) = 2 \<and> err = None \<and> handled (st_log st) = [\<lparr>hr_StatusCode = 201, hr_Header = Map.empty, hr_Body = None\<rparr>]"
proof -
  obtain n where run: "loop_run (get_retryable demo_retry_env demo_create) demo_create busy_then_ok 0 n [] (st_log st) err"
    by (rule rq_request_run [OF assms]) (simp_all add: demo_create_ready)
  then have "n = 1" using demo_create_attempts(2,3) unfolding loop_run_def by (metis less_one linorder_neqE_nat less_eq_nat.simps(1))
  then show ?thesis using run by (simp add: loop_run_def demo_create_attempts(1) loop_result_def busy_then_ok_def)
qed

theorem request_retries_exact_witness:
  "\<exists>st err n. rq_request demo_retry_env demo_create None busy_then_ok = (st, err) \<and>
     int n \<le> max 0 (rq_maxRetries demo_create) \<and> last_attempt (get_retryable demo_retry_env demo_create) demo_create busy_then_ok n \<and>
     loop_result demo_create busy_then_ok n (handled (st_log st)) err"
proof -
  obtain st err where run: "rq_request demo_retry_env demo_create None busy_then_ok = (st, err)" by force
  from request_retries_exact [OF demo_create_ready run] run show ?thesis by blast
qed

theorem writes_not_resent_witness:
  "\<exists>resp s. at_do (busy_then_ok 0) = Inr resp \<and> retryAfterSeconds resp = Some s \<and> http_method demo_create \<noteq> ''GET''"
proof -
  obtain st err where run: "rq_request demo_retry_env demo_create None busy_then_ok = (st, err)" by force
  have "0 + 1 < sent (st_log st)" using demo_create_run [OF run] by simp
  from writes_not_resent [OF run this] have "\<exists>resp s. at_do (busy_then_ok 0) = Inr resp \<and> retryAfterSeconds resp = Some s"
    by (auto simp: busy_then_ok_def)
  moreover have "http_method demo_create \<noteq> ''GET''" by code_simp
  ultimately show ?thesis by blast
qed

theorem Do_success_exact_witness:
  "\<exists>st res resp. rq_Do demo_codec demo_retry_env demo_create None busy_then_ok = (st, res) \<and> handled (st_log st) = [resp] \<and> code_ok (hr_StatusCode resp)"
proof -
  obtain st res where run: "rq_Do demo_codec demo_retry_env demo_create None busy_then_ok = (st, res)" by force
  obtain st1 err where req: "rq_request demo_retry_env demo_create None busy_then_ok = (st1, err)" by force
  have content: "cc_ContentType (rc_content (rq_c demo_create)) = ''''" by code_simp
  have "rs_err res = None"
    using run demo_create_run [OF req] by (auto simp: rq_Do_def req transformResponse_def header_Get_def content Let_def)
  from Do_success_exact [OF run this] run show ?thesis by blast
qed

end
