(* ===== verification/Parallelizer.thy ===== *)
theory Parallelizer
  imports K8s_Prelude
begin

text \<open>
  \<open>util/workqueue/parallelizer.go\<close>: \<open>ParallelizeUntil\<close> lets workers take chunks of pieces from a channel until it is empty or the context is done.

  The goroutines are a step relation: a worker receives a chunk, runs a piece of it, goes on to the next chunk, or returns; the context may end at any
  moment, and \<open>doWorkPiece\<close> may panic, which ends the worker. Go's \<open>int\<close> is 64 bits wide: the sums and products that can leave its range are
  wrapped. The lemmas: as long as \<open>pieces + chunkSize\<close> fits, no piece is run twice, and a call that is neither cancelled nor
  hit by a panic runs every piece before it returns, which it does after a bounded number of steps; \<open>chunk_size_overflow\<close> shows what
  becomes of a call where it does not fit. Not modelled: the memory of the channel, which \<open>make\<close> may not get.
\<close>

section \<open>The model\<close>

text \<open>Go's division of integers truncates.\<close>

definition go_div :: "int \<Rightarrow> int \<Rightarrow> int" where
  "go_div a b = (if (a < 0) = (b < 0) then \<bar>a\<bar> div \<bar>b\<bar> else - (\<bar>a\<bar> div \<bar>b\<bar>))"

definition ceilDiv :: "int \<Rightarrow> int \<Rightarrow> int" where
  "ceilDiv a b = go_div (wrap64 (a + b - 1)) b"

text \<open>A worker waits for a chunk, is at piece \<open>p\<close> of a chunk that ends before \<open>e\<close>, or has returned.\<close>

datatype pz_worker = PzReceiving | PzAt int int | PzReturned

record pz_state =
  pz_pieces :: int
  pz_chunkSize :: int
  pz_toProcess :: "int list"
  pz_workers :: "pz_worker list"
  pz_ran :: "int list"
  pz_stopped :: bool
  pz_panicked :: bool

text \<open>The state when the workers are started; \<open>None\<close> is a panic of \<open>make\<close> or of \<open>wg.Add\<close>.\<close>

definition ParallelizeUntil :: "int \<Rightarrow> int \<Rightarrow> int \<Rightarrow> pz_state option" where
  "ParallelizeUntil workers pieces chunkSize =
     (let chunkSize = (if chunkSize < 1 then 1 else chunkSize);
          start = (\<lambda>chunks workers. \<lparr>pz_pieces = pieces, pz_chunkSize = chunkSize, pz_toProcess = map int [0..<nat chunks],
                     pz_workers = replicate (nat workers) PzReceiving, pz_ran = [], pz_stopped = False, pz_panicked = False\<rparr>)
      in if pieces = 0 then Some (start 0 0)
         else
           let chunks = ceilDiv pieces chunkSize
           in if chunks < 0 then None
              else let workers = (if chunks < workers then chunks else workers)
                   in if workers < 0 then None else Some (start chunks workers))"

definition chunk_range :: "pz_state \<Rightarrow> int \<Rightarrow> int \<times> int" where
  "chunk_range s chunk =
     (let start = wrap64 (chunk * pz_chunkSize s); end' = wrap64 (start + pz_chunkSize s)
      in (start, if end' > pz_pieces s then pz_pieces s else end'))"

text \<open>The steps of the workers; \<open>p++\<close> stays in range, since it is reached with \<open>p < end\<close> only.\<close>

inductive pz_step :: "pz_state \<Rightarrow> pz_state \<Rightarrow> bool" where
  pz_receive: "i < length (pz_workers s) \<Longrightarrow> pz_workers s ! i = PzReceiving \<Longrightarrow> pz_toProcess s = chunk # rest \<Longrightarrow> chunk_range s chunk = (p, e) \<Longrightarrow>
    pz_step s (s\<lparr>pz_toProcess := rest, pz_workers := (pz_workers s)[i := PzAt p e]\<rparr>)"
| pz_closed: "i < length (pz_workers s) \<Longrightarrow> pz_workers s ! i = PzReceiving \<Longrightarrow> pz_toProcess s = [] \<Longrightarrow>
    pz_step s (s\<lparr>pz_workers := (pz_workers s)[i := PzReturned]\<rparr>)"
| pz_chunk_end: "i < length (pz_workers s) \<Longrightarrow> pz_workers s ! i = PzAt p e \<Longrightarrow> e \<le> p \<Longrightarrow>
    pz_step s (s\<lparr>pz_workers := (pz_workers s)[i := PzReceiving]\<rparr>)"
| pz_doWorkPiece: "i < length (pz_workers s) \<Longrightarrow> pz_workers s ! i = PzAt p e \<Longrightarrow> p < e \<Longrightarrow> \<not> pz_stopped s \<Longrightarrow>
    pz_step s (s\<lparr>pz_ran := pz_ran s @ [p], pz_workers := (pz_workers s)[i := PzAt (p + 1) e]\<rparr>)"
| pz_panic: "i < length (pz_workers s) \<Longrightarrow> pz_workers s ! i = PzAt p e \<Longrightarrow> p < e \<Longrightarrow> \<not> pz_stopped s \<Longrightarrow>
    pz_step s (s\<lparr>pz_ran := pz_ran s @ [p], pz_panicked := True, pz_workers := (pz_workers s)[i := PzReturned]\<rparr>)"
| pz_stop: "i < length (pz_workers s) \<Longrightarrow> pz_workers s ! i = PzAt p e \<Longrightarrow> p < e \<Longrightarrow> pz_stopped s \<Longrightarrow>
    pz_step s (s\<lparr>pz_workers := (pz_workers s)[i := PzReturned]\<rparr>)"

text \<open>The end of the context.\<close>

definition pz_cancel :: "pz_state \<Rightarrow> pz_state" where
  "pz_cancel s = s\<lparr>pz_stopped := True\<rparr>"

inductive pz_reach :: "pz_state \<Rightarrow> pz_state \<Rightarrow> bool" for s0 where
  pz_refl: "pz_reach s0 s0"
| pz_go: "pz_reach s0 s \<Longrightarrow> pz_step s t \<Longrightarrow> pz_reach s0 t"
| pz_cancelled: "pz_reach s0 s \<Longrightarrow> pz_reach s0 (pz_cancel s)"

text \<open>\<open>wg.Wait\<close> returns.\<close>

definition pz_finished :: "pz_state \<Rightarrow> bool" where
  "pz_finished s \<longleftrightarrow> (\<forall>x \<in> set (pz_workers s). x = PzReturned)"

section \<open>Every piece once\<close>

fun piece_range :: "int \<times> int \<Rightarrow> int multiset" where
  "piece_range (p, e) = mset_set {p..<e}"

fun worker_pieces :: "pz_worker \<Rightarrow> int multiset" where
  "worker_pieces (PzAt p e) = mset_set {p..<e}"
| "worker_pieces _ = {#}"

text \<open>The pieces that have been run or are still to be run, as a multiset.\<close>

definition pz_pending :: "pz_state \<Rightarrow> int multiset" where
  "pz_pending s = \<Sum>\<^sub># (mset (map worker_pieces (pz_workers s))) + \<Sum>\<^sub># (mset (map (piece_range \<circ> chunk_range s) (pz_toProcess s)))"

lemma sum_update:
  fixes f :: "pz_worker \<Rightarrow> int multiset"
  assumes "i < length ws"
  shows "\<Sum>\<^sub># (mset (map f (ws[i := x]))) + f (ws ! i) = \<Sum>\<^sub># (mset (map f ws)) + f x"
  using assms
proof (induction ws arbitrary: i)
  case (Cons w ws)
  then show ?case by (cases i) (auto simp: ac_simps)
qed simp

lemma mset_pieces_Cons:
  fixes p e :: int
  assumes "p < e"
  shows "mset_set {p..<e} = add_mset p (mset_set {p + 1..<e})"
proof -
  have "{p..<e} = insert p {p + 1..<e}" using assms by auto
  then show ?thesis by simp
qed

lemma chunk_range_cong: "pz_pieces s = pz_pieces t \<Longrightarrow> pz_chunkSize s = pz_chunkSize t \<Longrightarrow> chunk_range s = chunk_range t"
  by (rule ext) (simp add: chunk_range_def Let_def)

lemma pz_pending_workers:
  assumes "i < length (pz_workers s)"
  shows "pz_pending (s\<lparr>pz_workers := (pz_workers s)[i := x]\<rparr>) + worker_pieces (pz_workers s ! i) = pz_pending s + worker_pieces x"
proof -
  have "chunk_range (s\<lparr>pz_workers := (pz_workers s)[i := x]\<rparr>) = chunk_range s" by (rule chunk_range_cong) simp_all
  then show ?thesis using sum_update [OF assms, of worker_pieces x] by (simp add: pz_pending_def ac_simps)
qed

definition pz_total :: "pz_state \<Rightarrow> int multiset" where
  "pz_total s = mset (pz_ran s) + pz_pending s"

text \<open>A worker moves from \<open>x\<close> to \<open>y\<close> and runs the pieces \<open>new\<close>.\<close>

lemma pz_total_move:
  assumes "i < length (pz_workers s)" "pz_workers s ! i = x"
    and "t = s\<lparr>pz_ran := pz_ran s @ new, pz_panicked := b, pz_workers := (pz_workers s)[i := y]\<rparr>"
  shows "pz_total t + worker_pieces x = pz_total s + mset new + worker_pieces y"
proof -
  have "pz_pending t = pz_pending (s\<lparr>pz_workers := (pz_workers s)[i := y]\<rparr>)"
    using chunk_range_cong [of t "s\<lparr>pz_workers := (pz_workers s)[i := y]\<rparr>"] by (simp add: assms(3) pz_pending_def)
  then show ?thesis using pz_pending_workers [OF assms(1), of y] assms(2,3) by (simp add: pz_total_def ac_simps)
qed

lemma pz_total_receive:
  assumes "i < length (pz_workers s)" "pz_workers s ! i = PzReceiving" "pz_toProcess s = chunk # rest" "chunk_range s chunk = (p, e)"
    and t: "t = s\<lparr>pz_toProcess := rest, pz_workers := (pz_workers s)[i := PzAt p e]\<rparr>"
  shows "pz_total t = pz_total s"
proof -
  have "chunk_range t = chunk_range s" by (rule chunk_range_cong) (simp_all add: t)
  then show ?thesis using sum_update [OF assms(1), of worker_pieces "PzAt p e"] assms(2-4)
    by (simp add: pz_total_def pz_pending_def t ac_simps)
qed

lemma pz_step_total:
  assumes "pz_step s t"
  shows "pz_total t \<subseteq># pz_total s \<and> (\<not> pz_stopped t \<and> \<not> pz_panicked t \<longrightarrow> pz_total t = pz_total s) \<and>
    pz_stopped t = pz_stopped s \<and> (pz_panicked s \<longrightarrow> pz_panicked t)"
  using assms
proof cases
  case (pz_receive i chunk rest p e)
  then show ?thesis using pz_total_receive [OF pz_receive(2-5,1)] by simp
next
  case (pz_closed i)
  then show ?thesis using pz_total_move [OF pz_closed(2,3), where t = t and new = "[]" and b = "pz_panicked s" and y = PzReturned] by simp
next
  case (pz_chunk_end i p e)
  then show ?thesis using pz_total_move [OF pz_chunk_end(2,3), where t = t and new = "[]" and b = "pz_panicked s" and y = PzReceiving] by simp
next
  case (pz_doWorkPiece i p e)
  have "pz_total t + mset_set {p..<e} = pz_total s + {#p#} + mset_set {p + 1..<e}"
    using pz_total_move [OF pz_doWorkPiece(2,3), where t = t and new = "[p]" and b = "pz_panicked s" and y = "PzAt (p + 1) e"] pz_doWorkPiece(1) by simp
  then have "pz_total t = pz_total s" using mset_pieces_Cons [OF pz_doWorkPiece(4)] by simp
  then show ?thesis using pz_doWorkPiece(1) by simp
next
  case (pz_panic i p e)
  have "pz_total t + mset_set {p..<e} = pz_total s + {#p#}"
    using pz_total_move [OF pz_panic(2,3), where t = t and new = "[p]" and b = True and y = PzReturned] pz_panic(1) by simp
  then have "pz_total t \<subseteq># pz_total s" using mset_pieces_Cons [OF pz_panic(4)] by (simp add: subset_mset.le_iff_add) (metis add.commute)
  then show ?thesis using pz_panic(1) by simp
next
  case (pz_stop i p e)
  have "pz_total t + mset_set {p..<e} = pz_total s"
    using pz_total_move [OF pz_stop(2,3), where t = t and new = "[]" and b = "pz_panicked s" and y = PzReturned] pz_stop(1) by simp
  then have "pz_total t \<subseteq># pz_total s" by (metis mset_subset_eq_add_left)
  then show ?thesis using pz_stop(1,5) by simp
qed

lemma pz_reach_inv:
  assumes "pz_reach s0 s" and "pz_total s0 = mset_set {0..<n}" "\<not> pz_stopped s0" "\<not> pz_panicked s0"
  shows "pz_total s \<subseteq># mset_set {0..<n} \<and> (\<not> pz_stopped s \<and> \<not> pz_panicked s \<longrightarrow> pz_total s = mset_set {0..<n})"
  using assms(1)
proof (induction rule: pz_reach.induct)
  case (pz_go s t)
  then show ?case using pz_step_total [OF pz_go(2)] by (metis subset_mset.order_trans)
next
  case (pz_cancelled s)
  have "pz_total (pz_cancel s) = pz_total s"
    using chunk_range_cong [of "pz_cancel s" s] by (simp add: pz_total_def pz_pending_def pz_cancel_def)
  then show ?case using pz_cancelled by (simp add: pz_cancel_def)
qed (use assms(2) in simp)

text \<open>The chunks cover the pieces.\<close>

lemma chunks_cover:
  fixes n c :: int
  assumes "0 < c"
  shows "\<Sum>\<^sub># (mset (map (\<lambda>k. mset_set {int k * c..<min n (int k * c + c)}) [0..<m])) = mset_set {0..<min n (int m * c)}"
proof (induction m)
  case (Suc m)
  have m: "int (Suc m) * c = int m * c + c" by (simp add: algebra_simps)
  have "{0..<min n (int (Suc m) * c)} = {0..<min n (int m * c)} \<union> {int m * c..<min n (int m * c + c)}"
    unfolding m using assms mult_nonneg_nonneg [of "int m" c] by (auto simp: min_def; linarith)
  moreover have "{0..<min n (int m * c)} \<inter> {int m * c..<min n (int m * c + c)} = {}" by auto
  ultimately show ?case using Suc by (simp add: mset_set_Union)
qed simp

lemma ceilDiv_covers:
  assumes "0 < a" "0 < b" "a + b \<le> 2 ^ 63"
  shows "0 < ceilDiv a b" "a \<le> ceilDiv a b * b" "(ceilDiv a b - 1) * b < a"
proof -
  have q: "ceilDiv a b = (a + b - 1) div b" using assms wrap64_id [of "a + b - 1"] by (simp add: ceilDiv_def go_div_def)
  have e: "(a + b - 1) div b * b + (a + b - 1) mod b = a + b - 1" by (rule div_mult_mod_eq)
  moreover have "(a + b - 1) mod b < b" using assms by simp
  ultimately show "a \<le> ceilDiv a b * b" unfolding q by linarith
  then show "0 < ceilDiv a b" using assms by (smt (verit) mult_nonpos_nonneg)
  have "0 \<le> (a + b - 1) mod b" using assms by simp
  then show "(ceilDiv a b - 1) * b < a" unfolding q left_diff_distrib using e by linarith
qed

text \<open>As long as the sum of the pieces and the chunk size is in range, so are the bounds of the chunks.\<close>

lemma chunk_range_in_range:
  assumes "0 < pz_chunkSize s" "pz_pieces s + pz_chunkSize s \<le> 2 ^ 63" "0 \<le> k" "k * pz_chunkSize s < pz_pieces s"
  shows "chunk_range s k = (k * pz_chunkSize s, min (pz_pieces s) (k * pz_chunkSize s + pz_chunkSize s))"
proof -
  have "0 \<le> k * pz_chunkSize s" using assms by simp
  then have "wrap64 (k * pz_chunkSize s) = k * pz_chunkSize s"
    "wrap64 (k * pz_chunkSize s + pz_chunkSize s) = k * pz_chunkSize s + pz_chunkSize s"
    using assms by (intro wrap64_id; linarith)+
  then show ?thesis by (simp add: chunk_range_def Let_def min_def)
qed

lemma pz_start_total:
  assumes "0 \<le> pieces" and "pieces + max 1 chunkSize \<le> 2 ^ 63" and "ParallelizeUntil workers pieces chunkSize = Some s"
  shows "pz_total s = mset_set {0..<pieces} \<and> \<not> pz_stopped s \<and> \<not> pz_panicked s"
proof -
  define c where "c = (if chunkSize < 1 then 1 else chunkSize)"
  have c: "0 < c" "pieces + c \<le> 2 ^ 63" using assms(2) by (auto simp: c_def max_def split: if_splits)
  obtain chunks ws where s: "s = \<lparr>pz_pieces = pieces, pz_chunkSize = c, pz_toProcess = map int [0..<nat chunks],
      pz_workers = replicate (nat ws) PzReceiving, pz_ran = [], pz_stopped = False, pz_panicked = False\<rparr>"
    and chunks: "if pieces = 0 then chunks = 0 else chunks = ceilDiv pieces c"
    using assms(3) unfolding ParallelizeUntil_def
    by (cases "pieces = 0") (force simp: Let_def c_def intro: that [of 0 0], auto simp: Let_def c_def intro: that split: if_splits)
  have k: "int k * c < pieces" if "k < nat chunks" for k
  proof -
    have "pieces \<noteq> 0" using that chunks by (cases "pieces = 0") auto
    then have "(chunks - 1) * c < pieces" using ceilDiv_covers(3) [of pieces c] chunks assms(1) c by simp
    moreover have "int k * c \<le> (chunks - 1) * c" using that c(1) by (intro mult_right_mono) auto
    ultimately show ?thesis by simp
  qed
  have "chunk_range s (int k) = (int k * c, min pieces (int k * c + c))" if "k < nat chunks" for k
    using chunk_range_in_range [of s "int k"] k [OF that] c by (simp add: s)
  then have "map (piece_range \<circ> chunk_range s) (pz_toProcess s) = map (\<lambda>k. mset_set {int k * c..<min pieces (int k * c + c)}) [0..<nat chunks]"
    by (simp add: s)
  moreover have "min pieces (int (nat chunks) * c) = pieces"
    using assms(1) c chunks ceilDiv_covers [of pieces c] by (cases "pieces = 0") auto
  ultimately have "\<Sum>\<^sub># (mset (map (piece_range \<circ> chunk_range s) (pz_toProcess s))) = mset_set {0..<pieces}"
    using chunks_cover [OF c(1), of pieces "nat chunks"] by simp
  then show ?thesis by (simp add: pz_total_def pz_pending_def s)
qed

section \<open>Progress\<close>

fun worker_work :: "pz_worker \<Rightarrow> nat" where
  "worker_work PzReceiving = 1"
| "worker_work (PzAt p e) = nat (e - p) + 2"
| "worker_work PzReturned = 0"

definition pz_work :: "pz_state \<Rightarrow> nat" where
  "pz_work s = sum_list (map worker_work (pz_workers s)) + sum_list (map (\<lambda>k. size (piece_range (chunk_range s k)) + 2) (pz_toProcess s))"

lemma sum_list_move:
  fixes f :: "'a \<Rightarrow> nat"
  shows "i < length ws \<Longrightarrow> sum_list (map f (ws[i := x])) + f (ws ! i) = sum_list (map f ws) + f x"
proof (induction ws arbitrary: i)
  case (Cons w ws)
  then show ?case by (cases i) auto
qed simp

lemma pz_step_work: "pz_step s t \<Longrightarrow> pz_work t < pz_work s"
proof (induction rule: pz_step.induct)
  case (pz_receive i s chunk rest p e)
  let ?t = "s\<lparr>pz_toProcess := rest, pz_workers := (pz_workers s)[i := PzAt p e]\<rparr>"
  have "chunk_range ?t = chunk_range s" by (rule chunk_range_cong) simp_all
  then show ?case using sum_list_move [OF pz_receive(1), of worker_work "PzAt p e"] pz_receive by (simp add: pz_work_def)
next
  case (pz_closed i s)
  then show ?case using sum_list_move [OF pz_closed(1), of worker_work PzReturned] by (simp add: pz_work_def)
next
  case (pz_chunk_end i s p e)
  let ?t = "s\<lparr>pz_workers := (pz_workers s)[i := PzReceiving]\<rparr>"
  have "chunk_range ?t = chunk_range s" by (rule chunk_range_cong) simp_all
  then show ?case using sum_list_move [OF pz_chunk_end(1), of worker_work PzReceiving] pz_chunk_end by (simp add: pz_work_def)
next
  case (pz_doWorkPiece i s p e)
  let ?t = "s\<lparr>pz_ran := pz_ran s @ [p], pz_workers := (pz_workers s)[i := PzAt (p + 1) e]\<rparr>"
  have "chunk_range ?t = chunk_range s" by (rule chunk_range_cong) simp_all
  then show ?case using sum_list_move [OF pz_doWorkPiece(1), of worker_work "PzAt (p + 1) e"] pz_doWorkPiece by (simp add: pz_work_def)
next
  case (pz_panic i s p e)
  let ?t = "s\<lparr>pz_ran := pz_ran s @ [p], pz_panicked := True, pz_workers := (pz_workers s)[i := PzReturned]\<rparr>"
  have "chunk_range ?t = chunk_range s" by (rule chunk_range_cong) simp_all
  then show ?case using sum_list_move [OF pz_panic(1), of worker_work PzReturned] pz_panic by (simp add: pz_work_def)
next
  case (pz_stop i s p e)
  let ?t = "s\<lparr>pz_workers := (pz_workers s)[i := PzReturned]\<rparr>"
  have "chunk_range ?t = chunk_range s" by (rule chunk_range_cong) simp_all
  then show ?case using sum_list_move [OF pz_stop(1), of worker_work PzReturned] pz_stop by (simp add: pz_work_def)
qed

lemma pz_progress:
  assumes "\<not> pz_finished s"
  shows "\<exists>t. pz_step s t"
proof -
  obtain i where i: "i < length (pz_workers s)" "pz_workers s ! i \<noteq> PzReturned" using assms by (auto simp: pz_finished_def in_set_conv_nth)
  show ?thesis
  proof (cases "pz_workers s ! i")
    case PzReceiving
    then show ?thesis using i pz_closed [of i s] pz_receive [of i s] by (cases "pz_toProcess s"; cases "chunk_range s (hd (pz_toProcess s))") auto
  next
    case (PzAt p e)
    then show ?thesis using i pz_chunk_end [of i s p e] pz_doWorkPiece [of i s p e] pz_stop [of i s p e] by (meson not_le)
  qed (use i in simp)
qed

lemma returned_update: "PzReturned \<in> set (ws[i := x]) \<Longrightarrow> x \<noteq> PzReturned \<Longrightarrow> PzReturned \<in> set ws"
  using set_update_subset_insert [of ws i x] by auto

text \<open>A worker returns without a reason of its own only when there are no chunks left.\<close>

lemma pz_reach_returned:
  assumes "pz_reach s0 s" and "PzReturned \<notin> set (pz_workers s0)"
  shows "length (pz_workers s) = length (pz_workers s0) \<and>
    (\<not> pz_stopped s \<and> \<not> pz_panicked s \<and> PzReturned \<in> set (pz_workers s) \<longrightarrow> pz_toProcess s = [])"
  using assms(1)
proof (induction rule: pz_reach.induct)
  case (pz_go s t)
  from pz_go(2) show ?case
  proof cases
    case (pz_receive i chunk rest p e)
    then show ?thesis using pz_go.IH returned_update [of "pz_workers s" i "PzAt p e"] by auto
  next
    case (pz_chunk_end i p e)
    then show ?thesis using pz_go.IH returned_update [of "pz_workers s" i PzReceiving] by auto
  next
    case (pz_doWorkPiece i p e)
    then show ?thesis using pz_go.IH returned_update [of "pz_workers s" i "PzAt (p + 1) e"] by auto
  qed (use pz_go.IH in auto)
qed (use assms(2) in \<open>auto simp: pz_cancel_def\<close>)

lemma distinct_submset:
  assumes "mset xs \<subseteq># mset_set A"
  shows "distinct xs"
  unfolding distinct_count_atmost_1
proof
  fix a
  have "count (mset xs) a \<le> count (mset_set A) a" using assms by (simp add: subseteq_mset_def)
  also have "\<dots> \<le> 1" by (simp add: count_mset_set')
  finally have "count (mset xs) a \<le> 1" .
  moreover have "a \<in> set xs \<Longrightarrow> count (mset xs) a \<ge> 1" "a \<notin> set xs \<Longrightarrow> count (mset xs) a = 0"
    by (simp_all add: Suc_le_eq not_in_iff)
  ultimately show "count (mset xs) a = (if a \<in> set xs then 1 else 0)" by (metis le_antisym)
qed

lemma pz_start_workers:
  assumes "ParallelizeUntil workers pieces chunkSize = Some s"
  shows "PzReturned \<notin> set (pz_workers s) \<and> (0 < pieces \<and> 0 < workers \<and> pieces + max 1 chunkSize \<le> 2 ^ 63 \<longrightarrow> pz_workers s \<noteq> [])"
  using assms ceilDiv_covers(1) [of pieces 1] ceilDiv_covers(1) [of pieces chunkSize]
  by (auto simp: ParallelizeUntil_def Let_def max_def split: if_splits)

text \<open>
  C19 \<open>ParallelizeUntil\<close> with \<open>pieces + chunkSize\<close> at most \<open>2^63\<close>, so that Go's arithmetic does not wrap: whatever the schedule of the workers,
  and whether the context ends or a piece panics, no piece is run twice and none that does not exist;
  the call cannot hang, since some worker can go on until all have returned and every step brings the end nearer; and if at least one worker
  is asked for and the call ends without being cancelled and without a panic, each of the pieces has been run exactly once.
\<close>
theorem parallelize_exactly_once:
  assumes "ParallelizeUntil workers pieces chunkSize = Some s0" and "0 \<le> pieces" and "pieces + max 1 chunkSize \<le> 2 ^ 63" and "pz_reach s0 s"
  shows "distinct (pz_ran s) \<and> set (pz_ran s) \<subseteq> {0..<pieces} \<and> (\<not> pz_finished s \<longrightarrow> (\<exists>t. pz_step s t)) \<and>
    (\<forall>t. pz_step s t \<longrightarrow> pz_work t < pz_work s) \<and>
    (pz_finished s \<and> \<not> pz_stopped s \<and> \<not> pz_panicked s \<and> 0 < workers \<longrightarrow> mset (pz_ran s) = mset_set {0..<pieces})"
proof -
  note start = pz_start_total [OF assms(2,3,1)]
  have inv: "pz_total s \<subseteq># mset_set {0..<pieces}" "\<not> pz_stopped s \<and> \<not> pz_panicked s \<Longrightarrow> pz_total s = mset_set {0..<pieces}"
    using pz_reach_inv [OF assms(4)] start by blast+
  note returned = pz_reach_returned [OF assms(4)] pz_start_workers [OF assms(1)]
  have sub: "mset (pz_ran s) \<subseteq># mset_set {0..<pieces}"
    using inv(1) unfolding pz_total_def by (metis mset_subset_eq_add_left subset_mset.order_trans)
  then have "distinct (pz_ran s)" by (rule distinct_submset)
  moreover have "set (pz_ran s) \<subseteq> {0..<pieces}" using mset_subset_eqD [OF sub] by auto
  moreover have "mset (pz_ran s) = mset_set {0..<pieces}" if fin: "pz_finished s" "\<not> pz_stopped s" "\<not> pz_panicked s" "0 < workers"
  proof -
    have "pz_pending s = {#}"
    proof (cases "pieces = 0")
      case True
      then show ?thesis using inv(1) by (simp add: pz_total_def)
    next
      case False
      have "pz_workers s \<noteq> []" using pz_start_workers [OF assms(1)] returned False assms(2,3) fin(4) by force
      then have "PzReturned \<in> set (pz_workers s)" using fin(1) by (metis pz_finished_def hd_in_set)
      then have "pz_toProcess s = []" using returned fin(2,3) by blast
      moreover have "map worker_pieces (pz_workers s) = map (\<lambda>_. {#}) (pz_workers s)" using fin(1) by (auto simp: pz_finished_def)
      ultimately show ?thesis by (simp add: pz_pending_def)
    qed
    then show ?thesis using inv(2) fin(2,3) by (simp add: pz_total_def)
  qed
  ultimately show ?thesis using pz_progress pz_step_work by blast
qed

text \<open>One worker and two chunks, of two pieces and of one: the whole call, up to the return.\<close>

definition one_worker :: "int list \<Rightarrow> int list \<Rightarrow> pz_worker \<Rightarrow> pz_state" where
  "one_worker ran_pieces chunks w = \<lparr>pz_pieces = 3, pz_chunkSize = 2, pz_toProcess = chunks, pz_workers = [w], pz_ran = ran_pieces,
     pz_stopped = False, pz_panicked = False\<rparr>"

lemma one_worker_steps:
  "chunk = 0 \<or> chunk = 1 \<Longrightarrow>
     pz_step (one_worker ran_pieces (chunk # rest) PzReceiving) (one_worker ran_pieces rest (PzAt (2 * chunk) (min 3 (2 * chunk + 2))))"
  "pz_step (one_worker ran_pieces [] PzReceiving) (one_worker ran_pieces [] PzReturned)"
  "e \<le> p \<Longrightarrow> pz_step (one_worker ran_pieces chunks (PzAt p e)) (one_worker ran_pieces chunks PzReceiving)"
  "p < e \<Longrightarrow> pz_step (one_worker ran_pieces chunks (PzAt p e)) (one_worker (ran_pieces @ [p]) chunks (PzAt (p + 1) e))"
  using pz_receive [of 0 "one_worker ran_pieces (chunk # rest) PzReceiving"] pz_closed [of 0 "one_worker ran_pieces [] PzReceiving"]
    pz_chunk_end [of 0 "one_worker ran_pieces chunks (PzAt p e)"] pz_doWorkPiece [of 0 "one_worker ran_pieces chunks (PzAt p e)"]
  by (auto simp: one_worker_def chunk_range_def wrap64_def)

lemma one_worker_run:
  "pz_reach (one_worker [] [0, 1] PzReceiving) (one_worker [0, 1, 2] [] PzReturned)"
proof -
  let ?r = "pz_reach (one_worker [] [0, 1] PzReceiving)"
  have "?r (one_worker [] [1] (PzAt 0 2))" using pz_go [OF pz_refl] one_worker_steps(1) [of 0 "[]" "[1]"] by force
  then have "?r (one_worker [0] [1] (PzAt 1 2))" using pz_go one_worker_steps(4) [of 0 2 "[]"] by force
  then have "?r (one_worker [0, 1] [1] (PzAt 2 2))" using pz_go one_worker_steps(4) [of 1 2 "[0]"] by force
  then have "?r (one_worker [0, 1] [1] PzReceiving)" using pz_go one_worker_steps(3) [of 2 2] by blast
  then have "?r (one_worker [0, 1] [] (PzAt 2 3))" using pz_go one_worker_steps(1) [of 1 "[0, 1]" "[]"] by force
  then have "?r (one_worker [0, 1, 2] [] (PzAt 3 3))" using pz_go one_worker_steps(4) [of 2 3 "[0, 1]"] by force
  then have "?r (one_worker [0, 1, 2] [] PzReceiving)" using pz_go one_worker_steps(3) [of 3 3] by blast
  then show ?thesis using pz_go one_worker_steps(2) by blast
qed

theorem parallelize_exactly_once_witness:
  "\<exists>s0 s. ParallelizeUntil 1 3 2 = Some s0 \<and> pz_reach s0 s \<and> pz_finished s \<and> pz_ran s = [0, 1, 2] \<and>
     mset (pz_ran s) = mset_set {0..<3}"
proof -
  have start: "ParallelizeUntil 1 3 2 = Some (one_worker [] [0, 1] PzReceiving)"
    by (simp add: ParallelizeUntil_def ceilDiv_def go_div_def wrap64_def one_worker_def upt_rec numeral_2_eq_2)
  have fin: "pz_finished (one_worker [0, 1, 2] [] PzReturned)" by (simp add: pz_finished_def one_worker_def)
  have "mset (pz_ran (one_worker [0, 1, 2] [] PzReturned)) = mset_set {0..<3}"
    using parallelize_exactly_once [OF start _ _ one_worker_run] fin by (simp add: one_worker_def)
  then show ?thesis using start fin one_worker_run by (intro exI) (auto simp: one_worker_def)
qed

text \<open>
  Outside that range the call does less than it says: with five pieces in chunks of the largest \<open>int\<close> no chunk is made and the call returns
  at once with nothing run; with two pieces the number of chunks is negative and \<open>make\<close> panics.
\<close>

lemma chunk_size_overflow:
  "0 < workers \<Longrightarrow>
     \<exists>s0. ParallelizeUntil workers 5 (2 ^ 63 - 1) = Some s0 \<and> pz_finished s0 \<and> pz_ran s0 = [] \<and> (\<forall>t. \<not> pz_step s0 t)"
  "ParallelizeUntil workers 2 (2 ^ 63 - 1) = None"
  by (auto simp: ParallelizeUntil_def ceilDiv_def go_div_def wrap64_def pz_finished_def elim: pz_step.cases)

end
