(* ===== verification/ObjectTracker.thy ===== *)
theory ObjectTracker
  imports GoStrings
begin

text \<open>
  \<open>testing/fixture.go\<close> and \<open>testing/fake.go\<close>: the tracker of objects behind the fake clients, the reaction that maps actions to it, and the chains of reactors.

  Objects are of a type \<open>'o\<close>; what the tracker asks of them, \<open>meta.Accessor\<close>, the scheme and the patch libraries, is the argument \<open>tracker_env\<close>. Deep copies are
  invisible, since values are not shared. A watcher is a number; \<open>tk_sent\<close> has the events it was given. Locks make every method one
  step. The nesting of lists in \<open>Add\<close> is bounded by fuel.

  The lemmas: an object is stored under its own namespace and name, a list returns exactly the objects of its namespace in order, and the events of a watcher
  lead from what it would have listed when it began to what a list returns now.
\<close>

section \<open>The tracker\<close>

record GVR =
  gvr_Group :: string
  gvr_Version :: string
  gvr_Resource :: string

record GVK =
  gvk_Group :: string
  gvk_Version :: string
  gvk_Kind :: string

text \<open>A namespaced name: the namespace and the name.\<close>

type_synonym nsname = "string \<times> string"

datatype 'e tracker_err =
    NotFoundErr GVR string
  | AlreadyExists GVR string
  | BadRequest string string
  | TkErrorf string
  | TkExt 'e

text \<open>\<open>te_Accessor\<close> gives the namespace and the name; \<open>te_Status\<close> the error of a \<open>metav1.Status\<close> that is not a success.\<close>

record ('o, 'l, 'e) tracker_env =
  te_Accessor :: "'o \<Rightarrow> 'e + nsname"
  te_SetNamespace :: "string \<Rightarrow> 'o \<Rightarrow> 'o"
  te_Status :: "'o \<Rightarrow> 'e option"
  te_ObjectKinds :: "'o \<Rightarrow> 'e + GVK list"
  te_PartialKind :: "'o \<Rightarrow> GVK option"
  te_GuessResource :: "GVK \<Rightarrow> GVR"
  te_Extract :: "'o \<Rightarrow> ('e + 'o list) option"
  te_NewList :: "GVK \<Rightarrow> 'e + 'l"
  te_IsListType :: "'l \<Rightarrow> bool"
  te_SetList :: "'l \<Rightarrow> 'o list \<Rightarrow> 'e + 'l"

datatype 'o tk_event = TkAdded 'o | TkModified 'o | TkDeleted 'o

record 'o tracker =
  tk_objects :: "GVR \<Rightarrow> (nsname \<Rightarrow> 'o option) option"
  tk_watchers :: "GVR \<Rightarrow> string \<Rightarrow> nat list"
  tk_next :: nat
  tk_sent :: "nat \<Rightarrow> 'o tk_event list"

definition NewObjectTracker :: "'o tracker" where
  "NewObjectTracker = \<lparr>tk_objects = Map.empty, tk_watchers = (\<lambda>_ _. []), tk_next = 0, tk_sent = (\<lambda>_. [])\<rparr>"

definition tk_getWatches :: "GVR \<Rightarrow> string \<Rightarrow> 'o tracker \<Rightarrow> nat list" where
  "tk_getWatches gvr ns t = tk_watchers t gvr ns @ (if ns \<noteq> '''' then tk_watchers t gvr '''' else [])"

text \<open>An event for each watcher of a list.\<close>

definition tk_send :: "nat list \<Rightarrow> 'o tk_event \<Rightarrow> 'o tracker \<Rightarrow> 'o tracker" where
  "tk_send ws e t = fold (\<lambda>w t. t\<lparr>tk_sent := (tk_sent t)(w := tk_sent t w @ [e])\<rparr>) ws t"

definition tk_Watch :: "GVR \<Rightarrow> string \<Rightarrow> 'o tracker \<Rightarrow> 'o tracker \<times> nat" where
  "tk_Watch gvr ns t =
     (t\<lparr>tk_watchers := (tk_watchers t)(gvr := (tk_watchers t gvr)(ns := tk_watchers t gvr ns @ [tk_next t])), tk_next := tk_next t + 1\<rparr>, tk_next t)"

definition tk_Get :: "('o, 'l, 'e) tracker_env \<Rightarrow> GVR \<Rightarrow> string \<Rightarrow> string \<Rightarrow> 'o tracker \<Rightarrow> 'e tracker_err + 'o" where
  "tk_Get env gvr ns name t =
     (case tk_objects t gvr of
        None \<Rightarrow> Inl (NotFoundErr gvr name)
      | Some objs \<Rightarrow>
          (case objs (ns, name) of
             None \<Rightarrow> Inl (NotFoundErr gvr name)
           | Some obj \<Rightarrow> (case te_Status env obj of Some err \<Rightarrow> Inl (TkExt err) | None \<Rightarrow> Inr obj)))"

definition tk_add ::
  "('o, 'l, 'e) tracker_env \<Rightarrow> GVR \<Rightarrow> 'o \<Rightarrow> string \<Rightarrow> bool \<Rightarrow> 'o tracker \<Rightarrow> 'o tracker \<times> 'e tracker_err option"
where
  "tk_add env gvr obj ns replaceExisting t =
     (case te_Accessor env obj of
        Inl err \<Rightarrow> (t, Some (TkExt err))
      | Inr (objNs, name) \<Rightarrow>
          let obj = (if length objNs = 0 then te_SetNamespace env ns obj else obj);
              objNs = (if length objNs = 0 then ns else objNs)
          in if ns \<noteq> objNs then (t, Some (BadRequest ns objNs))
             else
               let objs = (case tk_objects t gvr of Some objs \<Rightarrow> objs | None \<Rightarrow> Map.empty);
                   t = t\<lparr>tk_objects := (tk_objects t)(gvr \<mapsto> objs)\<rparr>;
                   stored = t\<lparr>tk_objects := (tk_objects t)(gvr \<mapsto> objs((objNs, name) \<mapsto> obj))\<rparr>
               in if objs (objNs, name) \<noteq> None
                  then if replaceExisting then (tk_send (tk_getWatches gvr ns t) (TkModified obj) stored, None)
                       else (t, Some (AlreadyExists gvr name))
                  else if replaceExisting then (t, Some (NotFoundErr gvr name))
                  else (tk_send (tk_getWatches gvr ns t) (TkAdded obj) stored, None))"

definition tk_Create :: "('o, 'l, 'e) tracker_env \<Rightarrow> GVR \<Rightarrow> 'o \<Rightarrow> string \<Rightarrow> 'o tracker \<Rightarrow> 'o tracker \<times> 'e tracker_err option" where
  "tk_Create env gvr obj ns t = tk_add env gvr obj ns False t"

definition tk_Update :: "('o, 'l, 'e) tracker_env \<Rightarrow> GVR \<Rightarrow> 'o \<Rightarrow> string \<Rightarrow> 'o tracker \<Rightarrow> 'o tracker \<times> 'e tracker_err option" where
  "tk_Update env gvr obj ns t = tk_add env gvr obj ns True t"

definition tk_Delete :: "GVR \<Rightarrow> string \<Rightarrow> string \<Rightarrow> 'o tracker \<Rightarrow> 'o tracker \<times> 'e tracker_err option" where
  "tk_Delete gvr ns name t =
     (case tk_objects t gvr of
        None \<Rightarrow> (t, Some (NotFoundErr gvr name))
      | Some objs \<Rightarrow>
          (case objs (ns, name) of
             None \<Rightarrow> (t, Some (NotFoundErr gvr name))
           | Some obj \<Rightarrow>
               (tk_send (tk_getWatches gvr ns t) (TkDeleted obj)
                  (t\<lparr>tk_objects := (tk_objects t)(gvr \<mapsto> objs((ns, name) := None))\<rparr>), None)))"

text \<open>The loop of \<open>Add\<close> over the kinds of an object, and over the items of a list; \<open>None\<close> is the end of the fuel.\<close>

fun tk_add_kinds :: "('o, 'l, 'e) tracker_env \<Rightarrow> 'o \<Rightarrow> string \<Rightarrow> GVK list \<Rightarrow> 'o tracker \<Rightarrow> 'o tracker \<times> 'e tracker_err option" where
  "tk_add_kinds env obj ns [] t = (t, None)"
| "tk_add_kinds env obj ns (gvk # gvks) t =
     (let gvr = te_GuessResource env gvk;
          gvr = (if gvr_Version gvr = ''__internal'' then gvr\<lparr>gvr_Version := ''''\<rparr> else gvr)
      in case tk_add env gvr obj ns False t of
           (t, Some err) \<Rightarrow> (t, Some err)
         | (t, None) \<Rightarrow> tk_add_kinds env obj ns gvks t)"

fun tk_add_items ::
  "('o \<Rightarrow> 'o tracker \<Rightarrow> ('o tracker \<times> 'e tracker_err option) option) \<Rightarrow> 'o list \<Rightarrow> 'o tracker \<Rightarrow> ('o tracker \<times> 'e tracker_err option) option"
where
  "tk_add_items add [] t = Some (t, None)"
| "tk_add_items add (obj # objs) t =
     (case add obj t of
        None \<Rightarrow> None
      | Some (t, Some err) \<Rightarrow> Some (t, Some err)
      | Some (t, None) \<Rightarrow> tk_add_items add objs t)"

fun tk_Add :: "('o, 'l, 'e) tracker_env \<Rightarrow> nat \<Rightarrow> 'o \<Rightarrow> 'o tracker \<Rightarrow> ('o tracker \<times> 'e tracker_err option) option" where
  "tk_Add env 0 obj t = None"
| "tk_Add env (Suc n) obj t =
     (case te_Extract env obj of
        Some (Inl err) \<Rightarrow> Some (t, Some (TkExt err))
      | Some (Inr list) \<Rightarrow> tk_add_items (tk_Add env n) list t
      | None \<Rightarrow>
          (case te_Accessor env obj of
             Inl err \<Rightarrow> Some (t, Some (TkExt err))
           | Inr (ns, name) \<Rightarrow>
               (case te_ObjectKinds env obj of
                  Inl err \<Rightarrow> Some (t, Some (TkExt err))
                | Inr gvks \<Rightarrow>
                    let gvks = (case te_PartialKind env obj of Some gvk \<Rightarrow> [gvk] | None \<Rightarrow> gvks)
                    in if gvks = [] then Some (t, Some (TkErrorf ''no registered kinds for %v''))
                       else Some (tk_add_kinds env obj ns gvks t))))"

text \<open>\<open>filterByNamespace\<close>, with the order in which Go's map gives the objects.\<close>

fun filter_objs :: "('o, 'l, 'e) tracker_env \<Rightarrow> string \<Rightarrow> 'o list \<Rightarrow> 'e tracker_err + 'o list" where
  "filter_objs env ns [] = Inr []"
| "filter_objs env ns (obj # objs) =
     (case te_Accessor env obj of
        Inl err \<Rightarrow> Inl (TkExt err)
      | Inr (objNs, _) \<Rightarrow>
          (case filter_objs env ns objs of
             Inl err \<Rightarrow> Inl err
           | Inr res \<Rightarrow> if ns \<noteq> '''' \<and> objNs \<noteq> ns then Inr res else Inr (obj # res)))"

text \<open>The order of \<open>sort.Slice\<close>: by namespace and then by name.\<close>

definition obj_key :: "('o, 'l, 'e) tracker_env \<Rightarrow> 'o \<Rightarrow> nsname" where
  "obj_key env obj = (case te_Accessor env obj of Inr k \<Rightarrow> k | Inl _ \<Rightarrow> ('''', ''''))"

definition key_le :: "nsname \<Rightarrow> nsname \<Rightarrow> bool" where
  "key_le a b \<longleftrightarrow> fst a < fst b \<or> fst a = fst b \<and> snd a \<le> snd b"

fun insert_obj :: "('o, 'l, 'e) tracker_env \<Rightarrow> 'o \<Rightarrow> 'o list \<Rightarrow> 'o list" where
  "insert_obj env x [] = [x]"
| "insert_obj env x (y # ys) = (if key_le (obj_key env x) (obj_key env y) then x # y # ys else y # insert_obj env x ys)"

definition filterByNamespace :: "('o, 'l, 'e) tracker_env \<Rightarrow> nsname list \<Rightarrow> (nsname \<Rightarrow> 'o option) \<Rightarrow> string \<Rightarrow> 'e tracker_err + 'o list" where
  "filterByNamespace env order objs ns =
     map_sum (\<lambda>err. err) (\<lambda>res. foldr (insert_obj env) res []) (filter_objs env ns (List.map_filter objs order))"

definition tk_List ::
  "('o, 'l, 'e) tracker_env \<Rightarrow> nsname list \<Rightarrow> GVR \<Rightarrow> GVK \<Rightarrow> string \<Rightarrow> 'o tracker \<Rightarrow> 'e tracker_err + 'l"
where
  "tk_List env order gvr gvk ns t =
     (let listGVK = gvk\<lparr>gvk_Kind := gvk_Kind gvk @ ''List''\<rparr>;
          listGVK = (if gvk_Version listGVK = '''' then listGVK\<lparr>gvk_Version := ''__internal''\<rparr> else listGVK)
      in case te_NewList env listGVK of
           Inl err \<Rightarrow> Inl (TkExt err)
         | Inr list \<Rightarrow>
             if \<not> te_IsListType env list then Inl (TkErrorf ''%q is not a list type'')
             else (case tk_objects t gvr of
                     None \<Rightarrow> Inr list
                   | Some objs \<Rightarrow>
                       (case filterByNamespace env order objs ns of
                          Inl err \<Rightarrow> Inl err
                        | Inr matching \<Rightarrow> (case te_SetList env list matching of Inl err \<Rightarrow> Inl (TkExt err) | Inr list \<Rightarrow> Inr list))))"

section \<open>Reactions\<close>

datatype patch_type = JSONPatchType | MergePatchType | StrategicMergePatchType | ApplyPatchType | OtherPatchType

datatype 'o action =
    ListAction GVR GVK string
  | GetAction GVR string string
  | CreateAction GVR string string 'o
  | UpdateAction GVR string string 'o
  | DeleteAction GVR string string
  | PatchAction GVR string string patch_type string
  | OtherAction string GVR string

text \<open>\<open>patch_obj\<close> marshals an object, applies a patch and unmarshals the result; \<open>same_type\<close> compares the types of two objects.\<close>

definition ObjectReaction ::
  "('o, 'l, 'e) tracker_env \<Rightarrow> (patch_type \<Rightarrow> string \<Rightarrow> 'o \<Rightarrow> 'e + 'o) \<Rightarrow> ('o \<Rightarrow> 'o \<Rightarrow> bool) \<Rightarrow> nsname list \<Rightarrow> 'o action \<Rightarrow> 'o tracker
     \<Rightarrow> 'o tracker \<times> bool \<times> ('l + 'o) option \<times> 'e tracker_err option"
where
  "ObjectReaction env patch_obj same_type order action t =
     (let fails = (\<lambda>t err. (t, True, None, Some err));
          returns = (\<lambda>t r. case r of Inl err \<Rightarrow> (t, True, None, Some err) | Inr obj \<Rightarrow> (t, True, Some (Inr obj), None))
      in case action of
           ListAction gvr gvk ns \<Rightarrow>
             (case tk_List env order gvr gvk ns t of Inl err \<Rightarrow> fails t err | Inr list \<Rightarrow> (t, True, Some (Inl list), None))
         | GetAction gvr ns name \<Rightarrow> returns t (tk_Get env gvr ns name t)
         | CreateAction gvr subresource ns obj \<Rightarrow>
             (case te_Accessor env obj of
                Inl err \<Rightarrow> fails t (TkExt err)
              | Inr (_, name) \<Rightarrow>
                  if subresource = ''''
                  then (case tk_Create env gvr obj ns t of (t, Some err) \<Rightarrow> fails t err | (t, None) \<Rightarrow> returns t (tk_Get env gvr ns name t))
                  else (case tk_Get env gvr ns name t of
                          Inl err \<Rightarrow> fails t err
                        | Inr oldObj \<Rightarrow>
                            if same_type oldObj obj
                            then (case tk_Update env gvr obj ns t of (t, Some err) \<Rightarrow> fails t err | (t, None) \<Rightarrow> returns t (tk_Get env gvr ns name t))
                            else (t, True, Some (Inr obj), None)))
         | UpdateAction gvr subresource ns obj \<Rightarrow>
             (case te_Accessor env obj of
                Inl err \<Rightarrow> fails t (TkExt err)
              | Inr (_, name) \<Rightarrow>
                  (case tk_Update env gvr obj ns t of (t, Some err) \<Rightarrow> fails t err | (t, None) \<Rightarrow> returns t (tk_Get env gvr ns name t)))
         | DeleteAction gvr ns name \<Rightarrow>
             (case tk_Delete gvr ns name t of (t, Some err) \<Rightarrow> fails t err | (t, None) \<Rightarrow> (t, True, None, None))
         | PatchAction gvr ns name pt patch \<Rightarrow>
             (case tk_Get env gvr ns name t of
                Inl err \<Rightarrow> fails t err
              | Inr obj \<Rightarrow>
                  if pt = OtherPatchType then fails t (TkErrorf ''PatchType is not supported'')
                  else (case patch_obj pt patch obj of
                          Inl err \<Rightarrow> fails t (TkExt err)
                        | Inr obj \<Rightarrow> (case tk_Update env gvr obj ns t of (t, Some err) \<Rightarrow> fails t err | (t, None) \<Rightarrow> (t, True, Some (Inr obj), None))))
         | OtherAction _ _ _ \<Rightarrow> (t, False, None, Some (TkErrorf ''no reaction implemented for %s'')))"

section \<open>Chains of reactors\<close>

record ('a, 's, 'r) SimpleReactor =
  rx_Verb :: string
  rx_Resource :: string
  rx_Reaction :: "'a \<Rightarrow> 's \<Rightarrow> 's \<times> bool \<times> 'r"

text \<open>What the reactors look at in an action: its verb, resource and subresource.\<close>

type_synonym action_target = "string \<times> string \<times> string"

text \<open>\<open>strings.Index\<close> of a slash and the two slices around it.\<close>

fun cut_slash :: "string \<Rightarrow> (string \<times> string) option" where
  "cut_slash [] = None"
| "cut_slash (c # cs) = (if c = slash then Some ([], cs) else map_option (\<lambda>(a, b). (c # a, b)) (cut_slash cs))"

definition resourceCovers :: "string \<Rightarrow> action_target \<Rightarrow> bool" where
  "resourceCovers resource a =
     (case a of (verb, actionResource, subresource) \<Rightarrow>
        if resource = ''*'' then True
        else if resource = actionResource then True
        else case cut_slash resource of None \<Rightarrow> False | Some (r, s) \<Rightarrow> r = actionResource \<and> s = subresource)"

definition rx_Handles :: "('a, 's, 'r) SimpleReactor \<Rightarrow> action_target \<Rightarrow> bool" where
  "rx_Handles r a \<longleftrightarrow> (rx_Verb r = ''*'' \<or> rx_Verb r = fst a) \<and> resourceCovers (rx_Resource r) a"

text \<open>\<open>Fake\<close> with its chain of reactors, the actions it was given, and the state that its reactions work on.\<close>

record ('a, 's, 'r) Fake =
  fk_actions :: "'a list"
  fk_ReactionChain :: "('a, 's, 'r) SimpleReactor list"
  fk_state :: 's

definition AddReactor :: "string \<Rightarrow> string \<Rightarrow> ('a \<Rightarrow> 's \<Rightarrow> 's \<times> bool \<times> 'r) \<Rightarrow> ('a, 's, 'r) Fake \<Rightarrow> ('a, 's, 'r) Fake" where
  "AddReactor verb resource reaction c =
     c\<lparr>fk_ReactionChain := fk_ReactionChain c @ [\<lparr>rx_Verb = verb, rx_Resource = resource, rx_Reaction = reaction\<rparr>]\<rparr>"

definition PrependReactor :: "string \<Rightarrow> string \<Rightarrow> ('a \<Rightarrow> 's \<Rightarrow> 's \<times> bool \<times> 'r) \<Rightarrow> ('a, 's, 'r) Fake \<Rightarrow> ('a, 's, 'r) Fake" where
  "PrependReactor verb resource reaction c =
     c\<lparr>fk_ReactionChain := \<lparr>rx_Verb = verb, rx_Resource = resource, rx_Reaction = reaction\<rparr> # fk_ReactionChain c\<rparr>"

fun run_chain :: "action_target \<Rightarrow> 'a \<Rightarrow> 'r \<Rightarrow> ('a, 's, 'r) SimpleReactor list \<Rightarrow> 's \<Rightarrow> 's \<times> 'r" where
  "run_chain target action def [] s = (s, def)"
| "run_chain target action def (r # rs) s =
     (if \<not> rx_Handles r target then run_chain target action def rs s
      else case rx_Reaction r action s of
             (s, False, _) \<Rightarrow> run_chain target action def rs s
           | (s, True, ret) \<Rightarrow> (s, ret))"

definition Invokes :: "action_target \<Rightarrow> 'a \<Rightarrow> 'r \<Rightarrow> ('a, 's, 'r) Fake \<Rightarrow> ('a, 's, 'r) Fake \<times> 'r" where
  "Invokes target action def c =
     (let (s, r) = run_chain target action def (fk_ReactionChain c) (fk_state c)
      in (c\<lparr>fk_actions := fk_actions c @ [action], fk_state := s\<rparr>, r))"

definition ClearActions :: "('a, 's, 'r) Fake \<Rightarrow> ('a, 's, 'r) Fake" where
  "ClearActions c = c\<lparr>fk_actions := []\<rparr>"

section \<open>Objects are stored under their names\<close>

definition env_ok :: "('o, 'l, 'e) tracker_env \<Rightarrow> bool" where
  "env_ok env \<longleftrightarrow> (\<forall>x n name ns. te_Accessor env x = Inr (n, name) \<longrightarrow> te_Accessor env (te_SetNamespace env ns x) = Inr (ns, name))"

definition tk_ok :: "('o, 'l, 'e) tracker_env \<Rightarrow> 'o tracker \<Rightarrow> bool" where
  "tk_ok env t \<longleftrightarrow> (\<forall>gvr objs k obj. tk_objects t gvr = Some objs \<and> objs k = Some obj \<longrightarrow> te_Accessor env obj = Inr k) \<and>
     (\<forall>gvr ns w. w \<in> set (tk_watchers t gvr ns) \<longrightarrow> w < tk_next t) \<and> (\<forall>w \<ge> tk_next t. tk_sent t w = [])"

text \<open>What is visible to a list or a watch of a namespace; the empty namespace stands for all.\<close>

definition tk_view :: "GVR \<Rightarrow> string \<Rightarrow> 'o tracker \<Rightarrow> nsname \<Rightarrow> 'o option" where
  "tk_view gvr ns t k = (if ns = '''' \<or> fst k = ns then case tk_objects t gvr of None \<Rightarrow> None | Some objs \<Rightarrow> objs k else None)"

lemma tk_send_fields [simp]:
  "tk_objects (tk_send ws e t) = tk_objects t" "tk_watchers (tk_send ws e t) = tk_watchers t" "tk_next (tk_send ws e t) = tk_next t"
  "tk_view gvr ns (tk_send ws e t) = tk_view gvr ns t"
proof -
  have "tk_objects (tk_send ws e t) = tk_objects t \<and> tk_watchers (tk_send ws e t) = tk_watchers t \<and> tk_next (tk_send ws e t) = tk_next t"
    unfolding tk_send_def by (induction ws arbitrary: t) auto
  then show "tk_objects (tk_send ws e t) = tk_objects t" "tk_watchers (tk_send ws e t) = tk_watchers t" "tk_next (tk_send ws e t) = tk_next t"
    "tk_view gvr ns (tk_send ws e t) = tk_view gvr ns t" by (auto simp: tk_view_def fun_eq_iff)
qed

lemma tk_send_sent: "tk_sent (tk_send ws e t) w = tk_sent t w @ replicate (count_list ws w) e"
  unfolding tk_send_def by (induction ws arbitrary: t) (auto simp: replicate_app_Cons_same)

text \<open>
  What \<open>add\<close> does: it fails and leaves what can be seen as it was, or it stores the object under the namespace of the request and its name and tells the watchers.
\<close>

lemma tk_add_cases:
  assumes env: "env_ok env" and run: "tk_add env gvr obj ns replaceExisting t = (t', err)"
  obtains (fails) "err \<noteq> None" "\<And>g n. tk_view g n t' = tk_view g n t" "tk_watchers t' = tk_watchers t" "tk_next t' = tk_next t" "tk_sent t' = tk_sent t"
      "tk_ok env t \<Longrightarrow> tk_ok env t'"
  | (stores) objs obj' name e where "err = None" "te_Accessor env obj' = Inr (ns, name)" "e = TkAdded obj' \<or> e = TkModified obj'"
      "objs = (case tk_objects t gvr of Some objs \<Rightarrow> objs | None \<Rightarrow> Map.empty)"
      "t' = tk_send (tk_getWatches gvr ns t) e (t\<lparr>tk_objects := (tk_objects t)(gvr \<mapsto> objs((ns, name) \<mapsto> obj'))\<rparr>)"
      "replaceExisting \<longleftrightarrow> objs (ns, name) \<noteq> None"
proof -
  define objs where "objs = (case tk_objects t gvr of Some objs \<Rightarrow> objs | None \<Rightarrow> Map.empty)"
  let ?t = "t\<lparr>tk_objects := (tk_objects t)(gvr \<mapsto> objs)\<rparr>"
  have same: "tk_view g n ?t = tk_view g n t" for g n by (auto simp: tk_view_def objs_def fun_eq_iff split: option.splits)
  have ok: "tk_ok env t \<Longrightarrow> tk_ok env ?t" by (auto simp: tk_ok_def objs_def split: option.splits)
  have watches: "tk_getWatches gvr ns ?t = tk_getWatches gvr ns t" by (simp add: tk_getWatches_def)
  show ?thesis
  proof (cases "te_Accessor env obj")
    case (Inl e)
    then show ?thesis using run fails by (auto simp: tk_add_def)
  next
    case (Inr k)
    obtain n name where k: "k = (n, name)" by force
    let ?obj = "if n = '''' then te_SetNamespace env ns obj else obj" and ?n = "if n = '''' then ns else n"
    have acc: "te_Accessor env ?obj = Inr (?n, name)" using env Inr k by (simp add: env_ok_def)
    show ?thesis
    proof (cases "ns = ?n")
      case False
      then show ?thesis using run fails Inr k by (auto simp: tk_add_def Let_def split: if_splits)
    next
      case ns: True
      then have acc': "te_Accessor env ?obj = Inr (ns, name)" using acc by simp
      have step: "(t', err) = (if objs (ns, name) \<noteq> None
          then if replaceExisting then (tk_send (tk_getWatches gvr ns t) (TkModified ?obj) (t\<lparr>tk_objects := (tk_objects t)(gvr \<mapsto> objs((ns, name) \<mapsto> ?obj))\<rparr>), None)
               else (?t, Some (AlreadyExists gvr name))
          else if replaceExisting then (?t, Some (NotFoundErr gvr name))
          else (tk_send (tk_getWatches gvr ns t) (TkAdded ?obj) (t\<lparr>tk_objects := (tk_objects t)(gvr \<mapsto> objs((ns, name) \<mapsto> ?obj))\<rparr>), None))"
        using run Inr k ns watches by (auto simp: tk_add_def Let_def objs_def [symmetric])
      show ?thesis
      proof (cases "replaceExisting = (objs (ns, name) \<noteq> None)")
        case True
        then have r: "err = None" "t' = tk_send (tk_getWatches gvr ns t) (if replaceExisting then TkModified ?obj else TkAdded ?obj)
            (t\<lparr>tk_objects := (tk_objects t)(gvr \<mapsto> objs((ns, name) \<mapsto> ?obj))\<rparr>)"
          using step by (auto split: if_splits)
        show ?thesis by (rule stores [OF r(1) acc' _ objs_def r(2) True]) simp
      next
        case False
        then have "t' = ?t" "err \<noteq> None" using step by (auto split: if_splits)
        then show ?thesis using fails same ok by simp
      qed
    qed
  qed
qed

section \<open>Watches\<close>

text \<open>The calls that change a tracker, and what a client makes of the events of a watch.\<close>

datatype 'o tk_op = OpAdd GVR 'o string bool | OpDelete GVR string string | OpWatch GVR string

fun tk_exec :: "('o, 'l, 'e) tracker_env \<Rightarrow> 'o tk_op \<Rightarrow> 'o tracker \<Rightarrow> 'o tracker" where
  "tk_exec env (OpAdd gvr obj ns replaceExisting) t = fst (tk_add env gvr obj ns replaceExisting t)"
| "tk_exec env (OpDelete gvr ns name) t = fst (tk_Delete gvr ns name t :: _ \<times> 'e tracker_err option)"
| "tk_exec env (OpWatch gvr ns) t = fst (tk_Watch gvr ns t)"

fun tk_replay :: "('o, 'l, 'e) tracker_env \<Rightarrow> 'o tk_event \<Rightarrow> (nsname \<Rightarrow> 'o option) \<Rightarrow> nsname \<Rightarrow> 'o option" where
  "tk_replay env (TkAdded obj) m = m(obj_key env obj \<mapsto> obj)"
| "tk_replay env (TkModified obj) m = m(obj_key env obj \<mapsto> obj)"
| "tk_replay env (TkDeleted obj) m = m(obj_key env obj := None)"

definition watching :: "GVR \<Rightarrow> string \<Rightarrow> nat \<Rightarrow> 'o tracker \<Rightarrow> bool" where
  "watching gvr ns w t \<longleftrightarrow> w < tk_next t \<and> (\<forall>g n. count_list (tk_watchers t g n) w = (if g = gvr \<and> n = ns then 1 else 0))"

lemma count_getWatches:
  "watching gvr ns w t \<Longrightarrow> count_list (tk_getWatches g n t) w = (if g = gvr \<and> (n = ns \<or> ns = '''') then 1 else 0)"
  by (auto simp: watching_def tk_getWatches_def)

text \<open>A change of one key of one resource, with an event for those who watch the key's namespace.\<close>

definition tk_put :: "GVR \<Rightarrow> nsname \<Rightarrow> 'o option \<Rightarrow> 'o tk_event \<Rightarrow> 'o tracker \<Rightarrow> 'o tracker" where
  "tk_put g k v e t = tk_send (tk_getWatches g (fst k) t) e
     (t\<lparr>tk_objects := (tk_objects t)(g \<mapsto> (case tk_objects t g of Some objs \<Rightarrow> objs | None \<Rightarrow> Map.empty)(k := v))\<rparr>)"

lemma tk_put_view: "tk_view gvr ns (tk_put g k v e t) = (if g = gvr \<and> (ns = '''' \<or> fst k = ns) then (tk_view gvr ns t)(k := v) else tk_view gvr ns t)"
  by (auto simp: tk_put_def tk_view_def fun_eq_iff split: option.splits)

lemma tk_put_ok:
  assumes "tk_ok env t" and "v = None \<or> (\<exists>obj. v = Some obj \<and> te_Accessor env obj = Inr k)"
  shows "tk_ok env (tk_put g k v e t)"
proof -
  have "w \<notin> set (tk_getWatches g (fst k) t)" if "tk_next t \<le> w" for w
    using assms(1) that unfolding tk_ok_def tk_getWatches_def by (auto dest: leD)
  then have "tk_sent (tk_put g k v e t) w = []" if "tk_next t \<le> w" for w
    using assms(1) that by (simp add: tk_put_def tk_send_sent tk_ok_def count_list_0_iff)
  then show ?thesis using assms unfolding tk_ok_def by (auto simp: tk_put_def split: option.splits if_splits)
qed

lemma tk_put_watch:
  assumes w: "watching gvr ns w t" and e: "\<And>m. tk_replay env e m = m(k := v)"
  shows "watching gvr ns w (tk_put g k v e t) \<and> (\<exists>es. tk_sent (tk_put g k v e t) w = tk_sent t w @ es \<and>
    fold (tk_replay env) es (tk_view gvr ns t) = tk_view gvr ns (tk_put g k v e t))"
proof -
  let ?es = "replicate (count_list (tk_getWatches g (fst k) t) w) e"
  have "tk_sent (tk_put g k v e t) w = tk_sent t w @ ?es" by (simp add: tk_put_def tk_send_sent)
  moreover have "fold (tk_replay env) ?es (tk_view gvr ns t) = tk_view gvr ns (tk_put g k v e t)"
    unfolding tk_put_view count_getWatches [OF w] by (auto simp: e)
  moreover have "watching gvr ns w (tk_put g k v e t)" using w by (simp add: watching_def tk_put_def)
  ultimately show ?thesis by blast
qed

lemma tk_exec_step:
  fixes env :: "('o, 'l, 'e) tracker_env"
  assumes env: "env_ok env" and ok: "tk_ok env t"
  shows "tk_ok env (tk_exec env op t)" and "watching gvr ns w t \<Longrightarrow> watching gvr ns w (tk_exec env op t) \<and>
    (\<exists>es. tk_sent (tk_exec env op t) w = tk_sent t w @ es \<and> fold (tk_replay env) es (tk_view gvr ns t) = tk_view gvr ns (tk_exec env op t))"
proof -
  have same: "tk_ok env t' \<and> (watching gvr ns w t \<longrightarrow> watching gvr ns w t' \<and>
      (\<exists>es. tk_sent t' w = tk_sent t w @ es \<and> fold (tk_replay env) es (tk_view gvr ns t) = tk_view gvr ns t'))"
    if "t' = tk_exec env op t" for t'
  proof (cases op)
    case (OpAdd g obj n replaceExisting)
    obtain t1 err where run: "tk_add env g obj n replaceExisting t = (t1, err)" by force
    then have t': "t' = t1" using that OpAdd by simp
    from env run show ?thesis
    proof (cases rule: tk_add_cases)
      case fails
      then show ?thesis using ok t' by (auto simp: watching_def)
    next
      case (stores objs obj' name e)
      have put: "t1 = tk_put g (n, name) (Some obj') e t" by (simp add: tk_put_def stores(4,5))
      have "\<And>m. tk_replay env e m = m((n, name) := Some obj')" using stores(2,3) by (auto simp: obj_key_def)
      from tk_put_watch [OF _ this] show ?thesis using tk_put_ok [OF ok, of "Some obj'" "(n, name)" g e] stores(2) unfolding t' put by blast
    qed
  next
    case (OpDelete g n name)
    show ?thesis
    proof (cases "\<exists>objs obj. tk_objects t g = Some objs \<and> objs (n, name) = Some obj")
      case False
      then have "t' = t" using that OpDelete by (auto simp: tk_Delete_def split: option.splits)
      then show ?thesis using ok by (auto intro: exI [of _ "[]"])
    next
      case True
      then obtain objs obj where obj: "tk_objects t g = Some objs" "objs (n, name) = Some obj" by blast
      have put: "t' = tk_put g (n, name) None (TkDeleted obj) t" using that OpDelete obj by (simp add: tk_Delete_def tk_put_def)
      have "te_Accessor env obj = Inr (n, name)" using ok obj unfolding tk_ok_def by blast
      then have "\<And>m. tk_replay env (TkDeleted obj) m = m((n, name) := None)" by (simp add: obj_key_def)
      from tk_put_watch [OF _ this] show ?thesis using tk_put_ok [OF ok] unfolding put by blast
    qed
  next
    case (OpWatch g n)
    then have "t' = fst (tk_Watch g n t)" using that by simp
    then show ?thesis using ok by (auto simp: tk_Watch_def tk_ok_def watching_def tk_view_def fun_eq_iff less_Suc_eq)
  qed
  show "tk_ok env (tk_exec env op t)" and "watching gvr ns w t \<Longrightarrow> watching gvr ns w (tk_exec env op t) \<and>
    (\<exists>es. tk_sent (tk_exec env op t) w = tk_sent t w @ es \<and> fold (tk_replay env) es (tk_view gvr ns t) = tk_view gvr ns (tk_exec env op t))"
    using same by blast+
qed

lemma tk_runs:
  fixes env :: "('o, 'l, 'e) tracker_env"
  assumes env: "env_ok env" and ok: "tk_ok env t"
  shows "tk_ok env (fold (tk_exec env) ops t)" and "watching gvr ns w t \<Longrightarrow>
    \<exists>es. tk_sent (fold (tk_exec env) ops t) w = tk_sent t w @ es \<and> fold (tk_replay env) es (tk_view gvr ns t) = tk_view gvr ns (fold (tk_exec env) ops t)"
proof -
  show "tk_ok env (fold (tk_exec env) ops t)" using ok tk_exec_step(1) [OF env] by (induction ops arbitrary: t) auto
  show "watching gvr ns w t \<Longrightarrow> \<exists>es. tk_sent (fold (tk_exec env) ops t) w = tk_sent t w @ es \<and>
      fold (tk_replay env) es (tk_view gvr ns t) = tk_view gvr ns (fold (tk_exec env) ops t)"
    using ok
  proof (induction ops arbitrary: t)
    case (Cons op ops)
    obtain es where es: "tk_sent (tk_exec env op t) w = tk_sent t w @ es" "fold (tk_replay env) es (tk_view gvr ns t) = tk_view gvr ns (tk_exec env op t)"
        and wt: "watching gvr ns w (tk_exec env op t)" using tk_exec_step(2) [OF env Cons.prems(2,1)] by blast
    obtain es' where "tk_sent (fold (tk_exec env) ops (tk_exec env op t)) w = tk_sent (tk_exec env op t) w @ es'"
      "fold (tk_replay env) es' (tk_view gvr ns (tk_exec env op t)) = tk_view gvr ns (fold (tk_exec env) ops (tk_exec env op t))"
      using Cons.IH [OF wt tk_exec_step(1) [OF env Cons.prems(2)]] by blast
    then show ?case using es by (intro exI [of _ "es @ es'"]) simp
  qed (auto intro: exI [of _ "[]"])
qed

lemma NewObjectTracker_ok: "tk_ok env NewObjectTracker"
  by (simp add: tk_ok_def NewObjectTracker_def)

lemma tk_Watch_watching:
  assumes "tk_ok env t" and "tk_Watch gvr ns t = (t', w)"
  shows "watching gvr ns w t' \<and> tk_ok env t' \<and> tk_sent t' w = [] \<and> tk_view gvr ns t' = tk_view gvr ns t"
proof -
  have "w \<notin> set (tk_watchers t g n)" for g n using assms unfolding tk_ok_def tk_Watch_def by (metis less_irrefl snd_conv)
  then show ?thesis using assms by (auto simp: tk_Watch_def watching_def tk_ok_def tk_view_def fun_eq_iff less_Suc_eq count_list_0_iff split: if_splits)
qed

text \<open>
  C20 A watch on the tracker is complete and exact: after any calls, whether they succeed or fail, start a watch on a resource in a namespace, or in all of
  them, and go on with any calls. The events that were sent to the watch, applied in order to what could be seen in the namespace when it began,
  give what can be seen now.
\<close>
theorem tracker_watch_replays:
  fixes env :: "('o, 'l, 'e) tracker_env"
  assumes "env_ok env" and "tk_Watch gvr ns (fold (tk_exec env) before NewObjectTracker) = (t, w)"
  shows "fold (tk_replay env) (tk_sent (fold (tk_exec env) after t) w) (tk_view gvr ns (fold (tk_exec env) before NewObjectTracker)) =
    tk_view gvr ns (fold (tk_exec env) after t)"
proof -
  have ok: "tk_ok env (fold (tk_exec env) before NewObjectTracker)" by (rule tk_runs(1) [OF assms(1) NewObjectTracker_ok])
  note w = tk_Watch_watching [OF ok assms(2)]
  obtain es where "tk_sent (fold (tk_exec env) after t) w = tk_sent t w @ es" "fold (tk_replay env) es (tk_view gvr ns t) = tk_view gvr ns (fold (tk_exec env) after t)"
    using tk_runs(2) [OF assms(1), of t gvr ns w after] w by blast
  then show ?thesis using w by simp
qed

section \<open>Lists\<close>

lemma filter_objs_ok:
  "\<forall>x \<in> set xs. \<exists>k. te_Accessor env x = Inr k \<Longrightarrow> filter_objs env ns xs = Inr (filter (\<lambda>x. ns = '''' \<or> fst (obj_key env x) = ns) xs)"
  by (induction xs) (auto simp: obj_key_def)

lemma key_le_total: "key_le a b \<or> key_le b a" and key_le_trans: "key_le a b \<Longrightarrow> key_le b c \<Longrightarrow> key_le a c"
  by (auto simp: key_le_def)

lemma insert_obj_set: "set (insert_obj env x ys) = insert x (set ys)"
  by (induction ys) auto

abbreviation obj_sorted :: "('o, 'l, 'e) tracker_env \<Rightarrow> 'o list \<Rightarrow> bool" where
  "obj_sorted env \<equiv> sorted_wrt (\<lambda>x y. key_le (obj_key env x) (obj_key env y))"

lemma insert_obj_sorted: "obj_sorted env ys \<Longrightarrow> obj_sorted env (insert_obj env x ys)"
proof (induction ys)
  case (Cons y ys)
  then show ?case using key_le_total [of "obj_key env x" "obj_key env y"] key_le_trans by (auto simp: insert_obj_set)
qed simp

lemma sort_objs: "set (foldr (insert_obj env) xs []) = set xs \<and> obj_sorted env (foldr (insert_obj env) xs [])"
  by (induction xs) (auto simp: insert_obj_set insert_obj_sorted)

lemma insert_obj_distinct: "distinct ys \<Longrightarrow> x \<notin> set ys \<Longrightarrow> distinct (insert_obj env x ys)"
  by (induction ys) (auto simp: insert_obj_set)

lemma sort_objs_distinct: "distinct xs \<Longrightarrow> distinct (foldr (insert_obj env) xs [])"
  using sort_objs [of env] by (induction xs) (auto intro: insert_obj_distinct)

text \<open>
  A list on the tracker returns exactly the objects of the namespace, or of all namespaces, that are stored, each once, sorted by namespace and name,
  whatever the order in which the map yields them.
\<close>
theorem tracker_list_exact:
  fixes env :: "('o, 'l, 'e) tracker_env"
  assumes "env_ok env" and "tk_objects (fold (tk_exec env) ops NewObjectTracker) gvr = Some objs" and "range_order order objs"
  shows "\<exists>res. filterByNamespace env order objs ns = Inr res \<and> distinct res \<and> set res = ran (tk_view gvr ns (fold (tk_exec env) ops NewObjectTracker)) \<and>
    sorted_wrt (\<lambda>x y. key_le (obj_key env x) (obj_key env y)) res"
proof -
  have ok: "tk_ok env (fold (tk_exec env) ops NewObjectTracker)" by (rule tk_runs(1) [OF assms(1) NewObjectTracker_ok])
  have acc: "te_Accessor env obj = Inr k" if "objs k = Some obj" for k obj using ok assms(2) that unfolding tk_ok_def by blast
  have key: "obj_key env obj = k" if "objs k = Some obj" for k obj using acc [OF that] by (simp add: obj_key_def)
  let ?xs = "List.map_filter objs order" and ?p = "\<lambda>x. ns = '''' \<or> fst (obj_key env x) = ns"
  have xs: "x \<in> set ?xs \<longleftrightarrow> (\<exists>k. objs k = Some x)" for x
  proof -
    have "set ?xs = {x. \<exists>k \<in> set order. objs k = Some x}" by (induction order) (auto simp: List.map_filter_def split: option.splits)
    then show ?thesis using assms(3) by (auto simp: range_order_def)
  qed
  have "distinct ?xs"
  proof -
    have "distinct (List.map_filter objs ks)" if "distinct ks" for ks
      using that key by (induction ks) (auto simp: List.map_filter_def, metis)
    then show ?thesis using assms(3) by (simp add: range_order_def)
  qed
  then have dist: "distinct (foldr (insert_obj env) (filter ?p ?xs) [])" by (intro sort_objs_distinct) simp
  have "filter_objs env ns ?xs = Inr (filter ?p ?xs)" by (rule filter_objs_ok) (use xs acc in blast)
  then have res: "filterByNamespace env order objs ns = Inr (foldr (insert_obj env) (filter ?p ?xs) [])" by (simp add: filterByNamespace_def)
  have "set (filter ?p ?xs) = ran (tk_view gvr ns (fold (tk_exec env) ops NewObjectTracker))"
    using xs key by (auto simp: tk_view_def ran_def assms(2) split: if_splits) (metis+)
  then show ?thesis using res dist sort_objs [of env "filter ?p ?xs"] by auto
qed

text \<open>
  Deleting an object that does not exist is an error, whatever is stored, and the empty namespace selects the objects of every namespace.
\<close>

lemma delete_absent_fails:
  "tk_view gvr '''' t (ns, name) = None \<Longrightarrow> tk_Delete gvr ns name t = (t, Some (NotFoundErr gvr name))"
  by (auto simp: tk_view_def tk_Delete_def split: option.splits)

text \<open>Objects that are a namespace, a name and a number.\<close>

definition demo_tracker_env :: "(nsname \<times> nat, nat, unit) tracker_env" where
  "demo_tracker_env = \<lparr>te_Accessor = (\<lambda>x. Inr (fst x)), te_SetNamespace = (\<lambda>ns x. ((ns, snd (fst x)), snd x)), te_Status = (\<lambda>_. None),
     te_ObjectKinds = (\<lambda>_. Inr []), te_PartialKind = (\<lambda>_. None), te_GuessResource = (\<lambda>k. \<lparr>gvr_Group = '''', gvr_Version = '''', gvr_Resource = gvk_Kind k\<rparr>),
     te_Extract = (\<lambda>_. None), te_NewList = (\<lambda>_. Inr 0), te_IsListType = (\<lambda>_. True), te_SetList = (\<lambda>_ xs. Inr (length xs))\<rparr>"

lemma demo_tracker_env_ok: "env_ok demo_tracker_env"
  by (auto simp: env_ok_def demo_tracker_env_def)

definition pods :: GVR where
  "pods = \<lparr>gvr_Group = '''', gvr_Version = ''v1'', gvr_Resource = ''pods''\<rparr>"

theorem tracker_watch_replays_witness:
  "\<exists>t w. tk_Watch pods ''n'' (fold (tk_exec demo_tracker_env) [OpAdd pods (('''', ''a''), 1) ''n'' False] NewObjectTracker) = (t, w) \<and>
     fold (tk_replay demo_tracker_env) (tk_sent (fold (tk_exec demo_tracker_env) [OpDelete pods ''n'' ''a''] t) w)
       (tk_view pods ''n'' (fold (tk_exec demo_tracker_env) [OpAdd pods (('''', ''a''), 1) ''n'' False] NewObjectTracker)) =
     tk_view pods ''n'' (fold (tk_exec demo_tracker_env) [OpDelete pods ''n'' ''a''] t)"
proof -
  obtain t w where w: "tk_Watch pods ''n'' (fold (tk_exec demo_tracker_env) [OpAdd pods (('''', ''a''), 1) ''n'' False] NewObjectTracker) = (t, w)" by force
  show ?thesis by (intro exI conjI, rule w, rule tracker_watch_replays [OF demo_tracker_env_ok w])
qed

theorem tracker_list_exact_witness:
  "\<exists>res. filterByNamespace demo_tracker_env [(''n'', ''a'')] [(''n'', ''a'') \<mapsto> ((''n'', ''a''), 1)] '''' = Inr res \<and> distinct res \<and>
     set res = {((''n'', ''a''), 1)}"
proof -
  let ?t = "fold (tk_exec demo_tracker_env) [OpAdd pods (('''', ''a''), 1) ''n'' False] NewObjectTracker"
  have objs: "tk_objects ?t pods = Some [(''n'', ''a'') \<mapsto> ((''n'', ''a''), 1)]"
    by (simp add: tk_add_def demo_tracker_env_def NewObjectTracker_def Let_def)
  have order: "range_order [(''n'', ''a'')] [(''n'', ''a'') \<mapsto> ((''n'', ''a''), 1 :: nat)]" by (simp add: range_order_def)
  have "ran (tk_view pods '''' ?t) = {((''n'', ''a''), 1)}"
    unfolding ran_def tk_view_def objs by (auto split: if_splits)
  then show ?thesis using tracker_list_exact [OF demo_tracker_env_ok objs order, of "''''"] by blast
qed

end
