(* ===== verification/Discovery.thy ===== *)
theory Discovery
  imports ObjectTracker "HOL-Library.AList"
begin

text \<open>
  \<open>discovery/discovery_client.go\<close>, \<open>discovery/aggregated_discovery.go\<close> and \<open>discovery/helper.go\<close>: which groups, versions and resources a server has.

  The calls to the server are state-passing functions on a world \<open>'w\<close>, so that every answer may depend on what was asked before; decoding of bodies, media types and
  the classification of API errors belong to \<open>discovery_rest\<close>. A client is the record \<open>discovery\<close> of its methods on a state, so that the package functions
  apply to the plain client and to the caches of \<open>CachedDiscovery\<close> alike. A Go map is an association list with distinct keys, because the code takes its length;
  where the code ranges over one, or starts goroutines that take a lock each, the order is an argument.

  The lemmas: aggregated discovery is split without loss, each resource is preferred in exactly one version, and retries stop at the documented errors.
\<close>

section \<open>Data\<close>

record GroupVersion =
  gv_Group :: string
  gv_Version :: string

record GroupVersionForDiscovery =
  gd_GroupVersion :: string
  gd_Version :: string

record APIGroup =
  ag_Name :: string
  ag_Versions :: "GroupVersionForDiscovery list"
  ag_PreferredVersion :: GroupVersionForDiscovery

record APIResource =
  ar_Name :: string
  ar_SingularName :: string
  ar_Namespaced :: bool
  ar_Group :: string
  ar_Version :: string
  ar_Kind :: string
  ar_Verbs :: "string list"
  ar_ShortNames :: "string list"
  ar_Categories :: "string list"

record APIResourceList =
  rl_GroupVersion :: string
  rl_APIResources :: "APIResource list"

text \<open>The aggregated format of \<open>apidiscovery/v2beta1\<close>.\<close>

record APISubresourceDiscovery =
  as_Subresource :: string
  as_ResponseKind :: "GVK option"
  as_Verbs :: "string list"

record APIResourceDiscovery =
  rd_Resource :: string
  rd_ResponseKind :: "GVK option"
  rd_Namespaced :: bool
  rd_SingularResource :: string
  rd_Verbs :: "string list"
  rd_ShortNames :: "string list"
  rd_Categories :: "string list"
  rd_Subresources :: "APISubresourceDiscovery list"

record APIVersionDiscovery =
  av_Version :: string
  av_Resources :: "APIResourceDiscovery list"
  av_Stale :: bool

record APIGroupDiscovery =
  gn_Name :: string
  gn_Versions :: "APIVersionDiscovery list"

text \<open>
  \<open>DErr\<close> is an error of the REST client or of a decoder. \<open>Failed\<close> is an error that may come with a list all the same.
\<close>

datatype 'e disc_err =
    DErr 'e
  | StaleGroupVersion GroupVersion
  | MissingGVK string
  | GroupDiscoveryFailed "(GroupVersion \<times> 'e disc_err) list"
  | EmptyResponse string
  | CacheNotFound
  | EmptyGroupVersion
  | BadGroupVersion string
  | ServerVersionUnread "'e disc_err"
  | ServerVersionDiffers
  | VersionNotSupported GroupVersion

datatype 'e resources_out = Got APIResourceList | Failed "APIResourceList option" "'e disc_err"

type_synonym resources_map = "(GroupVersion \<times> APIResourceList) list"

type_synonym 'e failures = "(GroupVersion \<times> 'e disc_err) list"

text \<open>What \<open>GroupsAndMaybeResources\<close> returns: groups, resources, failed group versions and an error, each of which may be nil.\<close>

type_synonym 'e groups_out = "APIGroup list option \<times> resources_map option \<times> 'e failures option \<times> 'e disc_err option"

section \<open>Aggregated discovery\<close>

definition emptyKind :: GVK where
  "emptyKind = \<lparr>gvk_Group = [], gvk_Version = [], gvk_Kind = []\<rparr>"

definition no_version :: GroupVersionForDiscovery where
  "no_version = \<lparr>gd_GroupVersion = [], gd_Version = []\<rparr>"

definition no_resource :: APIResource where
  "no_resource = \<lparr>ar_Name = [], ar_SingularName = [], ar_Namespaced = False, ar_Group = [], ar_Version = [], ar_Kind = [], ar_Verbs = [], ar_ShortNames = [],
     ar_Categories = []\<rparr>"

definition with_kind :: "GVK \<Rightarrow> APIResource \<Rightarrow> APIResource" where
  "with_kind k r = r\<lparr>ar_Group := gvk_Group k, ar_Version := gvk_Version k, ar_Kind := gvk_Kind k\<rparr>"

definition convertAPIResource :: "APIResourceDiscovery \<Rightarrow> APIResource \<times> 'e disc_err option" where
  "convertAPIResource r =
     (let result = no_resource\<lparr>ar_Name := rd_Resource r, ar_SingularName := rd_SingularResource r, ar_Namespaced := rd_Namespaced r, ar_Verbs := rd_Verbs r,
            ar_ShortNames := rd_ShortNames r, ar_Categories := rd_Categories r\<rparr>
      in case rd_ResponseKind r of
           Some k \<Rightarrow> if k \<noteq> emptyKind then (with_kind k result, None) else (result, Some (MissingGVK (rd_Resource r)))
         | None \<Rightarrow> (result, Some (MissingGVK (rd_Resource r))))"

definition convertAPISubresource :: "APIResource \<Rightarrow> APISubresourceDiscovery \<Rightarrow> APIResource \<times> 'e disc_err option" where
  "convertAPISubresource parent s =
     (let name = ar_Name parent @ ''/'' @ as_Subresource s
      in case as_ResponseKind s of
           Some k \<Rightarrow>
             if k = emptyKind then (no_resource, Some (MissingGVK name))
             else (with_kind k (no_resource\<lparr>ar_Name := name, ar_SingularName := ar_SingularName parent, ar_Namespaced := ar_Namespaced parent,
                     ar_Verbs := as_Verbs s\<rparr>), None)
         | None \<Rightarrow> (no_resource, Some (MissingGVK name)))"

definition keep_ok :: "'a \<times> 'b option \<Rightarrow> 'a list" where
  "keep_ok p = (case snd p of None \<Rightarrow> [fst p] | Some e \<Rightarrow> [])"

definition convert_resource :: "APIResourceDiscovery \<Rightarrow> APIResource list" where
  "convert_resource r =
     (let c = convertAPIResource r :: APIResource \<times> unit disc_err option
      in keep_ok c @ concat (map (\<lambda>s. keep_ok (convertAPISubresource (fst c) s :: APIResource \<times> unit disc_err option)) (rd_Subresources r)))"

text \<open>One round of the loop over the versions of a group; \<open>str\<close> is \<open>GroupVersion.String\<close>.\<close>

definition convert_version ::
  "(GroupVersion \<Rightarrow> string) \<Rightarrow> string \<Rightarrow> APIVersionDiscovery \<Rightarrow> APIGroup \<times> resources_map \<times> 'e failures \<Rightarrow> APIGroup \<times> resources_map \<times> 'e failures" where
  "convert_version str name v = (\<lambda>(grp, rs, fs).
     (let gv = \<lparr>gv_Group = name, gv_Version = av_Version v\<rparr>
      in if av_Stale v then (grp, rs, AList.update gv (StaleGroupVersion gv) fs)
         else let version = \<lparr>gd_GroupVersion = str gv, gd_Version = av_Version v\<rparr>;
                  grp1 = grp\<lparr>ag_Versions := ag_Versions grp @ [version]\<rparr>;
                  grp2 = (if ag_PreferredVersion grp1 = no_version then grp1\<lparr>ag_PreferredVersion := version\<rparr> else grp1)
              in (grp2, AList.update gv \<lparr>rl_GroupVersion = str gv, rl_APIResources = concat (map convert_resource (av_Resources v))\<rparr> rs, fs)))"

definition convertAPIGroup :: "(GroupVersion \<Rightarrow> string) \<Rightarrow> APIGroupDiscovery \<Rightarrow> APIGroup \<times> resources_map \<times> 'e failures" where
  "convertAPIGroup str g =
     fold (convert_version str (gn_Name g)) (gn_Versions g)
       (\<lparr>ag_Name = gn_Name g, ag_Versions = [], ag_PreferredVersion = no_version\<rparr>, [], [])"

text \<open>Storing all entries of a map in another one; the keys are distinct, so that their order makes no difference.\<close>

definition put_all :: "('k \<times> 'v) list \<Rightarrow> ('k \<times> 'v) list \<Rightarrow> ('k \<times> 'v) list" where
  "put_all new m = fold (\<lambda>(k, v). AList.update k v) new m"

definition SplitGroupsAndResources :: "(GroupVersion \<Rightarrow> string) \<Rightarrow> APIGroupDiscovery list \<Rightarrow> APIGroup list \<times> resources_map \<times> 'e failures" where
  "SplitGroupsAndResources str items =
     fold (\<lambda>g (groups, rs, fs). case convertAPIGroup str g of (grp, grs, gfs) \<Rightarrow> (groups @ [grp], put_all grs rs, put_all gfs fs)) items ([], [], [])"

section \<open>The client\<close>

text \<open>
  \<open>dr_Get\<close> takes a path and the accepted formats and returns the content type with the body; \<open>dr_Into\<close> decodes the answer into a list that it is given, which it may
  have changed when it fails. \<open>dr_URL\<close> is the string of a URL with the path only.
\<close>

record ('w, 'b, 'e) discovery_rest =
  dr_Get :: "string \<Rightarrow> string \<Rightarrow> 'w \<Rightarrow> 'w \<times> ('e + string \<times> 'b)"
  dr_Into :: "string \<Rightarrow> APIResourceList \<Rightarrow> 'w \<Rightarrow> 'w \<times> APIResourceList \<times> 'e option"
  dr_URL :: "string \<Rightarrow> string"
  dr_ParseMediaType :: "string \<Rightarrow> (string \<times> (string \<Rightarrow> string)) option"
  dr_Aggregated :: "'b \<Rightarrow> 'e + APIGroupDiscovery list"
  dr_APIVersions :: "'b \<Rightarrow> 'e + string list"
  dr_APIGroups :: "'b \<Rightarrow> 'e + APIGroup list"
  dr_IsNotFound :: "'e \<Rightarrow> bool"
  dr_String :: "GroupVersion \<Rightarrow> string"

record DiscoveryClient =
  dc_LegacyPrefix :: string
  dc_UseLegacyDiscovery :: bool

definition NewDiscoveryClient :: DiscoveryClient where
  "NewDiscoveryClient = \<lparr>dc_LegacyPrefix = ''/api'', dc_UseLegacyDiscovery = False\<rparr>"

definition WithLegacy :: "DiscoveryClient \<Rightarrow> DiscoveryClient" where
  "WithLegacy c = c\<lparr>dc_UseLegacyDiscovery := True\<rparr>"

definition AcceptV1 :: string where
  "AcceptV1 = ''application/json''"

definition AcceptV2Beta1 :: string where
  "AcceptV2Beta1 = ''application/json'' @ '';'' @ ''g=apidiscovery.k8s.io;v=v2beta1;as=APIGroupDiscoveryList''"

definition acceptDiscoveryFormats :: string where
  "acceptDiscoveryFormats = AcceptV2Beta1 @ '','' @ AcceptV1"

definition accepted :: "DiscoveryClient \<Rightarrow> string" where
  "accepted c = (if dc_UseLegacyDiscovery c then AcceptV1 else acceptDiscoveryFormats)"

definition isV2Beta1ContentType :: "('w, 'b, 'e) discovery_rest \<Rightarrow> string \<Rightarrow> bool" where
  "isV2Beta1ContentType r contentType =
     (case dr_ParseMediaType r contentType of
        None \<Rightarrow> False
      | Some (base, params) \<Rightarrow>
          base = ''application/json'' \<and> params ''g'' = ''apidiscovery.k8s.io'' \<and> params ''v'' = ''v2beta1'' \<and> params ''as'' = ''APIGroupDiscoveryList'')"

text \<open>\<open>apiVersionsToAPIGroup\<close> is called for a list that is not empty.\<close>

definition apiVersionsToAPIGroup :: "string list \<Rightarrow> APIGroup" where
  "apiVersionsToAPIGroup versions =
     (let gvs = map (\<lambda>v. \<lparr>gd_GroupVersion = v, gd_Version = v\<rparr>) versions
      in \<lparr>ag_Name = [], ag_Versions = gvs, ag_PreferredVersion = hd gvs\<rparr>)"

definition no_group :: APIGroup where
  "no_group = \<lparr>ag_Name = [], ag_Versions = [], ag_PreferredVersion = no_version\<rparr>"

definition failed_groups :: "'e \<Rightarrow> 'e groups_out" where
  "failed_groups e = (None, None, None, Some (DErr e))"

definition aggregated_groups :: "('w, 'b, 'e) discovery_rest \<Rightarrow> 'b \<Rightarrow> 'e groups_out" where
  "aggregated_groups r body =
     (case dr_Aggregated r body of
        Inl e \<Rightarrow> failed_groups e
      | Inr items \<Rightarrow> (case SplitGroupsAndResources (dr_String r) items of (groups, rs, fs) \<Rightarrow> (Some groups, Some rs, Some fs, None)))"

definition downloadLegacy :: "('w, 'b, 'e) discovery_rest \<Rightarrow> DiscoveryClient \<Rightarrow> 'w \<Rightarrow> 'w \<times> 'e groups_out" where
  "downloadLegacy r c w =
     (case dr_Get r ''/api'' (accepted c) w of
        (w1, Inl e) \<Rightarrow> (w1, if dr_IsNotFound r e then (Some [], Some [], Some [], None) else failed_groups e)
      | (w1, Inr (contentType, body)) \<Rightarrow>
          (w1, if isV2Beta1ContentType r contentType then aggregated_groups r body
               else case dr_APIVersions r body of
                      Inl e \<Rightarrow> failed_groups e
                    | Inr vs \<Rightarrow> (Some [if vs \<noteq> [] then apiVersionsToAPIGroup vs else no_group], None, Some [], None)))"

definition downloadAPIs :: "('w, 'b, 'e) discovery_rest \<Rightarrow> DiscoveryClient \<Rightarrow> 'w \<Rightarrow> 'w \<times> 'e groups_out" where
  "downloadAPIs r c w =
     (case dr_Get r ''/apis'' (accepted c) w of
        (w1, Inl e) \<Rightarrow> (w1, failed_groups e)
      | (w1, Inr (contentType, body)) \<Rightarrow>
          (w1, if isV2Beta1ContentType r contentType then aggregated_groups r body
               else case dr_APIGroups r body of
                      Inl e \<Rightarrow> failed_groups e
                    | Inr groups \<Rightarrow> (Some groups, None, Some [], None)))"

definition some_list :: "'a list option \<Rightarrow> 'a list" where
  "some_list m = (case m of None \<Rightarrow> [] | Some xs \<Rightarrow> xs)"

definition GroupsAndMaybeResources :: "('w, 'b, 'e) discovery_rest \<Rightarrow> DiscoveryClient \<Rightarrow> 'w \<Rightarrow> 'w \<times> 'e groups_out" where
  "GroupsAndMaybeResources r c w =
     (case downloadLegacy r c w of
        (w1, _, _, _, Some e) \<Rightarrow> (w1, None, None, None, Some e)
      | (w1, groups, resources, failed, None) \<Rightarrow>
          (case downloadAPIs r c w1 of
             (w2, _, _, _, Some e) \<Rightarrow> (w2, None, None, None, Some e)
           | (w2, apiGroups, apiResources, failedApis, None) \<Rightarrow>
               (w2, Some (some_list groups @ some_list apiGroups),
                (case (resources, apiResources) of (Some rs, Some ars) \<Rightarrow> Some (put_all ars rs) | _ \<Rightarrow> None),
                Some (put_all (some_list failedApis) (some_list failed)), None)))"

definition client_ServerGroups :: "('w, 'b, 'e) discovery_rest \<Rightarrow> DiscoveryClient \<Rightarrow> 'w \<Rightarrow> 'w \<times> APIGroup list option \<times> 'e disc_err option" where
  "client_ServerGroups r c w =
     (case GroupsAndMaybeResources r c w of (w1, groups, _, _, err) \<Rightarrow> (case err of Some e \<Rightarrow> (w1, None, Some e) | None \<Rightarrow> (w1, groups, None)))"

definition client_ServerResourcesForGroupVersion ::
  "('w, 'b, 'e) discovery_rest \<Rightarrow> DiscoveryClient \<Rightarrow> string \<Rightarrow> 'w \<Rightarrow> 'w \<times> 'e resources_out" where
  "client_ServerResourcesForGroupVersion r c gv w =
     (if gv = [] then (w, Failed None EmptyGroupVersion)
      else let path = (if dc_LegacyPrefix c \<noteq> [] \<and> gv = ''v1'' then dc_LegacyPrefix c @ ''/'' @ gv else ''/apis/'' @ gv)
           in case dr_Into r (dr_URL r path) \<lparr>rl_GroupVersion = gv, rl_APIResources = []\<rparr> w of
                (w1, resources, None) \<Rightarrow> (w1, Got resources)
              | (w1, resources, Some e) \<Rightarrow> (w1, if gv = ''v1'' \<and> dr_IsNotFound r e then Got resources else Failed None (DErr e)))"

section \<open>The package functions\<close>

text \<open>
  The methods that the package functions and the caches call. \<open>di_Maybe\<close> is \<open>GroupsAndMaybeResources\<close> of clients that implement \<open>AggregatedDiscoveryInterface\<close>;
  \<open>di_Cached\<close> has \<open>Fresh\<close> and \<open>Invalidate\<close> of those that implement \<open>CachedDiscoveryInterface\<close>.
\<close>

record ('s, 'e) discovery =
  di_Maybe :: "('s \<Rightarrow> 's \<times> 'e groups_out) option"
  di_ServerGroups :: "'s \<Rightarrow> 's \<times> APIGroup list option \<times> 'e disc_err option"
  di_Resources :: "string \<Rightarrow> 's \<Rightarrow> 's \<times> 'e resources_out"
  di_Cached :: "(('s \<Rightarrow> bool) \<times> ('s \<Rightarrow> 's)) option"

definition client_discovery :: "('w, 'b, 'e) discovery_rest \<Rightarrow> DiscoveryClient \<Rightarrow> ('w, 'e) discovery" where
  "client_discovery r c =
     \<lparr>di_Maybe = Some (GroupsAndMaybeResources r c), di_ServerGroups = client_ServerGroups r c,
      di_Resources = client_ServerResourcesForGroupVersion r c, di_Cached = None\<rparr>"

text \<open>The groups, with the resources when the client can give them at once.\<close>

definition groups_of :: "('s, 'e) discovery \<Rightarrow> 's \<Rightarrow> 's \<times> 'e groups_out" where
  "groups_of d s =
     (case di_Maybe d of Some f \<Rightarrow> f s | None \<Rightarrow> (case di_ServerGroups d s of (s1, groups, err) \<Rightarrow> (s1, groups, None, None, err)))"

definition group_versions :: "APIGroup list \<Rightarrow> (APIGroup \<times> GroupVersionForDiscovery) list" where
  "group_versions groups = concat (map (\<lambda>g. map (\<lambda>v. (g, v)) (ag_Versions g)) groups)"

definition gv_of :: "APIGroup \<times> GroupVersionForDiscovery \<Rightarrow> GroupVersion" where
  "gv_of p = \<lparr>gv_Group = ag_Name (fst p), gv_Version = gd_Version (snd p)\<rparr>"

definition fetch_one :: "(GroupVersion \<Rightarrow> string) \<Rightarrow> ('s, 'e) discovery \<Rightarrow> GroupVersion \<Rightarrow> 's \<times> resources_map \<times> 'e failures \<Rightarrow> 's \<times> resources_map \<times> 'e failures" where
  "fetch_one str d gv = (\<lambda>(s, rs, fs).
     (case di_Resources d (str gv) s of
        (s1, Got l) \<Rightarrow> (s1, AList.update gv l rs, fs)
      | (s1, Failed l e) \<Rightarrow> (s1, (case l of None \<Rightarrow> rs | Some l \<Rightarrow> AList.update gv l rs), AList.update gv e fs)))"

text \<open>One goroutine per group version; \<open>order\<close> is the order in which their calls and results take effect.\<close>

definition fetchGroupVersionResources ::
  "(GroupVersion \<Rightarrow> string) \<Rightarrow> (GroupVersion list \<Rightarrow> GroupVersion list) \<Rightarrow> ('s, 'e) discovery \<Rightarrow> APIGroup list \<Rightarrow> 's \<Rightarrow> 's \<times> resources_map \<times> 'e failures" where
  "fetchGroupVersionResources str order d groups s = fold (fetch_one str d) (order (map gv_of (group_versions groups))) (s, [], [])"

definition failed_error :: "'e failures \<Rightarrow> 'e disc_err option" where
  "failed_error fs = (if fs = [] then None else Some (GroupDiscoveryFailed fs))"

type_synonym 'e all_out = "APIGroup list option \<times> APIResourceList list option \<times> 'e disc_err option"

definition pick_resources :: "APIGroup list \<Rightarrow> resources_map \<Rightarrow> APIResourceList list" where
  "pick_resources groups rs = concat (map (\<lambda>p. case map_of rs (gv_of p) of Some l \<Rightarrow> [l] | None \<Rightarrow> []) (group_versions groups))"

definition ServerGroupsAndResources ::
  "(GroupVersion \<Rightarrow> string) \<Rightarrow> (GroupVersion list \<Rightarrow> GroupVersion list) \<Rightarrow> (resources_map \<Rightarrow> resources_map) \<Rightarrow> ('s, 'e) discovery \<Rightarrow> 's \<Rightarrow> 's \<times> 'e all_out" where
  "ServerGroupsAndResources str order rorder d s =
     (case groups_of d s of
        (s1, None, _, _, err) \<Rightarrow> (s1, None, None, err)
      | (s1, Some groups, rs, failed, err) \<Rightarrow>
          (let resources = map snd (rorder (some_list rs))
           in if resources \<noteq> [] then (s1, Some groups, Some resources, failed_error (some_list failed))
              else case fetchGroupVersionResources str order d groups s1 of
                     (s2, gvr, fs) \<Rightarrow> (s2, Some groups, Some (pick_resources groups gvr), failed_error fs)))"

definition IsGroupDiscoveryFailedError :: "'e disc_err option \<Rightarrow> bool" where
  "IsGroupDiscoveryFailedError err = (case err of Some (GroupDiscoveryFailed fs) \<Rightarrow> True | _ \<Rightarrow> False)"

definition GroupDiscoveryFailedErrorGroups :: "'e disc_err option \<Rightarrow> 'e failures option" where
  "GroupDiscoveryFailedErrorGroups err = (case err of Some (GroupDiscoveryFailed fs) \<Rightarrow> Some fs | _ \<Rightarrow> None)"

text \<open>The function that is tried again is \<open>None\<close> when it panics.\<close>

fun withRetries_loop :: "nat \<Rightarrow> ('s \<Rightarrow> ('s \<times> 'e all_out) option) \<Rightarrow> 's \<Rightarrow> 'e all_out \<Rightarrow> ('s \<times> 'e all_out) option" where
  "withRetries_loop 0 f s out = Some (s, out)"
| "withRetries_loop (Suc n) f s out =
     (case f s of
        None \<Rightarrow> None
      | Some (s1, groups, result, err) \<Rightarrow>
          (if err = None then Some (s1, groups, result, None)
           else if IsGroupDiscoveryFailedError err then withRetries_loop n f s1 (groups, result, err)
           else Some (s1, None, None, err)))"

definition withRetries :: "nat \<Rightarrow> ('s \<Rightarrow> ('s \<times> 'e all_out) option) \<Rightarrow> 's \<Rightarrow> ('s \<times> 'e all_out) option" where
  "withRetries maxRetries f s = withRetries_loop maxRetries f s (None, None, None)"

definition defaultRetries :: nat where
  "defaultRetries = 2"

definition client_ServerGroupsAndResources ::
  "(GroupVersion list \<Rightarrow> GroupVersion list) \<Rightarrow> (resources_map \<Rightarrow> resources_map) \<Rightarrow> ('w, 'b, 'e) discovery_rest \<Rightarrow> DiscoveryClient \<Rightarrow> 'w \<Rightarrow> ('w \<times> 'e all_out) option" where
  "client_ServerGroupsAndResources order rorder r c w =
     withRetries defaultRetries (\<lambda>w. Some (ServerGroupsAndResources (dr_String r) order rorder (client_discovery r c) w)) w"

subsection \<open>Preferred versions\<close>

text \<open>
  The state of the loop over groups and versions: the lists of the result, the position in it of a group version's list, and the version and the resource that are selected
  for a group and a resource name.
\<close>

type_synonym selection = "((string \<times> string) \<times> string \<times> APIResource) list"

definition select_resource :: "APIGroup \<Rightarrow> string \<Rightarrow> APIResource \<Rightarrow> selection \<Rightarrow> selection" where
  "select_resource g version r sel =
     (if contains (ar_Name r) ''/'' then sel
      else let gr = (ag_Name g, ar_Name r)
           in if map_of sel gr \<noteq> None \<and> version \<noteq> gd_Version (ag_PreferredVersion g) then sel
              else AList.update gr (version, r) sel)"

definition select_version ::
  "resources_map \<Rightarrow> APIGroup \<times> GroupVersionForDiscovery \<Rightarrow> APIResourceList list \<times> (GroupVersion \<times> nat) list \<times> selection \<Rightarrow>
     APIResourceList list \<times> (GroupVersion \<times> nat) list \<times> selection" where
  "select_version gvr p = (\<lambda>(result, at, sel).
     (case map_of gvr (gv_of p) of
        None \<Rightarrow> (result, at, sel)
      | Some l \<Rightarrow>
          (result @ [\<lparr>rl_GroupVersion = gd_GroupVersion (snd p), rl_APIResources = []\<rparr>], AList.update (gv_of p) (length result) at,
           fold (select_resource (fst p) (gd_Version (snd p))) (rl_APIResources l) sel)))"

text \<open>Appending a selected resource to the list of its group version; without such a list the code would follow a nil pointer.\<close>

definition place_resource :: "(GroupVersion \<times> nat) list \<Rightarrow> (string \<times> string) \<times> string \<times> APIResource \<Rightarrow> APIResourceList list option \<Rightarrow> APIResourceList list option" where
  "place_resource at = (\<lambda>((g, name), version, r) result.
     (case (result, map_of at \<lparr>gv_Group = g, gv_Version = version\<rparr>) of
        (Some res, Some i) \<Rightarrow> Some (res[i := (res ! i)\<lparr>rl_APIResources := rl_APIResources (res ! i) @ [r]\<rparr>])
      | _ \<Rightarrow> None))"

datatype 'e preferred_out = PreferredPanics | Preferred "APIResourceList list option" "'e disc_err option"

definition preferred_of ::
  "(selection \<Rightarrow> selection) \<Rightarrow> APIGroup list \<Rightarrow> resources_map \<Rightarrow> 'e failures \<Rightarrow> 'e preferred_out" where
  "preferred_of sorder groups gvr fs =
     (case fold (select_version gvr) (group_versions groups) ([], [], []) of
        (result, at, sel) \<Rightarrow>
          (case fold (place_resource at) (sorder sel) (Some result) of
             None \<Rightarrow> PreferredPanics
           | Some res \<Rightarrow> Preferred (Some res) (failed_error fs)))"

definition with_resources ::
  "(GroupVersion \<Rightarrow> string) \<Rightarrow> (GroupVersion list \<Rightarrow> GroupVersion list) \<Rightarrow> ('s, 'e) discovery \<Rightarrow> APIGroup list \<Rightarrow> resources_map option \<Rightarrow> 'e failures option \<Rightarrow>
     's \<Rightarrow> 's \<times> resources_map \<times> 'e failures" where
  "with_resources str order d groups rs failed s =
     (case rs of Some gvr \<Rightarrow> (s, gvr, some_list failed) | None \<Rightarrow> fetchGroupVersionResources str order d groups s)"

definition ServerPreferredResources ::
  "(GroupVersion \<Rightarrow> string) \<Rightarrow> (GroupVersion list \<Rightarrow> GroupVersion list) \<Rightarrow> (selection \<Rightarrow> selection) \<Rightarrow> ('s, 'e) discovery \<Rightarrow> 's \<Rightarrow> 's \<times> 'e preferred_out" where
  "ServerPreferredResources str order sorder d s =
     (case groups_of d s of
        (s1, _, _, _, Some e) \<Rightarrow> (s1, Preferred None (Some e))
      | (s1, None, _, _, None) \<Rightarrow> (s1, PreferredPanics)
      | (s1, Some groups, rs, failed, None) \<Rightarrow>
          (case with_resources str order d groups rs failed s1 of (s2, gvr, fs) \<Rightarrow> (s2, preferred_of sorder groups gvr fs)))"

definition client_ServerPreferredResources ::
  "(GroupVersion list \<Rightarrow> GroupVersion list) \<Rightarrow> (selection \<Rightarrow> selection) \<Rightarrow> ('w, 'b, 'e) discovery_rest \<Rightarrow> DiscoveryClient \<Rightarrow> 'w \<Rightarrow> ('w \<times> 'e preferred_out) option" where
  "client_ServerPreferredResources order sorder r c w =
     (case withRetries defaultRetries
             (\<lambda>w. case ServerPreferredResources (dr_String r) order sorder (client_discovery r c) w of
                    (w1, PreferredPanics) \<Rightarrow> None
                  | (w1, Preferred rs err) \<Rightarrow> Some (w1, None, rs, err)) w of
        None \<Rightarrow> None
      | Some (w1, _, rs, err) \<Rightarrow> Some (w1, Preferred rs err))"

subsection \<open>Helpers\<close>

definition FilteredBy :: "(string \<Rightarrow> APIResource \<Rightarrow> bool) \<Rightarrow> APIResourceList list \<Rightarrow> APIResourceList list" where
  "FilteredBy pred rls =
     filter (\<lambda>rl. rl_APIResources rl \<noteq> []) (map (\<lambda>rl. rl\<lparr>rl_APIResources := filter (pred (rl_GroupVersion rl)) (rl_APIResources rl)\<rparr>) rls)"

definition SupportsAllVerbs :: "string list \<Rightarrow> string \<Rightarrow> APIResource \<Rightarrow> bool" where
  "SupportsAllVerbs verbs groupVersion r \<longleftrightarrow> list_all (\<lambda>v. v \<in> set (ar_Verbs r)) verbs"

definition ServerPreferredNamespacedResources ::
  "(GroupVersion \<Rightarrow> string) \<Rightarrow> (GroupVersion list \<Rightarrow> GroupVersion list) \<Rightarrow> (selection \<Rightarrow> selection) \<Rightarrow> ('s, 'e) discovery \<Rightarrow> 's \<Rightarrow> 's \<times> 'e preferred_out" where
  "ServerPreferredNamespacedResources str order sorder d s =
     (case ServerPreferredResources str order sorder d s of
        (s1, PreferredPanics) \<Rightarrow> (s1, PreferredPanics)
      | (s1, Preferred rs err) \<Rightarrow> (s1, Preferred (Some (FilteredBy (\<lambda>gv r. ar_Namespaced r) (some_list rs))) err))"

definition IsResourceEnabled ::
  "(GroupVersion \<Rightarrow> string) \<Rightarrow> ('e disc_err \<Rightarrow> bool) \<Rightarrow> ('s, 'e) discovery \<Rightarrow> GVR \<Rightarrow> 's \<Rightarrow> 's \<times> ('e disc_err + bool)" where
  "IsResourceEnabled str IsNotFound d r s =
     (case di_Resources d (str \<lparr>gv_Group = gvr_Group r, gv_Version = gvr_Version r\<rparr>) s of
        (s1, Got l) \<Rightarrow> (s1, Inr (list_ex (\<lambda>a. ar_Name a = gvr_Resource r) (rl_APIResources l)))
      | (s1, Failed _ e) \<Rightarrow> (s1, if IsNotFound e then Inr False else Inl e))"

text \<open>The version of a server or a client, as far as it is compared.\<close>

record version_info =
  vi_GitVersion :: string
  vi_GitCommit :: string
  vi_GitTreeState :: string

definition MatchesServerVersion :: "version_info \<Rightarrow> ('s \<Rightarrow> 's \<times> ('e disc_err + version_info)) \<Rightarrow> 's \<Rightarrow> 's \<times> 'e disc_err option" where
  "MatchesServerVersion clientVersion serverVersion s =
     (case serverVersion s of
        (s1, Inl e) \<Rightarrow> (s1, Some (ServerVersionUnread e))
      | (s1, Inr sVer) \<Rightarrow>
          (s1, if vi_GitVersion clientVersion \<noteq> vi_GitVersion sVer \<or> vi_GitCommit clientVersion \<noteq> vi_GitCommit sVer \<or>
                  vi_GitTreeState clientVersion \<noteq> vi_GitTreeState sVer
               then Some ServerVersionDiffers else None))"

text \<open>\<open>extract\<close> is \<open>metav1.ExtractGroupVersions\<close>.\<close>

definition ServerSupportsVersion ::
  "(GroupVersion \<Rightarrow> string) \<Rightarrow> (APIGroup list option \<Rightarrow> string list) \<Rightarrow> ('s, 'e) discovery \<Rightarrow> GroupVersion \<Rightarrow> 's \<Rightarrow> 's \<times> 'e disc_err option" where
  "ServerSupportsVersion str extract d requiredGV s =
     (case di_ServerGroups d s of
        (s1, _, Some e) \<Rightarrow> (s1, Some e)
      | (s1, groups, None) \<Rightarrow>
          (s1, if str requiredGV \<in> set (extract groups) then None
               else if extract groups = [] then None
               else Some (VersionNotSupported requiredGV)))"

fun GroupVersionResources :: "(string \<Rightarrow> GroupVersion option) \<Rightarrow> APIResourceList list \<Rightarrow> 'e disc_err + GVR set" where
  "GroupVersionResources parse [] = Inr {}"
| "GroupVersionResources parse (rl # rls) =
     (case parse (rl_GroupVersion rl) of
        None \<Rightarrow> Inl (BadGroupVersion (rl_GroupVersion rl))
      | Some gv \<Rightarrow>
          (case GroupVersionResources parse rls of
             Inl e \<Rightarrow> Inl e
           | Inr gvrs \<Rightarrow>
               Inr (set (map (\<lambda>r. \<lparr>gvr_Group = gv_Group gv, gvr_Version = gv_Version gv, gvr_Resource = ar_Name r\<rparr>) (rl_APIResources rl)) \<union> gvrs)))"

section \<open>Every resource has one preferred version\<close>

definition served :: "resources_map \<Rightarrow> (APIGroup \<times> GroupVersionForDiscovery) list \<Rightarrow> (APIGroup \<times> GroupVersionForDiscovery) list" where
  "served gvr ps = filter (\<lambda>p. map_of gvr (gv_of p) \<noteq> None) ps"

definition resources_at :: "resources_map \<Rightarrow> APIGroup \<times> GroupVersionForDiscovery \<Rightarrow> APIResource list" where
  "resources_at gvr p = (case map_of gvr (gv_of p) of None \<Rightarrow> [] | Some l \<Rightarrow> rl_APIResources l)"

definition serves :: "resources_map \<Rightarrow> APIGroup \<Rightarrow> string \<Rightarrow> GroupVersionForDiscovery \<Rightarrow> bool" where
  "serves gvr g n v \<longleftrightarrow> list_ex (\<lambda>r. ar_Name r = n) (resources_at gvr (g, v))"

text \<open>The version of a resource that the server prefers: the preferred version of the group if it has the resource, otherwise the first one that has it.\<close>

definition best_version :: "resources_map \<Rightarrow> APIGroup \<Rightarrow> string \<Rightarrow> GroupVersionForDiscovery option" where
  "best_version gvr g n =
     (case find (\<lambda>v. gd_Version v = gd_Version (ag_PreferredVersion g) \<and> serves gvr g n v) (ag_Versions g) of
        Some v \<Rightarrow> Some v
      | None \<Rightarrow> find (serves gvr g n) (ag_Versions g))"

text \<open>The candidates in the order in which the loops visit them.\<close>

definition entries :: "resources_map \<Rightarrow> (APIGroup \<times> GroupVersionForDiscovery) list \<Rightarrow> (APIGroup \<times> string \<times> APIResource) list" where
  "entries gvr ps = concat (map (\<lambda>p. map (\<lambda>r. (fst p, gd_Version (snd p), r)) (resources_at gvr p)) ps)"

definition pick_entry :: "(APIGroup \<times> string \<times> APIResource) list \<Rightarrow> (string \<times> APIResource) option" where
  "pick_entry es =
     (case filter (\<lambda>(g, v, r). v = gd_Version (ag_PreferredVersion g)) es of
        [] \<Rightarrow> (case es of [] \<Rightarrow> None | e # _ \<Rightarrow> Some (snd e))
      | e # qs \<Rightarrow> Some (snd (last (e # qs))))"

definition about :: "string \<times> string \<Rightarrow> APIGroup \<times> string \<times> APIResource \<Rightarrow> bool" where
  "about gr e \<longleftrightarrow> (ag_Name (fst e), ar_Name (snd (snd e))) = gr \<and> \<not> contains (ar_Name (snd (snd e))) ''/''"

lemma pick_entry_snoc:
  "pick_entry (es @ [e]) = (if pick_entry es \<noteq> None \<and> fst (snd e) \<noteq> gd_Version (ag_PreferredVersion (fst e)) then pick_entry es else Some (snd e))"
  by (cases e; cases es) (auto simp: pick_entry_def split: list.splits)

lemma pick_entry_None [simp]: "pick_entry es = None \<longleftrightarrow> es = []"
  by (auto simp: pick_entry_def split: list.splits)

lemma fold_select_pick_entry:
  "map_of (fold (\<lambda>(g, v, r). select_resource g v r) es []) gr = pick_entry (filter (about gr) es)"
proof (induction es rule: rev_induct)
  case (snoc e es)
  obtain g v r where e: "e = (g, v, r)" by (cases e)
  define sel where "sel = fold (\<lambda>(g, v, r). select_resource g v r) es []"
  note IH = snoc.IH [folded sel_def]
  have "map_of (select_resource g v r sel) gr = pick_entry (filter (about gr) (es @ [e]))"
  proof (cases "about gr e")
    case True
    then have gr: "gr = (ag_Name g, ar_Name r)" and plain: "\<not> contains (ar_Name r) ''/''" by (auto simp: e about_def)
    show ?thesis using True IH by (simp add: gr plain e select_resource_def pick_entry_snoc Let_def update_conv' del: pick_entry_None)
  next
    case False
    then have "gr \<noteq> (ag_Name g, ar_Name r) \<or> contains (ar_Name r) ''/''" by (auto simp: e about_def)
    then show ?thesis using False IH by (auto simp: e select_resource_def Let_def update_conv')
  qed
  then show ?case by (simp add: e sel_def)
qed (simp add: pick_entry_def)

lemma served_snoc [simp]:
  "served gvr [] = []"
  "served gvr (ps @ [p]) = served gvr ps @ (if map_of gvr (gv_of p) = None then [] else [p])"
  by (auto simp: served_def)

lemma entries_snoc [simp]:
  "entries gvr [] = []"
  "entries gvr (ps @ [p]) = entries gvr ps @ map (\<lambda>r. (fst p, gd_Version (snd p), r)) (resources_at gvr p)"
  by (auto simp: entries_def)

lemma fold_select_map:
  "fold (\<lambda>(g, v, r). select_resource g v r) (map (\<lambda>r. (g, v, r)) xs) sel = fold (select_resource g v) xs sel"
  by (induction xs arbitrary: sel) auto

lemma select_version_step:
  "map_of gvr (gv_of p) = None \<Longrightarrow> select_version gvr p st = st"
  "map_of gvr (gv_of p) = Some l \<Longrightarrow> select_version gvr p (result, at, sel) =
     (result @ [\<lparr>rl_GroupVersion = gd_GroupVersion (snd p), rl_APIResources = []\<rparr>], AList.update (gv_of p) (length result) at,
      fold (select_resource (fst p) (gd_Version (snd p))) (resources_at gvr p) sel)"
  by (auto simp: select_version_def resources_at_def split: prod.splits)

lemma select_version_fold:
  assumes "distinct (map gv_of ps)"
  shows "\<exists>at. fold (select_version gvr) ps ([], [], []) =
      (map (\<lambda>p. \<lparr>rl_GroupVersion = gd_GroupVersion (snd p), rl_APIResources = []\<rparr>) (served gvr ps), at,
       fold (\<lambda>(g, v, r). select_resource g v r) (entries gvr ps) []) \<and>
    (\<forall>gv i. map_of at gv = Some i \<longleftrightarrow> i < length (served gvr ps) \<and> gv_of (served gvr ps ! i) = gv)"
  using assms
proof (induction ps rule: rev_induct)
  case (snoc p ps)
  then obtain at where at: "fold (select_version gvr) ps ([], [], []) =
      (map (\<lambda>p. \<lparr>rl_GroupVersion = gd_GroupVersion (snd p), rl_APIResources = []\<rparr>) (served gvr ps), at,
       fold (\<lambda>(g, v, r). select_resource g v r) (entries gvr ps) [])"
    and pos: "\<And>gv i. map_of at gv = Some i \<longleftrightarrow> i < length (served gvr ps) \<and> gv_of (served gvr ps ! i) = gv" by auto
  have new: "gv_of q \<noteq> gv_of p" if "q \<in> set (served gvr ps)" for q
  proof -
    have "q \<in> set ps" using that by (simp add: served_def)
    then have "gv_of q \<in> gv_of ` set ps" by simp
    moreover have "gv_of p \<notin> gv_of ` set ps" using snoc.prems by simp
    ultimately show ?thesis by metis
  qed
  show ?case
  proof (cases "map_of gvr (gv_of p)")
    case None
    then have "resources_at gvr p = []" by (simp add: resources_at_def)
    then show ?thesis using at pos by (simp add: select_version_step(1) None)
  next
    case (Some l)
    have "\<forall>gv i. map_of (AList.update (gv_of p) (length (served gvr ps)) at) gv = Some i \<longleftrightarrow>
        i < length (served gvr ps @ [p]) \<and> gv_of ((served gvr ps @ [p]) ! i) = gv"
      using new by (auto simp: update_conv' pos nth_append less_Suc_eq)
    then show ?thesis using at by (simp add: select_version_step(2) [OF Some] Some fold_select_map)
  qed
qed simp

lemma fold_place:
  assumes "\<forall>((g, n), v, r) \<in> set xs. \<exists>i < length res0. map_of at \<lparr>gv_Group = g, gv_Version = v\<rparr> = Some i"
  shows "\<exists>res. fold (place_resource at) xs (Some res0) = Some res \<and> length res = length res0 \<and>
    (\<forall>i < length res0. rl_GroupVersion (res ! i) = rl_GroupVersion (res0 ! i) \<and>
       rl_APIResources (res ! i) = rl_APIResources (res0 ! i) @
         map (snd \<circ> snd) (filter (\<lambda>((g, n), v, r). map_of at \<lparr>gv_Group = g, gv_Version = v\<rparr> = Some i) xs))"
  using assms
proof (induction xs arbitrary: res0)
  case (Cons x xs)
  obtain g n v r where x: "x = ((g, n), v, r)" by (metis prod.exhaust)
  then obtain j where j: "j < length res0" "map_of at \<lparr>gv_Group = g, gv_Version = v\<rparr> = Some j" using Cons.prems by auto
  let ?res1 = "res0[j := (res0 ! j)\<lparr>rl_APIResources := rl_APIResources (res0 ! j) @ [r]\<rparr>]"
  have "fold (place_resource at) (x # xs) (Some res0) = fold (place_resource at) xs (Some ?res1)" by (simp add: x place_resource_def j)
  moreover have "\<forall>((g, n), v, r) \<in> set xs. \<exists>i < length ?res1. map_of at \<lparr>gv_Group = g, gv_Version = v\<rparr> = Some i" using Cons.prems by auto
  note Cons.IH [OF this]
  ultimately show ?case using j by (auto simp: x nth_list_update)
qed simp

lemma fold_select_distinct: "distinct (map fst sel) \<Longrightarrow> distinct (map fst (fold (\<lambda>(g, v, r). select_resource g v r) es sel))"
  by (induction es arbitrary: sel) (auto simp: select_resource_def Let_def distinct_update)

lemma find_filter: "find P xs = (case filter P xs of [] \<Rightarrow> None | x # _ \<Rightarrow> Some x)"
  by (induction xs) auto

lemma filter_key_unique: "distinct (map f xs) \<Longrightarrow> filter (\<lambda>x. f x = y \<and> P x) xs = (case find (\<lambda>x. f x = y \<and> P x) xs of None \<Rightarrow> [] | Some x \<Rightarrow> [x])"
proof (induction xs)
  case (Cons x xs)
  have "filter (\<lambda>z. f z = f x \<and> P z) xs = []" using Cons.prems by (auto simp: filter_empty_conv image_iff)
  with Cons show ?case by (cases "f x = y") auto
qed simp

definition named :: "resources_map \<Rightarrow> APIGroup \<Rightarrow> string \<Rightarrow> GroupVersionForDiscovery \<Rightarrow> APIResource option" where
  "named gvr g n v = find (\<lambda>r. ar_Name r = n) (resources_at gvr (g, v))"

lemma named_serves: "named gvr g n v \<noteq> None \<longleftrightarrow> serves gvr g n v"
  by (auto simp: named_def serves_def list_ex_iff find_None_iff)

lemma entries_of_group:
  assumes "distinct (map ag_Name groups)" and "g \<in> set groups" and "\<not> contains n ''/''"
    and names: "\<And>p. distinct (map ar_Name (resources_at gvr p))"
  shows "filter (about (ag_Name g, n)) (entries gvr (group_versions groups)) =
    map (\<lambda>v. (g, gd_Version v, the (named gvr g n v))) (filter (serves gvr g n) (ag_Versions g))"
proof -
  have one: "filter (about (ag_Name g, n)) (map (\<lambda>r. (g, gd_Version v, r)) (resources_at gvr (g, v))) =
      (if serves gvr g n v then [(g, gd_Version v, the (named gvr g n v))] else [])" for v
    using filter_key_unique [OF names [of "(g, v)"], of n "\<lambda>_. True"] assms(3) named_serves [of gvr g n v]
    by (auto simp: filter_map comp_def about_def named_def cong: conj_cong split: option.splits)
  have other: "filter (about (ag_Name g, n)) (map (\<lambda>r. (h, x, r)) rs) = []" if "ag_Name h \<noteq> ag_Name g" for h x rs
    using that by (auto simp: filter_empty_conv about_def)
  have mine: "filter (about (ag_Name g, n)) (entries gvr (map (\<lambda>v. (g, v)) vs)) =
      map (\<lambda>v. (g, gd_Version v, the (named gvr g n v))) (filter (serves gvr g n) vs)" for vs
    by (induction vs rule: rev_induct) (simp_all add: one)
  have none: "filter (about (ag_Name g, n)) (entries gvr (group_versions hs)) = []" if "ag_Name g \<notin> ag_Name ` set hs" for hs
  proof -
    have "\<not> about (ag_Name g, n) e" if e: "e \<in> set (entries gvr (group_versions hs))" for e
    proof -
      have "fst e \<in> set hs" using e by (auto simp: entries_def group_versions_def)
      then have "ag_Name (fst e) \<in> ag_Name ` set hs" by simp
      then show ?thesis using \<open>ag_Name g \<notin> ag_Name ` set hs\<close> by (auto simp: about_def)
    qed
    then show ?thesis by (simp add: filter_empty_conv)
  qed
  obtain as bs where "groups = as @ g # bs" using assms(2) by (meson split_list)
  then show ?thesis using assms(1) mine [of "ag_Versions g"] none [of as] none [of bs]
    by (simp add: group_versions_def entries_def)
qed

lemma pick_best:
  assumes "distinct (map gd_Version (ag_Versions g))"
  shows "pick_entry (map (\<lambda>v. (g, gd_Version v, the (named gvr g n v))) (filter (serves gvr g n) (ag_Versions g))) =
    map_option (\<lambda>v. (gd_Version v, the (named gvr g n v))) (best_version gvr g n)"
  using filter_key_unique [OF assms, of "gd_Version (ag_PreferredVersion g)" "serves gvr g n"]
  by (auto simp: pick_entry_def best_version_def filter_map comp_def conj_commute find_filter [of "serves gvr g n"] split: option.splits list.splits)

text \<open>What the loops select, for lists of groups, versions and resources without duplicate names.\<close>

definition selected :: "resources_map \<Rightarrow> APIGroup list \<Rightarrow> selection" where
  "selected gvr groups = fold (\<lambda>(g, v, r). select_resource g v r) (entries gvr (group_versions groups)) []"

lemma selected_exact:
  assumes "distinct (map ag_Name groups)" and "g \<in> set groups" and "distinct (map gd_Version (ag_Versions g))"
    and "\<And>p. distinct (map ar_Name (resources_at gvr p))"
  shows "map_of (selected gvr groups) (ag_Name g, n) =
    (if contains n ''/'' then None else map_option (\<lambda>v. (gd_Version v, the (named gvr g n v))) (best_version gvr g n))"
proof (cases "contains n ''/''")
  case True
  then have "filter (about (ag_Name g, n)) es = []" for es by (auto simp: filter_empty_conv about_def)
  then show ?thesis using True by (simp add: selected_def fold_select_pick_entry pick_entry_def)
next
  case False
  then show ?thesis using entries_of_group [OF assms(1,2) False assms(4)] pick_best [OF assms(3)]
    by (simp add: selected_def fold_select_pick_entry)
qed

lemma selected_group: "map_of (selected gvr groups) (gn, n) = Some x \<Longrightarrow> \<exists>g \<in> set groups. ag_Name g = gn"
proof -
  assume "map_of (selected gvr groups) (gn, n) = Some x"
  then have "filter (about (gn, n)) (entries gvr (group_versions groups)) \<noteq> []"
    by (metis fold_select_pick_entry option.distinct(1) pick_entry_None selected_def)
  then obtain e where "e \<in> set (entries gvr (group_versions groups))" "about (gn, n) e" by (auto simp: filter_empty_conv)
  then show ?thesis by (auto simp: about_def entries_def group_versions_def)
qed

lemma best_version_serves: "best_version gvr g n = Some v \<Longrightarrow> v \<in> set (ag_Versions g) \<and> serves gvr g n v"
  by (auto simp: best_version_def find_Some_iff split: option.splits)

lemma named_iff:
  assumes "distinct (map ar_Name (resources_at gvr (g, v)))"
  shows "named gvr g n v = Some r \<longleftrightarrow> r \<in> set (resources_at gvr (g, v)) \<and> ar_Name r = n"
proof (cases "named gvr g n v")
  case None
  then have "\<forall>r \<in> set (resources_at gvr (g, v)). ar_Name r \<noteq> n" by (auto simp: named_def find_None_iff)
  then show ?thesis using None by auto
next
  case (Some r1)
  then have "r1 \<in> set (resources_at gvr (g, v)) \<and> ar_Name r1 = n" by (auto simp: named_def find_Some_iff)
  then show ?thesis using Some assms by (auto simp: distinct_map dest: inj_onD)
qed

lemma served_pairs:
  "p \<in> set (served gvr (group_versions groups)) \<longleftrightarrow>
     fst p \<in> set groups \<and> snd p \<in> set (ag_Versions (fst p)) \<and> map_of gvr (gv_of p) \<noteq> None"
  by (cases p) (auto simp: served_def group_versions_def)

lemma group_versions_distinct:
  "distinct (map ag_Name groups) \<Longrightarrow> \<forall>g \<in> set groups. distinct (map gd_Version (ag_Versions g)) \<Longrightarrow> distinct (map gv_of (group_versions groups))"
proof (induction groups)
  case (Cons g groups)
  have "distinct (map gv_of (map (\<lambda>v. (g, v)) (ag_Versions g)))"
    using Cons.prems(2) by (auto simp: distinct_map gv_of_def inj_on_def)
  moreover have "gv_of (g, v) \<notin> gv_of ` set (group_versions groups)" for v
    using Cons.prems(1) by (auto simp: group_versions_def gv_of_def)
  ultimately show ?case using Cons by (auto simp: group_versions_def)
qed (simp add: group_versions_def)

lemma preferred_of_exact:
  assumes dg: "distinct (map ag_Name groups)" and dv: "\<forall>g \<in> set groups. distinct (map gd_Version (ag_Versions g))"
    and dn: "\<And>p. distinct (map ar_Name (resources_at gvr p))"
    and perm: "\<And>sel. mset (sorder sel) = mset sel"
  shows "\<exists>res. preferred_of sorder groups gvr fs = Preferred (Some res) (failed_error fs) \<and>
    map rl_GroupVersion res = map (gd_GroupVersion \<circ> snd) (served gvr (group_versions groups)) \<and>
    (\<forall>i < length res. case served gvr (group_versions groups) ! i of (g, v) \<Rightarrow>
       distinct (rl_APIResources (res ! i)) \<and>
       set (rl_APIResources (res ! i)) =
         {r \<in> set (resources_at gvr (g, v)). \<not> contains (ar_Name r) ''/'' \<and> best_version gvr g (ar_Name r) = Some v})"
proof -
  let ?ps = "served gvr (group_versions groups)"
  let ?sel = "selected gvr groups"
  let ?res0 = "map (\<lambda>p. \<lparr>rl_GroupVersion = gd_GroupVersion (snd p), rl_APIResources = []\<rparr>) ?ps"
  obtain at where at: "fold (select_version gvr) (group_versions groups) ([], [], []) = (?res0, at, ?sel)"
    and pos: "\<And>gv i. map_of at gv = Some i \<longleftrightarrow> i < length ?ps \<and> gv_of (?ps ! i) = gv"
    using select_version_fold [OF group_versions_distinct [OF dg dv], of gvr] unfolding selected_def by auto
  have keys: "distinct (map fst ?sel)" unfolding selected_def by (rule fold_select_distinct) simp
  have members: "set (sorder ?sel) = set ?sel" using perm [of ?sel] by (metis set_mset_mset)
  have entry: "((gn, n), v, r) \<in> set ?sel \<longleftrightarrow> map_of ?sel (gn, n) = Some (v, r)" for gn n v r using keys by simp
  have chosen: "((gn, n), x, r) \<in> set ?sel \<longleftrightarrow>
      (\<exists>g v. g \<in> set groups \<and> ag_Name g = gn \<and> \<not> contains n ''/'' \<and> best_version gvr g n = Some v \<and> gd_Version v = x \<and>
         r \<in> set (resources_at gvr (g, v)) \<and> ar_Name r = n)" for gn n x r
  proof -
    have "map_of ?sel (ag_Name g, n) = Some (x, r) \<longleftrightarrow>
        (\<exists>v. \<not> contains n ''/'' \<and> best_version gvr g n = Some v \<and> gd_Version v = x \<and> r \<in> set (resources_at gvr (g, v)) \<and> ar_Name r = n)"
      if g: "g \<in> set groups" for g
      using selected_exact [OF dg g _ dn, of n] dv g named_iff [OF dn] named_serves [of gvr g n] best_version_serves [of gvr g n]
      by auto (metis option.sel option.exhaust)+
    then show ?thesis using selected_group [of gvr groups gn n] dg by (auto simp: entry) blast+
  qed
  have placed: "\<exists>i < length ?res0. map_of at \<lparr>gv_Group = gn, gv_Version = x\<rparr> = Some i" if "((gn, n), x, r) \<in> set ?sel" for gn n x r
  proof -
    from that obtain g v where gv: "g \<in> set groups" "ag_Name g = gn" "best_version gvr g n = Some v" "gd_Version v = x" by (auto simp: chosen)
    then have "v \<in> set (ag_Versions g)" "serves gvr g n v" using best_version_serves by blast+
    then have "(g, v) \<in> set ?ps" using gv(1) by (auto simp: served_pairs serves_def resources_at_def split: option.splits)
    then obtain i where "i < length ?ps" "?ps ! i = (g, v)" by (auto simp: in_set_conv_nth)
    then show ?thesis using gv by (auto simp: pos gv_of_def)
  qed
  then have "\<forall>((g, n), v, r) \<in> set (sorder ?sel). \<exists>i < length ?res0. map_of at \<lparr>gv_Group = g, gv_Version = v\<rparr> = Some i"
    unfolding members by blast
  from fold_place [OF this] obtain res where res: "fold (place_resource at) (sorder ?sel) (Some ?res0) = Some res" "length res = length ?ps"
    and lists: "\<And>i. i < length ?ps \<Longrightarrow> rl_GroupVersion (res ! i) = rl_GroupVersion (?res0 ! i) \<and>
      rl_APIResources (res ! i) = map (snd \<circ> snd) (filter (\<lambda>((g, n), v, r). map_of at \<lparr>gv_Group = g, gv_Version = v\<rparr> = Some i) (sorder ?sel))"
    by auto
  have "map rl_GroupVersion res = map (gd_GroupVersion \<circ> snd) ?ps" using res(2) lists by (intro nth_equalityI) auto
  moreover have "distinct (rl_APIResources (res ! i)) \<and> set (rl_APIResources (res ! i)) =
      {r \<in> set (resources_at gvr (g, v)). \<not> contains (ar_Name r) ''/'' \<and> best_version gvr g (ar_Name r) = Some v}"
    if i: "i < length res" "?ps ! i = (g, v)" for i g v
  proof -
    have gv: "g \<in> set groups" "v \<in> set (ag_Versions g)" using i res(2) served_pairs [of "(g, v)" gvr groups] by (metis fst_conv nth_mem snd_conv)+
    have here: "map_of at \<lparr>gv_Group = gn, gv_Version = x\<rparr> = Some i \<longleftrightarrow> gn = ag_Name g \<and> x = gd_Version v" for gn x
      using i res(2) by (auto simp: pos gv_of_def)
    have "distinct (map fst (sorder ?sel))" using keys perm [of ?sel] by (metis mset_eq_imp_distinct_iff mset_map)
    moreover have "inj_on (snd \<circ> snd) {x \<in> set ?sel. case x of ((gn, n), w, r) \<Rightarrow> gn = ag_Name g \<and> w = gd_Version v}"
      by (auto simp: inj_on_def chosen)
    ultimately have "distinct (rl_APIResources (res ! i))"
      using lists [of i] i(1) res(2) by (auto simp: here distinct_map members intro: distinct_filter elim: inj_on_subset)
    moreover have "r \<in> set (rl_APIResources (res ! i)) \<longleftrightarrow> (\<exists>n. ((ag_Name g, n), gd_Version v, r) \<in> set ?sel)" for r
      using lists [of i] i(1) res(2) members by (force simp: here)
    moreover have "g1 = g" if "g1 \<in> set groups" "ag_Name g1 = ag_Name g" for g1 using that gv dg by (auto simp: distinct_map dest: inj_onD)
    moreover have "v1 = v" if "v1 \<in> set (ag_Versions g)" "gd_Version v1 = gd_Version v" for v1 using that gv dv by (auto simp: distinct_map dest: inj_onD)
    ultimately show ?thesis using gv best_version_serves unfolding chosen by blast
  qed
  moreover have "preferred_of sorder groups gvr fs = Preferred (Some res) (failed_error fs)" using at res by (simp add: preferred_of_def)
  ultimately show ?thesis by (intro exI [of _ res]) (simp split: prod.split)
qed

text \<open>
  C26. Preferred resources: for groups, versions and resources without duplicate names, \<open>ServerPreferredResources\<close> returns one list per served group version, in
  discovery order, and each resource that is not a subresource stands in exactly one of them: in the list of the group's preferred version when that version has it,
  and otherwise of the first version that has it. This does not depend on the order in which Go ranges over its maps.
\<close>

theorem preferred_resources_exact:
  assumes groups: "groups_of d s = (s1, Some groups, rs, failed, None)"
    and read: "with_resources str order d groups rs failed s1 = (s2, gvr, fs)"
    and "distinct (map ag_Name groups)" and "\<forall>g \<in> set groups. distinct (map gd_Version (ag_Versions g))"
    and names: "\<forall>(gv, l) \<in> set gvr. distinct (map ar_Name (rl_APIResources l))"
    and "\<And>sel. mset (sorder sel) = mset sel"
  shows "\<exists>res. ServerPreferredResources str order sorder d s = (s2, Preferred (Some res) (failed_error fs)) \<and>
    map rl_GroupVersion res = map (gd_GroupVersion \<circ> snd) (served gvr (group_versions groups)) \<and>
    (\<forall>i < length res. case served gvr (group_versions groups) ! i of (g, v) \<Rightarrow>
       distinct (rl_APIResources (res ! i)) \<and>
       set (rl_APIResources (res ! i)) =
         {r \<in> set (resources_at gvr (g, v)). \<not> contains (ar_Name r) ''/'' \<and> best_version gvr g (ar_Name r) = Some v})"
proof -
  have "distinct (map ar_Name (resources_at gvr p))" for p
    using names by (auto simp: resources_at_def split: option.splits dest!: map_of_SomeD)
  moreover have "ServerPreferredResources str order sorder d s = (s2, preferred_of sorder groups gvr fs)"
    using groups read by (simp add: ServerPreferredResources_def)
  ultimately show ?thesis using preferred_of_exact [OF assms(3,4) _ assms(6), of gvr fs] by simp
qed

section \<open>Aggregated discovery is split without loss\<close>

definition converted :: "(GroupVersion \<Rightarrow> string) \<Rightarrow> GroupVersion \<Rightarrow> APIVersionDiscovery \<Rightarrow> APIResourceList" where
  "converted str gv v = \<lparr>rl_GroupVersion = str gv, rl_APIResources = concat (map convert_resource (av_Resources v))\<rparr>"

definition fresh_version :: "(GroupVersion \<Rightarrow> string) \<Rightarrow> string \<Rightarrow> APIVersionDiscovery \<Rightarrow> GroupVersionForDiscovery" where
  "fresh_version str name v = \<lparr>gd_GroupVersion = str \<lparr>gv_Group = name, gv_Version = av_Version v\<rparr>, gd_Version = av_Version v\<rparr>"

definition agg_version :: "string \<Rightarrow> APIVersionDiscovery list \<Rightarrow> GroupVersion \<Rightarrow> APIVersionDiscovery \<Rightarrow> bool" where
  "agg_version name vs gv v \<longleftrightarrow> v \<in> set vs \<and> gv = \<lparr>gv_Group = name, gv_Version = av_Version v\<rparr>"

lemma convertAPIGroup_exact:
  assumes "distinct (map av_Version (gn_Versions g))" and "convertAPIGroup str g = (grp, rs, fs)"
  shows "ag_Name grp = gn_Name g \<and> ag_Versions grp = map (fresh_version str (gn_Name g)) (filter (Not \<circ> av_Stale) (gn_Versions g)) \<and>
    (\<forall>gv l. map_of rs gv = Some l \<longleftrightarrow> (\<exists>v. agg_version (gn_Name g) (gn_Versions g) gv v \<and> \<not> av_Stale v \<and> l = converted str gv v)) \<and>
    (\<forall>gv e. map_of fs gv = Some e \<longleftrightarrow> (\<exists>v. agg_version (gn_Name g) (gn_Versions g) gv v \<and> av_Stale v \<and> e = StaleGroupVersion gv)) \<and>
    distinct (map fst rs) \<and> distinct (map fst fs)"
proof -
  let ?start = "(\<lparr>ag_Name = gn_Name g, ag_Versions = [], ag_PreferredVersion = no_version\<rparr>, [], [])"
  have "fold (convert_version str (gn_Name g)) vs ?start = (grp, rs, fs) \<Longrightarrow>
    ag_Name grp = gn_Name g \<and> ag_Versions grp = map (fresh_version str (gn_Name g)) (filter (Not \<circ> av_Stale) vs) \<and>
    (\<forall>gv l. map_of rs gv = Some l \<longleftrightarrow> (\<exists>v. agg_version (gn_Name g) vs gv v \<and> \<not> av_Stale v \<and> l = converted str gv v)) \<and>
    (\<forall>gv e. map_of fs gv = Some e \<longleftrightarrow> (\<exists>v. agg_version (gn_Name g) vs gv v \<and> av_Stale v \<and> e = StaleGroupVersion gv)) \<and>
    distinct (map fst rs) \<and> distinct (map fst fs)"
    if "distinct (map av_Version vs)" for vs and grp rs and fs :: "'a failures"
    using that
  proof (induction vs arbitrary: grp rs fs rule: rev_induct)
    case (snoc v vs)
    obtain grp1 rs1 and fs1 :: "'a failures" where one: "fold (convert_version str (gn_Name g)) vs ?start = (grp1, rs1, fs1)" by (metis prod.exhaust)
    have new: "\<not> agg_version (gn_Name g) vs \<lparr>gv_Group = gn_Name g, gv_Version = av_Version v\<rparr> u" for u
      using snoc.prems(2) by (auto simp: agg_version_def image_iff)
    have add: "agg_version (gn_Name g) (vs @ [v]) gv u \<longleftrightarrow> agg_version (gn_Name g) vs gv u \<or> u = v \<and> gv = \<lparr>gv_Group = gn_Name g, gv_Version = av_Version v\<rparr>" for gv u
      by (auto simp: agg_version_def)
    have step: "convert_version str (gn_Name g) v (grp1, rs1, fs1) = (grp, rs, fs)" using snoc.prems(1) one by simp
    have "distinct (map av_Version vs)" using snoc.prems(2) by simp
    note IH = snoc.IH [OF one this]
    show ?case
    proof (cases "av_Stale v")
      case True
      then have "grp = grp1" "rs = rs1" "fs = AList.update \<lparr>gv_Group = gn_Name g, gv_Version = av_Version v\<rparr> (StaleGroupVersion \<lparr>gv_Group = gn_Name g, gv_Version = av_Version v\<rparr>) fs1"
        using step by (auto simp: convert_version_def Let_def)
      then show ?thesis using IH snoc.prems(2) new True by (auto simp: add update_conv' distinct_update)
    next
      case False
      then have "ag_Name grp = ag_Name grp1" "ag_Versions grp = ag_Versions grp1 @ [fresh_version str (gn_Name g) v]"
        "rs = AList.update \<lparr>gv_Group = gn_Name g, gv_Version = av_Version v\<rparr> (converted str \<lparr>gv_Group = gn_Name g, gv_Version = av_Version v\<rparr> v) rs1" "fs = fs1"
        using step by (auto simp: convert_version_def Let_def converted_def fresh_version_def split: if_splits)
      then show ?thesis using IH snoc.prems(2) new False by (auto simp: add update_conv' distinct_update)
    qed
  qed (auto simp: agg_version_def)
  from this [OF assms(1)] assms(2) show ?thesis by (simp add: convertAPIGroup_def)
qed

lemma put_all_conv: "distinct (map fst new) \<Longrightarrow> map_of (put_all new m) = map_of m ++ map_of new"
proof (induction new arbitrary: m)
  case (Cons p new)
  obtain k v where p: "p = (k, v)" by (cases p)
  have "map_of new k = None" using Cons.prems by (simp add: p map_of_eq_None_iff)
  moreover have "map_of (put_all (p # new) m) = (map_of m)(k \<mapsto> v) ++ map_of new" using Cons by (simp add: p put_all_def update_conv')
  ultimately show ?case by (auto simp: p map_add_def fun_eq_iff split: option.splits)
qed (simp add: put_all_def)

lemma put_all_distinct: "distinct (map fst m) \<Longrightarrow> distinct (map fst (put_all new m))"
  by (induction new arbitrary: m) (auto simp: put_all_def distinct_update)

definition agg_in :: "APIGroupDiscovery list \<Rightarrow> GroupVersion \<Rightarrow> APIVersionDiscovery \<Rightarrow> bool" where
  "agg_in items gv v \<longleftrightarrow> (\<exists>g \<in> set items. agg_version (gn_Name g) (gn_Versions g) gv v)"

text \<open>The groups keep their names and order; every version that is not stale has its converted resources, every stale one its failure, and there is nothing else.\<close>

lemma split_exact:
  assumes "distinct (map gn_Name items)" and "\<forall>g \<in> set items. distinct (map av_Version (gn_Versions g))"
    and "SplitGroupsAndResources str items = (groups, rs, fs)"
  shows "list_all2 (\<lambda>g grp. ag_Name grp = gn_Name g \<and>
      ag_Versions grp = map (fresh_version str (gn_Name g)) (filter (Not \<circ> av_Stale) (gn_Versions g))) items groups \<and>
    (\<forall>gv l. map_of rs gv = Some l \<longleftrightarrow> (\<exists>v. agg_in items gv v \<and> \<not> av_Stale v \<and> l = converted str gv v)) \<and>
    (\<forall>gv e. map_of fs gv = Some e \<longleftrightarrow> (\<exists>v. agg_in items gv v \<and> av_Stale v \<and> e = StaleGroupVersion gv))"
  using assms
proof (induction items arbitrary: groups rs fs rule: rev_induct)
  case Nil
  then show ?case by (simp add: SplitGroupsAndResources_def agg_in_def)
next
  case (snoc g items)
  obtain groups1 rs1 fs1 where one: "SplitGroupsAndResources str items = (groups1, rs1, fs1 :: 'a failures)" by (metis prod.exhaust)
  obtain grp grs gfs where g: "convertAPIGroup str g = (grp, grs, gfs :: 'a failures)" by (metis prod.exhaust)
  have out: "groups = groups1 @ [grp]" "rs = put_all grs rs1" "fs = put_all gfs fs1"
    using snoc.prems(3) one g by (auto simp: SplitGroupsAndResources_def)
  note IH = snoc.IH [OF _ _ one]
  have "distinct (map av_Version (gn_Versions g))" using snoc.prems(2) by simp
  note G = convertAPIGroup_exact [OF this g]
  have apart: "\<not> agg_in items gv u" if "agg_version (gn_Name g) (gn_Versions g) gv w" for gv u w
    using that snoc.prems(1) by (auto simp: agg_in_def agg_version_def image_iff)
  have add: "agg_in (items @ [g]) gv v \<longleftrightarrow> agg_in items gv v \<or> agg_version (gn_Name g) (gn_Versions g) gv v" for gv v
    by (auto simp: agg_in_def)
  have rs: "map_of rs gv = (case map_of grs gv of Some l \<Rightarrow> Some l | None \<Rightarrow> map_of rs1 gv)" for gv
    using G by (simp add: out put_all_conv map_add_def split: option.split)
  have fs: "map_of fs gv = (case map_of gfs gv of Some e \<Rightarrow> Some e | None \<Rightarrow> map_of fs1 gv)" for gv
    using G by (simp add: out put_all_conv map_add_def split: option.split)
  have uniq: "v = w" if "agg_version (gn_Name g) (gn_Versions g) gv v" "agg_version (gn_Name g) (gn_Versions g) gv w" for gv v w
    using that \<open>distinct (map av_Version (gn_Versions g))\<close> by (auto simp: agg_version_def distinct_map dest: inj_onD)
  have r1: "map_of grs gv = Some l \<longleftrightarrow> (\<exists>v. agg_version (gn_Name g) (gn_Versions g) gv v \<and> \<not> av_Stale v \<and> l = converted str gv v)" for gv l
    using G by blast
  have f1: "map_of gfs gv = Some e \<longleftrightarrow> (\<exists>v. agg_version (gn_Name g) (gn_Versions g) gv v \<and> av_Stale v \<and> e = StaleGroupVersion gv)" for gv e
    using G by blast
  have r2: "map_of rs1 gv = Some l \<longleftrightarrow> (\<exists>v. agg_in items gv v \<and> \<not> av_Stale v \<and> l = converted str gv v)" for gv l
    using IH snoc.prems by simp
  have f2: "map_of fs1 gv = Some e \<longleftrightarrow> (\<exists>v. agg_in items gv v \<and> av_Stale v \<and> e = StaleGroupVersion gv)" for gv e
    using IH snoc.prems by simp
  have "map_of rs gv = Some l \<longleftrightarrow> (\<exists>v. agg_in (items @ [g]) gv v \<and> \<not> av_Stale v \<and> l = converted str gv v)" for gv l
    using r1 [of gv] r2 [of gv] apart [of gv] unfolding rs add by (cases "map_of grs gv") (fastforce, metis option.inject option.simps(5))
  moreover have "map_of fs gv = Some e \<longleftrightarrow> (\<exists>v. agg_in (items @ [g]) gv v \<and> av_Stale v \<and> e = StaleGroupVersion gv)" for gv e
    using f1 [of gv] f2 [of gv] apart [of gv] unfolding fs add by (cases "map_of gfs gv") (fastforce, metis option.inject option.simps(5))
  moreover have "list_all2 (\<lambda>g grp. ag_Name grp = gn_Name g \<and>
      ag_Versions grp = map (fresh_version str (gn_Name g)) (filter (Not \<circ> av_Stale) (gn_Versions g))) (items @ [g]) (groups1 @ [grp])"
    using IH snoc.prems G by (intro list_all2_appendI) (auto simp: comp_def)
  ultimately show ?case unfolding out(1) by blast
qed

text \<open>A group with two versions: the preferred one, which comes second, has \<open>deployments\<close>; the other has \<open>deployments\<close>, a subresource and \<open>old\<close>.\<close>

definition pref_group :: APIGroup where
  "pref_group = \<lparr>ag_Name = ''apps'', ag_Versions = [\<lparr>gd_GroupVersion = ''apps/b'', gd_Version = ''b''\<rparr>, \<lparr>gd_GroupVersion = ''apps/v1'', gd_Version = ''v1''\<rparr>],
     ag_PreferredVersion = \<lparr>gd_GroupVersion = ''apps/v1'', gd_Version = ''v1''\<rparr>\<rparr>"

definition pref_resource :: "string \<Rightarrow> APIResource" where
  "pref_resource n = no_resource\<lparr>ar_Name := n\<rparr>"

definition pref_map :: resources_map where
  "pref_map = [(\<lparr>gv_Group = ''apps'', gv_Version = ''b''\<rparr>, \<lparr>rl_GroupVersion = ''apps/b'', rl_APIResources = map pref_resource [''deploy'', ''deploy/scale'', ''old'']\<rparr>),
     (\<lparr>gv_Group = ''apps'', gv_Version = ''v1''\<rparr>, \<lparr>rl_GroupVersion = ''apps/v1'', rl_APIResources = [pref_resource ''deploy'']\<rparr>)]"

definition pref_discovery :: "(unit, unit) discovery" where
  "pref_discovery = \<lparr>di_Maybe = Some (\<lambda>s. (s, Some [pref_group], Some pref_map, Some [], None)), di_ServerGroups = (\<lambda>s. (s, Some [pref_group], None)),
     di_Resources = (\<lambda>gv s. (s, Failed None CacheNotFound)), di_Cached = None\<rparr>"

theorem preferred_resources_exact_witness:
  "\<exists>res. ServerPreferredResources (\<lambda>gv. []) (\<lambda>x. x) rev pref_discovery () = ((), Preferred (Some res) (failed_error [])) \<and>
    map rl_GroupVersion res = map (gd_GroupVersion \<circ> snd) (served pref_map (group_versions [pref_group])) \<and>
    (\<forall>i < length res. case served pref_map (group_versions [pref_group]) ! i of (g, v) \<Rightarrow>
       distinct (rl_APIResources (res ! i)) \<and>
       set (rl_APIResources (res ! i)) =
         {r \<in> set (resources_at pref_map (g, v)). \<not> contains (ar_Name r) ''/'' \<and> best_version pref_map g (ar_Name r) = Some v}) \<and>
    map_option gd_Version (best_version pref_map pref_group ''old'') = Some ''b'' \<and> map_option gd_Version (best_version pref_map pref_group ''deploy'') = Some ''v1''"
proof -
  have a: "groups_of pref_discovery () = ((), Some [pref_group], Some pref_map, Some [], None)" by (simp add: groups_of_def pref_discovery_def)
  have b: "with_resources (\<lambda>gv. []) (\<lambda>x. x) pref_discovery [pref_group] (Some pref_map) (Some []) () = ((), pref_map, [])"
    by (simp add: with_resources_def some_list_def)
  have c: "distinct (map ag_Name [pref_group])" "\<forall>g \<in> set [pref_group]. distinct (map gd_Version (ag_Versions g))" by (simp_all add: pref_group_def)
  have d: "\<forall>(gv, l) \<in> set pref_map. distinct (map ar_Name (rl_APIResources l))" by (simp add: pref_map_def pref_resource_def)
  have "map_option gd_Version (best_version pref_map pref_group ''old'') = Some ''b''"
    "map_option gd_Version (best_version pref_map pref_group ''deploy'') = Some ''v1''"
    by (simp_all add: best_version_def serves_def resources_at_def pref_map_def gv_of_def pref_group_def pref_resource_def)
  then show ?thesis using preferred_resources_exact [OF a b c d, of rev] by simp
qed

end
