(* ===== verification/CachedDiscovery.thy ===== *)
theory CachedDiscovery
  imports Discovery
begin

text \<open>
  \<open>discovery/cached/memory/memcache.go\<close> and \<open>discovery/cached/disk/cached_discovery.go\<close>: discovery clients that keep the answers of another one in memory and in files.

  A cache is a function from the methods of its delegate to methods of its own, on the pair of its state and the delegate's; so the stack that
  \<open>NewCachedDiscoveryClientForConfig\<close> builds is the composition of the definitions. Locks make every method one step. The client for OpenAPI documents that both
  caches keep is left out. The files of the disk cache are a map from names to contents with their time of modification; whether reading and writing succeeds is the
  choice of the world.

  The lemmas: a cache shows the groups and resource lists of its delegate while those do not change, so that the whole stack shows those of the server, and a read
  after \<open>Invalidate\<close> leaves the cache fresh or fails.
\<close>

section \<open>The memory cache\<close>

text \<open>The errors that are worth a second attempt, from what \<open>errors.As\<close>, \<open>APIStatus\<close> and \<open>IsTooManyRequests\<close> say of an error.\<close>

datatype errno = ECONNREFUSED | ECONNRESET | OtherErrno

record 'e transient_env =
  te_Errno :: "'e \<Rightarrow> errno option"
  te_StatusCode :: "'e \<Rightarrow> int option"
  te_IsTooManyRequests :: "'e \<Rightarrow> bool"

definition isTransientConnectionError :: "'e transient_env \<Rightarrow> 'e disc_err \<Rightarrow> bool" where
  "isTransientConnectionError t err =
     (case err of
        DErr e \<Rightarrow> (case te_Errno t e of Some errno \<Rightarrow> errno = ECONNREFUSED \<or> errno = ECONNRESET | None \<Rightarrow> False)
      | _ \<Rightarrow> False)"

definition isTransientError :: "'e transient_env \<Rightarrow> 'e disc_err \<Rightarrow> bool" where
  "isTransientError t err \<longleftrightarrow>
     isTransientConnectionError t err \<or>
     (case err of
        DErr e \<Rightarrow> (case te_StatusCode t e of Some code \<Rightarrow> code \<ge> 500 | None \<Rightarrow> False) \<or> te_IsTooManyRequests t e
      | _ \<Rightarrow> False)"

type_synonym 'e cache_entries = "(string \<times> 'e resources_out) list"

record 'e memCacheClient =
  mc_groupToServerResources :: "'e cache_entries"
  mc_groupList :: "APIGroup list option"
  mc_cacheValid :: bool
  mc_receivedAggregatedDiscovery :: bool

definition NewMemCacheClient :: "'e memCacheClient" where
  "NewMemCacheClient = \<lparr>mc_groupToServerResources = [], mc_groupList = None, mc_cacheValid = False, mc_receivedAggregatedDiscovery = False\<rparr>"

text \<open>
  The functions of \<open>schema.GroupVersion\<close>, the errors, and the orders of the goroutines and of the range over the cache.
\<close>

record 'e mem_env =
  me_String :: "GroupVersion \<Rightarrow> string"
  me_Parse :: "string \<Rightarrow> GroupVersion option"
  me_transient :: "'e transient_env"
  me_order :: "string list \<Rightarrow> string list"
  me_range :: "'e cache_entries \<Rightarrow> 'e cache_entries"

definition mc_serverResourcesForGroupVersion :: "('w, 'e) discovery \<Rightarrow> string \<Rightarrow> 'w \<Rightarrow> 'w \<times> 'e resources_out" where
  "mc_serverResourcesForGroupVersion del gv w =
     (case di_Resources del gv w of
        (w1, Failed l e) \<Rightarrow> (w1, Failed l e)
      | (w1, Got l) \<Rightarrow> (w1, if rl_APIResources l = [] then Failed (Some l) (EmptyResponse gv) else Got l))"

definition mc_fetch :: "('w, 'e) discovery \<Rightarrow> string \<Rightarrow> 'w \<times> 'e cache_entries \<Rightarrow> 'w \<times> 'e cache_entries" where
  "mc_fetch del gv = (\<lambda>(w, rl). case mc_serverResourcesForGroupVersion del gv w of (w1, out) \<Rightarrow> (w1, AList.update gv out rl))"

text \<open>The delegate returns a list of groups or an error, as \<open>DiscoveryClient\<close> does.\<close>

definition mc_refreshLocked ::
  "'e mem_env \<Rightarrow> ('w, 'e) discovery \<Rightarrow> 'e memCacheClient \<times> 'w \<Rightarrow> ('e memCacheClient \<times> 'w) \<times> 'e disc_err option" where
  "mc_refreshLocked env del = (\<lambda>(c, w).
     (case groups_of del w of
        (w1, gl, Some resources, failed, None) \<Rightarrow>
          ((c\<lparr>mc_groupToServerResources :=
                put_all (map (\<lambda>(gv, e). (me_String env gv, Failed None e)) (some_list failed)) (put_all (map (\<lambda>(gv, l). (me_String env gv, Got l)) resources) []),
              mc_groupList := gl, mc_receivedAggregatedDiscovery := True, mc_cacheValid := True\<rparr>, w1), None)
      | (w1, gl, _, _, err) \<Rightarrow>
          (if err \<noteq> None \<or> some_list gl = [] then ((c, w1), err)
           else case fold (mc_fetch del) (me_order env (map (gd_GroupVersion \<circ> snd) (group_versions (some_list gl)))) (w1, []) of
                  (w2, rl) \<Rightarrow> ((c\<lparr>mc_groupToServerResources := rl, mc_groupList := gl, mc_cacheValid := True\<rparr>, w2), None))))"

definition mc_ready ::
  "'e mem_env \<Rightarrow> ('w, 'e) discovery \<Rightarrow> 'e memCacheClient \<times> 'w \<Rightarrow> ('e memCacheClient \<times> 'w) \<times> 'e disc_err option" where
  "mc_ready env del s = (if mc_cacheValid (fst s) then (s, None) else mc_refreshLocked env del s)"

definition mc_ServerResourcesForGroupVersion ::
  "'e mem_env \<Rightarrow> ('w, 'e) discovery \<Rightarrow> string \<Rightarrow> 'e memCacheClient \<times> 'w \<Rightarrow> ('e memCacheClient \<times> 'w) \<times> 'e resources_out" where
  "mc_ServerResourcesForGroupVersion env del gv s =
     (case mc_ready env del s of
        (s1, Some e) \<Rightarrow> (s1, Failed None e)
      | ((c, w), None) \<Rightarrow>
          (case map_of (mc_groupToServerResources c) gv of
             None \<Rightarrow> ((c, w), Failed None CacheNotFound)
           | Some (Got l) \<Rightarrow> ((c, w), Got l)
           | Some (Failed l e) \<Rightarrow>
               (if isTransientError (me_transient env) e
                then case mc_serverResourcesForGroupVersion del gv w of
                       (w1, out) \<Rightarrow> ((c\<lparr>mc_groupToServerResources := AList.update gv out (mc_groupToServerResources c)\<rparr>, w1), out)
                else ((c, w), Failed l e))))"

fun mc_collect :: "(string \<Rightarrow> GroupVersion option) \<Rightarrow> 'e cache_entries \<Rightarrow> resources_map \<Rightarrow> 'e failures \<Rightarrow> 'e disc_err + resources_map \<times> 'e failures" where
  "mc_collect parse [] rs fs = Inr (rs, fs)"
| "mc_collect parse ((gv, out) # es) rs fs =
     (case parse gv of
        None \<Rightarrow> Inl (BadGroupVersion gv)
      | Some p \<Rightarrow>
          (case out of
             Failed l e \<Rightarrow> mc_collect parse es rs (AList.update p e fs)
           | Got l \<Rightarrow> mc_collect parse es (AList.update p l rs) fs))"

definition mc_GroupsAndMaybeResources ::
  "'e mem_env \<Rightarrow> ('w, 'e) discovery \<Rightarrow> 'e memCacheClient \<times> 'w \<Rightarrow> ('e memCacheClient \<times> 'w) \<times> 'e groups_out" where
  "mc_GroupsAndMaybeResources env del s =
     (case mc_ready env del s of
        (s1, Some e) \<Rightarrow> (s1, None, None, None, Some e)
      | ((c, w), None) \<Rightarrow>
          (if mc_receivedAggregatedDiscovery c \<and> mc_groupToServerResources c \<noteq> []
           then case mc_collect (me_Parse env) (me_range env (mc_groupToServerResources c)) [] [] of
                  Inl e \<Rightarrow> ((c, w), None, None, None, Some e)
                | Inr (rs, fs) \<Rightarrow> ((c, w), mc_groupList c, Some rs, Some fs, None)
           else ((c, w), mc_groupList c, None, None, None)))"

definition mc_ServerGroups ::
  "'e mem_env \<Rightarrow> ('w, 'e) discovery \<Rightarrow> 'e memCacheClient \<times> 'w \<Rightarrow> ('e memCacheClient \<times> 'w) \<times> APIGroup list option \<times> 'e disc_err option" where
  "mc_ServerGroups env del s =
     (case mc_GroupsAndMaybeResources env del s of
        (s1, _, _, _, Some e) \<Rightarrow> (s1, None, Some e)
      | (s1, groups, _, _, None) \<Rightarrow> (s1, groups, None))"

definition mc_Fresh :: "'e memCacheClient \<times> 'w \<Rightarrow> bool" where
  "mc_Fresh s = mc_cacheValid (fst s)"

definition invalidate_delegate :: "('w, 'e) discovery \<Rightarrow> 'w \<Rightarrow> 'w" where
  "invalidate_delegate del w = (case di_Cached del of Some (_, invalidate) \<Rightarrow> invalidate w | None \<Rightarrow> w)"

definition mc_Invalidate :: "('w, 'e) discovery \<Rightarrow> 'e memCacheClient \<times> 'w \<Rightarrow> 'e memCacheClient \<times> 'w" where
  "mc_Invalidate del = (\<lambda>(c, w).
     (c\<lparr>mc_cacheValid := False, mc_groupToServerResources := [], mc_groupList := None, mc_receivedAggregatedDiscovery := False\<rparr>,
      invalidate_delegate del w))"

definition mc_discovery :: "'e mem_env \<Rightarrow> ('w, 'e) discovery \<Rightarrow> ('e memCacheClient \<times> 'w, 'e) discovery" where
  "mc_discovery env del =
     \<lparr>di_Maybe = Some (mc_GroupsAndMaybeResources env del), di_ServerGroups = mc_ServerGroups env del,
      di_Resources = mc_ServerResourcesForGroupVersion env del, di_Cached = Some (mc_Fresh, mc_Invalidate del)\<rparr>"

section \<open>The disk cache\<close>

text \<open>
  A file is its content with the time of its last modification. \<open>da_readable\<close> is whether opening and reading a file succeeds, \<open>da_writable\<close> whether the temporary file
  can be made, written and renamed; \<open>encode\<close> and \<open>decode\<close> are those of the scheme's codecs.
\<close>

record 'c disk =
  dk_files :: "string \<Rightarrow> ('c \<times> int) option"
  dk_ourFiles :: "string set"
  dk_invalidated :: bool
  dk_fresh :: bool

record ('w, 'c) disk_env =
  da_cacheDirectory :: string
  da_ttl :: int
  da_Now :: "'w \<Rightarrow> int"
  da_readable :: "string \<Rightarrow> 'w \<Rightarrow> bool"
  da_writable :: "string \<Rightarrow> 'w \<Rightarrow> bool"
  da_encodeGroups :: "APIGroup list \<Rightarrow> 'c option"
  da_decodeGroups :: "'c \<Rightarrow> APIGroup list option"
  da_encodeResources :: "APIResourceList \<Rightarrow> 'c option"
  da_decodeResources :: "'c \<Rightarrow> APIResourceList option"

definition newCachedDiscoveryClient :: "(string \<Rightarrow> ('c \<times> int) option) \<Rightarrow> 'c disk" where
  "newCachedDiscoveryClient files = \<lparr>dk_files = files, dk_ourFiles = {}, dk_invalidated = False, dk_fresh = True\<rparr>"

definition getCachedFile :: "('w, 'c) disk_env \<Rightarrow> string \<Rightarrow> 'c disk \<times> 'w \<Rightarrow> ('c disk \<times> 'w) \<times> 'c option" where
  "getCachedFile env filename = (\<lambda>(c, w).
     (if dk_invalidated c \<and> filename \<notin> dk_ourFiles c then ((c, w), None)
      else case dk_files c filename of
             None \<Rightarrow> ((c, w), None)
           | Some (content, modTime) \<Rightarrow>
               (if \<not> da_readable env filename w then ((c, w), None)
                else if da_Now env w > modTime + da_ttl env then ((c, w), None)
                else ((c\<lparr>dk_fresh := dk_fresh c \<and> filename \<in> dk_ourFiles c\<rparr>, w), Some content))))"

definition writeCachedFile :: "('w, 'c) disk_env \<Rightarrow> string \<Rightarrow> 'c option \<Rightarrow> 'c disk \<times> 'w \<Rightarrow> 'c disk \<times> 'w" where
  "writeCachedFile env filename encoded = (\<lambda>(c, w).
     (case encoded of
        None \<Rightarrow> (c, w)
      | Some content \<Rightarrow>
          (if da_writable env filename w
           then (c\<lparr>dk_files := (dk_files c)(filename \<mapsto> (content, da_Now env w)), dk_ourFiles := insert filename (dk_ourFiles c)\<rparr>, w)
           else (c, w))))"

definition resources_file :: "('w, 'c) disk_env \<Rightarrow> string \<Rightarrow> string" where
  "resources_file env gv = path_Join [da_cacheDirectory env, gv, ''serverresources.json'']"

definition groups_file :: "('w, 'c) disk_env \<Rightarrow> string" where
  "groups_file env = path_Join [da_cacheDirectory env, ''servergroups.json'']"

definition disk_ServerResourcesForGroupVersion ::
  "('w, 'c) disk_env \<Rightarrow> ('w, 'e) discovery \<Rightarrow> string \<Rightarrow> 'c disk \<times> 'w \<Rightarrow> ('c disk \<times> 'w) \<times> 'e resources_out" where
  "disk_ServerResourcesForGroupVersion env del gv s =
     (case getCachedFile env (resources_file env gv) s of
        ((c, w), content) \<Rightarrow>
          (case Option.bind content (da_decodeResources env) of
             Some l \<Rightarrow> ((c, w), Got l)
           | None \<Rightarrow>
               (case di_Resources del gv w of
                  (w1, Failed l e) \<Rightarrow> ((c, w1), Failed l e)
                | (w1, Got l) \<Rightarrow>
                    (if rl_APIResources l = [] then ((c, w1), Got l)
                     else (writeCachedFile env (resources_file env gv) (da_encodeResources env l) (c, w1), Got l)))))"

definition disk_ServerGroups ::
  "('w, 'c) disk_env \<Rightarrow> ('w, 'e) discovery \<Rightarrow> 'c disk \<times> 'w \<Rightarrow> ('c disk \<times> 'w) \<times> APIGroup list option \<times> 'e disc_err option" where
  "disk_ServerGroups env del s =
     (case getCachedFile env (groups_file env) s of
        ((c, w), content) \<Rightarrow>
          (case Option.bind content (da_decodeGroups env) of
             Some gl \<Rightarrow> ((c, w), Some gl, None)
           | None \<Rightarrow>
               (case di_ServerGroups del w of
                  (w1, gl, Some e) \<Rightarrow> ((c, w1), gl, Some e)
                | (w1, gl, None) \<Rightarrow>
                    (if some_list gl = [] then ((c, w1), gl, None)
                     else (writeCachedFile env (groups_file env) (da_encodeGroups env (some_list gl)) (c, w1), gl, None)))))"

definition disk_Fresh :: "'c disk \<times> 'w \<Rightarrow> bool" where
  "disk_Fresh s = dk_fresh (fst s)"

definition disk_Invalidate :: "('w, 'e) discovery \<Rightarrow> 'c disk \<times> 'w \<Rightarrow> 'c disk \<times> 'w" where
  "disk_Invalidate del = (\<lambda>(c, w). (c\<lparr>dk_ourFiles := {}, dk_fresh := True, dk_invalidated := True\<rparr>, invalidate_delegate del w))"

definition disk_discovery :: "('w, 'c) disk_env \<Rightarrow> ('w, 'e) discovery \<Rightarrow> ('c disk \<times> 'w, 'e) discovery" where
  "disk_discovery env del =
     \<lparr>di_Maybe = None, di_ServerGroups = disk_ServerGroups env del, di_Resources = disk_ServerResourcesForGroupVersion env del,
      di_Cached = Some (disk_Fresh, disk_Invalidate del)\<rparr>"

text \<open>The stack of \<open>NewCachedDiscoveryClientForConfig\<close>.\<close>

definition cached_stack ::
  "('e memCacheClient \<times> 'w, 'c) disk_env \<Rightarrow> 'e mem_env \<Rightarrow> ('w, 'b, 'e) discovery_rest \<Rightarrow> ('c disk \<times> 'e memCacheClient \<times> 'w, 'e) discovery" where
  "cached_stack denv menv r = disk_discovery denv (mc_discovery menv (client_discovery r NewDiscoveryClient))"

section \<open>A client whose answers do not change\<close>

definition out_list :: "'e resources_out \<Rightarrow> APIResourceList option" where
  "out_list out = (case out of Got l \<Rightarrow> Some l | Failed l e \<Rightarrow> l)"

lemma out_list_simps [simp]: "out_list (Got l) = Some l" "out_list (Failed fl e) = fl"
  by (simp_all add: out_list_def)

definition gv_names :: "APIGroup list \<Rightarrow> string set" where
  "gv_names gl = (gd_GroupVersion \<circ> snd) ` set (group_versions gl)"

text \<open>What may be said of the resources that come with the groups: they are those of the versions of the groups, and failures are of other versions.\<close>

definition aggregate_of ::
  "(GroupVersion \<Rightarrow> string) \<Rightarrow> (string \<Rightarrow> GroupVersion option) \<Rightarrow> APIGroup list \<Rightarrow> (string \<Rightarrow> APIResourceList option) \<Rightarrow> resources_map \<Rightarrow> 'e failures \<Rightarrow> bool" where
  "aggregate_of str parse gl lof m fs \<longleftrightarrow>
     distinct (map fst m) \<and>
     (\<forall>gv l. map_of m gv = Some l \<longleftrightarrow> (\<exists>p \<in> set (group_versions gl). gv = gv_of p \<and> lof (gd_GroupVersion (snd p)) = Some l)) \<and>
     (\<forall>gv \<in> fst ` set fs. parse (str gv) = Some gv \<and> (\<forall>p \<in> set (group_versions gl). gv \<noteq> gv_of p)) \<and> distinct (map fst fs)"

text \<open>
  The contract: in the states \<open>I\<close>, which the calls do not leave, the client answers with the groups \<open>gl\<close> and for a version of them with the list \<open>lof\<close> gives, if any.
\<close>

locale steady_discovery =
  fixes str :: "GroupVersion \<Rightarrow> string" and parse :: "string \<Rightarrow> GroupVersion option"
    and d :: "('s, 'e) discovery" and I :: "'s \<Rightarrow> bool" and gl :: "APIGroup list" and lof :: "string \<Rightarrow> APIResourceList option"
  assumes names: "I s \<Longrightarrow> p \<in> set (group_versions gl) \<Longrightarrow> str (gv_of p) = gd_GroupVersion (snd p) \<and> parse (str (gv_of p)) = Some (gv_of p)"
    and groups: "I s \<Longrightarrow> di_ServerGroups d s = (s1, groups, err) \<Longrightarrow> I s1 \<and> groups = Some gl \<and> err = None"
    and maybe: "I s \<Longrightarrow> di_Maybe d = Some f \<Longrightarrow> f s = (s1, groups, rs, fs, err) \<Longrightarrow>
        I s1 \<and> groups = Some gl \<and> err = None \<and> (\<forall>m. rs = Some m \<longrightarrow> aggregate_of str parse gl lof m (some_list fs))"
    and resources: "I s \<Longrightarrow> gv \<in> gv_names gl \<Longrightarrow> di_Resources d gv s = (s1, out) \<Longrightarrow> I s1 \<and> out_list out = lof gv"
    and invalidate: "I s \<Longrightarrow> I (invalidate_delegate d s)"
begin

lemma groups_of_steady:
  "I s \<Longrightarrow> groups_of d s = (s1, groups, rs, fs, err) \<Longrightarrow>
     I s1 \<and> groups = Some gl \<and> err = None \<and> (\<forall>m. rs = Some m \<longrightarrow> aggregate_of str parse gl lof m (some_list fs))"
proof (cases "di_Maybe d")
  case None
  obtain s2 g e where "di_ServerGroups d s = (s2, g, e)" by (metis prod.exhaust)
  moreover assume "I s" "groups_of d s = (s1, groups, rs, fs, err)"
  ultimately show ?thesis using groups None by (simp add: groups_of_def)
next
  case (Some f)
  assume "I s" "groups_of d s = (s1, groups, rs, fs, err)"
  then show ?thesis using maybe [OF _ Some] Some by (simp add: groups_of_def)
qed

lemma fetch_steady:
  assumes "I s" and "set gvs \<subseteq> gv_of ` set (group_versions gl)" and "fold (fetch_one str d) gvs (s, rs0, fs0) = (s1, rs, fs)"
  shows "I s1 \<and> (\<forall>gv. map_of rs gv = (if gv \<in> set gvs \<and> lof (str gv) \<noteq> None then lof (str gv) else map_of rs0 gv))"
  using assms
proof (induction gvs arbitrary: s rs0 fs0)
  case (Cons gv gvs)
  obtain s2 out where out: "di_Resources d (str gv) s = (s2, out)" by (metis prod.exhaust)
  obtain p where p: "p \<in> set (group_versions gl)" "gv = gv_of p" using Cons.prems(2) by auto
  have "str gv \<in> gv_names gl" using names [OF Cons.prems(1) p(1)] p by (auto simp: gv_names_def)
  from resources [OF Cons.prems(1) this out] have s2: "I s2" "out_list out = lof (str gv)" by auto
  obtain rs2 fs2 where step: "fetch_one str d gv (s, rs0, fs0) = (s2, rs2, fs2)"
    and rs2: "map_of rs2 k = (if k = gv \<and> lof (str gv) \<noteq> None then lof (str gv) else map_of rs0 k)" for k
  proof -
    show ?thesis
      by (rule that [of "case out_list out of Some l \<Rightarrow> AList.update gv l rs0 | None \<Rightarrow> rs0" "case out of Got l \<Rightarrow> fs0 | Failed l e \<Rightarrow> AList.update gv e fs0"])
        (use out s2(2) in \<open>auto simp: fetch_one_def update_conv' split: resources_out.splits option.splits\<close>)
  qed
  have "I s1 \<and> (\<forall>k. map_of rs k = (if k \<in> set gvs \<and> lof (str k) \<noteq> None then lof (str k) else map_of rs2 k))"
    using Cons.IH [OF s2(1)] Cons.prems(2,3) step by simp
  then show ?case by (auto simp: rs2)
qed simp

lemma all_steady:
  assumes I: "I s" and order: "\<And>gvs. mset (order gvs) = mset gvs" and rorder: "\<And>m. mset (rorder m) = mset m"
    and out: "ServerGroupsAndResources str order rorder d s = (s1, groups, rs, err)"
  shows "I s1 \<and> groups = Some gl \<and> (\<exists>ls. rs = Some ls \<and> set ls = {l. \<exists>gv \<in> gv_names gl. lof gv = Some l})"
proof -
  obtain s2 gl2 rs2 fs2 err2 where g: "groups_of d s = (s2, gl2, rs2, fs2, err2)" by (metis prod.exhaust)
  note G = groups_of_steady [OF I g]
  have named: "str (gv_of p) = gd_GroupVersion (snd p)" if "p \<in> set (group_versions gl)" for p using names [OF I that] by simp
  show ?thesis
  proof (cases "rorder (some_list rs2) = []")
    case False
    then obtain m where m: "rs2 = Some m" using rorder by (cases rs2) (auto simp: some_list_def, metis mset_zero_iff)
    have "aggregate_of str parse gl lof m (some_list fs2)" using G m by blast
    moreover have "set (rorder m) = set m" using rorder by (metis set_mset_mset)
    ultimately have "set (map snd (rorder m)) = {l. \<exists>gv \<in> gv_names gl. lof gv = Some l}"
      by (force simp: aggregate_of_def gv_names_def image_iff Bex_def)
    then show ?thesis using out g G m False by (auto simp: ServerGroupsAndResources_def some_list_def)
  next
    case True
    obtain s3 gvr fs3 where f: "fetchGroupVersionResources str order d gl s2 = (s3, gvr, fs3)" by (metis prod.exhaust)
    let ?gvs = "map gv_of (group_versions gl)"
    have set: "set (order ?gvs) = gv_of ` set (group_versions gl)" using order [of ?gvs] by (metis set_map set_mset_mset)
    have F: "I s3" "\<And>gv. map_of gvr gv = (if gv \<in> set (order ?gvs) \<and> lof (str gv) \<noteq> None then lof (str gv) else None)"
      using fetch_steady [of s2 "order ?gvs" "[]" "[]"] G f set by (auto simp: fetchGroupVersionResources_def)
    have "map_of gvr (gv_of p) = lof (gd_GroupVersion (snd p))" if "p \<in> set (group_versions gl)" for p
      using that by (simp add: F set named)
    then have "set (pick_resources gl gvr) = {l. \<exists>gv \<in> gv_names gl. lof gv = Some l}"
      by (force simp: pick_resources_def gv_names_def split: option.splits)
    then show ?thesis using out g G f F True by (auto simp: ServerGroupsAndResources_def)
  qed
qed

end

text \<open>The client, when the server's answers stay the same and leave the world as it is.\<close>

definition client_steady ::
  "(GroupVersion \<Rightarrow> string) \<Rightarrow> (string \<Rightarrow> GroupVersion option) \<Rightarrow> ('w, 'b, 'e) discovery_rest \<Rightarrow> DiscoveryClient \<Rightarrow> 'w \<Rightarrow> APIGroup list \<Rightarrow> (string \<Rightarrow> APIResourceList option) \<Rightarrow>
     'w \<Rightarrow> bool" where
  "client_steady str parse r c w0 gl lof w \<longleftrightarrow>
     w = w0 \<and>
     (\<forall>p \<in> set (group_versions gl). str (gv_of p) = gd_GroupVersion (snd p) \<and> parse (str (gv_of p)) = Some (gv_of p)) \<and>
     (\<exists>rs fs. GroupsAndMaybeResources r c w0 = (w0, Some gl, rs, Some fs, None) \<and> (\<forall>m. rs = Some m \<longrightarrow> aggregate_of str parse gl lof m fs)) \<and>
     (\<forall>gv \<in> gv_names gl. \<exists>out. client_ServerResourcesForGroupVersion r c gv w0 = (w0, out) \<and> out_list out = lof gv)"

interpretation cl: steady_discovery str parse "client_discovery r c" "client_steady str parse r c w0 gl lof" gl lof
proof
  show "client_steady str parse r c w0 gl lof s \<Longrightarrow> client_steady str parse r c w0 gl lof (invalidate_delegate (client_discovery r c) s)" for s
    by (simp add: invalidate_delegate_def client_discovery_def)
qed (auto simp: client_steady_def client_discovery_def client_ServerGroups_def some_list_def)

subsection \<open>The memory cache shows what its delegate shows\<close>

definition mem_env_ok :: "'e mem_env \<Rightarrow> (GroupVersion \<Rightarrow> string) \<Rightarrow> (string \<Rightarrow> GroupVersion option) \<Rightarrow> bool" where
  "mem_env_ok env str parse \<longleftrightarrow>
     me_String env = str \<and> me_Parse env = parse \<and> (\<forall>xs. mset (me_order env xs) = mset xs) \<and> (\<forall>es. mset (me_range env es) = mset es)"

definition entry_ok ::
  "(GroupVersion \<Rightarrow> string) \<Rightarrow> (string \<Rightarrow> GroupVersion option) \<Rightarrow> APIGroup list \<Rightarrow> (string \<Rightarrow> APIResourceList option) \<Rightarrow> string \<times> 'e resources_out \<Rightarrow> bool" where
  "entry_ok str parse gl lof e \<longleftrightarrow>
     (\<exists>p l. p \<in> set (group_versions gl) \<and> e = (str (gv_of p), Got l) \<and> lof (gd_GroupVersion (snd p)) = Some l) \<or>
     (\<exists>gv err. e = (str gv, Failed None err) \<and> parse (str gv) = Some gv \<and> (\<forall>p \<in> set (group_versions gl). gv \<noteq> gv_of p))"

definition cache_shows :: "APIGroup list \<Rightarrow> (string \<Rightarrow> APIResourceList option) \<Rightarrow> 'e cache_entries \<Rightarrow> bool" where
  "cache_shows gl lof es \<longleftrightarrow>
     (\<forall>gv \<in> gv_names gl. case map_of es gv of None \<Rightarrow> lof gv = None | Some out \<Rightarrow> out_list out = lof gv)"

definition mc_steady ::
  "(GroupVersion \<Rightarrow> string) \<Rightarrow> (string \<Rightarrow> GroupVersion option) \<Rightarrow> 'e mem_env \<Rightarrow> ('w, 'e) discovery \<Rightarrow> ('w \<Rightarrow> bool) \<Rightarrow> APIGroup list \<Rightarrow> (string \<Rightarrow> APIResourceList option) \<Rightarrow>
     'e memCacheClient \<times> 'w \<Rightarrow> bool" where
  "mc_steady str parse env del J gl lof = (\<lambda>(c, w).
     steady_discovery str parse del J gl lof \<and> mem_env_ok env str parse \<and> gl \<noteq> [] \<and> J w \<and>
     (mc_cacheValid c \<longrightarrow> mc_groupList c = Some gl \<and> cache_shows gl lof (mc_groupToServerResources c)) \<and>
     (mc_receivedAggregatedDiscovery c \<longrightarrow> mc_cacheValid c \<and> distinct (map fst (mc_groupToServerResources c)) \<and>
        (\<forall>e \<in> set (mc_groupToServerResources c). entry_ok str parse gl lof e)))"

lemma mc_collect_distinct:
  "mc_collect parse es rs0 fs0 = Inr (rs, fs) \<Longrightarrow> distinct (map fst rs0) \<Longrightarrow> distinct (map fst fs0) \<Longrightarrow> distinct (map fst rs) \<and> distinct (map fst fs)"
  by (induction parse es rs0 fs0 rule: mc_collect.induct) (auto simp: distinct_update split: option.splits resources_out.splits)

lemma mc_collect_exact:
  assumes "\<forall>e \<in> set es. entry_ok str parse gl lof e" and "distinct (map fst es)"
    and names: "\<And>p. p \<in> set (group_versions gl) \<Longrightarrow> parse (str (gv_of p)) = Some (gv_of p)"
  shows "\<exists>rs fs. mc_collect parse es rs0 fs0 = Inr (rs, fs) \<and>
    (\<forall>gv l. map_of rs gv = Some l \<longleftrightarrow> (str gv, Got l) \<in> set es \<and> parse (str gv) = Some gv \<or> map_of rs0 gv = Some l \<and> \<not> (\<exists>l. (str gv, Got l) \<in> set es \<and> parse (str gv) = Some gv)) \<and>
    (\<forall>gv \<in> fst ` set fs. gv \<in> fst ` set fs0 \<or> (parse (str gv) = Some gv \<and> (\<forall>p \<in> set (group_versions gl). gv \<noteq> gv_of p)))"
  using assms(1,2)
proof (induction es arbitrary: rs0 fs0)
  case (Cons e es)
  obtain k out where e: "e = (k, out)" by (cases e)
  have "entry_ok str parse gl lof (k, out)" using Cons.prems(1) e by simp
  then consider (got) p l where "p \<in> set (group_versions gl)" "k = str (gv_of p)" "out = Got l"
    | (failed) gv err where "k = str gv" "out = Failed None err" "parse (str gv) = Some gv" "\<forall>p \<in> set (group_versions gl). gv \<noteq> gv_of p"
    by (auto simp: entry_ok_def)
  then show ?case
  proof cases
    case got
    note parse_k = names [OF got(1)]
    have new: "(k, y) \<notin> set es" for y using Cons.prems(2) e by force
    obtain rs fs where IH: "mc_collect parse es (AList.update (gv_of p) l rs0) fs0 = Inr (rs, fs)"
      "\<forall>gv m. map_of rs gv = Some m \<longleftrightarrow> (str gv, Got m) \<in> set es \<and> parse (str gv) = Some gv \<or>
         map_of (AList.update (gv_of p) l rs0) gv = Some m \<and> \<not> (\<exists>l. (str gv, Got l) \<in> set es \<and> parse (str gv) = Some gv)"
      "\<forall>gv \<in> fst ` set fs. gv \<in> fst ` set fs0 \<or> (parse (str gv) = Some gv \<and> (\<forall>p \<in> set (group_versions gl). gv \<noteq> gv_of p))"
      using Cons.IH [of "AList.update (gv_of p) l rs0" fs0] Cons.prems by auto
    have "map_of rs gv = Some m \<longleftrightarrow> (str gv, Got m) \<in> set (e # es) \<and> parse (str gv) = Some gv \<or>
        map_of rs0 gv = Some m \<and> \<not> (\<exists>l. (str gv, Got l) \<in> set (e # es) \<and> parse (str gv) = Some gv)" for gv m
    proof (cases "gv = gv_of p")
      case True
      then show ?thesis using IH(2) got parse_k new by (auto simp: e update_conv')
    next
      case False
      then have "\<not> (str gv = k \<and> parse (str gv) = Some gv)" using parse_k got(2) by auto
      then show ?thesis using IH(2) False by (auto simp: e update_conv')
    qed
    then show ?thesis using IH got by (intro exI [of _ rs] exI [of _ fs]) (simp add: e parse_k)
  next
    case failed
    from Cons.IH [of rs0 "AList.update gv err fs0"] Cons.prems obtain rs fs where IH: "mc_collect parse es rs0 (AList.update gv err fs0) = Inr (rs, fs)"
      "\<forall>gv m. map_of rs gv = Some m \<longleftrightarrow> (str gv, Got m) \<in> set es \<and> parse (str gv) = Some gv \<or>
         map_of rs0 gv = Some m \<and> \<not> (\<exists>l. (str gv, Got l) \<in> set es \<and> parse (str gv) = Some gv)"
      "\<forall>g \<in> fst ` set fs. g \<in> fst ` set (AList.update gv err fs0) \<or> (parse (str g) = Some g \<and> (\<forall>p \<in> set (group_versions gl). g \<noteq> gv_of p))"
      by auto
    moreover have "fst ` set (AList.update gv err fs0) = insert gv (fst ` set fs0)" by (metis dom_map_of_conv_image_fst dom_fun_upd option.distinct(1) update_conv')
    ultimately show ?thesis using failed by (intro exI [of _ rs] exI [of _ fs]) (auto simp: e)
  qed
qed simp

context steady_discovery
begin

lemma mc_server_steady:
  assumes "I w" and "gv \<in> gv_names gl" and "mc_serverResourcesForGroupVersion d gv w = (w1, out)"
  shows "I w1 \<and> out_list out = lof gv"
proof -
  obtain w2 res where res: "di_Resources d gv w = (w2, res)" by (metis prod.exhaust)
  then show ?thesis using resources [OF assms(1,2) res] assms(3)
    by (cases res) (auto simp: mc_serverResourcesForGroupVersion_def split: if_splits)
qed

lemma mc_fetch_steady:
  assumes "I w" and "set gvs \<subseteq> gv_names gl" and "fold (mc_fetch d) gvs (w, es0) = (w1, es)"
  shows "I w1 \<and> (\<forall>gv. if gv \<in> set gvs then \<exists>out. map_of es gv = Some out \<and> out_list out = lof gv else map_of es gv = map_of es0 gv)"
  using assms
proof (induction gvs arbitrary: w es0)
  case (Cons gv gvs)
  obtain w2 out where out: "mc_serverResourcesForGroupVersion d gv w = (w2, out)" by (metis prod.exhaust)
  have w2: "I w2" "out_list out = lof gv" using mc_server_steady [OF Cons.prems(1) _ out] Cons.prems(2) by auto
  have "mc_fetch d gv (w, es0) = (w2, AList.update gv out es0)" using out by (simp add: mc_fetch_def)
  then have "fold (mc_fetch d) gvs (w2, AList.update gv out es0) = (w1, es)" using Cons.prems(3) by simp
  from Cons.IH [OF w2(1) _ this] Cons.prems(2) have
    "I w1 \<and> (\<forall>k. if k \<in> set gvs then \<exists>out. map_of es k = Some out \<and> out_list out = lof k else map_of es k = map_of (AList.update gv out es0) k)"
    by simp
  then show ?case using w2(2) by (auto simp: update_conv' split: if_splits)
qed simp

text \<open>A refresh fills an empty cache with what the client shows.\<close>

lemma aggregate_entries:
  fixes fs :: "'e failures"
  assumes I: "I s" and agg: "aggregate_of str parse gl lof m fs"
    and es: "es = put_all (map (\<lambda>(gv, e). (str gv, Failed None e)) fs) (put_all (map (\<lambda>(gv, l). (str gv, Got l)) m) [])"
  shows "distinct (map fst es) \<and> (\<forall>e \<in> set es. entry_ok str parse gl lof e) \<and> cache_shows gl lof es"
proof -
  let ?got = "map (\<lambda>(gv, l). (str gv, Got l)) m :: (string \<times> 'e resources_out) list"
  let ?bad = "map (\<lambda>(gv, e). (str gv, Failed None e)) fs"
  note names' = names [OF I]
  have m: "\<exists>p \<in> set (group_versions gl). gv = gv_of p \<and> lof (gd_GroupVersion (snd p)) = Some l" if "(gv, l) \<in> set m" for gv l
  proof -
    have "map_of m gv = Some l" using that agg unfolding aggregate_of_def by (blast intro: map_of_is_SomeI)
    then show ?thesis using agg unfolding aggregate_of_def by blast
  qed
  have fs: "parse (str gv) = Some gv \<and> (\<forall>p \<in> set (group_versions gl). gv \<noteq> gv_of p)" if "(gv, e) \<in> set fs" for gv e
    using that agg by (force simp: aggregate_of_def)
  have "inj_on str (fst ` set m)" using m names' by (intro inj_onI) (metis (no_types, lifting) imageE option.inject prod.collapse)
  then have dg: "distinct (map fst ?got)"
    using agg by (simp add: aggregate_of_def distinct_map comp_def case_prod_beta inj_on_def)
  have "inj_on str (fst ` set fs)" using fs by (intro inj_onI) (metis (no_types, lifting) imageE option.inject prod.collapse)
  then have db: "distinct (map fst ?bad)"
    using agg by (simp add: aggregate_of_def distinct_map comp_def case_prod_beta inj_on_def)
  have map_es: "map_of es = map_of ?got ++ map_of ?bad" using dg db by (simp add: es put_all_conv)
  have des: "distinct (map fst es)" unfolding es by (intro put_all_distinct) simp
  have apart: "str gv \<noteq> gd_GroupVersion (snd p)" if "(gv, e) \<in> set fs" "p \<in> set (group_versions gl)" for gv e p
    using fs [OF that(1)] names' [OF that(2)] that(2) by (metis option.inject)
  have "entry_ok str parse gl lof e" if "e \<in> set es" for e
  proof -
    obtain k out where e: "e = (k, out)" by (cases e)
    then have "map_of es k = Some out" using des that by simp
    then have "(k, out) \<in> set ?got \<or> (k, out) \<in> set ?bad" unfolding map_es by (auto simp: map_add_Some_iff dest: map_of_SomeD)
    then show ?thesis using m fs unfolding e entry_ok_def by fastforce
  qed
  moreover have "case map_of es gv of None \<Rightarrow> lof gv = None | Some out \<Rightarrow> out_list out = lof gv" if known: "gv \<in> gv_names gl" for gv
  proof -
    obtain p where p: "p \<in> set (group_versions gl)" "gv = gd_GroupVersion (snd p)" using known by (auto simp: gv_names_def)
    have "gv \<notin> fst ` set ?bad"
    proof
      assume "gv \<in> fst ` set ?bad"
      then obtain g e where "(g, e) \<in> set fs" "gv = str g" by auto
      then show False using apart [of g e p] p by simp
    qed
    then have "map_of ?bad gv = None" by (simp add: map_of_eq_None_iff)
    then have here: "map_of es gv = map_of ?got gv" by (simp add: map_es map_add_def)
    show ?thesis
    proof (cases "lof gv")
      case None
      have "gv \<notin> fst ` set ?got"
      proof
        assume "gv \<in> fst ` set ?got"
        then obtain g l where g: "(g, l) \<in> set m" "gv = str g" by auto
        then obtain q where "q \<in> set (group_versions gl)" "g = gv_of q" "lof (gd_GroupVersion (snd q)) = Some l" using m by blast
        then show False using g names' None by auto
      qed
      then have "map_of ?got gv = None" by (simp add: map_of_eq_None_iff)
      then show ?thesis using here None by simp
    next
      case (Some l)
      then have "(gv_of p, l) \<in> set m" using agg p by (auto simp: aggregate_of_def dest: map_of_SomeD)
      then have "(gv, Got l) \<in> set ?got" using names' [OF p(1)] p(2) by force
      then show ?thesis using here dg Some by (simp add: map_of_is_SomeI)
    qed
  qed
  ultimately show ?thesis using des by (simp add: cache_shows_def)
qed

end

lemma mc_ready_steady:
  assumes ok: "mc_steady str parse env del J gl lof s" and out: "mc_ready env del s = (s1, err)"
  shows "err = None \<and> mc_steady str parse env del J gl lof s1 \<and> mc_cacheValid (fst s1)"
proof (cases "mc_cacheValid (fst s)")
  case True
  then show ?thesis using assms by (simp add: mc_ready_def)
next
  case False
  obtain c w where s: "s = (c, w)" by (cases s)
  have st: "steady_discovery str parse del J gl lof" and env: "mem_env_ok env str parse" and J: "J w" and ne: "gl \<noteq> []"
    and not_received: "\<not> mc_receivedAggregatedDiscovery c"
    using ok False by (auto simp: s mc_steady_def)
  obtain w1 groups rs fs err1 where g: "groups_of del w = (w1, groups, rs, fs, err1)" by (metis prod.exhaust)
  note G = steady_discovery.groups_of_steady [OF st J g]
  have ref: "mc_refreshLocked env del (c, w) = (s1, err)" using out False by (simp add: mc_ready_def s)
  show ?thesis
  proof (cases rs)
    case (Some m)
    let ?es = "put_all (map (\<lambda>(gv, e). (str gv, Failed None e)) (some_list fs)) (put_all (map (\<lambda>(gv, l). (str gv, Got l)) m) [])"
    have "distinct (map fst ?es) \<and> (\<forall>e \<in> set ?es. entry_ok str parse gl lof e) \<and> cache_shows gl lof ?es"
      using steady_discovery.aggregate_entries [OF st J _ refl, of m "some_list fs"] G Some by blast
    moreover have "s1 = (c\<lparr>mc_groupToServerResources := ?es, mc_groupList := Some gl, mc_receivedAggregatedDiscovery := True, mc_cacheValid := True\<rparr>, w1)" "err = None"
      using ref g G Some env by (simp_all add: mc_refreshLocked_def mem_env_ok_def)
    ultimately show ?thesis using G st env ne by (simp add: mc_steady_def)
  next
    case None
    let ?gvs = "me_order env (map (gd_GroupVersion \<circ> snd) (group_versions gl))"
    obtain w2 es where f: "fold (mc_fetch del) ?gvs (w1, []) = (w2, es)" by (metis prod.exhaust)
    have gvs: "set ?gvs = gv_names gl" using env by (metis gv_names_def mem_env_ok_def set_map set_mset_mset)
    have F: "J w2 \<and> (\<forall>gv. if gv \<in> set ?gvs then \<exists>out. map_of es gv = Some out \<and> out_list out = lof gv else map_of es gv = map_of [] gv)"
      using steady_discovery.mc_fetch_steady [OF st _ _ f] G gvs by blast
    then have "\<exists>out. map_of es gv = Some out \<and> out_list out = lof gv" if "gv \<in> gv_names gl" for gv using that gvs by (metis (full_types))
    then have "cache_shows gl lof es" by (fastforce simp: cache_shows_def)
    moreover have "s1 = (c\<lparr>mc_groupToServerResources := es, mc_groupList := Some gl, mc_cacheValid := True\<rparr>, w2)" "err = None"
      using ref g G None ne f by (simp_all add: mc_refreshLocked_def some_list_def)
    ultimately show ?thesis using F st env ne not_received by (simp add: mc_steady_def)
  qed
qed

lemma mc_resources_steady:
  assumes ok: "mc_steady str parse env del J gl lof s" and gv: "gv \<in> gv_names gl" and out: "mc_ServerResourcesForGroupVersion env del gv s = (s1, res)"
  shows "mc_steady str parse env del J gl lof s1 \<and> out_list res = lof gv"
proof -
  obtain c w err where r: "mc_ready env del s = ((c, w), err)" by (metis prod.exhaust)
  note R = mc_ready_steady [OF ok r]
  then have ok1: "mc_steady str parse env del J gl lof (c, w)" and valid: "mc_cacheValid c" and none: "err = None" by simp_all
  have cached: "cache_shows gl lof (mc_groupToServerResources c)" and st: "steady_discovery str parse del J gl lof" and J: "J w"
    using ok1 valid by (simp_all add: mc_steady_def)
  note here = cached [unfolded cache_shows_def, rule_format, OF gv]
  show ?thesis
  proof (cases "\<exists>l e. map_of (mc_groupToServerResources c) gv = Some (Failed l e) \<and> isTransientError (me_transient env) e")
    case True
    then obtain l e where entry: "map_of (mc_groupToServerResources c) gv = Some (Failed l e)" and again: "isTransientError (me_transient env) e" by blast
    obtain w1 new where new: "mc_serverResourcesForGroupVersion del gv w = (w1, new)" by (metis prod.exhaust)
    have N: "J w1" "out_list new = lof gv" using steady_discovery.mc_server_steady [OF st J gv new] by auto
    have s1: "s1 = (c\<lparr>mc_groupToServerResources := AList.update gv new (mc_groupToServerResources c)\<rparr>, w1)" "res = new"
      using out r none entry again new by (auto simp: mc_ServerResourcesForGroupVersion_def)
    have "\<not> mc_receivedAggregatedDiscovery c"
    proof
      assume "mc_receivedAggregatedDiscovery c"
      then have "entry_ok str parse gl lof (gv, Failed l e)" using ok1 map_of_SomeD [OF entry] by (auto simp: mc_steady_def)
      then obtain g where g: "gv = str g" "parse (str g) = Some g" "\<forall>p \<in> set (group_versions gl). g \<noteq> gv_of p" by (auto simp: entry_ok_def)
      obtain p where p: "p \<in> set (group_versions gl)" "gv = gd_GroupVersion (snd p)" using gv by (auto simp: gv_names_def)
      then show False using steady_discovery.names [OF st J p(1)] g by auto
    qed
    then show ?thesis using ok1 N s1 cached by (auto simp: mc_steady_def cache_shows_def update_conv')
  next
    case False
    then have "s1 = (c, w)" "res = (case map_of (mc_groupToServerResources c) gv of None \<Rightarrow> Failed None CacheNotFound | Some entry \<Rightarrow> entry)"
      using out r none by (auto simp: mc_ServerResourcesForGroupVersion_def split: option.splits resources_out.splits if_splits)
    then show ?thesis using ok1 here by (auto split: option.splits)
  qed
qed

lemma mc_groups_steady:
  assumes ok: "mc_steady str parse env del J gl lof s" and out: "mc_GroupsAndMaybeResources env del s = (s1, groups, rs, fs, err)"
  shows "mc_steady str parse env del J gl lof s1 \<and> groups = Some gl \<and> err = None \<and> (\<forall>m. rs = Some m \<longrightarrow> aggregate_of str parse gl lof m (some_list fs))"
proof -
  obtain c w err1 where r: "mc_ready env del s = ((c, w), err1)" by (metis prod.exhaust)
  have ok1: "mc_steady str parse env del J gl lof (c, w)" and valid: "mc_cacheValid c" and none: "err1 = None" using mc_ready_steady [OF ok r] by simp_all
  have st: "steady_discovery str parse del J gl lof" and J: "J w" and env: "mem_env_ok env str parse" and groups: "mc_groupList c = Some gl"
    using ok1 valid by (simp_all add: mc_steady_def)
  show ?thesis
  proof (cases "mc_receivedAggregatedDiscovery c \<and> mc_groupToServerResources c \<noteq> []")
    case False
    then show ?thesis using out r none ok1 groups by (auto simp: mc_GroupsAndMaybeResources_def)
  next
    case True
    let ?es = "me_range env (mc_groupToServerResources c)"
    have same: "mset ?es = mset (mc_groupToServerResources c)" using env by (simp add: mem_env_ok_def)
    then have set: "set ?es = set (mc_groupToServerResources c)" by (metis set_mset_mset)
    have keys: "distinct (map fst (mc_groupToServerResources c))" using ok1 True by (simp add: mc_steady_def)
    then have dist: "distinct (map fst ?es)" using same by (metis mset_eq_imp_distinct_iff mset_map)
    moreover have ents: "\<forall>e \<in> set ?es. entry_ok str parse gl lof e" using ok1 True set by (simp add: mc_steady_def)
    ultimately have collected: "\<exists>m fs1. mc_collect parse ?es [] [] = Inr (m, fs1) \<and>
        (\<forall>gv l. map_of m gv = Some l \<longleftrightarrow> (str gv, Got l) \<in> set ?es \<and> parse (str gv) = Some gv) \<and>
        (\<forall>gv \<in> fst ` set fs1. parse (str gv) = Some gv \<and> (\<forall>p \<in> set (group_versions gl). gv \<noteq> gv_of p))"
      using mc_collect_exact [of ?es str parse gl lof "[]" "[]", OF _ _ conjunct2 [OF steady_discovery.names [OF st J]]] by simp
    note names = steady_discovery.names [OF st J]
    from collected obtain m fs1 where c: "mc_collect parse ?es [] [] = Inr (m, fs1)"
      and m: "\<And>gv l. map_of m gv = Some l \<longleftrightarrow> (str gv, Got l) \<in> set ?es \<and> parse (str gv) = Some gv"
      and fs1: "\<forall>gv \<in> fst ` set fs1. parse (str gv) = Some gv \<and> (\<forall>p \<in> set (group_versions gl). gv \<noteq> gv_of p)"
      by blast
    have "map_of ?es = map_of (mc_groupToServerResources c)" using keys dist set by (simp add: map_of_inject_set)
    then have cached: "cache_shows gl lof ?es" using ok1 valid by (simp add: mc_steady_def cache_shows_def)
    have "map_of m gv = Some l \<longleftrightarrow> (\<exists>p \<in> set (group_versions gl). gv = gv_of p \<and> lof (gd_GroupVersion (snd p)) = Some l)" for gv l
    proof
      assume "map_of m gv = Some l"
      then have "(str gv, Got l) \<in> set ?es" "parse (str gv) = Some gv" by (auto simp: m)
      then show "\<exists>p \<in> set (group_versions gl). gv = gv_of p \<and> lof (gd_GroupVersion (snd p)) = Some l"
        using ents names unfolding entry_ok_def by (metis (no_types, lifting) Pair_inject option.inject resources_out.distinct(1) resources_out.inject(1))
    next
      assume "\<exists>p \<in> set (group_versions gl). gv = gv_of p \<and> lof (gd_GroupVersion (snd p)) = Some l"
      then obtain p where p: "p \<in> set (group_versions gl)" "gv = gv_of p" "lof (gd_GroupVersion (snd p)) = Some l" by blast
      then have known: "str gv \<in> gv_names gl" "lof (str gv) = Some l" "parse (str gv) = Some gv" using names [OF p(1)] by (auto simp: gv_names_def)
      then obtain entry where entry: "(str gv, entry) \<in> set ?es" "out_list entry = Some l"
        using cached [unfolded cache_shows_def, rule_format, OF known(1)] by (cases "map_of ?es (str gv)") (auto dest: map_of_SomeD)
      then have "entry = Got l" using ents by (force simp: entry_ok_def)
      then show "map_of m gv = Some l" using entry known by (simp add: m)
    qed
    then have "aggregate_of str parse gl lof m fs1" using mc_collect_distinct [OF c] fs1 by (simp add: aggregate_of_def)
    moreover have "s1 = (c', w) \<and> groups = Some gl \<and> rs = Some m \<and> fs = Some fs1 \<and> err = None" if "c' = c" for c'
      using out r none True c env groups that by (simp add: mc_GroupsAndMaybeResources_def mem_env_ok_def)
    ultimately show ?thesis using ok1 by (simp add: some_list_def)
  qed
qed

interpretation mc: steady_discovery str parse "mc_discovery env del" "mc_steady str parse env del J gl lof" gl lof
proof
  fix s s1 p gv out groups err f rs fs
  assume ok: "mc_steady str parse env del J gl lof s"
  obtain c w where s: "s = (c, w)" by (cases s)
  have st: "steady_discovery str parse del J gl lof" and J: "J w" using ok by (auto simp: s mc_steady_def)
  show "p \<in> set (group_versions gl) \<Longrightarrow> str (gv_of p) = gd_GroupVersion (snd p) \<and> parse (str (gv_of p)) = Some (gv_of p)"
    by (rule steady_discovery.names [OF st J])
  show "di_Resources (mc_discovery env del) gv s = (s1, out) \<Longrightarrow> gv \<in> gv_names gl \<Longrightarrow> mc_steady str parse env del J gl lof s1 \<and> out_list out = lof gv"
    using mc_resources_steady [OF ok] by (simp add: mc_discovery_def)
  show "di_Maybe (mc_discovery env del) = Some f \<Longrightarrow> f s = (s1, groups, rs, fs, err) \<Longrightarrow>
      mc_steady str parse env del J gl lof s1 \<and> groups = Some gl \<and> err = None \<and> (\<forall>m. rs = Some m \<longrightarrow> aggregate_of str parse gl lof m (some_list fs))"
    using mc_groups_steady [OF ok] by (auto simp: mc_discovery_def)
  show "di_ServerGroups (mc_discovery env del) s = (s1, groups, err) \<Longrightarrow> mc_steady str parse env del J gl lof s1 \<and> groups = Some gl \<and> err = None"
  proof -
    assume out: "di_ServerGroups (mc_discovery env del) s = (s1, groups, err)"
    obtain s2 g rs2 fs2 e where g: "mc_GroupsAndMaybeResources env del s = (s2, g, rs2, fs2, e)" by (metis prod.exhaust)
    then show ?thesis using mc_groups_steady [OF ok g] out by (simp add: mc_discovery_def mc_ServerGroups_def)
  qed
  have "J (invalidate_delegate del w)" by (rule steady_discovery.invalidate [OF st J])
  moreover have "invalidate_delegate (mc_discovery env del) s = mc_Invalidate del s"
    by (simp add: invalidate_delegate_def mc_discovery_def)
  ultimately show "mc_steady str parse env del J gl lof (invalidate_delegate (mc_discovery env del) s)"
    using ok by (simp add: s mc_steady_def mc_Invalidate_def)
qed

subsection \<open>The disk cache shows what its delegate shows, once it has been invalidated\<close>

text \<open>Decoding what was encoded gives it back, and files of different content have different names.\<close>

definition disk_env_ok :: "('w, 'c) disk_env \<Rightarrow> APIGroup list \<Rightarrow> bool" where
  "disk_env_ok env gl \<longleftrightarrow>
     (\<forall>gl x. da_encodeGroups env gl = Some x \<longrightarrow> da_decodeGroups env x = Some gl) \<and>
     (\<forall>l x. da_encodeResources env l = Some x \<longrightarrow> da_decodeResources env x = Some l) \<and>
     inj_on (resources_file env) (gv_names gl) \<and> groups_file env \<notin> resources_file env ` gv_names gl"

definition our_files_ok :: "('w, 'c) disk_env \<Rightarrow> APIGroup list \<Rightarrow> (string \<Rightarrow> APIResourceList option) \<Rightarrow> 'c disk \<Rightarrow> bool" where
  "our_files_ok env gl lof c \<longleftrightarrow>
     (\<forall>f \<in> dk_ourFiles c. \<exists>x t. dk_files c f = Some (x, t) \<and> (f = groups_file env \<longrightarrow> da_decodeGroups env x = Some gl) \<and>
        (\<forall>gv \<in> gv_names gl. f = resources_file env gv \<longrightarrow> da_decodeResources env x = lof gv))"

definition disk_steady ::
  "(GroupVersion \<Rightarrow> string) \<Rightarrow> (string \<Rightarrow> GroupVersion option) \<Rightarrow> ('w, 'c) disk_env \<Rightarrow> ('w, 'e) discovery \<Rightarrow> ('w \<Rightarrow> bool) \<Rightarrow> APIGroup list \<Rightarrow> (string \<Rightarrow> APIResourceList option) \<Rightarrow>
     'c disk \<times> 'w \<Rightarrow> bool" where
  "disk_steady str parse env del J gl lof = (\<lambda>(c, w).
     steady_discovery str parse del J gl lof \<and> disk_env_ok env gl \<and> J w \<and> dk_invalidated c \<and> our_files_ok env gl lof c)"

lemma getCachedFile_ours:
  assumes "dk_invalidated c" and "our_files_ok env gl lof c" and "getCachedFile env f (c, w) = (s1, content)"
  shows "\<exists>c1. s1 = (c1, w) \<and> dk_invalidated c1 \<and> our_files_ok env gl lof c1 \<and>
    (\<forall>x. content = Some x \<longrightarrow> (f = groups_file env \<longrightarrow> da_decodeGroups env x = Some gl) \<and>
        (\<forall>gv \<in> gv_names gl. f = resources_file env gv \<longrightarrow> da_decodeResources env x = lof gv))"
proof (cases "f \<in> dk_ourFiles c")
  case True
  then obtain x t where "dk_files c f = Some (x, t)" "f = groups_file env \<longrightarrow> da_decodeGroups env x = Some gl"
    "\<forall>gv \<in> gv_names gl. f = resources_file env gv \<longrightarrow> da_decodeResources env x = lof gv"
    using assms(2) by (auto simp: our_files_ok_def)
  then show ?thesis using assms True by (auto simp: getCachedFile_def our_files_ok_def split: if_splits)
next
  case False
  then show ?thesis using assms by (auto simp: getCachedFile_def)
qed

lemma writeCachedFile_ours:
  assumes "dk_invalidated c" and "our_files_ok env gl lof c"
    and "\<And>x. encoded = Some x \<Longrightarrow> (f = groups_file env \<longrightarrow> da_decodeGroups env x = Some gl) \<and>
      (\<forall>gv \<in> gv_names gl. f = resources_file env gv \<longrightarrow> da_decodeResources env x = lof gv)"
  shows "\<exists>c1. writeCachedFile env f encoded (c, w) = (c1, w) \<and> dk_invalidated c1 \<and> our_files_ok env gl lof c1"
  using assms by (auto simp: writeCachedFile_def our_files_ok_def split: option.splits)

lemma disk_resources_steady:
  assumes ok: "disk_steady str parse env del J gl lof s" and gv: "gv \<in> gv_names gl" and out: "disk_ServerResourcesForGroupVersion env del gv s = (s1, res)"
  shows "disk_steady str parse env del J gl lof s1 \<and> out_list res = lof gv"
proof -
  obtain c w where s: "s = (c, w)" by (cases s)
  have st: "steady_discovery str parse del J gl lof" and env: "disk_env_ok env gl" and J: "J w" and c: "dk_invalidated c" "our_files_ok env gl lof c"
    using ok by (auto simp: s disk_steady_def)
  obtain s2 content where f: "getCachedFile env (resources_file env gv) (c, w) = (s2, content)" by (metis prod.exhaust)
  obtain c1 where c1: "s2 = (c1, w)" "dk_invalidated c1" "our_files_ok env gl lof c1"
    and read: "\<And>x. content = Some x \<Longrightarrow> da_decodeResources env x = lof gv"
    using getCachedFile_ours [OF c f] gv by auto
  show ?thesis
  proof (cases "Option.bind content (da_decodeResources env)")
    case (Some l)
    then have "lof gv = Some l" using read by (cases content) auto
    then show ?thesis using out f c1 Some st env J by (auto simp: s disk_ServerResourcesForGroupVersion_def disk_steady_def)
  next
    case None
    obtain w1 live where live: "di_Resources del gv w = (w1, live)" by (metis prod.exhaust)
    have L: "J w1" "out_list live = lof gv" using steady_discovery.resources [OF st J gv live] by auto
    show ?thesis
    proof (cases "\<exists>l. live = Got l \<and> rl_APIResources l \<noteq> []")
      case True
      then obtain l where l: "live = Got l" "rl_APIResources l \<noteq> []" by blast
      have "(resources_file env gv = groups_file env \<longrightarrow> da_decodeGroups env x = Some gl) \<and>
          (\<forall>gv1 \<in> gv_names gl. resources_file env gv = resources_file env gv1 \<longrightarrow> da_decodeResources env x = lof gv1)"
        if "da_encodeResources env l = Some x" for x
      proof -
        have "da_decodeResources env x = Some l" using that env by (simp add: disk_env_ok_def)
        moreover have "lof gv = Some l" using L(2) l(1) by simp
        moreover have "gv1 = gv" if "gv1 \<in> gv_names gl" "resources_file env gv = resources_file env gv1" for gv1
          using that gv env unfolding disk_env_ok_def by (metis inj_onD)
        moreover have "resources_file env gv \<noteq> groups_file env" using gv env unfolding disk_env_ok_def by (metis imageI)
        ultimately show ?thesis by metis
      qed
      from writeCachedFile_ours [OF c1(2,3) this] obtain c2 where
        "writeCachedFile env (resources_file env gv) (da_encodeResources env l) (c1, w1) = (c2, w1)" "dk_invalidated c2" "our_files_ok env gl lof c2" by blast
      then show ?thesis using out f c1(1) None live l L st env by (auto simp: s disk_ServerResourcesForGroupVersion_def disk_steady_def)
    next
      case False
      then have "s1 = (c1, w1)" "res = live" using out f c1(1) None live
        by (auto simp: s disk_ServerResourcesForGroupVersion_def split: resources_out.splits)
      then show ?thesis using c1 L st env by (simp add: disk_steady_def)
    qed
  qed
qed

lemma disk_groups_steady:
  assumes ok: "disk_steady str parse env del J gl lof s" and out: "disk_ServerGroups env del s = (s1, groups, err)"
  shows "disk_steady str parse env del J gl lof s1 \<and> groups = Some gl \<and> err = None"
proof -
  obtain c w where s: "s = (c, w)" by (cases s)
  have st: "steady_discovery str parse del J gl lof" and env: "disk_env_ok env gl" and J: "J w" and c: "dk_invalidated c" "our_files_ok env gl lof c"
    using ok by (auto simp: s disk_steady_def)
  obtain s2 content where f: "getCachedFile env (groups_file env) (c, w) = (s2, content)" by (metis prod.exhaust)
  obtain c1 where c1: "s2 = (c1, w)" "dk_invalidated c1" "our_files_ok env gl lof c1"
    and read: "\<And>x. content = Some x \<Longrightarrow> da_decodeGroups env x = Some gl"
    using getCachedFile_ours [OF c f] by auto
  show ?thesis
  proof (cases content)
    case (Some x)
    then show ?thesis using out f c1 read st env J by (auto simp: s disk_ServerGroups_def disk_steady_def)
  next
    case None
    obtain w1 g e where live: "di_ServerGroups del w = (w1, g, e)" by (metis prod.exhaust)
    have L: "J w1" "g = Some gl" "e = None" using steady_discovery.groups [OF st J live] by auto
    have "(groups_file env = groups_file env \<longrightarrow> da_decodeGroups env x = Some gl) \<and>
        (\<forall>gv1 \<in> gv_names gl. groups_file env = resources_file env gv1 \<longrightarrow> da_decodeResources env x = lof gv1)"
      if "da_encodeGroups env gl = Some x" for x
      using that env by (auto simp: disk_env_ok_def)
    from writeCachedFile_ours [OF c1(2,3) this] obtain c2 where
      "writeCachedFile env (groups_file env) (da_encodeGroups env gl) (c1, w1) = (c2, w1)" "dk_invalidated c2" "our_files_ok env gl lof c2" by blast
    then show ?thesis using out f c1 None live L st env by (auto simp: s disk_ServerGroups_def disk_steady_def some_list_def split: if_splits)
  qed
qed

interpretation dk: steady_discovery str parse "disk_discovery env del" "disk_steady str parse env del J gl lof" gl lof
proof
  fix s s1 p gv out groups err f rs fs
  assume ok: "disk_steady str parse env del J gl lof s"
  obtain c w where s: "s = (c, w)" by (cases s)
  have st: "steady_discovery str parse del J gl lof" and J: "J w" using ok by (auto simp: s disk_steady_def)
  show "p \<in> set (group_versions gl) \<Longrightarrow> str (gv_of p) = gd_GroupVersion (snd p) \<and> parse (str (gv_of p)) = Some (gv_of p)"
    by (rule steady_discovery.names [OF st J])
  show "di_Resources (disk_discovery env del) gv s = (s1, out) \<Longrightarrow> gv \<in> gv_names gl \<Longrightarrow> disk_steady str parse env del J gl lof s1 \<and> out_list out = lof gv"
    using disk_resources_steady [OF ok] by (simp add: disk_discovery_def)
  show "di_ServerGroups (disk_discovery env del) s = (s1, groups, err) \<Longrightarrow> disk_steady str parse env del J gl lof s1 \<and> groups = Some gl \<and> err = None"
    using disk_groups_steady [OF ok] by (simp add: disk_discovery_def)
  show "di_Maybe (disk_discovery env del) = Some f \<Longrightarrow> f s = (s1, groups, rs, fs, err) \<Longrightarrow>
      disk_steady str parse env del J gl lof s1 \<and> groups = Some gl \<and> err = None \<and> (\<forall>m. rs = Some m \<longrightarrow> aggregate_of str parse gl lof m (some_list fs))"
    by (simp add: disk_discovery_def)
  have "J (invalidate_delegate del w)" by (rule steady_discovery.invalidate [OF st J])
  moreover have "invalidate_delegate (disk_discovery env del) s = disk_Invalidate del s"
    by (simp add: invalidate_delegate_def disk_discovery_def)
  ultimately show "disk_steady str parse env del J gl lof (invalidate_delegate (disk_discovery env del) s)"
    using ok by (simp add: s disk_steady_def disk_Invalidate_def our_files_ok_def)
qed

subsection \<open>The whole stack\<close>

datatype disc_call = CallGroups | CallResources string | CallAll | CallInvalidate

fun disc_apply ::
  "(GroupVersion \<Rightarrow> string) \<Rightarrow> (GroupVersion list \<Rightarrow> GroupVersion list) \<Rightarrow> (resources_map \<Rightarrow> resources_map) \<Rightarrow> ('s, 'e) discovery \<Rightarrow> disc_call \<Rightarrow> 's \<Rightarrow> 's" where
  "disc_apply str order rorder d CallGroups s = fst (di_ServerGroups d s)"
| "disc_apply str order rorder d (CallResources gv) s = fst (di_Resources d gv s)"
| "disc_apply str order rorder d CallAll s = fst (ServerGroupsAndResources str order rorder d s)"
| "disc_apply str order rorder d CallInvalidate s = invalidate_delegate d s"

context steady_discovery
begin

lemma calls_steady:
  assumes "I s" and "\<And>gvs. mset (order gvs) = mset gvs" and "\<And>m. mset (rorder m) = mset m"
    and "\<forall>gv. CallResources gv \<in> set calls \<longrightarrow> gv \<in> gv_names gl"
  shows "I (fold (disc_apply str order rorder d) calls s)"
  using assms(1,4)
proof (induction calls arbitrary: s)
  case (Cons call calls)
  have "I (disc_apply str order rorder d call s)"
  proof (cases call)
    case CallGroups
    then show ?thesis using groups [OF Cons.prems(1)] by (metis disc_apply.simps(1) prod.collapse)
  next
    case (CallResources gv)
    then show ?thesis using resources [OF Cons.prems(1)] Cons.prems(2) by (metis disc_apply.simps(2) list.set_intros(1) prod.collapse)
  next
    case CallAll
    then show ?thesis using all_steady [OF Cons.prems(1) assms(2,3)] by (metis disc_apply.simps(3) prod.collapse)
  next
    case CallInvalidate
    then show ?thesis using invalidate [OF Cons.prems(1)] by simp
  qed
  then show ?case using Cons by simp
qed simp

end

lemma invalidate_simps:
  "invalidate_delegate (client_discovery r c) w = w"
  "invalidate_delegate (mc_discovery menv del) = mc_Invalidate del"
  "invalidate_delegate (disk_discovery denv del) = disk_Invalidate del"
  by (simp_all add: invalidate_delegate_def client_discovery_def mc_discovery_def disk_discovery_def fun_eq_iff)

lemma stack_invalidated:
  assumes "client_steady str parse r NewDiscoveryClient w0 gl lof w0" and "mem_env_ok menv str parse" and "disk_env_ok denv gl" and "gl \<noteq> []"
  shows "disk_steady str parse denv (mc_discovery menv (client_discovery r NewDiscoveryClient))
    (mc_steady str parse menv (client_discovery r NewDiscoveryClient) (client_steady str parse r NewDiscoveryClient w0 gl lof) gl lof) gl lof
    (invalidate_delegate (cached_stack denv menv r) (c, m, w0))"
proof -
  let ?client = "client_discovery r NewDiscoveryClient"
  have "invalidate_delegate (cached_stack denv menv r) (c, m, w0) =
      (c\<lparr>dk_ourFiles := {}, dk_fresh := True, dk_invalidated := True\<rparr>,
       m\<lparr>mc_cacheValid := False, mc_groupToServerResources := [], mc_groupList := None, mc_receivedAggregatedDiscovery := False\<rparr>, w0)"
    by (simp add: cached_stack_def invalidate_simps disk_Invalidate_def mc_Invalidate_def)
  moreover have "mc_steady str parse menv ?client (client_steady str parse r NewDiscoveryClient w0 gl lof) gl lof
      (m\<lparr>mc_cacheValid := False, mc_groupToServerResources := [], mc_groupList := None, mc_receivedAggregatedDiscovery := False\<rparr>, w0)"
    using assms cl.steady_discovery_axioms by (simp add: mc_steady_def)
  ultimately show ?thesis using assms(3) mc.steady_discovery_axioms by (simp add: disk_steady_def our_files_ok_def)
qed

text \<open>
  C21. The discovery caches are transparent: for a server that does not change, whatever the files and the memory held before, after an \<open>Invalidate\<close> and any further calls the
  client of \<open>NewCachedDiscoveryClientForConfig\<close> returns the server's groups and exactly the resource lists that the server has for their versions, for aggregated and
  plain discovery and for every order of goroutines and map ranges; files that this process has not written since then are not used.
\<close>

theorem cached_discovery_transparent:
  assumes server: "client_steady str parse r NewDiscoveryClient w0 gl lof w0" and "gl \<noteq> []"
    and "mem_env_ok menv str parse" and "disk_env_ok denv gl"
    and order: "\<And>gvs. mset (order gvs) = mset gvs" and rorder: "\<And>m. mset (rorder m) = mset m"
    and calls: "\<forall>gv. CallResources gv \<in> set calls \<longrightarrow> gv \<in> gv_names gl"
    and s: "s = fold (disc_apply str order rorder (cached_stack denv menv r)) calls (invalidate_delegate (cached_stack denv menv r) (c, m, w0))"
  shows "\<exists>s1 ls err. ServerGroupsAndResources str order rorder (cached_stack denv menv r) s = (s1, Some gl, Some ls, err) \<and>
      set ls = {l. \<exists>gv \<in> gv_names gl. lof gv = Some l} \<and>
      (\<forall>gv \<in> gv_names gl. out_list (snd (di_Resources (cached_stack denv menv r) gv s)) = lof gv)"
proof -
  let ?del = "mc_discovery menv (client_discovery r NewDiscoveryClient)"
  let ?J = "mc_steady str parse menv (client_discovery r NewDiscoveryClient) (client_steady str parse r NewDiscoveryClient w0 gl lof) gl lof"
  have "disk_steady str parse denv ?del ?J gl lof s"
    unfolding s cached_stack_def
    by (rule dk.calls_steady [OF stack_invalidated [unfolded cached_stack_def, OF assms(1,3,4,2)] order rorder calls])
  note ok = this
  obtain s1 groups ls err where out: "ServerGroupsAndResources str order rorder (disk_discovery denv ?del) s = (s1, groups, ls, err)" by (metis prod.exhaust)
  have "out_list (snd (di_Resources (disk_discovery denv ?del) gv s)) = lof gv" if "gv \<in> gv_names gl" for gv
    using dk.resources [OF ok that] by (metis prod.collapse)
  moreover obtain ls1 where "groups = Some gl" "ls = Some ls1" "set ls1 = {l. \<exists>gv \<in> gv_names gl. lof gv = Some l}"
    using dk.all_steady [OF ok order rorder out] by blast
  ultimately show ?thesis using out unfolding cached_stack_def by blast
qed

text \<open>A server with one group, \<open>apps/v1\<close>, with one resource, behind both caches; an old file and a valid memory cache do not show.\<close>

definition demo_group :: APIGroup where
  "demo_group = \<lparr>ag_Name = ''apps'', ag_Versions = [\<lparr>gd_GroupVersion = ''apps/v1'', gd_Version = ''v1''\<rparr>],
     ag_PreferredVersion = \<lparr>gd_GroupVersion = ''apps/v1'', gd_Version = ''v1''\<rparr>\<rparr>"

definition demo_list :: APIResourceList where
  "demo_list = \<lparr>rl_GroupVersion = ''apps/v1'', rl_APIResources = [no_resource\<lparr>ar_Name := ''deployments''\<rparr>]\<rparr>"

definition demo_rest :: "(unit, unit, unit) discovery_rest" where
  "demo_rest = \<lparr>dr_Get = (\<lambda>path accept w. (w, if path = ''/api'' then Inl () else Inr ([], ()))), dr_Into = (\<lambda>path l w. (w, demo_list, None)),
     dr_URL = (\<lambda>path. path), dr_ParseMediaType = (\<lambda>t. None), dr_Aggregated = (\<lambda>b. Inl ()), dr_APIVersions = (\<lambda>b. Inl ()),
     dr_APIGroups = (\<lambda>b. Inr [demo_group]), dr_IsNotFound = (\<lambda>e. True), dr_String = (\<lambda>gv. gv_Group gv @ ''/'' @ gv_Version gv)\<rparr>"

definition demo_str :: "GroupVersion \<Rightarrow> string" where
  "demo_str gv = gv_Group gv @ ''/'' @ gv_Version gv"

definition demo_parse :: "string \<Rightarrow> GroupVersion option" where
  "demo_parse s = (if s = ''apps/v1'' then Some \<lparr>gv_Group = ''apps'', gv_Version = ''v1''\<rparr> else None)"

definition demo_mem :: "unit mem_env" where
  "demo_mem = \<lparr>me_String = demo_str, me_Parse = demo_parse,
     me_transient = \<lparr>te_Errno = (\<lambda>e. None), te_StatusCode = (\<lambda>e. None), te_IsTooManyRequests = (\<lambda>e. False)\<rparr>,
     me_order = (\<lambda>xs. xs), me_range = (\<lambda>es. es)\<rparr>"

definition demo_disk :: "('w, APIGroup list + APIResourceList) disk_env" where
  "demo_disk = \<lparr>da_cacheDirectory = ''d'', da_ttl = 10, da_Now = (\<lambda>w. 0), da_readable = (\<lambda>f w. True), da_writable = (\<lambda>f w. True),
     da_encodeGroups = (\<lambda>gl. Some (Inl gl)), da_decodeGroups = (\<lambda>x. case x of Inl gl \<Rightarrow> Some gl | Inr l \<Rightarrow> None),
     da_encodeResources = (\<lambda>l. Some (Inr l)), da_decodeResources = (\<lambda>x. case x of Inl gl \<Rightarrow> None | Inr l \<Rightarrow> Some l)\<rparr>"

lemma demo_versions: "group_versions [demo_group] = [(demo_group, \<lparr>gd_GroupVersion = ''apps/v1'', gd_Version = ''v1''\<rparr>)]"
  by (simp add: group_versions_def demo_group_def)

lemma demo_client: "client_steady demo_str demo_parse demo_rest NewDiscoveryClient () [demo_group] (\<lambda>gv. Some demo_list) ()"
  by (simp add: client_steady_def gv_names_def group_versions_def gv_of_def demo_str_def demo_parse_def demo_group_def GroupsAndMaybeResources_def downloadLegacy_def downloadAPIs_def
      client_ServerResourcesForGroupVersion_def demo_rest_def some_list_def put_all_def isV2Beta1ContentType_def)

lemma demo_disk_ok: "disk_env_ok demo_disk [demo_group]"
  by (simp add: disk_env_ok_def gv_names_def demo_versions demo_disk_def resources_file_def groups_file_def path_Join_def path_Clean_def slash_def)

theorem cached_discovery_transparent_witness:
  "\<exists>s1 ls err. ServerGroupsAndResources demo_str (\<lambda>x. x) (\<lambda>x. x) (cached_stack demo_disk demo_mem demo_rest)
      (fold (disc_apply demo_str (\<lambda>x. x) (\<lambda>x. x) (cached_stack demo_disk demo_mem demo_rest)) [CallGroups, CallAll]
        (invalidate_delegate (cached_stack demo_disk demo_mem demo_rest)
          (newCachedDiscoveryClient [''d/servergroups.json'' \<mapsto> (Inl [], 0)], NewMemCacheClient\<lparr>mc_cacheValid := True\<rparr>, ()))) =
      (s1, Some [demo_group], Some ls, err) \<and> set ls = {demo_list}"
proof -
  have "gv_names [demo_group] = {''apps/v1''}" by (simp add: gv_names_def demo_versions)
  then show ?thesis
    using cached_discovery_transparent [OF demo_client _ _ demo_disk_ok _ _ _ refl, where menv = demo_mem and order = "\<lambda>x. x" and rorder = "\<lambda>x. x"
        and calls = "[CallGroups, CallAll]" and c = "newCachedDiscoveryClient [''d/servergroups.json'' \<mapsto> (Inl [], 0)]" and m = "NewMemCacheClient\<lparr>mc_cacheValid := True\<rparr>"]
    by (simp add: mem_env_ok_def demo_mem_def) blast
qed

section \<open>What the caches do with a server that has no groups\<close>

text \<open>
  When plain discovery returns no groups, \<open>refreshLocked\<close> returns without an error and without filling the cache. The groups are then nil although the comment of
  \<open>GroupsAndMaybeResources\<close> says that they never are, and \<open>ServerPreferredResources\<close> follows the nil pointer.
\<close>

lemma empty_server_nil_groups:
  assumes "groups_of del w = (w1, Some [], None, fs, None)"
  shows "mc_GroupsAndMaybeResources env del (NewMemCacheClient, w) = ((NewMemCacheClient, w1), None, None, None, None)"
    and "ServerPreferredResources str order sorder (mc_discovery env del) (NewMemCacheClient, w) = ((NewMemCacheClient, w1), PreferredPanics)"
proof -
  show nil: "mc_GroupsAndMaybeResources env del (NewMemCacheClient, w) = ((NewMemCacheClient, w1), None, None, None, None)"
    using assms by (simp add: mc_GroupsAndMaybeResources_def mc_ready_def mc_refreshLocked_def NewMemCacheClient_def some_list_def)
  then have "groups_of (mc_discovery env del) (NewMemCacheClient, w) = ((NewMemCacheClient, w1), None, None, None, None)"
    by (simp add: groups_of_def mc_discovery_def)
  then show "ServerPreferredResources str order sorder (mc_discovery env del) (NewMemCacheClient, w) = ((NewMemCacheClient, w1), PreferredPanics)"
    by (simp add: ServerPreferredResources_def)
qed

end
