(* ===== verification/RestMapper.thy ===== *)
theory RestMapper
  imports CachedDiscovery
begin

text \<open>
  \<open>restmapper/discovery.go\<close>, \<open>restmapper/shortcut.go\<close> and \<open>restmapper/category_expansion.go\<close>: mapping kinds to resources with what discovery returns.

  The mappers themselves are of apimachinery: \<open>NewDiscoveryRESTMapper\<close> yields the calls that fill them and their priorities, and a lookup in such a mapper is an argument.
  The methods of \<open>DeferredDiscoveryRESTMapper\<close> call themselves after a reset, as often as the cache says that it is not fresh; this recursion has fuel, which a lookup
  that returns is proved not to need.

  The lemmas: with the disk cache every lookup ends after at most one reset, with the memory cache it does unless the server has no groups, and then it never does;
  the preferred version comes first, subresources are never mapped, expanding a shortcut twice changes nothing.
\<close>

section \<open>The mapper for a set of groups\<close>

record APIGroupResources =
  gr_Group :: APIGroup
  gr_VersionedResources :: "string \<Rightarrow> APIResource list option"

datatype rest_scope = RESTScopeNamespace | RESTScopeRoot

text \<open>The calls on a \<open>DefaultRESTMapper\<close>: a kind with its plural and singular resource, or a kind for which the mapper guesses them.\<close>

datatype mapper_call = AddSpecific GVK GVR GVR rest_scope | AddKind GVK rest_scope

record version_mapper =
  vm_version :: GroupVersion
  vm_calls :: "mapper_call list"

record rest_mapper =
  rm_Delegate :: "version_mapper list"
  rm_ResourcePriority :: "GVR list"
  rm_KindPriority :: "GVK list"

definition any :: string where
  "any = ''*''"

definition WithKind :: "GroupVersion \<Rightarrow> string \<Rightarrow> GVK" where
  "WithKind gv kind = \<lparr>gvk_Group = gv_Group gv, gvk_Version = gv_Version gv, gvk_Kind = kind\<rparr>"

definition WithResource :: "GroupVersion \<Rightarrow> string \<Rightarrow> GVR" where
  "WithResource gv r = \<lparr>gvr_Group = gv_Group gv, gvr_Version = gv_Version gv, gvr_Resource = r\<rparr>"

text \<open>\<open>guess\<close> is the singular that \<open>meta.UnsafeGuessKindToResource\<close> returns.\<close>

definition resource_calls :: "(GVK \<Rightarrow> GVR) \<Rightarrow> GroupVersion \<Rightarrow> APIResource \<Rightarrow> mapper_call list" where
  "resource_calls guess gv r =
     (if contains (ar_Name r) ''/'' then []
      else let scope = (if ar_Namespaced r then RESTScopeNamespace else RESTScopeRoot);
               plural = WithResource gv (ar_Name r);
               singular = (if ar_SingularName r = [] then guess (WithKind gv (ar_Kind r)) else WithResource gv (ar_SingularName r))
           in [AddSpecific (WithKind gv (strings_ToLower (ar_Kind r))) plural singular scope, AddSpecific (WithKind gv (ar_Kind r)) plural singular scope,
               AddKind (WithKind gv (ar_Kind r @ ''List'')) scope])"

definition version_mapper_of :: "(GVK \<Rightarrow> GVR) \<Rightarrow> GroupVersion \<Rightarrow> APIResource list \<Rightarrow> version_mapper" where
  "version_mapper_of guess gv resources =
     \<lparr>vm_version = gv, vm_calls = concat (map (resource_calls guess gv) resources) @ [AddKind (WithKind gv ''List'') RESTScopeRoot]\<rparr>"

definition add_priority :: "string \<Rightarrow> string \<Rightarrow> rest_mapper \<Rightarrow> rest_mapper" where
  "add_priority g version m =
     m\<lparr>rm_ResourcePriority := rm_ResourcePriority m @ [\<lparr>gvr_Group = g, gvr_Version = version, gvr_Resource = any\<rparr>],
       rm_KindPriority := rm_KindPriority m @ [\<lparr>gvk_Group = g, gvk_Version = version, gvk_Kind = any\<rparr>]\<rparr>"

definition map_version :: "(GVK \<Rightarrow> GVR) \<Rightarrow> APIGroupResources \<Rightarrow> GroupVersionForDiscovery \<Rightarrow> rest_mapper \<Rightarrow> rest_mapper" where
  "map_version guess gr v m =
     (case gr_VersionedResources gr (gd_Version v) of
        None \<Rightarrow> m
      | Some resources \<Rightarrow>
          (let g = ag_Name (gr_Group gr);
               m1 = (if gd_Version v \<noteq> gd_Version (ag_PreferredVersion (gr_Group gr)) then add_priority g (gd_Version v) m else m);
               gv = \<lparr>gv_Group = g, gv_Version = gd_Version v\<rparr>
           in m1\<lparr>rm_Delegate := rm_Delegate m1 @ [version_mapper_of guess gv resources]\<rparr>))"

definition map_group :: "(GVK \<Rightarrow> GVR) \<Rightarrow> APIGroupResources \<Rightarrow> rest_mapper \<Rightarrow> rest_mapper" where
  "map_group guess gr m =
     (let preferred = gd_Version (ag_PreferredVersion (gr_Group gr));
          m1 = (if preferred \<noteq> [] \<and> gr_VersionedResources gr preferred \<noteq> None then add_priority (ag_Name (gr_Group gr)) preferred m else m)
      in fold (map_version guess gr) (ag_Versions (gr_Group gr)) m1)"

definition NewDiscoveryRESTMapper :: "(GVK \<Rightarrow> GVR) \<Rightarrow> APIGroupResources list \<Rightarrow> rest_mapper" where
  "NewDiscoveryRESTMapper guess grs =
     (let m0 = add_priority [] ''v1'' \<lparr>rm_Delegate = [], rm_ResourcePriority = [], rm_KindPriority = []\<rparr>;
          m1 = fold (map_group guess) grs m0
      in fold (\<lambda>gr. add_priority (ag_Name (gr_Group gr)) any) grs m1)"

section \<open>The deferred mapper\<close>

definition group_resources :: "APIResourceList list \<Rightarrow> APIGroup \<Rightarrow> APIGroupResources" where
  "group_resources rs g =
     (let rsm = fold (\<lambda>r m. m(rl_GroupVersion r \<mapsto> r)) rs Map.empty
      in \<lparr>gr_Group = g,
          gr_VersionedResources =
            fold (\<lambda>v m. case rsm (gd_GroupVersion v) of None \<Rightarrow> m | Some l \<Rightarrow> m(gd_Version v \<mapsto> rl_APIResources l)) (ag_Versions g) Map.empty\<rparr>)"

definition GetAPIGroupResources :: "('s \<Rightarrow> 's \<times> 'e all_out) \<Rightarrow> 's \<Rightarrow> 's \<times> APIGroupResources list \<times> 'e disc_err option" where
  "GetAPIGroupResources all s =
     (case all s of
        (s1, Some gs, Some rs, err) \<Rightarrow> (s1, map (group_resources rs) gs, None)
      | (s1, _, _, err) \<Rightarrow> (s1, [], err))"

datatype ('e, 'm) map_err = DiscoveryErr "'e disc_err" | MapErr 'm

record 's deferred =
  dm_delegate :: "rest_mapper option"
  dm_cl :: 's

text \<open>The discovery client as the deferred mapper uses it: its \<open>ServerGroupsAndResources\<close>, \<open>Fresh\<close> and \<open>Invalidate\<close>.\<close>

record ('s, 'e) cached_client =
  cc_All :: "'s \<Rightarrow> 's \<times> 'e all_out"
  cc_Fresh :: "'s \<Rightarrow> bool"
  cc_Invalidate :: "'s \<Rightarrow> 's"

definition NewDeferredDiscoveryRESTMapper :: "'s \<Rightarrow> 's deferred" where
  "NewDeferredDiscoveryRESTMapper cl = \<lparr>dm_delegate = None, dm_cl = cl\<rparr>"

definition getDelegate :: "(GVK \<Rightarrow> GVR) \<Rightarrow> ('s, 'e) cached_client \<Rightarrow> 's deferred \<Rightarrow> 's deferred \<times> ('e disc_err + rest_mapper)" where
  "getDelegate guess cc d =
     (case dm_delegate d of
        Some m \<Rightarrow> (d, Inr m)
      | None \<Rightarrow>
          (case GetAPIGroupResources (cc_All cc) (dm_cl d) of
             (s1, _, Some e) \<Rightarrow> (d\<lparr>dm_cl := s1\<rparr>, Inl e)
           | (s1, grs, None) \<Rightarrow>
               (let m = NewDiscoveryRESTMapper guess grs in (d\<lparr>dm_cl := s1, dm_delegate := Some m\<rparr>, Inr m))))"

definition deferred_Reset :: "('s, 'e) cached_client \<Rightarrow> 's deferred \<Rightarrow> 's deferred" where
  "deferred_Reset cc d = d\<lparr>dm_cl := cc_Invalidate cc (dm_cl d), dm_delegate := None\<rparr>"

text \<open>
  The scheme of all lookups: \<open>op\<close> asks the delegate, \<open>missed\<close> is the condition under which a cache that is not fresh is reset and the method called again; \<open>zero\<close> is
  returned with an error of discovery.
\<close>

fun deferred_lookup ::
  "(GVK \<Rightarrow> GVR) \<Rightarrow> ('s, 'e) cached_client \<Rightarrow> (rest_mapper \<Rightarrow> 'a \<times> 'm option) \<Rightarrow> ('a \<times> 'm option \<Rightarrow> bool) \<Rightarrow> 'a \<Rightarrow> nat \<Rightarrow> 's deferred \<Rightarrow>
     ('s deferred \<times> 'a \<times> ('e, 'm) map_err option) option" where
  "deferred_lookup guess cc op missed zero 0 d = None"
| "deferred_lookup guess cc op missed zero (Suc fuel) d =
     (case getDelegate guess cc d of
        (d1, Inl e) \<Rightarrow> Some (d1, zero, Some (DiscoveryErr e))
      | (d1, Inr m) \<Rightarrow>
          (if missed (op m) \<and> \<not> cc_Fresh cc (dm_cl d1) then deferred_lookup guess cc op missed zero fuel (deferred_Reset cc d1)
           else Some (d1, fst (op m), map_option MapErr (snd (op m)))))"

text \<open>The lookups in a mapper of apimachinery.\<close>

record 'm mapper_methods =
  mm_KindFor :: "rest_mapper \<Rightarrow> GVR \<Rightarrow> GVK \<times> 'm option"
  mm_KindsFor :: "rest_mapper \<Rightarrow> GVR \<Rightarrow> GVK list \<times> 'm option"
  mm_ResourceFor :: "rest_mapper \<Rightarrow> GVR \<Rightarrow> GVR \<times> 'm option"
  mm_ResourcesFor :: "rest_mapper \<Rightarrow> GVR \<Rightarrow> GVR list \<times> 'm option"
  mm_RESTMapping :: "rest_mapper \<Rightarrow> string \<times> string \<Rightarrow> string list \<Rightarrow> mapper_call option \<times> 'm option"
  mm_RESTMappings :: "rest_mapper \<Rightarrow> string \<times> string \<Rightarrow> string list \<Rightarrow> mapper_call list \<times> 'm option"
  mm_ResourceSingularizer :: "rest_mapper \<Rightarrow> string \<Rightarrow> string \<times> 'm option"

definition failed :: "'a \<times> 'm option \<Rightarrow> bool" where
  "failed out \<longleftrightarrow> snd out \<noteq> None"

definition nothing :: "'a list \<times> 'm option \<Rightarrow> bool" where
  "nothing out \<longleftrightarrow> fst out = []"

definition deferred_KindFor where
  "deferred_KindFor guess cc mm resource = deferred_lookup guess cc (\<lambda>m. mm_KindFor mm m resource) failed emptyKind"

definition deferred_KindsFor where
  "deferred_KindsFor guess cc mm resource = deferred_lookup guess cc (\<lambda>m. mm_KindsFor mm m resource) nothing []"

definition deferred_ResourceFor where
  "deferred_ResourceFor guess cc mm input =
     deferred_lookup guess cc (\<lambda>m. mm_ResourceFor mm m input) failed \<lparr>gvr_Group = [], gvr_Version = [], gvr_Resource = []\<rparr>"

definition deferred_ResourcesFor where
  "deferred_ResourcesFor guess cc mm input = deferred_lookup guess cc (\<lambda>m. mm_ResourcesFor mm m input) nothing []"

definition deferred_RESTMapping where
  "deferred_RESTMapping guess cc mm gk versions = deferred_lookup guess cc (\<lambda>m. mm_RESTMapping mm m gk versions) failed None"

definition deferred_RESTMappings where
  "deferred_RESTMappings guess cc mm gk versions = deferred_lookup guess cc (\<lambda>m. mm_RESTMappings mm m gk versions) nothing []"

definition deferred_ResourceSingularizer where
  "deferred_ResourceSingularizer guess cc mm resource = deferred_lookup guess cc (\<lambda>m. mm_ResourceSingularizer mm m resource) failed resource"

section \<open>Shortcuts\<close>

text \<open>A short name and the resource it stands for, each with its group.\<close>

record resourceShortcuts =
  rs_ShortForm :: "string \<times> string"
  rs_LongForm :: "string \<times> string"

definition list_shortcuts :: "(string \<Rightarrow> GroupVersion option) \<Rightarrow> APIResourceList \<Rightarrow> resourceShortcuts list" where
  "list_shortcuts parse rl =
     (case parse (rl_GroupVersion rl) of
        None \<Rightarrow> []
      | Some gv \<Rightarrow>
          concat (map (\<lambda>r. map (\<lambda>n. \<lparr>rs_ShortForm = (gv_Group gv, n), rs_LongForm = (gv_Group gv, ar_Name r)\<rparr>) (ar_ShortNames r)) (rl_APIResources rl)))"

definition getShortcutMappings :: "(string \<Rightarrow> GroupVersion option) \<Rightarrow> APIResourceList list \<Rightarrow> resourceShortcuts list" where
  "getShortcutMappings parse rls = concat (map (list_shortcuts parse) rls)"

definition full_name :: "(string \<Rightarrow> GroupVersion option) \<Rightarrow> GVR \<Rightarrow> APIResourceList \<Rightarrow> bool" where
  "full_name parse r rl =
     (case parse (rl_GroupVersion rl) of
        None \<Rightarrow> False
      | Some gv \<Rightarrow>
          \<not> (gvr_Group r \<noteq> [] \<and> gvr_Group r \<noteq> gv_Group gv) \<and>
          list_ex (\<lambda>a. gvr_Resource r = ar_Name a \<or> gvr_Resource r = ar_SingularName a) (rl_APIResources rl))"

definition use_long :: "resourceShortcuts \<Rightarrow> GVR \<Rightarrow> GVR" where
  "use_long item r = r\<lparr>gvr_Resource := snd (rs_LongForm item), gvr_Group := fst (rs_LongForm item)\<rparr>"

definition expandResourceShortcut :: "(string \<Rightarrow> GroupVersion option) \<Rightarrow> APIResourceList list \<Rightarrow> GVR \<Rightarrow> GVR" where
  "expandResourceShortcut parse rls r =
     (if list_ex (full_name parse r) rls then r
      else case find (\<lambda>item. \<not> (gvr_Group r \<noteq> [] \<and> gvr_Group r \<noteq> fst (rs_ShortForm item)) \<and> gvr_Resource r = snd (rs_ShortForm item)) (getShortcutMappings parse rls) of
             Some item \<Rightarrow> use_long item r
           | None \<Rightarrow>
               (if gvr_Group r = [] then r
                else case find (\<lambda>item. has_prefix (fst (rs_ShortForm item)) (gvr_Group r) \<and> gvr_Resource r = snd (rs_ShortForm item)) (getShortcutMappings parse rls) of
                       Some item \<Rightarrow> use_long item r
                     | None \<Rightarrow> r))"

text \<open>
  The expander asks discovery for the resources and then its delegate, both of which have a state; it tries \<open>KindFor\<close> again after a \<open>NoMatch\<close> error, when discovery
  may have been read anew.
\<close>

record ('s, 'e, 'm) expander =
  ex_Parse :: "string \<Rightarrow> GroupVersion option"
  ex_All :: "'s \<Rightarrow> 's \<times> 'e all_out"
  ex_IsNoMatch :: "'m \<Rightarrow> bool"

definition ex_expand :: "('s, 'e, 'm) expander \<Rightarrow> GVR \<Rightarrow> 's \<Rightarrow> 's \<times> GVR" where
  "ex_expand x r s = (case ex_All x s of (s1, _, rls, _) \<Rightarrow> (s1, expandResourceShortcut (ex_Parse x) (some_list rls) r))"

definition ex_lookup :: "('s, 'e, 'm) expander \<Rightarrow> (GVR \<Rightarrow> 's \<Rightarrow> 's \<times> 'a \<times> 'm option) \<Rightarrow> GVR \<Rightarrow> 's \<Rightarrow> 's \<times> 'a \<times> 'm option" where
  "ex_lookup x delegate r s = (case ex_expand x r s of (s1, r1) \<Rightarrow> delegate r1 s1)"

definition ex_KindFor :: "('s, 'e, 'm) expander \<Rightarrow> (GVR \<Rightarrow> 's \<Rightarrow> 's \<times> GVK \<times> 'm option) \<Rightarrow> GVR \<Rightarrow> 's \<Rightarrow> 's \<times> GVK \<times> 'm option" where
  "ex_KindFor x delegate r s =
     (case ex_lookup x delegate r s of
        (s1, gvk, Some e) \<Rightarrow> (if ex_IsNoMatch x e then ex_lookup x delegate r s1 else (s1, gvk, Some e))
      | (s1, gvk, None) \<Rightarrow> (s1, gvk, None))"

section \<open>Categories\<close>

type_synonym group_resource = "string \<times> string"

definition simple_Expand :: "(string \<Rightarrow> group_resource list option) \<Rightarrow> string \<Rightarrow> group_resource list \<times> bool" where
  "simple_Expand expansions category = (case expansions category of Some ret \<Rightarrow> (ret, True) | None \<Rightarrow> ([], False))"

definition list_categories :: "(string \<Rightarrow> GroupVersion option) \<Rightarrow> APIResourceList \<Rightarrow> (string \<times> group_resource) list" where
  "list_categories parse rl =
     (case parse (rl_GroupVersion rl) of
        None \<Rightarrow> []
      | Some gv \<Rightarrow> concat (map (\<lambda>r. map (\<lambda>c. (c, gv_Group gv, ar_Name r)) (ar_Categories r)) (rl_APIResources rl)))"

definition discovered :: "(string \<Rightarrow> GroupVersion option) \<Rightarrow> APIResourceList list \<Rightarrow> (string \<Rightarrow> group_resource list option)" where
  "discovered parse rls =
     fold (\<lambda>(c, gr) m. m(c \<mapsto> (case m c of None \<Rightarrow> [] | Some xs \<Rightarrow> xs) @ [gr])) (concat (map (list_categories parse) rls)) Map.empty"

definition discovery_Expand :: "(string \<Rightarrow> GroupVersion option) \<Rightarrow> ('s \<Rightarrow> 's \<times> 'e all_out) \<Rightarrow> string \<Rightarrow> 's \<Rightarrow> 's \<times> group_resource list \<times> bool" where
  "discovery_Expand parse all category s =
     (case all s of (s1, _, rls, _) \<Rightarrow>
        (s1, if some_list rls = [] then ([], False) else simple_Expand (discovered parse (some_list rls)) category))"

definition add_new :: "group_resource \<Rightarrow> group_resource list \<Rightarrow> group_resource list" where
  "add_new gr ret = (if list_ex (\<lambda>existing. existing = gr) ret then ret else ret @ [gr])"

definition union_Expand :: "(string \<Rightarrow> group_resource list \<times> bool) list \<Rightarrow> string \<Rightarrow> group_resource list \<times> bool" where
  "union_Expand expanders category =
     fold (\<lambda>e (ret, ok). case e category of (found, foundOk) \<Rightarrow> (fold add_new found ret, ok \<or> foundOk)) expanders ([], False)"

section \<open>A lookup ends\<close>

text \<open>What a lookup returns once the delegate is there, or could not be had.\<close>

fun lookup_answer ::
  "(rest_mapper \<Rightarrow> 'a \<times> 'm option) \<Rightarrow> 'a \<Rightarrow> 's deferred \<times> ('e disc_err + rest_mapper) \<Rightarrow> 's deferred \<times> 'a \<times> ('e, 'm) map_err option" where
  "lookup_answer op zero (d, Inl e) = (d, zero, Some (DiscoveryErr e))"
| "lookup_answer op zero (d, Inr m) = (d, fst (op m), map_option MapErr (snd (op m)))"

text \<open>
  The contract between the deferred mapper and its discovery client: in the states \<open>good\<close>, which no call leaves, a client that was invalidated is fresh after it has
  been read, or reading it failed.
\<close>

locale fresh_after_reset =
  fixes cc :: "('s, 'e) cached_client" and good :: "'s \<Rightarrow> bool"
  assumes all_good: "good s \<Longrightarrow> good (fst (cc_All cc s))"
    and invalidate_good: "good s \<Longrightarrow> good (cc_Invalidate cc s)"
    and settled: "good s \<Longrightarrow> cc_All cc (cc_Invalidate cc s) = (s1, gs, rs, err) \<Longrightarrow> cc_Fresh cc s1 \<or> gs = None \<and> err \<noteq> None"
begin

lemma getDelegate_good: "good (dm_cl d) \<Longrightarrow> getDelegate guess cc d = (d1, r) \<Longrightarrow> good (dm_cl d1)"
proof -
  assume good: "good (dm_cl d)" and g: "getDelegate guess cc d = (d1, r)"
  obtain s1 gs rs err where a: "cc_All cc (dm_cl d) = (s1, gs, rs, err)" by (metis prod.exhaust)
  then have "good s1" using all_good [OF good] by simp
  then show ?thesis using g a good
    by (auto simp: getDelegate_def GetAPIGroupResources_def Let_def split: option.splits)
qed

lemma after_reset:
  assumes "good (dm_cl d)" and "getDelegate guess cc (deferred_Reset cc d) = (d1, Inr m)"
  shows "cc_Fresh cc (dm_cl d1)"
proof -
  obtain s1 gs rs err where a: "cc_All cc (cc_Invalidate cc (dm_cl d)) = (s1, gs, rs, err)" by (metis prod.exhaust)
  have "dm_cl d1 = s1" "\<not> (gs = None \<and> err \<noteq> None)"
    using assms(2) a by (auto simp: deferred_Reset_def getDelegate_def GetAPIGroupResources_def Let_def split: option.splits)
  then show ?thesis using settled [OF assms(1) a] by auto
qed

lemma lookup_settles:
  assumes "good (dm_cl d)" and d1: "getDelegate guess cc d = (d1, r)"
  shows "deferred_lookup guess cc op missed zero (Suc (Suc n)) d =
    Some (lookup_answer op zero
      (if \<exists>m. r = Inr m \<and> missed (op m) \<and> \<not> cc_Fresh cc (dm_cl d1) then getDelegate guess cc (deferred_Reset cc d1) else (d1, r)))"
proof (cases "\<exists>m. r = Inr m \<and> missed (op m) \<and> \<not> cc_Fresh cc (dm_cl d1)")
  case False
  then show ?thesis using d1 by (cases r) auto
next
  case True
  then obtain m where m: "r = Inr m" "missed (op m)" "\<not> cc_Fresh cc (dm_cl d1)" by blast
  obtain d2 r2 where d2: "getDelegate guess cc (deferred_Reset cc d1) = (d2, r2)" by (metis prod.exhaust)
  have "cc_Fresh cc (dm_cl d2)" if "r2 = Inr m2" for m2
    using after_reset [OF getDelegate_good [OF assms(1) d1]] d2 that by simp
  then show ?thesis using d1 m d2 by (cases r2) auto
qed

lemma lookup_missed:
  assumes "good (dm_cl d)" and "deferred_lookup guess cc op missed zero (Suc (Suc n)) d = Some (d1, v, map_option MapErr e)" and "missed (v, e)"
  shows "cc_Fresh cc (dm_cl d1)"
proof -
  obtain d2 r where d2: "getDelegate guess cc d = (d2, r)" by (metis prod.exhaust)
  obtain d3 r3 where d3: "getDelegate guess cc (deferred_Reset cc d2) = (d3, r3)" by (metis prod.exhaust)
  have inj: "map_option MapErr x = map_option MapErr e \<Longrightarrow> x = e" for x by (cases x; cases e) auto
  have no_err: "map_option MapErr e \<noteq> Some (DiscoveryErr x)" for x by (cases e) auto
  show ?thesis
  proof (cases "\<exists>m. r = Inr m \<and> missed (op m) \<and> \<not> cc_Fresh cc (dm_cl d2)")
    case True
    then have ans: "lookup_answer op zero (d3, r3) = (d1, v, map_option MapErr e)"
      using lookup_settles [OF assms(1) d2, of op missed zero n] assms(2) d3 by simp
    then obtain m where "r3 = Inr m" "d3 = d1" using no_err by (cases r3) (auto dest: sym)
    then show ?thesis using after_reset [OF getDelegate_good [OF assms(1) d2]] d3 by simp
  next
    case False
    then have ans: "lookup_answer op zero (d2, r) = (d1, v, map_option MapErr e)"
      using lookup_settles [OF assms(1) d2, of op missed zero n] assms(2) unfolding if_not_P [OF False] by simp
    then obtain m where "r = Inr m" "d2 = d1" "fst (op m) = v" "snd (op m) = e" using no_err inj by (cases r) (auto dest: sym)
    then show ?thesis using False assms(3) by (metis prod.collapse)
  qed
qed

end

text \<open>The discovery clients that can be reset, as the deferred mapper sees them.\<close>

definition disk_client ::
  "(GroupVersion \<Rightarrow> string) \<Rightarrow> (GroupVersion list \<Rightarrow> GroupVersion list) \<Rightarrow> (resources_map \<Rightarrow> resources_map) \<Rightarrow> ('w, 'c) disk_env \<Rightarrow> ('w, 'e) discovery \<Rightarrow>
     ('c disk \<times> 'w, 'e) cached_client" where
  "disk_client str order rorder env del =
     \<lparr>cc_All = ServerGroupsAndResources str order rorder (disk_discovery env del), cc_Fresh = disk_Fresh, cc_Invalidate = disk_Invalidate del\<rparr>"

definition mem_client ::
  "(GroupVersion list \<Rightarrow> GroupVersion list) \<Rightarrow> (resources_map \<Rightarrow> resources_map) \<Rightarrow> 'e mem_env \<Rightarrow> ('w, 'e) discovery \<Rightarrow>
     ('e memCacheClient \<times> 'w, 'e) cached_client" where
  "mem_client order rorder env del =
     \<lparr>cc_All = ServerGroupsAndResources (me_String env) order rorder (mc_discovery env del), cc_Fresh = mc_Fresh, cc_Invalidate = mc_Invalidate del\<rparr>"

lemma fetch_preserves:
  assumes "\<And>gv s. P s \<Longrightarrow> P (fst (di_Resources d gv s))" and "P s"
  shows "P (fst (fold (fetch_one str d) gvs (s, rs, fs)))"
  using assms(2)
proof (induction gvs arbitrary: s rs fs)
  case (Cons gv gvs)
  obtain s1 out where out: "di_Resources d (str gv) s = (s1, out)" by (metis prod.exhaust)
  then have "P s1" using assms(1) [OF Cons.prems] by (metis fst_conv)
  moreover have "\<exists>rs1 fs1. fetch_one str d gv (s, rs, fs) = (s1, rs1, fs1)" using out by (cases out) (auto simp: fetch_one_def)
  ultimately show ?case using Cons.IH by force
qed simp

lemma all_preserves:
  assumes groups: "\<And>s. P s \<Longrightarrow> P (fst (groups_of d s))" and res: "\<And>gv s. P s \<Longrightarrow> P (fst (di_Resources d gv s))" and "P s"
  shows "P (fst (ServerGroupsAndResources str order rorder d s))"
proof -
  obtain s1 gl rs fs err where g: "groups_of d s = (s1, gl, rs, fs, err)" by (metis prod.exhaust)
  then have "P s1" using groups [OF assms(3)] by (metis fst_conv)
  then have "P (fst (fetchGroupVersionResources str order d groups s1))" for groups
    unfolding fetchGroupVersionResources_def by (intro fetch_preserves [where P = P] res)
  then show ?thesis using \<open>P s1\<close> g
    by (auto simp: ServerGroupsAndResources_def Let_def split: option.splits prod.splits) (metis fst_conv)+
qed

definition disk_settled :: "'c disk \<times> 'w \<Rightarrow> bool" where
  "disk_settled s \<longleftrightarrow> dk_invalidated (fst s) \<and> dk_fresh (fst s)"

lemma getCachedFile_settled: "disk_settled s \<Longrightarrow> getCachedFile env f s = (s1, content) \<Longrightarrow> disk_settled s1"
  by (cases s) (auto simp: getCachedFile_def disk_settled_def split: if_splits option.splits)

lemma disk_groups_settled:
  assumes "disk_settled s"
  shows "disk_settled (fst (groups_of (disk_discovery env del) s))"
proof -
  obtain c w content where f: "getCachedFile env (groups_file env) s = ((c, w), content)" by (metis prod.exhaust)
  have "disk_settled (c, w)" using getCachedFile_settled [OF assms f] .
  then have "disk_settled (c, w1)" "disk_settled (writeCachedFile env (groups_file env) x (c, w1))" for w1 x
    by (auto simp: disk_settled_def writeCachedFile_def split: option.splits)
  then show ?thesis using f
    by (auto simp: groups_of_def disk_discovery_def disk_ServerGroups_def split: option.splits prod.splits if_splits) (metis fst_conv)+
qed

lemma disk_resources_settled:
  assumes "disk_settled s"
  shows "disk_settled (fst (di_Resources (disk_discovery env del) gv s))"
proof -
  obtain c w content where f: "getCachedFile env (resources_file env gv) s = ((c, w), content)" by (metis prod.exhaust)
  have "disk_settled (c, w)" using getCachedFile_settled [OF assms f] .
  then have "disk_settled (c, w1)" "disk_settled (writeCachedFile env (resources_file env gv) x (c, w1))" for w1 x
    by (auto simp: disk_settled_def writeCachedFile_def split: option.splits)
  then show ?thesis using f
    by (auto simp: disk_discovery_def disk_ServerResourcesForGroupVersion_def split: option.splits prod.splits resources_out.splits if_splits)
qed

interpretation dfr: fresh_after_reset "disk_client str order rorder env del" "\<lambda>s. True"
proof
  fix s s1 gs rs err
  assume out: "cc_All (disk_client str order rorder env del) (cc_Invalidate (disk_client str order rorder env del) s) = (s1, gs, rs, err)"
  have "disk_settled (disk_Invalidate del s)" by (cases s) (simp add: disk_Invalidate_def disk_settled_def)
  then have "disk_settled (fst (ServerGroupsAndResources str order rorder (disk_discovery env del) (disk_Invalidate del s)))"
    by (intro all_preserves [where P = disk_settled] disk_groups_settled disk_resources_settled)
  then show "cc_Fresh (disk_client str order rorder env del) s1 \<or> gs = None \<and> err \<noteq> None"
    using out by (simp add: disk_client_def disk_settled_def disk_Fresh_def)
qed auto

text \<open>For the memory cache the delegate has to return a group, an aggregated answer or an error whenever it is asked.\<close>

definition answers :: "('w, 'e) discovery \<Rightarrow> ('w \<Rightarrow> bool) \<Rightarrow> bool" where
  "answers del J \<longleftrightarrow>
     (\<forall>w w1 gl rs fs err. J w \<longrightarrow> groups_of del w = (w1, gl, rs, fs, err) \<longrightarrow> J w1 \<and> (err \<noteq> None \<or> rs \<noteq> None \<or> some_list gl \<noteq> [])) \<and>
     (\<forall>gv w. J w \<longrightarrow> J (fst (di_Resources del gv w))) \<and> (\<forall>w. J w \<longrightarrow> J (invalidate_delegate del w))"

definition mc_good :: "('w, 'e) discovery \<Rightarrow> ('w \<Rightarrow> bool) \<Rightarrow> 'e memCacheClient \<times> 'w \<Rightarrow> bool" where
  "mc_good del J s \<longleftrightarrow> answers del J \<and> J (snd s)"

lemma mc_server_good: "mc_good del J (c, w) \<Longrightarrow> J (fst (mc_serverResourcesForGroupVersion del gv w))"
  by (auto simp: mc_good_def answers_def mc_serverResourcesForGroupVersion_def split: prod.splits resources_out.splits) (metis fst_conv)+

lemma mc_fetch_good: "mc_good del J (c, w) \<Longrightarrow> J (fst (fold (mc_fetch del) gvs (w, es)))"
proof (induction gvs arbitrary: w es)
  case (Cons gv gvs)
  obtain w1 out where out: "mc_serverResourcesForGroupVersion del gv w = (w1, out)" by (metis prod.exhaust)
  then have "mc_good del J (c, w1)" using mc_server_good [OF Cons.prems, of gv] Cons.prems by (simp add: mc_good_def)
  then show ?case using Cons.IH out by (simp add: mc_fetch_def [of del gv])
qed (simp add: mc_good_def)

lemma mc_refresh_settled:
  assumes "mc_good del J s" and out: "mc_refreshLocked env del s = (s1, err)"
  shows "mc_good del J s1 \<and> (mc_cacheValid (fst s1) \<or> err \<noteq> None)"
proof -
  obtain c w where s: "s = (c, w)" by (cases s)
  obtain w1 gl rs fs err1 where g: "groups_of del w = (w1, gl, rs, fs, err1)" by (metis prod.exhaust)
  have G: "J w1" "err1 \<noteq> None \<or> rs \<noteq> None \<or> some_list gl \<noteq> []" and ans: "answers del J"
    using assms(1) g by (auto simp: s mc_good_def answers_def)
  have good1: "mc_good del J (c, w1)" using G ans by (simp add: mc_good_def)
  show ?thesis
  proof (cases "rs \<noteq> None \<and> err1 = None \<or> err1 \<noteq> None \<or> some_list gl = []")
    case True
    then show ?thesis using out g G ans by (auto simp: s mc_refreshLocked_def mc_good_def split: option.splits)
  next
    case False
    obtain w2 es where f: "fold (mc_fetch del) (me_order env (map (gd_GroupVersion \<circ> snd) (group_versions (some_list gl)))) (w1, []) = (w2, es)" by (metis prod.exhaust)
    then have "J w2" using mc_fetch_good [OF good1] by (metis fst_conv)
    then show ?thesis using out g f False ans by (auto simp: s mc_refreshLocked_def mc_good_def split: option.splits)
  qed
qed

lemma mc_ready_good: "mc_good del J s \<Longrightarrow> mc_ready env del s = (s1, err) \<Longrightarrow> mc_good del J s1 \<and> (mc_cacheValid (fst s1) \<or> err \<noteq> None) \<and> (mc_cacheValid (fst s) \<longrightarrow> mc_cacheValid (fst s1))"
  by (cases "mc_cacheValid (fst s)") (auto simp: mc_ready_def dest: mc_refresh_settled)

lemma mc_groups_good:
  assumes "mc_good del J s" and out: "groups_of (mc_discovery env del) s = (s1, gl, rs, fs, err)"
  shows "mc_good del J s1 \<and> (mc_cacheValid (fst s1) \<or> gl = None \<and> err \<noteq> None) \<and> (mc_cacheValid (fst s) \<longrightarrow> mc_cacheValid (fst s1))"
proof -
  obtain c w err1 where r: "mc_ready env del s = ((c, w), err1)" by (metis prod.exhaust)
  then show ?thesis using mc_ready_good [OF assms(1) r] out
    by (auto simp: groups_of_def mc_discovery_def mc_GroupsAndMaybeResources_def split: option.splits sum.splits prod.splits if_splits)
qed

lemma mc_resources_good:
  assumes "mc_good del J s"
  shows "mc_good del J (fst (di_Resources (mc_discovery env del) gv s)) \<and> (mc_cacheValid (fst s) \<longrightarrow> mc_cacheValid (fst (fst (di_Resources (mc_discovery env del) gv s))))"
proof -
  obtain c w err where r: "mc_ready env del s = ((c, w), err)" by (metis prod.exhaust)
  note R = mc_ready_good [OF assms r]
  obtain w1 out where o: "mc_serverResourcesForGroupVersion del gv w = (w1, out)" by (metis prod.exhaust)
  have "J w1" using mc_server_good [of del J c w gv] R o by auto
  then show ?thesis using R r o
    by (auto simp: mc_discovery_def mc_ServerResourcesForGroupVersion_def mc_good_def split: option.splits resources_out.splits)
qed

interpretation mfr: fresh_after_reset "mem_client order rorder env del" "mc_good del J"
proof
  fix s s1 gs rs err
  let ?d = "mc_discovery env del"
  assume good: "mc_good del J s"
  have "mc_good del J (fst (groups_of ?d x))" if "mc_good del J x" for x using mc_groups_good [OF that] by (metis prod.collapse)
  then have "mc_good del J (fst (ServerGroupsAndResources (me_String env) order rorder ?d s))"
    by (rule all_preserves [where P = "mc_good del J"]) (use mc_resources_good good in blast)+
  then show "mc_good del J (fst (cc_All (mem_client order rorder env del) s))" by (simp add: mem_client_def)
  have inv: "mc_good del J (mc_Invalidate del s)" using good by (cases s) (simp add: mc_good_def answers_def mc_Invalidate_def)
  then show "mc_good del J (cc_Invalidate (mem_client order rorder env del) s)" by (simp add: mem_client_def)
  assume out: "cc_All (mem_client order rorder env del) (cc_Invalidate (mem_client order rorder env del) s) = (s1, gs, rs, err)"
  obtain s2 gl rs2 fs2 err2 where g: "groups_of ?d (mc_Invalidate del s) = (s2, gl, rs2, fs2, err2)" by (metis prod.exhaust)
  note G = mc_groups_good [OF inv g]
  show "cc_Fresh (mem_client order rorder env del) s1 \<or> gs = None \<and> err \<noteq> None"
  proof (cases gl)
    case None
    then show ?thesis using out g G by (auto simp: mem_client_def ServerGroupsAndResources_def mc_Fresh_def)
  next
    case (Some groups)
    then have valid: "mc_good del J s2 \<and> mc_cacheValid (fst s2)" using G by simp
    have "(\<lambda>s. mc_good del J s \<and> mc_cacheValid (fst s)) (fst (fetchGroupVersionResources (me_String env) order ?d groups s2))"
      unfolding fetchGroupVersionResources_def
      by (rule fetch_preserves [where P = "\<lambda>s. mc_good del J s \<and> mc_cacheValid (fst s)"]) (use valid mc_resources_good in blast)+
    then show ?thesis using out g Some valid
      by (auto simp: mem_client_def ServerGroupsAndResources_def mc_Fresh_def Let_def split: prod.splits if_splits)
  qed
qed

text \<open>The error of a lookup that discovery did not prevent.\<close>

definition lookup_error :: "('e, 'm) map_err option \<Rightarrow> 'm option option" where
  "lookup_error e = (case e of None \<Rightarrow> Some None | Some (MapErr m) \<Rightarrow> Some (Some m) | Some (DiscoveryErr e) \<Rightarrow> None)"

lemma lookup_error_Some: "lookup_error e = Some me \<longleftrightarrow> e = map_option MapErr me"
  by (cases me) (auto simp: lookup_error_def split: option.splits map_err.splits)

text \<open>
  A deferred mapper after it has asked a discovery client in state \<open>s\<close> for everything, and the mapper it then has: the one \<open>NewDiscoveryRESTMapper\<close> builds from the groups and
  resources of this very call, or none when the call failed.
\<close>

definition rediscovered ::
  "(GVK \<Rightarrow> GVR) \<Rightarrow> ('s \<Rightarrow> 's \<times> 'e all_out) \<Rightarrow> 's \<Rightarrow> 's deferred \<times> ('e disc_err + rest_mapper)" where
  "rediscovered guess all s =
     (case GetAPIGroupResources all s of
        (s1, grs, None) \<Rightarrow> (\<lparr>dm_delegate = Some (NewDiscoveryRESTMapper guess grs), dm_cl = s1\<rparr>, Inr (NewDiscoveryRESTMapper guess grs))
      | (s1, grs, Some e) \<Rightarrow> (\<lparr>dm_delegate = None, dm_cl = s1\<rparr>, Inl e))"

lemma getDelegate_discovered:
  "getDelegate guess cc d = (case dm_delegate d of Some m \<Rightarrow> (d, Inr m) | None \<Rightarrow> rediscovered guess (cc_All cc) (dm_cl d))"
  by (cases d) (auto simp: getDelegate_def rediscovered_def Let_def split: option.split)

lemma reset_discovered: "getDelegate guess cc (deferred_Reset cc d) = rediscovered guess (cc_All cc) (cc_Invalidate cc (dm_cl d))"
  by (simp add: getDelegate_discovered deferred_Reset_def)

text \<open>
  C22. With the disk cache, whatever its files, its delegate and the server do, a lookup of the deferred mapper returns after at most one reset: it gives the answer of the
  mapper it has (or, when it has none yet, of one built from what discovery returns now), except that when this one misses and the cache is not fresh it gives the answer of a
  new mapper, built from what discovery returns when it is asked in the invalidated state; the mapper that answered is kept, with the state of the cache after that call.
  A miss is only reported when the cache is fresh at the end.
\<close>

theorem deferred_lookup_settles:
  "case (case dm_delegate d of
           Some m \<Rightarrow> (d, Inr m)
         | None \<Rightarrow> rediscovered guess (ServerGroupsAndResources str order rorder (disk_discovery env del)) (dm_cl d)) of (d1, r) \<Rightarrow>
     case deferred_lookup guess (disk_client str order rorder env del) op missed zero (Suc (Suc n)) d of
       None \<Rightarrow> False
     | Some (d2, v, e) \<Rightarrow>
         (d2, v, e) =
           lookup_answer op zero
             (if \<exists>m. r = Inr m \<and> missed (op m) \<and> \<not> disk_Fresh (dm_cl d1)
              then rediscovered guess (ServerGroupsAndResources str order rorder (disk_discovery env del)) (disk_Invalidate del (dm_cl d1))
              else (d1, r)) \<and>
         (case lookup_error e of None \<Rightarrow> True | Some me \<Rightarrow> if missed (v, me) then disk_Fresh (dm_cl d2) else True)"
proof -
  let ?cc = "disk_client str order rorder env del"
  obtain d1 r where d1: "getDelegate guess ?cc d = (d1, r)" by (metis prod.exhaust)
  have fresh: "cc_Fresh ?cc = disk_Fresh" by (simp add: disk_client_def)
  have cc: "cc_All ?cc = ServerGroupsAndResources str order rorder (disk_discovery env del)" "cc_Invalidate ?cc = disk_Invalidate del"
    by (simp_all add: disk_client_def)
  note eq = dfr.lookup_settles [OF TrueI d1, of op missed zero n, unfolded fresh reset_discovered cc]
  obtain d2 v e where ans: "lookup_answer op zero (if \<exists>m. r = Inr m \<and> missed (op m) \<and> \<not> disk_Fresh (dm_cl d1)
      then rediscovered guess (ServerGroupsAndResources str order rorder (disk_discovery env del)) (disk_Invalidate del (dm_cl d1))
      else (d1, r)) = (d2, v, e)" by (rule prod_cases3)
  have out: "deferred_lookup guess ?cc op missed zero (Suc (Suc n)) d = Some (d2, v, e)" by (simp only: eq ans)
  have "disk_Fresh (dm_cl d2)" if "lookup_error e = Some me" "missed (v, me)" for me
  proof -
    have e: "e = map_option MapErr me" using that(1) by (simp only: lookup_error_Some)
    show ?thesis using dfr.lookup_missed [OF TrueI out [unfolded e] that(2)] unfolding fresh .
  qed
  then show ?thesis
    unfolding d1 [unfolded getDelegate_discovered cc] out prod.case option.case ans by (simp split: option.split)
qed

text \<open>The memory cache: the same, for a delegate that answers.\<close>

lemma deferred_mem_settles:
  assumes "answers del J" and "J (snd (dm_cl d))"
  shows "deferred_lookup guess (mem_client order rorder env del) op missed zero (Suc (Suc n)) d \<noteq> None"
proof -
  obtain d1 r where d1: "getDelegate guess (mem_client order rorder env del) d = (d1, r)" by (metis prod.exhaust)
  have "mc_good del J (dm_cl d)" using assms by (simp add: mc_good_def)
  note eq = mfr.lookup_settles [OF this d1, of op missed zero n]
  show ?thesis unfolding eq by (rule option.distinct(2))
qed

text \<open>
  A server that has no core group and an empty list of other groups is a possible one, and then the memory cache never becomes valid: the lookup resets the cache and asks the
  server again for ever, whatever the fuel.
\<close>

lemma client_without_groups:
  assumes "dr_Get r ''/api'' (accepted c) w = (w1, Inl e)" and "dr_IsNotFound r e"
    and "dr_Get r ''/apis'' (accepted c) w1 = (w2, Inr (contentType, body))" and "\<not> isV2Beta1ContentType r contentType" and "dr_APIGroups r body = Inr []"
  shows "groups_of (client_discovery r c) w = (w2, Some [], None, Some [], None)"
  using assms by (simp add: groups_of_def client_discovery_def GroupsAndMaybeResources_def downloadLegacy_def downloadAPIs_def some_list_def put_all_def)

lemma deferred_mem_never_returns:
  assumes "\<And>w. \<exists>w1 fs. groups_of del w = (w1, Some [], None, fs, None)" and "missed (op (NewDiscoveryRESTMapper guess []))"
  shows "deferred_lookup guess (mem_client order rorder env del) op missed zero fuel (NewDeferredDiscoveryRESTMapper (NewMemCacheClient, w)) = None"
proof (induction fuel arbitrary: w)
  case (Suc fuel)
  let ?cc = "mem_client order rorder env del"
  obtain w1 fs where g: "groups_of del w = (w1, Some [], None, fs, None)" using assms(1) by blast
  have "groups_of (mc_discovery env del) (NewMemCacheClient, w) = ((NewMemCacheClient, w1), None, None, None, None)"
    using empty_server_nil_groups(1) [OF g] by (simp add: groups_of_def mc_discovery_def)
  then have "cc_All ?cc (NewMemCacheClient, w) = ((NewMemCacheClient, w1), None, None, None)" by (simp add: mem_client_def ServerGroupsAndResources_def)
  then have "getDelegate guess ?cc (NewDeferredDiscoveryRESTMapper (NewMemCacheClient, w)) =
      (\<lparr>dm_delegate = Some (NewDiscoveryRESTMapper guess []), dm_cl = (NewMemCacheClient, w1)\<rparr>, Inr (NewDiscoveryRESTMapper guess []))"
    by (simp add: getDelegate_def GetAPIGroupResources_def NewDeferredDiscoveryRESTMapper_def Let_def)
  moreover have "deferred_Reset ?cc \<lparr>dm_delegate = Some (NewDiscoveryRESTMapper guess []), dm_cl = (NewMemCacheClient, w1)\<rparr> =
      NewDeferredDiscoveryRESTMapper (NewMemCacheClient, invalidate_delegate del w1)"
    by (simp add: deferred_Reset_def NewDeferredDiscoveryRESTMapper_def mem_client_def mc_Invalidate_def NewMemCacheClient_def)
  moreover have "\<not> cc_Fresh ?cc (NewMemCacheClient, w1)" by (simp add: mem_client_def mc_Fresh_def NewMemCacheClient_def)
  ultimately show ?case using Suc assms(2) by simp
qed simp

section \<open>What the mapper is filled with\<close>

definition served_versions :: "APIGroupResources \<Rightarrow> string list" where
  "served_versions gr = filter (\<lambda>v. gr_VersionedResources gr v \<noteq> None) (map gd_Version (ag_Versions (gr_Group gr)))"

text \<open>The versions of a group in the order of their priority: the preferred one if it has resources, then the others in the order of the server.\<close>

definition version_order :: "APIGroupResources \<Rightarrow> string list" where
  "version_order gr =
     (let preferred = gd_Version (ag_PreferredVersion (gr_Group gr))
      in (if preferred \<noteq> [] \<and> gr_VersionedResources gr preferred \<noteq> None then [preferred] else []) @ filter (\<lambda>v. v \<noteq> preferred) (served_versions gr))"

definition version_mappers :: "(GVK \<Rightarrow> GVR) \<Rightarrow> APIGroupResources \<Rightarrow> version_mapper list" where
  "version_mappers guess gr =
     map (\<lambda>v. version_mapper_of guess \<lparr>gv_Group = ag_Name (gr_Group gr), gv_Version = v\<rparr> (the (gr_VersionedResources gr v))) (served_versions gr)"

definition priorities :: "rest_mapper \<Rightarrow> (string \<times> string) list" where
  "priorities m = map (\<lambda>r. (gvr_Group r, gvr_Version r)) (rm_ResourcePriority m)"

definition parallel :: "rest_mapper \<Rightarrow> bool" where
  "parallel m \<longleftrightarrow> (\<forall>r \<in> set (rm_ResourcePriority m). gvr_Resource r = any) \<and> (\<forall>k \<in> set (rm_KindPriority m). gvk_Kind k = any) \<and>
     map (\<lambda>k. (gvk_Group k, gvk_Version k)) (rm_KindPriority m) = priorities m"

lemma add_priority_simps [simp]:
  "rm_Delegate (add_priority g v m) = rm_Delegate m" "priorities (add_priority g v m) = priorities m @ [(g, v)]" "parallel m \<Longrightarrow> parallel (add_priority g v m)"
  by (auto simp: add_priority_def priorities_def parallel_def)

lemma map_versions:
  "rm_Delegate (fold (map_version guess gr) vs m) =
     rm_Delegate m @ map (\<lambda>v. version_mapper_of guess \<lparr>gv_Group = ag_Name (gr_Group gr), gv_Version = v\<rparr> (the (gr_VersionedResources gr v)))
       (filter (\<lambda>v. gr_VersionedResources gr v \<noteq> None) (map gd_Version vs)) \<and>
   priorities (fold (map_version guess gr) vs m) =
     priorities m @ map (Pair (ag_Name (gr_Group gr))) (filter (\<lambda>v. v \<noteq> gd_Version (ag_PreferredVersion (gr_Group gr)))
       (filter (\<lambda>v. gr_VersionedResources gr v \<noteq> None) (map gd_Version vs))) \<and>
   (parallel m \<longrightarrow> parallel (fold (map_version guess gr) vs m))"
proof (induction vs arbitrary: m)
  case (Cons v vs)
  have same: "priorities (m\<lparr>rm_Delegate := x\<rparr>) = priorities m" "parallel (m\<lparr>rm_Delegate := x\<rparr>) = parallel m" for x m
    by (simp_all add: priorities_def parallel_def)
  show ?case
    using Cons.IH [of "map_version guess gr v m"]
    by (cases "gr_VersionedResources gr (gd_Version v)") (simp_all add: map_version_def [of guess gr v] Let_def same)
qed simp

lemma map_group_exact:
  "rm_Delegate (map_group guess gr m) = rm_Delegate m @ version_mappers guess gr \<and>
   priorities (map_group guess gr m) = priorities m @ map (Pair (ag_Name (gr_Group gr))) (version_order gr) \<and>
   (parallel m \<longrightarrow> parallel (map_group guess gr m))"
  using map_versions [of guess gr "ag_Versions (gr_Group gr)"]
  by (simp add: map_group_def Let_def version_order_def version_mappers_def served_versions_def)

lemma discovery_mapper_exact:
  "rm_Delegate (NewDiscoveryRESTMapper guess grs) = concat (map (version_mappers guess) grs) \<and>
   priorities (NewDiscoveryRESTMapper guess grs) =
     ([], ''v1'') # concat (map (\<lambda>gr. map (Pair (ag_Name (gr_Group gr))) (version_order gr)) grs) @ map (\<lambda>gr. (ag_Name (gr_Group gr), any)) grs \<and>
   parallel (NewDiscoveryRESTMapper guess grs)"
proof -
  have groups: "rm_Delegate (fold (map_group guess) grs m) = rm_Delegate m @ concat (map (version_mappers guess) grs) \<and>
      priorities (fold (map_group guess) grs m) = priorities m @ concat (map (\<lambda>gr. map (Pair (ag_Name (gr_Group gr))) (version_order gr)) grs) \<and>
      (parallel m \<longrightarrow> parallel (fold (map_group guess) grs m))" for m
    by (induction grs arbitrary: m) (simp_all add: map_group_exact)
  have last: "rm_Delegate (fold (\<lambda>gr. add_priority (ag_Name (gr_Group gr)) any) grs m) = rm_Delegate m \<and>
      priorities (fold (\<lambda>gr. add_priority (ag_Name (gr_Group gr)) any) grs m) = priorities m @ map (\<lambda>gr. (ag_Name (gr_Group gr), any)) grs \<and>
      (parallel m \<longrightarrow> parallel (fold (\<lambda>gr. add_priority (ag_Name (gr_Group gr)) any) grs m))" for m
    by (induction grs arbitrary: m) simp_all
  have "parallel \<lparr>rm_Delegate = [], rm_ResourcePriority = [], rm_KindPriority = []\<rparr>" by (simp add: parallel_def priorities_def)
  then show ?thesis using groups last by (simp add: NewDiscoveryRESTMapper_def Let_def add_priority_simps priorities_def [of "\<lparr>rm_Delegate = [], rm_ResourcePriority = [], rm_KindPriority = []\<rparr>"])
qed

lemma no_subresource_mapped:
  "m \<in> set (version_mappers guess gr) \<Longrightarrow> AddSpecific k plural singular scope \<in> set (vm_calls m) \<Longrightarrow> \<not> contains (gvr_Resource plural) ''/''"
  by (auto simp: version_mappers_def version_mapper_of_def resource_calls_def Let_def WithResource_def split: if_splits)

section \<open>Shortcuts and categories\<close>

lemma shortcut_origin:
  assumes "item \<in> set (getShortcutMappings parse rls)"
  shows "\<exists>rl \<in> set rls. full_name parse (use_long item r) rl"
proof -
  obtain rl gv a where "rl \<in> set rls" "parse (rl_GroupVersion rl) = Some gv" "a \<in> set (rl_APIResources rl)" "rs_LongForm item = (gv_Group gv, ar_Name a)"
    using assms by (auto simp: getShortcutMappings_def list_shortcuts_def split: option.splits dest: sym)
  then show ?thesis by (intro bexI [of _ rl]) (auto simp: full_name_def use_long_def list_ex_iff)
qed

text \<open>A full name stays as it is; what a short name stands for is a full name, so that expanding twice is expanding once.\<close>

lemma expand_full_name: "list_ex (full_name parse r) rls \<Longrightarrow> expandResourceShortcut parse rls r = r"
  by (simp add: expandResourceShortcut_def)

lemma expand_cases:
  "expandResourceShortcut parse rls r = r \<or> list_ex (full_name parse (expandResourceShortcut parse rls r)) rls"
proof -
  have "list_ex (full_name parse (use_long item r)) rls" if "find P (getShortcutMappings parse rls) = Some item" for P item
    using that shortcut_origin [of item parse rls r] by (auto simp: find_Some_iff list_ex_iff)
  then show ?thesis by (auto simp: expandResourceShortcut_def split: option.splits)
qed

lemma expand_idempotent: "expandResourceShortcut parse rls (expandResourceShortcut parse rls r) = expandResourceShortcut parse rls r"
  using expand_cases [of parse rls r] expand_full_name by metis

lemma discovered_exact:
  "discovered parse rls c =
     (let grs = map snd (filter (\<lambda>p. fst p = c) (concat (map (list_categories parse) rls))) in if grs = [] then None else Some grs)"
proof -
  have "fold (\<lambda>(c, gr) m. m(c \<mapsto> (case m c of None \<Rightarrow> [] | Some xs \<Rightarrow> xs) @ [gr])) ps Map.empty c =
      (let grs = map snd (filter (\<lambda>p. fst p = c) ps) in if grs = [] then None else Some grs)" for ps :: "(string \<times> group_resource) list"
    by (induction ps rule: rev_induct) (auto simp: Let_def split: prod.splits option.splits if_splits)
  then show ?thesis unfolding discovered_def .
qed

lemma union_exact:
  "distinct (fst (union_Expand es c)) \<and> set (fst (union_Expand es c)) = (\<Union>e \<in> set es. set (fst (e c))) \<and> snd (union_Expand es c) = (\<exists>e \<in> set es. snd (e c))"
proof -
  have add: "set (fold add_new xs ret) = set ret \<union> set xs \<and> (distinct ret \<longrightarrow> distinct (fold add_new xs ret))" for xs ret
    by (induction xs arbitrary: ret) (auto simp: add_new_def list_ex_iff)
  show ?thesis unfolding union_Expand_def
    by (induction es rule: rev_induct) (auto simp: add split: prod.splits)
qed

end
