(* ===== verification/ClientConfiguration.thy ===== *)
theory ClientConfiguration
  imports GoStrings
begin

text \<open>
  \<open>tools/clientcmd\<close>: kubeconfig files, their validation (\<open>validation.go\<close>), the helpers of \<open>api/helpers.go\<close>, paths and the loading of one file (\<open>loader.go\<close>).

  A map is an association list, in the order in which a function ranges over it; no function ranges twice over the same map. A byte slice is an option, since the code tells
  a nil slice from an empty one, and so are the maps that \<open>reflect.DeepEqual\<close> compares. Extensions are of a type \<open>'x\<close>. The legacy fields \<open>Kind\<close> and \<open>APIVersion\<close>
  of a configuration, which nothing reads, are left out. The library mergo, the codecs and the file system are arguments.
  \<open>RedactSecrets\<close> works by reflection: \<open>rv\<close> is a value as \<open>reflect\<close> shows it, with the tags of the fields of a struct.

  The lemmas: a minimised configuration is valid as a whole exactly when the context it was made for is usable, redaction replaces the tagged fields and nothing else, and a
  flattened configuration names no files.
\<close>

section \<open>Configurations\<close>

type_synonym bytes = "string option"

type_synonym 'x extensions = "(string \<times> 'x) list option"

record 'x Cluster =
  cl_LocationOfOrigin :: string
  cl_Server :: string
  cl_TLSServerName :: string
  cl_InsecureSkipTLSVerify :: bool
  cl_CertificateAuthority :: string
  cl_CertificateAuthorityData :: bytes
  cl_ProxyURL :: string
  cl_DisableCompression :: bool
  cl_Extensions :: "'x extensions"

record AuthProviderConfig =
  ap_Name :: string
  ap_Config :: "(string \<times> string) list option"

record 'x ExecConfig =
  ec_Command :: string
  ec_Args :: "string list"
  ec_Env :: "(string \<times> string) list"
  ec_APIVersion :: string
  ec_InstallHint :: string
  ec_ProvideClusterInfo :: bool
  ec_Config :: "'x option"
  ec_InteractiveMode :: string
  ec_StdinUnavailable :: bool
  ec_StdinUnavailableMessage :: string

record 'x AuthInfo =
  au_LocationOfOrigin :: string
  au_ClientCertificate :: string
  au_ClientCertificateData :: bytes
  au_ClientKey :: string
  au_ClientKeyData :: bytes
  au_Token :: string
  au_TokenFile :: string
  au_Impersonate :: string
  au_ImpersonateUID :: string
  au_ImpersonateGroups :: "string list"
  au_ImpersonateUserExtra :: "(string \<times> string list) list option"
  au_Username :: string
  au_Password :: string
  au_AuthProvider :: "AuthProviderConfig option"
  au_Exec :: "'x ExecConfig option"
  au_Extensions :: "'x extensions"

record 'x Context =
  cx_LocationOfOrigin :: string
  cx_Cluster :: string
  cx_AuthInfo :: string
  cx_Namespace :: string
  cx_Extensions :: "'x extensions"

record 'x Config =
  cf_Colors :: bool
  cf_PreferenceExtensions :: "(string \<times> 'x) list"
  cf_Clusters :: "(string \<times> 'x Cluster) list"
  cf_AuthInfos :: "(string \<times> 'x AuthInfo) list"
  cf_Contexts :: "(string \<times> 'x Context) list"
  cf_CurrentContext :: string
  cf_Extensions :: "(string \<times> 'x) list"

definition zero_Cluster :: "'x Cluster" where
  "zero_Cluster = \<lparr>cl_LocationOfOrigin = [], cl_Server = [], cl_TLSServerName = [], cl_InsecureSkipTLSVerify = False, cl_CertificateAuthority = [],
     cl_CertificateAuthorityData = None, cl_ProxyURL = [], cl_DisableCompression = False, cl_Extensions = None\<rparr>"

definition NewCluster :: "'x Cluster" where
  "NewCluster = zero_Cluster\<lparr>cl_Extensions := Some []\<rparr>"

definition zero_AuthInfo :: "'x AuthInfo" where
  "zero_AuthInfo = \<lparr>au_LocationOfOrigin = [], au_ClientCertificate = [], au_ClientCertificateData = None, au_ClientKey = [], au_ClientKeyData = None, au_Token = [],
     au_TokenFile = [], au_Impersonate = [], au_ImpersonateUID = [], au_ImpersonateGroups = [], au_ImpersonateUserExtra = None, au_Username = [], au_Password = [],
     au_AuthProvider = None, au_Exec = None, au_Extensions = None\<rparr>"

definition NewAuthInfo :: "'x AuthInfo" where
  "NewAuthInfo = zero_AuthInfo\<lparr>au_Extensions := Some [], au_ImpersonateUserExtra := Some []\<rparr>"

definition zero_Context :: "'x Context" where
  "zero_Context = \<lparr>cx_LocationOfOrigin = [], cx_Cluster = [], cx_AuthInfo = [], cx_Namespace = [], cx_Extensions = None\<rparr>"

definition NewContext :: "'x Context" where
  "NewContext = zero_Context\<lparr>cx_Extensions := Some []\<rparr>"

definition NewConfig :: "'x Config" where
  "NewConfig = \<lparr>cf_Colors = False, cf_PreferenceExtensions = [], cf_Clusters = [], cf_AuthInfos = [], cf_Contexts = [], cf_CurrentContext = [], cf_Extensions = []\<rparr>"

definition no_bytes :: "bytes \<Rightarrow> bool" where
  "no_bytes b \<longleftrightarrow> b = None \<or> b = Some []"

section \<open>Validation\<close>

datatype cfg_err =
    ErrEmptyConfig
  | ErrNoContext
  | ErrEmptyCluster
  | ContextNotFound string
  | NoServer string
  | InvalidProxyURL string string
  | BothCAs string
  | UnreadableCA string string
  | BothCerts string
  | BothKeys string
  | NoKey string
  | UnreadableCert string string
  | UnreadableKey string string
  | ExecAndAuthProvider string
  | ExecNoCommand string
  | ExecNoAPIVersion string
  | ExecNoEnvName string
  | ExecNoInteractiveMode string
  | ExecBadInteractiveMode string string
  | ManyAuthMethods string "string list"
  | NoImpersonatedUser string
  | EmptyContextName
  | NoUser string
  | UserNotFound string string
  | NoCluster string
  | ClusterNotFound string string
  | BadNamespace string string
  | DoesNotExist string
  | NoCurrentContext
  | CannotLocate string
  | PathAndContents
  | OSError
  | FileNotExist
  | LoadingFile string cfg_err
  | Aggregate "cfg_err list"
  | NoLocationOfOrigin
  | RequiresBacksteps string
  | NoConfigToWrite
  | ConfigurationInvalid "cfg_err list"

text \<open>Whether a file can be opened, the scheme of a URL that can be parsed, and the check for DNS labels of apimachinery.\<close>

record validate_env =
  ve_Open :: "string \<Rightarrow> bool"
  ve_Scheme :: "string \<Rightarrow> string option"
  ve_IsDNS1123Label :: "string \<Rightarrow> bool"

definition newErrConfigurationInvalid :: "cfg_err list \<Rightarrow> cfg_err option" where
  "newErrConfigurationInvalid errs = (if errs = [] then None else Some (ConfigurationInvalid errs))"

definition IsEmptyConfig :: "cfg_err option \<Rightarrow> bool" where
  "IsEmptyConfig err =
     (case err of
        Some (ConfigurationInvalid errs) \<Rightarrow> errs = [ErrEmptyConfig]
      | Some e \<Rightarrow> e = ErrEmptyConfig
      | None \<Rightarrow> False)"

text \<open>\<open>text\<close> is the method \<open>Error\<close>.\<close>

definition IsContextNotFound :: "(cfg_err \<Rightarrow> string) \<Rightarrow> cfg_err option \<Rightarrow> bool" where
  "IsContextNotFound text err =
     (case err of
        None \<Rightarrow> False
      | Some (ContextNotFound n) \<Rightarrow> True
      | Some e \<Rightarrow> e = ErrNoContext \<or> contains (text e) ''context was not found for specified context'')"

definition IsConfigurationInvalid :: "(cfg_err \<Rightarrow> string) \<Rightarrow> cfg_err option \<Rightarrow> bool" where
  "IsConfigurationInvalid text err =
     (case err of
        Some (ContextNotFound n) \<Rightarrow> True
      | Some (ConfigurationInvalid errs) \<Rightarrow> True
      | _ \<Rightarrow> IsContextNotFound text err)"

definition parseProxyURL :: "validate_env \<Rightarrow> string \<Rightarrow> bool" where
  "parseProxyURL env proxyURL = (case ve_Scheme env proxyURL of None \<Rightarrow> False | Some s \<Rightarrow> s = ''http'' \<or> s = ''https'' \<or> s = ''socks5'')"

abbreviation (input) err_if :: "bool \<Rightarrow> cfg_err \<Rightarrow> cfg_err list" where
  "err_if b e \<equiv> (if b then [e] else [])"

definition validateClusterInfo :: "validate_env \<Rightarrow> string \<Rightarrow> 'x Cluster \<Rightarrow> cfg_err list" where
  "validateClusterInfo env name c =
     (if c = NewCluster then [ErrEmptyCluster]
      else err_if (cl_Server c = []) (NoServer name) @
           err_if (cl_ProxyURL c \<noteq> [] \<and> \<not> parseProxyURL env (cl_ProxyURL c)) (InvalidProxyURL (cl_ProxyURL c) name) @
           err_if (cl_CertificateAuthority c \<noteq> [] \<and> \<not> no_bytes (cl_CertificateAuthorityData c)) (BothCAs name) @
           err_if (cl_CertificateAuthority c \<noteq> [] \<and> \<not> ve_Open env (cl_CertificateAuthority c)) (UnreadableCA (cl_CertificateAuthority c) name))"

definition auth_methods :: "'x AuthInfo \<Rightarrow> string list" where
  "auth_methods a = (if au_Token a \<noteq> [] then [''token''] else []) @ (if au_Username a \<noteq> [] \<or> au_Password a \<noteq> [] then [''basicAuth''] else [])"

definition validate_cert :: "validate_env \<Rightarrow> string \<Rightarrow> 'x AuthInfo \<Rightarrow> cfg_err list" where
  "validate_cert env name a =
     (if au_ClientCertificate a \<noteq> [] \<or> \<not> no_bytes (au_ClientCertificateData a)
      then err_if (au_ClientCertificate a \<noteq> [] \<and> \<not> no_bytes (au_ClientCertificateData a)) (BothCerts name) @
           err_if (au_ClientKey a \<noteq> [] \<and> \<not> no_bytes (au_ClientKeyData a)) (BothKeys name) @
           err_if (au_ClientKey a = [] \<and> no_bytes (au_ClientKeyData a)) (NoKey name) @
           err_if (au_ClientCertificate a \<noteq> [] \<and> \<not> ve_Open env (au_ClientCertificate a)) (UnreadableCert (au_ClientCertificate a) name) @
           err_if (au_ClientKey a \<noteq> [] \<and> \<not> ve_Open env (au_ClientKey a)) (UnreadableKey (au_ClientKey a) name)
      else [])"

definition validate_exec :: "string \<Rightarrow> 'x AuthInfo \<Rightarrow> 'x ExecConfig \<Rightarrow> cfg_err list" where
  "validate_exec name a e =
     err_if (au_AuthProvider a \<noteq> None) (ExecAndAuthProvider name) @
     err_if (ec_Command e = []) (ExecNoCommand name) @
     err_if (ec_APIVersion e = []) (ExecNoAPIVersion name) @
     concat (map (\<lambda>v. err_if (fst v = []) (ExecNoEnvName name)) (ec_Env e)) @
     (if ec_InteractiveMode e = [] then [ExecNoInteractiveMode name]
      else if ec_InteractiveMode e \<in> {''Never'', ''IfAvailable'', ''Always''} then []
      else [ExecBadInteractiveMode name (ec_InteractiveMode e)])"

definition validateAuthInfo :: "validate_env \<Rightarrow> string \<Rightarrow> 'x AuthInfo \<Rightarrow> cfg_err list" where
  "validateAuthInfo env name a =
     validate_cert env name a @
     (case au_Exec a of None \<Rightarrow> [] | Some e \<Rightarrow> validate_exec name a e) @
     err_if (length (auth_methods a) > 1) (ManyAuthMethods name (auth_methods a)) @
     err_if ((au_ImpersonateUID a \<noteq> [] \<or> au_ImpersonateGroups a \<noteq> [] \<or> (au_ImpersonateUserExtra a \<noteq> None \<and> au_ImpersonateUserExtra a \<noteq> Some [])) \<and>
             au_Impersonate a = []) (NoImpersonatedUser name)"

definition validateContext :: "validate_env \<Rightarrow> string \<Rightarrow> 'x Context \<Rightarrow> 'x Config \<Rightarrow> cfg_err list" where
  "validateContext env name ctx config =
     err_if (name = []) EmptyContextName @
     (if cx_AuthInfo ctx = [] then [NoUser name]
      else err_if (map_of (cf_AuthInfos config) (cx_AuthInfo ctx) = None) (UserNotFound (cx_AuthInfo ctx) name)) @
     (if cx_Cluster ctx = [] then [NoCluster name]
      else err_if (map_of (cf_Clusters config) (cx_Cluster ctx) = None) (ClusterNotFound (cx_Cluster ctx) name)) @
     err_if (cx_Namespace ctx \<noteq> [] \<and> \<not> ve_IsDNS1123Label env (cx_Namespace ctx)) (BadNamespace (cx_Namespace ctx) name)"

definition IsConfigEmpty :: "'x Config \<Rightarrow> bool" where
  "IsConfigEmpty config \<longleftrightarrow>
     cf_AuthInfos config = [] \<and> cf_Clusters config = [] \<and> cf_Contexts config = [] \<and> cf_CurrentContext config = [] \<and>
     cf_PreferenceExtensions config = [] \<and> \<not> cf_Colors config \<and> cf_Extensions config = []"

definition Validate :: "validate_env \<Rightarrow> 'x Config \<Rightarrow> cfg_err option" where
  "Validate env config =
     (if IsConfigEmpty config then newErrConfigurationInvalid [ErrEmptyConfig]
      else newErrConfigurationInvalid
        (err_if (cf_CurrentContext config \<noteq> [] \<and> map_of (cf_Contexts config) (cf_CurrentContext config) = None) (ContextNotFound (cf_CurrentContext config)) @
         concat (map (\<lambda>(n, ctx). validateContext env n ctx config) (cf_Contexts config)) @
         concat (map (\<lambda>(n, a). validateAuthInfo env n a) (cf_AuthInfos config)) @
         concat (map (\<lambda>(n, c). validateClusterInfo env n c) (cf_Clusters config))))"

definition ConfirmUsable :: "validate_env \<Rightarrow> 'x Config \<Rightarrow> string \<Rightarrow> cfg_err option" where
  "ConfirmUsable env config passedContextName =
     (if IsConfigEmpty config then newErrConfigurationInvalid [ErrEmptyConfig]
      else let contextName = (if passedContextName \<noteq> [] then passedContextName else cf_CurrentContext config)
           in if contextName = [] then Some ErrNoContext
              else case map_of (cf_Contexts config) contextName of
                     None \<Rightarrow> newErrConfigurationInvalid [ContextNotFound contextName]
                   | Some ctx \<Rightarrow>
                       newErrConfigurationInvalid
                         (validateContext env contextName ctx config @
                          validateAuthInfo env (cx_AuthInfo ctx) (case map_of (cf_AuthInfos config) (cx_AuthInfo ctx) of None \<Rightarrow> zero_AuthInfo | Some a \<Rightarrow> a) @
                          validateClusterInfo env (cx_Cluster ctx) (case map_of (cf_Clusters config) (cx_Cluster ctx) of None \<Rightarrow> zero_Cluster | Some c \<Rightarrow> c)))"

section \<open>Helpers\<close>

definition keep_named :: "string \<Rightarrow> (string \<times> 'a) list \<Rightarrow> cfg_err + (string \<times> 'a) list" where
  "keep_named n m = (if n = [] then Inr [] else case map_of m n of None \<Rightarrow> Inl (CannotLocate n) | Some x \<Rightarrow> Inr [(n, x)])"

text \<open>A configuration that cannot be minimised is left as it is.\<close>

definition MinifyConfig :: "'x Config \<Rightarrow> cfg_err + 'x Config" where
  "MinifyConfig config =
     (if cf_CurrentContext config = [] then Inl NoCurrentContext
      else case map_of (cf_Contexts config) (cf_CurrentContext config) of
             None \<Rightarrow> Inl (CannotLocate (cf_CurrentContext config))
           | Some ctx \<Rightarrow>
               (case keep_named (cx_Cluster ctx) (cf_Clusters config) of
                  Inl e \<Rightarrow> Inl e
                | Inr newClusters \<Rightarrow>
                    (case keep_named (cx_AuthInfo ctx) (cf_AuthInfos config) of
                       Inl e \<Rightarrow> Inl e
                     | Inr newAuthInfos \<Rightarrow>
                         Inr (config\<lparr>cf_AuthInfos := newAuthInfos, cf_Clusters := newClusters, cf_Contexts := [(cf_CurrentContext config, ctx)]\<rparr>))))"

text \<open>\<open>omitted\<close> is what decodes to the text \<open>DATA+OMITTED\<close>.\<close>

definition shorten_data :: "string \<Rightarrow> bytes \<Rightarrow> bytes" where
  "shorten_data omitted b = (if no_bytes b then b else Some omitted)"

definition ShortenConfig :: "string \<Rightarrow> 'x Config \<Rightarrow> 'x Config" where
  "ShortenConfig omitted config =
     config\<lparr>cf_AuthInfos := map (apsnd (\<lambda>a. a\<lparr>au_ClientKeyData := shorten_data omitted (au_ClientKeyData a),
              au_ClientCertificateData := shorten_data omitted (au_ClientCertificateData a), au_Token := (if au_Token a \<noteq> [] then ''REDACTED'' else [])\<rparr>)) (cf_AuthInfos config),
            cf_Clusters := map (apsnd (\<lambda>c. c\<lparr>cl_CertificateAuthorityData := shorten_data omitted (cl_CertificateAuthorityData c)\<rparr>)) (cf_Clusters config)\<rparr>"

text \<open>The files, the working directory and \<open>path.Dir\<close>.\<close>

record path_env =
  pe_ReadFile :: "string \<Rightarrow> string option"
  pe_Getwd :: "string option"
  pe_Dir :: "string \<Rightarrow> string"
  pe_Rel :: "string \<Rightarrow> string \<Rightarrow> string option"

definition IsAbs :: "string \<Rightarrow> bool" where
  "IsAbs p = has_prefix p ''/''"

definition ResolvePath :: "string \<Rightarrow> string \<Rightarrow> string" where
  "ResolvePath p base = (if p \<noteq> [] \<and> \<not> IsAbs p then path_Join [base, p] else p)"

definition MakeAbs :: "path_env \<Rightarrow> string \<Rightarrow> string \<Rightarrow> cfg_err + string" where
  "MakeAbs env p base =
     (if IsAbs p then Inr p
      else if base = [] then (case pe_Getwd env of None \<Rightarrow> Inl OSError | Some cwd \<Rightarrow> Inr (path_Join [cwd, p]))
      else Inr (path_Join [base, p]))"

definition FlattenContent :: "path_env \<Rightarrow> string \<Rightarrow> bytes \<Rightarrow> string \<Rightarrow> cfg_err + string \<times> bytes" where
  "FlattenContent env p contents baseDir =
     (if p = [] then Inr (p, contents)
      else if \<not> no_bytes contents then Inl PathAndContents
      else case pe_ReadFile env (ResolvePath p baseDir) of None \<Rightarrow> Inl OSError | Some data \<Rightarrow> Inr ([], Some data))"

definition flatten_auth :: "path_env \<Rightarrow> 'x AuthInfo \<Rightarrow> cfg_err + 'x AuthInfo" where
  "flatten_auth env a =
     (case MakeAbs env (pe_Dir env (au_LocationOfOrigin a)) [] of
        Inl e \<Rightarrow> Inl e
      | Inr baseDir \<Rightarrow>
          (case FlattenContent env (au_ClientCertificate a) (au_ClientCertificateData a) baseDir of
             Inl e \<Rightarrow> Inl e
           | Inr (cert, certData) \<Rightarrow>
               (case FlattenContent env (au_ClientKey a) (au_ClientKeyData a) baseDir of
                  Inl e \<Rightarrow> Inl e
                | Inr (key, keyData) \<Rightarrow>
                    Inr (a\<lparr>au_ClientCertificate := cert, au_ClientCertificateData := certData, au_ClientKey := key, au_ClientKeyData := keyData\<rparr>))))"

definition flatten_cluster :: "path_env \<Rightarrow> 'x Cluster \<Rightarrow> cfg_err + 'x Cluster" where
  "flatten_cluster env c =
     (case MakeAbs env (pe_Dir env (cl_LocationOfOrigin c)) [] of
        Inl e \<Rightarrow> Inl e
      | Inr baseDir \<Rightarrow>
          (case FlattenContent env (cl_CertificateAuthority c) (cl_CertificateAuthorityData c) baseDir of
             Inl e \<Rightarrow> Inl e
           | Inr (ca, caData) \<Rightarrow> Inr (c\<lparr>cl_CertificateAuthority := ca, cl_CertificateAuthorityData := caData\<rparr>)))"

text \<open>Each value of a map in turn, until one fails; the values before it have been changed, which the error value here does not show.\<close>

fun each_value :: "('a \<Rightarrow> cfg_err + 'a) \<Rightarrow> (string \<times> 'a) list \<Rightarrow> cfg_err + (string \<times> 'a) list" where
  "each_value f [] = Inr []"
| "each_value f ((k, x) # m) =
     (case f x of Inl e \<Rightarrow> Inl e | Inr y \<Rightarrow> (case each_value f m of Inl e \<Rightarrow> Inl e | Inr n \<Rightarrow> Inr ((k, y) # n)))"

definition FlattenConfig :: "path_env \<Rightarrow> 'x Config \<Rightarrow> cfg_err + 'x Config" where
  "FlattenConfig env config =
     (case each_value (flatten_auth env) (cf_AuthInfos config) of
        Inl e \<Rightarrow> Inl e
      | Inr auths \<Rightarrow>
          (case each_value (flatten_cluster env) (cf_Clusters config) of
             Inl e \<Rightarrow> Inl e
           | Inr clusters \<Rightarrow> Inr (config\<lparr>cf_AuthInfos := auths, cf_Clusters := clusters\<rparr>)))"

subsection \<open>Redaction by reflection\<close>

text \<open>
  A value as \<open>reflect\<close> shows it: the fields of a struct carry the tag \<open>datapolicy\<close>. \<open>ROther\<close> is a value of any other kind.
\<close>

datatype 'x rv =
    RMap "(string \<times> 'x rv) list"
  | RString string
  | RBytes bytes
  | RSlice "'x rv list"
  | RStruct "(string \<times> 'x rv) list"
  | RPtr "'x rv option"
  | ROther 'x

definition tag_name :: "string \<Rightarrow> string" where
  "tag_name tag = hd (strings_Split tag CHR '','')"

fun all_some :: "'a option list \<Rightarrow> 'a list option" where
  "all_some [] = Some []"
| "all_some (x # xs) = (case x of None \<Rightarrow> None | Some y \<Rightarrow> map_option (Cons y) (all_some xs))"

lemma rv_size_fields: "(k, v) \<in> set m \<Longrightarrow> size v < Suc (size_list (size_prod f size) m)"
  by (induction m) auto

lemma rv_size_elements: "v \<in> set vs \<Longrightarrow> size v < Suc (size_list size vs)"
  by (induction vs) auto

text \<open>
  The switch on the kind of a value; \<open>settable\<close> is false for the values of a map, on which \<open>SetString\<close> and \<open>SetBytes\<close> panic.
\<close>

function redact_switch :: "bool \<Rightarrow> bool \<Rightarrow> 'x rv \<Rightarrow> 'x rv option"
  and redactSecrets :: "bool \<Rightarrow> bool \<Rightarrow> 'x rv \<Rightarrow> 'x rv option" where
  "redact_switch settable redact (RMap m) =
     map_option (\<lambda>vs. RMap (zip (map fst m) vs)) (all_some (map (\<lambda>v. redactSecrets False False v) (map snd m)))"
| "redact_switch settable redact (RString s) =
     (if redact \<and> s \<noteq> [] then (if settable then Some (RString ''REDACTED'') else None) else Some (RString s))"
| "redact_switch settable redact (RBytes b) =
     (if redact \<and> b \<noteq> None then (if settable then Some (RBytes (Some ''REDACTED'')) else None) else Some (RBytes b))"
| "redact_switch settable redact (RSlice vs) = map_option RSlice (all_some (map (\<lambda>v. redactSecrets True False v) vs))"
| "redact_switch settable redact (RStruct fs) =
     map_option (\<lambda>vs. RStruct (zip (map fst fs) vs)) (all_some (map (\<lambda>(t, v). redactSecrets settable (tag_name t \<noteq> []) v) fs))"
| "redact_switch settable redact (RPtr p) = Some (RPtr p)"
| "redact_switch settable redact (ROther x) = Some (ROther x)"
| "redactSecrets settable redact v =
     (case v of
        RPtr None \<Rightarrow> Some (RPtr None)
      | RPtr (Some w) \<Rightarrow> map_option (\<lambda>u. RPtr (Some u)) (redact_switch True redact w)
      | _ \<Rightarrow> redact_switch settable redact v)"
  by pat_completeness auto

termination
  by (relation "measure (\<lambda>x. case x of Inl (_, _, v) \<Rightarrow> 2 * size v | Inr (_, _, v) \<Rightarrow> 2 * size v + 1)")
    (auto dest: rv_size_fields [where f = "\<lambda>_. 0"] rv_size_elements split: rv.splits)

text \<open>The types of the package as \<open>reflect\<close> shows them; booleans and interface values are of other kinds, and a nil interface is shown like a nil pointer.\<close>

type_synonym 'x tree = "(bool + 'x) rv"

definition plain_field :: "'x tree \<Rightarrow> string \<times> 'x tree" where
  "plain_field v = ([], v)"

definition reflect_bool :: "bool \<Rightarrow> 'x tree" where
  "reflect_bool b = ROther (Inl b)"

definition reflect_objects :: "(string \<times> 'x) list \<Rightarrow> 'x tree" where
  "reflect_objects m = RMap (map (apsnd (\<lambda>x. ROther (Inr x))) m)"

definition reflect_strings :: "(string \<times> string) list \<Rightarrow> 'x tree" where
  "reflect_strings m = RMap (map (apsnd RString) m)"

definition opt_list :: "'a list option \<Rightarrow> 'a list" where
  "opt_list m = (case m of None \<Rightarrow> [] | Some xs \<Rightarrow> xs)"

definition reflect_Cluster :: "'x Cluster \<Rightarrow> 'x tree" where
  "reflect_Cluster c = RStruct (map plain_field
     [RString (cl_LocationOfOrigin c), RString (cl_Server c), RString (cl_TLSServerName c), reflect_bool (cl_InsecureSkipTLSVerify c),
      RString (cl_CertificateAuthority c), RBytes (cl_CertificateAuthorityData c), RString (cl_ProxyURL c), reflect_bool (cl_DisableCompression c),
      reflect_objects (opt_list (cl_Extensions c))])"

definition reflect_AuthProvider :: "AuthProviderConfig \<Rightarrow> 'x tree" where
  "reflect_AuthProvider p = RStruct (map plain_field [RString (ap_Name p), reflect_strings (opt_list (ap_Config p))])"

definition reflect_Exec :: "'x ExecConfig \<Rightarrow> 'x tree" where
  "reflect_Exec e = RStruct (map plain_field
     [RString (ec_Command e), RSlice (map RString (ec_Args e)), RSlice (map (\<lambda>(n, v). RStruct (map plain_field [RString n, RString v])) (ec_Env e)),
      RString (ec_APIVersion e), RString (ec_InstallHint e), reflect_bool (ec_ProvideClusterInfo e),
      (case ec_Config e of None \<Rightarrow> RPtr None | Some x \<Rightarrow> ROther (Inr x)), RString (ec_InteractiveMode e), reflect_bool (ec_StdinUnavailable e),
      RString (ec_StdinUnavailableMessage e)])"

definition reflect_AuthInfo :: "'x AuthInfo \<Rightarrow> 'x tree" where
  "reflect_AuthInfo a = RStruct
     [plain_field (RString (au_LocationOfOrigin a)), plain_field (RString (au_ClientCertificate a)), plain_field (RBytes (au_ClientCertificateData a)),
      plain_field (RString (au_ClientKey a)), (''security-key'', RBytes (au_ClientKeyData a)), (''token'', RString (au_Token a)), plain_field (RString (au_TokenFile a)),
      plain_field (RString (au_Impersonate a)), plain_field (RString (au_ImpersonateUID a)), plain_field (RSlice (map RString (au_ImpersonateGroups a))),
      plain_field (RMap (map (apsnd (\<lambda>vs. RSlice (map RString vs))) (opt_list (au_ImpersonateUserExtra a)))), plain_field (RString (au_Username a)),
      (''password'', RString (au_Password a)), plain_field (RPtr (map_option reflect_AuthProvider (au_AuthProvider a))),
      plain_field (RPtr (map_option reflect_Exec (au_Exec a))), plain_field (reflect_objects (opt_list (au_Extensions a)))]"

definition reflect_Context :: "'x Context \<Rightarrow> 'x tree" where
  "reflect_Context c = RStruct (map plain_field
     [RString (cx_LocationOfOrigin c), RString (cx_Cluster c), RString (cx_AuthInfo c), RString (cx_Namespace c), reflect_objects (opt_list (cx_Extensions c))])"

definition reflect_pointers :: "('a \<Rightarrow> 'x tree) \<Rightarrow> (string \<times> 'a) list \<Rightarrow> 'x tree" where
  "reflect_pointers f m = RMap (map (apsnd (\<lambda>v. RPtr (Some (f v)))) m)"

definition reflect_Config :: "'x Config \<Rightarrow> 'x tree" where
  "reflect_Config config = RStruct (map plain_field
     [RStruct (map plain_field [reflect_bool (cf_Colors config), reflect_objects (cf_PreferenceExtensions config)]), reflect_pointers reflect_Cluster (cf_Clusters config),
      reflect_pointers reflect_AuthInfo (cf_AuthInfos config), reflect_pointers reflect_Context (cf_Contexts config), RString (cf_CurrentContext config),
      reflect_objects (cf_Extensions config)])"

definition RedactSecrets :: "'x Config \<Rightarrow> 'x tree option" where
  "RedactSecrets config = redactSecrets False False (RPtr (Some (reflect_Config config)))"

section \<open>Redaction is exact\<close>

declare redactSecrets.simps [simp del]

text \<open>A value without tagged fields is left as it is.\<close>

fun untagged :: "'x rv \<Rightarrow> bool" where
  "untagged (RMap m) = list_all untagged (map snd m)"
| "untagged (RSlice vs) = list_all untagged vs"
| "untagged (RStruct fs) = (list_all (\<lambda>t. tag_name t = []) (map fst fs) \<and> list_all untagged (map snd fs))"
| "untagged (RPtr p) = (case p of None \<Rightarrow> True | Some v \<Rightarrow> untagged v)"
| "untagged v = True"

lemma all_some_map: "(\<And>x. x \<in> set xs \<Longrightarrow> f x = Some (g x)) \<Longrightarrow> all_some (map f xs) = Some (map g xs)"
  by (induction xs) auto

lemma redact_untagged:
  "untagged v \<Longrightarrow> \<not> redact \<Longrightarrow> redact_switch settable redact v = Some v"
  "untagged v \<Longrightarrow> \<not> redact \<Longrightarrow> redactSecrets settable redact v = Some v"
proof (induction settable redact v and settable redact v rule: redact_switch_redactSecrets.induct)
  case (1 settable redact m)
  then have "all_some (map (\<lambda>v. redactSecrets False False v) (map snd m)) = Some (map (\<lambda>v. v) (map snd m))"
    by (intro all_some_map) (auto simp: list_all_iff)
  then show ?case by (simp add: zip_map_fst_snd del: map_map)
next
  case (4 settable redact vs)
  then have "all_some (map (\<lambda>v. redactSecrets True False v) vs) = Some (map (\<lambda>v. v) vs)"
    by (intro all_some_map) (auto simp: list_all_iff)
  then show ?case by simp
next
  case (5 settable redact fs)
  have "all_some (map (\<lambda>(t, v). redactSecrets settable (tag_name t \<noteq> []) v) fs) = Some (map snd fs)"
  proof (rule all_some_map)
    fix p
    assume p: "p \<in> set fs"
    obtain t v where tv: "p = (t, v)" by (cases p)
    have "tag_name t = []" "untagged v" using 5(2) p by (force simp: tv list_all_iff)+
    then show "(case p of (t, v) \<Rightarrow> redactSecrets settable (tag_name t \<noteq> []) v) = Some (snd p)"
      using 5(1) [OF p tv [symmetric]] by (simp add: tv)
  qed
  then show ?case by (simp add: zip_map_fst_snd)
next
  case (8 settable redact v)
  then show ?case unfolding redactSecrets.simps [of settable redact v] by (cases v) (auto split: option.splits)
qed auto

lemma tag_names [simp]: "tag_name [] = []" "tag_name ''security-key'' \<noteq> []" "tag_name ''token'' \<noteq> []" "tag_name ''password'' \<noteq> []"
  by (simp_all add: tag_name_def)

lemma untagged_simps [simp]:
  "fst (plain_field v) = []" "snd (plain_field v) = v" "untagged (reflect_bool b)" "untagged (reflect_objects m)" "untagged (reflect_strings ss)"
  by (auto simp: plain_field_def reflect_bool_def reflect_objects_def reflect_strings_def list_all_iff)

lemma untagged_types:
  "untagged (reflect_Cluster c)" "untagged (reflect_Context ctx)" "untagged (reflect_AuthProvider p)" "untagged (reflect_Exec e)"
  by (auto simp: reflect_Cluster_def reflect_Context_def reflect_AuthProvider_def reflect_Exec_def list_all_iff split: option.splits)

text \<open>The secrets of a user, with what is put in their place.\<close>

definition redact_auth :: "'x AuthInfo \<Rightarrow> 'x AuthInfo" where
  "redact_auth a = a\<lparr>au_ClientKeyData := map_option (\<lambda>_. ''REDACTED'') (au_ClientKeyData a), au_Token := (if au_Token a = [] then [] else ''REDACTED''),
     au_Password := (if au_Password a = [] then [] else ''REDACTED'')\<rparr>"

lemma redact_AuthInfo: "redactSecrets settable False (RPtr (Some (reflect_AuthInfo a))) = Some (RPtr (Some (reflect_AuthInfo (redact_auth a))))"
proof -
  have groups: "untagged (RSlice (map RString xs))" for xs by (simp add: list_all_iff)
  have extra: "untagged (RMap (map (apsnd (\<lambda>vs. RSlice (map RString vs))) m))" for m by (simp add: list_all_iff)
  have ptrs: "untagged (RPtr (map_option reflect_AuthProvider p))" "untagged (RPtr (map_option reflect_Exec e))" for p e
    by (simp_all add: untagged_types split: option.split)
  note plain = redact_untagged(2) [OF groups] redact_untagged(2) [OF extra] redact_untagged(2) [OF ptrs(1)] redact_untagged(2) [OF ptrs(2)]
    redact_untagged(2) [OF untagged_simps(4)]
  have leaf: "redactSecrets True b (RString s) = Some (RString (if b \<and> s \<noteq> [] then ''REDACTED'' else s))"
    "redactSecrets True b (RBytes x) = Some (RBytes (if b then map_option (\<lambda>_. ''REDACTED'') x else x))" for b s x
    by (auto simp: redactSecrets.simps split: option.splits)
  show ?thesis
    by (simp add: redactSecrets.simps [of settable False "RPtr _"] reflect_AuthInfo_def plain_field_def leaf plain redact_auth_def)
qed

text \<open>
  C30. \<open>RedactSecrets\<close> never panics and changes exactly the key data, the token and the password of every user: a value that is set becomes \<open>REDACTED\<close>, and nothing else
  in the configuration is touched.
\<close>

theorem redact_secrets_exact:
  "RedactSecrets config = Some (RPtr (Some (reflect_Config (config\<lparr>cf_AuthInfos := map (apsnd redact_auth) (cf_AuthInfos config)\<rparr>))))"
proof -
  have auths: "redactSecrets True False (reflect_pointers reflect_AuthInfo m) = Some (reflect_pointers reflect_AuthInfo (map (apsnd redact_auth) m))" for m :: "(string \<times> 'a AuthInfo) list"
  proof -
    have "all_some (map (\<lambda>v. redactSecrets False False v) (map snd (map (apsnd (\<lambda>v. RPtr (Some (reflect_AuthInfo v)))) m))) =
        Some (map (\<lambda>p. RPtr (Some (reflect_AuthInfo (redact_auth (snd p))))) m)"
      by (induction m) (auto simp: redact_AuthInfo)
    then show ?thesis
      by (simp add: reflect_pointers_def redactSecrets.simps [of True False "RMap _"] zip_map1 zip_map2 zip_same_conv_map comp_def apsnd_def map_prod_def case_prod_beta)
  qed
  have other: "untagged (reflect_pointers reflect_Cluster cs)" "untagged (reflect_pointers reflect_Context xs)"
    "untagged (RStruct (map plain_field [reflect_bool b, reflect_objects es]))" "untagged (RString s)" for cs :: "(string \<times> 'a Cluster) list" and xs b es s
    by (auto simp: reflect_pointers_def list_all_iff untagged_types)
  note plain = redact_untagged(2) [OF other(1)] redact_untagged(2) [OF other(2)] redact_untagged(2) [OF other(3)] redact_untagged(2) [OF other(4)]
    redact_untagged(2) [OF untagged_simps(4)]
  show ?thesis unfolding RedactSecrets_def
    by (simp add: redactSecrets.simps [of False False "RPtr _"] reflect_Config_def plain_field_def auths plain [unfolded plain_field_def, simplified])
qed

section \<open>A minimised configuration\<close>

lemma newErr_None [simp]: "newErrConfigurationInvalid errs = None \<longleftrightarrow> errs = []"
  by (simp add: newErrConfigurationInvalid_def)

text \<open>
  Minimising: \<open>MinifyConfig\<close> keeps the current context, and what is left is valid as a whole exactly when the context was usable before; minimising again changes nothing. It
  succeeds for every valid configuration with a current context.
\<close>

theorem minify_exact:
  "(case MinifyConfig config of
      Inr small \<Rightarrow>
        (Validate env small = None) = (ConfirmUsable env config [] = None) \<and> cf_CurrentContext small = cf_CurrentContext config \<and>
        map_of (cf_Contexts small) (cf_CurrentContext config) = map_of (cf_Contexts config) (cf_CurrentContext config) \<and> MinifyConfig small = Inr small
    | Inl e \<Rightarrow> ConfirmUsable env config [] \<noteq> None)"
proof (cases "cf_CurrentContext config = [] \<or> map_of (cf_Contexts config) (cf_CurrentContext config) = None")
  case True
  then show ?thesis by (auto simp: MinifyConfig_def ConfirmUsable_def newErrConfigurationInvalid_def Let_def)
next
  case False
  then obtain ctx where cur: "cf_CurrentContext config \<noteq> []" and ctx: "map_of (cf_Contexts config) (cf_CurrentContext config) = Some ctx" by auto
  have usable: "ConfirmUsable env config [] =
      newErrConfigurationInvalid
        (validateContext env (cf_CurrentContext config) ctx config @
         validateAuthInfo env (cx_AuthInfo ctx) (case map_of (cf_AuthInfos config) (cx_AuthInfo ctx) of None \<Rightarrow> zero_AuthInfo | Some a \<Rightarrow> a) @
         validateClusterInfo env (cx_Cluster ctx) (case map_of (cf_Clusters config) (cx_Cluster ctx) of None \<Rightarrow> zero_Cluster | Some c \<Rightarrow> c))"
    using cur ctx by (simp add: ConfirmUsable_def IsConfigEmpty_def)
  show ?thesis
  proof (cases "keep_named (cx_Cluster ctx) (cf_Clusters config)")
    case (Inl e)
    then have "validateContext env (cf_CurrentContext config) ctx config \<noteq> []"
      by (auto simp: keep_named_def validateContext_def split: if_splits option.splits)
    then show ?thesis using cur ctx Inl usable by (simp add: MinifyConfig_def)
  next
    case (Inr cs)
    show ?thesis
    proof (cases "keep_named (cx_AuthInfo ctx) (cf_AuthInfos config)")
      case (Inl e)
      then have "validateContext env (cf_CurrentContext config) ctx config \<noteq> []"
        by (auto simp: keep_named_def validateContext_def split: if_splits option.splits)
      then show ?thesis using cur ctx Inl Inr usable by (simp add: MinifyConfig_def)
    next
      case as: (Inr as)
      let ?small = "config\<lparr>cf_AuthInfos := as, cf_Clusters := cs, cf_Contexts := [(cf_CurrentContext config, ctx)]\<rparr>"
      have mini: "MinifyConfig config = Inr ?small" using cur ctx Inr as by (simp add: MinifyConfig_def)
      have again: "MinifyConfig ?small = Inr ?small"
        using cur Inr as by (auto simp: MinifyConfig_def keep_named_def split: if_splits option.splits)
      have whole: "Validate env ?small = newErrConfigurationInvalid (validateContext env (cf_CurrentContext config) ctx ?small @
          concat (map (\<lambda>(n, a). validateAuthInfo env n a) as) @ concat (map (\<lambda>(n, c). validateClusterInfo env n c) cs))"
        using cur by (simp add: Validate_def IsConfigEmpty_def)
      have "Validate env ?small = None \<longleftrightarrow> ConfirmUsable env config [] = None"
      proof (cases "cx_Cluster ctx = [] \<or> cx_AuthInfo ctx = []")
        case True
        then have "validateContext env (cf_CurrentContext config) ctx c \<noteq> []" for c by (auto simp: validateContext_def)
        then show ?thesis unfolding whole usable by simp
      next
        case False
        then obtain a c where "map_of (cf_AuthInfos config) (cx_AuthInfo ctx) = Some a" "as = [(cx_AuthInfo ctx, a)]"
          "map_of (cf_Clusters config) (cx_Cluster ctx) = Some c" "cs = [(cx_Cluster ctx, c)]"
          using Inr as by (auto simp: keep_named_def split: option.splits)
        moreover from this have "validateContext env (cf_CurrentContext config) ctx ?small = validateContext env (cf_CurrentContext config) ctx config"
          by (simp add: validateContext_def)
        ultimately show ?thesis unfolding whole usable by simp
      qed
      then show ?thesis using mini again ctx by simp
    qed
  qed
qed

lemma FlattenContent_exact: "FlattenContent env p contents base = Inr (q, data) \<Longrightarrow> q = [] \<and> (if p = [] then data = contents else no_bytes contents \<and> data = pe_ReadFile env (ResolvePath p base))"
  by (auto simp: FlattenContent_def split: if_splits option.splits)

lemma each_value_all: "each_value f m = Inr n \<Longrightarrow> list_all2 (\<lambda>(k, x) (l, y). k = l \<and> f x = Inr y) m n"
  by (induction f m arbitrary: n rule: each_value.induct) (auto split: sum.splits)

lemma values_all2: "list_all2 (\<lambda>(k, x) (l, y). k = l \<and> P y) m n \<Longrightarrow> list_all (\<lambda>(k, y). P y) n \<and> map fst n = map fst m"
  by (induction m n rule: list_all2_induct) auto

text \<open>A flattened configuration names no files, and everything that was not named by a file is as before.\<close>

lemma flatten_auth_exact:
  assumes "flatten_auth env a = Inr b"
  shows "au_ClientCertificate b = [] \<and> au_ClientKey b = [] \<and>
    b\<lparr>au_ClientCertificate := au_ClientCertificate a, au_ClientCertificateData := au_ClientCertificateData a, au_ClientKey := au_ClientKey a, au_ClientKeyData := au_ClientKeyData a\<rparr> = a \<and>
    (au_ClientCertificate a = [] \<longrightarrow> au_ClientCertificateData b = au_ClientCertificateData a) \<and> (au_ClientKey a = [] \<longrightarrow> au_ClientKeyData b = au_ClientKeyData a)"
  using assms by (auto simp: flatten_auth_def split: sum.splits dest!: FlattenContent_exact)

lemma flatten_exact:
  assumes "FlattenConfig env config = Inr flat"
  shows "list_all (\<lambda>(k, a). au_ClientCertificate a = [] \<and> au_ClientKey a = []) (cf_AuthInfos flat) \<and> list_all (\<lambda>(k, c). cl_CertificateAuthority c = []) (cf_Clusters flat) \<and>
    map fst (cf_AuthInfos flat) = map fst (cf_AuthInfos config) \<and> map fst (cf_Clusters flat) = map fst (cf_Clusters config)"
proof -
  obtain as cs where as: "each_value (flatten_auth env) (cf_AuthInfos config) = Inr as" and cs: "each_value (flatten_cluster env) (cf_Clusters config) = Inr cs"
    and flat: "flat = config\<lparr>cf_AuthInfos := as, cf_Clusters := cs\<rparr>"
    using assms by (auto simp: FlattenConfig_def split: sum.splits)
  have "cl_CertificateAuthority c = []" if "flatten_cluster env b = Inr c" for b c
    using that by (auto simp: flatten_cluster_def split: sum.splits dest!: FlattenContent_exact)
  then have "list_all2 (\<lambda>(k, x) (l, y). k = l \<and> cl_CertificateAuthority y = []) (cf_Clusters config) cs"
    using each_value_all [OF cs] by (auto elim!: list_all2_mono)
  moreover have "list_all2 (\<lambda>(k, x) (l, y). k = l \<and> au_ClientCertificate y = [] \<and> au_ClientKey y = []) (cf_AuthInfos config) as"
    using each_value_all [OF as] flatten_auth_exact by (auto elim!: list_all2_mono)
  ultimately show ?thesis
    using values_all2 [of "\<lambda>c. cl_CertificateAuthority c = []" "cf_Clusters config" cs]
      values_all2 [of "\<lambda>a. au_ClientCertificate a = [] \<and> au_ClientKey a = []" "cf_AuthInfos config" as]
    by (simp add: flat)
qed

section \<open>Loading\<close>

definition deduplicate :: "string list \<Rightarrow> string list" where
  "deduplicate s = rev (fold (\<lambda>x ret. if x \<in> set ret then ret else x # ret) s [])"

record loading_rules =
  lr_ExplicitPath :: string
  lr_Precedence :: "string list"
  lr_MigrationRules :: "(string \<times> string) list"
  lr_DoNotResolvePaths :: bool
  lr_WarnIfAllMissing :: bool

text \<open>\<open>home\<close> is the variable \<open>HOME\<close>, on a system other than Windows.\<close>

definition currentMigrationRules :: "string \<Rightarrow> string \<Rightarrow> (string \<times> string) list" where
  "currentMigrationRules home homeFile = [(homeFile, path_Join [home, ''.kube'', ''.kubeconfig''])]"

text \<open>\<open>envFiles\<close> is the value of \<open>KUBECONFIG\<close> split at the list separators, if it is not empty.\<close>

definition NewDefaultClientConfigLoadingRules :: "string \<Rightarrow> string list option \<Rightarrow> string \<Rightarrow> loading_rules" where
  "NewDefaultClientConfigLoadingRules home envFiles homeFile =
     \<lparr>lr_ExplicitPath = [], lr_Precedence = (case envFiles of Some files \<Rightarrow> deduplicate files | None \<Rightarrow> [homeFile]),
      lr_MigrationRules = currentMigrationRules home homeFile, lr_DoNotResolvePaths = False, lr_WarnIfAllMissing = (envFiles \<noteq> None)\<rparr>"

definition GetLoadingPrecedence :: "loading_rules \<Rightarrow> string list" where
  "GetLoadingPrecedence rules = (if lr_ExplicitPath rules \<noteq> [] then [lr_ExplicitPath rules] else lr_Precedence rules)"

definition GetDefaultFilename :: "(string \<Rightarrow> bool) \<Rightarrow> loading_rules \<Rightarrow> string" where
  "GetDefaultFilename exist rules =
     (if lr_ExplicitPath rules \<noteq> [] then lr_ExplicitPath rules
      else case find exist (GetLoadingPrecedence rules) of
             Some f \<Rightarrow> f
           | None \<Rightarrow> (case lr_Precedence rules of [] \<Rightarrow> [] | f # _ \<Rightarrow> f))"

datatype 'x load_out = Missing | Unloadable cfg_err | Loaded "'x Config"

definition set_origin :: "string \<Rightarrow> 'x Config \<Rightarrow> 'x Config" where
  "set_origin filename config =
     config\<lparr>cf_AuthInfos := map (apsnd (\<lambda>a. a\<lparr>au_LocationOfOrigin := filename\<rparr>)) (cf_AuthInfos config),
            cf_Clusters := map (apsnd (\<lambda>c. c\<lparr>cl_LocationOfOrigin := filename\<rparr>)) (cf_Clusters config),
            cf_Contexts := map (apsnd (\<lambda>c. c\<lparr>cx_LocationOfOrigin := filename\<rparr>)) (cf_Contexts config)\<rparr>"

text \<open>
  The content of a file is a list of bytes of a type \<open>'d\<close>. \<open>read\<close> is \<open>os.ReadFile\<close>, which tells whether a file that cannot be read is missing, and \<open>decode\<close> the codec
  for a file that is not empty.
\<close>

definition load_bytes :: "('d list \<Rightarrow> cfg_err + 'x Config) \<Rightarrow> 'd list \<Rightarrow> cfg_err + 'x Config" where
  "load_bytes decode data = (if data = [] then Inr NewConfig else decode data)"

definition LoadFromFile :: "(string \<Rightarrow> bool + 'd list) \<Rightarrow> ('d list \<Rightarrow> cfg_err + 'x Config) \<Rightarrow> string \<Rightarrow> 'x load_out" where
  "LoadFromFile read decode filename =
     (case read filename of
        Inl missing \<Rightarrow> if missing then Missing else Unloadable OSError
      | Inr data \<Rightarrow> (case load_bytes decode data of Inl e \<Rightarrow> Unloadable e | Inr config \<Rightarrow> Loaded (set_origin filename config)))"

definition resolve_refs :: "string list \<Rightarrow> string \<Rightarrow> string list" where
  "resolve_refs refs base = map (\<lambda>r. if r \<noteq> [] \<and> \<not> IsAbs r then path_Join [base, r] else r) refs"

definition ClusterFileReferences :: "'x Cluster \<Rightarrow> string list" where
  "ClusterFileReferences c = [cl_CertificateAuthority c]"

definition exec_path :: "'x AuthInfo \<Rightarrow> bool" where
  "exec_path a = (case au_Exec a of None \<Rightarrow> False | Some e \<Rightarrow> CHR ''/'' \<in> set (ec_Command e))"

definition AuthInfoFileReferences :: "'x AuthInfo \<Rightarrow> string list" where
  "AuthInfoFileReferences a =
     [au_ClientCertificate a, au_ClientKey a, au_TokenFile a] @ (case au_Exec a of Some e \<Rightarrow> if exec_path a then [ec_Command e] else [] | None \<Rightarrow> [])"

text \<open>Writing through the pointers that the reference functions return.\<close>

definition set_cluster_refs :: "string list \<Rightarrow> 'x Cluster \<Rightarrow> 'x Cluster" where
  "set_cluster_refs refs c = c\<lparr>cl_CertificateAuthority := refs ! 0\<rparr>"

definition set_auth_refs :: "string list \<Rightarrow> 'x AuthInfo \<Rightarrow> 'x AuthInfo" where
  "set_auth_refs refs a =
     a\<lparr>au_ClientCertificate := refs ! 0, au_ClientKey := refs ! 1, au_TokenFile := refs ! 2,
       au_Exec := (if exec_path a then map_option (\<lambda>e. e\<lparr>ec_Command := refs ! 3\<rparr>) (au_Exec a) else au_Exec a)\<rparr>"

text \<open>\<open>abs\<close> is \<open>filepath.Abs\<close> of the directory of a file.\<close>

definition resolve_cluster :: "(string \<Rightarrow> string option) \<Rightarrow> 'x Cluster \<Rightarrow> cfg_err + 'x Cluster" where
  "resolve_cluster absdir c =
     (if cl_LocationOfOrigin c = [] then Inr c
      else case absdir (cl_LocationOfOrigin c) of None \<Rightarrow> Inl OSError | Some base \<Rightarrow> Inr (set_cluster_refs (resolve_refs (ClusterFileReferences c) base) c))"

definition resolve_auth :: "(string \<Rightarrow> string option) \<Rightarrow> 'x AuthInfo \<Rightarrow> cfg_err + 'x AuthInfo" where
  "resolve_auth absdir a =
     (if au_LocationOfOrigin a = [] then Inr a
      else case absdir (au_LocationOfOrigin a) of None \<Rightarrow> Inl OSError | Some base \<Rightarrow> Inr (set_auth_refs (resolve_refs (AuthInfoFileReferences a) base) a))"

definition ResolveLocalPaths :: "(string \<Rightarrow> string option) \<Rightarrow> 'x Config \<Rightarrow> cfg_err + 'x Config" where
  "ResolveLocalPaths absdir config =
     (case each_value (resolve_cluster absdir) (cf_Clusters config) of
        Inl e \<Rightarrow> Inl e
      | Inr clusters \<Rightarrow>
          (case each_value (resolve_auth absdir) (cf_AuthInfos config) of
             Inl e \<Rightarrow> Inl e
           | Inr auths \<Rightarrow> Inr (config\<lparr>cf_Clusters := clusters, cf_AuthInfos := auths\<rparr>)))"

definition MakeRelative :: "path_env \<Rightarrow> string \<Rightarrow> string \<Rightarrow> string option" where
  "MakeRelative env p base = (if p = [] then Some p else pe_Rel env base p)"

fun RelativizePathWithNoBacksteps :: "path_env \<Rightarrow> string list \<Rightarrow> string \<Rightarrow> cfg_err + string list" where
  "RelativizePathWithNoBacksteps env [] base = Inr []"
| "RelativizePathWithNoBacksteps env (r # refs) base =
     (case (if r = [] then Inr r
            else case MakeRelative env r base of
                   None \<Rightarrow> Inl OSError
                 | Some rel \<Rightarrow> if has_prefix rel ''../'' then (if IsAbs r then Inr r else Inl (RequiresBacksteps r)) else Inr rel) of
        Inl e \<Rightarrow> Inl e
      | Inr r1 \<Rightarrow> (case RelativizePathWithNoBacksteps env refs base of Inl e \<Rightarrow> Inl e | Inr rs \<Rightarrow> Inr (r1 # rs)))"

definition RelativizeClusterLocalPaths :: "path_env \<Rightarrow> (string \<Rightarrow> string option) \<Rightarrow> 'x Cluster \<Rightarrow> cfg_err + 'x Cluster" where
  "RelativizeClusterLocalPaths env absdir c =
     (if cl_LocationOfOrigin c = [] then Inl NoLocationOfOrigin
      else case absdir (cl_LocationOfOrigin c) of
             None \<Rightarrow> Inl OSError
           | Some base \<Rightarrow>
               (let c1 = set_cluster_refs (resolve_refs (ClusterFileReferences c) base) c
                in case RelativizePathWithNoBacksteps env (ClusterFileReferences c1) base of Inl e \<Rightarrow> Inl e | Inr refs \<Rightarrow> Inr (set_cluster_refs refs c1)))"

definition RelativizeAuthInfoLocalPaths :: "path_env \<Rightarrow> (string \<Rightarrow> string option) \<Rightarrow> 'x AuthInfo \<Rightarrow> cfg_err + 'x AuthInfo" where
  "RelativizeAuthInfoLocalPaths env absdir a =
     (if au_LocationOfOrigin a = [] then Inl NoLocationOfOrigin
      else case absdir (au_LocationOfOrigin a) of
             None \<Rightarrow> Inl OSError
           | Some base \<Rightarrow>
               (let a1 = set_auth_refs (resolve_refs (AuthInfoFileReferences a) base) a
                in case RelativizePathWithNoBacksteps env (AuthInfoFileReferences a1) base of Inl e \<Rightarrow> Inl e | Inr refs \<Rightarrow> Inr (set_auth_refs refs a1)))"

lemma deduplicate_exact: "distinct (deduplicate s) \<and> set (deduplicate s) = set s"
proof -
  have "distinct ret \<longrightarrow> distinct (fold (\<lambda>x ret. if x \<in> set ret then ret else x # ret) s ret) \<and> set (fold (\<lambda>x ret. if x \<in> set ret then ret else x # ret) s ret) = set s \<union> set ret"
    for s ret :: "string list"
    by (induction s arbitrary: ret) auto
  from this [of "[]" s] show ?thesis by (simp add: deduplicate_def)
qed

end
