(* ===== verification/ClientConfigFiles.thy ===== *)
theory ClientConfigFiles
  imports ClientConfiguration "HOL-Library.AList" "HOL-Library.List_Lexorder" "HOL-Library.Char_ord"
begin

text \<open>
  \<open>tools/clientcmd/config.go\<close> and the part of \<open>loader.go\<close> that works on several files: migration, \<open>Load\<close>, the lock files, and \<open>ModifyConfig\<close>, which writes the differences
  between two configurations back to the files that they came from.

  The file system is a function from names to what is there; a write that fails leaves the file as it is, and of the directories that \<open>MkdirAll\<close> creates only the last is recorded.
  A procedure that may fail returns the files and an error, and the errors of deferred calls are dropped, as in the code. The codecs and the library mergo are arguments.

  The lemmas: locks are released on every path, and a change through one explicit file that succeeds makes the file hold the new configuration; but changes of the extensions are
  lost, and locking reorders the precedence of the loading rules.
\<close>

section \<open>Files\<close>

datatype 'd entry = NotExist | Forbidden | Faulty | Dir | Unreadable | File "'d list"

type_synonym 'd files = "string \<Rightarrow> 'd entry"

type_synonym 'd written = "'d files \<times> cfg_err option"

record ('d, 'x) cfg_env =
  ce_Writable :: "string \<Rightarrow> bool"
  ce_Dir :: "string \<Rightarrow> string"
  ce_AbsDir :: "string \<Rightarrow> string option"
  ce_Paths :: path_env
  ce_Decode :: "'d list \<Rightarrow> cfg_err + 'x Config"
  ce_Encode :: "'x Config \<Rightarrow> 'd list option"
  ce_Merge :: "'x Config \<Rightarrow> 'x Config \<Rightarrow> 'x Config"

definition os_ReadFile :: "'d files \<Rightarrow> string \<Rightarrow> bool + 'd list" where
  "os_ReadFile s f = (case s f of File data \<Rightarrow> Inr data | NotExist \<Rightarrow> Inl True | _ \<Rightarrow> Inl False)"

text \<open>A file that cannot be read is not written either.\<close>

definition os_WriteFile :: "('d, 'x) cfg_env \<Rightarrow> string \<Rightarrow> 'd list \<Rightarrow> 'd files \<Rightarrow> 'd written" where
  "os_WriteFile env f data s =
     (case s f of
        File old \<Rightarrow> if ce_Writable env f then (s(f := File data), None) else (s, Some OSError)
      | NotExist \<Rightarrow> if ce_Writable env f then (s(f := File data), None) else (s, Some OSError)
      | _ \<Rightarrow> (s, Some OSError))"

definition os_MkdirAll :: "('d, 'x) cfg_env \<Rightarrow> string \<Rightarrow> 'd files \<Rightarrow> 'd written" where
  "os_MkdirAll env dir s = (if s dir = NotExist then (if ce_Writable env dir then (s(dir := Dir), None) else (s, Some OSError)) else (s, None))"

text \<open>The steps of a procedure up to the first that fails.\<close>

fun run_steps :: "('d files \<Rightarrow> 'd written) list \<Rightarrow> 'd files \<Rightarrow> 'd written" where
  "run_steps [] s = (s, None)"
| "run_steps (f # fs) s = (case f s of (s1, Some e) \<Rightarrow> (s1, Some e) | (s1, None) \<Rightarrow> run_steps fs s1)"

definition getConfigFromFile :: "('d, 'x) cfg_env \<Rightarrow> 'd files \<Rightarrow> string \<Rightarrow> cfg_err + 'x Config" where
  "getConfigFromFile env s filename =
     (case LoadFromFile (os_ReadFile s) (ce_Decode env) filename of
        Missing \<Rightarrow> Inr NewConfig
      | Unloadable e \<Rightarrow> Inl e
      | Loaded config \<Rightarrow> Inr config)"

definition WriteToFile :: "('d, 'x) cfg_env \<Rightarrow> 'x Config \<Rightarrow> string \<Rightarrow> 'd files \<Rightarrow> 'd written" where
  "WriteToFile env config filename s =
     (case ce_Encode env config of
        None \<Rightarrow> (s, Some OSError)
      | Some content \<Rightarrow> run_steps [os_MkdirAll env (ce_Dir env filename), os_WriteFile env filename content] s)"

definition lockName :: "string \<Rightarrow> string" where
  "lockName filename = filename @ ''.lock''"

text \<open>\<open>O_CREATE|O_EXCL\<close>.\<close>

definition create_exclusive :: "('d, 'x) cfg_env \<Rightarrow> string \<Rightarrow> 'd files \<Rightarrow> 'd written" where
  "create_exclusive env f s = (if s f = NotExist \<and> ce_Writable env f then (s(f := File []), None) else (s, Some OSError))"

definition lockFile :: "('d, 'x) cfg_env \<Rightarrow> string \<Rightarrow> 'd files \<Rightarrow> 'd written" where
  "lockFile env filename = run_steps [os_MkdirAll env (ce_Dir env filename), create_exclusive env (lockName filename)]"

definition unlockFile :: "string \<Rightarrow> 'd files \<Rightarrow> 'd files" where
  "unlockFile filename s = s(lockName filename := NotExist)"

section \<open>Loading\<close>

definition migrate_one :: "('d, 'x) cfg_env \<Rightarrow> string \<times> string \<Rightarrow> 'd files \<Rightarrow> 'd written" where
  "migrate_one env rule s =
     (case rule of (destination, source) \<Rightarrow>
        (case s destination of
           NotExist \<Rightarrow>
             (case s source of
                NotExist \<Rightarrow> (s, None)
              | Forbidden \<Rightarrow> (s, None)
              | Faulty \<Rightarrow> (s, Some OSError)
              | Dir \<Rightarrow> (s, Some (CannotLocate source))
              | _ \<Rightarrow> (case os_ReadFile s source of Inl b \<Rightarrow> (s, Some OSError) | Inr data \<Rightarrow> os_WriteFile env destination data s))
         | Faulty \<Rightarrow> (s, Some OSError)
         | _ \<Rightarrow> (s, None)))"

definition Migrate :: "('d, 'x) cfg_env \<Rightarrow> loading_rules \<Rightarrow> 'd files \<Rightarrow> 'd written" where
  "Migrate env rules = run_steps (map (migrate_one env) (lr_MigrationRules rules))"

fun load_each :: "('d, 'x) cfg_env \<Rightarrow> 'd files \<Rightarrow> string list \<Rightarrow> string list \<times> cfg_err list \<times> 'x Config list" where
  "load_each env s [] = ([], [], [])"
| "load_each env s (filename # files) =
     (case load_each env s files of (missing, errs, configs) \<Rightarrow>
        if filename = [] then (missing, errs, configs)
        else case LoadFromFile (os_ReadFile s) (ce_Decode env) filename of
               Missing \<Rightarrow> (filename # missing, errs, configs)
             | Unloadable e \<Rightarrow> (missing, LoadingFile filename e # errs, configs)
             | Loaded config \<Rightarrow> (missing, errs, config # configs))"

definition merge_configs :: "('d, 'x) cfg_env \<Rightarrow> 'x Config list \<Rightarrow> 'x Config" where
  "merge_configs env kubeconfigs =
     (let mapConfig = fold (\<lambda>k m. ce_Merge env m k) kubeconfigs NewConfig;
          nonMapConfig = fold (\<lambda>k m. ce_Merge env m k) (rev kubeconfigs) NewConfig
      in ce_Merge env (ce_Merge env NewConfig mapConfig) nonMapConfig)"

text \<open>
  The files, the missing files of which a warning is given, and the result. The code returns the configuration along with an error too, but no caller uses it then.
\<close>

definition Load :: "('d, 'x) cfg_env \<Rightarrow> loading_rules \<Rightarrow> 'd files \<Rightarrow> 'd files \<times> string list option \<times> (cfg_err + 'x Config)" where
  "Load env rules s =
     (case Migrate env rules s of
        (s1, Some e) \<Rightarrow> (s1, None, Inl e)
      | (s1, None) \<Rightarrow>
          if lr_ExplicitPath rules \<noteq> [] \<and> s1 (lr_ExplicitPath rules) = NotExist then (s1, None, Inl FileNotExist)
          else
            (case load_each env s1 (GetLoadingPrecedence rules) of (missing, errs, kubeconfigs) \<Rightarrow>
               (let warning = (if lr_WarnIfAllMissing rules \<and> missing \<noteq> [] \<and> kubeconfigs = [] then Some missing else None);
                    config = merge_configs env kubeconfigs
                in (s1, warning,
                    case (if lr_DoNotResolvePaths rules then Inr config else ResolveLocalPaths (ce_AbsDir env) config) of
                      Inl e \<Rightarrow> Inl (Aggregate (errs @ [e]))
                    | Inr c \<Rightarrow> if errs = [] then Inr c else Inl (Aggregate errs)))))"

section \<open>Access\<close>

text \<open>\<open>po_EnvFiles\<close> is the value of the environment variable, split at the separators; it is empty if the variable is.\<close>

record path_options =
  po_GlobalFile :: string
  po_EnvFiles :: "string list"
  po_LoadingRules :: loading_rules

definition GetEnvVarFiles :: "path_options \<Rightarrow> string list" where
  "GetEnvVarFiles po = deduplicate (po_EnvFiles po)"

definition po_GetLoadingPrecedence :: "path_options \<Rightarrow> string list" where
  "po_GetLoadingPrecedence po =
     (if lr_ExplicitPath (po_LoadingRules po) \<noteq> [] then [lr_ExplicitPath (po_LoadingRules po)]
      else if GetEnvVarFiles po \<noteq> [] then GetEnvVarFiles po
      else [po_GlobalFile po])"

definition po_GetDefaultFilename :: "(string \<Rightarrow> bool) \<Rightarrow> path_options \<Rightarrow> string" where
  "po_GetDefaultFilename exist po =
     (if lr_ExplicitPath (po_LoadingRules po) \<noteq> [] then lr_ExplicitPath (po_LoadingRules po)
      else if GetEnvVarFiles po \<noteq> []
      then (if length (GetEnvVarFiles po) = 1 then GetEnvVarFiles po ! 0
            else case find exist (GetEnvVarFiles po) of Some f \<Rightarrow> f | None \<Rightarrow> last (GetEnvVarFiles po))
      else po_GlobalFile po)"

definition NewDefaultPathOptions :: "string \<Rightarrow> string list option \<Rightarrow> string \<Rightarrow> path_options" where
  "NewDefaultPathOptions home envFiles homeFile =
     \<lparr>po_GlobalFile = homeFile, po_EnvFiles = (case envFiles of Some files \<Rightarrow> files | None \<Rightarrow> []),
      po_LoadingRules = (NewDefaultClientConfigLoadingRules home envFiles homeFile)\<lparr>lr_DoNotResolvePaths := True\<rparr>\<rparr>"

datatype ConfigAccess = RulesAccess loading_rules | PathAccess path_options

primrec ac_rules :: "ConfigAccess \<Rightarrow> loading_rules" where
  "ac_rules (RulesAccess rules) = rules"
| "ac_rules (PathAccess po) = (po_LoadingRules po)\<lparr>lr_Precedence := po_GetLoadingPrecedence po\<rparr>"

definition ac_GetLoadingPrecedence :: "ConfigAccess \<Rightarrow> string list" where
  "ac_GetLoadingPrecedence access = (case access of RulesAccess rules \<Rightarrow> GetLoadingPrecedence rules | PathAccess po \<Rightarrow> po_GetLoadingPrecedence po)"

text \<open>\<open>os.Stat\<close> fails for what is missing, forbidden or faulty.\<close>

definition os_exists :: "'d files \<Rightarrow> string \<Rightarrow> bool" where
  "os_exists s f = (case s f of NotExist \<Rightarrow> False | Forbidden \<Rightarrow> False | Faulty \<Rightarrow> False | _ \<Rightarrow> True)"

definition ac_GetDefaultFilename :: "'d files \<Rightarrow> ConfigAccess \<Rightarrow> string" where
  "ac_GetDefaultFilename s access =
     (case access of RulesAccess rules \<Rightarrow> GetDefaultFilename (os_exists s) rules | PathAccess po \<Rightarrow> po_GetDefaultFilename (os_exists s) po)"

definition IsExplicitFile :: "ConfigAccess \<Rightarrow> bool" where
  "IsExplicitFile access \<longleftrightarrow> lr_ExplicitPath (ac_rules access) \<noteq> []"

definition GetExplicitFile :: "ConfigAccess \<Rightarrow> string" where
  "GetExplicitFile access = lr_ExplicitPath (ac_rules access)"

definition GetStartingConfig :: "('d, 'x) cfg_env \<Rightarrow> ConfigAccess \<Rightarrow> 'd files \<Rightarrow> 'd files \<times> (cfg_err + 'x Config)" where
  "GetStartingConfig env access s =
     (case Load env (ac_rules access) s of (s1, warning, out) \<Rightarrow> (s1, if out = Inl FileNotExist then Inr NewConfig else out))"

section \<open>ModifyConfig\<close>

text \<open>\<open>reflect.DeepEqual\<close> on maps with the entries of lists as keys and values.\<close>

definition same_map :: "(string \<times> 'a) list \<Rightarrow> (string \<times> 'a) list \<Rightarrow> bool" where
  "same_map m n \<longleftrightarrow> list_all (\<lambda>k. map_of m k = map_of n k) (map fst m @ map fst n)"

definition same_preferences :: "'x Config \<Rightarrow> 'x Config \<Rightarrow> bool" where
  "same_preferences c d \<longleftrightarrow> cf_Colors c = cf_Colors d \<and> same_map (cf_PreferenceExtensions c) (cf_PreferenceExtensions d)"

definition same_config :: "'x Config \<Rightarrow> 'x Config \<Rightarrow> bool" where
  "same_config c d \<longleftrightarrow>
     same_preferences c d \<and> same_map (cf_Clusters c) (cf_Clusters d) \<and> same_map (cf_AuthInfos c) (cf_AuthInfos d) \<and> same_map (cf_Contexts c) (cf_Contexts d) \<and>
     cf_CurrentContext c = cf_CurrentContext d \<and> same_map (cf_Extensions c) (cf_Extensions d)"

text \<open>Reads a file, changes the configuration and writes it back.\<close>

definition rewrite_file :: "('d, 'x) cfg_env \<Rightarrow> string \<Rightarrow> ('x Config \<Rightarrow> cfg_err + 'x Config) \<Rightarrow> 'd files \<Rightarrow> 'd written" where
  "rewrite_file env filename change s =
     (case getConfigFromFile env s filename of
        Inl e \<Rightarrow> (s, Some e)
      | Inr config \<Rightarrow> (case change config of Inl e \<Rightarrow> (s, Some e) | Inr config1 \<Rightarrow> WriteToFile env config1 filename s))"

fun clear_first :: "('d, 'x) cfg_env \<Rightarrow> string list \<Rightarrow> 'd files \<Rightarrow> 'd written" where
  "clear_first env [] s = (s, Some NoConfigToWrite)"
| "clear_first env (filename # files) s =
     (if os_exists s filename
      then case getConfigFromFile env s filename of
             Inl e \<Rightarrow> (s, Some e)
           | Inr config \<Rightarrow> if cf_CurrentContext config \<noteq> [] then WriteToFile env (config\<lparr>cf_CurrentContext := []\<rparr>) filename s else clear_first env files s
      else clear_first env files s)"

definition writeCurrentContext :: "('d, 'x) cfg_env \<Rightarrow> ConfigAccess \<Rightarrow> string \<Rightarrow> 'd files \<Rightarrow> 'd written" where
  "writeCurrentContext env access newCurrentContext s =
     (case GetStartingConfig env access s of
        (s1, Inl e) \<Rightarrow> (s1, Some e)
      | (s1, Inr startingConfig) \<Rightarrow>
          if cf_CurrentContext startingConfig = newCurrentContext then (s1, None)
          else if IsExplicitFile access then rewrite_file env (GetExplicitFile access) (\<lambda>c. Inr (c\<lparr>cf_CurrentContext := newCurrentContext\<rparr>)) s1
          else if newCurrentContext \<noteq> [] then rewrite_file env (ac_GetDefaultFilename s1 access) (\<lambda>c. Inr (c\<lparr>cf_CurrentContext := newCurrentContext\<rparr>)) s1
          else clear_first env (ac_GetLoadingPrecedence access) s1)"

definition with_preferences :: "'x Config \<Rightarrow> 'x Config \<Rightarrow> 'x Config" where
  "with_preferences newPrefs config = config\<lparr>cf_Colors := cf_Colors newPrefs, cf_PreferenceExtensions := cf_PreferenceExtensions newPrefs\<rparr>"

fun prefs_first :: "('d, 'x) cfg_env \<Rightarrow> 'x Config \<Rightarrow> string list \<Rightarrow> 'd files \<Rightarrow> 'd written" where
  "prefs_first env newPrefs [] s = (s, Some NoConfigToWrite)"
| "prefs_first env newPrefs (filename # files) s =
     (case getConfigFromFile env s filename of
        Inl e \<Rightarrow> (s, Some e)
      | Inr config \<Rightarrow> if same_preferences config newPrefs then prefs_first env newPrefs files s else WriteToFile env (with_preferences newPrefs config) filename s)"

definition writePreferences :: "('d, 'x) cfg_env \<Rightarrow> ConfigAccess \<Rightarrow> 'x Config \<Rightarrow> 'd files \<Rightarrow> 'd written" where
  "writePreferences env access newPrefs s =
     (case GetStartingConfig env access s of
        (s1, Inl e) \<Rightarrow> (s1, Some e)
      | (s1, Inr startingConfig) \<Rightarrow>
          if same_preferences startingConfig newPrefs then (s1, None)
          else if IsExplicitFile access then rewrite_file env (GetExplicitFile access) (\<lambda>c. Inr (with_preferences newPrefs c)) s1
          else prefs_first env newPrefs (ac_GetLoadingPrecedence access) s1)"

definition destination :: "ConfigAccess \<Rightarrow> string \<Rightarrow> 'd files \<Rightarrow> string" where
  "destination access origin s = (if origin = [] then ac_GetDefaultFilename s access else origin)"

definition save_cluster :: "('d, 'x) cfg_env \<Rightarrow> ConfigAccess \<Rightarrow> bool \<Rightarrow> 'x Config \<Rightarrow> string \<times> 'x Cluster \<Rightarrow> 'd files \<Rightarrow> 'd written" where
  "save_cluster env access relativizePaths startingConfig entry s =
     (case entry of (key, cluster) \<Rightarrow>
        if map_of (cf_Clusters startingConfig) key = Some cluster then (s, None)
        else let file = destination access (cl_LocationOfOrigin cluster) s
             in rewrite_file env file
                  (\<lambda>config. let t = cluster\<lparr>cl_LocationOfOrigin := file\<rparr>
                            in case (if relativizePaths then RelativizeClusterLocalPaths (ce_Paths env) (ce_AbsDir env) t else Inr t) of
                                 Inl e \<Rightarrow> Inl e
                               | Inr t1 \<Rightarrow> Inr (config\<lparr>cf_Clusters := AList.update key t1 (cf_Clusters config)\<rparr>)) s)"

definition save_auth :: "('d, 'x) cfg_env \<Rightarrow> ConfigAccess \<Rightarrow> bool \<Rightarrow> 'x Config \<Rightarrow> string \<times> 'x AuthInfo \<Rightarrow> 'd files \<Rightarrow> 'd written" where
  "save_auth env access relativizePaths startingConfig entry s =
     (case entry of (key, authInfo) \<Rightarrow>
        if map_of (cf_AuthInfos startingConfig) key = Some authInfo then (s, None)
        else let file = destination access (au_LocationOfOrigin authInfo) s
             in rewrite_file env file
                  (\<lambda>config. let t = authInfo\<lparr>au_LocationOfOrigin := file\<rparr>
                            in case (if relativizePaths then RelativizeAuthInfoLocalPaths (ce_Paths env) (ce_AbsDir env) t else Inr t) of
                                 Inl e \<Rightarrow> Inl e
                               | Inr t1 \<Rightarrow> Inr (config\<lparr>cf_AuthInfos := AList.update key t1 (cf_AuthInfos config)\<rparr>)) s)"

text \<open>The contexts are collected per file before any is written.\<close>

fun seen_contexts ::
    "('d, 'x) cfg_env \<Rightarrow> ConfigAccess \<Rightarrow> 'x Config \<Rightarrow> 'd files \<Rightarrow> (string \<times> 'x Context) list \<Rightarrow> (string \<times> 'x Config) list \<Rightarrow> cfg_err + (string \<times> 'x Config) list" where
  "seen_contexts env access startingConfig s [] seen = Inr seen"
| "seen_contexts env access startingConfig s ((key, ctx) # ctxs) seen =
     (if map_of (cf_Contexts startingConfig) key = Some ctx then seen_contexts env access startingConfig s ctxs seen
      else let file = destination access (cx_LocationOfOrigin ctx) s
           in case (case map_of seen file of Some config \<Rightarrow> Inr config | None \<Rightarrow> getConfigFromFile env s file) of
                Inl e \<Rightarrow> Inl e
              | Inr config \<Rightarrow>
                  seen_contexts env access startingConfig s ctxs (AList.update file (config\<lparr>cf_Contexts := AList.update key ctx (cf_Contexts config)\<rparr>) seen))"

definition save_contexts :: "('d, 'x) cfg_env \<Rightarrow> ConfigAccess \<Rightarrow> 'x Config \<Rightarrow> (string \<times> 'x Context) list \<Rightarrow> 'd files \<Rightarrow> 'd written" where
  "save_contexts env access startingConfig ctxs s =
     (case seen_contexts env access startingConfig s ctxs [] of
        Inl e \<Rightarrow> (s, Some e)
      | Inr seen \<Rightarrow> run_steps (map (\<lambda>(file, config). WriteToFile env config file) seen) s)"

definition drop_cluster :: "('d, 'x) cfg_env \<Rightarrow> ConfigAccess \<Rightarrow> 'x Config \<Rightarrow> string \<times> 'x Cluster \<Rightarrow> 'd files \<Rightarrow> 'd written" where
  "drop_cluster env access newConfig entry s =
     (case entry of (key, cluster) \<Rightarrow>
        if map_of (cf_Clusters newConfig) key \<noteq> None then (s, None)
        else rewrite_file env (destination access (cl_LocationOfOrigin cluster) s) (\<lambda>config. Inr (config\<lparr>cf_Clusters := AList.delete key (cf_Clusters config)\<rparr>)) s)"

definition drop_context :: "('d, 'x) cfg_env \<Rightarrow> ConfigAccess \<Rightarrow> 'x Config \<Rightarrow> string \<times> 'x Context \<Rightarrow> 'd files \<Rightarrow> 'd written" where
  "drop_context env access newConfig entry s =
     (case entry of (key, ctx) \<Rightarrow>
        if map_of (cf_Contexts newConfig) key \<noteq> None then (s, None)
        else rewrite_file env (destination access (cx_LocationOfOrigin ctx) s) (\<lambda>config. Inr (config\<lparr>cf_Contexts := AList.delete key (cf_Contexts config)\<rparr>)) s)"

definition drop_auth :: "('d, 'x) cfg_env \<Rightarrow> ConfigAccess \<Rightarrow> 'x Config \<Rightarrow> string \<times> 'x AuthInfo \<Rightarrow> 'd files \<Rightarrow> 'd written" where
  "drop_auth env access newConfig entry s =
     (case entry of (key, authInfo) \<Rightarrow>
        if map_of (cf_AuthInfos newConfig) key \<noteq> None then (s, None)
        else rewrite_file env (destination access (au_LocationOfOrigin authInfo) s) (\<lambda>config. Inr (config\<lparr>cf_AuthInfos := AList.delete key (cf_AuthInfos config)\<rparr>)) s)"

definition modify_steps :: "('d, 'x) cfg_env \<Rightarrow> ConfigAccess \<Rightarrow> 'x Config \<Rightarrow> 'x Config \<Rightarrow> bool \<Rightarrow> ('d files \<Rightarrow> 'd written) list" where
  "modify_steps env access startingConfig newConfig relativizePaths =
     [\<lambda>s. if cf_CurrentContext startingConfig \<noteq> cf_CurrentContext newConfig then writeCurrentContext env access (cf_CurrentContext newConfig) s else (s, None),
      \<lambda>s. if \<not> same_preferences startingConfig newConfig then writePreferences env access newConfig s else (s, None),
      run_steps (map (save_cluster env access relativizePaths startingConfig) (cf_Clusters newConfig)),
      save_contexts env access startingConfig (cf_Contexts newConfig),
      run_steps (map (save_auth env access relativizePaths startingConfig) (cf_AuthInfos newConfig)),
      run_steps (map (drop_cluster env access newConfig) (cf_Clusters startingConfig)),
      run_steps (map (drop_context env access newConfig) (cf_Contexts startingConfig)),
      run_steps (map (drop_auth env access newConfig) (cf_AuthInfos startingConfig))]"

definition modify_files :: "('d, 'x) cfg_env \<Rightarrow> ConfigAccess \<Rightarrow> 'x Config \<Rightarrow> bool \<Rightarrow> 'd files \<Rightarrow> 'd written" where
  "modify_files env access newConfig relativizePaths s =
     (case GetStartingConfig env access s of
        (s1, Inl e) \<Rightarrow> (s1, Some e)
      | (s1, Inr startingConfig) \<Rightarrow>
          if same_config startingConfig newConfig then (s1, None) else run_steps (modify_steps env access startingConfig newConfig relativizePaths) s1)"

text \<open>The files that have been locked, and the error of the first that cannot be.\<close>

fun lock_all :: "('d, 'x) cfg_env \<Rightarrow> string list \<Rightarrow> 'd files \<Rightarrow> 'd files \<times> string list \<times> cfg_err option" where
  "lock_all env [] s = (s, [], None)"
| "lock_all env (filename # files) s =
     (case lockFile env filename s of
        (s1, Some e) \<Rightarrow> (s1, [], Some e)
      | (s1, None) \<Rightarrow> (case lock_all env files s1 of (s2, held, err) \<Rightarrow> (s2, filename # held, err)))"

text \<open>\<open>sort.Strings\<close> works on the slice that \<open>GetLoadingPrecedence\<close> returns, which for the loading rules is their own field unless a file is explicit.\<close>

definition sorted_access :: "ConfigAccess \<Rightarrow> ConfigAccess" where
  "sorted_access access =
     (case access of
        RulesAccess rules \<Rightarrow> if lr_ExplicitPath rules \<noteq> [] then access else RulesAccess (rules\<lparr>lr_Precedence := sort (lr_Precedence rules)\<rparr>)
      | PathAccess po \<Rightarrow> access)"

definition ModifyConfig :: "('d, 'x) cfg_env \<Rightarrow> bool \<Rightarrow> ConfigAccess \<Rightarrow> 'x Config \<Rightarrow> bool \<Rightarrow> 'd files \<Rightarrow> ConfigAccess \<times> 'd written" where
  "ModifyConfig env useLock access newConfig relativizePaths s =
     (if useLock
      then (case lock_all env (sort (ac_GetLoadingPrecedence access)) s of (s1, held, err) \<Rightarrow>
              (case err of
                 Some e \<Rightarrow> (sorted_access access, fold unlockFile (rev held) s1, Some e)
               | None \<Rightarrow> (case modify_files env (sorted_access access) newConfig relativizePaths s1 of (s2, err2) \<Rightarrow> (sorted_access access, fold unlockFile (rev held) s2, err2))))
      else (access, modify_files env access newConfig relativizePaths s))"

text \<open>The persister of an auth provider.\<close>

definition Persist :: "('d, 'x) cfg_env \<Rightarrow> bool \<Rightarrow> ConfigAccess \<Rightarrow> string \<Rightarrow> (string \<times> string) list \<Rightarrow> 'd files \<Rightarrow> ConfigAccess \<times> 'd written" where
  "Persist env useLock access user pc s =
     (case GetStartingConfig env access s of
        (s1, Inl e) \<Rightarrow> (access, s1, Some e)
      | (s1, Inr newConfig) \<Rightarrow>
          (case map_of (cf_AuthInfos newConfig) user of
             None \<Rightarrow> (access, s1, None)
           | Some a \<Rightarrow>
               (case au_AuthProvider a of
                  None \<Rightarrow> (access, s1, None)
                | Some p \<Rightarrow>
                    ModifyConfig env useLock access
                      (newConfig\<lparr>cf_AuthInfos := AList.update user (a\<lparr>au_AuthProvider := Some (p\<lparr>ap_Config := Some pc\<rparr>)\<rparr>) (cf_AuthInfos newConfig)\<rparr>) False s1)))"

section \<open>Locks\<close>

text \<open>What was locked is unlocked on every path, and nothing else is.\<close>

lemma unlock_all_exact: "fold unlockFile held s g = (if g \<in> lockName ` set held then NotExist else s g)"
  by (induction held arbitrary: s) (auto simp: unlockFile_def)

lemma lockFile_exact:
  "lockFile env f s = (s1, err) \<Longrightarrow> err = None \<longrightarrow> s1 (lockName f) = File [] \<and> (s (lockName f) = NotExist \<or> ce_Dir env f = lockName f)"
  by (auto simp: lockFile_def os_MkdirAll_def create_exclusive_def split: if_splits)

lemma ModifyConfig_access: "fst (ModifyConfig env useLock access new rel s) = (if useLock then sorted_access access else access)"
  by (auto simp: ModifyConfig_def split: prod.splits option.splits)

text \<open>
  With locks, a change through the loading rules sorts their list of files: afterwards, and already when the change itself is computed, the files are merged in another order.
\<close>

lemma lock_reorders_precedence:
  assumes "lr_ExplicitPath rules = []" and "ModifyConfig env True (RulesAccess rules) new rel s = (access, out)"
  shows "access = RulesAccess (rules\<lparr>lr_Precedence := sort (lr_Precedence rules)\<rparr>)"
  using ModifyConfig_access [of env True "RulesAccess rules" new rel s] assms by (simp add: sorted_access_def)

section \<open>What is saved\<close>

type_synonym 'x view =
  "(string \<rightharpoonup> 'x Cluster) \<times> (string \<rightharpoonup> 'x AuthInfo) \<times> (string \<rightharpoonup> 'x Context) \<times> string \<times> bool \<times> (string \<rightharpoonup> 'x)"

definition view :: "'x Config \<Rightarrow> 'x view" where
  "view c = (map_of (cf_Clusters c), map_of (cf_AuthInfos c), map_of (cf_Contexts c), cf_CurrentContext c, cf_Colors c, map_of (cf_PreferenceExtensions c))"

definition on_values :: "('x Cluster \<Rightarrow> 'x Cluster) \<Rightarrow> ('x AuthInfo \<Rightarrow> 'x AuthInfo) \<Rightarrow> ('x Context \<Rightarrow> 'x Context) \<Rightarrow> 'x view \<Rightarrow> 'x view" where
  "on_values nc na nx v = (case v of (C, A, X, rest) \<Rightarrow> (\<lambda>k. map_option nc (C k), \<lambda>k. map_option na (A k), \<lambda>k. map_option nx (X k), rest))"

definition located :: "string \<Rightarrow> 'x view \<Rightarrow> 'x view" where
  "located f = on_values (\<lambda>c. c\<lparr>cl_LocationOfOrigin := f\<rparr>) (\<lambda>a. a\<lparr>au_LocationOfOrigin := f\<rparr>) (\<lambda>x. x\<lparr>cx_LocationOfOrigin := f\<rparr>)"

text \<open>
  The codec keeps a configuration up to a normal form of its entries, which does not depend on their origin and which what it has decoded already has; what it encodes is not empty.
\<close>

definition faithful_codec :: "('d, 'x) cfg_env \<Rightarrow> ('x Cluster \<Rightarrow> 'x Cluster) \<Rightarrow> ('x AuthInfo \<Rightarrow> 'x AuthInfo) \<Rightarrow> ('x Context \<Rightarrow> 'x Context) \<Rightarrow> bool" where
  "faithful_codec env nc na nx \<longleftrightarrow>
     (\<forall>c data. ce_Encode env c = Some data \<longrightarrow> data \<noteq> [] \<and> (\<exists>d. ce_Decode env data = Inr d \<and> view d = on_values nc na nx (view c))) \<and>
     (\<forall>data d. ce_Decode env data = Inr d \<longrightarrow> on_values nc na nx (view d) = view d) \<and>
     (\<forall>c f. nc (c\<lparr>cl_LocationOfOrigin := f\<rparr>) = nc c) \<and> (\<forall>a f. na (a\<lparr>au_LocationOfOrigin := f\<rparr>) = na a) \<and> (\<forall>x f. nx (x\<lparr>cx_LocationOfOrigin := f\<rparr>) = nx x)"

text \<open>Mergo: merging into an empty configuration gives the other, and merging a configuration with itself gives it.\<close>

definition merges :: "('d, 'x) cfg_env \<Rightarrow> bool" where
  "merges env \<longleftrightarrow> (\<forall>c. ce_Merge env NewConfig c = c \<and> ce_Merge env c c = c)"

text \<open>What a file shows of a configuration that is written to it.\<close>

definition shown :: "('x Cluster \<Rightarrow> 'x Cluster) \<Rightarrow> ('x AuthInfo \<Rightarrow> 'x AuthInfo) \<Rightarrow> ('x Context \<Rightarrow> 'x Context) \<Rightarrow> string \<Rightarrow> 'x view \<Rightarrow> 'x view" where
  "shown nc na nx f v = located f (on_values nc na nx v)"

lemma map_of_apsnd: "map_of (map (apsnd g) m) k = map_option g (map_of m k)"
  by (induction m) auto

lemma view_set_origin: "view (set_origin f c) = located f (view c)"
  by (auto simp: view_def set_origin_def located_def on_values_def map_of_apsnd)

lemma view_NewConfig: "view NewConfig = (Map.empty, Map.empty, Map.empty, [], False, Map.empty)"
  by (simp add: view_def NewConfig_def)

lemma faithful_located: "faithful_codec env nc na nx \<Longrightarrow> on_values nc na nx (located f v) = on_values nc na nx v"
  by (auto simp: faithful_codec_def located_def on_values_def option.map_comp comp_def split: prod.splits)

lemma read_shown:
  assumes faithful: "faithful_codec env nc na nx" and read: "getConfigFromFile env s f = Inr c"
  shows "shown nc na nx f (view c) = view c"
proof -
  have new: "on_values nc na nx (view NewConfig) = view NewConfig" "shown nc na nx f (view NewConfig) = view NewConfig"
    by (simp_all add: view_NewConfig shown_def located_def on_values_def)
  consider "c = NewConfig" | c0 where "c = set_origin f c0" "on_values nc na nx (view c0) = view c0"
    using read new(1) faithful
    by (fastforce simp: getConfigFromFile_def LoadFromFile_def load_bytes_def faithful_codec_def split: load_out.splits sum.splits if_splits)
  then show ?thesis using new(2) by cases (simp_all add: shown_def view_set_origin faithful_located [OF faithful])
qed

lemma WriteToFile_other: "WriteToFile env c f s = (s1, err) \<Longrightarrow> g \<noteq> f \<Longrightarrow> g \<noteq> ce_Dir env f \<Longrightarrow> s1 g = s g"
  by (auto simp: WriteToFile_def os_MkdirAll_def os_WriteFile_def split: option.splits if_splits entry.splits)

lemma write_shown:
  assumes faithful: "faithful_codec env nc na nx" and "ce_Dir env f \<noteq> f" and "WriteToFile env c f s = (s1, None)"
  shows "\<exists>d. getConfigFromFile env s1 f = Inr d \<and> view d = shown nc na nx f (view c)"
proof -
  obtain data where data: "ce_Encode env c = Some data" and "s1 f = File data"
    using assms(2, 3) by (auto simp: WriteToFile_def os_MkdirAll_def os_WriteFile_def split: option.splits if_splits entry.splits)
  moreover from data faithful obtain d where "data \<noteq> []" "ce_Decode env data = Inr d" "view d = on_values nc na nx (view c)"
    unfolding faithful_codec_def by blast
  ultimately show ?thesis
    by (simp add: getConfigFromFile_def LoadFromFile_def load_bytes_def os_ReadFile_def view_set_origin shown_def)
qed

subsection \<open>Through one explicit file\<close>

definition explicit_access :: "ConfigAccess \<Rightarrow> string \<Rightarrow> bool" where
  "explicit_access access f \<longleftrightarrow>
     lr_ExplicitPath (ac_rules access) = f \<and> f \<noteq> [] \<and> lr_DoNotResolvePaths (ac_rules access) \<and> f \<notin> fst ` set (lr_MigrationRules (ac_rules access))"

text \<open>The file shows \<open>v\<close>, and no other file has changed since \<open>s0\<close> except a migrated one.\<close>

definition saving :: "('d, 'x) cfg_env \<Rightarrow> ConfigAccess \<Rightarrow> string \<Rightarrow> 'd files \<Rightarrow> 'd files \<Rightarrow> 'x view \<Rightarrow> bool" where
  "saving env access f s0 s v \<longleftrightarrow>
     (\<exists>c. getConfigFromFile env s f = Inr c \<and> view c = v) \<and>
     (\<forall>g. g \<noteq> f \<and> g \<noteq> ce_Dir env f \<and> g \<notin> fst ` set (lr_MigrationRules (ac_rules access)) \<longrightarrow> s g = s0 g)"

lemma saving_shown: "faithful_codec env nc na nx \<Longrightarrow> saving env access f s0 s v \<Longrightarrow> shown nc na nx f v = v"
  using read_shown unfolding saving_def by blast

lemma saving_write:
  assumes "faithful_codec env nc na nx" "ce_Dir env f \<noteq> f" "saving env access f s0 s v" "WriteToFile env c f s = (s1, None)"
  shows "saving env access f s0 s1 (shown nc na nx f (view c))"
  using assms write_shown [OF assms(1, 2, 4)] WriteToFile_other [OF assms(4)] by (auto simp: saving_def)

lemma saving_rewrite:
  assumes "faithful_codec env nc na nx" "ce_Dir env f \<noteq> f" "saving env access f s0 s v" "rewrite_file env f change s = (s1, None)"
    and "\<And>c d. view c = v \<Longrightarrow> change c = Inr d \<Longrightarrow> view d = w"
  shows "saving env access f s0 s1 (shown nc na nx f w)"
proof -
  obtain c where c: "getConfigFromFile env s f = Inr c" "view c = v" using assms(3) by (auto simp: saving_def)
  then obtain d where "change c = Inr d" "WriteToFile env d f s = (s1, None)"
    using assms(4) by (auto simp: rewrite_file_def split: sum.splits)
  then show ?thesis using saving_write [OF assms(1-3)] assms(5) c(2) by metis
qed

lemma getConfig_cong: "s f = t f \<Longrightarrow> getConfigFromFile env s f = getConfigFromFile env t f"
  by (simp add: getConfigFromFile_def LoadFromFile_def os_ReadFile_def)

lemma migrate_frame: "run_steps (map (migrate_one env) rules) s = (s1, err) \<Longrightarrow> g \<notin> fst ` set rules \<Longrightarrow> s1 g = s g"
proof (induction rules arbitrary: s)
  case (Cons rule rules)
  have "t g = s g" if "migrate_one env rule s = (t, e)" for t e
    using that Cons.prems(2) by (auto simp: migrate_one_def os_WriteFile_def split: entry.splits sum.splits if_splits prod.splits)
  then show ?case using Cons by (auto split: prod.splits option.splits)
qed simp

lemma explicit_load_each:
  "load_each env s [f] = (missing, errs, configs) \<Longrightarrow> f \<noteq> [] \<Longrightarrow> s f \<noteq> NotExist \<Longrightarrow> errs = [] \<Longrightarrow> \<exists>c. configs = [c] \<and> getConfigFromFile env s f = Inr c"
  by (auto simp: getConfigFromFile_def LoadFromFile_def os_ReadFile_def split: load_out.splits sum.splits entry.splits)

lemma explicit_start:
  assumes "merges env" "explicit_access access f" "GetStartingConfig env access s = (s1, Inr start)"
  shows "getConfigFromFile env s1 f = Inr start \<and> s1 f = s f \<and> (\<forall>g. g \<notin> fst ` set (lr_MigrationRules (ac_rules access)) \<longrightarrow> s1 g = s g)"
proof -
  let ?rules = "ac_rules access"
  have path: "lr_ExplicitPath ?rules = f" "f \<noteq> []" "lr_DoNotResolvePaths ?rules" "f \<notin> fst ` set (lr_MigrationRules ?rules)" and prec: "GetLoadingPrecedence ?rules = [f]"
    using assms(2) by (auto simp: explicit_access_def GetLoadingPrecedence_def)
  obtain e where mig: "Migrate env ?rules s = (s1, e)" using assms(3) path by (auto simp: GetStartingConfig_def Load_def Let_def split: prod.splits option.splits if_splits)
  then have frame: "\<forall>g. g \<notin> fst ` set (lr_MigrationRules ?rules) \<longrightarrow> s1 g = s g"
    using migrate_frame [of env "lr_MigrationRules ?rules" s s1 e] by (simp add: Migrate_def)
  have e: "e = None" using assms(3) mig
  proof (cases e)
    case (Some x)
    have "x \<noteq> FileNotExist" if "run_steps (map (migrate_one env) rules) t = (t1, Some x)" for rules t t1
      using that
      by (induction rules arbitrary: t) (auto simp: migrate_one_def os_WriteFile_def split: entry.splits sum.splits if_splits prod.splits option.splits)
    then show ?thesis using assms(3) mig Some by (auto simp: GetStartingConfig_def Load_def Migrate_def split: if_splits)
  qed
  have "getConfigFromFile env s1 f = Inr start"
  proof (cases "s1 f = NotExist")
    case True
    then have "start = NewConfig" using assms(3) mig e path by (simp add: GetStartingConfig_def Load_def)
    then show ?thesis using True by (simp add: getConfigFromFile_def LoadFromFile_def os_ReadFile_def)
  next
    case False
    obtain missing errs configs where each: "load_each env s1 [f] = (missing, errs, configs)" by (rule prod_cases3)
    then have "errs = []" and start: "start = merge_configs env configs"
      using assms(3) mig e path prec False by (auto simp: GetStartingConfig_def Load_def Let_def simp del: load_each.simps split: if_splits)
    then obtain c where "configs = [c]" "getConfigFromFile env s1 f = Inr c" using explicit_load_each [OF each] path False by blast
    then show ?thesis using start assms(1) by (simp add: merge_configs_def merges_def)
  qed
  then show ?thesis using frame path(4) by blast
qed

lemma explicit_destination: "explicit_access access f \<Longrightarrow> origin = [] \<or> origin = f \<Longrightarrow> destination access origin s = f"
  by (cases access) (auto simp: destination_def explicit_access_def ac_GetDefaultFilename_def GetDefaultFilename_def po_GetDefaultFilename_def)

lemma explicit_file: "explicit_access access f \<Longrightarrow> IsExplicitFile access \<and> GetExplicitFile access = f"
  by (simp add: explicit_access_def IsExplicitFile_def GetExplicitFile_def)

lemma saving_start:
  assumes "merges env" "explicit_access access f" "saving env access f s0 s v" "GetStartingConfig env access s = (s1, Inr start)"
  shows "saving env access f s0 s1 v" "view start = v"
  using assms(3) explicit_start [OF assms(1, 2, 4)] getConfig_cong [of s1 f s env] by (auto simp: saving_def)

lemma run_map_inv:
  assumes "run_steps (map g xs) s = (s1, None)" "I s m"
    and "\<And>x t t1 m. x \<in> set xs \<Longrightarrow> g x t = (t1, None) \<Longrightarrow> I t m \<Longrightarrow> I t1 (up x m)"
  shows "I s1 (fold up xs m)"
  using assms by (induction xs arbitrary: s m) (auto split: prod.splits option.splits)

text \<open>The saved entries, and what is left when the missing ones have been dropped.\<close>

lemma fold_save:
  "distinct (map fst xs) \<Longrightarrow>
    fold (\<lambda>(k, c) m. if start k = Some c then m else m(k \<mapsto> g c)) xs m =
      (\<lambda>k. case map_of xs k of None \<Rightarrow> m k | Some c \<Rightarrow> if start k = Some c then m k else Some (g c))"
proof (induction xs arbitrary: m)
  case (Cons x xs)
  obtain k c where x: "x = (k, c)" by (cases x)
  then have "map_of xs k = None" using Cons.prems by (simp add: map_of_eq_None_iff)
  then show ?case using Cons x by (auto intro!: ext split: option.splits)
qed simp

lemma fold_drop: "fold (\<lambda>(k, c) m. if new k \<noteq> None then m else m(k := None)) xs m = (\<lambda>k. if k \<in> fst ` set xs \<and> new k = None then None else m k)"
  by (induction xs arbitrary: m) (auto intro!: ext)

lemma save_then_drop:
  assumes "distinct (map fst new)" "\<And>k. map_option g (map_of old k) = map_of old k"
  shows "fold (\<lambda>(k, c) m. if map_of new k \<noteq> None then m else m(k := None)) old
      (fold (\<lambda>(k, c) m. if map_of old k = Some c then m else m(k \<mapsto> g c)) new (map_of old)) = (\<lambda>k. map_option g (map_of new k))"
proof
  fix k
  have "k \<notin> fst ` set old \<Longrightarrow> map_of old k = None" by (simp add: map_of_eq_None_iff)
  moreover have "map_of old k = Some c \<Longrightarrow> g c = c" for c using assms(2) [of k] by simp
  ultimately show "fold (\<lambda>(k, c) m. if map_of new k \<noteq> None then m else m(k := None)) old
      (fold (\<lambda>(k, c) m. if map_of old k = Some c then m else m(k \<mapsto> g c)) new (map_of old)) k = map_option g (map_of new k)"
    unfolding fold_drop fold_save [OF assms(1)] by (auto split: option.splits)
qed

lemma shown_parts:
  "shown nc na nx f (C, A, X, rest) =
    (\<lambda>k. map_option (\<lambda>c. (nc c)\<lparr>cl_LocationOfOrigin := f\<rparr>) (C k), \<lambda>k. map_option (\<lambda>a. (na a)\<lparr>au_LocationOfOrigin := f\<rparr>) (A k),
     \<lambda>k. map_option (\<lambda>x. (nx x)\<lparr>cx_LocationOfOrigin := f\<rparr>) (X k), rest)"
  by (simp add: shown_def located_def on_values_def option.map_comp comp_def)

lemma map_values_upd: "(\<lambda>k. map_option g ((m(a \<mapsto> t)) k)) = (\<lambda>k. map_option g (m k))(a \<mapsto> g t)"
  by auto

lemma map_values_drop: "(\<lambda>k. map_option g ((m(a := None)) k)) = (\<lambda>k. map_option g (m k))(a := None)"
  by auto

text \<open>In a view that a file already shows, only the changed entry is brought to its normal form.\<close>

lemma shown_change:
  assumes "shown nc na nx f (C, A, X, rest) = (C, A, X, rest)"
  shows "shown nc na nx f (C(k \<mapsto> c), A, X, rest1) = (C(k \<mapsto> (nc c)\<lparr>cl_LocationOfOrigin := f\<rparr>), A, X, rest1)"
    and "shown nc na nx f (C, A(k \<mapsto> a), X, rest1) = (C, A(k \<mapsto> (na a)\<lparr>au_LocationOfOrigin := f\<rparr>), X, rest1)"
    and "shown nc na nx f (C(k := None), A, X, rest1) = (C(k := None), A, X, rest1)"
    and "shown nc na nx f (C, A(k := None), X, rest1) = (C, A(k := None), X, rest1)"
    and "shown nc na nx f (C, A, X(k := None), rest1) = (C, A, X(k := None), rest1)"
    and "shown nc na nx f (C, A, X, rest1) = (C, A, X, rest1)"
    and "shown nc na nx f (C, A, Y, rest1) = (C, A, \<lambda>k. map_option (\<lambda>x. (nx x)\<lparr>cx_LocationOfOrigin := f\<rparr>) (Y k), rest1)"
  using assms unfolding shown_parts map_values_upd map_values_drop prod.inject by (elim conjE, simp only:)+

lemma view_with:
  "view (c\<lparr>cf_Clusters := cs\<rparr>) = (map_of cs, snd (view c))"
  "view (c\<lparr>cf_AuthInfos := as\<rparr>) = (fst (view c), map_of as, snd (snd (view c)))"
  "view (c\<lparr>cf_Contexts := xs\<rparr>) = (fst (view c), fst (snd (view c)), map_of xs, snd (snd (snd (view c))))"
  "view (c\<lparr>cf_CurrentContext := n\<rparr>) = (map_of (cf_Clusters c), map_of (cf_AuthInfos c), map_of (cf_Contexts c), n, cf_Colors c, map_of (cf_PreferenceExtensions c))"
  by (simp_all add: view_def)

lemma view_fst: "view c = (C, A, X, rest) \<Longrightarrow> map_of (cf_Clusters c) = C \<and> map_of (cf_AuthInfos c) = A \<and> map_of (cf_Contexts c) = X"
  by (auto simp: view_def)

lemma save_cluster_saving:
  assumes faithful: "faithful_codec env nc na nx" and dir: "ce_Dir env f \<noteq> f" and access: "explicit_access access f"
    and origin: "cl_LocationOfOrigin c = [] \<or> cl_LocationOfOrigin c = f"
    and save: "save_cluster env access False start (k, c) s = (s1, None)" and before: "saving env access f s0 s (C, A, X, rest)"
  shows "saving env access f s0 s1 (if map_of (cf_Clusters start) k = Some c then C else C(k \<mapsto> (nc c)\<lparr>cl_LocationOfOrigin := f\<rparr>), A, X, rest)"
proof (cases "map_of (cf_Clusters start) k = Some c")
  case False
  let ?t = "c\<lparr>cl_LocationOfOrigin := f\<rparr>"
  have "rewrite_file env f (\<lambda>config. Inr (config\<lparr>cf_Clusters := AList.update k ?t (cf_Clusters config)\<rparr>)) s = (s1, None)"
    using save False by (simp add: save_cluster_def explicit_destination [OF access origin] Let_def)
  then have "saving env access f s0 s1 (shown nc na nx f (C(k \<mapsto> ?t), A, X, rest))"
    by (rule saving_rewrite [OF faithful dir before]) (auto simp: view_with update_conv' dest: view_fst)
  moreover have "nc ?t = nc c" using faithful by (simp add: faithful_codec_def)
  ultimately show ?thesis using False by (simp only: shown_change(1) [OF saving_shown [OF faithful before]] if_False)
qed (use assms in \<open>simp add: save_cluster_def\<close>)

lemma save_auth_saving:
  assumes faithful: "faithful_codec env nc na nx" and dir: "ce_Dir env f \<noteq> f" and access: "explicit_access access f"
    and origin: "au_LocationOfOrigin a = [] \<or> au_LocationOfOrigin a = f"
    and save: "save_auth env access False start (k, a) s = (s1, None)" and before: "saving env access f s0 s (C, A, X, rest)"
  shows "saving env access f s0 s1 (C, if map_of (cf_AuthInfos start) k = Some a then A else A(k \<mapsto> (na a)\<lparr>au_LocationOfOrigin := f\<rparr>), X, rest)"
proof (cases "map_of (cf_AuthInfos start) k = Some a")
  case False
  let ?t = "a\<lparr>au_LocationOfOrigin := f\<rparr>"
  have "rewrite_file env f (\<lambda>config. Inr (config\<lparr>cf_AuthInfos := AList.update k ?t (cf_AuthInfos config)\<rparr>)) s = (s1, None)"
    using save False by (simp add: save_auth_def explicit_destination [OF access origin] Let_def)
  then have "saving env access f s0 s1 (shown nc na nx f (C, A(k \<mapsto> ?t), X, rest))"
    by (rule saving_rewrite [OF faithful dir before]) (auto simp: view_with update_conv' dest: view_fst)
  moreover have "na ?t = na a" using faithful by (simp add: faithful_codec_def)
  ultimately show ?thesis using False by (simp only: shown_change(2) [OF saving_shown [OF faithful before]] if_False)
qed (use assms in \<open>simp add: save_auth_def\<close>)

lemma drop_saving:
  assumes faithful: "faithful_codec env nc na nx" and dir: "ce_Dir env f \<noteq> f" and access: "explicit_access access f" and before: "saving env access f s0 s (C, A, X, rest)"
  shows "cl_LocationOfOrigin c = [] \<or> cl_LocationOfOrigin c = f \<Longrightarrow> drop_cluster env access new (k, c) s = (s1, None) \<Longrightarrow>
      saving env access f s0 s1 (if map_of (cf_Clusters new) k \<noteq> None then C else C(k := None), A, X, rest)"
    and "au_LocationOfOrigin a = [] \<or> au_LocationOfOrigin a = f \<Longrightarrow> drop_auth env access new (k, a) s = (s1, None) \<Longrightarrow>
      saving env access f s0 s1 (C, if map_of (cf_AuthInfos new) k \<noteq> None then A else A(k := None), X, rest)"
    and "cx_LocationOfOrigin x = [] \<or> cx_LocationOfOrigin x = f \<Longrightarrow> drop_context env access new (k, x) s = (s1, None) \<Longrightarrow>
      saving env access f s0 s1 (C, A, if map_of (cf_Contexts new) k \<noteq> None then X else X(k := None), rest)"
proof -
  note fixed = shown_change(3-5) [OF saving_shown [OF faithful before]]
  show "saving env access f s0 s1 (if map_of (cf_Clusters new) k \<noteq> None then C else C(k := None), A, X, rest)"
    if origin: "cl_LocationOfOrigin c = [] \<or> cl_LocationOfOrigin c = f" and step: "drop_cluster env access new (k, c) s = (s1, None)"
  proof (cases "map_of (cf_Clusters new) k = None")
    case True
    have "rewrite_file env f (\<lambda>config. Inr (config\<lparr>cf_Clusters := AList.delete k (cf_Clusters config)\<rparr>)) s = (s1, None)"
      using step True by (simp add: drop_cluster_def explicit_destination [OF access origin])
    then have "saving env access f s0 s1 (shown nc na nx f (C(k := None), A, X, rest))"
      by (rule saving_rewrite [OF faithful dir before]) (auto simp: view_with delete_conv' dest: view_fst)
    then show ?thesis using True by (simp add: fixed)
  qed (use before step in \<open>auto simp: drop_cluster_def\<close>)
  show "saving env access f s0 s1 (C, if map_of (cf_AuthInfos new) k \<noteq> None then A else A(k := None), X, rest)"
    if origin: "au_LocationOfOrigin a = [] \<or> au_LocationOfOrigin a = f" and step: "drop_auth env access new (k, a) s = (s1, None)"
  proof (cases "map_of (cf_AuthInfos new) k = None")
    case True
    have "rewrite_file env f (\<lambda>config. Inr (config\<lparr>cf_AuthInfos := AList.delete k (cf_AuthInfos config)\<rparr>)) s = (s1, None)"
      using step True by (simp add: drop_auth_def explicit_destination [OF access origin])
    then have "saving env access f s0 s1 (shown nc na nx f (C, A(k := None), X, rest))"
      by (rule saving_rewrite [OF faithful dir before]) (auto simp: view_with delete_conv' dest: view_fst)
    then show ?thesis using True by (simp add: fixed)
  qed (use before step in \<open>auto simp: drop_auth_def\<close>)
  show "saving env access f s0 s1 (C, A, if map_of (cf_Contexts new) k \<noteq> None then X else X(k := None), rest)"
    if origin: "cx_LocationOfOrigin x = [] \<or> cx_LocationOfOrigin x = f" and step: "drop_context env access new (k, x) s = (s1, None)"
  proof (cases "map_of (cf_Contexts new) k = None")
    case True
    have "rewrite_file env f (\<lambda>config. Inr (config\<lparr>cf_Contexts := AList.delete k (cf_Contexts config)\<rparr>)) s = (s1, None)"
      using step True by (simp add: drop_context_def explicit_destination [OF access origin])
    then have "saving env access f s0 s1 (shown nc na nx f (C, A, X(k := None), rest))"
      by (rule saving_rewrite [OF faithful dir before]) (auto simp: view_with delete_conv' dest: view_fst)
    then show ?thesis using True by (simp add: fixed)
  qed (use before step in \<open>auto simp: drop_context_def\<close>)
qed

text \<open>Of the contexts, at most the one file has been collected.\<close>

definition collected :: "('d, 'x) cfg_env \<Rightarrow> string \<Rightarrow> 'd files \<Rightarrow> (string \<times> 'x Config) list \<Rightarrow> 'x view \<Rightarrow> bool" where
  "collected env f s seen v \<longleftrightarrow> seen = [] \<and> (\<exists>c. getConfigFromFile env s f = Inr c \<and> view c = v) \<or> (\<exists>c. seen = [(f, c)] \<and> view c = v)"

lemma collected_update:
  assumes "collected env f s seen (C, A, X, rest)" "(case map_of seen f of Some config \<Rightarrow> Inr config | None \<Rightarrow> getConfigFromFile env s f) = Inr config"
  shows "collected env f s (AList.update f (config\<lparr>cf_Contexts := AList.update k x (cf_Contexts config)\<rparr>) seen) (C, A, X(k \<mapsto> x), rest)"
  using assms by (auto simp: collected_def view_with update_conv' dest: view_fst)

lemma seen_contexts_collected:
  assumes "explicit_access access f" "\<forall>(k, x) \<in> set ctxs. cx_LocationOfOrigin x = [] \<or> cx_LocationOfOrigin x = f"
    and "seen_contexts env access start s ctxs seen = Inr seen1" "collected env f s seen (C, A, X, rest)"
  shows "collected env f s seen1 (C, A, fold (\<lambda>(k, x) m. if map_of (cf_Contexts start) k = Some x then m else m(k \<mapsto> x)) ctxs X, rest)"
  using assms(2-)
proof (induction ctxs arbitrary: seen X)
  case (Cons entry ctxs)
  obtain k x where entry: "entry = (k, x)" by (cases entry)
  show ?case
  proof (cases "map_of (cf_Contexts start) k = Some x")
    case False
    have "destination access (cx_LocationOfOrigin x) s = f" by (rule explicit_destination [OF assms(1)]) (use Cons.prems(1) entry in simp)
    then obtain config where config: "(case map_of seen f of Some config \<Rightarrow> Inr config | None \<Rightarrow> getConfigFromFile env s f) = Inr config"
      and rest: "seen_contexts env access start s ctxs (AList.update f (config\<lparr>cf_Contexts := AList.update k x (cf_Contexts config)\<rparr>) seen) = Inr seen1"
      using Cons.prems(2) entry False by (simp add: Let_def split: sum.splits)
    show ?thesis using Cons.IH [OF _ rest collected_update [OF Cons.prems(3) config]] Cons.prems(1) entry False by (simp add: fun_upd_def)
  qed (use Cons entry in simp)
qed simp

lemma save_contexts_saving:
  assumes faithful: "faithful_codec env nc na nx" and dir: "ce_Dir env f \<noteq> f" and access: "explicit_access access f"
    and origins: "\<forall>(k, x) \<in> set ctxs. cx_LocationOfOrigin x = [] \<or> cx_LocationOfOrigin x = f"
    and save: "save_contexts env access start ctxs s = (s1, None)" and before: "saving env access f s0 s (C, A, X, rest)"
  shows "saving env access f s0 s1 (shown nc na nx f (C, A, fold (\<lambda>(k, x) m. if map_of (cf_Contexts start) k = Some x then m else m(k \<mapsto> x)) ctxs X, rest))"
proof -
  obtain seen where seen: "seen_contexts env access start s ctxs [] = Inr seen" and run: "run_steps (map (\<lambda>(file, config). WriteToFile env config file) seen) s = (s1, None)"
    using save by (auto simp: save_contexts_def split: sum.splits)
  have "collected env f s [] (C, A, X, rest)" using before by (simp add: collected_def saving_def)
  from seen_contexts_collected [OF access origins seen this] consider
      "seen = []" "\<exists>c. getConfigFromFile env s f = Inr c \<and> view c = (C, A, fold (\<lambda>(k, x) m. if map_of (cf_Contexts start) k = Some x then m else m(k \<mapsto> x)) ctxs X, rest)"
    | c where "seen = [(f, c)]" "view c = (C, A, fold (\<lambda>(k, x) m. if map_of (cf_Contexts start) k = Some x then m else m(k \<mapsto> x)) ctxs X, rest)"
    unfolding collected_def by blast
  then show ?thesis
  proof cases
    case 1
    then have same: "saving env access f s0 s1 (C, A, fold (\<lambda>(k, x) m. if map_of (cf_Contexts start) k = Some x then m else m(k \<mapsto> x)) ctxs X, rest)"
      using run before by (simp add: saving_def)
    show ?thesis unfolding saving_shown [OF faithful same] by (rule same)
  next
    case 2
    then have "WriteToFile env c f s = (s1, None)" using run by (auto split: prod.splits option.splits)
    from saving_write [OF faithful dir before this] show ?thesis using 2 by simp
  qed
qed

lemma same_map_iff: "same_map m n \<longleftrightarrow> map_of m = map_of n"
proof
  assume same: "same_map m n"
  show "map_of m = map_of n"
  proof
    fix k
    show "map_of m k = map_of n k"
    proof (cases "k \<in> set (map fst m @ map fst n)")
      case True
      then show ?thesis using same by (auto simp: same_map_def list_all_iff)
    next
      case False
      then have "map_of m k = None" "map_of n k = None" by (simp_all add: map_of_eq_None_iff)
      then show ?thesis by simp
    qed
  qed
qed (simp add: same_map_def list_all_iff)

lemma same_preferences_iff: "same_preferences c d \<longleftrightarrow> cf_Colors c = cf_Colors d \<and> map_of (cf_PreferenceExtensions c) = map_of (cf_PreferenceExtensions d)"
  by (simp add: same_preferences_def same_map_iff)

lemma writeCurrentContext_saving:
  assumes faithful: "faithful_codec env nc na nx" and "merges env" and dir: "ce_Dir env f \<noteq> f" and access: "explicit_access access f"
    and step: "writeCurrentContext env access n s = (s1, None)" and before: "saving env access f s0 s (C, A, X, cur, prefs)"
  shows "saving env access f s0 s1 (C, A, X, n, prefs)"
proof -
  obtain t start where start: "GetStartingConfig env access s = (t, Inr start)"
    using step by (auto simp: writeCurrentContext_def split: prod.splits sum.splits)
  note same = saving_start [OF assms(2) access before start]
  show ?thesis
  proof (cases "cur = n")
    case True
    then have "cf_CurrentContext start = n" using same(2) by (simp add: view_def)
    then show ?thesis using same(1) True step start by (simp add: writeCurrentContext_def)
  next
    case False
    then have "rewrite_file env f (\<lambda>c. Inr (c\<lparr>cf_CurrentContext := n\<rparr>)) t = (s1, None)"
      using step start same(2) explicit_file [OF access] by (auto simp: writeCurrentContext_def view_def)
    then have "saving env access f s0 s1 (shown nc na nx f (C, A, X, n, prefs))"
      by (rule saving_rewrite [OF faithful dir same(1)]) (auto simp: view_def)
    then show ?thesis unfolding shown_change(6) [OF saving_shown [OF faithful same(1)]] .
  qed
qed

lemma writePreferences_saving:
  assumes faithful: "faithful_codec env nc na nx" and "merges env" and dir: "ce_Dir env f \<noteq> f" and access: "explicit_access access f"
    and step: "writePreferences env access new s = (s1, None)" and before: "saving env access f s0 s (C, A, X, cur, prefs)"
  shows "saving env access f s0 s1 (C, A, X, cur, cf_Colors new, map_of (cf_PreferenceExtensions new))"
proof -
  obtain t start where start: "GetStartingConfig env access s = (t, Inr start)"
    using step by (auto simp: writePreferences_def split: prod.splits sum.splits)
  note same = saving_start [OF assms(2) access before start]
  show ?thesis
  proof (cases "same_preferences start new")
    case True
    then have "prefs = (cf_Colors new, map_of (cf_PreferenceExtensions new))" using same(2) by (auto simp: view_def same_preferences_iff)
    then show ?thesis using same(1) True step start by (simp add: writePreferences_def)
  next
    case False
    then have "rewrite_file env f (\<lambda>c. Inr (with_preferences new c)) t = (s1, None)"
      using step start explicit_file [OF access] by (simp add: writePreferences_def)
    then have "saving env access f s0 s1 (shown nc na nx f (C, A, X, cur, cf_Colors new, map_of (cf_PreferenceExtensions new)))"
      by (rule saving_rewrite [OF faithful dir same(1)]) (auto simp: view_def with_preferences_def)
    then show ?thesis unfolding shown_change(6) [OF saving_shown [OF faithful same(1)]] .
  qed
qed

lemma fold_save_later:
  assumes "distinct (map fst xs)" "\<And>k. map_option g (m k) = m k"
  shows "(\<lambda>k. map_option g (fold (\<lambda>(k, c) m. if start k = Some c then m else m(k \<mapsto> c)) xs m k)) = fold (\<lambda>(k, c) m. if start k = Some c then m else m(k \<mapsto> g c)) xs m"
proof
  fix k
  show "map_option g (fold (\<lambda>(k, c) m. if start k = Some c then m else m(k \<mapsto> c)) xs m k) = fold (\<lambda>(k, c) m. if start k = Some c then m else m(k \<mapsto> g c)) xs m k"
    unfolding fold_save [OF assms(1)] using assms(2) by (auto split: option.splits)
qed

lemma run_steps_Cons: "run_steps (g # gs) s = (s1, None) \<longleftrightarrow> (\<exists>t. g s = (t, None) \<and> run_steps gs t = (s1, None))"
  by (auto split: prod.splits option.splits)

text \<open>The entries of a configuration belong to the file or are new, and no key occurs twice.\<close>

definition of_file :: "string \<Rightarrow> 'x Config \<Rightarrow> bool" where
  "of_file f c \<longleftrightarrow>
     list_all (\<lambda>(k, x). cl_LocationOfOrigin x = [] \<or> cl_LocationOfOrigin x = f) (cf_Clusters c) \<and> distinct (map fst (cf_Clusters c)) \<and>
     list_all (\<lambda>(k, x). au_LocationOfOrigin x = [] \<or> au_LocationOfOrigin x = f) (cf_AuthInfos c) \<and> distinct (map fst (cf_AuthInfos c)) \<and>
     list_all (\<lambda>(k, x). cx_LocationOfOrigin x = [] \<or> cx_LocationOfOrigin x = f) (cf_Contexts c) \<and> distinct (map fst (cf_Contexts c))"

lemma read_origins:
  assumes "getConfigFromFile env s f = Inr c"
  shows "(k, x) \<in> set (cf_Clusters c) \<Longrightarrow> cl_LocationOfOrigin x = f" "(k, y) \<in> set (cf_AuthInfos c) \<Longrightarrow> au_LocationOfOrigin y = f"
    "(k, z) \<in> set (cf_Contexts c) \<Longrightarrow> cx_LocationOfOrigin z = f"
proof -
  have "c = NewConfig \<or> (\<exists>c0. c = set_origin f c0)"
    using assms by (auto simp: getConfigFromFile_def LoadFromFile_def split: load_out.splits sum.splits if_splits)
  then show "(k, x) \<in> set (cf_Clusters c) \<Longrightarrow> cl_LocationOfOrigin x = f" "(k, y) \<in> set (cf_AuthInfos c) \<Longrightarrow> au_LocationOfOrigin y = f"
    "(k, z) \<in> set (cf_Contexts c) \<Longrightarrow> cx_LocationOfOrigin z = f"
    by (auto simp: NewConfig_def set_origin_def)
qed

lemma save_phase:
  assumes faithful: "faithful_codec env nc na nx" and dir: "ce_Dir env f \<noteq> f" and access: "explicit_access access f" and new: "of_file f new"
    and s1: "run_steps (map (save_cluster env access False start) (cf_Clusters new)) s = (s1, None)"
    and s2: "save_contexts env access start (cf_Contexts new) s1 = (s2, None)"
    and s3: "run_steps (map (save_auth env access False start) (cf_AuthInfos new)) s2 = (s3, None)"
    and before: "saving env access f s0 s (C, A, map_of (cf_Contexts start), rest)"
  shows "saving env access f s0 s3
    (fold (\<lambda>(k, c) m. if map_of (cf_Clusters start) k = Some c then m else m(k \<mapsto> (nc c)\<lparr>cl_LocationOfOrigin := f\<rparr>)) (cf_Clusters new) C,
     fold (\<lambda>(k, a) m. if map_of (cf_AuthInfos start) k = Some a then m else m(k \<mapsto> (na a)\<lparr>au_LocationOfOrigin := f\<rparr>)) (cf_AuthInfos new) A,
     fold (\<lambda>(k, x) m. if map_of (cf_Contexts start) k = Some x then m else m(k \<mapsto> (nx x)\<lparr>cx_LocationOfOrigin := f\<rparr>)) (cf_Contexts new) (map_of (cf_Contexts start)), rest)"
    (is "saving env access f s0 s3 (?C, ?A, ?X, rest)")
proof -
  have "map_option (\<lambda>x. (nx x)\<lparr>cx_LocationOfOrigin := f\<rparr>) (map_of (cf_Contexts start) k) = map_of (cf_Contexts start) k" for k
    using saving_shown [OF faithful before] unfolding shown_parts prod.inject by (blast dest: fun_cong)
  note later = fold_save_later [OF _ this, where start = "map_of (cf_Contexts start)" and xs = "cf_Contexts new"]
  have one: "saving env access f s0 s1 (?C, A, map_of (cf_Contexts start), rest)"
    using s1 before
  proof (rule run_map_inv [where I = "\<lambda>t m. saving env access f s0 t (m, A, map_of (cf_Contexts start), rest)"])
    fix entry t t1 m
    assume entry: "entry \<in> set (cf_Clusters new)" and step: "save_cluster env access False start entry t = (t1, None)" and sav: "saving env access f s0 t (m, A, map_of (cf_Contexts start), rest)"
    obtain k c where e: "entry = (k, c)" by (rule prod.exhaust)
    have "cl_LocationOfOrigin c = [] \<or> cl_LocationOfOrigin c = f" using new entry e by (auto simp: of_file_def list_all_iff)
    from save_cluster_saving [OF faithful dir access this step [unfolded e] sav]
    show "saving env access f s0 t1 ((case entry of (k, c) \<Rightarrow> \<lambda>m. if map_of (cf_Clusters start) k = Some c then m else m(k \<mapsto> (nc c)\<lparr>cl_LocationOfOrigin := f\<rparr>)) m, A, map_of (cf_Contexts start), rest)" by (simp only: e prod.case)
  qed
  have "\<forall>(k, x) \<in> set (cf_Contexts new). cx_LocationOfOrigin x = [] \<or> cx_LocationOfOrigin x = f" and "distinct (map fst (cf_Contexts new))"
    using new by (auto simp: of_file_def list_all_iff)
  then have two: "saving env access f s0 s2 (?C, A, ?X, rest)"
    using save_contexts_saving [OF faithful dir access _ s2 one] later unfolding shown_change(7) [OF saving_shown [OF faithful one]] by simp
  show ?thesis
    using s3 two
  proof (rule run_map_inv [where I = "\<lambda>t m. saving env access f s0 t (?C, m, ?X, rest)"])
    fix entry t t1 m
    assume entry: "entry \<in> set (cf_AuthInfos new)" and step: "save_auth env access False start entry t = (t1, None)" and sav: "saving env access f s0 t (?C, m, ?X, rest)"
    obtain k c where e: "entry = (k, c)" by (rule prod.exhaust)
    have "au_LocationOfOrigin c = [] \<or> au_LocationOfOrigin c = f" using new entry e by (auto simp: of_file_def list_all_iff)
    from save_auth_saving [OF faithful dir access this step [unfolded e] sav]
    show "saving env access f s0 t1 (?C, (case entry of (k, a) \<Rightarrow> \<lambda>m. if map_of (cf_AuthInfos start) k = Some a then m else m(k \<mapsto> (na a)\<lparr>au_LocationOfOrigin := f\<rparr>)) m, ?X, rest)" by (simp only: e prod.case)
  qed
qed

lemma drop_phase:
  assumes faithful: "faithful_codec env nc na nx" and dir: "ce_Dir env f \<noteq> f" and access: "explicit_access access f" and start: "getConfigFromFile env t0 f = Inr start"
    and s1: "run_steps (map (drop_cluster env access new) (cf_Clusters start)) s = (s1, None)"
    and s2: "run_steps (map (drop_context env access new) (cf_Contexts start)) s1 = (s2, None)"
    and s3: "run_steps (map (drop_auth env access new) (cf_AuthInfos start)) s2 = (s3, None)"
    and before: "saving env access f s0 s (C, A, X, rest)"
  shows "saving env access f s0 s3
    (fold (\<lambda>(k, c) m. if map_of (cf_Clusters new) k \<noteq> None then m else m(k := None)) (cf_Clusters start) C,
     fold (\<lambda>(k, c) m. if map_of (cf_AuthInfos new) k \<noteq> None then m else m(k := None)) (cf_AuthInfos start) A,
     fold (\<lambda>(k, c) m. if map_of (cf_Contexts new) k \<noteq> None then m else m(k := None)) (cf_Contexts start) X, rest)"
    (is "saving env access f s0 s3 (?C, ?A, ?X, rest)")
proof -
  note origins = read_origins [OF start]
  have one: "saving env access f s0 s1 (?C, A, X, rest)"
    using s1 before
  proof (rule run_map_inv [where I = "\<lambda>t m. saving env access f s0 t (m, A, X, rest)"])
    fix entry t t1 m
    assume entry: "entry \<in> set (cf_Clusters start)" and step: "drop_cluster env access new entry t = (t1, None)" and sav: "saving env access f s0 t (m, A, X, rest)"
    obtain k c where e: "entry = (k, c)" by (rule prod.exhaust)
    have "cl_LocationOfOrigin c = [] \<or> cl_LocationOfOrigin c = f" using origins(1) entry e by blast
    from drop_saving(1) [OF faithful dir access sav this step [unfolded e]]
    show "saving env access f s0 t1 ((case entry of (k, c) \<Rightarrow> \<lambda>m. if map_of (cf_Clusters new) k \<noteq> None then m else m(k := None)) m, A, X, rest)" by (simp only: e prod.case)
  qed
  have two: "saving env access f s0 s2 (?C, A, ?X, rest)"
    using s2 one
  proof (rule run_map_inv [where I = "\<lambda>t m. saving env access f s0 t (?C, A, m, rest)"])
    fix entry t t1 m
    assume entry: "entry \<in> set (cf_Contexts start)" and step: "drop_context env access new entry t = (t1, None)" and sav: "saving env access f s0 t (?C, A, m, rest)"
    obtain k c where e: "entry = (k, c)" by (rule prod.exhaust)
    have "cx_LocationOfOrigin c = [] \<or> cx_LocationOfOrigin c = f" using origins(3) entry e by blast
    from drop_saving(3) [OF faithful dir access sav this step [unfolded e]]
    show "saving env access f s0 t1 (?C, A, (case entry of (k, c) \<Rightarrow> \<lambda>m. if map_of (cf_Contexts new) k \<noteq> None then m else m(k := None)) m, rest)" by (simp only: e prod.case)
  qed
  show ?thesis
    using s3 two
  proof (rule run_map_inv [where I = "\<lambda>t m. saving env access f s0 t (?C, m, ?X, rest)"])
    fix entry t t1 m
    assume entry: "entry \<in> set (cf_AuthInfos start)" and step: "drop_auth env access new entry t = (t1, None)" and sav: "saving env access f s0 t (?C, m, ?X, rest)"
    obtain k c where e: "entry = (k, c)" by (rule prod.exhaust)
    have "au_LocationOfOrigin c = [] \<or> au_LocationOfOrigin c = f" using origins(2) entry e by blast
    from drop_saving(2) [OF faithful dir access sav this step [unfolded e]]
    show "saving env access f s0 t1 (?C, (case entry of (k, c) \<Rightarrow> \<lambda>m. if map_of (cf_AuthInfos new) k \<noteq> None then m else m(k := None)) m, ?X, rest)" by (simp only: e prod.case)
  qed
qed

lemma modify_files_saving:
  assumes faithful: "faithful_codec env nc na nx" and merges: "merges env" and dir: "ce_Dir env f \<noteq> f" and access: "explicit_access access f" and new: "of_file f new"
    and modify: "modify_files env access new False s = (s1, None)"
  shows "saving env access f s s1 (shown nc na nx f (view new))"
proof -
  obtain t start where start: "GetStartingConfig env access s = (t, Inr start)"
    using modify by (auto simp: modify_files_def split: prod.splits sum.splits)
  note read = explicit_start [OF merges access start]
  then have first: "saving env access f s t (view start)" by (auto simp: saving_def)
  show ?thesis
  proof (cases "same_config start new")
    case True
    then have "view new = view start" by (simp add: same_config_def same_preferences_iff same_map_iff view_def)
    then show ?thesis using modify start True first saving_shown [OF faithful first] by (simp add: modify_files_def)
  next
    case False
    let ?rest = "(cf_CurrentContext new, cf_Colors new, map_of (cf_PreferenceExtensions new))"
    obtain t1 t2 t3 t4 t5 t6 t7 where
      t1: "(if cf_CurrentContext start \<noteq> cf_CurrentContext new then writeCurrentContext env access (cf_CurrentContext new) t else (t, None)) = (t1, None)" and
      t2: "(if \<not> same_preferences start new then writePreferences env access new t1 else (t1, None)) = (t2, None)" and
      save: "run_steps (map (save_cluster env access False start) (cf_Clusters new)) t2 = (t3, None)" "save_contexts env access start (cf_Contexts new) t3 = (t4, None)"
        "run_steps (map (save_auth env access False start) (cf_AuthInfos new)) t4 = (t5, None)" and
      drops: "run_steps (map (drop_cluster env access new) (cf_Clusters start)) t5 = (t6, None)" "run_steps (map (drop_context env access new) (cf_Contexts start)) t6 = (t7, None)"
        "run_steps (map (drop_auth env access new) (cf_AuthInfos start)) t7 = (s1, None)"
      using modify start False unfolding modify_files_def modify_steps_def run_steps_Cons by (auto simp: run_steps_Cons simp del: run_steps.simps(2))
    have "saving env access f s t1 (map_of (cf_Clusters start), map_of (cf_AuthInfos start), map_of (cf_Contexts start), cf_CurrentContext new, cf_Colors start, map_of (cf_PreferenceExtensions start))"
      using t1 first writeCurrentContext_saving [OF faithful merges dir access] by (auto simp: view_def split: if_splits)
    then have "saving env access f s t2 (map_of (cf_Clusters start), map_of (cf_AuthInfos start), map_of (cf_Contexts start), ?rest)"
      using t2 writePreferences_saving [OF faithful merges dir access] by (auto simp: same_preferences_iff split: if_splits)
    from drop_phase [OF faithful dir access read [THEN conjunct1] drops save_phase [OF faithful dir access new save this]]
    have "saving env access f s s1
      (\<lambda>k. map_option (\<lambda>c. (nc c)\<lparr>cl_LocationOfOrigin := f\<rparr>) (map_of (cf_Clusters new) k), \<lambda>k. map_option (\<lambda>a. (na a)\<lparr>au_LocationOfOrigin := f\<rparr>) (map_of (cf_AuthInfos new) k),
       \<lambda>k. map_option (\<lambda>x. (nx x)\<lparr>cx_LocationOfOrigin := f\<rparr>) (map_of (cf_Contexts new) k), ?rest)"
    proof (subst (asm) (1 2 3) save_then_drop)
      show "distinct (map fst (cf_Clusters new))" "distinct (map fst (cf_AuthInfos new))" "distinct (map fst (cf_Contexts new))"
        using new by (simp_all add: of_file_def)
      show "map_option (\<lambda>c. (nc c)\<lparr>cl_LocationOfOrigin := f\<rparr>) (map_of (cf_Clusters start) k) = map_of (cf_Clusters start) k"
        "map_option (\<lambda>a. (na a)\<lparr>au_LocationOfOrigin := f\<rparr>) (map_of (cf_AuthInfos start) k) = map_of (cf_AuthInfos start) k"
        "map_option (\<lambda>x. (nx x)\<lparr>cx_LocationOfOrigin := f\<rparr>) (map_of (cf_Contexts start) k) = map_of (cf_Contexts start) k" for k
        using saving_shown [OF faithful first] unfolding view_def shown_parts prod.inject by (blast dest: fun_cong)+
    qed
    then show ?thesis by (simp add: view_def shown_parts)
  qed
qed

subsection \<open>When a change succeeds\<close>

text \<open>The file can be read, decoded and written, there is nothing to migrate, and the codec encodes everything.\<close>

definition changeable :: "('d, 'x) cfg_env \<Rightarrow> string \<Rightarrow> 'd files \<Rightarrow> bool" where
  "changeable env f s \<longleftrightarrow> ce_Writable env f \<and> ce_Writable env (ce_Dir env f) \<and> (\<forall>c. ce_Encode env c \<noteq> None) \<and> (\<exists>c. getConfigFromFile env s f = Inr c)"

definition succeeds :: "('d files \<Rightarrow> bool) \<Rightarrow> ('d files \<Rightarrow> 'd written) \<Rightarrow> bool" where
  "succeeds P g \<longleftrightarrow> (\<forall>s. P s \<longrightarrow> (\<exists>s1. g s = (s1, None) \<and> P s1))"

lemma succeedsD: "succeeds P g \<Longrightarrow> P s \<Longrightarrow> g s = (s1, err) \<Longrightarrow> err = None"
  unfolding succeeds_def by force

lemma succeeds_steps: "(\<And>g. g \<in> set gs \<Longrightarrow> succeeds P g) \<Longrightarrow> succeeds P (run_steps gs)"
proof (induction gs)
  case (Cons g gs)
  then have "succeeds P g" "succeeds P (run_steps gs)" by simp_all
  then show ?case unfolding succeeds_def by fastforce
qed (simp add: succeeds_def)

lemma write_succeeds:
  assumes "faithful_codec env nc na nx" "ce_Dir env f \<noteq> f"
  shows "succeeds (changeable env f) (WriteToFile env c f)"
  unfolding succeeds_def
proof (intro allI impI)
  fix s :: "'a files"
  assume P: "changeable env f s"
  then obtain data where "ce_Encode env c = Some data" by (auto simp: changeable_def)
  moreover have "s f = NotExist \<or> (\<exists>old. s f = File old)"
    using P by (auto simp: changeable_def getConfigFromFile_def LoadFromFile_def os_ReadFile_def split: entry.splits)
  ultimately have "\<exists>s1. WriteToFile env c f s = (s1, None)"
    using P assms(2) by (cases "s (ce_Dir env f) = NotExist") (auto simp: changeable_def WriteToFile_def os_MkdirAll_def os_WriteFile_def)
  then obtain s1 where s1: "WriteToFile env c f s = (s1, None)" by blast
  then show "\<exists>s1. WriteToFile env c f s = (s1, None) \<and> changeable env f s1"
    using write_shown [OF assms s1] P by (auto simp: changeable_def)
qed

lemma rewrite_succeeds:
  assumes "faithful_codec env nc na nx" "ce_Dir env f \<noteq> f" "\<And>c. \<exists>d. change c = Inr d"
  shows "succeeds (changeable env f) (rewrite_file env f change)"
  unfolding succeeds_def
proof (intro allI impI)
  fix s :: "'a files"
  assume P: "changeable env f s"
  then obtain c where "getConfigFromFile env s f = Inr c" by (auto simp: changeable_def)
  moreover obtain d where "change c = Inr d" using assms(3) by blast
  ultimately show "\<exists>s1. rewrite_file env f change s = (s1, None) \<and> changeable env f s1"
    using P write_succeeds [OF assms(1, 2), of d] by (simp add: rewrite_file_def succeeds_def)
qed

lemma start_succeeds:
  assumes "explicit_access access f" "lr_MigrationRules (ac_rules access) = []" "changeable env f s"
  shows "\<exists>start. GetStartingConfig env access s = (s, Inr start)"
proof -
  have path: "lr_ExplicitPath (ac_rules access) = f" "f \<noteq> []" "lr_DoNotResolvePaths (ac_rules access)" "GetLoadingPrecedence (ac_rules access) = [f]"
    using assms(1) by (auto simp: explicit_access_def GetLoadingPrecedence_def)
  obtain missing errs configs where each: "load_each env s [f] = (missing, errs, configs)" by (rule prod_cases3)
  have "errs = []" using each assms(3) path(2)
    by (auto simp: changeable_def getConfigFromFile_def split: load_out.splits)
  then show ?thesis using assms(2) path each
    by (simp add: GetStartingConfig_def Load_def Migrate_def Let_def del: load_each.simps)
qed

lemma seen_contexts_succeeds:
  assumes "explicit_access access f" "\<forall>(k, x) \<in> set ctxs. cx_LocationOfOrigin x = [] \<or> cx_LocationOfOrigin x = f"
    and "getConfigFromFile env s f = Inr c" "seen = [] \<or> (\<exists>d. seen = [(f, d)])"
  shows "\<exists>seen1. seen_contexts env access start s ctxs seen = Inr seen1 \<and> (seen1 = [] \<or> (\<exists>d. seen1 = [(f, d)]))"
  using assms(2, 4)
proof (induction ctxs arbitrary: seen)
  case (Cons entry ctxs)
  obtain k x where entry: "entry = (k, x)" by (cases entry)
  have "destination access (cx_LocationOfOrigin x) s = f" by (rule explicit_destination [OF assms(1)]) (use Cons.prems(1) entry in simp)
  then show ?case using Cons entry assms(3) by (auto simp: Let_def)
qed simp

lemma save_contexts_succeeds:
  assumes "faithful_codec env nc na nx" "ce_Dir env f \<noteq> f" "explicit_access access f"
    and "\<forall>(k, x) \<in> set ctxs. cx_LocationOfOrigin x = [] \<or> cx_LocationOfOrigin x = f"
  shows "succeeds (changeable env f) (save_contexts env access start ctxs)"
  unfolding succeeds_def
proof (intro allI impI)
  fix s :: "'a files"
  assume P: "changeable env f s"
  then obtain c where "getConfigFromFile env s f = Inr c" by (auto simp: changeable_def)
  from seen_contexts_succeeds [OF assms(3, 4) this, of "[]" start] consider
      "seen_contexts env access start s ctxs [] = Inr []" | d where "seen_contexts env access start s ctxs [] = Inr [(f, d)]"
    by auto
  then show "\<exists>s1. save_contexts env access start ctxs s = (s1, None) \<and> changeable env f s1"
  proof cases
    case (2 d)
    obtain s1 where "WriteToFile env d f s = (s1, None)" "changeable env f s1" using write_succeeds [OF assms(1, 2), of d] P by (auto simp: succeeds_def)
    then show ?thesis using 2 by (simp add: save_contexts_def)
  qed (use P in \<open>simp add: save_contexts_def\<close>)
qed

lemma entries_succeed:
  assumes "faithful_codec env nc na nx" "ce_Dir env f \<noteq> f" "explicit_access access f"
  shows "cl_LocationOfOrigin c = [] \<or> cl_LocationOfOrigin c = f \<Longrightarrow>
      succeeds (changeable env f) (save_cluster env access False start (k, c)) \<and> succeeds (changeable env f) (drop_cluster env access new (k, c))"
    and "au_LocationOfOrigin a = [] \<or> au_LocationOfOrigin a = f \<Longrightarrow>
      succeeds (changeable env f) (save_auth env access False start (k, a)) \<and> succeeds (changeable env f) (drop_auth env access new (k, a))"
    and "cx_LocationOfOrigin x = [] \<or> cx_LocationOfOrigin x = f \<Longrightarrow> succeeds (changeable env f) (drop_context env access new (k, x))"
proof -
  note rewrite = rewrite_succeeds [OF assms(1, 2)] and place = explicit_destination [OF assms(3)]
  show "succeeds (changeable env f) (save_cluster env access False start (k, c)) \<and> succeeds (changeable env f) (drop_cluster env access new (k, c))"
    if "cl_LocationOfOrigin c = [] \<or> cl_LocationOfOrigin c = f"
    using rewrite by (simp add: succeeds_def save_cluster_def drop_cluster_def Let_def place [OF that])
  show "succeeds (changeable env f) (save_auth env access False start (k, a)) \<and> succeeds (changeable env f) (drop_auth env access new (k, a))"
    if "au_LocationOfOrigin a = [] \<or> au_LocationOfOrigin a = f"
    using rewrite by (simp add: succeeds_def save_auth_def drop_auth_def Let_def place [OF that])
  show "succeeds (changeable env f) (drop_context env access new (k, x))" if "cx_LocationOfOrigin x = [] \<or> cx_LocationOfOrigin x = f"
    using rewrite by (simp add: succeeds_def drop_context_def place [OF that])
qed

lemma of_file_origins:
  assumes "of_file f new"
  shows "(k, c) \<in> set (cf_Clusters new) \<Longrightarrow> cl_LocationOfOrigin c = [] \<or> cl_LocationOfOrigin c = f"
    "(k, a) \<in> set (cf_AuthInfos new) \<Longrightarrow> au_LocationOfOrigin a = [] \<or> au_LocationOfOrigin a = f"
  using assms by (auto simp: of_file_def list_all_iff)

lemma modify_files_succeeds:
  assumes faithful: "faithful_codec env nc na nx" and merges: "merges env" and dir: "ce_Dir env f \<noteq> f" and access: "explicit_access access f"
    and migrations: "lr_MigrationRules (ac_rules access) = []" and new: "of_file f new"
  shows "succeeds (changeable env f) (modify_files env access new False)"
  unfolding succeeds_def
proof (intro allI impI)
  fix s :: "'a files"
  assume P: "changeable env f s"
  note begins = start_succeeds [OF access migrations] and rewrite = rewrite_succeeds [OF faithful dir]
  obtain start where start: "GetStartingConfig env access s = (s, Inr start)" using begins [OF P] by blast
  note old = read_origins [OF explicit_start [OF merges access start, THEN conjunct1]]
  note entries = entries_succeed [OF faithful dir access]
  have cur: "succeeds (changeable env f) (writeCurrentContext env access n)" for n
    using begins rewrite explicit_file [OF access] unfolding succeeds_def writeCurrentContext_def by fastforce
  have prefs: "succeeds (changeable env f) (writePreferences env access new)"
    using begins rewrite explicit_file [OF access] unfolding succeeds_def writePreferences_def by fastforce
  have "succeeds (changeable env f) (run_steps (modify_steps env access start new False))"
  proof (rule succeeds_steps)
    fix g
    assume "g \<in> set (modify_steps env access start new False)"
    then consider (cur) "g = (\<lambda>s. if cf_CurrentContext start \<noteq> cf_CurrentContext new then writeCurrentContext env access (cf_CurrentContext new) s else (s, None))"
      | (prefs) "g = (\<lambda>s. if \<not> same_preferences start new then writePreferences env access new s else (s, None))"
      | (save) "g = run_steps (map (save_cluster env access False start) (cf_Clusters new)) \<or> g = run_steps (map (save_auth env access False start) (cf_AuthInfos new))"
      | (ctxs) "g = save_contexts env access start (cf_Contexts new)"
      | (drops) "g = run_steps (map (drop_cluster env access new) (cf_Clusters start)) \<or> g = run_steps (map (drop_context env access new) (cf_Contexts start)) \<or>
          g = run_steps (map (drop_auth env access new) (cf_AuthInfos start))"
      by (auto simp: modify_steps_def)
    then show "succeeds (changeable env f) g"
    proof cases
      case ctxs
      then show ?thesis using save_contexts_succeeds [OF faithful dir access] new by (simp add: of_file_def list_all_iff)
    next
      case save
      then show ?thesis using entries(1, 2) of_file_origins [OF new] by (auto intro!: succeeds_steps)
    next
      case drops
      then show ?thesis using entries old by (auto intro!: succeeds_steps)
    qed (use cur [of "cf_CurrentContext new"] prefs in \<open>auto simp: succeeds_def\<close>)
  qed
  then show "\<exists>s1. modify_files env access new False s = (s1, None) \<and> changeable env f s1" using P start by (auto simp: modify_files_def succeeds_def)
qed

lemma explicit_lock: "explicit_access access f \<Longrightarrow> sort (ac_GetLoadingPrecedence access) = [f] \<and> sorted_access access = access"
  by (cases access) (auto simp: explicit_access_def ac_GetLoadingPrecedence_def GetLoadingPrecedence_def po_GetLoadingPrecedence_def sorted_access_def)

lemma explicit_ModifyConfig:
  assumes "explicit_access access f"
  shows "ModifyConfig env useLock access new rel s =
    (access, if useLock then (case lockFile env f s of
                                (s1, Some e) \<Rightarrow> (s1, Some e)
                              | (s1, None) \<Rightarrow> (case modify_files env access new rel s1 of (s2, err) \<Rightarrow> (unlockFile f s2, err)))
     else modify_files env access new rel s)"
  using explicit_lock [OF assms] by (simp add: ModifyConfig_def split: prod.splits option.splits)

lemma lockFile_frame: "lockFile env f s = (s1, err) \<Longrightarrow> g \<noteq> ce_Dir env f \<Longrightarrow> g \<noteq> lockName f \<Longrightarrow> s1 g = s g"
  by (auto simp: lockFile_def os_MkdirAll_def create_exclusive_def split: if_splits)

lemma lockFile_succeeds:
  "ce_Writable env (ce_Dir env f) \<Longrightarrow> s (lockName f) = NotExist \<Longrightarrow> ce_Writable env (lockName f) \<Longrightarrow> lockName f \<noteq> ce_Dir env f \<Longrightarrow> \<exists>s1. lockFile env f s = (s1, None)"
  by (cases "s (ce_Dir env f) = NotExist") (auto simp: lockFile_def os_MkdirAll_def create_exclusive_def)

lemma saving_after:
  assumes "saving env access f t s1 v"
  shows "(\<exists>d. getConfigFromFile env s1 f = Inr d \<and> view d = v) \<and> (g \<noteq> f \<and> g \<noteq> ce_Dir env f \<and> g \<notin> fst ` set (lr_MigrationRules (ac_rules access)) \<longrightarrow> s1 g = t g)"
  using assms by (auto simp: saving_def)

lemma lockName_other: "lockName f \<noteq> f"
  by (simp add: lockName_def)

text \<open>C23. Let the configuration access be through one explicit file without resolving paths, the codec faithful and the new configuration's entries of that file or new. If
  \<^const>\<open>ModifyConfig\<close> succeeds, then the file holds the new configuration: its clusters, users and contexts up to the codec's normal form, its current context and its
  preferences, with the file as origin; no other file is changed except by a migration, and the lock is released. And it succeeds whenever the file can be read, decoded, locked and
  written and there is nothing to migrate.\<close>

theorem modify_config_exact:
  assumes faithful: "faithful_codec env nc na nx" and merges: "merges env" and dir: "ce_Dir env f \<noteq> f" and access: "explicit_access access f" and new: "of_file f new"
    and modify: "ModifyConfig env useLock access new False s = (access1, s1, err)"
  shows "(err = None \<longrightarrow>
       (\<exists>d. getConfigFromFile env s1 f = Inr d \<and> view d = shown nc na nx f (view new)) \<and> (useLock \<longrightarrow> s1 (lockName f) = NotExist) \<and>
       (\<forall>g. g \<noteq> f \<and> g \<noteq> ce_Dir env f \<and> g \<noteq> lockName f \<and> g \<notin> fst ` set (lr_MigrationRules (ac_rules access)) \<longrightarrow> s1 g = s g)) \<and>
    (changeable env f s \<and> lr_MigrationRules (ac_rules access) = [] \<and>
       (useLock \<longrightarrow> s (lockName f) = NotExist \<and> ce_Writable env (lockName f) \<and> lockName f \<noteq> ce_Dir env f) \<longrightarrow> err = None)"
proof (cases useLock)
  case True
  obtain t lerr where lock: "lockFile env f s = (t, lerr)" by (cases "lockFile env f s")
  note frame = lockFile_frame [OF lock]
  have read: "getConfigFromFile env t f = getConfigFromFile env s f"
    by (rule getConfig_cong) (use frame dir lockName_other [of f] in auto)
  show ?thesis
  proof (cases lerr)
    case None
    obtain s2 where s2: "modify_files env access new False t = (s2, err)" and s1: "s1 = unlockFile f s2"
      using modify lock None True by (auto simp: explicit_ModifyConfig [OF access] split: prod.splits)
    have "getConfigFromFile env s1 f = getConfigFromFile env s2 f"
      by (rule getConfig_cong) (use s1 lockName_other [of f] in \<open>simp add: unlockFile_def\<close>)
    moreover have "err = None" if "changeable env f s" "lr_MigrationRules (ac_rules access) = []"
      by (rule succeedsD [OF modify_files_succeeds [OF faithful merges dir access that(2) new] _ s2]) (use that(1) read in \<open>simp add: changeable_def\<close>)
    moreover have "s1 g = s g" if "err = None" "g \<noteq> f" "g \<noteq> ce_Dir env f" "g \<noteq> lockName f" "g \<notin> fst ` set (lr_MigrationRules (ac_rules access))" for g
      using saving_after [OF modify_files_saving [OF faithful merges dir access new s2 [unfolded that(1)]], of g] s1 frame [OF that(3, 4)] that(2-) by (simp add: unlockFile_def)
    moreover have "s1 (lockName f) = NotExist" using s1 by (simp add: unlockFile_def)
    ultimately show ?thesis
      using saving_after [OF modify_files_saving [OF faithful merges dir access new]] s2 by auto
  next
    case (Some e)
    then show ?thesis using modify lock True lockFile_succeeds [of env f s] by (auto simp: explicit_ModifyConfig [OF access] changeable_def)
  qed
next
  case False
  then have step: "modify_files env access new False s = (s1, err)" using modify unfolding explicit_ModifyConfig [OF access] by auto
  moreover have "err = None" if "changeable env f s" "lr_MigrationRules (ac_rules access) = []"
    by (rule succeedsD [OF modify_files_succeeds [OF faithful merges dir access that(2) new] that(1) step])
  ultimately show ?thesis using saving_after [OF modify_files_saving [OF faithful merges dir access new]] False by auto
qed

definition demo_env :: "(unit Config, unit) cfg_env" where
  "demo_env = \<lparr>ce_Writable = \<lambda>f. True, ce_Dir = \<lambda>f. ''/'', ce_AbsDir = \<lambda>f. None, ce_Paths = \<lparr>pe_ReadFile = \<lambda>f. None, pe_Getwd = None, pe_Dir = \<lambda>f. f, pe_Rel = \<lambda>b f. None\<rparr>,
     ce_Decode = \<lambda>data. (case data of [] \<Rightarrow> Inl OSError | c # cs \<Rightarrow> Inr (set_origin [] c)), ce_Encode = \<lambda>c. Some [c], ce_Merge = \<lambda>c d. d\<rparr>"

definition demo_access :: ConfigAccess where
  "demo_access = RulesAccess \<lparr>lr_ExplicitPath = ''/k'', lr_Precedence = [], lr_MigrationRules = [], lr_DoNotResolvePaths = True, lr_WarnIfAllMissing = False\<rparr>"

definition demo_config :: "unit Config" where
  "demo_config = NewConfig\<lparr>cf_Clusters := [(''c'', NewCluster\<lparr>cl_Server := ''s''\<rparr>)], cf_CurrentContext := ''x''\<rparr>"

abbreviation (input) demo_shown :: "unit view \<Rightarrow> unit view" where
  "demo_shown \<equiv> shown (\<lambda>c. c\<lparr>cl_LocationOfOrigin := []\<rparr>) (\<lambda>a. a\<lparr>au_LocationOfOrigin := []\<rparr>) (\<lambda>x. x\<lparr>cx_LocationOfOrigin := []\<rparr>) ''/k''"

lemma demo_faithful: "faithful_codec demo_env (\<lambda>c. c\<lparr>cl_LocationOfOrigin := []\<rparr>) (\<lambda>a. a\<lparr>au_LocationOfOrigin := []\<rparr>) (\<lambda>x. x\<lparr>cx_LocationOfOrigin := []\<rparr>)"
proof -
  have "on_values (\<lambda>c. c\<lparr>cl_LocationOfOrigin := []\<rparr>) (\<lambda>a. a\<lparr>au_LocationOfOrigin := []\<rparr>) (\<lambda>x. x\<lparr>cx_LocationOfOrigin := []\<rparr>) (located [] v) = located [] v" for v :: "unit view"
    by (auto simp: located_def on_values_def option.map_comp comp_def split: prod.splits)
  then show ?thesis by (auto simp: faithful_codec_def demo_env_def view_set_origin split: list.splits) (simp add: located_def)
qed

theorem modify_config_exact_witness:
  "\<exists>s1. ModifyConfig demo_env True demo_access demo_config False (\<lambda>f. NotExist) = (demo_access, s1, None) \<and>
    (\<exists>d. getConfigFromFile demo_env s1 ''/k'' = Inr d \<and> view d = demo_shown (view demo_config)) \<and> s1 ''/k.lock'' = NotExist"
proof -
  obtain access1 s1 err where modify: "ModifyConfig demo_env True demo_access demo_config False (\<lambda>f. NotExist) = (access1, s1, err)" by (rule prod_cases3)
  have *: "merges demo_env" "ce_Dir demo_env ''/k'' \<noteq> ''/k''" "explicit_access demo_access ''/k''" "of_file ''/k'' demo_config"
    by (simp_all add: merges_def demo_env_def explicit_access_def demo_access_def of_file_def demo_config_def NewConfig_def NewCluster_def zero_Cluster_def)
  have "changeable demo_env ''/k'' (\<lambda>f. NotExist)" "lr_MigrationRules (ac_rules demo_access) = []" "lockName ''/k'' = ''/k.lock''"
    "ce_Writable demo_env (lockName ''/k'')" "lockName ''/k'' \<noteq> ce_Dir demo_env ''/k''"
    by (simp_all add: changeable_def demo_env_def demo_access_def lockName_def getConfigFromFile_def LoadFromFile_def os_ReadFile_def)
  moreover have "access1 = demo_access" using ModifyConfig_access [of demo_env True demo_access demo_config False "\<lambda>f. NotExist"] modify by (simp add: demo_access_def sorted_access_def)
  ultimately show ?thesis using modify modify_config_exact [OF demo_faithful * modify] by auto
qed

text \<open>Changes of the extensions of a configuration alone are not written, whatever the access, and no error is reported.\<close>

lemma save_nothing: "list_all (\<lambda>g. \<forall>s. g s = (s, None)) gs \<Longrightarrow> run_steps gs s = (s, None)"
  by (induction gs) auto

lemma seen_nothing: "\<forall>(k, x) \<in> set ctxs. map_of (cf_Contexts start) k = Some x \<Longrightarrow> seen_contexts env access start s ctxs seen = Inr seen"
  by (induction ctxs) auto

lemma extensions_lost:
  assumes "GetStartingConfig env access s = (s1, Inr start)" "distinct (map fst (cf_Clusters start))" "distinct (map fst (cf_AuthInfos start))" "distinct (map fst (cf_Contexts start))"
  shows "modify_files env access (start\<lparr>cf_Extensions := exts\<rparr>) relativizePaths s = (s1, None)"
proof -
  let ?new = "start\<lparr>cf_Extensions := exts\<rparr>"
  have entry: "(k, c) \<in> set (cf_Clusters start) \<Longrightarrow> map_of (cf_Clusters start) k = Some c" "(k, a) \<in> set (cf_AuthInfos start) \<Longrightarrow> map_of (cf_AuthInfos start) k = Some a"
    "(k, x) \<in> set (cf_Contexts start) \<Longrightarrow> map_of (cf_Contexts start) k = Some x" for k c a x
    using assms(2-4) by simp_all
  have "run_steps (map (save_cluster env access relativizePaths start) (cf_Clusters start)) t = (t, None)"
    "run_steps (map (save_auth env access relativizePaths start) (cf_AuthInfos start)) t = (t, None)"
    "run_steps (map (drop_cluster env access ?new) (cf_Clusters start)) t = (t, None)" "run_steps (map (drop_context env access ?new) (cf_Contexts start)) t = (t, None)"
    "run_steps (map (drop_auth env access ?new) (cf_AuthInfos start)) t = (t, None)" for t
    using entry by (auto simp: list_all_iff save_cluster_def save_auth_def drop_cluster_def drop_context_def drop_auth_def split: prod.splits intro!: save_nothing)
  moreover have "save_contexts env access start (cf_Contexts start) t = (t, None)" for t
    by (simp add: save_contexts_def seen_nothing assms(4))
  ultimately have "run_steps (modify_steps env access start ?new relativizePaths) s1 = (s1, None)" by (simp add: modify_steps_def same_preferences_iff)
  then show ?thesis using assms(1) by (simp add: modify_files_def)
qed

end
