(* ===== verification/Spec2Isabelle.thy ===== *)
theory Spec2Isabelle
  imports CacheHeap FIFO RateLimiters ExpirationCache SharedInformer ElectionRuns RetryWatcher EventHandlers EventRecording
    Listers MutationCache RestRetry Parallelizer RestMapper ClientConfigFiles
begin

text \<open>
  A verification library for the core of \<open>k8s.io/client-go\<close>: the machinery with which controllers keep a local copy of API
  objects (\<open>tools/cache\<close>, \<open>tools/watch\<close>), queue work (\<open>util/workqueue\<close>, \<open>util/flowcontrol\<close>), elect a leader
  (\<open>tools/leaderelection\<close>), record events (\<open>tools/record\<close>) and send requests (\<open>rest\<close>), find out what the server has (\<open>discovery\<close>, \<open>restmapper\<close>), read and write
  their configuration (\<open>tools/clientcmd\<close>), and the tracker of objects behind the fake clients (\<open>testing\<close>).

  \<^bold>\<open>The program's parts.\<close> A reflector lists and watches a kind of objects and calls a \<open>DeltaFIFO\<close>, which
  accumulates the changes of each key. The controller pops these lists one key at a time: \<open>processDeltas\<close> moves them into an
  indexed store, which is at the same time the queue's \<open>knownObjects\<close>, and notifies a handler. In a shared informer that handler
  distributes the notification to listeners, each with a buffer and two goroutines. Handlers usually put keys into
  a work queue, whose delaying and rate-limiting variants are built from it, and workers take them from there. One of
  several replicas works at a time: the leader, which holds a lease object on the server. Controllers read through listers, or through a
  mutation cache that also has their own writes, and record events, which are correlated before they are written. Whoever waits for a change uses a retry watcher or an informer as a
  watch. All requests are built and sent by the REST client, which throttles them and sends them again when the server asks for it. Discovery asks the server
  for its groups, versions and resources; two caches keep the answers, and a mapper from kinds to resources is built from them when it is first needed.

  \<^bold>\<open>Theories\<close>, each with its source under \<open>src/\<close>:

  \<^item> \<open>K8s_Prelude\<close>: values, errors and results of Go (\<open>ret\<close> returns an error or panics, \<open>res\<close> a value or an error),
    maps with an arbitrary iteration order (\<open>range_order\<close>, \<open>map_iter\<close>), int64 and int32 wrap-around, times.
  \<^item> \<open>GoHeap\<close>: \<open>container/heap\<close> of the standard library over an interface given as a locale; \<open>CacheHeap\<close>:
    \<open>tools/cache/heap.go\<close>, which interprets it.
  \<^item> \<open>ThreadSafeStore\<close>, \<open>Store\<close>: \<open>thread_safe_store.go\<close>, \<open>store.go\<close>, \<open>index.go\<close>, \<open>object-names.go\<close>,
    \<open>undelta_store.go\<close>. The locale \<open>store_iface\<close> is the contract of the interface \<open>Store\<close>.
  \<^item> \<open>DeltaFIFO\<close>, \<open>FIFO\<close>: \<open>delta_fifo.go\<close>, \<open>fifo.go\<close>. A \<open>Pop\<close> that has to wait for the condition variable has the
    outcome \<open>Waits\<close>.
  \<^item> \<open>Informer\<close>: \<open>controller.go\<close>. Its lemmas are proved in the locale \<open>informer_store\<close> for every store that keeps the
    contract, and interpreted on the cache.
  \<^item> \<open>Pager\<close>, \<open>Reflector\<close>: \<open>tools/pager/pager.go\<close>; \<open>reflector.go\<close> and \<open>retry_with_deadline.go\<close>. The reflector is proved
    in the locale \<open>reflector_store\<close> for every store that keeps a contract, which is interpreted on the temporary store of a streamed list
    and on the informer with the actions of other goroutines between the calls.
  \<^item> \<open>SharedInformer\<close>: \<open>shared_informer.go\<close>; the informer, the processor and the goroutines of the listeners as the step
    relation \<open>sh_step\<close>.
  \<^item> \<open>ExpirationCache\<close>, \<open>Synctrack\<close>: \<open>expiration_cache.go\<close>; \<open>synctrack/synctrack.go\<close> and \<open>synctrack/lazy.go\<close>, the
    latter as a step relation over its atomic operations.
  \<^item> \<open>WorkQueue\<close>, \<open>DelayingQueue\<close>, \<open>RateLimiters\<close>: \<open>util/workqueue/queue.go\<close>, \<open>delaying_queue.go\<close>,
    \<open>default_rate_limiters.go\<close>, \<open>rate_limiting_queue.go\<close>. Goroutines that sleep on the condition variable are part of the
    state of \<open>ws_step\<close>.
  \<^item> \<open>Backoff\<close>: \<open>util/flowcontrol/backoff.go\<close>.
  \<^item> \<open>ResourceLock\<close>, \<open>LeaderElection\<close>, \<open>ElectionSafety\<close>, \<open>ElectionRuns\<close>: \<open>tools/leaderelection\<close>. The code is a
    program in a free monad (\<open>prog\<close>) whose operations are calls of the server and of the clock; \<open>run_prog\<close> runs it against a
    server, and \<open>es_step\<close> interleaves the programs of any number of candidates.
  \<^item> \<open>RetryWatcher\<close>: \<open>tools/watch/retrywatcher.go\<close> and \<open>until.go\<close>; \<open>EventHandlers\<close>: the handler adapters of \<open>controller.go\<close> and
    \<open>tools/watch/informerwatcher.go\<close>, whose goroutine is the step relation \<open>ep_run\<close>.
  \<^item> \<open>EventRecording\<close>: \<open>tools/record/events_cache.go\<close>, \<open>event.go\<close>, \<open>util/util.go\<close> and \<open>tools/reference/ref.go\<close>.
  \<^item> \<open>Listers\<close>, \<open>MutationCache\<close>: \<open>tools/cache/listers.go\<close>, \<open>mutation_cache.go\<close>.
  \<^item> \<open>GoStrings\<close>: paths and numbers of Go's libraries; \<open>RestRequest\<close>, \<open>RestResult\<close>, \<open>RestRetry\<close>: \<open>rest/request.go\<close> with
    \<open>client.go\<close>, \<open>warnings.go\<close>, \<open>with_retry.go\<close> and \<open>urlbackoff.go\<close>. What the network does in each attempt is an argument.
  \<^item> \<open>Parallelizer\<close>: \<open>util/workqueue/parallelizer.go\<close> as the step relation \<open>pz_step\<close>.
  \<^item> \<open>ObjectTracker\<close>: \<open>testing/fixture.go\<close> and \<open>testing/fake.go\<close>.
  \<^item> \<open>Discovery\<close>, \<open>CachedDiscovery\<close>: \<open>discovery\<close> with \<open>aggregated_discovery.go\<close> and \<open>helper.go\<close>, \<open>cached/memory/memcache.go\<close> and
    \<open>cached/disk/cached_discovery.go\<close>. The caches are clients over a client; the locale \<open>steady_discovery\<close>, interpreted on all three, says what such a client shows.
  \<^item> \<open>RestMapper\<close>: \<open>restmapper/discovery.go\<close>, \<open>shortcut.go\<close>, \<open>category_expansion.go\<close>. The locale \<open>fresh_after_reset\<close> is what the deferred mapper needs of a cache.
  \<^item> \<open>ClientConfiguration\<close>, \<open>ClientConfigFiles\<close>: \<open>tools/clientcmd\<close> with \<open>api/types.go\<close>, \<open>api/helpers.go\<close>, \<open>validation.go\<close>, \<open>loader.go\<close> and \<open>config.go\<close>. A value under reflection
    is the datatype \<open>rv\<close>; the file system is a function from names to entries.

  A struct is a record with the fields of the code, the name of a method carries the prefix of its type
  (\<open>df_Pop\<close> is \<open>DeltaFIFO.Pop\<close>, \<open>wq_Get\<close> is \<open>Type.Get\<close>), and a mutex is not represented: what the code does under a lock is one step.

  \<^bold>\<open>What the lemmas show.\<close> The heap never panics, pops a least element and refines a map. The indices of the store are exact.
  The queue accumulates, compresses and replaces deltas as its comments say, so that an informer tracks what its producer
  described, drains to it, and tells its handler a consistent history; with a reflector as producer it shows the
  collection of the server at the reflector's last resource version; a shared informer tells each handler one,
  whenever it joins, in order and completely, and a registration has synced exactly when its handler has seen the initial list.
  The expiration cache cannot be told from one that drops entries at once. The work queue never gives an item to two workers, loses no
  item and no wake-up; delays and rate limits are exact. A lease that names a holder is next written by this holder, or when its record has been there for its
  duration without a change that the encoding shows, whatever the candidates, the failures and the interleaving; an elector starts and calls each callback as often as
  documented, in whatever order its goroutines run. A retry watcher forwards every change once and in order across restarts, and withholds none unless the server answers
  \<open>Gone\<close>; a filtered handler tells the same story as the store, and an informer as a watch sends one event per notification. A paged list is a complete snapshot. Events are counted and aggregated exactly while
  the cache keeps them, and writing one ends. A namespace is listed through the index as by a scan; the mutation cache never returns an older object for a key that the store or the index has. The path of a
  request has one segment for each accepted name; a request is sent a bounded number of times, a write never again after an unknown outcome, and only a good
  response is a success. Every piece of parallel work is run once, while the arithmetic of chunks does not overflow. A watch on the tracker leads to what a list shows. Once invalidated, the discovery caches
  show what the server has; a resource is preferred in one version, and a lookup of the deferred mapper ends after one reset. A kubeconfig is
  redacted exactly in its tagged fields, a minimised one is valid when its context is usable, and a change of one file is saved completely. Where the code does
  less than it says, the limit is a theorem (\<open>drain_limits\<close>, \<open>fifo_HasSynced_stuck\<close>, \<open>exponential_cap_fails\<close>,
  \<open>election_limits\<close>, \<open>included_add_forgotten\<close>, \<open>filter_misses_deletion\<close>, \<open>event_keys_collide\<close>, \<open>first_attempt_not_delayed\<close>,
  \<open>deferred_mem_never_returns\<close>, \<open>lock_reorders_precedence\<close>, \<open>extensions_lost\<close>, \<open>chunk_size_overflow\<close>, \<open>included_index_stale\<close>,
  \<open>stop_wakeup_lost\<close>, \<open>started_after_stopped\<close>).

  \<^bold>\<open>Bounds and fuel.\<close> Only loops that wait have fuel. \<open>processLoop\<close> counts pops, and one more than the length of the queue is enough
  (\<open>informer_drains\<close>). The pager counts pages, and \<open>pager_list_complete\<close> says how many are enough, given that the chain of tokens of the server ends; the loops of the reflector have no
  end of their own, and their theorem holds in the state in which the fuel runs out, too. The loops of the elector consume a list of what the context answers each time they
  look at it; at the end of the list the loop is still running, which is the answer \<open>None\<close>.
  \<open>rw_receive\<close> counts restarts, and \<open>retry_watcher_complete\<close> says how many are enough; the loops of the REST client are total, since every retry uses up one of
  \<open>maxRetries\<close>; adding a list to the tracker has fuel for the nesting of lists; the deferred mapper counts its rounds, and two are enough (\<open>deferred_lookup_settles\<close>).
  The durations of backoff, retries, resyncs and leases, the sizes of chunks and the counts of events and of lease transitions are wrapped to 64 or 32 bits. Points in time, and counts that go up by one in
  each call, such as the failures of a rate limiter or the retries of a request, are unbounded integers.

  \<^bold>\<open>Not modelled.\<close> Code outside the repository is an argument with its documented behaviour as a named hypothesis: API
  accessors, key and index functions, transformers, the ring buffer (\<open>ring_fifo\<close>), the API server (\<open>optimistic_server\<close>, \<open>list_contract\<close>,
  \<open>server_right\<close>), marshalling,
  random numbers, the token bucket, LRU caches (\<open>lru_keeps\<close>, \<open>expire_right\<close>), decoders, patches, the codec of kubeconfig files (\<open>faithful_codec\<close>), merging of structs (\<open>merges\<close>) and the network. Logging and metrics have no effect on the state and are left out. A removed listener is no
  longer followed. The channel of a watch on the tracker is unbounded, where the fixture panics beyond 100 events that nobody reads; one iteration of the loop of the delaying queue is one step;
  \<open>strings.ToLower\<close> is modelled on ASCII, to which the names of API resources are restricted. Of the REST client the TLS and authentication configuration is not modelled, nor are certificates and
  streams, which are input and output; of discovery the OpenAPI documents and the construction of clients are left out; \<open>util/jsonpath\<close> and \<open>util/csaupgrade\<close> rest on reflection or on libraries outside the repository; of
  \<open>tools/clientcmd\<close> the filling of a \<open>rest.Config\<close>, prompts and flags are left out;
  \<open>tools/events\<close> and the broadcaster of \<open>tools/record\<close> are goroutines around the same correlation; the generated clients, informers, listers and apply configurations
  are glue.
\<close>

end
